(* ===== verification/Prelude.thy ===== *)
theory Prelude
  imports "HOL-Library.Word"
begin

text \<open>
  Shared vocabulary of the development: machine-integer types, the outcome of a kernel
  routine (it returns, it panics, or it goes to sleep on a channel), programs as state
  transformers over such outcomes, and the weakest-precondition calculus with which the
  components are proved correct.  A program is sequenced with \<open>bnd\<close>; the predicate \<open>wp\<close>
  is computed by simplification, so that a component lemma is a few steps of \<open>simp\<close>.
\<close>

unbundle bit_operations_syntax

type_synonym u8 = "8 word"
type_synonym u16 = "16 word"
type_synonym u32 = "32 word"

section \<open>Outcomes and programs\<close>

text \<open>
  \<open>Done a s\<close>: the routine returned \<open>a\<close> in state \<open>s\<close>.  \<open>Panic m\<close>: it called \<open>panic(m)\<close>,
  which never returns.  \<open>Block c s\<close>: it called \<open>sleep\<close> on channel \<open>c\<close> in state \<open>s\<close>; the
  routine resumes at the loop head that guards the sleep.
\<close>

datatype ('s, 'c, 'a) outcome = Done 'a 's | Panic string | Block 'c 's

type_synonym ('s, 'c, 'a) prog = "'s \<Rightarrow> ('s, 'c, 'a) outcome"

definition ret :: "'a \<Rightarrow> ('s, 'c, 'a) prog" where
  "ret a = (\<lambda>s. Done a s)"

definition bnd :: "('s, 'c, 'a) prog \<Rightarrow> ('a \<Rightarrow> ('s, 'c, 'b) prog) \<Rightarrow> ('s, 'c, 'b) prog" where
  "bnd m f = (\<lambda>s. case m s of
      Done a t \<Rightarrow> f a t
    | Panic e \<Rightarrow> Panic e
    | Block c t \<Rightarrow> Block c t)"

definition thn :: "('s, 'c, 'a) prog \<Rightarrow> ('s, 'c, 'b) prog \<Rightarrow> ('s, 'c, 'b) prog" where
  "thn m n = bnd m (\<lambda>_. n)"

definition asks :: "('s \<Rightarrow> 'a) \<Rightarrow> ('s, 'c, 'a) prog" where
  "asks f = (\<lambda>s. Done (f s) s)"

definition upd :: "('s \<Rightarrow> 's) \<Rightarrow> ('s, 'c, unit) prog" where
  "upd f = (\<lambda>s. Done () (f s))"

definition panic :: "string \<Rightarrow> ('s, 'c, 'a) prog" where
  "panic e = (\<lambda>s. Panic e)"

definition block_on :: "'c \<Rightarrow> ('s, 'c, 'a) prog" where
  "block_on c = (\<lambda>s. Block c s)"

definition skip :: "('s, 'c, unit) prog" where
  "skip = ret ()"

definition whenP :: "bool \<Rightarrow> ('s, 'c, unit) prog \<Rightarrow> ('s, 'c, unit) prog" where
  "whenP b m = (if b then m else skip)"

text \<open>\<open>on_block m h\<close>: when \<open>m\<close> gives up the CPU, the routine's progress is recorded by \<open>h\<close>.\<close>

definition on_block :: "('s, 'c, 'a) prog \<Rightarrow> ('c \<Rightarrow> ('s, 'c, 'a) prog) \<Rightarrow> ('s, 'c, 'a) prog" where
  "on_block m h = (\<lambda>s. case m s of Done a t \<Rightarrow> Done a t | Panic e \<Rightarrow> Panic e | Block c t \<Rightarrow> h c t)"

primrec foreach :: "'x list \<Rightarrow> ('x \<Rightarrow> ('s, 'c, unit) prog) \<Rightarrow> ('s, 'c, unit) prog" where
  "foreach [] f = skip"
| "foreach (x # xs) f = thn (f x) (foreach xs f)"

lemmas prog_defs = ret_def bnd_def thn_def asks_def upd_def panic_def block_on_def
  skip_def whenP_def

lemma bnd_ret [simp]: "bnd (ret a) f = f a"
  by (simp add: ret_def bnd_def)

lemma bnd_ret_right [simp]: "bnd m ret = m"
  by (rule ext) (simp add: ret_def bnd_def split: outcome.splits)

lemma bnd_assoc: "bnd (bnd m f) g = bnd m (\<lambda>a. bnd (f a) g)"
  by (rule ext) (simp add: bnd_def split: outcome.splits)

section \<open>Weakest preconditions\<close>

text \<open>
  \<open>wp m Q s\<close>: from \<open>s\<close> the program returns without panicking or sleeping, and its result
  and final state satisfy \<open>Q\<close>.  \<open>wlp\<close> also admits that the program sleeps, in a state that
  satisfies \<open>B\<close>; panics are excluded by both.
\<close>

definition wlp :: "('s, 'c, 'a) prog \<Rightarrow> ('a \<Rightarrow> 's \<Rightarrow> bool) \<Rightarrow> ('c \<Rightarrow> 's \<Rightarrow> bool) \<Rightarrow> 's \<Rightarrow> bool" where
  "wlp m Q B s = (case m s of Done a t \<Rightarrow> Q a t | Panic e \<Rightarrow> False | Block c t \<Rightarrow> B c t)"

definition wp :: "('s, 'c, 'a) prog \<Rightarrow> ('a \<Rightarrow> 's \<Rightarrow> bool) \<Rightarrow> 's \<Rightarrow> bool" where
  "wp m Q s = wlp m Q (\<lambda>_ _. False) s"

lemma wlp_ret [simp]: "wlp (ret a) Q B s = Q a s"
  by (simp add: wlp_def ret_def)

lemma wlp_bnd [simp]: "wlp (bnd m f) Q B s = wlp m (\<lambda>a. wlp (f a) Q B) B s"
  by (simp add: wlp_def bnd_def split: outcome.splits)

lemma wlp_thn [simp]: "wlp (thn m n) Q B s = wlp m (\<lambda>_. wlp n Q B) B s"
  by (simp add: thn_def)

lemma wlp_asks [simp]: "wlp (asks f) Q B s = Q (f s) s"
  by (simp add: wlp_def asks_def)

lemma wlp_upd [simp]: "wlp (upd f) Q B s = Q () (f s)"
  by (simp add: wlp_def upd_def)

lemma wlp_panic [simp]: "wlp (panic e) Q B s = False"
  by (simp add: wlp_def panic_def)

lemma wlp_block_on [simp]: "wlp (block_on c) Q B s = B c s"
  by (simp add: wlp_def block_on_def)

lemma wlp_skip [simp]: "wlp skip Q B s = Q () s"
  by (simp add: skip_def)

lemma wlp_whenP [simp]: "wlp (whenP b m) Q B s = (if b then wlp m Q B s else Q () s)"
  by (simp add: whenP_def)

lemma wlp_on_block [simp]: "wlp (on_block m h) Q B s = wlp m Q (\<lambda>c. wlp (h c) Q B) s"
  by (simp add: wlp_def on_block_def split: outcome.splits)

lemma wp_on_block [simp]: "wp (on_block m h) Q s = wlp m Q (\<lambda>c. wp (h c) Q) s"
  by (simp add: wp_def [abs_def])

lemma wlp_if [simp]: "wlp (if b then m else n) Q B s = (if b then wlp m Q B s else wlp n Q B s)"
  by simp

lemma wlp_mono:
  assumes "wlp m Q B s" "\<And>a t. Q a t \<Longrightarrow> Q' a t" "\<And>c t. B c t \<Longrightarrow> B' c t"
  shows "wlp m Q' B' s"
  using assms by (simp add: wlp_def split: outcome.splits)

lemma wp_ret [simp]: "wp (ret a) Q s = Q a s"
  by (simp add: wp_def)

lemma wp_ret_fun [simp]: "wp (ret a) Q = Q a" "wlp (ret a) Q B = Q a"
  by (simp_all add: fun_eq_iff)

lemma wp_bnd [simp]: "wp (bnd m f) Q s = wp m (\<lambda>a. wp (f a) Q) s"
  by (simp add: wp_def cong: if_cong) (simp add: wlp_def wp_def split: outcome.splits)

lemma wp_skip_fun [simp]: "wp skip Q = Q ()" "wlp skip Q B = Q ()"
  by (simp_all add: skip_def)

lemma wp_nest: "wp (bnd m f) Q = wp m (\<lambda>a. wp (f a) Q)" "wp (thn m n) Q = wp m (\<lambda>_. wp n Q)"
  by (simp_all add: fun_eq_iff thn_def)

lemma wp_thn [simp]: "wp (thn m n) Q s = wp m (\<lambda>_. wp n Q) s"
  by (simp add: thn_def)

lemma wp_asks [simp]: "wp (asks f) Q s = Q (f s) s"
  by (simp add: wp_def)

lemma wp_upd [simp]: "wp (upd f) Q s = Q () (f s)"
  by (simp add: wp_def)

lemma wp_panic [simp]: "wp (panic e) Q s = False"
  by (simp add: wp_def)

lemma wp_block_on [simp]: "wp (block_on c) Q s = False"
  by (simp add: wp_def)

lemma wp_skip [simp]: "wp skip Q s = Q () s"
  by (simp add: wp_def)

lemma wp_whenP [simp]: "wp (whenP b m) Q s = (if b then wp m Q s else Q () s)"
  by (simp add: whenP_def)

lemma wp_if [simp]: "wp (if b then m else n) Q s = (if b then wp m Q s else wp n Q s)"
  by simp

lemma wp_mono:
  assumes "wp m Q s" "\<And>a t. Q a t \<Longrightarrow> Q' a t"
  shows "wp m Q' s"
  using assms by (simp add: wp_def wlp_def split: outcome.splits)

lemma wp_conj: "wp m Q s \<Longrightarrow> wp m R s \<Longrightarrow> wp m (\<lambda>a t. Q a t \<and> R a t) s"
  by (simp add: wp_def wlp_def split: outcome.splits)

lemma wp_DoneD: "wp m Q s \<Longrightarrow> \<exists>a t. m s = Done a t \<and> Q a t"
  by (simp add: wp_def wlp_def split: outcome.splits)

lemma wp_DoneI: "m s = Done a t \<Longrightarrow> Q a t \<Longrightarrow> wp m Q s"
  by (simp add: wp_def wlp_def)

lemma wp_Done_eq: "m s = Done a t \<Longrightarrow> wp m Q s = Q a t"
  by (simp add: wp_def wlp_def)

lemma wp_foreach_Nil [simp]: "wp (foreach [] f) Q s = Q () s"
  by simp

text \<open>A loop over a list keeps an invariant that says which elements have been handled.\<close>

lemma wp_foreach:
  assumes "I [] s"
    and "\<And>ys x zs t. xs = ys @ x # zs \<Longrightarrow> I ys t \<Longrightarrow> wp (f x) (\<lambda>_. I (ys @ [x])) t"
    and "\<And>t. I xs t \<Longrightarrow> Q () t"
  shows "wp (foreach xs f) Q s"
proof -
  have "I ys t \<Longrightarrow> xs = ys @ zs \<Longrightarrow> wp (foreach zs f) (\<lambda>_. I xs) t" for ys zs t
  proof (induction zs arbitrary: ys t)
    case Nil
    then show ?case by simp
  next
    case (Cons z zs)
    have "wp (f z) (\<lambda>_. I (ys @ [z])) t"
      using Cons.prems by (intro assms(2)) auto
    then show ?case
      using Cons.prems Cons.IH [of "ys @ [z]"] by (auto elim: wp_mono)
  qed
  from this [of "[]" s xs] assms(1,3) show ?thesis
    by (auto elim: wp_mono)
qed

section \<open>Kernel locks and sleep channels\<close>

text \<open>
  The spin locks of the kernel, named by the variable that holds them, and the addresses
  processes sleep on.  Inside a routine the state of a lock is whether this CPU holds it;
  the theory \<open>Spinlock\<close> models the implementation over several CPUs and shows that it
  gives this view.
\<close>

datatype lockid = Lptable | Lkmem | Lbcache | Lide | Licache | Lftable | Lpipe u32
  | Lticks | Linput | Lcons

datatype chan = ChBuf nat | ChInode nat | ChPipeRead u32 | ChPipeWrite u32 | ChProc nat
  | ChTicks | ChInput | ChNull

text \<open>
  Why a process gives up its CPU in \<open>sched\<close>: it sleeps on a channel and gave up a lock for
  it, it yields, or it has exited.
\<close>

datatype switch = SwSleep chan lockid | SwYield | SwExit

record kcore =
  held :: "lockid set"

definition lock :: "lockid \<Rightarrow> ('z kcore_scheme, 'c, unit) prog" where
  "lock l = bnd (asks held) (\<lambda>h.
     if l \<in> h then panic ''acquire'' else upd (\<lambda>s. s\<lparr>held := insert l (held s)\<rparr>))"

definition unlock :: "lockid \<Rightarrow> ('z kcore_scheme, 'c, unit) prog" where
  "unlock l = bnd (asks held) (\<lambda>h.
     if l \<in> h then upd (\<lambda>s. s\<lparr>held := held s - {l}\<rparr>) else panic ''release'')"

lemma wlp_lock [simp]:
  "wlp (lock l) Q B s = (l \<notin> held s \<and> Q () (s\<lparr>held := insert l (held s)\<rparr>))"
  by (simp add: lock_def)

lemma wlp_unlock [simp]:
  "wlp (unlock l) Q B s = (l \<in> held s \<and> Q () (s\<lparr>held := held s - {l}\<rparr>))"
  by (simp add: unlock_def)

lemma wp_lock [simp]:
  "wp (lock l) Q s = (l \<notin> held s \<and> Q () (s\<lparr>held := insert l (held s)\<rparr>))"
  by (simp add: wp_def)

lemma wp_unlock [simp]:
  "wp (unlock l) Q s = (l \<in> held s \<and> Q () (s\<lparr>held := held s - {l}\<rparr>))"
  by (simp add: wp_def)

lemma insert_minus_same [simp]: "l \<notin> h \<Longrightarrow> insert l h - {l} = h"
  by simp

lemma held_restore [simp]: "held s = h \<Longrightarrow> s\<lparr>held := h\<rparr> = s"
  by auto

section \<open>Generic lemmas\<close>

lemma list_update_eq_nth: "i < length xs \<Longrightarrow> xs[i := xs ! i] = xs"
  by simp

lemma unat_less_size: "unat (x :: 'a::len word) < 2 ^ LENGTH('a)"
  by simp

text \<open>An \<open>int\<close> of the C code is a word read as signed.\<close>

lemma sint_u32: "sint (n :: u32) = (if unat n < 2147483648 then int (unat n) else int (unat n) - 4294967296)"
proof -
  define k where "k = unat n"
  have u: "uint n = int k" unfolding k_def by (rule uint_nat)
  have lt: "k < 4294967296" using unsigned_less [of n] by (simp add: k_def)
  have "bit (int k) 31 \<longleftrightarrow> \<not> k < 2147483648"
  proof (cases "k < 2147483648")
    case True
    then have "int k div 2147483648 = 0" by (simp add: div_pos_pos_trivial)
    then show ?thesis using True unfolding bit_iff_odd by simp
  next
    case False
    then have "int k div 2147483648 = 1" using lt by (simp add: div_pos_geq)
    then show ?thesis using False unfolding bit_iff_odd by simp
  qed
  then show ?thesis
    using lt unfolding sint_uint u k_def [symmetric]
    by (simp add: signed_take_bit_eq_take_bit_minus take_bit_int_eq_self)
qed

lemma sint_u32_sign:
  "0 < sint (n :: u32) \<longleftrightarrow> 0 < unat n \<and> unat n < 2147483648"
  "sint (n :: u32) < 0 \<longleftrightarrow> 2147483648 \<le> unat n"
proof -
  have "unat n < 4294967296" using unsigned_less [of n] by simp
  then show "0 < sint n \<longleftrightarrow> 0 < unat n \<and> unat n < 2147483648" "sint n < 0 \<longleftrightarrow> 2147483648 \<le> unat n"
    by (simp_all add: sint_u32 del: of_nat_unat)
qed

lemma unat_sub_word:
  "unat ((a :: u32) - b) = (if unat b \<le> unat a then unat a - unat b else 2 ^ 32 + unat a - unat b)"
  unfolding unat_sub_if' by auto

lemma unat_add_small: "unat a + unat b < 2 ^ 32 \<Longrightarrow> unat (a + b :: u32) = unat a + unat b"
  by (simp add: unat_word_ariths)

lemma unat_of_nat_small: "n < 2 ^ 32 \<Longrightarrow> unat (of_nat n :: u32) = n"
  by (simp add: unat_of_nat take_bit_nat_eq_self)

end
