(* ===== verification/Physmem.thy ===== *)
theory Physmem
  imports Prelude
begin

text \<open>
  Physical memory as the kernel sees it: bytes indexed by 32-bit addresses, with the
  little-endian word accesses that pointers, page-table entries and stack words use.  The
  page macros of \<open>kernel/mmu.h\<close> are here too.  The lemmas are the store/load laws and the
  arithmetic of pages: two words of aligned arrays are equal or disjoint.
\<close>

type_synonym mem = "u32 \<Rightarrow> u8"

section \<open>Bytes and words\<close>

definition byte_of :: "nat \<Rightarrow> u32 \<Rightarrow> u8" where
  "byte_of k w = ucast (drop_bit (8 * k) w)"

definition join4 :: "u8 \<Rightarrow> u8 \<Rightarrow> u8 \<Rightarrow> u8 \<Rightarrow> u32" where
  "join4 b0 b1 b2 b3 =
     (ucast b0 OR push_bit 8 (ucast b1)) OR (push_bit 16 (ucast b2) OR push_bit 24 (ucast b3))"

definition load32 :: "mem \<Rightarrow> u32 \<Rightarrow> u32" where
  "load32 m a = join4 (m a) (m (a + 1)) (m (a + 2)) (m (a + 3))"

definition store32 :: "mem \<Rightarrow> u32 \<Rightarrow> u32 \<Rightarrow> mem" where
  "store32 m a w = m(a := byte_of 0 w, a + 1 := byte_of 1 w, a + 2 := byte_of 2 w, a + 3 := byte_of 3 w)"

lemma join4_bytes [simp]: "join4 (byte_of 0 w) (byte_of 1 w) (byte_of 2 w) (byte_of 3 w) = w"
proof (rule bit_word_eqI)
  fix n assume "n < LENGTH(32)"
  then have n: "n < 32" by simp
  consider "n < 8" | "8 \<le> n" "n < 16" | "16 \<le> n" "n < 24" | "24 \<le> n" by linarith
  then show "bit (join4 (byte_of 0 w) (byte_of 1 w) (byte_of 2 w) (byte_of 3 w)) n = bit w n"
    by cases (use n in \<open>auto simp: join4_def byte_of_def bit_simps\<close>)
qed

lemma byte_of_join4 [simp]:
  "byte_of 0 (join4 b0 b1 b2 b3) = b0" "byte_of (Suc 0) (join4 b0 b1 b2 b3) = b1"
  "byte_of 2 (join4 b0 b1 b2 b3) = b2" "byte_of 3 (join4 b0 b1 b2 b3) = b3"
proof -
  have sz: "bit (b :: u8) n \<Longrightarrow> n < 8" for b n
    using bit_imp_le_length [of b n] by simp
  show "byte_of 0 (join4 b0 b1 b2 b3) = b0"
    by (rule bit_word_eqI) (auto simp: join4_def byte_of_def bit_simps dest: sz)
  show "byte_of (Suc 0) (join4 b0 b1 b2 b3) = b1"
    by (rule bit_word_eqI) (auto simp: join4_def byte_of_def bit_simps dest: sz)
  show "byte_of 2 (join4 b0 b1 b2 b3) = b2"
    by (rule bit_word_eqI) (auto simp: join4_def byte_of_def bit_simps dest: sz)
  show "byte_of 3 (join4 b0 b1 b2 b3) = b3"
    by (rule bit_word_eqI) (auto simp: join4_def byte_of_def bit_simps dest: sz)
qed

text \<open>The address \<open>b\<close> lies in the \<open>n\<close> bytes from \<open>a\<close> (no wrap-around of the range needed).\<close>

definition inrange :: "u32 \<Rightarrow> u32 \<Rightarrow> u32 \<Rightarrow> bool" where
  "inrange a n b \<longleftrightarrow> b - a < n"

definition memset :: "mem \<Rightarrow> u32 \<Rightarrow> u8 \<Rightarrow> u32 \<Rightarrow> mem" where
  "memset m a c n = (\<lambda>b. if inrange a n b then c else m b)"

lemma inrange4: "inrange a 4 b \<longleftrightarrow> b = a \<or> b = a + 1 \<or> b = a + 2 \<or> b = a + 3"
proof
  assume "inrange a 4 b"
  then have "unat (b - a) < 4" by (simp add: inrange_def word_less_nat_alt)
  then have "unat (b - a) = unat (0::u32) \<or> unat (b - a) = unat (1::u32)
    \<or> unat (b - a) = unat (2::u32) \<or> unat (b - a) = unat (3::u32)"
    by (simp; linarith)
  then have "b - a = 0 \<or> b - a = 1 \<or> b - a = 2 \<or> b - a = 3"
    by (simp only: word_unat_eq_iff [symmetric])
  then show "b = a \<or> b = a + 1 \<or> b = a + 2 \<or> b = a + 3"
    by (auto simp: algebra_simps)
next
  assume "b = a \<or> b = a + 1 \<or> b = a + 2 \<or> b = a + 3"
  then show "inrange a 4 b" by (auto simp: inrange_def)
qed

lemma store32_other: "\<not> inrange a 4 b \<Longrightarrow> store32 m a w b = m b"
  by (simp add: inrange4 store32_def)

lemma load32_store32 [simp]: "load32 (store32 m a w) a = w"
  using join4_bytes [of w] by (simp add: load32_def store32_def)

lemma load32_cong:
  assumes "\<And>c. inrange b 4 c \<Longrightarrow> m' c = m c"
  shows "load32 m' b = load32 m b"
  using assms by (simp add: load32_def inrange4)

lemma load32_store32_other:
  assumes "\<And>c. inrange b 4 c \<Longrightarrow> \<not> inrange a 4 c"
  shows "load32 (store32 m a w) b = load32 m b"
  using assms by (intro load32_cong) (simp add: store32_other)

section \<open>Pages\<close>

text \<open>\<open>PGSIZE\<close>, \<open>PGROUNDUP\<close>, \<open>PGROUNDDOWN\<close>, \<open>PTE_ADDR\<close>, \<open>PDX\<close> and \<open>PTX\<close> of \<open>mmu.h\<close>.\<close>

definition PGSIZE :: u32 where "PGSIZE = 4096"
definition PHYSTOP :: u32 where "PHYSTOP = 0x1000000"
definition USERTOP :: u32 where "USERTOP = 0xA0000"

definition PGROUNDUP :: "u32 \<Rightarrow> u32" where
  "PGROUNDUP sz = (sz + PGSIZE - 1) AND NOT (PGSIZE - 1)"

definition PGROUNDDOWN :: "u32 \<Rightarrow> u32" where
  "PGROUNDDOWN a = a AND NOT (PGSIZE - 1)"

definition PDX :: "u32 \<Rightarrow> u32" where "PDX la = drop_bit 22 la AND 0x3FF"
definition PTX :: "u32 \<Rightarrow> u32" where "PTX la = drop_bit 12 la AND 0x3FF"
definition PTE_ADDR :: "u32 \<Rightarrow> u32" where "PTE_ADDR p = p AND NOT 0xFFF"
definition PTE_P :: u32 where "PTE_P = 1"
definition PTE_W :: u32 where "PTE_W = 2"
definition PTE_U :: u32 where "PTE_U = 4"

text \<open>The page of an address, and page alignment in the three forms the code tests it.\<close>

definition page_aligned :: "u32 \<Rightarrow> bool" where
  "page_aligned a \<longleftrightarrow> a mod PGSIZE = 0"

lemma u32_bound: "unat (a :: u32) < 4294967296"
  using unsigned_less [of a] by simp

lemma nat_page_floor: "n mod 4096 = 0 \<Longrightarrow> n div 4096 * 4096 = (n :: nat)"
  using div_mult_mod_eq [of n 4096] by simp

lemma and_not_mask_eq: "(a :: u32) AND NOT (mask n) = push_bit n (drop_bit n a)"
  by (rule bit_word_eqI) (auto simp: bit_simps)

lemma unat_and_not_fff: "unat ((a :: u32) AND NOT 0xFFF) = unat a div 4096 * 4096"
proof -
  have m: "(0xFFF :: u32) = mask 12"
    by (simp add: mask_eq_exp_minus_1)
  have "unat a div 4096 * 4096 \<le> unat a" by simp
  also have "\<dots> < 4294967296" using u32_bound [of a] by simp
  finally have "unat a div 4096 * 4096 < 4294967296" .
  then have "take_bit 32 (push_bit 12 (drop_bit 12 (unat a))) = unat a div 4096 * 4096"
    by (simp add: push_bit_eq_mult drop_bit_eq_div take_bit_eq_mod)
  then show ?thesis
    unfolding m and_not_mask_eq by (simp add: unsigned_push_bit_eq unat_drop_bit_eq)
qed

lemma unat_and_3ff: "unat ((a :: u32) AND 0x3FF) = unat a mod 1024"
proof -
  have m: "(0x3FF :: u32) = mask 10"
    by (simp add: mask_eq_exp_minus_1)
  show ?thesis
    unfolding m by (simp add: unsigned_take_bit_eq take_bit_eq_mod unat_mod_distrib flip: take_bit_eq_mask)
qed

named_theorems page_unat "page arithmetic in the natural numbers"

lemma unat_PGROUNDDOWN [page_unat]: "unat (PGROUNDDOWN a) = unat a div 4096 * 4096"
  using unat_and_not_fff [of a] by (simp add: PGROUNDDOWN_def PGSIZE_def)

lemma unat_PTE_ADDR [page_unat]: "unat (PTE_ADDR a) = unat a div 4096 * 4096"
  using unat_and_not_fff [of a] by (simp add: PTE_ADDR_def)

lemma unat_PDX [page_unat]: "unat (PDX a) = unat a div 4194304"
proof -
  have "unat a < 4294967296" using u32_bound [of a] by simp
  then show ?thesis
    unfolding PDX_def unat_and_3ff by (simp add: drop_bit_eq_div unat_div_distrib)
qed

lemma unat_PTX [page_unat]: "unat (PTX a) = unat a div 4096 mod 1024"
  unfolding PTX_def unat_and_3ff by (simp add: drop_bit_eq_div unat_div_distrib)

lemma unat_PGROUNDUP [page_unat]:
  assumes "unat sz + 4095 < 2 ^ 32"
  shows "unat (PGROUNDUP sz) = (unat sz + 4095) div 4096 * 4096"
proof -
  have "unat (sz + 4095) = unat sz + 4095"
    using assms by (simp add: unat_word_ariths)
  then show ?thesis
    using unat_and_not_fff [of "sz + 4095"] by (simp add: PGROUNDUP_def PGSIZE_def add.commute)
qed

lemma page_aligned_unat [page_unat]: "page_aligned a \<longleftrightarrow> unat a mod 4096 = 0"
  by (simp add: page_aligned_def PGSIZE_def word_unat_eq_iff unat_mod_distrib)

lemma page_aligned_0 [simp]: "page_aligned 0"
  by (simp add: page_unat)

lemma page_aligned_round [simp]: "page_aligned (PGROUNDDOWN a)" "page_aligned (PTE_ADDR a)"
  by (simp_all add: page_unat)

lemma PTE_ADDR_aligned [simp]: "page_aligned a \<Longrightarrow> PTE_ADDR a = a"
  by (simp add: word_unat_eq_iff page_unat nat_page_floor)

lemma PGROUNDDOWN_aligned [simp]: "page_aligned a \<Longrightarrow> PGROUNDDOWN a = a"
  by (simp add: word_unat_eq_iff page_unat nat_page_floor)

lemma inrange_unat:
  assumes "unat a + unat n \<le> 2 ^ 32"
  shows "inrange a n b \<longleftrightarrow> unat a \<le> unat b \<and> unat b < unat a + unat n"
proof -
  have "unat b < 4294967296" using u32_bound [of b] by simp
  then show ?thesis
    using assms by (auto simp: inrange_def word_less_nat_alt unat_sub_word)
qed

definition in_page :: "u32 \<Rightarrow> u32 \<Rightarrow> bool" where
  "in_page p b \<longleftrightarrow> inrange p PGSIZE b"

lemma aligned_room: "page_aligned p \<Longrightarrow> unat p + 4096 \<le> 2 ^ 32"
proof -
  assume "page_aligned p"
  then have k: "unat p = 4096 * (unat p div 4096)"
    using div_mult_mod_eq [of "unat p" 4096] by (simp add: page_unat)
  then have "unat p div 4096 < 1048576"
    using u32_bound [of p] by linarith
  then have "4096 * (unat p div 4096) + 4096 \<le> 4294967296" by linarith
  with k show ?thesis by simp
qed

lemma in_page_unat: "page_aligned p \<Longrightarrow> in_page p b \<longleftrightarrow> unat b div 4096 = unat p div 4096"
proof -
  assume p: "page_aligned p"
  have k: "unat p = 4096 * (unat p div 4096)"
    using p div_mult_mod_eq [of "unat p" 4096] by (simp add: page_unat)
  have "unat p \<le> unat b \<and> unat b < unat p + 4096 \<longleftrightarrow> unat b div 4096 = unat p div 4096"
    using div_mult_mod_eq [of "unat b" 4096] mod_less_divisor [of 4096 "unat b"] k by linarith
  then show ?thesis
    using aligned_room [OF p] by (simp add: in_page_def inrange_unat PGSIZE_def)
qed

lemma in_page_unique: "page_aligned p \<Longrightarrow> page_aligned q \<Longrightarrow> in_page p b \<Longrightarrow> in_page q b \<Longrightarrow> p = q"
  by (simp add: in_page_unat page_unat word_unat_eq_iff) (metis nat_page_floor)

lemma in_page_self: "page_aligned p \<Longrightarrow> in_page p p"
  by (simp add: in_page_unat)

text \<open>Entry \<open>i\<close> of a table of words that fills a page (\<open>&pgtab[i]\<close>).\<close>

definition slot :: "u32 \<Rightarrow> u32 \<Rightarrow> u32" where
  "slot p i = p + 4 * i"

lemma unat_slot: 
  assumes "page_aligned p" "i < 1024"
  shows "unat (slot p i) = unat p + 4 * unat i"
proof -
  have "unat i < 1024" using assms(2) by (simp add: word_less_nat_alt)
  moreover have "unat (4 * i) = 4 * unat i"
    using \<open>unat i < 1024\<close> by (simp add: unat_word_ariths)
  ultimately show ?thesis
    using aligned_room [OF assms(1)] by (simp add: slot_def unat_word_ariths)
qed

lemma slot_range:
  assumes "page_aligned p" "i < 1024"
  shows "inrange (slot p i) 4 c \<longleftrightarrow> unat p + 4 * unat i \<le> unat c \<and> unat c < unat p + 4 * unat i + 4"
proof -
  have "unat i < 1024" using assms(2) by (simp add: word_less_nat_alt)
  then show ?thesis
    using assms aligned_room [OF assms(1)] by (subst inrange_unat) (simp_all add: unat_slot)
qed

lemma slot_in_page:
  assumes "page_aligned p" "i < 1024" "inrange (slot p i) 4 c"
  shows "in_page p c"
proof -
  have "unat i < 1024" using assms(2) by (simp add: word_less_nat_alt)
  then show ?thesis
    using assms aligned_room [OF assms(1)] by (simp add: in_page_def inrange_unat PGSIZE_def slot_range)
qed

lemma PDX_less: "PDX a < 1024"
  using u32_bound [of a] by (simp add: word_less_nat_alt page_unat; arith)

lemma PTX_less: "PTX a < 1024"
  by (simp add: word_less_nat_alt page_unat)

lemma slot_other_page:
  assumes "page_aligned p" "page_aligned q" "p \<noteq> q" "i < 1024" "inrange (slot p i) 4 c"
  shows "\<not> in_page q c"
  using assms slot_in_page in_page_unique by blast

lemma load_store_slot:
  assumes "page_aligned p" "page_aligned q" "i < 1024" "j < 1024" "\<not> (p = q \<and> i = j)"
  shows "load32 (store32 m (slot p i) w) (slot q j) = load32 m (slot q j)"
proof (rule load32_store32_other)
  fix c assume c: "inrange (slot q j) 4 c"
  show "\<not> inrange (slot p i) 4 c"
  proof (cases "p = q")
    case True
    with assms(5) have "unat i \<noteq> unat j" by (simp add: word_unat_eq_iff)
    with True c assms show ?thesis by (auto simp: slot_range)
  next
    case False
    with assms c show ?thesis
      using slot_in_page in_page_unique by blast
  qed
qed

text \<open>A page outside a modified region reads as before.\<close>

lemma load32_page_cong:
  assumes "page_aligned p" "i < 1024" "\<And>c. in_page p c \<Longrightarrow> m' c = m c"
  shows "load32 m' (slot p i) = load32 m (slot p i)"
  using assms by (intro load32_cong) (blast dest: slot_in_page)

lemma slot_0 [simp]: "slot p 0 = p"
  by (simp add: slot_def)

lemma load32_base_cong:
  assumes "page_aligned p" "\<And>c. in_page p c \<Longrightarrow> m' c = m c"
  shows "load32 m' p = load32 m p"
  using load32_page_cong [of p 0 m' m] assms by simp

lemma store32_slot_outside:
  assumes "page_aligned p" "i < 1024" "\<not> in_page p b"
  shows "store32 m (slot p i) w b = m b"
  using assms by (intro store32_other) (blast dest: slot_in_page)

lemma memset_outside: "\<not> in_page p b \<Longrightarrow> memset m p c PGSIZE b = m b"
  by (simp add: memset_def in_page_def)

lemma memset_inside: "in_page p b \<Longrightarrow> memset m p c PGSIZE b = c"
  by (simp add: memset_def in_page_def)

lemma load32_memset0:
  assumes "page_aligned p" "i < 1024"
  shows "load32 (memset m p 0 PGSIZE) (slot p i) = 0"
proof -
  have "load32 (memset m p 0 PGSIZE) (slot p i) = load32 (\<lambda>_. 0) (slot p i)"
    using assms by (intro load32_page_cong) (simp_all add: memset_inside)
  then show ?thesis by (simp add: load32_def join4_def)
qed

end
