(* ===== verification/Kalloc.thy ===== *)
theory Kalloc
  imports Physmem
begin

text \<open>
  The physical page allocator, \<open>kernel/kalloc.c\<close>.  Free pages form a singly linked list
  whose links are stored in the first word of each free page, so the model keeps the list
  in physical memory and the abstraction relation \<open>flist\<close> reads it back.  The locale
  \<open>page_allocator\<close> is the interface the virtual-memory code relies on; it is interpreted
  on \<open>kalloc\<close> and \<open>kfree\<close> here.
\<close>

record kmem_state = kcore +
  phys :: mem
  freelist :: u32
  kend :: u32    \<comment> \<open>the linker symbol \<open>end\<close>: first address after the kernel image\<close>
  kdata :: u32   \<comment> \<open>the linker symbol \<open>data\<close>: start of the writable kernel data\<close>

section \<open>Operations\<close>

definition kfree :: "u32 \<Rightarrow> ('z kmem_state_scheme, switch, unit) prog" where
  "kfree v =
     bnd (asks kend) (\<lambda>e.
     if v mod PGSIZE \<noteq> 0 \<or> v < e \<or> PHYSTOP \<le> v then panic ''kfree'' else
     thn (upd (\<lambda>s. s\<lparr>phys := memset (phys s) v 1 PGSIZE\<rparr>)) (
     thn (lock Lkmem) (
     thn (upd (\<lambda>s. s\<lparr>phys := store32 (phys s) v (freelist s)\<rparr>)) (
     thn (upd (\<lambda>s. s\<lparr>freelist := v\<rparr>))
         (unlock Lkmem)))))"

definition kalloc :: "('z kmem_state_scheme, switch, u32) prog" where
  "kalloc =
     thn (lock Lkmem) (
     bnd (asks freelist) (\<lambda>r.
     thn (whenP (r \<noteq> 0) (upd (\<lambda>s. s\<lparr>freelist := load32 (phys s) r\<rparr>))) (
     thn (unlock Lkmem) (ret r))))"

text \<open>\<open>for(; p + PGSIZE <= PHYSTOP; p += PGSIZE) kfree(p)\<close>\<close>

function kinit_loop :: "u32 \<Rightarrow> ('z kmem_state_scheme, switch, unit) prog" where
  "kinit_loop p =
     (if p + PGSIZE \<le> PHYSTOP then thn (kfree p) (kinit_loop (p + PGSIZE)) else skip)"
  by pat_completeness auto
termination
proof (relation "measure (\<lambda>p. 2 ^ 33 - (if p + PGSIZE \<le> PHYSTOP then unat (p + PGSIZE) else 2 ^ 33))")
  fix p :: u32
  assume a: "p + PGSIZE \<le> PHYSTOP"
  define q where "q = p + PGSIZE"
  have "unat q \<le> 16777216"
    using a by (simp add: word_le_nat_alt PHYSTOP_def flip: q_def)
  moreover from this have "unat (q + PGSIZE) = unat q + 4096"
    by (simp add: PGSIZE_def unat_word_ariths)
  ultimately show "(p + PGSIZE, p) \<in> measure
      (\<lambda>p. 2 ^ 33 - (if p + PGSIZE \<le> PHYSTOP then unat (p + PGSIZE) else 2 ^ 33))"
    using a by (auto simp flip: q_def)
qed simp

declare kinit_loop.simps [simp del]

definition kinit :: "('z kmem_state_scheme, switch, unit) prog" where
  "kinit = bnd (asks kend) (\<lambda>e. kinit_loop (PGROUNDUP e))"

section \<open>The free list in memory\<close>

fun flist :: "mem \<Rightarrow> u32 \<Rightarrow> u32 list \<Rightarrow> bool" where
  "flist m p [] = (p = 0)"
| "flist m p (x # xs) = (p = x \<and> x \<noteq> 0 \<and> flist m (load32 m x) xs)"

text \<open>A page the allocator may hand out.\<close>

definition page_ok :: "u32 \<Rightarrow> u32 \<Rightarrow> bool" where
  "page_ok e v \<longleftrightarrow> v mod PGSIZE = 0 \<and> e \<le> v \<and> v < PHYSTOP"

definition kmem_inv :: "'z kmem_state_scheme \<Rightarrow> u32 list \<Rightarrow> bool" where
  "kmem_inv s xs \<longleftrightarrow> kend s \<noteq> 0 \<and> flist (phys s) (freelist s) xs \<and> distinct xs
     \<and> (\<forall>x \<in> set xs. page_ok (kend s) x)"

text \<open>Nothing but the bytes of free pages changed, and no other field.\<close>

definition outside :: "u32 list \<Rightarrow> mem \<Rightarrow> mem \<Rightarrow> bool" where
  "outside ps m m' \<longleftrightarrow> (\<forall>b. (\<forall>p \<in> set ps. \<not> in_page p b) \<longrightarrow> m' b = m b)"

lemma outsideD: "outside ps m m' \<Longrightarrow> (\<And>p. p \<in> set ps \<Longrightarrow> \<not> in_page p b) \<Longrightarrow> m' b = m b"
  by (simp add: outside_def)

lemma outside_refl [simp]: "outside ps m m"
  by (simp add: outside_def)

lemma page_ok_aligned: "page_ok e v \<Longrightarrow> page_aligned v"
  by (simp add: page_ok_def page_aligned_def)

lemma flist_cong:
  "flist m p xs \<Longrightarrow> (\<And>x. x \<in> set xs \<Longrightarrow> load32 m' x = load32 m x) \<Longrightarrow> flist m' p xs"
  by (induction xs arbitrary: p) auto

lemma flist_zero [simp]: "flist m 0 xs \<longleftrightarrow> xs = []"
  by (cases xs) auto

lemma flist_unique: "flist m p xs \<Longrightarrow> flist m p ys \<Longrightarrow> xs = ys"
proof (induction xs arbitrary: p ys)
  case Nil
  then show ?case by (cases ys) auto
next
  case (Cons x xs)
  then show ?case by (cases ys) auto
qed

text \<open>Memory that agrees on the free pages keeps the free list.\<close>

lemma kmem_inv_mem:
  assumes "kmem_inv s xs"
    and "\<And>x b. x \<in> set xs \<Longrightarrow> in_page x b \<Longrightarrow> m' b = phys s b"
  shows "kmem_inv (s\<lparr>phys := m'\<rparr>) xs"
proof -
  have "load32 m' x = load32 (phys s) x" if "x \<in> set xs" for x
    using that assms by (intro load32_base_cong) (auto simp: kmem_inv_def page_ok_aligned)
  then show ?thesis
    using assms(1) by (auto simp: kmem_inv_def intro: flist_cong)
qed

lemma kmem_inv_held [simp]: "kmem_inv (s\<lparr>held := h\<rparr>) xs = kmem_inv s xs"
  by (simp add: kmem_inv_def)

section \<open>Correctness of the operations\<close>

lemma kmem_inv_push:
  assumes inv: "kmem_inv s xs" and ok: "page_ok (kend s) v" and new: "v \<notin> set xs"
  shows "kmem_inv (s\<lparr>phys := store32 (memset (phys s) v 1 PGSIZE) v (freelist s), freelist := v\<rparr>) (v # xs)"
proof -
  let ?m = "store32 (memset (phys s) v 1 PGSIZE) v (freelist s)"
  have al: "page_aligned v" using ok by (rule page_ok_aligned)
  have "load32 ?m x = load32 (phys s) x" if x: "x \<in> set xs" for x
  proof -
    from x inv have xal: "page_aligned x" by (auto simp: kmem_inv_def page_ok_aligned)
    have "\<not> in_page v b" if "in_page x b" for b
      using that x new in_page_unique [OF xal al] by blast
    then show ?thesis
      using al xal store32_slot_outside [of v 0] by (intro load32_base_cong) (simp_all add: memset_outside)
  qed
  then have "flist ?m (freelist s) xs"
    using inv by (auto simp: kmem_inv_def intro: flist_cong)
  moreover have "v \<noteq> 0"
    using ok inv by (auto simp: page_ok_def kmem_inv_def)
  ultimately show ?thesis
    using assms by (simp add: kmem_inv_def)
qed

lemma outside_push:
  assumes "page_aligned v"
  shows "outside [v] m (store32 (memset m v 1 PGSIZE) v w)"
  using assms store32_slot_outside [of v 0] by (simp add: outside_def memset_outside)

lemma wp_kfree:
  assumes "kmem_inv s xs" "page_ok (kend s) v" "v \<notin> set xs" "Lkmem \<notin> held s"
    and "\<And>m. outside [v] (phys s) m \<Longrightarrow> kmem_inv (s\<lparr>phys := m, freelist := v\<rparr>) (v # xs) \<Longrightarrow>
           Q () (s\<lparr>phys := m, freelist := v\<rparr>)"
  shows "wp (kfree v) Q s"
proof -
  have "\<not> (v mod PGSIZE \<noteq> 0 \<or> v < kend s \<or> PHYSTOP \<le> v)"
    using assms(2) by (auto simp: page_ok_def not_less not_le)
  then show ?thesis
    using assms kmem_inv_push [OF assms(1-3)] outside_push [of v]
    by (simp add: kfree_def page_ok_aligned)
qed

lemma wp_kalloc:
  assumes "kmem_inv s xs" "Lkmem \<notin> held s"
    and "xs = [] \<Longrightarrow> Q 0 s"
    and "\<And>v ys. xs = v # ys \<Longrightarrow> v \<noteq> 0 \<Longrightarrow> page_ok (kend s) v \<Longrightarrow>
           kmem_inv (s\<lparr>freelist := load32 (phys s) v\<rparr>) ys \<Longrightarrow>
           Q v (s\<lparr>freelist := load32 (phys s) v\<rparr>)"
  shows "wp kalloc Q s"
proof (cases xs)
  case Nil
  then have "freelist s = 0" using assms(1) by (simp add: kmem_inv_def)
  then show ?thesis using Nil assms(2,3) by (simp add: kalloc_def)
next
  case (Cons v ys)
  then have "freelist s = v" "v \<noteq> 0" "page_ok (kend s) v"
    "kmem_inv (s\<lparr>freelist := load32 (phys s) v\<rparr>) ys"
    using assms(1) by (auto simp: kmem_inv_def)
  then show ?thesis using Cons assms(2,4) by (simp add: kalloc_def)
qed

lemma outside_trans: "outside ps m m' \<Longrightarrow> outside ps m' m'' \<Longrightarrow> outside ps m m''"
  by (simp add: outside_def)

lemma outside_mono: "outside ps m m' \<Longrightarrow> set ps \<subseteq> set qs \<Longrightarrow> outside qs m m'"
  by (auto simp: outside_def)

section \<open>Initialisation\<close>

lemma unat_PHYSTOP: "unat PHYSTOP = 16777216"
  by (simp add: PHYSTOP_def)

lemma page_ok_unat:
  "page_ok e v \<longleftrightarrow> unat v mod 4096 = 0 \<and> unat e \<le> unat v \<and> unat v < 16777216"
  by (simp add: page_ok_def word_le_nat_alt word_less_nat_alt unat_PHYSTOP word_unat_eq_iff
      PGSIZE_def unat_mod_distrib)

lemma page_gap: "m mod 4096 = 0 \<Longrightarrow> n mod 4096 = 0 \<Longrightarrow> m < n \<Longrightarrow> m + 4096 \<le> (n :: nat)"
proof -
  assume m: "m mod 4096 = 0" and n: "n mod 4096 = 0" and less: "m < n"
  then obtain a b where "m = 4096 * a" "n = 4096 * b"
    by (metis mod_0_imp_dvd dvdE)
  with less have "a < b" by simp
  then have "a + 1 \<le> b" by simp
  then have "4096 * (a + 1) \<le> 4096 * b" by (rule mult_le_mono2)
  with \<open>m = 4096 * a\<close> \<open>n = 4096 * b\<close> show ?thesis by simp
qed

lemma wp_kinit_loop:
  assumes "kmem_inv s xs" "set xs = {q. page_ok (kend s) q \<and> q < p}" "Lkmem \<notin> held s"
    and "page_aligned p" "kend s \<le> p" "p \<le> PHYSTOP"
  shows "wp (kinit_loop p) (\<lambda>_ t. kend t = kend s \<and> held t = held s
           \<and> (\<exists>ys. kmem_inv t ys \<and> set ys = {q. page_ok (kend s) q})) s"
  using assms
proof (induction p arbitrary: s xs rule: kinit_loop.induct)
  case (1 p)
  have pn: "unat p mod 4096 = 0" "unat (kend s) \<le> unat p" "unat p \<le> 16777216"
    using "1.prems"(4-6) by (simp_all add: page_unat word_le_nat_alt unat_PHYSTOP)
  have step: "unat (p + PGSIZE) = unat p + 4096"
    using pn by (simp add: PGSIZE_def unat_word_ariths)
  show ?case
  proof (cases "p + PGSIZE \<le> PHYSTOP")
    case True
    then have le: "unat p + 4096 \<le> 16777216"
      by (simp add: word_le_nat_alt step unat_PHYSTOP)
    have ok: "page_ok (kend s) p"
      using pn le by (simp add: page_ok_unat)
    have new: "p \<notin> set xs"
      using "1.prems"(2) by simp
    have grow: "insert p {q. page_ok (kend s) q \<and> q < p} = {q. page_ok (kend s) q \<and> q < p + PGSIZE}"
    proof -
      have "q < p + PGSIZE \<longleftrightarrow> q < p \<or> q = p" if q: "page_ok (kend s) q" for q
      proof (cases "unat p < unat q")
        case True
        then have "unat p + 4096 \<le> unat q"
          using q pn page_gap [of "unat p" "unat q"] by (simp add: page_ok_unat)
        then show ?thesis by (auto simp: word_less_nat_alt step)
      qed (auto simp: word_less_nat_alt step word_unat_eq_iff)
      with ok show ?thesis by auto
    qed
    have "wp (kfree p) (\<lambda>_. wp (kinit_loop (p + PGSIZE)) (\<lambda>_ t. kend t = kend s \<and> held t = held s
           \<and> (\<exists>ys. kmem_inv t ys \<and> set ys = {q. page_ok (kend s) q}))) s"
    proof (rule wp_kfree [OF "1.prems"(1) ok new "1.prems"(3)])
      fix m assume inv: "kmem_inv (s\<lparr>phys := m, freelist := p\<rparr>) (p # xs)"
      have "page_aligned (p + PGSIZE)"
        using pn by (simp add: page_unat step)
      moreover have "kend s \<le> p + PGSIZE"
        using pn by (simp add: word_le_nat_alt step)
      ultimately show "wp (kinit_loop (p + PGSIZE)) (\<lambda>_ t. kend t = kend s \<and> held t = held s
           \<and> (\<exists>ys. kmem_inv t ys \<and> set ys = {q. page_ok (kend s) q})) (s\<lparr>phys := m, freelist := p\<rparr>)"
        using "1.IH" [OF True inv] "1.prems"(2,3) grow True by simp
    qed
    then show ?thesis
      using True by (simp add: kinit_loop.simps [of p])
  next
    case False
    then have "16777216 < unat p + 4096"
      by (simp add: word_le_nat_alt step unat_PHYSTOP)
    then have "unat q < unat p" if "page_ok (kend s) q" for q
      using that pn page_gap [of "unat q" 16777216] by (simp add: page_ok_unat)
    then have "{q. page_ok (kend s) q \<and> q < p} = {q. page_ok (kend s) q}"
      by (auto simp: word_less_nat_alt)
    then show ?thesis
      using False "1.prems" by (auto simp: kinit_loop.simps [of p])
  qed
qed

lemma wp_kinit:
  assumes "freelist s = 0" "0 < kend s" "kend s \<le> PHYSTOP" "Lkmem \<notin> held s"
  shows "wp kinit (\<lambda>_ t. kend t = kend s \<and> held t = held s
           \<and> (\<exists>xs. kmem_inv t xs \<and> set xs = {q. page_ok (kend s) q})) s"
proof -
  have e: "unat (kend s) \<le> 16777216"
    using assms(3) by (simp add: word_le_nat_alt unat_PHYSTOP)
  then have up: "unat (PGROUNDUP (kend s)) = (unat (kend s) + 4095) div 4096 * 4096"
    by (simp add: unat_PGROUNDUP)
  have le: "unat (kend s) \<le> (unat (kend s) + 4095) div 4096 * 4096"
    using div_mult_mod_eq [of "unat (kend s) + 4095" 4096]
      mod_less_divisor [of 4096 "unat (kend s) + 4095"] by linarith
  have le2: "(unat (kend s) + 4095) div 4096 * 4096 \<le> 16777216"
  proof -
    have "(unat (kend s) + 4095) div 4096 \<le> (16777216 + 4095) div 4096"
      using e by (intro div_le_mono) simp
    then show ?thesis by simp
  qed
  have none: "{q. page_ok (kend s) q \<and> q < PGROUNDUP (kend s)} = {}"
  proof -
    have "unat (PGROUNDUP (kend s)) < unat (kend s) + 4096"
      using up div_mult_mod_eq [of "unat (kend s) + 4095" 4096] by linarith
    then have "\<not> q < PGROUNDUP (kend s)" if "page_ok (kend s) q" for q
      using that page_gap [of "unat q" "unat (PGROUNDUP (kend s))"] up
      by (auto simp: page_ok_unat word_less_nat_alt)
    then show ?thesis by auto
  qed
  have "wp (kinit_loop (PGROUNDUP (kend s))) (\<lambda>_ t. kend t = kend s \<and> held t = held s
           \<and> (\<exists>ys. kmem_inv t ys \<and> set ys = {q. page_ok (kend s) q})) s"
    using assms none up le le2
    by (intro wp_kinit_loop [of s "[]"]) 
      (simp_all add: kmem_inv_def page_unat word_le_nat_alt unat_PHYSTOP word_less_nat_alt, auto)
  then show ?thesis by (simp add: kinit_def)
qed

section \<open>The allocator as an interface\<close>

text \<open>\<open>n\<close> runs of a program in a row, the results in order.\<close>

primrec repeatP :: "nat \<Rightarrow> ('s, 'c, 'a) prog \<Rightarrow> ('s, 'c, 'a list) prog" where
  "repeatP 0 m = ret []"
| "repeatP (Suc n) m = bnd m (\<lambda>a. bnd (repeatP n m) (\<lambda>as. ret (a # as)))"

text \<open>
  What the clients of the allocator rely on: \<open>inv s F\<close> says that \<open>F\<close> is the set of free
  pages; allocation takes one out (or reports exhaustion with the null address), freeing
  puts one back.
\<close>

locale page_allocator =
  fixes alloc :: "('s, switch, u32) prog"
    and free :: "u32 \<Rightarrow> ('s, switch, unit) prog"
    and inv :: "'s \<Rightarrow> u32 set \<Rightarrow> bool"
    and ready :: "'s \<Rightarrow> bool"
    and valid :: "'s \<Rightarrow> u32 \<Rightarrow> bool"
  assumes alloc_empty: "inv s {} \<Longrightarrow> ready s \<Longrightarrow> wp alloc (\<lambda>r t. r = 0 \<and> t = s) s"
    and alloc_some: "inv s F \<Longrightarrow> ready s \<Longrightarrow> F \<noteq> {} \<Longrightarrow>
      wp alloc (\<lambda>r t. r \<noteq> 0 \<and> r \<in> F \<and> ready t \<and> inv t (F - {r}) \<and> valid t r) s"
    and free_adds: "inv s F \<Longrightarrow> ready s \<Longrightarrow> valid s v \<Longrightarrow> v \<notin> F \<Longrightarrow>
      wp (free v) (\<lambda>_ t. ready t \<and> inv t (insert v F)) s"
begin

text \<open>Consecutive allocations never hand out the same page twice.\<close>

lemma repeat_alloc_distinct:
  assumes "inv s F" "ready s" "finite F" "n \<le> card F"
  shows "wp (repeatP n alloc) (\<lambda>rs t. length rs = n \<and> distinct rs \<and> set rs \<subseteq> F
           \<and> 0 \<notin> set rs \<and> ready t \<and> inv t (F - set rs)) s"
  using assms
proof (induction n arbitrary: s F)
  case 0
  then show ?case by simp
next
  case (Suc n)
  from Suc.prems have "F \<noteq> {}" by auto
  then have alloc: "wp alloc (\<lambda>r t. r \<noteq> 0 \<and> r \<in> F \<and> ready t \<and> inv t (F - {r}) \<and> valid t r) s"
    using Suc.prems by (intro alloc_some)
  have rest: "wp (bnd (repeatP n alloc) (\<lambda>as. ret (r # as))) (\<lambda>rs t. length rs = Suc n
      \<and> distinct rs \<and> set rs \<subseteq> F \<and> 0 \<notin> set rs \<and> ready t \<and> inv t (F - set rs)) t"
    if r: "r \<noteq> 0 \<and> r \<in> F \<and> ready t \<and> inv t (F - {r}) \<and> valid t r" for r t
  proof -
    have "n \<le> card (F - {r})" using r Suc.prems by simp
    then have "wp (repeatP n alloc) (\<lambda>rs t. length rs = n \<and> distinct rs \<and> set rs \<subseteq> F - {r}
           \<and> 0 \<notin> set rs \<and> ready t \<and> inv t (F - {r} - set rs)) t"
      using r Suc.prems by (intro Suc.IH) auto
    then show ?thesis
      using r by - (simp, erule wp_mono, auto simp flip: Diff_insert2)
  qed
  show ?case
    unfolding repeatP.simps by (subst wp_bnd, rule wp_mono [OF alloc], rule rest)
qed

text \<open>Freeing what was just allocated gives back the set of free pages.\<close>

lemma alloc_free:
  assumes "inv s F" "ready s" "F \<noteq> {}"
  shows "wp (bnd alloc free) (\<lambda>_ t. ready t \<and> inv t F) s"
proof -
  have alloc: "wp alloc (\<lambda>r t. r \<noteq> 0 \<and> r \<in> F \<and> ready t \<and> inv t (F - {r}) \<and> valid t r) s"
    using assms by (intro alloc_some)
  have rest: "wp (free r) (\<lambda>_ t. ready t \<and> inv t F) t"
    if r: "r \<noteq> 0 \<and> r \<in> F \<and> ready t \<and> inv t (F - {r}) \<and> valid t r" for r t
  proof -
    have "wp (free r) (\<lambda>_ t. ready t \<and> inv t (insert r (F - {r}))) t"
      using r by (intro free_adds) auto
    then show ?thesis
      using r by (simp add: insert_absorb)
  qed
  show ?thesis
    by (subst wp_bnd, rule wp_mono [OF alloc], rule rest)
qed

end

text \<open>The free pages of the kernel, and when its allocator may be called.\<close>

definition free_pages :: "'z kmem_state_scheme \<Rightarrow> u32 set \<Rightarrow> bool" where
  "free_pages s F \<longleftrightarrow> (\<exists>xs. kmem_inv s xs \<and> set xs = F)"

definition kmem_ready :: "'z kmem_state_scheme \<Rightarrow> bool" where
  "kmem_ready s \<longleftrightarrow> Lkmem \<notin> held s"

definition kmem_valid :: "'z kmem_state_scheme \<Rightarrow> u32 \<Rightarrow> bool" where
  "kmem_valid s v \<longleftrightarrow> page_ok (kend s) v"

lemma free_pages_finite: "free_pages s F \<Longrightarrow> finite F"
  by (auto simp: free_pages_def)

interpretation kpages: page_allocator
  "kalloc :: ('z kmem_state_scheme, switch, u32) prog" kfree free_pages kmem_ready kmem_valid
proof unfold_locales
  fix s :: "'z kmem_state_scheme"
  assume "free_pages s {}" "kmem_ready s"
  then show "wp kalloc (\<lambda>r t. r = 0 \<and> t = s) s"
    by (auto simp: free_pages_def kmem_ready_def intro!: wp_kalloc)
next
  fix s :: "'z kmem_state_scheme" and F
  assume "free_pages s F" "kmem_ready s" "F \<noteq> {}"
  then obtain xs where xs: "kmem_inv s xs" "set xs = F" "Lkmem \<notin> held s" "xs \<noteq> []"
    by (auto simp: free_pages_def kmem_ready_def)
  show "wp kalloc (\<lambda>r t. r \<noteq> 0 \<and> r \<in> F \<and> kmem_ready t \<and> free_pages t (F - {r})
      \<and> kmem_valid t r) s"
  proof (rule wp_kalloc [OF xs(1,3)])
    fix v ys
    assume v: "xs = v # ys" "v \<noteq> 0" "page_ok (kend s) v"
      "kmem_inv (s\<lparr>freelist := load32 (phys s) v\<rparr>) ys"
    moreover have "v \<notin> set ys" using xs(1) v(1) by (simp add: kmem_inv_def)
    ultimately show "v \<noteq> 0 \<and> v \<in> F \<and> kmem_ready (s\<lparr>freelist := load32 (phys s) v\<rparr>)
        \<and> free_pages (s\<lparr>freelist := load32 (phys s) v\<rparr>) (F - {v})
        \<and> kmem_valid (s\<lparr>freelist := load32 (phys s) v\<rparr>) v"
      using xs by (auto simp: free_pages_def kmem_ready_def kmem_valid_def)
  qed (use xs in simp)
next
  fix s :: "'z kmem_state_scheme" and F v
  assume "free_pages s F" "kmem_ready s" "kmem_valid s v" "v \<notin> F"
  then obtain xs where xs: "kmem_inv s xs" "set xs = F" "Lkmem \<notin> held s" "page_ok (kend s) v" "v \<notin> set xs"
    by (auto simp: free_pages_def kmem_ready_def kmem_valid_def)
  show "wp (kfree v) (\<lambda>_ t. kmem_ready t \<and> free_pages t (insert v F)) s"
  proof (rule wp_kfree [OF xs(1,4,5,3)])
    fix m assume "kmem_inv (s\<lparr>phys := m, freelist := v\<rparr>) (v # xs)"
    then show "kmem_ready (s\<lparr>phys := m, freelist := v\<rparr>)
        \<and> free_pages (s\<lparr>phys := m, freelist := v\<rparr>) (insert v F)"
      using xs by (auto simp: kmem_ready_def free_pages_def intro!: exI [of _ "v # xs"])
  qed
qed

section \<open>Properties\<close>

text \<open>\<open>kinit\<close> puts every page of physical memory between the end of the kernel image and
  \<open>PHYSTOP\<close> on the free list, each exactly once, and releases its lock.\<close>

theorem kinit_frees_every_page:
  assumes "freelist s = 0" "0 < kend s" "kend s \<le> PHYSTOP" "Lkmem \<notin> held s"
  shows "wp kinit (\<lambda>_ t. held t = held s \<and> free_pages t {p. page_ok (kend s) p}) s"
  using wp_kinit [OF assms] by (rule wp_mono) (auto simp: free_pages_def kmem_inv_def)

definition boot_state :: kmem_state where
  "boot_state = \<lparr>held = {}, phys = (\<lambda>_. 0), freelist = 0, kend = 0x10A000, kdata = 0x108000\<rparr>"

theorem kinit_frees_every_page_witness:
  "wp kinit (\<lambda>_ t. held t = {} \<and> free_pages t {p. page_ok 0x10A000 p}) boot_state"
  using kinit_frees_every_page [of boot_state] by (simp add: boot_state_def PHYSTOP_def)

text \<open>Consecutive calls of \<open>kalloc\<close>, as many as there are free pages at most, return
  pairwise different non-null pages of the free set and leave exactly the others free.\<close>

theorem kalloc_distinct_pages:
  assumes "free_pages s F" "Lkmem \<notin> held s" "n \<le> card F"
  shows "wp (repeatP n kalloc) (\<lambda>rs t. length rs = n \<and> distinct rs \<and> set rs \<subseteq> F \<and> 0 \<notin> set rs
           \<and> free_pages t (F - set rs)) s"
  by (rule wp_mono [OF kpages.repeat_alloc_distinct [OF assms(1) _ free_pages_finite [OF assms(1)] assms(3)]])
    (use assms(2) in \<open>simp_all add: kmem_ready_def\<close>)

definition two_free :: kmem_state where
  "two_free = \<lparr>held = {}, phys = store32 (\<lambda>_. 0) 0x401000 0x400000, freelist = 0x401000,
     kend = 0x10A000, kdata = 0x108000\<rparr>"

lemma two_free_pages: "free_pages two_free {0x401000, 0x400000}"
proof -
  have "load32 (store32 (\<lambda>_. 0) 0x401000 0x400000) 0x400000 = 0"
    using load_store_slot [of "0x401000" "0x400000" 0 0 "\<lambda>_. 0" "0x400000"]
    by (simp add: page_aligned_def PGSIZE_def) (simp add: load32_def join4_def)
  then have "kmem_inv two_free [0x401000, 0x400000]"
    by (simp add: two_free_def kmem_inv_def page_ok_def PGSIZE_def PHYSTOP_def)
  then show ?thesis by (auto simp: free_pages_def)
qed

theorem kalloc_distinct_pages_witness:
  "wp (repeatP 2 kalloc) (\<lambda>rs t. length rs = 2 \<and> distinct rs \<and> set rs \<subseteq> {0x401000, 0x400000}
     \<and> 0 \<notin> set rs \<and> free_pages t ({0x401000, 0x400000} - set rs)) two_free"
  using kalloc_distinct_pages [OF two_free_pages, of 2] by (simp add: two_free_def)

text \<open>\<open>kalloc\<close> right after \<open>kfree v\<close> returns \<open>v\<close>; the set of free pages is as before and
  no byte outside the page \<open>v\<close> has changed.\<close>

theorem kfree_kalloc_roundtrip:
  assumes "free_pages s F" "Lkmem \<notin> held s" "page_ok (kend s) v" "v \<notin> F"
  shows "wp (thn (kfree v) kalloc) (\<lambda>r t. r = v \<and> free_pages t F \<and> outside [v] (phys s) (phys t)) s"
proof -
  obtain xs where xs: "kmem_inv s xs" "set xs = F" "v \<notin> set xs"
    using assms(1,4) by (auto simp: free_pages_def)
  show ?thesis
    unfolding wp_thn
  proof (rule wp_kfree [OF xs(1) assms(3) xs(3) assms(2)])
    fix m assume m: "outside [v] (phys s) m" and inv: "kmem_inv (s\<lparr>phys := m, freelist := v\<rparr>) (v # xs)"
    show "wp kalloc (\<lambda>r t. r = v \<and> free_pages t F \<and> outside [v] (phys s) (phys t))
        (s\<lparr>phys := m, freelist := v\<rparr>)"
      by (rule wp_kalloc [OF inv]) (use assms(2) m xs in \<open>auto simp: free_pages_def\<close>)
  qed
qed

theorem kfree_kalloc_roundtrip_witness:
  "wp (thn (kfree 0x402000) kalloc) (\<lambda>r t. r = 0x402000 \<and> free_pages t {0x401000, 0x400000}
     \<and> outside [0x402000] (phys two_free) (phys t)) two_free"
  using kfree_kalloc_roundtrip [OF two_free_pages, of "0x402000"]
  by (simp add: two_free_def page_ok_def PGSIZE_def PHYSTOP_def)

text \<open>\<open>kfree v\<close> returns exactly when \<open>v\<close> is a page-aligned address in \<open>[end, PHYSTOP)\<close>
  and the allocator's lock is free; on every other address it panics, and it never sleeps.\<close>

theorem kfree_returns_iff:
  "((\<exists>t. kfree v s = Done () t) = (page_ok (kend s) v \<and> Lkmem \<notin> held s))
   \<and> ((\<exists>e. kfree v s = Panic e) = (\<not> (page_ok (kend s) v \<and> Lkmem \<notin> held s)))"
  by (auto simp: kfree_def page_ok_def prog_defs lock_def unlock_def not_less not_le)

end
