(* ===== verification/Kstring.thy ===== *)
theory Kstring
  imports Physmem
begin

text \<open>
  The kernel's memory and string routines, \<open>kernel/string.c\<close>.  Block operations work on
  memory; the copies are the byte loops of the source, so that overlapping ranges are
  modelled.  Routines that only read a string take the stream of bytes from a pointer on
  (\<open>p++\<close> is the tail of the stream).
\<close>

section \<open>Block copies\<close>

fun copy_fwd :: "mem \<Rightarrow> u32 \<Rightarrow> u32 \<Rightarrow> nat \<Rightarrow> mem" where
  "copy_fwd m d s 0 = m"
| "copy_fwd m d s (Suc n) = copy_fwd (m(d := m s)) (d + 1) (s + 1) n"

fun copy_bwd :: "mem \<Rightarrow> u32 \<Rightarrow> u32 \<Rightarrow> nat \<Rightarrow> mem" where
  "copy_bwd m d s 0 = m"
| "copy_bwd m d s (Suc n) = copy_bwd (m(d - 1 := m (s - 1))) (d - 1) (s - 1) n"

definition memmove :: "mem \<Rightarrow> u32 \<Rightarrow> u32 \<Rightarrow> u32 \<Rightarrow> mem" where
  "memmove m dst src n =
     (if src < dst \<and> dst < src + n
      then copy_bwd m (dst + n) (src + n) (unat n)
      else copy_fwd m dst src (unat n))"

fun memcmp :: "(nat \<Rightarrow> u8) \<Rightarrow> (nat \<Rightarrow> u8) \<Rightarrow> nat \<Rightarrow> int" where
  "memcmp p q 0 = 0"
| "memcmp p q (Suc n) =
     (if p 0 \<noteq> q 0 then uint (p 0) - uint (q 0)
      else memcmp (\<lambda>i. p (Suc i)) (\<lambda>i. q (Suc i)) n)"

text \<open>Reading position \<open>b\<close> of the destination after the copy.\<close>

lemma copy_fwd_spec:
  assumes "unat s + n < 2 ^ 32" "unat d + n \<le> 2 ^ 32"
    and "unat d \<le> unat s \<or> unat s + n \<le> unat d"
  shows "copy_fwd m d s n b =
    (if unat d \<le> unat b \<and> unat b < unat d + n then m (s + (b - d)) else m b)"
  using assms
proof (induction n arbitrary: m d s)
  case 0
  then show ?case by auto
next
  case (Suc n)
  have s1: "unat (s + 1) = unat s + 1"
    using Suc.prems(1) by (simp add: unat_word_ariths)
  show ?case
  proof (cases "n = 0")
    case True
    show ?thesis
    proof (cases "b = d")
      case False
      then have "unat b \<noteq> unat d" by (simp add: word_unat_eq_iff)
      then have "\<not> (unat d \<le> unat b \<and> unat b < unat d + 1)" by linarith
      with True False show ?thesis by auto
    qed (use True in simp)
  next
    case False
    then have d1: "unat (d + 1) = unat d + 1"
      using Suc.prems(2) by (simp add: unat_word_ariths)
    have off: "s + 1 + (b - (d + 1)) = s + (b - d)"
      by simp
    have "copy_fwd (m(d := m s)) (d + 1) (s + 1) n b =
        (if unat (d + 1) \<le> unat b \<and> unat b < unat (d + 1) + n
         then (m(d := m s)) (s + 1 + (b - (d + 1))) else (m(d := m s)) b)"
      using Suc.prems s1 d1 by (intro Suc.IH) auto
    then have IH: "copy_fwd (m(d := m s)) (d + 1) (s + 1) n b =
        (if unat d + 1 \<le> unat b \<and> unat b < unat d + 1 + n
         then (m(d := m s)) (s + (b - d)) else (m(d := m s)) b)"
      by (simp only: off d1)
    show ?thesis
    proof (cases "unat d + 1 \<le> unat b \<and> unat b < unat d + 1 + n")
      case True
      have bd: "unat (b - d) = unat b - unat d"
        using True by (simp add: unat_sub_word)
      have "unat s + (unat b - unat d) < 4294967296"
        using True Suc.prems(1) by simp linarith
      then have "unat (s + (b - d)) = unat s + (unat b - unat d)"
        using unat_add_small [of s "b - d"] bd by simp
      then have "s + (b - d) \<noteq> d"
        using True Suc.prems(3) by (auto simp: word_unat_eq_iff)
      with IH True show ?thesis by simp
    next
      case range: False
      show ?thesis
      proof (cases "b = d")
        case True
        with IH range show ?thesis by simp
      next
        case False
        then have "unat b \<noteq> unat d" by (simp add: word_unat_eq_iff)
        with range have "\<not> (unat d \<le> unat b \<and> unat b < unat d + Suc n)" by linarith
        with IH range False show ?thesis by auto
      qed
    qed
  qed
qed

lemma copy_bwd_spec:
  assumes "unat s + n < 2 ^ 32" "unat d + n < 2 ^ 32" "unat s < unat d"
  shows "copy_bwd m (d + of_nat n) (s + of_nat n) n b =
    (if unat d \<le> unat b \<and> unat b < unat d + n then m (s + (b - d)) else m b)"
  using assms
proof (induction n arbitrary: m)
  case 0
  then show ?case by auto
next
  case (Suc n)
  have un: "unat (d + of_nat n) = unat d + n" "unat (s + of_nat n) = unat s + n"
    using Suc.prems(1,2) by (simp_all add: unat_word_ariths unat_of_nat_small)
  have IH: "copy_bwd (m(d + of_nat n := m (s + of_nat n))) (d + of_nat n) (s + of_nat n) n b =
    (if unat d \<le> unat b \<and> unat b < unat d + n
     then (m(d + of_nat n := m (s + of_nat n))) (s + (b - d))
     else (m(d + of_nat n := m (s + of_nat n))) b)"
    using Suc.prems by (intro Suc.IH) auto
  have stepeq: "copy_bwd m (d + of_nat (Suc n)) (s + of_nat (Suc n)) (Suc n) b =
      copy_bwd (m(d + of_nat n := m (s + of_nat n))) (d + of_nat n) (s + of_nat n) n b"
    by simp
  show ?case
  proof (cases "b = d + of_nat n")
    case True
    then have "unat b = unat d + n" by (simp add: un)
    with True IH stepeq show ?thesis by auto
  next
    case False
    then have ne: "unat b \<noteq> unat d + n" by (simp add: word_unat_eq_iff un)
    have "s + (b - d) \<noteq> d + of_nat n" if "unat d \<le> unat b \<and> unat b < unat d + n"
    proof -
      have bd: "unat (b - d) = unat b - unat d"
        using that by (simp add: unat_sub_word)
      have "unat s + (unat b - unat d) < 4294967296"
        using that Suc.prems(1) by (simp add: less_diff_conv2 trans_le_add2)
      then have "unat (s + (b - d)) = unat s + (unat b - unat d)"
        using unat_add_small [of s "b - d"] bd by simp
      then have "unat (s + (b - d)) < unat d + n"
        using that Suc.prems(3) by linarith
      then show ?thesis
        by (auto simp: word_unat_eq_iff un)
    qed
    with False ne IH stepeq show ?thesis by auto
  qed
qed

text \<open>\<open>memmove\<close> copies the source as it was before the call, whatever the overlap.\<close>

lemma memmove_spec:
  assumes "unat s + unat n < 2 ^ 32" "unat d + unat n < 2 ^ 32"
  shows "memmove m d s n = (\<lambda>b. if inrange d n b then m (s + (b - d)) else m b)"
proof
  fix b
  have r: "inrange d n b \<longleftrightarrow> unat d \<le> unat b \<and> unat b < unat d + unat n"
    using assms(2) by (intro inrange_unat) simp
  have sn: "unat (s + n) = unat s + unat n"
    using assms(1) by (simp add: unat_word_ariths)
  show "memmove m d s n b = (if inrange d n b then m (s + (b - d)) else m b)"
  proof (cases "s < d \<and> d < s + n")
    case True
    then have "copy_bwd m (d + n) (s + n) (unat n) b =
        (if unat d \<le> unat b \<and> unat b < unat d + unat n then m (s + (b - d)) else m b)"
      using copy_bwd_spec [of s "unat n" d m b] assms by (simp add: word_less_nat_alt)
    with True show ?thesis by (simp add: memmove_def r)
  next
    case False
    then have "unat d \<le> unat s \<or> unat s + unat n \<le> unat d"
      by (auto simp: word_less_nat_alt sn)
    then have "copy_fwd m d s (unat n) b =
        (if unat d \<le> unat b \<and> unat b < unat d + unat n then m (s + (b - d)) else m b)"
      using copy_fwd_spec [of s "unat n" d m b] assms by simp
    moreover have "memmove m d s n b = copy_fwd m d s (unat n) b"
      using False by (auto simp: memmove_def)
    ultimately show ?thesis by (simp add: r)
  qed
qed

section \<open>Strings\<close>

fun strncmp :: "(nat \<Rightarrow> u8) \<Rightarrow> (nat \<Rightarrow> u8) \<Rightarrow> nat \<Rightarrow> int" where
  "strncmp p q 0 = 0"
| "strncmp p q (Suc n) =
     (if p 0 \<noteq> 0 \<and> p 0 = q 0
      then strncmp (\<lambda>i. p (Suc i)) (\<lambda>i. q (Suc i)) n
      else uint (p 0) - uint (q 0))"

text \<open>The second loop of \<open>strncpy\<close>, which pads with zeros, and the whole routine.\<close>

fun zero_fill :: "mem \<Rightarrow> u32 \<Rightarrow> nat \<Rightarrow> mem" where
  "zero_fill m s 0 = m"
| "zero_fill m s (Suc n) = zero_fill (m(s := 0)) (s + 1) n"

fun strncpy :: "mem \<Rightarrow> u32 \<Rightarrow> u32 \<Rightarrow> nat \<Rightarrow> mem" where
  "strncpy m s t 0 = m"
| "strncpy m s t (Suc n) =
     (if m t \<noteq> 0 then strncpy (m(s := m t)) (s + 1) (t + 1) n
      else zero_fill (m(s := m t)) (s + 1) n)"

text \<open>
  The loop of \<open>safestrcpy\<close>: \<open>--n > 0\<close> leaves room for the terminator, which is stored at
  the position reached, or after it when the copied byte was the terminator itself.
\<close>

fun safestrcpy_loop :: "mem \<Rightarrow> u32 \<Rightarrow> u32 \<Rightarrow> nat \<Rightarrow> mem" where
  "safestrcpy_loop m s t 0 = m(s := 0)"
| "safestrcpy_loop m s t (Suc n) =
     (let m' = m(s := m t) in
      if m t \<noteq> 0 then safestrcpy_loop m' (s + 1) (t + 1) n else m'(s + 1 := 0))"

definition safestrcpy :: "mem \<Rightarrow> u32 \<Rightarrow> u32 \<Rightarrow> nat \<Rightarrow> mem" where
  "safestrcpy m s t n = (if n = 0 then m else safestrcpy_loop m s t (n - 1))"

partial_function (option) strlen_from :: "(nat \<Rightarrow> u8) \<Rightarrow> nat \<Rightarrow> nat option" where
  "strlen_from s n = (if s n = 0 then Some n else strlen_from s (Suc n))"

definition strlen :: "(nat \<Rightarrow> u8) \<Rightarrow> nat option" where
  "strlen s = strlen_from s 0"

text \<open>The string of at most \<open>n\<close> bytes a stream starts with, and a stream that holds a list.\<close>

primrec cstr :: "nat \<Rightarrow> (nat \<Rightarrow> u8) \<Rightarrow> u8 list" where
  "cstr 0 p = []"
| "cstr (Suc n) p = (if p 0 = 0 then [] else p 0 # cstr n (\<lambda>i. p (Suc i)))"

definition stream_of :: "u8 list \<Rightarrow> nat \<Rightarrow> u8" where
  "stream_of xs i = (if i < length xs then xs ! i else 0)"

lemma strncmp_zero_iff: "strncmp p q n = 0 \<longleftrightarrow> cstr n p = cstr n q"
proof (induction n arbitrary: p q)
  case 0
  then show ?case by simp
next
  case (Suc n)
  have "uint a - uint b = 0 \<longleftrightarrow> a = b" for a b :: u8
    by (simp add: word_uint_eq_iff)
  from this [of "p 0" "q 0"] Suc show ?case by auto
qed

lemma strncmp_antisym: "strncmp q p n = - strncmp p q n"
  by (induction p q n rule: strncmp.induct) auto

lemma stream_of_Suc [simp]: "(\<lambda>i. stream_of (x # xs) (Suc i)) = stream_of xs"
  by (rule ext) (simp add: stream_of_def)

lemma cstr_stream_of: "cstr n (stream_of xs) = takeWhile (\<lambda>c. c \<noteq> 0) (take n xs)"
proof (induction n arbitrary: xs)
  case 0
  then show ?case by simp
next
  case (Suc n)
  show ?case
  proof (cases xs)
    case Nil
    then show ?thesis by (simp add: stream_of_def)
  next
    case (Cons x ys)
    then show ?thesis using Suc by simp (simp add: stream_of_def)
  qed
qed

lemma strlen_from_spec:
  assumes "s (n + k) = 0" "\<And>i. i < k \<Longrightarrow> s (n + i) \<noteq> 0"
  shows "strlen_from s n = Some (n + k)"
  using assms
proof (induction k arbitrary: n)
  case 0
  then show ?case by (simp add: strlen_from.simps)
next
  case (Suc k)
  have "s n \<noteq> 0" using Suc.prems(2) [of 0] by simp
  moreover have "strlen_from s (Suc n) = Some (Suc n + k)"
    using Suc.prems by (intro Suc.IH) (auto dest: spec [of _ "Suc _"] simp flip: add_Suc_right)
  ultimately show ?case by (simp add: strlen_from.simps [of s n])
qed

lemma strlen_spec: "strlen s = Some k" if "s k = 0" "\<And>i. i < k \<Longrightarrow> s i \<noteq> 0"
  using strlen_from_spec [of s 0 k] that by (simp add: strlen_def)

section \<open>Properties\<close>

text \<open>\<open>memmove\<close> is correct for overlapping ranges: after the call the destination holds
  what the source held before it, byte for byte, and nothing else has changed (for ranges
  that do not reach the end of the address space).\<close>

theorem memmove_overlap_safe:
  assumes "unat src + unat n < 2 ^ 32" "unat dst + unat n < 2 ^ 32"
  shows "\<forall>b. memmove m dst src n b =
    (if unat dst \<le> unat b \<and> unat b < unat dst + unat n then m (src + (b - dst)) else m b)"
  using memmove_spec [OF assms] inrange_unat [of dst n] assms(2) by simp

theorem memmove_overlap_safe_witness:
  "\<forall>b. memmove (\<lambda>a. ucast a) 0x1002 0x1000 8 b =
    (if 0x1002 \<le> unat b \<and> unat b < 0x100A then ucast (0x1000 + (b - 0x1002)) else ucast b)"
  using memmove_overlap_safe [of "0x1000" 8 "0x1002" "\<lambda>a. ucast a"] by simp

text \<open>\<open>strncmp p q n\<close> is zero exactly when the two strings, cut at their terminator or at
  \<open>n\<close> bytes, are equal; exchanging the arguments negates the result.\<close>

theorem strncmp_correct:
  "(strncmp p q n = 0 \<longleftrightarrow> cstr n p = cstr n q) \<and> strncmp q p n = - strncmp p q n"
  using strncmp_zero_iff strncmp_antisym by blast

end
