(* ===== verification/Vm.thy ===== *)
theory Vm
  imports Kalloc Kstring
begin

text \<open>
  Virtual memory, \<open>kernel/vm.c\<close> of the thread kernel: two-level page tables kept in
  physical memory, built with pages from \<open>kalloc\<close>.  \<open>lookup\<close> is the translation the
  hardware performs; the lemmas relate each operation to it.  Pointers into page tables are
  addresses, so a page-table walk reads and writes the modelled memory.  The dereference of
  a null page-table pointer, undefined in C, is a panic of the model.
\<close>

section \<open>Page tables\<close>

definition walkpgdir :: "u32 \<Rightarrow> u32 \<Rightarrow> bool \<Rightarrow> ('z kmem_state_scheme, switch, u32) prog" where
  "walkpgdir pgdir va create =
     bnd (asks (\<lambda>s. load32 (phys s) (slot pgdir (PDX va)))) (\<lambda>pde.
     if pde AND PTE_P \<noteq> 0 then ret (slot (PTE_ADDR pde) (PTX va))
     else if \<not> create then ret 0
     else bnd kalloc (\<lambda>pgtab.
       if pgtab = 0 then ret 0
       else thn (upd (\<lambda>s. s\<lparr>phys := memset (phys s) pgtab 0 PGSIZE\<rparr>)) (
            thn (upd (\<lambda>s. s\<lparr>phys := store32 (phys s) (slot pgdir (PDX va))
                                    (pgtab OR PTE_P OR PTE_W OR PTE_U)\<rparr>))
                (ret (slot pgtab (PTX va))))))"

text \<open>
  \<open>*pte = v\<close> and \<open>*pte\<close>.  The loop of \<open>mappages\<close> leaves when \<open>a == last\<close>; both are page
  aligned, so it runs \<open>(last - a) / PGSIZE\<close> more times, which is the loop counter here.
\<close>

definition put_pte :: "u32 \<Rightarrow> u32 \<Rightarrow> ('z kmem_state_scheme, switch, unit) prog" where
  "put_pte pte v = upd (\<lambda>s. s\<lparr>phys := store32 (phys s) pte v\<rparr>)"

definition get_pte :: "u32 \<Rightarrow> ('z kmem_state_scheme, switch, u32) prog" where
  "get_pte pte = (if pte = 0 then panic ''null pte'' else asks (\<lambda>s. load32 (phys s) pte))"

definition map_page :: "u32 \<Rightarrow> u32 \<Rightarrow> u32 \<Rightarrow> u32 \<Rightarrow> ('z kmem_state_scheme, switch, bool) prog" where
  "map_page pgdir a pa perm =
     bnd (walkpgdir pgdir a True) (\<lambda>pte.
     if pte = 0 then ret False
     else bnd (get_pte pte) (\<lambda>old.
          if old AND PTE_P \<noteq> 0 then panic ''remap''
          else thn (put_pte pte (pa OR perm OR PTE_P)) (ret True)))"

primrec map_loop :: "nat \<Rightarrow> u32 \<Rightarrow> u32 \<Rightarrow> u32 \<Rightarrow> u32 \<Rightarrow> ('z kmem_state_scheme, switch, int) prog" where
  "map_loop 0 pgdir a pa perm =
     bnd (map_page pgdir a pa perm) (\<lambda>ok. ret (if ok then 0 else - 1))"
| "map_loop (Suc k) pgdir a pa perm =
     bnd (map_page pgdir a pa perm) (\<lambda>ok.
     if \<not> ok then ret (- 1) else map_loop k pgdir (a + PGSIZE) (pa + PGSIZE) perm)"

definition mappages :: "u32 \<Rightarrow> u32 \<Rightarrow> u32 \<Rightarrow> u32 \<Rightarrow> u32 \<Rightarrow> ('z kmem_state_scheme, switch, int) prog" where
  "mappages pgdir la sz pa perm =
     (let a = PGROUNDDOWN la; last = PGROUNDDOWN (la + sz - 1)
      in map_loop (unat (last - a) div 4096) pgdir a pa perm)"

text \<open>The table \<open>kmap\<close>; \<open>data\<close> is the linker symbol \<open>kdata\<close>.\<close>

definition kmap :: "u32 \<Rightarrow> (u32 \<times> u32 \<times> u32) list" where
  "kmap data =
     [(USERTOP, 0x100000, PTE_W),
      (0x100000, data, 0),
      (data, PHYSTOP, PTE_W),
      (0xFE000000, 0, PTE_W)]"

fun kmap_loop :: "u32 \<Rightarrow> (u32 \<times> u32 \<times> u32) list \<Rightarrow> ('z kmem_state_scheme, switch, u32) prog" where
  "kmap_loop pgdir [] = ret pgdir"
| "kmap_loop pgdir ((p, e, perm) # ks) =
     bnd (mappages pgdir p (e - p) p perm) (\<lambda>r.
     if r < 0 then ret 0 else kmap_loop pgdir ks)"

definition setupkvm :: "('z kmem_state_scheme, switch, u32) prog" where
  "setupkvm =
     bnd kalloc (\<lambda>pgdir.
     if pgdir = 0 then ret 0
     else thn (upd (\<lambda>s. s\<lparr>phys := memset (phys s) pgdir 0 PGSIZE\<rparr>))
              (bnd (asks kdata) (\<lambda>data. kmap_loop pgdir (kmap data))))"

text \<open>\<open>memmove\<close> from a kernel buffer, given as its bytes, to physical memory.\<close>

definition write_bytes :: "mem \<Rightarrow> u32 \<Rightarrow> u8 list \<Rightarrow> mem" where
  "write_bytes m a bs = (\<lambda>b. if unat (b - a) < length bs then bs ! unat (b - a) else m b)"

definition inituvm :: "u32 \<Rightarrow> u8 list \<Rightarrow> ('z kmem_state_scheme, switch, unit) prog" where
  "inituvm pgdir init =
     (if 4096 \<le> length init then panic ''inituvm: more than a page'' else
     bnd kalloc (\<lambda>mem.
     thn (upd (\<lambda>s. s\<lparr>phys := memset (phys s) mem 0 PGSIZE\<rparr>)) (
     bnd (mappages pgdir 0 PGSIZE mem (PTE_W OR PTE_U)) (\<lambda>_.
     upd (\<lambda>s. s\<lparr>phys := write_bytes (phys s) mem init\<rparr>)))))"

text \<open>The page addresses \<open>a, a + PGSIZE, ...\<close> below \<open>e\<close> (\<open>for(; a < e; a += PGSIZE)\<close>).\<close>

definition pages_upto :: "u32 \<Rightarrow> u32 \<Rightarrow> u32 list" where
  "pages_upto a e =
     map (\<lambda>k. a + of_nat k * PGSIZE) [0 ..< (unat e - unat a + 4095) div 4096]"

definition dealloc_page :: "u32 \<Rightarrow> u32 \<Rightarrow> ('z kmem_state_scheme, switch, unit) prog" where
  "dealloc_page pgdir a =
     bnd (walkpgdir pgdir a False) (\<lambda>pte.
     if pte = 0 then skip
     else bnd (get_pte pte) (\<lambda>e.
       if e AND PTE_P = 0 then skip
       else let pa = PTE_ADDR e in
         if pa = 0 then panic ''kfree''
         else thn (kfree pa) (put_pte pte 0)))"

definition deallocuvm :: "u32 \<Rightarrow> u32 \<Rightarrow> u32 \<Rightarrow> ('z kmem_state_scheme, switch, u32) prog" where
  "deallocuvm pgdir oldsz newsz =
     (if oldsz \<le> newsz then ret oldsz
      else thn (foreach (pages_upto (PGROUNDUP newsz) oldsz) (dealloc_page pgdir)) (ret newsz))"

fun alloc_loop :: "u32 \<Rightarrow> u32 \<Rightarrow> u32 \<Rightarrow> u32 list \<Rightarrow> ('z kmem_state_scheme, switch, u32) prog" where
  "alloc_loop pgdir oldsz newsz [] = ret newsz"
| "alloc_loop pgdir oldsz newsz (a # as) =
     bnd kalloc (\<lambda>mem.
     if mem = 0 then thn (bnd (deallocuvm pgdir newsz oldsz) (\<lambda>_. skip)) (ret 0)
     else thn (upd (\<lambda>s. s\<lparr>phys := memset (phys s) mem 0 PGSIZE\<rparr>)) (
          bnd (mappages pgdir a PGSIZE mem (PTE_W OR PTE_U)) (\<lambda>_.
          alloc_loop pgdir oldsz newsz as)))"

definition allocuvm :: "u32 \<Rightarrow> u32 \<Rightarrow> u32 \<Rightarrow> ('z kmem_state_scheme, switch, u32) prog" where
  "allocuvm pgdir oldsz newsz =
     (if USERTOP < newsz then ret 0
      else if newsz < oldsz then ret oldsz
      else alloc_loop pgdir oldsz newsz (pages_upto (PGROUNDUP oldsz) newsz))"

definition free_table :: "u32 \<Rightarrow> nat \<Rightarrow> ('z kmem_state_scheme, switch, unit) prog" where
  "free_table pgdir i =
     bnd (asks (\<lambda>s. load32 (phys s) (slot pgdir (of_nat i)))) (\<lambda>e.
     whenP (e AND PTE_P \<noteq> 0) (kfree (PTE_ADDR e)))"

definition freevm :: "u32 \<Rightarrow> ('z kmem_state_scheme, switch, unit) prog" where
  "freevm pgdir =
     (if pgdir = 0 then panic ''freevm: no pgdir'' else
     bnd (deallocuvm pgdir USERTOP 0) (\<lambda>_.
     thn (foreach [0..<1024] (free_table pgdir))
         (kfree pgdir)))"

fun copy_loop :: "u32 \<Rightarrow> u32 \<Rightarrow> u32 list \<Rightarrow> ('z kmem_state_scheme, switch, u32) prog" where
  "copy_loop pgdir d [] = ret d"
| "copy_loop pgdir d (i # is) =
     bnd (walkpgdir pgdir i False) (\<lambda>pte.
     if pte = 0 then panic ''copyuvm: pte should exist'' else
     bnd (get_pte pte) (\<lambda>e.
     if e AND PTE_P = 0 then panic ''copyuvm: page not present'' else
     bnd kalloc (\<lambda>mem.
     if mem = 0 then thn (freevm d) (ret 0)
     else thn (upd (\<lambda>s. s\<lparr>phys := memmove (phys s) mem (PTE_ADDR e) PGSIZE\<rparr>)) (
          bnd (mappages d i PGSIZE mem (PTE_W OR PTE_U)) (\<lambda>r.
          if r < 0 then thn (freevm d) (ret 0) else copy_loop pgdir d is)))))"

definition copyuvm :: "u32 \<Rightarrow> u32 \<Rightarrow> ('z kmem_state_scheme, switch, u32) prog" where
  "copyuvm pgdir sz =
     bnd setupkvm (\<lambda>d.
     if d = 0 then ret 0 else copy_loop pgdir d (pages_upto 0 sz))"

definition uva2ka :: "u32 \<Rightarrow> u32 \<Rightarrow> ('z kmem_state_scheme, switch, u32) prog" where
  "uva2ka pgdir uva =
     bnd (walkpgdir pgdir uva False) (\<lambda>pte.
     bnd (get_pte pte) (\<lambda>e.
     if e AND PTE_P = 0 then ret 0
     else if e AND PTE_U = 0 then ret 0
     else ret (PTE_ADDR e)))"

lemma page_offset: "unat (va - PGROUNDDOWN va) < 4096"
proof -
  have "unat (PGROUNDDOWN va) \<le> unat va" by (simp add: page_unat)
  then show ?thesis by (simp add: unat_sub_word page_unat minus_div_mult_eq_mod)
qed

function copyout :: "u32 \<Rightarrow> u32 \<Rightarrow> u8 list \<Rightarrow> ('z kmem_state_scheme, switch, int) prog" where
  "copyout pgdir va buf =
     (if buf = [] then ret 0 else
     (let va0 = PGROUNDDOWN va; off = unat (va - va0);
          n = (if length buf < 4096 - off then length buf else 4096 - off) in
     bnd (uva2ka pgdir va0) (\<lambda>pa0.
     if pa0 = 0 then ret (- 1)
     else thn (upd (\<lambda>s. s\<lparr>phys := write_bytes (phys s) (pa0 + (va - va0)) (take n buf)\<rparr>))
              (copyout pgdir (va0 + PGSIZE) (drop n buf)))))"
  by pat_completeness auto
termination
proof (relation "measure (\<lambda>(pgdir, va, buf). length buf)")
  fix va :: u32 and buf :: "u8 list" and x xa xb
  assume "buf \<noteq> []" "x = PGROUNDDOWN va" "xa = unat (va - x)"
    "xb = (if length buf < 4096 - xa then length buf else 4096 - xa)"
  then have "0 < xb" using page_offset [of va] by auto
  with \<open>buf \<noteq> []\<close> show "((pgdir, x + PGSIZE, drop xb buf), pgdir, va, buf)
      \<in> measure (\<lambda>(pgdir, va, buf). length buf)" for pgdir :: u32
    by simp
qed simp

declare copyout.simps [simp del]

section \<open>The translation and its invariant\<close>

definition present :: "u32 \<Rightarrow> bool" where
  "present e \<longleftrightarrow> e AND PTE_P \<noteq> 0"

definition pde_at :: "mem \<Rightarrow> u32 \<Rightarrow> u32 \<Rightarrow> u32" where
  "pde_at m d i = load32 m (slot d i)"

text \<open>The page-table entry the hardware finds for \<open>va\<close>, when both levels are present.\<close>

definition lookup :: "mem \<Rightarrow> u32 \<Rightarrow> u32 \<Rightarrow> u32 option" where
  "lookup m d va =
     (let e = pde_at m d (PDX va) in
      if present e
      then let p = load32 m (slot (PTE_ADDR e) (PTX va)) in if present p then Some p else None
      else None)"

definition tables :: "mem \<Rightarrow> u32 \<Rightarrow> u32 set" where
  "tables m d = {PTE_ADDR (pde_at m d i) |i. i < 1024 \<and> present (pde_at m d i)}"

text \<open>
  The invariant of a page directory: its tables are pairwise different pages, none of them
  is the directory, the null page or one of the free pages.
\<close>

definition pt_wf :: "mem \<Rightarrow> u32 \<Rightarrow> u32 set \<Rightarrow> bool" where
  "pt_wf m d F \<longleftrightarrow> page_aligned d \<and> d \<notin> F \<and> d \<notin> tables m d \<and> 0 \<notin> tables m d
     \<and> tables m d \<inter> F = {}
     \<and> (\<forall>i j. i < 1024 \<longrightarrow> j < 1024 \<longrightarrow> present (pde_at m d i) \<longrightarrow> present (pde_at m d j)
          \<longrightarrow> PTE_ADDR (pde_at m d i) = PTE_ADDR (pde_at m d j) \<longrightarrow> i = j)"

definition same_page :: "u32 \<Rightarrow> u32 \<Rightarrow> bool" where
  "same_page a b \<longleftrightarrow> unat a div 4096 = unat b div 4096"

lemma same_page_PX: "same_page a b \<longleftrightarrow> PDX a = PDX b \<and> PTX a = PTX b"
proof -
  have d: "x div 4194304 = x div 4096 div 1024" for x :: nat
    by (simp flip: div_mult2_eq)
  have "x = y \<longleftrightarrow> x div 1024 = y div 1024 \<and> x mod 1024 = y mod 1024" for x y :: nat
  proof
    assume "x div 1024 = y div 1024 \<and> x mod 1024 = y mod 1024"
    then have q: "x div 1024 = y div 1024" and r: "x mod 1024 = y mod 1024" by blast+
    have "x = x div 1024 * 1024 + x mod 1024" by (rule div_mult_mod_eq [symmetric])
    also have "\<dots> = y div 1024 * 1024 + y mod 1024" unfolding q r ..
    also have "\<dots> = y" by (rule div_mult_mod_eq)
    finally show "x = y" .
  qed simp
  from this [of "unat a div 4096" "unat b div 4096"] show ?thesis
    by (simp only: same_page_def word_unat_eq_iff unat_PDX unat_PTX d)
qed

lemma present_or_P [simp]: "present (x OR PTE_P)"
proof -
  have "bit ((x OR PTE_P) AND PTE_P) 0" by (simp add: PTE_P_def bit_simps)
  then show ?thesis by (auto simp: present_def)
qed

lemma present_or_P2 [simp]: "present (x OR y OR PTE_P)"
  using present_or_P [of "x OR y"] by (simp add: or.assoc)

lemma present_0 [simp]: "\<not> present 0"
  by (simp add: present_def)

lemma PTE_ADDR_or: "PTE_ADDR (x OR y) = PTE_ADDR x OR PTE_ADDR y"
  by (simp add: PTE_ADDR_def bit.conj_disj_distrib2)

lemma PTE_ADDR_flags [simp]: "PTE_ADDR PTE_P = 0" "PTE_ADDR PTE_W = 0" "PTE_ADDR PTE_U = 0"
  by (simp_all add: PTE_ADDR_def PTE_P_def PTE_W_def PTE_U_def)

lemma PTE_ADDR_idem [simp]: "PTE_ADDR (PTE_ADDR x) = PTE_ADDR x"
  by (simp add: PTE_ADDR_aligned)

definition pde_flags :: "u32 \<Rightarrow> u32" where
  "pde_flags v = v OR PTE_P OR PTE_W OR PTE_U"

lemma pde_flags_simps [simp]:
  "present (pde_flags v)" "page_aligned v \<Longrightarrow> PTE_ADDR (pde_flags v) = v"
proof -
  have "pde_flags v = (v OR PTE_W OR PTE_U) OR PTE_P"
    by (simp add: pde_flags_def or.commute or.left_commute or.assoc)
  then show "present (pde_flags v)" by simp
  show "page_aligned v \<Longrightarrow> PTE_ADDR (pde_flags v) = v"
    by (simp add: pde_flags_def PTE_ADDR_or)
qed

lemma lookup_same_page: "same_page a b \<Longrightarrow> lookup m d a = lookup m d b"
  by (simp add: lookup_def same_page_PX Let_def)

lemma tables_aligned: "p \<in> tables m d \<Longrightarrow> page_aligned p"
  by (auto simp: tables_def)

lemma tablesI: "i < 1024 \<Longrightarrow> present (pde_at m d i) \<Longrightarrow> PTE_ADDR (pde_at m d i) \<in> tables m d"
  by (auto simp: tables_def)

text \<open>Two memories that agree on the directory and its tables translate alike.\<close>

lemma pde_at_cong:
  "page_aligned d \<Longrightarrow> i < 1024 \<Longrightarrow> (\<And>b. in_page d b \<Longrightarrow> m' b = m b) \<Longrightarrow> pde_at m' d i = pde_at m d i"
  unfolding pde_at_def by (rule load32_page_cong)

lemma tables_cong:
  "page_aligned d \<Longrightarrow> (\<And>b. in_page d b \<Longrightarrow> m' b = m b) \<Longrightarrow> tables m' d = tables m d"
proof -
  assume d: "page_aligned d" and eq: "\<And>b. in_page d b \<Longrightarrow> m' b = m b"
  have "pde_at m' d i = pde_at m d i" if "i < 1024" for i
    using d that eq by (rule pde_at_cong)
  then show ?thesis unfolding tables_def by (metis (no_types, lifting))
qed

lemma lookup_cong:
  assumes "page_aligned d" "\<And>b. in_page d b \<Longrightarrow> m' b = m b"
    and "\<And>p b. p \<in> tables m d \<Longrightarrow> in_page p b \<Longrightarrow> m' b = m b"
  shows "lookup m' d va = lookup m d va"
proof -
  have e: "pde_at m' d (PDX va) = pde_at m d (PDX va)"
    using assms(1) PDX_less assms(2) by (rule pde_at_cong)
  have "load32 m' (slot (PTE_ADDR (pde_at m d (PDX va))) (PTX va))
      = load32 m (slot (PTE_ADDR (pde_at m d (PDX va))) (PTX va))"
    if "present (pde_at m d (PDX va))"
    using that tablesI [OF PDX_less that] assms(3) PTX_less
    by (intro load32_page_cong) (auto dest: tables_aligned)
  with e show ?thesis by (simp add: lookup_def Let_def)
qed

lemma pt_wf_cong:
  assumes "pt_wf m d F" "G \<subseteq> F" "\<And>b. in_page d b \<Longrightarrow> m' b = m b"
  shows "pt_wf m' d G"
proof -
  have d: "page_aligned d" using assms(1) by (simp add: pt_wf_def)
  have "tables m' d = tables m d" using d assms(3) by (rule tables_cong)
  moreover have "pde_at m' d i = pde_at m d i" if "i < 1024" for i
    using d that assms(3) by (rule pde_at_cong)
  ultimately show ?thesis using assms(1,2) by (auto simp: pt_wf_def)
qed

section \<open>Steps that extend an address space\<close>

text \<open>
  \<open>vm_ext d s t\<close>: from \<open>s\<close> to \<open>t\<close> only memory and the free list changed; pages left the
  free list, some of them became page tables of \<open>d\<close>; memory outside the directory, its
  tables and the free pages of \<open>s\<close> is as before.
\<close>

definition vm_inv :: "u32 \<Rightarrow> 'z kmem_state_scheme \<Rightarrow> u32 set \<Rightarrow> bool" where
  "vm_inv d s F \<longleftrightarrow> free_pages s F \<and> pt_wf (phys s) d F \<and> Lkmem \<notin> held s"

definition vm_ext :: "u32 \<Rightarrow> 'z kmem_state_scheme \<Rightarrow> u32 set \<Rightarrow> 'z kmem_state_scheme \<Rightarrow> u32 set \<Rightarrow> bool" where
  "vm_ext d s F t G \<longleftrightarrow> vm_inv d t G \<and> G \<subseteq> F
     \<and> t = s\<lparr>phys := phys t, freelist := freelist t\<rparr>
     \<and> tables (phys t) d = tables (phys s) d \<union> (F - G)
     \<and> (\<forall>b. \<not> in_page d b \<longrightarrow> (\<forall>p \<in> tables (phys s) d \<union> F. \<not> in_page p b) \<longrightarrow>
          phys t b = phys s b)"

lemma vm_ext_refl: "vm_inv d s F \<Longrightarrow> vm_ext d s F s F"
  by (simp add: vm_ext_def)

lemma vm_ext_fields:
  assumes "vm_ext d s F t G"
  shows "held t = held s" "kend t = kend s" "kdata t = kdata s"
proof -
  have "t = s\<lparr>phys := phys t, freelist := freelist t\<rparr>"
    using assms by (simp add: vm_ext_def)
  then show "held t = held s" "kend t = kend s" "kdata t = kdata s"
    by (metis kmem_state.simps kmem_state.surjective kcore.simps kcore.surjective)+
qed

lemma vm_ext_trans:
  assumes "vm_ext d s F t G" "vm_ext d t G u H"
  shows "vm_ext d s F u H"
proof -
  have t: "t = s\<lparr>phys := phys t, freelist := freelist t\<rparr>"
    and u: "u = t\<lparr>phys := phys u, freelist := freelist u\<rparr>"
    using assms by (simp_all add: vm_ext_def)
  have eq: "u = s\<lparr>phys := phys u, freelist := freelist u\<rparr>"
    by (subst u, subst t) simp
  have mem: "phys u b = phys s b"
    if "\<not> in_page d b" "\<forall>p \<in> tables (phys s) d \<union> F. \<not> in_page p b" for b
  proof -
    have "\<forall>p \<in> tables (phys t) d \<union> G. \<not> in_page p b"
      using that(2) assms(1) by (auto simp: vm_ext_def)
    then show ?thesis
      using that assms by (simp add: vm_ext_def)
  qed
  show ?thesis
    using assms eq mem by (auto simp: vm_ext_def)
qed

lemma free_pages_page_ok: "free_pages s F \<Longrightarrow> p \<in> F \<Longrightarrow> page_ok (kend s) p"
  by (auto simp: free_pages_def kmem_inv_def)

lemma free_pages_aligned: "free_pages s F \<Longrightarrow> p \<in> F \<Longrightarrow> page_aligned p"
  using free_pages_page_ok page_ok_aligned by blast

lemma free_pages_nonzero: "free_pages s F \<Longrightarrow> p \<in> F \<Longrightarrow> p \<noteq> 0"
proof -
  have "flist m q xs \<Longrightarrow> 0 \<notin> set xs" for m q xs
    by (induction xs arbitrary: q) auto
  then show "free_pages s F \<Longrightarrow> p \<in> F \<Longrightarrow> p \<noteq> 0"
    by (auto simp: free_pages_def kmem_inv_def)
qed

lemma free_pages_mem:
  assumes "free_pages s F" "\<And>p b. p \<in> F \<Longrightarrow> in_page p b \<Longrightarrow> m b = phys s b"
  shows "free_pages (s\<lparr>phys := m\<rparr>) F"
proof -
  obtain xs where xs: "kmem_inv s xs" "set xs = F"
    using assms(1) by (auto simp: free_pages_def)
  have "kmem_inv (s\<lparr>phys := m\<rparr>) xs"
    using assms(2) xs by (intro kmem_inv_mem) auto
  with xs(2) show ?thesis by (auto simp: free_pages_def)
qed

lemma wp_kalloc_set:
  assumes "free_pages s F" "Lkmem \<notin> held s"
    and "F = {} \<Longrightarrow> Q 0 s"
    and "\<And>v f. v \<in> F \<Longrightarrow> v \<noteq> 0 \<Longrightarrow> page_aligned v \<Longrightarrow> free_pages (s\<lparr>freelist := f\<rparr>) (F - {v}) \<Longrightarrow>
           Q v (s\<lparr>freelist := f\<rparr>)"
  shows "wp kalloc Q s"
proof -
  obtain xs where xs: "kmem_inv s xs" "set xs = F"
    using assms(1) by (auto simp: free_pages_def)
  show ?thesis
  proof (rule wp_kalloc [OF xs(1) assms(2)])
    assume "xs = []" then show "Q 0 s" using xs(2) assms(3) by simp
  next
    fix v ys
    assume v: "xs = v # ys" "v \<noteq> 0" "page_ok (kend s) v"
      "kmem_inv (s\<lparr>freelist := load32 (phys s) v\<rparr>) ys"
    have "distinct xs" using xs(1) by (simp add: kmem_inv_def)
    then have "set ys = F - {v}" using v(1) xs(2) by auto
    then show "Q v (s\<lparr>freelist := load32 (phys s) v\<rparr>)"
      using v xs(2) by (intro assms(4)) (auto simp: free_pages_def page_ok_aligned)
  qed
qed

lemma wp_kfree_set:
  assumes "free_pages s F" "Lkmem \<notin> held s" "page_ok (kend s) v" "v \<notin> F"
    and "\<And>m. outside [v] (phys s) m \<Longrightarrow> free_pages (s\<lparr>phys := m, freelist := v\<rparr>) (insert v F) \<Longrightarrow>
           Q () (s\<lparr>phys := m, freelist := v\<rparr>)"
  shows "wp (kfree v) Q s"
proof -
  obtain xs where xs: "kmem_inv s xs" "set xs = F"
    using assms(1) by (auto simp: free_pages_def)
  show ?thesis
  proof (rule wp_kfree [OF xs(1) assms(3) _ assms(2)])
    show "v \<notin> set xs" using assms(4) xs(2) by simp
  next
    fix m assume m: "outside [v] (phys s) m" "kmem_inv (s\<lparr>phys := m, freelist := v\<rparr>) (v # xs)"
    then have "free_pages (s\<lparr>phys := m, freelist := v\<rparr>) (insert v F)"
      using xs(2) by (auto simp: free_pages_def intro!: exI [of _ "v # xs"])
    with m(1) show "Q () (s\<lparr>phys := m, freelist := v\<rparr>)" by (rule assms(5))
  qed
qed

section \<open>Walking and mapping\<close>

definition with_table :: "mem \<Rightarrow> u32 \<Rightarrow> u32 \<Rightarrow> u32 \<Rightarrow> mem" where
  "with_table m d i v = store32 (memset m v 0 PGSIZE) (slot d i) (pde_flags v)"

lemma with_table_outside:
  assumes "page_aligned d" "i < 1024" "\<not> in_page d b" "\<not> in_page v b"
  shows "with_table m d i v b = m b"
  using assms by (simp add: with_table_def store32_slot_outside memset_outside)

lemma pde_at_with_table:
  assumes "page_aligned d" "page_aligned v" "v \<noteq> d" "i < 1024" "j < 1024"
  shows "pde_at (with_table m d i v) d j = (if j = i then pde_flags v else pde_at m d j)"
proof (cases "j = i")
  case False
  have "pde_at (with_table m d i v) d j = load32 (memset m v 0 PGSIZE) (slot d j)"
    using assms False by (simp add: pde_at_def with_table_def load_store_slot)
  also have "\<dots> = pde_at m d j"
    unfolding pde_at_def using assms in_page_unique [of v d]
    by (intro load32_page_cong) (auto intro!: memset_outside)
  finally show ?thesis using False by simp
qed (simp add: pde_at_def with_table_def)

lemma tables_with_table:
  assumes "page_aligned d" "page_aligned v" "v \<noteq> d" "i < 1024" "\<not> present (pde_at m d i)"
  shows "tables (with_table m d i v) d = insert v (tables m d)"
proof -
  note pde = pde_at_with_table [OF assms(1-4)]
  show ?thesis
  proof
    show "tables (with_table m d i v) d \<subseteq> insert v (tables m d)"
      using assms(2) by (auto simp: tables_def pde split: if_splits)
    show "insert v (tables m d) \<subseteq> tables (with_table m d i v) d"
    proof
      fix p assume "p \<in> insert v (tables m d)"
      then consider "p = v" | j where "j < 1024" "present (pde_at m d j)" "p = PTE_ADDR (pde_at m d j)"
        by (auto simp: tables_def)
      then show "p \<in> tables (with_table m d i v) d"
      proof cases
        case 1
        then show ?thesis using tablesI [of i "with_table m d i v" d] assms(2,4) by (simp add: pde)
      next
        case 2
        then show ?thesis using tablesI [of j "with_table m d i v" d] assms(5) by (cases "j = i") (simp_all add: pde)
      qed
    qed
  qed
qed

lemma pt_wf_with_table:
  assumes wf: "pt_wf m d F" and v: "v \<in> F" "page_aligned v" "v \<noteq> 0"
    and i: "i < 1024" "\<not> present (pde_at m d i)"
  shows "pt_wf (with_table m d i v) d (F - {v})"
proof -
  have d: "page_aligned d" "v \<noteq> d" "v \<notin> tables m d" using wf v by (auto simp: pt_wf_def)
  note pde = pde_at_with_table [OF d(1) v(2) d(2) i(1)]
  note tab = tables_with_table [OF d(1) v(2) d(2) i]
  have "j = k"
    if jk: "j < 1024" "k < 1024" "present (pde_at (with_table m d i v) d j)"
      "present (pde_at (with_table m d i v) d k)"
      "PTE_ADDR (pde_at (with_table m d i v) d j) = PTE_ADDR (pde_at (with_table m d i v) d k)" for j k
  proof (cases "j = i \<or> k = i")
    case True
    then show ?thesis
      using jk d(3) v(2) tablesI [of j m d] tablesI [of k m d]
      by (auto simp: pde split: if_splits)
  next
    case False
    then show ?thesis using jk wf by (auto simp: pde pt_wf_def)
  qed
  then show ?thesis
    using wf v d unfolding pt_wf_def tab by blast
qed

lemma lookup_with_table:
  assumes wf: "pt_wf m d F" and v: "v \<in> F" "page_aligned v"
    and i: "\<not> present (pde_at m d (PDX va))"
  shows "lookup (with_table m d (PDX va) v) d va' = lookup m d va'"
proof -
  have d: "page_aligned d" "v \<noteq> d" "v \<notin> tables m d" "d \<notin> tables m d" using wf v by (auto simp: pt_wf_def)
  note pde = pde_at_with_table [OF d(1) v(2) d(2) PDX_less PDX_less]
  show ?thesis
  proof (cases "PDX va' = PDX va")
    case True
    have "load32 (with_table m d (PDX va) v) (slot v (PTX va')) = load32 (memset m v 0 PGSIZE) (slot v (PTX va'))"
      using d(1,2) v(2) PTX_less PDX_less by (simp add: with_table_def load_store_slot)
    then have "load32 (with_table m d (PDX va) v) (slot v (PTX va')) = 0"
      using v(2) PTX_less by (simp add: load32_memset0)
    then show ?thesis
      using True i v(2) by (simp add: lookup_def pde Let_def)
  next
    case False
    have "load32 (with_table m d (PDX va) v) (slot p (PTX va')) = load32 m (slot p (PTX va'))"
      if p: "p \<in> tables m d" for p
    proof (rule load32_page_cong)
      show "page_aligned p" using p by (rule tables_aligned)
      show "PTX va' < 1024" by (rule PTX_less)
      fix b assume "in_page p b"
      then show "with_table m d (PDX va) v b = m b"
        using d p v(2) tables_aligned [OF p] PDX_less in_page_unique
        by (intro with_table_outside) blast+
    qed
    then show ?thesis
      using False tablesI [OF PDX_less] by (simp add: lookup_def pde Let_def)
  qed
qed

text \<open>A store into the page-table entry of \<open>va\<close>.\<close>

definition pte_of :: "mem \<Rightarrow> u32 \<Rightarrow> u32 \<Rightarrow> u32" where
  "pte_of m d va = slot (PTE_ADDR (pde_at m d (PDX va))) (PTX va)"

lemma pte_store:
  fixes m :: mem and d va w :: u32
  assumes wf: "pt_wf m d F" and p: "present (pde_at m d (PDX va))"
  defines "m' \<equiv> store32 m (pte_of m d va) w"
  shows pte_store_pde: "i < 1024 \<Longrightarrow> pde_at m' d i = pde_at m d i"
    and pte_store_tables: "tables m' d = tables m d"
    and pte_store_wf: "pt_wf m' d F"
    and pte_store_lookup: "lookup m' d va' =
          (if same_page va' va then if present w then Some w else None else lookup m d va')"
    and pte_store_outside: "\<And>b. (\<forall>q \<in> tables m d. \<not> in_page q b) \<Longrightarrow> m' b = m b"
proof -
  let ?t = "PTE_ADDR (pde_at m d (PDX va))"
  have t: "?t \<in> tables m d" using PDX_less p by (rule tablesI)
  have al: "page_aligned ?t" by simp
  have d: "page_aligned d" "?t \<noteq> d" using wf t by (auto simp: pt_wf_def)
  have out: "m' b = m b" if "\<not> in_page ?t b" for b
    using that PTX_less by (simp add: m'_def pte_of_def store32_slot_outside)
  have dpage: "\<And>b. in_page d b \<Longrightarrow> m' b = m b"
    using out in_page_unique [OF al d(1)] d(2) by blast
  show pde: "i < 1024 \<Longrightarrow> pde_at m' d i = pde_at m d i" for i
    using d(1) _ dpage by (rule pde_at_cong)
  show "tables m' d = tables m d"
    using d(1) dpage by (rule tables_cong)
  show "pt_wf m' d F"
    using wf subset_refl dpage by (rule pt_wf_cong)
  show "\<And>b. (\<forall>q \<in> tables m d. \<not> in_page q b) \<Longrightarrow> m' b = m b"
    using out t by blast
  have ld: "load32 m' (slot (PTE_ADDR (pde_at m d (PDX va'))) (PTX va')) =
      (if same_page va' va then w else load32 m (slot (PTE_ADDR (pde_at m d (PDX va'))) (PTX va')))"
    if "present (pde_at m d (PDX va'))"
  proof (cases "same_page va' va")
    case True
    then show ?thesis by (simp add: m'_def pte_of_def same_page_PX)
  next
    case False
    have "\<not> (?t = PTE_ADDR (pde_at m d (PDX va')) \<and> PTX va = PTX va')"
      using False wf p that PDX_less by (auto simp: pt_wf_def same_page_PX)
    then show ?thesis
      using False PTX_less by (simp add: m'_def pte_of_def load_store_slot)
  qed
  have "present (pde_at m d (PDX va'))" if "same_page va' va"
    using that p by (simp add: same_page_PX)
  then show "lookup m' d va' =
      (if same_page va' va then if present w then Some w else None else lookup m d va')"
    using ld pde [OF PDX_less] by (simp add: lookup_def Let_def)
qed

lemma wp_walk_create:
  assumes inv: "vm_inv d s F"
    and fail: "F = {} \<Longrightarrow> Q 0 s"
    and ok: "\<And>t G. vm_ext d s F t G \<Longrightarrow> present (pde_at (phys t) d (PDX va)) \<Longrightarrow>
        (\<And>va'. lookup (phys t) d va' = lookup (phys s) d va') \<Longrightarrow>
        pte_of (phys t) d va \<noteq> 0 \<Longrightarrow> Q (pte_of (phys t) d va) t"
  shows "wp (walkpgdir d va True) Q s"
proof -
  let ?i = "PDX va"
  have nz: "slot p (PTX va) \<noteq> 0" if "page_aligned p" "p \<noteq> 0" for p
    using that unat_slot [OF that(1) PTX_less, of va] by (auto simp: word_unat_eq_iff)
  have wf: "free_pages s F" "pt_wf (phys s) d F" "Lkmem \<notin> held s" and d: "page_aligned d"
    using inv by (simp_all add: vm_inv_def pt_wf_def)
  show ?thesis
  proof (cases "present (pde_at (phys s) d ?i)")
    case True
    have "PTE_ADDR (pde_at (phys s) d ?i) \<noteq> 0"
      using tablesI [OF PDX_less True] wf(2) by (auto simp: pt_wf_def)
    then have "pte_of (phys s) d va \<noteq> 0" by (simp add: pte_of_def nz)
    then have "Q (pte_of (phys s) d va) s"
      using vm_ext_refl [OF inv] True by (intro ok) auto
    with True show ?thesis
      by (simp add: walkpgdir_def present_def pde_at_def pte_of_def)
  next
    case False
    have "wp kalloc (\<lambda>pgtab. wp (if pgtab = 0 then ret 0
       else thn (upd (\<lambda>s. s\<lparr>phys := memset (phys s) pgtab 0 PGSIZE\<rparr>)) (
            thn (upd (\<lambda>s. s\<lparr>phys := store32 (phys s) (slot d ?i)
                                    (pgtab OR PTE_P OR PTE_W OR PTE_U)\<rparr>))
                (ret (slot pgtab (PTX va))))) Q) s"
    proof (rule wp_kalloc_set [OF wf(1,3)])
      assume "F = {}"
      then show "wp (if (0::u32) = 0 then ret 0
       else thn (upd (\<lambda>s. s\<lparr>phys := memset (phys s) 0 0 PGSIZE\<rparr>)) (
            thn (upd (\<lambda>s. s\<lparr>phys := store32 (phys s) (slot d ?i)
                                    (0 OR PTE_P OR PTE_W OR PTE_U)\<rparr>))
                (ret (slot 0 (PTX va))))) Q s"
        using fail by simp
    next
      fix v f
      assume v: "v \<in> F" "v \<noteq> 0" "page_aligned v" and free: "free_pages (s\<lparr>freelist := f\<rparr>) (F - {v})"
      let ?m = "with_table (phys s) d ?i v"
      let ?t = "s\<lparr>freelist := f, phys := ?m\<rparr>"
      have vd: "v \<noteq> d" using wf(2) v(1) by (auto simp: pt_wf_def)
      have out: "?m b = phys s b" if "\<not> in_page d b" "\<not> in_page v b" for b
        using that d PDX_less by (simp add: with_table_outside)
      have "free_pages ?t (F - {v})"
      proof -
        have "?m b = phys s b" if "p \<in> F - {v}" "in_page p b" for p b
        proof -
          have "page_aligned p" "p \<noteq> d" "p \<noteq> v"
            using that(1) wf free_pages_aligned by (auto simp: pt_wf_def)
          then show ?thesis
            using that(2) d v(3) in_page_unique by (intro out) blast+
        qed
        then show ?thesis
          using free_pages_mem [OF free, of ?m] by simp
      qed
      moreover have "pt_wf ?m d (F - {v})"
        using wf(2) v PDX_less False by (intro pt_wf_with_table) auto
      ultimately have inv': "vm_inv d ?t (F - {v})"
        using wf(3) by (simp add: vm_inv_def)
      have tab: "tables ?m d = insert v (tables (phys s) d)"
        using d v vd PDX_less False by (intro tables_with_table)
      have ext: "vm_ext d s F ?t (F - {v})"
        using inv' tab out v(1) by (auto simp: vm_ext_def)
      have pde: "pde_at ?m d ?i = pde_flags v"
        using pde_at_with_table [OF d v(3) vd PDX_less PDX_less, of "phys s" va va] by simp
      then have pte: "pte_of ?m d va = slot v (PTX va)"
        using v(3) by (simp add: pte_of_def)
      have "Q (pte_of (phys ?t) d va) ?t"
        using ext
      proof (rule ok)
        show "present (pde_at (phys ?t) d ?i)" by (simp add: pde)
        show "lookup (phys ?t) d va' = lookup (phys s) d va'" for va'
          using lookup_with_table [OF wf(2) v(1,3) False] by simp
        show "pte_of (phys ?t) d va \<noteq> 0" using v nz by (simp add: pte)
      qed
      then have "Q (slot v (PTX va)) ?t" by (simp add: pte)
      then show "wp (if v = 0 then ret 0
       else thn (upd (\<lambda>s. s\<lparr>phys := memset (phys s) v 0 PGSIZE\<rparr>)) (
            thn (upd (\<lambda>s. s\<lparr>phys := store32 (phys s) (slot d ?i)
                                    (v OR PTE_P OR PTE_W OR PTE_U)\<rparr>))
                (ret (slot v (PTX va))))) Q (s\<lparr>freelist := f\<rparr>)"
        using v(2) by (simp add: with_table_def pde_flags_def)
    qed
    with False show ?thesis
      by (simp add: walkpgdir_def present_def pde_at_def)
  qed
qed

lemma vm_ext_pte_store:
  assumes inv: "vm_inv d t G" and p: "present (pde_at (phys t) d (PDX va))"
  shows "vm_ext d t G (t\<lparr>phys := store32 (phys t) (pte_of (phys t) d va) w\<rparr>) G"
proof -
  let ?m = "store32 (phys t) (pte_of (phys t) d va) w"
  have wf: "free_pages t G" "pt_wf (phys t) d G" "Lkmem \<notin> held t"
    using inv by (simp_all add: vm_inv_def)
  note st = pte_store_tables [OF wf(2) p, of w] pte_store_wf [OF wf(2) p, of w]
    pte_store_outside [OF wf(2) p, of _ w]
  have "free_pages (t\<lparr>phys := ?m\<rparr>) G"
  proof (rule free_pages_mem [OF wf(1)])
    fix q b assume q: "q \<in> G" "in_page q b"
    have "\<not> in_page p b" if "p \<in> tables (phys t) d" for p
      using that q wf(1,2) tables_aligned [OF that] free_pages_aligned [OF wf(1) q(1)] in_page_unique
      by (auto simp: pt_wf_def)
    then show "?m b = phys t b" by (intro st(3)) blast
  qed
  then show ?thesis
    using st wf(3) by (auto simp: vm_ext_def vm_inv_def)
qed

lemma wp_map_page:
  assumes inv: "vm_inv d s F" and new: "lookup (phys s) d a = None"
    and fail: "F = {} \<Longrightarrow> Q False s"
    and ok: "\<And>t G. vm_ext d s F t G \<Longrightarrow>
        (\<And>va. lookup (phys t) d va =
           (if same_page va a then Some (pa OR perm OR PTE_P) else lookup (phys s) d va)) \<Longrightarrow> Q True t"
  shows "wp (map_page d a pa perm) Q s"
  unfolding map_page_def
proof (subst wp_bnd, rule wp_walk_create [OF inv])
  assume "F = {}"
  with fail show "wp (if (0::u32) = 0 then ret False else bnd (get_pte 0) (\<lambda>old.
      if old AND PTE_P \<noteq> 0 then panic ''remap''
      else thn (put_pte 0 (pa OR perm OR PTE_P)) (ret True))) Q s"
    by simp
next
  fix t G
  assume ext: "vm_ext d s F t G" and p: "present (pde_at (phys t) d (PDX a))"
    and same: "\<And>va'. lookup (phys t) d va' = lookup (phys s) d va'"
    and nz: "pte_of (phys t) d a \<noteq> 0"
  have inv': "vm_inv d t G" and wf: "pt_wf (phys t) d G"
    using ext by (auto simp: vm_ext_def vm_inv_def)
  have "\<not> present (load32 (phys t) (pte_of (phys t) d a))"
    using new same [of a] p by (auto simp: lookup_def pte_of_def Let_def split: if_splits)
  moreover have "Q True (t\<lparr>phys := store32 (phys t) (pte_of (phys t) d a) (pa OR perm OR PTE_P)\<rparr>)"
  proof (rule ok)
    show "vm_ext d s F (t\<lparr>phys := store32 (phys t) (pte_of (phys t) d a) (pa OR perm OR PTE_P)\<rparr>) G"
      using ext vm_ext_pte_store [OF inv' p] by (rule vm_ext_trans)
    show "lookup (phys (t\<lparr>phys := store32 (phys t) (pte_of (phys t) d a) (pa OR perm OR PTE_P)\<rparr>)) d va =
        (if same_page va a then Some (pa OR perm OR PTE_P) else lookup (phys s) d va)" for va
      using pte_store_lookup [OF wf p] by (simp add: same)
  qed
  ultimately show "wp (if pte_of (phys t) d a = 0 then ret False else bnd (get_pte (pte_of (phys t) d a)) (\<lambda>old.
      if old AND PTE_P \<noteq> 0 then panic ''remap''
      else thn (put_pte (pte_of (phys t) d a) (pa OR perm OR PTE_P)) (ret True))) Q t"
    using nz by (simp add: get_pte_def put_pte_def present_def)
qed

section \<open>Mapping ranges\<close>

text \<open>Page numbers, and the entry a range mapping gives to an address.\<close>

definition page_no :: "u32 \<Rightarrow> nat" where
  "page_no a = unat a div 4096"

lemma same_page_no: "same_page a b \<longleftrightarrow> page_no a = page_no b"
  by (simp add: same_page_def page_no_def)

lemma page_no_less: "page_no a < 1048576"
  using u32_bound [of a] by (simp add: page_no_def)

lemma page_no_step:
  assumes "page_no a < 1048575"
  shows "page_no (a + PGSIZE) = page_no a + 1"
proof -
  have "unat a < 4294963200" using assms by (simp add: page_no_def)
  then have "unat (a + PGSIZE) = unat a + 4096"
    by (simp add: PGSIZE_def unat_word_ariths)
  then show ?thesis by (simp add: page_no_def)
qed

lemma PGROUNDDOWN_same: "page_aligned a \<Longrightarrow> page_no va = page_no a \<Longrightarrow> PGROUNDDOWN va = a"
  by (simp add: word_unat_eq_iff page_unat page_no_def nat_page_floor)

lemma page_aligned_step: "page_aligned a \<Longrightarrow> page_aligned (a + PGSIZE)"
proof -
  assume "page_aligned a"
  then have "unat (a + PGSIZE) mod 4096 = 0"
    by (simp add: PGSIZE_def page_unat unat_word_ariths mod_mod_cancel) 
  then show ?thesis by (simp add: page_unat)
qed

definition range_entry :: "u32 \<Rightarrow> u32 \<Rightarrow> u32 \<Rightarrow> u32 \<Rightarrow> u32" where
  "range_entry a pa perm va = (pa + (PGROUNDDOWN va - a)) OR perm OR PTE_P"

text \<open>The pages \<open>a, ..., a + k\<close>, and what a call that maps them leaves behind.\<close>

definition in_pages :: "u32 \<Rightarrow> nat \<Rightarrow> u32 \<Rightarrow> bool" where
  "in_pages a k va \<longleftrightarrow> page_no a \<le> page_no va \<and> page_no va \<le> page_no a + k"

definition range_mapped :: "u32 \<Rightarrow> mem \<Rightarrow> mem \<Rightarrow> u32 \<Rightarrow> nat \<Rightarrow> u32 \<Rightarrow> u32 \<Rightarrow> bool" where
  "range_mapped d m m' a k pa perm \<longleftrightarrow>
     (\<forall>va. lookup m' d va = (if in_pages a k va then Some (range_entry a pa perm va) else lookup m d va))"

definition map_post :: "u32 \<Rightarrow> 'z kmem_state_scheme \<Rightarrow> u32 set \<Rightarrow> u32 \<Rightarrow> nat \<Rightarrow> u32 \<Rightarrow> u32
    \<Rightarrow> int \<Rightarrow> 'z kmem_state_scheme \<Rightarrow> bool" where
  "map_post d s F a k pa perm r t \<longleftrightarrow> (\<exists>G. vm_ext d s F t G
     \<and> (r = 0 \<and> range_mapped d (phys s) (phys t) a k pa perm
        \<or> r = - 1 \<and> G = {} \<and> (\<forall>va. \<not> in_pages a k va \<longrightarrow> lookup (phys t) d va = lookup (phys s) d va)))"

lemma map_post_step:
  assumes ext: "vm_ext d s F t G"
    and lk: "\<And>va. lookup (phys t) d va =
           (if same_page va a then Some (pa OR perm OR PTE_P) else lookup (phys s) d va)"
    and a: "page_aligned a" "page_no (a + PGSIZE) = page_no a + 1"
    and post: "map_post d t G (a + PGSIZE) k (pa + PGSIZE) perm r u"
  shows "map_post d s F a (Suc k) pa perm r u"
proof -
  have entry: "range_entry (a + PGSIZE) (pa + PGSIZE) perm va = range_entry a pa perm va" for va
    by (simp add: range_entry_def algebra_simps)
  have first: "range_entry a pa perm va = pa OR perm OR PTE_P" if "page_no va = page_no a" for va
    using a(1) that by (simp add: range_entry_def PGROUNDDOWN_same)
  have split: "in_pages a (Suc k) va \<longleftrightarrow> page_no va = page_no a \<or> in_pages (a + PGSIZE) k va"
    and apart: "in_pages (a + PGSIZE) k va \<Longrightarrow> page_no va \<noteq> page_no a" for va
    using a(2) by (auto simp: in_pages_def)
  obtain H where H: "vm_ext d t G u H"
    "r = 0 \<and> range_mapped d (phys t) (phys u) (a + PGSIZE) k (pa + PGSIZE) perm
     \<or> r = - 1 \<and> H = {} \<and> (\<forall>va. \<not> in_pages (a + PGSIZE) k va \<longrightarrow> lookup (phys u) d va = lookup (phys t) d va)"
    using post by (auto simp: map_post_def)
  have "r = 0 \<and> range_mapped d (phys s) (phys u) a (Suc k) pa perm
     \<or> r = - 1 \<and> H = {} \<and> (\<forall>va. \<not> in_pages a (Suc k) va \<longrightarrow> lookup (phys u) d va = lookup (phys s) d va)"
    using H(2) first apart by (auto simp: range_mapped_def split entry lk same_page_no)
  with vm_ext_trans [OF ext H(1)] show ?thesis
    unfolding map_post_def by blast
qed

lemma wp_map_loop:
  assumes "vm_inv d s F" "page_aligned a" "page_no a + k < 1048576"
    and "\<And>va. in_pages a k va \<Longrightarrow> lookup (phys s) d va = None"
  shows "wp (map_loop k d a pa perm) (map_post d s F a k pa perm) s"
  using assms
proof (induction k arbitrary: a pa s F)
  case 0
  have new: "lookup (phys s) d a = None" using "0.prems"(4) by (simp add: in_pages_def)
  show ?case
    unfolding map_loop.simps wp_bnd wp_ret
  proof (rule wp_map_page [OF "0.prems"(1) new])
    fix t G
    assume "vm_ext d s F t G" "\<And>va. lookup (phys t) d va =
           (if same_page va a then Some (pa OR perm OR PTE_P) else lookup (phys s) d va)"
    moreover have "in_pages a 0 va \<longleftrightarrow> page_no va = page_no a" for va
      by (auto simp: in_pages_def)
    ultimately show "map_post d s F a 0 pa perm (if True then 0 else - 1) t"
      using "0.prems"(2)
      by (auto simp: map_post_def range_mapped_def same_page_no range_entry_def PGROUNDDOWN_same intro!: exI [of _ G])
  next
    assume "F = {}"
    then show "map_post d s F a 0 pa perm (if False then 0 else - 1) s"
      using vm_ext_refl [OF "0.prems"(1)] by (auto simp: map_post_def)
  qed
next
  case (Suc k)
  have new: "lookup (phys s) d a = None" using Suc.prems(4) by (simp add: in_pages_def)
  have a': "page_no (a + PGSIZE) = page_no a + 1" "page_aligned (a + PGSIZE)"
    using Suc.prems(2,3) page_no_step [of a] by (auto intro: page_aligned_step)
  show ?case
    unfolding map_loop.simps wp_bnd
  proof (rule wp_map_page [OF Suc.prems(1) new])
    fix t G
    assume ext: "vm_ext d s F t G" and lk: "\<And>va. lookup (phys t) d va =
           (if same_page va a then Some (pa OR perm OR PTE_P) else lookup (phys s) d va)"
    have inv': "vm_inv d t G" using ext by (simp add: vm_ext_def)
    have un: "lookup (phys t) d va = None" if "in_pages (a + PGSIZE) k va" for va
      using that Suc.prems(4) [of va] a'(1) by (simp add: lk same_page_no in_pages_def)
    have "wp (map_loop k d (a + PGSIZE) (pa + PGSIZE) perm)
        (map_post d t G (a + PGSIZE) k (pa + PGSIZE) perm) t"
      using inv' a' Suc.prems(3) un by (intro Suc.IH) auto
    then have "wp (map_loop k d (a + PGSIZE) (pa + PGSIZE) perm) (map_post d s F a (Suc k) pa perm) t"
      by (rule wp_mono) (rule map_post_step [OF ext lk Suc.prems(2) a'(1)])
    then show "wp (if \<not> True then ret (- 1) else map_loop k d (a + PGSIZE) (pa + PGSIZE) perm)
        (map_post d s F a (Suc k) pa perm) t"
      by simp
  next
    assume "F = {}"
    then show "wp (if \<not> False then ret (- 1) else map_loop k d (a + PGSIZE) (pa + PGSIZE) perm)
        (map_post d s F a (Suc k) pa perm) s"
      using vm_ext_refl [OF Suc.prems(1)] by (auto simp: map_post_def)
  qed
qed

text \<open>\<open>mappages\<close> on the bytes \<open>la, ..., la + sz - 1\<close>.\<close>

definition last_page :: "u32 \<Rightarrow> u32 \<Rightarrow> nat" where
  "last_page la sz = (unat la + unat sz - 1) div 4096 - unat la div 4096"

lemma wp_mappages:
  assumes "vm_inv d s F" "sz \<noteq> 0" "unat la + unat sz \<le> 2 ^ 32"
    and "\<And>va. in_pages la (last_page la sz) va \<Longrightarrow> lookup (phys s) d va = None"
  shows "wp (mappages d la sz pa perm)
      (map_post d s F (PGROUNDDOWN la) (last_page la sz) pa perm) s"
proof -
  let ?a = "PGROUNDDOWN la" and ?l = "PGROUNDDOWN (la + sz - 1)"
  have szp: "0 < unat sz" using assms(2) by (simp add: unat_gt_0)
  have "unat (la + (sz - 1)) = unat la + (unat sz - 1)"
    using szp assms(3) by (subst unat_add_small) (auto simp: unat_sub_word)
  then have l: "unat (la + sz - 1) = unat la + unat sz - 1"
    using szp by (simp add: add_diff_eq)
  have le: "unat la div 4096 \<le> (unat la + unat sz - 1) div 4096"
    using szp by (intro div_le_mono) simp
  then have "unat ?a \<le> unat ?l" by (simp add: page_unat l)
  then have "unat (?l - ?a) = unat ?l - unat ?a" by (simp add: unat_sub_word)
  then have k: "unat (?l - ?a) div 4096 = last_page la sz"
    by (simp add: page_unat l last_page_def flip: diff_mult_distrib)
  have pn: "page_no ?a = page_no la" by (simp add: page_no_def page_unat)
  have "page_no ?a + last_page la sz = page_no (la + sz - 1)"
    using le unfolding pn by (simp add: page_no_def last_page_def l)
  then have "page_no ?a + last_page la sz < 1048576"
    using page_no_less by simp
  moreover have "in_pages ?a k va = in_pages la k va" for k va
    by (simp add: in_pages_def pn)
  ultimately show ?thesis
    using assms(1,4) by (simp add: mappages_def k Let_def) (intro wp_map_loop, auto)
qed

section \<open>The kernel part of an address space\<close>

text \<open>The segment of a \<open>kmap\<close> table that covers an address.\<close>

fun kmap_find :: "(u32 \<times> u32 \<times> u32) list \<Rightarrow> u32 \<Rightarrow> u32 option" where
  "kmap_find [] va = None"
| "kmap_find ((p, e, perm) # ks) va =
     (if in_pages p (last_page p (e - p)) va then Some perm else kmap_find ks va)"

fun kmap_ok :: "(u32 \<times> u32 \<times> u32) list \<Rightarrow> bool" where
  "kmap_ok [] = True"
| "kmap_ok ((p, e, perm) # ks) \<longleftrightarrow> page_aligned p \<and> e - p \<noteq> 0 \<and> unat p + unat (e - p) \<le> 2 ^ 32
     \<and> (\<forall>va. in_pages p (last_page p (e - p)) va \<longrightarrow> kmap_find ks va = None) \<and> kmap_ok ks"

definition kmap_post :: "u32 \<Rightarrow> 'z kmem_state_scheme \<Rightarrow> u32 set \<Rightarrow> (u32 \<times> u32 \<times> u32) list
    \<Rightarrow> u32 \<Rightarrow> 'z kmem_state_scheme \<Rightarrow> bool" where
  "kmap_post d s F ks r t \<longleftrightarrow> (\<exists>G. vm_ext d s F t G \<and> (r = 0 \<and> G = {} \<or> r = d \<and>
     (\<forall>va. lookup (phys t) d va = (case kmap_find ks va of
          Some perm \<Rightarrow> Some (PGROUNDDOWN va OR perm OR PTE_P) | None \<Rightarrow> lookup (phys s) d va))))"

lemma in_pages_round [simp]: "in_pages (PGROUNDDOWN a) k va = in_pages a k va"
  by (simp add: in_pages_def page_no_def page_unat)

lemma range_entry_identity [simp]: "range_entry p p perm va = PGROUNDDOWN va OR perm OR PTE_P"
  by (simp add: range_entry_def)

lemma wp_kmap_loop:
  assumes "vm_inv d s F" "kmap_ok ks" "\<And>va. kmap_find ks va \<noteq> None \<Longrightarrow> lookup (phys s) d va = None"
  shows "wp (kmap_loop d ks) (kmap_post d s F ks) s"
  using assms
proof (induction d ks arbitrary: s F rule: kmap_loop.induct)
  case (1 d)
  then show ?case using vm_ext_refl by (auto simp: kmap_post_def)
next
  case (2 d p e perm ks)
  let ?k = "last_page p (e - p)"
  have ok: "page_aligned p" "kmap_ok ks" "\<And>va. in_pages p ?k va \<Longrightarrow> kmap_find ks va = None"
    using "2.prems"(2) by auto
  have unmapped: "lookup (phys s) d va = None" if "in_pages p ?k va" for va
    using that "2.prems"(3) [of va] by simp
  have "wp (mappages d p (e - p) p perm) (map_post d s F (PGROUNDDOWN p) ?k p perm) s"
    using "2.prems"(1,2) unmapped by (intro wp_mappages) auto
  moreover have "wp (if r < 0 then ret 0 else kmap_loop d ks) (kmap_post d s F ((p, e, perm) # ks)) t"
    if post: "map_post d s F (PGROUNDDOWN p) ?k p perm r t" for r t
  proof -
    obtain G where G: "vm_ext d s F t G"
      "r = 0 \<and> range_mapped d (phys s) (phys t) p ?k p perm \<or> r = - 1 \<and> G = {}"
      using post ok(1) by (auto simp: map_post_def)
    show ?thesis
    proof (cases "r = - 1")
      case True
      then show ?thesis using G by (auto simp: kmap_post_def)
    next
      case False
      then have r: "r = 0" and m: "range_mapped d (phys s) (phys t) p ?k p perm"
        using G(2) by auto
      have inv': "vm_inv d t G" using G(1) by (simp add: vm_ext_def)
      have un: "lookup (phys t) d va = None" if "kmap_find ks va \<noteq> None" for va
      proof -
        have "\<not> in_pages p ?k va" using that ok(3) by auto
        then show ?thesis
          using m that "2.prems"(3) [of va] by (simp add: range_mapped_def)
      qed
      have "wp (kmap_loop d ks) (kmap_post d t G ks) t"
        using r inv' ok(2) un by (intro "2.IH" [of 0]) auto
      moreover have "kmap_post d s F ((p, e, perm) # ks) r' u" if pk: "kmap_post d t G ks r' u" for r' u
      proof -
        obtain H where H: "vm_ext d t G u H" "r' = 0 \<and> H = {} \<or> r' = d \<and>
          (\<forall>va. lookup (phys u) d va = (case kmap_find ks va of
            Some perm \<Rightarrow> Some (PGROUNDDOWN va OR perm OR PTE_P) | None \<Rightarrow> lookup (phys t) d va))"
          using pk unfolding kmap_post_def by blast
        have "lookup (phys u) d va = (case kmap_find ((p, e, perm) # ks) va of
            Some perm \<Rightarrow> Some (PGROUNDDOWN va OR perm OR PTE_P) | None \<Rightarrow> lookup (phys s) d va)"
          if "\<forall>va. lookup (phys u) d va = (case kmap_find ks va of
            Some perm \<Rightarrow> Some (PGROUNDDOWN va OR perm OR PTE_P) | None \<Rightarrow> lookup (phys t) d va)" for va
          using that m ok(3) [of va] by (auto simp: range_mapped_def split: option.splits)
        with H vm_ext_trans [OF G(1) H(1)] show ?thesis
          unfolding kmap_post_def by blast
      qed
      ultimately show ?thesis using r by (auto elim: wp_mono)
    qed
  qed
  ultimately show ?case
    unfolding kmap_loop.simps wp_bnd by (rule wp_mono)
qed

text \<open>What \<open>setupkvm\<close> promises: the identity mapping of the kernel's segments, nothing below.\<close>

definition kernel_entry :: "u32 \<Rightarrow> u32 \<Rightarrow> u32 option" where
  "kernel_entry data va =
     (if va < USERTOP then None
      else if va < 0x100000 then Some (PGROUNDDOWN va OR PTE_W OR PTE_P)
      else if va < data then Some (PGROUNDDOWN va OR PTE_P)
      else if va < PHYSTOP then Some (PGROUNDDOWN va OR PTE_W OR PTE_P)
      else if va < 0xFE000000 then None
      else Some (PGROUNDDOWN va OR PTE_W OR PTE_P))"

definition data_ok :: "u32 \<Rightarrow> bool" where
  "data_ok data \<longleftrightarrow> page_aligned data \<and> 0x100000 < data \<and> data < PHYSTOP"

lemma in_pages_segment:
  assumes "page_aligned p" "page_aligned e" "p < e"
  shows "in_pages p (last_page p (e - p)) va \<longleftrightarrow> p \<le> va \<and> va < e"
proof -
  obtain a b where ab: "unat p = 4096 * a" "unat e = 4096 * b"
    using assms by (metis page_aligned_unat mod_0_imp_dvd dvdE)
  have lt: "a < b" using assms(3) ab by (simp add: word_less_nat_alt)
  have "unat (e - p) = unat e - unat p"
    using assms(3) by (simp add: unat_sub_word word_less_nat_alt)
  then have "last_page p (e - p) = b - 1 - a"
  proof -
    have "4096 * b - 1 = 4096 * (b - 1) + 4095" using lt by simp
    then have "(4096 * b - 1) div 4096 = b - 1" by simp
    then show ?thesis
      using lt ab \<open>unat (e - p) = unat e - unat p\<close> by (simp add: last_page_def)
  qed
  moreover have "a \<le> n div 4096 \<and> n div 4096 \<le> a + (b - 1 - a) \<longleftrightarrow> 4096 * a \<le> n \<and> n < 4096 * b" for n
  proof -
    have "n div 4096 \<le> a + (b - 1 - a) \<longleftrightarrow> n div 4096 < b" using lt by auto
    then show ?thesis
      by (simp add: less_eq_div_iff_mult_less_eq div_less_iff_less_mult mult.commute)
  qed
  ultimately show ?thesis
    by (simp add: in_pages_def page_no_def ab word_le_nat_alt word_less_nat_alt)
qed

lemma in_pages_devices: "in_pages 0xFE000000 (last_page 0xFE000000 (0 - 0xFE000000)) va \<longleftrightarrow> 0xFE000000 \<le> va"
proof -
  have "4261412864 \<le> unat va \<longleftrightarrow> 1040384 \<le> unat va div 4096"
    by (simp add: less_eq_div_iff_mult_less_eq)
  then show ?thesis
    using page_no_less [of va]
    by (simp add: in_pages_def page_no_def last_page_def word_le_nat_alt)
qed

lemma kmap_segments:
  assumes "data_ok data"
  shows "in_pages USERTOP (last_page USERTOP (0x100000 - USERTOP)) va \<longleftrightarrow> USERTOP \<le> va \<and> va < 0x100000"
    and "in_pages 0x100000 (last_page 0x100000 (data - 0x100000)) va \<longleftrightarrow> 0x100000 \<le> va \<and> va < data"
    and "in_pages data (last_page data (PHYSTOP - data)) va \<longleftrightarrow> data \<le> va \<and> va < PHYSTOP"
  using assms
  by (intro in_pages_segment; simp add: data_ok_def page_aligned_def PGSIZE_def USERTOP_def PHYSTOP_def)+

lemma kmap_ok_kmap:
  assumes "data_ok data"
  shows "kmap_ok (kmap data)"
proof -
  have d: "1048576 < unat data" "unat data < 16777216" "page_aligned data"
    using assms by (simp_all add: data_ok_def PHYSTOP_def word_less_nat_alt)
  have al: "page_aligned USERTOP" "page_aligned 0x100000" "page_aligned 0xFE000000"
    by (simp_all add: page_aligned_def PGSIZE_def USERTOP_def)
  have sz: "unat (e - p) = unat e - unat p" "e - p \<noteq> 0" if "unat p < unat e" for p e :: u32
    using that by (auto simp: unat_sub_word)
  have c: "unat USERTOP = 655360" "unat PHYSTOP = 16777216"
    by (simp_all add: USERTOP_def PHYSTOP_def)
  show ?thesis
    unfolding kmap_def kmap_ok.simps kmap_find.simps kmap_segments [OF assms] in_pages_devices
    using d al sz [of USERTOP "0x100000"] sz [of "0x100000" data] sz [of data PHYSTOP]
    by (simp add: c word_le_nat_alt word_less_nat_alt)
qed

lemma kmap_find_kmap:
  assumes "data_ok data"
  shows "(case kmap_find (kmap data) va of
      Some perm \<Rightarrow> Some (PGROUNDDOWN va OR perm OR PTE_P) | None \<Rightarrow> None) = kernel_entry data va"
proof -
  have d: "1048576 < unat data" "unat data < 16777216"
    using assms by (simp_all add: data_ok_def PHYSTOP_def word_less_nat_alt)
  have c: "unat USERTOP = 655360" "unat PHYSTOP = 16777216"
    by (simp_all add: USERTOP_def PHYSTOP_def)
  show ?thesis
    unfolding kmap_def kmap_find.simps kmap_segments [OF assms] in_pages_devices kernel_entry_def
    using d by (auto simp: c word_le_nat_alt word_less_nat_alt)
qed

lemma lookup_zero_page:
  assumes "page_aligned d" "\<And>b. in_page d b \<Longrightarrow> m b = 0"
  shows "lookup m d va = None" "tables m d = {}" "i < 1024 \<Longrightarrow> pde_at m d i = 0"
proof -
  have z: "pde_at m d i = 0" if "i < 1024" for i
  proof -
    have "pde_at m d i = pde_at (\<lambda>_. 0) d i"
      using assms(1) that assms(2) by (rule pde_at_cong)
    then show ?thesis by (simp add: pde_at_def load32_def join4_def)
  qed
  then show "i < 1024 \<Longrightarrow> pde_at m d i = 0" .
  show "lookup m d va = None" using z [OF PDX_less] by (simp add: lookup_def)
  show "tables m d = {}" using z by (auto simp: tables_def)
qed

lemma wp_setupkvm:
  assumes "free_pages s F" "Lkmem \<notin> held s" "data_ok (kdata s)"
  shows "wp setupkvm (\<lambda>d t. \<exists>G. G \<subseteq> F \<and> t = s\<lparr>phys := phys t, freelist := freelist t\<rparr>
       \<and> (\<forall>b. (\<forall>p \<in> F. \<not> in_page p b) \<longrightarrow> phys t b = phys s b)
       \<and> (d = 0 \<and> free_pages t {} \<and> G = {}
          \<or> d \<in> F \<and> vm_inv d t G \<and> F = insert d (G \<union> tables (phys t) d)
            \<and> (\<forall>va. lookup (phys t) d va = kernel_entry (kdata s) va))) s"
  unfolding setupkvm_def
proof (subst wp_bnd, rule wp_kalloc_set [OF assms(1,2)])
  assume "F = {}"
  then show "wp (if (0::u32) = 0 then ret 0 else thn (upd (\<lambda>s. s\<lparr>phys := memset (phys s) 0 0 PGSIZE\<rparr>))
      (bnd (asks kdata) (\<lambda>data. kmap_loop 0 (kmap data))))
    (\<lambda>d t. \<exists>G. G \<subseteq> F \<and> t = s\<lparr>phys := phys t, freelist := freelist t\<rparr>
       \<and> (\<forall>b. (\<forall>p \<in> F. \<not> in_page p b) \<longrightarrow> phys t b = phys s b)
       \<and> (d = 0 \<and> free_pages t {} \<and> G = {}
          \<or> d \<in> F \<and> vm_inv d t G \<and> F = insert d (G \<union> tables (phys t) d)
            \<and> (\<forall>va. lookup (phys t) d va = kernel_entry (kdata s) va))) s"
    using assms(1) by simp
next
  fix d f
  assume d: "d \<in> F" "d \<noteq> 0" "page_aligned d" and free: "free_pages (s\<lparr>freelist := f\<rparr>) (F - {d})"
  let ?m = "memset (phys s) d 0 PGSIZE"
  let ?t = "s\<lparr>freelist := f, phys := ?m\<rparr>"
  have z: "\<And>b. in_page d b \<Longrightarrow> ?m b = 0" by (simp add: memset_inside)
  have lz: "lookup ?m d va = None" for va
    by (rule lookup_zero_page(1) [OF d(3)]) (rule z)
  note zero = lookup_zero_page [OF d(3) z]
  have "free_pages ?t (F - {d})"
  proof -
    have "?m b = phys s b" if "p \<in> F - {d}" "in_page p b" for p b
      using that d(3) free_pages_aligned [OF assms(1)] in_page_unique by (intro memset_outside) blast
    then show ?thesis using free_pages_mem [OF free, of ?m] by simp
  qed
  then have inv: "vm_inv d ?t (F - {d})"
    using d(3) assms(2) zero by (auto simp: vm_inv_def pt_wf_def)
  have "wp (kmap_loop d (kmap (kdata s))) (kmap_post d ?t (F - {d}) (kmap (kdata s))) ?t"
    using inv kmap_ok_kmap [OF assms(3)] zero(1) by (intro wp_kmap_loop) auto
  moreover have "\<exists>G. G \<subseteq> F \<and> u = s\<lparr>phys := phys u, freelist := freelist u\<rparr>
       \<and> (\<forall>b. (\<forall>p \<in> F. \<not> in_page p b) \<longrightarrow> phys u b = phys s b)
       \<and> (r = 0 \<and> free_pages u {} \<and> G = {}
          \<or> r \<in> F \<and> vm_inv r u G \<and> F = insert r (G \<union> tables (phys u) r)
            \<and> (\<forall>va. lookup (phys u) r va = kernel_entry (kdata s) va))"
    if pk: "kmap_post d ?t (F - {d}) (kmap (kdata s)) r u" for r u
  proof -
    obtain G where G: "vm_ext d ?t (F - {d}) u G" "r = 0 \<and> G = {} \<or> r = d \<and>
        (\<forall>va. lookup (phys u) d va = (case kmap_find (kmap (kdata s)) va of
          Some perm \<Rightarrow> Some (PGROUNDDOWN va OR perm OR PTE_P) | None \<Rightarrow> lookup ?m d va))"
      using pk unfolding kmap_post_def by (simp cong: option.case_cong) blast
    have "u = ?t\<lparr>phys := phys u, freelist := freelist u\<rparr>" using G(1) by (simp add: vm_ext_def)
    then have eq: "u = s\<lparr>phys := phys u, freelist := freelist u\<rparr>" by simp
    have mem: "phys u b = phys s b" if "\<forall>p \<in> F. \<not> in_page p b" for b
    proof -
      have "phys u b = ?m b"
        using G(1) that d(1) zero(2) by (simp add: vm_ext_def)
      then show ?thesis using that d(1) by (simp add: memset_outside)
    qed
    have "tables (phys u) d = F - {d} - G" "G \<subseteq> F - {d}"
      using G(1) zero(2) by (auto simp: vm_ext_def)
    then have "vm_inv d u G" "G \<subseteq> F" "F = insert d (G \<union> tables (phys u) d)"
      using G(1) d(1) by (auto simp: vm_ext_def)
    moreover have "free_pages u G" using calculation(1) by (simp add: vm_inv_def)
    moreover have "(case kmap_find (kmap (kdata s)) va of
        Some perm \<Rightarrow> Some (PGROUNDDOWN va OR perm OR PTE_P) | None \<Rightarrow> lookup ?m d va)
        = kernel_entry (kdata s) va" for va
      using kmap_find_kmap [OF assms(3), of va] lz [of va] by (simp split: option.splits)
    ultimately show ?thesis
      using eq mem d(1) G(2) by (intro exI [of _ G]) (simp, blast)
  qed
  ultimately show "wp (if d = 0 then ret 0 else thn (upd (\<lambda>s. s\<lparr>phys := memset (phys s) d 0 PGSIZE\<rparr>))
      (bnd (asks kdata) (\<lambda>data. kmap_loop d (kmap data))))
    (\<lambda>d t. \<exists>G. G \<subseteq> F \<and> t = s\<lparr>phys := phys t, freelist := freelist t\<rparr>
       \<and> (\<forall>b. (\<forall>p \<in> F. \<not> in_page p b) \<longrightarrow> phys t b = phys s b)
       \<and> (d = 0 \<and> free_pages t {} \<and> G = {}
          \<or> d \<in> F \<and> vm_inv d t G \<and> F = insert d (G \<union> tables (phys t) d)
            \<and> (\<forall>va. lookup (phys t) d va = kernel_entry (kdata s) va))) (s\<lparr>freelist := f\<rparr>)"
    using d(2) by (auto elim!: wp_mono)
qed

section \<open>Properties\<close>

text \<open>C1: \<open>mappages\<close> on a range no page of which is mapped either returns 0 and then the
  hardware translation takes each page of the range to the corresponding physical page with
  the given permissions, or returns -1 with no free page left.  In both cases every address
  outside the range is translated as before, the page tables it added are exactly the free pages
  it took, memory outside the directory, its tables and the free pages is untouched, and the page
  directory stays well formed; it never panics.\<close>

theorem mappages_translates:
  assumes "vm_inv d s F" "sz \<noteq> 0" "unat la + unat sz \<le> 2 ^ 32"
    and "\<forall>va. in_pages la (last_page la sz) va \<longrightarrow> lookup (phys s) d va = None"
  shows "wp (mappages d la sz pa perm) (\<lambda>r t. \<exists>G. vm_inv d t G \<and> G \<subseteq> F \<and>
      tables (phys t) d = tables (phys s) d \<union> (F - G) \<and>
      t = s\<lparr>phys := phys t, freelist := freelist t\<rparr> \<and>
      (\<forall>b. \<not> in_page d b \<longrightarrow> (\<forall>p \<in> tables (phys s) d \<union> F. \<not> in_page p b) \<longrightarrow> phys t b = phys s b) \<and>
      (\<forall>va. \<not> in_pages la (last_page la sz) va \<longrightarrow> lookup (phys t) d va = lookup (phys s) d va) \<and>
      (r = 0 \<and> (\<forall>va. in_pages la (last_page la sz) va \<longrightarrow> lookup (phys t) d va =
           Some (pa + (PGROUNDDOWN va - PGROUNDDOWN la) OR perm OR PTE_P))
       \<or> r = - 1 \<and> G = {})) s"
proof -
  have "wp (mappages d la sz pa perm) (map_post d s F (PGROUNDDOWN la) (last_page la sz) pa perm) s"
    using assms by (intro wp_mappages) auto
  then show ?thesis
    by (rule wp_mono) (force simp: map_post_def range_mapped_def range_entry_def vm_ext_def)
qed

definition two_free_dir :: kmem_state where
  "two_free_dir = two_free\<lparr>phys := memset (phys two_free) 0x500000 0 PGSIZE\<rparr>"

lemma two_free_dir_inv:
  "vm_inv 0x500000 two_free_dir {0x401000, 0x400000}"
  "lookup (phys two_free_dir) 0x500000 va = None"
proof -
  have al: "page_aligned (0x500000 :: u32)" "page_aligned (0x401000 :: u32)" "page_aligned (0x400000 :: u32)"
    by (simp_all add: page_aligned_def PGSIZE_def)
  have z: "\<And>b. in_page 0x500000 b \<Longrightarrow> phys two_free_dir b = 0"
    by (simp add: two_free_dir_def memset_inside)
  show "lookup (phys two_free_dir) 0x500000 va = None"
    by (rule lookup_zero_page(1) [OF al(1)]) (rule z)
  have tab: "tables (phys two_free_dir) 0x500000 = {}"
    by (rule lookup_zero_page(2) [OF al(1)]) (rule z)
  have "\<not> present (pde_at (phys two_free_dir) 0x500000 i)" if "i < 1024" for i
    using lookup_zero_page(3) [OF al(1), of "phys two_free_dir" i] z that by simp
  moreover have "free_pages two_free_dir {0x401000, 0x400000}"
    unfolding two_free_dir_def
  proof (rule free_pages_mem [OF two_free_pages])
    fix p b :: u32
    assume p: "p \<in> {0x401000, 0x400000}" "in_page p b"
    then have "\<not> in_page 0x500000 b"
      using in_page_unique [OF al(1,2)] in_page_unique [OF al(1,3)] by auto
    then show "memset (phys two_free) 0x500000 0 PGSIZE b = phys two_free b"
      by (rule memset_outside)
  qed
  ultimately show "vm_inv 0x500000 two_free_dir {0x401000, 0x400000}"
    using al(1) tab by (auto simp: vm_inv_def pt_wf_def two_free_dir_def two_free_def)
qed

theorem mappages_translates_witness:
  "wp (mappages 0x500000 0x3000 PGSIZE 0x600000 PTE_W) (\<lambda>r t. \<exists>G. vm_inv 0x500000 t G
     \<and> G \<subseteq> {0x401000, 0x400000} \<and>
      (\<forall>va. \<not> in_pages 0x3000 (last_page 0x3000 PGSIZE) va \<longrightarrow> lookup (phys t) 0x500000 va = None) \<and>
      (r = 0 \<and> (\<forall>va. in_pages 0x3000 (last_page 0x3000 PGSIZE) va \<longrightarrow> lookup (phys t) 0x500000 va =
           Some (0x600000 + (PGROUNDDOWN va - PGROUNDDOWN 0x3000) OR PTE_W OR PTE_P))
       \<or> r = - 1 \<and> G = {})) two_free_dir"
  by (rule wp_mono, rule mappages_translates [OF two_free_dir_inv(1)])
    (auto simp: PGSIZE_def two_free_dir_inv(2))

text \<open>\<open>setupkvm\<close> returns 0 or a new page directory, taken with its page tables from the
  free pages, whose translation is exactly the kernel's map: nothing below \<open>USERTOP\<close>, the
  identity above it with each segment's permissions, devices at the top; memory outside the
  free pages is untouched.\<close>

theorem setupkvm_maps_kernel:
  assumes "free_pages s F" "Lkmem \<notin> held s" "data_ok (kdata s)"
  shows "wp setupkvm (\<lambda>d t. (\<forall>b. (\<forall>p \<in> F. \<not> in_page p b) \<longrightarrow> phys t b = phys s b)
       \<and> (d = 0 \<or> d \<in> F \<and> tables (phys t) d \<subseteq> F \<and> (\<exists>G. G \<subseteq> F \<and> vm_inv d t G)
            \<and> (\<forall>va. lookup (phys t) d va = kernel_entry (kdata s) va))) s"
  using wp_setupkvm [OF assms] by (rule wp_mono) auto

theorem setupkvm_maps_kernel_witness:
  "wp setupkvm (\<lambda>d t. (\<forall>b. (\<forall>p \<in> {0x401000, 0x400000}. \<not> in_page p b) \<longrightarrow> phys t b = phys two_free b)
       \<and> (d = 0 \<or> d \<in> {0x401000, 0x400000} \<and> tables (phys t) d \<subseteq> {0x401000, 0x400000}
            \<and> (\<exists>G. G \<subseteq> {0x401000, 0x400000} \<and> vm_inv d t G)
            \<and> (\<forall>va. lookup (phys t) d va = kernel_entry 0x108000 va))) two_free"
proof -
  have "data_ok (kdata two_free)" "Lkmem \<notin> held two_free" "kdata two_free = 0x108000"
    by (simp_all add: two_free_def data_ok_def page_aligned_def PGSIZE_def PHYSTOP_def)
  then show ?thesis
    using setupkvm_maps_kernel [OF two_free_pages] by simp
qed

text \<open>\<open>setupkvm\<close> does not give back what it took when memory runs out half way: with one free page
  it returns 0 and no page is free any more.\<close>

lemma setupkvm_leaks:
  assumes "free_pages s {p}" "Lkmem \<notin> held s" "data_ok (kdata s)"
  shows "wp setupkvm (\<lambda>d t. d = 0 \<and> free_pages t {}) s"
proof (rule wp_mono [OF wp_setupkvm [OF assms]])
  fix d and t :: "'a kmem_state_scheme"
  assume h: "\<exists>G. G \<subseteq> {p} \<and> t = s\<lparr>phys := phys t, freelist := freelist t\<rparr>
       \<and> (\<forall>b. (\<forall>p \<in> {p}. \<not> in_page p b) \<longrightarrow> phys t b = phys s b)
       \<and> (d = 0 \<and> free_pages t {} \<and> G = {}
          \<or> d \<in> {p} \<and> vm_inv d t G \<and> {p} = insert d (G \<union> tables (phys t) d)
            \<and> (\<forall>va. lookup (phys t) d va = kernel_entry (kdata s) va))"
  have no: False if "vm_inv d t G" "{p} = insert d (G \<union> tables (phys t) d)" "lookup (phys t) d USERTOP \<noteq> None" for G
  proof -
    define T where "T = tables (phys t) d"
    have "present (pde_at (phys t) d (PDX USERTOP))" using that(3) by (auto simp: lookup_def Let_def split: if_splits)
    then obtain x where x: "x \<in> T" using PDX_less by (auto simp: tables_def T_def)
    have d: "d \<notin> T" using that(1) by (simp add: vm_inv_def pt_wf_def T_def)
    have sub: "insert d (G \<union> T) \<subseteq> {p}" unfolding T_def by (rule equalityD2 [OF that(2)])
    then have "x = p" "d = p" using x by (auto dest!: subsetD)
    then show False using x d by simp
  qed
  have ke: "kernel_entry (kdata s) USERTOP \<noteq> None" by (simp add: kernel_entry_def USERTOP_def)
  obtain G where "d = 0 \<and> free_pages t {} \<or> vm_inv d t G \<and> {p} = insert d (G \<union> tables (phys t) d)
      \<and> lookup (phys t) d USERTOP = kernel_entry (kdata s) USERTOP"
    using h by blast
  then show "d = 0 \<and> free_pages t {}"
  proof (elim disjE)
    assume k: "vm_inv d t G \<and> {p} = insert d (G \<union> tables (phys t) d)
      \<and> lookup (phys t) d USERTOP = kernel_entry (kdata s) USERTOP"
    have False using k ke by (intro no [of G]) auto
    then show ?thesis ..
  qed
qed

end
