(* ===== verification/VmUser.thy ===== *)
theory VmUser
  imports Vm
begin

text \<open>
  The user part of an address space: what \<open>deallocuvm\<close>, \<open>allocuvm\<close>, \<open>freevm\<close>, \<open>copyuvm\<close> and
  \<open>copyout\<close> of \<open>kernel/vm.c\<close> do to the translation, to the contents of the mapped pages and
  to the free set.  The invariant \<open>as_inv\<close> says that user pages are frames of their own.
\<close>

section \<open>The invariant of a user address space\<close>

text \<open>Addresses below \<open>USERTOP\<close>: pages 0 to 159, all in the first page table.\<close>

definition user_page :: "u32 \<Rightarrow> bool" where
  "user_page va \<longleftrightarrow> page_no va < 160"

lemma user_page_PDX: "user_page va \<Longrightarrow> PDX va = 0"
proof -
  assume "user_page va"
  then have "unat va < 160 * 4096"
    using div_mult_mod_eq [of "unat va" 4096] mod_less_divisor [of 4096 "unat va"]
    by (simp add: user_page_def page_no_def)
  then show ?thesis by (simp add: word_unat_eq_iff unat_PDX)
qed

definition user_wf :: "mem \<Rightarrow> u32 \<Rightarrow> u32 set \<Rightarrow> u32 \<Rightarrow> bool" where
  "user_wf m d F e \<longleftrightarrow>
     (\<forall>va p. user_page va \<longrightarrow> lookup m d va = Some p \<longrightarrow>
        page_ok e (PTE_ADDR p) \<and> PTE_ADDR p \<noteq> d \<and> PTE_ADDR p \<notin> tables m d \<and> PTE_ADDR p \<notin> F)
   \<and> (\<forall>va vb p q. user_page va \<longrightarrow> user_page vb \<longrightarrow> lookup m d va = Some p \<longrightarrow>
        lookup m d vb = Some q \<longrightarrow> PTE_ADDR p = PTE_ADDR q \<longrightarrow> same_page va vb)"

definition as_inv :: "u32 \<Rightarrow> 'z kmem_state_scheme \<Rightarrow> u32 set \<Rightarrow> bool" where
  "as_inv d s F \<longleftrightarrow> vm_inv d s F \<and> present (pde_at (phys s) d 0) \<and> user_wf (phys s) d F (kend s)"

text \<open>
  Only memory and the free list differ; the tables are the same pages, and memory outside
  them and outside the pages \<open>R\<close> is as before.
\<close>

definition as_frame :: "u32 \<Rightarrow> u32 set \<Rightarrow> 'z kmem_state_scheme \<Rightarrow> 'z kmem_state_scheme \<Rightarrow> bool" where
  "as_frame d R s t \<longleftrightarrow> t = s\<lparr>phys := phys t, freelist := freelist t\<rparr>
     \<and> tables (phys t) d = tables (phys s) d
     \<and> (\<forall>b. (\<forall>p \<in> tables (phys s) d \<union> R. \<not> in_page p b) \<longrightarrow> phys t b = phys s b)"

lemma mem_only:
  assumes "t = s\<lparr>phys := p, freelist := f\<rparr>"
  shows "held t = held s" "kend t = kend s" "kdata t = kdata s" "kmem_state.more t = kmem_state.more s"
  using assms by simp_all

lemma mem_only_trans:
  "s = s0\<lparr>phys := p, freelist := f\<rparr> \<Longrightarrow> t = s\<lparr>phys := p', freelist := f'\<rparr> \<Longrightarrow>
   t = s0\<lparr>phys := p', freelist := f'\<rparr>"
  by simp

lemma mem_only_step:
  "t = s\<lparr>freelist := f, phys := m, phys := p', freelist := f'\<rparr> \<Longrightarrow> t = s\<lparr>phys := p', freelist := f'\<rparr>"
  by simp

lemma as_frame_refl [simp]: "as_frame d R s s"
  by (simp add: as_frame_def)

lemma as_frame_trans: "as_frame d R s t \<Longrightarrow> as_frame d R t u \<Longrightarrow> as_frame d R s u"
proof -
  assume st: "as_frame d R s t" and tu: "as_frame d R t u"
  have t: "t = s\<lparr>phys := phys t, freelist := freelist t\<rparr>"
    and u: "u = t\<lparr>phys := phys u, freelist := freelist u\<rparr>"
    using st tu by (simp_all add: as_frame_def)
  have "u = s\<lparr>phys := phys u, freelist := freelist u\<rparr>"
    by (subst u, subst t) simp
  with st tu show ?thesis by (simp add: as_frame_def)
qed

lemma as_frame_mono: "as_frame d R s t \<Longrightarrow> R \<subseteq> R' \<Longrightarrow> as_frame d R' s t"
  unfolding as_frame_def by blast

lemma as_frame_fields:
  assumes "as_frame d R s t"
  shows "held t = held s" "kend t = kend s" "kdata t = kdata s"
    "kmem_state.more t = kmem_state.more s"
proof -
  have "t = s\<lparr>phys := phys t, freelist := freelist t\<rparr>"
    using assms by (simp add: as_frame_def)
  then show "held t = held s" "kend t = kend s" "kdata t = kdata s"
    "kmem_state.more t = kmem_state.more s"
    by (rule mem_only)+
qed

lemma user_lookup_cases:
  assumes "as_inv d s F" "user_page a"
  shows "present (pde_at (phys s) d (PDX a))"
    and "pte_of (phys s) d a \<noteq> 0"
    and "lookup (phys s) d a = (let p = load32 (phys s) (pte_of (phys s) d a) in if present p then Some p else None)"
proof -
  show p: "present (pde_at (phys s) d (PDX a))"
    using assms by (simp add: as_inv_def user_page_PDX)
  have "PTE_ADDR (pde_at (phys s) d (PDX a)) \<noteq> 0"
    using tablesI [OF PDX_less p] assms(1) by (auto simp: as_inv_def vm_inv_def pt_wf_def)
  then show "pte_of (phys s) d a \<noteq> 0"
    using unat_slot [OF page_aligned_round(2) PTX_less, of "pde_at (phys s) d (PDX a)" a]
    by (auto simp: pte_of_def word_unat_eq_iff)
  show "lookup (phys s) d a = (let p = load32 (phys s) (pte_of (phys s) d a) in if present p then Some p else None)"
    using p by (simp add: lookup_def pte_of_def Let_def)
qed

lemma wp_walk_user:
  assumes "as_inv d s F" "user_page a" "Q (pte_of (phys s) d a) s"
  shows "wp (walkpgdir d a create) Q s"
  using user_lookup_cases(1) [OF assms(1,2)] assms(3)
  by (simp add: walkpgdir_def present_def pde_at_def pte_of_def)

text \<open>The free set may lose pages, and mapped pages stay as they are, when memory changes elsewhere.\<close>

lemma user_wf_store:
  assumes wf: "user_wf m d F e" and pt: "pt_wf m d F" and p: "present (pde_at m d (PDX a))"
    and w: "present w \<Longrightarrow> page_ok e (PTE_ADDR w) \<and> PTE_ADDR w \<noteq> d \<and> PTE_ADDR w \<notin> tables m d \<and> PTE_ADDR w \<notin> G
        \<and> (\<forall>vb q. user_page vb \<longrightarrow> \<not> same_page vb a \<longrightarrow> lookup m d vb = Some q \<longrightarrow> PTE_ADDR q \<noteq> PTE_ADDR w)"
    and G: "\<And>vb q. user_page vb \<Longrightarrow> \<not> same_page vb a \<Longrightarrow> lookup m d vb = Some q \<Longrightarrow> PTE_ADDR q \<notin> G"
  shows "user_wf (store32 m (pte_of m d a) w) d G e"
proof -
  note lk = pte_store_lookup [OF pt p, of w] and tb = pte_store_tables [OF pt p, of w]
  have sym: "same_page x y \<Longrightarrow> same_page y x"
    and trans: "same_page x y \<Longrightarrow> same_page z y \<Longrightarrow> same_page x z" for x y z
    by (simp_all add: same_page_def)
  have own: "page_ok e (PTE_ADDR q) \<and> PTE_ADDR q \<noteq> d \<and> PTE_ADDR q \<notin> tables m d \<and> PTE_ADDR q \<notin> G"
    if "user_page va" "(if same_page va a then if present w then Some w else None else lookup m d va) = Some q" for va q
  proof (cases "same_page va a")
    case True
    then show ?thesis using that w by (simp split: if_splits)
  next
    case False
    then have "lookup m d va = Some q" using that by simp
    then show ?thesis using wf that(1) G [OF that(1) False] unfolding user_wf_def by blast
  qed
  have inj: "same_page va vb"
    if u: "user_page va" "user_page vb" and eq: "PTE_ADDR q = PTE_ADDR r"
      and q: "(if same_page va a then if present w then Some w else None else lookup m d va) = Some q"
      and r: "(if same_page vb a then if present w then Some w else None else lookup m d vb) = Some r"
    for va vb q r
  proof (cases "same_page va a"; cases "same_page vb a")
    assume "same_page va a" "same_page vb a" then show ?thesis by (rule trans)
  next
    assume a: "same_page va a" "\<not> same_page vb a"
    then have "q = w" "present w" "lookup m d vb = Some r" using q r by (simp_all split: if_splits)
    then show ?thesis using w u(2) a(2) eq by metis
  next
    assume a: "\<not> same_page va a" "same_page vb a"
    then have "r = w" "present w" "lookup m d va = Some q" using q r by (simp_all split: if_splits)
    then show ?thesis using w u(1) a(1) eq by metis
  next
    assume a: "\<not> same_page va a" "\<not> same_page vb a"
    then have "lookup m d va = Some q" "lookup m d vb = Some r" using q r by simp_all
    then show ?thesis using wf u eq unfolding user_wf_def by blast
  qed
  show ?thesis
    unfolding user_wf_def tb lk using own inj by blast
qed

lemma user_wf_subset: "user_wf m d F e \<Longrightarrow> G \<subseteq> F \<Longrightarrow> user_wf m d G e"
  unfolding user_wf_def by blast

lemma user_wf_cong:
  assumes "user_wf m d F e" "page_aligned d" "\<And>b. in_page d b \<Longrightarrow> m' b = m b"
    and "\<And>p b. p \<in> tables m d \<Longrightarrow> in_page p b \<Longrightarrow> m' b = m b"
  shows "user_wf m' d F e"
proof -
  have "lookup m' d va = lookup m d va" for va
    using assms(2-4) by (rule lookup_cong)
  moreover have "tables m' d = tables m d"
    using assms(2,3) by (rule tables_cong)
  ultimately show ?thesis using assms(1) by (simp add: user_wf_def)
qed

text \<open>A change of memory inside free pages keeps everything else.\<close>

lemma as_inv_mem:
  assumes inv: "as_inv d s F" and free: "free_pages t G" "Lkmem \<notin> held t" "kend t = kend s"
    and out: "outside ps (phys s) (phys t)" and ps: "\<And>p. p \<in> set ps \<Longrightarrow> page_aligned p \<and> p \<noteq> d \<and> p \<notin> tables (phys s) d"
    and G: "\<And>p. p \<in> G \<Longrightarrow> p \<in> F \<or> p \<in> set ps"
    and U: "\<And>va p. user_page va \<Longrightarrow> lookup (phys s) d va = Some p \<Longrightarrow> PTE_ADDR p \<notin> G"
  shows "as_inv d t G" "lookup (phys t) d va = lookup (phys s) d va" "tables (phys t) d = tables (phys s) d"
proof -
  have wf: "pt_wf (phys s) d F" "user_wf (phys s) d F (kend s)" and d: "page_aligned d"
    using inv by (auto simp: as_inv_def vm_inv_def pt_wf_def)
  have dm: "phys t b = phys s b" if "in_page d b" for b
    using out ps d in_page_unique that by (intro outsideD [OF out]) blast
  have tm: "phys t b = phys s b" if "p \<in> tables (phys s) d" "in_page p b" for p b
    using ps tables_aligned [OF that(1)] in_page_unique that by (intro outsideD [OF out]) blast
  show tb: "tables (phys t) d = tables (phys s) d"
    using d dm by (rule tables_cong)
  show lk: "lookup (phys t) d va = lookup (phys s) d va" for va
    using d dm tm by (rule lookup_cong)
  have pde: "pde_at (phys t) d i = pde_at (phys s) d i" if "i < 1024" for i
    using d that dm by (rule pde_at_cong)
  have "pt_wf (phys t) d G"
    using wf(1) ps G unfolding pt_wf_def tb by (auto simp: pde)
  moreover have "user_wf (phys t) d G (kend t)"
    using wf(2) U free(3) unfolding user_wf_def lk tb by auto
  ultimately show "as_inv d t G"
    using inv free pde [of 0] by (simp add: as_inv_def vm_inv_def)
qed

section \<open>Unmapping\<close>

definition entry_pages :: "mem \<Rightarrow> u32 \<Rightarrow> u32 set \<Rightarrow> u32 set" where
  "entry_pages m d A = {PTE_ADDR e |a e. a \<in> A \<and> lookup m d a = Some e}"

lemma entry_pages_Un: "entry_pages m d (A \<union> B) = entry_pages m d A \<union> entry_pages m d B"
  by (auto simp: entry_pages_def)

text \<open>Clearing the entry of a user page.\<close>

lemma as_inv_clear:
  assumes inv: "as_inv d s F" and a: "user_page a"
  shows "as_inv d (s\<lparr>phys := store32 (phys s) (pte_of (phys s) d a) 0\<rparr>) F"
    and "as_frame d R s (s\<lparr>phys := store32 (phys s) (pte_of (phys s) d a) 0\<rparr>)"
    and "lookup (store32 (phys s) (pte_of (phys s) d a) 0) d va
         = (if same_page va a then None else lookup (phys s) d va)"
proof -
  have vm: "vm_inv d s F" and wf: "pt_wf (phys s) d F" "user_wf (phys s) d F (kend s)"
    using inv by (auto simp: as_inv_def vm_inv_def)
  note p = user_lookup_cases(1) [OF inv a]
  note st = pte_store_pde [OF wf(1) p, of 0] pte_store_tables [OF wf(1) p]
    pte_store_outside [OF wf(1) p] pte_store_lookup [OF wf(1) p]
  have "vm_inv d (s\<lparr>phys := store32 (phys s) (pte_of (phys s) d a) 0\<rparr>) F"
    using vm_ext_pte_store [OF vm p, of 0] by (simp add: vm_ext_def)
  moreover have "user_wf (store32 (phys s) (pte_of (phys s) d a) 0) d F (kend s)"
    using wf(2) by (intro user_wf_store [OF wf(2,1) p]) (auto simp: user_wf_def)
  ultimately show "as_inv d (s\<lparr>phys := store32 (phys s) (pte_of (phys s) d a) 0\<rparr>) F"
    using inv st(1) by (simp add: as_inv_def)
  show "as_frame d R s (s\<lparr>phys := store32 (phys s) (pte_of (phys s) d a) 0\<rparr>)"
    using st(2,3) by (auto simp: as_frame_def)
  show "lookup (store32 (phys s) (pte_of (phys s) d a) 0) d va
         = (if same_page va a then None else lookup (phys s) d va)"
    by (simp add: st(4))
qed

lemma wp_dealloc_page:
  assumes inv: "as_inv d s F" and a: "user_page a"
    and post: "\<And>t. as_inv d t (F \<union> entry_pages (phys s) d {a}) \<Longrightarrow>
        as_frame d (F \<union> entry_pages (phys s) d {a}) s t \<Longrightarrow>
        (\<And>va. lookup (phys t) d va = (if same_page va a then None else lookup (phys s) d va)) \<Longrightarrow> Q () t"
  shows "wp (dealloc_page d a) Q s"
  unfolding dealloc_page_def
proof (subst wp_bnd, rule wp_walk_user [OF inv a])
  let ?pte = "pte_of (phys s) d a" and ?e = "load32 (phys s) (pte_of (phys s) d a)"
  note lk = user_lookup_cases(2,3) [OF inv a]
  have wf: "pt_wf (phys s) d F" "user_wf (phys s) d F (kend s)" "free_pages s F" "Lkmem \<notin> held s"
    using inv by (auto simp: as_inv_def vm_inv_def)
  show "wp (if ?pte = 0 then skip else bnd (get_pte ?pte) (\<lambda>e. if e AND PTE_P = 0 then skip
      else let pa = PTE_ADDR e in if pa = 0 then panic ''kfree'' else thn (kfree pa) (put_pte ?pte 0))) Q s"
  proof (cases "present ?e")
    case False
    then have "lookup (phys s) d a = None" using lk by (simp add: Let_def)
    moreover from this have "entry_pages (phys s) d {a} = {}" by (simp add: entry_pages_def)
    ultimately have "Q () s"
      using inv lookup_same_page [of _ a "phys s" d] by (intro post) auto
    with False lk(1) show ?thesis by (simp add: get_pte_def present_def)
  next
    case True
    let ?pa = "PTE_ADDR ?e"
    have e: "lookup (phys s) d a = Some ?e" using True lk by (simp add: Let_def)
    then have ep: "entry_pages (phys s) d {a} = {?pa}" by (simp add: entry_pages_def)
    have pa: "page_ok (kend s) ?pa" "?pa \<noteq> d" "?pa \<notin> tables (phys s) d" "?pa \<notin> F"
      using wf(2) a e unfolding user_wf_def by blast+
    have nz: "?pa \<noteq> 0"
      using pa(1) wf(3) by (auto simp: page_ok_def free_pages_def kmem_inv_def)
    have "wp (kfree ?pa) (\<lambda>_. wp (put_pte ?pte 0) Q) s"
    proof (rule wp_kfree_set [OF wf(3,4) pa(1,4)])
      fix m
      let ?t = "s\<lparr>phys := m, freelist := ?pa\<rparr>"
      assume out: "outside [?pa] (phys s) m" and free: "free_pages ?t (insert ?pa F)"
      \<comment> \<open>between \<open>kfree\<close> and the clearing of the entry the page is free and still mapped\<close>
      have d: "page_aligned d" using wf(1) by (simp add: pt_wf_def)
      have dm: "m b = phys s b" if "in_page d b" for b
        using pa(2) d in_page_unique [of ?pa d b] that by (intro outsideD [OF out]) auto
      have tm: "m b = phys s b" if "p \<in> tables (phys s) d" "in_page p b" for p b
        using pa(3) tables_aligned [OF that(1)] in_page_unique [of ?pa p b] that
        by (intro outsideD [OF out]) auto
      have pde: "pde_at m d i = pde_at (phys s) d i" if "i < 1024" for i
        using d that dm by (rule pde_at_cong)
      have tb: "tables m d = tables (phys s) d" using d dm by (rule tables_cong)
      have lkm: "lookup m d va = lookup (phys s) d va" for va
        using d dm tm by (rule lookup_cong)
      have pte: "pte_of m d a = ?pte" by (simp add: pte_of_def pde PDX_less)
      have ptm: "pt_wf m d (insert ?pa F)"
        using wf(1) pa(2,3) unfolding pt_wf_def tb by (auto simp: pde)
      have pm: "present (pde_at m d (PDX a))"
        using user_lookup_cases(1) [OF inv a] by (simp add: pde PDX_less)
      let ?m = "store32 m (pte_of m d a) 0"
      have "vm_inv d ?t (insert ?pa F)" using free ptm wf(4) by (simp add: vm_inv_def)
      then have vm: "vm_inv d (?t\<lparr>phys := ?m\<rparr>) (insert ?pa F)"
        using vm_ext_pte_store [of d ?t "insert ?pa F" a 0] pm by (simp add: vm_ext_def)
      have "user_wf ?m d (insert ?pa F) (kend s)"
      proof (rule user_wf_store [OF _ _ pm])
        show "user_wf m d F (kend s)" using wf(2) d dm tm by (rule user_wf_cong)
        show "pt_wf m d F" using wf(1) subset_refl dm by (rule pt_wf_cong)
        fix vb q assume vb: "user_page vb" "\<not> same_page vb a" "lookup m d vb = Some q"
        then show "PTE_ADDR q \<notin> insert ?pa F"
          using wf(2) a e unfolding lkm user_wf_def by blast
      qed simp
      then have inv': "as_inv d (?t\<lparr>phys := ?m\<rparr>) (insert ?pa F)"
        using vm inv pde [of 0] pte_store_pde [OF ptm pm, of 0 0] by (simp add: as_inv_def)
      have fr: "as_frame d (insert ?pa F) s (?t\<lparr>phys := ?m\<rparr>)"
        unfolding as_frame_def
      proof (intro conjI allI impI)
        show "tables (phys (?t\<lparr>phys := ?m\<rparr>)) d = tables (phys s) d"
          using pte_store_tables [OF ptm pm] tb by simp
        fix b assume b: "\<forall>p \<in> tables (phys s) d \<union> insert ?pa F. \<not> in_page p b"
        then have "?m b = m b" using pte_store_outside [OF ptm pm, of b 0] tb by simp
        also have "m b = phys s b" using b by (intro outsideD [OF out]) simp
        finally show "phys (?t\<lparr>phys := ?m\<rparr>) b = phys s b" by simp
      qed simp
      have "Q () (?t\<lparr>phys := ?m\<rparr>)"
        using inv' fr pte_store_lookup [OF ptm pm, of 0] lkm by (intro post) (simp_all add: ep)
      then show "wp (put_pte ?pte 0) Q ?t" by (simp add: put_pte_def pte)
    qed
    with True lk(1) nz show ?thesis by (simp add: get_pte_def present_def Let_def)
  qed
qed

lemma entry_pages_same: "(\<And>a. a \<in> A \<Longrightarrow> lookup m d a = lookup m' d a) \<Longrightarrow> entry_pages m d A = entry_pages m' d A"
  unfolding entry_pages_def by (metis (no_types, lifting))

lemma wp_dealloc_pages:
  assumes "as_inv d s F" "\<forall>a \<in> set as. user_page a"
    and "\<And>t. as_inv d t (F \<union> entry_pages (phys s) d (set as)) \<Longrightarrow>
        as_frame d (F \<union> entry_pages (phys s) d (set as)) s t \<Longrightarrow>
        (\<And>va. lookup (phys t) d va = (if \<exists>a \<in> set as. same_page va a then None else lookup (phys s) d va)) \<Longrightarrow> Q () t"
  shows "wp (foreach as (dealloc_page d)) Q s"
  using assms
proof (induction as arbitrary: s F)
  case Nil
  then show ?case by (simp add: entry_pages_def)
next
  case (Cons a as)
  have a: "user_page a" using Cons.prems(2) by simp
  show ?case
    unfolding foreach.simps wp_thn
  proof (rule wp_dealloc_page [OF Cons.prems(1) a])
    fix t
    assume t: "as_inv d t (F \<union> entry_pages (phys s) d {a})"
      "as_frame d (F \<union> entry_pages (phys s) d {a}) s t"
      "\<And>va. lookup (phys t) d va = (if same_page va a then None else lookup (phys s) d va)"
    have ep: "entry_pages (phys s) d {a} \<union> entry_pages (phys t) d (set as) = entry_pages (phys s) d (set (a # as))"
    proof
      show "entry_pages (phys s) d {a} \<union> entry_pages (phys t) d (set as) \<subseteq> entry_pages (phys s) d (set (a # as))"
        by (auto simp: entry_pages_def t(3) split: if_splits)
      show "entry_pages (phys s) d (set (a # as)) \<subseteq> entry_pages (phys s) d {a} \<union> entry_pages (phys t) d (set as)"
      proof
        fix p assume "p \<in> entry_pages (phys s) d (set (a # as))"
        then obtain b e where b: "b \<in> set (a # as)" "lookup (phys s) d b = Some e" "p = PTE_ADDR e"
          by (auto simp: entry_pages_def)
        show "p \<in> entry_pages (phys s) d {a} \<union> entry_pages (phys t) d (set as)"
        proof (cases "same_page b a")
          case True
          then show ?thesis
            using b(2,3) lookup_same_page [OF True, of "phys s" d] by (auto simp: entry_pages_def)
        next
          case False
          then have "b \<in> set as" using b(1) by (auto simp: same_page_def)
          then show ?thesis using False b(2,3) t(3) [of b] by (auto simp: entry_pages_def)
        qed
      qed
    qed
    show "wp (foreach as (dealloc_page d)) Q t"
    proof (rule Cons.IH [OF t(1)])
      show "\<forall>a \<in> set as. user_page a" using Cons.prems(2) by simp
      fix u
      assume u: "as_inv d u (F \<union> entry_pages (phys s) d {a} \<union> entry_pages (phys t) d (set as))"
        "as_frame d (F \<union> entry_pages (phys s) d {a} \<union> entry_pages (phys t) d (set as)) t u"
        "\<And>va. lookup (phys u) d va = (if \<exists>a \<in> set as. same_page va a then None else lookup (phys t) d va)"
      show "Q () u"
      proof (rule Cons.prems(3))
        show "as_inv d u (F \<union> entry_pages (phys s) d (set (a # as)))"
          using u(1) unfolding ep [symmetric] by (simp add: Un_assoc)
        show "as_frame d (F \<union> entry_pages (phys s) d (set (a # as))) s u"
        proof -
          have "as_frame d (F \<union> entry_pages (phys s) d {a} \<union> entry_pages (phys t) d (set as)) s t"
            using t(2) by (rule as_frame_mono) blast
          from as_frame_trans [OF this u(2)] show ?thesis
            unfolding ep [symmetric] by (simp add: Un_assoc)
        qed
        show "lookup (phys u) d va = (if \<exists>a \<in> set (a # as). same_page va a then None else lookup (phys s) d va)" for va
          by (simp add: u(3) t(3))
      qed
    qed
  qed
qed

text \<open>The pages with their base address in \<open>[a, e)\<close>.\<close>

definition in_span :: "u32 \<Rightarrow> u32 \<Rightarrow> u32 \<Rightarrow> bool" where
  "in_span a e va \<longleftrightarrow> page_no a \<le> page_no va \<and> page_no va * 4096 < unat e"

lemma pages_upto_step:
  assumes "page_aligned a" "k < (unat (e :: u32) - unat a + 4095) div 4096"
  shows "unat (a + of_nat k * PGSIZE) = unat a + k * 4096" "unat a + k * 4096 < unat e"
proof -
  have "(k + 1) * 4096 \<le> (unat e - unat a + 4095) div 4096 * 4096"
    using assms(2) by (intro mult_le_mono1) simp
  also have "\<dots> \<le> unat e - unat a + 4095" by simp
  finally show l: "unat a + k * 4096 < unat e" using assms(2) by (cases "unat a < unat e") auto
  have "unat e < 4294967296" using u32_bound [of e] by simp
  with l have k: "k * 4096 < 2 ^ 32" "unat a + k * 4096 < 2 ^ 32" by simp_all
  then have "k < 2 ^ 32" by linarith
  then have "unat (of_nat k * PGSIZE :: u32) = k * 4096"
    using k(1) by (simp add: PGSIZE_def unat_word_ariths unat_of_nat_small)
  with k(2) show "unat (a + of_nat k * PGSIZE) = unat a + k * 4096"
    by (subst unat_add_small) simp_all
qed

lemma pages_upto_mem:
  "x \<in> set (pages_upto a e) \<longleftrightarrow> (\<exists>k < (unat e - unat a + 4095) div 4096. x = a + of_nat k * PGSIZE)"
  unfolding pages_upto_def set_map set_upt image_iff Bex_def atLeastLessThan_iff by simp

lemma page_no_base: "page_aligned a \<Longrightarrow> unat a = page_no a * 4096"
  by (simp add: page_no_def page_unat nat_page_floor)

lemma pages_upto_span:
  assumes a: "page_aligned a"
  shows "(\<exists>x \<in> set (pages_upto a e). same_page va x) \<longleftrightarrow> in_span a e va"
proof -
  let ?n = "(unat e - unat a + 4095) div 4096"
  have pn: "page_no (a + of_nat k * PGSIZE) = page_no a + k" if "k < ?n" for k
    using pages_upto_step(1) [OF a that] by (simp add: page_no_def)
  show ?thesis
  proof
    assume "\<exists>x \<in> set (pages_upto a e). same_page va x"
    then obtain k where k: "k < ?n" "same_page va (a + of_nat k * PGSIZE)"
      unfolding Bex_def pages_upto_mem by blast
    then have "page_no va = page_no a + k" using pn by (simp add: same_page_no)
    then show "in_span a e va"
      using pages_upto_step(2) [OF a k(1)] page_no_base [OF a] by (simp add: in_span_def)
  next
    assume sp: "in_span a e va"
    define k where "k = page_no va - page_no a"
    have va: "page_no va = page_no a + k" using sp by (simp add: in_span_def k_def)
    then have "unat a + k * 4096 < unat e" using sp page_no_base [OF a] by (simp add: in_span_def)
    then have "(k + 1) * 4096 \<le> unat e - unat a + 4095" by simp
    then have "k + 1 \<le> ?n" using div_le_mono [of "(k + 1) * 4096" _ 4096] by simp
    then have "k < ?n" by simp
    moreover from this va have "same_page va (a + of_nat k * PGSIZE)" by (simp add: pn same_page_no)
    ultimately show "\<exists>x \<in> set (pages_upto a e). same_page va x"
      unfolding Bex_def pages_upto_mem by blast
  qed
qed

lemma pages_upto_in:
  assumes "page_aligned a" "x \<in> set (pages_upto a e)"
  shows "page_aligned x" "in_span a e x"
proof -
  obtain k where k: "k < (unat e - unat a + 4095) div 4096" "x = a + of_nat k * PGSIZE"
    using assms(2) unfolding pages_upto_mem by blast
  have "unat x = page_no a * 4096 + k * 4096"
    using pages_upto_step(1) [OF assms(1) k(1)] k(2) page_no_base [OF assms(1)] by simp
  then show "page_aligned x" by (simp add: page_unat)
  show "in_span a e x"
    using pages_upto_span [OF assms(1), of e x] assms(2) by (auto simp: same_page_def)
qed

lemma user_page_USERTOP: "user_page va \<longleftrightarrow> page_no va * 4096 < unat USERTOP"
  by (simp add: user_page_def USERTOP_def)

lemma in_span_user: "in_span a e va \<Longrightarrow> e \<le> USERTOP \<Longrightarrow> user_page va"
  by (simp add: in_span_def user_page_USERTOP word_le_nat_alt)

text \<open>The pages of a span, as entries: the frames \<open>deallocuvm\<close> gives back.\<close>

definition span_pages :: "mem \<Rightarrow> u32 \<Rightarrow> u32 \<Rightarrow> u32 \<Rightarrow> u32 set" where
  "span_pages m d a e = entry_pages m d {va. in_span a e va}"

lemma entry_pages_upto:
  "page_aligned a \<Longrightarrow> entry_pages m d (set (pages_upto a e)) = span_pages m d a e"
proof
  assume a: "page_aligned a"
  show "entry_pages m d (set (pages_upto a e)) \<subseteq> span_pages m d a e"
    using pages_upto_in(2) [OF a] unfolding span_pages_def entry_pages_def by blast
  show "span_pages m d a e \<subseteq> entry_pages m d (set (pages_upto a e))"
  proof
    fix p assume "p \<in> span_pages m d a e"
    then obtain va v where va: "in_span a e va" "lookup m d va = Some v" "p = PTE_ADDR v"
      by (auto simp: span_pages_def entry_pages_def)
    from pages_upto_span [OF a, of e va] va(1) obtain x where x: "x \<in> set (pages_upto a e)" "same_page va x"
      by auto
    then show "p \<in> entry_pages m d (set (pages_upto a e))"
      using va(2,3) lookup_same_page [OF x(2), of m d] by (auto simp: entry_pages_def)
  qed
qed

lemma wp_deallocuvm:
  assumes inv: "as_inv d s F" and old: "oldsz \<le> USERTOP" and le: "newsz < oldsz"
    and post: "\<And>t. as_inv d t (F \<union> span_pages (phys s) d (PGROUNDUP newsz) oldsz) \<Longrightarrow>
        as_frame d (F \<union> span_pages (phys s) d (PGROUNDUP newsz) oldsz) s t \<Longrightarrow>
        (\<And>va. lookup (phys t) d va =
           (if in_span (PGROUNDUP newsz) oldsz va then None else lookup (phys s) d va)) \<Longrightarrow> Q newsz t"
  shows "wp (deallocuvm d oldsz newsz) Q s"
proof -
  have al: "page_aligned (PGROUNDUP newsz)"
    unfolding page_aligned_unat PGROUNDUP_def
    using unat_and_not_fff [of "newsz + PGSIZE - 1"] by (simp add: PGSIZE_def)
  have "wp (foreach (pages_upto (PGROUNDUP newsz) oldsz) (dealloc_page d)) (\<lambda>_. Q newsz) s"
  proof (rule wp_dealloc_pages [OF inv])
    show "\<forall>a \<in> set (pages_upto (PGROUNDUP newsz) oldsz). user_page a"
      using pages_upto_in(2) [OF al] in_span_user [OF _ old] by blast
  qed (use post in \<open>simp add: entry_pages_upto [OF al] pages_upto_span [OF al]\<close>)
  then show ?thesis using le by (auto simp: deallocuvm_def dest: leD)
qed

section \<open>Mapping fresh pages\<close>

lemma mappages_one: "page_aligned a \<Longrightarrow> mappages d a PGSIZE pa perm = map_loop 0 d a pa perm"
proof -
  assume a: "page_aligned a"
  have "unat (a + 4095) = unat a + 4095"
    using aligned_room [OF a] by (subst unat_add_small) simp_all
  moreover have "a + PGSIZE - 1 = a + 4095" by (simp add: PGSIZE_def)
  ultimately have "unat (a + PGSIZE - 1) = unat a + 4095" by (simp only:)
  moreover have "(unat a + 4095) div 4096 = unat a div 4096"
    using page_no_base [OF a] by (simp add: page_no_def)
  ultimately have "PGROUNDDOWN (a + PGSIZE - 1) = a"
    using a by (simp add: word_unat_eq_iff page_unat nat_page_floor)
  then show ?thesis using a by (simp add: mappages_def Let_def)
qed

text \<open>Mapping a page that is neither free nor used by this directory at an unmapped user address.\<close>

lemma as_inv_map:
  assumes inv: "as_inv d s F" and a: "user_page a" 
    and w: "page_ok (kend s) (PTE_ADDR w)" "PTE_ADDR w \<noteq> d" "PTE_ADDR w \<notin> tables (phys s) d" "PTE_ADDR w \<notin> F"
      "\<And>vb q. user_page vb \<Longrightarrow> lookup (phys s) d vb = Some q \<Longrightarrow> PTE_ADDR q \<noteq> PTE_ADDR w"
  shows "as_inv d (s\<lparr>phys := store32 (phys s) (pte_of (phys s) d a) w\<rparr>) F"
    and "as_frame d {} s (s\<lparr>phys := store32 (phys s) (pte_of (phys s) d a) w\<rparr>)"
proof -
  let ?t = "s\<lparr>phys := store32 (phys s) (pte_of (phys s) d a) w\<rparr>"
  note lk = user_lookup_cases [OF inv a]
  have vm: "vm_inv d s F" and wf: "pt_wf (phys s) d F" "user_wf (phys s) d F (kend s)"
    using inv by (auto simp: as_inv_def vm_inv_def)
  have "vm_inv d ?t F" using vm_ext_pte_store [OF vm lk(1), of w] by (simp add: vm_ext_def)
  moreover have "user_wf (store32 (phys s) (pte_of (phys s) d a) w) d F (kend s)"
  proof (rule user_wf_store [OF wf(2,1) lk(1)])
    fix vb q assume "user_page vb" "\<not> same_page vb a" "lookup (phys s) d vb = Some q"
    then show "PTE_ADDR q \<notin> F" using wf(2) unfolding user_wf_def by blast
  qed (use w in blast)
  ultimately show "as_inv d ?t F"
    using inv pte_store_pde [OF wf(1) lk(1), of 0 w] by (simp add: as_inv_def)
  show "as_frame d {} s ?t"
    using pte_store_tables [OF wf(1) lk(1)] pte_store_outside [OF wf(1) lk(1)] by (auto simp: as_frame_def)
qed

lemma wp_map_user:
  assumes inv: "as_inv d s F" and a: "user_page a" "page_aligned a" and new: "lookup (phys s) d a = None"
    and v: "page_ok (kend s) (PTE_ADDR (v OR perm OR PTE_P))" "PTE_ADDR (v OR perm OR PTE_P) \<noteq> d"
      "PTE_ADDR (v OR perm OR PTE_P) \<notin> tables (phys s) d" "PTE_ADDR (v OR perm OR PTE_P) \<notin> F"
      "\<And>vb q. user_page vb \<Longrightarrow> lookup (phys s) d vb = Some q \<Longrightarrow> PTE_ADDR q \<noteq> PTE_ADDR (v OR perm OR PTE_P)"
    and post: "\<And>t. as_inv d t F \<Longrightarrow> as_frame d {} s t \<Longrightarrow>
        (\<And>va. lookup (phys t) d va = (if same_page va a then Some (v OR perm OR PTE_P) else lookup (phys s) d va)) \<Longrightarrow>
        Q 0 t"
  shows "wp (mappages d a PGSIZE v perm) Q s"
proof -
  let ?w = "v OR perm OR PTE_P" and ?pte = "pte_of (phys s) d a"
  note lk = user_lookup_cases [OF inv a(1)]
  have wf: "pt_wf (phys s) d F" using inv by (simp add: as_inv_def vm_inv_def)
  have old: "\<not> present (load32 (phys s) ?pte)" using new lk(3) by (auto simp: Let_def split: if_splits)
  have "Q 0 (s\<lparr>phys := store32 (phys s) ?pte ?w\<rparr>)"
    using as_inv_map [OF inv a(1) v] pte_store_lookup [OF wf lk(1), of ?w] by (intro post) simp_all
  moreover have "wp (walkpgdir d a True) (\<lambda>pte. wp (if pte = 0 then ret False
      else bnd (get_pte pte) (\<lambda>old. if old AND PTE_P \<noteq> 0 then panic ''remap''
          else thn (put_pte pte ?w) (ret True))) (\<lambda>ok. Q (if ok then 0 else - 1))) s"
    using calculation old lk(2)
    by (intro wp_walk_user [OF inv a(1)]) (simp add: get_pte_def put_pte_def present_def)
  ultimately show ?thesis
    by (simp add: mappages_one [OF a(2)] map_page_def)
qed

text \<open>What \<open>allocuvm\<close> has done when it has mapped the pages \<open>D\<close>.\<close>

definition fresh_pages :: "u32 \<Rightarrow> u32 set \<Rightarrow> 'z kmem_state_scheme \<Rightarrow> 'z kmem_state_scheme \<Rightarrow> (u32 \<Rightarrow> bool) \<Rightarrow> bool" where
  "fresh_pages d F s t D \<longleftrightarrow> as_frame d F s t
     \<and> (\<exists>G \<subseteq> F. as_inv d t G \<and> G \<union> entry_pages (phys t) d {va. D va} = F)
     \<and> (\<forall>va. \<not> D va \<longrightarrow> lookup (phys t) d va = lookup (phys s) d va)
     \<and> (\<forall>va. D va \<longrightarrow> (\<exists>v \<in> F. lookup (phys t) d va = Some (v OR (PTE_W OR PTE_U) OR PTE_P)
          \<and> (\<forall>b. in_page v b \<longrightarrow> phys t b = 0)))"

definition span_of :: "u32 list \<Rightarrow> u32 \<Rightarrow> bool" where
  "span_of as va \<longleftrightarrow> (\<exists>a \<in> set as. same_page va a)"

lemma span_of_simps [simp]:
  "\<not> span_of [] va" "span_of (as @ bs) va \<longleftrightarrow> span_of as va \<or> span_of bs va"
  "span_of [a] va \<longleftrightarrow> same_page va a"
  by (auto simp: span_of_def)

lemma same_page_refl [simp]: "same_page a a"
  by (simp add: same_page_def)

lemma entry_pages_span_of: "entry_pages m d {va. span_of as va} = entry_pages m d (set as)"
proof
  show "entry_pages m d {va. span_of as va} \<subseteq> entry_pages m d (set as)"
    unfolding entry_pages_def span_of_def using lookup_same_page [of _ _ m d] by fastforce
  show "entry_pages m d (set as) \<subseteq> entry_pages m d {va. span_of as va}"
    unfolding entry_pages_def span_of_def by force
qed

lemma card_entry_pages: "card (entry_pages m d (set as)) \<le> length as"
proof -
  have "entry_pages m d (set as) \<subseteq> (\<lambda>a. PTE_ADDR (the (lookup m d a))) ` set as"
    by (force simp: entry_pages_def)
  then have "card (entry_pages m d (set as)) \<le> card ((\<lambda>a. PTE_ADDR (the (lookup m d a))) ` set as)"
    by (intro card_mono) auto
  also have "\<dots> \<le> card (set as)" by (rule card_image_le) simp
  also have "\<dots> \<le> length as" by (rule card_length)
  finally show ?thesis .
qed

lemma fresh_pages_refl: "as_inv d s F \<Longrightarrow> fresh_pages d F s s (span_of [])"
  by (auto simp: fresh_pages_def entry_pages_def)

text \<open>One more page: \<open>kalloc\<close>, \<open>memset\<close>, \<open>mappages\<close>.\<close>

lemma fresh_pages_step:
  assumes fp: "fresh_pages d F s0 s (span_of as)" and G: "G \<subseteq> F" "as_inv d s G"
      "G \<union> entry_pages (phys s) d {va. span_of as va} = F"
    and v: "v \<in> G" "page_aligned v" and free: "free_pages (s\<lparr>freelist := f\<rparr>) (G - {v})"
    and a: "user_page a" "page_aligned a" "lookup (phys s) d a = None" "\<not> span_of as a"
    and us: "\<And>va. span_of as va \<Longrightarrow> user_page va"
    and post: "\<And>t. fresh_pages d F s0 t (span_of (as @ [a])) \<Longrightarrow> Q t"
  shows "wp (mappages d a PGSIZE v (PTE_W OR PTE_U)) (\<lambda>_. Q)
           (s\<lparr>freelist := f, phys := memset (phys s) v 0 PGSIZE\<rparr>)"
proof -
  let ?s = "s\<lparr>freelist := f, phys := memset (phys s) v 0 PGSIZE\<rparr>"
  let ?w = "v OR (PTE_W OR PTE_U) OR PTE_P"
  have inv: "vm_inv d s G" "pt_wf (phys s) d G" "user_wf (phys s) d G (kend s)" "Lkmem \<notin> held s"
    "free_pages s G"
    using G(2) by (auto simp: as_inv_def vm_inv_def)
  have w: "PTE_ADDR ?w = v" using v(2) by (simp add: PTE_ADDR_or)
  have vd: "v \<noteq> d" "v \<notin> tables (phys s) d" using inv(2) v(1) by (auto simp: pt_wf_def)
  have vok: "page_ok (kend s) v" using free_pages_page_ok [OF inv(5) v(1)] .
  have out: "outside [v] (phys s) (phys ?s)" by (simp add: outside_def memset_outside)
  have fr: "free_pages ?s (G - {v})"
  proof -
    have "memset (phys s) v 0 PGSIZE b = phys s b" if "p \<in> G - {v}" "in_page p b" for p b
      using that v(2) free_pages_aligned [OF inv(5)] in_page_unique [of v p b]
      by (intro memset_outside) blast
    then show ?thesis using free_pages_mem [OF free, of "memset (phys s) v 0 PGSIZE"] by simp
  qed
  have U: "PTE_ADDR p \<notin> G" if "user_page va" "lookup (phys s) d va = Some p" for va p
    using inv(3) that unfolding user_wf_def by blast
  have s1: "as_inv d ?s (G - {v})" and lk: "\<And>va. lookup (phys ?s) d va = lookup (phys s) d va"
    and tb: "tables (phys ?s) d = tables (phys s) d"
    using as_inv_mem [OF G(2) fr _ _ out] inv(4) v(2) vd U by auto
  show ?thesis
  proof (rule wp_map_user [OF s1 a(1,2)])
    show "lookup (phys ?s) d a = None" using a(3) by (simp only: lk)
    show "page_ok (kend ?s) (PTE_ADDR ?w)" "PTE_ADDR ?w \<noteq> d" "PTE_ADDR ?w \<notin> tables (phys ?s) d"
      "PTE_ADDR ?w \<notin> G - {v}"
      using vok vd by (simp_all only: w tb) auto
    fix vb q assume "user_page vb" "lookup (phys ?s) d vb = Some q"
    then show "PTE_ADDR q \<noteq> PTE_ADDR ?w" using U v(1) unfolding lk w by blast
  next
    fix t
    assume t: "as_inv d t (G - {v})" "as_frame d {} ?s t"
      "\<And>va. lookup (phys t) d va = (if same_page va a then Some ?w else lookup (phys ?s) d va)"
    have tm: "phys t b = phys ?s b" if "\<forall>p \<in> tables (phys s) d. \<not> in_page p b" for b
      using t(2) that tb by (simp add: as_frame_def)
    have "as_frame d F s ?s"
      using out v(1) G(1) tb by (auto simp: as_frame_def outside_def)
    moreover have "as_frame d F ?s t" using t(2) by (rule as_frame_mono) simp
    moreover have "as_frame d F s0 s" using fp by (simp add: fresh_pages_def)
    ultimately have frame: "as_frame d F s0 t" by (blast intro: as_frame_trans)
    have lt: "lookup (phys t) d va = (if same_page va a then Some ?w else lookup (phys s) d va)" for va
      using t(3) lk by simp
    have ep: "entry_pages (phys t) d {va. span_of (as @ [a]) va}
        = insert v (entry_pages (phys s) d {va. span_of as va})"
    proof -
      have "entry_pages (phys t) d {va. span_of (as @ [a]) va}
          = entry_pages (phys t) d {va. same_page va a} \<union> entry_pages (phys t) d {va. span_of as va \<and> \<not> same_page va a}"
        unfolding entry_pages_Un [symmetric] by (intro arg_cong [where f = "entry_pages (phys t) d"]) auto
      also have "entry_pages (phys t) d {va. same_page va a} = {v}"
        using w by (auto simp: entry_pages_def lt intro!: exI [of _ a])
      also have "entry_pages (phys t) d {va. span_of as va \<and> \<not> same_page va a}
          = entry_pages (phys s) d {va. span_of as va \<and> \<not> same_page va a}"
        by (rule entry_pages_same) (simp add: lt)
      also have "{va. span_of as va \<and> \<not> same_page va a} = {va. span_of as va}"
        using a(4) by (auto simp: span_of_def same_page_def)
      finally show ?thesis by simp
    qed
    have zero: "phys t b = 0" if b: "in_page v b" for b
    proof -
      have "\<not> in_page p b" if "p \<in> tables (phys s) d" for p
        using that vd(2) b v(2) tables_aligned [OF that] in_page_unique [of p v b] by blast
      then show ?thesis using b by (simp add: tm memset_inside)
    qed
    have keep: "phys t b = phys s b" if x: "x \<in> F - G" "in_page x b" "page_aligned x" "x \<notin> tables (phys s) d" for x b
    proof -
      have "\<not> in_page p b" if "p \<in> tables (phys s) d" for p
        using that x tables_aligned [OF that] in_page_unique [of p x b] by blast
      moreover have "\<not> in_page v b"
        using v x in_page_unique [of v x b] by blast
      ultimately show ?thesis by (simp add: tm memset_outside)
    qed
    have mapped: "\<exists>x \<in> F. lookup (phys t) d va = Some (x OR (PTE_W OR PTE_U) OR PTE_P)
          \<and> (\<forall>b. in_page x b \<longrightarrow> phys t b = 0)"
      if "span_of (as @ [a]) va" for va
    proof (cases "same_page va a")
      case True
      then show ?thesis using v(1) G(1) zero by (auto simp: lt)
    next
      case False
      then have sp: "span_of as va" using that by simp
      then obtain x where x: "x \<in> F" "lookup (phys s) d va = Some (x OR (PTE_W OR PTE_U) OR PTE_P)"
        "\<forall>b. in_page x b \<longrightarrow> phys s b = 0"
        using fp unfolding fresh_pages_def by blast
      have ux: "user_page va" using sp by (rule us)
      have "x \<in> entry_pages (phys s) d {va. span_of as va} \<or> x \<in> G" using x(1) G(3) by blast
      moreover have al: "page_aligned x"
        using calculation free_pages_aligned [OF inv(5)] by (auto simp: entry_pages_def)
      then have ax: "PTE_ADDR (x OR (PTE_W OR PTE_U) OR PTE_P) = x" by (simp add: PTE_ADDR_or)
      have "x \<notin> G" "x \<notin> tables (phys s) d"
        using inv(3) ux x(2) ax unfolding user_wf_def by metis+
      then show ?thesis
        using False x al keep [of x] by (auto simp: lt)
    qed
    show "Q t"
    proof (rule post, unfold fresh_pages_def, intro conjI)
      show "as_frame d F s0 t" by (rule frame)
      have "G - {v} \<union> insert v (entry_pages (phys s) d {va. span_of as va}) = F"
        using G(3) v(1) by blast
      then show "\<exists>G\<subseteq>F. as_inv d t G \<and> G \<union> entry_pages (phys t) d {va. span_of (as @ [a]) va} = F"
        using t(1) G(1) unfolding ep by blast
      show "\<forall>va. \<not> span_of (as @ [a]) va \<longrightarrow> lookup (phys t) d va = lookup (phys s0) d va"
        using fp by (simp add: lt fresh_pages_def)
    qed (use mapped in blast)
  qed
qed

text \<open>What remains of a failed call: everything is as before.\<close>

definition rolled_back :: "u32 \<Rightarrow> u32 set \<Rightarrow> 'z kmem_state_scheme \<Rightarrow> 'z kmem_state_scheme \<Rightarrow> bool" where
  "rolled_back d F s t \<longleftrightarrow> as_frame d F s t \<and> as_inv d t F
     \<and> (\<forall>va. lookup (phys t) d va = lookup (phys s) d va)"

definition alloc_post :: "u32 \<Rightarrow> u32 set \<Rightarrow> 'z kmem_state_scheme \<Rightarrow> u32 list \<Rightarrow> u32 \<Rightarrow> u32 \<Rightarrow> 'z kmem_state_scheme \<Rightarrow> bool" where
  "alloc_post d F s ps newsz r t \<longleftrightarrow>
     (r = newsz \<and> fresh_pages d F s t (span_of ps)) \<or>
     (r = 0 \<and> rolled_back d F s t \<and> card F < length ps)"

lemma wp_alloc_rollback:
  assumes fp: "fresh_pages d F s0 s (span_of as)" and un: "\<And>va. span_of (as @ bs) va \<Longrightarrow> lookup (phys s0) d va = None"
    and ps: "as @ bs = pages_upto (PGROUNDUP oldsz) newsz" "page_aligned (PGROUNDUP oldsz)"
    and le: "oldsz < newsz" "newsz \<le> USERTOP"
    and post: "\<And>t. rolled_back d F s0 t \<Longrightarrow> Q t"
  shows "wp (deallocuvm d newsz oldsz) (\<lambda>_. Q) s"
proof -
  obtain G where G: "G \<subseteq> F" "as_inv d s G" "G \<union> entry_pages (phys s) d {va. span_of as va} = F"
    using fp by (auto simp: fresh_pages_def)
  have span: "in_span (PGROUNDUP oldsz) newsz va \<longleftrightarrow> span_of (as @ bs) va" for va
    using pages_upto_span [OF ps(2), of newsz va] by (simp only: ps(1) span_of_def)
  have lk: "lookup (phys s) d va = lookup (phys s0) d va" if "\<not> span_of as va" for va
    using fp that by (simp add: fresh_pages_def)
  have sp: "span_pages (phys s) d (PGROUNDUP oldsz) newsz = entry_pages (phys s) d {va. span_of as va}"
  proof
    show "span_pages (phys s) d (PGROUNDUP oldsz) newsz \<subseteq> entry_pages (phys s) d {va. span_of as va}"
    proof
      fix p assume "p \<in> span_pages (phys s) d (PGROUNDUP oldsz) newsz"
      then obtain va e where va: "span_of (as @ bs) va" "lookup (phys s) d va = Some e" "p = PTE_ADDR e"
        by (auto simp: span_pages_def entry_pages_def span)
      then have "span_of as va" using lk [of va] un [of va] by (cases "span_of as va") simp_all
      with va show "p \<in> entry_pages (phys s) d {va. span_of as va}" by (auto simp: entry_pages_def)
    qed
    show "entry_pages (phys s) d {va. span_of as va} \<subseteq> span_pages (phys s) d (PGROUNDUP oldsz) newsz"
      by (auto simp: span_pages_def entry_pages_def span)
  qed
  show ?thesis
  proof (rule wp_deallocuvm [OF G(2) le(2,1)])
    fix t
    assume t: "as_inv d t (G \<union> span_pages (phys s) d (PGROUNDUP oldsz) newsz)"
      "as_frame d (G \<union> span_pages (phys s) d (PGROUNDUP oldsz) newsz) s t"
      "\<And>va. lookup (phys t) d va = (if in_span (PGROUNDUP oldsz) newsz va then None else lookup (phys s) d va)"
    have "as_frame d F s0 t"
      using fp t(2) unfolding sp G(3) by (auto simp: fresh_pages_def intro: as_frame_trans)
    moreover have "lookup (phys t) d va = lookup (phys s0) d va" for va
      using un [of va] lk [of va] by (simp add: t(3) span)
    ultimately show "Q t"
      using t(1) unfolding sp G(3) by (intro post) (simp add: rolled_back_def)
  qed
qed

lemma wp_alloc_loop:
  assumes "fresh_pages d F s0 s (span_of as)" "as @ bs = ps"
    and un: "\<And>va. span_of ps va \<Longrightarrow> lookup (phys s0) d va = None"
    and ps: "ps = pages_upto (PGROUNDUP oldsz) newsz" "page_aligned (PGROUNDUP oldsz)"
    and le: "oldsz < newsz" "newsz \<le> USERTOP" and F: "finite F"
  shows "wp (alloc_loop d oldsz newsz bs) (alloc_post d F s0 ps newsz) s"
  using assms(1,2)
proof (induction bs arbitrary: as s)
  case Nil
  then show ?case by (simp add: alloc_post_def)
next
  case (Cons a bs)
  obtain G where G: "G \<subseteq> F" "as_inv d s G" "G \<union> entry_pages (phys s) d {va. span_of as va} = F"
    using Cons.prems(1) by (auto simp: fresh_pages_def)
  have inv: "free_pages s G" "Lkmem \<notin> held s" using G(2) by (auto simp: as_inv_def vm_inv_def)
  have user: "user_page va" if "span_of ps va" for va
    using that pages_upto_span [OF ps(2), of newsz va] in_span_user [OF _ le(2)]
    unfolding ps(1) span_of_def by blast
  have a: "a \<in> set ps" using Cons.prems(2) by auto
  then have aps: "span_of ps a" unfolding span_of_def using same_page_refl by blast
  have al: "page_aligned a" using pages_upto_in(1) [OF ps(2)] a ps(1) by blast
  have nas: "\<not> span_of as a"
  proof
    assume "span_of as a"
    then obtain b where b: "b \<in> set as" "same_page a b" by (auto simp: span_of_def)
    have "b \<in> set ps" using b(1) Cons.prems(2) by auto
    then have bl: "page_aligned b" using pages_upto_in(1) [OF ps(2)] ps(1) by blast
    have "a = b"
      using b(2) page_no_base [OF al] page_no_base [OF bl] by (simp add: same_page_no word_unat_eq_iff)
    moreover have "distinct ps"
      unfolding ps(1) pages_upto_def distinct_map
      using pages_upto_step(1) [OF ps(2), of _ newsz] by (auto intro!: inj_onI dest!: arg_cong [where f = unat])
    ultimately show False using b(1) Cons.prems(2) by auto
  qed
  have la: "lookup (phys s) d a = None"
    using Cons.prems(1) nas un [OF aps] by (simp add: fresh_pages_def)
  show ?case
    unfolding alloc_loop.simps wp_bnd
  proof (rule wp_kalloc_set [OF inv])
    assume e: "G = {}"
    have "card F \<le> length as"
      using G(3) card_entry_pages [of "phys s" d as] unfolding e entry_pages_span_of by simp
    then have "card F < length ps" using Cons.prems(2) by auto
    then have "wp (deallocuvm d newsz oldsz) (\<lambda>_. alloc_post d F s0 ps newsz 0) s"
      using Cons.prems un ps le
      by (intro wp_alloc_rollback [OF Cons.prems(1), of "a # bs" oldsz newsz]) (simp_all add: alloc_post_def)
    then show "wp (if (0::u32) = 0 then thn (bnd (deallocuvm d newsz oldsz) (\<lambda>_. skip)) (ret 0)
        else thn (upd (\<lambda>s. s\<lparr>phys := memset (phys s) 0 0 PGSIZE\<rparr>))
          (bnd (mappages d a PGSIZE 0 (PTE_W OR PTE_U)) (\<lambda>_. alloc_loop d oldsz newsz bs)))
        (alloc_post d F s0 ps newsz) s"
      by simp
  next
    fix v f
    assume v: "v \<in> G" "v \<noteq> 0" "page_aligned v" "free_pages (s\<lparr>freelist := f\<rparr>) (G - {v})"
    have "wp (mappages d a PGSIZE v (PTE_W OR PTE_U)) (\<lambda>_. wp (alloc_loop d oldsz newsz bs) (alloc_post d F s0 ps newsz))
        (s\<lparr>freelist := f, phys := memset (phys s) v 0 PGSIZE\<rparr>)"
    proof (rule fresh_pages_step [OF Cons.prems(1) G v(1,3,4) user [OF aps] al la nas])
      fix va assume "span_of as va"
      then have "span_of ps va" unfolding Cons.prems(2) [symmetric] by simp
      then show "user_page va" by (rule user)
    next
      fix t assume "fresh_pages d F s0 t (span_of (as @ [a]))"
      then show "wp (alloc_loop d oldsz newsz bs) (alloc_post d F s0 ps newsz) t"
        using Cons.prems(2) by (intro Cons.IH [where as = "as @ [a]"]) (assumption, simp)
    qed
    with v(2) show "wp (if v = 0 then thn (bnd (deallocuvm d newsz oldsz) (\<lambda>_. skip)) (ret 0)
        else thn (upd (\<lambda>s. s\<lparr>phys := memset (phys s) v 0 PGSIZE\<rparr>))
          (bnd (mappages d a PGSIZE v (PTE_W OR PTE_U)) (\<lambda>_. alloc_loop d oldsz newsz bs)))
        (alloc_post d F s0 ps newsz) (s\<lparr>freelist := f\<rparr>)"
      by simp
  qed
qed

lemma page_aligned_up: "page_aligned (PGROUNDUP a)"
  unfolding page_aligned_unat PGROUNDUP_def
  using unat_and_not_fff [of "a + PGSIZE - 1"] by (simp add: PGSIZE_def)

lemma wp_allocuvm:
  assumes inv: "as_inv d s F" and le: "oldsz \<le> newsz" "newsz \<le> USERTOP"
    and un: "\<And>va. in_span (PGROUNDUP oldsz) newsz va \<Longrightarrow> lookup (phys s) d va = None"
  shows "wp (allocuvm d oldsz newsz) (alloc_post d F s (pages_upto (PGROUNDUP oldsz) newsz) newsz) s"
proof -
  let ?ps = "pages_upto (PGROUNDUP oldsz) newsz"
  have unm: "lookup (phys s) d va = None" if "span_of ?ps va" for va
    using that un pages_upto_span [OF page_aligned_up [of oldsz], of newsz va] by (auto simp: span_of_def)
  have fin: "finite F" using inv free_pages_finite by (auto simp: as_inv_def vm_inv_def)
  have loop: "wp (alloc_loop d oldsz newsz ?ps) (alloc_post d F s ?ps newsz) s"
  proof (cases "oldsz < newsz")
    case True
    show ?thesis
      using fresh_pages_refl [OF inv] unm page_aligned_up True le(2) fin
      by (intro wp_alloc_loop [where as = "[]"]) simp_all
  next
    case False
    then have eq: "oldsz = newsz" using le(1) by simp
    have "unat newsz + 4095 < 2 ^ 32" using le(2) by (simp add: word_le_nat_alt USERTOP_def)
    then have "unat newsz \<le> unat (PGROUNDUP newsz)"
      using div_mult_mod_eq [of "unat newsz + 4095" 4096] mod_less_divisor [of 4096 "unat newsz + 4095"]
      by (simp add: unat_PGROUNDUP)
    then have "?ps = []" by (simp add: eq pages_upto_def)
    then show ?thesis
      using fresh_pages_refl [OF inv] by (simp add: alloc_post_def)
  qed
  then show ?thesis using le by (auto simp: allocuvm_def dest: leD)
qed

section \<open>Freeing an address space\<close>

text \<open>The frames an address space owns: its user pages, its page tables, its directory.\<close>

definition owned :: "mem \<Rightarrow> u32 \<Rightarrow> u32 set" where
  "owned m d = insert d (tables m d \<union> entry_pages m d {va. user_page va})"

definition tables_ok :: "mem \<Rightarrow> u32 \<Rightarrow> u32 \<Rightarrow> bool" where
  "tables_ok m d e \<longleftrightarrow> page_ok e d \<and> (\<forall>p \<in> tables m d. page_ok e p)"

lemma of_nat_1024: "i < 1024 \<Longrightarrow> unat (of_nat i :: u32) = i" "i < 1024 \<Longrightarrow> (of_nat i :: u32) < 1024"
  by (simp_all add: unat_of_nat_small word_less_nat_alt)

lemma tables_of_nat:
  "tables m d = {PTE_ADDR (pde_at m d (of_nat i)) |i. i < 1024 \<and> present (pde_at m d (of_nat i))}"
proof -
  have "\<exists>k < 1024. i = of_nat k" if "i < 1024" for i :: u32
    using that by (intro exI [of _ "unat i"]) (simp add: word_less_nat_alt)
  then show ?thesis
    unfolding tables_def using of_nat_1024(2) by blast
qed

lemma wp_free_tables:
  assumes free: "free_pages s F" "Lkmem \<notin> held s" and pt: "pt_wf (phys s) d F" and ok: "tables_ok (phys s) d (kend s)"
    and post: "\<And>t. free_pages t (F \<union> tables (phys s) d) \<Longrightarrow> t = s\<lparr>phys := phys t, freelist := freelist t\<rparr> \<Longrightarrow>
        (\<And>b. (\<forall>p \<in> tables (phys s) d. \<not> in_page p b) \<Longrightarrow> phys t b = phys s b) \<Longrightarrow> Q () t"
  shows "wp (foreach [0..<1024] (free_table d)) Q s"
proof -
  let ?m = "phys s"
  define T where "T is = {PTE_ADDR (pde_at ?m d (of_nat i)) |i. i \<in> set is \<and> present (pde_at ?m d (of_nat i))}" for "is"
  define I where "I is t \<longleftrightarrow> free_pages t (F \<union> T is) \<and> t = s\<lparr>phys := phys t, freelist := freelist t\<rparr>
      \<and> (\<forall>b. (\<forall>p \<in> tables ?m d. \<not> in_page p b) \<longrightarrow> phys t b = ?m b)" for "is" and t
  have d: "page_aligned d" "d \<notin> tables ?m d" using pt by (auto simp: pt_wf_def)
  have dm: "phys t b = ?m b" if "I is t" "in_page d b" for "is" t b
    using that d tables_aligned in_page_unique [of d _ b] unfolding I_def by metis
  have "wp (foreach [0..<1024] (free_table d)) Q s"
  proof (rule wp_foreach [where I = I])
    show "I [] s" using free by (simp add: I_def T_def)
  next
    fix t assume I: "I [0..<1024] t"
    have "T [0..<1024] = tables ?m d" unfolding T_def tables_of_nat by auto
    then show "Q () t" using I by (intro post) (simp_all add: I_def)
  next
    fix ys i zs t
    assume split: "[0..<1024] = ys @ i # zs" and I: "I ys t"
    have "i \<in> set [0..<1024]" "set ys \<subseteq> set [0..<1024]" unfolding split by auto
    then have i1: "i < 1024" and i3: "\<And>j. j \<in> set ys \<Longrightarrow> j < 1024"
      unfolding set_upt by auto
    have "distinct (ys @ i # zs)" unfolding split [symmetric] by (rule distinct_upt)
    then have "i \<notin> set ys" by simp
    note i = i1 this i3
    let ?e = "pde_at ?m d (of_nat i)"
    have e: "pde_at (phys t) d (of_nat i) = ?e"
      using d(1) of_nat_1024(2) [OF i(1)] dm [OF I] by (rule pde_at_cong)
    have eqt: "t = s\<lparr>phys := phys t, freelist := freelist t\<rparr>" using I by (simp add: I_def)
    note h = mem_only(1,2) [OF eqt]
    have Tstep: "T (ys @ [i]) = (if present ?e then insert (PTE_ADDR ?e) (T ys) else T ys)"
      by (auto simp: T_def)
    show "wp (free_table d i) (\<lambda>_. I (ys @ [i])) t"
    proof (cases "present ?e")
      case False
      then show ?thesis
        using I e by (simp add: free_table_def present_def pde_at_def I_def Tstep)
    next
      case True
      have tab: "PTE_ADDR ?e \<in> tables ?m d" using of_nat_1024(2) [OF i(1)] True by (rule tablesI)
      have "PTE_ADDR ?e \<notin> F" using tab pt by (auto simp: pt_wf_def)
      moreover have "PTE_ADDR ?e \<notin> T ys"
      proof
        assume "PTE_ADDR ?e \<in> T ys"
        then obtain j where j: "j \<in> set ys" "present (pde_at ?m d (of_nat j))" "PTE_ADDR ?e = PTE_ADDR (pde_at ?m d (of_nat j))"
          by (auto simp: T_def)
        have inj: "\<And>x y. x < 1024 \<Longrightarrow> y < 1024 \<Longrightarrow> present (pde_at ?m d x) \<Longrightarrow> present (pde_at ?m d y)
            \<Longrightarrow> PTE_ADDR (pde_at ?m d x) = PTE_ADDR (pde_at ?m d y) \<Longrightarrow> x = y"
          using pt unfolding pt_wf_def by blast
        have eq: "(of_nat i :: u32) = of_nat j"
          by (rule inj [OF of_nat_1024(2) [OF i(1)] of_nat_1024(2) [OF i(3) [OF j(1)]] True j(2,3)])
        have "i = j"
          using of_nat_1024(1) [OF i(1)] of_nat_1024(1) [OF i(3) [OF j(1)]] unfolding eq by (rule trans [OF sym])
        then show False using j(1) i(2) by simp
      qed
      ultimately have new: "PTE_ADDR ?e \<notin> F \<union> T ys" by simp
      have "wp (kfree (PTE_ADDR ?e)) (\<lambda>_. I (ys @ [i])) t"
      proof (rule wp_kfree_set [OF _ _ _ new])
        show "free_pages t (F \<union> T ys)" using I by (simp add: I_def)
        show "Lkmem \<notin> held t" "page_ok (kend t) (PTE_ADDR ?e)"
          using free(2) ok tab by (auto simp: h tables_ok_def)
        fix m
        assume m: "outside [PTE_ADDR ?e] (phys t) m"
          "free_pages (t\<lparr>phys := m, freelist := PTE_ADDR ?e\<rparr>) (insert (PTE_ADDR ?e) (F \<union> T ys))"
        have "m b = ?m b" if "\<forall>p \<in> tables ?m d. \<not> in_page p b" for b
          using outsideD [OF m(1), of b] that tab I by (simp add: I_def)
        moreover have "t\<lparr>phys := m, freelist := PTE_ADDR ?e\<rparr> = s\<lparr>phys := m, freelist := PTE_ADDR ?e\<rparr>"
          by (subst eqt) simp
        ultimately show "I (ys @ [i]) (t\<lparr>phys := m, freelist := PTE_ADDR ?e\<rparr>)"
          using m(2) True by (simp add: I_def Tstep)
      qed
      then show ?thesis
        using True e by (simp add: free_table_def present_def pde_at_def)
    qed
  qed
  then show ?thesis .
qed

lemma span_user: "in_span 0 USERTOP va \<longleftrightarrow> user_page va"
  by (simp add: in_span_def user_page_USERTOP page_no_def)

lemma wp_freevm:
  assumes inv: "as_inv d s F" and ok: "tables_ok (phys s) d (kend s)"
    and post: "\<And>t. free_pages t (F \<union> owned (phys s) d) \<Longrightarrow> t = s\<lparr>phys := phys t, freelist := freelist t\<rparr> \<Longrightarrow>
        (\<And>b. (\<forall>p \<in> F \<union> owned (phys s) d. \<not> in_page p b) \<Longrightarrow> phys t b = phys s b) \<Longrightarrow> Q () t"
  shows "wp (freevm d) Q s"
proof -
  let ?U = "entry_pages (phys s) d {va. user_page va}"
  have up: "PGROUNDUP 0 = 0" by (simp add: PGROUNDUP_def PGSIZE_def)
  have sp: "span_pages (phys s) d 0 USERTOP = ?U" by (simp add: span_pages_def span_user)
  have dok: "page_ok (kend s) d" "d \<noteq> 0" "d \<notin> tables (phys s) d" "page_aligned d"
    using inv ok by (auto simp: tables_ok_def as_inv_def vm_inv_def pt_wf_def page_ok_def free_pages_def kmem_inv_def)
  have "wp (deallocuvm d USERTOP 0) (\<lambda>_. wp (thn (foreach [0..<1024] (free_table d)) (kfree d)) Q) s"
  proof (rule wp_deallocuvm [OF inv])
    fix t
    assume t: "as_inv d t (F \<union> span_pages (phys s) d (PGROUNDUP 0) USERTOP)"
      "as_frame d (F \<union> span_pages (phys s) d (PGROUNDUP 0) USERTOP) s t"
    have tb: "tables (phys t) d = tables (phys s) d" using t(2) by (simp add: as_frame_def)
    have h: "held t = held s" "kend t = kend s" using t(2) by (simp_all add: as_frame_fields)
    have eqt: "t = s\<lparr>phys := phys t, freelist := freelist t\<rparr>" using t(2) by (simp add: as_frame_def)
    have it: "free_pages t (F \<union> ?U)" "Lkmem \<notin> held t" "pt_wf (phys t) d (F \<union> ?U)"
      using t(1) unfolding up sp by (auto simp: as_inv_def vm_inv_def)
    have okt: "tables_ok (phys t) d (kend t)" using ok by (simp add: tables_ok_def tb h)
    show "wp (thn (foreach [0..<1024] (free_table d)) (kfree d)) Q t"
      unfolding wp_thn
    proof (rule wp_free_tables [OF it okt])
      fix u
      assume u: "free_pages u (F \<union> ?U \<union> tables (phys t) d)" "u = t\<lparr>phys := phys u, freelist := freelist u\<rparr>"
        "\<And>b. (\<forall>p \<in> tables (phys t) d. \<not> in_page p b) \<Longrightarrow> phys u b = phys t b"
      note hu = mem_only(1,2) [OF u(2)]
      have new: "d \<notin> F \<union> ?U \<union> tables (phys t) d"
        using it(3) tb dok(3) by (auto simp: pt_wf_def)
      show "wp (kfree d) Q u"
      proof (rule wp_kfree_set [OF u(1) _ _ new])
        show "Lkmem \<notin> held u" "page_ok (kend u) d" using it(2) dok(1) by (simp_all add: hu h)
        fix m
        assume m: "outside [d] (phys u) m"
          "free_pages (u\<lparr>phys := m, freelist := d\<rparr>) (insert d (F \<union> ?U \<union> tables (phys t) d))"
        show "Q () (u\<lparr>phys := m, freelist := d\<rparr>)"
        proof (rule post)
          have "insert d (F \<union> ?U \<union> tables (phys t) d) = F \<union> owned (phys s) d"
            by (auto simp: owned_def tb)
          then show "free_pages (u\<lparr>phys := m, freelist := d\<rparr>) (F \<union> owned (phys s) d)" using m(2) by simp
          show "u\<lparr>phys := m, freelist := d\<rparr> = s\<lparr>phys := phys (u\<lparr>phys := m, freelist := d\<rparr>),
              freelist := freelist (u\<lparr>phys := m, freelist := d\<rparr>)\<rparr>"
            by (subst u(2), subst eqt) simp
          fix b assume b: "\<forall>p \<in> F \<union> owned (phys s) d. \<not> in_page p b"
          then have "m b = phys u b" by (intro outsideD [OF m(1)]) (simp add: owned_def)
          also have "\<dots> = phys t b" using b by (intro u(3)) (simp add: owned_def tb)
          also have "\<dots> = phys s b"
            using t(2) b unfolding up sp as_frame_def owned_def by blast
          finally show "phys (u\<lparr>phys := m, freelist := d\<rparr>) b = phys s b" by simp
        qed
      qed
    qed
  qed (simp_all add: USERTOP_def)
  with dok(2) show ?thesis by (simp add: freevm_def)
qed

section \<open>Copying an address space\<close>

text \<open>The page \<open>w\<close> of \<open>m'\<close> holds what the page \<open>v\<close> of \<open>m\<close> holds.\<close>

definition page_copy :: "mem \<Rightarrow> u32 \<Rightarrow> mem \<Rightarrow> u32 \<Rightarrow> bool" where
  "page_copy m v m' w \<longleftrightarrow> (\<forall>b. in_page w b \<longrightarrow> m' b = m (v + (b - w)))"

text \<open>The child directory \<open>d\<close> after the pages \<open>as\<close> of the parent \<open>p\<close> have been copied.\<close>

definition copying :: "u32 \<Rightarrow> 'z kmem_state_scheme \<Rightarrow> u32 set \<Rightarrow> u32 \<Rightarrow> 'z kmem_state_scheme \<Rightarrow> u32 list \<Rightarrow> bool" where
  "copying p s0 F d s as \<longleftrightarrow>
     s = s0\<lparr>phys := phys s, freelist := freelist s\<rparr>
   \<and> (\<forall>b. (\<forall>q \<in> F. \<not> in_page q b) \<longrightarrow> phys s b = phys s0 b)
   \<and> d \<in> F \<and> tables (phys s) d \<subseteq> F
   \<and> (\<exists>G \<subseteq> F. as_inv d s G \<and> G \<union> owned (phys s) d = F)
   \<and> (\<forall>va. user_page va \<longrightarrow> \<not> span_of as va \<longrightarrow> lookup (phys s) d va = None)
   \<and> (\<forall>va. span_of as va \<longrightarrow> (\<exists>e v. lookup (phys s0) p va = Some e \<and> v \<in> F
        \<and> lookup (phys s) d va = Some (v OR (PTE_W OR PTE_U) OR PTE_P)
        \<and> page_copy (phys s0) (PTE_ADDR e) (phys s) v))"

definition untouched :: "u32 set \<Rightarrow> 'z kmem_state_scheme \<Rightarrow> 'z kmem_state_scheme \<Rightarrow> bool" where
  "untouched F s t \<longleftrightarrow> t = s\<lparr>phys := phys t, freelist := freelist t\<rparr>
     \<and> (\<forall>b. (\<forall>q \<in> F. \<not> in_page q b) \<longrightarrow> phys t b = phys s b)"

text \<open>Another address space is the same when only free pages have changed.\<close>

lemma as_inv_untouched:
  assumes inv: "as_inv p s F" and un: "untouched F s t" and G: "free_pages t G" "G \<subseteq> F"
  shows "as_inv p t G" "lookup (phys t) p va = lookup (phys s) p va"
    "user_page va \<Longrightarrow> lookup (phys s) p va = Some e \<Longrightarrow> in_page (PTE_ADDR e) b \<Longrightarrow> phys t b = phys s b"
proof -
  have wf: "free_pages s F" "pt_wf (phys s) p F" "user_wf (phys s) p F (kend s)" and d: "page_aligned p" "p \<notin> F"
    using inv by (auto simp: as_inv_def vm_inv_def pt_wf_def)
  have al: "\<And>q. q \<in> F \<Longrightarrow> page_aligned q" using free_pages_aligned [OF wf(1)] .
  have eqt: "t = s\<lparr>phys := phys t, freelist := freelist t\<rparr>" using un by (simp add: untouched_def)
  have other: "phys t b = phys s b" if "page_aligned x" "x \<notin> F" "in_page x b" for x b
    using un that al in_page_unique [of x _ b] unfolding untouched_def by blast
  have dm: "phys t b = phys s b" if "in_page p b" for b
    using d that by (rule other)
  have tm: "phys t b = phys s b" if "q \<in> tables (phys s) p" "in_page q b" for q b
    using wf(2) that tables_aligned by (intro other [of q]) (auto simp: pt_wf_def)
  show "lookup (phys t) p va = lookup (phys s) p va" for va
    using d(1) dm tm by (rule lookup_cong)
  have "pde_at (phys t) p 0 = pde_at (phys s) p 0"
    using d(1) _ dm by (rule pde_at_cong) simp
  moreover have "pt_wf (phys t) p G" using wf(2) G(2) dm by (rule pt_wf_cong)
  moreover have "user_wf (phys t) p G (kend s)"
    using user_wf_cong [OF wf(3) d(1) dm tm] G(2) by (rule user_wf_subset)
  ultimately show "as_inv p t G"
    using inv G(1) mem_only(1,2) [OF eqt] by (simp add: as_inv_def vm_inv_def)
  assume "user_page va" "lookup (phys s) p va = Some e" "in_page (PTE_ADDR e) b"
  then show "phys t b = phys s b"
    using wf(3) other [of "PTE_ADDR e" b] unfolding user_wf_def by auto
qed

lemma copying_untouched: "copying p s0 F d s as \<Longrightarrow> untouched F s0 s"
  by (simp add: copying_def untouched_def)

lemma span_of_snoc: "span_of (as @ [a]) = (\<lambda>va. span_of as va \<or> same_page va a)"
  by (rule ext) simp

text \<open>One page: \<open>memmove\<close> into the new frame and \<open>mappages\<close>.\<close>

lemma copying_step:
  assumes cp: "copying p s0 F d s as" and inv: "as_inv p s0 F" and G: "G \<subseteq> F" "as_inv d s G" "G \<union> owned (phys s) d = F"
    and v: "v \<in> G" "page_aligned v" and free: "free_pages (s\<lparr>freelist := f\<rparr>) (G - {v})"
    and a: "user_page a" "page_aligned a" "\<not> span_of as a" "lookup (phys s0) p a = Some e"
    and us: "\<And>va. span_of as va \<Longrightarrow> user_page va"
    and post: "\<And>t. copying p s0 F d t (as @ [a]) \<Longrightarrow> Q 0 t"
  shows "wp (mappages d a PGSIZE v (PTE_W OR PTE_U)) Q
           (s\<lparr>freelist := f, phys := memmove (phys s) v (PTE_ADDR e) PGSIZE\<rparr>)"
proof -
  let ?m = "memmove (phys s) v (PTE_ADDR e) PGSIZE"
  let ?s = "s\<lparr>freelist := f, phys := ?m\<rparr>"
  let ?w = "v OR (PTE_W OR PTE_U) OR PTE_P"
  have di: "pt_wf (phys s) d G" "user_wf (phys s) d G (kend s)" "Lkmem \<notin> held s" "free_pages s G"
    using G(2) by (auto simp: as_inv_def vm_inv_def)
  have F0: "free_pages s0 F" "user_wf (phys s0) p F (kend s0)" using inv by (auto simp: as_inv_def vm_inv_def)
  have eok: "page_ok (kend s0) (PTE_ADDR e)" "PTE_ADDR e \<notin> F"
    using F0(2) a(1,4) unfolding user_wf_def by blast+
  have w: "PTE_ADDR ?w = v" using v(2) by (simp add: PTE_ADDR_or)
  have vF: "v \<in> F" using v(1) G(1) by blast
  have vd: "v \<noteq> d" "v \<notin> tables (phys s) d" using di(1) v(1) by (auto simp: pt_wf_def)
  have vok: "page_ok (kend s) v" using free_pages_page_ok [OF di(4) v(1)] .
  have pg: "unat PGSIZE = 4096" by (simp add: PGSIZE_def)
  have room: "unat (PTE_ADDR e) + unat PGSIZE < 2 ^ 32" "unat v + unat PGSIZE < 2 ^ 32"
    using eok(1) vok by (simp_all add: page_ok_unat pg)
  note mm = memmove_spec [OF room, of "phys s"]
  have mout: "?m b = phys s b" if "\<not> in_page v b" for b
    using that by (simp add: mm in_page_def)
  have min: "?m b = phys s0 (PTE_ADDR e + (b - v))" if b: "in_page v b" for b
  proof -
    have r: "inrange v PGSIZE b" using b by (simp add: in_page_def)
    have "inrange (PTE_ADDR e) PGSIZE (PTE_ADDR e + (b - v))"
      using r by (simp add: inrange_def)
    then have pe: "in_page (PTE_ADDR e) (PTE_ADDR e + (b - v))" by (simp add: in_page_def)
    have "phys s (PTE_ADDR e + (b - v)) = phys s0 (PTE_ADDR e + (b - v))"
      using as_inv_untouched(3) [OF inv copying_untouched [OF cp] di(4) G(1) a(1,4) pe] .
    with r show ?thesis by (simp add: mm)
  qed
  have out: "outside [v] (phys s) (phys ?s)" by (simp add: outside_def mout)
  have fr: "free_pages ?s (G - {v})"
  proof -
    have "?m b = phys s b" if "q \<in> G - {v}" "in_page q b" for q b
      using that v(2) free_pages_aligned [OF di(4)] in_page_unique [of v q b]
      by (intro mout) blast
    then show ?thesis using free_pages_mem [OF free, of ?m] by simp
  qed
  have U: "PTE_ADDR q \<notin> G" if "user_page va" "lookup (phys s) d va = Some q" for va q
    using di(2) that unfolding user_wf_def by blast
  have s1: "as_inv d ?s (G - {v})" and lk: "\<And>va. lookup (phys ?s) d va = lookup (phys s) d va"
    and tb: "tables (phys ?s) d = tables (phys s) d"
    using as_inv_mem [OF G(2) fr _ _ out] di(3) v(2) vd U by auto
  have la: "lookup (phys s) d a = None"
    using cp a(1,3) by (simp add: copying_def)
  show ?thesis
  proof (rule wp_map_user [OF s1 a(1,2)])
    show "lookup (phys ?s) d a = None" using la by (simp only: lk)
    show "page_ok (kend ?s) (PTE_ADDR ?w)" "PTE_ADDR ?w \<noteq> d" "PTE_ADDR ?w \<notin> tables (phys ?s) d"
      "PTE_ADDR ?w \<notin> G - {v}"
      using vok vd by (simp_all only: w tb) auto
    fix vb q assume "user_page vb" "lookup (phys ?s) d vb = Some q"
    then show "PTE_ADDR q \<noteq> PTE_ADDR ?w" using U v(1) unfolding lk w by blast
  next
    fix t
    assume t: "as_inv d t (G - {v})" "as_frame d {} ?s t"
      "\<And>va. lookup (phys t) d va = (if same_page va a then Some ?w else lookup (phys ?s) d va)"
    have tbt: "tables (phys t) d = tables (phys s) d" using t(2) tb by (simp add: as_frame_def)
    have tm: "phys t b = ?m b" if "\<forall>q \<in> tables (phys s) d. \<not> in_page q b" for b
      using t(2) that tb by (simp add: as_frame_def)
    have lt: "lookup (phys t) d va = (if same_page va a then Some ?w else lookup (phys s) d va)" for va
      using t(3) lk by simp
    have dF: "d \<in> F" "tables (phys s) d \<subseteq> F" using cp by (auto simp: copying_def)
    have eqt: "t = s0\<lparr>phys := phys t, freelist := freelist t\<rparr>"
    proof -
      have "t = ?s\<lparr>phys := phys t, freelist := freelist t\<rparr>"
        using t(2) unfolding as_frame_def by (rule conjunct1)
      note ts = mem_only_step [OF this]
      have "s = s0\<lparr>phys := phys s, freelist := freelist s\<rparr>"
        using cp unfolding copying_def by (rule conjunct1)
      from this ts show ?thesis by (rule mem_only_trans)
    qed
    have mem: "phys t b = phys s0 b" if b: "\<forall>q \<in> F. \<not> in_page q b" for b
    proof -
      have "phys t b = ?m b" using b dF by (intro tm) blast
      also have "\<dots> = phys s b" using b vF by (intro mout) blast
      also have "\<dots> = phys s0 b" using b cp by (simp add: copying_def)
      finally show ?thesis .
    qed
    have ow: "owned (phys t) d = insert v (owned (phys s) d)"
    proof -
      have "entry_pages (phys t) d {va. user_page va}
          = entry_pages (phys t) d {va. same_page va a} \<union> entry_pages (phys t) d {va. user_page va \<and> \<not> same_page va a}"
        unfolding entry_pages_Un [symmetric] using a(1)
        by (intro arg_cong [where f = "entry_pages (phys t) d"]) (auto simp: user_page_def same_page_no)
      also have "entry_pages (phys t) d {va. same_page va a} = {v}"
        using w by (auto simp: entry_pages_def lt intro!: exI [of _ a])
      also have "entry_pages (phys t) d {va. user_page va \<and> \<not> same_page va a}
          = entry_pages (phys s) d {va. user_page va \<and> \<not> same_page va a}"
        by (rule entry_pages_same) (simp add: lt)
      also have "\<dots> = entry_pages (phys s) d {va. user_page va}"
      proof -
        have "lookup (phys s) d va = None" if "same_page va a" for va
          using la lookup_same_page [OF that, of "phys s" d] by simp
        then show ?thesis unfolding entry_pages_def by (metis (mono_tags, lifting) mem_Collect_eq option.discI)
      qed
      finally show ?thesis by (auto simp: owned_def tbt)
    qed
    have copied: "\<exists>e x. lookup (phys s0) p va = Some e \<and> x \<in> F
        \<and> lookup (phys t) d va = Some (x OR (PTE_W OR PTE_U) OR PTE_P)
        \<and> page_copy (phys s0) (PTE_ADDR e) (phys t) x" if "span_of (as @ [a]) va" for va
    proof (cases "same_page va a")
      case True
      have "phys t b = phys s0 (PTE_ADDR e + (b - v))" if b: "in_page v b" for b
      proof -
        have "\<not> in_page q b" if "q \<in> tables (phys s) d" for q
          using that vd(2) b v(2) tables_aligned [OF that] in_page_unique [of q v b] by blast
        then show ?thesis using b by (simp add: tm min)
      qed
      then show ?thesis
        using True vF a(4) lookup_same_page [OF True, of "phys s0" p]
        by (intro exI [of _ e] exI [of _ v]) (simp add: lt page_copy_def)
    next
      case False
      then have sp: "span_of as va" using that by simp
      then obtain e' x where x: "lookup (phys s0) p va = Some e'" "x \<in> F"
        "lookup (phys s) d va = Some (x OR (PTE_W OR PTE_U) OR PTE_P)"
        "page_copy (phys s0) (PTE_ADDR e') (phys s) x"
        using cp unfolding copying_def by blast
      have al: "page_aligned x" using free_pages_aligned [OF F0(1) x(2)] .
      then have ax: "PTE_ADDR (x OR (PTE_W OR PTE_U) OR PTE_P) = x" by (simp add: PTE_ADDR_or)
      have xn: "x \<notin> G" "x \<notin> tables (phys s) d"
        using di(2) us [OF sp] x(3) ax unfolding user_wf_def by metis+
      have "phys t b = phys s b" if b: "in_page x b" for b
      proof -
        have "\<not> in_page q b" if "q \<in> tables (phys s) d" for q
          using that xn(2) b al tables_aligned [OF that] in_page_unique [of q x b] by blast
        moreover have "\<not> in_page v b" using v xn(1) b al in_page_unique [of v x b] by blast
        ultimately show ?thesis by (simp add: tm mout)
      qed
      then show ?thesis
        using False x by (auto simp: lt page_copy_def)
    qed
    show "Q 0 t"
    proof (rule post, unfold copying_def, intro conjI)
      show "t = s0\<lparr>phys := phys t, freelist := freelist t\<rparr>" by (rule eqt)
      have "G - {v} \<union> owned (phys t) d = F" using G(3) v(1) unfolding ow by blast
      then show "\<exists>G\<subseteq>F. as_inv d t G \<and> G \<union> owned (phys t) d = F" using t(1) G(1) by blast
      show "\<forall>va. user_page va \<longrightarrow> \<not> span_of (as @ [a]) va \<longrightarrow> lookup (phys t) d va = None"
        using cp by (simp add: lt copying_def)
      show "tables (phys t) d \<subseteq> F" "d \<in> F" using dF by (simp_all add: tbt)
    qed (use mem copied in blast)+
  qed
qed

lemma pages_upto_distinct: "page_aligned a \<Longrightarrow> distinct (pages_upto a e)"
  unfolding pages_upto_def distinct_map
  using pages_upto_step(1) [of a _ e] by (auto intro!: inj_onI dest!: arg_cong [where f = unat])

lemma span_of_prefix:
  assumes "as @ a # bs = pages_upto lo hi" "page_aligned lo"
  shows "page_aligned a" "in_span lo hi a" "\<not> span_of as a" "span_of as va \<Longrightarrow> in_span lo hi va"
proof -
  have mem: "a \<in> set (pages_upto lo hi)" "set as \<subseteq> set (pages_upto lo hi)"
    using arg_cong [OF assms(1), of set] by auto
  show al: "page_aligned a" and "in_span lo hi a" using pages_upto_in [OF assms(2) mem(1)] by auto
  show "\<not> span_of as a"
  proof
    assume "span_of as a"
    then obtain b where b: "b \<in> set as" "same_page a b" by (auto simp: span_of_def)
    have bl: "page_aligned b" using pages_upto_in(1) [OF assms(2)] b(1) mem(2) by blast
    have "a = b"
      using b(2) page_no_base [OF al] page_no_base [OF bl] by (simp add: same_page_no word_unat_eq_iff)
    then show False
      using b(1) pages_upto_distinct [OF assms(2), of hi] unfolding assms(1) [symmetric] by simp
  qed
  show "span_of as va \<Longrightarrow> in_span lo hi va"
    using pages_upto_span [OF assms(2), of hi va] mem(2) by (auto simp: span_of_def)
qed

text \<open>Different pages of the user part.\<close>

definition user_pages :: "u32 list \<Rightarrow> bool" where
  "user_pages ps \<longleftrightarrow> distinct ps \<and> (\<forall>a \<in> set ps. page_aligned a \<and> user_page a)"

lemma user_page_same: "user_page a \<Longrightarrow> same_page va a \<Longrightarrow> user_page va"
  by (simp add: user_page_def same_page_no)

lemma user_pages_split:
  assumes "user_pages (as @ a # bs)"
  shows "page_aligned a" "user_page a" "\<not> span_of as a" "span_of as va \<Longrightarrow> user_page va"
proof -
  show al: "page_aligned a" and "user_page a" using assms by (simp_all add: user_pages_def)
  show "\<not> span_of as a"
  proof
    assume "span_of as a"
    then obtain b where b: "b \<in> set as" "same_page a b" by (auto simp: span_of_def)
    have bl: "page_aligned b" using b(1) assms by (simp add: user_pages_def)
    have "a = b"
      using b(2) page_no_base [OF al] page_no_base [OF bl] by (simp add: same_page_no word_unat_eq_iff)
    then show False using b(1) assms by (simp add: user_pages_def)
  qed
  show "span_of as va \<Longrightarrow> user_page va"
    using user_page_same assms unfolding span_of_def user_pages_def by fastforce
qed

lemma user_pages_upto: "page_aligned a \<Longrightarrow> e \<le> USERTOP \<Longrightarrow> user_pages (pages_upto a e)"
  using pages_upto_distinct [of a e] pages_upto_in [of a _ e] in_span_user [of a e] by (auto simp: user_pages_def)

text \<open>The result of a copy: the child has the parent's pages, or every page is free again.\<close>

definition copy_post :: "u32 \<Rightarrow> 'z kmem_state_scheme \<Rightarrow> u32 set \<Rightarrow> u32 list \<Rightarrow> u32 \<Rightarrow> u32 \<Rightarrow> 'z kmem_state_scheme \<Rightarrow> bool" where
  "copy_post p s0 F ps d r t \<longleftrightarrow>
     (r = d \<and> copying p s0 F d t ps) \<or> (r = 0 \<and> untouched F s0 t \<and> free_pages t F)"

lemma wp_copy_loop:
  assumes "copying p s0 F d s as" "as @ bs = ps" and inv: "as_inv p s0 F"
    and ps: "user_pages ps"
    and mapped: "\<And>a. a \<in> set ps \<Longrightarrow> lookup (phys s0) p a \<noteq> None"
  shows "wp (copy_loop p d bs) (copy_post p s0 F ps d) s"
  using assms(1,2)
proof (induction bs arbitrary: as s)
  case Nil
  then show ?case by (simp add: copy_post_def)
next
  case (Cons a bs)
  obtain G where G: "G \<subseteq> F" "as_inv d s G" "G \<union> owned (phys s) d = F"
    using Cons.prems(1) unfolding copying_def by blast
  have free: "free_pages s G" "Lkmem \<notin> held s" using G(2) by (auto simp: as_inv_def vm_inv_def)
  note un = copying_untouched [OF Cons.prems(1)]
  note pa = as_inv_untouched [OF inv un free(1) G(1)]
  note split = user_pages_split [OF ps [folded Cons.prems(2)]]
  note ua = split(2)
  obtain e where e: "lookup (phys s0) p a = Some e" using mapped [of a] Cons.prems(2) by auto
  note lk = user_lookup_cases [OF pa(1) ua]
  have le: "load32 (phys s) (pte_of (phys s) p a) = e" "present e"
    using lk(3) e unfolding pa(2) by (auto simp: Let_def split: if_splits)
  have F0: "free_pages s0 F" using inv by (simp add: as_inv_def vm_inv_def)
  have tok: "tables_ok (phys s) d (kend s)"
  proof -
    have "kend s = kend s0" using un by (auto simp: untouched_def dest: mem_only)
    moreover have "d \<in> F" "tables (phys s) d \<subseteq> F" using Cons.prems(1) by (simp_all add: copying_def)
    ultimately show ?thesis using free_pages_page_ok [OF F0] by (auto simp: tables_ok_def)
  qed
  let ?rest = "\<lambda>mem. if mem = 0 then thn (freevm d) (ret 0)
     else thn (upd (\<lambda>s. s\<lparr>phys := memmove (phys s) mem (PTE_ADDR e) PGSIZE\<rparr>)) (
          bnd (mappages d a PGSIZE mem (PTE_W OR PTE_U)) (\<lambda>r.
          if r < 0 then thn (freevm d) (ret 0) else copy_loop p d bs))"
  have "wp (bnd kalloc ?rest) (copy_post p s0 F ps d) s"
  proof (subst wp_bnd, rule wp_kalloc_set [OF free])
    have "wp (freevm d) (\<lambda>_. copy_post p s0 F ps d 0) s"
    proof (rule wp_freevm [OF G(2) tok])
      fix t
      assume t: "free_pages t (G \<union> owned (phys s) d)" "t = s\<lparr>phys := phys t, freelist := freelist t\<rparr>"
        "\<And>b. (\<forall>q \<in> G \<union> owned (phys s) d. \<not> in_page q b) \<Longrightarrow> phys t b = phys s b"
      have "t = s0\<lparr>phys := phys t, freelist := freelist t\<rparr>"
        using un t(2) unfolding untouched_def by (blast intro: mem_only_trans)
      then have "untouched F s0 t"
        using t(3) un unfolding untouched_def G(3) by simp
      then show "copy_post p s0 F ps d 0 t" using t(1) unfolding G(3) by (simp add: copy_post_def)
    qed
    then show "wp (?rest 0) (copy_post p s0 F ps d) s" by simp
  next
    fix v f
    assume v: "v \<in> G" "v \<noteq> 0" "page_aligned v" "free_pages (s\<lparr>freelist := f\<rparr>) (G - {v})"
    have "wp (mappages d a PGSIZE v (PTE_W OR PTE_U))
        (\<lambda>r. wp (if r < 0 then thn (freevm d) (ret 0) else copy_loop p d bs) (copy_post p s0 F ps d))
        (s\<lparr>freelist := f, phys := memmove (phys s) v (PTE_ADDR e) PGSIZE\<rparr>)"
    proof (rule copying_step [OF Cons.prems(1) inv G v(1,3,4) ua split(1,3) e split(4)])
      fix t assume "copying p s0 F d t (as @ [a])"
      then have "wp (copy_loop p d bs) (copy_post p s0 F ps d) t"
        using Cons.prems(2) by (intro Cons.IH [where as = "as @ [a]"]) (assumption, simp)
      then show "wp (if (0::int) < 0 then thn (freevm d) (ret 0) else copy_loop p d bs) (copy_post p s0 F ps d) t"
        by simp
    qed
    with v(2) show "wp (?rest v) (copy_post p s0 F ps d) (s\<lparr>freelist := f\<rparr>)" by simp
  qed
  then have "wp (get_pte (pte_of (phys s) p a)) (\<lambda>e. wp (if e AND PTE_P = 0 then panic ''copyuvm: page not present''
      else bnd kalloc (\<lambda>mem. if mem = 0 then thn (freevm d) (ret 0)
     else thn (upd (\<lambda>s. s\<lparr>phys := memmove (phys s) mem (PTE_ADDR e) PGSIZE\<rparr>)) (
          bnd (mappages d a PGSIZE mem (PTE_W OR PTE_U)) (\<lambda>r.
          if r < 0 then thn (freevm d) (ret 0) else copy_loop p d bs)))) (copy_post p s0 F ps d)) s"
    unfolding get_pte_def if_not_P [OF lk(2)] wp_asks le(1)
    using le(2) by (simp add: present_def del: wp_bnd)
  then show ?case
    unfolding copy_loop.simps using lk(2)
    by (subst wp_bnd, intro wp_walk_user [OF pa(1) ua]) (simp del: wp_whenP)
qed

lemma kernel_entry_user: "user_page va \<Longrightarrow> kernel_entry data va = None"
proof -
  assume "user_page va"
  then have "page_no va * 4096 < unat USERTOP" by (simp only: user_page_USERTOP)
  then have "unat va < unat USERTOP"
    using div_mult_mod_eq [of "unat va" 4096] mod_less_divisor [of 4096 "unat va"]
    by (simp add: page_no_def USERTOP_def)
  then show ?thesis by (simp add: kernel_entry_def word_less_nat_alt)
qed

lemma as_inv_setupkvm:
  assumes "vm_inv d t G" "\<And>va. lookup (phys t) d va = kernel_entry data va"
  shows "as_inv d t G"
proof -
  have "lookup (phys t) d USERTOP \<noteq> None"
    by (simp add: assms(2) kernel_entry_def USERTOP_def)
  then have "present (pde_at (phys t) d (PDX USERTOP))"
    by (auto simp: lookup_def Let_def split: if_splits)
  moreover have "PDX USERTOP = 0" by (simp add: word_unat_eq_iff unat_PDX USERTOP_def)
  ultimately show ?thesis
    using assms by (simp add: as_inv_def user_wf_def kernel_entry_user)
qed

lemma wp_result: "wp m Q s \<Longrightarrow> wp m (\<lambda>a t. Q a t \<and> m s = Done a t) s"
  by (simp add: wp_def wlp_def split: outcome.splits)

lemma wp_copy_pages:
  assumes inv: "as_inv p s F" and data: "data_ok (kdata s)" and ps: "user_pages ps"
    and mapped: "\<And>a. a \<in> set ps \<Longrightarrow> lookup (phys s) p a \<noteq> None"
  shows "wp (bnd setupkvm (\<lambda>d. if d = 0 then ret 0 else copy_loop p d ps)) (\<lambda>r t. copying p s F r t ps \<and> r \<noteq> 0
           \<or> r = 0 \<and> untouched F s t \<and> (free_pages t F \<or> free_pages t {} \<and> setupkvm s = Done 0 t)) s"
proof (subst wp_bnd)
  let ?Q = "\<lambda>r t. copying p s F r t ps \<and> r \<noteq> 0
           \<or> r = 0 \<and> untouched F s t \<and> (free_pages t F \<or> free_pages t {} \<and> setupkvm s = Done 0 t)"
  have F: "free_pages s F" "Lkmem \<notin> held s" using inv by (auto simp: as_inv_def vm_inv_def)
  show "wp setupkvm (\<lambda>d. wp (if d = 0 then ret 0 else copy_loop p d ps) ?Q) s"
  proof (rule wp_mono [OF wp_result [OF wp_setupkvm [OF F data]]])
    fix d t
    assume "(\<exists>G. G \<subseteq> F \<and> t = s\<lparr>phys := phys t, freelist := freelist t\<rparr>
       \<and> (\<forall>b. (\<forall>p \<in> F. \<not> in_page p b) \<longrightarrow> phys t b = phys s b)
       \<and> (d = 0 \<and> free_pages t {} \<and> G = {}
          \<or> d \<in> F \<and> vm_inv d t G \<and> F = insert d (G \<union> tables (phys t) d)
            \<and> (\<forall>va. lookup (phys t) d va = kernel_entry (kdata s) va))) \<and> setupkvm s = Done d t"
    then obtain G where ran: "setupkvm s = Done d t" and G: "G \<subseteq> F" "t = s\<lparr>phys := phys t, freelist := freelist t\<rparr>"
      "\<forall>b. (\<forall>p \<in> F. \<not> in_page p b) \<longrightarrow> phys t b = phys s b"
      "d = 0 \<and> free_pages t {} \<and> G = {}
          \<or> d \<in> F \<and> vm_inv d t G \<and> F = insert d (G \<union> tables (phys t) d)
            \<and> (\<forall>va. lookup (phys t) d va = kernel_entry (kdata s) va)"
      by blast
    have un: "untouched F s t" using G(2,3) by (simp add: untouched_def)
    show "wp (if d = 0 then ret 0 else copy_loop p d ps) ?Q t"
    proof (cases "d = 0")
      case True
      have "0 \<notin> F" using free_pages_nonzero [OF F(1)] by blast
      with True G(4) have "free_pages t {}" by auto
      then show ?thesis using True un ran by auto
    next
      case False
      then have g: "d \<in> F" "vm_inv d t G" "F = insert d (G \<union> tables (phys t) d)"
        "\<And>va. lookup (phys t) d va = kernel_entry (kdata s) va"
        using G(4) by auto
      have ai: "as_inv d t G" using g(2,4) by (rule as_inv_setupkvm)
      have "entry_pages (phys t) d {va. user_page va} = {}"
        using kernel_entry_user by (auto simp: entry_pages_def g(4))
      then have "G \<union> owned (phys t) d = F" using g(3) by (simp add: owned_def)
      then have own: "\<exists>G \<subseteq> F. as_inv d t G \<and> G \<union> owned (phys t) d = F" using ai G(1) by blast
      have "copying p s F d t []"
        unfolding copying_def
      proof (intro conjI)
        show "\<forall>va. user_page va \<longrightarrow> \<not> span_of [] va \<longrightarrow> lookup (phys t) d va = None"
          using kernel_entry_user by (simp add: g(4))
        show "tables (phys t) d \<subseteq> F" using g(3) by blast
      qed (fact G(2) G(3) g(1) own | simp)+
      then have "wp (copy_loop p d ps) (copy_post p s F ps d) t"
        using inv ps mapped by (intro wp_copy_loop [where as = "[]"]) auto
      then have "wp (copy_loop p d ps) ?Q t"
        by (rule wp_mono) (use False in \<open>auto simp: copy_post_def\<close>)
      then show ?thesis using False by simp
    qed
  qed
qed

section \<open>Properties\<close>

text \<open>C2: \<open>allocuvm\<close> is all or nothing: either it returns the new size and every page of the
  range is mapped writable to a frame of its own, taken from the free pages and filled with
  zeros, or it returns 0, when there are fewer free pages than it needs, and the translation
  and the free pages are as before the call.  In both cases no other translation and no byte
  outside the page tables and the free pages has changed.\<close>

theorem allocuvm_all_or_nothing:
  assumes "as_inv d s F" "oldsz \<le> newsz" "newsz \<le> USERTOP"
    and "\<forall>va. in_span (PGROUNDUP oldsz) newsz va \<longrightarrow> lookup (phys s) d va = None"
  shows "wp (allocuvm d oldsz newsz) (\<lambda>r t. as_frame d F s t \<and>
     ((r = newsz \<and> (\<exists>G \<subseteq> F. as_inv d t G)
        \<and> (\<forall>va. if in_span (PGROUNDUP oldsz) newsz va
             then \<exists>v \<in> F. lookup (phys t) d va = Some (v OR (PTE_W OR PTE_U) OR PTE_P)
                 \<and> (\<forall>b. in_page v b \<longrightarrow> phys t b = 0)
             else lookup (phys t) d va = lookup (phys s) d va))
      \<or> (r = 0 \<and> as_inv d t F \<and> (\<forall>va. lookup (phys t) d va = lookup (phys s) d va)
         \<and> card F < length (pages_upto (PGROUNDUP oldsz) newsz)))) s"
proof -
  have span: "span_of (pages_upto (PGROUNDUP oldsz) newsz) = in_span (PGROUNDUP oldsz) newsz"
    using pages_upto_span [OF page_aligned_up] by (simp add: fun_eq_iff span_of_def)
  have "wp (allocuvm d oldsz newsz) (alloc_post d F s (pages_upto (PGROUNDUP oldsz) newsz) newsz) s"
    using assms by (intro wp_allocuvm) auto
  then show ?thesis
    by (rule wp_mono) (auto simp: alloc_post_def fresh_pages_def rolled_back_def span)
qed

text \<open>An address space with one page table and one free page, and the same with a page mapped at 0.\<close>

definition one_space :: kmem_state where
  "one_space = two_free_dir\<lparr>freelist := 0x400000, phys := with_table (phys two_free_dir) 0x500000 0 0x401000\<rparr>"

definition one_mapped :: kmem_state where
  "one_mapped = one_space\<lparr>phys := store32 (phys one_space) (pte_of (phys one_space) 0x500000 0) 0x600007\<rparr>"

lemma one_space_inv:
  "as_inv 0x500000 one_space {0x400000}" "tables (phys one_space) 0x500000 = {0x401000}"
  "lookup (phys one_space) 0x500000 va = None"
proof -
  let ?m = "phys two_free_dir"
  have al: "page_aligned (0x500000 :: u32)" "page_aligned (0x401000 :: u32)" "page_aligned (0x400000 :: u32)"
    by (simp_all add: page_aligned_def PGSIZE_def)
  have z: "?m b = 0" if "in_page 0x500000 b" for b
    using that by (simp add: two_free_dir_def memset_inside)
  have np: "\<not> present (pde_at ?m 0x500000 i)" if "i < 1024" for i
    using lookup_zero_page(3) [OF al(1), of ?m i] z that by simp
  have tz: "tables ?m 0x500000 = {}"
    by (rule lookup_zero_page(2) [OF al(1)]) (rule z)
  have ptwf: "pt_wf ?m 0x500000 {0x401000, 0x400000}"
    using two_free_dir_inv(1) by (simp add: vm_inv_def)
  have free: "free_pages two_free_dir {0x401000, 0x400000}"
    using two_free_dir_inv(1) by (simp add: vm_inv_def)
  have P0: "PDX 0 = 0" by (simp add: word_unat_eq_iff unat_PDX)
  show tb: "tables (phys one_space) 0x500000 = {0x401000}"
    using tables_with_table [OF al(1,2), of 0 ?m] np [of 0] tz by (simp add: one_space_def)
  show lk: "lookup (phys one_space) 0x500000 va = None" for va
    using lookup_with_table [OF ptwf _ al(2), of 0 va] np [of 0] two_free_dir_inv(2)
    by (simp add: one_space_def P0)
  have "pt_wf (phys one_space) 0x500000 ({0x401000, 0x400000} - {0x401000})"
    using pt_wf_with_table [OF ptwf _ al(2), of 0] np [of 0] by (simp add: one_space_def)
  then have pt: "pt_wf (phys one_space) 0x500000 {0x400000}" by (simp add: insert_Diff_if)
  have same: "phys one_space b = ?m b" if "in_page 0x400000 b" for b
    using that in_page_unique [OF al(3,1)] in_page_unique [OF al(3,2)]
    by (simp add: one_space_def) (intro with_table_outside, auto simp: al)
  have l0: "load32 ?m 0x400000 = 0"
  proof -
    obtain xs where xs: "kmem_inv two_free_dir xs" "set xs = {0x401000, 0x400000}"
      using free by (auto simp: free_pages_def)
    have m: "?m b = phys two_free b" if "in_page 0x400000 b" for b
      using that in_page_unique [OF al(3,1)] by (auto simp: two_free_dir_def intro!: memset_outside)
    have "load32 ?m 0x400000 = load32 (phys two_free) 0x400000"
      using m by (intro load32_base_cong [OF al(3)])
    also have "\<dots> = 0"
      using load_store_slot [OF al(2,3), of 0 0 "\<lambda>_. 0" "0x400000"]
      by (simp add: two_free_def) (simp add: load32_def join4_def)
    finally show ?thesis .
  qed
  have "load32 (phys one_space) 0x400000 = 0"
    using load32_base_cong [OF al(3), of "phys one_space" ?m] same l0 by simp
  then have "kmem_inv one_space [0x400000]"
    by (simp add: kmem_inv_def one_space_def two_free_dir_def two_free_def page_ok_def PGSIZE_def PHYSTOP_def)
  then have "free_pages one_space {0x400000}" by (auto simp: free_pages_def)
  moreover have "present (pde_at (phys one_space) 0x500000 0)"
    using pde_at_with_table [OF al(1,2), of 0 0 ?m] by (simp add: one_space_def)
  moreover have "Lkmem \<notin> held one_space"
    by (simp add: one_space_def two_free_dir_def two_free_def)
  ultimately show "as_inv 0x500000 one_space {0x400000}"
    using pt lk by (simp add: as_inv_def vm_inv_def user_wf_def)
qed

lemma one_mapped_inv:
  "as_inv 0x500000 one_mapped {0x400000}"
  "lookup (phys one_mapped) 0x500000 va = (if user_page va \<and> page_no va = 0 then Some 0x600007 else None)"
proof -
  have u: "user_page 0" by (simp add: user_page_def page_no_def)
  have a: "PTE_ADDR 0x600007 = 0x600000" "present (0x600007 :: u32)"
    by (simp_all add: PTE_ADDR_def present_def PTE_P_def)
  have k: "kend one_space = 0x10A000" by (simp add: one_space_def two_free_dir_def two_free_def)
  have ptw: "pt_wf (phys one_space) 0x500000 {0x400000}"
    using one_space_inv(1) by (simp add: as_inv_def vm_inv_def)
  show "as_inv 0x500000 one_mapped {0x400000}"
    unfolding one_mapped_def
    by (rule as_inv_map(1) [OF one_space_inv(1) u])
      (simp_all add: a one_space_inv(2,3) page_ok_def k PGSIZE_def PHYSTOP_def)
  show "lookup (phys one_mapped) 0x500000 va = (if user_page va \<and> page_no va = 0 then Some 0x600007 else None)"
    using pte_store_lookup [OF ptw user_lookup_cases(1) [OF one_space_inv(1) u], of "0x600007" va] a(2)
    by (simp add: one_mapped_def one_space_inv(3) same_page_no user_page_def) (simp add: page_no_def)
qed

theorem allocuvm_all_or_nothing_witness:
  "wp (allocuvm 0x500000 0 0x1800) (\<lambda>r t. as_frame 0x500000 {0x400000} one_space t \<and>
     ((r = 0x1800 \<and> (\<exists>G \<subseteq> {0x400000}. as_inv 0x500000 t G)
        \<and> (\<forall>va. if in_span 0 0x1800 va
             then \<exists>v \<in> {0x400000}. lookup (phys t) 0x500000 va = Some (v OR (PTE_W OR PTE_U) OR PTE_P)
                 \<and> (\<forall>b. in_page v b \<longrightarrow> phys t b = 0)
             else lookup (phys t) 0x500000 va = lookup (phys one_space) 0x500000 va))
      \<or> (r = 0 \<and> as_inv 0x500000 t {0x400000}
         \<and> (\<forall>va. lookup (phys t) 0x500000 va = lookup (phys one_space) 0x500000 va)
         \<and> card {0x400000 :: u32} < length (pages_upto 0 0x1800)))) one_space"
  using allocuvm_all_or_nothing [OF one_space_inv(1), of 0 "0x1800"]
  by (simp add: one_space_inv(3) PGROUNDUP_def PGSIZE_def USERTOP_def)

text \<open>The pages in \<open>S\<close> of the directory \<open>r\<close> hold what those of \<open>p\<close> hold, in frames of \<open>F\<close>; no other user page is mapped.\<close>

definition same_pages :: "mem \<Rightarrow> u32 \<Rightarrow> u32 \<Rightarrow> (u32 \<Rightarrow> bool) \<Rightarrow> u32 set \<Rightarrow> bool" where
  "same_pages m p r S F \<longleftrightarrow> (\<forall>va. user_page va \<longrightarrow> (if S va
     then \<exists>e v. lookup m p va = Some e \<and> v \<in> F \<and> lookup m r va = Some (v OR (PTE_W OR PTE_U) OR PTE_P)
        \<and> page_copy m (PTE_ADDR e) m v
     else lookup m r va = None))"

definition same_image :: "mem \<Rightarrow> u32 \<Rightarrow> u32 \<Rightarrow> u32 \<Rightarrow> u32 set \<Rightarrow> bool" where
  "same_image m p r sz F \<longleftrightarrow> same_pages m p r (in_span 0 sz) F"

lemma wp_copy_pages_exact:
  assumes "as_inv p s F" "data_ok (kdata s)" "user_pages ps" "\<And>a. a \<in> set ps \<Longrightarrow> lookup (phys s) p a \<noteq> None"
  shows "wp (bnd setupkvm (\<lambda>d. if d = 0 then ret 0 else copy_loop p d ps)) (\<lambda>r t. untouched F s t \<and>
     ((r \<in> F \<and> (\<exists>G \<subseteq> F. as_inv p t G \<and> as_inv r t G \<and> G \<union> owned (phys t) r = F)
        \<and> same_pages (phys t) p r (span_of ps) F)
      \<or> (r = 0 \<and> (as_inv p t F \<or> as_inv p t {} \<and> setupkvm s = Done 0 t)))) s"
proof (rule wp_mono [OF wp_copy_pages [OF assms]])
  have us: "user_page va" if "span_of ps va" for va
    using that user_page_same assms(3) unfolding span_of_def user_pages_def by blast
  fix r t
  assume "copying p s F r t ps \<and> r \<noteq> 0
     \<or> r = 0 \<and> untouched F s t \<and> (free_pages t F \<or> free_pages t {} \<and> setupkvm s = Done 0 t)"
  then consider "copying p s F r t ps"
    | "r = 0" "untouched F s t" "free_pages t F"
    | "r = 0" "untouched F s t" "free_pages t {}" "setupkvm s = Done 0 t" by blast
  then show "untouched F s t \<and>
     ((r \<in> F \<and> (\<exists>G \<subseteq> F. as_inv p t G \<and> as_inv r t G \<and> G \<union> owned (phys t) r = F)
        \<and> same_pages (phys t) p r (span_of ps) F)
      \<or> (r = 0 \<and> (as_inv p t F \<or> as_inv p t {} \<and> setupkvm s = Done 0 t)))"
  proof cases
    case 1
    obtain G where G: "G \<subseteq> F" "as_inv r t G" "G \<union> owned (phys t) r = F" using 1 by (auto simp: copying_def)
    then have fr: "free_pages t G" by (simp add: as_inv_def vm_inv_def)
    note un = copying_untouched [OF 1]
    note pt = as_inv_untouched [OF assms(1) un fr G(1)]
    have cp: "\<exists>e v. lookup (phys t) p va = Some e \<and> v \<in> F
                 \<and> lookup (phys t) r va = Some (v OR (PTE_W OR PTE_U) OR PTE_P)
                 \<and> page_copy (phys t) (PTE_ADDR e) (phys t) v" if va: "span_of ps va" for va
    proof -
      obtain e v where e: "lookup (phys s) p va = Some e" "v \<in> F"
        "lookup (phys t) r va = Some (v OR (PTE_W OR PTE_U) OR PTE_P)"
        "page_copy (phys s) (PTE_ADDR e) (phys t) v"
        using 1 va unfolding copying_def by blast
      have "phys t b = phys t (PTE_ADDR e + (b - v))" if b: "in_page v b" for b
      proof -
        have "in_page (PTE_ADDR e) (PTE_ADDR e + (b - v))" using b by (simp add: in_page_def inrange_def)
        then have "phys t (PTE_ADDR e + (b - v)) = phys s (PTE_ADDR e + (b - v))"
          using pt(3) [OF us [OF va] e(1)] by blast
        then show ?thesis using e(4) b by (simp add: page_copy_def)
      qed
      then show ?thesis using e pt(2) by (auto simp: page_copy_def)
    qed
    moreover have "lookup (phys t) r va = None" if "user_page va" "\<not> span_of ps va" for va
      using 1 that unfolding copying_def by blast
    moreover have "r \<in> F" using 1 by (simp add: copying_def)
    ultimately show ?thesis using un G pt(1) unfolding same_pages_def by auto
  next
    case 2
    then show ?thesis using as_inv_untouched(1) [OF assms(1)] by blast
  next
    case 3
    then show ?thesis using as_inv_untouched(1) [OF assms(1) 3(2,3)] by blast
  qed
qed

text \<open>What a caller needs of the result that does not look at which pages are free.\<close>

lemma copied_weaken:
  assumes "wp (m :: ('z kmem_state_scheme, switch, u32) prog) (\<lambda>r t. untouched F s t \<and>
     ((r \<in> F \<and> (\<exists>G \<subseteq> F. as_inv p t G \<and> as_inv r t G \<and> G \<union> owned (phys t) r = F) \<and> P r t)
      \<or> (r = 0 \<and> (as_inv p t F \<or> as_inv p t {} \<and> setupkvm s = Done 0 t)))) s"
  shows "wp m (\<lambda>r t. untouched F s t \<and>
     ((r \<in> F \<and> (\<exists>G \<subseteq> F. as_inv p t G \<and> as_inv r t G) \<and> P r t)
      \<or> (r = 0 \<and> (\<exists>G \<subseteq> F. as_inv p t G)))) s"
  using assms
proof (rule wp_mono)
  fix r t
  assume h: "untouched F s t \<and>
     ((r \<in> F \<and> (\<exists>G \<subseteq> F. as_inv p t G \<and> as_inv r t G \<and> G \<union> owned (phys t) r = F) \<and> P r t)
      \<or> (r = 0 \<and> (as_inv p t F \<or> as_inv p t {} \<and> setupkvm s = Done 0 t)))"
  have "\<exists>G \<subseteq> F. as_inv p t G" if "as_inv p t F \<or> as_inv p t {}" using that by auto
  then show "untouched F s t \<and>
     ((r \<in> F \<and> (\<exists>G \<subseteq> F. as_inv p t G \<and> as_inv r t G) \<and> P r t)
      \<or> (r = 0 \<and> (\<exists>G \<subseteq> F. as_inv p t G)))" using h by blast
qed

lemma wp_copy_pages_image:
  assumes "as_inv p s F" "data_ok (kdata s)" "user_pages ps" "\<And>a. a \<in> set ps \<Longrightarrow> lookup (phys s) p a \<noteq> None"
  shows "wp (bnd setupkvm (\<lambda>d. if d = 0 then ret 0 else copy_loop p d ps)) (\<lambda>r t. untouched F s t \<and>
     ((r \<in> F \<and> (\<exists>G \<subseteq> F. as_inv p t G \<and> as_inv r t G)
        \<and> same_pages (phys t) p r (span_of ps) F)
      \<or> (r = 0 \<and> (\<exists>G \<subseteq> F. as_inv p t G)))) s"
  by (rule copied_weaken [OF wp_copy_pages_exact [OF assms]])

lemma wp_copyuvm_exact:
  assumes "as_inv p s F" "data_ok (kdata s)" "sz \<le> USERTOP"
    and "\<forall>va. in_span 0 sz va \<longrightarrow> lookup (phys s) p va \<noteq> None"
  shows "wp (copyuvm p sz) (\<lambda>r t. untouched F s t \<and>
     ((r \<in> F \<and> (\<exists>G \<subseteq> F. as_inv p t G \<and> as_inv r t G \<and> G \<union> owned (phys t) r = F)
        \<and> same_image (phys t) p r sz F)
      \<or> (r = 0 \<and> (as_inv p t F \<or> as_inv p t {} \<and> setupkvm s = Done 0 t)))) s"
proof -
  have "span_of (pages_upto 0 sz) = in_span 0 sz"
    using pages_upto_span [OF page_aligned_0] by (simp add: fun_eq_iff span_of_def)
  moreover have "lookup (phys s) p a \<noteq> None" if "a \<in> set (pages_upto 0 sz)" for a
    using pages_upto_in(2) [OF page_aligned_0 that] assms(4) by blast
  ultimately show ?thesis
    using wp_copy_pages_exact [OF assms(1,2) user_pages_upto [OF page_aligned_0 assms(3)]]
    unfolding copyuvm_def same_image_def by simp
qed

lemma wp_copyuvm_image:
  assumes "as_inv p s F" "data_ok (kdata s)" "sz \<le> USERTOP"
    and "\<forall>va. in_span 0 sz va \<longrightarrow> lookup (phys s) p va \<noteq> None"
  shows "wp (copyuvm p sz) (\<lambda>r t. untouched F s t \<and>
     ((r \<in> F \<and> (\<exists>G \<subseteq> F. as_inv p t G \<and> as_inv r t G)
        \<and> same_image (phys t) p r sz F)
      \<or> (r = 0 \<and> (\<exists>G \<subseteq> F. as_inv p t G)))) s"
  by (rule copied_weaken [OF wp_copyuvm_exact [OF assms]])

text \<open>C3: \<open>copyuvm\<close> gives the child a copy of the parent: when it returns a directory, every page
  below \<open>sz\<close> of the child is mapped writable to a frame of its own that holds, byte for byte,
  what the parent's page holds, nothing else is mapped below \<open>USERTOP\<close>, and the pages it took are
  exactly those the child owns.  When it returns 0 because memory ran out, everything it took is
  free again, unless \<open>setupkvm\<close> itself returned 0: then no page is free any more, since
  \<open>setupkvm\<close> does not give back the pages it took.  The parent's address space stays intact in
  all cases.\<close>

theorem copyuvm_copies:
  assumes "as_inv p s F" "data_ok (kdata s)" "sz \<le> USERTOP"
    and "\<forall>va. in_span 0 sz va \<longrightarrow> lookup (phys s) p va \<noteq> None"
  shows "wp (copyuvm p sz) (\<lambda>r t. untouched F s t \<and>
     ((r \<in> F \<and> (\<exists>G \<subseteq> F. as_inv p t G \<and> as_inv r t G \<and> G \<union> owned (phys t) r = F)
        \<and> (\<forall>va. user_page va \<longrightarrow> (if in_span 0 sz va
             then \<exists>e v. lookup (phys t) p va = Some e \<and> v \<in> F
                 \<and> lookup (phys t) r va = Some (v OR (PTE_W OR PTE_U) OR PTE_P)
                 \<and> page_copy (phys t) (PTE_ADDR e) (phys t) v
             else lookup (phys t) r va = None)))
      \<or> (r = 0 \<and> (as_inv p t F \<or> as_inv p t {} \<and> setupkvm s = Done 0 t)))) s"
  using wp_copyuvm_exact [OF assms] unfolding same_image_def same_pages_def .

lemma one_mapped_kdata: "data_ok (kdata one_mapped)"
  by (simp add: one_mapped_def one_space_def two_free_dir_def two_free_def data_ok_def page_aligned_def
      PGSIZE_def PHYSTOP_def)

theorem copyuvm_copies_witness:
  "wp (copyuvm 0x500000 0x800) (\<lambda>r t. untouched {0x400000} one_mapped t \<and>
     ((r \<in> {0x400000} \<and> (\<exists>G \<subseteq> {0x400000}. as_inv 0x500000 t G \<and> as_inv r t G
          \<and> G \<union> owned (phys t) r = {0x400000})
        \<and> (\<forall>va. user_page va \<longrightarrow> (if in_span 0 0x800 va
             then \<exists>e v. lookup (phys t) 0x500000 va = Some e \<and> v \<in> {0x400000}
                 \<and> lookup (phys t) r va = Some (v OR (PTE_W OR PTE_U) OR PTE_P)
                 \<and> page_copy (phys t) (PTE_ADDR e) (phys t) v
             else lookup (phys t) r va = None)))
      \<or> (r = 0 \<and> (as_inv 0x500000 t {0x400000}
          \<or> as_inv 0x500000 t {} \<and> setupkvm one_mapped = Done 0 t)))) one_mapped"
  by (rule copyuvm_copies [OF one_mapped_inv(1) one_mapped_kdata])
    (auto simp: one_mapped_inv(2) USERTOP_def in_span_def user_page_def page_no_def)

text \<open>C4: \<open>freevm\<close> gives back exactly what an address space owns: its user pages, all its page
  tables and its directory join the free pages, each once (no page is freed twice, which
  \<open>kfree\<close>'s invariant would reject), and no other memory changes.\<close>

theorem freevm_returns_all:
  assumes "as_inv d s F" "tables_ok (phys s) d (kend s)"
  shows "wp (freevm d) (\<lambda>_ t. free_pages t (F \<union> owned (phys s) d)
     \<and> untouched (F \<union> owned (phys s) d) s t) s"
  by (rule wp_freevm [OF assms]) (simp add: untouched_def)

theorem freevm_returns_all_witness:
  "wp (freevm 0x500000) (\<lambda>_ t. free_pages t ({0x400000} \<union> owned (phys one_space) 0x500000)
     \<and> untouched ({0x400000} \<union> owned (phys one_space) 0x500000) one_space t) one_space"
proof (rule freevm_returns_all [OF one_space_inv(1)])
  show "tables_ok (phys one_space) 0x500000 (kend one_space)"
    unfolding tables_ok_def one_space_inv(2)
    by (simp add: one_space_def two_free_dir_def two_free_def page_ok_def PGSIZE_def PHYSTOP_def)
qed

end
