(* ===== verification/Sched.thy ===== *)
theory Sched
  imports VmUser
begin

text \<open>
  The process table and the scheduler primitives of \<open>kernel/proc.c\<close>: slot allocation,
  sleep and wakeup, kill, yield, the choice of the next process, memory growth and
  \<open>switchuvm\<close> of \<open>kernel/vm.c\<close>.  A process is named by its slot in \<open>ptable.proc\<close>; the
  trap frame, which the code keeps at the top of the kernel stack, is a field of the slot.
  \<open>fork\<close>, \<open>clone\<close>, \<open>exit\<close>, \<open>wait\<close> and \<open>join\<close> need the file layer and are in \<open>Proc\<close>.
\<close>

section \<open>State\<close>

datatype procstate = UNUSED | EMBRYO | SLEEPING | RUNNABLE | RUNNING | ZOMBIE

text \<open>\<open>struct trapframe\<close> of \<open>include/x86.h\<close>, without its padding.\<close>

record trapframe =
  tf_edi :: u32
  tf_esi :: u32
  tf_ebp :: u32
  tf_oesp :: u32
  tf_ebx :: u32
  tf_edx :: u32
  tf_ecx :: u32
  tf_eax :: u32
  tf_gs :: u16
  tf_fs :: u16
  tf_es :: u16
  tf_ds :: u16
  tf_trapno :: u32
  tf_err :: u32
  tf_eip :: u32
  tf_cs :: u16
  tf_eflags :: u32
  tf_esp :: u32
  tf_ss :: u16

text \<open>Where \<open>swtch\<close> resumes a process: at \<open>forkret\<close>, or inside \<open>sched\<close>.\<close>

datatype kcontext = AtForkret | AtSched

record proc =
  p_sz :: u32
  p_pgdir :: u32
  p_kstack :: u32
  p_tstack :: u32
  p_state :: procstate
  p_pid :: u32
  p_parent :: "nat option"
  p_tf :: trapframe
  p_ctx :: kcontext
  p_chan :: "chan option"
  p_killed :: bool
  p_ofile :: "nat option list"
  p_cwd :: "nat option"
  p_name :: "u8 list"

definition NPROC :: nat where "NPROC = 64"
definition NOFILE :: nat where "NOFILE = 16"
definition KSTACKSIZE :: u32 where "KSTACKSIZE = 4096"

text \<open>
  \<open>ptable\<close>, \<open>nextpid\<close> and \<open>initproc\<close> are the kernel's globals; \<open>cur\<close> is \<open>proc\<close> of the CPU
  that runs, \<open>cr3\<close> and \<open>esp0\<close> its page-table register and task-state stack pointer.
\<close>

record sched_state = kmem_state +
  ptable :: "proc list"
  nextpid :: u32
  initproc :: "nat option"
  cur :: "nat option"
  cr3 :: u32
  esp0 :: u32
  kpgdir :: u32

definition set_proc :: "nat \<Rightarrow> (proc \<Rightarrow> proc) \<Rightarrow> ('z sched_state_scheme, switch, unit) prog" where
  "set_proc i f = upd (\<lambda>s. s\<lparr>ptable := (ptable s)[i := f (ptable s ! i)]\<rparr>)"

definition get_proc :: "nat \<Rightarrow> ('z sched_state_scheme, switch, proc) prog" where
  "get_proc i = asks (\<lambda>s. ptable s ! i)"

text \<open>\<open>proc\<close>: using it when no process runs is a null dereference.\<close>

definition curproc :: "('z sched_state_scheme, switch, nat) prog" where
  "curproc = bnd (asks cur) (\<lambda>c. case c of None \<Rightarrow> panic ''null proc'' | Some i \<Rightarrow> ret i)"

section \<open>Allocating a slot\<close>

text \<open>The trap frame a kernel stack holds, field by field at its offset.\<close>

definition load16 :: "mem \<Rightarrow> u32 \<Rightarrow> u16" where
  "load16 m a = ucast (m a) OR push_bit 8 (ucast (m (a + 1)))"

definition read_frame :: "mem \<Rightarrow> u32 \<Rightarrow> trapframe" where
  "read_frame m a = \<lparr>
     tf_edi = load32 m a, tf_esi = load32 m (a + 4), tf_ebp = load32 m (a + 8),
     tf_oesp = load32 m (a + 12), tf_ebx = load32 m (a + 16), tf_edx = load32 m (a + 20),
     tf_ecx = load32 m (a + 24), tf_eax = load32 m (a + 28), tf_gs = load16 m (a + 32),
     tf_fs = load16 m (a + 36), tf_es = load16 m (a + 40), tf_ds = load16 m (a + 44),
     tf_trapno = load32 m (a + 48), tf_err = load32 m (a + 52), tf_eip = load32 m (a + 56),
     tf_cs = load16 m (a + 60), tf_eflags = load32 m (a + 64), tf_esp = load32 m (a + 68),
     tf_ss = load16 m (a + 72)\<rparr>"

definition find_unused :: "'z sched_state_scheme \<Rightarrow> nat option" where
  "find_unused s = find (\<lambda>i. p_state (ptable s ! i) = UNUSED) [0..<NPROC]"

text \<open>\<open>sizeof *p->tf\<close> is 76; \<open>trapret\<close> and the zeroed context lie below it.\<close>

definition allocproc :: "('z sched_state_scheme, switch, nat option) prog" where
  "allocproc =
     thn (lock Lptable) (
     bnd (asks find_unused) (\<lambda>found.
     case found of
       None \<Rightarrow> thn (unlock Lptable) (ret None)
     | Some i \<Rightarrow>
         bnd (asks nextpid) (\<lambda>pid.
         thn (set_proc i (\<lambda>p. p\<lparr>p_state := EMBRYO, p_pid := pid\<rparr>)) (
         thn (upd (\<lambda>s. s\<lparr>nextpid := pid + 1\<rparr>)) (
         thn (unlock Lptable) (
         bnd kalloc (\<lambda>k.
         thn (set_proc i (\<lambda>p. p\<lparr>p_kstack := k\<rparr>)) (
         if k = 0 then thn (set_proc i (\<lambda>p. p\<lparr>p_state := UNUSED\<rparr>)) (ret None)
         else
           bnd (asks (\<lambda>s. read_frame (phys s) (k + KSTACKSIZE - 76))) (\<lambda>tf.
           thn (set_proc i (\<lambda>p. p\<lparr>p_tf := tf, p_ctx := AtForkret\<rparr>))
               (ret (Some i)))))))))))"

section \<open>Switching\<close>

definition switchuvm :: "nat \<Rightarrow> ('z sched_state_scheme, switch, unit) prog" where
  "switchuvm i =
     bnd curproc (\<lambda>c.
     bnd (get_proc c) (\<lambda>q.
     thn (upd (\<lambda>s. s\<lparr>esp0 := p_kstack q + KSTACKSIZE\<rparr>)) (
     bnd (get_proc i) (\<lambda>p.
     if p_pgdir p = 0 then panic ''switchuvm: no pgdir''
     else upd (\<lambda>s. s\<lparr>cr3 := p_pgdir p\<rparr>)))))"

definition switchkvm :: "('z sched_state_scheme, switch, unit) prog" where
  "switchkvm = upd (\<lambda>s. s\<lparr>cr3 := kpgdir s\<rparr>)"

text \<open>
  \<open>sched\<close> leaves the kernel thread: the scheduler continues with \<open>ptable.lock\<close> held.  Every
  lock held is one \<open>pushcli\<close>, so \<open>ncli = 1\<close> says that \<open>ptable.lock\<close> is the only one.
\<close>

definition sched :: "switch \<Rightarrow> ('z sched_state_scheme, switch, 'a) prog" where
  "sched sw =
     bnd (asks held) (\<lambda>h.
     if Lptable \<notin> h then panic ''sched ptable.lock''
     else if h \<noteq> {Lptable} then panic ''sched locks''
     else bnd curproc (\<lambda>c.
     bnd (get_proc c) (\<lambda>p.
     if p_state p = RUNNING then panic ''sched running''
     else thn (set_proc c (\<lambda>p. p\<lparr>p_ctx := AtSched\<rparr>)) (block_on sw))))"

definition yield :: "('z sched_state_scheme, switch, 'a) prog" where
  "yield =
     thn (lock Lptable) (
     bnd curproc (\<lambda>c.
     thn (set_proc c (\<lambda>p. p\<lparr>p_state := RUNNABLE\<rparr>))
         (sched SwYield)))"

definition sleep :: "chan \<Rightarrow> lockid \<Rightarrow> ('z sched_state_scheme, switch, 'a) prog" where
  "sleep c lk =
     bnd (asks cur) (\<lambda>me.
     case me of
       None \<Rightarrow> panic ''sleep''
     | Some i \<Rightarrow>
         thn (whenP (lk \<noteq> Lptable) (thn (lock Lptable) (unlock lk))) (
         thn (set_proc i (\<lambda>p. p\<lparr>p_chan := Some c, p_state := SLEEPING\<rparr>))
             (sched (SwSleep c lk))))"

text \<open>What \<open>sleep\<close>, \<open>yield\<close> and \<open>forkret\<close> do when the scheduler has switched back.\<close>

definition resume :: "switch \<Rightarrow> ('z sched_state_scheme, switch, unit) prog" where
  "resume sw =
     (case sw of
        SwYield \<Rightarrow> unlock Lptable
      | SwExit \<Rightarrow> panic ''zombie exit''
      | SwSleep c lk \<Rightarrow>
          bnd curproc (\<lambda>i.
          thn (set_proc i (\<lambda>p. p\<lparr>p_chan := None\<rparr>))
              (whenP (lk \<noteq> Lptable) (thn (unlock Lptable) (lock lk)))))"

definition forkret :: "('z sched_state_scheme, switch, unit) prog" where
  "forkret = unlock Lptable"

definition wake :: "chan \<Rightarrow> proc \<Rightarrow> proc" where
  "wake c p = (if p_state p = SLEEPING \<and> p_chan p = Some c then p\<lparr>p_state := RUNNABLE\<rparr> else p)"

definition wakeup1 :: "chan \<Rightarrow> ('z sched_state_scheme, switch, unit) prog" where
  "wakeup1 c = upd (\<lambda>s. s\<lparr>ptable := map (wake c) (ptable s)\<rparr>)"

definition wakeup :: "chan \<Rightarrow> ('z sched_state_scheme, switch, unit) prog" where
  "wakeup c = thn (lock Lptable) (thn (wakeup1 c) (unlock Lptable))"

definition kill :: "u32 \<Rightarrow> ('z sched_state_scheme, switch, int) prog" where
  "kill pid =
     thn (lock Lptable) (
     bnd (asks (\<lambda>s. find (\<lambda>i. p_pid (ptable s ! i) = pid) [0..<NPROC])) (\<lambda>found.
     case found of
       None \<Rightarrow> thn (unlock Lptable) (ret (- 1))
     | Some i \<Rightarrow>
         thn (set_proc i (\<lambda>p. p\<lparr>p_killed := True\<rparr>)) (
         bnd (get_proc i) (\<lambda>p.
         thn (whenP (p_state p = SLEEPING) (set_proc i (\<lambda>p. p\<lparr>p_state := RUNNABLE\<rparr>))) (
         thn (unlock Lptable) (ret 0))))))"

text \<open>
  One turn of the scheduler's inner loop from slot \<open>k\<close> on, with \<open>ptable.lock\<close> held: the next
  runnable process starts and its slot is the result, or the pass is over.  \<open>sched_back\<close> is
  what follows when the process has switched back.
\<close>

definition sched_pick :: "nat \<Rightarrow> ('z sched_state_scheme, switch, nat option) prog" where
  "sched_pick k =
     bnd (asks (\<lambda>s. find (\<lambda>i. p_state (ptable s ! i) = RUNNABLE) [k..<NPROC])) (\<lambda>found.
     case found of
       None \<Rightarrow> thn (unlock Lptable) (ret None)
     | Some i \<Rightarrow>
         thn (upd (\<lambda>s. s\<lparr>cur := Some i\<rparr>)) (
         thn (switchuvm i) (
         thn (set_proc i (\<lambda>p. p\<lparr>p_state := RUNNING\<rparr>)) (ret (Some i)))))"

definition sched_back :: "('z sched_state_scheme, switch, unit) prog" where
  "sched_back = thn switchkvm (upd (\<lambda>s. s\<lparr>cur := None\<rparr>))"

section \<open>Growing memory\<close>

definition share_sz :: "u32 \<Rightarrow> u32 \<Rightarrow> proc \<Rightarrow> proc" where
  "share_sz d sz p = (if p_pgdir p = d then p\<lparr>p_sz := sz\<rparr> else p)"

definition growproc :: "u32 \<Rightarrow> ('z sched_state_scheme, switch, int) prog" where
  "growproc n =
     thn (lock Lptable) (
     bnd curproc (\<lambda>c.
     bnd (get_proc c) (\<lambda>p.
     bnd (if 0 < sint n then allocuvm (p_pgdir p) (p_sz p) (p_sz p + n)
          else if sint n < 0 then deallocuvm (p_pgdir p) (p_sz p) (p_sz p + n)
          else ret (p_sz p)) (\<lambda>sz.
     if n \<noteq> 0 \<and> sz = 0 then thn (unlock Lptable) (ret (- 1))
     else
       thn (upd (\<lambda>s. s\<lparr>ptable := map (share_sz (p_pgdir p) sz) (ptable s)\<rparr>)) (
       thn (unlock Lptable) (
       thn (switchuvm c) (ret 0)))))))"

section \<open>Calculating with the process table\<close>

lemma wp_set_proc [simp]:
  "wp (set_proc i f) Q s = Q () (s\<lparr>ptable := (ptable s)[i := f (ptable s ! i)]\<rparr>)"
  "wlp (set_proc i f) Q B s = Q () (s\<lparr>ptable := (ptable s)[i := f (ptable s ! i)]\<rparr>)"
  by (simp_all add: set_proc_def)

lemma wp_get_proc [simp]:
  "wp (get_proc i) Q s = Q (ptable s ! i) s" "wlp (get_proc i) Q B s = Q (ptable s ! i) s"
  by (simp_all add: get_proc_def)

lemma wp_curproc [simp]:
  "wp curproc Q s = (case cur s of None \<Rightarrow> False | Some i \<Rightarrow> Q i s)"
  "wlp curproc Q B s = (case cur s of None \<Rightarrow> False | Some i \<Rightarrow> Q i s)"
  by (simp_all add: curproc_def split: option.splits)

lemma wp_sched [simp]:
  "wlp (sched sw) Q B s \<longleftrightarrow> held s = {Lptable} \<and> (\<exists>i. cur s = Some i \<and> p_state (ptable s ! i) \<noteq> RUNNING
     \<and> B sw (s\<lparr>ptable := (ptable s)[i := (ptable s ! i)\<lparr>p_ctx := AtSched\<rparr>]\<rparr>))"
  by (auto simp: sched_def split: option.splits)

lemma wp_wakeup [simp]:
  "wp (wakeup c) Q s \<longleftrightarrow> Lptable \<notin> held s \<and> Q () (s\<lparr>ptable := map (wake c) (ptable s)\<rparr>)"
  "wlp (wakeup c) Q B s \<longleftrightarrow> Lptable \<notin> held s \<and> Q () (s\<lparr>ptable := map (wake c) (ptable s)\<rparr>)"
  by (auto simp: wakeup_def wakeup1_def)

text \<open>\<open>sleep\<close> gives up the condition's lock and leaves the process asleep on the channel.\<close>

definition asleep :: "chan \<Rightarrow> proc \<Rightarrow> proc" where
  "asleep c p = p\<lparr>p_chan := Some c, p_state := SLEEPING, p_ctx := AtSched\<rparr>"

lemma wlp_sleep:
  assumes "cur s = Some i" "held s = {lk}" "i < length (ptable s)"
  shows "wlp (sleep c lk) Q B s =
    B (SwSleep c lk) (s\<lparr>held := {Lptable}, ptable := (ptable s)[i := asleep c (ptable s ! i)]\<rparr>)"
  using assms by (cases "lk = Lptable") (simp_all add: sleep_def asleep_def insert_Diff_if)

lemma wlp_wp: "wp m Q s \<Longrightarrow> wlp m Q B s"
  by (simp add: wp_def wlp_def split: outcome.splits)

text \<open>The fields of the process table are untouched by the memory operations.\<close>

lemma sched_mem_only:
  fixes s :: "'z sched_state_scheme"
  assumes "t = s\<lparr>phys := p, freelist := f\<rparr>"
  shows "ptable t = ptable s" "nextpid t = nextpid s" "cur t = cur s" "cr3 t = cr3 s"
    "initproc t = initproc s" "kpgdir t = kpgdir s" "esp0 t = esp0 s"
  using assms by simp_all

lemma find_cases:
  "(\<forall>x \<in> set xs. \<not> P x \<Longrightarrow> R None) \<Longrightarrow> (\<And>x. x \<in> set xs \<Longrightarrow> P x \<Longrightarrow> R (Some x)) \<Longrightarrow> R (find P xs)"
  by (induction xs) auto

lemma find_first:
  "find P [k..<n] = Some i \<Longrightarrow> k \<le> i \<and> i < n \<and> P i \<and> (\<forall>j. k \<le> j \<longrightarrow> j < i \<longrightarrow> \<not> P j)"
proof (induction "n - k" arbitrary: k)
  case 0
  then show ?case by simp
next
  case (Suc m)
  then have up: "[k..<n] = k # [Suc k..<n]" by (simp add: upt_rec)
  show ?case
  proof (cases "P k")
    case True
    then show ?thesis using Suc.prems Suc.hyps(2) by (simp add: up)
  next
    case False
    then have "find P [Suc k..<n] = Some i" using Suc.prems by (simp add: up)
    then have "Suc k \<le> i \<and> i < n \<and> P i \<and> (\<forall>j. Suc k \<le> j \<longrightarrow> j < i \<longrightarrow> \<not> P j)"
      using Suc.hyps by (intro Suc.hyps(1)) simp_all
    moreover from this False have "\<forall>j. k \<le> j \<longrightarrow> j < i \<longrightarrow> \<not> P j"
      by (metis Suc_leI le_neq_implies_less)
    ultimately show ?thesis by simp
  qed
qed

text \<open>The free pages are a property of memory alone.\<close>

lemma free_pages_fields [simp]:
  "free_pages (s\<lparr>ptable := pt\<rparr>) F = free_pages s F"
  "free_pages (s\<lparr>nextpid := n\<rparr>) F = free_pages s F"
  "free_pages (s\<lparr>cur := c\<rparr>) F = free_pages s F"
  "free_pages (u\<lparr>held := h\<rparr>) F = free_pages u F"
  by (simp_all add: free_pages_def kmem_inv_def)

definition free_mem :: "mem \<Rightarrow> u32 \<Rightarrow> u32 \<Rightarrow> u32 set \<Rightarrow> bool" where
  "free_mem m f e F \<longleftrightarrow> e \<noteq> 0 \<and> (\<exists>xs. set xs = F \<and> flist m f xs \<and> distinct xs \<and> (\<forall>x \<in> set xs. page_ok e x))"

lemma free_pages_eq: "free_pages s F = free_mem (phys s) (freelist s) (kend s) F"
  by (auto simp: free_pages_def free_mem_def kmem_inv_def)

lemma as_inv_eq:
  "as_inv d s F \<longleftrightarrow> free_mem (phys s) (freelist s) (kend s) F \<and> pt_wf (phys s) d F \<and> Lkmem \<notin> held s
     \<and> present (pde_at (phys s) d 0) \<and> user_wf (phys s) d F (kend s)"
  by (auto simp: as_inv_def vm_inv_def free_pages_eq)

lemma find_unused_held [simp]: "find_unused (s\<lparr>held := h\<rparr>) = find_unused s"
  by (simp add: find_unused_def)

text \<open>Any frame of the memory operations keeps the process table.\<close>

lemma as_frame_sched:
  fixes s :: "'z sched_state_scheme"
  assumes "as_frame d R s t"
  shows "ptable t = ptable s" "cur t = cur s" "held t = held s" "kend t = kend s"
proof -
  have "t = s\<lparr>phys := phys t, freelist := freelist t\<rparr>"
    using assms unfolding as_frame_def by (rule conjunct1)
  then show "ptable t = ptable s" "cur t = cur s" "held t = held s" "kend t = kend s"
    by (rule sched_mem_only mem_only)+
qed

definition ptable_ok :: "'z sched_state_scheme \<Rightarrow> bool" where
  "ptable_ok s \<longleftrightarrow> length (ptable s) = NPROC"

section \<open>The slot of a new process\<close>

definition embryo :: "proc \<Rightarrow> u32 \<Rightarrow> u32 \<Rightarrow> trapframe \<Rightarrow> proc" where
  "embryo p pid k tf = p\<lparr>p_state := EMBRYO, p_pid := pid, p_kstack := k, p_tf := tf, p_ctx := AtForkret\<rparr>"

lemma wp_allocproc:
  assumes s: "free_pages s F" "held s = {}" "ptable_ok s"
    and none: "\<And>ps n. \<lbrakk>\<forall>j < NPROC. ps ! j = ptable s ! j \<or> p_state (ptable s ! j) = UNUSED \<and> p_state (ps ! j) = UNUSED\<rbrakk> \<Longrightarrow>
      Q None (s\<lparr>ptable := ps, nextpid := n\<rparr>)"
    and some: "\<And>i k f tf. \<lbrakk>i < NPROC; p_state (ptable s ! i) = UNUSED; k \<in> F; k \<noteq> 0; free_pages (s\<lparr>freelist := f\<rparr>) (F - {k})\<rbrakk> \<Longrightarrow>
      Q (Some i) (s\<lparr>freelist := f, ptable := (ptable s)[i := embryo (ptable s ! i) (nextpid s) k tf], nextpid := nextpid s + 1\<rparr>)"
  shows "wp allocproc Q s"
proof (cases "find_unused s")
  case None
  have "Q None (s\<lparr>ptable := ptable s, nextpid := nextpid s\<rparr>)" by (rule none) simp
  then show ?thesis using None s by (simp add: allocproc_def insert_minus_same)
next
  case (Some i)
  then have i: "i < NPROC" "p_state (ptable s ! i) = UNUSED"
    using find_first by (auto simp: find_unused_def)
  let ?p = "(ptable s ! i)\<lparr>p_state := EMBRYO, p_pid := nextpid s\<rparr>"
  let ?s = "s\<lparr>ptable := (ptable s)[i := ?p], nextpid := nextpid s + 1\<rparr>"
  have len: "i < length (ptable s)" using i(1) s(3) by (simp add: ptable_ok_def)
  have h: "s\<lparr>held := {}\<rparr> = s" using s(2) by simp
  have "wp kalloc (\<lambda>k. wp (thn (set_proc i (\<lambda>p. p\<lparr>p_kstack := k\<rparr>)) (
         if k = 0 then thn (set_proc i (\<lambda>p. p\<lparr>p_state := UNUSED\<rparr>)) (ret None)
         else
           bnd (asks (\<lambda>s. read_frame (phys s) (k + KSTACKSIZE - 76))) (\<lambda>tf.
           thn (set_proc i (\<lambda>p. p\<lparr>p_tf := tf, p_ctx := AtForkret\<rparr>))
               (ret (Some i))))) Q) ?s"
  proof (rule wp_kalloc_set [of _ F])
    have "Q None (s\<lparr>ptable := (ptable s)[i := ?p\<lparr>p_kstack := 0, p_state := UNUSED\<rparr>], nextpid := nextpid s + 1\<rparr>)"
      using i len by (intro none) (auto simp: nth_list_update)
    moreover have "?s\<lparr>ptable := (ptable s)[i := ?p\<lparr>p_kstack := 0, p_state := UNUSED\<rparr>]\<rparr>
        = s\<lparr>ptable := (ptable s)[i := ?p\<lparr>p_kstack := 0, p_state := UNUSED\<rparr>], nextpid := nextpid s + 1\<rparr>" by simp
    ultimately have "Q None (?s\<lparr>ptable := (ptable s)[i := ?p\<lparr>p_kstack := 0, p_state := UNUSED\<rparr>]\<rparr>)" by (simp only:)
    then show "wp (thn (set_proc i (\<lambda>p. p\<lparr>p_kstack := 0\<rparr>)) (
         if (0 :: u32) = 0 then thn (set_proc i (\<lambda>p. p\<lparr>p_state := UNUSED\<rparr>)) (ret None)
         else
           bnd (asks (\<lambda>s. read_frame (phys s) (0 + KSTACKSIZE - 76))) (\<lambda>tf.
           thn (set_proc i (\<lambda>p. p\<lparr>p_tf := tf, p_ctx := AtForkret\<rparr>))
               (ret (Some i))))) Q ?s"
      using len by simp
  next
    fix v f
    assume v: "v \<in> F" "v \<noteq> 0" "page_aligned v" "free_pages (?s\<lparr>freelist := f\<rparr>) (F - {v})"
    let ?tf = "read_frame (phys s) (v + KSTACKSIZE - 76)"
    have "Q (Some i) (s\<lparr>freelist := f, ptable := (ptable s)[i := embryo (ptable s ! i) (nextpid s) v ?tf], nextpid := nextpid s + 1\<rparr>)"
      using v i by (intro some) (simp_all add: free_pages_eq)
    moreover have "?s\<lparr>freelist := f\<rparr>\<lparr>ptable := (ptable s)[i := embryo (ptable s ! i) (nextpid s) v ?tf]\<rparr>
        = s\<lparr>freelist := f, ptable := (ptable s)[i := embryo (ptable s ! i) (nextpid s) v ?tf], nextpid := nextpid s + 1\<rparr>" by simp
    ultimately have "Q (Some i) (?s\<lparr>freelist := f\<rparr>\<lparr>ptable := (ptable s)[i := embryo (ptable s ! i) (nextpid s) v ?tf]\<rparr>)" by (simp only:)
    then show "wp (thn (set_proc i (\<lambda>p. p\<lparr>p_kstack := v\<rparr>)) (
         if v = 0 then thn (set_proc i (\<lambda>p. p\<lparr>p_state := UNUSED\<rparr>)) (ret None)
         else
           bnd (asks (\<lambda>s. read_frame (phys s) (v + KSTACKSIZE - 76))) (\<lambda>tf.
           thn (set_proc i (\<lambda>p. p\<lparr>p_tf := tf, p_ctx := AtForkret\<rparr>))
               (ret (Some i))))) Q (?s\<lparr>freelist := f\<rparr>)"
      using len v(2) by (simp add: embryo_def)
  qed (use s in simp_all)
  then show ?thesis
    using Some s len by (simp add: allocproc_def h)
qed

section \<open>Properties\<close>

text \<open>\<open>allocproc\<close> either returns no slot, and then no process has appeared: every slot is as
  it was, except that the slot it tried is unused again; or it returns a slot that was unused,
  now an embryo with the next process id and a kernel stack of its own taken from the free
  pages, and every other slot is as it was.  The lock is released in both cases.\<close>

theorem allocproc_fresh_slot:
  assumes "free_pages s F" "held s = {}" "ptable_ok s"
  shows "wp allocproc (\<lambda>r t. held t = {} \<and> (case r of
      None \<Rightarrow> free_pages t F \<and> (\<forall>j < NPROC. ptable t ! j = ptable s ! j \<or>
          p_state (ptable s ! j) = UNUSED \<and> p_state (ptable t ! j) = UNUSED)
    | Some i \<Rightarrow> i < NPROC \<and> p_state (ptable s ! i) = UNUSED \<and> p_state (ptable t ! i) = EMBRYO
        \<and> p_pid (ptable t ! i) = nextpid s \<and> nextpid t = nextpid s + 1
        \<and> p_kstack (ptable t ! i) \<in> F \<and> free_pages t (F - {p_kstack (ptable t ! i)})
        \<and> (\<forall>j. j \<noteq> i \<longrightarrow> ptable t ! j = ptable s ! j))) s"
  using assms by (intro wp_allocproc) (auto simp: ptable_ok_def embryo_def free_pages_eq)

text \<open>A process and a thread of it in the address space \<open>one_space\<close>; the other slots are unused.\<close>

definition zero_frame :: trapframe where
  "zero_frame = \<lparr>tf_edi = 0, tf_esi = 0, tf_ebp = 0, tf_oesp = 0, tf_ebx = 0, tf_edx = 0, tf_ecx = 0,
     tf_eax = 0, tf_gs = 0, tf_fs = 0, tf_es = 0, tf_ds = 0, tf_trapno = 0, tf_err = 0, tf_eip = 0,
     tf_cs = 0, tf_eflags = 0, tf_esp = 0, tf_ss = 0\<rparr>"

definition unused_proc :: proc where
  "unused_proc = \<lparr>p_sz = 0, p_pgdir = 0, p_kstack = 0, p_tstack = 0, p_state = UNUSED, p_pid = 0,
     p_parent = None, p_tf = zero_frame, p_ctx = AtForkret, p_chan = None, p_killed = False,
     p_ofile = replicate NOFILE None, p_cwd = None, p_name = []\<rparr>"

definition user_proc :: "nat \<Rightarrow> nat option \<Rightarrow> procstate \<Rightarrow> proc" where
  "user_proc pid par st = unused_proc\<lparr>p_pgdir := 0x500000, p_kstack := 0x700000 + of_nat pid * PGSIZE,
     p_state := st, p_pid := of_nat pid, p_parent := par, p_cwd := Some 0\<rparr>"

definition two_threads :: sched_state where
  "two_threads = kmem_state.extend one_space
     \<lparr>ptable = user_proc 1 None RUNNING # user_proc 2 (Some 0) RUNNABLE # replicate 62 unused_proc,
      nextpid = 3, initproc = Some 0, cur = Some 0, cr3 = 0x500000, esp0 = 0, kpgdir = 0\<rparr>"

lemma two_threads_simps [simp]:
  "phys two_threads = phys one_space" "freelist two_threads = freelist one_space"
  "kend two_threads = kend one_space" "held two_threads = {}" "cur two_threads = Some 0"
  "nextpid two_threads = 3" "initproc two_threads = Some 0"
  "ptable two_threads = user_proc 1 None RUNNING # user_proc 2 (Some 0) RUNNABLE # replicate 62 unused_proc"
  by (simp_all add: two_threads_def kmem_state.defs one_space_def two_free_dir_def two_free_def)

lemma user_proc_simps [simp]:
  "p_pgdir (user_proc n p st) = 0x500000" "p_sz (user_proc n p st) = 0" "p_state (user_proc n p st) = st"
  "p_parent (user_proc n p st) = p" "p_chan (user_proc n p st) = None" "p_killed (user_proc n p st) = False"
  "p_pid (user_proc n p st) = of_nat n"
  by (simp_all add: user_proc_def unused_proc_def)

lemma two_threads_inv: "as_inv 0x500000 two_threads {0x400000}" "free_pages two_threads {0x400000}"
  using one_space_inv(1) by (simp_all add: as_inv_eq free_pages_eq)

theorem allocproc_fresh_slot_witness:
  "wp allocproc (\<lambda>r t. held t = {} \<and> (case r of
      None \<Rightarrow> free_pages t {0x400000} \<and> (\<forall>j < NPROC. ptable t ! j = ptable two_threads ! j \<or>
          p_state (ptable two_threads ! j) = UNUSED \<and> p_state (ptable t ! j) = UNUSED)
    | Some i \<Rightarrow> i < NPROC \<and> p_state (ptable two_threads ! i) = UNUSED \<and> p_state (ptable t ! i) = EMBRYO
        \<and> p_pid (ptable t ! i) = nextpid two_threads \<and> nextpid t = nextpid two_threads + 1
        \<and> p_kstack (ptable t ! i) \<in> {0x400000} \<and> free_pages t ({0x400000} - {p_kstack (ptable t ! i)})
        \<and> (\<forall>j. j \<noteq> i \<longrightarrow> ptable t ! j = ptable two_threads ! j))) two_threads"
  by (rule allocproc_fresh_slot [OF two_threads_inv(2)]) (simp_all add: ptable_ok_def NPROC_def)

text \<open>The allocation that \<open>growproc\<close> asks for by a positive amount, beyond \<open>USERTOP\<close> too.\<close>

lemma wp_allocuvm_grow:
  assumes inv: "as_inv d s F" and sz: "sz \<le> USERTOP" and n: "0 < sint n"
    and un: "\<forall>va. in_span (PGROUNDUP sz) USERTOP va \<longrightarrow> lookup (phys s) d va = None"
    and full: "\<And>t. fresh_pages d F s t (in_span (PGROUNDUP sz) (sz + n)) \<Longrightarrow> Q (sz + n) t"
    and short: "\<And>t. rolled_back d F s t \<Longrightarrow> Q 0 t"
  shows "wp (allocuvm d sz (sz + n)) Q s" and "sz + n \<noteq> 0"
proof -
  have "unat sz \<le> 655360" "0 < unat n" "unat n < 2147483648"
    using sz n by (auto simp: word_le_nat_alt USERTOP_def sint_u32_sign)
  then have new: "unat (sz + n) = unat sz + unat n" "0 < unat n" by (auto intro!: unat_add_small)
  then show "sz + n \<noteq> 0" by (auto simp: word_unat_eq_iff)
  show "wp (allocuvm d sz (sz + n)) Q s"
  proof (cases "USERTOP < sz + n")
    case True
    then show ?thesis using short [of s] inv by (simp add: allocuvm_def rolled_back_def)
  next
    case False
    then have le: "sz + n \<le> USERTOP" "sz \<le> sz + n"
      by (simp_all only: not_less) (simp add: word_le_nat_alt new(1))
    have span: "span_of (pages_upto (PGROUNDUP sz) (sz + n)) = in_span (PGROUNDUP sz) (sz + n)"
      using pages_upto_span [OF page_aligned_up] by (simp add: fun_eq_iff span_of_def)
    have "lookup (phys s) d va = None" if "in_span (PGROUNDUP sz) (sz + n) va" for va
      using that un le(1) by (auto simp: in_span_def word_le_nat_alt)
    then have "wp (allocuvm d sz (sz + n)) (alloc_post d F s (pages_upto (PGROUNDUP sz) (sz + n)) (sz + n)) s"
      by (intro wp_allocuvm [OF inv le(2,1)])
    then show ?thesis by (rule wp_mono) (use full short in \<open>auto simp: alloc_post_def span\<close>)
  qed
qed

text \<open>A successful \<open>growproc\<close> by a positive amount gives every process and thread that
  shares the page directory the new size, and no other slot anything; the new pages are
  mapped, older translations kept.  When it fails it returns -1 with the process table, the
  translation and the free pages as before.\<close>

theorem growproc_grows_all_threads:
  assumes "held s = {}" "cur s = Some c" "as_inv (p_pgdir (ptable s ! c)) s F" "p_pgdir (ptable s ! c) \<noteq> 0"
    and "c < length (ptable s)" "p_sz (ptable s ! c) \<le> USERTOP" "0 < sint n"
    and "\<forall>va. in_span (PGROUNDUP (p_sz (ptable s ! c))) USERTOP va \<longrightarrow>
           lookup (phys s) (p_pgdir (ptable s ! c)) va = None"
  shows "wp (growproc n) (\<lambda>r t. held t = {} \<and>
      ((r = 0 \<and> ptable t = map (share_sz (p_pgdir (ptable s ! c)) (p_sz (ptable s ! c) + n)) (ptable s)
         \<and> cr3 t = p_pgdir (ptable s ! c) \<and> (\<exists>G \<subseteq> F. as_inv (p_pgdir (ptable s ! c)) t G)
         \<and> (\<forall>va. if in_span (PGROUNDUP (p_sz (ptable s ! c))) (p_sz (ptable s ! c) + n) va
              then lookup (phys t) (p_pgdir (ptable s ! c)) va \<noteq> None
              else lookup (phys t) (p_pgdir (ptable s ! c)) va = lookup (phys s) (p_pgdir (ptable s ! c)) va))
       \<or> (r = - 1 \<and> ptable t = ptable s \<and> as_inv (p_pgdir (ptable s ! c)) t F
         \<and> (\<forall>va. lookup (phys t) (p_pgdir (ptable s ! c)) va = lookup (phys s) (p_pgdir (ptable s ! c)) va)))) s"
proof -
  let ?d = "p_pgdir (ptable s ! c)" and ?sz = "p_sz (ptable s ! c)"
  let ?s = "s\<lparr>held := {Lptable}\<rparr>" and ?new = "p_sz (ptable s ! c) + n"
  let ?Q = "\<lambda>r t. held t = {} \<and>
      ((r = 0 \<and> ptable t = map (share_sz ?d ?new) (ptable s) \<and> cr3 t = ?d \<and> (\<exists>G \<subseteq> F. as_inv ?d t G)
         \<and> (\<forall>va. if in_span (PGROUNDUP ?sz) ?new va then lookup (phys t) ?d va \<noteq> None
              else lookup (phys t) ?d va = lookup (phys s) ?d va))
       \<or> (r = - 1 \<and> ptable t = ptable s \<and> as_inv ?d t F
         \<and> (\<forall>va. lookup (phys t) ?d va = lookup (phys s) ?d va)))"
  let ?rest = "\<lambda>sz. if n \<noteq> 0 \<and> sz = 0 then thn (unlock Lptable) (ret (- 1))
     else thn (upd (\<lambda>s. s\<lparr>ptable := map (share_sz ?d sz) (ptable s)\<rparr>)) (
          thn (unlock Lptable) (thn (switchuvm c) (ret 0)))"
  have n: "n \<noteq> 0" using assms(7) by auto
  have inv: "as_inv ?d ?s F" using assms(1,3) by (simp add: as_inv_eq)
  note grow = wp_allocuvm_grow [OF inv assms(6,7), where Q = "\<lambda>sz. wp (?rest sz) ?Q"]
  have nz: "?new \<noteq> 0" using wp_allocuvm_grow(2) [OF inv assms(6,7), where Q = "\<lambda>_ _. True"] assms(8) by simp
  have "wp (allocuvm ?d ?sz ?new) (\<lambda>sz. wp (?rest sz) ?Q) ?s"
  proof (rule grow(1))
    fix t assume 1: "fresh_pages ?d F ?s t (in_span (PGROUNDUP ?sz) ?new)"
    then obtain G where G: "G \<subseteq> F" "as_inv ?d t G" by (auto simp: fresh_pages_def)
    have fr: "as_frame ?d F ?s t" using 1 by (simp add: fresh_pages_def)
    have "share_sz ?d ?new (ptable s ! c) = (ptable s ! c)\<lparr>p_sz := ?new\<rparr>" by (simp add: share_sz_def)
    moreover have "\<forall>va. if in_span (PGROUNDUP ?sz) ?new va then lookup (phys t) ?d va \<noteq> None
          else lookup (phys t) ?d va = lookup (phys s) ?d va"
      using 1 by (auto simp: fresh_pages_def)
    moreover have "\<exists>G\<subseteq>F. free_mem (phys t) (freelist t) (kend t) G \<and> pt_wf (phys t) ?d G
        \<and> present (pde_at (phys t) ?d 0) \<and> user_wf (phys t) ?d G (kend t)"
      using G by (auto simp: as_inv_eq)
    ultimately show "wp (?rest ?new) ?Q t"
      using nz assms(2,4,5) as_frame_sched [OF fr] by (simp add: switchuvm_def as_inv_eq)
  next
    fix t assume "rolled_back ?d F ?s t"
    then have fr: "as_frame ?d F ?s t" "as_inv ?d t F" "\<And>va. lookup (phys t) ?d va = lookup (phys s) ?d va"
      by (auto simp: rolled_back_def)
    then show "wp (?rest 0) ?Q t" using n as_frame_sched [OF fr(1)] by (simp add: as_inv_eq)
  qed (use assms(8) in simp)
  then show ?thesis
    using assms(1,2,7) by (simp add: growproc_def cong: if_cong)
qed

theorem growproc_grows_all_threads_witness:
  "wp (growproc 0x800) (\<lambda>r t. held t = {} \<and>
      (r = 0 \<and> p_sz (ptable t ! 0) = 0x800 \<and> p_sz (ptable t ! 1) = 0x800 \<and> lookup (phys t) 0x500000 0 \<noteq> None
       \<or> r = - 1 \<and> ptable t = ptable two_threads)) two_threads"
proof -
  have span: "in_span (PGROUNDUP 0) 0x800 0"
    by (simp add: in_span_def PGROUNDUP_def PGSIZE_def page_no_def)
  have "0 < sint (0x800 :: u32)" by (simp add: sint_u32_sign)
  then show ?thesis
    using growproc_grows_all_threads [of two_threads 0 "{0x400000}" "0x800"] two_threads_inv(1) span
    by (auto elim!: wp_mono simp: one_space_inv(3) share_sz_def dest: spec [of _ 0])
qed

text \<open>Finding of \<open>growproc\<close>: shrinking a process by its whole size (\<open>sbrk(-sz)\<close>) unmaps all its
  pages but reports failure and leaves every recorded size as it was.\<close>

theorem growproc_to_zero_reports_failure:
  assumes "held s = {}" "cur s = Some c" "as_inv (p_pgdir (ptable s ! c)) s F"
    and "0 < p_sz (ptable s ! c)" "p_sz (ptable s ! c) \<le> USERTOP"
  shows "wp (growproc (- p_sz (ptable s ! c))) (\<lambda>r t. r = - 1 \<and> ptable t = ptable s
      \<and> (\<forall>va. in_span 0 (p_sz (ptable s ! c)) va \<longrightarrow> lookup (phys t) (p_pgdir (ptable s ! c)) va = None)) s"
proof -
  let ?d = "p_pgdir (ptable s ! c)" and ?sz = "p_sz (ptable s ! c)"
  let ?s = "s\<lparr>held := {Lptable}\<rparr>"
  have inv: "as_inv ?d ?s F" using assms(1,3) by (simp add: as_inv_eq)
  have sz: "0 < unat ?sz" "unat ?sz \<le> 655360"
    using assms(4,5) by (simp_all add: word_le_nat_alt word_less_nat_alt USERTOP_def)
  then have "unat (0 - ?sz) = 4294967296 - unat ?sz"
    unfolding unat_sub_word by simp
  then have "unat (- ?sz) = 4294967296 - unat ?sz" by simp
  then have n: "sint (- ?sz) < 0" "\<not> 0 < sint (- ?sz)" "- ?sz \<noteq> 0"
    using sz by (simp_all add: sint_u32_sign word_unat_eq_iff)
  have up: "PGROUNDUP 0 = 0" by (simp add: PGROUNDUP_def PGSIZE_def)
  have "wp (deallocuvm ?d ?sz 0) (\<lambda>r t. r = 0 \<and> ptable t = ptable s \<and> held t = {Lptable}
      \<and> (\<forall>va. in_span 0 ?sz va \<longrightarrow> lookup (phys t) ?d va = None)) ?s"
    using assms(4,5) as_frame_sched
    by (intro wp_deallocuvm [OF inv]) (auto simp: up dest: as_frame_sched)
  then have "wp (deallocuvm ?d ?sz 0) (\<lambda>sz. wp (if - ?sz \<noteq> 0 \<and> sz = 0 then thn (unlock Lptable) (ret (- 1))
     else thn (upd (\<lambda>s. s\<lparr>ptable := map (share_sz ?d sz) (ptable s)\<rparr>)) (
          thn (unlock Lptable) (thn (switchuvm c) (ret 0))))
     (\<lambda>r t. r = - 1 \<and> ptable t = ptable s
        \<and> (\<forall>va. in_span 0 ?sz va \<longrightarrow> lookup (phys t) ?d va = None))) ?s"
    by (rule wp_mono) (use n(3) in auto)
  then show ?thesis
    using assms(1,2) n by (simp add: growproc_def cong: if_cong)
qed

definition grown_threads :: sched_state where
  "grown_threads = two_threads\<lparr>ptable := map (share_sz 0x500000 0x1000) (ptable two_threads)\<rparr>"

theorem growproc_to_zero_reports_failure_witness:
  "wp (growproc (- 0x1000)) (\<lambda>r t. r = - 1 \<and> p_sz (ptable t ! 0) = 0x1000
      \<and> lookup (phys t) 0x500000 0 = None) grown_threads"
proof -
  have s [simp]: "p_sz (ptable grown_threads ! 0) = 0x1000" "p_pgdir (ptable grown_threads ! 0) = 0x500000"
    by (simp_all add: grown_threads_def share_sz_def)
  have "wp (growproc (- p_sz (ptable grown_threads ! 0))) (\<lambda>r t. r = - 1 \<and> ptable t = ptable grown_threads
      \<and> (\<forall>va. in_span 0 (p_sz (ptable grown_threads ! 0)) va \<longrightarrow>
           lookup (phys t) (p_pgdir (ptable grown_threads ! 0)) va = None)) grown_threads"
  proof (rule growproc_to_zero_reports_failure)
    show "as_inv (p_pgdir (ptable grown_threads ! 0)) grown_threads {0x400000}"
      using two_threads_inv(1) unfolding s by (simp add: as_inv_eq grown_threads_def)
  qed (simp_all only: s, simp_all add: grown_threads_def USERTOP_def)
  then have "wp (growproc (- 0x1000)) (\<lambda>r t. r = - 1 \<and> ptable t = ptable grown_threads
      \<and> (\<forall>va. in_span 0 0x1000 va \<longrightarrow> lookup (phys t) 0x500000 va = None)) grown_threads"
    by (simp only: s)
  then show ?thesis
    by (rule wp_mono) (use s in \<open>auto simp: in_span_def PGSIZE_def page_no_def\<close>)
qed

text \<open>\<open>kill\<close> marks the first slot with the given process id and makes it runnable if it
  sleeps, leaving every other slot alone; when no slot has the id it returns -1 and changes
  nothing.  It does not look at the state of the slot.\<close>

theorem kill_marks_first_match:
  assumes "Lptable \<notin> held s" "ptable_ok s"
  shows "wp (kill pid) (\<lambda>r t. held t = held s \<and>
     ((r = 0 \<and> (\<exists>i < NPROC. p_pid (ptable s ! i) = pid \<and> (\<forall>j < i. p_pid (ptable s ! j) \<noteq> pid)
         \<and> p_killed (ptable t ! i) \<and> p_state (ptable t ! i) \<noteq> SLEEPING
         \<and> (p_state (ptable s ! i) \<noteq> SLEEPING \<longrightarrow> p_state (ptable t ! i) = p_state (ptable s ! i))
         \<and> (\<forall>j. j \<noteq> i \<longrightarrow> ptable t ! j = ptable s ! j)))
      \<or> (r = - 1 \<and> (\<forall>j < NPROC. p_pid (ptable s ! j) \<noteq> pid) \<and> ptable t = ptable s))) s"
proof (cases "find (\<lambda>i. p_pid (ptable s ! i) = pid) [0..<NPROC]")
  case None
  then show ?thesis using assms(1) by (simp add: kill_def) (auto simp: find_None_iff)
next
  case (Some i)
  then have i: "i < NPROC" "p_pid (ptable s ! i) = pid" "\<forall>j < i. p_pid (ptable s ! j) \<noteq> pid"
    using find_first [OF Some] by auto
  have len: "i < length (ptable s)" using i(1) assms(2) by (simp add: ptable_ok_def)
  show ?thesis
    using Some i len assms(1) by (auto simp: kill_def nth_list_update intro!: exI [of _ i])
qed

theorem kill_marks_first_match_witness:
  "wp (kill 2) (\<lambda>r t. held t = {} \<and> (r = 0 \<or> r = - 1)) two_threads"
  by (rule wp_mono [OF kill_marks_first_match]) (auto simp: ptable_ok_def NPROC_def)

text \<open>Finding of \<open>kill\<close> and \<open>allocproc\<close>: an unused slot has process id 0, so \<open>kill(0)\<close>
  succeeds and marks it, and \<open>allocproc\<close> does not clear the mark: the next process is born
  killed.\<close>

theorem kill_zero_poisons_next_process:
  "wp (bnd (kill 0) (\<lambda>_. allocproc))
     (\<lambda>r t. case r of None \<Rightarrow> True | Some i \<Rightarrow> i = 2 \<and> p_state (ptable t ! i) = EMBRYO \<and> p_killed (ptable t ! i))
     two_threads"
proof -
  have up: "[0..<64] = 0 # 1 # 2 # [3..<64]" by (simp add: upt_rec)
  let ?k = "unused_proc\<lparr>p_killed := True\<rparr>"
  let ?t = "two_threads\<lparr>ptable := (ptable two_threads)[2 := ?k]\<rparr>"
  let ?s = "?t\<lparr>ptable := (ptable two_threads)[2 := ?k\<lparr>p_state := EMBRYO, p_pid := 3\<rparr>], nextpid := 4\<rparr>"
  have u [simp]: "p_state unused_proc = UNUSED" "p_pid unused_proc = 0"
    by (simp_all add: unused_proc_def)
  have "ptable two_threads ! 2 = unused_proc" by simp
  then have k: "kill 0 two_threads = Done 0 ?t"
    by (simp add: kill_def NPROC_def up prog_defs lock_def unlock_def set_proc_def get_proc_def)
  have f: "find_unused ?t = Some 2"
    by (simp add: find_unused_def NPROC_def up)
  have "free_pages ?s {0x400000}" using two_threads_inv(2) by (simp add: free_pages_eq)
  then have "wp kalloc (\<lambda>k. wp (thn (set_proc 2 (\<lambda>p. p\<lparr>p_kstack := k\<rparr>)) (
         if k = 0 then thn (set_proc 2 (\<lambda>p. p\<lparr>p_state := UNUSED\<rparr>)) (ret None)
         else
           bnd (asks (\<lambda>s. read_frame (phys s) (k + KSTACKSIZE - 76))) (\<lambda>tf.
           thn (set_proc 2 (\<lambda>p. p\<lparr>p_tf := tf, p_ctx := AtForkret\<rparr>))
               (ret (Some 2)))))
     (\<lambda>r t. case r of None \<Rightarrow> True | Some i \<Rightarrow> i = 2 \<and> p_state (ptable t ! i) = EMBRYO \<and> p_killed (ptable t ! i))) ?s"
    by (rule wp_kalloc_set) simp_all
  then have "wp allocproc
     (\<lambda>r t. case r of None \<Rightarrow> True | Some i \<Rightarrow> i = 2 \<and> p_state (ptable t ! i) = EMBRYO \<and> p_killed (ptable t ! i)) ?t"
    using f by (simp add: allocproc_def)
  then show ?thesis
    using k by (simp add: wp_Done_eq)
qed

end
