(* ===== verification/Ring.thy ===== *)
theory Ring
  imports Prelude
begin

text \<open>
  Ring buffers indexed by free-running 32-bit counters, the representation of pipes and of
  the console's input: the slot of position \<open>i\<close> is \<open>i % SIZE\<close>, and the counters wrap around
  at \<open>2 ^ 32\<close>.  \<open>ring_content\<close> is the queue such a buffer stands for.  The locale \<open>fifo\<close> is the
  contract the clients use.
\<close>

definition ring_content :: "'a list \<Rightarrow> u32 \<Rightarrow> u32 \<Rightarrow> 'a list" where
  "ring_content d r w = map (\<lambda>k. d ! (unat (r + of_nat k) mod length d)) [0..<unat (w - r)]"

lemma ring_length [simp]: "length (ring_content d r w) = unat (w - r)"
  by (simp add: ring_content_def)

lemma ring_empty: "ring_content d r w = [] \<longleftrightarrow> w = r"
  by (simp add: ring_content_def unat_eq_0)

lemma unat_inc: "unat x + 1 < 2 ^ 32 \<Longrightarrow> unat (x + 1 :: u32) = Suc (unat x)"
  by (simp add: unat_word_ariths)

lemma unat_dec: "(x :: u32) \<noteq> 0 \<Longrightarrow> unat x = Suc (unat (x - 1))"
  by (simp add: unat_sub_word word_unat_eq_iff)

lemma unat_counter:
  assumes "N dvd 2 ^ 32"
  shows "unat ((r :: u32) + of_nat k) mod N = (unat r + k) mod N"
proof -
  have "N dvd 4294967296" using assms by simp
  then have "unat (r + of_nat k) mod N = (unat r + k mod 4294967296) mod N"
    by (simp add: unat_word_ariths unat_of_nat mod_mod_cancel)
  also have "\<dots> = (unat r + k mod 4294967296 mod N) mod N" by (simp add: mod_simps)
  also have "k mod 4294967296 mod N = k mod N"
    using \<open>N dvd 4294967296\<close> by (rule mod_mod_cancel)
  finally show ?thesis by (simp add: mod_simps)
qed

lemma mod_distinct: "k < n \<Longrightarrow> n < N \<Longrightarrow> (r + k) mod N \<noteq> (r + n) mod (N :: nat)"
proof
  assume less: "k < n" "n < N" and eq: "(r + k) mod N = (r + n) mod N"
  then have "N dvd (r + n) - (r + k)" by (metis mod_eq_dvd_iff_nat add_le_cancel_left less_imp_le)
  then have "N dvd n - k" by simp
  then show False using less by (auto dest: dvd_imp_le)
qed

lemma ring_put:
  assumes len: "length d dvd 2 ^ 32" and room: "unat (w - r) < length d"
    and d32: "length d < 2 ^ 32"
  shows "ring_content (d[unat w mod length d := b]) r (w + 1) = ring_content d r w @ [b]"
proof -
  let ?n = "unat (w - r)"
  have pos: "0 < length d" using room by (cases d) simp_all
  have n32: "?n + 1 < 2 ^ 32" using room d32 by simp
  have eq: "w + 1 - r = (w - r) + 1" by simp
  have n: "unat (w + 1 - r) = Suc ?n"
    unfolding eq using n32 by (rule unat_inc)
  have w: "w = r + of_nat ?n" by simp
  have wi: "unat w mod length d = (unat r + ?n) mod length d"
    using unat_counter [OF len, of r ?n] by simp
  have "d[unat w mod length d := b] ! (unat (r + of_nat k) mod length d)
      = d ! (unat (r + of_nat k) mod length d)" if "k < ?n" for k
    using that mod_distinct [OF that room, of "unat r"] by (simp add: wi unat_counter [OF len])
  moreover have "d[unat w mod length d := b] ! (unat (r + of_nat ?n) mod length d) = b"
    using pos by simp
  ultimately show ?thesis
    by (simp add: ring_content_def n del: word_of_nat_eq_0_iff)
qed

lemma ring_get:
  assumes "w \<noteq> r"
  shows "ring_content d r w = d ! (unat r mod length d) # ring_content d (r + 1) w"
proof -
  let ?n = "unat (w - (r + 1))"
  have eq: "w - (r + 1) = (w - r) - 1" by simp
  have n: "unat (w - r) = Suc ?n"
    unfolding eq using assms by (intro unat_dec) simp
  have "[0..<unat (w - r)] = 0 # map Suc [0..<?n]"
    by (simp only: n map_Suc_upt upt_conv_Cons)
  then show ?thesis
    by (simp add: ring_content_def comp_def algebra_simps)
qed

lemma ring_unput:
  assumes "w \<noteq> r"
  shows "ring_content d r (w - 1) = butlast (ring_content d r w)"
proof -
  let ?n = "unat (w - 1 - r)"
  have eq: "w - 1 - r = (w - r) - 1" by simp
  have n: "unat (w - r) = Suc ?n"
    unfolding eq using assms by (intro unat_dec) simp
  show ?thesis by (simp add: ring_content_def n)
qed

section \<open>Bounded queues\<close>

text \<open>
  A bounded first-in first-out queue: \<open>content\<close> is what it holds, oldest first, and \<open>full\<close> the
  test the client makes before it inserts.
\<close>

locale fifo =
  fixes put :: "'a \<Rightarrow> 'q \<Rightarrow> 'q"
    and front :: "'q \<Rightarrow> 'a"
    and drop_front :: "'q \<Rightarrow> 'q"
    and full :: "'q \<Rightarrow> bool"
    and empty :: "'q \<Rightarrow> bool"
    and inv :: "'q \<Rightarrow> bool"
    and content :: "'q \<Rightarrow> 'a list"
    and cap :: nat
  assumes put_content: "inv q \<Longrightarrow> \<not> full q \<Longrightarrow> inv (put a q) \<and> content (put a q) = content q @ [a]"
    and get_content: "inv q \<Longrightarrow> \<not> empty q \<Longrightarrow> inv (drop_front q) \<and> content q = front q # content (drop_front q)"
    and empty_iff: "inv q \<Longrightarrow> empty q = (content q = [])"
    and full_iff: "inv q \<Longrightarrow> full q = (length (content q) = cap)"
    and cap_bound: "inv q \<Longrightarrow> length (content q) \<le> cap"
begin

lemma put_all:
  "inv q \<Longrightarrow> length (content q) + length as \<le> cap \<Longrightarrow>
   inv (fold put as q) \<and> content (fold put as q) = content q @ as"
proof (induction as arbitrary: q)
  case (Cons a as)
  have "\<not> full q" using Cons.prems by (simp add: full_iff)
  then have "inv (put a q) \<and> content (put a q) = content q @ [a]" using Cons.prems by (simp add: put_content)
  then show ?case using Cons.prems Cons.IH [of "put a q"] by simp
qed simp

lemma drop_many:
  "inv q \<Longrightarrow> n \<le> length (content q) \<Longrightarrow>
   inv ((drop_front ^^ n) q) \<and> content ((drop_front ^^ n) q) = drop n (content q)"
proof (induction n)
  case (Suc n)
  let ?p = "(drop_front ^^ n) q"
  have p: "inv ?p" "content ?p = drop n (content q)" using Suc by simp_all
  then have "\<not> empty ?p" using Suc.prems by (simp add: empty_iff)
  then have g: "inv (drop_front ?p)" "content ?p = front ?p # content (drop_front ?p)"
    using get_content [OF p(1)] by blast+
  have "content (drop_front ?p) = tl (drop n (content q))" using g(2) p(2) by (metis list.sel(3))
  then show ?case using g(1) by (simp add: drop_Suc tl_drop)
qed simp

lemma not_full_empty: "inv q \<Longrightarrow> 0 < cap \<Longrightarrow> empty q \<Longrightarrow> \<not> full q"
  by (auto simp: empty_iff full_iff)

end

end
