(* ===== verification/Pipe.thy ===== *)
theory Pipe
  imports Sched Ring
begin

text \<open>
  Pipes, \<open>kernel/pipe.c\<close>: a ring buffer of 512 bytes with free-running counters in a page of
  its own, shared by a writer and a reader that sleep on each other.  Pipes are kept by the
  address of their page.  A writer that sleeps has made progress, so \<open>pipewrite\<close> reports
  \<open>Inr rest\<close>, the bytes still to be written, when it gives up the CPU.
\<close>

section \<open>State\<close>

record pipe =
  pdata :: "u8 list"
  nread :: u32
  nwrite :: u32
  readopen :: bool
  writeopen :: bool

definition PIPESIZE :: nat where "PIPESIZE = 512"

record pipe_state = sched_state +
  pipes :: "u32 \<Rightarrow> pipe"

definition set_pipe :: "u32 \<Rightarrow> (pipe \<Rightarrow> pipe) \<Rightarrow> ('z pipe_state_scheme, switch, unit) prog" where
  "set_pipe p f = upd (\<lambda>s. s\<lparr>pipes := (pipes s)(p := f (pipes s p))\<rparr>)"

definition killed :: "('z sched_state_scheme, switch, bool) prog" where
  "killed = bnd curproc (\<lambda>c. bnd (get_proc c) (\<lambda>q. ret (p_killed q)))"

section \<open>Operations\<close>

text \<open>The fields that \<open>pipealloc\<close> sets in the new page (\<open>data\<close> keeps what the page held).\<close>

definition pipe_start :: "u8 list \<Rightarrow> pipe" where
  "pipe_start d = \<lparr>pdata = d, nread = 0, nwrite = 0, readopen = True, writeopen = True\<rparr>"

definition pipeclose :: "u32 \<Rightarrow> bool \<Rightarrow> ('z pipe_state_scheme, switch, unit) prog" where
  "pipeclose p writable =
     thn (lock (Lpipe p)) (
     thn (if writable
          then thn (set_pipe p (\<lambda>q. q\<lparr>writeopen := False\<rparr>)) (wakeup (ChPipeRead p))
          else thn (set_pipe p (\<lambda>q. q\<lparr>readopen := False\<rparr>)) (wakeup (ChPipeWrite p))) (
     bnd (asks (\<lambda>s. pipes s p)) (\<lambda>q.
     if \<not> readopen q \<and> \<not> writeopen q
     then thn (unlock (Lpipe p)) (kfree p)
     else unlock (Lpipe p))))"

definition pipe_put :: "u8 \<Rightarrow> pipe \<Rightarrow> pipe" where
  "pipe_put b q = q\<lparr>pdata := (pdata q)[unat (nwrite q) mod PIPESIZE := b], nwrite := nwrite q + 1\<rparr>"

definition pipe_full :: "pipe \<Rightarrow> bool" where
  "pipe_full q \<longleftrightarrow> nwrite q = nread q + of_nat PIPESIZE"

fun pipewrite_loop :: "u32 \<Rightarrow> int \<Rightarrow> u8 list \<Rightarrow> ('z pipe_state_scheme, switch, int + u8 list) prog" where
  "pipewrite_loop p n [] =
     thn (wakeup (ChPipeRead p)) (thn (unlock (Lpipe p)) (ret (Inl n)))"
| "pipewrite_loop p n (b # bs) =
     bnd (asks (\<lambda>s. pipes s p)) (\<lambda>q.
     if pipe_full q then
       bnd killed (\<lambda>k.
       if \<not> readopen q \<or> k then thn (unlock (Lpipe p)) (ret (Inl (- 1)))
       else thn (wakeup (ChPipeRead p))
              (on_block (sleep (ChPipeWrite p) (Lpipe p)) (\<lambda>_. ret (Inr (b # bs)))))
     else thn (set_pipe p (pipe_put b)) (pipewrite_loop p n bs))"

definition pipewrite :: "u32 \<Rightarrow> u8 list \<Rightarrow> ('z pipe_state_scheme, switch, int + u8 list) prog" where
  "pipewrite p bs = thn (lock (Lpipe p)) (pipewrite_loop p (int (length bs)) bs)"

definition pipe_front :: "pipe \<Rightarrow> u8" where
  "pipe_front q = pdata q ! (unat (nread q) mod PIPESIZE)"

definition pipe_drop :: "pipe \<Rightarrow> pipe" where
  "pipe_drop q = q\<lparr>nread := nread q + 1\<rparr>"

definition pipe_empty :: "pipe \<Rightarrow> bool" where
  "pipe_empty q \<longleftrightarrow> nread q = nwrite q"

primrec piperead_loop :: "u32 \<Rightarrow> nat \<Rightarrow> ('z pipe_state_scheme, switch, u8 list) prog" where
  "piperead_loop p 0 = ret []"
| "piperead_loop p (Suc n) =
     bnd (asks (\<lambda>s. pipes s p)) (\<lambda>q.
     if pipe_empty q then ret []
     else thn (set_pipe p pipe_drop)
            (bnd (piperead_loop p n) (\<lambda>bs. ret (pipe_front q # bs))))"

text \<open>The result \<open>None\<close> is the return value -1; otherwise the bytes copied to \<open>addr\<close>.\<close>

definition piperead_head :: "u32 \<Rightarrow> nat \<Rightarrow> ('z pipe_state_scheme, switch, u8 list option) prog" where
  "piperead_head p n =
     bnd (asks (\<lambda>s. pipes s p)) (\<lambda>q.
     if pipe_empty q \<and> writeopen q then
       bnd killed (\<lambda>k.
       if k then thn (unlock (Lpipe p)) (ret None)
       else sleep (ChPipeRead p) (Lpipe p))
     else bnd (piperead_loop p n) (\<lambda>bs.
          thn (wakeup (ChPipeWrite p)) (thn (unlock (Lpipe p)) (ret (Some bs)))))"

definition piperead :: "u32 \<Rightarrow> nat \<Rightarrow> ('z pipe_state_scheme, switch, u8 list option) prog" where
  "piperead p n = thn (lock (Lpipe p)) (piperead_head p n)"

section \<open>The queue a pipe stands for\<close>

definition pipe_content :: "pipe \<Rightarrow> u8 list" where
  "pipe_content q = ring_content (pdata q) (nread q) (nwrite q)"

definition pipe_ok :: "pipe \<Rightarrow> bool" where
  "pipe_ok q \<longleftrightarrow> length (pdata q) = PIPESIZE \<and> unat (nwrite q - nread q) \<le> PIPESIZE"

lemma pipe_full_iff: "pipe_ok q \<Longrightarrow> pipe_full q \<longleftrightarrow> length (pipe_content q) = PIPESIZE"
proof -
  have "pipe_full q \<longleftrightarrow> nwrite q - nread q = 512" by (auto simp: pipe_full_def PIPESIZE_def algebra_simps)
  then show ?thesis by (simp add: pipe_content_def PIPESIZE_def word_unat_eq_iff)
qed

interpretation pipe_fifo: fifo pipe_put pipe_front pipe_drop pipe_full pipe_empty pipe_ok pipe_content PIPESIZE
proof
  fix q a
  assume q: "pipe_ok q" and nf: "\<not> pipe_full q"
  then have less: "unat (nwrite q - nread q) < PIPESIZE"
    using pipe_full_iff [OF q] by (simp add: pipe_ok_def pipe_content_def)
  have eq: "nwrite q + 1 - nread q = (nwrite q - nread q) + 1" by simp
  have "unat (nwrite q + 1 - nread q) = Suc (unat (nwrite q - nread q))"
    unfolding eq using less by (intro unat_inc) (simp add: PIPESIZE_def)
  then show "pipe_ok (pipe_put a q) \<and> pipe_content (pipe_put a q) = pipe_content q @ [a]"
    using q less ring_put [of "pdata q" "nwrite q" "nread q" a]
    by (simp add: pipe_ok_def pipe_put_def pipe_content_def PIPESIZE_def)
next
  fix q
  assume q: "pipe_ok q" and ne: "\<not> pipe_empty q"
  have neq: "nwrite q \<noteq> nread q" using ne by (auto simp: pipe_empty_def)
  have eq: "nwrite q - (nread q + 1) = (nwrite q - nread q) - 1" by simp
  have "unat (nwrite q - nread q) = Suc (unat (nwrite q - (nread q + 1)))"
    unfolding eq using neq by (intro unat_dec) simp
  then show "pipe_ok (pipe_drop q) \<and> pipe_content q = pipe_front q # pipe_content (pipe_drop q)"
    using q ring_get [OF neq, of "pdata q"]
    by (simp add: pipe_ok_def pipe_drop_def pipe_content_def pipe_front_def)
next
  fix q show "pipe_empty q = (pipe_content q = [])"
    by (auto simp: pipe_empty_def pipe_content_def ring_empty)
next
  fix q assume "pipe_ok q"
  then show "pipe_full q = (length (pipe_content q) = PIPESIZE)" by (rule pipe_full_iff)
  show "length (pipe_content q) \<le> PIPESIZE" using \<open>pipe_ok q\<close> by (simp add: pipe_ok_def pipe_content_def)
qed

lemma pipe_fields [simp]:
  "readopen (pipe_put b q) = readopen q" "writeopen (pipe_put b q) = writeopen q"
  "readopen (pipe_drop q) = readopen q" "writeopen (pipe_drop q) = writeopen q"
  by (simp_all add: pipe_put_def pipe_drop_def)

section \<open>Correctness of the operations\<close>

lemma wp_set_pipe [simp]:
  "wp (set_pipe p f) Q s = Q () (s\<lparr>pipes := (pipes s)(p := f (pipes s p))\<rparr>)"
  "wlp (set_pipe p f) Q B s = Q () (s\<lparr>pipes := (pipes s)(p := f (pipes s p))\<rparr>)"
  by (simp_all add: set_pipe_def)

lemma wp_killed [simp]:
  "wp killed Q s = (case cur s of None \<Rightarrow> False | Some c \<Rightarrow> Q (p_killed (ptable s ! c)) s)"
  "wlp killed Q B s = (case cur s of None \<Rightarrow> False | Some c \<Rightarrow> Q (p_killed (ptable s ! c)) s)"
  by (simp_all add: killed_def split: option.splits)

text \<open>A state in which the current process runs a routine of this file with the pipe locked.\<close>

definition pipe_ready :: "u32 \<Rightarrow> 'z pipe_state_scheme \<Rightarrow> bool" where
  "pipe_ready p s \<longleftrightarrow> pipe_ok (pipes s p) \<and> held s = {Lpipe p}
     \<and> (\<exists>i. cur s = Some i \<and> i < length (ptable s))"

text \<open>The current process sleeps as a writer, and no reader of the pipe sleeps.\<close>

definition parked :: "u32 \<Rightarrow> 'z pipe_state_scheme \<Rightarrow> bool" where
  "parked p t \<longleftrightarrow> (\<exists>i. cur t = Some i \<and> p_state (ptable t ! i) = SLEEPING
       \<and> p_chan (ptable t ! i) = Some (ChPipeWrite p))
     \<and> (\<forall>j < length (ptable t). p_state (ptable t ! j) = SLEEPING \<longrightarrow> p_chan (ptable t ! j) \<noteq> Some (ChPipeRead p))"

text \<open>What a call that writes has done to the pipe.\<close>

definition wrote :: "u32 \<Rightarrow> 'z pipe_state_scheme \<Rightarrow> u8 list \<Rightarrow> int \<Rightarrow> int + u8 list \<Rightarrow> 'z pipe_state_scheme \<Rightarrow> bool" where
  "wrote p s bs n r t \<longleftrightarrow> pipe_ok (pipes t p) \<and> (\<forall>q. q \<noteq> p \<longrightarrow> pipes t q = pipes s q) \<and> cur t = cur s
     \<and> readopen (pipes t p) = readopen (pipes s p)
     \<and> (case r of
          Inl k \<Rightarrow> held t = {} \<and>
            (k = n \<and> pipe_content (pipes t p) = pipe_content (pipes s p) @ bs
             \<or> k = - 1 \<and> pipe_full (pipes t p) \<and>
               (\<exists>as cs. bs = as @ cs \<and> cs \<noteq> [] \<and> pipe_content (pipes t p) = pipe_content (pipes s p) @ as))
        | Inr cs \<Rightarrow> held t = {Lptable} \<and> pipe_full (pipes t p) \<and> readopen (pipes t p) \<and> parked p t
            \<and> (\<exists>as. bs = as @ cs \<and> cs \<noteq> [] \<and> pipe_content (pipes t p) = pipe_content (pipes s p) @ as))"

lemma wrote_put:
  assumes "\<not> pipe_full (pipes s p)" "pipe_ok (pipes s p)"
    and "wrote p (s\<lparr>pipes := (pipes s)(p := pipe_put b (pipes s p))\<rparr>) bs n r t"
  shows "wrote p s (b # bs) n r t"
proof -
  have c: "pipe_content (pipe_put b (pipes s p)) = pipe_content (pipes s p) @ [b]"
    using pipe_fifo.put_content assms(1,2) by blast
  show ?thesis
  proof (cases r)
    case (Inl k)
    then have "k = n \<and> pipe_content (pipes t p) = pipe_content (pipes s p) @ b # bs
        \<or> k = - 1 \<and> pipe_full (pipes t p) \<and> (\<exists>as cs. b # bs = as @ cs \<and> cs \<noteq> [] \<and>
             pipe_content (pipes t p) = pipe_content (pipes s p) @ as)"
      using assms(3) c unfolding wrote_def by (auto intro: exI [of _ "b # _"])
    then show ?thesis using assms(3) Inl by (auto simp: wrote_def)
  next
    case (Inr cs)
    then obtain as where as: "bs = as @ cs" "cs \<noteq> []" "pipe_content (pipes t p) = (pipe_content (pipes s p) @ [b]) @ as"
      using assms(3) by (auto simp: wrote_def c)
    then have "b # bs = (b # as) @ cs \<and> cs \<noteq> [] \<and> pipe_content (pipes t p) = pipe_content (pipes s p) @ b # as"
      by simp
    then have ex: "\<exists>as. b # bs = as @ cs \<and> cs \<noteq> [] \<and> pipe_content (pipes t p) = pipe_content (pipes s p) @ as" ..
    show ?thesis
      using assms(3) ex unfolding wrote_def Inr sum.case by simp blast
  qed
qed

lemma wake_simps [simp]:
  "p_killed (wake c p) = p_killed p" "p_pid (wake c p) = p_pid p" "p_parent (wake c p) = p_parent p"
  "p_state (wake c p) = SLEEPING \<Longrightarrow> p_chan (wake c p) \<noteq> Some c"
  by (simp_all add: wake_def split: if_splits)

lemma wp_pipewrite_loop:
  "pipe_ready p s \<Longrightarrow> wp (pipewrite_loop p n bs) (wrote p s bs n) s"
proof (induction p n bs arbitrary: s rule: pipewrite_loop.induct)
  case (1 p n)
  then show ?case by (auto simp: pipe_ready_def wrote_def)
next
  case (2 p n b bs)
  obtain i where i: "cur s = Some i" "i < length (ptable s)" and h: "held s = {Lpipe p}"
    and ok: "pipe_ok (pipes s p)"
    using "2.prems" by (auto simp: pipe_ready_def)
  show ?case
  proof (cases "pipe_full (pipes s p)")
    case False
    have "pipe_ok (pipe_put b (pipes s p))" using pipe_fifo.put_content ok False by blast
    then have "wp (pipewrite_loop p n bs)
        (wrote p (s\<lparr>pipes := (pipes s)(p := pipe_put b (pipes s p))\<rparr>) bs n)
        (s\<lparr>pipes := (pipes s)(p := pipe_put b (pipes s p))\<rparr>)"
      using False i h by (intro "2.IH" [of "pipes s p"]) (simp_all add: pipe_ready_def)
    then have "wp (pipewrite_loop p n bs) (wrote p s (b # bs) n) (s\<lparr>pipes := (pipes s)(p := pipe_put b (pipes s p))\<rparr>)"
      by (rule wp_mono) (rule wrote_put [OF False ok])
    with False show ?thesis by simp
  next
    case True
    show ?thesis
    proof (cases "\<not> readopen (pipes s p) \<or> p_killed (ptable s ! i)")
      case stop: True
      then show ?thesis using True i h ok by (auto simp: wrote_def)
    next
      case False
      let ?w = "map (wake (ChPipeRead p)) (ptable s)"
      let ?s = "s\<lparr>ptable := ?w\<rparr>"
      have none: "p_chan (?w[i := asleep (ChPipeWrite p) (?w ! i)] ! j) \<noteq> Some (ChPipeRead p)"
        if "p_state (?w[i := asleep (ChPipeWrite p) (?w ! i)] ! j) = SLEEPING" "j < length ?w" for j
        using that i(2) by (cases "j = i") (simp_all add: asleep_def)
      have "wrote p s (b # bs) n (Inr (b # bs))
          (?s\<lparr>held := {Lptable}, ptable := ?w[i := asleep (ChPipeWrite p) (?w ! i)]\<rparr>)"
        using ok True False i none by (auto simp: wrote_def asleep_def parked_def)
      then have "wlp (sleep (ChPipeWrite p) (Lpipe p)) (wrote p s (b # bs) n)
          (\<lambda>_. wp (ret (Inr (b # bs))) (wrote p s (b # bs) n)) ?s"
        using i h by (subst wlp_sleep [of _ i]) simp_all
      then show ?thesis using True False i h by simp
    qed
  qed
qed

text \<open>The reader takes the oldest bytes, at most \<open>n\<close>.\<close>

lemma if_same_fun [simp]: "(\<lambda>a. if a = p then f p else f a) = f"
  by (rule ext) simp

lemma wp_piperead_loop:
  "pipe_ok (pipes s p) \<Longrightarrow>
   wp (piperead_loop p n) (\<lambda>bs t. t = s\<lparr>pipes := (pipes s)(p := (pipe_drop ^^ length bs) (pipes s p))\<rparr>
        \<and> bs = take n (pipe_content (pipes s p))) s"
proof (induction n arbitrary: s)
  case 0
  then show ?case by (simp cong: if_cong)
next
  case (Suc n)
  let ?q = "pipes s p"
  show ?case
  proof (cases "pipe_empty ?q")
    case True
    then have "pipe_content ?q = []" using pipe_fifo.empty_iff Suc.prems by blast
    then show ?thesis using True by (simp cong: if_cong)
  next
    case False
    let ?s = "s\<lparr>pipes := (pipes s)(p := pipe_drop ?q)\<rparr>"
    have g: "pipe_ok (pipe_drop ?q)" "pipe_content ?q = pipe_front ?q # pipe_content (pipe_drop ?q)"
      using pipe_fifo.get_content [OF Suc.prems False] by blast+
    have "wp (piperead_loop p n) (\<lambda>bs t. t = ?s\<lparr>pipes := (pipes ?s)(p := (pipe_drop ^^ length bs) (pipes ?s p))\<rparr>
        \<and> bs = take n (pipe_content (pipes ?s p))) ?s"
      using g(1) by (intro Suc.IH) simp
    then have "wp (piperead_loop p n) (\<lambda>bs. wp (ret (pipe_front ?q # bs))
        (\<lambda>bs t. t = s\<lparr>pipes := (pipes s)(p := (pipe_drop ^^ length bs) ?q)\<rparr> \<and> bs = take (Suc n) (pipe_content ?q))) ?s"
      by (rule wp_mono) (use g(2) in \<open>simp add: funpow_swap1 cong: if_cong\<close>)
    with False show ?thesis by (simp add: fun_upd_def cong: if_cong)
  qed
qed

definition took :: "u32 \<Rightarrow> 'z pipe_state_scheme \<Rightarrow> nat \<Rightarrow> u8 list option \<Rightarrow> 'z pipe_state_scheme \<Rightarrow> bool" where
  "took p s n r t \<longleftrightarrow> (\<forall>q. q \<noteq> p \<longrightarrow> pipes t q = pipes s q) \<and> pipe_ok (pipes t p) \<and> held t = {}
     \<and> (case r of
          None \<Rightarrow> pipes t p = pipes s p \<and> pipe_content (pipes s p) = [] \<and> writeopen (pipes s p)
        | Some bs \<Rightarrow> bs = take n (pipe_content (pipes s p))
            \<and> pipe_content (pipes t p) = drop n (pipe_content (pipes s p))
            \<and> (pipe_content (pipes s p) = [] \<longrightarrow> \<not> writeopen (pipes s p))
            \<and> (\<forall>j < length (ptable t). p_state (ptable t ! j) = SLEEPING \<longrightarrow>
                 p_chan (ptable t ! j) \<noteq> Some (ChPipeWrite p)))"

definition read_waits :: "u32 \<Rightarrow> 'z pipe_state_scheme \<Rightarrow> switch \<Rightarrow> 'z pipe_state_scheme \<Rightarrow> bool" where
  "read_waits p s sw t \<longleftrightarrow> sw = SwSleep (ChPipeRead p) (Lpipe p) \<and> pipes t = pipes s \<and> held t = {Lptable}
     \<and> pipe_content (pipes s p) = [] \<and> writeopen (pipes s p)
     \<and> (\<exists>i. cur t = Some i \<and> p_state (ptable t ! i) = SLEEPING \<and> p_chan (ptable t ! i) = Some (ChPipeRead p))"

lemma wlp_piperead_head:
  assumes "pipe_ready p s"
  shows "wlp (piperead_head p n) (took p s n) (read_waits p s) s"
proof -
  obtain i where i: "cur s = Some i" "i < length (ptable s)" and h: "held s = {Lpipe p}"
    and ok: "pipe_ok (pipes s p)"
    using assms by (auto simp: pipe_ready_def)
  show ?thesis
  proof (cases "pipe_empty (pipes s p) \<and> writeopen (pipes s p)")
    case True
    then have c: "pipe_content (pipes s p) = []" using pipe_fifo.empty_iff ok by blast
    have "read_waits p s (SwSleep (ChPipeRead p) (Lpipe p))
        (s\<lparr>held := {Lptable}, ptable := (ptable s)[i := asleep (ChPipeRead p) (ptable s ! i)]\<rparr>)"
      using True c i by (simp add: read_waits_def asleep_def)
    then have "wlp (sleep (ChPipeRead p) (Lpipe p)) (took p s n) (read_waits p s) s"
      using i h by (subst wlp_sleep [of _ i]) simp_all
    then show ?thesis
      using True i h ok c by (simp add: piperead_head_def took_def)
  next
    case False
    let ?c = "pipe_content (pipes s p)"
    have "wp (piperead_loop p n) (\<lambda>bs t. took p s n (Some bs) (t\<lparr>ptable := map (wake (ChPipeWrite p)) (ptable t), held := {}\<rparr>)
        \<and> held t = {Lpipe p}) s"
    proof (rule wp_mono [OF wp_piperead_loop [OF ok]])
      fix bs t
      assume t: "t = s\<lparr>pipes := (pipes s)(p := (pipe_drop ^^ length bs) (pipes s p))\<rparr> \<and> bs = take n ?c"
      have "pipe_ok ((pipe_drop ^^ length bs) (pipes s p)) \<and>
          pipe_content ((pipe_drop ^^ length bs) (pipes s p)) = drop (length bs) ?c"
        using t by (intro pipe_fifo.drop_many ok) simp
      moreover have "drop (length bs) ?c = drop n ?c" using t by (simp add: min_def)
      moreover have "?c = [] \<longrightarrow> \<not> writeopen (pipes s p)"
        using False pipe_fifo.empty_iff [OF ok] by auto
      ultimately show "took p s n (Some bs) (t\<lparr>ptable := map (wake (ChPipeWrite p)) (ptable t), held := {}\<rparr>)
          \<and> held t = {Lpipe p}"
        using t h by (simp add: took_def)
    qed
    then have "wlp (piperead_loop p n) (\<lambda>bs t. took p s n (Some bs) (t\<lparr>ptable := map (wake (ChPipeWrite p)) (ptable t), held := {}\<rparr>)
        \<and> held t = {Lpipe p}) (read_waits p s) s"
      by (rule wlp_wp)
    then have "wlp (piperead_loop p n) (\<lambda>bs. wlp (thn (wakeup (ChPipeWrite p)) (thn (unlock (Lpipe p)) (ret (Some bs))))
        (took p s n) (read_waits p s)) (read_waits p s) s"
      by (rule wlp_mono) simp_all
    with False show ?thesis by (auto simp: piperead_head_def)
  qed
qed

section \<open>Streams\<close>

text \<open>
  Any interleaving of writers, readers and closers of one pipe: \<open>stream p s a d t\<close> says that from
  \<open>s\<close> the calls have reached \<open>t\<close> and have accepted the bytes \<open>a\<close> and delivered \<open>d\<close>.  A call takes
  the pipe's lock in a state where it is free; a call that sleeps gives the state to the
  scheduler, which releases \<open>ptable.lock\<close>; a writer resumes with the rest of its bytes, which is
  a call of \<open>pipewrite_loop\<close> again.  A writer that finds the pipe full without a reader, or that
  was killed, returns -1 with some of its bytes stored: as many as \<open>nwrite\<close> has advanced.  A
  killed reader returns -1, and \<open>pipeclose\<close> closes either end at any time.  Anything else may
  happen to the other fields in between.
\<close>

inductive stream :: "u32 \<Rightarrow> 'z pipe_state_scheme \<Rightarrow> u8 list \<Rightarrow> u8 list \<Rightarrow> 'z pipe_state_scheme \<Rightarrow> bool" where
  start: "stream p s [] [] s"
| other: "stream p s a d t \<Longrightarrow> pipes u p = pipes t p \<Longrightarrow> stream p s a d u"
| swrite: "stream p s a d t \<Longrightarrow> held t = {Lpipe p} \<Longrightarrow> cur t = Some i \<Longrightarrow> i < length (ptable t) \<Longrightarrow>
    pipewrite_loop p n bs t = Done (Inl k) u \<Longrightarrow> 0 \<le> k \<Longrightarrow> stream p s (a @ bs) d u"
| swrite_sleep: "stream p s a d t \<Longrightarrow> held t = {Lpipe p} \<Longrightarrow> cur t = Some i \<Longrightarrow> i < length (ptable t) \<Longrightarrow>
    pipewrite_loop p n (bs @ cs) t = Done (Inr cs) u \<Longrightarrow> stream p s (a @ bs) d u"
| swrite_fail: "stream p s a d t \<Longrightarrow> held t = {Lpipe p} \<Longrightarrow> cur t = Some i \<Longrightarrow> i < length (ptable t) \<Longrightarrow>
    pipewrite_loop p n (bs @ cs) t = Done (Inl (- 1)) u \<Longrightarrow>
    length bs = unat (nwrite (pipes u p) - nwrite (pipes t p)) \<Longrightarrow> stream p s (a @ bs) d u"
| sread: "stream p s a d t \<Longrightarrow> held t = {Lpipe p} \<Longrightarrow> cur t = Some i \<Longrightarrow> i < length (ptable t) \<Longrightarrow>
    piperead_head p m t = Done (Some bs) u \<Longrightarrow> stream p s a (d @ bs) u"
| sread_sleep: "stream p s a d t \<Longrightarrow> held t = {Lpipe p} \<Longrightarrow> cur t = Some i \<Longrightarrow> i < length (ptable t) \<Longrightarrow>
    piperead_head p m t = Block sw u \<Longrightarrow> stream p s a d u"
| sread_fail: "stream p s a d t \<Longrightarrow> held t = {Lpipe p} \<Longrightarrow> cur t = Some i \<Longrightarrow> i < length (ptable t) \<Longrightarrow>
    piperead_head p m t = Done None u \<Longrightarrow> stream p s a d u"
| sclose: "stream p s a d t \<Longrightarrow> pipeclose p w t = Done () u \<Longrightarrow> stream p s a d u"

lemma wp_pipewrite_nread:
  "pipe_ready p s \<Longrightarrow> wp (pipewrite_loop p n bs) (\<lambda>r t. nread (pipes t p) = nread (pipes s p)) s"
proof (induction p n bs arbitrary: s rule: pipewrite_loop.induct)
  case (1 p n)
  then show ?case by (auto simp: pipe_ready_def)
next
  case (2 p n b bs)
  obtain i where i: "cur s = Some i" "i < length (ptable s)" and h: "held s = {Lpipe p}"
    and ok: "pipe_ok (pipes s p)"
    using "2.prems" by (auto simp: pipe_ready_def)
  show ?case
  proof (cases "pipe_full (pipes s p)")
    case False
    have "pipe_ok (pipe_put b (pipes s p))" using pipe_fifo.put_content ok False by blast
    then have "wp (pipewrite_loop p n bs) (\<lambda>r t. nread (pipes t p) = nread (pipe_put b (pipes s p)))
        (s\<lparr>pipes := (pipes s)(p := pipe_put b (pipes s p))\<rparr>)"
      using "2.IH" [of "pipes s p" "s\<lparr>pipes := (pipes s)(p := pipe_put b (pipes s p))\<rparr>"] False i h
      by (simp add: pipe_ready_def)
    with False show ?thesis by (simp add: pipe_put_def)
  next
    case True
    show ?thesis
    proof (cases "\<not> readopen (pipes s p) \<or> p_killed (ptable s ! i)")
      case stop: True
      then show ?thesis using True i h by simp
    next
      case False
      have "wlp (sleep (ChPipeWrite p) (Lpipe p)) (\<lambda>r t. nread (pipes t p) = nread (pipes s p))
          (\<lambda>_. wp (ret (Inr (b # bs) :: int + u8 list)) (\<lambda>r t. nread (pipes t p) = nread (pipes s p)))
          (s\<lparr>ptable := map (wake (ChPipeRead p)) (ptable s)\<rparr>)"
        using i h by (subst wlp_sleep [of _ i]) simp_all
      then show ?thesis using True False i h by simp
    qed
  qed
qed

text \<open>The bytes that a failing write stored are those that \<open>nwrite\<close> counts.\<close>

lemma stored_count:
  assumes "pipe_ok q" "pipe_ok q'" "nread q' = nread q" "pipe_content q' = pipe_content q @ as"
  shows "unat (nwrite q' - nwrite q) = length as"
proof -
  let ?x = "nwrite q' - nread q" and ?y = "nwrite q - nread q"
  have "unat ?x = unat ?y + length as"
    using arg_cong [OF assms(4), of length] assms(3) by (simp add: pipe_content_def)
  moreover from this have "unat (?x - ?y) = unat ?x - unat ?y" by (intro unat_sub) (simp add: word_le_nat_alt)
  ultimately show ?thesis by simp
qed

lemma pipewrite_fails:
  assumes "pipe_ready p t" "pipewrite_loop p n (bs @ cs) t = Done (Inl (- 1)) u"
    and "length bs = unat (nwrite (pipes u p) - nwrite (pipes t p))"
  shows "pipe_ok (pipes u p) \<and> pipe_content (pipes u p) = pipe_content (pipes t p) @ bs"
proof -
  have ok: "pipe_ok (pipes t p)" using assms(1) by (simp add: pipe_ready_def)
  have w: "wrote p t (bs @ cs) n (Inl (- 1)) u"
    using wp_pipewrite_loop [OF assms(1), of n "bs @ cs"] assms(2) by (simp add: wp_Done_eq)
  have r: "nread (pipes u p) = nread (pipes t p)"
    using wp_pipewrite_nread [OF assms(1), of n "bs @ cs"] assms(2) by (simp add: wp_Done_eq)
  from w obtain as ds where as: "bs @ cs = as @ ds" "pipe_content (pipes u p) = pipe_content (pipes t p) @ as"
      and ok': "pipe_ok (pipes u p)"
    unfolding wrote_def by (force intro: exI [of _ "[]"])
  have "length as = length bs" using stored_count [OF ok ok' r as(2)] assms(3) by simp
  then have "as = bs" using as(1) by simp
  then show ?thesis using as(2) ok' by simp
qed

lemma kfree_pipes: "kfree v s = Done () t \<Longrightarrow> pipes t = pipes s"
  by (auto simp: kfree_def prog_defs lock_def unlock_def split: if_splits)

lemma pipeclose_content:
  assumes "pipeclose p w t = Done () u"
  shows "pipe_content (pipes u p) = pipe_content (pipes t p)" "pipe_ok (pipes u p) = pipe_ok (pipes t p)"
  using assms
  by (auto simp: pipeclose_def prog_defs lock_def unlock_def set_pipe_def wakeup_def wakeup1_def
      pipe_content_def pipe_ok_def dest!: kfree_pipes split: if_splits)

lemma stream_inv:
  "stream p s a d t \<Longrightarrow> pipe_ok (pipes s p) \<Longrightarrow> pipe_content (pipes s p) = [] \<Longrightarrow>
   pipe_ok (pipes t p) \<and> a = d @ pipe_content (pipes t p)"
proof (induction rule: stream.induct)
  case (swrite p s a d t i n bs k u)
  then have "wp (pipewrite_loop p n bs) (wrote p t bs n) t"
    by (intro wp_pipewrite_loop) (simp add: pipe_ready_def)
  then have "wrote p t bs n (Inl k) u" using swrite.hyps(5) by (simp add: wp_Done_eq)
  then show ?case using swrite by (auto simp: wrote_def)
next
  case (swrite_sleep p s a d t i n bs cs u)
  then have "wp (pipewrite_loop p n (bs @ cs)) (wrote p t (bs @ cs) n) t"
    by (intro wp_pipewrite_loop) (simp add: pipe_ready_def)
  then have "wrote p t (bs @ cs) n (Inr cs) u" using swrite_sleep.hyps(5) by (simp add: wp_Done_eq)
  then show ?case using swrite_sleep by (auto simp: wrote_def)
next
  case (swrite_fail p s a d t i n bs cs u)
  then have "pipe_ready p t" by (simp add: pipe_ready_def)
  then show ?case using pipewrite_fails [OF _ swrite_fail.hyps(5,6)] swrite_fail by simp
next
  case (sread p s a d t i m bs u)
  then have "wlp (piperead_head p m) (took p t m) (read_waits p t) t"
    by (intro wlp_piperead_head) (simp add: pipe_ready_def)
  then have "took p t m (Some bs) u" using sread.hyps(5) by (simp add: wlp_def)
  then show ?case using sread by (auto simp: took_def)
next
  case (sread_sleep p s a d t i m sw u)
  then have "wlp (piperead_head p m) (took p t m) (read_waits p t) t"
    by (intro wlp_piperead_head) (simp add: pipe_ready_def)
  then have "read_waits p t sw u" using sread_sleep.hyps(5) by (simp add: wlp_def)
  then show ?case using sread_sleep by (simp add: read_waits_def)
next
  case (sread_fail p s a d t i m u)
  then have "wlp (piperead_head p m) (took p t m) (read_waits p t) t"
    by (intro wlp_piperead_head) (simp add: pipe_ready_def)
  then have "took p t m None u" using sread_fail.hyps(5) by (simp add: wlp_def)
  then show ?case using sread_fail by (simp add: took_def)
next
  case (sclose p s a d t w u)
  then show ?case using pipeclose_content [OF sclose.hyps(2)] by simp
qed auto

text \<open>A reader waits, or fails, only while the pipe is empty and a writer is left.\<close>

lemma piperead_drains:
  assumes "pipe_ready p t"
  shows "(pipe_content (pipes t p) = [] \<and> writeopen (pipes t p) \<longrightarrow> (\<nexists>bs u. piperead_head p m t = Done (Some bs) u))
    \<and> (pipe_content (pipes t p) \<noteq> [] \<or> \<not> writeopen (pipes t p) \<longrightarrow>
       (\<exists>u. piperead_head p m t = Done (Some (take m (pipe_content (pipes t p)))) u
          \<and> pipe_content (pipes u p) = drop m (pipe_content (pipes t p))))"
proof -
  have "wlp (piperead_head p m) (took p t m) (read_waits p t) t" by (rule wlp_piperead_head [OF assms])
  then show ?thesis
    by (cases "piperead_head p m t") (auto simp: wlp_def took_def read_waits_def split: option.splits)
qed

section \<open>Properties\<close>

text \<open>C8: A pipe is a byte stream: whatever the interleaving of writers, readers and closers,
  sleeping and killed ones included, and however often the 32-bit counters have wrapped around,
  what has been delivered is a prefix of what has been accepted (by a write that fails half way,
  too), and the rest, at most 512 bytes, is in the pipe.  A read that finds bytes, or no writer
  left, returns at once with the oldest ones, so that the pipe is drained after its write end was
  closed; end of file is never returned while the write end is open.\<close>

theorem pipe_is_a_stream:
  assumes "pipe_ok (pipes s p)" "pipe_content (pipes s p) = []" "stream p s accepted delivered t"
  shows "accepted = delivered @ pipe_content (pipes t p) \<and> length (pipe_content (pipes t p)) \<le> 512
    \<and> (\<forall>i m. held t = {Lpipe p} \<and> cur t = Some i \<and> i < length (ptable t) \<longrightarrow>
        (pipe_content (pipes t p) = [] \<and> writeopen (pipes t p) \<longrightarrow>
           (\<nexists>bs u. piperead_head p m t = Done (Some bs) u))
      \<and> (pipe_content (pipes t p) \<noteq> [] \<or> \<not> writeopen (pipes t p) \<longrightarrow>
           (\<exists>u. piperead_head p m t = Done (Some (take m (pipe_content (pipes t p)))) u
              \<and> pipe_content (pipes u p) = drop m (pipe_content (pipes t p)))))"
proof -
  note inv = stream_inv [OF assms(3,1,2)]
  then have "pipe_ready p t" if "held t = {Lpipe p}" "cur t = Some i" "i < length (ptable t)" for i
    using that by (simp add: pipe_ready_def)
  then show ?thesis
    using inv piperead_drains [of p t] by (auto simp: pipe_ok_def pipe_content_def PIPESIZE_def)
qed

text \<open>A pipe whose counters are about to wrap around.\<close>

definition pipe_example :: pipe_state where
  "pipe_example = sched_state.extend (two_threads\<lparr>held := {Lpipe 0x702000}\<rparr>)
     \<lparr>pipes = (\<lambda>_. \<lparr>pdata = replicate 512 0, nread = 0xFFFFFFFF, nwrite = 0xFFFFFFFF,
        readopen = True, writeopen = True\<rparr>)\<rparr>"

lemma pipe_example_simps [simp]:
  "held pipe_example = {Lpipe 0x702000}" "cur pipe_example = Some 0"
  "ptable pipe_example = ptable two_threads" "pdata (pipes pipe_example p) = replicate 512 0"
  "nread (pipes pipe_example p) = 0xFFFFFFFF" "nwrite (pipes pipe_example p) = 0xFFFFFFFF"
  "readopen (pipes pipe_example p)" "writeopen (pipes pipe_example p)"
  by (simp_all add: pipe_example_def sched_state.defs two_threads_def kmem_state.defs)

lemma pipe_example_ok: "pipe_ok (pipes pipe_example p)" "pipe_content (pipes pipe_example p) = []"
  by (simp_all add: pipe_ok_def PIPESIZE_def pipe_content_def ring_content_def)

theorem pipe_is_a_stream_witness:
  "\<exists>t. stream 0x702000 pipe_example [7, 8] [] t \<and> [7, 8] = [] @ pipe_content (pipes t 0x702000)"
proof -
  let ?p = "0x702000 :: u32"
  have st: "stream ?p pipe_example [] [] pipe_example" by (rule stream.start)
  have "wp (pipewrite_loop ?p 2 [7, 8]) (wrote ?p pipe_example [7, 8] 2) pipe_example"
    by (intro wp_pipewrite_loop) (simp add: pipe_ready_def pipe_example_ok)
  moreover obtain k u where "pipewrite_loop ?p 2 [7, 8] pipe_example = Done (Inl 2) u"
    by (simp add: prog_defs lock_def unlock_def set_pipe_def pipe_full_def pipe_put_def PIPESIZE_def
        wakeup_def wakeup1_def)
  moreover from this have "stream ?p pipe_example ([] @ [7, 8]) [] u"
    by (intro stream.swrite [OF st, of 0 2 _ 2]) simp_all
  ultimately show ?thesis
    using pipe_is_a_stream [OF pipe_example_ok, of ?p "[7, 8]" "[]" u] by auto
qed

end
