(* ===== verification/Chain.thy ===== *)
theory Chain
  imports Prelude
begin

text \<open>
  Doubly linked circular lists given by two successor functions, as the LRU list of the buffer
  cache: \<open>chain nx pv h ys\<close> says that the nodes \<open>ys\<close> follow \<open>h\<close>.  Unlinking a node and putting
  it behind the head, with the pointer stores of the code, moves it to the front of the list.
\<close>

fun chain :: "(nat \<Rightarrow> nat) \<Rightarrow> (nat \<Rightarrow> nat) \<Rightarrow> nat \<Rightarrow> nat list \<Rightarrow> bool" where
  "chain nx pv h [] = True"
| "chain nx pv h (y # ys) = (nx h = y \<and> pv y = h \<and> chain nx pv y ys)"

lemma chain_append: "chain nx pv h (as @ y # ys) \<longleftrightarrow> chain nx pv h (as @ [y]) \<and> chain nx pv y ys"
  by (induction as arbitrary: h) auto

lemma chain_cong:
  "(\<And>x. x \<in> set (h # butlast ys) \<Longrightarrow> nx' x = nx x) \<Longrightarrow> (\<And>x. x \<in> set ys \<Longrightarrow> pv' x = pv x) \<Longrightarrow>
   chain nx' pv' h ys = chain nx pv h ys"
proof (induction ys arbitrary: h)
  case (Cons y ys)
  show ?case
  proof (cases ys)
    case Nil
    then show ?thesis using Cons.prems by simp
  next
    case (Cons z zs)
    then have "chain nx' pv' y ys = chain nx pv y ys"
      using Cons.prems by (intro Cons.IH) auto
    then show ?thesis using Cons.prems by simp
  qed
qed simp

text \<open>The neighbours of a node.\<close>

lemma chain_around:
  "chain nx pv h (as @ b # cs @ [e]) \<Longrightarrow> pv b = last (h # as) \<and> nx b = hd (cs @ [e])"
proof (induction as arbitrary: h)
  case Nil
  then show ?case by (cases cs) auto
next
  case (Cons a as)
  then show ?case by (cases as) auto
qed

lemma chain_last: "chain nx pv h (as @ [e]) \<Longrightarrow> nx (last (h # as)) = e \<and> pv e = last (h # as)"
  by (induction as arbitrary: h) auto

lemma chain_relink:
  assumes c: "chain nx pv h (as @ [b])" and d: "distinct as" "h \<notin> set as" "z \<notin> set as"
  shows "chain (nx(last (h # as) := z)) (pv(z := last (h # as))) h (as @ [z])"
proof (cases as rule: rev_cases)
  case Nil
  then show ?thesis by simp
next
  case (snoc as' a)
  let ?nx = "nx(a := z)" and ?pv = "pv(z := a)"
  have "chain nx pv h (as' @ a # [b])" using c snoc by simp
  then have c1: "chain nx pv h (as' @ [a])" using chain_append [of nx pv h as' a "[b]"] by simp
  have "chain ?nx ?pv h (as' @ [a]) = chain nx pv h (as' @ [a])"
    using d snoc by (intro chain_cong) auto
  with c1 have "chain ?nx ?pv h (as' @ a # [z])"
    using chain_append [of ?nx ?pv h as' a "[z]"] by simp
  then show ?thesis using snoc by simp
qed

lemma chain_unlink:
  assumes c: "chain nx pv h (as @ b # cs @ [e])" and d: "distinct (as @ b # cs)"
    "h \<notin> set (as @ b # cs)" "e \<notin> set (as @ b # cs)"
  shows "chain (nx(pv b := nx b)) (pv(nx b := pv b)) h (as @ cs @ [e])"
proof -
  let ?a = "last (h # as)" and ?c = "hd (cs @ [e])"
  let ?nx = "nx(?a := ?c)" and ?pv = "pv(?c := ?a)"
  have ab: "pv b = ?a" "nx b = ?c" using chain_around [OF c] by auto
  have c1: "chain nx pv h (as @ [b])" and c2: "chain nx pv b (cs @ [e])"
    using c chain_append [of nx pv h as b "cs @ [e]"] by auto
  have "?c \<notin> set as" using d by (cases cs) auto
  then have first: "chain ?nx ?pv h (as @ [?c])"
    using d by (intro chain_relink [OF c1]) auto
  have "chain ?nx ?pv h (as @ cs @ [e])"
  proof (cases cs)
    case Nil
    then show ?thesis using first by simp
  next
    case (Cons z zs)
    have a: "?a = h \<and> as = [] \<or> ?a \<in> set as" by (cases as rule: rev_cases) auto
    have "chain nx pv z (zs @ [e])" using c2 Cons by simp
    moreover have "chain ?nx ?pv z (zs @ [e]) = chain nx pv z (zs @ [e])"
      using d Cons a by (intro chain_cong) auto
    ultimately show ?thesis
      using first Cons chain_append [of ?nx ?pv h as z "zs @ [e]"] by simp
  qed
  then show ?thesis by (simp add: ab)
qed

text \<open>Putting \<open>b\<close> behind the head.\<close>

lemma chain_push:
  assumes c: "chain nx pv h (ys @ [h])" and b: "b \<noteq> h" "b \<notin> set ys" and d: "h \<notin> set ys" "distinct ys"
  shows "chain (nx(b := nx h, h := b)) (pv(b := h, nx h := b)) h (b # ys @ [h])"
proof (cases ys)
  case Nil
  then show ?thesis using c b by simp
next
  case (Cons z zs)
  then have z: "nx h = z" "z \<noteq> b" "z \<noteq> h" and c1: "chain nx pv z (zs @ [h])" using c b d by auto
  have "chain (nx(b := z, h := b)) (pv(b := h, z := b)) z (zs @ [h]) = chain nx pv z (zs @ [h])"
    using Cons b d by (intro chain_cong) auto
  then show ?thesis using Cons z c1 b by simp
qed

text \<open>The stores of \<open>brelse\<close>: unlink, then put behind the head.\<close>

lemma chain_to_front:
  assumes c: "chain nx pv h (as @ b # cs @ [h])" and d: "distinct (h # as @ b # cs)"
  shows "chain (nx(pv b := nx b, b := (nx(pv b := nx b)) h, h := b))
     (pv(nx b := pv b, b := h, (nx(pv b := nx b)) h := b)) h (b # as @ cs @ [h])"
proof -
  have "chain (nx(pv b := nx b)) (pv(nx b := pv b)) h (as @ cs @ [h])"
    using d by (intro chain_unlink [OF c]) auto
  then have "chain (nx(pv b := nx b)) (pv(nx b := pv b)) h ((as @ cs) @ [h])" by simp
  from chain_push [OF this, of b] d show ?thesis by simp
qed

text \<open>The same list backwards.\<close>

lemma chain_rev: "chain nx pv h (ys @ [e]) \<longleftrightarrow> chain pv nx e (rev ys @ [h])"
proof (induction ys arbitrary: h)
  case (Cons y ys)
  have "chain pv nx e (rev ys @ y # [h]) \<longleftrightarrow> chain pv nx e (rev ys @ [y]) \<and> chain pv nx y [h]"
    by (rule chain_append)
  then show ?case using Cons.IH [of y] by auto
qed auto

end
