(* ===== verification/Spinlock.thy ===== *)
theory Spinlock
  imports Prelude
begin

text \<open>
  Spin locks on several CPUs, \<open>kernel/spinlock.c\<close>.  A CPU that calls \<open>acquire\<close> or
  \<open>release\<close> takes the memory actions of the code one by one (the atomic \<open>xchg\<close>, the store
  of \<open>lk->cpu\<close>), interleaved with the other CPUs; \<open>lstep\<close> is the step relation.  The
  invariant gives mutual exclusion, and relates \<open>ncli\<close> and the interrupt flag to the locks
  held, which is the view of \<open>lock\<close> and \<open>unlock\<close> in \<open>Prelude\<close>.  The debugging fields
  \<open>name\<close> and \<open>pcs\<close> are left out.
\<close>

section \<open>State and operations\<close>

record spinlock =
  locked :: u32
  lkcpu :: "nat option"

text \<open>What a CPU is doing with a lock: nothing, spinning, between \<open>xchg\<close> and the store of
  \<open>lk->cpu\<close>, or between the clearing of \<open>lk->cpu\<close> and the \<open>xchg\<close> of \<open>release\<close>.\<close>

datatype lockpc = Run | Spinning lockid | Got lockid | Releasing lockid

record cpu =
  ncli :: int
  intena :: bool
  iflag :: bool
  lpc :: lockpc

record machine =
  locks :: "lockid \<Rightarrow> spinlock"
  cpus :: "nat \<Rightarrow> cpu"

definition initlock :: spinlock where
  "initlock = \<lparr>locked = 0, lkcpu = None\<rparr>"

definition holding :: "machine \<Rightarrow> nat \<Rightarrow> lockid \<Rightarrow> bool" where
  "holding m c l \<longleftrightarrow> locked (locks m l) \<noteq> 0 \<and> lkcpu (locks m l) = Some c"

definition pushcli :: "cpu \<Rightarrow> cpu" where
  "pushcli k = k\<lparr>iflag := False, ncli := ncli k + 1,
     intena := (if ncli k = 0 then iflag k else intena k)\<rparr>"

definition popcli :: "cpu \<Rightarrow> string + cpu" where
  "popcli k =
     (if iflag k then Inl ''popcli - interruptible''
      else let n = ncli k - 1 in
        if n < 0 then Inl ''popcli''
        else Inr (k\<lparr>ncli := n, iflag := (if n = 0 \<and> intena k then True else iflag k)\<rparr>))"

definition set_cpu :: "nat \<Rightarrow> cpu \<Rightarrow> machine \<Rightarrow> machine" where
  "set_cpu c k m = m\<lparr>cpus := (cpus m)(c := k)\<rparr>"

definition set_lock :: "lockid \<Rightarrow> spinlock \<Rightarrow> machine \<Rightarrow> machine" where
  "set_lock l s m = m\<lparr>locks := (locks m)(l := s)\<rparr>"

text \<open>The actions of \<open>acquire\<close>, in order; the first one may panic.\<close>

definition acquire_start :: "nat \<Rightarrow> lockid \<Rightarrow> machine \<Rightarrow> string + machine" where
  "acquire_start c l m =
     (if holding m c l then Inl ''acquire''
      else Inr (set_cpu c ((pushcli (cpus m c))\<lparr>lpc := Spinning l\<rparr>) m))"

definition xchg_acquire :: "nat \<Rightarrow> lockid \<Rightarrow> machine \<Rightarrow> machine" where
  "xchg_acquire c l m =
     (let old = locked (locks m l);
          m' = set_lock l ((locks m l)\<lparr>locked := 1\<rparr>) m
      in if old \<noteq> 0 then m' else set_cpu c ((cpus m c)\<lparr>lpc := Got l\<rparr>) m')"

definition acquire_done :: "nat \<Rightarrow> lockid \<Rightarrow> machine \<Rightarrow> machine" where
  "acquire_done c l m =
     set_cpu c ((cpus m c)\<lparr>lpc := Run\<rparr>) (set_lock l ((locks m l)\<lparr>lkcpu := Some c\<rparr>) m)"

text \<open>The actions of \<open>release\<close>.\<close>

definition release_start :: "nat \<Rightarrow> lockid \<Rightarrow> machine \<Rightarrow> string + machine" where
  "release_start c l m =
     (if holding m c l
      then Inr (set_cpu c ((cpus m c)\<lparr>lpc := Releasing l\<rparr>) (set_lock l ((locks m l)\<lparr>lkcpu := None\<rparr>) m))
      else Inl ''release'')"

definition release_done :: "nat \<Rightarrow> lockid \<Rightarrow> machine \<Rightarrow> string + machine" where
  "release_done c l m =
     (case popcli (cpus m c) of
        Inl e \<Rightarrow> Inl e
      | Inr k \<Rightarrow> Inr (set_cpu c (k\<lparr>lpc := Run\<rparr>) (set_lock l ((locks m l)\<lparr>locked := 0\<rparr>) m)))"

inductive lstep :: "machine \<Rightarrow> machine \<Rightarrow> bool" where
  acquire_start: "lpc (cpus m c) = Run \<Longrightarrow> acquire_start c l m = Inr m' \<Longrightarrow> lstep m m'"
| acquire_xchg: "lpc (cpus m c) = Spinning l \<Longrightarrow> lstep m (xchg_acquire c l m)"
| acquire_done: "lpc (cpus m c) = Got l \<Longrightarrow> lstep m (acquire_done c l m)"
| release_start: "lpc (cpus m c) = Run \<Longrightarrow> release_start c l m = Inr m' \<Longrightarrow> lstep m m'"
| release_done: "lpc (cpus m c) = Releasing l \<Longrightarrow> release_done c l m = Inr m' \<Longrightarrow> lstep m m'"

inductive_cases lstepE: "lstep m m'"

definition boot_cpu :: cpu where
  "boot_cpu = \<lparr>ncli = 0, intena = False, iflag = True, lpc = Run\<rparr>"

definition boot_machine :: machine where
  "boot_machine = \<lparr>locks = (\<lambda>_. initlock), cpus = (\<lambda>_. boot_cpu)\<rparr>"

inductive reachable :: "machine \<Rightarrow> bool" where
  boot: "reachable boot_machine"
| step: "reachable m \<Longrightarrow> lstep m m' \<Longrightarrow> reachable m'"

section \<open>The invariant\<close>

text \<open>
  The CPU that a lock belongs to: between the two \<open>xchg\<close> of an acquire/release pair.
\<close>

definition owns :: "machine \<Rightarrow> nat \<Rightarrow> lockid \<Rightarrow> bool" where
  "owns m c l \<longleftrightarrow> lkcpu (locks m l) = Some c \<or> lpc (cpus m c) = Got l \<or> lpc (cpus m c) = Releasing l"

definition held_by :: "machine \<Rightarrow> nat \<Rightarrow> lockid set" where
  "held_by m c = {l. lkcpu (locks m l) = Some c}"

text \<open>How many calls of \<open>pushcli\<close> the locks of a CPU account for.\<close>

definition cli_depth :: "machine \<Rightarrow> nat \<Rightarrow> int" where
  "cli_depth m c = int (card (held_by m c)) + (if lpc (cpus m c) = Run then 0 else 1)"

definition cli_ok :: "machine \<Rightarrow> nat \<Rightarrow> bool" where
  "cli_ok m c \<longleftrightarrow> finite (held_by m c) \<and> ncli (cpus m c) = cli_depth m c
     \<and> (0 < ncli (cpus m c) \<longrightarrow> \<not> iflag (cpus m c))"

definition own_inv :: "machine \<Rightarrow> bool" where
  "own_inv m \<longleftrightarrow>
     (\<forall>c l. owns m c l \<longrightarrow> locked (locks m l) \<noteq> 0)
   \<and> (\<forall>c d l. owns m c l \<longrightarrow> owns m d l \<longrightarrow> c = d)
   \<and> (\<forall>c l. lpc (cpus m c) = Got l \<or> lpc (cpus m c) = Releasing l \<longrightarrow> lkcpu (locks m l) = None)
   \<and> (\<forall>l. locked (locks m l) \<noteq> 0 \<longrightarrow> (\<exists>c. owns m c l))"

definition spin_inv :: "machine \<Rightarrow> bool" where
  "spin_inv m \<longleftrightarrow> own_inv m \<and> (\<forall>c. cli_ok m c)"

lemma set_simps [simp]:
  "locks (set_cpu c k m) = locks m" "cpus (set_cpu c k m) = (cpus m)(c := k)"
  "locks (set_lock l s m) = (locks m)(l := s)" "cpus (set_lock l s m) = cpus m"
  by (simp_all add: set_cpu_def set_lock_def)

lemma pushcli_simps [simp]:
  "lpc (pushcli k) = lpc k" "iflag (pushcli k) = False" "ncli (pushcli k) = ncli k + 1"
  by (simp_all add: pushcli_def)

lemma cli_ok_cong:
  "cpus m' d = cpus m d \<Longrightarrow> held_by m' d = held_by m d \<Longrightarrow> cli_ok m' d = cli_ok m d"
  by (simp add: cli_ok_def cli_depth_def)

lemma spin_inv_split: "own_inv m' \<Longrightarrow> (\<And>d. cli_ok m' d) \<Longrightarrow> spin_inv m'"
  by (simp add: spin_inv_def)

lemma cli_ok_other:
  assumes "spin_inv m" "cpus m' d = cpus m d" "held_by m' d = held_by m d"
  shows "cli_ok m' d"
  using assms(1) cli_ok_cong [OF assms(2,3)] by (simp add: spin_inv_def)

lemma own_uniq: "spin_inv m \<Longrightarrow> owns m c l \<Longrightarrow> owns m d l \<Longrightarrow> d = c"
  unfolding spin_inv_def own_inv_def by blast

lemma own_mid: "spin_inv m \<Longrightarrow> lpc (cpus m c) = Got l \<or> lpc (cpus m c) = Releasing l \<Longrightarrow> lkcpu (locks m l) = None"
  unfolding spin_inv_def own_inv_def by blast

lemma own_locked: "spin_inv m \<Longrightarrow> owns m c l \<Longrightarrow> locked (locks m l) \<noteq> 0"
  unfolding spin_inv_def own_inv_def by blast

lemma own_exists: "spin_inv m \<Longrightarrow> locked (locks m l) \<noteq> 0 \<Longrightarrow> \<exists>c. owns m c l"
  unfolding spin_inv_def own_inv_def by blast

lemma own_invI:
  assumes "\<And>c l. owns m c l \<Longrightarrow> locked (locks m l) \<noteq> 0"
    and "\<And>c d l. owns m c l \<Longrightarrow> owns m d l \<Longrightarrow> c = d"
    and "\<And>c l. lpc (cpus m c) = Got l \<or> lpc (cpus m c) = Releasing l \<Longrightarrow> lkcpu (locks m l) = None"
    and "\<And>l. locked (locks m l) \<noteq> 0 \<Longrightarrow> \<exists>c. owns m c l"
  shows "own_inv m"
  unfolding own_inv_def using assms by blast

text \<open>A step that changes neither who owns a lock nor which locks are taken.\<close>

lemma own_inv_same:
  assumes inv: "spin_inv m" and own: "\<And>d k. owns m' d k = owns m d k"
    and lk: "\<And>k. (locked (locks m' k) \<noteq> 0) = (locked (locks m k) \<noteq> 0)"
    and mid: "\<And>d k. lpc (cpus m' d) = Got k \<or> lpc (cpus m' d) = Releasing k \<Longrightarrow> lkcpu (locks m' k) = None"
  shows "own_inv m'"
proof (rule own_invI)
  show "owns m' c l \<Longrightarrow> locked (locks m' l) \<noteq> 0" for c l
    unfolding own lk by (rule own_locked [OF inv])
  show "owns m' c l \<Longrightarrow> owns m' d l \<Longrightarrow> c = d" for c d l
    unfolding own using own_uniq [OF inv, of d l c] by simp
  show "locked (locks m' l) \<noteq> 0 \<Longrightarrow> \<exists>c. owns m' c l" for l
    unfolding own lk by (rule own_exists [OF inv])
qed (rule mid)

lemma spin_inv_boot: "spin_inv boot_machine"
  by (simp add: spin_inv_def own_inv_def cli_ok_def boot_machine_def owns_def boot_cpu_def initlock_def
      held_by_def cli_depth_def)

lemma spin_inv_acquire_start:
  assumes "spin_inv m" "lpc (cpus m c) = Run" "acquire_start c l m = Inr m'"
  shows "spin_inv m'"
proof -
  have m': "m' = set_cpu c ((pushcli (cpus m c))\<lparr>lpc := Spinning l\<rparr>) m"
    using assms(3) by (simp add: acquire_start_def split: if_splits)
  have own: "owns m' d k \<longleftrightarrow> owns m d k" for d k
    using assms(2) by (auto simp: owns_def m')
  have held: "held_by m' d = held_by m d" for d by (simp add: held_by_def m')
  show ?thesis
  proof (rule spin_inv_split)
    show "own_inv m'"
    proof (rule own_inv_same [OF assms(1) own])
      fix d k assume "lpc (cpus m' d) = Got k \<or> lpc (cpus m' d) = Releasing k"
      then have "lpc (cpus m d) = Got k \<or> lpc (cpus m d) = Releasing k"
        by (simp add: m' split: if_splits)
      from own_mid [OF assms(1) this] show "lkcpu (locks m' k) = None" by (simp add: m')
    qed (simp add: m')
    show "cli_ok m' d" for d
    proof (cases "d = c")
      case True
      then show ?thesis
        using assms(1,2) held [of c] by (simp add: spin_inv_def cli_ok_def cli_depth_def) (simp add: m')
    next
      case False
      then show ?thesis using held by (intro cli_ok_other [OF assms(1)]) (simp_all add: m')
    qed
  qed
qed

lemma spin_inv_xchg:
  assumes inv: "spin_inv m" and pc: "lpc (cpus m c) = Spinning l"
  shows "spin_inv (xchg_acquire c l m)"
proof (cases "locked (locks m l) = 0")
  case False
  let ?m = "xchg_acquire c l m"
  have own: "owns ?m d k \<longleftrightarrow> owns m d k" for d k
    using False by (auto simp: owns_def xchg_acquire_def)
  have held: "held_by ?m d = held_by m d" for d
    using False by (auto simp: held_by_def xchg_acquire_def)
  have cpus: "cpus ?m = cpus m" using False by (simp add: xchg_acquire_def)
  show ?thesis
  proof (rule spin_inv_split)
    show "own_inv ?m"
    proof (rule own_inv_same [OF inv own])
      fix d k assume "lpc (cpus ?m d) = Got k \<or> lpc (cpus ?m d) = Releasing k"
      from own_mid [OF inv this [unfolded cpus]] show "lkcpu (locks ?m k) = None"
        by (cases "k = l") (simp_all add: xchg_acquire_def Let_def)
    qed (use False in \<open>simp add: xchg_acquire_def Let_def\<close>)
    show "cli_ok ?m d" for d using inv held cpus by (intro cli_ok_other) simp_all
  qed
next
  case True
  let ?m = "xchg_acquire c l m"
  have free: "\<not> owns m d l" for d using inv True by (auto simp: spin_inv_def own_inv_def)
  have own: "owns ?m d k \<longleftrightarrow> (if k = l then d = c else owns m d k)" for d k
    using True free [of d] pc by (auto simp: owns_def xchg_acquire_def)
  have held: "held_by ?m d = held_by m d" for d
    using True by (auto simp: held_by_def xchg_acquire_def)
  have none: "lkcpu (locks m l) = None"
    using free by (cases "lkcpu (locks m l)") (auto simp: owns_def)
  show ?thesis
  proof (rule spin_inv_split)
    show "own_inv ?m"
    proof (rule own_invI)
      show "owns ?m d k \<Longrightarrow> locked (locks ?m k) \<noteq> 0" for d k
        using own_locked [OF inv, of d k] True unfolding own by (simp add: xchg_acquire_def split: if_splits)
      show "owns ?m d k \<Longrightarrow> owns ?m e k \<Longrightarrow> d = e" for d e k
        using own_uniq [OF inv, of e k d] unfolding own by (simp split: if_splits)
      show "locked (locks ?m k) \<noteq> 0 \<Longrightarrow> \<exists>d. owns ?m d k" for k
        using own_exists [OF inv, of k] True unfolding own by (cases "k = l") (auto simp: xchg_acquire_def)
      show "lpc (cpus ?m d) = Got k \<or> lpc (cpus ?m d) = Releasing k \<Longrightarrow> lkcpu (locks ?m k) = None" for d k
        using own_mid [OF inv, of d k] True none by (simp add: xchg_acquire_def split: if_splits)
    qed
    show "cli_ok ?m d" for d
    proof (cases "d = c")
      case d: True
      then show ?thesis
        using inv pc held [of c] by (simp add: spin_inv_def cli_ok_def cli_depth_def) (simp add: xchg_acquire_def True)
    next
      case False
      then show ?thesis using inv held by (intro cli_ok_other) (simp_all add: xchg_acquire_def True)
    qed
  qed
qed

lemma spin_inv_acquire_done:
  assumes inv: "spin_inv m" and pc: "lpc (cpus m c) = Got l"
  shows "spin_inv (acquire_done c l m)"
proof -
  let ?m = "acquire_done c l m"
  have ol: "owns m c l" using pc by (simp add: owns_def)
  have none: "lkcpu (locks m l) = None" using own_mid [OF inv, of c l] pc by simp
  note uniq = own_uniq [OF inv ol]
  have own: "owns ?m d k \<longleftrightarrow> owns m d k" for d k
  proof (cases "k = l")
    case True
    have "owns m d l \<longleftrightarrow> d = c" using ol uniq by blast
    moreover have "owns ?m d l \<longleftrightarrow> d = c"
    proof (cases "d = c")
      case False
      then have "\<not> owns m d l" using uniq by blast
      then show ?thesis using False by (simp add: owns_def acquire_done_def)
    qed (simp add: owns_def acquire_done_def)
    ultimately show ?thesis using True by simp
  next
    case False
    then show ?thesis using pc by (cases "d = c") (simp_all add: owns_def acquire_done_def)
  qed
  have held: "held_by ?m d = (if d = c then insert l (held_by m c) else held_by m d)" for d
    using none by (auto simp: held_by_def acquire_done_def)
  have new: "l \<notin> held_by m c" using none by (simp add: held_by_def)
  show ?thesis
  proof (rule spin_inv_split)
    have "lkcpu (locks ?m k) = None" if "lpc (cpus ?m d) = Got k \<or> lpc (cpus ?m d) = Releasing k" for d k
    proof -
      have d: "d \<noteq> c" "lpc (cpus m d) = Got k \<or> lpc (cpus m d) = Releasing k"
        using that by (auto simp: acquire_done_def split: if_splits)
      then have "k \<noteq> l" using uniq [of d] by (auto simp: owns_def)
      then show ?thesis using own_mid [OF inv d(2)] by (simp add: acquire_done_def)
    qed
    then show "own_inv ?m"
      by (intro own_inv_same [OF inv own]) (simp_all add: acquire_done_def)
    show "cli_ok ?m d" for d
    proof (cases "d = c")
      case True
      then show ?thesis
        using inv pc new held [of c] by (simp add: spin_inv_def cli_ok_def cli_depth_def) (simp add: acquire_done_def)
    next
      case False
      then show ?thesis using inv held by (intro cli_ok_other) (simp_all add: acquire_done_def)
    qed
  qed
qed

lemma spin_inv_release_start:
  assumes inv: "spin_inv m" and pc: "lpc (cpus m c) = Run" and r: "release_start c l m = Inr m'"
  shows "spin_inv m'"
proof -
  have h: "holding m c l"
    and m': "m' = set_cpu c ((cpus m c)\<lparr>lpc := Releasing l\<rparr>) (set_lock l ((locks m l)\<lparr>lkcpu := None\<rparr>) m)"
    using r by (auto simp: release_start_def split: if_splits)
  have lc: "lkcpu (locks m l) = Some c" using h by (simp add: holding_def)
  then have ol: "owns m c l" by (simp add: owns_def)
  note uniq = own_uniq [OF inv ol]
  have own: "owns m' d k \<longleftrightarrow> owns m d k" for d k
  proof (cases "k = l")
    case True
    then show ?thesis using lc ol uniq [of d] by (auto simp: owns_def m')
  next
    case False
    then show ?thesis using pc by (auto simp: owns_def m')
  qed
  have held: "held_by m' d = (if d = c then held_by m c - {l} else held_by m d)" for d
    using lc by (auto simp: held_by_def m')
  have old: "l \<in> held_by m c" using lc by (simp add: held_by_def)
  show ?thesis
  proof (rule spin_inv_split)
    have "lkcpu (locks m' k) = None" if "lpc (cpus m' d) = Got k \<or> lpc (cpus m' d) = Releasing k" for d k
      using that own_mid [OF inv, of d k] by (auto simp: m' split: if_splits)
    then show "own_inv m'"
      by (intro own_inv_same [OF inv own]) (simp_all add: m')
    show "cli_ok m' d" for d
    proof (cases "d = c")
      case True
      have "0 < card (held_by m c)"
        using inv old by (auto simp: spin_inv_def cli_ok_def card_gt_0_iff)
      then show ?thesis
        using True inv pc old held [of c]
        by (simp add: spin_inv_def cli_ok_def cli_depth_def) (simp add: m' of_nat_diff)
    next
      case False
      then show ?thesis using inv held by (intro cli_ok_other) (simp_all add: m')
    qed
  qed
qed

text \<open>The lock of a finished \<open>release\<close> belongs to nobody; \<open>popcli\<close> does not panic there.\<close>

lemma release_done_ok:
  assumes inv: "spin_inv m" and pc: "lpc (cpus m c) = Releasing l"
  shows "\<exists>m'. release_done c l m = Inr m' \<and> spin_inv m'"
proof -
  have co: "cli_ok m c" using inv by (simp add: spin_inv_def)
  then have n: "0 < ncli (cpus m c)" "\<not> iflag (cpus m c)"
    using pc by (auto simp: cli_ok_def cli_depth_def)
  let ?k = "(cpus m c)\<lparr>ncli := ncli (cpus m c) - 1,
    iflag := (if ncli (cpus m c) - 1 = 0 \<and> intena (cpus m c) then True else iflag (cpus m c))\<rparr>"
  let ?m = "set_cpu c (?k\<lparr>lpc := Run\<rparr>) (set_lock l ((locks m l)\<lparr>locked := 0\<rparr>) m)"
  have r: "release_done c l m = Inr ?m"
    using n by (simp add: release_done_def popcli_def Let_def)
  have ol: "owns m c l" using pc by (simp add: owns_def)
  have none: "lkcpu (locks m l) = None" using own_mid [OF inv, of c l] pc by simp
  note uniq = own_uniq [OF inv ol]
  have own: "owns ?m d k \<longleftrightarrow> (if k = l then False else owns m d k)" for d k
  proof (cases "k = l \<and> d \<noteq> c")
    case True
    then have "\<not> owns m d k" using uniq by blast
    then show ?thesis using True none by (simp add: owns_def)
  next
    case False
    then show ?thesis using none pc by (cases "k = l") (simp_all add: owns_def)
  qed
  have held: "held_by ?m d = held_by m d" for d by (auto simp: held_by_def)
  have "spin_inv ?m"
  proof (rule spin_inv_split)
    show "own_inv ?m"
    proof (rule own_invI)
      show "owns ?m d k \<Longrightarrow> locked (locks ?m k) \<noteq> 0" for d k
        using own_locked [OF inv, of d k] unfolding own by (simp split: if_splits)
      show "owns ?m d k \<Longrightarrow> owns ?m e k \<Longrightarrow> d = e" for d e k
        using own_uniq [OF inv, of e k d] unfolding own by (simp split: if_splits)
      show "locked (locks ?m k) \<noteq> 0 \<Longrightarrow> \<exists>d. owns ?m d k" for k
        using own_exists [OF inv, of k] unfolding own by (cases "k = l") simp_all
      show "lpc (cpus ?m d) = Got k \<or> lpc (cpus ?m d) = Releasing k \<Longrightarrow> lkcpu (locks ?m k) = None" for d k
        using own_mid [OF inv, of d k] none by (simp split: if_splits)
    qed
    show "cli_ok ?m d" for d
    proof (cases "d = c")
      case True
      then show ?thesis
        using co n pc held [of c] by (simp add: cli_ok_def cli_depth_def)
    next
      case False
      then show ?thesis using inv held by (intro cli_ok_other) simp_all
    qed
  qed
  with r show ?thesis by blast
qed

lemma spin_inv_step: "lstep m m' \<Longrightarrow> spin_inv m \<Longrightarrow> spin_inv m'"
proof (induction rule: lstep.induct)
  case (release_done m c l m')
  then show ?case using release_done_ok [of m c l] by auto
qed (blast intro: spin_inv_acquire_start spin_inv_xchg spin_inv_acquire_done spin_inv_release_start)+

lemma spin_inv_reachable: "reachable m \<Longrightarrow> spin_inv m"
  by (induction rule: reachable.induct) (auto intro: spin_inv_boot spin_inv_step)

section \<open>The view of one CPU\<close>

definition cpu_view :: "machine \<Rightarrow> nat \<Rightarrow> kcore" where
  "cpu_view m c = \<lparr>held = held_by m c\<rparr>"

lemma holding_held: "spin_inv m \<Longrightarrow> holding m c l \<longleftrightarrow> l \<in> held_by m c"
  using own_locked [of m c l] by (auto simp: holding_def held_by_def owns_def)

lemma lock_view:
  "lock l (cpu_view m c) = (if l \<in> held_by m c then Panic ''acquire'' else Done () \<lparr>held = insert l (held_by m c)\<rparr>)"
  "unlock l (cpu_view m c) = (if l \<in> held_by m c then Done () \<lparr>held = held_by m c - {l}\<rparr> else Panic ''release'')"
  by (simp_all add: lock_def unlock_def prog_defs cpu_view_def)

lemma held_by_steps:
  "held_by (set_cpu c k m) d = held_by m d"
  "held_by (set_lock l s m) d = (if lkcpu s = Some d then insert l (held_by m d) else held_by m d - {l})"
  by (auto simp: held_by_def)

lemma owns_cli: "spin_inv m \<Longrightarrow> owns m c l \<Longrightarrow> \<not> iflag (cpus m c)"
proof -
  assume inv: "spin_inv m" and own: "owns m c l"
  have co: "cli_ok m c" using inv by (simp add: spin_inv_def)
  have "lpc (cpus m c) \<noteq> Run \<or> l \<in> held_by m c" using own by (auto simp: owns_def held_by_def)
  then have "0 < cli_depth m c" using co by (auto simp: cli_ok_def cli_depth_def card_gt_0_iff)
  then show ?thesis using co by (simp add: cli_ok_def)
qed

lemma xchg_view: "cpu_view (xchg_acquire c l m) d = cpu_view m d"
proof -
  have "lkcpu (locks (xchg_acquire c l m) k) = lkcpu (locks m k)" for k
    by (simp add: xchg_acquire_def Let_def)
  then show ?thesis by (simp add: cpu_view_def held_by_def)
qed

lemma xchg_got:
  assumes "lpc (cpus m c) = Spinning l"
  shows "lpc (cpus (xchg_acquire c l m) c) = (if locked (locks m l) = 0 then Got l else Spinning l)"
  using assms by (simp add: xchg_acquire_def Let_def)

lemma locked_owns: "spin_inv m \<Longrightarrow> locked (locks m l) = 0 \<longleftrightarrow> (\<forall>d. \<not> owns m d l)"
  using own_exists own_locked by blast

lemma release_done_frees:
  assumes "spin_inv m" "lpc (cpus m c) = Releasing l"
  shows "\<exists>m'. release_done c l m = Inr m' \<and> (\<forall>d. cpu_view m' d = cpu_view m d)
    \<and> locked (locks m' l) = 0 \<and> (\<forall>d. \<not> owns m' d l) \<and> (\<forall>k. k \<noteq> l \<longrightarrow> locks m' k = locks m k)"
proof -
  obtain m' where m': "release_done c l m = Inr m'" "spin_inv m'"
    using release_done_ok [OF assms] by blast
  have "locked (locks m' l) = 0" "\<forall>k. lkcpu (locks m' k) = lkcpu (locks m k)"
      "\<forall>k. k \<noteq> l \<longrightarrow> locks m' k = locks m k"
    using m'(1) by (auto simp: release_done_def split: sum.splits)
  then show ?thesis
    using m' locked_owns [OF m'(2), of l] by (auto simp: cpu_view_def held_by_def)
qed

section \<open>Properties\<close>

text \<open>C5: Mutual exclusion: in every reachable state of any number of CPUs that acquire and
  release in any interleaving, at most one CPU is past its \<open>xchg\<close> on a lock and not yet through
  the \<open>xchg\<close> of its \<open>release\<close>: it is about to store \<open>lk->cpu\<close>, or its number is there, or it is
  releasing.  As long as one is, \<open>locked\<close> is set, that CPU has its interrupts disabled, no other
  CPU passes \<open>holding\<close>, and the \<open>xchg\<close> of a CPU that spins leaves it spinning.\<close>

theorem mutual_exclusion:
  assumes "reachable m"
    and "lpc (cpus m c) = Got l \<or> lkcpu (locks m l) = Some c \<or> lpc (cpus m c) = Releasing l"
  shows "(\<forall>d. lpc (cpus m d) = Got l \<or> lkcpu (locks m l) = Some d \<or> lpc (cpus m d) = Releasing l
            \<longrightarrow> d = c)
     \<and> locked (locks m l) \<noteq> 0 \<and> \<not> iflag (cpus m c) \<and> (\<forall>d. holding m d l \<longrightarrow> d = c)
     \<and> (\<forall>d. lpc (cpus m d) = Spinning l \<longrightarrow> lpc (cpus (xchg_acquire d l m) d) = Spinning l)"
proof -
  note inv = spin_inv_reachable [OF assms(1)]
  have own: "owns m c l" using assms(2) by (auto simp: owns_def)
  have uniq: "d = c" if "owns m d l" for d using own_uniq [OF inv own that] .
  then have one: "\<forall>d. lpc (cpus m d) = Got l \<or> lkcpu (locks m l) = Some d \<or> lpc (cpus m d) = Releasing l
      \<longrightarrow> d = c"
    by (simp add: owns_def)
  have hold: "\<forall>d. holding m d l \<longrightarrow> d = c" using uniq by (simp add: owns_def holding_def)
  show ?thesis
    using one hold own_locked [OF inv own] owns_cli [OF inv own] by (simp add: xchg_got)
qed

definition one_holder :: machine where
  "one_holder = acquire_done 0 Lkmem (xchg_acquire 0 Lkmem
     (set_cpu 0 ((pushcli boot_cpu)\<lparr>lpc := Spinning Lkmem\<rparr>) boot_machine))"

text \<open>CPU 0 holds the lock and CPU 1 spins on it.\<close>

definition contended :: machine where
  "contended = set_cpu 1 ((pushcli boot_cpu)\<lparr>lpc := Spinning Lkmem\<rparr>) one_holder"

lemma one_holder_reachable: "reachable one_holder" "holding one_holder 0 Lkmem"
proof -
  let ?a = "set_cpu 0 ((pushcli boot_cpu)\<lparr>lpc := Spinning Lkmem\<rparr>) boot_machine"
  have "acquire_start 0 Lkmem boot_machine = Inr ?a"
    by (simp add: acquire_start_def holding_def boot_machine_def initlock_def)
  then have a: "reachable ?a"
    by (intro reachable.step [OF reachable.boot] lstep.acquire_start [of _ 0 Lkmem])
      (simp_all add: boot_machine_def boot_cpu_def)
  have "reachable (xchg_acquire 0 Lkmem ?a)"
    by (rule reachable.step [OF a]) (rule lstep.acquire_xchg, simp)
  then show "reachable one_holder"
    unfolding one_holder_def
    by (rule reachable.step, intro lstep.acquire_done)
      (simp add: xchg_acquire_def boot_machine_def initlock_def)
  show "holding one_holder 0 Lkmem"
    by (simp add: one_holder_def holding_def acquire_done_def xchg_acquire_def boot_machine_def initlock_def)
qed

lemma contended_reachable: "reachable contended" "lkcpu (locks contended Lkmem) = Some 0"
proof -
  have cpu: "cpus one_holder 1 = boot_cpu" and lk: "lkcpu (locks one_holder Lkmem) = Some 0"
    by (simp_all add: one_holder_def acquire_done_def xchg_acquire_def boot_machine_def initlock_def)
  then have "acquire_start 1 Lkmem one_holder = Inr contended"
    by (simp add: acquire_start_def holding_def contended_def)
  then show "reachable contended"
    using cpu by (intro reachable.step [OF one_holder_reachable(1)] lstep.acquire_start [of _ 1 Lkmem])
      (simp_all add: boot_cpu_def)
  show "lkcpu (locks contended Lkmem) = Some 0" using lk by (simp add: contended_def)
qed

theorem mutual_exclusion_witness:
  "\<not> iflag (cpus contended 0) \<and> lpc (cpus (xchg_acquire 1 Lkmem contended) 1) = Spinning Lkmem"
proof -
  have "lpc (cpus contended 1) = Spinning Lkmem" by (simp add: contended_def)
  then show ?thesis
    using mutual_exclusion [OF contended_reachable(1), of 0 Lkmem] contended_reachable(2) by simp
qed

text \<open>C6: The routines' view of a lock is what the implementation does.  A call of \<open>acquire\<close>
  (\<open>release\<close>) panics exactly when \<open>lock\<close> (\<open>unlock\<close>) of the model does, and with the same
  message; the atomic action of \<open>acquire\<close> that records the holder is the model's \<open>lock\<close> for
  that CPU, the one that clears it is \<open>unlock\<close>, and both leave the views of the other CPUs alone.
  The other actions (the start of \<open>acquire\<close>, an \<open>xchg\<close> that succeeds or fails, the end of
  \<open>release\<close>) leave all views alone.  \<open>locked\<close> is 0 exactly when no CPU is past its \<open>xchg\<close> on the
  lock, and exactly then the \<open>xchg\<close> of a spinning CPU succeeds; a \<open>release\<close> in progress never
  panics in \<open>popcli\<close>, clears \<open>locked\<close>, leaves the lock to nobody and the other locks untouched.\<close>

theorem spinlock_refines_lock:
  assumes "reachable m"
  shows "(\<forall>e. (acquire_start c l m = Inl e) = (lock l (cpu_view m c) = Panic e))
     \<and> (\<forall>e. (release_start c l m = Inl e) = (unlock l (cpu_view m c) = Panic e))
     \<and> (\<forall>m'. acquire_start c l m = Inr m' \<longrightarrow> (\<forall>d. cpu_view m' d = cpu_view m d))
     \<and> (\<forall>d. cpu_view (xchg_acquire c l m) d = cpu_view m d)
     \<and> (locked (locks m l) = 0) = (\<forall>d. \<not> owns m d l)
     \<and> (lpc (cpus m c) = Spinning l \<longrightarrow>
          lpc (cpus (xchg_acquire c l m) c) = (if \<exists>d. owns m d l then Spinning l else Got l))
     \<and> (lpc (cpus m c) = Got l \<longrightarrow> lock l (cpu_view m c) = Done () (cpu_view (acquire_done c l m) c)
          \<and> (\<forall>d. d \<noteq> c \<longrightarrow> cpu_view (acquire_done c l m) d = cpu_view m d))
     \<and> (\<forall>m'. release_start c l m = Inr m' \<longrightarrow> unlock l (cpu_view m c) = Done () (cpu_view m' c)
          \<and> (\<forall>d. d \<noteq> c \<longrightarrow> cpu_view m' d = cpu_view m d))
     \<and> (lpc (cpus m c) = Releasing l \<longrightarrow>
          (\<exists>m'. release_done c l m = Inr m' \<and> (\<forall>d. cpu_view m' d = cpu_view m d)
             \<and> locked (locks m' l) = 0 \<and> (\<forall>d. \<not> owns m' d l)
             \<and> (\<forall>k. k \<noteq> l \<longrightarrow> locks m' k = locks m k)))"
proof -
  note inv = spin_inv_reachable [OF assms]
  note h = holding_held [OF inv]
  have none: "lkcpu (locks m l) = None" if "lpc (cpus m c) = Got l"
    using own_mid [OF inv] that by blast
  have acq: "lock l (cpu_view m c) = Done () (cpu_view (acquire_done c l m) c)
      \<and> (\<forall>d. d \<noteq> c \<longrightarrow> cpu_view (acquire_done c l m) d = cpu_view m d)" if "lpc (cpus m c) = Got l"
    using none [OF that] unfolding lock_view
    by (auto simp: cpu_view_def acquire_done_def held_by_steps held_by_def)
  have rel: "unlock l (cpu_view m c) = Done () (cpu_view m' c)
      \<and> (\<forall>d. d \<noteq> c \<longrightarrow> cpu_view m' d = cpu_view m d)" if "release_start c l m = Inr m'" for m'
    using that unfolding lock_view
    by (auto simp: release_start_def cpu_view_def held_by_steps h held_by_def holding_def split: if_splits)
  have start: "cpu_view m' d = cpu_view m d" if "acquire_start c l m = Inr m'" for m' d
    using that by (auto simp: acquire_start_def cpu_view_def held_by_steps split: if_splits)
  have xchg: "lpc (cpus (xchg_acquire c l m) c) = (if \<exists>d. owns m d l then Spinning l else Got l)"
    if "lpc (cpus m c) = Spinning l"
    using xchg_got [OF that] locked_owns [OF inv, of l] by auto
  have panics: "(\<forall>e. (acquire_start c l m = Inl e) = (lock l (cpu_view m c) = Panic e))
      \<and> (\<forall>e. (release_start c l m = Inl e) = (unlock l (cpu_view m c) = Panic e))"
    by (auto simp: acquire_start_def release_start_def lock_view h)
  show ?thesis
    using panics start xchg_view xchg acq rel release_done_frees [OF inv] locked_owns [OF inv, of l]
    by blast
qed

theorem spinlock_refines_lock_witness:
  "acquire_start 0 Lkmem one_holder = Inl ''acquire'' \<and> \<not> (\<exists>e. release_start 0 Lkmem one_holder = Inl e)"
proof -
  have "Lkmem \<in> held_by one_holder 0"
    using one_holder_reachable(2) by (simp add: holding_def held_by_def)
  then show ?thesis
    using spinlock_refines_lock [OF one_holder_reachable(1), of 0 Lkmem] by (simp add: lock_view)
qed

end
