(* ===== verification/Wakeup.thy ===== *)
theory Wakeup
  imports Prelude
begin

text \<open>
  \<open>sleep\<close> and \<open>wakeup\<close> of \<open>kernel/proc.c\<close> as a protocol of many processes: each waits for a
  condition protected by a lock, or makes it true and wakes the waiters.  The actions are the
  lock operations and stores of the two routines, in the code's order, interleaved freely;
  \<open>ptable.lock\<close> is taken before the condition's lock is given up, which is what rules out
  lost wakeups.
\<close>

section \<open>The protocol\<close>

text \<open>
  The sleeper holds the lock at its loop head (\<open>Testing\<close>), enters \<open>sleep\<close> (\<open>WantsPt\<close>), holds
  both locks, holds only \<open>ptable.lock\<close>, is \<open>SLEEPING\<close>, or has been made \<open>RUNNABLE\<close> and wants
  its lock back.  The waker holds the lock, has set the condition and calls \<open>wakeup\<close>
  (\<open>Announced\<close>), holds \<open>ptable.lock\<close> too (\<open>Waking\<close>), or has woken everybody.
\<close>

datatype wpc = Outside | Testing | WantsPt | HasBoth | HasPt | Asleep | Woken
  | Entered | Announced | Waking | Announced_all

record wsys =
  wpc :: "nat \<Rightarrow> wpc"
  lkown :: "nat option"
  ptown :: "nat option"
  cond :: bool

definition at :: "nat \<Rightarrow> wpc \<Rightarrow> wsys \<Rightarrow> wsys" where
  "at p q s = s\<lparr>wpc := (wpc s)(p := q)\<rparr>"

text \<open>\<open>wakeup1\<close>: every process asleep on the channel becomes runnable.\<close>

definition wake_all :: "wsys \<Rightarrow> wsys" where
  "wake_all s = s\<lparr>wpc := (\<lambda>p. if wpc s p = Asleep then Woken else wpc s p)\<rparr>"

inductive wstep :: "wsys \<Rightarrow> wsys \<Rightarrow> bool" where
  enter: "wpc s p = Outside \<Longrightarrow> lkown s = None \<Longrightarrow> wstep s (at p Testing (s\<lparr>lkown := Some p\<rparr>))"
| proceed: "wpc s p = Testing \<Longrightarrow> cond s \<Longrightarrow> wstep s (at p Outside (s\<lparr>cond := False, lkown := None\<rparr>))"
| sleep_call: "wpc s p = Testing \<Longrightarrow> \<not> cond s \<Longrightarrow> wstep s (at p WantsPt s)"
| sleep_acquire: "wpc s p = WantsPt \<Longrightarrow> ptown s = None \<Longrightarrow> wstep s (at p HasBoth (s\<lparr>ptown := Some p\<rparr>))"
| sleep_release: "wpc s p = HasBoth \<Longrightarrow> wstep s (at p HasPt (s\<lparr>lkown := None\<rparr>))"
| sleep_sched: "wpc s p = HasPt \<Longrightarrow> wstep s (at p Asleep (s\<lparr>ptown := None\<rparr>))"
| sleep_return: "wpc s p = Woken \<Longrightarrow> lkown s = None \<Longrightarrow> wstep s (at p Testing (s\<lparr>lkown := Some p\<rparr>))"
| wenter: "wpc s p = Outside \<Longrightarrow> lkown s = None \<Longrightarrow> wstep s (at p Entered (s\<lparr>lkown := Some p\<rparr>))"
| announce: "wpc s p = Entered \<Longrightarrow> wstep s (at p Announced (s\<lparr>cond := True\<rparr>))"
| wake_acquire: "wpc s p = Announced \<Longrightarrow> ptown s = None \<Longrightarrow> wstep s (at p Waking (s\<lparr>ptown := Some p\<rparr>))"
| wakeup1: "wpc s p = Waking \<Longrightarrow> wstep s (at p Announced_all (wake_all (s\<lparr>ptown := None\<rparr>)))"
| leave: "wpc s p = Announced_all \<Longrightarrow> wstep s (at p Outside (s\<lparr>lkown := None\<rparr>))"

definition winit :: wsys where
  "winit = \<lparr>wpc = (\<lambda>_. Outside), lkown = None, ptown = None, cond = False\<rparr>"

inductive wreach :: "wsys \<Rightarrow> bool" where
  init: "wreach winit"
| step: "wreach s \<Longrightarrow> wstep s t \<Longrightarrow> wreach t"

section \<open>The invariant\<close>

definition with_lk :: "wpc \<Rightarrow> bool" where
  "with_lk q \<longleftrightarrow> q \<in> {Testing, WantsPt, HasBoth, Entered, Announced, Waking, Announced_all}"

definition with_pt :: "wpc \<Rightarrow> bool" where
  "with_pt q \<longleftrightarrow> q \<in> {HasBoth, HasPt, Waking}"

text \<open>The condition is false, or a waker that has set it has not yet run \<open>wakeup1\<close>.\<close>

definition pending :: "wsys \<Rightarrow> bool" where
  "pending s \<longleftrightarrow> \<not> cond s \<or> (\<exists>q. lkown s = Some q \<and> wpc s q \<in> {Announced, Waking})"

definition winv :: "wsys \<Rightarrow> bool" where
  "winv s \<longleftrightarrow> (\<forall>p. with_lk (wpc s p) = (lkown s = Some p)) \<and> (\<forall>p. with_pt (wpc s p) = (ptown s = Some p))
     \<and> (\<forall>p. wpc s p \<in> {WantsPt, HasBoth} \<longrightarrow> \<not> cond s)
     \<and> (\<forall>p. wpc s p \<in> {HasPt, Asleep} \<longrightarrow> pending s)"

lemma at_simps [simp]:
  "wpc (at p q s) = (wpc s)(p := q)" "lkown (at p q s) = lkown s" "ptown (at p q s) = ptown s"
  "cond (at p q s) = cond s"
  by (simp_all add: at_def)

lemma wake_all_simps [simp]:
  "wpc (wake_all s) p = (if wpc s p = Asleep then Woken else wpc s p)" "lkown (wake_all s) = lkown s"
  "ptown (wake_all s) = ptown s" "cond (wake_all s) = cond s"
  by (simp_all add: wake_all_def)

lemma winvD:
  assumes "winv s"
  shows "with_lk (wpc s p) = (lkown s = Some p)" "with_pt (wpc s p) = (ptown s = Some p)"
    "wpc s p \<in> {WantsPt, HasBoth} \<Longrightarrow> \<not> cond s" "wpc s p \<in> {HasPt, Asleep} \<Longrightarrow> pending s"
  using assms unfolding winv_def by blast+

lemma winvI:
  assumes "\<And>p. with_lk (wpc s p) = (lkown s = Some p)" "\<And>p. with_pt (wpc s p) = (ptown s = Some p)"
    and "\<And>p. wpc s p \<in> {WantsPt, HasBoth} \<Longrightarrow> \<not> cond s"
    and "\<And>p. wpc s p \<in> {HasPt, Asleep} \<Longrightarrow> pending s"
  shows "winv s"
  using assms by (simp add: winv_def)

lemma with_simps [simp]:
  "with_lk Testing" "with_lk WantsPt" "with_lk HasBoth" "with_lk Entered" "with_lk Announced"
  "with_lk Waking" "with_lk Announced_all" "\<not> with_lk Outside" "\<not> with_lk HasPt" "\<not> with_lk Asleep"
  "\<not> with_lk Woken" "with_pt HasBoth" "with_pt HasPt" "with_pt Waking" "\<not> with_pt Testing"
  "\<not> with_pt WantsPt" "\<not> with_pt Entered" "\<not> with_pt Announced" "\<not> with_pt Announced_all"
  "\<not> with_pt Outside" "\<not> with_pt Asleep" "\<not> with_pt Woken"
  by (simp_all add: with_lk_def with_pt_def)

lemma winv_owner:
  assumes "winv s"
  shows "wpc s q = WantsPt \<Longrightarrow> lkown s = Some q" "wpc s q = HasBoth \<Longrightarrow> lkown s = Some q"
    "wpc s q = HasPt \<Longrightarrow> ptown s = Some q" "wpc s q = HasBoth \<Longrightarrow> ptown s = Some q"
  using winvD(1,2) [OF assms, of q] by auto

lemma pendingI: "\<not> cond s \<Longrightarrow> pending s" "wpc s q \<in> {Announced, Waking} \<Longrightarrow> lkown s = Some q \<Longrightarrow> pending s"
  by (auto simp: pending_def)

lemma pending_keep:
  "pending s \<Longrightarrow> lkown t = lkown s \<Longrightarrow> cond t = cond s \<Longrightarrow>
   (\<And>q. lkown s = Some q \<Longrightarrow> wpc t q = wpc s q) \<Longrightarrow> pending t"
  by (auto simp: pending_def)

lemma winv_step: "wstep s t \<Longrightarrow> winv s \<Longrightarrow> winv t"
proof (induction rule: wstep.induct)
  case (enter s p)
  note i = winvD [OF enter(3)] and o = winv_owner [OF enter(3)]
  show ?case
    by (rule winvI) (use i(1,2) [of p] i enter in \<open>auto simp: pending_def dest: o split: if_splits\<close>)
next
  case (proceed s p)
  note i = winvD [OF proceed(3)] and o = winv_owner [OF proceed(3)]
  show ?case
    by (rule winvI) (use i(1,2) [of p] i proceed in \<open>auto simp: pending_def dest: o split: if_splits\<close>)
next
  case (sleep_call s p)
  note i = winvD [OF sleep_call(3)] and o = winv_owner [OF sleep_call(3)]
  show ?case
    by (rule winvI) (use i(1,2) [of p] i sleep_call in \<open>auto simp: pending_def dest: o split: if_splits\<close>)
next
  case (sleep_acquire s p)
  note i = winvD [OF sleep_acquire(3)] and o = winv_owner [OF sleep_acquire(3)]
  show ?case
    by (rule winvI) (use i(1,2) [of p] i sleep_acquire in \<open>auto simp: pending_def dest: o split: if_splits\<close>)
next
  case (sleep_release s p)
  note i = winvD [OF sleep_release(2)] and o = winv_owner [OF sleep_release(2)]
  show ?case
    by (rule winvI) (use i(1,2) [of p] i sleep_release in \<open>auto simp: pending_def dest: o split: if_splits\<close>)
next
  case (sleep_sched s p)
  note i = winvD [OF sleep_sched(2)] and o = winv_owner [OF sleep_sched(2)]
  have "pending s" using i(4) [of p] sleep_sched(1) by simp
  then have "pending (at p Asleep (s\<lparr>ptown := None\<rparr>))"
    by (rule pending_keep) (use i(1) [of p] sleep_sched(1) in auto)
  then show ?case
    by (intro winvI) (use i(1,2) [of p] i sleep_sched in \<open>auto dest: o split: if_splits\<close>)
next
  case (sleep_return s p)
  note i = winvD [OF sleep_return(3)] and o = winv_owner [OF sleep_return(3)]
  show ?case
    by (rule winvI) (use i(1,2) [of p] i sleep_return in \<open>auto simp: pending_def dest: o split: if_splits\<close>)
next
  case (wenter s p)
  note i = winvD [OF wenter(3)] and o = winv_owner [OF wenter(3)]
  show ?case
    by (rule winvI) (use i(1,2) [of p] i wenter in \<open>auto simp: pending_def dest: o split: if_splits\<close>)
next
  case (announce s p)
  note i = winvD [OF announce(2)] and o = winv_owner [OF announce(2)]
  show ?case
    by (rule winvI) (use i(1,2) [of p] i announce in \<open>auto simp: pending_def dest: o split: if_splits\<close>)
next
  case (wake_acquire s p)
  note i = winvD [OF wake_acquire(3)] and o = winv_owner [OF wake_acquire(3)]
  show ?case
    by (rule winvI) (use i(1,2) [of p] i wake_acquire in \<open>auto simp: pending_def dest: o split: if_splits\<close>)
next
  case (wakeup1 s p)
  note i = winvD [OF wakeup1(2)] and o = winv_owner [OF wakeup1(2)]
  show ?case
    by (rule winvI) (use i(1,2) [of p] i wakeup1 in \<open>auto simp: pending_def dest: o split: if_splits\<close>)
next
  case (leave s p)
  note i = winvD [OF leave(2)] and o = winv_owner [OF leave(2)]
  show ?case
    by (rule winvI) (use i(1,2) [of p] i leave in \<open>auto simp: pending_def dest: o split: if_splits\<close>)
qed

lemma winv_reach: "wreach s \<Longrightarrow> winv s"
proof (induction rule: wreach.induct)
  case init
  show ?case by (rule winvI) (simp_all add: winit_def pending_def)
qed (rule winv_step)

section \<open>Properties\<close>

text \<open>C7: No wakeup is lost: whenever, in any interleaving of any number of sleepers and wakers,
  a process is asleep although the condition it waits for holds, the process that made the
  condition true still holds the lock and has yet to run \<open>wakeup1\<close>.\<close>

theorem no_lost_wakeup:
  assumes "wreach s" "wpc s p = Asleep" "cond s"
  shows "\<exists>q. lkown s = Some q \<and> (wpc s q = Announced \<or> wpc s q = Waking)"
  using winvD(4) [OF winv_reach [OF assms(1)], of p] assms(2,3) by (auto simp: pending_def)

text \<open>Process 0 sleeps; process 1 has set the condition.\<close>

definition asleep_state :: wsys where
  "asleep_state = at 1 Announced ((at 1 Entered ((at 0 Asleep ((at 0 HasPt ((at 0 HasBoth ((at 0 WantsPt
     (at 0 Testing (winit\<lparr>lkown := Some 0\<rparr>)))\<lparr>ptown := Some 0\<rparr>))\<lparr>lkown := None\<rparr>))\<lparr>ptown := None\<rparr>))
     \<lparr>lkown := Some 1\<rparr>))\<lparr>cond := True\<rparr>)"

lemma asleep_state_reach: "wreach asleep_state"
proof -
  let ?a = "at 0 Testing (winit\<lparr>lkown := Some 0\<rparr>)"
  let ?b = "at 0 WantsPt ?a"
  let ?c = "at 0 HasBoth (?b\<lparr>ptown := Some 0\<rparr>)"
  let ?d = "at 0 HasPt (?c\<lparr>lkown := None\<rparr>)"
  let ?e = "at 0 Asleep (?d\<lparr>ptown := None\<rparr>)"
  let ?f = "at 1 Entered (?e\<lparr>lkown := Some 1\<rparr>)"
  have "wreach ?a" by (rule wreach.step [OF wreach.init]) (rule wstep.enter, simp_all add: winit_def)
  then have "wreach ?b" by (rule wreach.step) (rule wstep.sleep_call, simp_all add: winit_def)
  then have "wreach ?c" by (rule wreach.step) (rule wstep.sleep_acquire, simp_all add: winit_def)
  then have "wreach ?d" by (rule wreach.step) (rule wstep.sleep_release, simp_all)
  then have "wreach ?e" by (rule wreach.step) (rule wstep.sleep_sched, simp_all)
  then have "wreach ?f" by (rule wreach.step) (rule wstep.wenter, simp_all add: winit_def)
  then show ?thesis
    unfolding asleep_state_def by (rule wreach.step) (rule wstep.announce, simp_all)
qed

theorem no_lost_wakeup_witness:
  "\<exists>q. lkown asleep_state = Some q \<and> (wpc asleep_state q = Announced \<or> wpc asleep_state q = Waking)"
  by (rule no_lost_wakeup [OF asleep_state_reach, of 0]) (simp_all add: asleep_state_def)

end
