(* ===== verification/Bio.thy ===== *)
theory Bio
  imports Pipe Chain
begin

text \<open>
  The buffer cache and the disk driver, \<open>kernel/bio.c\<close> and \<open>kernel/ide.c\<close>.  Buffers are
  numbered; \<open>bcache.head\<close> is number \<open>NBUF\<close>, and the LRU list runs through \<open>b_prev\<close> and
  \<open>b_next\<close> as in the code.  The controller is modelled by its ports: a command written to port
  \<open>0x1f7\<close> acts on the sector selected by the other registers.  Lists are followed with as much
  fuel as there are buffers; a list that does not end within it is a panic of the model, which
  the invariant excludes.
\<close>

section \<open>State\<close>

record buf =
  b_flags :: u32
  b_dev :: u32
  b_sector :: u32
  b_prev :: nat
  b_next :: nat
  b_qnext :: "nat option"
  b_data :: "u8 list"

definition NBUF :: nat where "NBUF = 10"
definition BSIZE :: nat where "BSIZE = 512"
definition B_BUSY :: u32 where "B_BUSY = 1"
definition B_VALID :: u32 where "B_VALID = 2"
definition B_DIRTY :: u32 where "B_DIRTY = 4"

text \<open>\<open>disk d\<close> is the contents of drive 0 or 1, \<open>ide_error\<close> the error bits of its status.\<close>

record bio_state = pipe_state +
  bufs :: "buf list"
  idequeue :: "nat option"
  havedisk1 :: bool
  ioport :: "u16 \<Rightarrow> u8"
  disk :: "bool \<Rightarrow> u32 \<Rightarrow> u8 list"
  ide_error :: bool

definition set_buf :: "nat \<Rightarrow> (buf \<Rightarrow> buf) \<Rightarrow> ('z bio_state_scheme, switch, unit) prog" where
  "set_buf b f = upd (\<lambda>s. s\<lparr>bufs := (bufs s)[b := f (bufs s ! b)]\<rparr>)"

definition get_buf :: "nat \<Rightarrow> ('z bio_state_scheme, switch, buf) prog" where
  "get_buf b = asks (\<lambda>s. bufs s ! b)"

definition has_flag :: "u32 \<Rightarrow> buf \<Rightarrow> bool" where
  "has_flag f b \<longleftrightarrow> b_flags b AND f \<noteq> 0"

definition flag_on :: "u32 \<Rightarrow> buf \<Rightarrow> buf" where
  "flag_on f b = b\<lparr>b_flags := b_flags b OR f\<rparr>"

definition flag_off :: "u32 \<Rightarrow> buf \<Rightarrow> buf" where
  "flag_off f b = b\<lparr>b_flags := b_flags b AND NOT f\<rparr>"

section \<open>The disk\<close>

definition outb :: "u16 \<Rightarrow> u8 \<Rightarrow> ('z bio_state_scheme, switch, unit) prog" where
  "outb p v = upd (\<lambda>s. s\<lparr>ioport := (ioport s)(p := v)\<rparr>)"

text \<open>The drive and sector that the registers select.\<close>

definition ide_drive :: "(u16 \<Rightarrow> u8) \<Rightarrow> bool" where
  "ide_drive r \<longleftrightarrow> bit (r 0x1f6) 4"

definition ide_lba :: "(u16 \<Rightarrow> u8) \<Rightarrow> u32" where
  "ide_lba r = join4 (r 0x1f3) (r 0x1f4) (r 0x1f5) (r 0x1f6 AND 0x0f)"

text \<open>\<open>outsl\<close> to the data port after a write command; \<open>insl\<close> from it after a read command.\<close>

definition outsl :: "u8 list \<Rightarrow> ('z bio_state_scheme, switch, unit) prog" where
  "outsl d = upd (\<lambda>s. let k = ide_drive (ioport s); n = ide_lba (ioport s)
     in s\<lparr>disk := (disk s)(k := (disk s k)(n := d))\<rparr>)"

definition insl :: "('z bio_state_scheme, switch, u8 list) prog" where
  "insl = asks (\<lambda>s. disk s (ide_drive (ioport s)) (ide_lba (ioport s)))"

text \<open>\<open>idewait(1) >= 0\<close>; the wait itself ends because the drive becomes ready.\<close>

definition idewait_ok :: "('z bio_state_scheme, switch, bool) prog" where
  "idewait_ok = asks (\<lambda>s. \<not> ide_error s)"

definition idestart :: "nat \<Rightarrow> ('z bio_state_scheme, switch, unit) prog" where
  "idestart b =
     bnd (get_buf b) (\<lambda>k.
     thn (outb 0x3f6 0) (
     thn (outb 0x1f2 1) (
     thn (outb 0x1f3 (ucast (b_sector k AND 0xff))) (
     thn (outb 0x1f4 (ucast (drop_bit 8 (b_sector k) AND 0xff))) (
     thn (outb 0x1f5 (ucast (drop_bit 16 (b_sector k) AND 0xff))) (
     thn (outb 0x1f6 (0xe0 OR ucast (push_bit 4 (b_dev k AND 1)) OR ucast (drop_bit 24 (b_sector k) AND 0x0f))) (
     if has_flag B_DIRTY k
     then thn (outb 0x1f7 0x30) (outsl (b_data k))
     else outb 0x1f7 0x20)))))))"

definition ideintr :: "('z bio_state_scheme, switch, unit) prog" where
  "ideintr =
     thn (lock Lide) (
     bnd (asks idequeue) (\<lambda>q. case q of
       None \<Rightarrow> unlock Lide
     | Some b \<Rightarrow>
         bnd (get_buf b) (\<lambda>k.
         thn (upd (\<lambda>s. s\<lparr>idequeue := b_qnext k\<rparr>)) (
         bnd idewait_ok (\<lambda>ok.
         thn (if \<not> has_flag B_DIRTY k \<and> ok
              then bnd insl (\<lambda>d. set_buf b (\<lambda>k. k\<lparr>b_data := d\<rparr>)) else skip) (
         thn (set_buf b (flag_on B_VALID)) (
         thn (set_buf b (flag_off B_DIRTY)) (
         thn (wakeup (ChBuf b)) (
         bnd (asks idequeue) (\<lambda>q'.
         thn (case q' of None \<Rightarrow> skip | Some b' \<Rightarrow> idestart b') (unlock Lide)))))))))))"

text \<open>The last buffer of the disk queue (\<open>for(pp = &idequeue; *pp; pp = &(*pp)->qnext)\<close>).\<close>

primrec queue_last :: "nat \<Rightarrow> nat \<Rightarrow> ('z bio_state_scheme, switch, nat) prog" where
  "queue_last 0 b = panic ''queue''"
| "queue_last (Suc n) b =
     bnd (get_buf b) (\<lambda>k. case b_qnext k of None \<Rightarrow> ret b | Some c \<Rightarrow> queue_last n c)"

definition ide_append :: "nat \<Rightarrow> ('z bio_state_scheme, switch, unit) prog" where
  "ide_append b =
     thn (set_buf b (\<lambda>k. k\<lparr>b_qnext := None\<rparr>)) (
     bnd (asks idequeue) (\<lambda>q. case q of
       None \<Rightarrow> upd (\<lambda>s. s\<lparr>idequeue := Some b\<rparr>)
     | Some c \<Rightarrow> bnd (queue_last NBUF c) (\<lambda>l. set_buf l (\<lambda>k. k\<lparr>b_qnext := Some b\<rparr>))))"

definition buf_synced :: "buf \<Rightarrow> bool" where
  "buf_synced k \<longleftrightarrow> b_flags k AND (B_VALID OR B_DIRTY) = B_VALID"

text \<open>The loop head of the wait at the end of \<open>iderw\<close>.\<close>

definition iderw_wait :: "nat \<Rightarrow> ('z bio_state_scheme, switch, unit) prog" where
  "iderw_wait b = bnd (get_buf b) (\<lambda>k.
     if buf_synced k then unlock Lide else sleep (ChBuf b) Lide)"

definition iderw :: "nat \<Rightarrow> ('z bio_state_scheme, switch, unit) prog" where
  "iderw b =
     bnd (get_buf b) (\<lambda>k.
     if \<not> has_flag B_BUSY k then panic ''iderw: buf not busy''
     else if buf_synced k then panic ''iderw: nothing to do''
     else bnd (asks havedisk1) (\<lambda>one.
     if b_dev k \<noteq> 0 \<and> \<not> one then panic ''iderw: ide disk 1 not present''
     else
       thn (lock Lide) (
       thn (ide_append b) (
       bnd (asks idequeue) (\<lambda>q.
       thn (if q = Some b then idestart b else skip) (iderw_wait b))))))"

text \<open>
  What happens while the process sleeps, when the disk serves its queue: the scheduler releases
  \<open>ptable.lock\<close>, the interrupts of the requests up to this one arrive, and the process, which
  is runnable then, runs again and comes back from \<open>sleep\<close>.
\<close>

primrec disk_irqs :: "nat \<Rightarrow> nat \<Rightarrow> ('z bio_state_scheme, switch, unit) prog" where
  "disk_irqs 0 b = panic ''disk''"
| "disk_irqs (Suc n) b =
     thn ideintr (bnd (get_buf b) (\<lambda>k. if buf_synced k then skip else disk_irqs n b))"

definition back_running :: "('z bio_state_scheme, switch, unit) prog" where
  "back_running = thn (lock Lptable) (bnd curproc (\<lambda>i. set_proc i (\<lambda>p. p\<lparr>p_state := RUNNING\<rparr>)))"

definition iderw_done :: "nat \<Rightarrow> ('z bio_state_scheme, switch, unit) prog" where
  "iderw_done b =
     on_block (iderw b) (\<lambda>sw.
       thn (unlock Lptable) (thn (disk_irqs NBUF b) (thn back_running (thn (resume sw) (iderw_wait b)))))"

section \<open>The buffer cache\<close>

definition binit_one :: "nat \<Rightarrow> ('z bio_state_scheme, switch, unit) prog" where
  "binit_one b =
     bnd (get_buf NBUF) (\<lambda>h.
     thn (set_buf b (\<lambda>k. k\<lparr>b_next := b_next h, b_prev := NBUF, b_dev := - 1\<rparr>)) (
     thn (set_buf (b_next h) (\<lambda>k. k\<lparr>b_prev := b\<rparr>))
         (set_buf NBUF (\<lambda>k. k\<lparr>b_next := b\<rparr>))))"

definition binit :: "('z bio_state_scheme, switch, unit) prog" where
  "binit =
     thn (set_buf NBUF (\<lambda>k. k\<lparr>b_prev := NBUF, b_next := NBUF\<rparr>))
         (foreach [0..<NBUF] binit_one)"

text \<open>The two scans of \<open>bget\<close>.\<close>

primrec bscan :: "nat \<Rightarrow> (buf \<Rightarrow> nat) \<Rightarrow> (buf \<Rightarrow> bool) \<Rightarrow> nat \<Rightarrow> ('z bio_state_scheme, switch, nat option) prog" where
  "bscan 0 step P b = (if b = NBUF then ret None else panic ''bcache list'')"
| "bscan (Suc n) step P b =
     (if b = NBUF then ret None
      else bnd (get_buf b) (\<lambda>k. if P k then ret (Some b) else bscan n step P (step k)))"

definition bget :: "u32 \<Rightarrow> u32 \<Rightarrow> ('z bio_state_scheme, switch, nat) prog" where
  "bget dev sector =
     thn (lock Lbcache) (
     bnd (get_buf NBUF) (\<lambda>h.
     bnd (bscan NBUF b_next (\<lambda>k. b_dev k = dev \<and> b_sector k = sector) (b_next h)) (\<lambda>r.
     case r of
       Some b \<Rightarrow>
         bnd (get_buf b) (\<lambda>k.
         if \<not> has_flag B_BUSY k
         then thn (set_buf b (flag_on B_BUSY)) (thn (unlock Lbcache) (ret b))
         else sleep (ChBuf b) Lbcache)
     | None \<Rightarrow>
         bnd (bscan NBUF b_prev (\<lambda>k. b_flags k AND B_BUSY = 0) (b_prev h)) (\<lambda>r.
         case r of
           Some b \<Rightarrow>
             thn (set_buf b (\<lambda>k. k\<lparr>b_dev := dev, b_sector := sector, b_flags := B_BUSY\<rparr>)) (
             thn (unlock Lbcache) (ret b))
         | None \<Rightarrow> panic ''bget: no buffers''))))"

definition bread :: "u32 \<Rightarrow> u32 \<Rightarrow> ('z bio_state_scheme, switch, nat) prog" where
  "bread dev sector =
     bnd (bget dev sector) (\<lambda>b.
     bnd (get_buf b) (\<lambda>k.
     thn (if \<not> has_flag B_VALID k then iderw_done b else skip) (ret b)))"

definition bwrite :: "nat \<Rightarrow> ('z bio_state_scheme, switch, unit) prog" where
  "bwrite b =
     bnd (get_buf b) (\<lambda>k.
     if b_flags k AND B_BUSY = 0 then panic ''bwrite''
     else thn (set_buf b (flag_on B_DIRTY)) (iderw_done b))"

definition brelse :: "nat \<Rightarrow> ('z bio_state_scheme, switch, unit) prog" where
  "brelse b =
     bnd (get_buf b) (\<lambda>k.
     if b_flags k AND B_BUSY = 0 then panic ''brelse''
     else
       thn (lock Lbcache) (
       thn (set_buf (b_next k) (\<lambda>n. n\<lparr>b_prev := b_prev k\<rparr>)) (
       thn (bnd (get_buf b) (\<lambda>k. set_buf (b_prev k) (\<lambda>p. p\<lparr>b_next := b_next k\<rparr>))) (
       bnd (get_buf NBUF) (\<lambda>h.
       thn (set_buf b (\<lambda>k. k\<lparr>b_next := b_next h, b_prev := NBUF\<rparr>)) (
       thn (set_buf (b_next h) (\<lambda>n. n\<lparr>b_prev := b\<rparr>)) (
       thn (set_buf NBUF (\<lambda>h. h\<lparr>b_next := b\<rparr>)) (
       thn (set_buf b (flag_off B_BUSY)) (
       thn (wakeup (ChBuf b)) (unlock Lbcache))))))))))"

section \<open>Flags and registers\<close>

lemma flag_bits [simp]:
  "has_flag B_BUSY k = bit (b_flags k) 0" "has_flag B_VALID k = bit (b_flags k) 1"
  "has_flag B_DIRTY k = bit (b_flags k) 2" "(b_flags k AND B_BUSY = 0) = (\<not> bit (b_flags k) 0)"
  using and_exp_eq_0_iff_not_bit [of "b_flags k" 0] and_exp_eq_0_iff_not_bit [of "b_flags k" 1]
    and_exp_eq_0_iff_not_bit [of "b_flags k" 2]
  by (simp_all add: has_flag_def B_BUSY_def B_VALID_def B_DIRTY_def)

lemma bit_flags [simp]:
  "bit B_BUSY n \<longleftrightarrow> n = 0" "bit B_VALID n \<longleftrightarrow> n = 1" "bit B_DIRTY n \<longleftrightarrow> n = 2"
proof -
  have e: "bit ((2::u32) ^ k) n \<longleftrightarrow> n = k" if "k < 32" for k
    using that by (auto simp: bit_exp_iff)
  show "bit B_BUSY n \<longleftrightarrow> n = 0" "bit B_VALID n \<longleftrightarrow> n = 1" "bit B_DIRTY n \<longleftrightarrow> n = 2"
    using e [of 0] e [of 1] e [of 2] by (simp_all add: B_BUSY_def B_VALID_def B_DIRTY_def)
qed

lemma buf_synced_bits [simp]: "buf_synced k \<longleftrightarrow> bit (b_flags k) 1 \<and> \<not> bit (b_flags k) 2"
proof
  assume "buf_synced k"
  then have "bit (b_flags k AND (B_VALID OR B_DIRTY)) n = bit B_VALID n" for n
    by (simp add: buf_synced_def)
  from this [of 1] this [of 2] show "bit (b_flags k) 1 \<and> \<not> bit (b_flags k) 2"
    by (simp add: bit_simps)
next
  assume "bit (b_flags k) 1 \<and> \<not> bit (b_flags k) 2"
  then show "buf_synced k"
    unfolding buf_synced_def by (intro bit_word_eqI) (auto simp: bit_simps)
qed

lemma flag_simps [simp]:
  "bit (b_flags (flag_on f k)) n \<longleftrightarrow> bit (b_flags k) n \<or> bit f n"
  "n < 32 \<Longrightarrow> bit (b_flags (flag_off f k)) n \<longleftrightarrow> bit (b_flags k) n \<and> \<not> bit f n"
  "b_dev (flag_on f k) = b_dev k" "b_sector (flag_on f k) = b_sector k" "b_data (flag_on f k) = b_data k"
  "b_next (flag_on f k) = b_next k" "b_prev (flag_on f k) = b_prev k" "b_qnext (flag_on f k) = b_qnext k"
  "b_dev (flag_off f k) = b_dev k" "b_sector (flag_off f k) = b_sector k" "b_data (flag_off f k) = b_data k"
  "b_next (flag_off f k) = b_next k" "b_prev (flag_off f k) = b_prev k" "b_qnext (flag_off f k) = b_qnext k"
  by (auto simp: flag_on_def flag_off_def bit_simps)

text \<open>The sector registers carry 28 bits.\<close>

definition lba28 :: "u32 \<Rightarrow> u32" where
  "lba28 n = n AND 0x0FFFFFFF"

lemma mask_numerals: "(0xff :: u32) = mask 8" "(0x0f :: u32) = mask 4" "(0x0FFFFFFF :: u32) = mask 28"
  "(0x0f :: u8) = mask 4" "(0xe0 :: u8) = push_bit 5 (mask 3)"
  by (simp_all add: mask_eq_exp_minus_1 push_bit_eq_mult)

lemma lba_bytes:
  "ucast (n AND 0xff) = byte_of 0 (lba28 n)" "ucast (drop_bit 8 n AND 0xff) = byte_of 1 (lba28 n)"
  "ucast (drop_bit 16 n AND 0xff) = byte_of 2 (lba28 n)"
  "ucast (drop_bit 24 n AND 0x0f) = byte_of 3 (lba28 n)"
  unfolding mask_numerals byte_of_def lba28_def
  by (rule bit_word_eqI, simp add: bit_simps; linarith)+

lemma high_register:
  "(0xe0 OR ucast (push_bit 4 (d AND 1 :: u32)) OR ucast (drop_bit 24 n AND 0x0f :: u32)) AND (0x0f :: u8)
   = ucast (drop_bit 24 n AND 0x0f :: u32)"
  unfolding mask_numerals
  by (rule bit_word_eqI) (auto simp: bit_simps)

lemma ide_registers:
  "join4 (ucast (n AND 0xff)) (ucast (drop_bit 8 n AND 0xff)) (ucast (drop_bit 16 n AND 0xff))
     ((0xe0 OR ucast (push_bit 4 (d AND 1 :: u32)) OR ucast (drop_bit 24 n AND 0x0f)) AND 0x0f) = lba28 n"
  by (simp only: high_register, simp only: lba_bytes(2-4), simp only: lba_bytes(1), rule join4_bytes)

lemma ide_select: "bit ((0xe0 OR ucast (push_bit 4 (d AND 1)) OR ucast (drop_bit 24 (n :: u32) AND 0x0f)) :: u8) 4
    \<longleftrightarrow> bit (d :: u32) 0"
proof -
  have m: "(1::u32) = mask 1" by (simp add: mask_eq_exp_minus_1)
  show ?thesis unfolding m mask_numerals by (auto simp: bit_simps)
qed

section \<open>The driver, run to completion\<close>

lemma wp_buf [simp]:
  "wp (set_buf b f) Q s = Q () (s\<lparr>bufs := (bufs s)[b := f (bufs s ! b)]\<rparr>)"
  "wlp (set_buf b f) Q B s = Q () (s\<lparr>bufs := (bufs s)[b := f (bufs s ! b)]\<rparr>)"
  "wp (get_buf b) R s = R (bufs s ! b) s" "wlp (get_buf b) R B' s = R (bufs s ! b) s"
  by (simp_all add: set_buf_def get_buf_def)

lemma wp_ports [simp]:
  "wp (outb p v) Q s = Q () (s\<lparr>ioport := (ioport s)(p := v)\<rparr>)"
  "wlp (outb p v) Q B s = Q () (s\<lparr>ioport := (ioport s)(p := v)\<rparr>)"
  "wp (outsl d) Q s = Q () (s\<lparr>disk := (disk s)(ide_drive (ioport s) :=
     (disk s (ide_drive (ioport s)))(ide_lba (ioport s) := d))\<rparr>)"
  "wlp (outsl d) Q B s = Q () (s\<lparr>disk := (disk s)(ide_drive (ioport s) :=
     (disk s (ide_drive (ioport s)))(ide_lba (ioport s) := d))\<rparr>)"
  "wp insl R s = R (disk s (ide_drive (ioport s)) (ide_lba (ioport s))) s"
  "wlp insl R B' s = R (disk s (ide_drive (ioport s)) (ide_lba (ioport s))) s"
  "wp idewait_ok P s = P (\<not> ide_error s) s" "wlp idewait_ok P B'' s = P (\<not> ide_error s) s"
  by (simp_all add: outb_def outsl_def insl_def idewait_ok_def Let_def)

text \<open>Processes that differ only in how they are scheduled.\<close>

definition unsched :: "proc \<Rightarrow> proc" where
  "unsched p = p\<lparr>p_state := UNUSED, p_chan := None, p_ctx := AtForkret\<rparr>"

definition same_procs :: "proc list \<Rightarrow> proc list \<Rightarrow> bool" where
  "same_procs ps qs \<longleftrightarrow> map unsched ps = map unsched qs"

lemma same_procs_refl [simp]: "same_procs ps ps"
  by (simp add: same_procs_def)

lemma same_procs_trans: "same_procs ps qs \<Longrightarrow> same_procs qs rs \<Longrightarrow> same_procs ps rs"
  by (simp add: same_procs_def)

lemma same_procs_length: "same_procs ps qs \<Longrightarrow> length qs = length ps"
  by (metis same_procs_def length_map)

lemma same_procs_wake: "same_procs ps qs \<Longrightarrow> same_procs ps (map (wake c) qs)"
  by (simp add: same_procs_def comp_def) (simp add: wake_def unsched_def)

lemma same_procs_update:
  "same_procs ps qs \<Longrightarrow> unsched p = unsched (qs ! i) \<Longrightarrow> same_procs ps (qs[i := p])"
  unfolding same_procs_def by (metis list_update_id map_update)

lemma unsched_simps [simp]:
  "unsched (p\<lparr>p_state := st\<rparr>) = unsched p" "unsched (p\<lparr>p_chan := c\<rparr>) = unsched p"
  "unsched (p\<lparr>p_ctx := x\<rparr>) = unsched p" "unsched (asleep ch p) = unsched p"
  by (simp_all add: unsched_def asleep_def)

text \<open>The block a buffer is for, on the disk.\<close>

definition blk :: "(bool \<Rightarrow> u32 \<Rightarrow> u8 list) \<Rightarrow> u32 \<Rightarrow> u32 \<Rightarrow> u8 list" where
  "blk d dev n = d (bit dev 0) (lba28 n)"

definition set_blk :: "(bool \<Rightarrow> u32 \<Rightarrow> u8 list) \<Rightarrow> u32 \<Rightarrow> u32 \<Rightarrow> u8 list \<Rightarrow> (bool \<Rightarrow> u32 \<Rightarrow> u8 list)" where
  "set_blk d dev n x = d(bit dev 0 := (d (bit dev 0))(lba28 n := x))"

definition ide_regs :: "(u16 \<Rightarrow> u8) \<Rightarrow> u32 \<Rightarrow> u32 \<Rightarrow> bool" where
  "ide_regs r dev n \<longleftrightarrow> ide_drive r = bit dev 0 \<and> ide_lba r = lba28 n"

text \<open>The disk contents after the request of buffer \<open>k\<close>, and the buffer then.\<close>

definition disk_after :: "(bool \<Rightarrow> u32 \<Rightarrow> u8 list) \<Rightarrow> buf \<Rightarrow> (bool \<Rightarrow> u32 \<Rightarrow> u8 list)" where
  "disk_after d k = (if bit (b_flags k) 2 then set_blk d (b_dev k) (b_sector k) (b_data k) else d)"

definition buf_after :: "(bool \<Rightarrow> u32 \<Rightarrow> u8 list) \<Rightarrow> buf \<Rightarrow> buf" where
  "buf_after d k = (flag_off B_DIRTY (flag_on B_VALID (k\<lparr>b_qnext := None\<rparr>)))
     \<lparr>b_data := (if bit (b_flags k) 2 then b_data k else blk d (b_dev k) (b_sector k))\<rparr>"

lemma disk_after_qnext [simp]: "disk_after d (k\<lparr>b_qnext := x\<rparr>) = disk_after d k"
  by (simp add: disk_after_def)

lemma wlp_idestart:
  assumes "\<And>r. ide_regs r (b_dev (bufs s ! b)) (b_sector (bufs s ! b)) \<Longrightarrow>
      Q () (s\<lparr>ioport := r, disk := disk_after (disk s) (bufs s ! b)\<rparr>)"
  shows "wlp (idestart b) Q B s"
proof -
  let ?k = "bufs s ! b"
  let ?hi = "0xe0 OR ucast (push_bit 4 (b_dev ?k AND 1)) OR ucast (drop_bit 24 (b_sector ?k) AND 0x0f) :: u8"
  let ?r = "(ioport s)(0x3f6 := 0, 0x1f2 := 1, 0x1f3 := ucast (b_sector ?k AND 0xff),
      0x1f4 := ucast (drop_bit 8 (b_sector ?k) AND 0xff), 0x1f5 := ucast (drop_bit 16 (b_sector ?k) AND 0xff),
      0x1f6 := ?hi)"
  have sel: "ide_regs (?r(0x1f7 := v)) (b_dev ?k) (b_sector ?k)" for v
    using ide_registers [of "b_sector ?k" "b_dev ?k"] ide_select [of "b_dev ?k" "b_sector ?k"]
    unfolding ide_regs_def ide_drive_def ide_lba_def by simp
  show ?thesis
    using assms [OF sel [of "0x30"]] assms [OF sel [of "0x20"]] sel [of "0x30"]
    by (cases "bit (b_flags ?k) 2") (simp_all add: idestart_def ide_regs_def disk_after_def set_blk_def del: fun_upd_apply)
qed

lemma wlp_iderw:
  assumes k: "k = bufs s ! b" and ok: "bit (b_flags k) 0" "\<not> buf_synced k" "b_dev k = 0 \<or> havedisk1 s"
    and st: "held s = {}" "idequeue s = None" "cur s = Some i" "i < length (ptable s)" "b < length (bufs s)"
    and post: "\<And>r. ide_regs r (b_dev k) (b_sector k) \<Longrightarrow> B (SwSleep (ChBuf b) Lide)
      (s\<lparr>bufs := (bufs s)[b := k\<lparr>b_qnext := None\<rparr>], idequeue := Some b, ioport := r,
         disk := disk_after (disk s) k, held := {Lptable}, ptable := (ptable s)[i := asleep (ChBuf b) (ptable s ! i)]\<rparr>)"
  shows "wlp (iderw b) Q B s"
proof -
  let ?s = "s\<lparr>held := {Lide}, bufs := (bufs s)[b := k\<lparr>b_qnext := None\<rparr>], idequeue := Some b\<rparr>"
  have "wlp (idestart b) (\<lambda>_. wlp (iderw_wait b) Q B) B ?s"
  proof (rule wlp_idestart)
    fix r
    assume r: "ide_regs r (b_dev (bufs ?s ! b)) (b_sector (bufs ?s ! b))"
    have "wlp (sleep (ChBuf b) Lide) Q B (?s\<lparr>ioport := r, disk := disk_after (disk s) k\<rparr>)"
      using st post [of r] r by (subst wlp_sleep [of _ i]) simp_all
    then show "wlp (iderw_wait b) Q B (?s\<lparr>ioport := r, disk := disk_after (disk ?s) (bufs ?s ! b)\<rparr>)"
      using ok(2) st(5) by (auto simp: iderw_wait_def)
  qed
  then show ?thesis
    using ok st by (auto simp: iderw_def ide_append_def k)
qed

lemma wp_iderw_done:
  assumes k: "k = bufs s ! b" and ok: "bit (b_flags k) 0" "\<not> buf_synced k" "b_dev k = 0 \<or> havedisk1 s"
    and st: "held s = {}" "idequeue s = None" "cur s = Some i" "i < length (ptable s)" "b < length (bufs s)"
      "\<not> ide_error s"
    and post: "\<And>r ps. same_procs (ptable s) ps \<Longrightarrow>
      Q () (s\<lparr>bufs := (bufs s)[b := buf_after (disk s) k], ioport := r,
         disk := disk_after (disk s) k, ptable := ps\<rparr>)"
  shows "wp (iderw_done b) Q s"
proof -
  have "wlp (iderw b) Q (\<lambda>sw. wp (thn (unlock Lptable) (thn (disk_irqs NBUF b)
      (thn back_running (thn (resume sw) (iderw_wait b))))) Q) s"
  proof (rule wlp_iderw [OF k ok st(1-5)])
    fix r assume r: "ide_regs r (b_dev k) (b_sector k)"
    let ?d = "disk_after (disk s) k"
    let ?p1 = "(ptable s)[i := asleep (ChBuf b) (ptable s ! i)]"
    let ?p2 = "map (wake (ChBuf b)) ?p1"
    let ?p3 = "?p2[i := (?p2 ! i)\<lparr>p_state := RUNNING\<rparr>]"
    let ?p4 = "?p3[i := (?p3 ! i)\<lparr>p_chan := None\<rparr>]"
    have p: "same_procs (ptable s) ?p4"
      by (intro same_procs_update same_procs_wake same_procs_refl) simp_all
    have N: "disk_irqs NBUF b = thn ideintr (bnd (get_buf b) (\<lambda>k. if buf_synced k then skip else disk_irqs 9 b))"
      for b :: nat
      using disk_irqs.simps(2) [of 9 b] by (simp add: NBUF_def)
    have rd: "?d (ide_drive r) (ide_lba r) = blk (disk s) (b_dev k) (b_sector k)" if "\<not> bit (b_flags k) 2"
      using that r by (simp add: disk_after_def ide_regs_def blk_def)
    let ?t = "s\<lparr>bufs := (bufs s)[b := buf_after (disk s) k], ioport := r, disk := ?d, ptable := ?p4\<rparr>"
    have nosync: "buf_synced (buf_after (disk s) k)" by (simp add: buf_after_def)
    have b1: "flag_off B_DIRTY (flag_on B_VALID ((k\<lparr>b_qnext := None\<rparr>)\<lparr>b_data := blk (disk s) (b_dev k) (b_sector k)\<rparr>))
        = buf_after (disk s) k" if "\<not> bit (b_flags k) 2"
      using that by (simp add: buf_after_def flag_on_def flag_off_def)
    have b2: "flag_off B_DIRTY (flag_on B_VALID (k\<lparr>b_qnext := None\<rparr>)) = buf_after (disk s) k" if "bit (b_flags k) 2"
      using that by (simp add: buf_after_def flag_on_def flag_off_def)
    have eq: "?t = s\<lparr>ioport := r, disk := ?d, idequeue := None, bufs := (bufs s)[b := buf_after (disk s) k],
        ptable := ?p4\<rparr>"
      using st(2) by simp
    have "Q () (s\<lparr>ioport := r, disk := ?d, idequeue := None,
        bufs := (bufs s)[b := buf_after (disk s) k], ptable := ?p4\<rparr>)"
      by (rule back_subst [of "Q ()", OF post [OF p] eq])
    then show "wp (thn (unlock Lptable) (thn (disk_irqs NBUF b)
        (thn back_running (thn (resume (SwSleep (ChBuf b) Lide)) (iderw_wait b))))) Q
      (s\<lparr>bufs := (bufs s)[b := k\<lparr>b_qnext := None\<rparr>], idequeue := Some b, ioport := r,
         disk := ?d, held := {Lptable}, ptable := ?p1\<rparr>)"
      using st nosync
      by (cases "bit (b_flags k) 2")
        (simp_all add: N ideintr_def back_running_def resume_def iderw_wait_def rd b1 b2 del: map_update)
  qed
  then show ?thesis by (simp add: iderw_done_def)
qed

end
