(* ===== verification/Bcache.thy ===== *)
theory Bcache
  imports Bio
begin

text \<open>
  What the buffer cache promises.  \<open>lru bs ys\<close> reads the doubly linked list of the buffers as
  the list \<open>ys\<close>, most recently released first.  \<open>cache_ok H s\<close> is the invariant between two
  calls when the running process holds the buffers \<open>H\<close>: a block has at most one buffer, and a
  valid buffer that nobody holds agrees with the disk.  The locale \<open>block_store\<close> is the
  contract the file system relies on.
\<close>

section \<open>The LRU list\<close>

definition lru :: "buf list \<Rightarrow> nat list \<Rightarrow> bool" where
  "lru bs ys \<longleftrightarrow> length bs = Suc NBUF \<and> distinct ys \<and> set ys = {..<NBUF} \<and>
     chain (\<lambda>i. b_next (bs ! i)) (\<lambda>i. b_prev (bs ! i)) NBUF (ys @ [NBUF])"

lemma lruD: "lru bs ys \<Longrightarrow> length bs = Suc NBUF" "lru bs ys \<Longrightarrow> distinct ys"
  "lru bs ys \<Longrightarrow> set ys = {..<NBUF}" "lru bs ys \<Longrightarrow> length ys = NBUF"
  "lru bs ys \<Longrightarrow> NBUF \<notin> set ys"
proof -
  assume l: "lru bs ys"
  then have d: "distinct ys" and st: "set ys = {..<NBUF}" by (simp_all add: lru_def)
  from distinct_card [OF d] show "length ys = NBUF" unfolding st by simp
  show "length bs = Suc NBUF" "NBUF \<notin> set ys" using l by (simp_all add: lru_def)
qed (simp_all add: lru_def)

lemma lru_same:
  assumes "lru bs ys" "map b_next bs' = map b_next bs" "map b_prev bs' = map b_prev bs"
  shows "lru bs' ys"
proof -
  have len: "length bs' = length bs" using assms(2) by (metis length_map)
  have n: "b_next (bs' ! i) = b_next (bs ! i)" "b_prev (bs' ! i) = b_prev (bs ! i)" if "i < length bs" for i
    using that assms(2,3) len by (metis nth_map)+
  have "set (NBUF # ys) \<subseteq> {..<length bs}"
    using lruD(1,3) [OF assms(1)] by auto
  then have m: "x < length bs" if "x \<in> set (NBUF # butlast (ys @ [NBUF])) \<or> x \<in> set (ys @ [NBUF])" for x
    using that by auto
  have "chain (\<lambda>i. b_next (bs' ! i)) (\<lambda>i. b_prev (bs' ! i)) NBUF (ys @ [NBUF])
      = chain (\<lambda>i. b_next (bs ! i)) (\<lambda>i. b_prev (bs ! i)) NBUF (ys @ [NBUF])"
    using m n by (intro chain_cong) blast+
  with assms(1) len show ?thesis by (simp add: lru_def)
qed

lemma lru_upd:
  "lru bs ys \<Longrightarrow> b_next k = b_next (bs ! b) \<Longrightarrow> b_prev k = b_prev (bs ! b) \<Longrightarrow> lru (bs[b := k]) ys"
  by (rule lru_same) (simp_all add: map_update, metis list_update_id map_update, metis list_update_id map_update)

text \<open>A scan is a search in the list, forwards or backwards.\<close>

lemma wp_bscan_chain:
  "chain nx pv h (ys @ [NBUF]) \<Longrightarrow> NBUF \<notin> set ys \<Longrightarrow> length ys \<le> n \<Longrightarrow>
   (\<And>b. b \<in> set ys \<Longrightarrow> step (bufs s ! b) = nx b) \<Longrightarrow>
   wp (bscan n step P (nx h)) Q s = Q (find (\<lambda>b. P (bufs s ! b)) ys) s"
proof (induction ys arbitrary: h n)
  case Nil
  then show ?case by (cases n) simp_all
next
  case (Cons y ys)
  then obtain m where n: "n = Suc m" by (cases n) auto
  have y: "nx h = y" "step (bufs s ! y) = nx y" using Cons.prems by auto
  have "wp (bscan m step P (nx y)) Q s = Q (find (\<lambda>b. P (bufs s ! b)) ys) s"
    using Cons.prems n by (intro Cons.IH) auto
  then show ?case using Cons.prems(2) y n by auto
qed

lemma wlp_bscan_chain:
  "chain nx pv h (ys @ [NBUF]) \<Longrightarrow> NBUF \<notin> set ys \<Longrightarrow> length ys \<le> n \<Longrightarrow>
   (\<And>b. b \<in> set ys \<Longrightarrow> step (bufs s ! b) = nx b) \<Longrightarrow>
   wlp (bscan n step P (nx h)) Q B s = Q (find (\<lambda>b. P (bufs s ! b)) ys) s"
  using wp_bscan_chain [of nx pv h ys n step s P "\<lambda>a t. a = find (\<lambda>b. P (bufs s ! b)) ys \<and> t = s"]
  by (auto simp: wp_def wlp_def split: outcome.splits)

lemma wlp_bscan_next:
  assumes "lru (bufs s) ys"
  shows "wlp (bscan NBUF b_next P (b_next (bufs s ! NBUF))) Q B s = Q (find (\<lambda>b. P (bufs s ! b)) ys) s"
  using assms lruD(4,5) [OF assms] unfolding lru_def
  by (intro wlp_bscan_chain [of "\<lambda>i. b_next (bufs s ! i)" "\<lambda>i. b_prev (bufs s ! i)"]) auto

lemma wlp_bscan_prev:
  assumes "lru (bufs s) ys"
  shows "wlp (bscan NBUF b_prev P (b_prev (bufs s ! NBUF))) Q B s = Q (find (\<lambda>b. P (bufs s ! b)) (rev ys)) s"
proof -
  have "chain (\<lambda>i. b_prev (bufs s ! i)) (\<lambda>i. b_next (bufs s ! i)) NBUF (rev ys @ [NBUF])"
    using assms by (intro chain_rev [THEN iffD1]) (simp add: lru_def)
  then show ?thesis
    using lruD(4,5) [OF assms] by (intro wlp_bscan_chain) simp_all
qed

text \<open>\<open>brelse\<close> puts the buffer at the front of the list, and changes nothing else of the list.\<close>

definition to_front :: "buf list \<Rightarrow> nat \<Rightarrow> buf list" where
  "to_front bs b =
     (let bs1 = bs[b_next (bs ! b) := (bs ! b_next (bs ! b))\<lparr>b_prev := b_prev (bs ! b)\<rparr>];
          bs2 = bs1[b_prev (bs1 ! b) := (bs1 ! b_prev (bs1 ! b))\<lparr>b_next := b_next (bs1 ! b)\<rparr>];
          h = b_next (bs2 ! NBUF);
          bs3 = bs2[b := (bs2 ! b)\<lparr>b_next := h, b_prev := NBUF\<rparr>];
          bs4 = bs3[h := (bs3 ! h)\<lparr>b_prev := b\<rparr>]
      in bs4[NBUF := (bs4 ! NBUF)\<lparr>b_next := b\<rparr>])"

definition nxt :: "buf list \<Rightarrow> nat \<Rightarrow> nat" where
  "nxt bs i = b_next (bs ! i)"

definition prv :: "buf list \<Rightarrow> nat \<Rightarrow> nat" where
  "prv bs i = b_prev (bs ! i)"

lemma link_fold: "b_next (bs ! i) = nxt bs i" "b_prev (bs ! i) = prv bs i"
  by (simp_all add: nxt_def prv_def)

lemma link_update:
  "j < length bs \<Longrightarrow> nxt (bs[j := k]) = (nxt bs)(j := b_next k)"
  "j < length bs \<Longrightarrow> prv (bs[j := k]) = (prv bs)(j := b_prev k)"
  by (auto simp: fun_eq_iff nxt_def prv_def nth_list_update)

lemma lru_links: "lru bs ys \<longleftrightarrow> length bs = Suc NBUF \<and> distinct ys \<and> set ys = {..<NBUF} \<and>
     chain (nxt bs) (prv bs) NBUF (ys @ [NBUF])"
  by (simp add: lru_def nxt_def [abs_def] prv_def [abs_def])

lemma to_front_links:
  assumes "prv bs b < length bs" "nxt bs b < length bs" "b < length bs" "NBUF < length bs"
    and "nxt bs b \<noteq> b" "prv bs b \<noteq> b" "NBUF \<noteq> b" "((nxt bs)(prv bs b := nxt bs b)) NBUF < length bs"
    and h: "h = ((nxt bs)(prv bs b := nxt bs b)) NBUF"
  shows "nxt (to_front bs b) = (nxt bs)(prv bs b := nxt bs b, b := h, NBUF := b)"
    "prv (to_front bs b) = (prv bs)(nxt bs b := prv bs b, b := NBUF, h := b)"
  using assms unfolding to_front_def Let_def link_fold
  by (simp_all add: link_update link_fold split del: if_split) (auto simp: fun_eq_iff)

lemma to_front_lru:
  assumes l: "lru bs (as @ b # cs)"
  shows "lru (to_front bs b) (b # as @ cs)"
proof -
  let ?p = "prv bs b" and ?n = "nxt bs b"
  let ?h = "((nxt bs)(?p := ?n)) NBUF"
  have c: "chain (nxt bs) (prv bs) NBUF (as @ b # cs @ [NBUF])" using l by (simp add: lru_links)
  have d: "distinct (NBUF # as @ b # cs)" using lruD(2,5) [OF l] by simp
  have len: "length bs = Suc NBUF" and set: "set (as @ b # cs) = {..<NBUF}" using lruD(1,3) [OF l] by auto
  from chain_around [OF c] have ar: "?p = last (NBUF # as)" "?n = hd (cs @ [NBUF])" by auto
  have in': "?p \<in> set (NBUF # as)" "?n \<in> set (cs @ [NBUF])"
    unfolding ar using last_in_set [of "NBUF # as"] hd_in_set [of "cs @ [NBUF]"] by blast+
  have mem: "x < length bs" if "x \<in> set (NBUF # as @ b # cs)" for x
  proof -
    from that have "x = NBUF \<or> x \<in> set (as @ b # cs)" by auto
    then show ?thesis unfolding set using len by auto
  qed
  have "chain (nxt bs) (prv bs) NBUF ((as @ b # cs) @ [NBUF])" using c by simp
  then have "nxt bs NBUF \<in> set (as @ b # cs)" by (cases as) auto
  then have "?h \<in> set (as @ b # cs @ [NBUF])" using in' by auto
  then have lt: "?p < length bs" "?n < length bs" "b < length bs" "NBUF < length bs" "?h < length bs"
    using in' by (auto intro: mem)
  have ne: "?n \<noteq> b" "?p \<noteq> b" "NBUF \<noteq> b" using in' d by auto
  note links = to_front_links [OF lt(1-4) ne lt(5) refl]
  have "chain (nxt (to_front bs b)) (prv (to_front bs b)) NBUF (b # as @ cs @ [NBUF])"
    unfolding links by (rule chain_to_front [OF c d])
  then show ?thesis
    using d len set unfolding lru_links by (simp add: to_front_def Let_def insert_absorb2 insert_commute)
qed

section \<open>The invariant\<close>

text \<open>Drives 0 and 1 have sector numbers of 28 bits; on those a buffer's block is its own.\<close>

definition on_disk :: "u32 \<Rightarrow> u32 \<Rightarrow> bool" where
  "on_disk dev n \<longleftrightarrow> dev < 2 \<and> n < 0x10000000"

lemma on_disk_minus [simp]: "\<not> on_disk (- 1) n"
  by (simp add: on_disk_def)

lemma lba28_small: "n < 0x10000000 \<Longrightarrow> lba28 n = n"
  unfolding lba28_def mask_numerals take_bit_eq_mask [symmetric] word_unat_eq_iff unsigned_take_bit_eq
  by (rule take_bit_nat_eq_self) (simp add: word_less_nat_alt)

lemma dev_cases: "dev < 2 \<Longrightarrow> dev = (0 :: u32) \<or> dev = 1"
  by (auto simp: word_less_nat_alt word_unat_eq_iff)

lemma blk_set_blk:
  assumes "on_disk dev n" "on_disk dev' n'"
  shows "blk (set_blk d dev n x) dev' n' = (if dev' = dev \<and> n' = n then x else blk d dev' n')"
proof -
  have "bit dev 0 = bit dev' 0 \<longleftrightarrow> dev = dev'"
    using assms dev_cases [of dev] dev_cases [of dev'] by (auto simp: on_disk_def)
  then show ?thesis
    using assms by (auto simp: blk_def set_blk_def on_disk_def lba28_small)
qed

definition machine_ok :: "'z bio_state_scheme \<Rightarrow> bool" where
  "machine_ok s \<longleftrightarrow> held s = {} \<and> idequeue s = None \<and> havedisk1 s \<and> \<not> ide_error s \<and>
     (\<exists>i. cur s = Some i \<and> i < length (ptable s)) \<and> (\<forall>c n. length (disk s c n) = BSIZE)"

definition buf_good :: "nat set \<Rightarrow> (bool \<Rightarrow> u32 \<Rightarrow> u8 list) \<Rightarrow> nat \<Rightarrow> buf \<Rightarrow> bool" where
  "buf_good H d b k \<longleftrightarrow> (bit (b_flags k) 0 \<longleftrightarrow> b \<in> H) \<and> \<not> bit (b_flags k) 2 \<and>
     (bit (b_flags k) 1 \<longrightarrow> on_disk (b_dev k) (b_sector k) \<and> length (b_data k) = BSIZE \<and>
        (b \<notin> H \<longrightarrow> b_data k = blk d (b_dev k) (b_sector k)))"

definition home :: "buf \<Rightarrow> u32 \<times> u32" where
  "home k = (b_dev k, b_sector k)"

definition one_buffer :: "buf list \<Rightarrow> bool" where
  "one_buffer bs \<longleftrightarrow> (\<forall>i < NBUF. \<forall>j < NBUF. i \<noteq> j \<longrightarrow> b_dev (bs ! i) \<noteq> - 1 \<longrightarrow> home (bs ! i) \<noteq> home (bs ! j))"

text \<open>\<open>cache_core\<close> also holds while a buffer that has just been taken is not read yet.\<close>

definition cache_bufs :: "nat set \<Rightarrow> 'z bio_state_scheme \<Rightarrow> bool" where
  "cache_bufs H s \<longleftrightarrow> (\<exists>ys. lru (bufs s) ys) \<and> one_buffer (bufs s) \<and>
     (\<forall>b < NBUF. buf_good H (disk s) b (bufs s ! b)) \<and> H \<subseteq> {..<NBUF}"

definition cache_core :: "nat set \<Rightarrow> 'z bio_state_scheme \<Rightarrow> bool" where
  "cache_core H s \<longleftrightarrow> machine_ok s \<and> cache_bufs H s"

definition cache_ok :: "nat set \<Rightarrow> 'z bio_state_scheme \<Rightarrow> bool" where
  "cache_ok H s \<longleftrightarrow> cache_core H s \<and> (\<forall>b \<in> H. bit (b_flags (bufs s ! b)) 1)"

lemma coreD:
  assumes "cache_core H s"
  shows "machine_ok s" "\<exists>ys. lru (bufs s) ys" "one_buffer (bufs s)" "b < NBUF \<Longrightarrow> buf_good H (disk s) b (bufs s ! b)"
    "H \<subseteq> {..<NBUF}" "length (bufs s) = Suc NBUF" "b \<in> H \<Longrightarrow> b < NBUF"
  using assms lruD(1) by (auto simp: cache_core_def cache_bufs_def)

text \<open>What the cache may change: buffers, the disk, and how processes are scheduled.\<close>

definition disk_frame :: "'z bio_state_scheme \<Rightarrow> 'z bio_state_scheme \<Rightarrow> bool" where
  "disk_frame s t \<longleftrightarrow> t\<lparr>bufs := bufs s, ioport := ioport s, disk := disk s, ptable := ptable s\<rparr> = s \<and>
     same_procs (ptable s) (ptable t)"

lemma disk_frame_refl [simp]: "disk_frame s s"
  by (simp add: disk_frame_def)

lemma disk_frame_trans:
  assumes "disk_frame s t" "disk_frame t u"
  shows "disk_frame s u"
proof -
  have t: "t\<lparr>bufs := bufs s, ioport := ioport s, disk := disk s, ptable := ptable s\<rparr> = s"
    and u: "u\<lparr>bufs := bufs t, ioport := ioport t, disk := disk t, ptable := ptable t\<rparr> = t"
    using assms by (simp_all add: disk_frame_def)
  have "(u\<lparr>bufs := bufs t, ioport := ioport t, disk := disk t, ptable := ptable t\<rparr>)
      \<lparr>bufs := bufs s, ioport := ioport s, disk := disk s, ptable := ptable s\<rparr> = s"
    by (simp only: u t)
  then show ?thesis using assms by (auto simp: disk_frame_def intro: same_procs_trans)
qed

lemma core_update:
  assumes c: "cache_core H s" and b: "b < NBUF" "b_next k = b_next (bufs s ! b)" "b_prev k = b_prev (bufs s ! b)"
    and t: "machine_ok t" "bufs t = (bufs s)[b := k]" "H' \<subseteq> {..<NBUF}"
    and u: "home k = home (bufs s ! b) \<or> (\<forall>j < NBUF. home (bufs s ! j) \<noteq> home k)"
    and g: "buf_good H' (disk t) b k"
    and o: "\<And>j. j < NBUF \<Longrightarrow> j \<noteq> b \<Longrightarrow> buf_good H (disk s) j (bufs s ! j) \<Longrightarrow> home (bufs s ! j) \<noteq> home k \<or> b_dev k = - 1 \<Longrightarrow>
      buf_good H' (disk t) j (bufs s ! j)"
  shows "cache_core H' t"
proof -
  note c' = coreD [OF c]
  obtain ys where ys: "lru (bufs s) ys" using c'(2) by blast
  have one: "\<And>i j. i < NBUF \<Longrightarrow> j < NBUF \<Longrightarrow> i \<noteq> j \<Longrightarrow> b_dev (bufs s ! i) \<noteq> - 1 \<Longrightarrow> home (bufs s ! i) \<noteq> home (bufs s ! j)"
    using c'(3) by (auto simp: one_buffer_def)
  have ne: "home (bufs s ! j) \<noteq> home k" if "j < NBUF" "j \<noteq> b" "b_dev k \<noteq> - 1 \<or> b_dev (bufs s ! j) \<noteq> - 1" for j
    using u
  proof
    assume h: "home k = home (bufs s ! b)"
    then have "b_dev k = b_dev (bufs s ! b)" by (simp add: home_def)
    with one [of j b] one [of b j] that b(1) h show ?thesis by auto
  qed (use that in auto)
  have "one_buffer (bufs t)"
    unfolding one_buffer_def t(2)
  proof (intro allI impI)
    fix i j assume ij: "i < NBUF" "j < NBUF" "i \<noteq> j" "b_dev ((bufs s)[b := k] ! i) \<noteq> - 1"
    show "home ((bufs s)[b := k] ! i) \<noteq> home ((bufs s)[b := k] ! j)"
      using ij one [of i j] ne [of j] ne [of i] c'(6) by (cases "i = b"; cases "j = b") auto
  qed
  moreover have "lru (bufs t) ys" unfolding t(2) by (rule lru_upd [OF ys b(2,3)])
  moreover have "buf_good H' (disk t) j (bufs t ! j)" if "j < NBUF" for j
  proof (cases "j = b")
    case True
    then show ?thesis using g that c'(6) by (simp add: t(2))
  next
    case False
    then have "buf_good H' (disk t) j (bufs s ! j)"
      using that ne [of j] by (intro o c'(4)) auto
    then show ?thesis using False by (simp add: t(2))
  qed
  ultimately show ?thesis using t by (auto simp: cache_core_def cache_bufs_def)
qed

section \<open>The operations\<close>

lemma machine_ok_bufs [simp]: "machine_ok (s\<lparr>bufs := bs\<rparr>) = machine_ok s"
  by (simp add: machine_ok_def)

lemma restore_lock [simp]: "held s = {} \<Longrightarrow> s\<lparr>held := {}, bufs := bs\<rparr> = s\<lparr>bufs := bs\<rparr>"
  by simp

lemma machine_held: "machine_ok s \<Longrightarrow> held s = {}"
  by (simp add: machine_ok_def)

lemma disk_frame_bufs [simp]: "disk_frame s (s\<lparr>bufs := bs\<rparr>)"
  by (simp add: disk_frame_def)

lemma buf_good_other: "j \<noteq> b \<Longrightarrow> buf_good (insert b H) d j k = buf_good H d j k"
  "j \<noteq> b \<Longrightarrow> buf_good (H - {b}) d j k = buf_good H d j k"
  by (simp_all add: buf_good_def)

lemma wp_bget:
  assumes c: "cache_core H s" and a: "on_disk dev n" "\<And>h. h \<in> H \<Longrightarrow> home (bufs s ! h) \<noteq> (dev, n)" "card H < NBUF"
    and post: "\<And>b t. \<lbrakk>b \<notin> H; b < NBUF; cache_core (insert b H) t; disk t = disk s; home (bufs t ! b) = (dev, n);
        bit (b_flags (bufs t ! b)) 1 \<longrightarrow> b_data (bufs t ! b) = blk (disk s) dev n;
        \<forall>h. h \<noteq> b \<longrightarrow> bufs t ! h = bufs s ! h; disk_frame s t\<rbrakk> \<Longrightarrow> Q b t"
  shows "wp (bget dev n) Q s"
proof -
  note c' = coreD [OF c]
  obtain ys where ys: "lru (bufs s) ys" using c'(2) by blast
  have held: "held s = {}" using c'(1) by (rule machine_held)
  let ?s = "s\<lparr>held := {Lbcache}\<rparr>"
  have mem: "x \<in> set ys \<longleftrightarrow> x < NBUF" for x using lruD(3) [OF ys] by auto
  have take: "Q b (s\<lparr>bufs := (bufs s)[b := k]\<rparr>)"
    if "b < NBUF" "b \<notin> H" "b_next k = b_next (bufs s ! b)" "b_prev k = b_prev (bufs s ! b)" "home k = (dev, n)"
      "home (bufs s ! b) = (dev, n) \<or> (\<forall>j < NBUF. home (bufs s ! j) \<noteq> (dev, n))"
      "buf_good (insert b H) (disk s) b k" "bit (b_flags k) 1 \<longrightarrow> b_data k = blk (disk s) dev n" for b k
  proof (rule post)
    show "cache_core (insert b H) (s\<lparr>bufs := (bufs s)[b := k]\<rparr>)"
      using that c'(1,5) by (intro core_update [OF c, of b k]) (auto simp: buf_good_other)
  qed (use that c'(6) in auto)
  let ?scan2 = "\<lambda>r. case r of
           Some b \<Rightarrow>
             thn (set_buf b (\<lambda>k. k\<lparr>b_dev := dev, b_sector := n, b_flags := B_BUSY\<rparr>)) (
             thn (unlock Lbcache) (ret b))
         | None \<Rightarrow> panic ''bget: no buffers''"
  have miss: "wp (?scan2 (find (\<lambda>b. b_flags (bufs s ! b) AND B_BUSY = 0) (rev ys))) Q ?s"
    if new: "\<forall>j < NBUF. home (bufs s ! j) \<noteq> (dev, n)"
  proof (rule find_cases [where xs = "rev ys"])
    have "\<not> {..<NBUF} \<subseteq> H" using a(3) c'(5) by (metis card_lessThan less_irrefl subset_antisym)
    then obtain b where b: "b < NBUF" "b \<notin> H" by auto
    then have "\<not> bit (b_flags (bufs s ! b)) 0" using c'(4) [of b] by (simp add: buf_good_def)
    moreover assume "\<forall>x\<in>set (rev ys). \<not> (b_flags (bufs s ! x) AND B_BUSY = 0)"
    ultimately have False using b mem by auto
    then show "wp (?scan2 None) Q ?s" ..
  next
    fix b assume "b \<in> set (rev ys)" "b_flags (bufs s ! b) AND B_BUSY = 0"
    then have b: "b < NBUF" "b \<notin> H" using mem c'(4) [of b] by (auto simp: buf_good_def)
    let ?k = "(bufs s ! b)\<lparr>b_dev := dev, b_sector := n, b_flags := B_BUSY\<rparr>"
    have "Q b (s\<lparr>bufs := (bufs s)[b := ?k]\<rparr>)"
      using b new by (intro take) (simp_all add: home_def buf_good_def)
    then show "wp (?scan2 (Some b)) Q ?s" using held by simp
  qed
  let ?scan1 = "\<lambda>r. case r of
       Some b \<Rightarrow>
         bnd (get_buf b) (\<lambda>k.
         if \<not> has_flag B_BUSY k
         then thn (set_buf b (flag_on B_BUSY)) (thn (unlock Lbcache) (ret b))
         else sleep (ChBuf b) Lbcache)
     | None \<Rightarrow> bnd (bscan NBUF b_prev (\<lambda>k. b_flags k AND B_BUSY = 0) (b_prev (bufs s ! NBUF))) ?scan2"
  have "wp (?scan1 (find (\<lambda>b. b_dev (bufs s ! b) = dev \<and> b_sector (bufs s ! b) = n) ys)) Q ?s"
  proof (rule find_cases [where xs = ys])
    assume "\<forall>x\<in>set ys. \<not> (b_dev (bufs s ! x) = dev \<and> b_sector (bufs s ! x) = n)"
    then have "\<forall>j < NBUF. home (bufs s ! j) \<noteq> (dev, n)" by (auto simp: mem home_def)
    from miss [OF this] show "wp (?scan1 None) Q ?s"
      using wlp_bscan_prev [of ?s ys] ys by (simp add: wp_def)
  next
    fix b assume "b \<in> set ys" "b_dev (bufs s ! b) = dev \<and> b_sector (bufs s ! b) = n"
    then have b: "b < NBUF" "home (bufs s ! b) = (dev, n)" using mem by (auto simp: home_def)
    then have "b \<notin> H" using a(2) by blast
    then have g: "b \<notin> H" "buf_good (insert b H) (disk s) b (flag_on B_BUSY (bufs s ! b))" "\<not> bit (b_flags (bufs s ! b)) 0"
      "bit (b_flags (bufs s ! b)) 1 \<longrightarrow> b_data (bufs s ! b) = blk (disk s) dev n"
      using c'(4) [OF b(1)] b(2) by (auto simp: buf_good_def home_def)
    have "Q b (s\<lparr>bufs := (bufs s)[b := flag_on B_BUSY (bufs s ! b)]\<rparr>)"
      using b g by (intro take) (simp_all add: home_def)
    then show "wp (?scan1 (Some b)) Q ?s" using held g by simp
  qed
  then show ?thesis
    using held wlp_bscan_next [of ?s ys] ys by (simp add: bget_def wp_def del: flag_bits)
qed

lemma buf_after_simps [simp]:
  "b_dev (buf_after d k) = b_dev k" "b_sector (buf_after d k) = b_sector k"
  "b_next (buf_after d k) = b_next k" "b_prev (buf_after d k) = b_prev k" "home (buf_after d k) = home k"
  "bit (b_flags (buf_after d k)) 0 = bit (b_flags k) 0" "bit (b_flags (buf_after d k)) 1"
  "bit (b_flags (buf_after d k)) (Suc 0)" "\<not> bit (b_flags (buf_after d k)) 2"
  "b_data (buf_after d k) = (if bit (b_flags k) 2 then b_data k else blk d (b_dev k) (b_sector k))"
  by (simp_all add: buf_after_def home_def)

lemma disk_frame_step [simp]:
  "same_procs (ptable s) ps \<Longrightarrow> disk_frame s (s\<lparr>bufs := bs, ioport := r, disk := d, ptable := ps\<rparr>)"
  by (simp add: disk_frame_def)

lemma blk_length: "machine_ok s \<Longrightarrow> length (blk (disk s) dev n) = BSIZE"
  by (simp add: blk_def machine_ok_def)

lemma wp_bread:
  assumes c: "cache_ok H s" and a: "on_disk dev n" "\<And>h. h \<in> H \<Longrightarrow> home (bufs s ! h) \<noteq> (dev, n)" "card H < NBUF"
    and post: "\<And>b t. \<lbrakk>b \<notin> H; b < NBUF; cache_ok (insert b H) t; disk t = disk s; home (bufs t ! b) = (dev, n);
        b_data (bufs t ! b) = blk (disk s) dev n; \<forall>h. h \<noteq> b \<longrightarrow> bufs t ! h = bufs s ! h; disk_frame s t\<rbrakk> \<Longrightarrow> Q b t"
  shows "wp (bread dev n) Q s"
proof -
  have c0: "cache_core H s" and v: "\<And>h. h \<in> H \<Longrightarrow> bit (b_flags (bufs s ! h)) 1"
    using c by (auto simp: cache_ok_def)
  have "wp (bget dev n) (\<lambda>b. wp (bnd (get_buf b) (\<lambda>k. thn (if \<not> has_flag B_VALID k then iderw_done b else skip) (ret b))) Q) s"
  proof (rule wp_bget [OF c0 a])
    fix b t
    assume b: "b \<notin> H" "b < NBUF" and ct: "cache_core (insert b H) t" and d: "disk t = disk s"
      and h: "home (bufs t ! b) = (dev, n)" and dat: "bit (b_flags (bufs t ! b)) 1 \<longrightarrow> b_data (bufs t ! b) = blk (disk s) dev n"
      and oth: "\<forall>h. h \<noteq> b \<longrightarrow> bufs t ! h = bufs s ! h" and fr: "disk_frame s t"
    let ?k = "bufs t ! b"
    have vt: "\<And>x. x \<in> H \<Longrightarrow> bit (b_flags (bufs t ! x)) 1" using v oth b(1) by metis
    have g: "bit (b_flags ?k) 0" "\<not> bit (b_flags ?k) 2" using coreD(4) [OF ct b(2)] by (auto simp: buf_good_def)
    show "wp (bnd (get_buf b) (\<lambda>k. thn (if \<not> has_flag B_VALID k then iderw_done b else skip) (ret b))) Q t"
    proof (cases "bit (b_flags ?k) 1")
      case True
      then have "Q b t" using b ct vt d h dat oth fr by (intro post) (auto simp: cache_ok_def)
      then show ?thesis using True by simp
    next
      case False
      have m: "machine_ok t" by (rule coreD(1) [OF ct])
      then obtain i where i: "held t = {}" "idequeue t = None" "cur t = Some i" "i < length (ptable t)" "\<not> ide_error t"
        "havedisk1 t" by (auto simp: machine_ok_def)
      have "wp (iderw_done b) (\<lambda>_. Q b) t"
      proof (rule wp_iderw_done [where k = ?k and i = i])
        fix r ps assume ps: "same_procs (ptable t) ps"
        let ?u = "t\<lparr>bufs := (bufs t)[b := buf_after (disk t) ?k], ioport := r, disk := disk_after (disk t) ?k, ptable := ps\<rparr>"
        have du: "disk_after (disk t) ?k = disk t" using g by (simp add: disk_after_def)
        have mu: "machine_ok ?u" using m ps by (auto simp: du machine_ok_def same_procs_length)
        have cu: "cache_core (insert b H) ?u"
          using h a(1) g b(2) blk_length [OF m] mu coreD(5) [OF ct]
          by (intro core_update [OF ct b(2), of "buf_after (disk t) ?k"])
            (auto simp: du buf_good_def home_def)
        have len: "b < length (bufs t)" using coreD(6) [OF ct] b(2) by simp
        have "disk_frame s ?u" by (rule disk_frame_trans [OF fr disk_frame_step [OF ps]])
        then show "Q b ?u"
          using h g d oth v b len cu by (intro post) (auto simp: du [unfolded d] cache_ok_def nth_list_update home_def)
      qed (use i g False coreD(6) [OF ct] b(2) in auto)
      then show ?thesis using False by simp
    qed
  qed
  then show ?thesis by (simp add: bread_def)
qed

text \<open>The buffer's owner may change its contents; \<open>bwrite\<close> makes the disk agree.\<close>

definition set_data :: "nat \<Rightarrow> u8 list \<Rightarrow> ('z bio_state_scheme, switch, unit) prog" where
  "set_data b d = set_buf b (\<lambda>k. k\<lparr>b_data := d\<rparr>)"

lemma cache_set_data:
  assumes c: "cache_ok H s" and b: "b \<in> H" "length d = BSIZE"
  shows "cache_ok H (s\<lparr>bufs := (bufs s)[b := (bufs s ! b)\<lparr>b_data := d\<rparr>]\<rparr>)"
proof -
  have c0: "cache_core H s" using c by (simp add: cache_ok_def)
  have lt: "b < NBUF" using coreD(7) [OF c0 b(1)] .
  have "cache_core H (s\<lparr>bufs := (bufs s)[b := (bufs s ! b)\<lparr>b_data := d\<rparr>]\<rparr>)"
    using b coreD(4) [OF c0 lt] coreD(1,5) [OF c0]
    by (intro core_update [OF c0 lt, of "(bufs s ! b)\<lparr>b_data := d\<rparr>"]) (auto simp: buf_good_def home_def)
  then show ?thesis using c coreD(6) [OF c0] lt by (auto simp: cache_ok_def nth_list_update)
qed

lemma wp_bwrite:
  assumes c: "cache_ok H s" and b: "b \<in> H"
    and post: "\<And>t. \<lbrakk>cache_ok H t; disk t = set_blk (disk s) (b_dev (bufs s ! b)) (b_sector (bufs s ! b)) (b_data (bufs s ! b));
        home (bufs t ! b) = home (bufs s ! b); b_data (bufs t ! b) = b_data (bufs s ! b);
        \<forall>h. h \<noteq> b \<longrightarrow> bufs t ! h = bufs s ! h; disk_frame s t\<rbrakk> \<Longrightarrow> Q () t"
  shows "wp (bwrite b) Q s"
proof -
  have c0: "cache_core H s" and v: "\<And>h. h \<in> H \<Longrightarrow> bit (b_flags (bufs s ! h)) 1"
    using c by (auto simp: cache_ok_def)
  let ?k = "bufs s ! b" and ?s = "s\<lparr>bufs := (bufs s)[b := flag_on B_DIRTY (bufs s ! b)]\<rparr>"
  let ?k' = "flag_on B_DIRTY ?k"
  have lt: "b < NBUF" using coreD(7) [OF c0 b] .
  have len: "b < length (bufs s)" using coreD(6) [OF c0] lt by simp
  have g: "bit (b_flags ?k) 0" "\<not> bit (b_flags ?k) 2" "on_disk (b_dev ?k) (b_sector ?k)" "length (b_data ?k) = BSIZE"
    using coreD(4) [OF c0 lt] v [OF b] b by (auto simp: buf_good_def)
  have m: "machine_ok s" by (rule coreD(1) [OF c0])
  then obtain i where i: "held s = {}" "idequeue s = None" "cur s = Some i" "i < length (ptable s)" "\<not> ide_error s"
    "havedisk1 s" by (auto simp: machine_ok_def)
  have "wp (iderw_done b) Q ?s"
  proof (rule wp_iderw_done [where k = ?k' and i = i])
    fix r ps assume ps: "same_procs (ptable ?s) ps"
    let ?d = "set_blk (disk s) (b_dev ?k) (b_sector ?k) (b_data ?k)"
    let ?u = "s\<lparr>bufs := (bufs s)[b := buf_after (disk s) ?k'], ioport := r, disk := ?d, ptable := ps\<rparr>"
    have du: "disk_after (disk s) ?k' = ?d" by (simp add: disk_after_def)
    have mu: "machine_ok ?u" using m ps g(4) by (auto simp: machine_ok_def same_procs_length set_blk_def)
    have other: "buf_good H ?d j (bufs s ! j)"
      if "buf_good H (disk s) j (bufs s ! j)" "home (bufs s ! j) \<noteq> home ?k \<or> b_dev ?k = - 1" for j
      using that g(3) by (auto simp: buf_good_def blk_set_blk home_def on_disk_def)
    have cu: "cache_core H ?u"
      using g b
      by (intro core_update [OF c0 lt, of "buf_after (disk s) ?k'"])
        (auto simp: mu coreD(5) [OF c0] buf_good_def home_def blk_set_blk)
    have "Q () ?u"
      using g v b lt len cu ps by (intro post) (auto simp: cache_ok_def nth_list_update home_def)
    then show "Q () (?s\<lparr>bufs := (bufs ?s)[b := buf_after (disk ?s) ?k'], ioport := r,
        disk := disk_after (disk ?s) ?k', ptable := ps\<rparr>)"
      by (simp add: du)
  qed (use i g len in auto)
  then show ?thesis using g(1) by (simp add: bwrite_def)
qed


text \<open>\<open>brelse\<close>: a clean buffer goes back to the cache, as the most recently used one.\<close>

lemma wp_brelse_links:
  assumes "held s = {}" "bit (b_flags (bufs s ! b)) 0" "lru (bufs s) (as @ b # cs)"
    and "Q () (s\<lparr>bufs := (to_front (bufs s) b)[b := flag_off B_BUSY (to_front (bufs s) b ! b)],
           ptable := map (wake (ChBuf b)) (ptable s)\<rparr>)"
  shows "wp (brelse b) Q s"
  using assms(1,2,4) by (simp add: brelse_def to_front_def Let_def)

definition strip :: "buf \<Rightarrow> buf" where
  "strip k = k\<lparr>b_next := 0, b_prev := 0\<rparr>"

lemma strip_upd: "strip k = strip (xs ! j) \<Longrightarrow> map strip (xs[j := k]) = map strip xs"
proof (cases "j < length xs")
  assume "strip k = strip (xs ! j)" "j < length xs"
  then show ?thesis by (simp add: map_update) (metis list_update_id nth_map)
qed (simp add: not_less list_update_beyond del: map_update)

lemma map_strip_to_front: "map strip (to_front bs b) = map strip bs"
  unfolding to_front_def Let_def
  by (intro strip_upd [THEN trans]) (simp_all add: strip_def)

lemma to_front_nth:
  assumes "i < length bs"
  shows "home (to_front bs b ! i) = home (bs ! i)" "b_flags (to_front bs b ! i) = b_flags (bs ! i)"
    "b_data (to_front bs b ! i) = b_data (bs ! i)" "b_dev (to_front bs b ! i) = b_dev (bs ! i)"
    "b_sector (to_front bs b ! i) = b_sector (bs ! i)" "length (to_front bs b) = length bs"
proof -
  show len: "length (to_front bs b) = length bs" by (metis length_map map_strip_to_front)
  have "strip (to_front bs b ! i) = strip (bs ! i)"
    using assms map_strip_to_front [of bs b] len by (metis nth_map)
  then show "home (to_front bs b ! i) = home (bs ! i)" "b_flags (to_front bs b ! i) = b_flags (bs ! i)"
    "b_data (to_front bs b ! i) = b_data (bs ! i)" "b_dev (to_front bs b ! i) = b_dev (bs ! i)"
    "b_sector (to_front bs b ! i) = b_sector (bs ! i)"
    by (cases "to_front bs b ! i"; cases "bs ! i"; simp add: strip_def home_def)+
qed

lemma wp_brelse:
  assumes c: "cache_ok H s" and b: "b \<in> H" "b_data (bufs s ! b) = blk (disk s) (b_dev (bufs s ! b)) (b_sector (bufs s ! b))"
    and post: "\<And>t. \<lbrakk>cache_ok (H - {b}) t; disk t = disk s; disk_frame s t;
        \<forall>h < NBUF. home (bufs t ! h) = home (bufs s ! h) \<and> b_data (bufs t ! h) = b_data (bufs s ! h)\<rbrakk> \<Longrightarrow> Q () t"
  shows "wp (brelse b) Q s"
proof -
  have c0: "cache_core H s" and v: "\<And>h. h \<in> H \<Longrightarrow> bit (b_flags (bufs s ! h)) 1"
    using c by (auto simp: cache_ok_def)
  note c' = coreD [OF c0]
  have lt: "b < NBUF" using c'(7) [OF b(1)] .
  obtain ys where ys: "lru (bufs s) ys" using c'(2) by blast
  then obtain as cs where split: "ys = as @ b # cs" using lt lruD(3) [OF ys] split_list by fastforce
  have len: "length (bufs s) = Suc NBUF" by (rule c'(6))
  note nth = to_front_nth [of _ "bufs s" b, unfolded len]
  let ?f = "to_front (bufs s) b"
  let ?t = "s\<lparr>bufs := ?f[b := flag_off B_BUSY (?f ! b)], ptable := map (wake (ChBuf b)) (ptable s)\<rparr>"
  have m: "machine_ok ?t" using c'(1) by (auto simp: machine_ok_def)
  have l: "lru (?f[b := flag_off B_BUSY (?f ! b)]) (b # as @ cs)"
    using to_front_lru [of "bufs s" as b cs] ys split by (intro lru_upd) simp_all
  have flen: "length ?f = Suc NBUF" using nth(6) [of 0] by simp
  have at: "?f[b := flag_off B_BUSY (?f ! b)] ! j = (if j = b then flag_off B_BUSY (?f ! b) else ?f ! j)" if "j < NBUF" for j
    using that flen by (simp add: nth_list_update)
  have "one_buffer (bufs ?t)"
    using c'(3) by (simp add: one_buffer_def at nth) (simp add: home_def nth)
  moreover have "buf_good (H - {b}) (disk s) j (bufs ?t ! j)" if "j < NBUF" for j
    using c'(4) [OF that] c'(4) [OF lt] v [OF b(1)] b that lt by (cases "j = b") (auto simp: at nth buf_good_def)
  ultimately have "cache_core (H - {b}) ?t"
    using m l c'(5) by (auto simp: cache_core_def cache_bufs_def)
  moreover have "\<forall>h \<in> H - {b}. bit (b_flags (bufs ?t ! h)) 1"
  proof
    fix h assume h: "h \<in> H - {b}"
    then have "b_flags (?f ! h) = b_flags (bufs s ! h)" using c'(7) [of h] by (intro nth) simp
    then show "bit (b_flags (bufs ?t ! h)) 1" using h v c'(7) by (simp add: at)
  qed
  moreover have "disk_frame s ?t"
    by (simp add: disk_frame_def same_procs_wake)
  moreover have "\<forall>h < NBUF. home (bufs ?t ! h) = home (bufs s ! h) \<and> b_data (bufs ?t ! h) = b_data (bufs s ! h)"
    using lt by (auto simp: at nth home_def)
  ultimately have "Q () ?t" by (intro post) (auto simp: cache_ok_def)
  then show ?thesis
    using c'(1,4) lt ys split b(1) by (intro wp_brelse_links [of s b as cs]) (auto simp: machine_ok_def buf_good_def)
qed

section \<open>The interface of the file system\<close>

text \<open>
  Handles to blocks: reading a block takes a handle, whose contents the holder may change, push
  to the disk and give back.  \<open>peek\<close> and \<open>modify\<close> are the two ways the file system uses it.
\<close>

locale block_store =
  fixes ok :: "nat set \<Rightarrow> 's \<Rightarrow> bool"
    and blocks :: "'s \<Rightarrow> 'a \<Rightarrow> 'd"
    and at :: "'s \<Rightarrow> nat \<Rightarrow> 'a"
    and cont :: "'s \<Rightarrow> nat \<Rightarrow> 'd"
    and frame :: "'s \<Rightarrow> 's \<Rightarrow> bool"
    and addr :: "'a \<Rightarrow> bool"
    and room :: nat
    and fits :: "'d \<Rightarrow> bool"
    and read :: "'a \<Rightarrow> ('s, 'c, nat) prog"
    and contents :: "nat \<Rightarrow> ('s, 'c, 'd) prog"
    and store :: "nat \<Rightarrow> 'd \<Rightarrow> ('s, 'c, unit) prog"
    and sync :: "nat \<Rightarrow> ('s, 'c, unit) prog"
    and release :: "nat \<Rightarrow> ('s, 'c, unit) prog"
  assumes frame_trans: "frame s t \<Longrightarrow> frame t u \<Longrightarrow> frame s u"
    and read: "\<lbrakk>ok H s; addr a; \<And>h. h \<in> H \<Longrightarrow> at s h \<noteq> a; card H < room;
        \<And>b t. \<lbrakk>b \<notin> H; ok (insert b H) t; blocks t = blocks s; at t b = a; cont t b = blocks s a;
            \<forall>h \<in> H. at t h = at s h \<and> cont t h = cont s h; frame s t\<rbrakk> \<Longrightarrow> Q b t\<rbrakk> \<Longrightarrow> wp (read a) Q s"
    and contents: "wp (contents b) R s = R (cont s b) s"
    and store: "\<lbrakk>ok H s; b \<in> H; fits d;
        \<And>t. \<lbrakk>ok H t; blocks t = blocks s; at t b = at s b; cont t b = d;
            \<forall>h \<in> H - {b}. at t h = at s h \<and> cont t h = cont s h; frame s t\<rbrakk> \<Longrightarrow> P () t\<rbrakk> \<Longrightarrow> wp (store b d) P s"
    and sync: "\<lbrakk>ok H s; b \<in> H; addr (at s b);
        \<And>t. \<lbrakk>ok H t; \<forall>x. addr x \<longrightarrow> blocks t x = (if x = at s b then cont s b else blocks s x);
            \<forall>h \<in> H. at t h = at s h \<and> cont t h = cont s h; frame s t\<rbrakk> \<Longrightarrow> P () t\<rbrakk> \<Longrightarrow> wp (sync b) P s"
    and release: "\<lbrakk>ok H s; b \<in> H; cont s b = blocks s (at s b);
        \<And>t. \<lbrakk>ok (H - {b}) t; blocks t = blocks s; \<forall>h \<in> H. at t h = at s h \<and> cont t h = cont s h; frame s t\<rbrakk> \<Longrightarrow> P () t\<rbrakk> \<Longrightarrow>
        wp (release b) P s"
begin

definition keeps :: "nat set \<Rightarrow> 's \<Rightarrow> 's \<Rightarrow> bool" where
  "keeps H s t \<longleftrightarrow> frame s t \<and> (\<forall>h \<in> H. at t h = at s h \<and> cont t h = cont s h)"

lemma keeps_trans: "keeps H s t \<Longrightarrow> keeps H t u \<Longrightarrow> keeps H s u"
  unfolding keeps_def using frame_trans by auto

text \<open>The holder of \<open>b\<close>, read from \<open>a\<close> and not changed since.\<close>

definition holds :: "nat \<Rightarrow> 'a \<Rightarrow> nat set \<Rightarrow> 's \<Rightarrow> bool" where
  "holds b a H s \<longleftrightarrow> b \<notin> H \<and> ok (insert b H) s \<and> at s b = a \<and> cont s b = blocks s a"

lemma inspect:
  assumes s: "ok H s" "addr a" "\<And>h. h \<in> H \<Longrightarrow> at s h \<noteq> a" "card H < room"
    and m: "\<And>b t. holds b a H t \<Longrightarrow> blocks t = blocks s \<Longrightarrow> keeps H s t \<Longrightarrow> F b (blocks s a) t"
  shows "wp (read a) (\<lambda>b. wp (contents b) (F b)) s"
proof (rule read [OF s])
  fix b t
  assume b: "b \<notin> H" and t: "ok (insert b H) t" "blocks t = blocks s" "at t b = a" "cont t b = blocks s a"
    "\<forall>h\<in>H. at t h = at s h \<and> cont t h = cont s h" "frame s t"
  then have "F b (blocks s a) t" by (intro m) (simp_all add: holds_def keeps_def)
  then show "wp (contents b) (F b) t" by (simp add: contents t(4))
qed

lemma give_back:
  assumes "holds b a H s" and m: "\<And>t. ok H t \<Longrightarrow> blocks t = blocks s \<Longrightarrow> keeps H s t \<Longrightarrow> P () t"
  shows "wp (release b) P s"
proof (rule release [of "insert b H"])
  fix t
  assume "ok (insert b H - {b}) t" "blocks t = blocks s" "\<forall>h\<in>insert b H. at t h = at s h \<and> cont t h = cont s h" "frame s t"
  then show "P () t" using assms(1) by (intro m) (simp_all add: holds_def keeps_def)
qed (use assms(1) in \<open>simp_all add: holds_def\<close>)

lemma commit:
  assumes s: "b \<notin> H" "ok (insert b H) s" "at s b = a" "addr a" "fits d"
    and m: "\<And>t. ok H t \<Longrightarrow> (\<forall>x. addr x \<longrightarrow> blocks t x = (if x = a then d else blocks s x)) \<Longrightarrow> keeps H s t \<Longrightarrow> P () t"
  shows "wp (store b d) (\<lambda>_. wp (sync b) (\<lambda>_. wp (release b) P)) s"
proof (rule store [OF s(2)])
  fix u
  assume u: "ok (insert b H) u" "blocks u = blocks s" "at u b = at s b" "cont u b = d"
    "\<forall>h\<in>insert b H - {b}. at u h = at s h \<and> cont u h = cont s h" "frame s u"
  show "wp (sync b) (\<lambda>_. wp (release b) P) u"
  proof (rule sync [OF u(1)])
    fix v
    assume v: "ok (insert b H) v" "\<forall>x. addr x \<longrightarrow> blocks v x = (if x = at u b then cont u b else blocks u x)"
      "\<forall>h\<in>insert b H. at v h = at u h \<and> cont v h = cont u h" "frame u v"
    show "wp (release b) P v"
    proof (rule give_back)
      show "holds b a H v" using v u s by (simp add: holds_def)
    next
      fix w
      assume w: "ok H w" "blocks w = blocks v" "keeps H v w"
      have "frame s w" using u(6) v(4) w(3) frame_trans by (auto simp: keeps_def)
      then have "keeps H s w" using s(1) u(5) v(3) w(3) by (auto simp: keeps_def)
      then show "P () w" using w(1,2) v(2) u(2,3,4) s(3) by (intro m) simp_all
    qed
  qed (use u s in simp_all)
qed (use s in simp_all)

lemma peek:
  assumes s: "ok H s" "addr a" "\<And>h. h \<in> H \<Longrightarrow> at s h \<noteq> a" "card H < room"
    and m: "\<And>t. ok H t \<Longrightarrow> blocks t = blocks s \<Longrightarrow> keeps H s t \<Longrightarrow> F (blocks s a) t"
  shows "wp (read a) (\<lambda>b. wp (contents b) (\<lambda>d. wp (release b) (\<lambda>_. F d))) s"
proof (rule inspect [OF s])
  fix b t assume t: "holds b a H t" "blocks t = blocks s" "keeps H s t"
  show "wp (release b) (\<lambda>_. F (blocks s a)) t"
    using t by (intro give_back [OF t(1)] m) (auto intro: keeps_trans)
qed

lemma modify:
  assumes s: "ok H s" "addr a" "\<And>h. h \<in> H \<Longrightarrow> at s h \<noteq> a" "card H < room" "fits (f (blocks s a))"
    and m: "\<And>t. ok H t \<Longrightarrow> (\<forall>x. addr x \<longrightarrow> blocks t x = (if x = a then f (blocks s a) else blocks s x)) \<Longrightarrow>
      keeps H s t \<Longrightarrow> P () t"
  shows "wp (read a) (\<lambda>b. wp (contents b) (\<lambda>d. wp (store b (f d)) (\<lambda>_. wp (sync b) (\<lambda>_. wp (release b) P)))) s"
proof (rule inspect [OF s(1-4)])
  fix b t assume t: "holds b a H t" "blocks t = blocks s" "keeps H s t"
  show "wp (store b (f (blocks s a))) (\<lambda>_. wp (sync b) (\<lambda>_. wp (release b) P)) t"
    using t s(2,5) by (intro commit [of b H t a]) (auto simp: holds_def intro: m keeps_trans)
qed

text \<open>Overwriting a block without looking at it.\<close>

lemma overwrite:
  assumes s: "ok H s" "addr a" "\<And>h. h \<in> H \<Longrightarrow> at s h \<noteq> a" "card H < room" "fits d"
    and m: "\<And>t. ok H t \<Longrightarrow> (\<forall>x. addr x \<longrightarrow> blocks t x = (if x = a then d else blocks s x)) \<Longrightarrow> keeps H s t \<Longrightarrow> P () t"
  shows "wp (read a) (\<lambda>b. wp (store b d) (\<lambda>_. wp (sync b) (\<lambda>_. wp (release b) P))) s"
proof -
  have "wp (read a) (\<lambda>b. wp (contents b) (\<lambda>_. wp (store b d) (\<lambda>_. wp (sync b) (\<lambda>_. wp (release b) P)))) s"
    using s m by (rule modify)
  then show ?thesis by (rule wp_mono) (simp add: contents)
qed

end

definition bdata :: "nat \<Rightarrow> ('z bio_state_scheme, switch, u8 list) prog" where
  "bdata b = asks (\<lambda>s. b_data (bufs s ! b))"

definition blk_at :: "'z bio_state_scheme \<Rightarrow> u32 \<times> u32 \<Rightarrow> u8 list" where
  "blk_at s a = blk (disk s) (fst a) (snd a)"

definition block_ok :: "u32 \<times> u32 \<Rightarrow> bool" where
  "block_ok a \<longleftrightarrow> on_disk (fst a) (snd a)"

definition home_at :: "'z bio_state_scheme \<Rightarrow> nat \<Rightarrow> u32 \<times> u32" where
  "home_at s b = home (bufs s ! b)"

definition data_at :: "'z bio_state_scheme \<Rightarrow> nat \<Rightarrow> u8 list" where
  "data_at s b = b_data (bufs s ! b)"

lemma wp_bdata [simp]: "wp (bdata b) Q s = Q (data_at s b) s"
  by (simp add: bdata_def data_at_def)

lemmas handle_defs = blk_at_def block_ok_def home_at_def data_at_def home_def

interpretation bc: block_store cache_ok blk_at home_at data_at disk_frame block_ok NBUF "\<lambda>d. length d = BSIZE"
  "\<lambda>a. bread (fst a) (snd a)" bdata set_data bwrite brelse
proof (unfold_locales, goal_cases)
  case (1 s t u)
  then show ?case by (rule disk_frame_trans)
next
  case (2 H s a Q)
  show ?case
  proof (rule wp_bread [OF 2(1)])
    fix b t
    assume b: "b \<notin> H" "b < NBUF" and t: "cache_ok (insert b H) t" "disk t = disk s" "home (bufs t ! b) = (fst a, snd a)"
      "b_data (bufs t ! b) = blk (disk s) (fst a) (snd a)" "\<forall>h. h \<noteq> b \<longrightarrow> bufs t ! h = bufs s ! h" "disk_frame s t"
    have "blk_at t = blk_at s" by (rule ext) (simp add: blk_at_def t(2))
    then show "Q b t"
      using b t by (intro 2(5)) (auto simp: blk_at_def home_at_def data_at_def)
  qed (use 2 in \<open>auto simp: block_ok_def home_at_def\<close>)
next
  case (3 b R s)
  then show ?case by simp
next
  case (4 H s b d P)
  have c: "cache_core H s" using 4(1) by (simp add: cache_ok_def)
  have "b < length (bufs s)" using coreD(6) [OF c] coreD(7) [OF c 4(2)] by simp
  then show ?case
    using 4 cache_set_data [OF 4(1,2,3)] by (auto simp: set_data_def handle_defs intro!: 4(4))
next
  case (5 H s b P)
  show ?case
  proof (rule wp_bwrite [OF 5(1,2)])
    fix t
    assume t: "cache_ok H t" "disk t = set_blk (disk s) (b_dev (bufs s ! b)) (b_sector (bufs s ! b)) (b_data (bufs s ! b))"
      "home (bufs t ! b) = home (bufs s ! b)" "b_data (bufs t ! b) = b_data (bufs s ! b)"
      "\<forall>h. h \<noteq> b \<longrightarrow> bufs t ! h = bufs s ! h" "disk_frame s t"
    have "on_disk (b_dev (bufs s ! b)) (b_sector (bufs s ! b))"
      using 5(3) by (simp add: handle_defs)
    then have "\<forall>x. block_ok x \<longrightarrow> blk_at t x = (if x = home_at s b then data_at s b else blk_at s x)"
      using t(2) by (auto simp: handle_defs blk_set_blk)
    moreover have "\<forall>h \<in> H. home_at t h = home_at s h \<and> data_at t h = data_at s h"
      using t(3-5) by (simp add: home_at_def data_at_def) metis
    ultimately show "P () t" using t by (intro 5(4)) simp_all
  qed
next
  case (6 H s b P)
  have c: "cache_core H s" using 6(1) by (simp add: cache_ok_def)
  show ?case
  proof (rule wp_brelse [OF 6(1,2)])
    fix t
    assume t: "cache_ok (H - {b}) t" "disk t = disk s" "disk_frame s t"
      "\<forall>h < NBUF. home (bufs t ! h) = home (bufs s ! h) \<and> b_data (bufs t ! h) = b_data (bufs s ! h)"
    have "blk_at t = blk_at s" by (rule ext) (simp add: blk_at_def t(2))
    then show "P () t"
      using t coreD(7) [OF c] by (intro 6(4)) (auto simp: home_at_def data_at_def)
  qed (use 6(3) in \<open>simp add: handle_defs\<close>)
qed

lemmas block_inspect = bc.inspect [where a = "(dev, n)" for dev n, unfolded fst_conv snd_conv]
lemmas block_peek = bc.peek [where a = "(dev, n)" for dev n, unfolded fst_conv snd_conv]
lemmas block_modify = bc.modify [where a = "(dev, n)" for dev n, unfolded fst_conv snd_conv]
lemmas block_overwrite = bc.overwrite [where a = "(dev, n)" for dev n, unfolded fst_conv snd_conv]

lemma block_length: "cache_ok H s \<Longrightarrow> length (blk_at s a) = BSIZE"
  by (simp add: cache_ok_def cache_core_def machine_ok_def blk_at_def blk_def)

lemma cache_H: "cache_ok H s \<Longrightarrow> H \<subseteq> {..<NBUF}" "cache_ok H s \<Longrightarrow> finite H"
  using finite_subset [of H "{..<NBUF}"] by (auto simp: cache_ok_def cache_core_def cache_bufs_def)

lemma cache_held [simp]: "cache_ok H s \<Longrightarrow> held s = {}"
  by (simp add: cache_ok_def cache_core_def machine_ok_def)

lemma keeps_refl [simp]: "bc.keeps H s s"
  by (simp add: bc.keeps_def)

lemma keeps_frame: "bc.keeps H s t \<Longrightarrow> disk_frame s t"
  by (simp add: bc.keeps_def)

lemma keeps_home: "bc.keeps H s t \<Longrightarrow> h \<in> H \<Longrightarrow> home_at t h = home_at s h"
  by (simp add: bc.keeps_def)

lemma keeps_weaken: "bc.keeps (insert b H) s t \<Longrightarrow> bc.keeps H s t"
  by (simp add: bc.keeps_def)

section \<open>Initialisation and the properties\<close>

lemma binit_one_lru:
  assumes "chain (nxt bs) (prv bs) NBUF (ys @ [NBUF])" "distinct ys" "set ys \<subseteq> {..<NBUF}" "b \<notin> set ys" "b < NBUF"
    and "length bs = Suc NBUF"
  shows "wp (binit_one b) (\<lambda>_ t. \<exists>bs'. t = s\<lparr>bufs := bs'\<rparr> \<and> length bs' = Suc NBUF \<and>
      chain (nxt bs') (prv bs') NBUF ((b # ys) @ [NBUF]) \<and> map b_flags bs' = map b_flags bs \<and>
      (\<forall>i. i \<noteq> b \<longrightarrow> b_dev (bs' ! i) = b_dev (bs ! i)) \<and> b_dev (bs' ! b) = - 1) (s\<lparr>bufs := bs\<rparr>)"
proof -
  let ?h = "nxt bs NBUF"
  have h: "?h \<in> set (ys @ [NBUF])" using assms(1) by (cases ys) auto
  then have lt: "?h < length bs" "b < length bs" "NBUF < length bs" "?h \<noteq> b" "b \<noteq> NBUF"
    using assms(3-6) by auto
  let ?bs1 = "bs[b := (bs ! b)\<lparr>b_next := ?h, b_prev := NBUF, b_dev := - 1\<rparr>]"
  let ?bs2 = "?bs1[?h := (?bs1 ! ?h)\<lparr>b_prev := b\<rparr>]"
  let ?bs3 = "?bs2[NBUF := (?bs2 ! NBUF)\<lparr>b_next := b\<rparr>]"
  have "nxt ?bs3 = (nxt bs)(b := ?h, NBUF := b)" "prv ?bs3 = (prv bs)(b := NBUF, ?h := b)"
    using lt by (simp_all add: link_update link_fold) (auto simp: fun_eq_iff)
  moreover have "chain ((nxt bs)(b := ?h, NBUF := b)) ((prv bs)(b := NBUF, ?h := b)) NBUF (b # ys @ [NBUF])"
    using assms lt by (intro chain_push [OF assms(1)]) auto
  moreover have "map b_flags ?bs3 = map b_flags bs"
  proof -
    have f: "j < length (xs :: buf list) \<Longrightarrow> b_flags k = b_flags (xs ! j) \<Longrightarrow> map b_flags (xs[j := k]) = map b_flags xs"
      for xs j k by (simp add: map_update) (metis list_update_id nth_map)
    show ?thesis using lt by (intro f [THEN trans]) (simp_all add: nth_list_update)
  qed
  moreover have "(\<forall>i. i \<noteq> b \<longrightarrow> b_dev (?bs3 ! i) = b_dev (bs ! i)) \<and> b_dev (?bs3 ! b) = - 1"
    using lt by (auto simp: nth_list_update list_update_beyond nth_list_update_neq)
  ultimately show ?thesis
    using assms(6) by (simp add: binit_one_def link_fold) (rule exI [of _ ?bs3], simp add: link_fold)
qed

text \<open>\<open>binit\<close> establishes the invariant of the buffer cache from zeroed buffers: they form one LRU
  list, none is held, and none claims to hold a block.\<close>

theorem binit_establishes_cache:
  assumes len: "length (bufs s) = Suc NBUF" and z: "\<forall>b < NBUF. b_flags (bufs s ! b) = 0"
  shows "wp binit (\<lambda>_ t. cache_bufs {} t \<and> lru (bufs t) (rev [0..<NBUF]) \<and> t = s\<lparr>bufs := bufs t\<rparr>) s"
proof -
  let ?I = "\<lambda>ys t. \<exists>bs. t = s\<lparr>bufs := bs\<rparr> \<and> length bs = Suc NBUF \<and> chain (nxt bs) (prv bs) NBUF (rev ys @ [NBUF])
     \<and> map b_flags bs = map b_flags (bufs s) \<and> (\<forall>i \<in> set ys. b_dev (bs ! i) = - 1)"
  let ?bs0 = "(bufs s)[NBUF := (bufs s ! NBUF)\<lparr>b_prev := NBUF, b_next := NBUF\<rparr>]"
  let ?s0 = "s\<lparr>bufs := ?bs0\<rparr>"
  have "wp (foreach [0..<NBUF] binit_one) (\<lambda>_ t. cache_bufs {} t \<and> lru (bufs t) (rev [0..<NBUF]) \<and> t = s\<lparr>bufs := bufs t\<rparr>) ?s0"
  proof (rule wp_foreach [where I = ?I])
    have "map b_flags ?bs0 = map b_flags (bufs s)"
      using len by (simp add: map_update) (metis lessI list_update_id nth_map)
    then show "?I [] ?s0" using len by (intro exI [of _ ?bs0]) (simp add: nxt_def prv_def)
  next
    fix ys x zs t
    assume split: "[0..<NBUF] = ys @ x # zs" and I: "?I ys t"
    then obtain bs where bs: "t = s\<lparr>bufs := bs\<rparr>" "length bs = Suc NBUF"
      "chain (nxt bs) (prv bs) NBUF (rev ys @ [NBUF])" "map b_flags bs = map b_flags (bufs s)"
      "\<forall>i \<in> set ys. b_dev (bs ! i) = - 1" by blast
    have d: "distinct (ys @ x # zs)" "set (ys @ x # zs) = {..<NBUF}"
      unfolding split [symmetric] by auto
    then have "x < NBUF" "set ys \<subseteq> {..<NBUF}" by auto
    then have "wp (binit_one x) (\<lambda>_ t. \<exists>bs'. t = s\<lparr>bufs := bs'\<rparr> \<and> length bs' = Suc NBUF \<and>
      chain (nxt bs') (prv bs') NBUF ((x # rev ys) @ [NBUF]) \<and> map b_flags bs' = map b_flags bs \<and>
      (\<forall>i. i \<noteq> x \<longrightarrow> b_dev (bs' ! i) = b_dev (bs ! i)) \<and> b_dev (bs' ! x) = - 1) t"
      unfolding bs(1) using bs(2,3) d by (intro binit_one_lru) auto
    then show "wp (binit_one x) (\<lambda>_. ?I (ys @ [x])) t"
    proof (rule wp_mono, elim exE conjE)
      fix a t' bs'
      assume u: "t' = s\<lparr>bufs := bs'\<rparr>" "length bs' = Suc NBUF" "chain (nxt bs') (prv bs') NBUF ((x # rev ys) @ [NBUF])"
        "map b_flags bs' = map b_flags bs" "\<forall>i. i \<noteq> x \<longrightarrow> b_dev (bs' ! i) = b_dev (bs ! i)" "b_dev (bs' ! x) = - 1"
      have "b_dev (bs' ! i) = - 1" if "i \<in> set (ys @ [x])" for i
        using that u(5,6) bs(5) by (cases "i = x") auto
      then show "?I (ys @ [x]) t'" using u bs(4) by (intro exI [of _ bs']) simp
    qed
  next
    fix t assume "?I [0..<NBUF] t"
    then obtain bs where bs: "t = s\<lparr>bufs := bs\<rparr>" "length bs = Suc NBUF"
      "chain (nxt bs) (prv bs) NBUF (rev [0..<NBUF] @ [NBUF])" "map b_flags bs = map b_flags (bufs s)"
      "\<forall>i < NBUF. b_dev (bs ! i) = - 1" by (auto simp: atLeast_upt)
    have l: "lru bs (rev [0..<NBUF])" using bs(2,3) by (auto simp: lru_links)
    have fl: "b_flags (bs ! i) = 0" if "i < NBUF" for i
      using that bs(2,4) z len by (metis less_SucI nth_map)
    have "cache_bufs {} t"
      using l bs(1,5) fl by (auto simp: cache_bufs_def one_buffer_def buf_good_def)
    then show "cache_bufs {} t \<and> lru (bufs t) (rev [0..<NBUF]) \<and> t = s\<lparr>bufs := bufs t\<rparr>"
      using l bs(1) by simp
  qed
  then show ?thesis using len by (simp add: binit_def)
qed

definition raw_buf :: buf where
  "raw_buf = \<lparr>b_flags = 0, b_dev = 0, b_sector = 0, b_prev = 0, b_next = 0, b_qnext = None, b_data = replicate BSIZE 0\<rparr>"

definition two_disks :: bio_state where
  "two_disks = pipe_state.extend (pipe_example\<lparr>held := {}\<rparr>)
     \<lparr>bufs = replicate (Suc NBUF) raw_buf, idequeue = None, havedisk1 = True, ioport = (\<lambda>_. 0),
      disk = (\<lambda>_ _. replicate BSIZE 0), ide_error = False\<rparr>"

lemma two_disks_simps [simp]:
  "held two_disks = {}" "cur two_disks = Some 0" "ptable two_disks = ptable two_threads"
  "bufs two_disks = replicate (Suc NBUF) raw_buf" "idequeue two_disks = None" "havedisk1 two_disks"
  "disk two_disks = (\<lambda>_ _. replicate BSIZE 0)" "\<not> ide_error two_disks"
  by (simp_all add: two_disks_def pipe_state.defs pipe_example_def sched_state.defs two_threads_def kmem_state.defs)

theorem binit_establishes_cache_witness:
  "wp binit (\<lambda>_ t. cache_bufs {} t \<and> lru (bufs t) (rev [0..<NBUF]) \<and> t = two_disks\<lparr>bufs := bufs t\<rparr>) two_disks"
proof (rule binit_establishes_cache)
  have "b_flags (bufs two_disks ! b) = 0" if "b < Suc NBUF" for b
    using that by (simp add: raw_buf_def del: replicate_Suc)
  then show "\<forall>b < NBUF. b_flags (bufs two_disks ! b) = 0" by simp
qed simp

text \<open>The state after \<open>binit\<close>.\<close>

definition cold_bufs :: "buf list" where
  "cold_bufs = map (\<lambda>i. raw_buf\<lparr>b_dev := - 1, b_next := (if i = 0 then NBUF else i - 1), b_prev := Suc i\<rparr>) [0..<NBUF]
     @ [raw_buf\<lparr>b_next := 9, b_prev := 0\<rparr>]"

definition cold_cache :: bio_state where
  "cold_cache = two_disks\<lparr>bufs := cold_bufs\<rparr>"

lemma cold_lru: "lru cold_bufs [9, 8, 7, 6, 5, 4, 3, 2, 1, 0]"
proof -
  have n: "[0..<10] = [0, 1, 2, 3, 4, 5, 6, 7, 8, 9]" by (simp add: upt_rec)
  have "set [9, 8, 7, 6, 5, 4, 3, 2, 1, 0 :: nat] = {..<NBUF}"
    unfolding lessThan_atLeast0 atLeastLessThan_upt NBUF_def n by auto
  then show ?thesis
    by (simp add: lru_def cold_bufs_def n NBUF_def)
qed

lemma cold_cache_ok: "cache_ok {} cold_cache"
proof -
  have "lru cold_bufs [9, 8, 7, 6, 5, 4, 3, 2, 1, 0]" by (rule cold_lru)
  moreover have "b_dev (cold_bufs ! b) = - 1" "b_flags (cold_bufs ! b) = 0" if "b < NBUF" for b
    using that by (simp_all add: cold_bufs_def nth_append raw_buf_def)
  moreover have "machine_ok two_disks" by (auto simp: machine_ok_def)
  ultimately show ?thesis
    by (auto simp: cache_ok_def cache_core_def cache_bufs_def cold_cache_def one_buffer_def buf_good_def)
qed

text \<open>\<open>bread\<close> of a block nobody holds, with at least one of the buffers free, returns a buffer that
  the caller now holds, valid and with the contents the disk has for that block, whatever was
  cached before; the disk and the buffers held before are untouched.\<close>

theorem bread_returns_block:
  assumes "cache_ok H s" "on_disk dev n" "\<forall>h \<in> H. home_at s h \<noteq> (dev, n)" "card H < NBUF"
  shows "wp (bread dev n) (\<lambda>b t. b \<notin> H \<and> cache_ok (insert b H) t \<and> home_at t b = (dev, n)
      \<and> data_at t b = blk (disk s) dev n \<and> disk t = disk s \<and> disk_frame s t
      \<and> (\<forall>h. h \<noteq> b \<longrightarrow> bufs t ! h = bufs s ! h)) s"
  using assms by (intro wp_bread) (auto simp: home_at_def data_at_def)

theorem bread_returns_block_witness:
  "wp (bread 1 7) (\<lambda>b t. cache_ok {b} t \<and> data_at t b = replicate BSIZE 0) cold_cache"
  by (rule wp_mono [OF bread_returns_block [OF cold_cache_ok]])
    (auto simp: on_disk_def NBUF_def blk_def cold_cache_def)

text \<open>C9: What is written to a block is what is read from it later, and writing changes no other
  block: after \<open>bread\<close>, a store into the buffer, \<open>bwrite\<close> and \<open>brelse\<close>, reading any block of
  the disk gives the new contents for this block and the old ones for every other.\<close>

theorem block_write_then_read:
  assumes "cache_ok {} s" "on_disk dev n" "length d = BSIZE" "on_disk dev' n'"
  shows "wp (thn (bnd (bread dev n) (\<lambda>b. bnd (bdata b) (\<lambda>_. thn (set_data b d) (thn (bwrite b) (brelse b)))))
      (bread dev' n')) (\<lambda>b t. cache_ok {b} t \<and>
        data_at t b = (if dev' = dev \<and> n' = n then d else blk (disk s) dev' n')) s"
proof -
  have "wp (bread (fst (dev, n)) (snd (dev, n))) (\<lambda>b. wp (bdata b) (\<lambda>_. wp (set_data b d) (\<lambda>_. wp (bwrite b) (\<lambda>_.
      wp (brelse b) (\<lambda>_. wp (bread dev' n') (\<lambda>b t. cache_ok {b} t \<and>
        data_at t b = (if dev' = dev \<and> n' = n then d else blk (disk s) dev' n'))))))) s"
  proof (rule bc.modify [OF assms(1)])
    fix t
    assume t: "cache_ok {} t" "\<forall>x. block_ok x \<longrightarrow> blk_at t x = (if x = (dev, n) then d else blk_at s x)"
    then have c: "blk (disk t) dev' n' = (if dev' = dev \<and> n' = n then d else blk (disk s) dev' n')"
      using assms(4) by (auto simp: handle_defs dest: spec [of _ "(dev', n')"])
    show "wp (bread dev' n') (\<lambda>b t. cache_ok {b} t \<and>
        data_at t b = (if dev' = dev \<and> n' = n then d else blk (disk s) dev' n')) t"
      using t(1) assms(4) c by (intro wp_bread) (simp_all add: NBUF_def data_at_def)
  qed (use assms in \<open>simp_all add: block_ok_def NBUF_def\<close>)
  then show ?thesis by (simp only: wp_nest fst_conv snd_conv)
qed

theorem block_write_then_read_witness:
  "wp (thn (bnd (bread 1 7) (\<lambda>b. bnd (bdata b) (\<lambda>_. thn (set_data b (replicate BSIZE 5)) (thn (bwrite b) (brelse b)))))
      (bread 1 7)) (\<lambda>b t. cache_ok {b} t \<and> data_at t b = replicate BSIZE 5) cold_cache"
  by (rule wp_mono [OF block_write_then_read [OF cold_cache_ok]]) (auto simp: on_disk_def)

text \<open>\<open>brelse\<close> makes the buffer the most recently used one: it moves to the front of the LRU list
  and the order of the others stays, so that \<open>bget\<close> recycles the buffer released longest ago.\<close>

theorem brelse_is_lru:
  assumes "held s = {}" "bit (b_flags (bufs s ! b)) 0" "lru (bufs s) (as @ b # cs)"
  shows "wp (brelse b) (\<lambda>_ t. lru (bufs t) (b # as @ cs) \<and> held t = {} \<and> \<not> bit (b_flags (bufs t ! b)) 0
     \<and> (\<forall>i < NBUF. home (bufs t ! i) = home (bufs s ! i) \<and> b_data (bufs t ! i) = b_data (bufs s ! i))) s"
proof (rule wp_brelse_links [OF assms])
  have len: "length (bufs s) = Suc NBUF" by (rule lruD(1) [OF assms(3)])
  have b: "b < NBUF" using lruD(3) [OF assms(3)] by auto
  note nth = to_front_nth [of _ "bufs s" b, unfolded len]
  let ?f = "to_front (bufs s) b"
  have flen: "length ?f = Suc NBUF" using nth(6) [of 0] by simp
  have "lru (?f[b := flag_off B_BUSY (?f ! b)]) (b # as @ cs)"
    by (intro lru_upd to_front_lru assms(3)) simp_all
  then show "lru (bufs (s\<lparr>bufs := ?f[b := flag_off B_BUSY (?f ! b)], ptable := map (wake (ChBuf b)) (ptable s)\<rparr>)) (b # as @ cs)
      \<and> held (s\<lparr>bufs := ?f[b := flag_off B_BUSY (?f ! b)], ptable := map (wake (ChBuf b)) (ptable s)\<rparr>) = {}
      \<and> \<not> bit (b_flags (bufs (s\<lparr>bufs := ?f[b := flag_off B_BUSY (?f ! b)], ptable := map (wake (ChBuf b)) (ptable s)\<rparr>) ! b)) 0
      \<and> (\<forall>i < NBUF. home (bufs (s\<lparr>bufs := ?f[b := flag_off B_BUSY (?f ! b)], ptable := map (wake (ChBuf b)) (ptable s)\<rparr>) ! i)
            = home (bufs s ! i)
          \<and> b_data (bufs (s\<lparr>bufs := ?f[b := flag_off B_BUSY (?f ! b)], ptable := map (wake (ChBuf b)) (ptable s)\<rparr>) ! i)
            = b_data (bufs s ! i))"
    using assms(1) b flen by (auto simp: nth_list_update nth home_def)
qed

definition busy_cache :: bio_state where
  "busy_cache = cold_cache\<lparr>bufs := cold_bufs[4 := (cold_bufs ! 4)\<lparr>b_flags := 1\<rparr>]\<rparr>"

theorem brelse_is_lru_witness:
  "wp (brelse 4) (\<lambda>_ t. lru (bufs t) [4, 9, 8, 7, 6, 5, 3, 2, 1, 0]) busy_cache"
proof -
  have n: "[0..<10] = [0, 1, 2, 3, 4, 5, 6, 7, 8, 9]" by (simp add: upt_rec)
  have "lru cold_bufs ([9, 8, 7, 6, 5] @ 4 # [3, 2, 1, 0])" using cold_lru by simp
  then have "lru (bufs busy_cache) ([9, 8, 7, 6, 5] @ 4 # [3, 2, 1, 0])"
    unfolding busy_cache_def by simp (rule lru_upd, simp_all)
  then show ?thesis
    by (intro wp_mono [OF brelse_is_lru [of busy_cache 4 "[9, 8, 7, 6, 5]" "[3, 2, 1, 0]"]])
      (simp_all add: busy_cache_def cold_cache_def cold_bufs_def n NBUF_def)
qed

end
