(* ===== verification/Layout.thy ===== *)
theory Layout
  imports Bio
begin

text \<open>
  The on-disk format, \<open>include/fs.h\<close>: superblock, inodes, directory entries and bitmap as the
  kernel reads and writes them in the bytes of a block, with the block numbers that the layout
  macros compute.  The lemmas are the encode/decode laws and that a store at one slot of a block
  leaves the other slots alone.
\<close>

section \<open>Numbers in a block\<close>

definition get16 :: "u8 list \<Rightarrow> nat \<Rightarrow> u16" where
  "get16 d k = ucast (d ! k) OR push_bit 8 (ucast (d ! Suc k))"

definition get32 :: "u8 list \<Rightarrow> nat \<Rightarrow> u32" where
  "get32 d k = join4 (d ! k) (d ! (k + 1)) (d ! (k + 2)) (d ! (k + 3))"

definition bytes16 :: "u16 \<Rightarrow> u8 list" where
  "bytes16 w = [ucast w, ucast (drop_bit 8 w)]"

definition bytes32 :: "u32 \<Rightarrow> u8 list" where
  "bytes32 w = [byte_of 0 w, byte_of 1 w, byte_of 2 w, byte_of 3 w]"

text \<open>\<open>put_at k xs d\<close>: the bytes \<open>xs\<close> stored in the block \<open>d\<close> from offset \<open>k\<close> on.\<close>

definition put_at :: "nat \<Rightarrow> 'a list \<Rightarrow> 'a list \<Rightarrow> 'a list" where
  "put_at k xs d = take k d @ xs @ drop (k + length xs) d"

definition chunk :: "nat \<Rightarrow> nat \<Rightarrow> 'a list \<Rightarrow> 'a list" where
  "chunk k n d = take n (drop k d)"

section \<open>Structures\<close>

record superblock =
  sb_size :: u32
  sb_nblocks :: u32
  sb_ninodes :: u32

definition NDIRECT :: nat where "NDIRECT = 12"
definition NINDIRECT :: nat where "NINDIRECT = 128"
definition MAXFILE :: nat where "MAXFILE = 140"
definition IPB :: nat where "IPB = 8"
definition BPB :: nat where "BPB = 4096"
definition DIRSIZ :: nat where "DIRSIZ = 14"
definition ROOTINO :: u32 where "ROOTINO = 1"
definition ROOTDEV :: u32 where "ROOTDEV = 1"

record dinode =
  d_type :: u16
  d_major :: u16
  d_minor :: u16
  d_nlink :: u16
  d_size :: u32
  d_addrs :: "u32 list"

record dirent =
  de_inum :: u16
  de_name :: "u8 list"

definition IBLOCK :: "u32 \<Rightarrow> u32" where
  "IBLOCK i = i div of_nat IPB + 2"

definition BBLOCK :: "u32 \<Rightarrow> u32 \<Rightarrow> u32" where
  "BBLOCK b ninodes = b div of_nat BPB + ninodes div of_nat IPB + 3"

definition get_sb :: "u8 list \<Rightarrow> superblock" where
  "get_sb d = \<lparr>sb_size = get32 d 0, sb_nblocks = get32 d 4, sb_ninodes = get32 d 8\<rparr>"

definition bytes_sb :: "superblock \<Rightarrow> u8 list" where
  "bytes_sb sb = bytes32 (sb_size sb) @ bytes32 (sb_nblocks sb) @ bytes32 (sb_ninodes sb)"

definition get_dinode :: "u8 list \<Rightarrow> nat \<Rightarrow> dinode" where
  "get_dinode d k = \<lparr>d_type = get16 d k, d_major = get16 d (k + 2), d_minor = get16 d (k + 4),
     d_nlink = get16 d (k + 6), d_size = get32 d (k + 8),
     d_addrs = map (\<lambda>i. get32 d (k + 12 + 4 * i)) [0..<Suc NDIRECT]\<rparr>"

definition bytes_dinode :: "dinode \<Rightarrow> u8 list" where
  "bytes_dinode x = bytes16 (d_type x) @ bytes16 (d_major x) @ bytes16 (d_minor x) @ bytes16 (d_nlink x) @
     bytes32 (d_size x) @ concat (map bytes32 (d_addrs x))"

definition get_dirent :: "u8 list \<Rightarrow> nat \<Rightarrow> dirent" where
  "get_dirent d k = \<lparr>de_inum = get16 d k, de_name = chunk (k + 2) DIRSIZ d\<rparr>"

definition bytes_dirent :: "dirent \<Rightarrow> u8 list" where
  "bytes_dirent e = bytes16 (de_inum e) @ de_name e"

text \<open>Where inode \<open>i\<close> lies in its block, and the bitmap.\<close>

definition islot :: "u32 \<Rightarrow> nat" where
  "islot i = 64 * (unat i mod IPB)"

definition bmap_bit :: "u8 list \<Rightarrow> nat \<Rightarrow> bool" where
  "bmap_bit d bi \<longleftrightarrow> d ! (bi div 8) AND push_bit (bi mod 8) 1 \<noteq> 0"

definition bmap_set :: "u8 list \<Rightarrow> nat \<Rightarrow> u8 list" where
  "bmap_set d bi = d[bi div 8 := d ! (bi div 8) OR push_bit (bi mod 8) 1]"

definition bmap_clear :: "u8 list \<Rightarrow> nat \<Rightarrow> u8 list" where
  "bmap_clear d bi = d[bi div 8 := d ! (bi div 8) AND NOT (push_bit (bi mod 8) 1)]"

section \<open>Stores and loads\<close>

lemma length_put_at [simp]: "k + length xs \<le> length d \<Longrightarrow> length (put_at k xs d) = length d"
  by (simp add: put_at_def)

lemma nth_put_at:
  "k + length xs \<le> length d \<Longrightarrow> j < length d \<Longrightarrow>
   put_at k xs d ! j = (if k \<le> j \<and> j < k + length xs then xs ! (j - k) else d ! j)"
  by (auto simp: put_at_def nth_append min_def)

lemma chunk_put_at [simp]:
  "k + length xs \<le> length d \<Longrightarrow> chunk k (length xs) (put_at k xs d) = xs"
  by (simp add: chunk_def put_at_def min_def)

lemma length_chunk [simp]: "k + n \<le> length d \<Longrightarrow> length (chunk k n d) = n"
  by (simp add: chunk_def)

lemma nth_chunk [simp]: "k + n \<le> length d \<Longrightarrow> j < n \<Longrightarrow> chunk k n d ! j = d ! (k + j)"
  by (simp add: chunk_def)

lemma length_bytes [simp]: "length (bytes16 v) = 2" "length (bytes32 w) = 4"
  by (simp_all add: bytes16_def bytes32_def)

text \<open>Whatever a structure reads, it reads from its own bytes only.\<close>

lemma get_slice:
  "k + 2 \<le> length d \<Longrightarrow> get16 d k = get16 (chunk k 2 d) 0"
  "k + 4 \<le> length d \<Longrightarrow> get32 d k = get32 (chunk k 4 d) 0"
  by (simp_all add: get16_def get32_def)

lemma get16_bytes: "get16 (xs @ bytes16 w @ ys) (length xs) = w"
proof -
  have sz: "\<not> n < 8 \<Longrightarrow> n < 16 \<Longrightarrow> n - 8 < 8" for n :: nat by simp
  have "(ucast (ucast w :: u8) :: u16) OR push_bit 8 (ucast (ucast (drop_bit 8 w) :: u8)) = w"
  proof (rule bit_word_eqI)
    fix n assume "n < LENGTH(16)"
    then show "bit ((ucast (ucast w :: u8) :: u16) OR push_bit 8 (ucast (ucast (drop_bit 8 w) :: u8))) n = bit w n"
      by (cases "n < 8") (auto simp: bit_simps)
  qed
  then show ?thesis by (simp add: get16_def bytes16_def nth_append)
qed

lemma get32_bytes: "get32 (xs @ bytes32 w @ ys) (length xs) = w"
  using join4_bytes [of w] by (simp add: get32_def bytes32_def nth_append)

lemma get_bytes [simp]:
  "k = length xs \<Longrightarrow> get16 (xs @ bytes16 v @ ys) k = v" "k = length xs \<Longrightarrow> get32 (xs @ bytes32 w @ ys) k = w"
  by (simp_all only: get16_bytes get32_bytes)

text \<open>Encoding and decoding of the structures.\<close>

lemma sb_roundtrip: "get_sb (bytes_sb sb @ ys) = sb"
proof -
  have "get32 (bytes_sb sb @ ys) 4 = get32 (bytes32 (sb_size sb) @ bytes32 (sb_nblocks sb) @ bytes32 (sb_ninodes sb) @ ys) 4"
    "get32 (bytes_sb sb @ ys) 8 = get32 ((bytes32 (sb_size sb) @ bytes32 (sb_nblocks sb)) @ bytes32 (sb_ninodes sb) @ ys) 8"
    "get32 (bytes_sb sb @ ys) 0 = get32 ([] @ bytes32 (sb_size sb) @ bytes32 (sb_nblocks sb) @ bytes32 (sb_ninodes sb) @ ys) 0"
    by (simp_all add: bytes_sb_def)
  then show ?thesis by (simp add: get_sb_def del: append_assoc append_Nil)
qed

lemma length_concat32 [simp]: "length (concat (map bytes32 ws)) = 4 * length ws"
  by (induction ws) simp_all

lemma get32_concat:
  "i < length ws \<Longrightarrow> get32 (xs @ concat (map bytes32 ws) @ ys) (length xs + 4 * i) = ws ! i"
proof (induction ws arbitrary: xs i)
  case (Cons w ws)
  show ?case
  proof (cases i)
    case 0
    then show ?thesis by simp
  next
    case (Suc j)
    then have "get32 ((xs @ bytes32 w) @ concat (map bytes32 ws) @ ys) (length (xs @ bytes32 w) + 4 * j) = ws ! j"
      using Cons.prems by (intro Cons.IH) simp
    then show ?thesis using Suc by (simp add: add.assoc)
  qed
qed simp

lemma length_bytes_dinode [simp]: "length (d_addrs x) = Suc NDIRECT \<Longrightarrow> length (bytes_dinode x) = 64"
  by (simp add: bytes_dinode_def NDIRECT_def)

lemma dinode_at:
  assumes "length (d_addrs x) = Suc NDIRECT" "k = length xs"
  shows "get_dinode (xs @ bytes_dinode x @ ys) k = x"
proof -
  let ?a = "bytes16 (d_type x)" and ?b = "bytes16 (d_major x)" and ?c = "bytes16 (d_minor x)"
    and ?e = "bytes16 (d_nlink x)" and ?f = "bytes32 (d_size x)" and ?g = "concat (map bytes32 (d_addrs x))"
  let ?d = "xs @ bytes_dinode x @ ys"
  have g: "?d = (xs @ ?a @ ?b @ ?c @ ?e @ ?f) @ ?g @ ys" by (simp add: bytes_dinode_def)
  have 1: "get16 ?d k = d_type x" "get16 ?d (k + 2) = d_major x" "get16 ?d (k + 4) = d_minor x"
    "get16 ?d (k + 6) = d_nlink x" "get32 ?d (k + 8) = d_size x"
    using get16_bytes [of xs "d_type x" "?b @ ?c @ ?e @ ?f @ ?g @ ys"]
      get16_bytes [of "xs @ ?a" "d_major x" "?c @ ?e @ ?f @ ?g @ ys"]
      get16_bytes [of "xs @ ?a @ ?b" "d_minor x" "?e @ ?f @ ?g @ ys"]
      get16_bytes [of "xs @ ?a @ ?b @ ?c" "d_nlink x" "?f @ ?g @ ys"]
      get32_bytes [of "xs @ ?a @ ?b @ ?c @ ?e" "d_size x" "?g @ ys"] assms(2)
    by (simp_all add: bytes_dinode_def)
  have "get32 ?d (k + 12 + 4 * i) = d_addrs x ! i" if "i < Suc NDIRECT" for i
    unfolding g using that assms get32_concat [of i "d_addrs x" "xs @ ?a @ ?b @ ?c @ ?e @ ?f" ys] by (simp add: add.commute)
  then have "map (\<lambda>i. get32 ?d (k + 12 + 4 * i)) [0..<Suc NDIRECT] = d_addrs x"
    using assms(1) by (intro nth_equalityI) (simp_all del: upt_Suc)
  with 1 show ?thesis by (simp add: get_dinode_def del: upt_Suc)
qed

lemma dirent_at:
  assumes "length (de_name e) = DIRSIZ" "k = length xs"
  shows "get_dirent (xs @ bytes_dirent e @ ys) k = e"
proof -
  have "get16 (xs @ bytes16 (de_inum e) @ (de_name e @ ys)) k = de_inum e"
    using assms(2) by simp
  then show ?thesis using assms by (simp add: get_dirent_def bytes_dirent_def chunk_def)
qed

text \<open>A structure stored at a slot is read back from it, and other slots are as before.\<close>

lemma put_at_split: "k + length xs \<le> length d \<Longrightarrow> put_at k xs d = take k d @ xs @ drop (k + length xs) d"
  by (simp add: put_at_def)

lemma get16_put_other:
  "k + length xs \<le> length d \<Longrightarrow> j + 2 \<le> length d \<Longrightarrow> j + 2 \<le> k \<or> k + length xs \<le> j \<Longrightarrow> get16 (put_at k xs d) j = get16 d j"
  by (auto simp: get16_def nth_put_at)

lemma get32_put_other:
  "k + length xs \<le> length d \<Longrightarrow> j + 4 \<le> length d \<Longrightarrow> j + 4 \<le> k \<or> k + length xs \<le> j \<Longrightarrow> get32 (put_at k xs d) j = get32 d j"
  by (auto simp: get32_def nth_put_at)

lemma get_dinode_put:
  assumes "length (d_addrs x) = Suc NDIRECT" "k + 64 \<le> length d"
  shows "get_dinode (put_at k (bytes_dinode x) d) k = x"
  using assms dinode_at [of x k "take k d" "drop (k + 64) d"] by (simp add: put_at_def min_def)

lemma get_dinode_put_other:
  assumes "length (d_addrs x) = Suc NDIRECT" "k + 64 \<le> length d" "j + 64 \<le> length d" "j + 64 \<le> k \<or> k + 64 \<le> j"
  shows "get_dinode (put_at k (bytes_dinode x) d) j = get_dinode d j"
  using assms unfolding get_dinode_def
  by (auto simp: get16_put_other get32_put_other NDIRECT_def simp del: upt_Suc)

lemma get_dirent_put:
  assumes "length (de_name e) = DIRSIZ" "k + 16 \<le> length d"
  shows "get_dirent (put_at k (bytes_dirent e) d) k = e"
  using assms dirent_at [of e k "take k d" "drop (k + 16) d"] by (simp add: put_at_def min_def bytes_dirent_def DIRSIZ_def)

lemma put_at_get_dirent:
  assumes "length (de_name e) = DIRSIZ" "k + 16 \<le> length d" "j + 16 \<le> length d" "j + 16 \<le> k \<or> k + 16 \<le> j"
  shows "get_dirent (put_at k (bytes_dirent e) d) j = get_dirent d j"
proof -
  have len: "length (bytes_dirent e) = 16" using assms(1) by (simp add: bytes_dirent_def DIRSIZ_def)
  have "chunk (j + 2) DIRSIZ (put_at k (bytes_dirent e) d) = chunk (j + 2) DIRSIZ d"
    using assms len by (intro nth_equalityI) (auto simp: DIRSIZ_def nth_put_at)
  then show ?thesis using assms len by (auto simp: get_dirent_def get16_put_other)
qed

text \<open>The bitmap.\<close>

lemma bmap_bit_iff: "bmap_bit d bi \<longleftrightarrow> bit (d ! (bi div 8)) (bi mod 8)"
proof -
  have "bit (d ! (bi div 8)) (bi mod 8) \<longleftrightarrow> d ! (bi div 8) AND push_bit (bi mod 8) 1 \<noteq> 0"
    using and_exp_eq_0_iff_not_bit [of "d ! (bi div 8)" "bi mod 8"] by (simp add: push_bit_eq_mult)
  then show ?thesis by (simp add: bmap_bit_def)
qed

lemma bmap_bit_set: "bi div 8 < length d \<Longrightarrow> bmap_bit (bmap_set d bi) bj \<longleftrightarrow> bmap_bit d bj \<or> bj = bi"
proof -
  have m: "bi mod 8 < 8" "bj mod 8 < 8" by simp_all
  have e: "bj = bi \<longleftrightarrow> bj div 8 = bi div 8 \<and> bj mod 8 = bi mod 8"
    by (metis div_mod_decomp)
  assume "bi div 8 < length d"
  then show ?thesis using m unfolding e
    by (auto simp: bmap_bit_iff bmap_set_def nth_list_update bit_simps)
qed

lemma bmap_bit_clear: "bi div 8 < length d \<Longrightarrow> bmap_bit (bmap_clear d bi) bj \<longleftrightarrow> bmap_bit d bj \<and> bj \<noteq> bi"
proof -
  have m: "bi mod 8 < 8" "bj mod 8 < 8" by simp_all
  have e: "bj = bi \<longleftrightarrow> bj div 8 = bi div 8 \<and> bj mod 8 = bi mod 8"
    by (metis div_mod_decomp)
  assume "bi div 8 < length d"
  then show ?thesis using m unfolding e
    by (auto simp: bmap_bit_iff bmap_clear_def nth_list_update bit_simps)
qed

lemma bmap_length [simp]: "length (bmap_set d bi) = length d" "length (bmap_clear d bi) = length d"
  by (simp_all add: bmap_set_def bmap_clear_def)

end
