(* ===== verification/Inode.thy ===== *)
theory Inode
  imports Bcache Layout
begin

text \<open>
  The block and inode layers of \<open>kernel/fs.c\<close>: the bitmap allocator, the inode cache, the map
  from file blocks to disk blocks and truncation.  An inode is named by its slot in \<open>icache\<close>;
  the bits \<open>I_BUSY\<close> and \<open>I_VALID\<close> of its flags are two fields.  The scan of \<open>balloc\<close> follows as
  many bitmap blocks as the size of the disk asks for, so its fuel is exact.
\<close>

section \<open>State\<close>

record inode =
  i_dev :: u32
  i_inum :: u32
  i_ref :: int
  i_busy :: bool
  i_valid :: bool
  i_type :: u16
  i_major :: u16
  i_minor :: u16
  i_nlink :: u16
  i_size :: u32
  i_addrs :: "u32 list"

definition NINODE :: nat where "NINODE = 50"
definition T_DIR :: u16 where "T_DIR = 1"
definition T_FILE :: u16 where "T_FILE = 2"
definition T_DEV :: u16 where "T_DEV = 3"

record fs_state = bio_state +
  inodes :: "inode list"

definition set_inode :: "nat \<Rightarrow> (inode \<Rightarrow> inode) \<Rightarrow> ('z fs_state_scheme, switch, unit) prog" where
  "set_inode i f = upd (\<lambda>s. s\<lparr>inodes := (inodes s)[i := f (inodes s ! i)]\<rparr>)"

definition get_inode :: "nat \<Rightarrow> ('z fs_state_scheme, switch, inode) prog" where
  "get_inode i = asks (\<lambda>s. inodes s ! i)"

section \<open>Blocks\<close>

definition readsb :: "u32 \<Rightarrow> ('z bio_state_scheme, switch, superblock) prog" where
  "readsb dev =
     bnd (bread dev 1) (\<lambda>b. bnd (bdata b) (\<lambda>d. thn (brelse b) (ret (get_sb d))))"

definition bzero :: "u32 \<Rightarrow> u32 \<Rightarrow> ('z bio_state_scheme, switch, unit) prog" where
  "bzero dev bno =
     bnd (bread dev bno) (\<lambda>b.
     thn (set_data b (replicate BSIZE 0)) (thn (bwrite b) (brelse b)))"

text \<open>The first free bit of a bitmap block.\<close>

definition free_bit :: "u8 list \<Rightarrow> nat option" where
  "free_bit d = find (\<lambda>bi. \<not> bmap_bit d bi) [0..<BPB]"

primrec balloc_loop :: "nat \<Rightarrow> u32 \<Rightarrow> superblock \<Rightarrow> u32 \<Rightarrow> ('z bio_state_scheme, switch, u32) prog" where
  "balloc_loop 0 dev sb b = panic ''balloc: out of blocks''"
| "balloc_loop (Suc n) dev sb b =
     (if \<not> b < sb_size sb then panic ''balloc: out of blocks''
      else
        bnd (bread dev (BBLOCK b (sb_ninodes sb))) (\<lambda>bp.
        bnd (bdata bp) (\<lambda>d.
        case free_bit d of
          Some bi \<Rightarrow>
            thn (set_data bp (bmap_set d bi)) (
            thn (bwrite bp) (thn (brelse bp) (ret (b + of_nat bi))))
        | None \<Rightarrow> thn (brelse bp) (balloc_loop n dev sb (b + of_nat BPB)))))"

definition balloc :: "u32 \<Rightarrow> ('z bio_state_scheme, switch, u32) prog" where
  "balloc dev = bnd (readsb dev) (\<lambda>sb. balloc_loop (Suc (unat (sb_size sb) div BPB)) dev sb 0)"

definition bfree :: "u32 \<Rightarrow> u32 \<Rightarrow> ('z bio_state_scheme, switch, unit) prog" where
  "bfree dev b =
     thn (bzero dev b) (
     bnd (readsb dev) (\<lambda>sb.
     bnd (bread dev (BBLOCK b (sb_ninodes sb))) (\<lambda>bp.
     bnd (bdata bp) (\<lambda>d.
     let bi = unat b mod BPB in
     if \<not> bmap_bit d bi then panic ''freeing free block''
     else thn (set_data bp (bmap_clear d bi)) (thn (bwrite bp) (brelse bp))))))"

section \<open>The inode cache\<close>

text \<open>The scan of \<open>iget\<close>: the slot that caches the inode, else the first empty slot.\<close>

definition icache_find :: "u32 \<Rightarrow> u32 \<Rightarrow> inode list \<Rightarrow> nat option" where
  "icache_find dev inum xs =
     find (\<lambda>i. 0 < i_ref (xs ! i) \<and> i_dev (xs ! i) = dev \<and> i_inum (xs ! i) = inum) [0..<NINODE]"

definition icache_empty :: "inode list \<Rightarrow> nat option" where
  "icache_empty xs = find (\<lambda>i. i_ref (xs ! i) = 0) [0..<NINODE]"

definition iget :: "u32 \<Rightarrow> u32 \<Rightarrow> ('z fs_state_scheme, switch, nat) prog" where
  "iget dev inum =
     thn (lock Licache) (
     bnd (asks inodes) (\<lambda>xs.
     case icache_find dev inum xs of
       Some i \<Rightarrow>
         thn (set_inode i (\<lambda>ip. ip\<lparr>i_ref := i_ref ip + 1\<rparr>)) (thn (unlock Licache) (ret i))
     | None \<Rightarrow>
         (case icache_empty xs of
            None \<Rightarrow> panic ''iget: no inodes''
          | Some i \<Rightarrow>
              thn (set_inode i (\<lambda>ip. ip\<lparr>i_dev := dev, i_inum := inum, i_ref := 1, i_busy := False, i_valid := False\<rparr>)) (
              thn (unlock Licache) (ret i)))))"

definition idup :: "nat \<Rightarrow> ('z fs_state_scheme, switch, nat) prog" where
  "idup i =
     thn (lock Licache) (
     thn (set_inode i (\<lambda>ip. ip\<lparr>i_ref := i_ref ip + 1\<rparr>)) (
     thn (unlock Licache) (ret i)))"

text \<open>The disk inode of an in-memory inode, and the other way round.\<close>

definition dinode_of :: "inode \<Rightarrow> dinode" where
  "dinode_of ip = \<lparr>d_type = i_type ip, d_major = i_major ip, d_minor = i_minor ip, d_nlink = i_nlink ip,
     d_size = i_size ip, d_addrs = i_addrs ip\<rparr>"

definition load_dinode :: "dinode \<Rightarrow> inode \<Rightarrow> inode" where
  "load_dinode x ip = ip\<lparr>i_type := d_type x, i_major := d_major x, i_minor := d_minor x, i_nlink := d_nlink x,
     i_size := d_size x, i_addrs := d_addrs x\<rparr>"

primrec ialloc_loop :: "nat \<Rightarrow> u32 \<Rightarrow> superblock \<Rightarrow> u16 \<Rightarrow> u32 \<Rightarrow> ('z fs_state_scheme, switch, nat) prog" where
  "ialloc_loop 0 dev sb type inum = panic ''ialloc: no inodes''"
| "ialloc_loop (Suc n) dev sb type inum =
     (if \<not> inum < sb_ninodes sb then panic ''ialloc: no inodes''
      else
        bnd (bread dev (IBLOCK inum)) (\<lambda>bp.
        bnd (bdata bp) (\<lambda>d.
        if d_type (get_dinode d (islot inum)) = 0 then
          thn (set_data bp (put_at (islot inum)
            (bytes_dinode \<lparr>d_type = type, d_major = 0, d_minor = 0, d_nlink = 0, d_size = 0,
               d_addrs = replicate (Suc NDIRECT) 0\<rparr>) d)) (
          thn (bwrite bp) (thn (brelse bp) (iget dev inum)))
        else thn (brelse bp) (ialloc_loop n dev sb type (inum + 1)))))"

definition ialloc :: "u32 \<Rightarrow> u16 \<Rightarrow> ('z fs_state_scheme, switch, nat) prog" where
  "ialloc dev type = bnd (readsb dev) (\<lambda>sb. ialloc_loop (unat (sb_ninodes sb)) dev sb type 1)"

definition iupdate :: "nat \<Rightarrow> ('z fs_state_scheme, switch, unit) prog" where
  "iupdate i =
     bnd (get_inode i) (\<lambda>ip.
     bnd (bread (i_dev ip) (IBLOCK (i_inum ip))) (\<lambda>bp.
     bnd (bdata bp) (\<lambda>d.
     thn (set_data bp (put_at (islot (i_inum ip)) (bytes_dinode (dinode_of ip)) d)) (
     thn (bwrite bp) (brelse bp)))))"

text \<open>\<open>ilock\<close>; while the inode is busy the process sleeps and \<open>ilock\<close> starts over at this test.\<close>

definition ilock :: "nat \<Rightarrow> ('z fs_state_scheme, switch, unit) prog" where
  "ilock i =
     bnd (get_inode i) (\<lambda>ip.
     if i_ref ip < 1 then panic ''ilock''
     else
       thn (lock Licache) (
       bnd (get_inode i) (\<lambda>ip.
       if i_busy ip then sleep (ChInode i) Licache
       else
         thn (set_inode i (\<lambda>ip. ip\<lparr>i_busy := True\<rparr>)) (
         thn (unlock Licache) (
         bnd (get_inode i) (\<lambda>ip.
         if i_valid ip then skip
         else
           bnd (bread (i_dev ip) (IBLOCK (i_inum ip))) (\<lambda>bp.
           bnd (bdata bp) (\<lambda>d.
           thn (set_inode i (load_dinode (get_dinode d (islot (i_inum ip))))) (
           thn (brelse bp) (
           thn (set_inode i (\<lambda>ip. ip\<lparr>i_valid := True\<rparr>)) (
           bnd (get_inode i) (\<lambda>ip.
           if i_type ip = 0 then panic ''ilock: no type'' else skip))))))))))))"

definition iunlock :: "nat \<Rightarrow> ('z fs_state_scheme, switch, unit) prog" where
  "iunlock i =
     bnd (get_inode i) (\<lambda>ip.
     if \<not> i_busy ip \<or> i_ref ip < 1 then panic ''iunlock''
     else
       thn (lock Licache) (
       thn (set_inode i (\<lambda>ip. ip\<lparr>i_busy := False\<rparr>)) (
       thn (wakeup (ChInode i)) (unlock Licache))))"

section \<open>Contents\<close>

definition set_addr :: "nat \<Rightarrow> nat \<Rightarrow> u32 \<Rightarrow> ('z fs_state_scheme, switch, unit) prog" where
  "set_addr i k a = set_inode i (\<lambda>ip. ip\<lparr>i_addrs := (i_addrs ip)[k := a]\<rparr>)"

text \<open>The address in slot \<open>k\<close> of the inode, allocated when it is 0.\<close>

definition addr_or_alloc :: "nat \<Rightarrow> nat \<Rightarrow> ('z fs_state_scheme, switch, u32) prog" where
  "addr_or_alloc i k =
     bnd (get_inode i) (\<lambda>ip.
     if i_addrs ip ! k = 0
     then bnd (balloc (i_dev ip)) (\<lambda>a. thn (set_addr i k a) (ret a))
     else ret (i_addrs ip ! k))"

definition bmap :: "nat \<Rightarrow> u32 \<Rightarrow> ('z fs_state_scheme, switch, u32) prog" where
  "bmap i bn =
     (if unat bn < NDIRECT then addr_or_alloc i (unat bn)
      else let k = unat (bn - of_nat NDIRECT) in
      if k < NINDIRECT then
        bnd (addr_or_alloc i NDIRECT) (\<lambda>addr.
        bnd (get_inode i) (\<lambda>ip.
        bnd (bread (i_dev ip) addr) (\<lambda>bp.
        bnd (bdata bp) (\<lambda>d.
        if get32 d (4 * k) = 0
        then bnd (balloc (i_dev ip)) (\<lambda>a.
             thn (bnd (bdata bp) (\<lambda>d. set_data bp (put_at (4 * k) (bytes32 a) d))) (
             thn (bwrite bp) (thn (brelse bp) (ret a))))
        else thn (brelse bp) (ret (get32 d (4 * k)))))))
      else panic ''bmap: out of range'')"

text \<open>The two loops of \<open>itrunc\<close>.\<close>

definition trunc_direct :: "nat \<Rightarrow> nat \<Rightarrow> ('z fs_state_scheme, switch, unit) prog" where
  "trunc_direct i k =
     bnd (get_inode i) (\<lambda>ip.
     whenP (i_addrs ip ! k \<noteq> 0) (thn (bfree (i_dev ip) (i_addrs ip ! k)) (set_addr i k 0)))"

definition trunc_indirect :: "u32 \<Rightarrow> u8 list \<Rightarrow> nat \<Rightarrow> ('z fs_state_scheme, switch, unit) prog" where
  "trunc_indirect dev d j = whenP (get32 d (4 * j) \<noteq> 0) (bfree dev (get32 d (4 * j)))"

definition itrunc :: "nat \<Rightarrow> ('z fs_state_scheme, switch, unit) prog" where
  "itrunc i =
     thn (foreach [0..<NDIRECT] (trunc_direct i)) (
     thn (bnd (get_inode i) (\<lambda>ip.
          whenP (i_addrs ip ! NDIRECT \<noteq> 0) (
            bnd (bread (i_dev ip) (i_addrs ip ! NDIRECT)) (\<lambda>bp.
            bnd (bdata bp) (\<lambda>d.
            thn (foreach [0..<NINDIRECT] (trunc_indirect (i_dev ip) d)) (
            thn (brelse bp) (
            thn (bfree (i_dev ip) (i_addrs ip ! NDIRECT)) (set_addr i NDIRECT 0)))))))) (
     thn (set_inode i (\<lambda>ip. ip\<lparr>i_size := 0\<rparr>)) (iupdate i)))"

definition iput :: "nat \<Rightarrow> ('z fs_state_scheme, switch, unit) prog" where
  "iput i =
     thn (lock Licache) (
     bnd (get_inode i) (\<lambda>ip.
     thn (whenP (i_ref ip = 1 \<and> i_valid ip \<and> i_nlink ip = 0) (
            if i_busy ip then panic ''iput busy''
            else
              thn (set_inode i (\<lambda>ip. ip\<lparr>i_busy := True\<rparr>)) (
              thn (unlock Licache) (
              thn (itrunc i) (
              thn (set_inode i (\<lambda>ip. ip\<lparr>i_type := 0\<rparr>)) (
              thn (iupdate i) (
              thn (lock Licache) (
              thn (set_inode i (\<lambda>ip. ip\<lparr>i_busy := False, i_valid := False\<rparr>))
                  (wakeup (ChInode i)))))))))) (
     thn (set_inode i (\<lambda>ip. ip\<lparr>i_ref := i_ref ip - 1\<rparr>)) (unlock Licache))))"

definition iunlockput :: "nat \<Rightarrow> ('z fs_state_scheme, switch, unit) prog" where
  "iunlockput i = thn (iunlock i) (iput i)"

record stat =
  st_type :: u16
  st_dev :: u32
  st_ino :: u32
  st_nlink :: u16
  st_size :: u32

definition stati :: "inode \<Rightarrow> stat" where
  "stati ip = \<lparr>st_type = i_type ip, st_dev = i_dev ip, st_ino = i_inum ip, st_nlink = i_nlink ip, st_size = i_size ip\<rparr>"

end
