(* ===== verification/Balloc.thy ===== *)
theory Balloc
  imports Inode
begin

text \<open>
  The block allocator of \<open>kernel/fs.c\<close> on the contract of the buffer cache: \<open>used s dev ni c\<close> is
  bit \<open>c\<close> of the bitmap on disk.  \<open>balloc\<close> takes the least free block and \<open>bfree\<close> gives a block
  back and zeroes it; both change one bit and leave every other block alone.
\<close>

section \<open>Geometry\<close>

definition sb_at :: "'z bio_state_scheme \<Rightarrow> u32 \<Rightarrow> superblock" where
  "sb_at s dev = get_sb (blk_at s (dev, 1))"

definition geom :: "u32 \<Rightarrow> superblock \<Rightarrow> bool" where
  "geom dev sb \<longleftrightarrow> dev < 2 \<and> unat (sb_size sb) \<le> 2 ^ 27 \<and> unat (sb_ninodes sb) \<le> 2 ^ 27"

definition bitmap_block :: "superblock \<Rightarrow> nat \<Rightarrow> u32" where
  "bitmap_block sb c = BBLOCK (of_nat c) (sb_ninodes sb)"

definition used :: "'z bio_state_scheme \<Rightarrow> u32 \<Rightarrow> superblock \<Rightarrow> nat \<Rightarrow> bool" where
  "used s dev sb c \<longleftrightarrow> bmap_bit (blk_at s (dev, bitmap_block sb c)) (c mod BPB)"

text \<open>The blocks the allocator reads: the superblock and the bitmap.\<close>

definition map_area :: "u32 \<Rightarrow> superblock \<Rightarrow> (u32 \<times> u32) set" where
  "map_area dev sb = insert (dev, 1) {(dev, bitmap_block sb c) | c. BPB * (c div BPB) < unat (sb_size sb)}"

lemma in_map_area: "c < unat (sb_size sb) \<Longrightarrow> (dev, bitmap_block sb c) \<in> map_area dev sb"
proof -
  assume c: "c < unat (sb_size sb)"
  have "BPB * (c div BPB) \<le> c" by simp
  then have "BPB * (c div BPB) < unat (sb_size sb)" using c by (rule le_less_trans)
  then show ?thesis by (auto simp: map_area_def)
qed

lemma bitmap_block_no:
  assumes "geom dev sb" "c \<le> 2 ^ 28"
  shows "unat (bitmap_block sb c) = c div BPB + unat (sb_ninodes sb) div IPB + 3"
proof -
  have u: "unat (of_nat c :: u32) = c" using assms(2) by (intro unat_of_nat_small) simp
  have b: "unat ((of_nat c :: u32) div of_nat BPB) = c div BPB"
    by (simp add: unat_div BPB_def u)
  have i: "unat (sb_ninodes sb div of_nat IPB) = unat (sb_ninodes sb) div IPB"
    by (simp add: unat_div IPB_def)
  have le: "c div BPB \<le> 2 ^ 28" "unat (sb_ninodes sb) div IPB \<le> 2 ^ 27"
    using assms by (simp_all add: geom_def BPB_def IPB_def div_le_dividend order.trans [OF div_le_dividend])
  have s: "unat ((of_nat c :: u32) div of_nat BPB + sb_ninodes sb div of_nat IPB) = c div BPB + unat (sb_ninodes sb) div IPB"
    using le b i by (subst unat_add_small) simp_all
  show ?thesis
    unfolding bitmap_block_def BBLOCK_def using le s by (subst unat_add_small) simp_all
qed

lemma geom_on_disk:
  assumes "geom dev sb"
  shows "on_disk dev 1" "c \<le> 2 ^ 28 \<Longrightarrow> on_disk dev (bitmap_block sb c)"
proof -
  show "on_disk dev 1" using assms by (simp add: on_disk_def geom_def)
  assume c: "c \<le> 2 ^ 28"
  have "c div BPB \<le> 2 ^ 16" using div_le_mono [OF c, of BPB] by (simp add: BPB_def)
  moreover have "unat (sb_ninodes sb) div IPB \<le> 2 ^ 24"
    using assms div_le_mono [of "unat (sb_ninodes sb)" "2 ^ 27" IPB] by (simp add: geom_def IPB_def)
  ultimately have "unat (bitmap_block sb c) < 0x10000000"
    unfolding bitmap_block_no [OF assms c] by simp
  then show "on_disk dev (bitmap_block sb c)" using assms by (simp add: on_disk_def geom_def word_less_nat_alt)
qed

lemma bitmap_block_eq:
  "geom dev sb \<Longrightarrow> c \<le> 2 ^ 28 \<Longrightarrow> c' \<le> 2 ^ 28 \<Longrightarrow> bitmap_block sb c = bitmap_block sb c' \<longleftrightarrow> c div BPB = c' div BPB"
  by (simp add: word_unat_eq_iff bitmap_block_no)

lemma bitmap_not_sb: "geom dev sb \<Longrightarrow> c \<le> 2 ^ 28 \<Longrightarrow> bitmap_block sb c \<noteq> 1"
  by (auto simp: word_unat_eq_iff bitmap_block_no)

section \<open>balloc\<close>

lemma wp_readsb:
  assumes "cache_ok H s" "on_disk dev 1" "\<And>h. h \<in> H \<Longrightarrow> home_at s h \<noteq> (dev, 1)" "card H < NBUF"
    and "\<And>t. cache_ok H t \<Longrightarrow> blk_at t = blk_at s \<Longrightarrow> bc.keeps H s t \<Longrightarrow> Q (sb_at s dev) t"
  shows "wp (readsb dev) Q s"
  using assms unfolding readsb_def wp_nest wp_ret_fun
  by (intro block_peek) (simp_all add: block_ok_def sb_at_def)

lemma free_bit_cases:
  assumes "\<forall>k < BPB. bmap_bit d k \<Longrightarrow> R None"
    and "\<And>k. k < BPB \<Longrightarrow> \<not> bmap_bit d k \<Longrightarrow> (\<And>j. j < k \<Longrightarrow> bmap_bit d j) \<Longrightarrow> R (Some k)"
  shows "R (free_bit d)"
proof (cases "free_bit d")
  case None
  then have "\<forall>k < BPB. bmap_bit d k" by (auto simp: free_bit_def find_None_iff)
  then show ?thesis using assms(1) None by simp
next
  case (Some k)
  then show ?thesis using assms(2) find_first [of "\<lambda>bi. \<not> bmap_bit d bi" 0 BPB k] by (auto simp: free_bit_def)
qed

text \<open>What taking or giving back the bit of \<open>c\<close> does to the disk.\<close>

definition bit_changed :: "(u8 list \<Rightarrow> nat \<Rightarrow> u8 list) \<Rightarrow> u32 \<Rightarrow> superblock \<Rightarrow> nat \<Rightarrow>
    'z bio_state_scheme \<Rightarrow> 'z bio_state_scheme \<Rightarrow> bool" where
  "bit_changed f dev sb c s t \<longleftrightarrow> (\<forall>x. block_ok x \<longrightarrow>
     blk_at t x = (if x = (dev, bitmap_block sb c) then f (blk_at s x) (c mod BPB) else blk_at s x))"

lemma wp_balloc_loop:
  assumes "cache_ok H s" "geom dev sb" "\<And>h. h \<in> H \<Longrightarrow> home_at s h \<notin> map_area dev sb" "card H < NBUF"
    and "b = of_nat (BPB * j)" "BPB * j \<le> c" "BPB * (c div BPB) < unat (sb_size sb)" "c div BPB < j + n"
    and "\<not> used s dev sb c" "\<And>k. BPB * j \<le> k \<Longrightarrow> k < c \<Longrightarrow> used s dev sb k"
    and "\<And>t. cache_ok H t \<Longrightarrow> bit_changed bmap_set dev sb c s t \<Longrightarrow> bc.keeps H s t \<Longrightarrow> Q (of_nat c) t"
  shows "wp (balloc_loop n dev sb b) Q s"
  using assms
proof (induction n arbitrary: j s b)
  case 0
  have "j \<le> c div BPB" using div_le_mono [OF 0(6), of BPB] by (simp add: BPB_def)
  then show ?case using 0(8) by simp
next
  case (Suc n)
  have sz: "unat (sb_size sb) \<le> 2 ^ 27" using Suc.prems(2) by (simp add: geom_def)
  have "BPB * (c div BPB) + c mod BPB = c" "c mod BPB < BPB" by (simp_all add: BPB_def)
  moreover have "unat (sb_size sb) \<le> 134217728" using sz by simp
  ultimately have "c \<le> 268435456" using Suc.prems(7) unfolding BPB_def by linarith
  then have c: "c \<le> 2 ^ 28" "BPB * j \<le> 2 ^ 28" using Suc.prems(6) by simp_all
  have "BPB * j \<le> BPB * (c div BPB)"
    using div_le_mono [OF Suc.prems(6), of BPB] by (simp add: BPB_def)
  moreover have bj: "unat b = BPB * j" unfolding Suc.prems(5) using c(2) by (intro unat_of_nat_small) simp
  ultimately have lt: "b < sb_size sb" using Suc.prems(7) unfolding word_less_nat_alt by (metis le_less_trans)
  let ?B = "bitmap_block sb (BPB * j)" and ?d = "blk_at s (dev, bitmap_block sb (BPB * j))"
  have area: "(dev, ?B) \<in> map_area dev sb" using lt bj by (intro in_map_area) (simp add: word_less_nat_alt)
  have away: "home_at s h \<noteq> (dev, ?B)" if "h \<in> H" for h using Suc.prems(3) [OF that] area by metis
  have same: "bitmap_block sb k = ?B \<longleftrightarrow> k < BPB * Suc j" if "BPB * j \<le> k" "k \<le> 2 ^ 28" for k
    using bitmap_block_eq [OF Suc.prems(2) that(2) c(2)] that(1) by (auto simp: BPB_def)
  have bits: "used s dev sb k \<longleftrightarrow> bmap_bit ?d (k - BPB * j)" if "BPB * j \<le> k" "k < BPB * Suc j" "k \<le> 2 ^ 28" for k
  proof -
    have "k = k - BPB * j + BPB * j" "k - BPB * j < BPB" using that(1,2) by simp_all
    then have "k mod BPB = k - BPB * j" by (metis mod_less mod_mult_self2)
    then show ?thesis using same [OF that(1,3)] that(2) by (simp add: used_def)
  qed
  have BB: "BBLOCK b (sb_ninodes sb) = ?B" by (simp add: bitmap_block_def Suc.prems(5))
  let ?F = "\<lambda>bp d. wp (case free_bit d of
          Some bi \<Rightarrow> thn (set_data bp (bmap_set d bi)) (thn (bwrite bp) (thn (brelse bp) (ret (b + of_nat bi))))
        | None \<Rightarrow> thn (brelse bp) (balloc_loop n dev sb (b + of_nat BPB))) Q"
  have "wp (bread dev ?B) (\<lambda>bp. wp (bdata bp) (?F bp)) s"
  proof (rule block_inspect [OF Suc.prems(1)])
    fix bp t
    assume t: "bc.holds bp (dev, ?B) H t" "blk_at t = blk_at s" "bc.keeps H s t"
    show "?F bp ?d t"
    proof (rule free_bit_cases)
      assume all: "\<forall>k < BPB. bmap_bit ?d k"
      have "\<not> c < BPB * Suc j"
        using bits [of c] Suc.prems(6,9) c(1) all by (auto simp: BPB_def)
      then have next_j: "BPB * Suc j \<le> c" by simp
      have "wp (brelse bp) (\<lambda>_. wp (balloc_loop n dev sb (b + of_nat BPB)) Q) t"
      proof (rule bc.give_back [OF t(1)])
        fix u
        assume u: "cache_ok H u" "blk_at u = blk_at t" "bc.keeps H t u"
        have k: "bc.keeps H s u" by (rule bc.keeps_trans [OF t(3) u(3)])
        have us: "used u dev sb x = used s dev sb x" for x by (simp add: used_def u(2) t(2))
        show "wp (balloc_loop n dev sb (b + of_nat BPB)) Q u"
        proof (rule Suc.IH [where j = "Suc j"])
          show "b + of_nat BPB = of_nat (BPB * Suc j)" by (simp add: Suc.prems(5))
          show "used u dev sb x" if "BPB * Suc j \<le> x" "x < c" for x
            using that Suc.prems(10) [of x] by (simp add: us)
          show "Q (of_nat c) v" if "cache_ok H v" "bit_changed bmap_set dev sb c u v" "bc.keeps H u v" for v
            using that u(2) t(2) bc.keeps_trans [OF k that(3)]
            by (intro Suc.prems(11)) (auto simp: bit_changed_def)
        qed (use Suc.prems u next_j us keeps_home [OF k] in \<open>auto simp: bit_changed_def\<close>)
      qed
      then show "wp (case None of
          Some bi \<Rightarrow> thn (set_data bp (bmap_set ?d bi)) (thn (bwrite bp) (thn (brelse bp) (ret (b + of_nat bi))))
        | None \<Rightarrow> thn (brelse bp) (balloc_loop n dev sb (b + of_nat BPB))) Q t" by simp
    next
      fix bi
      assume bi: "bi < BPB" "\<not> bmap_bit ?d bi" "\<And>k. k < bi \<Longrightarrow> bmap_bit ?d k"
      have ci: "c = BPB * j + bi"
      proof (rule linorder_cases)
        assume l: "c < BPB * j + bi"
        then have "used s dev sb c" using bits [of c] bi(1,3) Suc.prems(6) c(1) by simp
        then show ?thesis using Suc.prems(9) by simp
      next
        assume g: "BPB * j + bi < c"
        then have "used s dev sb (BPB * j + bi)" by (intro Suc.prems(10)) simp_all
        then show ?thesis using bits [of "BPB * j + bi"] bi(1,2) g c(1) by simp
      qed
      have cb: "bitmap_block sb c = ?B" "c mod BPB = bi"
        using same [of c] bi(1) ci c(1) by simp_all
      have "wp (set_data bp (bmap_set ?d bi)) (\<lambda>_. wp (bwrite bp) (\<lambda>_. wp (brelse bp) (\<lambda>_. Q (b + of_nat bi)))) t"
      proof (rule bc.commit [of bp H t "(dev, ?B)"])
        fix u
        assume u: "cache_ok H u" "\<forall>x. block_ok x \<longrightarrow> blk_at u x = (if x = (dev, ?B) then bmap_set ?d bi else blk_at t x)"
          "bc.keeps H t u"
        have "Q (of_nat c) u"
          using u t cb bc.keeps_trans [OF t(3) u(3)] by (intro Suc.prems(11)) (auto simp: bit_changed_def)
        then show "Q (b + of_nat bi) u" by (simp add: ci Suc.prems(5))
      qed (use t block_length [OF Suc.prems(1)] geom_on_disk(2) [OF Suc.prems(2) c(2)] in
          \<open>auto simp: bc.holds_def block_ok_def\<close>)
      then show "wp (case Some bi of
          Some bi \<Rightarrow> thn (set_data bp (bmap_set ?d bi)) (thn (bwrite bp) (thn (brelse bp) (ret (b + of_nat bi))))
        | None \<Rightarrow> thn (brelse bp) (balloc_loop n dev sb (b + of_nat BPB))) Q t"
        by (simp only: option.case wp_nest wp_ret_fun)
    qed
  qed (use Suc.prems(4) away geom_on_disk(2) [OF Suc.prems(2) c(2)] in \<open>auto simp: block_ok_def\<close>)
  then show ?case unfolding balloc_loop.simps by (simp only: BB lt not_True_eq_False if_False wp_nest)
qed

lemma wp_balloc:
  assumes s: "cache_ok H s" "geom dev (sb_at s dev)" "\<And>h. h \<in> H \<Longrightarrow> home_at s h \<notin> map_area dev (sb_at s dev)" "card H < NBUF"
    and c: "BPB * (c div BPB) < unat (sb_size (sb_at s dev))" "\<not> used s dev (sb_at s dev) c"
      "\<And>k. k < c \<Longrightarrow> used s dev (sb_at s dev) k"
    and post: "\<And>t. cache_ok H t \<Longrightarrow> bit_changed bmap_set dev (sb_at s dev) c s t \<Longrightarrow> bc.keeps H s t \<Longrightarrow> Q (of_nat c) t"
  shows "wp (balloc dev) Q s"
proof -
  let ?sb = "sb_at s dev"
  have "BPB * (c div BPB) \<le> unat (sb_size ?sb)" using c(1) by simp
  then have fuel: "c div BPB < 0 + Suc (unat (sb_size ?sb) div BPB)"
    using div_le_mono [of "BPB * (c div BPB)" "unat (sb_size ?sb)" BPB] by (simp add: BPB_def)
  have "wp (readsb dev) (\<lambda>sb. wp (balloc_loop (Suc (unat (sb_size sb) div BPB)) dev sb 0) Q) s"
  proof (rule wp_readsb [OF s(1) geom_on_disk(1) [OF s(2)]])
    fix t assume t: "cache_ok H t" "blk_at t = blk_at s" "bc.keeps H s t"
    have u: "used t dev ?sb k = used s dev ?sb k" for k by (simp add: used_def t(2))
    show "wp (balloc_loop (Suc (unat (sb_size ?sb) div BPB)) dev ?sb 0) Q t"
    proof (rule wp_balloc_loop [OF t(1) s(2), where j = 0 and c = c])
      fix v assume v: "cache_ok H v" "bit_changed bmap_set dev ?sb c t v" "bc.keeps H t v"
      show "Q (of_nat c) v"
        using v t(2) bc.keeps_trans [OF t(3) v(3)] by (intro post) (simp_all add: bit_changed_def)
    qed (use s(3,4) c fuel u keeps_home [OF t(3)] in simp_all)
  qed (use s(3,4) in \<open>auto simp: map_area_def\<close>)
  then show ?thesis by (simp add: balloc_def)
qed

lemma bit_changed_used:
  assumes "bit_changed f dev sb c s t" "geom dev sb" "c \<le> 2 ^ 28" "k \<le> 2 ^ 28"
  shows "used t dev sb k = (if k div BPB = c div BPB
    then bmap_bit (f (blk_at s (dev, bitmap_block sb c)) (c mod BPB)) (k mod BPB) else used s dev sb k)"
  using assms bitmap_block_eq [OF assms(2,4,3)] geom_on_disk(2) [OF assms(2,4)]
  by (auto simp: bit_changed_def used_def block_ok_def)

lemma same_bit: "k mod BPB = c mod BPB \<Longrightarrow> k div BPB = c div BPB \<Longrightarrow> k = c"
  by (metis div_mult_mod_eq)

lemma bit_set_used:
  assumes "bit_changed bmap_set dev sb c s t" "geom dev sb" "c \<le> 2 ^ 28" "k \<le> 2 ^ 28" "cache_ok H s"
  shows "used t dev sb k \<longleftrightarrow> k = c \<or> used s dev sb k"
proof -
  have "(c mod BPB) div 8 < length (blk_at s (dev, bitmap_block sb c))"
    using block_length [OF assms(5)] by (simp add: BPB_def BSIZE_def div_less_iff_less_mult)
  then show ?thesis
    using bit_changed_used [OF assms(1-4)] same_bit [of k c] bitmap_block_eq [OF assms(2,4,3)]
    by (auto simp: bmap_bit_set used_def)
qed

lemma bit_clear_used:
  assumes "bit_changed bmap_clear dev sb c s t" "geom dev sb" "c \<le> 2 ^ 28" "k \<le> 2 ^ 28" "cache_ok H s"
  shows "used t dev sb k \<longleftrightarrow> k \<noteq> c \<and> used s dev sb k"
proof -
  have "(c mod BPB) div 8 < length (blk_at s (dev, bitmap_block sb c))"
    using block_length [OF assms(5)] by (simp add: BPB_def BSIZE_def div_less_iff_less_mult)
  then show ?thesis
    using bit_changed_used [OF assms(1-4)] same_bit [of k c] bitmap_block_eq [OF assms(2,4,3)]
    by (auto simp: bmap_bit_clear used_def)
qed

section \<open>bfree\<close>

lemma wp_bzero:
  assumes "cache_ok H s" "on_disk dev n" "\<And>h. h \<in> H \<Longrightarrow> home_at s h \<noteq> (dev, n)" "card H < NBUF"
    and "\<And>t. cache_ok H t \<Longrightarrow> (\<forall>x. block_ok x \<longrightarrow> blk_at t x = (if x = (dev, n) then replicate BSIZE 0 else blk_at s x)) \<Longrightarrow>
      bc.keeps H s t \<Longrightarrow> Q () t"
  shows "wp (bzero dev n) Q s"
  using assms unfolding bzero_def wp_nest
  by (intro block_overwrite) (simp_all add: block_ok_def)

lemma wp_bfree:
  assumes s: "cache_ok H s" "geom dev (sb_at s dev)" "\<And>h. h \<in> H \<Longrightarrow> home_at s h \<notin> map_area dev (sb_at s dev)" "card H < NBUF"
    and b: "b < sb_size (sb_at s dev)" "(dev, b) \<notin> map_area dev (sb_at s dev)" "\<And>h. h \<in> H \<Longrightarrow> home_at s h \<noteq> (dev, b)"
      "used s dev (sb_at s dev) (unat b)"
    and post: "\<And>t u. cache_ok H t \<Longrightarrow> (\<forall>x. block_ok x \<longrightarrow> blk_at u x = (if x = (dev, b) then replicate BSIZE 0 else blk_at s x)) \<Longrightarrow>
      cache_ok H u \<Longrightarrow> bit_changed bmap_clear dev (sb_at s dev) (unat b) u t \<Longrightarrow> bc.keeps H s t \<Longrightarrow> Q () t"
  shows "wp (bfree dev b) Q s"
proof -
  let ?sb = "sb_at s dev"
  have bs: "unat b < unat (sb_size ?sb)" using b(1) by (simp add: word_less_nat_alt)
  then have lt: "unat b \<le> 2 ^ 27" using s(2) by (simp add: geom_def)
  then have n: "unat b \<le> 2 ^ 28" by simp
  let ?B = "bitmap_block ?sb (unat b)"
  have area: "(dev, 1) \<in> map_area dev ?sb" "(dev, ?B) \<in> map_area dev ?sb"
    using bs by (auto intro: in_map_area) (simp add: map_area_def)
  have od: "on_disk dev b" using s(2) lt by (simp add: geom_def on_disk_def word_less_nat_alt)
  note od1 = geom_on_disk(1) [OF s(2)] and odB = geom_on_disk(2) [OF s(2) n]
  have BB: "BBLOCK b (sb_ninodes ?sb) = ?B" by (simp add: bitmap_block_def)
  have away: "home_at s h \<noteq> (dev, 1)" "home_at s h \<noteq> (dev, ?B)" if "h \<in> H" for h
    using s(3) [OF that] area by metis+
  let ?G = "\<lambda>sb bp d. wp (if \<not> bmap_bit d (unat b mod BPB) then panic ''freeing free block''
      else thn (set_data bp (bmap_clear d (unat b mod BPB))) (thn (bwrite bp) (brelse bp))) Q"
  have "wp (bzero dev b) (\<lambda>_. wp (readsb dev) (\<lambda>sb. wp (bread dev (BBLOCK b (sb_ninodes sb))) (\<lambda>bp. wp (bdata bp) (?G sb bp)))) s"
  proof (rule wp_bzero [OF s(1) od b(3) s(4)])
    fix u
    assume u: "cache_ok H u" "\<forall>x. block_ok x \<longrightarrow> blk_at u x = (if x = (dev, b) then replicate BSIZE 0 else blk_at s x)"
      "bc.keeps H s u"
    have sb: "sb_at u dev = ?sb" using u(2) od1 area(1) b(2) by (auto simp: sb_at_def block_ok_def)
    have dB: "blk_at u (dev, ?B) = blk_at s (dev, ?B)" using u(2) odB area(2) b(2) by (auto simp: block_ok_def)
    show "wp (readsb dev) (\<lambda>sb. wp (bread dev (BBLOCK b (sb_ninodes sb))) (\<lambda>bp. wp (bdata bp) (?G sb bp))) u"
    proof (rule wp_readsb [OF u(1) od1 _ s(4)], unfold sb BB)
      fix v assume v: "cache_ok H v" "blk_at v = blk_at u" "bc.keeps H u v"
      have kv: "bc.keeps H s v" by (rule bc.keeps_trans [OF u(3) v(3)])
      show "wp (bread dev ?B) (\<lambda>bp. wp (bdata bp) (?G ?sb bp)) v"
      proof (rule block_inspect [OF v(1) _ _ s(4)])
        fix bp w
        assume w: "bc.holds bp (dev, ?B) H w" "blk_at w = blk_at v" "bc.keeps H v w"
        have set: "bmap_bit (blk_at v (dev, ?B)) (unat b mod BPB)"
          using b(4) by (simp add: used_def v(2) dB)
        have "wp (set_data bp (bmap_clear (blk_at v (dev, ?B)) (unat b mod BPB))) (\<lambda>_. wp (bwrite bp) (\<lambda>_. wp (brelse bp) Q)) w"
        proof (rule bc.commit [of bp H w "(dev, ?B)"])
          fix t
          assume t: "cache_ok H t" "\<forall>x. block_ok x \<longrightarrow> blk_at t x = (if x = (dev, ?B)
              then bmap_clear (blk_at v (dev, ?B)) (unat b mod BPB) else blk_at w x)" "bc.keeps H w t"
          show "Q () t"
            using t v(2) w(2) bc.keeps_trans [OF kv bc.keeps_trans [OF w(3) t(3)]] u(1,2)
            by (intro post [of t u]) (simp_all add: bit_changed_def)
        qed (use w(1) block_length [OF v(1)] odB in \<open>simp_all add: bc.holds_def block_ok_def\<close>)
        then show "?G ?sb bp (blk_at v (dev, ?B)) w" using set by (simp only: wp_nest not_True_eq_False if_False)
      qed (use odB away keeps_home [OF kv] in \<open>simp_all add: block_ok_def\<close>)
    qed (use away keeps_home [OF u(3)] in simp)
  qed
  then show ?thesis unfolding bfree_def Let_def by (simp only: wp_nest)
qed

section \<open>Examples and properties\<close>

text \<open>A disk with a superblock and the first bits of the bitmap set.\<close>

definition mapped_disk :: "superblock \<Rightarrow> u8 list \<Rightarrow> bool \<Rightarrow> u32 \<Rightarrow> u8 list" where
  "mapped_disk sb bits c n =
     (if n = 1 then bytes_sb sb @ replicate 500 0
      else if n = 28 then bits @ replicate (BSIZE - length bits) 0 else replicate BSIZE 0)"

definition small_fs :: "superblock \<Rightarrow> u8 list \<Rightarrow> bio_state" where
  "small_fs sb bits = cold_cache\<lparr>disk := mapped_disk sb bits\<rparr>"

definition small_sb :: superblock where
  "small_sb = \<lparr>sb_size = 1024, sb_nblocks = 995, sb_ninodes = 200\<rparr>"

definition tiny_sb :: superblock where
  "tiny_sb = \<lparr>sb_size = 30, sb_nblocks = 1, sb_ninodes = 200\<rparr>"

lemma cold_disk_ok:
  assumes "\<And>c n. length (d c n) = BSIZE"
  shows "cache_ok {} (cold_cache\<lparr>disk := d\<rparr>)"
proof -
  have "b_flags (bufs cold_cache ! b) = 0" if "b < NBUF" for b
    using that by (simp add: cold_cache_def cold_bufs_def nth_append raw_buf_def)
  then show ?thesis
    using cold_cache_ok assms by (auto simp: cache_ok_def cache_core_def cache_bufs_def machine_ok_def buf_good_def)
qed

lemma small_fs_ok: "length bits \<le> BSIZE \<Longrightarrow> cache_ok {} (small_fs sb bits)"
  unfolding small_fs_def by (intro cold_disk_ok) (simp add: mapped_disk_def bytes_sb_def BSIZE_def)

lemma small_fs_sb [simp]: "sb_at (small_fs sb bits) 1 = sb"
  using sb_roundtrip [of sb "replicate 500 0"]
  by (simp add: sb_at_def blk_at_def blk_def small_fs_def mapped_disk_def lba28_small)

lemma small_fs_bitmap:
  "blk_at (small_fs sb bits) (1, 28) = bits @ replicate (BSIZE - length bits) 0"
  by (simp add: blk_at_def blk_def small_fs_def mapped_disk_def lba28_small)

lemma full_byte: "bit (255 :: u8) (k mod 8)"
proof -
  have "(255 :: u8) = - 1" by simp
  then show ?thesis by (simp only: bit_minus_1_iff) simp
qed

lemma small_used:
  assumes "sb = small_sb \<or> sb = tiny_sb" "k < 8 * length bits" "k < BPB"
  shows "used (small_fs sb bits) 1 sb k \<longleftrightarrow> bit (bits ! (k div 8)) (k mod 8)"
proof -
  have g: "geom 1 sb" using assms(1) by (auto simp: geom_def small_sb_def tiny_sb_def)
  have "k \<le> 2 ^ 28" using assms(3) by (simp add: BPB_def)
  then have "unat (bitmap_block sb k) = 28"
    using bitmap_block_no [OF g, of k] assms(1,3) by (auto simp: BPB_def IPB_def small_sb_def tiny_sb_def)
  then have "bitmap_block sb k = 28" by (simp add: word_unat_eq_iff)
  moreover have "k div 8 < length bits" using assms(2) by (simp add: div_less_iff_less_mult mult.commute)
  ultimately show ?thesis
    using assms(3) by (simp add: used_def small_fs_bitmap bmap_bit_iff nth_append)
qed

lemma small_used_full:
  assumes "sb = small_sb \<or> sb = tiny_sb" "k < 8 * length bits" "k < BPB" "bits ! (k div 8) = 255"
  shows "used (small_fs sb bits) 1 sb k"
  unfolding small_used [OF assms(1-3)] assms(4) by (rule full_byte)

text \<open>C10: \<open>balloc\<close> on a disk with a free block takes the least free one, marks exactly this block used in
  the bitmap on disk, and changes no other block, bitmap blocks included.\<close>

theorem balloc_takes_least_free:
  assumes "cache_ok {} s" "geom dev (sb_at s dev)" "c < unat (sb_size (sb_at s dev))"
    and "\<not> used s dev (sb_at s dev) c" "\<forall>k < c. used s dev (sb_at s dev) k"
  shows "wp (balloc dev) (\<lambda>a t. unat a = c \<and> cache_ok {} t \<and>
      (\<forall>k < unat (sb_size (sb_at s dev)). used t dev (sb_at s dev) k \<longleftrightarrow> k = c \<or> used s dev (sb_at s dev) k) \<and>
      (\<forall>x. block_ok x \<and> x \<noteq> (dev, bitmap_block (sb_at s dev) c) \<longrightarrow> blk_at t x = blk_at s x)) s"
proof (rule wp_balloc [OF assms(1,2), where c = c])
  have c: "c \<le> 2 ^ 28" using assms(2,3) by (simp add: geom_def)
  have "BPB * (c div BPB) \<le> c" by simp
  then show "BPB * (c div BPB) < unat (sb_size (sb_at s dev))" using assms(3) by (rule le_less_trans)
  fix t assume t: "cache_ok {} t" "bit_changed bmap_set dev (sb_at s dev) c s t"
  have "unat (of_nat c :: u32) = c" using c by (intro unat_of_nat_small) simp
  moreover have "\<forall>x. block_ok x \<and> x \<noteq> (dev, bitmap_block (sb_at s dev) c) \<longrightarrow> blk_at t x = blk_at s x"
    using t(2) by (simp add: bit_changed_def)
  ultimately show "unat (of_nat c :: u32) = c \<and> cache_ok {} t \<and>
      (\<forall>k < unat (sb_size (sb_at s dev)). used t dev (sb_at s dev) k \<longleftrightarrow> k = c \<or> used s dev (sb_at s dev) k) \<and>
      (\<forall>x. block_ok x \<and> x \<noteq> (dev, bitmap_block (sb_at s dev) c) \<longrightarrow> blk_at t x = blk_at s x)"
    using t(1) bit_set_used [OF t(2) assms(2) c _ assms(1)] assms(2) by (simp add: geom_def)
qed (use assms in \<open>simp_all add: NBUF_def\<close>)

theorem balloc_takes_least_free_witness:
  "wp (balloc 1) (\<lambda>a t. a = 32 \<and> used t 1 small_sb 32) (small_fs small_sb [255, 255, 255, 255, 0])"
proof -
  let ?s = "small_fs small_sb [255, 255, 255, 255, 0]"
  have g: "geom 1 small_sb" by (simp add: geom_def small_sb_def)
  have u: "used ?s 1 small_sb k" if "k < 32" for k
  proof -
    have "k div 8 < 4" using that by simp
    then have "k div 8 = 0 \<or> k div 8 = 1 \<or> k div 8 = 2 \<or> k div 8 = 3" by linarith
    then show ?thesis using that by (intro small_used_full) (auto simp: BPB_def)
  qed
  have "\<not> used ?s 1 small_sb 32" by (subst small_used) (simp_all add: BPB_def)
  then show ?thesis
    using u g by (intro wp_mono [OF balloc_takes_least_free [where c = 32]])
      (auto simp: small_fs_ok BSIZE_def small_sb_def word_unat_eq_iff)
qed

text \<open>The bound of the scan is a whole bitmap block: on a disk whose blocks are all in use, \<open>balloc\<close> does
  not report that it is out of blocks but returns the first number past the end of the disk.\<close>

theorem balloc_past_the_end:
  "wp (balloc 1) (\<lambda>a t. a = sb_size tiny_sb) (small_fs tiny_sb [255, 255, 255, 63])"
proof (rule wp_balloc [where c = 30 and H = "{}"])
  have "used (small_fs tiny_sb [255, 255, 255, 63]) 1 tiny_sb k" if "k < 30" for k
  proof (cases "k < 24")
    case True
    then have "k div 8 = 0 \<or> k div 8 = 1 \<or> k div 8 = 2" by linarith
    then show ?thesis using that by (intro small_used_full) (auto simp: BPB_def)
  next
    case False
    then have "k = 24 \<or> k = 25 \<or> k = 26 \<or> k = 27 \<or> k = 28 \<or> k = 29" using that by linarith
    then show ?thesis by (elim disjE) (simp_all add: small_used BPB_def bit_numeral_rec)
  qed
  then show "used (small_fs tiny_sb [255, 255, 255, 63]) 1 (sb_at (small_fs tiny_sb [255, 255, 255, 63]) 1) k" if "k < 30" for k
    using that by simp
qed (simp_all add: small_fs_ok BSIZE_def geom_def tiny_sb_def small_used BPB_def NBUF_def)

text \<open>\<open>bfree\<close> of a used data block clears exactly its bit in the bitmap on disk, zeroes the block and
  changes no other block, so that the next \<open>balloc\<close> can hand the block out zeroed.\<close>

theorem bfree_frees_one_block:
  assumes "cache_ok {} s" "geom dev (sb_at s dev)" "b < sb_size (sb_at s dev)" "used s dev (sb_at s dev) (unat b)"
    and "(dev, b) \<notin> map_area dev (sb_at s dev)"
  shows "wp (bfree dev b) (\<lambda>_ t. cache_ok {} t \<and> blk_at t (dev, b) = replicate BSIZE 0 \<and>
      (\<forall>k < unat (sb_size (sb_at s dev)). used t dev (sb_at s dev) k \<longleftrightarrow> k \<noteq> unat b \<and> used s dev (sb_at s dev) k) \<and>
      (\<forall>x. block_ok x \<and> x \<noteq> (dev, b) \<and> x \<noteq> (dev, bitmap_block (sb_at s dev) (unat b)) \<longrightarrow> blk_at t x = blk_at s x)) s"
proof (rule wp_bfree [OF assms(1,2)])
  have sz: "unat (sb_size (sb_at s dev)) \<le> 2 ^ 27" using assms(2) by (simp add: geom_def)
  have n: "unat b < unat (sb_size (sb_at s dev))" using assms(3) by (simp add: word_less_nat_alt)
  then have le: "unat b \<le> 2 ^ 28" "unat b < 0x10000000" using sz by simp_all
  fix t u
  assume t: "cache_ok {} t" "cache_ok {} u" "bit_changed bmap_clear dev (sb_at s dev) (unat b) u t"
    and u: "\<forall>x. block_ok x \<longrightarrow> blk_at u x = (if x = (dev, b) then replicate BSIZE 0 else blk_at s x)"
  have od: "block_ok (dev, b)" using assms(2) le(2) by (simp add: block_ok_def geom_def on_disk_def word_less_nat_alt)
  have k: "used u dev (sb_at s dev) k = used s dev (sb_at s dev) k" if "k < unat (sb_size (sb_at s dev))" for k
    using u geom_on_disk(2) [OF assms(2), of k] assms(5) that sz in_map_area [OF that] by (auto simp: used_def block_ok_def)
  have B: "(dev, b) \<noteq> (dev, bitmap_block (sb_at s dev) (unat b))" using assms(5) in_map_area [OF n] by auto
  have "blk_at t (dev, b) = replicate BSIZE 0" using t(3) u od B by (simp add: bit_changed_def)
  moreover have "\<forall>x. block_ok x \<and> x \<noteq> (dev, b) \<and> x \<noteq> (dev, bitmap_block (sb_at s dev) (unat b)) \<longrightarrow> blk_at t x = blk_at s x"
    using t(3) u by (simp add: bit_changed_def)
  ultimately show "cache_ok {} t \<and> blk_at t (dev, b) = replicate BSIZE 0 \<and>
      (\<forall>k < unat (sb_size (sb_at s dev)). used t dev (sb_at s dev) k \<longleftrightarrow> k \<noteq> unat b \<and> used s dev (sb_at s dev) k) \<and>
      (\<forall>x. block_ok x \<and> x \<noteq> (dev, b) \<and> x \<noteq> (dev, bitmap_block (sb_at s dev) (unat b)) \<longrightarrow> blk_at t x = blk_at s x)"
    using t(1) bit_clear_used [OF t(3) assms(2) le(1) _ t(2)] k sz by simp
qed (use assms in \<open>simp_all add: NBUF_def\<close>)

theorem bfree_frees_one_block_witness:
  "wp (bfree 1 30) (\<lambda>_ t. \<not> used t 1 small_sb 30 \<and> blk_at t (1, 30) = replicate BSIZE 0)
     (small_fs small_sb [255, 255, 255, 255])"
proof -
  have "(1, 30) \<notin> map_area 1 small_sb"
  proof
    assume "(1, 30) \<in> map_area 1 small_sb"
    then obtain c where c: "30 = bitmap_block small_sb c" "BPB * (c div BPB) < 1024"
      by (auto simp: map_area_def small_sb_def)
    then have "c div BPB = 0" by (simp add: BPB_def)
    moreover from this have "c \<le> 2 ^ 28" by (simp add: BPB_def div_eq_0_iff)
    ultimately have "unat (bitmap_block small_sb c) = 28"
      using bitmap_block_no [of 1 small_sb c] by (simp add: geom_def small_sb_def IPB_def)
    then show False unfolding c(1) [symmetric] by simp
  qed
  then show ?thesis
    by (intro wp_mono [OF bfree_frees_one_block])
      (auto simp: small_fs_ok BSIZE_def small_used BPB_def geom_def small_sb_def bit_numeral_rec)
qed

end
