(* ===== verification/Icache.thy ===== *)
theory Icache
  imports Balloc
begin

text \<open>
  The inode cache of \<open>kernel/fs.c\<close>.  An inode is cached in at most one slot, \<open>iget\<close> hands out
  that slot, and the reference counts follow \<open>iget\<close>, \<open>idup\<close> and \<open>iput\<close>.  \<open>ilock\<close> loads what
  \<open>iupdate\<close> stored: the disk inode is at its slot of its block, whatever is cached.
\<close>

section \<open>One slot per inode\<close>

definition icache_ok :: "inode list \<Rightarrow> bool" where
  "icache_ok xs \<longleftrightarrow> length xs = NINODE \<and> (\<forall>i < NINODE. 0 \<le> i_ref (xs ! i)) \<and>
     (\<forall>i < NINODE. \<forall>j < NINODE. 0 < i_ref (xs ! i) \<longrightarrow> 0 < i_ref (xs ! j) \<longrightarrow>
        i_dev (xs ! i) = i_dev (xs ! j) \<longrightarrow> i_inum (xs ! i) = i_inum (xs ! j) \<longrightarrow> i = j)"

text \<open>The number of references to an inode.\<close>

definition refs :: "inode list \<Rightarrow> u32 \<Rightarrow> u32 \<Rightarrow> int" where
  "refs xs dev inum = (case icache_find dev inum xs of Some i \<Rightarrow> i_ref (xs ! i) | None \<Rightarrow> 0)"

lemma icache_find_Some:
  "icache_find dev inum xs = Some i \<Longrightarrow> i < NINODE \<and> 0 < i_ref (xs ! i) \<and> i_dev (xs ! i) = dev \<and> i_inum (xs ! i) = inum"
  by (auto simp: icache_find_def find_Some_iff)

lemma icache_find_None:
  "icache_find dev inum xs = None \<longleftrightarrow> (\<forall>i < NINODE. \<not> (0 < i_ref (xs ! i) \<and> i_dev (xs ! i) = dev \<and> i_inum (xs ! i) = inum))"
  by (auto simp: icache_find_def find_None_iff)

lemma icache_find_slot:
  assumes "icache_ok xs" "i < NINODE" "0 < i_ref (xs ! i)"
  shows "icache_find (i_dev (xs ! i)) (i_inum (xs ! i)) xs = Some i"
proof (cases "icache_find (i_dev (xs ! i)) (i_inum (xs ! i)) xs")
  case None
  then show ?thesis using assms by (auto simp: icache_find_None)
next
  case (Some j)
  then show ?thesis using assms icache_find_Some [OF Some] by (auto simp: icache_ok_def)
qed

lemma icache_empty_Some: "icache_empty xs = Some i \<Longrightarrow> i < NINODE \<and> i_ref (xs ! i) = 0"
  by (auto simp: icache_empty_def find_Some_iff)

lemma icache_empty_None: "icache_empty xs = None \<longleftrightarrow> (\<forall>i < NINODE. i_ref (xs ! i) \<noteq> 0)"
  by (auto simp: icache_empty_def find_None_iff)

text \<open>A slot may change as long as it does not take over the identity of another one.\<close>

lemma icache_ok_update:
  assumes "icache_ok xs" "i < NINODE" "0 \<le> i_ref ip"
    and "0 < i_ref ip \<Longrightarrow> (0 < i_ref (xs ! i) \<and> i_dev ip = i_dev (xs ! i) \<and> i_inum ip = i_inum (xs ! i)) \<or>
      icache_find (i_dev ip) (i_inum ip) xs = None"
  shows "icache_ok (xs[i := ip])"
proof -
  have other: "j = i" if "j < NINODE" "0 < i_ref (xs ! j)" "0 < i_ref ip" "i_dev (xs ! j) = i_dev ip" "i_inum (xs ! j) = i_inum ip" for j
    using assms(4) [OF that(3)]
  proof
    assume "0 < i_ref (xs ! i) \<and> i_dev ip = i_dev (xs ! i) \<and> i_inum ip = i_inum (xs ! i)"
    then show ?thesis using assms(1,2) that by (auto simp: icache_ok_def)
  next
    assume "icache_find (i_dev ip) (i_inum ip) xs = None"
    then show ?thesis using that by (auto simp: icache_find_None)
  qed
  have len: "length xs = NINODE" and pos: "\<And>j. j < NINODE \<Longrightarrow> 0 \<le> i_ref (xs ! j)"
    and one: "\<And>j k. j < NINODE \<Longrightarrow> k < NINODE \<Longrightarrow> 0 < i_ref (xs ! j) \<Longrightarrow> 0 < i_ref (xs ! k) \<Longrightarrow>
      i_dev (xs ! j) = i_dev (xs ! k) \<Longrightarrow> i_inum (xs ! j) = i_inum (xs ! k) \<Longrightarrow> j = k"
    using assms(1) unfolding icache_ok_def by blast+
  show ?thesis
    unfolding icache_ok_def
  proof (intro conjI allI impI)
    show "length (xs[i := ip]) = NINODE" by (simp add: len)
    show "0 \<le> i_ref (xs[i := ip] ! j)" if "j < NINODE" for j
      using that pos [OF that] assms(2,3) len by (cases "j = i") simp_all
  next
    fix j k
    assume jk: "j < NINODE" "k < NINODE" "0 < i_ref (xs[i := ip] ! j)" "0 < i_ref (xs[i := ip] ! k)"
      "i_dev (xs[i := ip] ! j) = i_dev (xs[i := ip] ! k)" "i_inum (xs[i := ip] ! j) = i_inum (xs[i := ip] ! k)"
    have at: "xs[i := ip] ! m = (if m = i then ip else xs ! m)" if "m < NINODE" for m
      using that len by (simp add: nth_list_update)
    show "j = k"
    proof (cases "j = i \<or> k = i")
      case True
      then show ?thesis using jk other [of j] other [of k] unfolding at [OF jk(1)] at [OF jk(2)] by (metis (full_types))
    next
      case False
      then show ?thesis using jk(3-6) one [OF jk(1,2)] unfolding at [OF jk(1)] at [OF jk(2)] by simp
    qed
  qed
qed

lemma refs_update:
  assumes "icache_ok xs" "icache_ok (xs[i := ip])" "i < NINODE"
    and "0 < i_ref (xs ! i) \<Longrightarrow> i_dev ip = i_dev (xs ! i) \<and> i_inum ip = i_inum (xs ! i)"
  shows "refs (xs[i := ip]) dev inum =
    (if dev = i_dev ip \<and> inum = i_inum ip then
       (if 0 < i_ref ip then i_ref ip else if 0 < i_ref (xs ! i) then 0 else refs xs dev inum)
     else refs xs dev inum)"
proof -
  let ?ys = "xs[i := ip]"
  have len: "length xs = NINODE" using assms(1) by (simp add: icache_ok_def)
  have same: "?ys ! j = (if j = i then ip else xs ! j)" if "j < NINODE" for j
    using that len by (simp add: nth_list_update)
  show ?thesis
  proof (cases "dev = i_dev ip \<and> inum = i_inum ip")
    case False
    have "icache_find dev inum ?ys = icache_find dev inum xs"
      unfolding icache_find_def by (rule find_cong) (use False same assms(4) in auto)
    moreover have "j \<noteq> i" if "icache_find dev inum ?ys = Some j" for j
      using icache_find_Some [OF that] same [of j] False by auto
    ultimately show ?thesis
      using False same by (auto simp: refs_def dest: icache_find_Some split: option.splits)
  next
    case True
    consider "0 < i_ref ip" | "\<not> 0 < i_ref ip" "0 < i_ref (xs ! i)" | "\<not> 0 < i_ref ip" "\<not> 0 < i_ref (xs ! i)" by blast
    then show ?thesis
    proof cases
      case 1
      then have "icache_find (i_dev (?ys ! i)) (i_inum (?ys ! i)) ?ys = Some i"
        using assms(3) same by (intro icache_find_slot assms(2)) simp_all
      then show ?thesis using True 1 same [OF assms(3)] by (simp add: refs_def)
    next
      case 2
      have "icache_find dev inum ?ys = None"
        unfolding icache_find_None
      proof (intro allI impI)
        fix j assume j: "j < NINODE"
        show "\<not> (0 < i_ref (?ys ! j) \<and> i_dev (?ys ! j) = dev \<and> i_inum (?ys ! j) = inum)"
        proof (cases "j = i")
          case True
          then show ?thesis using 2 same [OF j] by simp
        next
          case False
          then show ?thesis using 2 assms(1,3,4) True same [OF j] j by (auto simp: icache_ok_def)
        qed
      qed
      then show ?thesis using True 2 by (simp add: refs_def)
    next
      case 3
      have "icache_find dev inum ?ys = icache_find dev inum xs"
        unfolding icache_find_def by (rule find_cong) (use 3 same in auto)
      moreover have "j \<noteq> i" if "icache_find dev inum ?ys = Some j" for j
        using icache_find_Some [OF that] same [of j] 3 by auto
      ultimately show ?thesis
        using True 3 same by (auto simp: refs_def dest: icache_find_Some split: option.splits)
    qed
  qed
qed

section \<open>Taking and dropping references\<close>

lemma inodes_relock:
  "Licache \<notin> held s \<Longrightarrow> s\<lparr>held := insert Licache (held s)\<rparr>\<lparr>inodes := xs\<rparr>\<lparr>held := held s\<rparr> = s\<lparr>inodes := xs\<rparr>"
  by simp

lemma wp_iget:
  assumes l: "Licache \<notin> held s" and x: "icache_ok (inodes s)"
    and room: "icache_find dev inum (inodes s) \<noteq> None \<or> icache_empty (inodes s) \<noteq> None"
    and post: "\<And>i ip. \<lbrakk>i < NINODE; i_dev ip = dev; i_inum ip = inum; i_ref ip = refs (inodes s) dev inum + 1;
        icache_ok ((inodes s)[i := ip]); 0 < i_ref (inodes s ! i) \<Longrightarrow> ip = (inodes s ! i)\<lparr>i_ref := i_ref (inodes s ! i) + 1\<rparr>
          \<and> i_dev (inodes s ! i) = dev \<and> i_inum (inodes s ! i) = inum;
        i_ref (inodes s ! i) = 0 \<Longrightarrow> \<not> i_busy ip \<and> \<not> i_valid ip\<rbrakk> \<Longrightarrow> Q i (s\<lparr>inodes := (inodes s)[i := ip]\<rparr>)"
  shows "wp (iget dev inum) Q s"
proof (cases "icache_find dev inum (inodes s)")
  case (Some i)
  note f = icache_find_Some [OF Some]
  let ?ip = "(inodes s ! i)\<lparr>i_ref := i_ref (inodes s ! i) + 1\<rparr>"
  have "Q i (s\<lparr>inodes := (inodes s)[i := ?ip]\<rparr>)"
    using f by (intro post icache_ok_update [OF x]) (simp_all add: refs_def Some)
  then show ?thesis
    using l Some by (simp add: iget_def set_inode_def)
next
  case None
  then obtain i where e: "icache_empty (inodes s) = Some i" using room by auto
  note f = icache_empty_Some [OF e]
  let ?ip = "(inodes s ! i)\<lparr>i_dev := dev, i_inum := inum, i_ref := 1, i_busy := False, i_valid := False\<rparr>"
  have "Q i (s\<lparr>inodes := (inodes s)[i := ?ip]\<rparr>)"
    using f by (intro post icache_ok_update [OF x]) (simp_all add: refs_def None)
  then show ?thesis
    using l None e by (simp add: iget_def set_inode_def)
qed

lemma wp_idup:
  assumes "Licache \<notin> held s" and x: "icache_ok (inodes s)" "i < NINODE" "0 < i_ref (inodes s ! i)"
    and post: "\<And>ip. ip = (inodes s ! i)\<lparr>i_ref := i_ref (inodes s ! i) + 1\<rparr> \<Longrightarrow> icache_ok ((inodes s)[i := ip]) \<Longrightarrow>
      Q i (s\<lparr>inodes := (inodes s)[i := ip]\<rparr>)"
  shows "wp (idup i) Q s"
proof -
  let ?ip = "(inodes s ! i)\<lparr>i_ref := i_ref (inodes s ! i) + 1\<rparr>"
  have "Q i (s\<lparr>inodes := (inodes s)[i := ?ip]\<rparr>)"
    using x by (intro post icache_ok_update [OF x(1)]) simp_all
  then show ?thesis using assms(1) by (simp add: idup_def set_inode_def)
qed

text \<open>\<open>iput\<close> of a reference that is not the last one to a deleted file.\<close>

lemma wp_iput_keep:
  assumes "Licache \<notin> held s" and x: "icache_ok (inodes s)" "i < NINODE" "0 < i_ref (inodes s ! i)"
    and k: "\<not> (i_ref (inodes s ! i) = 1 \<and> i_valid (inodes s ! i) \<and> i_nlink (inodes s ! i) = 0)"
    and post: "\<And>ip. ip = (inodes s ! i)\<lparr>i_ref := i_ref (inodes s ! i) - 1\<rparr> \<Longrightarrow> icache_ok ((inodes s)[i := ip]) \<Longrightarrow>
      Q () (s\<lparr>inodes := (inodes s)[i := ip]\<rparr>)"
  shows "wp (iput i) Q s"
proof -
  let ?ip = "(inodes s ! i)\<lparr>i_ref := i_ref (inodes s ! i) - 1\<rparr>"
  have "Q () (s\<lparr>inodes := (inodes s)[i := ?ip]\<rparr>)"
    using x by (intro post icache_ok_update [OF x(1)]) simp_all
  then show ?thesis using assms(1) k by (auto simp: iput_def set_inode_def get_inode_def)
qed

section \<open>The disk inode\<close>

definition inode_at :: "'z bio_state_scheme \<Rightarrow> u32 \<Rightarrow> u32 \<Rightarrow> dinode" where
  "inode_at s dev inum = get_dinode (blk_at s (dev, IBLOCK inum)) (islot inum)"

lemma inode_at_inodes [simp]: "inode_at (s\<lparr>inodes := x\<rparr>) = inode_at s"
  by (simp add: inode_at_def blk_at_def fun_eq_iff)

text \<open>What the operations on one inode leave alone: all but the buffers, the disk, the inode cache and
  how processes are scheduled, and the buffers in \<open>H\<close>.\<close>

definition fkeeps :: "nat set \<Rightarrow> 'z fs_state_scheme \<Rightarrow> 'z fs_state_scheme \<Rightarrow> bool" where
  "fkeeps H s t \<longleftrightarrow> bc.keeps H s (t\<lparr>inodes := inodes s\<rparr>)"

lemma cache_inodes [simp]:
  "cache_ok H (s\<lparr>inodes := x\<rparr>) = cache_ok H s" "blk_at (s\<lparr>inodes := x\<rparr>) = blk_at s"
  "home_at (s\<lparr>inodes := x\<rparr>) = home_at s" "data_at (s\<lparr>inodes := x\<rparr>) = data_at s"
  by (simp_all add: cache_ok_def cache_core_def cache_bufs_def machine_ok_def blk_at_def home_at_def data_at_def fun_eq_iff)

lemma cache_wake [simp]:
  "cache_ok H (s\<lparr>ptable := map (wake c) (ptable s)\<rparr>) = cache_ok H s"
  "blk_at (s\<lparr>ptable := ps\<rparr>) = blk_at s" "home_at (s\<lparr>ptable := ps\<rparr>) = home_at s" "data_at (s\<lparr>ptable := ps\<rparr>) = data_at s"
  by (simp_all add: cache_ok_def cache_core_def cache_bufs_def machine_ok_def blk_at_def home_at_def data_at_def fun_eq_iff)

lemma keeps_inodes: "bc.keeps H s t \<Longrightarrow> inodes t = inodes s"
proof -
  assume "bc.keeps H s t"
  then have "t\<lparr>bufs := bufs s, ioport := ioport s, disk := disk s, ptable := ptable s\<rparr> = s"
    by (simp add: bc.keeps_def disk_frame_def)
  then have "inodes (t\<lparr>bufs := bufs s, ioport := ioport s, disk := disk s, ptable := ptable s\<rparr>) = inodes s" by simp
  then show ?thesis by simp
qed

lemma frame_inodes: "disk_frame s t \<Longrightarrow> disk_frame (s\<lparr>inodes := x\<rparr>) (t\<lparr>inodes := x\<rparr>)"
proof -
  assume d: "disk_frame s t"
  then have "t\<lparr>bufs := bufs s, ioport := ioport s, disk := disk s, ptable := ptable s\<rparr> = s" by (simp add: disk_frame_def)
  then have "(t\<lparr>bufs := bufs s, ioport := ioport s, disk := disk s, ptable := ptable s\<rparr>)\<lparr>inodes := x\<rparr> = s\<lparr>inodes := x\<rparr>" by simp
  moreover have "t\<lparr>inodes := x\<rparr>\<lparr>bufs := bufs s, ioport := ioport s, disk := disk s, ptable := ptable s\<rparr>
      = (t\<lparr>bufs := bufs s, ioport := ioport s, disk := disk s, ptable := ptable s\<rparr>)\<lparr>inodes := x\<rparr>" by simp
  ultimately show ?thesis using d by (simp add: disk_frame_def)
qed

lemma keeps_fkeeps: "bc.keeps H s t \<Longrightarrow> fkeeps H s t"
proof -
  assume k: "bc.keeps H s t"
  have "t\<lparr>inodes := inodes s\<rparr> = t" unfolding keeps_inodes [OF k, symmetric] by simp
  then show ?thesis using k by (simp add: fkeeps_def)
qed

lemma fkeeps_refl [simp]: "fkeeps H s s"
  by (simp add: fkeeps_def)

lemma fkeeps_inodes: "fkeeps H s (t\<lparr>inodes := x\<rparr>) = fkeeps H s t" "fkeeps H (s\<lparr>inodes := x\<rparr>) t = fkeeps H s t"
proof -
  show "fkeeps H s (t\<lparr>inodes := x\<rparr>) = fkeeps H s t" by (simp add: fkeeps_def)
  have "disk_frame (s\<lparr>inodes := x\<rparr>) (t\<lparr>inodes := x\<rparr>) \<longleftrightarrow> disk_frame s (t\<lparr>inodes := inodes s\<rparr>)"
    using frame_inodes [of "s\<lparr>inodes := x\<rparr>" "t\<lparr>inodes := x\<rparr>" "inodes s"] frame_inodes [of s "t\<lparr>inodes := inodes s\<rparr>" x]
    by auto
  then show "fkeeps H (s\<lparr>inodes := x\<rparr>) t = fkeeps H s t" by (simp add: fkeeps_def bc.keeps_def)
qed

lemma fkeeps_trans: "fkeeps H s t \<Longrightarrow> fkeeps H t u \<Longrightarrow> fkeeps H s u"
proof -
  assume st: "fkeeps H s t" and "fkeeps H t u"
  then have "fkeeps H (t\<lparr>inodes := inodes s\<rparr>) u" by (simp add: fkeeps_inodes)
  then have "bc.keeps H (t\<lparr>inodes := inodes s\<rparr>) (u\<lparr>inodes := inodes s\<rparr>)" by (simp add: fkeeps_def)
  then show ?thesis using st bc.keeps_trans unfolding fkeeps_def by blast
qed

lemma fkeeps_home: "fkeeps H s t \<Longrightarrow> h \<in> H \<Longrightarrow> home_at t h = home_at s h"
  by (simp add: fkeeps_def bc.keeps_def)

lemma fkeeps_wake: "fkeeps H s (s\<lparr>ptable := map (wake c) (ptable s)\<rparr>)"
  by (simp add: fkeeps_def bc.keeps_def disk_frame_def same_procs_wake)

lemma iblock_on_disk: "dev < 2 \<Longrightarrow> inum < 0x40000000 \<Longrightarrow> on_disk dev (IBLOCK inum)"
proof -
  assume d: "dev < 2" "inum < 0x40000000"
  have "unat (inum div of_nat IPB) = unat inum div 8" by (simp add: unat_div IPB_def)
  moreover have "unat inum < 0x40000000" using d(2) by (simp add: word_less_nat_alt)
  ultimately have "unat (inum div of_nat IPB) < 0x8000000" by linarith
  then have "unat (IBLOCK inum) < 0x8000002" unfolding IBLOCK_def by (subst unat_add_small) simp_all
  then show ?thesis using d(1) by (simp add: on_disk_def word_less_nat_alt)
qed

lemma islot_bound: "islot inum + 64 \<le> BSIZE"
proof -
  have "unat inum mod IPB < 8" by (simp add: IPB_def)
  then show ?thesis by (simp add: islot_def BSIZE_def)
qed

lemma islot_apart: "IBLOCK a = IBLOCK b \<Longrightarrow> a \<noteq> b \<Longrightarrow> islot a + 64 \<le> islot b \<or> islot b + 64 \<le> islot a"
proof -
  assume e: "IBLOCK a = IBLOCK b" and n: "a \<noteq> b"
  have "unat (a div of_nat IPB) = unat (b div of_nat IPB)" using e by (simp add: IBLOCK_def)
  then have "unat a div 8 = unat b div 8" by (simp add: unat_div IPB_def)
  moreover have "unat a \<noteq> unat b" using n word_unat_eq_iff by blast
  ultimately have "unat a mod 8 \<noteq> unat b mod 8" by (metis div_mult_mod_eq)
  then show ?thesis by (auto simp: islot_def IPB_def)
qed

text \<open>Storing a disk inode.\<close>

definition inode_stored :: "u32 \<Rightarrow> u32 \<Rightarrow> dinode \<Rightarrow> 'z bio_state_scheme \<Rightarrow> 'z bio_state_scheme \<Rightarrow> bool" where
  "inode_stored dev inum x s t \<longleftrightarrow> (\<forall>a. block_ok a \<longrightarrow> blk_at t a = (if a = (dev, IBLOCK inum)
     then put_at (islot inum) (bytes_dinode x) (blk_at s a) else blk_at s a))"

lemma inode_stored_at:
  assumes "inode_stored dev inum x s t" "cache_ok H s" "length (d_addrs x) = Suc NDIRECT" "dev < 2" "inum < 0x40000000" "inum' < 0x40000000"
  shows "inode_at t dev inum' = (if inum' = inum then x else inode_at s dev inum')"
proof -
  have b: "blk_at t (dev, IBLOCK inum') = (if IBLOCK inum' = IBLOCK inum
      then put_at (islot inum) (bytes_dinode x) (blk_at s (dev, IBLOCK inum')) else blk_at s (dev, IBLOCK inum'))"
    using assms(1) iblock_on_disk [OF assms(4,6)] by (simp add: inode_stored_def block_ok_def)
  show ?thesis
    using get_dinode_put [OF assms(3)] get_dinode_put_other [OF assms(3)] islot_bound block_length [OF assms(2)]
      islot_apart [of inum' inum]
    by (auto simp: inode_at_def b)
qed

lemma wp_iupdate:
  assumes "cache_ok H s" "i_dev (inodes s ! i) < 2" "i_inum (inodes s ! i) < 0x40000000" "length (i_addrs (inodes s ! i)) = Suc NDIRECT"
    and "\<And>h. h \<in> H \<Longrightarrow> home_at s h \<noteq> (i_dev (inodes s ! i), IBLOCK (i_inum (inodes s ! i)))" "card H < NBUF"
    and post: "\<And>t. \<lbrakk>cache_ok H t; inode_stored (i_dev (inodes s ! i)) (i_inum (inodes s ! i)) (dinode_of (inodes s ! i)) s t;
      bc.keeps H s t\<rbrakk> \<Longrightarrow> Q () t"
  shows "wp (iupdate i) Q s"
proof -
  let ?ip = "inodes s ! i"
  have "wp (bread (i_dev ?ip) (IBLOCK (i_inum ?ip))) (\<lambda>bp. wp (bdata bp) (\<lambda>d.
      wp (set_data bp (put_at (islot (i_inum ?ip)) (bytes_dinode (dinode_of ?ip)) d)) (\<lambda>_. wp (bwrite bp) (\<lambda>_. wp (brelse bp) Q)))) s"
  proof (rule block_modify [OF assms(1)])
    fix t
    assume t: "cache_ok H t" "bc.keeps H s t" and b: "\<forall>x. block_ok x \<longrightarrow> blk_at t x = (if x = (i_dev ?ip, IBLOCK (i_inum ?ip))
        then put_at (islot (i_inum ?ip)) (bytes_dinode (dinode_of ?ip)) (blk_at s (i_dev ?ip, IBLOCK (i_inum ?ip))) else blk_at s x)"
    show "Q () t" by (rule post [OF t(1) _ t(2)]) (use b in \<open>simp add: inode_stored_def\<close>)
  qed (use assms islot_bound [of "i_inum ?ip"] iblock_on_disk [OF assms(2,3)] block_length [OF assms(1)] in
      \<open>simp_all add: block_ok_def dinode_of_def\<close>)
  then show ?thesis by (simp add: iupdate_def get_inode_def) (simp only: wp_nest)
qed

text \<open>\<open>ilock\<close> of an inode that is not locked: the slot then holds the disk inode.\<close>

definition loaded :: "'z bio_state_scheme \<Rightarrow> inode \<Rightarrow> inode" where
  "loaded s ip = (if i_valid ip then ip else load_dinode (inode_at s (i_dev ip) (i_inum ip)) ip)\<lparr>i_busy := True, i_valid := True\<rparr>"

lemma wp_ilock:
  assumes s: "cache_ok H s" "i < length (inodes s)" "1 \<le> i_ref (inodes s ! i)" "\<not> i_busy (inodes s ! i)"
    and load: "\<not> i_valid (inodes s ! i) \<Longrightarrow> i_dev (inodes s ! i) < 2 \<and> i_inum (inodes s ! i) < 0x40000000 \<and> card H < NBUF \<and>
      (\<forall>h \<in> H. home_at s h \<noteq> (i_dev (inodes s ! i), IBLOCK (i_inum (inodes s ! i)))) \<and>
      d_type (inode_at s (i_dev (inodes s ! i)) (i_inum (inodes s ! i))) \<noteq> 0"
    and post: "\<And>t. \<lbrakk>cache_ok H t; blk_at t = blk_at s; inodes t = (inodes s)[i := loaded s (inodes s ! i)]; fkeeps H s t\<rbrakk> \<Longrightarrow> Q () t"
  shows "wp (ilock i) Q s"
proof (cases "i_valid (inodes s ! i)")
  case True
  have "Q () (s\<lparr>inodes := (inodes s)[i := loaded s (inodes s ! i)]\<rparr>)"
    by (rule post) (use s(1) in \<open>simp_all add: fkeeps_inodes\<close>)
  moreover have "loaded s (inodes s ! i) = (inodes s ! i)\<lparr>i_busy := True\<rparr>"
    by (rule inode.equality) (simp_all add: loaded_def True)
  ultimately show ?thesis using s True by (simp add: ilock_def get_inode_def set_inode_def)
next
  case False
  let ?ip = "inodes s ! i" and ?u = "s\<lparr>inodes := (inodes s)[i := (inodes s ! i)\<lparr>i_busy := True\<rparr>]\<rparr>"
  note l = load [OF False]
  have "wp (bread (i_dev ?ip) (IBLOCK (i_inum ?ip))) (\<lambda>bp. wp (bdata bp) (\<lambda>d. wp (set_inode i (load_dinode (get_dinode d (islot (i_inum ?ip)))))
      (\<lambda>_. wp (brelse bp) (\<lambda>_. wp (set_inode i (\<lambda>ip. ip\<lparr>i_valid := True\<rparr>)) (\<lambda>_. wp (get_inode i) (\<lambda>ip.
      wp (if i_type ip = 0 then panic ''ilock: no type'' else skip) Q)))))) ?u"
  proof (rule block_inspect)
    fix bp t
    assume t: "bc.holds bp (i_dev ?ip, IBLOCK (i_inum ?ip)) H t" "blk_at t = blk_at ?u" "bc.keeps H ?u t"
    let ?x = "inode_at s (i_dev ?ip) (i_inum ?ip)"
    have it: "inodes t = inodes ?u" by (rule keeps_inodes [OF t(3)])
    let ?v = "t\<lparr>inodes := (inodes t)[i := load_dinode ?x (inodes t ! i)]\<rparr>"
    have x: "get_dinode (blk_at ?u (i_dev ?ip, IBLOCK (i_inum ?ip))) (islot (i_inum ?ip)) = ?x"
      by (simp add: inode_at_def)
    have "wp (brelse bp) (\<lambda>_. wp (set_inode i (\<lambda>ip. ip\<lparr>i_valid := True\<rparr>)) (\<lambda>_. wp (get_inode i) (\<lambda>ip.
      wp (if i_type ip = 0 then panic ''ilock: no type'' else skip) Q))) ?v"
    proof (rule bc.give_back)
      show "bc.holds bp (i_dev ?ip, IBLOCK (i_inum ?ip)) H ?v" using t(1) by (simp add: bc.holds_def)
    next
      fix w assume w: "cache_ok H w" "blk_at w = blk_at ?v" "bc.keeps H ?v w"
      have iw: "inodes w = inodes ?v" by (rule keeps_inodes [OF w(3)])
      let ?w = "w\<lparr>inodes := (inodes w)[i := (inodes w ! i)\<lparr>i_valid := True\<rparr>]\<rparr>"
      have e: "load_dinode ?x (?ip\<lparr>i_busy := True\<rparr>)\<lparr>i_valid := True\<rparr> = loaded s ?ip"
        using False by (simp add: loaded_def load_dinode_def)
      have ty: "i_type (loaded s ?ip) \<noteq> 0" using False l by (simp add: loaded_def load_dinode_def)
      have iw': "(inodes w)[i := (inodes w ! i)\<lparr>i_valid := True\<rparr>] = (inodes s)[i := loaded s ?ip]"
        using s(2) by (simp add: iw it e)
      have k: "fkeeps H s ?w"
        using keeps_fkeeps [OF t(3)] keeps_fkeeps [OF w(3)] fkeeps_trans [of H s t w]
        by (simp add: fkeeps_inodes)
      have "Q () ?w" by (rule post) (use w t k iw' in simp_all)
      then show "wp (set_inode i (\<lambda>ip. ip\<lparr>i_valid := True\<rparr>)) (\<lambda>_. wp (get_inode i) (\<lambda>ip.
        wp (if i_type ip = 0 then panic ''ilock: no type'' else skip) Q)) w"
        using ty s(2) by (simp add: set_inode_def get_inode_def iw')
    qed
    then show "wp (set_inode i (load_dinode (get_dinode (blk_at ?u (i_dev ?ip, IBLOCK (i_inum ?ip))) (islot (i_inum ?ip)))))
      (\<lambda>_. wp (brelse bp) (\<lambda>_. wp (set_inode i (\<lambda>ip. ip\<lparr>i_valid := True\<rparr>)) (\<lambda>_. wp (get_inode i) (\<lambda>ip.
      wp (if i_type ip = 0 then panic ''ilock: no type'' else skip) Q)))) t"
      unfolding x by (simp only: set_inode_def wp_upd)
  qed (use s l iblock_on_disk in \<open>auto simp: block_ok_def\<close>)
  then have "wp (bnd (bread (i_dev ?ip) (IBLOCK (i_inum ?ip))) (\<lambda>bp. bnd (bdata bp) (\<lambda>d.
      thn (set_inode i (load_dinode (get_dinode d (islot (i_inum ?ip))))) (thn (brelse bp)
      (thn (set_inode i (\<lambda>ip. ip\<lparr>i_valid := True\<rparr>)) (bnd (get_inode i) (\<lambda>ip.
      if i_type ip = 0 then panic ''ilock: no type'' else skip))))))) Q ?u"
    by (simp only: wp_nest)
  then show ?thesis
    using s(1,3,4) False s(2) unfolding ilock_def get_inode_def by (simp add: set_inode_def)
qed

lemma wp_iunlock:
  assumes s: "cache_ok H s" "i_busy (inodes s ! i)" "1 \<le> i_ref (inodes s ! i)"
    and post: "\<And>t. \<lbrakk>cache_ok H t; blk_at t = blk_at s; inodes t = (inodes s)[i := (inodes s ! i)\<lparr>i_busy := False\<rparr>]; fkeeps H s t\<rbrakk> \<Longrightarrow> Q () t"
  shows "wp (iunlock i) Q s"
proof -
  let ?t = "s\<lparr>inodes := (inodes s)[i := (inodes s ! i)\<lparr>i_busy := False\<rparr>], ptable := map (wake (ChInode i)) (ptable s)\<rparr>"
  have t: "?t = (s\<lparr>ptable := map (wake (ChInode i)) (ptable s)\<rparr>)\<lparr>inodes := (inodes s)[i := (inodes s ! i)\<lparr>i_busy := False\<rparr>]\<rparr>"
    by simp
  have "Q () ?t"
    unfolding t by (rule post) (use s(1) fkeeps_wake in \<open>simp_all add: fkeeps_inodes\<close>)
  moreover have "s\<lparr>held := insert Licache (held s)\<rparr>\<lparr>inodes := (inodes s)[i := (inodes s ! i)\<lparr>i_busy := False\<rparr>]\<rparr>
      \<lparr>ptable := map (wake (ChInode i)) (ptable s)\<rparr>\<lparr>held := held s\<rparr> = ?t" by simp
  ultimately show ?thesis
    using s by (simp add: iunlock_def get_inode_def set_inode_def)
qed

section \<open>Properties\<close>

text \<open>\<open>iget\<close> keeps one slot per cached inode: it returns the slot that has the inode, or a free slot
  when there is none, and adds exactly one reference to this inode and none to any other.\<close>

theorem iget_adds_one_reference:
  assumes "Licache \<notin> held s" "icache_ok (inodes s)"
    and "0 < refs (inodes s) dev inum \<or> icache_empty (inodes s) \<noteq> None"
  shows "wp (iget dev inum) (\<lambda>i t. icache_ok (inodes t) \<and> i < NINODE \<and>
      i_dev (inodes t ! i) = dev \<and> i_inum (inodes t ! i) = inum \<and>
      (\<forall>d n. refs (inodes t) d n = refs (inodes s) d n + (if d = dev \<and> n = inum then 1 else 0)) \<and>
      t = s\<lparr>inodes := inodes t\<rparr>) s"
proof (rule wp_iget [OF assms(1,2)])
  show "icache_find dev inum (inodes s) \<noteq> None \<or> icache_empty (inodes s) \<noteq> None"
    using assms(3) by (auto simp: refs_def)
  fix i ip
  assume i: "i < NINODE" "i_dev ip = dev" "i_inum ip = inum" "i_ref ip = refs (inodes s) dev inum + 1"
    "icache_ok ((inodes s)[i := ip])" "0 < i_ref (inodes s ! i) \<Longrightarrow> ip = (inodes s ! i)\<lparr>i_ref := i_ref (inodes s ! i) + 1\<rparr>
       \<and> i_dev (inodes s ! i) = dev \<and> i_inum (inodes s ! i) = inum"
  have "0 \<le> refs (inodes s) dev inum"
    by (auto simp: refs_def dest!: icache_find_Some split: option.splits)
  then have r: "refs ((inodes s)[i := ip]) d n = refs (inodes s) d n + (if d = dev \<and> n = inum then 1 else 0)" for d n
    using refs_update [OF assms(2) i(5,1), of d n] i(2,3,4,6) by simp
  have "i < length (inodes s)" using assms(2) i(1) by (simp add: icache_ok_def)
  then show "icache_ok (inodes (s\<lparr>inodes := (inodes s)[i := ip]\<rparr>)) \<and> i < NINODE \<and>
      i_dev (inodes (s\<lparr>inodes := (inodes s)[i := ip]\<rparr>) ! i) = dev \<and> i_inum (inodes (s\<lparr>inodes := (inodes s)[i := ip]\<rparr>) ! i) = inum \<and>
      (\<forall>d n. refs (inodes (s\<lparr>inodes := (inodes s)[i := ip]\<rparr>)) d n = refs (inodes s) d n + (if d = dev \<and> n = inum then 1 else 0)) \<and>
      s\<lparr>inodes := (inodes s)[i := ip]\<rparr> = s\<lparr>inodes := inodes (s\<lparr>inodes := (inodes s)[i := ip]\<rparr>)\<rparr>"
    using i(1-3,5) r by simp
qed

text \<open>A file system state with inode \<open>1\<close>, a locked directory of one block, in slot 0.\<close>

definition free_inode :: inode where
  "free_inode = \<lparr>i_dev = 0, i_inum = 0, i_ref = 0, i_busy = False, i_valid = False, i_type = 0, i_major = 0, i_minor = 0,
     i_nlink = 0, i_size = 0, i_addrs = replicate (Suc NDIRECT) 0\<rparr>"

definition root_inode :: inode where
  "root_inode = \<lparr>i_dev = 1, i_inum = 1, i_ref = 1, i_busy = True, i_valid = True, i_type = T_DIR, i_major = 0, i_minor = 0,
     i_nlink = 1, i_size = 512, i_addrs = 29 # replicate NDIRECT 0\<rparr>"

definition root_open :: fs_state where
  "root_open = bio_state.extend (small_fs small_sb [255, 255, 255, 255]) \<lparr>inodes = root_inode # replicate (NINODE - 1) free_inode\<rparr>"

lemma root_open_simps [simp]:
  "inodes root_open = root_inode # replicate (NINODE - 1) free_inode" "held root_open = {}"
  "blk_at root_open = blk_at (small_fs small_sb [255, 255, 255, 255])"
  by (simp_all add: root_open_def bio_state.defs small_fs_def cold_cache_def fun_eq_iff blk_at_def)

lemma root_open_ok: "cache_ok {} root_open"
proof -
  have "cache_ok {} (small_fs small_sb [255, 255, 255, 255])" by (rule small_fs_ok) (simp add: BSIZE_def)
  then show ?thesis
    by (simp add: cache_ok_def cache_core_def cache_bufs_def machine_ok_def root_open_def bio_state.defs)
qed

lemma root_ref: "i < NINODE \<Longrightarrow> i_ref (inodes root_open ! i) = (if i = 0 then 1 else 0)"
  by (simp add: nth_Cons' root_inode_def free_inode_def)

lemma root_open_icache: "icache_ok (inodes root_open)"
proof -
  have "length (inodes root_open) = NINODE" by (simp add: NINODE_def)
  then show ?thesis
    unfolding icache_ok_def using root_ref by (metis less_irrefl zero_le_one order_refl)
qed

theorem iget_adds_one_reference_witness:
  "wp (iget 1 1) (\<lambda>i t. refs (inodes t) 1 1 = 2) root_open"
proof -
  have f: "icache_find 1 1 (inodes root_open) = Some 0"
    by (simp add: icache_find_def NINODE_def upt_rec root_inode_def)
  then have "refs (inodes root_open) 1 1 = 1" by (simp add: refs_def root_inode_def)
  then show ?thesis
    by (intro wp_mono [OF iget_adds_one_reference]) (simp_all add: root_open_icache [simplified])
qed

text \<open>An inode that no slot holds is read from the disk again.\<close>

lemma wp_iget_ilock_reload:
  fixes s :: "'z fs_state_scheme"
  assumes s: "cache_ok {} s" "Licache \<notin> held s" "icache_ok (inodes s)" "refs (inodes s) dev inum = 0" "icache_empty (inodes s) \<noteq> None"
    and d: "d_type (inode_at s dev inum) \<noteq> 0" "dev < 2" "inum < 0x40000000"
    and post: "\<And>j t. cache_ok {} t \<Longrightarrow> blk_at t = blk_at s \<Longrightarrow> dinode_of (inodes t ! j) = inode_at s dev inum \<Longrightarrow>
       i_dev (inodes t ! j) = dev \<Longrightarrow> i_inum (inodes t ! j) = inum \<Longrightarrow> i_busy (inodes t ! j) \<Longrightarrow> Q j t"
  shows "wp (iget dev inum) (\<lambda>j. wp (ilock j) (\<lambda>_. Q j)) s"
proof (rule wp_iget [OF s(2,3)])
  fix j jp
  assume j: "j < NINODE" "i_dev jp = dev" "i_inum jp = inum" "i_ref jp = refs (inodes s) dev inum + 1"
    "icache_ok ((inodes s)[j := jp])" "0 < i_ref (inodes s ! j) \<Longrightarrow> jp = (inodes s ! j)\<lparr>i_ref := i_ref (inodes s ! j) + 1\<rparr>
      \<and> i_dev (inodes s ! j) = dev \<and> i_inum (inodes s ! j) = inum"
    "i_ref (inodes s ! j) = 0 \<Longrightarrow> \<not> i_busy jp \<and> \<not> i_valid jp"
  let ?w = "s\<lparr>inodes := (inodes s)[j := jp]\<rparr>"
  have r1: "i_ref jp = 1" using j(4) s(4) by simp
  have "i_ref (inodes s ! j) = 0"
  proof (rule ccontr)
    assume n: "i_ref (inodes s ! j) \<noteq> 0"
    have "0 \<le> i_ref (inodes s ! j)" using s(3) j(1) by (simp add: icache_ok_def)
    then have "jp = (inodes s ! j)\<lparr>i_ref := i_ref (inodes s ! j) + 1\<rparr>" using n j(6) by simp
    then have "i_ref jp = i_ref (inodes s ! j) + 1" by simp
    then show False using r1 n by simp
  qed
  then have nb: "\<not> i_busy jp" "\<not> i_valid jp" using j(7) by simp_all
  have lw: "j < length (inodes ?w)" using j(1,5) by (simp add: icache_ok_def)
  have wj: "inodes ?w ! j = jp" using lw by simp
  show "wp (ilock j) (\<lambda>_. Q j) ?w"
  proof (rule wp_ilock [OF _ lw], unfold wj)
    fix x :: "'z fs_state_scheme"
    assume x: "cache_ok {} x" "inodes x = (inodes ?w)[j := loaded ?w jp]" "blk_at x = blk_at ?w"
    have "inodes x ! j = loaded ?w jp" using lw by (simp add: x(2))
    then show "Q j x" using nb x(3) by (intro post x(1)) (simp_all add: blk_at_def loaded_def load_dinode_def dinode_of_def j(2,3))
  qed (use s(1) r1 nb d j(2,3) in \<open>simp_all add: NBUF_def\<close>)
qed (use s(5) in simp)

text \<open>C11: Metadata survives the cache: after \<open>iupdate\<close> and the release of the only reference to a file, a
  later \<open>iget\<close> and \<open>ilock\<close> of the inode, in whatever slot, read back what the inode held.\<close>

theorem iupdate_ilock_roundtrip:
  fixes s :: "'z fs_state_scheme"
  assumes s: "cache_ok {} s" "icache_ok (inodes s)" "i < NINODE" "i_busy (inodes s ! i)" "i_valid (inodes s ! i)"
    and ip: "i_ref (inodes s ! i) = 1" "i_nlink (inodes s ! i) \<noteq> 0" "i_type (inodes s ! i) \<noteq> 0"
      "i_dev (inodes s ! i) = dev" "i_inum (inodes s ! i) = inum" "length (i_addrs (inodes s ! i)) = Suc NDIRECT"
    and dev: "dev < 2" "inum < 0x40000000"
  shows "wp (thn (iupdate i) (thn (iunlockput i) (bnd (iget dev inum) (\<lambda>j. thn (ilock j) (ret j)))))
    (\<lambda>j t. dinode_of (inodes t ! j) = dinode_of (inodes s ! i) \<and> i_dev (inodes t ! j) = dev \<and>
       i_inum (inodes t ! j) = inum \<and> i_busy (inodes t ! j) \<and> cache_ok {} t) s"
    (is "wp _ ?Q s")
proof -
  have "wp (iupdate i) (\<lambda>_. wp (iunlock i) (\<lambda>_. wp (iput i) (\<lambda>_. wp (iget dev inum) (\<lambda>j. wp (ilock j) (\<lambda>_. ?Q j))))) s"
  proof (rule wp_iupdate [OF s(1)])
    fix t :: "'z fs_state_scheme"
    assume t: "cache_ok {} t" "inode_stored (i_dev (inodes s ! i)) (i_inum (inodes s ! i)) (dinode_of (inodes s ! i)) s t" "bc.keeps {} s t"
    note it = keeps_inodes [OF t(3)]
    show "wp (iunlock i) (\<lambda>_. wp (iput i) (\<lambda>_. wp (iget dev inum) (\<lambda>j. wp (ilock j) (\<lambda>_. ?Q j)))) t"
    proof (rule wp_iunlock [OF t(1)])
      fix u :: "'z fs_state_scheme"
      assume u: "cache_ok {} u" "blk_at u = blk_at t" "inodes u = (inodes t)[i := (inodes t ! i)\<lparr>i_busy := False\<rparr>]"
      have len: "i < length (inodes t)" using s(2,3) it by (simp add: icache_ok_def)
      have ux: "icache_ok (inodes u)" unfolding u(3) it by (rule icache_ok_update [OF s(2,3)]) (simp_all add: ip)
      have ui: "inodes u ! i = (inodes s ! i)\<lparr>i_busy := False\<rparr>" using len by (simp add: u(3) it)
      show "wp (iput i) (\<lambda>_. wp (iget dev inum) (\<lambda>j. wp (ilock j) (\<lambda>_. ?Q j))) u"
      proof (rule wp_iput_keep [OF _ ux s(3)])
        fix ip'
        assume i': "ip' = (inodes u ! i)\<lparr>i_ref := i_ref (inodes u ! i) - 1\<rparr>" "icache_ok ((inodes u)[i := ip'])"
        let ?v = "u\<lparr>inodes := (inodes u)[i := ip']\<rparr>"
        have ref0: "i_ref ip' = 0" by (simp add: i'(1) ui ip)
        have vr: "refs (inodes ?v) dev inum = 0"
          using refs_update [OF ux i'(2) s(3)] by (simp add: i'(1) ui ip)
        have free: "icache_empty (inodes ?v) \<noteq> None"
          using s(3) len by (auto simp: icache_empty_None u(3) ref0 intro!: exI [of _ i])
        have "inode_at ?v dev inum = dinode_of (inodes s ! i)"
          using inode_stored_at [OF t(2) s(1), of inum] ip dev by (simp add: inode_at_def u(2) dinode_of_def)
        then show "wp (iget dev inum) (\<lambda>j. wp (ilock j) (\<lambda>_. ?Q j)) ?v"
          by (intro wp_iget_ilock_reload) (use u(1) i'(2) free vr ip dev in \<open>simp_all add: dinode_of_def\<close>)
      qed (use u(1) ui ip in simp_all)
    qed (use it s(4) ip in simp_all)
  qed (use ip dev in \<open>simp_all add: NBUF_def\<close>)
  then show ?thesis by (simp only: wp_nest iunlockput_def wp_ret_fun)
qed

theorem iupdate_ilock_roundtrip_witness:
  "wp (thn (iupdate 0) (thn (iunlockput 0) (bnd (iget 1 1) (\<lambda>j. thn (ilock j) (ret j)))))
    (\<lambda>j t. i_size (inodes t ! j) = 512 \<and> i_type (inodes t ! j) = T_DIR) root_open"
  by (rule wp_mono [OF iupdate_ilock_roundtrip [OF root_open_ok root_open_icache, of 0 1 1]])
    (auto simp: root_inode_def dinode_of_def NINODE_def T_DIR_def)

end
