(* ===== verification/Console.thy ===== *)
theory Console
  imports Inode
begin

text \<open>
  The console, \<open>kernel/console.c\<close>: formatted output to the serial port and the CGA screen, the
  line discipline of the input, and the device functions that \<open>readi\<close> and \<open>writei\<close> call.  The
  characters sent to the serial port are logged in \<open>serial\<close>; the screen is \<open>crt\<close> with the
  cursor register \<open>cursor\<close>.  A reader that sleeps has made progress, so \<open>consoleread\<close> reports
  the bytes copied so far as \<open>Inr\<close> when it gives up the CPU.
\<close>

section \<open>State\<close>

definition INPUT_BUF :: nat where "INPUT_BUF = 128"
definition BACKSPACE :: nat where "BACKSPACE = 256"

text \<open>\<open>C('x')\<close>: control characters.\<close>

definition ctrl :: "char \<Rightarrow> nat" where
  "ctrl c = of_char c - 64"

record cons_input =
  in_buf :: "u8 list"
  in_r :: u32
  in_w :: u32
  in_e :: u32

text \<open>\<open>devices\<close> tells which entries of \<open>devsw\<close> are set; only the console is.\<close>

record cons_state = fs_state +
  input :: cons_input
  cons_locking :: bool
  panicked :: bool
  uart_on :: bool
  serial :: "nat list"
  crt :: "u16 list"
  cursor :: u16
  devices :: "nat set"

definition set_input :: "(cons_input \<Rightarrow> cons_input) \<Rightarrow> ('z cons_state_scheme, switch, unit) prog" where
  "set_input f = upd (\<lambda>s. s\<lparr>input := f (input s)\<rparr>)"

section \<open>Output\<close>

text \<open>\<open>cgaputc\<close> on the screen memory and cursor position: 25 lines of 80 cells.\<close>

definition cga_advance :: "nat \<Rightarrow> u16 list \<times> nat \<Rightarrow> u16 list \<times> nat" where
  "cga_advance c st = (case st of (scr, pos) \<Rightarrow>
     if c = 10 then (scr, pos + (80 - pos mod 80))
     else if c = BACKSPACE then (scr, if 0 < pos then pos - 1 else pos)
     else (scr[pos := (of_nat (c mod 256)) OR 0x0700], pos + 1))"

definition cga_scroll :: "u16 list \<times> nat \<Rightarrow> u16 list \<times> nat" where
  "cga_scroll st = (case st of (scr, pos) \<Rightarrow>
     if 24 \<le> pos div 80
     then (put_at (pos - 80) (replicate (24 * 80 - (pos - 80)) 0) (put_at 0 (chunk 80 (23 * 80) scr) scr), pos - 80)
     else (scr, pos))"

definition cga_cursor :: "u16 list \<times> nat \<Rightarrow> u16 list \<times> nat" where
  "cga_cursor st = (case st of (scr, pos) \<Rightarrow> (scr[pos := 32 OR 0x0700], pos))"

definition cgaputc :: "nat \<Rightarrow> ('z cons_state_scheme, switch, unit) prog" where
  "cgaputc c = upd (\<lambda>s.
     case cga_cursor (cga_scroll (cga_advance c (crt s, unat (cursor s)))) of
       (scr, pos) \<Rightarrow> s\<lparr>crt := scr, cursor := of_nat pos\<rparr>)"

definition uartputc :: "nat \<Rightarrow> ('z cons_state_scheme, switch, unit) prog" where
  "uartputc c = upd (\<lambda>s. if uart_on s then s\<lparr>serial := serial s @ [c mod 256]\<rparr> else s)"

definition consputc :: "nat \<Rightarrow> ('z cons_state_scheme, switch, unit) prog" where
  "consputc c =
     bnd (asks panicked) (\<lambda>p.
     if p then panic ''frozen''
     else
       thn (if c = BACKSPACE then thn (uartputc 8) (thn (uartputc 32) (uartputc 8)) else uartputc c)
           (cgaputc c))"

text \<open>The digits of a number, least significant first, as the loop of \<open>printint\<close> makes them.\<close>

definition digit_char :: "nat \<Rightarrow> nat" where
  "digit_char d = (if d < 10 then 48 + d else 87 + d)"

function digits :: "nat \<Rightarrow> nat \<Rightarrow> nat list" where
  "digits base x = (x mod base) # (if x div base = 0 \<or> base < 2 then [] else digits base (x div base))"
  by auto

termination
proof (relation "measure snd", goal_cases)
  case (2 base x)
  then have "0 < x" "1 < base" by (auto intro: Nat.gr0I)
  then show ?case by (simp add: div_less_dividend)
qed simp

declare digits.simps [simp del]

definition int_chars :: "u32 \<Rightarrow> nat \<Rightarrow> bool \<Rightarrow> nat list" where
  "int_chars xx base sign =
     (if sign \<and> sint xx < 0
      then 45 # rev (map digit_char (digits base (unat (- xx))))
      else rev (map digit_char (digits base (unat xx))))"

definition printint :: "u32 \<Rightarrow> nat \<Rightarrow> bool \<Rightarrow> ('z cons_state_scheme, switch, unit) prog" where
  "printint xx base sign = foreach (int_chars xx base sign) consputc"

text \<open>An argument of \<open>cprintf\<close>: a word, or the string that a pointer points to.\<close>

datatype farg = Num u32 | Str "nat list option"

definition codes :: "string \<Rightarrow> nat list" where
  "codes s = map of_char s"

fun cprintf_loop :: "nat list \<Rightarrow> farg list \<Rightarrow> ('z cons_state_scheme, switch, unit) prog" where
  "cprintf_loop [] as = skip"
| "cprintf_loop (c # cs) as =
     (if c \<noteq> of_char CHR ''%'' then thn (consputc c) (cprintf_loop cs as)
      else case cs of
        [] \<Rightarrow> skip
      | d # ds \<Rightarrow>
          if d = of_char CHR ''d'' then
            (case as of Num n # bs \<Rightarrow> thn (printint n 10 True) (cprintf_loop ds bs) | _ \<Rightarrow> panic ''args'')
          else if d = of_char CHR ''x'' \<or> d = of_char CHR ''p'' then
            (case as of Num n # bs \<Rightarrow> thn (printint n 16 False) (cprintf_loop ds bs) | _ \<Rightarrow> panic ''args'')
          else if d = of_char CHR ''s'' then
            (case as of
               Str None # bs \<Rightarrow> thn (foreach (codes ''(null)'') consputc) (cprintf_loop ds bs)
             | Str (Some t) # bs \<Rightarrow> thn (foreach t consputc) (cprintf_loop ds bs)
             | _ \<Rightarrow> panic ''args'')
          else if d = of_char CHR ''%'' then thn (consputc d) (cprintf_loop ds as)
          else thn (consputc (of_char CHR ''%'')) (thn (consputc d) (cprintf_loop ds as)))"

definition cprintf :: "string \<Rightarrow> farg list \<Rightarrow> ('z cons_state_scheme, switch, unit) prog" where
  "cprintf fmt as =
     bnd (asks cons_locking) (\<lambda>locking.
     thn (whenP locking (lock Lcons)) (
     thn (cprintf_loop (codes fmt) as) (whenP locking (unlock Lcons))))"

text \<open>
  \<open>procdump\<close>.  The call stack of a sleeping process, which \<open>getcallerpcs\<close> reads from its kernel
  stack, is the argument \<open>pcs\<close>: ten return addresses for each slot.
\<close>

definition state_name :: "procstate \<Rightarrow> string" where
  "state_name st = (case st of
     UNUSED \<Rightarrow> ''unused'' | EMBRYO \<Rightarrow> ''embryo'' | SLEEPING \<Rightarrow> ''sleep ''
   | RUNNABLE \<Rightarrow> ''runble'' | RUNNING \<Rightarrow> ''run   '' | ZOMBIE \<Rightarrow> ''zombie'')"

definition procdump_one :: "(nat \<Rightarrow> u32 list) \<Rightarrow> nat \<Rightarrow> ('z cons_state_scheme, switch, unit) prog" where
  "procdump_one pcs i =
     bnd (get_proc i) (\<lambda>p.
     if p_state p = UNUSED then skip
     else
       thn (cprintf ''%d %s %s'' [Num (p_pid p), Str (Some (codes (state_name (p_state p)))),
              Str (Some (map unat (takeWhile (\<lambda>c. c \<noteq> 0) (p_name p))))])
           (thn (whenP (p_state p = SLEEPING)
                  (foreach (takeWhile (\<lambda>pc. pc \<noteq> 0) (pcs i)) (\<lambda>pc. cprintf '' %p'' [Num pc])))
                (cprintf [CHR 0x0A] [])))"

definition procdump :: "(nat \<Rightarrow> u32 list) \<Rightarrow> ('z cons_state_scheme, switch, unit) prog" where
  "procdump pcs = foreach [0..<NPROC] (procdump_one pcs)"

section \<open>Input\<close>

definition in_at :: "cons_input \<Rightarrow> u32 \<Rightarrow> u8" where
  "in_at q i = in_buf q ! (unat i mod INPUT_BUF)"

text \<open>\<open>C('U')\<close>: the characters of the line that is being edited, as many as the buffer has.\<close>

primrec kill_line :: "nat \<Rightarrow> ('z cons_state_scheme, switch, unit) prog" where
  "kill_line 0 = skip"
| "kill_line (Suc n) =
     bnd (asks input) (\<lambda>q.
     if in_e q \<noteq> in_w q \<and> in_at q (in_e q - 1) \<noteq> 10
     then thn (set_input (\<lambda>q. q\<lparr>in_e := in_e q - 1\<rparr>)) (thn (consputc BACKSPACE) (kill_line n))
     else skip)"

definition in_full :: "cons_input \<Rightarrow> bool" where
  "in_full q \<longleftrightarrow> \<not> in_e q - in_r q < of_nat INPUT_BUF"

definition in_store :: "u8 \<Rightarrow> cons_input \<Rightarrow> cons_input" where
  "in_store c q = q\<lparr>in_buf := (in_buf q)[unat (in_e q) mod INPUT_BUF := c], in_e := in_e q + 1\<rparr>"

text \<open>One character of \<open>consoleintr\<close>, and the loop over what \<open>getc\<close> returns until it is negative.\<close>

definition console_char :: "(nat \<Rightarrow> u32 list) \<Rightarrow> nat \<Rightarrow> ('z cons_state_scheme, switch, unit) prog" where
  "console_char pcs c =
     bnd (asks input) (\<lambda>q.
     if c = ctrl CHR ''P'' then procdump pcs
     else if c = ctrl CHR ''U'' then kill_line (Suc INPUT_BUF)
     else if c = ctrl CHR ''H'' \<or> c = 127 then
       whenP (in_e q \<noteq> in_w q) (thn (set_input (\<lambda>q. q\<lparr>in_e := in_e q - 1\<rparr>)) (consputc BACKSPACE))
     else whenP (c \<noteq> 0 \<and> \<not> in_full q) (
       let c = if c = 13 then 10 else c in
       thn (set_input (in_store (of_nat c))) (
       thn (consputc c) (
       bnd (asks input) (\<lambda>q.
       whenP (c = 10 \<or> c = ctrl CHR ''D'' \<or> in_e q = in_r q + of_nat INPUT_BUF) (
         thn (set_input (\<lambda>q. q\<lparr>in_w := in_e q\<rparr>)) (wakeup ChInput)))))))"

definition consoleintr :: "(nat \<Rightarrow> u32 list) \<Rightarrow> nat list \<Rightarrow> ('z cons_state_scheme, switch, unit) prog" where
  "consoleintr pcs cs = thn (lock Linput) (thn (foreach cs (console_char pcs)) (unlock Linput))"

text \<open>\<open>consoleread\<close> from its loop on: \<open>n\<close> bytes still wanted, \<open>acc\<close> copied.\<close>

definition cread_done :: "nat \<Rightarrow> u8 list option \<Rightarrow> ('z cons_state_scheme, switch, u8 list option + u8 list) prog" where
  "cread_done i r = thn (unlock Linput) (thn (ilock i) (ret (Inl r)))"

primrec consoleread_loop :: "nat \<Rightarrow> nat \<Rightarrow> u8 list \<Rightarrow> ('z cons_state_scheme, switch, u8 list option + u8 list) prog" where
  "consoleread_loop i 0 acc = cread_done i (Some acc)"
| "consoleread_loop i (Suc n) acc =
     bnd (asks input) (\<lambda>q.
     if in_r q = in_w q then
       bnd killed (\<lambda>k.
       if k then cread_done i None
       else on_block (sleep ChInput Linput) (\<lambda>_. ret (Inr acc)))
     else
       let c = in_at q (in_r q) in
       if unat c = ctrl CHR ''D'' then
         (if acc = [] then thn (set_input (\<lambda>q. q\<lparr>in_r := in_r q + 1\<rparr>)) (cread_done i (Some acc))
          else cread_done i (Some acc))
       else
         thn (set_input (\<lambda>q. q\<lparr>in_r := in_r q + 1\<rparr>)) (
         if c = 10 then cread_done i (Some (acc @ [c])) else consoleread_loop i n (acc @ [c])))"

definition consoleread :: "nat \<Rightarrow> nat \<Rightarrow> ('z cons_state_scheme, switch, u8 list option + u8 list) prog" where
  "consoleread i n = thn (iunlock i) (thn (lock Linput) (consoleread_loop i n []))"

definition consolewrite :: "nat \<Rightarrow> u8 list \<Rightarrow> ('z cons_state_scheme, switch, int) prog" where
  "consolewrite i bs =
     thn (iunlock i) (
     thn (lock Lcons) (
     thn (foreach bs (\<lambda>b. consputc (unat b))) (
     thn (unlock Lcons) (
     thn (ilock i) (ret (int (length bs)))))))"

definition consoleinit :: "('z cons_state_scheme, switch, unit) prog" where
  "consoleinit = upd (\<lambda>s. s\<lparr>devices := insert 1 (devices s), cons_locking := True\<rparr>)"

end
