(* ===== verification/Line.thy ===== *)
theory Line
  imports Console Ring Icache
begin

text \<open>
  The console as its users see it.  The line discipline of \<open>consoleintr\<close> keeps the text that has
  been entered and the line that is still being edited (\<open>typed\<close>); the ring buffer of
  \<open>kernel/console.c\<close> with its three counters implements it.  Output keeps the cursor on the screen.
\<close>

section \<open>Output\<close>

text \<open>A routine that only prints.\<close>

definition shown :: "'z cons_state_scheme \<Rightarrow> 'z cons_state_scheme \<Rightarrow> bool" where
  "shown s t \<longleftrightarrow> t = s\<lparr>serial := serial t, crt := crt t, cursor := cursor t\<rparr>"

definition prints :: "lockid set \<Rightarrow> ('z cons_state_scheme, switch, unit) prog \<Rightarrow> bool" where
  "prints H m \<longleftrightarrow> (\<forall>s. \<not> panicked s \<longrightarrow> held s \<inter> H = {} \<longrightarrow> wp m (\<lambda>_. shown s) s)"

lemma shown_refl [simp]: "shown s s"
  by (simp add: shown_def)

lemma shown_fields:
  assumes "shown s t"
  shows "panicked t = panicked s" "held t = held s" "input t = input s" "cons_locking t = cons_locking s" "ptable t = ptable s"
proof -
  have t: "t = s\<lparr>serial := serial t, crt := crt t, cursor := cursor t\<rparr>" using assms by (simp add: shown_def)
  show "panicked t = panicked s" "held t = held s" "input t = input s" "cons_locking t = cons_locking s" "ptable t = ptable s"
    by (subst t, simp)+
qed

lemma shown_trans:
  assumes "shown s t" "shown t u"
  shows "shown s u"
proof -
  have t: "t = s\<lparr>serial := serial t, crt := crt t, cursor := cursor t\<rparr>" using assms(1) by (simp add: shown_def)
  have u: "u = t\<lparr>serial := serial u, crt := crt u, cursor := cursor u\<rparr>" using assms(2) by (simp add: shown_def)
  have "t\<lparr>serial := serial u, crt := crt u, cursor := cursor u\<rparr> = s\<lparr>serial := serial u, crt := crt u, cursor := cursor u\<rparr>"
    by (subst t) simp
  then show ?thesis using u by (simp add: shown_def)
qed

lemma shown_input: "shown s t \<Longrightarrow> shown (s\<lparr>input := q\<rparr>) (t\<lparr>input := q\<rparr>)"
proof -
  assume "shown s t"
  then have "t\<lparr>input := q\<rparr> = s\<lparr>serial := serial t, crt := crt t, cursor := cursor t\<rparr>\<lparr>input := q\<rparr>"
    unfolding shown_def by (rule arg_cong [of t _ "\<lambda>u. u\<lparr>input := q\<rparr>"])
  then show ?thesis by (simp add: shown_def)
qed

lemma printsI: "(\<And>s. \<not> panicked s \<Longrightarrow> held s \<inter> H = {} \<Longrightarrow> wp m (\<lambda>_. shown s) s) \<Longrightarrow> prints H m"
  by (simp add: prints_def)

lemma printsD: "prints H m \<Longrightarrow> \<not> panicked s \<Longrightarrow> held s \<inter> H = {} \<Longrightarrow> wp m (\<lambda>_. shown s) s"
  by (simp add: prints_def)

lemma prints_thn [intro]:
  assumes "prints H m" "prints H n"
  shows "prints H (thn m n)"
proof (rule printsI)
  fix s :: "'a cons_state_scheme"
  assume s: "\<not> panicked s" "held s \<inter> H = {}"
  have "wp m (\<lambda>_. wp n (\<lambda>_. shown s)) s"
  proof (rule wp_mono [OF printsD [OF assms(1) s]])
    fix t assume t: "shown s t"
    then have "wp n (\<lambda>_. shown t) t" using s by (intro printsD [OF assms(2)]) (simp_all add: shown_fields)
    then show "wp n (\<lambda>_. shown s) t" by (rule wp_mono) (rule shown_trans [OF t])
  qed
  then show "wp (thn m n) (\<lambda>_. shown s) s" by simp
qed

lemma prints_skip [intro, simp]: "prints H skip"
  by (simp add: prints_def)

lemma prints_foreach [intro]: "(\<And>x. prints H (f x)) \<Longrightarrow> prints H (foreach xs f)"
  by (induction xs) auto

lemma prints_whenP [intro]: "prints H m \<Longrightarrow> prints H (whenP b m)"
  by (simp add: whenP_def)

lemma prints_if [intro]: "prints H m \<Longrightarrow> prints H n \<Longrightarrow> prints H (if b then m else n)"
  by simp

lemma prints_uartputc [intro, simp]: "prints H (uartputc c)"
  by (rule printsI) (auto simp: uartputc_def shown_def)

lemma prints_cgaputc [intro, simp]: "prints H (cgaputc c)"
  by (rule printsI) (simp add: cgaputc_def shown_def split: prod.splits)

lemma prints_consputc [intro, simp]: "prints H (consputc c)"
proof (rule printsI)
  fix s :: "'a cons_state_scheme"
  assume s: "\<not> panicked s" "held s \<inter> H = {}"
  have "prints H (thn (if c = BACKSPACE then thn (uartputc 8) (thn (uartputc 32) (uartputc 8)) else uartputc c) (cgaputc c))"
    by (intro prints_thn prints_if) simp_all
  from printsD [OF this s] show "wp (consputc c) (\<lambda>_. shown s) s"
    unfolding consputc_def using s(1) by (simp only: wp_bnd wp_asks if_False)
qed

lemma prints_printint [intro, simp]: "prints H (printint x b sg)"
  unfolding printint_def by (intro prints_foreach prints_consputc)

lemma prints_cprintf:
  assumes "prints {} (cprintf_loop (codes fmt) as :: ('z cons_state_scheme, switch, unit) prog)"
  shows "prints {Lcons} (cprintf fmt as :: ('z cons_state_scheme, switch, unit) prog)"
proof (rule printsI)
  fix s :: "'z cons_state_scheme"
  assume s: "\<not> panicked s" "held s \<inter> {Lcons} = {}"
  let ?m = "cprintf_loop (codes fmt) as"
  let ?u = "if cons_locking s then s\<lparr>held := insert Lcons (held s)\<rparr> else s"
  have "wp ?m (\<lambda>_. shown ?u) ?u" using s(1) by (intro printsD [OF assms]) simp_all
  then have "wp ?m (\<lambda>_. wp (whenP (cons_locking s) (unlock Lcons)) (\<lambda>_. shown s)) ?u"
  proof (rule wp_mono)
    fix t assume t: "shown ?u t"
    then have tu: "t = ?u\<lparr>serial := serial t, crt := crt t, cursor := cursor t\<rparr>" by (simp add: shown_def)
    show "wp (whenP (cons_locking s) (unlock Lcons)) (\<lambda>_. shown s) t"
    proof (cases "cons_locking s")
      case True
      then have h: "held t = insert Lcons (held s)" using shown_fields(2) [OF t] by simp
      have "t\<lparr>held := held s\<rparr> = s\<lparr>serial := serial t, crt := crt t, cursor := cursor t\<rparr>"
        using True by (subst tu) simp
      then show ?thesis using True s(2) h by (simp add: shown_def)
    qed (use t in simp)
  qed
  then show "wp (cprintf fmt as) (\<lambda>_. shown s) s"
    using s(2) unfolding cprintf_def by (cases "cons_locking s") simp_all
qed

lemma prints_procdump: "prints {Lcons} (procdump pcs :: ('z cons_state_scheme, switch, unit) prog)"
  unfolding procdump_def
proof (rule prints_foreach)
  fix i
  have c1: "prints {Lcons} (cprintf ''%d %s %s'' [Num a, Str (Some b), Str (Some c)])" for a b c
    by (intro prints_cprintf) (simp add: codes_def, intro prints_thn prints_foreach prints_consputc prints_printint prints_skip)
  have c2: "prints {Lcons} (cprintf '' %p'' [Num a])" for a
    by (intro prints_cprintf) (simp add: codes_def, intro prints_thn prints_consputc prints_printint prints_skip)
  have c3: "prints {Lcons} (cprintf [CHR 0x0A] [])"
    by (intro prints_cprintf) (simp add: codes_def, intro prints_thn prints_consputc prints_skip)
  show "prints {Lcons} (procdump_one pcs i :: ('z cons_state_scheme, switch, unit) prog)"
  proof (rule printsI)
    fix s :: "'z cons_state_scheme"
    assume s: "\<not> panicked s" "held s \<inter> {Lcons} = {}"
    let ?p = "ptable s ! i"
    have "prints {Lcons} (thn (cprintf ''%d %s %s'' [Num (p_pid ?p), Str (Some (codes (state_name (p_state ?p)))),
              Str (Some (map unat (takeWhile (\<lambda>c. c \<noteq> 0) (p_name ?p))))])
           (thn (whenP (p_state ?p = SLEEPING)
                  (foreach (takeWhile (\<lambda>pc. pc \<noteq> 0) (pcs i)) (\<lambda>pc. cprintf '' %p'' [Num pc])))
                (cprintf [CHR 0x0A] [])))"
      by (intro prints_thn prints_whenP prints_foreach c1 c2 c3)
    from printsD [OF this s] show "wp (procdump_one pcs i) (\<lambda>_. shown s) s"
      by (simp add: procdump_one_def)
  qed
qed

text \<open>The state after a routine that prints.\<close>

lemma wp_prints:
  assumes "prints H m" "\<not> panicked s" "held s \<inter> H = {}"
    and "\<And>t. shown s t \<Longrightarrow> Q () t"
  shows "wp m Q s"
  by (rule wp_mono [OF printsD [OF assms(1-3)]]) (use assms(4) in simp)

section \<open>The screen\<close>

lemma cga_advance_bounds:
  assumes "p < 1920" "cga_advance c (scr, p) = (scr', p')"
  shows "p' \<le> 1920" "length scr' = length scr" "drop 1920 scr' = drop 1920 scr"
proof -
  have "p + (80 - p mod 80) \<le> 1920"
  proof -
    have "p div 80 \<le> 23" using assms(1) div_le_mono [of p 1919 80] by simp
    moreover have "p = 80 * (p div 80) + p mod 80" by simp
    moreover have "p mod 80 < 80" by simp
    ultimately show ?thesis by linarith
  qed
  then show "p' \<le> 1920" "length scr' = length scr" "drop 1920 scr' = drop 1920 scr"
    using assms by (auto simp: cga_advance_def split: if_splits)
qed

text \<open>A character changes the visible screen (24 lines of 80 cells) as a terminal does: it is written at the
  cursor, newline and backspace move the cursor, and a cursor that would leave the last line scrolls the
  text up by one line; the cell under the new cursor is blanked, the cursor stays on the screen, and the
  memory after the visible lines is not touched.\<close>

theorem cgaputc_screen:
  assumes "length (crt s) = 2000" "unat (cursor s) < 1920"
  shows "wp (cgaputc c) (\<lambda>_ t. unat (cursor t) < 1920 \<and> length (crt t) = 2000 \<and> drop 1920 (crt t) = drop 1920 (crt s) \<and>
     (case cga_advance c (crt s, unat (cursor s)) of (scr, pos) \<Rightarrow>
        if pos < 1920 then unat (cursor t) = pos \<and> take 1920 (crt t) = (take 1920 scr)[pos := 0x0720]
        else unat (cursor t) = 1840 \<and> take 1920 (crt t) = (drop 80 (take 1920 scr) @ replicate 80 0)[1840 := 0x0720])) s"
proof -
  obtain scr pos where a: "cga_advance c (crt s, unat (cursor s)) = (scr, pos)" by force
  note b = cga_advance_bounds [OF assms(2) a]
  have o: "(32 OR 0x0700 :: u16) = 0x0720" by simp
  show ?thesis
  proof (cases "pos < 1920")
    case True
    then have "\<not> 24 \<le> pos div 80" using div_le_mono [of pos 1919 80] by simp
    then show ?thesis using True a b assms
      by (simp add: cgaputc_def cga_scroll_def cga_cursor_def o unat_of_nat take_bit_nat_eq_self take_update_swap)
  next
    case False
    then have p: "pos = 1920" using b(1) by simp
    have t: "take 1920 scr = take 80 scr @ take 1840 (drop 80 scr)" using take_add [of 80 1840 scr] by simp
    have "put_at 1840 (replicate 80 0) (put_at 0 (chunk 80 1840 scr) scr) = take 1840 (drop 80 scr) @ replicate 80 0 @ drop 1920 scr"
      using b(2) assms(1) by (simp add: put_at_def chunk_def)
    then show ?thesis using p a b assms t
      by (simp add: cgaputc_def cga_scroll_def cga_cursor_def o list_update_append)
  qed
qed

section \<open>The line discipline\<close>

text \<open>The text that readers may have and the line that is being edited.\<close>

record typed =
  entered :: "u8 list"
  line :: "u8 list"

text \<open>What a key does.  A line is entered by a newline (which a carriage return becomes), by
  \<open>Ctrl-D\<close>, or when the buffer is full; \<open>Ctrl-U\<close> kills the line and \<open>Ctrl-H\<close> or delete its last
  character; \<open>Ctrl-P\<close> prints the processes; keys that find the buffer full are lost.\<close>

definition key :: "nat \<Rightarrow> typed \<Rightarrow> typed" where
  "key c x =
     (if c = ctrl CHR ''P'' then x
      else if c = ctrl CHR ''U'' then x\<lparr>line := []\<rparr>
      else if c = ctrl CHR ''H'' \<or> c = 127 then x\<lparr>line := butlast (line x)\<rparr>
      else if c = 0 \<or> length (entered x @ line x) = INPUT_BUF then x
      else let c = if c = 13 then 10 else c;
               l = line x @ [of_nat c]
           in if c = 10 \<or> c = ctrl CHR ''D'' \<or> length (entered x @ l) = INPUT_BUF
              then \<lparr>entered = entered x @ l, line = []\<rparr>
              else x\<lparr>line := l\<rparr>)"

definition queued :: "cons_input \<Rightarrow> u8 list" where
  "queued q = ring_content (in_buf q) (in_r q) (in_e q)"

definition ring_ok :: "cons_input \<Rightarrow> bool" where
  "ring_ok q \<longleftrightarrow> length (in_buf q) = INPUT_BUF \<and> unat (in_e q - in_r q) \<le> INPUT_BUF"

definition input_ok :: "cons_input \<Rightarrow> bool" where
  "input_ok q \<longleftrightarrow> ring_ok q \<and> unat (in_w q - in_r q) \<le> unat (in_e q - in_r q) \<and>
     10 \<notin> set (drop (unat (in_w q - in_r q)) (queued q))"

definition typed_of :: "cons_input \<Rightarrow> typed" where
  "typed_of q = \<lparr>entered = take (unat (in_w q - in_r q)) (queued q), line = drop (unat (in_w q - in_r q)) (queued q)\<rparr>"

text \<open>The ring buffer is a bounded queue, the contract that \<open>Pipe\<close> uses too.\<close>

interpretation input_fifo: fifo in_store "\<lambda>q. in_at q (in_r q)" "\<lambda>q. q\<lparr>in_r := in_r q + 1\<rparr>" in_full "\<lambda>q. in_e q = in_r q"
  ring_ok queued INPUT_BUF
proof (unfold_locales, goal_cases)
  case (1 q a)
  then have room: "unat (in_e q - in_r q) < length (in_buf q)"
    by (simp add: in_full_def ring_ok_def word_less_nat_alt INPUT_BUF_def)
  have len: "length (in_buf q) = 128" using 1 by (simp add: ring_ok_def INPUT_BUF_def)
  have d: "length (in_buf q) dvd 2 ^ 32" "length (in_buf q) < 2 ^ 32" unfolding len by simp_all
  have p: "queued (in_store a q) = queued q @ [a]"
    using ring_put [OF d(1) room d(2)] 1 by (simp add: queued_def in_store_def ring_ok_def)
  then have "length (queued (in_store a q)) = Suc (unat (in_e q - in_r q))" by (simp add: queued_def)
  then have "unat (in_e (in_store a q) - in_r (in_store a q)) = Suc (unat (in_e q - in_r q))" by (simp add: queued_def)
  then show ?case using 1 p room len by (simp add: ring_ok_def in_store_def INPUT_BUF_def)
next
  case (2 q)
  then have g: "queued q = in_at q (in_r q) # queued (q\<lparr>in_r := in_r q + 1\<rparr>)"
    using ring_get [of "in_e q" "in_r q" "in_buf q"] by (simp add: queued_def in_at_def ring_ok_def)
  then have "length (queued q) = Suc (length (queued (q\<lparr>in_r := in_r q + 1\<rparr>)))" by simp
  then show ?case using 2 g by (simp add: queued_def ring_ok_def)
qed (auto simp: queued_def ring_empty in_full_def ring_ok_def word_less_nat_alt INPUT_BUF_def)

lemma queued_length: "length (queued q) = unat (in_e q - in_r q)"
  by (simp add: queued_def)

lemma typed_lengths:
  assumes "input_ok q"
  shows "length (entered (typed_of q)) = unat (in_w q - in_r q)" "length (line (typed_of q)) = unat (in_e q - in_w q)"
    "entered (typed_of q) @ line (typed_of q) = queued q" "line (typed_of q) = [] \<longleftrightarrow> in_e q = in_w q"
proof -
  have le: "unat (in_w q - in_r q) \<le> unat (in_e q - in_r q)" using assms by (simp add: input_ok_def)
  have d: "in_e q - in_w q = (in_e q - in_r q) - (in_w q - in_r q)" by simp
  have u: "unat (in_e q - in_w q) = unat (in_e q - in_r q) - unat (in_w q - in_r q)"
    unfolding d by (rule unat_sub) (use le in \<open>simp only: word_le_nat_alt\<close>)
  show "length (entered (typed_of q)) = unat (in_w q - in_r q)" "length (line (typed_of q)) = unat (in_e q - in_w q)"
    using le by (simp_all add: typed_of_def queued_length u)
  then have "line (typed_of q) = [] \<longleftrightarrow> unat (in_e q - in_w q) = 0" by (metis length_0_conv)
  then show "line (typed_of q) = [] \<longleftrightarrow> in_e q = in_w q" by (simp add: unat_eq_0)
  show "entered (typed_of q) @ line (typed_of q) = queued q" by (simp add: typed_of_def)
qed

text \<open>Taking back the last character of the line.\<close>

lemma input_back:
  assumes ok: "input_ok q" and ne: "in_e q \<noteq> in_w q"
  shows "input_ok (q\<lparr>in_e := in_e q - 1\<rparr>)" "typed_of (q\<lparr>in_e := in_e q - 1\<rparr>) = (typed_of q)\<lparr>line := butlast (line (typed_of q))\<rparr>"
    "in_at q (in_e q - 1) = last (line (typed_of q))"
proof -
  let ?q = "q\<lparr>in_e := in_e q - 1\<rparr>" and ?w = "unat (in_w q - in_r q)"
  have le: "?w \<le> unat (in_e q - in_r q)" using ok by (simp add: input_ok_def)
  have l: "line (typed_of q) \<noteq> []" using typed_lengths(4) [OF ok] ne by simp
  then have lt: "?w < length (queued q)" by (simp add: typed_of_def)
  then have er: "in_e q \<noteq> in_r q" by (auto simp: queued_length)
  have b: "queued ?q = butlast (queued q)" using ring_unput [OF er] by (simp add: queued_def)
  have "length (queued ?q) = unat (in_e q - in_r q) - 1" by (simp add: b queued_length)
  then have n: "unat (in_e q - 1 - in_r q) = unat (in_e q - in_r q) - 1" using queued_length [of ?q] by simp
  have dr: "drop ?w (butlast (queued q)) = butlast (drop ?w (queued q))" by (simp add: drop_butlast)
  have tk: "take ?w (butlast (queued q)) = take ?w (queued q)" using lt by (simp add: take_butlast)
  show "typed_of ?q = (typed_of q)\<lparr>line := butlast (line (typed_of q))\<rparr>"
    by (simp add: typed_of_def b dr tk)
  show "input_ok ?q"
    using ok lt by (auto simp: input_ok_def ring_ok_def n b dr queued_length dest: in_set_butlastD)
  have "last (line (typed_of q)) = last (queued q)" using lt by (simp add: typed_of_def)
  also have "\<dots> = queued q ! (length (queued q) - 1)" using lt by (intro last_conv_nth) auto
  also have "\<dots> = in_at q (in_e q - 1)"
  proof -
    let ?n = "unat (in_e q - in_r q)"
    have n0: "0 < ?n" using lt by (simp add: queued_length)
    have e: "in_r q + of_nat (?n - 1) = in_e q - 1" using n0 by (simp add: of_nat_diff)
    have "queued q ! (?n - 1) = in_buf q ! (unat (in_r q + of_nat (?n - 1)) mod length (in_buf q))"
      using n0 by (simp only: queued_def ring_content_def) simp
    also have "\<dots> = in_at q (in_e q - 1)" unfolding e using ok by (simp add: in_at_def input_ok_def ring_ok_def)
    finally show ?thesis by (simp add: queued_length)
  qed
  finally show "in_at q (in_e q - 1) = last (line (typed_of q))" by simp
qed

lemma wp_kill_line:
  assumes "\<not> panicked s" "input_ok (input s)" "length (line (typed_of (input s))) < n"
    and "\<And>t q. shown (s\<lparr>input := q\<rparr>) t \<Longrightarrow> input_ok q \<Longrightarrow> typed_of q = (typed_of (input s))\<lparr>line := []\<rparr> \<Longrightarrow> Q () t"
  shows "wp (kill_line n) Q s"
  using assms
proof (induction n arbitrary: s)
  case (Suc n)
  let ?q = "input s"
  show ?case
  proof (cases "in_e ?q = in_w ?q")
    case True
    then have "line (typed_of ?q) = []" using typed_lengths(4) [OF Suc.prems(2)] by simp
    then have "typed_of ?q = (typed_of ?q)\<lparr>line := []\<rparr>" by simp
    then have "Q () s" using Suc.prems(4) [of ?q s] Suc.prems(2) by simp
    then show ?thesis using True by simp
  next
    case False
    note b = input_back [OF Suc.prems(2) False]
    let ?u = "s\<lparr>input := ?q\<lparr>in_e := in_e ?q - 1\<rparr>\<rparr>"
    have ne: "line (typed_of ?q) \<noteq> []" using typed_lengths(4) [OF Suc.prems(2)] False by simp
    have "10 \<notin> set (line (typed_of ?q))" using Suc.prems(2) by (simp add: input_ok_def typed_of_def)
    then have nl: "in_at ?q (in_e ?q - 1) \<noteq> 10" using ne b(3) last_in_set [of "line (typed_of ?q)"] by metis
    have "wp (consputc BACKSPACE) (\<lambda>_. wp (kill_line n) Q) ?u"
    proof (rule wp_prints [of "{}"])
      fix t assume t: "shown ?u t"
      note f = shown_fields [OF t]
      have it: "input t = ?q\<lparr>in_e := in_e ?q - 1\<rparr>" using f(3) by simp
      show "wp (kill_line n) Q t"
      proof (rule Suc.IH)
        show "\<not> panicked t" using f(1) Suc.prems(1) by simp
        show "input_ok (input t)" unfolding it by (rule b(1))
        have "line (typed_of (input t)) = butlast (line (typed_of ?q))" unfolding it b(2) by simp
        then show "length (line (typed_of (input t))) < n" using Suc.prems(3) ne by (cases "line (typed_of ?q)") simp_all
        fix v q
        assume v: "shown (t\<lparr>input := q\<rparr>) v" "input_ok q" "typed_of q = (typed_of (input t))\<lparr>line := []\<rparr>"
        have "shown (s\<lparr>input := q\<rparr>) (t\<lparr>input := q\<rparr>)" using shown_input [OF t, of q] by simp
        then have "shown (s\<lparr>input := q\<rparr>) v" using v(1) by (rule shown_trans)
        moreover have "typed_of q = (typed_of ?q)\<lparr>line := []\<rparr>" using v(3) unfolding it b(2) by simp
        ultimately show "Q () v" using v(2) by (intro Suc.prems(4))
      qed
    qed (use Suc.prems(1) in simp_all)
    then show ?thesis using False nl by (simp add: set_input_def)
  qed
qed simp

text \<open>The keyboard interrupt: what has been typed, and who still sleeps for input.\<close>

definition sleepers :: "'z cons_state_scheme \<Rightarrow> nat set" where
  "sleepers s = {j. j < length (ptable s) \<and> p_state (ptable s ! j) = SLEEPING \<and> p_chan (ptable s ! j) = Some ChInput}"

text \<open>What an interrupt leaves to the process that it interrupts.\<close>

definition procs_kept :: "'z cons_state_scheme \<Rightarrow> 'z cons_state_scheme \<Rightarrow> bool" where
  "procs_kept s t \<longleftrightarrow> inodes t = inodes s \<and> cur t = cur s \<and> map p_killed (ptable t) = map p_killed (ptable s)"

lemma procs_kept_refl [simp]: "procs_kept s s"
  by (simp add: procs_kept_def)

lemma wake_killed: "map (p_killed \<circ> wake ch) ps = map p_killed ps"
  by (simp add: wake_def)

lemma procs_kept_trans: "procs_kept s t \<Longrightarrow> procs_kept t u \<Longrightarrow> procs_kept s u"
  by (simp add: procs_kept_def)

lemma shown_procs_kept: "shown s t \<Longrightarrow> procs_kept s t"
proof -
  assume "shown s t"
  then have t: "t = s\<lparr>serial := serial t, crt := crt t, cursor := cursor t\<rparr>" by (simp add: shown_def)
  show ?thesis unfolding procs_kept_def by (subst t, simp)+
qed

definition typing :: "'z cons_state_scheme \<Rightarrow> typed \<Rightarrow> 'z cons_state_scheme \<Rightarrow> bool" where
  "typing s x t \<longleftrightarrow> \<not> panicked t \<and> held t = held s \<and> input_ok (input t) \<and> typed_of (input t) = x \<and>
     procs_kept s t \<and> sleepers t \<subseteq> sleepers s \<and> (entered x \<noteq> entered (typed_of (input s)) \<longrightarrow> sleepers t = {})"

lemma sleepers_wake: "sleepers (s\<lparr>ptable := map (wake ChInput) (ptable s)\<rparr>) = {}"
  by (auto simp: sleepers_def wake_def split: if_splits)

lemma shown_sleepers: "shown s t \<Longrightarrow> sleepers t = sleepers s"
  by (simp add: sleepers_def shown_fields)

lemma typing_shown:
  assumes "shown (s\<lparr>input := q\<rparr>) t" "\<not> panicked s" "input_ok q" "typed_of q = x" "entered x = entered (typed_of (input s))"
  shows "typing s x t"
proof -
  have "sleepers t = sleepers s" using shown_sleepers [OF assms(1)] by (simp add: sleepers_def)
  moreover have "procs_kept s t" using shown_procs_kept [OF assms(1)] by (simp add: procs_kept_def)
  ultimately show ?thesis using shown_fields [OF assms(1)] assms(2-5) by (simp add: typing_def)
qed

lemma typed_store:
  assumes "input_ok q" "\<not> in_full q"
  shows "queued (in_store a q) = queued q @ [a]" "length (in_buf (in_store a q)) = INPUT_BUF"
    "unat (in_e (in_store a q) - in_r q) = Suc (unat (in_e q - in_r q))" "unat (in_e (in_store a q) - in_r q) \<le> INPUT_BUF"
proof -
  have r: "ring_ok q" using assms(1) by (simp add: input_ok_def)
  have p: "ring_ok (in_store a q)" "queued (in_store a q) = queued q @ [a]"
    using input_fifo.put_content [OF r assms(2)] by simp_all
  show "queued (in_store a q) = queued q @ [a]" by (rule p(2))
  show "length (in_buf (in_store a q)) = INPUT_BUF" "unat (in_e (in_store a q) - in_r q) \<le> INPUT_BUF"
    using p(1) by (simp_all add: ring_ok_def in_store_def)
  show "unat (in_e (in_store a q) - in_r q) = Suc (unat (in_e q - in_r q))"
    using arg_cong [OF p(2), of length] by (simp add: queued_length) (simp add: in_store_def)
qed

lemma full_typed: "input_ok q \<Longrightarrow> in_full q \<longleftrightarrow> length (entered (typed_of q) @ line (typed_of q)) = INPUT_BUF"
  unfolding typed_lengths(3) by (rule input_fifo.full_iff) (simp add: input_ok_def)

lemma wp_store_char:
  assumes s: "\<not> panicked s" "Lcons \<notin> held s" "Lptable \<notin> held s" and ok: "input_ok (input s)" and nf: "\<not> in_full (input s)"
    and c: "c < 256"
  shows "wp (thn (set_input (in_store (of_nat c))) (
       thn (consputc c) (
       bnd (asks input) (\<lambda>q.
       whenP (c = 10 \<or> c = ctrl CHR ''D'' \<or> in_e q = in_r q + of_nat INPUT_BUF) (
         thn (set_input (\<lambda>q. q\<lparr>in_w := in_e q\<rparr>)) (wakeup ChInput))))))
     (\<lambda>_. typing s (let x = typed_of (input s); l = line x @ [of_nat c] in
        if c = 10 \<or> c = ctrl CHR ''D'' \<or> length (entered x @ l) = INPUT_BUF then \<lparr>entered = entered x @ l, line = []\<rparr> else x\<lparr>line := l\<rparr>)) s"
proof -
  let ?q = "input s" and ?a = "of_nat c :: u8"
  let ?p = "in_store ?a ?q" and ?x = "typed_of (input s)"
  let ?w = "unat (in_w ?q - in_r ?q)"
  note st = typed_store [OF ok nf, of ?a]
  have wr: "in_w ?p = in_w ?q" "in_r ?p = in_r ?q" by (simp_all add: in_store_def)
  have le: "?w \<le> unat (in_e ?q - in_r ?q)" using ok by (simp add: input_ok_def)
  have tp: "typed_of ?p = ?x\<lparr>line := line ?x @ [?a]\<rparr>" using le by (simp add: typed_of_def st(1) wr queued_length)
  have total: "entered ?x @ line ?x @ [?a] = queued ?p" using typed_lengths(3) [OF ok] st(1) by simp
  have fl: "in_e ?p = in_r ?p + of_nat INPUT_BUF \<longleftrightarrow> length (entered ?x @ line ?x @ [?a]) = INPUT_BUF"
  proof -
    have "in_e ?p = in_r ?p + of_nat INPUT_BUF \<longleftrightarrow> in_e ?p - in_r ?p = of_nat INPUT_BUF" by (auto simp: algebra_simps)
    also have "\<dots> \<longleftrightarrow> unat (in_e ?p - in_r ?p) = INPUT_BUF" by (simp add: word_unat_eq_iff INPUT_BUF_def)
    finally show ?thesis unfolding total queued_length .
  qed
  let ?r = "let x = typed_of (input s); l = line x @ [?a] in
        if c = 10 \<or> c = ctrl CHR ''D'' \<or> length (entered x @ l) = INPUT_BUF then \<lparr>entered = entered x @ l, line = []\<rparr> else x\<lparr>line := l\<rparr>"
  let ?W = "\<lambda>q. whenP (c = 10 \<or> c = ctrl CHR ''D'' \<or> in_e q = in_r q + of_nat INPUT_BUF) (
         thn (set_input (\<lambda>q. q\<lparr>in_w := in_e q\<rparr>)) (wakeup ChInput))"
  have "wp (consputc c) (\<lambda>_. wp (bnd (asks input) ?W) (\<lambda>_. typing s ?r)) (s\<lparr>input := ?p\<rparr>)"
  proof (rule wp_prints [of "{}"])
    fix t assume t: "shown (s\<lparr>input := ?p\<rparr>) t"
    note f = shown_fields [OF t, simplified]
    have "wp (?W (input t)) (\<lambda>_. typing s ?r) t"
    proof (cases "c = 10 \<or> c = ctrl CHR ''D'' \<or> in_e ?p = in_r ?p + of_nat INPUT_BUF")
      case True
      let ?e = "?p\<lparr>in_w := in_e ?p\<rparr>"
      have qe: "queued ?e = queued ?p" by (simp add: queued_def)
      have te: "typed_of ?e = \<lparr>entered = entered ?x @ line ?x @ [?a], line = []\<rparr>"
        unfolding total by (simp add: typed_of_def qe wr) (simp add: queued_def in_store_def)
      have ie: "input_ok ?e"
        using st(2,4) by (simp add: input_ok_def ring_ok_def qe wr) (simp add: queued_def in_store_def)
      have "typing s \<lparr>entered = entered ?x @ line ?x @ [?a], line = []\<rparr>
          (t\<lparr>input := ?e, ptable := map (wake ChInput) (ptable t)\<rparr>)"
        using s(1) ie te f sleepers_wake [of "t\<lparr>input := ?e\<rparr>"] shown_procs_kept [OF t] wake_killed
        by (simp add: typing_def procs_kept_def)
      moreover have "t\<lparr>input := ?e\<rparr>\<lparr>ptable := map (wake ChInput) (ptable t)\<rparr> = t\<lparr>input := ?e, ptable := map (wake ChInput) (ptable t)\<rparr>" by simp
      ultimately have "typing s \<lparr>entered = entered ?x @ line ?x @ [?a], line = []\<rparr>
          (t\<lparr>input := ?e\<rparr>\<lparr>ptable := map (wake ChInput) (ptable t)\<rparr>)" by (simp only:)
      then show ?thesis using True fl f s(3) by (auto simp: set_input_def Let_def)
    next
      case False
      then have n10: "c \<noteq> 10" by simp
      have a10: "?a \<noteq> 10"
      proof
        assume "?a = 10"
        then have "unat ?a = unat (10 :: u8)" by simp
        then show False using c n10 by (simp add: unat_of_nat take_bit_nat_eq_self)
      qed
      have "input_ok ?p"
        using ok st(2,4) le a10 st(3) by (simp add: input_ok_def ring_ok_def wr st(1) queued_length)
      then have "typing s (?x\<lparr>line := line ?x @ [?a]\<rparr>) t"
        by (intro typing_shown [OF t s(1) _ tp]) simp_all
      then show ?thesis using False fl f by (simp add: Let_def)
    qed
    then show "wp (bnd (asks input) ?W) (\<lambda>_. typing s ?r) t" by (simp only: wp_bnd wp_asks)
  qed (use s in simp_all)
  then show ?thesis by (simp only: wp_thn set_input_def wp_upd)
qed

lemma typing_trans:
  assumes "typing s x t" "typing t y u"
  shows "typing s y u"
proof -
  have "procs_kept s u" using assms procs_kept_trans [of s t u] by (simp add: typing_def)
  moreover have "sleepers u \<subseteq> sleepers s" using assms by (auto simp: typing_def)
  moreover have "sleepers u = {}" if "entered y \<noteq> entered (typed_of (input s))"
    using assms that by (cases "entered x = entered (typed_of (input s))") (auto simp: typing_def)
  ultimately show ?thesis using assms by (simp add: typing_def)
qed

lemma typing_refl: "\<not> panicked s \<Longrightarrow> input_ok (input s) \<Longrightarrow> typing s (typed_of (input s)) s"
  by (simp add: typing_def)

lemma key_store:
  assumes "input_ok (input s)" "\<not> in_full (input s)" "c \<noteq> 0" "c \<noteq> ctrl CHR ''P''" "c \<noteq> ctrl CHR ''U''"
    "c \<noteq> ctrl CHR ''H''" "c \<noteq> 127"
  shows "key c (typed_of (input s)) = (let c = if c = 13 then 10 else c in let x = typed_of (input s); l = line x @ [of_nat c] in
        if c = 10 \<or> c = ctrl CHR ''D'' \<or> length (entered x @ l) = INPUT_BUF then \<lparr>entered = entered x @ l, line = []\<rparr> else x\<lparr>line := l\<rparr>)"
proof -
  have "length (entered (typed_of (input s)) @ line (typed_of (input s))) \<noteq> INPUT_BUF"
    using full_typed [OF assms(1)] assms(2) by simp
  then show ?thesis using assms(3-) unfolding key_def Let_def by (simp only: if_False simp_thms)
qed

lemma wp_console_char:
  assumes s: "\<not> panicked s" "Lcons \<notin> held s" "Lptable \<notin> held s" and ok: "input_ok (input s)" and c: "c < 256"
  shows "wp (console_char pcs c) (\<lambda>_. typing s (key c (typed_of (input s)))) s"
proof -
  let ?q = "input s" and ?x = "typed_of (input s)"
  have cap: "length (line ?x) < Suc INPUT_BUF"
  proof -
    have "length (entered ?x) + length (line ?x) = length (queued ?q)" using typed_lengths(3) [OF ok] by (metis length_append)
    also have "\<dots> \<le> INPUT_BUF" using ok by (simp add: queued_length input_ok_def ring_ok_def)
    finally show ?thesis by simp
  qed
  have d: "ctrl CHR ''P'' = 16" "ctrl CHR ''U'' = 21" "ctrl CHR ''H'' = 8" "ctrl CHR ''D'' = 4" by (simp_all add: ctrl_def)
  consider (P) "c = ctrl CHR ''P''" | (U) "c = ctrl CHR ''U''" | (H) "c = ctrl CHR ''H'' \<or> c = 127"
    | (lost) "c \<noteq> ctrl CHR ''P''" "c \<noteq> ctrl CHR ''U''" "\<not> (c = ctrl CHR ''H'' \<or> c = 127)" "c = 0 \<or> in_full ?q"
    | (store) "c \<noteq> ctrl CHR ''P''" "c \<noteq> ctrl CHR ''U''" "\<not> (c = ctrl CHR ''H'' \<or> c = 127)" "c \<noteq> 0" "\<not> in_full ?q"
    by blast
  then show ?thesis
  proof cases
    case P
    have "wp (procdump pcs) (\<lambda>_. typing s ?x) s"
    proof (rule wp_prints [OF prints_procdump s(1)])
      fix t assume "shown s t"
      then have "shown (s\<lparr>input := input s\<rparr>) t" by simp
      then show "typing s ?x t" using s(1) ok by (rule typing_shown) simp_all
    qed (use s in simp)
    then show ?thesis using P by (simp add: console_char_def key_def)
  next
    case U
    have "wp (kill_line (Suc INPUT_BUF)) (\<lambda>_. typing s (?x\<lparr>line := []\<rparr>)) s"
      by (rule wp_kill_line [OF s(1) ok cap]) (rule typing_shown [OF _ s(1)], simp_all)
    then show ?thesis using U by (simp add: console_char_def key_def d del: kill_line.simps)
  next
    case H
    then have k: "key c ?x = ?x\<lparr>line := butlast (line ?x)\<rparr>" by (auto simp: key_def d)
    show ?thesis
    proof (cases "in_e ?q = in_w ?q")
      case True
      then have "key c ?x = ?x" using typed_lengths(4) [OF ok] k by simp
      then show ?thesis using typing_refl [OF s(1) ok] H True by (auto simp: console_char_def d)
    next
      case False
      note b = input_back [OF ok False]
      have "wp (consputc BACKSPACE) (\<lambda>_. typing s (key c ?x)) (s\<lparr>input := ?q\<lparr>in_e := in_e ?q - 1\<rparr>\<rparr>)"
      proof (rule wp_prints [of "{}"])
        fix t assume "shown (s\<lparr>input := ?q\<lparr>in_e := in_e ?q - 1\<rparr>\<rparr>) t"
        then show "typing s (key c ?x) t" using s(1) b(1) b(2) unfolding k by (rule typing_shown) simp
      qed (use s in simp_all)
      then show ?thesis using H False by (auto simp: console_char_def d set_input_def)
    qed
  next
    case lost
    then have "key c ?x = ?x" using full_typed [OF ok] by (auto simp: key_def)
    then show ?thesis using typing_refl [OF s(1) ok] lost by (auto simp: console_char_def)
  next
    case store
    have m: "(if c = 13 then 10 else c) < 256" using c by simp
    have "c \<noteq> ctrl CHR ''H''" "c \<noteq> 127" using store(3) by simp_all
    from wp_store_char [OF s ok store(5) m] key_store [OF ok store(5,4,1,2) this] show ?thesis
      using store
      unfolding console_char_def Let_def by (simp only: wp_bnd wp_asks whenP_def if_True if_False simp_thms)
  qed
qed

lemma wp_console_chars:
  assumes "\<not> panicked s" "Lcons \<notin> held s" "Lptable \<notin> held s" "input_ok (input s)" "\<forall>c \<in> set cs. c < 256"
  shows "wp (foreach cs (console_char pcs)) (\<lambda>_. typing s (fold key cs (typed_of (input s)))) s"
  using assms
proof (induction cs arbitrary: s)
  case Nil
  then show ?case by (simp add: typing_refl)
next
  case (Cons c cs)
  have "wp (console_char pcs c) (\<lambda>_. wp (foreach cs (console_char pcs)) (\<lambda>_. typing s (fold key (c # cs) (typed_of (input s))))) s"
  proof (rule wp_mono [OF wp_console_char [OF Cons.prems(1-4)]])
    show "c < 256" using Cons.prems(5) by simp
    fix t assume t: "typing s (key c (typed_of (input s))) t"
    have "wp (foreach cs (console_char pcs)) (\<lambda>_. typing t (fold key cs (typed_of (input t)))) t"
      using t Cons.prems by (intro Cons.IH) (simp_all add: typing_def)
    then show "wp (foreach cs (console_char pcs)) (\<lambda>_. typing s (fold key (c # cs) (typed_of (input s)))) t"
    proof (rule wp_mono)
      fix u assume "typing t (fold key cs (typed_of (input t))) u"
      moreover have "typed_of (input t) = key c (typed_of (input s))" using t by (simp add: typing_def)
      ultimately have "typing t (fold key (c # cs) (typed_of (input s))) u" by simp
      with t show "typing s (fold key (c # cs) (typed_of (input s))) u" by (rule typing_trans)
    qed
  qed
  then show ?case by simp
qed

text \<open>The whole interrupt, with what it leaves to the process it interrupts.\<close>

lemma wp_consoleintr:
  assumes "\<not> panicked s" "held s \<inter> {Linput, Lcons, Lptable} = {}" "input_ok (input s)" "\<forall>c \<in> set cs. c < 256"
  shows "wp (consoleintr pcs cs) (\<lambda>_. typing s (fold key cs (typed_of (input s)))) s"
proof -
  let ?u = "s\<lparr>held := insert Linput (held s)\<rparr>"
  have "wp (foreach cs (console_char pcs)) (\<lambda>_. typing ?u (fold key cs (typed_of (input ?u)))) ?u"
    using assms by (intro wp_console_chars) auto
  then have "wp (foreach cs (console_char pcs)) (\<lambda>_. wp (unlock Linput) (\<lambda>_. typing s (fold key cs (typed_of (input s))))) ?u"
    by (rule wp_mono) (use assms(2) in \<open>auto simp: typing_def sleepers_def procs_kept_def\<close>)
  then show ?thesis using assms(2) by (simp add: consoleintr_def)
qed

text \<open>C18: the keyboard interrupt implements the line discipline: after any sequence of keys the ring
  buffer and its counters stand for what \<open>key\<close> makes of the text, the buffer stays well formed, no lock
  is left, and when a line has been entered nobody sleeps for input any more.\<close>

theorem consoleintr_line_discipline:
  assumes "\<not> panicked s" "held s \<inter> {Linput, Lcons, Lptable} = {}" "input_ok (input s)" "\<forall>c \<in> set cs. c < 256"
  shows "wp (consoleintr pcs cs) (\<lambda>_ t. held t = held s \<and> input_ok (input t) \<and>
     typed_of (input t) = fold key cs (typed_of (input s)) \<and>
     (entered (typed_of (input t)) \<noteq> entered (typed_of (input s)) \<longrightarrow>
        (\<forall>j < length (ptable t). \<not> (p_state (ptable t ! j) = SLEEPING \<and> p_chan (ptable t ! j) = Some ChInput)))) s"
  by (rule wp_mono [OF wp_consoleintr [OF assms]]) (auto simp: typing_def sleepers_def)

definition console_open :: cons_state where
  "console_open = fs_state.extend root_open
     \<lparr>input = \<lparr>in_buf = replicate 128 0, in_r = 0, in_w = 0, in_e = 0\<rparr>, cons_locking = True, panicked = False, uart_on = False,
      serial = [], crt = replicate 2000 0, cursor = 0, devices = {1}\<rparr>"

lemma console_open_simps [simp]:
  "held console_open = {}" "cur console_open = Some 0" "ptable console_open = ptable two_threads" "inodes console_open = inodes root_open"
  "input console_open = \<lparr>in_buf = replicate 128 0, in_r = 0, in_w = 0, in_e = 0\<rparr>" "\<not> panicked console_open"
  by (simp_all add: console_open_def fs_state.defs root_open_def bio_state.defs small_fs_def cold_cache_def)

text \<open>The user types \<open>lx\<close>, takes back the \<open>x\<close>, and enters the line.\<close>

theorem consoleintr_line_discipline_witness:
  "wp (consoleintr (\<lambda>_. []) [108, 120, 127, 13]) (\<lambda>_ t. typed_of (input t) = \<lparr>entered = [108, 10], line = []\<rparr>) console_open"
proof -
  have x: "typed_of (input console_open) = \<lparr>entered = [], line = []\<rparr>" by (simp add: typed_of_def queued_def ring_content_def)
  have k: "fold key [108, 120, 127, 13] \<lparr>entered = [], line = []\<rparr> = \<lparr>entered = [108, 10], line = []\<rparr>"
    by (simp add: key_def ctrl_def INPUT_BUF_def Let_def)
  have ok: "input_ok (input console_open)" by (simp add: input_ok_def ring_ok_def queued_def ring_content_def INPUT_BUF_def)
  have "wp (consoleintr (\<lambda>_. []) [108, 120, 127, 13]) (\<lambda>_ t. held t = held console_open \<and> input_ok (input t) \<and>
     typed_of (input t) = fold key [108, 120, 127, 13] (typed_of (input console_open)) \<and>
     (entered (typed_of (input t)) \<noteq> entered (typed_of (input console_open)) \<longrightarrow>
        (\<forall>j < length (ptable t). \<not> (p_state (ptable t ! j) = SLEEPING \<and> p_chan (ptable t ! j) = Some ChInput)))) console_open"
    by (rule consoleintr_line_discipline) (use ok in simp_all)
  then show ?thesis unfolding x k by (rule wp_mono) blast
qed

section \<open>Reading\<close>

text \<open>What a reader of at most \<open>n\<close> bytes takes: up to a newline or \<open>Ctrl-D\<close>, which ends the read and is
  consumed only when nothing has been read.  \<open>None\<close> when it has to wait for more.\<close>

fun take_line :: "nat \<Rightarrow> u8 list \<Rightarrow> u8 list \<Rightarrow> (u8 list \<times> u8 list) option" where
  "take_line 0 acc xs = Some (acc, xs)"
| "take_line (Suc n) acc [] = None"
| "take_line (Suc n) acc (c # xs) =
     (if unat c = ctrl CHR ''D'' then Some (acc, if acc = [] then xs else c # xs)
      else if c = 10 then Some (acc @ [c], xs)
      else take_line n (acc @ [c]) xs)"

lemma input_next:
  assumes ok: "input_ok q" and ne: "in_r q \<noteq> in_w q"
  shows "input_ok (q\<lparr>in_r := in_r q + 1\<rparr>)"
    "typed_of q = \<lparr>entered = in_at q (in_r q) # entered (typed_of (q\<lparr>in_r := in_r q + 1\<rparr>)), line = line (typed_of (q\<lparr>in_r := in_r q + 1\<rparr>))\<rparr>"
proof -
  let ?q = "q\<lparr>in_r := in_r q + 1\<rparr>"
  have le: "unat (in_w q - in_r q) \<le> unat (in_e q - in_r q)" using ok by (simp add: input_ok_def)
  have w: "unat (in_w q - in_r q) = Suc (unat (in_w q - in_r q - 1))" using ne by (intro unat_dec) simp
  have c: "in_w q - (in_r q + 1) = in_w q - in_r q - 1" by simp
  have e: "\<not> in_e q = in_r q" using le w by auto
  have r: "ring_ok q" using ok by (simp add: input_ok_def)
  have g: "ring_ok ?q" "queued q = in_at q (in_r q) # queued ?q" using input_fifo.get_content [OF r e] by simp_all
  have n: "unat (in_e q - in_r q) = Suc (unat (in_e q - (in_r q + 1)))"
    using arg_cong [OF g(2), of length] by (simp add: queued_length)
  show "input_ok ?q" using ok g w n by (simp add: input_ok_def c)
  show "typed_of q = \<lparr>entered = in_at q (in_r q) # entered (typed_of ?q), line = line (typed_of ?q)\<rparr>"
    using g(2) w by (simp add: typed_of_def c)
qed

definition take_rest :: "nat \<Rightarrow> nat \<Rightarrow> u8 list \<Rightarrow> 'z cons_state_scheme \<Rightarrow> u8 list option + u8 list \<Rightarrow> 'z cons_state_scheme \<Rightarrow> bool" where
  "take_rest i n acc s r t \<longleftrightarrow> input_ok (input t) \<and> line (typed_of (input t)) = line (typed_of (input s)) \<and>
     (case take_line n acc (entered (typed_of (input s))) of
        Some (bs, rest) \<Rightarrow> r = Inl (Some bs) \<and> entered (typed_of (input t)) = rest \<and> held t = held s - {Linput} \<and>
          inodes t = (inodes s)[i := (inodes s ! i)\<lparr>i_busy := True\<rparr>]
      | None \<Rightarrow> r = Inr (acc @ entered (typed_of (input s))) \<and> entered (typed_of (input t)) = [] \<and>
          (case cur t of None \<Rightarrow> False | Some c \<Rightarrow> p_state (ptable t ! c) = SLEEPING \<and> p_chan (ptable t ! c) = Some ChInput))"

lemma wp_cread_done:
  assumes "Linput \<in> held s" "Licache \<notin> held s" "1 \<le> i_ref (inodes s ! i)" "\<not> i_busy (inodes s ! i)" "i_valid (inodes s ! i)" "i < length (inodes s)"
    and "Q (Inl r) (s\<lparr>inodes := (inodes s)[i := (inodes s ! i)\<lparr>i_busy := True\<rparr>], held := held s - {Linput}\<rparr>)"
  shows "wp (cread_done i r) Q s"
proof -
  have h: "insert Licache (held s - {Linput}) - {Licache} = held s - {Linput}" using assms(2) by auto
  show ?thesis using assms h by (simp add: cread_done_def ilock_def get_inode_def set_inode_def)
qed

lemma wp_consoleread_loop:
  assumes "held s = {Linput}" "1 \<le> i_ref (inodes s ! i)" "\<not> i_busy (inodes s ! i)" "i_valid (inodes s ! i)" "i < length (inodes s)"
    and "input_ok (input s)" "cur s = Some c" "c < length (ptable s)" "\<not> p_killed (ptable s ! c)"
  shows "wp (consoleread_loop i n acc) (take_rest i n acc s) s"
  using assms
proof (induction n arbitrary: acc s)
  case 0
  have "wp (cread_done i (Some acc)) (take_rest i 0 acc s) s"
    by (rule wp_cread_done) (use 0 in \<open>auto simp: take_rest_def\<close>)
  then show ?case by simp
next
  case (Suc n)
  let ?q = "input s"
  show ?case
  proof (cases "in_r ?q = in_w ?q")
    case True
    then have e: "entered (typed_of ?q) = []" using typed_lengths(1) [OF Suc.prems(6)] by simp
    have "wlp (sleep ChInput Linput) (take_rest i (Suc n) acc s) (\<lambda>_. wp (ret (Inr acc)) (take_rest i (Suc n) acc s)) s"
      using Suc.prems e by (subst wlp_sleep [of _ c]) (simp_all add: take_rest_def asleep_def)
    then show ?thesis using True Suc.prems by simp
  next
    case False
    let ?x = "in_at ?q (in_r ?q)" and ?t = "s\<lparr>input := ?q\<lparr>in_r := in_r ?q + 1\<rparr>\<rparr>"
    note nx = input_next [OF Suc.prems(6) False]
    have en: "entered (typed_of ?q) = ?x # entered (typed_of (input ?t))" "line (typed_of ?q) = line (typed_of (input ?t))"
      by (subst nx(2), simp)+
    have done1: "wp (cread_done i (Some bs)) (take_rest i (Suc n) acc s) ?t"
      if "take_line (Suc n) acc (entered (typed_of ?q)) = Some (bs, entered (typed_of (input ?t)))" for bs
      by (rule wp_cread_done) (use Suc.prems nx(1) en that in \<open>auto simp: take_rest_def\<close>)
    consider (eof0) "unat ?x = ctrl CHR ''D''" "acc = []" | (eof) "unat ?x = ctrl CHR ''D''" "acc \<noteq> []"
      | (nl) "unat ?x \<noteq> ctrl CHR ''D''" "?x = 10" | (more) "unat ?x \<noteq> ctrl CHR ''D''" "?x \<noteq> 10" by blast
    then show ?thesis
    proof cases
      case eof0
      then show ?thesis using False done1 [of acc] en by (simp add: set_input_def Let_def)
    next
      case eof
      have "wp (cread_done i (Some acc)) (take_rest i (Suc n) acc s) s"
        by (rule wp_cread_done) (use Suc.prems en eof in \<open>auto simp: take_rest_def\<close>)
      then show ?thesis using False eof by (simp add: Let_def)
    next
      case nl
      then show ?thesis using False done1 [of "acc @ [?x]"] en by (simp add: set_input_def Let_def)
    next
      case more
      have "wp (consoleread_loop i n (acc @ [?x])) (take_rest i n (acc @ [?x]) ?t) ?t"
        using Suc.prems nx(1) by (intro Suc.IH) simp_all
      then have "wp (consoleread_loop i n (acc @ [?x])) (take_rest i (Suc n) acc s) ?t"
        by (rule wp_mono) (use more en in \<open>simp add: take_rest_def split: option.splits prod.splits\<close>)
      then show ?thesis using False more by (simp add: set_input_def Let_def)
    qed
  qed
qed

text \<open>\<open>consoleread\<close> gives a reader the text that has been entered, no more than it asked for, up to and
  including the first newline, and never text of the line that is still being edited; \<open>Ctrl-D\<close> ends the
  read and stays in the buffer, so that a read that has bytes returns them first.  When no line is
  complete, the reader goes to sleep on the input after taking what there is.\<close>

theorem consoleread_takes_line:
  assumes "held s = {}" "i < length (inodes s)" "1 \<le> i_ref (inodes s ! i)" "i_busy (inodes s ! i)" "i_valid (inodes s ! i)"
    and "input_ok (input s)" "cur s = Some c" "c < length (ptable s)" "\<not> p_killed (ptable s ! c)"
  shows "wp (consoleread i n) (\<lambda>r t. input_ok (input t) \<and> line (typed_of (input t)) = line (typed_of (input s)) \<and>
     (case take_line n [] (entered (typed_of (input s))) of
        Some (bs, rest) \<Rightarrow> r = Inl (Some bs) \<and> entered (typed_of (input t)) = rest \<and> held t = {} \<and> inodes t = inodes s
      | None \<Rightarrow> r = Inr (entered (typed_of (input s))) \<and> entered (typed_of (input t)) = [] \<and>
          (case cur t of None \<Rightarrow> False | Some c \<Rightarrow> p_state (ptable t ! c) = SLEEPING \<and> p_chan (ptable t ! c) = Some ChInput))) s"
proof -
  let ?t = "s\<lparr>inodes := (inodes s)[i := (inodes s ! i)\<lparr>i_busy := False\<rparr>], ptable := map (wake (ChInode i)) (ptable s), held := {Linput}\<rparr>"
  have b: "(inodes s ! i)\<lparr>i_busy := True\<rparr> = inodes s ! i" using assms(4) by (cases "inodes s ! i") simp
  have "wp (consoleread_loop i n []) (take_rest i n [] ?t) ?t"
    by (rule wp_consoleread_loop [where c = c]) (use assms in simp_all)
  then have "wp (consoleread_loop i n []) (\<lambda>r t. input_ok (input t) \<and> line (typed_of (input t)) = line (typed_of (input s)) \<and>
     (case take_line n [] (entered (typed_of (input s))) of
        Some (bs, rest) \<Rightarrow> r = Inl (Some bs) \<and> entered (typed_of (input t)) = rest \<and> held t = {} \<and> inodes t = inodes s
      | None \<Rightarrow> r = Inr (entered (typed_of (input s))) \<and> entered (typed_of (input t)) = [] \<and>
          (case cur t of None \<Rightarrow> False | Some c \<Rightarrow> p_state (ptable t ! c) = SLEEPING \<and> p_chan (ptable t ! c) = Some ChInput))) ?t"
    by (rule wp_mono) (use assms(2) b in \<open>auto simp: take_rest_def split: option.splits\<close>)
  then show ?thesis
    using assms(1-4) by (simp add: consoleread_def iunlock_def get_inode_def set_inode_def del: consoleread_loop.simps)
qed

text \<open>A newline on the last line of an empty screen scrolls.\<close>

theorem cgaputc_screen_witness:
  "wp (cgaputc 10) (\<lambda>_ t. unat (cursor t) = 1840) (console_open\<lparr>cursor := 1900\<rparr>)"
proof -
  let ?s = "console_open\<lparr>cursor := 1900\<rparr>"
  have c: "crt ?s = replicate 2000 0" "cursor ?s = 1900" by (simp_all add: console_open_def fs_state.defs)
  have "wp (cgaputc 10) (\<lambda>_ t. unat (cursor t) < 1920 \<and> length (crt t) = 2000 \<and> drop 1920 (crt t) = drop 1920 (crt ?s) \<and>
     (case cga_advance 10 (crt ?s, unat (cursor ?s)) of (scr, pos) \<Rightarrow>
        if pos < 1920 then unat (cursor t) = pos \<and> take 1920 (crt t) = (take 1920 scr)[pos := 0x0720]
        else unat (cursor t) = 1840 \<and> take 1920 (crt t) = (drop 80 (take 1920 scr) @ replicate 80 0)[1840 := 0x0720])) ?s"
    by (rule cgaputc_screen) (simp_all only: c length_replicate, simp)
  then show ?thesis by (rule wp_mono) (simp add: cga_advance_def c)
qed

text \<open>The line \<open>hi\<close> has been entered and \<open>y\<close> typed after it.\<close>

definition line_ready :: cons_state where
  "line_ready = console_open\<lparr>input := \<lparr>in_buf = [104, 105, 10, 121] @ replicate 124 0, in_r = 0, in_w = 3, in_e = 4\<rparr>\<rparr>"

lemma line_ready_typed: "typed_of (input line_ready) = \<lparr>entered = [104, 105, 10], line = [121]\<rparr>" "input_ok (input line_ready)"
proof -
  have n: "[0..<4] = [0, 1, 2, 3]" by (simp add: upt_rec)
  have q: "queued (input line_ready) = [104, 105, 10, 121]"
    by (simp add: line_ready_def queued_def ring_content_def n)
  show "typed_of (input line_ready) = \<lparr>entered = [104, 105, 10], line = [121]\<rparr>"
    unfolding typed_of_def q by (simp add: line_ready_def)
  show "input_ok (input line_ready)"
    unfolding input_ok_def q by (simp add: line_ready_def ring_ok_def INPUT_BUF_def)
qed

theorem consoleread_takes_line_witness:
  "wp (consoleread 0 16) (\<lambda>r t. r = Inl (Some [104, 105, 10]) \<and> entered (typed_of (input t)) = [] \<and> line (typed_of (input t)) = [121]) line_ready"
proof -
  have n: "16 = Suc (Suc (Suc 13))" by simp
  have "wp (consoleread 0 16) (\<lambda>r t. input_ok (input t) \<and> line (typed_of (input t)) = line (typed_of (input line_ready)) \<and>
     (case take_line 16 [] (entered (typed_of (input line_ready))) of
        Some (bs, rest) \<Rightarrow> r = Inl (Some bs) \<and> entered (typed_of (input t)) = rest \<and> held t = {} \<and> inodes t = inodes line_ready
      | None \<Rightarrow> r = Inr (entered (typed_of (input line_ready))) \<and> entered (typed_of (input t)) = [] \<and>
          (case cur t of None \<Rightarrow> False | Some c \<Rightarrow> p_state (ptable t ! c) = SLEEPING \<and> p_chan (ptable t ! c) = Some ChInput))) line_ready"
    by (rule consoleread_takes_line [where c = 0]) (use line_ready_typed in \<open>simp_all add: line_ready_def root_inode_def\<close>)
  moreover have "take_line 16 [] [104, 105, 10] = Some ([104, 105, 10], [])" unfolding n by (simp add: ctrl_def del: Suc_numeral)
  ultimately show ?thesis unfolding line_ready_typed(1) by (elim wp_mono) auto
qed

end
