(* ===== verification/Ifile.thy ===== *)
theory Ifile
  imports Console Kstring
begin

text \<open>
  The contents, directory and path layers of \<open>kernel/fs.c\<close>: \<open>readi\<close> and \<open>writei\<close> with their
  device cases, directory lookup and insertion, and path resolution.  Paths and names are the
  bytes before the terminating zero.  The result \<open>None\<close> of \<open>readi\<close> is the return value -1; the
  source of \<open>writei\<close> is given as the bytes found at successive addresses.
\<close>

section \<open>Reading and writing\<close>

definition NDEV :: nat where "NDEV = 10"

definition is_device :: "inode \<Rightarrow> nat set \<Rightarrow> bool" where
  "is_device ip devs \<longleftrightarrow> \<not> (sint (i_major ip) < 0 \<or> int NDEV \<le> sint (i_major ip) \<or> unat (i_major ip) \<notin> devs)"

text \<open>The part of a transfer of \<open>r\<close> bytes at \<open>off\<close> that lies in the block of \<open>off\<close>.\<close>

definition in_block :: "u32 \<Rightarrow> nat \<Rightarrow> nat" where
  "in_block off r = min r (BSIZE - unat off mod BSIZE)"

lemma in_block_pos: "0 < r \<Longrightarrow> 0 < in_block off r"
  by (simp add: in_block_def BSIZE_def)

function readi_loop :: "nat \<Rightarrow> u32 \<Rightarrow> nat \<Rightarrow> ('z fs_state_scheme, switch, u8 list) prog" where
  "readi_loop i off r =
     (if r = 0 then ret []
      else
        bnd (bmap i (off div of_nat BSIZE)) (\<lambda>a.
        bnd (get_inode i) (\<lambda>ip.
        bnd (bread (i_dev ip) a) (\<lambda>bp.
        bnd (bdata bp) (\<lambda>d.
        thn (brelse bp) (
        bnd (readi_loop i (off + of_nat (in_block off r)) (r - in_block off r)) (\<lambda>bs.
        ret (chunk (unat off mod BSIZE) (in_block off r) d @ bs))))))))"
  by auto

termination
  by (relation "measure (\<lambda>(i, off, r). r)") (auto simp: in_block_pos)

declare readi_loop.simps [simp del]

definition readi :: "nat \<Rightarrow> u32 \<Rightarrow> u32 \<Rightarrow> ('z cons_state_scheme, switch, u8 list option) prog" where
  "readi i off n =
     bnd (get_inode i) (\<lambda>ip.
     if i_type ip = T_DEV then
       bnd (asks devices) (\<lambda>devs.
       if \<not> is_device ip devs then ret None
       else bnd (consoleread i (nat (sint n))) (\<lambda>r. case r of Inl bs \<Rightarrow> ret bs | Inr _ \<Rightarrow> block_on (SwSleep ChInput Linput)))
     else if i_size ip < off \<or> off + n < off then ret None
     else
       let n = if i_size ip < off + n then i_size ip - off else n in
       bnd (readi_loop i off (unat n)) (\<lambda>bs. ret (Some bs)))"

function writei_loop :: "nat \<Rightarrow> (nat \<Rightarrow> u8) \<Rightarrow> u32 \<Rightarrow> nat \<Rightarrow> ('z fs_state_scheme, switch, u32) prog" where
  "writei_loop i src off r =
     (if r = 0 then ret off
      else
        bnd (bmap i (off div of_nat BSIZE)) (\<lambda>a.
        bnd (get_inode i) (\<lambda>ip.
        bnd (bread (i_dev ip) a) (\<lambda>bp.
        bnd (bdata bp) (\<lambda>d.
        thn (set_data bp (put_at (unat off mod BSIZE) (map src [0..<in_block off r]) d)) (
        thn (bwrite bp) (
        thn (brelse bp)
          (writei_loop i (\<lambda>k. src (k + in_block off r)) (off + of_nat (in_block off r)) (r - in_block off r)))))))))"
  by auto

termination
  by (relation "measure (\<lambda>(i, src, off, r). r)") (auto simp: in_block_pos)

declare writei_loop.simps [simp del]

definition writei :: "nat \<Rightarrow> (nat \<Rightarrow> u8) \<Rightarrow> u32 \<Rightarrow> u32 \<Rightarrow> ('z cons_state_scheme, switch, int) prog" where
  "writei i src off n =
     bnd (get_inode i) (\<lambda>ip.
     if i_type ip = T_DEV then
       bnd (asks devices) (\<lambda>devs.
       if \<not> is_device ip devs then ret (- 1)
       else bnd (consolewrite i (map src [0..<nat (sint n)])) (\<lambda>_. ret (sint n)))
     else if i_size ip < off \<or> off + n < off then ret (- 1)
     else
       let n = if of_nat (MAXFILE * BSIZE) < off + n then of_nat (MAXFILE * BSIZE) - off else n in
       bnd (writei_loop i src off (unat n)) (\<lambda>off'.
       bnd (get_inode i) (\<lambda>ip.
       thn (whenP (0 < n \<and> i_size ip < off') (thn (set_inode i (\<lambda>ip. ip\<lparr>i_size := off'\<rparr>)) (iupdate i)))
           (ret (sint n)))))"

section \<open>Directories\<close>

definition namecmp :: "u8 list \<Rightarrow> u8 list \<Rightarrow> int" where
  "namecmp s t = strncmp (stream_of s) (stream_of t) DIRSIZ"

text \<open>The scan of one directory block.\<close>

definition dir_scan :: "u8 list \<Rightarrow> u8 list \<Rightarrow> nat option" where
  "dir_scan name d =
     find (\<lambda>k. de_inum (get_dirent d (16 * k)) \<noteq> 0 \<and> namecmp name (de_name (get_dirent d (16 * k))) = 0)
       [0..<BSIZE div 16]"

primrec dirlookup_loop :: "nat \<Rightarrow> nat \<Rightarrow> u8 list \<Rightarrow> u32 \<Rightarrow> ('z fs_state_scheme, switch, (nat \<times> u32) option) prog" where
  "dirlookup_loop 0 i name off = ret None"
| "dirlookup_loop (Suc n) i name off =
     bnd (get_inode i) (\<lambda>ip.
     if \<not> off < i_size ip then ret None
     else
       bnd (bmap i (off div of_nat BSIZE)) (\<lambda>a.
       bnd (bread (i_dev ip) a) (\<lambda>bp.
       bnd (bdata bp) (\<lambda>d.
       case dir_scan name d of
         Some k \<Rightarrow>
           thn (brelse bp) (
           bnd (iget (i_dev ip) (ucast (de_inum (get_dirent d (16 * k))))) (\<lambda>j.
           ret (Some (j, off + of_nat (16 * k)))))
       | None \<Rightarrow> thn (brelse bp) (dirlookup_loop n i name (off + of_nat BSIZE))))))"

definition dirlookup :: "nat \<Rightarrow> u8 list \<Rightarrow> ('z fs_state_scheme, switch, (nat \<times> u32) option) prog" where
  "dirlookup i name =
     bnd (get_inode i) (\<lambda>ip.
     if i_type ip \<noteq> T_DIR then panic ''dirlookup not DIR''
     else dirlookup_loop (Suc (unat (i_size ip) div BSIZE)) i name 0)"

text \<open>\<open>strncpy\<close> into a fixed field: the string cut at \<open>n\<close> bytes and padded with zeros.\<close>

definition pad_name :: "nat \<Rightarrow> u8 list \<Rightarrow> u8 list" where
  "pad_name n name = (let t = take n (takeWhile (\<lambda>c. c \<noteq> 0) name) in t @ replicate (n - length t) 0)"

primrec dirlink_find :: "nat \<Rightarrow> nat \<Rightarrow> u32 \<Rightarrow> ('z cons_state_scheme, switch, u32) prog" where
  "dirlink_find 0 i off = ret off"
| "dirlink_find (Suc n) i off =
     bnd (get_inode i) (\<lambda>ip.
     if \<not> off < i_size ip then ret off
     else
       bnd (readi i off 16) (\<lambda>r. case r of
         Some bs \<Rightarrow>
           if length bs \<noteq> 16 then panic ''dirlink read''
           else if de_inum (get_dirent bs 0) = 0 then ret off
           else dirlink_find n i (off + 16)
       | None \<Rightarrow> panic ''dirlink read''))"

definition dirlink :: "nat \<Rightarrow> u8 list \<Rightarrow> u32 \<Rightarrow> ('z cons_state_scheme, switch, int) prog" where
  "dirlink i name inum =
     bnd (dirlookup i name) (\<lambda>r. case r of
       Some (j, off) \<Rightarrow> thn (iput j) (ret (- 1))
     | None \<Rightarrow>
         bnd (get_inode i) (\<lambda>ip.
         bnd (dirlink_find (Suc (unat (i_size ip) div 16)) i 0) (\<lambda>off.
         bnd (writei i (stream_of (bytes_dirent \<lparr>de_inum = ucast inum, de_name = pad_name DIRSIZ name\<rparr>)) off 16) (\<lambda>r.
          if r \<noteq> 16 then panic ''dirlink'' else ret 0))))"

section \<open>Paths\<close>

definition slash :: u8 where "slash = 47"

text \<open>The rest of the path and the element, of which \<open>name\<close> holds the first \<open>DIRSIZ\<close> bytes.\<close>

definition skipelem :: "u8 list \<Rightarrow> (u8 list \<times> u8 list) option" where
  "skipelem path =
     (let p = dropWhile (\<lambda>c. c = slash) path in
      if p = [] then None
      else Some (dropWhile (\<lambda>c. c = slash) (dropWhile (\<lambda>c. c \<noteq> slash) p),
                 take DIRSIZ (takeWhile (\<lambda>c. c \<noteq> slash) p)))"

lemma skipelem_shorter:
  assumes "skipelem path = Some (rest, name)"
  shows "length rest < length path"
proof (cases "dropWhile (\<lambda>c. c = slash) path")
  case Nil
  then show ?thesis using assms by (simp add: skipelem_def)
next
  case (Cons x xs)
  have x: "x \<noteq> slash" using hd_dropWhile [of "\<lambda>c. c = slash" path] Cons by simp
  have "rest = dropWhile (\<lambda>c. c = slash) (dropWhile (\<lambda>c. c \<noteq> slash) (x # xs))"
    using assms by (simp only: skipelem_def Let_def Cons) simp
  then have "length rest \<le> length (dropWhile (\<lambda>c. c \<noteq> slash) (x # xs))"
    using length_dropWhile_le by blast
  also have "\<dots> \<le> length xs" using x length_dropWhile_le [of "\<lambda>c. c \<noteq> slash" xs] by simp
  also have "\<dots> < length path"
    using length_dropWhile_le [of "\<lambda>c. c = slash" path] unfolding Cons by simp
  finally show ?thesis .
qed

function namex_loop :: "nat \<Rightarrow> u8 list \<Rightarrow> bool \<Rightarrow> ('z fs_state_scheme, switch, (nat \<times> u8 list) option) prog" where
  "namex_loop i path parent =
     (case skipelem path of
        None \<Rightarrow> if parent then thn (iput i) (ret None) else ret (Some (i, []))
      | Some (rest, name) \<Rightarrow>
          thn (ilock i) (
          bnd (get_inode i) (\<lambda>ip.
          if i_type ip \<noteq> T_DIR then thn (iunlockput i) (ret None)
          else if parent \<and> rest = [] then thn (iunlock i) (ret (Some (i, name)))
          else
            bnd (dirlookup i name) (\<lambda>r. case r of
              None \<Rightarrow> thn (iunlockput i) (ret None)
            | Some (j, off) \<Rightarrow> thn (iunlockput i) (namex_loop j rest parent)))))"
  by auto

termination
  by (relation "measure (\<lambda>(i, path, parent). length path)") (auto dest: skipelem_shorter)

declare namex_loop.simps [simp del]

definition namex :: "u8 list \<Rightarrow> bool \<Rightarrow> ('z fs_state_scheme, switch, (nat \<times> u8 list) option) prog" where
  "namex path parent =
     bnd (if path \<noteq> [] \<and> hd path = slash then iget ROOTDEV ROOTINO
          else bnd curproc (\<lambda>c. bnd (get_proc c) (\<lambda>p. case p_cwd p of None \<Rightarrow> panic ''null cwd'' | Some i \<Rightarrow> idup i)))
       (\<lambda>i. namex_loop i path parent)"

definition namei :: "u8 list \<Rightarrow> ('z fs_state_scheme, switch, nat option) prog" where
  "namei path = bnd (namex path False) (\<lambda>r. ret (map_option fst r))"

definition nameiparent :: "u8 list \<Rightarrow> ('z fs_state_scheme, switch, (nat \<times> u8 list) option) prog" where
  "nameiparent path = namex path True"

end
