(* ===== verification/Files.thy ===== *)
theory Files
  imports Icache Ifile
begin

text \<open>
  What \<open>readi\<close> and \<open>writei\<close> of \<open>kernel/fs.c\<close> do to the contents of a file, as bytes: \<open>fbyte s ip p\<close> is
  byte \<open>p\<close> of the file of inode \<open>ip\<close> on the disk of \<open>s\<close>, found through the block map, direct or
  through the indirect block.
\<close>

section \<open>The block map\<close>

definition addr_of :: "'z bio_state_scheme \<Rightarrow> inode \<Rightarrow> nat \<Rightarrow> u32" where
  "addr_of s ip k = (if k < NDIRECT then i_addrs ip ! k
     else get32 (blk_at s (i_dev ip, i_addrs ip ! NDIRECT)) (4 * (k - NDIRECT)))"

definition mapped :: "'z bio_state_scheme \<Rightarrow> inode \<Rightarrow> nat \<Rightarrow> bool" where
  "mapped s ip k \<longleftrightarrow> k < MAXFILE \<and> addr_of s ip k \<noteq> 0 \<and> on_disk (i_dev ip) (addr_of s ip k) \<and>
     (NDIRECT \<le> k \<longrightarrow> i_addrs ip ! NDIRECT \<noteq> 0 \<and> on_disk (i_dev ip) (i_addrs ip ! NDIRECT))"

definition fblock :: "'z bio_state_scheme \<Rightarrow> inode \<Rightarrow> nat \<Rightarrow> u8 list" where
  "fblock s ip k = blk_at s (i_dev ip, addr_of s ip k)"

definition fbyte :: "'z bio_state_scheme \<Rightarrow> inode \<Rightarrow> nat \<Rightarrow> u8" where
  "fbyte s ip p = fblock s ip (p div BSIZE) ! (p mod BSIZE)"

lemma same_blocks:
  "blk_at t = blk_at s \<Longrightarrow> addr_of t ip = addr_of s ip \<and> mapped t ip = mapped s ip \<and> fblock t ip = fblock s ip \<and> fbyte t ip = fbyte s ip"
  by (simp add: addr_of_def mapped_def fblock_def fbyte_def fun_eq_iff)

lemma same_metadata:
  "i_dev jp = i_dev ip \<Longrightarrow> i_addrs jp = i_addrs ip \<Longrightarrow> addr_of s jp = addr_of s ip \<and> mapped s jp = mapped s ip \<and> fbyte s jp = fbyte s ip"
  by (simp add: addr_of_def mapped_def fblock_def fbyte_def fun_eq_iff)

lemma wp_bmap:
  assumes s: "cache_ok {} s" "mapped s (inodes s ! i) (unat bn)"
    and post: "\<And>t. cache_ok {} t \<Longrightarrow> blk_at t = blk_at s \<Longrightarrow> bc.keeps {} s t \<Longrightarrow> Q (addr_of s (inodes s ! i) (unat bn)) t"
  shows "wp (bmap i bn) Q s"
proof (cases "unat bn < NDIRECT")
  case True
  then have "Q (addr_of s (inodes s ! i) (unat bn)) s" using post s(1) by simp
  then show ?thesis
    using True s(2) by (simp add: bmap_def addr_or_alloc_def get_inode_def addr_of_def mapped_def)
next
  case False
  let ?ip = "inodes s ! i" and ?k = "unat bn - NDIRECT"
  have k: "unat (bn - of_nat NDIRECT) = ?k" using False by (simp add: unat_sub_word NDIRECT_def)
  have "unat bn < 140" using s(2) by (simp add: mapped_def MAXFILE_def)
  then have lt: "?k < NINDIRECT" using False unfolding NDIRECT_def NINDIRECT_def by linarith
  have ind: "i_addrs ?ip ! NDIRECT \<noteq> 0" "on_disk (i_dev ?ip) (i_addrs ?ip ! NDIRECT)"
    using s(2) False by (simp_all add: mapped_def)
  have a: "addr_of s ?ip (unat bn) = get32 (blk_at s (i_dev ?ip, i_addrs ?ip ! NDIRECT)) (4 * ?k)"
    using False by (simp add: addr_of_def)
  have nz: "get32 (blk_at s (i_dev ?ip, i_addrs ?ip ! NDIRECT)) (4 * ?k) \<noteq> 0"
    using s(2) False by (simp add: mapped_def addr_of_def)
  have "wp (bread (i_dev ?ip) (i_addrs ?ip ! NDIRECT)) (\<lambda>bp. wp (bdata bp) (\<lambda>d. wp (if get32 d (4 * ?k) = 0
      then bnd (balloc (i_dev ?ip)) (\<lambda>a.
             thn (bnd (bdata bp) (\<lambda>d. set_data bp (put_at (4 * ?k) (bytes32 a) d))) (
             thn (bwrite bp) (thn (brelse bp) (ret a))))
      else thn (brelse bp) (ret (get32 d (4 * ?k)))) Q)) s"
  proof (rule block_inspect [OF s(1)])
    fix bp t
    assume t: "bc.holds bp (i_dev ?ip, i_addrs ?ip ! NDIRECT) {} t" "blk_at t = blk_at s" "bc.keeps {} s t"
    have "wp (brelse bp) (\<lambda>_. Q (addr_of s ?ip (unat bn))) t"
      using t by (intro bc.give_back [OF t(1)] post) (auto intro: bc.keeps_trans)
    then show "wp (if get32 (blk_at s (i_dev ?ip, i_addrs ?ip ! NDIRECT)) (4 * ?k) = 0
      then bnd (balloc (i_dev ?ip)) (\<lambda>a.
             thn (bnd (bdata bp) (\<lambda>d. set_data bp (put_at (4 * ?k) (bytes32 a) d))) (
             thn (bwrite bp) (thn (brelse bp) (ret a))))
      else thn (brelse bp) (ret (get32 (blk_at s (i_dev ?ip, i_addrs ?ip ! NDIRECT)) (4 * ?k)))) Q t"
      using nz by (simp only: if_False wp_nest wp_ret_fun a)
  qed (use ind in \<open>simp_all add: block_ok_def NBUF_def\<close>)
  then show ?thesis
    using False k lt ind(1) unfolding bmap_def
    by (simp add: addr_or_alloc_def get_inode_def Let_def) (simp only: wp_nest)
qed

section \<open>Reading\<close>

lemma in_block_le: "in_block off r \<le> r" "unat off mod BSIZE + in_block off r \<le> BSIZE"
  by (simp_all add: in_block_def BSIZE_def)

lemma in_block_rest: "in_block off r < r \<Longrightarrow> (unat off + in_block off r) mod BSIZE = 0"
proof -
  assume "in_block off r < r"
  then have "in_block off r = BSIZE - unat off mod BSIZE" by (simp add: in_block_def)
  moreover have "unat off mod BSIZE < BSIZE" by (simp add: BSIZE_def)
  moreover have "unat off = BSIZE * (unat off div BSIZE) + unat off mod BSIZE" by simp
  ultimately have "unat off + in_block off r = BSIZE * (unat off div BSIZE) + BSIZE" by linarith
  then show ?thesis by simp
qed

lemma in_block_same:
  assumes "j < in_block off r"
  shows "(unat off + j) div BSIZE = unat off div BSIZE" "(unat off + j) mod BSIZE = unat off mod BSIZE + j"
proof -
  have lt: "unat off mod BSIZE + j < BSIZE" using assms in_block_le(2) [of off r] by simp
  have e: "unat off + j = (unat off mod BSIZE + j) + BSIZE * (unat off div BSIZE)" by simp
  have "(unat off + j) div BSIZE = unat off div BSIZE + (unat off mod BSIZE + j) div BSIZE"
    unfolding e by (rule div_mult_self2) (simp add: BSIZE_def)
  then show "(unat off + j) div BSIZE = unat off div BSIZE" using lt by simp
  show "(unat off + j) mod BSIZE = unat off mod BSIZE + j" unfolding e using lt by (simp only: mod_mult_self2 mod_less)
qed

lemma chunk_fbytes:
  assumes "cache_ok H s" 
  shows "chunk (unat off mod BSIZE) (in_block off r) (fblock s ip (unat off div BSIZE))
    = map (fbyte s ip) [unat off..<unat off + in_block off r]"
  using in_block_le(2) [of off r] block_length [OF assms]
  by (intro nth_equalityI) (simp_all add: fblock_def fbyte_def in_block_same)

lemma unat_div_BSIZE: "unat (off div of_nat BSIZE :: u32) = unat off div BSIZE"
  by (simp add: unat_div BSIZE_def)

lemma unat_step: "unat off + r < 2 ^ 32 \<Longrightarrow> m \<le> r \<Longrightarrow> unat (off + of_nat m :: u32) = unat off + m"
  by (subst unat_add_small) (simp_all add: unat_of_nat_small)

lemma wp_readi_loop:
  assumes "cache_ok {} s" "unat off + r < 2 ^ 32"
    and "\<And>k. unat off div BSIZE \<le> k \<Longrightarrow> k * BSIZE < unat off + r \<Longrightarrow> mapped s (inodes s ! i) k"
    and "\<And>t. cache_ok {} t \<Longrightarrow> blk_at t = blk_at s \<Longrightarrow> bc.keeps {} s t \<Longrightarrow>
      Q (map (fbyte s (inodes s ! i)) [unat off..<unat off + r]) t"
  shows "wp (readi_loop i off r) Q s"
  using assms
proof (induction i off r arbitrary: s Q rule: readi_loop.induct)
  case (1 i off r)
  note prems = "1.prems"
  show ?case
  proof (cases "r = 0")
    case True
    then have "Q [] s" using prems(4) [of s] prems(1) by simp
    then show ?thesis using True by (simp add: readi_loop.simps)
  next
    case False
    let ?ip = "inodes s ! i" and ?m = "in_block off r" and ?k = "unat off div BSIZE"
    have kb: "?k * BSIZE < unat off + r" using False div_times_less_eq_dividend [of "unat off" BSIZE] by linarith
    have mk: "mapped s ?ip ?k" by (rule prems(3) [OF order_refl kb])
    have u: "unat (off + of_nat ?m) = unat off + ?m" by (rule unat_step [OF prems(2) in_block_le(1)])
    have "wp (bmap i (off div of_nat BSIZE)) (\<lambda>a. wp (get_inode i) (\<lambda>ip. wp (bread (i_dev ip) a) (\<lambda>bp.
        wp (bdata bp) (\<lambda>d. wp (brelse bp) (\<lambda>_. wp (readi_loop i (off + of_nat ?m) (r - ?m)) (\<lambda>bs.
        Q (chunk (unat off mod BSIZE) ?m d @ bs))))))) s"
    proof (rule wp_bmap [OF prems(1)], unfold unat_div_BSIZE)
      fix t assume t: "cache_ok {} t" "blk_at t = blk_at s" "bc.keeps {} s t"
      note it = keeps_inodes [OF t(3)]
      have "wp (bread (i_dev ?ip) (addr_of s ?ip ?k)) (\<lambda>bp. wp (bdata bp) (\<lambda>d. wp (brelse bp) (\<lambda>_.
          wp (readi_loop i (off + of_nat ?m) (r - ?m)) (\<lambda>bs. Q (chunk (unat off mod BSIZE) ?m d @ bs))))) t"
      proof (rule block_peek [OF t(1)])
        fix v assume v: "cache_ok {} v" "blk_at v = blk_at t" "bc.keeps {} t v"
        note iv = keeps_inodes [OF v(3)]
        have bv: "blk_at v = blk_at s" by (simp add: v(2) t(2))
        show "wp (readi_loop i (off + of_nat ?m) (r - ?m)) (\<lambda>bs. Q (chunk (unat off mod BSIZE) ?m (blk_at t (i_dev ?ip, addr_of s ?ip ?k)) @ bs)) v"
        proof (rule "1.IH" [OF False])
          show "unat (off + of_nat ?m) + (r - ?m) < 2 ^ 32" using u prems(2) in_block_le(1) [of off r] by simp
          show "mapped v (inodes v ! i) k" if "unat (off + of_nat ?m) div BSIZE \<le> k" "k * BSIZE < unat (off + of_nat ?m) + (r - ?m)" for k
          proof -
            have "?k \<le> k" using that(1) div_le_mono [of "unat off" "unat off + ?m" BSIZE] unfolding u by linarith
            moreover have "k * BSIZE < unat off + r" using that(2) in_block_le(1) [of off r] unfolding u by linarith
            ultimately show ?thesis using prems(3) same_blocks [OF bv, of ?ip] by (simp add: iv it)
          qed
          fix w assume w: "cache_ok {} w" "blk_at w = blk_at v" "bc.keeps {} v w"
          have "Q (map (fbyte s ?ip) [unat off..<unat off + r]) w"
            using w t v bc.keeps_trans [OF bc.keeps_trans [OF t(3) v(3)] w(3)] by (intro prems(4)) simp_all
          moreover have "[unat off..<unat off + r] = [unat off..<unat off + ?m] @ [unat off + ?m..<unat off + ?m + (r - ?m)]"
            using in_block_le(1) [of off r] upt_add_eq_append [of "unat off" "unat off + ?m" "r - ?m"] by simp
          ultimately show "Q (chunk (unat off mod BSIZE) ?m (blk_at t (i_dev ?ip, addr_of s ?ip ?k)) @
              map (fbyte v (inodes v ! i)) [unat (off + of_nat ?m)..<unat (off + of_nat ?m) + (r - ?m)]) w"
            using chunk_fbytes [OF prems(1), of off r ?ip] same_blocks [OF bv, of ?ip] by (simp add: fblock_def t(2) u iv it)
        qed (rule v(1))
      qed (use mk in \<open>simp_all add: block_ok_def mapped_def NBUF_def\<close>)
      then show "wp (get_inode i) (\<lambda>ip. wp (bread (i_dev ip) (addr_of s ?ip ?k)) (\<lambda>bp. wp (bdata bp) (\<lambda>d. wp (brelse bp) (\<lambda>_.
          wp (readi_loop i (off + of_nat ?m) (r - ?m)) (\<lambda>bs. Q (chunk (unat off mod BSIZE) ?m d @ bs)))))) t"
        by (simp add: get_inode_def it)
    qed (rule mk)
    then show ?thesis
      unfolding readi_loop.simps [of i off r] using False by (simp only: if_False wp_nest wp_ret_fun)
  qed
qed

text \<open>The bytes of a file from \<open>off\<close> on, at most \<open>n\<close> and not past its end, given byte by byte.\<close>

definition window :: "nat \<Rightarrow> (nat \<Rightarrow> u8) \<Rightarrow> nat \<Rightarrow> nat \<Rightarrow> u8 list option" where
  "window sz f off n = (if sz < off then None else Some (map f [off..<min (off + n) sz]))"

lemma wp_readi:
  assumes "cache_ok {} s" "i_type (inodes s ! i) \<noteq> T_DEV" "unat off + unat n < 2 ^ 32"
    and "\<And>k. k * BSIZE < unat (i_size (inodes s ! i)) \<Longrightarrow> mapped s (inodes s ! i) k"
    and "\<And>t. cache_ok {} t \<Longrightarrow> blk_at t = blk_at s \<Longrightarrow> bc.keeps {} s t \<Longrightarrow>
      Q (window (unat (i_size (inodes s ! i))) (fbyte s (inodes s ! i)) (unat off) (unat n)) t"
  shows "wp (readi i off n) Q s"
proof -
  let ?ip = "inodes s ! i" and ?w = "window (unat (i_size (inodes s ! i))) (fbyte s (inodes s ! i)) (unat off) (unat n)"
  have add: "unat (off + n) = unat off + unat n" by (rule unat_add_small [OF assms(3)])
  then have no: "\<not> off + n < off" by (simp add: word_less_nat_alt)
  show ?thesis
  proof (cases "i_size ?ip < off")
    case True
    then have "?w = None" by (simp add: window_def word_less_nat_alt)
    then have "Q None s" using assms(5) [of s] assms(1) by simp
    then show ?thesis using True assms(2) by (simp add: readi_def get_inode_def)
  next
    case False
    let ?n = "if i_size ?ip < off + n then i_size ?ip - off else n"
    have le: "unat off \<le> unat (i_size ?ip)" using False by (simp add: word_less_nat_alt)
    have n: "unat off + unat ?n = min (unat off + unat n) (unat (i_size ?ip))"
      using le add by (simp add: word_less_nat_alt unat_sub_word)
    have w: "?w = Some (map (fbyte s ?ip) [unat off..<unat off + unat ?n])"
      using le unfolding n by (simp add: window_def)
    have lt: "unat off + unat ?n < 2 ^ 32" using assms(3) unfolding n by simp
    have "wp (readi_loop i off (unat ?n)) (\<lambda>bs. Q (Some bs)) s"
    proof (rule wp_readi_loop [OF assms(1) lt])
      show "mapped s ?ip k" if "k * BSIZE < unat off + unat ?n" for k
        using that unfolding n by (intro assms(4)) simp
    qed (use assms(5) w in simp)
    then show ?thesis using False no assms(2) by (simp add: readi_def get_inode_def Let_def)
  qed
qed

section \<open>Writing\<close>

text \<open>No block is used twice in the file.\<close>

definition file_wf :: "'z bio_state_scheme \<Rightarrow> inode \<Rightarrow> bool" where
  "file_wf s ip \<longleftrightarrow> (\<forall>k k'. mapped s ip k \<longrightarrow> mapped s ip k' \<longrightarrow> addr_of s ip k = addr_of s ip k' \<longrightarrow> k = k') \<and>
     (\<forall>k. mapped s ip k \<longrightarrow> addr_of s ip k \<noteq> i_addrs ip ! NDIRECT)"

definition off_file :: "'z bio_state_scheme \<Rightarrow> inode \<Rightarrow> u32 \<times> u32 \<Rightarrow> bool" where
  "off_file s ip x \<longleftrightarrow> (\<forall>k. mapped s ip k \<longrightarrow> x \<noteq> (i_dev ip, addr_of s ip k))"

definition fwritten :: "inode \<Rightarrow> nat \<Rightarrow> nat \<Rightarrow> (nat \<Rightarrow> u8) \<Rightarrow> 'z bio_state_scheme \<Rightarrow> 'z bio_state_scheme \<Rightarrow> bool" where
  "fwritten ip off r src s t \<longleftrightarrow>
     (\<forall>p. mapped s ip (p div BSIZE) \<longrightarrow> fbyte t ip p = (if off \<le> p \<and> p < off + r then src (p - off) else fbyte s ip p)) \<and>
     (\<forall>x. block_ok x \<longrightarrow> off_file s ip x \<longrightarrow> blk_at t x = blk_at s x)"

lemma fwrittenD:
  "fwritten ip off r src s t \<Longrightarrow> block_ok x \<Longrightarrow> off_file s ip x \<Longrightarrow> blk_at t x = blk_at s x"
  "fwritten ip off r src s t \<Longrightarrow> mapped s ip (p div BSIZE) \<Longrightarrow>
     fbyte t ip p = (if off \<le> p \<and> p < off + r then src (p - off) else fbyte s ip p)"
  unfolding fwritten_def by blast+

lemma fwrittenI:
  "(\<And>x. block_ok x \<Longrightarrow> off_file s ip x \<Longrightarrow> blk_at t x = blk_at s x) \<Longrightarrow>
   (\<And>p. mapped s ip (p div BSIZE) \<Longrightarrow> fbyte t ip p = (if off \<le> p \<and> p < off + r then src (p - off) else fbyte s ip p)) \<Longrightarrow>
   fwritten ip off r src s t"
  unfolding fwritten_def by blast

lemma map_kept:
  assumes "on_disk (i_dev ip) (i_addrs ip ! NDIRECT) \<Longrightarrow>
    blk_at t (i_dev ip, i_addrs ip ! NDIRECT) = blk_at s (i_dev ip, i_addrs ip ! NDIRECT)"
  shows "mapped t ip = mapped s ip" "mapped s ip k \<Longrightarrow> addr_of t ip k = addr_of s ip k"
proof -
  have a: "addr_of t ip k = addr_of s ip k" if "k < NDIRECT \<or> on_disk (i_dev ip) (i_addrs ip ! NDIRECT)" for k
    using that assms by (auto simp: addr_of_def)
  show "mapped t ip = mapped s ip"
  proof (rule ext)
    fix k show "mapped t ip k = mapped s ip k"
      using a [of k] by (cases "k < NDIRECT \<or> on_disk (i_dev ip) (i_addrs ip ! NDIRECT)") (auto simp: mapped_def)
  qed
  show "mapped s ip k \<Longrightarrow> addr_of t ip k = addr_of s ip k"
    using a [of k] by (auto simp: mapped_def)
qed

lemma indirect_kept:
  assumes "\<And>x. block_ok x \<Longrightarrow> off_file s ip x \<Longrightarrow> blk_at t x = blk_at s x" "file_wf s ip"
  shows "mapped t ip = mapped s ip" "mapped s ip k \<Longrightarrow> addr_of t ip k = addr_of s ip k"
proof -
  have "blk_at t (i_dev ip, i_addrs ip ! NDIRECT) = blk_at s (i_dev ip, i_addrs ip ! NDIRECT)"
    if "on_disk (i_dev ip) (i_addrs ip ! NDIRECT)"
    using that assms(2) by (intro assms(1)) (auto simp: block_ok_def file_wf_def off_file_def)
  then show "mapped t ip = mapped s ip" "mapped s ip k \<Longrightarrow> addr_of t ip k = addr_of s ip k"
    by (rule map_kept; simp)+
qed

text \<open>Storing into one block of the file.\<close>

lemma fwritten_block:
  assumes s: "cache_ok {} s" "file_wf s ip" "mapped s ip (unat off div BSIZE)"
    and b: "\<forall>x. block_ok x \<longrightarrow> blk_at t x = (if x = (i_dev ip, addr_of s ip (unat off div BSIZE))
      then put_at (unat off mod BSIZE) (map src [0..<in_block off r]) (blk_at s x) else blk_at s x)"
  shows "fwritten ip (unat off) (in_block off r) src s t"
proof -
  let ?k = "unat off div BSIZE" and ?m = "in_block off r"
  have other: "blk_at t x = blk_at s x" if "block_ok x" "off_file s ip x" for x
    using b [rule_format, OF that(1)] that(2) s(3) by (auto simp: off_file_def)
  have kept: "addr_of t ip k = addr_of s ip k" if "mapped s ip k" for k
    by (rule indirect_kept(2) [OF _ s(2) that]) (rule other)
  have "fbyte t ip p = (if unat off \<le> p \<and> p < unat off + ?m then src (p - unat off) else fbyte s ip p)"
    if m: "mapped s ip (p div BSIZE)" for p
  proof -
    have ok: "block_ok (i_dev ip, addr_of s ip (p div BSIZE))" using m by (simp add: block_ok_def mapped_def)
    have a: "addr_of t ip (p div BSIZE) = addr_of s ip (p div BSIZE)" by (rule kept [OF m])
    show ?thesis
    proof (cases "p div BSIZE = ?k")
      case True
      have pm: "p mod BSIZE < BSIZE" by (simp add: BSIZE_def)
      have sp: "p = BSIZE * ?k + p mod BSIZE" using True by (metis mult_div_mod_eq)
      have so: "unat off = BSIZE * ?k + unat off mod BSIZE" by simp
      have in': "unat off \<le> p \<and> p < unat off + ?m \<longleftrightarrow> unat off mod BSIZE \<le> p mod BSIZE \<and> p mod BSIZE < unat off mod BSIZE + ?m"
        and d: "p - unat off = p mod BSIZE - unat off mod BSIZE"
        using sp so by linarith+
      have "blk_at t (i_dev ip, addr_of s ip ?k) = put_at (unat off mod BSIZE) (map src [0..<?m]) (blk_at s (i_dev ip, addr_of s ip ?k))"
        using b ok True by simp
      then show ?thesis
        using in_block_le(2) [of off r] block_length [OF s(1)] pm True a
        unfolding in' d by (simp add: fbyte_def fblock_def nth_put_at) auto
    next
      case False
      then have ne: "addr_of s ip (p div BSIZE) \<noteq> addr_of s ip ?k" using s(2,3) m by (auto simp: file_wf_def)
      have "\<not> (unat off \<le> p \<and> p < unat off + ?m)"
      proof
        assume p: "unat off \<le> p \<and> p < unat off + ?m"
        then have "(unat off + (p - unat off)) div BSIZE = ?k" by (intro in_block_same(1) [of _ off r]) linarith
        then show False using False p by simp
      qed
      then show ?thesis using b ok ne a by (auto simp: fbyte_def fblock_def)
    qed
  qed
  then show ?thesis using other by (intro fwrittenI)
qed

section \<open>Directories\<close>

text \<open>Entry \<open>j\<close> of a directory, counted through its blocks, and the first one with a name.\<close>

definition dir_entry :: "'z bio_state_scheme \<Rightarrow> inode \<Rightarrow> nat \<Rightarrow> dirent" where
  "dir_entry s ip j = get_dirent (fblock s ip (j div 32)) (16 * (j mod 32))"

definition names :: "u8 list \<Rightarrow> dirent \<Rightarrow> bool" where
  "names name e \<longleftrightarrow> de_inum e \<noteq> 0 \<and> namecmp name (de_name e) = 0"

definition blocks_of :: "inode \<Rightarrow> nat" where
  "blocks_of ip = (unat (i_size ip) + (BSIZE - 1)) div BSIZE"

definition dir_find :: "'z bio_state_scheme \<Rightarrow> inode \<Rightarrow> u8 list \<Rightarrow> nat option" where
  "dir_find s ip name = find (\<lambda>j. names name (dir_entry s ip j)) [0..<32 * blocks_of ip]"

lemma find_append: "find P (xs @ ys) = (case find P xs of None \<Rightarrow> find P ys | Some x \<Rightarrow> Some x)"
  by (induction xs) simp_all

lemma find_map: "find P (map f xs) = map_option f (find (\<lambda>x. P (f x)) xs)"
  by (induction xs) simp_all

lemma blocks_less: "k < blocks_of ip \<longleftrightarrow> BSIZE * k < unat (i_size ip)"
proof -
  have "k < blocks_of ip \<longleftrightarrow> BSIZE * Suc k \<le> unat (i_size ip) + (BSIZE - 1)"
    unfolding blocks_of_def Suc_le_eq [symmetric] by (subst less_eq_div_iff_mult_less_eq) (simp_all add: BSIZE_def mult.commute)
  also have "\<dots> \<longleftrightarrow> BSIZE * k < unat (i_size ip)" by (auto simp: BSIZE_def)
  finally show ?thesis .
qed

lemma dir_scan_entries:
  assumes "d = fblock s ip k" "k < nb"
  shows "find (\<lambda>j. names name (dir_entry s ip j)) [32 * k..<32 * nb] = (case dir_scan name d of
     Some j \<Rightarrow> Some (32 * k + j) | None \<Rightarrow> find (\<lambda>j. names name (dir_entry s ip j)) [32 * Suc k..<32 * nb])"
proof -
  have "32 * k + 32 \<le> 32 * nb" using assms(2) by simp
  then have split: "[32 * k..<32 * nb] = map (\<lambda>j. j + 32 * k) [0..<32] @ [32 * Suc k..<32 * nb]"
    using upt_add_eq_append [of "32 * k" "32 * k + 32" "32 * nb - (32 * k + 32)"] by (simp add: map_add_upt add.commute)
  have "dir_scan name d = find (\<lambda>j. names name (dir_entry s ip (j + 32 * k))) [0..<32]"
    unfolding dir_scan_def assms(1) by (rule find_cong) (simp_all add: BSIZE_def names_def dir_entry_def)
  then show ?thesis
    unfolding split find_append find_map by (auto simp: add.commute split: option.splits)
qed

lemma wp_dirlookup_loop:
  fixes s :: "'z fs_state_scheme"
  assumes "cache_ok {} s" "\<And>k. k < blocks_of (inodes s ! i) \<Longrightarrow> mapped s (inodes s ! i) k"
    and "blocks_of (inodes s ! i) \<le> k + n" "BSIZE * k < 2 ^ 32" "off = of_nat (BSIZE * k)"
    and "\<And>t. \<lbrakk>cache_ok {} t; blk_at t = blk_at s; bc.keeps {} s t\<rbrakk> \<Longrightarrow>
      (case find (\<lambda>j. names name (dir_entry s (inodes s ! i) j)) [32 * k..<32 * blocks_of (inodes s ! i)] of
         None \<Rightarrow> Q None t
       | Some j \<Rightarrow> wp (iget (i_dev (inodes s ! i)) (ucast (de_inum (dir_entry s (inodes s ! i) j)))) (\<lambda>m. Q (Some (m, of_nat (16 * j)))) t)"
  shows "wp (dirlookup_loop n i name off) Q s"
  using assms
proof (induction n arbitrary: s k off)
  case 0
  then show ?case using 0(6) [of s] by simp
next
  case (Suc n)
  let ?ip = "inodes s ! i"
  let ?find = "\<lambda>k. find (\<lambda>j. names name (dir_entry s ?ip j)) [32 * k..<32 * blocks_of ?ip]"
  have uo: "unat off = BSIZE * k" unfolding Suc.prems(5) using Suc.prems(4) by (rule unat_of_nat_small)
  have lt: "off < i_size ?ip \<longleftrightarrow> k < blocks_of ?ip" unfolding blocks_less by (simp add: word_less_nat_alt uo)
  show ?case
  proof (cases "k < blocks_of ?ip")
    case False
    then have "Q None s" using Suc.prems(6) [of s] Suc.prems(1) by simp
    then show ?thesis using False lt by (simp add: get_inode_def)
  next
    case True
    have k: "unat (off div of_nat BSIZE) = k" unfolding unat_div_BSIZE uo by (simp add: BSIZE_def)
    have mk: "mapped s ?ip k" by (rule Suc.prems(2) [OF True])
    then have k140: "k < 140" by (simp add: mapped_def MAXFILE_def)
    let ?F = "\<lambda>bp d. wp (case dir_scan name d of
         Some j \<Rightarrow>
           thn (brelse bp) (
           bnd (iget (i_dev ?ip) (ucast (de_inum (get_dirent d (16 * j))))) (\<lambda>m. ret (Some (m, off + of_nat (16 * j)))))
       | None \<Rightarrow> thn (brelse bp) (dirlookup_loop n i name (off + of_nat BSIZE))) Q"
    have "wp (bmap i (off div of_nat BSIZE)) (\<lambda>a. wp (bread (i_dev ?ip) a) (\<lambda>bp. wp (bdata bp) (?F bp))) s"
    proof (rule wp_bmap [OF Suc.prems(1)], unfold k)
      fix t :: "'z fs_state_scheme"
      assume t: "cache_ok {} t" "blk_at t = blk_at s" "bc.keeps {} s t"
      show "wp (bread (i_dev ?ip) (addr_of s ?ip k)) (\<lambda>bp. wp (bdata bp) (?F bp)) t"
      proof (rule block_inspect [OF t(1)])
        fix bp and u :: "'z fs_state_scheme"
        assume u: "bc.holds bp (i_dev ?ip, addr_of s ?ip k) {} u" "blk_at u = blk_at t" "bc.keeps {} t u"
        let ?d = "blk_at t (i_dev ?ip, addr_of s ?ip k)"
        have d: "?d = fblock s ?ip k" by (simp add: fblock_def t(2))
        note find = dir_scan_entries [OF d True, of name]
        show "?F bp ?d u"
        proof (cases "dir_scan name ?d")
          case None
          have "wp (brelse bp) (\<lambda>_. wp (dirlookup_loop n i name (off + of_nat BSIZE)) Q) u"
          proof (rule bc.give_back [OF u(1)])
            fix v :: "'z fs_state_scheme"
            assume v: "cache_ok {} v" "blk_at v = blk_at u" "bc.keeps {} u v"
            have kv: "bc.keeps {} s v" by (rule bc.keeps_trans [OF bc.keeps_trans [OF t(3) u(3)] v(3)])
            have bv: "blk_at v = blk_at s" by (simp add: v(2) u(2) t(2))
            note iv = keeps_inodes [OF kv] and sb = same_blocks [OF bv, of ?ip]
            have de: "dir_entry v ?ip = dir_entry s ?ip" by (simp add: dir_entry_def sb fun_eq_iff)
            show "wp (dirlookup_loop n i name (off + of_nat BSIZE)) Q v"
            proof (rule Suc.IH [where k = "Suc k"], unfold iv)
              show "off + of_nat BSIZE = of_nat (BSIZE * Suc k)" by (simp add: Suc.prems(5))
              show "BSIZE * Suc k < 2 ^ 32" using k140 by (simp add: BSIZE_def)
              fix w :: "'z fs_state_scheme"
              assume w: "cache_ok {} w" "blk_at w = blk_at v" "bc.keeps {} v w"
              show "case find (\<lambda>j. names name (dir_entry v ?ip j)) [32 * Suc k..<32 * blocks_of ?ip] of None \<Rightarrow> Q None w
                | Some j \<Rightarrow> wp (iget (i_dev ?ip) (ucast (de_inum (dir_entry v ?ip j)))) (\<lambda>m. Q (Some (m, of_nat (16 * j)))) w"
                using Suc.prems(6) [OF w(1) _ bc.keeps_trans [OF kv w(3)]] unfolding find None de
                by (simp add: w(2) bv)
            qed (use v(1) Suc.prems(2,3) sb in simp_all)
          qed
          then show ?thesis unfolding None by (simp only: option.case wp_nest)
        next
          case (Some j)
          have "j < 32" using Some by (auto simp: dir_scan_def find_Some_iff BSIZE_def)
          then have e: "get_dirent ?d (16 * j) = dir_entry s ?ip (32 * k + j)" by (simp add: dir_entry_def d)
          have o: "off + of_nat (16 * j) = of_nat (16 * (32 * k + j))" by (simp add: Suc.prems(5) BSIZE_def)
          have "wp (brelse bp) (\<lambda>_. wp (iget (i_dev ?ip) (ucast (de_inum (get_dirent ?d (16 * j)))))
              (\<lambda>m. Q (Some (m, off + of_nat (16 * j))))) u"
          proof (rule bc.give_back [OF u(1)])
            fix v :: "'z fs_state_scheme"
            assume v: "cache_ok {} v" "blk_at v = blk_at u" "bc.keeps {} u v"
            show "wp (iget (i_dev ?ip) (ucast (de_inum (get_dirent ?d (16 * j))))) (\<lambda>m. Q (Some (m, off + of_nat (16 * j)))) v"
              using Suc.prems(6) [OF v(1) _ bc.keeps_trans [OF bc.keeps_trans [OF t(3) u(3)] v(3)]]
              unfolding find Some e o by (simp add: v(2) u(2) t(2))
          qed
          then show ?thesis unfolding Some by (simp only: option.case wp_nest wp_ret_fun)
        qed
      qed (use mk in \<open>simp_all add: block_ok_def mapped_def NBUF_def\<close>)
    qed (rule mk)
    then show ?thesis using True lt by (simp add: get_inode_def) (simp only: wp_nest)
  qed
qed

section \<open>Properties\<close>

text \<open>\<open>readi\<close> of a file returns the bytes of the file from the given offset on, at most as many as asked for
  and none past its end, fails exactly when the offset lies past the end, and changes neither the disk
  nor an inode.\<close>

theorem readi_reads_file:
  fixes s :: "'z cons_state_scheme"
  assumes "cache_ok {} s" "i_type (inodes s ! i) \<noteq> T_DEV" "unat off + unat n < 2 ^ 32"
    and "\<forall>k. k * BSIZE < unat (i_size (inodes s ! i)) \<longrightarrow> mapped s (inodes s ! i) k"
  shows "wp (readi i off n) (\<lambda>r t.
      r = (if unat (i_size (inodes s ! i)) < unat off then None
           else Some (map (fbyte s (inodes s ! i)) [unat off..<min (unat off + unat n) (unat (i_size (inodes s ! i)))])) \<and>
      cache_ok {} t \<and> blk_at t = blk_at s \<and> inodes t = inodes s) s"
proof (rule wp_readi [OF assms(1-3)])
  show "mapped s (inodes s ! i) k" if "k * BSIZE < unat (i_size (inodes s ! i))" for k using assms(4) that by blast
qed (simp add: window_def keeps_inodes)

text \<open>A directory with one entry, \<open>.\<close>, on the disk of the example.\<close>

definition dot_entry :: dirent where
  "dot_entry = \<lparr>de_inum = 1, de_name = 46 # replicate 13 0\<rparr>"

definition dir_block :: "u8 list" where
  "dir_block = bytes_dirent dot_entry @ replicate 496 0"

definition root_cons :: cons_state where
  "root_cons = (let s = fs_state.extend root_open
       \<lparr>input = \<lparr>in_buf = replicate 128 0, in_r = 0, in_w = 0, in_e = 0\<rparr>, cons_locking = True, panicked = False, uart_on = False, serial = [],
        crt = replicate 2000 0, cursor = 0, devices = {1}\<rparr>
     in s\<lparr>disk := (disk s)(True := (disk s True)(29 := dir_block))\<rparr>)"

lemma length_dir_block: "length dir_block = BSIZE"
  by (simp add: dir_block_def bytes_dirent_def dot_entry_def BSIZE_def)

lemma root_cons_simps [simp]:
  "inodes root_cons = inodes root_open" "held root_cons = {}"
  by (simp_all add: root_cons_def Let_def fs_state.defs root_open_def bio_state.defs small_fs_def cold_cache_def)

lemma root_cons_disk: "disk root_cons = (disk root_open)(True := (disk root_open True)(29 := dir_block))"
  by (simp add: root_cons_def Let_def fs_state.defs)

lemma root_cons_ok: "cache_ok {} root_cons"
proof -
  have o: "cache_ok {} root_open" by (rule root_open_ok)
  have fl: "b_flags (bufs root_open ! b) = 0" if "b < NBUF" for b
    using that by (simp add: root_open_def bio_state.defs small_fs_def cold_cache_def cold_bufs_def nth_append raw_buf_def)
  then have f2: "b_flags (bufs root_cons ! b) = 0" if "b < NBUF" for b
    using that by (simp add: root_cons_def Let_def fs_state.defs)
  have d: "length (disk root_cons c n) = BSIZE" for c n
    using o by (simp add: root_cons_disk length_dir_block cache_ok_def cache_core_def machine_ok_def)
  have "buf_good {} (disk root_cons) b (bufs root_cons ! b)" if "b < NBUF" for b
    using f2 [OF that] by (simp add: buf_good_def)
  then show ?thesis
    using o d by (simp add: cache_ok_def cache_core_def cache_bufs_def machine_ok_def) (simp add: root_cons_def Let_def fs_state.defs)
qed

lemma root_cons_block: "blk_at root_cons (1, 29) = dir_block"
  by (simp add: blk_at_def blk_def root_cons_disk lba28_small)

lemma root_slot: "inodes root_cons ! 0 = root_inode" "0 < length (inodes root_cons)"
  by (simp_all add: nth_Cons)

lemma root_fields [simp]:
  "i_dev root_inode = 1" "i_inum root_inode = 1" "i_type root_inode = 1" "i_size root_inode = 512"
  by (simp_all add: root_inode_def T_DIR_def)

lemma root_mapped: "mapped root_cons root_inode k \<longleftrightarrow> k = 0"
proof -
  have "addr_of root_cons root_inode k = (if k = 0 then 29 else 0)" if "k < NDIRECT"
    using that by (simp add: addr_of_def root_inode_def nth_Cons')
  moreover have "i_addrs root_inode ! NDIRECT = 0" by (simp add: root_inode_def NDIRECT_def)
  ultimately show ?thesis
    by (cases "k < NDIRECT") (auto simp: mapped_def on_disk_def root_inode_def MAXFILE_def NDIRECT_def)
qed

lemma root_addr: "addr_of root_cons root_inode 0 = 29"
  by (simp add: addr_of_def NDIRECT_def root_inode_def)

lemma root_byte: "p < BSIZE \<Longrightarrow> fbyte root_cons root_inode p = dir_block ! p"
proof -
  have d: "i_dev root_inode = 1" by (simp add: root_inode_def)
  assume "p < BSIZE"
  then show ?thesis using root_cons_block by (simp add: fbyte_def fblock_def root_addr d)
qed

theorem readi_reads_file_witness:
  "wp (readi 0 0 3) (\<lambda>r t. r = Some [1, 0, 46]) root_cons"
proof (rule wp_mono [OF readi_reads_file])
  fix r t
  have n: "[0..<3] = [0, 1, 2]" by (simp add: upt_rec)
  have z: "unat (i_size root_inode) = 512" "unat (3 :: u32) = 3" by simp_all
  assume "r = (if unat (i_size (inodes root_cons ! 0)) < unat (0 :: u32) then None
      else Some (map (fbyte root_cons (inodes root_cons ! 0))
        [unat (0 :: u32)..<min (unat (0 :: u32) + unat (3 :: u32)) (unat (i_size (inodes root_cons ! 0)))])) \<and>
      cache_ok {} t \<and> blk_at t = blk_at root_cons \<and> inodes t = inodes root_cons"
  then show "r = Some [1, 0, 46]"
    unfolding root_slot z by (simp add: n root_byte BSIZE_def dir_block_def bytes_dirent_def bytes16_def dot_entry_def)
qed (unfold root_slot, auto simp: root_cons_ok root_mapped T_DEV_def BSIZE_def)

text \<open>C13: \<open>dirlookup\<close> finds the first entry of the directory that is in use and has the name, in entry order
  across its blocks, returns its byte offset and one more reference to its inode, and \<open>None\<close> exactly
  when there is no such entry.\<close>

theorem dirlookup_first_match:
  fixes s :: "'z fs_state_scheme"
  assumes "cache_ok {} s" "i_type (inodes s ! i) = T_DIR" "icache_ok (inodes s)" "icache_empty (inodes s) \<noteq> None"
    and "\<forall>k < blocks_of (inodes s ! i). mapped s (inodes s ! i) k"
  shows "wp (dirlookup i name) (\<lambda>r t. case dir_find s (inodes s ! i) name of
      None \<Rightarrow> r = None \<and> inodes t = inodes s
    | Some j \<Rightarrow> \<exists>m ip. r = Some (m, of_nat (16 * j)) \<and> m < NINODE \<and> inodes t = (inodes s)[m := ip] \<and> icache_ok (inodes t) \<and>
        i_dev ip = i_dev (inodes s ! i) \<and> i_inum ip = ucast (de_inum (dir_entry s (inodes s ! i) j)) \<and>
        i_ref ip = refs (inodes s) (i_dev ip) (i_inum ip) + 1) s"
    (is "wp _ ?Q s")
proof -
  let ?ip = "inodes s ! i"
  have "blocks_of ?ip \<le> unat (i_size ?ip) div BSIZE + 1"
    unfolding blocks_of_def using div_le_mono [of "unat (i_size ?ip) + (BSIZE - 1)" "unat (i_size ?ip) + BSIZE" BSIZE]
    by (simp add: BSIZE_def)
  then have fuel: "blocks_of ?ip \<le> 0 + Suc (unat (i_size ?ip) div BSIZE)" by simp
  have "wp (dirlookup_loop (Suc (unat (i_size ?ip) div BSIZE)) i name 0) ?Q s"
  proof (rule wp_dirlookup_loop [OF assms(1) _ fuel])
    show "mapped s ?ip k" if "k < blocks_of ?ip" for k using assms(5) that by blast
    fix t :: "'z fs_state_scheme"
    assume t: "cache_ok {} t" "bc.keeps {} s t"
    note it = keeps_inodes [OF t(2)]
    have find: "find (\<lambda>j. names name (dir_entry s ?ip j)) [32 * 0..<32 * blocks_of ?ip] = dir_find s ?ip name"
      by (simp add: dir_find_def)
    show "case find (\<lambda>j. names name (dir_entry s ?ip j)) [32 * 0..<32 * blocks_of ?ip] of None \<Rightarrow> ?Q None t
      | Some j \<Rightarrow> wp (iget (i_dev ?ip) (ucast (de_inum (dir_entry s ?ip j)))) (\<lambda>m. ?Q (Some (m, of_nat (16 * j)))) t"
      unfolding find
    proof (cases "dir_find s ?ip name")
      case (Some j)
      have "wp (iget (i_dev ?ip) (ucast (de_inum (dir_entry s ?ip j)))) (\<lambda>m. ?Q (Some (m, of_nat (16 * j)))) t"
      proof (rule wp_iget, unfold it)
        show "Licache \<notin> held t" using cache_held [OF t(1)] by simp
        show "icache_find (i_dev ?ip) (ucast (de_inum (dir_entry s ?ip j))) (inodes s) \<noteq> None \<or> icache_empty (inodes s) \<noteq> None"
          using assms(4) by simp
        show "?Q (Some (m, of_nat (16 * j))) (t\<lparr>inodes := (inodes s)[m := ip]\<rparr>)"
          if "m < NINODE" "i_dev ip = i_dev ?ip" "i_inum ip = ucast (de_inum (dir_entry s ?ip j))"
            "i_ref ip = refs (inodes s) (i_dev ?ip) (ucast (de_inum (dir_entry s ?ip j))) + 1" "icache_ok ((inodes s)[m := ip])" for m ip
          using that unfolding Some option.case by (intro exI [of _ m] exI [of _ ip]) simp
      qed (rule assms(3))
      then show "case dir_find s ?ip name of None \<Rightarrow> ?Q None t
        | Some j \<Rightarrow> wp (iget (i_dev ?ip) (ucast (de_inum (dir_entry s ?ip j)))) (\<lambda>m. ?Q (Some (m, of_nat (16 * j)))) t"
        unfolding Some by simp
    qed (simp add: it)
  qed simp_all
  then show ?thesis using assms(2) by (simp add: dirlookup_def get_inode_def)
qed

lemma dot_found: "dir_find root_cons root_inode [46] = Some 0"
proof -
  have "dir_entry root_cons root_inode 0 = dot_entry"
    using dirent_at [of dot_entry 0 "[]" "replicate 496 0"] root_cons_block
    by (simp add: dir_entry_def fblock_def root_addr dir_block_def dot_entry_def DIRSIZ_def)
  moreover have "names [46] dot_entry"
    by (simp add: names_def dot_entry_def namecmp_def DIRSIZ_def) code_simp
  moreover have "[0..<32 * blocks_of root_inode] = 0 # [1..<32]"
    by (simp add: blocks_of_def BSIZE_def upt_rec)
  ultimately show ?thesis by (simp add: dir_find_def)
qed

theorem dirlookup_first_match_witness:
  "wp (dirlookup 0 [46]) (\<lambda>r t. \<exists>m. r = Some (m, 0) \<and> i_ref (inodes t ! m) = 2) root_cons"
proof -
  have e: "icache_empty (inodes root_cons) \<noteq> None"
    using root_ref [of 1] by (auto simp: icache_empty_None NINODE_def intro!: exI [of _ 1])
  have b: "blocks_of root_inode = 1" by (simp add: blocks_of_def BSIZE_def)
  have d: "de_inum (dir_entry root_cons root_inode 0) = 1"
    using dirent_at [of dot_entry 0 "[]" "replicate 496 0"] root_cons_block
    by (simp add: dir_entry_def fblock_def root_addr dir_block_def dot_entry_def DIRSIZ_def)
  have f: "icache_find 1 1 (inodes root_cons) = Some 0"
    by (simp add: icache_find_def NINODE_def upt_rec root_inode_def)
  have r: "refs (inodes root_cons) 1 1 = 1" unfolding refs_def f by (simp add: root_inode_def)
  have "wp (dirlookup 0 [46]) (\<lambda>r t. case dir_find root_cons (inodes root_cons ! 0) [46] of
      None \<Rightarrow> r = None \<and> inodes t = inodes root_cons
    | Some j \<Rightarrow> \<exists>m ip. r = Some (m, of_nat (16 * j)) \<and> m < NINODE \<and> inodes t = (inodes root_cons)[m := ip] \<and> icache_ok (inodes t) \<and>
        i_dev ip = i_dev (inodes root_cons ! 0) \<and> i_inum ip = ucast (de_inum (dir_entry root_cons (inodes root_cons ! 0) j)) \<and>
        i_ref ip = refs (inodes root_cons) (i_dev ip) (i_inum ip) + 1) root_cons"
    by (rule dirlookup_first_match, unfold root_slot)
      (use e b root_open_icache in \<open>simp_all add: root_cons_ok root_mapped T_DIR_def del: root_open_simps\<close>)
  then show ?thesis
  proof (rule wp_mono, unfold root_slot dot_found option.case, elim exE conjE)
    fix x t m ip
    assume "x = Some (m, of_nat (16 * 0))" "m < NINODE" "inodes t = (inodes root_cons)[m := ip]" "icache_ok (inodes t)"
      "i_dev ip = i_dev root_inode" "i_inum ip = ucast (de_inum (dir_entry root_cons root_inode 0))"
      "i_ref ip = refs (inodes root_cons) (i_dev ip) (i_inum ip) + 1"
    moreover have "length (inodes root_cons) = NINODE" using root_open_icache by (simp add: icache_ok_def)
    ultimately show "\<exists>m. x = Some (m, 0) \<and> i_ref (inodes t ! m) = 2"
      using r d by (intro exI [of _ m]) (simp del: root_open_simps root_cons_simps)
  qed
qed

section \<open>Paths\<close>

text \<open>The pieces between slashes, and those that are not empty: the elements of a path.\<close>

fun pieces :: "u8 list \<Rightarrow> u8 list list" where
  "pieces [] = [[]]"
| "pieces (c # cs) = (if c = slash then [] # pieces cs else (c # hd (pieces cs)) # tl (pieces cs))"

definition elements :: "u8 list \<Rightarrow> u8 list list" where
  "elements path = filter (\<lambda>e. e \<noteq> []) (pieces path)"

lemma pieces_ne [simp]: "pieces p \<noteq> []"
  by (induction p) simp_all

lemma elements_slash [simp]: "elements (slash # p) = elements p"
  by (simp add: elements_def)

lemma elements_drop: "elements (dropWhile (\<lambda>c. c = slash) p) = elements p"
  by (induction p) (simp_all add: elements_def)

lemma pieces_append: "slash \<notin> set e \<Longrightarrow> pieces (e @ q) = (e @ hd (pieces q)) # tl (pieces q)"
  by (induction e) auto

lemma elements_append:
  assumes "slash \<notin> set e" "e \<noteq> []" "q = [] \<or> hd q = slash"
  shows "elements (e @ q) = e # elements q"
proof (cases q)
  case Nil
  then show ?thesis using assms(1,2) pieces_append [of e "[]"] by (simp add: elements_def)
next
  case (Cons c q')
  then show ?thesis using assms pieces_append [of e q] by (simp add: elements_def)
qed

text \<open>\<open>skipelem\<close> splits a path at its slashes: it returns the first non-empty piece, cut to the 14 bytes of
  a directory entry, with a rest that has exactly the remaining pieces and starts with none of the
  slashes, and reports the end exactly on a path without elements.\<close>

theorem skipelem_splits:
  "case elements path of [] \<Rightarrow> skipelem path = None
   | e # es \<Rightarrow> \<exists>rest. skipelem path = Some (rest, take DIRSIZ e) \<and> elements rest = es \<and> takeWhile (\<lambda>c. c = slash) rest = []"
proof (cases "dropWhile (\<lambda>c. c = slash) path")
  case Nil
  have "elements path = []" using elements_drop [of path] unfolding Nil by (simp add: elements_def)
  then show ?thesis using Nil by (simp add: skipelem_def)
next
  case (Cons x xs)
  let ?p = "x # xs" and ?ne = "\<lambda>c. c \<noteq> slash"
  let ?e = "takeWhile ?ne ?p" and ?q = "dropWhile ?ne ?p"
  have x: "x \<noteq> slash" using hd_dropWhile [of "\<lambda>c. c = slash" path] Cons by simp
  have "?q = [] \<or> hd ?q = slash" using hd_dropWhile [of ?ne ?p] by blast
  then have "elements (?e @ ?q) = ?e # elements ?q"
    using x by (intro elements_append) (auto dest: set_takeWhileD)
  then have el: "elements path = ?e # elements ?q"
    using elements_drop [of path] Cons by (simp only: takeWhile_dropWhile_id)
  have sk: "skipelem path = Some (dropWhile (\<lambda>c. c = slash) ?q, take DIRSIZ ?e)"
    by (simp only: skipelem_def Let_def Cons) simp
  have "takeWhile P (dropWhile P ys) = []" for P and ys :: "u8 list" by (induction ys) simp_all
  then show ?thesis unfolding el list.case sk using elements_drop [of ?q] by blast
qed

end
