(* ===== verification/Grow.thy ===== *)
theory Grow
  imports Files
begin

text \<open>
  Files that grow: what \<open>writei\<close> of \<open>kernel/fs.c\<close> does when \<open>bmap\<close> has to allocate blocks, direct ones,
  entries of the indirect block and the indirect block itself.  \<open>fs_wf s ip\<close> says how the inode, the
  bitmap and the free blocks of the disk of \<open>s\<close> fit together; \<open>bmap\<close> keeps it, maps the block that was asked
  for and leaves the bytes of the file alone, as long as there are as many free blocks as are missing.
\<close>

section \<open>The file and the free blocks\<close>

text \<open>The blocks the allocator reads, and the block of the inode.\<close>

definition meta :: "'z bio_state_scheme \<Rightarrow> inode \<Rightarrow> u32 \<Rightarrow> bool" where
  "meta s ip a \<longleftrightarrow> (i_dev ip, a) \<in> map_area (i_dev ip) (sb_at s (i_dev ip)) \<or> a = IBLOCK (i_inum ip)"

definition in_use :: "'z bio_state_scheme \<Rightarrow> inode \<Rightarrow> u32 \<Rightarrow> bool" where
  "in_use s ip a \<longleftrightarrow> a \<noteq> 0 \<and> a < sb_size (sb_at s (i_dev ip))
     \<and> used s (i_dev ip) (sb_at s (i_dev ip)) (unat a) \<and> \<not> meta s ip a"

definition free_nos :: "'z bio_state_scheme \<Rightarrow> inode \<Rightarrow> nat set" where
  "free_nos s ip = {c. c < unat (sb_size (sb_at s (i_dev ip))) \<and> \<not> used s (i_dev ip) (sb_at s (i_dev ip)) c}"

text \<open>Block \<open>k\<close> of the file has no address.\<close>

definition vacant :: "'z bio_state_scheme \<Rightarrow> inode \<Rightarrow> nat \<Rightarrow> bool" where
  "vacant s ip k \<longleftrightarrow> (if k < NDIRECT then i_addrs ip ! k = 0 else i_addrs ip ! NDIRECT = 0 \<or> addr_of s ip k = 0)"

definition fs_wf :: "'z bio_state_scheme \<Rightarrow> inode \<Rightarrow> bool" where
  "fs_wf s ip \<longleftrightarrow> geom (i_dev ip) (sb_at s (i_dev ip)) \<and> i_inum ip < 0x40000000 \<and> length (i_addrs ip) = Suc NDIRECT
     \<and> (i_dev ip, IBLOCK (i_inum ip)) \<notin> map_area (i_dev ip) (sb_at s (i_dev ip))
     \<and> (i_addrs ip ! NDIRECT \<noteq> 0 \<longrightarrow> in_use s ip (i_addrs ip ! NDIRECT))
     \<and> (\<forall>k < MAXFILE. \<not> vacant s ip k \<longrightarrow> in_use s ip (addr_of s ip k))
     \<and> file_wf s ip
     \<and> (\<forall>c \<in> free_nos s ip. c \<noteq> 0 \<and> \<not> meta s ip (of_nat c) \<and> blk_at s (i_dev ip, of_nat c) = replicate BSIZE 0)"

text \<open>The blocks that a write up to block \<open>hi\<close> may have to allocate from block \<open>lo\<close> on.\<close>

definition missing :: "'z bio_state_scheme \<Rightarrow> inode \<Rightarrow> nat \<Rightarrow> nat \<Rightarrow> nat" where
  "missing s ip lo hi = card {k. lo \<le> k \<and> k < hi \<and> \<not> mapped s ip k}
     + (if NDIRECT < hi \<and> i_addrs ip ! NDIRECT = 0 then 1 else 0)"

lemma fs_wfD:
  assumes "fs_wf s ip"
  shows "geom (i_dev ip) (sb_at s (i_dev ip))" "i_inum ip < 0x40000000" "length (i_addrs ip) = Suc NDIRECT"
    "(i_dev ip, IBLOCK (i_inum ip)) \<notin> map_area (i_dev ip) (sb_at s (i_dev ip))"
    "i_addrs ip ! NDIRECT \<noteq> 0 \<Longrightarrow> in_use s ip (i_addrs ip ! NDIRECT)"
    "k < MAXFILE \<Longrightarrow> \<not> vacant s ip k \<Longrightarrow> in_use s ip (addr_of s ip k)"
    "file_wf s ip"
    "c \<in> free_nos s ip \<Longrightarrow> c \<noteq> 0 \<and> \<not> meta s ip (of_nat c) \<and> blk_at s (i_dev ip, of_nat c) = replicate BSIZE 0"
  using assms unfolding fs_wf_def by blast+

lemma geom_small: "geom dev sb \<Longrightarrow> a < sb_size sb \<Longrightarrow> on_disk dev a"
  by (simp add: geom_def on_disk_def word_less_nat_alt)

lemma in_use_disk: "fs_wf s ip \<Longrightarrow> in_use s ip a \<Longrightarrow> on_disk (i_dev ip) a \<and> block_ok (i_dev ip, a)"
  using geom_small [OF fs_wfD(1), of s ip a] by (simp add: in_use_def block_ok_def)

lemma mapped_vacant:
  assumes "fs_wf s ip"
  shows "mapped s ip k \<longleftrightarrow> k < MAXFILE \<and> \<not> vacant s ip k"
proof
  assume m: "mapped s ip k"
  then show "k < MAXFILE \<and> \<not> vacant s ip k"
    by (auto simp: mapped_def vacant_def addr_of_def split: if_splits)
next
  assume k: "k < MAXFILE \<and> \<not> vacant s ip k"
  then have u: "in_use s ip (addr_of s ip k)" using fs_wfD(6) [OF assms] by blast
  moreover have "i_addrs ip ! NDIRECT \<noteq> 0" if "NDIRECT \<le> k" using k that by (simp add: vacant_def)
  ultimately show "mapped s ip k"
    using k in_use_disk [OF assms u] in_use_disk [OF assms fs_wfD(5) [OF assms]]
    by (simp add: mapped_def in_use_def)
qed

lemma mapped_in_use: "fs_wf s ip \<Longrightarrow> mapped s ip k \<Longrightarrow> in_use s ip (addr_of s ip k)"
  using mapped_vacant fs_wfD(6) by blast

lemma mapped_block_ok: "mapped s ip k \<Longrightarrow> block_ok (i_dev ip, addr_of s ip k)"
  by (simp add: mapped_def block_ok_def)

lemma free_no_small: "fs_wf s ip \<Longrightarrow> c \<in> free_nos s ip \<Longrightarrow> c < 2 ^ 28 \<and> unat (of_nat c :: u32) = c"
proof -
  assume "fs_wf s ip" "c \<in> free_nos s ip"
  then have "c < 2 ^ 28" using fs_wfD(1) [of s ip] by (simp add: free_nos_def geom_def)
  moreover from this have "unat (of_nat c :: u32) = c" by (intro unat_of_nat_small) simp
  ultimately show ?thesis by simp
qed

lemma free_not_in_use: "fs_wf s ip \<Longrightarrow> c \<in> free_nos s ip \<Longrightarrow> \<not> in_use s ip (of_nat c)"
  using free_no_small [of s ip c] by (auto simp: in_use_def free_nos_def)

lemma finite_free_nos [simp]: "finite (free_nos s ip)"
  by (simp add: free_nos_def)

section \<open>Taking a block\<close>

text \<open>The free block \<open>c\<close> has been taken: its bit is set, and outside the bitmap and the indirect block of the
  file nothing has changed.\<close>

definition taken :: "'z bio_state_scheme \<Rightarrow> inode \<Rightarrow> nat \<Rightarrow> 'z bio_state_scheme \<Rightarrow> bool" where
  "taken s ip c t \<longleftrightarrow> c \<in> free_nos s ip \<and> sb_at t (i_dev ip) = sb_at s (i_dev ip)
     \<and> (\<forall>k < unat (sb_size (sb_at s (i_dev ip))).
          used t (i_dev ip) (sb_at s (i_dev ip)) k \<longleftrightarrow> k = c \<or> used s (i_dev ip) (sb_at s (i_dev ip)) k)
     \<and> (\<forall>x. block_ok x \<longrightarrow> x \<notin> map_area (i_dev ip) (sb_at s (i_dev ip)) \<longrightarrow>
          (i_addrs ip ! NDIRECT \<noteq> 0 \<longrightarrow> x \<noteq> (i_dev ip, i_addrs ip ! NDIRECT)) \<longrightarrow> blk_at t x = blk_at s x)"

lemma taken_facts:
  assumes "fs_wf s ip" "taken s ip c t" "i_dev jp = i_dev ip" "i_inum jp = i_inum ip"
  shows "free_nos t jp = free_nos s ip - {c}" "meta t jp = meta s ip"
    "in_use t jp a \<longleftrightarrow> in_use s ip a \<or> a = of_nat c"
proof -
  have c: "c \<in> free_nos s ip" using assms(2) by (simp add: taken_def)
  note cs = free_no_small [OF assms(1) c]
  show "free_nos t jp = free_nos s ip - {c}" using assms(2,3) by (auto simp: free_nos_def taken_def)
  show me: "meta t jp = meta s ip" using assms(2-4) by (simp add: meta_def fun_eq_iff taken_def)
  have "in_use t jp (of_nat c)"
    using assms(2,3) fs_wfD(8) [OF assms(1) c] cs c me
    by (auto simp: in_use_def taken_def free_nos_def word_less_nat_alt)
  moreover have "in_use t jp a \<longleftrightarrow> in_use s ip a" if "a \<noteq> of_nat c"
  proof -
    have "unat a \<noteq> c" using that by (metis word_unat_eq_iff cs)
    then show ?thesis using assms(2,3) me by (auto simp: in_use_def taken_def word_less_nat_alt)
  qed
  ultimately show "in_use t jp a \<longleftrightarrow> in_use s ip a \<or> a = of_nat c" by blast
qed

lemma taken_block:
  assumes "fs_wf s ip" "taken s ip c t" "block_ok (i_dev ip, a)" "\<not> meta s ip a"
    and "i_addrs ip ! NDIRECT \<noteq> 0 \<Longrightarrow> a \<noteq> i_addrs ip ! NDIRECT"
  shows "blk_at t (i_dev ip, a) = blk_at s (i_dev ip, a)"
  using assms(2,3,4,5) by (auto simp: taken_def meta_def)

text \<open>The rest of the free blocks is still free, zero, and outside the metadata.\<close>

lemma taken_free:
  assumes "fs_wf s ip" "taken s ip c t" "i_dev jp = i_dev ip" "i_inum jp = i_inum ip" "k \<in> free_nos t jp"
  shows "k \<noteq> 0 \<and> \<not> meta t jp (of_nat k) \<and> blk_at t (i_dev jp, of_nat k) = replicate BSIZE 0"
proof -
  note tf = taken_facts [OF assms(1-4)]
  have k: "k \<in> free_nos s ip" using assms(5) by (simp add: tf(1))
  note z = fs_wfD(8) [OF assms(1) k] and ks = free_no_small [OF assms(1) k]
  have "of_nat k < sb_size (sb_at s (i_dev ip))" using k ks by (simp add: free_nos_def word_less_nat_alt)
  then have "block_ok (i_dev ip, of_nat k)"
    using geom_small [OF fs_wfD(1) [OF assms(1)]] by (simp add: block_ok_def)
  moreover have "of_nat k \<noteq> i_addrs ip ! NDIRECT" if "i_addrs ip ! NDIRECT \<noteq> 0"
    using fs_wfD(5) [OF assms(1) that] free_not_in_use [OF assms(1) k] by auto
  ultimately show ?thesis
    using taken_block [OF assms(1,2), of "of_nat k"] z by (simp add: tf(2) assms(3))
qed

text \<open>The block becomes block \<open>k\<close> of the file.\<close>

lemma block_added:
  assumes wf: "fs_wf s ip" and t: "taken s ip c t" and k: "k < MAXFILE" "\<not> mapped s ip k"
    and jp: "i_dev jp = i_dev ip" "i_inum jp = i_inum ip" "length (i_addrs jp) = Suc NDIRECT"
      "i_addrs jp ! NDIRECT = i_addrs ip ! NDIRECT"
    and ind: "NDIRECT \<le> k \<Longrightarrow> i_addrs ip ! NDIRECT \<noteq> 0"
    and a: "\<And>m. m < MAXFILE \<Longrightarrow> m < NDIRECT \<or> i_addrs ip ! NDIRECT \<noteq> 0 \<Longrightarrow>
      addr_of t jp m = (if m = k then of_nat c else addr_of s ip m)"
  shows "fs_wf t jp" "mapped t jp m \<longleftrightarrow> m = k \<or> mapped s ip m" "addr_of t jp k = of_nat c"
    "mapped s ip m \<Longrightarrow> addr_of t jp m = addr_of s ip m"
proof -
  note tf = taken_facts [OF wf t jp(1,2)]
  have c: "c \<in> free_nos s ip" using t by (simp add: taken_def)
  note cs = free_no_small [OF wf c] and cz = fs_wfD(8) [OF wf c]
  have c0: "(of_nat c :: u32) \<noteq> 0" using cs cz by (metis unat_0)
  have sb: "sb_at t (i_dev jp) = sb_at s (i_dev ip)" using t jp(1) by (simp add: taken_def)
  have va: "vacant t jp m \<longleftrightarrow> m \<noteq> k \<and> vacant s ip m" if "m < MAXFILE" for m
  proof (cases "m < NDIRECT \<or> i_addrs ip ! NDIRECT \<noteq> 0")
    case True
    have d: "i_addrs jp ! m = addr_of t jp m" "i_addrs ip ! m = addr_of s ip m" if "m < NDIRECT" using that by (simp_all add: addr_of_def)
    show ?thesis using True a [OF that True] c0 d jp(4) by (auto simp: vacant_def)
  next
    case False
    then show ?thesis using jp(4) ind by (auto simp: vacant_def)
  qed
  show ak: "addr_of t jp k = of_nat c" using a [OF k(1)] ind by (cases "k < NDIRECT") auto
  have am: "addr_of t jp m = addr_of s ip m" if "mapped s ip m" for m
    using that a [of m] k(2) by (auto simp: mapped_def)
  then show "mapped s ip m \<Longrightarrow> addr_of t jp m = addr_of s ip m" .
  have vk: "m < MAXFILE \<and> \<not> vacant t jp m \<longleftrightarrow> m = k \<or> mapped s ip m" for m
    using va [of m] k(1) unfolding mapped_vacant [OF wf] by blast
  have use: "in_use t jp (addr_of t jp m)" if "m < MAXFILE" "\<not> vacant t jp m" for m
  proof (cases "m = k")
    case True
    then show ?thesis by (simp add: ak tf(3))
  next
    case False
    then have "mapped s ip m" using vk that by blast
    then show ?thesis using mapped_in_use [OF wf] am by (simp add: tf(3))
  qed
  have od: "on_disk (i_dev ip) a" if "in_use t jp a" for a
    using that geom_small [OF fs_wfD(1) [OF wf]] by (simp add: in_use_def sb)
  have mt: "mapped t jp m \<longleftrightarrow> m = k \<or> mapped s ip m" for m
  proof
    assume "mapped t jp m"
    then have "m < MAXFILE \<and> \<not> vacant t jp m" by (auto simp: mapped_def vacant_def addr_of_def split: if_splits)
    then show "m = k \<or> mapped s ip m" using vk by blast
  next
    assume "m = k \<or> mapped s ip m"
    then have v: "m < MAXFILE \<and> \<not> vacant t jp m" using vk by blast
    then have "i_addrs ip ! NDIRECT \<noteq> 0" if "NDIRECT \<le> m" using that jp(4) by (simp add: vacant_def)
    moreover from this have "in_use t jp (i_addrs ip ! NDIRECT)" if "NDIRECT \<le> m"
      using that tf(3) fs_wfD(5) [OF wf] by blast
    ultimately show "mapped t jp m" using v use [of m] od jp(1,4) by (auto simp: mapped_def in_use_def)
  qed
  then show "mapped t jp m \<longleftrightarrow> m = k \<or> mapped s ip m" .
  have new: "addr_of s ip m \<noteq> of_nat c" if "mapped s ip m" for m
    using mapped_in_use [OF wf that] free_not_in_use [OF wf c] by auto
  have newi: "i_addrs ip ! NDIRECT \<noteq> of_nat c"
    using fs_wfD(5) [OF wf] free_not_in_use [OF wf c] c0 by metis
  have old: "file_wf s ip" by (rule fs_wfD(7) [OF wf])
  have "file_wf t jp"
    unfolding file_wf_def mt
  proof (intro conjI allI impI)
    fix m n assume m: "m = k \<or> mapped s ip m" and n: "n = k \<or> mapped s ip n" and e: "addr_of t jp m = addr_of t jp n"
    have one: "n = k" if "m = k" "n = k \<or> mapped s ip n" "addr_of t jp m = addr_of t jp n" for m n
      using that ak am [of n] new [of n] by auto
    show "m = n"
    proof (cases "m = k \<or> n = k")
      case True
      then show ?thesis using one [OF _ n e] one [OF _ m e [symmetric]] by auto
    next
      case False
      then show ?thesis using m n e am old by (simp add: file_wf_def)
    qed
  next
    fix m assume m: "m = k \<or> mapped s ip m"
    show "addr_of t jp m \<noteq> i_addrs jp ! NDIRECT"
    proof (cases "m = k")
      case True
      then show ?thesis using ak newi jp(4) by simp
    next
      case False
      then show ?thesis using m am old jp(4) by (simp add: file_wf_def)
    qed
  qed
  moreover have "in_use t jp (i_addrs jp ! NDIRECT)" if "i_addrs jp ! NDIRECT \<noteq> 0"
    using that fs_wfD(5) [OF wf] tf(3) by (simp add: jp(4))
  ultimately show "fs_wf t jp"
    unfolding fs_wf_def
    using use taken_free [OF wf t jp(1,2)] fs_wfD(1,2,4) [OF wf] jp(1-3) by (simp add: sb [unfolded jp(1)])
qed

text \<open>The block becomes the indirect block of the file, which was without one.\<close>

lemma indirect_added:
  assumes wf: "fs_wf s ip" and t: "taken s ip c t" and i0: "i_addrs ip ! NDIRECT = 0"
    and jp: "jp = ip\<lparr>i_addrs := (i_addrs ip)[NDIRECT := of_nat c]\<rparr>"
  shows "fs_wf t jp" "mapped t jp m = mapped s ip m" "mapped s ip m \<Longrightarrow> addr_of t jp m = addr_of s ip m"
    "i_addrs jp ! NDIRECT \<noteq> 0"
proof -
  have len: "length (i_addrs ip) = Suc NDIRECT" by (rule fs_wfD(3) [OF wf])
  have j: "i_dev jp = i_dev ip" "i_inum jp = i_inum ip" "i_addrs jp ! NDIRECT = of_nat c"
    "length (i_addrs jp) = Suc NDIRECT" "\<And>m. m < NDIRECT \<Longrightarrow> i_addrs jp ! m = i_addrs ip ! m"
    by (simp_all add: jp len)
  note tf = taken_facts [OF wf t j(1,2)]
  have c: "c \<in> free_nos s ip" using t by (simp add: taken_def)
  note cs = free_no_small [OF wf c] and cz = fs_wfD(8) [OF wf c]
  have c0: "(of_nat c :: u32) \<noteq> 0" using cs cz by (metis unat_0)
  then show "i_addrs jp ! NDIRECT \<noteq> 0" by (simp add: j(3))
  have sb: "sb_at t (i_dev jp) = sb_at s (i_dev ip)" using t j(1) by (simp add: taken_def)
  have uc: "in_use t jp (of_nat c)" by (simp add: tf(3))
  then have "block_ok (i_dev ip, of_nat c)"
    using geom_small [OF fs_wfD(1) [OF wf], of "of_nat c"] by (simp add: in_use_def sb block_ok_def)
  then have "blk_at t (i_dev ip, of_nat c) = replicate BSIZE 0"
    using taken_block [OF wf t, of "of_nat c"] cz i0 by simp
  then have a0: "addr_of t jp m = 0" if "NDIRECT \<le> m" "m < MAXFILE" for m
  proof -
    have "4 * (m - NDIRECT) + 3 < BSIZE" using that by (simp add: BSIZE_def MAXFILE_def NDIRECT_def)
    then show ?thesis
      using that(1) \<open>blk_at t (i_dev ip, of_nat c) = replicate BSIZE 0\<close>
      by (simp add: addr_of_def j(1,3) get32_def join4_def)
  qed
  have ad: "addr_of t jp m = addr_of s ip m" if "m < NDIRECT" for m
    using that by (simp add: addr_of_def j(5))
  have va: "vacant t jp m = vacant s ip m" if "m < MAXFILE" for m
    using that a0 [of m] j(5) i0 by (simp add: vacant_def)
  have low: "m < NDIRECT" if "mapped s ip m" for m
    using that i0 by (auto simp: mapped_def not_less)
  show am: "addr_of t jp m = addr_of s ip m" if "mapped s ip m" for m using ad low [OF that] by simp
  have mt: "mapped t jp m = mapped s ip m" for m
  proof (cases "m < NDIRECT")
    case True
    then show ?thesis using ad [OF True] by (simp add: mapped_def j(1))
  next
    case False
    then show ?thesis using a0 [of m] low [of m] by (auto simp: mapped_def)
  qed
  then show "mapped t jp m = mapped s ip m" .
  have new: "addr_of s ip m \<noteq> of_nat c" if "mapped s ip m" for m
    using mapped_in_use [OF wf that] free_not_in_use [OF wf c] by auto
  have "file_wf t jp"
    using fs_wfD(7) [OF wf] am new unfolding file_wf_def mt j(3) by metis
  moreover have "in_use t jp (addr_of t jp m)" if "m < MAXFILE" "\<not> vacant t jp m" for m
  proof -
    have "mapped s ip m" using that va mapped_vacant [OF wf] by blast
    then show ?thesis using am mapped_in_use [OF wf] tf(3) by metis
  qed
  ultimately show "fs_wf t jp"
    unfolding fs_wf_def
    using uc taken_free [OF wf t j(1,2)] fs_wfD(1,2,4) [OF wf] j(1-4) by (simp add: sb [unfolded j(1)])
qed

section \<open>What stays as it is\<close>

text \<open>Another inode with the same identity and size has at least the blocks of this one, with the same contents.\<close>

definition file_kept :: "'z bio_state_scheme \<Rightarrow> inode \<Rightarrow> 'z bio_state_scheme \<Rightarrow> inode \<Rightarrow> bool" where
  "file_kept s ip t jp \<longleftrightarrow> jp = ip\<lparr>i_addrs := i_addrs jp\<rparr> \<and> sb_at t (i_dev ip) = sb_at s (i_dev ip)
     \<and> (\<forall>m. mapped s ip m \<longrightarrow> mapped t jp m \<and> fblock t jp m = fblock s ip m)"

lemma file_kept_refl: "file_kept s ip s ip"
  by (simp add: file_kept_def)

lemma kept_fields:
  assumes "file_kept s ip t jp"
  shows "i_dev jp = i_dev ip" "i_inum jp = i_inum ip" "i_size jp = i_size ip" "i_type jp = i_type ip"
proof -
  have j: "jp = ip\<lparr>i_addrs := i_addrs jp\<rparr>" using assms by (simp add: file_kept_def)
  show "i_dev jp = i_dev ip" "i_inum jp = i_inum ip" "i_size jp = i_size ip" "i_type jp = i_type ip"
    by (subst j, simp)+
qed

lemma file_kept_trans: "file_kept s ip t jp \<Longrightarrow> file_kept t jp u kp \<Longrightarrow> file_kept s ip u kp"
proof -
  assume a: "file_kept s ip t jp" and b: "file_kept t jp u kp"
  have j: "jp = ip\<lparr>i_addrs := i_addrs jp\<rparr>" and k: "kp = jp\<lparr>i_addrs := i_addrs kp\<rparr>" using a b by (simp_all add: file_kept_def)
  have "jp\<lparr>i_addrs := i_addrs kp\<rparr> = ip\<lparr>i_addrs := i_addrs kp\<rparr>" by (subst j) simp
  then have "kp = ip\<lparr>i_addrs := i_addrs kp\<rparr>" using k by simp
  then show ?thesis using a b kept_fields(1) [OF a] by (simp add: file_kept_def)
qed

lemma same_disk:
  assumes "blk_at t = blk_at s"
  shows "sb_at t = sb_at s" "used t = used s" "meta t = meta s" "in_use t = in_use s" "free_nos t = free_nos s"
    "vacant t = vacant s" "fs_wf t = fs_wf s" "mapped t = mapped s" "addr_of t = addr_of s" "fblock t = fblock s"
    "missing t = missing s" "file_kept r jp t = file_kept r jp s" "taken r ip c t = taken r ip c s"
proof -
  show sb: "sb_at t = sb_at s" and u: "used t = used s" by (simp_all add: fun_eq_iff sb_at_def used_def assms)
  show ad: "addr_of t = addr_of s" by (simp add: fun_eq_iff addr_of_def assms)
  show mp: "mapped t = mapped s" by (simp add: fun_eq_iff mapped_def ad)
  show me: "meta t = meta s" by (simp add: fun_eq_iff meta_def sb)
  show iu: "in_use t = in_use s" by (simp add: fun_eq_iff in_use_def sb u me)
  show fr: "free_nos t = free_nos s" by (simp add: fun_eq_iff free_nos_def sb u)
  show va: "vacant t = vacant s" by (simp add: fun_eq_iff vacant_def ad)
  show fb: "fblock t = fblock s" by (simp add: fun_eq_iff fblock_def ad assms)
  show "missing t = missing s" by (simp add: fun_eq_iff missing_def mp)
  show "fs_wf t = fs_wf s" by (simp add: fun_eq_iff fs_wf_def sb iu fr va mp me ad file_wf_def assms)
  show "file_kept r jp t = file_kept r jp s" by (simp add: fun_eq_iff file_kept_def sb mp fb)
  show "taken r ip c t = taken r ip c s" by (simp add: taken_def sb u assms)
qed

lemma added_kept:
  assumes wf: "fs_wf s ip" and t: "taken s ip c t" and jp: "jp = ip\<lparr>i_addrs := ys\<rparr>"
    and m: "\<And>m. mapped s ip m \<Longrightarrow> mapped t jp m \<and> addr_of t jp m = addr_of s ip m"
  shows "file_kept s ip t jp"
proof -
  have "fblock t jp m = fblock s ip m" if "mapped s ip m" for m
  proof -
    have "addr_of s ip m \<noteq> i_addrs ip ! NDIRECT" using fs_wfD(7) [OF wf] that by (simp add: file_wf_def)
    then show ?thesis
      using taken_block [OF wf t mapped_block_ok [OF that]] mapped_in_use [OF wf that] m [OF that]
      by (simp add: fblock_def jp in_use_def)
  qed
  then show ?thesis using m t by (simp add: file_kept_def jp taken_def)
qed

section \<open>How many blocks are missing\<close>

lemma missing_next: "missing s ip (Suc k) hi \<le> missing s ip k hi"
  unfolding missing_def by (intro add_mono card_mono) auto

lemma missing_less:
  assumes "\<And>m. mapped s ip m \<Longrightarrow> mapped t jp m" "\<not> mapped s ip k" "k < hi"
    and "i_addrs jp ! NDIRECT = i_addrs ip ! NDIRECT"
  shows "missing t jp (Suc k) hi < missing s ip k hi"
proof -
  let ?A = "{m. Suc k \<le> m \<and> m < hi \<and> \<not> mapped t jp m}" and ?B = "{m. k \<le> m \<and> m < hi \<and> \<not> mapped s ip m}"
  have "?A \<subseteq> ?B" using assms(1) by auto
  moreover have "k \<in> ?B" "k \<notin> ?A" using assms(2,3) by simp_all
  ultimately have "?A \<subset> ?B" by blast
  then have "card ?A < card ?B" by (intro psubset_card_mono) simp_all
  then show ?thesis by (simp add: missing_def assms(4))
qed

lemma missing_indirect:
  assumes "\<And>m. mapped t jp m = mapped s ip m" "i_addrs ip ! NDIRECT = 0" "i_addrs jp ! NDIRECT \<noteq> 0" "NDIRECT < hi"
  shows "missing t jp k hi < missing s ip k hi"
  using assms by (simp add: missing_def)

lemma free_less:
  assumes "fs_wf s ip" "taken s ip c t" "i_dev jp = i_dev ip" "i_inum jp = i_inum ip"
  shows "card (free_nos s ip) = Suc (card (free_nos t jp))"
  using assms(2) taken_facts(1) [OF assms] card.remove [of "free_nos s ip" c] by (simp add: taken_def)

section \<open>balloc and bmap\<close>

lemma wp_balloc_free:
  assumes s: "cache_ok H s" "fs_wf s ip" "free_nos s ip \<noteq> {}" "card H < NBUF"
    "\<And>h. h \<in> H \<Longrightarrow> home_at s h \<notin> map_area (i_dev ip) (sb_at s (i_dev ip))"
    and post: "\<And>c t. \<lbrakk>cache_ok H t; taken s ip c t; \<forall>x. block_ok x \<longrightarrow> x \<notin> map_area (i_dev ip) (sb_at s (i_dev ip)) \<longrightarrow> blk_at t x = blk_at s x;
      bc.keeps H s t\<rbrakk> \<Longrightarrow> Q (of_nat c) t"
  shows "wp (balloc (i_dev ip)) Q s"
proof -
  let ?sb = "sb_at s (i_dev ip)"
  define c where "c = Min (free_nos s ip)"
  have c: "c \<in> free_nos s ip" using s(3) Min_in [OF finite_free_nos] by (simp add: c_def)
  have least: "k \<notin> free_nos s ip" if "k < c" for k
  proof
    assume "k \<in> free_nos s ip"
    then have "c \<le> k" unfolding c_def by (intro Min_le) simp_all
    then show False using that by simp
  qed
  have lt: "c < unat (sb_size ?sb)" and nu: "\<not> used s (i_dev ip) ?sb c" using c by (simp_all add: free_nos_def)
  note g = fs_wfD(1) [OF s(2)]
  have cs: "c \<le> 2 ^ 28" using free_no_small [OF s(2) c] by simp
  have "BPB * (c div BPB) \<le> c" by simp
  then have b: "BPB * (c div BPB) < unat (sb_size ?sb)" using lt by (rule le_less_trans)
  show ?thesis
  proof (rule wp_balloc [OF s(1) g s(5,4) b nu])
    show "used s (i_dev ip) ?sb k" if "k < c" for k using least [OF that] that lt by (simp add: free_nos_def)
    fix t assume t: "cache_ok H t" "bit_changed bmap_set (i_dev ip) ?sb c s t" "bc.keeps H s t"
    have same: "\<forall>x. block_ok x \<longrightarrow> x \<notin> map_area (i_dev ip) ?sb \<longrightarrow> blk_at t x = blk_at s x"
      using t(2) in_map_area [OF lt] by (auto simp: bit_changed_def)
    have "sb_at t (i_dev ip) = ?sb"
      using t(2) bitmap_not_sb [OF g cs] geom_on_disk(1) [OF g] by (simp add: sb_at_def bit_changed_def block_ok_def)
    moreover have "used t (i_dev ip) ?sb k \<longleftrightarrow> k = c \<or> used s (i_dev ip) ?sb k" if "k < unat (sb_size ?sb)" for k
      using bit_set_used [OF t(2) g cs _ s(1), of k] that g by (simp add: geom_def)
    ultimately have "taken s ip c t" using c same by (simp add: taken_def)
    then show "Q (of_nat c) t" using t same by (intro post)
  qed
qed

lemma wp_set_addr:
  "wp (set_addr i k a) Q s = Q () (s\<lparr>inodes := (inodes s)[i := (inodes s ! i)\<lparr>i_addrs := (i_addrs (inodes s ! i))[k := a]\<rparr>]\<rparr>)"
  by (simp add: set_addr_def set_inode_def)

text \<open>An empty slot of the inode is filled with the number of a block that was free.\<close>

lemma wp_addr_alloc:
  fixes s :: "'z fs_state_scheme"
  assumes s: "cache_ok {} s" "i < length (inodes s)" "fs_wf s (inodes s ! i)" "i_addrs (inodes s ! i) ! k = 0"
    "free_nos s (inodes s ! i) \<noteq> {}"
    and post: "\<And>c t jp. \<lbrakk>cache_ok {} t; inodes t = (inodes s)[i := jp]; fkeeps {} s t; taken s (inodes s ! i) c t;
      jp = (inodes s ! i)\<lparr>i_addrs := (i_addrs (inodes s ! i))[k := of_nat c]\<rparr>;
      \<And>x. block_ok x \<Longrightarrow> x \<notin> map_area (i_dev (inodes s ! i)) (sb_at s (i_dev (inodes s ! i))) \<Longrightarrow> blk_at t x = blk_at s x\<rbrakk>
      \<Longrightarrow> Q (of_nat c) t"
  shows "wp (addr_or_alloc i k) Q s"
proof -
  let ?ip = "inodes s ! i"
  have "wp (balloc (i_dev ?ip)) (\<lambda>a. wp (set_addr i k a) (\<lambda>_. Q a)) s"
  proof (rule wp_balloc_free [OF s(1,3,5)])
    fix c and t :: "'z fs_state_scheme"
    let ?jp = "?ip\<lparr>i_addrs := (i_addrs ?ip)[k := of_nat c]\<rparr>"
    assume t: "cache_ok {} t" "taken s ?ip c t" "bc.keeps {} s t"
      and b: "\<forall>x. block_ok x \<longrightarrow> x \<notin> map_area (i_dev ?ip) (sb_at s (i_dev ?ip)) \<longrightarrow> blk_at t x = blk_at s x"
    let ?u = "t\<lparr>inodes := (inodes s)[i := ?jp]\<rparr>"
    have "Q (of_nat c) ?u"
    proof (rule post [where jp = ?jp])
      have "blk_at ?u = blk_at t" by simp
      from same_disk(13) [OF this] show "taken s ?ip c ?u" using t(2) by blast
      show "blk_at ?u x = blk_at s x" if "block_ok x" "x \<notin> map_area (i_dev ?ip) (sb_at s (i_dev ?ip))" for x
        using b [rule_format, OF that] by simp
    qed (use t keeps_fkeeps [OF t(3)] in \<open>simp_all add: fkeeps_inodes\<close>)
    then show "wp (set_addr i k (of_nat c)) (\<lambda>_. Q (of_nat c)) t"
      by (simp add: wp_set_addr keeps_inodes [OF t(3)])
  qed (simp_all add: NBUF_def)
  then show ?thesis using s(4) by (simp add: addr_or_alloc_def get_inode_def) (simp only: wp_nest wp_ret_fun)
qed

text \<open>What \<open>bmap\<close> of block \<open>k\<close> has done, when the blocks up to \<open>hi\<close> are wanted.\<close>

definition bmapped :: "'z fs_state_scheme \<Rightarrow> nat \<Rightarrow> nat \<Rightarrow> nat \<Rightarrow> 'z fs_state_scheme \<Rightarrow> inode \<Rightarrow> bool" where
  "bmapped s i k hi t jp \<longleftrightarrow> cache_ok {} t \<and> inodes t = (inodes s)[i := jp] \<and> fkeeps {} s t \<and> fs_wf t jp
     \<and> file_kept s (inodes s ! i) t jp \<and> missing t jp k hi \<le> card (free_nos t jp)"

lemma wp_bmap_direct:
  fixes s :: "'z fs_state_scheme"
  assumes s: "cache_ok {} s" "i < length (inodes s)" "fs_wf s (inodes s ! i)" "k < NDIRECT" "\<not> mapped s (inodes s ! i) k"
    and m: "k < hi" "missing s (inodes s ! i) k hi \<le> card (free_nos s (inodes s ! i))"
    and post: "\<And>t jp. bmapped s i (Suc k) hi t jp \<Longrightarrow> mapped t jp k \<Longrightarrow> Q (addr_of t jp k) t"
  shows "wp (addr_or_alloc i k) Q s"
proof -
  let ?ip = "inodes s ! i"
  have k: "k < MAXFILE" using s(4) by (simp add: MAXFILE_def NDIRECT_def)
  have z: "i_addrs ?ip ! k = 0" using mapped_vacant [OF s(3), of k] s(4,5) k by (simp add: vacant_def)
  have "0 < missing s ?ip k hi" using missing_less [of s ?ip s ?ip k hi] s(5) m(1) by simp
  then have ne: "free_nos s ?ip \<noteq> {}" using m(2) by auto
  show ?thesis
  proof (rule wp_addr_alloc [OF s(1-3) z ne])
    fix c jp and t :: "'z fs_state_scheme"
    assume t: "cache_ok {} t" "inodes t = (inodes s)[i := jp]" "fkeeps {} s t" "taken s ?ip c t"
      and jp: "jp = ?ip\<lparr>i_addrs := (i_addrs ?ip)[k := of_nat c]\<rparr>"
      and b: "\<And>x. block_ok x \<Longrightarrow> x \<notin> map_area (i_dev ?ip) (sb_at s (i_dev ?ip)) \<Longrightarrow> blk_at t x = blk_at s x"
    have len: "length (i_addrs ?ip) = Suc NDIRECT" by (rule fs_wfD(3) [OF s(3)])
    have j: "i_dev jp = i_dev ?ip" "i_inum jp = i_inum ?ip" "length (i_addrs jp) = Suc NDIRECT"
      "i_addrs jp ! NDIRECT = i_addrs ?ip ! NDIRECT"
      using s(4) by (simp_all add: jp len)
    have "addr_of t jp n = (if n = k then of_nat c else addr_of s ?ip n)"
      if "n < MAXFILE" "n < NDIRECT \<or> i_addrs ?ip ! NDIRECT \<noteq> 0" for n
    proof (cases "n < NDIRECT")
      case True
      then show ?thesis using s(4) len by (simp add: addr_of_def jp nth_list_update)
    next
      case False
      then have u: "in_use s ?ip (i_addrs ?ip ! NDIRECT)" using that(2) fs_wfD(5) [OF s(3)] by blast
      have "blk_at t (i_dev ?ip, i_addrs ?ip ! NDIRECT) = blk_at s (i_dev ?ip, i_addrs ?ip ! NDIRECT)"
        using in_use_disk [OF s(3) u] u by (intro b) (auto simp: in_use_def meta_def)
      then show ?thesis using False s(4) j(1,4) by (simp add: addr_of_def)
    qed
    note ba = block_added [OF s(3) t(4) k s(5) j _ this]
    have nd: "NDIRECT \<le> k \<Longrightarrow> i_addrs ?ip ! NDIRECT \<noteq> 0" using s(4) by simp
    have kt: "file_kept s ?ip t jp"
      by (rule added_kept [OF s(3) t(4) jp]) (use ba(2,4) nd in blast)
    have "missing t jp (Suc k) hi < missing s ?ip k hi"
      by (rule missing_less [OF _ s(5) m(1) j(4)]) (use ba(2) nd in blast)
    then have "missing t jp (Suc k) hi \<le> card (free_nos t jp)"
      using m(2) free_less [OF s(3) t(4) j(1,2)] by simp
    then have "bmapped s i (Suc k) hi t jp" using t kt ba(1) nd by (simp add: bmapped_def)
    then show "Q (of_nat c) t" using post [of t jp] ba(2,3) nd by auto
  qed
qed

text \<open>The indirect block, when the file is without one.\<close>

lemma wp_bmap_indirect_block:
  fixes s :: "'z fs_state_scheme"
  assumes s: "cache_ok {} s" "i < length (inodes s)" "fs_wf s (inodes s ! i)"
    and m: "NDIRECT < hi" "missing s (inodes s ! i) k hi \<le> card (free_nos s (inodes s ! i))"
    and post: "\<And>t jp. bmapped s i k hi t jp \<Longrightarrow> i_addrs jp ! NDIRECT \<noteq> 0 \<Longrightarrow> mapped t jp = mapped s (inodes s ! i) \<Longrightarrow>
      Q (i_addrs jp ! NDIRECT) t"
  shows "wp (addr_or_alloc i NDIRECT) Q s"
proof (cases "i_addrs (inodes s ! i) ! NDIRECT = 0")
  case False
  have "(inodes s)[i := inodes s ! i] = inodes s" by simp
  then have "bmapped s i k hi s (inodes s ! i)" using s m(2) file_kept_refl by (simp add: bmapped_def)
  then have "Q (i_addrs (inodes s ! i) ! NDIRECT) s" using False by (intro post) simp_all
  then show ?thesis using False by (simp add: addr_or_alloc_def get_inode_def)
next
  case z: True
  let ?ip = "inodes s ! i"
  have "0 < missing s ?ip k hi" using m(1) z by (simp add: missing_def)
  then have ne: "free_nos s ?ip \<noteq> {}" using m(2) by auto
  show ?thesis
  proof (rule wp_addr_alloc [OF s z ne])
    fix c jp and t :: "'z fs_state_scheme"
    assume t: "cache_ok {} t" "inodes t = (inodes s)[i := jp]" "fkeeps {} s t" "taken s ?ip c t"
      and jp: "jp = ?ip\<lparr>i_addrs := (i_addrs ?ip)[NDIRECT := of_nat c]\<rparr>"
    have len: "length (i_addrs ?ip) = Suc NDIRECT" by (rule fs_wfD(3) [OF s(3)])
    have j: "i_dev jp = i_dev ?ip" "i_inum jp = i_inum ?ip" "i_addrs jp ! NDIRECT = of_nat c" by (simp_all add: jp len)
    note ia = indirect_added [OF s(3) t(4) z jp]
    have kt: "file_kept s ?ip t jp" by (rule added_kept [OF s(3) t(4) jp]) (use ia(2,3) in blast)
    have "missing t jp k hi < missing s ?ip k hi" by (rule missing_indirect [OF ia(2) z ia(4) m(1)])
    then have "missing t jp k hi \<le> card (free_nos t jp)" using m(2) free_less [OF s(3) t(4) j(1,2)] by simp
    then have "bmapped s i k hi t jp" using t kt ia(1) by (simp add: bmapped_def)
    moreover have "mapped t jp = mapped s ?ip" using ia(2) by (simp add: fun_eq_iff)
    ultimately show "Q (of_nat c) t" using post [of t jp] ia(4) j(3) by simp
  qed
qed

lemma get32_put_entry:
  assumes "4 * k + 4 \<le> length d" "4 * m + 4 \<le> length d"
  shows "get32 (put_at (4 * k) (bytes32 a) d) (4 * m) = (if m = k then a else get32 d (4 * m))"
proof (cases "m = k")
  case True
  have "get32 (put_at (4 * k) (bytes32 a) d) (4 * k) = get32 (bytes32 a) 0"
    using assms(1) by (simp add: get32_def nth_put_at bytes32_def)
  then show ?thesis using True get_bytes(2) [of 0 "[]" a "[]"] by simp
next
  case False
  then have "4 * m + 4 \<le> 4 * k \<or> 4 * k + length (bytes32 a) \<le> 4 * m" by (auto simp: bytes32_def)
  then show ?thesis using False assms get32_put_other [of "4 * k" "bytes32 a" d "4 * m"] by (simp add: bytes32_def)
qed

text \<open>An entry of the indirect block is filled with the number of a block that was free.\<close>

lemma wp_bmap_entry:
  fixes s :: "'z fs_state_scheme"
  assumes s: "cache_ok {} s" "i < length (inodes s)" "fs_wf s (inodes s ! i)" "NDIRECT \<le> k" "k < MAXFILE" "\<not> mapped s (inodes s ! i) k"
      "i_addrs (inodes s ! i) ! NDIRECT \<noteq> 0"
    and m: "k < hi" "missing s (inodes s ! i) k hi \<le> card (free_nos s (inodes s ! i))"
    and post: "\<And>t jp. bmapped s i (Suc k) hi t jp \<Longrightarrow> mapped t jp k \<Longrightarrow> Q (addr_of t jp k) t"
  shows "wp (bread (i_dev (inodes s ! i)) (i_addrs (inodes s ! i) ! NDIRECT)) (\<lambda>bp. wp (bdata bp) (\<lambda>d. wp (if get32 d (4 * (k - NDIRECT)) = 0
      then bnd (balloc (i_dev (inodes s ! i))) (\<lambda>a.
             thn (bnd (bdata bp) (\<lambda>d. set_data bp (put_at (4 * (k - NDIRECT)) (bytes32 a) d))) (
             thn (bwrite bp) (thn (brelse bp) (ret a))))
      else thn (brelse bp) (ret (get32 d (4 * (k - NDIRECT))))) Q)) s"
proof -
  let ?ip = "inodes s ! i" and ?j = "k - NDIRECT"
  let ?ind = "i_addrs ?ip ! NDIRECT"
  have j: "4 * ?j + 4 \<le> BSIZE" using s(4,5) by (simp add: BSIZE_def MAXFILE_def NDIRECT_def)
  have z: "get32 (blk_at s (i_dev ?ip, ?ind)) (4 * ?j) = 0"
    using mapped_vacant [OF s(3), of k] s(4-7) by (simp add: vacant_def addr_of_def)
  have u: "in_use s ?ip ?ind" by (rule fs_wfD(5) [OF s(3,7)])
  have ok: "block_ok (i_dev ?ip, ?ind)" using in_use_disk [OF s(3) u] by simp
  have nm: "(i_dev ?ip, ?ind) \<notin> map_area (i_dev ?ip) (sb_at s (i_dev ?ip))" using u by (simp add: in_use_def meta_def)
  have "0 < missing s ?ip k hi" using missing_less [of s ?ip s ?ip k hi] s(6) m(1) by simp
  then have ne: "free_nos s ?ip \<noteq> {}" using m(2) by auto
  show ?thesis
  proof (rule block_inspect [OF s(1) ok])
    fix bp and t :: "'z fs_state_scheme"
    assume t: "bc.holds bp (i_dev ?ip, ?ind) {} t" "blk_at t = blk_at s" "bc.keeps {} s t"
    have ct: "cache_ok {bp} t" "home_at t bp = (i_dev ?ip, ?ind)" "data_at t bp = blk_at s (i_dev ?ip, ?ind)"
      using t(1,2) by (simp_all add: bc.holds_def)
    note sd = same_disk [OF t(2)]
    have "wp (balloc (i_dev ?ip)) (\<lambda>a. wp (bdata bp) (\<lambda>d. wp (set_data bp (put_at (4 * ?j) (bytes32 a) d)) (\<lambda>_.
        wp (bwrite bp) (\<lambda>_. wp (brelse bp) (\<lambda>_. Q a))))) t"
    proof (rule wp_balloc_free [OF ct(1)], unfold sd)
      fix c and v :: "'z fs_state_scheme"
      assume v: "cache_ok {bp} v" "taken t ?ip c v" "bc.keeps {bp} t v"
        and b: "\<forall>x. block_ok x \<longrightarrow> x \<notin> map_area (i_dev ?ip) (sb_at s (i_dev ?ip)) \<longrightarrow> blk_at v x = blk_at t x"
      have cv: "home_at v bp = (i_dev ?ip, ?ind)" "data_at v bp = blk_at s (i_dev ?ip, ?ind)"
        using v(3) ct(2,3) by (simp_all add: bc.keeps_def)
      let ?d = "put_at (4 * ?j) (bytes32 (of_nat c)) (blk_at s (i_dev ?ip, ?ind))"
      have len: "length (blk_at s x) = BSIZE" for x by (rule block_length [OF s(1)])
      have "wp (set_data bp ?d) (\<lambda>_. wp (bwrite bp) (\<lambda>_. wp (brelse bp) (\<lambda>_. Q (of_nat c)))) v"
      proof (rule bc.commit [of bp "{}" v "(i_dev ?ip, ?ind)"])
        fix w :: "'z fs_state_scheme"
        assume w: "cache_ok {} w" "bc.keeps {} v w"
          and bw: "\<forall>x. block_ok x \<longrightarrow> blk_at w x = (if x = (i_dev ?ip, ?ind) then ?d else blk_at v x)"
        have kw: "bc.keeps {} s w" using bc.keeps_trans [OF t(3) bc.keeps_trans [OF keeps_weaken [OF v(3)] w(2)]] .
        have iw: "inodes w = (inodes s)[i := ?ip]" using keeps_inodes [OF kw] by simp
        have g: "geom (i_dev ?ip) (sb_at s (i_dev ?ip))" by (rule fs_wfD(1) [OF s(3)])
        have area: "blk_at w x = blk_at v x" if "x \<in> map_area (i_dev ?ip) (sb_at s (i_dev ?ip))" "block_ok x" for x
          using bw [rule_format, OF that(2)] that(1) nm by auto
        have tw: "taken s ?ip c w"
          unfolding taken_def
        proof (intro conjI allI impI)
          show "c \<in> free_nos s ?ip" using v(2) by (simp add: taken_def sd)
          have "block_ok (i_dev ?ip, 1)" using geom_on_disk(1) [OF g] by (simp add: block_ok_def)
          then have "sb_at w (i_dev ?ip) = sb_at v (i_dev ?ip)"
            using area [of "(i_dev ?ip, 1)"] by (simp add: sb_at_def map_area_def)
          then show "sb_at w (i_dev ?ip) = sb_at s (i_dev ?ip)" using v(2) by (simp add: taken_def sd)
          fix n assume n: "n < unat (sb_size (sb_at s (i_dev ?ip)))"
          then have "block_ok (i_dev ?ip, bitmap_block (sb_at s (i_dev ?ip)) n)"
            using geom_on_disk(2) [OF g, of n] g by (simp add: block_ok_def geom_def)
          then have "used w (i_dev ?ip) (sb_at s (i_dev ?ip)) n = used v (i_dev ?ip) (sb_at s (i_dev ?ip)) n"
            using area [OF in_map_area [OF n]] by (simp add: used_def)
          then show "used w (i_dev ?ip) (sb_at s (i_dev ?ip)) n = (n = c \<or> used s (i_dev ?ip) (sb_at s (i_dev ?ip)) n)"
            using v(2) n by (simp add: taken_def sd)
        next
          fix x assume x: "block_ok x" "x \<notin> map_area (i_dev ?ip) (sb_at s (i_dev ?ip))" "?ind \<noteq> 0 \<longrightarrow> x \<noteq> (i_dev ?ip, ?ind)"
          then show "blk_at w x = blk_at s x"
            using bw [rule_format, OF x(1)] b [rule_format, OF x(1,2)] s(7) by (simp add: t(2))
        qed
        have "addr_of w ?ip n = (if n = k then of_nat c else addr_of s ?ip n)"
          if "n < MAXFILE" "n < NDIRECT \<or> ?ind \<noteq> 0" for n
        proof (cases "n < NDIRECT")
          case True
          then show ?thesis using s(4) by (simp add: addr_of_def)
        next
          case False
          have n4: "4 * (n - NDIRECT) + 4 \<le> BSIZE" using False that(1) by (simp add: BSIZE_def MAXFILE_def NDIRECT_def)
          have "blk_at w (i_dev ?ip, ?ind) = ?d" using bw [rule_format, OF ok] by simp
          moreover have "n - NDIRECT = ?j \<longleftrightarrow> n = k" using False s(4) by auto
          ultimately show ?thesis using False get32_put_entry [of ?j _ "n - NDIRECT"] j n4 len by (simp add: addr_of_def)
        qed
        note ba = block_added [OF s(3) tw s(5,6) refl refl fs_wfD(3) [OF s(3)] refl _ this]
        have kt: "file_kept s ?ip w ?ip"
          by (rule added_kept [OF s(3) tw, where ys = "i_addrs ?ip"]) (use ba(2,4) s(7) in auto)
        have "missing w ?ip (Suc k) hi < missing s ?ip k hi"
          by (rule missing_less [OF _ s(6) m(1) refl]) (use ba(2) s(7) in blast)
        then have "missing w ?ip (Suc k) hi \<le> card (free_nos w ?ip)"
          using m(2) free_less [OF s(3) tw refl refl] by simp
        then have "bmapped s i (Suc k) hi w ?ip"
          using w(1) iw keeps_fkeeps [OF kw] kt ba(1) s(7) by (simp add: bmapped_def)
        then show "Q (of_nat c) w" using post [of w ?ip] ba(2,3) s(7) by auto
      qed (use v cv ok j len in \<open>simp_all add: bytes32_def\<close>)
      then show "wp (bdata bp) (\<lambda>d. wp (set_data bp (put_at (4 * ?j) (bytes32 (of_nat c)) d)) (\<lambda>_.
        wp (bwrite bp) (\<lambda>_. wp (brelse bp) (\<lambda>_. Q (of_nat c))))) v"
        by (simp add: cv(2))
    qed (use s(3) ne ct(2) nm in \<open>simp_all add: NBUF_def\<close>)
    then show "wp (if get32 (blk_at s (i_dev ?ip, ?ind)) (4 * ?j) = 0
      then bnd (balloc (i_dev ?ip)) (\<lambda>a.
             thn (bnd (bdata bp) (\<lambda>d. set_data bp (put_at (4 * ?j) (bytes32 a) d))) (
             thn (bwrite bp) (thn (brelse bp) (ret a))))
      else thn (brelse bp) (ret (get32 (blk_at s (i_dev ?ip, ?ind)) (4 * ?j)))) Q t"
      unfolding z by (simp only: simp_thms if_True wp_nest wp_ret_fun)
  qed (simp_all add: NBUF_def)
qed

lemma bmapped_trans:
  assumes "bmapped s i k hi t jp" "bmapped t i m hi' u kp" "i < length (inodes s)"
  shows "bmapped s i m hi' u kp"
proof -
  have j: "inodes t ! i = jp" using assms(1,3) by (simp add: bmapped_def)
  show ?thesis
    using assms file_kept_trans [of s "inodes s ! i" t jp u kp] fkeeps_trans [of "{}" s t u]
    by (simp add: bmapped_def j)
qed

lemma wp_bmap_grow:
  fixes s :: "'z fs_state_scheme"
  assumes s: "cache_ok {} s" "i < length (inodes s)" "fs_wf s (inodes s ! i)" "unat bn < MAXFILE"
    and m: "unat bn < hi" "missing s (inodes s ! i) (unat bn) hi \<le> card (free_nos s (inodes s ! i))"
    and post: "\<And>t jp. bmapped s i (Suc (unat bn)) hi t jp \<Longrightarrow> mapped t jp (unat bn) \<Longrightarrow> Q (addr_of t jp (unat bn)) t"
  shows "wp (bmap i bn) Q s"
proof (cases "mapped s (inodes s ! i) (unat bn)")
  case mk: True
  show ?thesis
  proof (rule wp_bmap [OF s(1) mk])
    fix t :: "'z fs_state_scheme"
    assume t: "cache_ok {} t" "blk_at t = blk_at s" "bc.keeps {} s t"
    note sd = same_disk [OF t(2)]
    have "inodes t = (inodes s)[i := inodes s ! i]" using keeps_inodes [OF t(3)] by simp
    moreover have "file_kept s (inodes s ! i) t (inodes s ! i)" using file_kept_refl by (simp add: sd(12))
    moreover have "missing s (inodes s ! i) (Suc (unat bn)) hi \<le> card (free_nos s (inodes s ! i))"
      using missing_next m(2) by (rule order_trans)
    ultimately have "bmapped s i (Suc (unat bn)) hi t (inodes s ! i)"
      using t keeps_fkeeps [OF t(3)] s(3) by (simp add: bmapped_def sd(5,7,11))
    then show "Q (addr_of s (inodes s ! i) (unat bn)) t" using post [of t] mk by (simp add: sd(8,9))
  qed
next
  case um: False
  show ?thesis
  proof (cases "unat bn < NDIRECT")
    case True
    have "wp (addr_or_alloc i (unat bn)) Q s"
      by (rule wp_bmap_direct [OF s(1-3) True um m]) (rule post)
    then show ?thesis using True by (simp add: bmap_def)
  next
    case False
    let ?k = "unat bn - NDIRECT"
    have k: "unat (bn - of_nat NDIRECT) = ?k" using False by (simp add: unat_sub_word NDIRECT_def)
    have lt: "?k < NINDIRECT" using s(4) False by (simp add: MAXFILE_def NDIRECT_def NINDIRECT_def)
    have "NDIRECT < hi \<or> unat bn = NDIRECT" using False m(1) by simp
    then have hi: "NDIRECT < hi" using m(1) by auto
    have "wp (addr_or_alloc i NDIRECT) (\<lambda>addr. wp (get_inode i) (\<lambda>ip. wp (bread (i_dev ip) addr) (\<lambda>bp.
      wp (bdata bp) (\<lambda>d. wp (if get32 d (4 * ?k) = 0
      then bnd (balloc (i_dev ip)) (\<lambda>a.
             thn (bnd (bdata bp) (\<lambda>d. set_data bp (put_at (4 * ?k) (bytes32 a) d))) (
             thn (bwrite bp) (thn (brelse bp) (ret a))))
      else thn (brelse bp) (ret (get32 d (4 * ?k)))) Q)))) s"
    proof (rule wp_bmap_indirect_block [OF s(1-3) hi m(2)])
      fix t :: "'z fs_state_scheme" and jp
      assume t: "bmapped s i (unat bn) hi t jp" "i_addrs jp ! NDIRECT \<noteq> 0" "mapped t jp = mapped s (inodes s ! i)"
      have j: "inodes t ! i = jp" "i < length (inodes t)" "cache_ok {} t" "fs_wf t jp"
        "missing t jp (unat bn) hi \<le> card (free_nos t jp)"
        using t(1) s(2) by (simp_all add: bmapped_def)
      have um': "\<not> mapped t (inodes t ! i) (unat bn)" by (simp add: j(1) t(3) um)
      have nd: "NDIRECT \<le> unat bn" using False by simp
      have e: "wp (bread (i_dev (inodes t ! i)) (i_addrs (inodes t ! i) ! NDIRECT)) (\<lambda>bp.
        wp (bdata bp) (\<lambda>d. wp (if get32 d (4 * ?k) = 0
        then bnd (balloc (i_dev (inodes t ! i))) (\<lambda>a.
               thn (bnd (bdata bp) (\<lambda>d. set_data bp (put_at (4 * ?k) (bytes32 a) d))) (
               thn (bwrite bp) (thn (brelse bp) (ret a))))
        else thn (brelse bp) (ret (get32 d (4 * ?k)))) Q)) t"
      proof (rule wp_bmap_entry [OF j(3,2) _ nd s(4) um' _ m(1)])
        fix u :: "'z fs_state_scheme" and kp
        assume u: "bmapped t i (Suc (unat bn)) hi u kp" "mapped u kp (unat bn)"
        show "Q (addr_of u kp (unat bn)) u" using post [OF bmapped_trans [OF t(1) u(1) s(2)] u(2)] .
      qed (simp_all add: j t(2))
      then show "wp (get_inode i) (\<lambda>ip. wp (bread (i_dev ip) (i_addrs jp ! NDIRECT)) (\<lambda>bp.
        wp (bdata bp) (\<lambda>d. wp (if get32 d (4 * ?k) = 0
        then bnd (balloc (i_dev ip)) (\<lambda>a.
               thn (bnd (bdata bp) (\<lambda>d. set_data bp (put_at (4 * ?k) (bytes32 a) d))) (
               thn (bwrite bp) (thn (brelse bp) (ret a))))
        else thn (brelse bp) (ret (get32 d (4 * ?k)))) Q))) t"
        by (simp add: get_inode_def j(1))
    qed
    then show ?thesis
      using False k lt unfolding bmap_def by (simp add: Let_def) (simp only: wp_nest)
  qed
qed

section \<open>Writing\<close>

text \<open>The write of \<open>src\<close> at \<open>off\<close>: the blocks it touches are mapped and hold its bytes, the other bytes are file_kept.\<close>

definition file_grown :: "'z bio_state_scheme \<Rightarrow> inode \<Rightarrow> nat \<Rightarrow> nat \<Rightarrow> (nat \<Rightarrow> u8) \<Rightarrow> 'z bio_state_scheme \<Rightarrow> inode \<Rightarrow> bool" where
  "file_grown s ip off r src t jp \<longleftrightarrow> jp = ip\<lparr>i_addrs := i_addrs jp\<rparr> \<and> sb_at t (i_dev ip) = sb_at s (i_dev ip)
     \<and> (\<forall>k. mapped s ip k \<longrightarrow> mapped t jp k)
     \<and> (\<forall>p. off \<le> p \<longrightarrow> p < off + r \<longrightarrow> mapped t jp (p div BSIZE) \<and> fbyte t jp p = src (p - off))
     \<and> (\<forall>p. mapped s ip (p div BSIZE) \<longrightarrow> \<not> (off \<le> p \<and> p < off + r) \<longrightarrow> fbyte t jp p = fbyte s ip p)"

text \<open>A write into a block that is neither free nor read by the allocator nor the indirect block.\<close>

lemma fs_wf_other:
  assumes wf: "fs_wf s ip" and nm: "(i_dev ip, a) \<notin> map_area (i_dev ip) (sb_at s (i_dev ip))"
    and ni: "i_addrs ip ! NDIRECT \<noteq> 0 \<Longrightarrow> a \<noteq> i_addrs ip ! NDIRECT" and nf: "\<And>c. c \<in> free_nos s ip \<Longrightarrow> of_nat c \<noteq> a"
    and b: "\<And>x. block_ok x \<Longrightarrow> x \<noteq> (i_dev ip, a) \<Longrightarrow> blk_at t x = blk_at s x"
  shows "fs_wf t ip" "mapped t ip = mapped s ip" "free_nos t ip = free_nos s ip" "sb_at t (i_dev ip) = sb_at s (i_dev ip)"
    "mapped s ip m \<Longrightarrow> addr_of t ip m = addr_of s ip m"
proof -
  note g = fs_wfD(1) [OF wf]
  have area: "blk_at t x = blk_at s x" if "x \<in> map_area (i_dev ip) (sb_at s (i_dev ip))" "block_ok x" for x
    using b [OF that(2)] that(1) nm by auto
  have "block_ok (i_dev ip, 1)" using geom_on_disk(1) [OF g] by (simp add: block_ok_def)
  then show sb: "sb_at t (i_dev ip) = sb_at s (i_dev ip)"
    using area [of "(i_dev ip, 1)"] by (simp add: sb_at_def map_area_def)
  have us: "used t (i_dev ip) (sb_at s (i_dev ip)) n = used s (i_dev ip) (sb_at s (i_dev ip)) n"
    if "n < unat (sb_size (sb_at s (i_dev ip)))" for n
  proof -
    have "block_ok (i_dev ip, bitmap_block (sb_at s (i_dev ip)) n)"
      using geom_on_disk(2) [OF g, of n] g that by (simp add: block_ok_def geom_def)
    then show ?thesis using area [OF in_map_area [OF that]] by (simp add: used_def)
  qed
  show fr: "free_nos t ip = free_nos s ip" using us by (auto simp: free_nos_def sb)
  have me: "meta t ip = meta s ip" by (simp add: fun_eq_iff meta_def sb)
  have iu: "in_use t ip x = in_use s ip x" for x
    using us [of "unat x"] by (auto simp: in_use_def sb me word_less_nat_alt)
  have ind: "blk_at t (i_dev ip, i_addrs ip ! NDIRECT) = blk_at s (i_dev ip, i_addrs ip ! NDIRECT)" if "i_addrs ip ! NDIRECT \<noteq> 0"
  proof (rule b)
    show "block_ok (i_dev ip, i_addrs ip ! NDIRECT)" using in_use_disk [OF wf fs_wfD(5) [OF wf that]] by simp
    show "(i_dev ip, i_addrs ip ! NDIRECT) \<noteq> (i_dev ip, a)" using ni [OF that] by simp
  qed
  have ad: "addr_of t ip m = addr_of s ip m" if "m < NDIRECT \<or> i_addrs ip ! NDIRECT \<noteq> 0" for m
    using that ind by (auto simp: addr_of_def)
  have va: "vacant t ip m = vacant s ip m" for m
    using ad [of m] by (cases "m < NDIRECT \<or> i_addrs ip ! NDIRECT \<noteq> 0") (auto simp: vacant_def)
  have av: "addr_of t ip m = addr_of s ip m" if "\<not> vacant s ip m" for m
    using that ad by (auto simp: vacant_def split: if_splits)
  have mt: "mapped t ip m = mapped s ip m" for m
    using ad [of m] by (cases "m < NDIRECT \<or> i_addrs ip ! NDIRECT \<noteq> 0") (auto simp: mapped_def)
  then show "mapped t ip = mapped s ip" by (simp add: fun_eq_iff)
  show am: "addr_of t ip m = addr_of s ip m" if "mapped s ip m" for m
    using that mapped_vacant [OF wf] av by blast
  have fw: "file_wf t ip" using fs_wfD(7) [OF wf] by (simp add: file_wf_def mt am)
  have fz: "blk_at t (i_dev ip, of_nat c) = replicate BSIZE 0" if c: "c \<in> free_nos s ip" for c
  proof -
    have "of_nat c < sb_size (sb_at s (i_dev ip))"
      using c free_no_small [OF wf c] by (simp add: free_nos_def word_less_nat_alt)
    then have "block_ok (i_dev ip, of_nat c)" using geom_small [OF g] by (simp add: block_ok_def)
    then show ?thesis using b nf [OF c] fs_wfD(8) [OF wf c] by simp
  qed
  show "fs_wf t ip"
    unfolding fs_wf_def
  proof (intro conjI)
    show "\<forall>m<MAXFILE. \<not> vacant t ip m \<longrightarrow> in_use t ip (addr_of t ip m)"
      using fs_wfD(6) [OF wf] av by (simp add: va iu)
    show "\<forall>c\<in>free_nos t ip. c \<noteq> 0 \<and> \<not> meta t ip (of_nat c) \<and> blk_at t (i_dev ip, of_nat c) = replicate BSIZE 0"
      using fs_wfD(8) [OF wf] fz by (simp add: fr me)
  qed (use fs_wfD [OF wf] fw in \<open>simp_all add: sb iu\<close>)
qed

lemma fs_wf_write:
  assumes wf: "fs_wf s ip" and k: "mapped s ip k"
    and b: "\<And>x. block_ok x \<Longrightarrow> x \<noteq> (i_dev ip, addr_of s ip k) \<Longrightarrow> blk_at t x = blk_at s x"
  shows "fs_wf t ip" "mapped t ip = mapped s ip" "free_nos t ip = free_nos s ip" "sb_at t (i_dev ip) = sb_at s (i_dev ip)"
proof -
  note u = mapped_in_use [OF wf k]
  have nm: "(i_dev ip, addr_of s ip k) \<notin> map_area (i_dev ip) (sb_at s (i_dev ip))" using u by (simp add: in_use_def meta_def)
  have ni: "addr_of s ip k \<noteq> i_addrs ip ! NDIRECT" using fs_wfD(7) [OF wf] k by (simp add: file_wf_def)
  have nf: "of_nat c \<noteq> addr_of s ip k" if "c \<in> free_nos s ip" for c using free_not_in_use [OF wf that] u by auto
  show "fs_wf t ip" "mapped t ip = mapped s ip" "free_nos t ip = free_nos s ip" "sb_at t (i_dev ip) = sb_at s (i_dev ip)"
    by (rule fs_wf_other [OF wf nm ni nf b]; assumption)+
qed

text \<open>Storing the inode.\<close>

lemma fs_wf_iupdate:
  assumes wf: "fs_wf s ip" and st: "inode_stored (i_dev ip) (i_inum ip) x s t"
  shows "fs_wf t ip" "mapped t ip = mapped s ip" "sb_at t (i_dev ip) = sb_at s (i_dev ip)"
    "mapped s ip (p div BSIZE) \<Longrightarrow> fbyte t ip p = fbyte s ip p"
proof -
  let ?a = "IBLOCK (i_inum ip)"
  have ni: "?a \<noteq> i_addrs ip ! NDIRECT" if "i_addrs ip ! NDIRECT \<noteq> 0"
    using fs_wfD(5) [OF wf that] by (auto simp: in_use_def meta_def)
  have nf: "of_nat c \<noteq> ?a" if "c \<in> free_nos s ip" for c
    using fs_wfD(8) [OF wf that] by (auto simp: meta_def)
  have b: "blk_at t x = blk_at s x" if "block_ok x" "x \<noteq> (i_dev ip, ?a)" for x
    using st [unfolded inode_stored_def, rule_format, OF that(1)] that(2) by simp
  note o = fs_wf_other [OF wf fs_wfD(4) [OF wf] ni nf b]
  show "fs_wf t ip" "mapped t ip = mapped s ip" "sb_at t (i_dev ip) = sb_at s (i_dev ip)" by (rule o; assumption)+
  assume m: "mapped s ip (p div BSIZE)"
  have "addr_of s ip (p div BSIZE) \<noteq> ?a" using mapped_in_use [OF wf m] by (auto simp: in_use_def meta_def)
  then have "blk_at t (i_dev ip, addr_of s ip (p div BSIZE)) = blk_at s (i_dev ip, addr_of s ip (p div BSIZE))"
    using mapped_block_ok [OF m] by (intro b) simp_all
  moreover have "addr_of t ip (p div BSIZE) = addr_of s ip (p div BSIZE)" by (rule o(5)) (assumption | rule m)+
  ultimately show "fbyte t ip p = fbyte s ip p" by (simp add: fbyte_def fblock_def)
qed

lemma size_irrelevant [simp]:
  "mapped s (ip\<lparr>i_size := z\<rparr>) = mapped s ip" "addr_of s (ip\<lparr>i_size := z\<rparr>) = addr_of s ip"
  "fbyte s (ip\<lparr>i_size := z\<rparr>) = fbyte s ip" "fs_wf s (ip\<lparr>i_size := z\<rparr>) = fs_wf s ip"
proof -
  show m: "mapped s (ip\<lparr>i_size := z\<rparr>) = mapped s ip" and a: "addr_of s (ip\<lparr>i_size := z\<rparr>) = addr_of s ip"
    and "fbyte s (ip\<lparr>i_size := z\<rparr>) = fbyte s ip"
    using same_metadata [of "ip\<lparr>i_size := z\<rparr>" ip s] by simp_all
  show "fs_wf s (ip\<lparr>i_size := z\<rparr>) = fs_wf s ip"
    by (simp add: fs_wf_def in_use_def meta_def free_nos_def vacant_def file_wf_def m a)
qed

lemma file_grown_nothing: "file_grown s ip off 0 src s ip"
  by (simp add: file_grown_def)

lemma file_grown_fields:
  assumes "file_grown s ip off r src t jp"
  shows "i_dev jp = i_dev ip" "i_inum jp = i_inum ip" "i_size jp = i_size ip" "i_type jp = i_type ip"
proof -
  have j: "jp = ip\<lparr>i_addrs := i_addrs jp\<rparr>" using assms by (simp add: file_grown_def)
  show "i_dev jp = i_dev ip" "i_inum jp = i_inum ip" "i_size jp = i_size ip" "i_type jp = i_type ip"
    by (subst j, simp)+
qed

lemma file_grown_trans:
  assumes "file_grown s ip off m src t jp" "file_grown t jp (off + m) r (\<lambda>k. src (k + m)) u kp"
  shows "file_grown s ip off (m + r) src u kp"
proof -
  have j: "jp = ip\<lparr>i_addrs := i_addrs jp\<rparr>" and k: "kp = jp\<lparr>i_addrs := i_addrs kp\<rparr>" using assms by (simp_all add: file_grown_def)
  have "jp\<lparr>i_addrs := i_addrs kp\<rparr> = ip\<lparr>i_addrs := i_addrs kp\<rparr>" by (subst j) simp
  then have "kp = ip\<lparr>i_addrs := i_addrs kp\<rparr>" using k by simp
  moreover have "sb_at u (i_dev ip) = sb_at s (i_dev ip)" using assms file_grown_fields(1) [OF assms(1)] by (simp add: file_grown_def)
  moreover have "mapped u kp n" if "mapped s ip n" for n using assms that by (simp add: file_grown_def)
  moreover have "mapped u kp (p div BSIZE) \<and> fbyte u kp p = src (p - off)" if p: "off \<le> p" "p < off + (m + r)" for p
  proof (cases "p < off + m")
    case True
    then have "mapped t jp (p div BSIZE)" "fbyte t jp p = src (p - off)" using assms(1) p(1) by (simp_all add: file_grown_def)
    then show ?thesis using assms(2) True by (simp add: file_grown_def)
  next
    case False
    then have "mapped u kp (p div BSIZE)" "fbyte u kp p = src (p - (off + m) + m)" using assms(2) p(2) by (simp_all add: file_grown_def)
    moreover have "p - (off + m) + m = p - off" using False by simp
    ultimately show ?thesis by simp
  qed
  moreover have "fbyte u kp p = fbyte s ip p" if "mapped s ip (p div BSIZE)" "\<not> (off \<le> p \<and> p < off + (m + r))" for p
  proof -
    have "fbyte t jp p = fbyte s ip p" "mapped t jp (p div BSIZE)" using assms(1) that by (auto simp: file_grown_def)
    then show ?thesis using assms(2) that(2) by (auto simp: file_grown_def)
  qed
  ultimately show ?thesis unfolding file_grown_def by blast
qed

lemma file_grown_block:
  assumes "file_kept s ip t jp" "fwritten jp off m src t v" "sb_at v (i_dev ip) = sb_at t (i_dev ip)" "mapped v jp = mapped t jp"
    and k: "\<And>p. off \<le> p \<Longrightarrow> p < off + m \<Longrightarrow> mapped t jp (p div BSIZE)"
  shows "file_grown s ip off m src v jp"
proof -
  have "fbyte t jp p = fbyte s ip p" if "mapped s ip (p div BSIZE)" for p
    using assms(1) that by (simp add: file_kept_def fbyte_def)
  then show ?thesis
    using assms k fwrittenD(2) [OF assms(2)] unfolding file_grown_def file_kept_def by simp
qed

lemma wp_writei_grow_loop:
  fixes s :: "'z fs_state_scheme"
  assumes "cache_ok {} s" "i < length (inodes s)" "fs_wf s (inodes s ! i)" "unat off + r \<le> MAXFILE * BSIZE" "unat off + r \<le> hi * BSIZE"
    and "r \<noteq> 0 \<Longrightarrow> missing s (inodes s ! i) (unat off div BSIZE) hi \<le> card (free_nos s (inodes s ! i))"
    and "\<And>t jp. \<lbrakk>cache_ok {} t; inodes t = (inodes s)[i := jp]; fkeeps {} s t; fs_wf t jp;
      file_grown s (inodes s ! i) (unat off) r src t jp\<rbrakk> \<Longrightarrow> Q (off + of_nat r) t"
  shows "wp (writei_loop i src off r) Q s"
  using assms
proof (induction i src off r arbitrary: s Q rule: writei_loop.induct)
  case (1 i src off r)
  note prems = "1.prems"
  show ?case
  proof (cases "r = 0")
    case True
    then have "Q off s" using prems(7) [of s "inodes s ! i"] prems(1,3) by (simp add: file_grown_nothing)
    then show ?thesis using True by (simp add: writei_loop.simps)
  next
    case False
    let ?ip = "inodes s ! i" and ?m = "in_block off r" and ?k = "unat off div BSIZE"
    let ?src = "\<lambda>k. src (k + ?m)"
    have small: "unat off + r \<le> 71680" using prems(4) by (simp add: MAXFILE_def BSIZE_def)
    have kb: "?k * BSIZE < unat off + r" using False div_times_less_eq_dividend [of "unat off" BSIZE] by linarith
    have kM: "?k < MAXFILE" and kh: "?k < hi" using kb prems(4,5) by (metis less_le_trans mult_less_cancel2)+
    have u: "unat (off + of_nat ?m) = unat off + ?m" using small by (intro unat_step [OF _ in_block_le(1)]) simp
    have "wp (bmap i (off div of_nat BSIZE)) (\<lambda>a. wp (get_inode i) (\<lambda>ip. wp (bread (i_dev ip) a) (\<lambda>bp.
        wp (bdata bp) (\<lambda>d. wp (set_data bp (put_at (unat off mod BSIZE) (map src [0..<?m]) d)) (\<lambda>_. wp (bwrite bp) (\<lambda>_.
        wp (brelse bp) (\<lambda>_. wp (writei_loop i ?src (off + of_nat ?m) (r - ?m)) Q))))))) s"
    proof (rule wp_bmap_grow [OF prems(1-3)], unfold unat_div_BSIZE)
      fix t :: "'z fs_state_scheme" and jp
      assume t: "bmapped s i (Suc ?k) hi t jp" and mk: "mapped t jp ?k"
      have tc: "cache_ok {} t" "inodes t ! i = jp" "i < length (inodes t)" "fs_wf t jp" "file_kept s ?ip t jp"
        using t prems(2) by (simp_all add: bmapped_def)
      have "wp (bread (i_dev jp) (addr_of t jp ?k)) (\<lambda>bp. wp (bdata bp) (\<lambda>d.
          wp (set_data bp (put_at (unat off mod BSIZE) (map src [0..<?m]) d)) (\<lambda>_. wp (bwrite bp) (\<lambda>_.
          wp (brelse bp) (\<lambda>_. wp (writei_loop i ?src (off + of_nat ?m) (r - ?m)) Q))))) t"
      proof (rule block_modify [OF tc(1)])
        fix v :: "'z fs_state_scheme"
        assume v: "cache_ok {} v" "bc.keeps {} t v" and b: "\<forall>x. block_ok x \<longrightarrow> blk_at v x = (if x = (i_dev jp, addr_of t jp ?k)
          then put_at (unat off mod BSIZE) (map src [0..<?m]) (blk_at t (i_dev jp, addr_of t jp ?k)) else blk_at t x)"
        have fw: "fwritten jp (unat off) ?m src t v"
          by (rule fwritten_block [OF tc(1) fs_wfD(7) [OF tc(4)] mk]) (use b in \<open>simp del: split_paired_All\<close>)
        note vf = fs_wf_write [OF tc(4) mk, of v]
        have bo: "blk_at v x = blk_at t x" if "block_ok x" "x \<noteq> (i_dev jp, addr_of t jp ?k)" for x
          using b [rule_format, OF that(1)] that(2) by simp
        have dj: "i_dev jp = i_dev ?ip" by (rule kept_fields(1) [OF tc(5)])
        have gr: "file_grown s ?ip (unat off) ?m src v jp"
        proof (rule file_grown_block [OF tc(5) fw])
          show "mapped t jp (p div BSIZE)" if "unat off \<le> p" "p < unat off + ?m" for p
            using in_block_same(1) [of "p - unat off" off r] that mk by simp
        qed (use vf bo dj in simp_all)
        have iv: "inodes v = (inodes s)[i := jp]" using keeps_inodes [OF v(2)] t by (simp add: bmapped_def)
        have vj: "inodes v ! i = jp" using iv prems(2) by simp
        have fk: "fkeeps {} s v" using t keeps_fkeeps [OF v(2)] fkeeps_trans by (auto simp: bmapped_def)
        show "wp (writei_loop i ?src (off + of_nat ?m) (r - ?m)) Q v"
        proof (rule "1.IH" [OF False v(1)], unfold vj)
          show "i < length (inodes v)" by (simp add: iv prems(2))
          show "fs_wf v jp" using vf(1) bo by blast
          show "unat (off + of_nat ?m) + (r - ?m) \<le> MAXFILE * BSIZE" "unat (off + of_nat ?m) + (r - ?m) \<le> hi * BSIZE"
            using prems(4,5) in_block_le(1) [of off r] by (simp_all add: u)
          show "missing v jp (unat (off + of_nat ?m) div BSIZE) hi \<le> card (free_nos v jp)" if more: "r - ?m \<noteq> 0"
          proof -
            have "?m = BSIZE - unat off mod BSIZE" using more by (auto simp: in_block_def)
            moreover have "unat off mod BSIZE < BSIZE" by (simp add: BSIZE_def)
            moreover have "unat off = BSIZE * ?k + unat off mod BSIZE" by simp
            ultimately have "unat off + ?m = BSIZE * Suc ?k" unfolding mult_Suc_right by linarith
            then have "unat (off + of_nat ?m) div BSIZE = Suc ?k" unfolding u by (simp add: BSIZE_def)
            moreover have "missing v jp (Suc ?k) hi \<le> card (free_nos v jp)"
              using t vf(2,3) bo by (simp add: bmapped_def missing_def)
            ultimately show ?thesis by simp
          qed
          fix w kp
          assume w: "cache_ok {} w" "inodes w = (inodes v)[i := kp]" "fkeeps {} v w" "fs_wf w kp"
            "file_grown v jp (unat (off + of_nat ?m)) (r - ?m) ?src w kp"
          have "file_grown s ?ip (unat off) (?m + (r - ?m)) src w kp"
            using file_grown_trans [OF gr] w(5) by (simp add: u)
          then have "Q (off + of_nat r) w"
            using w iv fkeeps_trans [OF fk w(3)] in_block_le(1) [of off r] by (intro prems(7)) simp_all
          moreover have "off + of_nat ?m + of_nat (r - ?m) = off + of_nat r"
            using in_block_le(1) [of off r] by (simp add: of_nat_diff add.assoc)
          ultimately show "Q (off + of_nat ?m + of_nat (r - ?m)) w" by (simp only:)
        qed
      qed (use mk in_block_le(2) [of off r] block_length [OF tc(1)] in \<open>simp_all add: block_ok_def mapped_def NBUF_def\<close>)
      then show "wp (get_inode i) (\<lambda>ip. wp (bread (i_dev ip) (addr_of t jp ?k)) (\<lambda>bp. wp (bdata bp) (\<lambda>d.
          wp (set_data bp (put_at (unat off mod BSIZE) (map src [0..<?m]) d)) (\<lambda>_. wp (bwrite bp) (\<lambda>_.
          wp (brelse bp) (\<lambda>_. wp (writei_loop i ?src (off + of_nat ?m) (r - ?m)) Q)))))) t"
        by (simp add: get_inode_def tc(2))
    qed (use kM kh prems(6) False in simp_all)
    then show ?thesis
      unfolding writei_loop.simps [of i src off r] using False by (simp only: if_False wp_nest)
  qed
qed

definition new_size :: "inode \<Rightarrow> nat \<Rightarrow> nat \<Rightarrow> nat" where
  "new_size ip off n = (if 0 < n then max (unat (i_size ip)) (off + n) else unat (i_size ip))"

text \<open>The block numbers of a file of \<open>n\<close> bytes are those below \<open>blocks_for n\<close>.\<close>

definition blocks_for :: "nat \<Rightarrow> nat" where
  "blocks_for n = (n + (BSIZE - 1)) div BSIZE"

lemma blocks_for_covers: "n \<le> blocks_for n * BSIZE"
proof -
  have "n + 511 = (n + 511) div 512 * 512 + (n + 511) mod 512" "(n + 511) mod 512 < 512" by simp_all
  then have "n \<le> (n + 511) div 512 * 512" by linarith
  then show ?thesis by (simp add: blocks_for_def BSIZE_def)
qed

text \<open>A write of \<open>n\<close> bytes at \<open>off\<close>: the file afterwards, in memory and, when it has become longer, on the disk.\<close>

definition written :: "'z bio_state_scheme \<Rightarrow> inode \<Rightarrow> nat \<Rightarrow> nat \<Rightarrow> (nat \<Rightarrow> u8) \<Rightarrow> 'z bio_state_scheme \<Rightarrow> inode \<Rightarrow> bool" where
  "written s ip off n src t jp \<longleftrightarrow> fs_wf t jp \<and> i_type jp = i_type ip
     \<and> i_size jp = of_nat (new_size ip off n) \<and> i_dev jp = i_dev ip \<and> i_inum jp = i_inum ip
     \<and> (\<forall>k. mapped s ip k \<longrightarrow> mapped t jp k)
     \<and> (\<forall>p. off \<le> p \<longrightarrow> p < off + n \<longrightarrow> mapped t jp (p div BSIZE) \<and> fbyte t jp p = src (p - off))
     \<and> (\<forall>p. mapped s ip (p div BSIZE) \<longrightarrow> \<not> (off \<le> p \<and> p < off + n) \<longrightarrow> fbyte t jp p = fbyte s ip p)
     \<and> (0 < n \<and> unat (i_size ip) < off + n \<longrightarrow> inode_at t (i_dev ip) (i_inum ip) = dinode_of jp)"

lemma wp_writei_grow:
  fixes s :: "'z cons_state_scheme"
  assumes s: "cache_ok {} s" "i < length (inodes s)" "i_type (inodes s ! i) \<noteq> T_DEV"
    and off: "unat off \<le> unat (i_size (inodes s ! i))" "unat off + unat n \<le> MAXFILE * BSIZE"
    and wf: "fs_wf s (inodes s ! i)"
    and room: "missing s (inodes s ! i) (unat off div BSIZE) (blocks_for (unat off + unat n)) \<le> card (free_nos s (inodes s ! i))"
    and post: "\<And>t jp. \<lbrakk>cache_ok {} t; inodes t = (inodes s)[i := jp]; fkeeps {} s t;
        written s (inodes s ! i) (unat off) (unat n) src t jp\<rbrakk> \<Longrightarrow> Q (int (unat n)) t"
  shows "wp (writei i src off n) Q s"
proof -
  let ?ip = "inodes s ! i" and ?e = "off + of_nat (unat n)"
  have small: "unat off + unat n \<le> 71680" using off(2) by (simp add: MAXFILE_def BSIZE_def)
  have add: "unat (off + n) = unat off + unat n" using small by (intro unat_add_small) simp
  have n: "sint n = int (unat n)" using small by (simp add: sint_u32 del: of_nat_unat)
  have fits: "\<not> (of_nat (MAXFILE * BSIZE) < off + n)" "\<not> off + n < off" "\<not> i_size ?ip < off"
    using off small by (simp_all add: word_less_nat_alt add MAXFILE_def BSIZE_def)
  have "wp (writei_loop i src off (unat n)) (\<lambda>off'. wp (get_inode i) (\<lambda>ip.
      wp (whenP (0 < n \<and> i_size ip < off') (thn (set_inode i (\<lambda>ip. ip\<lparr>i_size := off'\<rparr>)) (iupdate i))) (\<lambda>_. Q (sint n)))) s"
  proof (rule wp_writei_grow_loop [OF s(1,2) wf off(2) blocks_for_covers room])
    fix t :: "'z cons_state_scheme" and jp
    assume t: "cache_ok {} t" "inodes t = (inodes s)[i := jp]" "fkeeps {} s t" "fs_wf t jp"
      "file_grown s ?ip (unat off) (unat n) src t jp"
    note gf = file_grown_fields [OF t(5)]
    have it: "inodes t ! i = jp" using s(2) by (simp add: t(2))
    show "wp (get_inode i) (\<lambda>ip. wp (whenP (0 < n \<and> i_size ip < ?e)
        (thn (set_inode i (\<lambda>ip. ip\<lparr>i_size := ?e\<rparr>)) (iupdate i))) (\<lambda>_. Q (sint n))) t"
    proof (cases "0 < n \<and> i_size jp < ?e")
      case False
      then have le: "unat n = 0 \<or> unat off + unat n \<le> unat (i_size ?ip)"
        by (auto simp: word_less_nat_alt add word_gt_0 gf)
      then have "new_size ?ip (unat off) (unat n) = unat (i_size ?ip)" by (auto simp: new_size_def)
      then have "written s ?ip (unat off) (unat n) src t jp"
        using t(4,5) gf le unfolding written_def file_grown_def by auto
      then have "Q (int (unat n)) t" by (rule post [OF t(1-3)])
      then show ?thesis using False by (auto simp: get_inode_def it n)
    next
      case True
      let ?jp = "jp\<lparr>i_size := ?e\<rparr>"
      let ?u = "t\<lparr>inodes := (inodes t)[i := ?jp]\<rparr>"
      have sz: "unat n \<noteq> 0" "unat (i_size ?ip) < unat off + unat n"
        using True by (auto simp: word_less_nat_alt add word_gt_0 gf)
      then have ns: "of_nat (new_size ?ip (unat off) (unat n)) = ?e" by (simp add: new_size_def)
      have ju: "inodes ?u ! i = ?jp" using s(2) by (simp add: t(2))
      have wt: "fs_wf t ?jp" using t(4) by simp
      note fj = fs_wfD(1-3) [OF wt]
      have "wp (iupdate i) (\<lambda>_. Q (int (unat n))) ?u"
      proof (rule wp_iupdate, unfold ju)
        fix v :: "'z cons_state_scheme"
        assume v: "cache_ok {} v" "inode_stored (i_dev ?jp) (i_inum ?jp) (dinode_of ?jp) ?u v" "bc.keeps {} ?u v"
        have st: "inode_stored (i_dev ?jp) (i_inum ?jp) (dinode_of ?jp) t v" using v(2) by (simp add: inode_stored_def)
        note kv = fs_wf_iupdate [OF wt st]
        have fk: "fkeeps {} s v"
          using fkeeps_trans [OF t(3), of v] keeps_fkeeps [OF v(3)] by (simp add: fkeeps_inodes)
        have iv: "inodes v = (inodes s)[i := ?jp]" using keeps_inodes [OF v(3)] t(2) by simp
        have "inode_at v (i_dev ?jp) (i_inum ?jp) = dinode_of ?jp"
          using inode_stored_at [OF st t(1), of "i_inum ?jp"] fj by (simp add: dinode_of_def geom_def)
        moreover have "fbyte v ?jp p = fbyte t jp p" if "mapped t jp (p div BSIZE)" for p
          using kv(4) [of p] that by simp
        moreover have "mapped v ?jp = mapped t jp" using kv(2) by simp
        ultimately have "written s ?ip (unat off) (unat n) src v ?jp"
          using kv(1) t(5) gf ns unfolding written_def file_grown_def by simp
        then show "Q (int (unat n)) v" by (rule post [OF v(1) iv fk])
      qed (use t(1) fj in \<open>simp_all add: NBUF_def geom_def\<close>)
      then show ?thesis using True by (simp add: get_inode_def it n set_inode_def)
    qed
  qed
  then show ?thesis
    using s(3) fits unfolding writei_def by (simp add: get_inode_def Let_def) (simp only: wp_nest wp_ret_fun)
qed

section \<open>Properties\<close>

text \<open>C12: What \<open>writei\<close> wrote is what \<open>readi\<close> reads, whether or not the file has the blocks already: for a
  write of \<open>n\<close> bytes at an offset within the file or at its end, with as many free blocks on the disk as
  the blocks (and the indirect block) that the write has to allocate, the size is the larger of the old size
  and the end of the write, every block of the file is mapped, and a read of any range gives the new bytes
  where they were written and the old ones elsewhere.  The disk stays well formed (no block is used twice,
  used blocks are marked, free ones are zero), and when the file has become longer, its inode on the disk has
  the new size and addresses.\<close>

theorem writei_then_readi:
  fixes s :: "'z cons_state_scheme"
  assumes s: "cache_ok {} s" "i < length (inodes s)" "i_type (inodes s ! i) \<noteq> T_DEV"
    and off: "unat off \<le> unat (i_size (inodes s ! i))" "unat off + unat n \<le> MAXFILE * BSIZE" "unat off' + unat n' < 2 ^ 32"
    and wf: "fs_wf s (inodes s ! i)" "unat (i_size (inodes s ! i)) \<le> MAXFILE * BSIZE"
    and old: "\<forall>k. k * BSIZE < unat (i_size (inodes s ! i)) \<longrightarrow> mapped s (inodes s ! i) k"
    and room: "missing s (inodes s ! i) (unat off div BSIZE) (blocks_for (unat off + unat n)) \<le> card (free_nos s (inodes s ! i))"
  shows "wp (bnd (writei i src off n) (\<lambda>r. bnd (readi i off' n') (\<lambda>bs. ret (r, bs))))
    (\<lambda>(r, bs) t. r = int (unat n) \<and> bs = window (new_size (inodes s ! i) (unat off) (unat n))
       (\<lambda>p. if unat off \<le> p \<and> p < unat off + unat n then src (p - unat off) else fbyte s (inodes s ! i) p)
       (unat off') (unat n')
     \<and> fs_wf t (inodes t ! i) \<and> unat (i_size (inodes t ! i)) = new_size (inodes s ! i) (unat off) (unat n)
     \<and> (\<forall>k. k * BSIZE < unat (i_size (inodes t ! i)) \<longrightarrow> mapped t (inodes t ! i) k)
     \<and> (0 < unat n \<and> unat (i_size (inodes s ! i)) < unat off + unat n \<longrightarrow>
          inode_at t (i_dev (inodes s ! i)) (i_inum (inodes s ! i)) = dinode_of (inodes t ! i))) s"
    (is "wp _ ?Q s")
proof -
  let ?ip = "inodes s ! i"
  let ?sz = "new_size ?ip (unat off) (unat n)"
  let ?f = "\<lambda>p. if unat off \<le> p \<and> p < unat off + unat n then src (p - unat off) else fbyte s ?ip p"
  have sz: "?sz \<le> 71680" using off(1,2) wf(2) by (simp add: new_size_def MAXFILE_def BSIZE_def)
  have usz: "unat (of_nat ?sz :: u32) = ?sz" using sz by (intro unat_of_nat_small) simp
  have "wp (writei i src off n) (\<lambda>r. wp (readi i off' n') (\<lambda>bs. ?Q (r, bs))) s"
  proof (rule wp_writei_grow [OF s off(1,2) wf(1) room])
    fix t :: "'z cons_state_scheme" and jp
    assume t: "cache_ok {} t" "inodes t = (inodes s)[i := jp]" and w: "written s ?ip (unat off) (unat n) src t jp"
    have ti: "inodes t ! i = jp" using s(2) by (simp add: t(2))
    have size: "unat (i_size jp) = ?sz" using w usz by (simp add: written_def)
    have below: "p < unat (i_size ?ip) \<or> unat off \<le> p \<and> p < unat off + unat n" if "p < ?sz" for p
      using that off(1) by (auto simp: new_size_def split: if_splits)
    have om: "mapped s ?ip (p div BSIZE)" if "p < unat (i_size ?ip)" for p
      using old that div_times_less_eq_dividend [of p BSIZE] by (meson le_less_trans)
    have mk: "mapped t jp k" if "k * BSIZE < ?sz" for k
      using below [OF that] om [of "k * BSIZE"] w unfolding written_def by (force simp: BSIZE_def)
    have byte: "fbyte t jp p = ?f p" if "p < ?sz" for p
      using below [OF that] om [of p] w unfolding written_def by auto
    show "wp (readi i off' n') (\<lambda>bs. ?Q (int (unat n), bs)) t"
    proof (rule wp_readi [OF t(1) _ off(3)], unfold ti)
      show "mapped t jp k" if "k * BSIZE < unat (i_size jp)" for k using mk that by (simp add: size)
      show "i_type jp \<noteq> T_DEV" using w s(3) by (simp add: written_def)
      fix u :: "'z cons_state_scheme"
      assume u: "cache_ok {} u" "blk_at u = blk_at t" "bc.keeps {} t u"
      note sd = same_disk [OF u(2)]
      have iu: "inodes u ! i = jp" using keeps_inodes [OF u(3)] ti by simp
      have "window (unat (i_size jp)) (fbyte t jp) (unat off') (unat n') = window ?sz ?f (unat off') (unat n')"
        using byte by (simp add: window_def size)
      moreover have "inode_at u = inode_at t" by (simp add: inode_at_def fun_eq_iff u(2))
      ultimately show "?Q (int (unat n), window (unat (i_size jp)) (fbyte t jp) (unat off') (unat n')) u"
        using w mk unfolding written_def by (simp add: iu usz sd(7,8))
    qed
  qed
  then show ?thesis by (simp only: wp_nest wp_ret_fun)
qed

text \<open>The directory of the example: its only block is full, and the first free block of the disk is 32.\<close>

lemma root_cons_blk:
  "a < 0x10000000 \<Longrightarrow> blk_at root_cons (1, a) = (if a = 29 then dir_block else mapped_disk small_sb [255, 255, 255, 255] True a)"
  by (simp add: blk_at_def blk_def root_cons_disk lba28_small)
    (simp add: root_open_def bio_state.defs small_fs_def)

lemma root_sb: "sb_at root_cons 1 = small_sb"
  using sb_roundtrip [of small_sb "replicate 500 0"] by (simp add: sb_at_def root_cons_blk mapped_disk_def)

lemma root_geom: "geom 1 small_sb"
  by (simp add: geom_def small_sb_def)

lemma root_bitmap_block: "c < BPB \<Longrightarrow> bitmap_block small_sb c = 28"
proof -
  assume c: "c < BPB"
  then have "unat (bitmap_block small_sb c) = 28"
    using bitmap_block_no [OF root_geom, of c] by (simp add: BPB_def IPB_def small_sb_def)
  then show ?thesis by (simp add: word_unat_eq_iff)
qed

lemma root_used:
  assumes "c < 1024"
  shows "used root_cons 1 small_sb c \<longleftrightarrow> c < 32"
proof -
  have b: "bitmap_block small_sb c = 28" "c mod BPB = c" using assms by (simp_all add: root_bitmap_block BPB_def)
  have d: "c div 8 < BSIZE" using assms by (simp add: BSIZE_def)
  define xs where "xs = ([255, 255, 255, 255] :: u8 list)"
  have l: "length xs = 4" by (simp add: xs_def)
  have bits: "bit (xs ! (c div 8)) (c mod 8)" if "c < 32"
  proof -
    have "c div 8 < 4" using that by simp
    then have "c div 8 = 0 \<or> c div 8 = 1 \<or> c div 8 = 2 \<or> c div 8 = 3" by linarith
    then have "xs ! (c div 8) = 255" by (auto simp: xs_def)
    then show ?thesis by (simp only: full_byte)
  qed
  have lt: "c div 8 < 4 \<longleftrightarrow> c < 32" by auto
  have "bmap_bit (xs @ replicate (BSIZE - length xs) 0) c \<longleftrightarrow> c < 32"
    using bits d lt l by (simp add: bmap_bit_iff nth_append)
  then have "bmap_bit (mapped_disk small_sb [255, 255, 255, 255] True 28) c \<longleftrightarrow> c < 32"
    by (simp add: mapped_disk_def xs_def)
  then show ?thesis using b by (simp add: used_def root_cons_blk)
qed

lemma root_map_area: "map_area 1 small_sb = {(1, 1), (1, 28)}"
proof -
  have "c < BPB" if "BPB * (c div BPB) < 1024" for c
  proof (rule ccontr)
    assume "\<not> c < BPB"
    then have "1 \<le> c div BPB" by (simp add: BPB_def less_eq_div_iff_mult_less_eq)
    then show False using that by (simp add: BPB_def)
  qed
  moreover have "BPB * (0 div BPB) < 1024" "0 < BPB" by (simp_all add: BPB_def)
  ultimately show ?thesis
    using root_bitmap_block by (auto simp: map_area_def small_sb_def [symmetric] intro!: exI [of _ "0 :: nat"]) (auto simp: small_sb_def)
qed

lemma root_free: "free_nos root_cons root_inode = {32..<1024}"
  using root_used by (auto simp: free_nos_def root_sb) (simp_all add: small_sb_def)

lemma root_meta: "meta root_cons root_inode a \<longleftrightarrow> a = 1 \<or> a = 28 \<or> a = 2"
  by (simp add: meta_def root_sb root_map_area IBLOCK_def IPB_def)

lemma root_fs_wf: "fs_wf root_cons root_inode"
proof -
  have iu: "in_use root_cons root_inode 29"
    by (simp add: in_use_def root_sb root_meta root_used) (simp add: small_sb_def)
  have vac: "vacant root_cons root_inode k \<longleftrightarrow> k \<noteq> 0" if "k < MAXFILE" for k
    using that by (auto simp: vacant_def root_inode_def NDIRECT_def nth_Cons')
  have fw: "file_wf root_cons root_inode"
    by (simp add: file_wf_def root_mapped root_addr) (simp add: root_inode_def NDIRECT_def)
  have z: "c \<noteq> 0 \<and> \<not> meta root_cons root_inode (of_nat c) \<and> blk_at root_cons (1, of_nat c) = replicate BSIZE 0"
    if c: "c \<in> {32..<1024}" for c
  proof -
    have "unat (of_nat c :: u32) = c" using c by (intro unat_of_nat_small) simp
    then have "(of_nat c :: u32) \<noteq> 1" "(of_nat c :: u32) \<noteq> 2" "(of_nat c :: u32) \<noteq> 28" "(of_nat c :: u32) \<noteq> 29"
        "(of_nat c :: u32) < 0x10000000"
      using c by (auto simp: word_unat_eq_iff word_less_nat_alt)
    then show ?thesis using c by (simp add: root_meta root_cons_blk mapped_disk_def)
  qed
  show ?thesis
    unfolding fs_wf_def
    using root_geom iu vac fw z
    by (simp add: root_sb root_free root_addr root_map_area) (simp add: root_inode_def NDIRECT_def IBLOCK_def IPB_def)
qed

theorem writei_then_readi_witness:
  "wp (bnd (writei 0 (\<lambda>_. 7) 511 2) (\<lambda>r. bnd (readi 0 510 4) (\<lambda>bs. ret (r, bs))))
    (\<lambda>(r, bs) t. r = 2 \<and> bs = Some [0, 7, 7] \<and> mapped t (inodes t ! 0) 1) root_cons"
proof -
  have sz: "new_size root_inode 511 2 = 513" by (simp add: new_size_def)
  have "[510..<513] = [510, 511, 512]" by (simp add: upt_rec)
  then have w: "window 513 (\<lambda>p. if 511 \<le> p \<and> p < 513 then 7 else fbyte root_cons root_inode p) 510 4 = Some [0, 7, 7]"
    by (simp add: window_def root_byte BSIZE_def dir_block_def bytes_dirent_def bytes16_def dot_entry_def replicate_add [symmetric])
  have "missing root_cons root_inode 0 2 = 1"
  proof -
    have "{k. k < 2 \<and> \<not> mapped root_cons root_inode k} = {1}" by (auto simp: root_mapped)
    then show ?thesis by (simp add: missing_def NDIRECT_def)
  qed
  then have room: "missing root_cons root_inode 0 2 \<le> card (free_nos root_cons root_inode)" by (simp add: root_free)
  have u: "unat (511 :: u32) = 511" "unat (2 :: u32) = 2" "unat (510 :: u32) = 510" "unat (4 :: u32) = 4" by simp_all
  show ?thesis
  proof (rule wp_mono [OF writei_then_readi [of root_cons 0 511 2 510 4 "\<lambda>_. 7"]], unfold root_slot u)
    show "missing root_cons root_inode (511 div BSIZE) (blocks_for (511 + 2)) \<le> card (free_nos root_cons root_inode)"
      using room by (simp add: blocks_for_def BSIZE_def)
  qed (use sz w in \<open>auto simp: root_cons_ok root_fs_wf root_mapped T_DEV_def BSIZE_def MAXFILE_def split: prod.splits\<close>)
qed

end
