(* ===== verification/Ftable.thy ===== *)
theory Ftable
  imports Ifile
begin

text \<open>
  The table of open files, \<open>kernel/file.c\<close>, and \<open>pipealloc\<close> of \<open>kernel/pipe.c\<close>.  A file is
  named by its slot.  Reading returns the bytes that the code copies to \<open>addr\<close> (\<open>None\<close> for -1);
  writing takes the bytes found from \<open>addr\<close> on.
\<close>

datatype ftype = FD_NONE | FD_PIPE | FD_INODE

record ofile =
  f_type :: ftype
  f_ref :: int
  f_readable :: bool
  f_writable :: bool
  f_pipe :: u32
  f_ip :: nat
  f_off :: u32

definition NFILE :: nat where "NFILE = 100"

record file_state = cons_state +
  ftable :: "ofile list"

definition set_file :: "nat \<Rightarrow> (ofile \<Rightarrow> ofile) \<Rightarrow> ('z file_state_scheme, switch, unit) prog" where
  "set_file f g = upd (\<lambda>s. s\<lparr>ftable := (ftable s)[f := g (ftable s ! f)]\<rparr>)"

definition get_file :: "nat \<Rightarrow> ('z file_state_scheme, switch, ofile) prog" where
  "get_file f = asks (\<lambda>s. ftable s ! f)"

definition free_file :: "ofile list \<Rightarrow> nat option" where
  "free_file fs = find (\<lambda>f. f_ref (fs ! f) = 0) [0..<NFILE]"

definition filealloc :: "('z file_state_scheme, switch, nat option) prog" where
  "filealloc =
     thn (lock Lftable) (
     bnd (asks (\<lambda>s. free_file (ftable s))) (\<lambda>r. case r of
       Some f \<Rightarrow> thn (set_file f (\<lambda>x. x\<lparr>f_ref := 1\<rparr>)) (thn (unlock Lftable) (ret (Some f)))
     | None \<Rightarrow> thn (unlock Lftable) (ret None)))"

definition filedup :: "nat \<Rightarrow> ('z file_state_scheme, switch, nat) prog" where
  "filedup f =
     thn (lock Lftable) (
     bnd (get_file f) (\<lambda>x.
     if f_ref x < 1 then panic ''filedup''
     else thn (set_file f (\<lambda>x. x\<lparr>f_ref := f_ref x + 1\<rparr>)) (thn (unlock Lftable) (ret f))))"

definition fileclose :: "nat \<Rightarrow> ('z file_state_scheme, switch, unit) prog" where
  "fileclose f =
     thn (lock Lftable) (
     bnd (get_file f) (\<lambda>x.
     if f_ref x < 1 then panic ''fileclose''
     else
       thn (set_file f (\<lambda>x. x\<lparr>f_ref := f_ref x - 1\<rparr>)) (
       bnd (get_file f) (\<lambda>ff.
       if 0 < f_ref ff then unlock Lftable
       else
         thn (set_file f (\<lambda>x. x\<lparr>f_ref := 0, f_type := FD_NONE\<rparr>)) (
         thn (unlock Lftable) (
         case f_type ff of
           FD_PIPE \<Rightarrow> pipeclose (f_pipe ff) (f_writable ff)
         | FD_INODE \<Rightarrow> iput (f_ip ff)
         | FD_NONE \<Rightarrow> skip))))))"

definition filestat :: "nat \<Rightarrow> ('z file_state_scheme, switch, stat option) prog" where
  "filestat f =
     bnd (get_file f) (\<lambda>x.
     if f_type x = FD_INODE then
       thn (ilock (f_ip x)) (
       bnd (get_inode (f_ip x)) (\<lambda>ip.
       thn (iunlock (f_ip x)) (ret (Some (stati ip)))))
     else ret None)"

definition fileread :: "nat \<Rightarrow> u32 \<Rightarrow> ('z file_state_scheme, switch, u8 list option) prog" where
  "fileread f n =
     bnd (get_file f) (\<lambda>x.
     if \<not> f_readable x then ret None
     else case f_type x of
       FD_PIPE \<Rightarrow> piperead (f_pipe x) (nat (sint n))
     | FD_INODE \<Rightarrow>
         thn (ilock (f_ip x)) (
         bnd (readi (f_ip x) (f_off x) n) (\<lambda>r.
         thn (case r of
                Some bs \<Rightarrow> whenP (bs \<noteq> []) (set_file f (\<lambda>x. x\<lparr>f_off := f_off x + of_nat (length bs)\<rparr>))
              | None \<Rightarrow> skip) (
         thn (iunlock (f_ip x)) (ret r))))
     | FD_NONE \<Rightarrow> panic ''fileread'')"

text \<open>\<open>pipewrite\<close> may give up the CPU having written a part; that is a sleep of \<open>filewrite\<close>.\<close>

definition filewrite :: "nat \<Rightarrow> (nat \<Rightarrow> u8) \<Rightarrow> u32 \<Rightarrow> ('z file_state_scheme, switch, int) prog" where
  "filewrite f src n =
     bnd (get_file f) (\<lambda>x.
     if \<not> f_writable x then ret (- 1)
     else case f_type x of
       FD_PIPE \<Rightarrow>
         bnd (pipewrite (f_pipe x) (map src [0..<nat (sint n)])) (\<lambda>r. case r of
           Inl k \<Rightarrow> ret (if k = - 1 then - 1 else sint n)
         | Inr rest \<Rightarrow> block_on (SwSleep (ChPipeWrite (f_pipe x)) (Lpipe (f_pipe x))))
     | FD_INODE \<Rightarrow>
         thn (ilock (f_ip x)) (
         bnd (writei (f_ip x) src (f_off x) n) (\<lambda>r.
         thn (whenP (0 < r) (set_file f (\<lambda>x. x\<lparr>f_off := f_off x + of_int r\<rparr>))) (
         thn (iunlock (f_ip x)) (ret r))))
     | FD_NONE \<Rightarrow> panic ''filewrite'')"

text \<open>\<open>pipealloc\<close>: two files and a page, or nothing.  \<open>data\<close> comes after the 52 bytes of the lock.\<close>

definition pipe_file :: "u32 \<Rightarrow> bool \<Rightarrow> ofile \<Rightarrow> ofile" where
  "pipe_file p w x = x\<lparr>f_type := FD_PIPE, f_readable := \<not> w, f_writable := w, f_pipe := p\<rparr>"

definition pipealloc :: "('z file_state_scheme, switch, (nat \<times> nat) option) prog" where
  "pipealloc =
     bnd filealloc (\<lambda>r0. case r0 of
       None \<Rightarrow> ret None
     | Some f0 \<Rightarrow>
         bnd filealloc (\<lambda>r1. case r1 of
           None \<Rightarrow> thn (fileclose f0) (ret None)
         | Some f1 \<Rightarrow>
             bnd kalloc (\<lambda>p.
             if p = 0 then thn (fileclose f0) (thn (fileclose f1) (ret None))
             else
               thn (upd (\<lambda>s. s\<lparr>pipes := (pipes s)(p := pipe_start (map (\<lambda>k. phys s (p + 52 + of_nat k)) [0..<PIPESIZE]))\<rparr>)) (
               thn (set_file f0 (pipe_file p False)) (
               thn (set_file f1 (pipe_file p True)) (ret (Some (f0, f1))))))))"

end
