(* ===== verification/Umem.thy ===== *)
theory Umem
  imports Ftable
begin

text \<open>
  User memory as the kernel reaches it: through the page table that \<open>cr3\<close> selects.  An access
  to an address that is not mapped is a page fault in kernel mode, which ends in the panic of
  \<open>trap\<close>.  Here are also the argument fetching routines of \<open>kernel/syscall.c\<close>.
\<close>

definition upa :: "'z sched_state_scheme \<Rightarrow> u32 \<Rightarrow> u32 option" where
  "upa s va = map_option (\<lambda>e. PTE_ADDR e + (va AND 0xFFF)) (lookup (phys s) (cr3 s) va)"

definition uload :: "u32 \<Rightarrow> ('z sched_state_scheme, switch, u8) prog" where
  "uload va = bnd (asks (\<lambda>s. map_option (phys s) (upa s va))) (\<lambda>r. case r of None \<Rightarrow> panic ''trap'' | Some b \<Rightarrow> ret b)"

definition ustore :: "u32 \<Rightarrow> u8 \<Rightarrow> ('z sched_state_scheme, switch, unit) prog" where
  "ustore va b = bnd (asks (\<lambda>s. upa s va)) (\<lambda>r. case r of
     None \<Rightarrow> panic ''trap'' | Some pa \<Rightarrow> upd (\<lambda>s. s\<lparr>phys := (phys s)(pa := b)\<rparr>))"

definition uload32 :: "u32 \<Rightarrow> ('z sched_state_scheme, switch, u32) prog" where
  "uload32 va =
     bnd (uload va) (\<lambda>b0. bnd (uload (va + 1)) (\<lambda>b1. bnd (uload (va + 2)) (\<lambda>b2. bnd (uload (va + 3)) (\<lambda>b3.
     ret (join4 b0 b1 b2 b3)))))"

primrec ustores :: "u32 \<Rightarrow> u8 list \<Rightarrow> ('z sched_state_scheme, switch, unit) prog" where
  "ustores va [] = skip"
| "ustores va (b # bs) = thn (ustore va b) (ustores (va + 1) bs)"

primrec uloads :: "u32 \<Rightarrow> nat \<Rightarrow> ('z sched_state_scheme, switch, u8 list) prog" where
  "uloads va 0 = ret []"
| "uloads va (Suc n) = bnd (uload va) (\<lambda>b. bnd (uloads (va + 1) n) (\<lambda>bs. ret (b # bs)))"

section \<open>Arguments of system calls\<close>

text \<open>The result \<open>None\<close> is the return value -1.\<close>

definition fetchint :: "proc \<Rightarrow> u32 \<Rightarrow> ('z sched_state_scheme, switch, u32 option) prog" where
  "fetchint p addr =
     (if p_sz p \<le> addr \<or> p_sz p < addr + 4 then ret None
      else bnd (uload32 addr) (\<lambda>v. ret (Some v)))"

text \<open>\<open>fetchstr\<close>: the bytes from \<open>addr\<close> to the terminator; the loop ends at \<open>p->sz\<close>.\<close>

primrec fetchstr_loop :: "nat \<Rightarrow> u32 \<Rightarrow> u32 \<Rightarrow> ('z sched_state_scheme, switch, u8 list option) prog" where
  "fetchstr_loop 0 ep s = ret None"
| "fetchstr_loop (Suc n) ep s =
     (if \<not> s < ep then ret None
      else bnd (uload s) (\<lambda>c.
        if c = 0 then ret (Some [])
        else bnd (fetchstr_loop n ep (s + 1)) (\<lambda>r. ret (map_option (\<lambda>cs. c # cs) r))))"

definition fetchstr :: "proc \<Rightarrow> u32 \<Rightarrow> ('z sched_state_scheme, switch, u8 list option) prog" where
  "fetchstr p addr = (if p_sz p \<le> addr then ret None else fetchstr_loop (unat (p_sz p - addr)) (p_sz p) addr)"

definition argint :: "nat \<Rightarrow> ('z sched_state_scheme, switch, u32 option) prog" where
  "argint n =
     bnd curproc (\<lambda>c. bnd (get_proc c) (\<lambda>p. fetchint p (tf_esp (p_tf p) + 4 + 4 * of_nat n)))"

definition argptr :: "nat \<Rightarrow> u32 \<Rightarrow> ('z sched_state_scheme, switch, u32 option) prog" where
  "argptr n sz =
     bnd (argint n) (\<lambda>r. case r of
       None \<Rightarrow> ret None
     | Some i \<Rightarrow>
         bnd curproc (\<lambda>c. bnd (get_proc c) (\<lambda>p.
         if p_sz p \<le> i \<or> p_sz p < i + sz then ret None else ret (Some i))))"

definition argstr :: "nat \<Rightarrow> ('z sched_state_scheme, switch, u8 list option) prog" where
  "argstr n =
     bnd (argint n) (\<lambda>r. case r of
       None \<Rightarrow> ret None
     | Some addr \<Rightarrow> bnd curproc (\<lambda>c. bnd (get_proc c) (\<lambda>p. fetchstr p addr)))"

end
