(* ===== verification/Proc.thy ===== *)
theory Proc
  imports Umem
begin

text \<open>
  The life of a process, \<open>kernel/proc.c\<close>: the first process, \<open>fork\<close>, the threads of \<open>clone\<close>
  and \<open>join\<close>, \<open>exit\<close> and \<open>wait\<close>.  Results are the return values, -1 for failure.  \<open>wait\<close> and
  \<open>join\<close> start over at their scan after a sleep; \<open>exit\<close> never returns.
\<close>

section \<open>Creating processes\<close>

text \<open>What \<open>safestrcpy\<close> leaves in a name of \<open>n\<close> bytes, up to the terminator.\<close>

definition safe_name :: "nat \<Rightarrow> u8 list \<Rightarrow> u8 list" where
  "safe_name n t = take (n - 1) (takeWhile (\<lambda>c. c \<noteq> 0) t)"

definition to_bytes :: "string \<Rightarrow> u8 list" where
  "to_bytes s = map of_char s"

text \<open>Segment selectors and flags of the first trap frame.\<close>

definition user_frame :: trapframe where
  "user_frame = \<lparr>
     tf_edi = 0, tf_esi = 0, tf_ebp = 0, tf_oesp = 0, tf_ebx = 0, tf_edx = 0, tf_ecx = 0, tf_eax = 0,
     tf_gs = 0, tf_fs = 0, tf_es = 0x2B, tf_ds = 0x2B, tf_trapno = 0, tf_err = 0, tf_eip = 0,
     tf_cs = 0x23, tf_eflags = 0x200, tf_esp = PGSIZE, tf_ss = 0x2B\<rparr>"

text \<open>\<open>initcode\<close> is the program assembled from \<open>initcode.S\<close> and linked into the kernel.\<close>

definition userinit :: "u8 list \<Rightarrow> ('z file_state_scheme, switch, unit) prog" where
  "userinit initcode =
     bnd allocproc (\<lambda>r. case r of
       None \<Rightarrow> panic ''null proc''
     | Some j \<Rightarrow>
         thn (lock Lptable) (
         thn (upd (\<lambda>s. s\<lparr>initproc := Some j\<rparr>)) (
         bnd setupkvm (\<lambda>d.
         thn (set_proc j (\<lambda>p. p\<lparr>p_pgdir := d\<rparr>)) (
         if d = 0 then panic ''userinit: out of memory?''
         else
           thn (inituvm d initcode) (
           thn (set_proc j (\<lambda>p. p\<lparr>p_sz := PGSIZE, p_tf := user_frame, p_name := safe_name 16 (to_bytes ''initcode'')\<rparr>)) (
           bnd (namei [slash]) (\<lambda>cwd.
           thn (set_proc j (\<lambda>p. p\<lparr>p_cwd := cwd, p_state := RUNNABLE\<rparr>))
               (unlock Lptable)))))))))"

text \<open>Files and current directory of the child.\<close>

definition dup_fd :: "nat \<Rightarrow> nat \<Rightarrow> nat \<Rightarrow> ('z file_state_scheme, switch, unit) prog" where
  "dup_fd c j fd =
     bnd (get_proc c) (\<lambda>p. case p_ofile p ! fd of
       None \<Rightarrow> skip
     | Some f \<Rightarrow> bnd (filedup f) (\<lambda>g. set_proc j (\<lambda>q. q\<lparr>p_ofile := (p_ofile q)[fd := Some g]\<rparr>)))"

definition dup_cwd :: "nat \<Rightarrow> nat \<Rightarrow> ('z file_state_scheme, switch, unit) prog" where
  "dup_cwd c j =
     bnd (get_proc c) (\<lambda>p. case p_cwd p of
       None \<Rightarrow> panic ''null cwd''
     | Some i \<Rightarrow> bnd (idup i) (\<lambda>k. set_proc j (\<lambda>q. q\<lparr>p_cwd := Some k\<rparr>)))"

text \<open>The end that \<open>fork\<close> and \<open>clone\<close> share: files, directory, then the child may run.\<close>

definition start_child :: "nat \<Rightarrow> nat \<Rightarrow> ('z file_state_scheme, switch, int) prog" where
  "start_child c j =
     thn (foreach [0..<NOFILE] (dup_fd c j)) (
     thn (dup_cwd c j) (
     bnd (get_proc j) (\<lambda>q.
     thn (set_proc j (\<lambda>q. q\<lparr>p_state := RUNNABLE\<rparr>)) (
     bnd (get_proc c) (\<lambda>p.
     thn (set_proc j (\<lambda>q. q\<lparr>p_name := safe_name 16 (p_name p)\<rparr>)) (
     ret (sint (p_pid q))))))))"

definition fork :: "('z file_state_scheme, switch, int) prog" where
  "fork =
     bnd allocproc (\<lambda>r. case r of
       None \<Rightarrow> ret (- 1)
     | Some j \<Rightarrow>
         bnd curproc (\<lambda>c.
         bnd (get_proc c) (\<lambda>p.
         bnd (copyuvm (p_pgdir p) (p_sz p)) (\<lambda>d.
         thn (set_proc j (\<lambda>q. q\<lparr>p_pgdir := d\<rparr>)) (
         if d = 0 then
           bnd (get_proc j) (\<lambda>q.
           thn (kfree (p_kstack q)) (
           thn (set_proc j (\<lambda>q. q\<lparr>p_kstack := 0, p_state := UNUSED\<rparr>)) (ret (- 1))))
         else
           thn (set_proc j (\<lambda>q. q\<lparr>p_sz := p_sz p, p_parent := Some c, p_tf := (p_tf p)\<lparr>tf_eax := 0\<rparr>\<rparr>))
               (start_child c j))))))"

definition clone :: "u32 \<Rightarrow> u32 \<Rightarrow> u32 \<Rightarrow> ('z file_state_scheme, switch, int) prog" where
  "clone fcn arg stack =
     (if stack mod PGSIZE \<noteq> 0 then ret (- 1)
      else
        bnd allocproc (\<lambda>r. case r of
          None \<Rightarrow> ret (- 1)
        | Some j \<Rightarrow>
            bnd curproc (\<lambda>c.
            bnd (get_proc c) (\<lambda>p.
            let sp = stack + PGSIZE - 8 in
            thn (set_proc j (\<lambda>q. q\<lparr>p_pgdir := p_pgdir p, p_sz := p_sz p, p_parent := Some c,
                   p_tf := (p_tf p)\<lparr>tf_esp := sp\<rparr>\<rparr>)) (
            bnd (copyout (p_pgdir p) sp (bytes32 0xFFFFFFFF @ bytes32 arg)) (\<lambda>_.
            thn (set_proc j (\<lambda>q. q\<lparr>p_tstack := stack,
                   p_tf := (p_tf q)\<lparr>tf_eip := fcn, tf_ebp := sp, tf_eax := 0\<rparr>\<rparr>))
                (start_child c j)))))))"

section \<open>Ending and reaping\<close>

text \<open>The children that \<open>wait\<close> looks at have another page directory, those of \<open>join\<close> the same.\<close>

definition is_child :: "nat \<Rightarrow> proc list \<Rightarrow> nat \<Rightarrow> bool" where
  "is_child c ps j \<longleftrightarrow> p_parent (ps ! j) = Some c \<and> p_pgdir (ps ! j) \<noteq> p_pgdir (ps ! c)"

definition is_thread :: "nat \<Rightarrow> proc list \<Rightarrow> nat \<Rightarrow> bool" where
  "is_thread c ps j \<longleftrightarrow> p_parent (ps ! j) = Some c \<and> p_pgdir (ps ! j) = p_pgdir (ps ! c)"

definition reaped :: "proc \<Rightarrow> proc" where
  "reaped p = p\<lparr>p_kstack := 0, p_state := UNUSED, p_pid := 0, p_parent := None, p_name := [], p_killed := False\<rparr>"

definition zombie :: "(nat \<Rightarrow> proc list \<Rightarrow> nat \<Rightarrow> bool) \<Rightarrow> nat \<Rightarrow> proc list \<Rightarrow> nat option" where
  "zombie kin c ps = find (\<lambda>j. kin c ps j \<and> p_state (ps ! j) = ZOMBIE) [0..<NPROC]"

definition has_kin :: "(nat \<Rightarrow> proc list \<Rightarrow> nat \<Rightarrow> bool) \<Rightarrow> nat \<Rightarrow> proc list \<Rightarrow> bool" where
  "has_kin kin c ps \<longleftrightarrow> (\<exists>j \<in> set [0..<NPROC]. kin c ps j)"

definition wait_head :: "('z sched_state_scheme, switch, int) prog" where
  "wait_head =
     bnd curproc (\<lambda>c.
     bnd (asks ptable) (\<lambda>ps.
     case zombie is_child c ps of
       Some j \<Rightarrow>
         thn (kfree (p_kstack (ps ! j))) (
         thn (freevm (p_pgdir (ps ! j))) (
         thn (set_proc j reaped) (
         thn (unlock Lptable) (ret (sint (p_pid (ps ! j)))))))
     | None \<Rightarrow>
         if \<not> has_kin is_child c ps \<or> p_killed (ps ! c) then thn (unlock Lptable) (ret (- 1))
         else sleep (ChProc c) Lptable))"

definition wait :: "('z sched_state_scheme, switch, int) prog" where
  "wait = thn (lock Lptable) wait_head"

definition join_head :: "u32 \<Rightarrow> ('z sched_state_scheme, switch, int) prog" where
  "join_head stack =
     bnd curproc (\<lambda>c.
     bnd (asks ptable) (\<lambda>ps.
     case zombie is_thread c ps of
       Some j \<Rightarrow>
         thn (kfree (p_kstack (ps ! j))) (
         thn (set_proc j reaped) (
         thn (unlock Lptable) (
         thn (ustores stack (bytes32 (p_tstack (ps ! j)))) (ret (sint (p_pid (ps ! j)))))))
     | None \<Rightarrow>
         if \<not> has_kin is_thread c ps \<or> p_killed (ps ! c) then thn (unlock Lptable) (ret (- 1))
         else sleep (ChProc c) Lptable))"

definition join :: "u32 \<Rightarrow> ('z sched_state_scheme, switch, int) prog" where
  "join stack =
     bnd curproc (\<lambda>c.
     bnd (get_proc c) (\<lambda>p.
     if p_sz p - stack < 4 then ret (- 1)
     else thn (lock Lptable) (join_head stack)))"

text \<open>\<open>exit\<close>: the channel of a process is its slot; without a parent the channel is null.\<close>

definition proc_chan :: "nat option \<Rightarrow> chan" where
  "proc_chan p = (case p of None \<Rightarrow> ChNull | Some i \<Rightarrow> ChProc i)"

definition close_fd :: "nat \<Rightarrow> nat \<Rightarrow> ('z file_state_scheme, switch, unit) prog" where
  "close_fd c fd =
     bnd (get_proc c) (\<lambda>p. case p_ofile p ! fd of
       None \<Rightarrow> skip
     | Some f \<Rightarrow> thn (fileclose f) (set_proc c (\<lambda>q. q\<lparr>p_ofile := (p_ofile q)[fd := None]\<rparr>)))"

definition disown :: "nat \<Rightarrow> nat \<Rightarrow> ('z sched_state_scheme, switch, unit) prog" where
  "disown c j =
     bnd (asks ptable) (\<lambda>ps.
     whenP (p_parent (ps ! j) = Some c) (
       if p_pgdir (ps ! j) \<noteq> p_pgdir (ps ! c) then
         bnd (asks initproc) (\<lambda>ini.
         thn (set_proc j (\<lambda>p. p\<lparr>p_parent := ini\<rparr>))
             (whenP (p_state (ps ! j) = ZOMBIE) (wakeup1 (proc_chan ini))))
       else set_proc j (\<lambda>p. p\<lparr>p_state := ZOMBIE\<rparr>)))"

text \<open>The part of \<open>exit\<close> under \<open>ptable.lock\<close>.\<close>

definition exit_locked :: "nat \<Rightarrow> ('z sched_state_scheme, switch, 'a) prog" where
  "exit_locked c =
     bnd (get_proc c) (\<lambda>p.
     thn (wakeup1 (proc_chan (p_parent p))) (
     thn (foreach [0..<NPROC] (disown c)) (
     thn (set_proc c (\<lambda>p. p\<lparr>p_state := ZOMBIE\<rparr>)) (sched SwExit))))"

definition exit :: "('z file_state_scheme, switch, 'a) prog" where
  "exit =
     bnd curproc (\<lambda>c.
     bnd (asks initproc) (\<lambda>ini.
     if ini = Some c then panic ''init exiting''
     else
       thn (foreach [0..<NOFILE] (close_fd c)) (
       bnd (get_proc c) (\<lambda>p.
       thn (case p_cwd p of None \<Rightarrow> panic ''null cwd'' | Some i \<Rightarrow> iput i) (
       thn (set_proc c (\<lambda>p. p\<lparr>p_cwd := None\<rparr>)) (
       thn (lock Lptable) (exit_locked c)))))))"

end
