(* ===== verification/Life.thy ===== *)
theory Life
  imports Proc Files
begin

text \<open>
  What the routines of \<open>kernel/proc.c\<close> that create and end processes do to the process table, to
  memory and to the reference counts: \<open>exit\<close>, \<open>wait\<close>, \<open>fork\<close>.
\<close>

section \<open>exit\<close>

text \<open>A process after the wakeups of the channels \<open>C\<close>.\<close>

definition woken :: "chan set \<Rightarrow> proc \<Rightarrow> proc" where
  "woken C p = (if p_state p = SLEEPING \<and> p_chan p \<in> Some ` C then p\<lparr>p_state := RUNNABLE\<rparr> else p)"

text \<open>Slot \<open>j\<close> of \<open>ps\<close> when the process \<open>c\<close> has handed it over and the channels \<open>C\<close> were woken.\<close>

definition left_by :: "chan set \<Rightarrow> nat \<Rightarrow> nat option \<Rightarrow> proc list \<Rightarrow> nat \<Rightarrow> proc" where
  "left_by C c ini ps j =
     (if p_parent (ps ! j) \<noteq> Some c then woken C (ps ! j)
      else if p_pgdir (ps ! j) \<noteq> p_pgdir (ps ! c) then (woken C (ps ! j))\<lparr>p_parent := ini\<rparr>
      else (ps ! j)\<lparr>p_state := ZOMBIE\<rparr>)"

text \<open>The channels that are woken when the slots in \<open>ys\<close> have been handled.\<close>

definition woken_chans :: "nat \<Rightarrow> nat option \<Rightarrow> proc list \<Rightarrow> nat set \<Rightarrow> chan set" where
  "woken_chans c ini ps ys = insert (proc_chan (p_parent (ps ! c)))
     (if \<exists>j \<in> ys. p_parent (ps ! j) = Some c \<and> p_pgdir (ps ! j) \<noteq> p_pgdir (ps ! c) \<and> p_state (ps ! j) = ZOMBIE
      then {proc_chan ini} else {})"

lemma woken_fields:
  "p_parent (woken C p) = p_parent p" "p_pgdir (woken C p) = p_pgdir p" "p_ofile (woken C p) = p_ofile p"
  "p_state (woken C p) = ZOMBIE \<longleftrightarrow> p_state p = ZOMBIE" "(woken C p)\<lparr>p_state := x\<rparr> = p\<lparr>p_state := x\<rparr>"
  by (auto simp: woken_def)

lemma wake_woken: "wake ch (woken C p) = woken (insert ch C) p" "woken {} p = p"
  by (auto simp: woken_def wake_def)

lemma wake_left_by: "wake ch (left_by C c ini ps j) = left_by (insert ch C) c ini ps j"
  by (auto simp: left_by_def wake_woken) (auto simp: wake_def woken_def)

text \<open>The scan: the slots in \<open>ys\<close> have been handled, the others at most been woken.\<close>

definition exiting :: "nat \<Rightarrow> proc list \<Rightarrow> 'z sched_state_scheme \<Rightarrow> nat list \<Rightarrow> 'z sched_state_scheme \<Rightarrow> bool" where
  "exiting c ps s ys t \<longleftrightarrow> t = s\<lparr>ptable := ptable t\<rparr> \<and> length (ptable t) = NPROC \<and>
     (\<forall>j < NPROC. ptable t ! j = (let C = woken_chans c (initproc s) ps (set ys) in
        if j \<in> set ys then left_by C c (initproc s) ps j else woken C (ps ! j)))"

lemma only_ptable: "t = s\<lparr>ptable := ptable t\<rparr> \<Longrightarrow> t\<lparr>ptable := ps\<rparr> = s\<lparr>ptable := ps\<rparr>"
proof -
  assume "t = s\<lparr>ptable := ptable t\<rparr>"
  then have "t\<lparr>ptable := ps\<rparr> = s\<lparr>ptable := ptable t\<rparr>\<lparr>ptable := ps\<rparr>" by (rule arg_cong [of t _ "\<lambda>u. u\<lparr>ptable := ps\<rparr>"])
  then show ?thesis by simp
qed

lemma wp_wakeup1: "wp (wakeup1 ch) Q s = Q () (s\<lparr>ptable := map (wake ch) (ptable s)\<rparr>)"
  by (simp add: wakeup1_def)

text \<open>One more slot, without and with a wakeup of \<open>initproc\<close>.\<close>

lemma exiting_step:
  assumes e: "exiting c ps s ys t" and j: "j < NPROC" "j \<notin> set ys"
    and q: "q = left_by (woken_chans c (initproc s) ps (set ys)) c (initproc s) ps j"
  shows "p_parent (ps ! j) = Some c \<Longrightarrow> p_pgdir (ps ! j) \<noteq> p_pgdir (ps ! c) \<Longrightarrow> p_state (ps ! j) = ZOMBIE \<Longrightarrow>
      exiting c ps s (ys @ [j]) (t\<lparr>ptable := map (wake (proc_chan (initproc s))) ((ptable t)[j := q])\<rparr>)"
    "\<not> (p_parent (ps ! j) = Some c \<and> p_pgdir (ps ! j) \<noteq> p_pgdir (ps ! c) \<and> p_state (ps ! j) = ZOMBIE) \<Longrightarrow>
      exiting c ps s (ys @ [j]) (t\<lparr>ptable := (ptable t)[j := q]\<rparr>)"
proof -
  let ?C = "woken_chans c (initproc s) ps (set ys)" and ?D = "woken_chans c (initproc s) ps (set (ys @ [j]))"
  have len: "length (ptable t) = NPROC" and ts: "t = s\<lparr>ptable := ptable t\<rparr>" using e by (simp_all add: exiting_def)
  have at: "(ptable t)[j := q] ! k = (if k \<in> set (ys @ [j]) then left_by ?C c (initproc s) ps k else woken ?C (ps ! k))" if "k < NPROC" for k
    using e that len j(1) q by (auto simp: exiting_def Let_def nth_list_update)
  {
    assume z: "p_parent (ps ! j) = Some c" "p_pgdir (ps ! j) \<noteq> p_pgdir (ps ! c)" "p_state (ps ! j) = ZOMBIE"
    then have D: "woken_chans c (initproc s) ps (insert j (set ys)) = insert (proc_chan (initproc s)) ?C" by (auto simp: woken_chans_def)
    have "map (wake (proc_chan (initproc s))) ((ptable t)[j := q]) ! k =
        (if k \<in> set (ys @ [j]) then left_by ?D c (initproc s) ps k else woken ?D (ps ! k))" if "k < NPROC" for k
      using at [OF that] that len by (auto simp: D wake_left_by wake_woken)
    then show "exiting c ps s (ys @ [j]) (t\<lparr>ptable := map (wake (proc_chan (initproc s))) ((ptable t)[j := q])\<rparr>)"
      using len only_ptable [OF ts] by (simp add: exiting_def Let_def)
  next
    assume "\<not> (p_parent (ps ! j) = Some c \<and> p_pgdir (ps ! j) \<noteq> p_pgdir (ps ! c) \<and> p_state (ps ! j) = ZOMBIE)"
    then have D: "?D = ?C" by (auto simp: woken_chans_def)
    show "exiting c ps s (ys @ [j]) (t\<lparr>ptable := (ptable t)[j := q]\<rparr>)"
      unfolding exiting_def Let_def D using at len only_ptable [OF ts] by simp
  }
qed

lemma wp_disown:
  assumes e: "exiting c ps s ys t" and j: "j < NPROC" "j \<notin> set ys" "c < NPROC" "p_parent (ps ! c) \<noteq> Some c"
  shows "wp (disown c j) (\<lambda>_. exiting c ps s (ys @ [j])) t"
proof -
  let ?C = "woken_chans c (initproc s) ps (set ys)"
  have len: "length (ptable t) = NPROC" and ts: "t = s\<lparr>ptable := ptable t\<rparr>" using e by (simp_all add: exiting_def)
  have ini: "initproc t = initproc s" using arg_cong [OF ts, of initproc] by simp
  have aj: "ptable t ! j = woken ?C (ps ! j)" using e j(1,2) by (simp add: exiting_def Let_def)
  have pgc: "p_pgdir (ptable t ! c) = p_pgdir (ps ! c)"
    using e j(3,4) by (auto simp: exiting_def Let_def left_by_def woken_fields)
  note step = exiting_step [OF e j(1,2) refl]
  consider "p_parent (ps ! j) \<noteq> Some c" | "p_parent (ps ! j) = Some c" "p_pgdir (ps ! j) \<noteq> p_pgdir (ps ! c)"
    | "p_parent (ps ! j) = Some c" "p_pgdir (ps ! j) = p_pgdir (ps ! c)" by blast
  then show ?thesis
  proof cases
    case 1
    then have l: "left_by ?C c (initproc s) ps j = ptable t ! j" using aj by (simp add: left_by_def)
    have "exiting c ps s (ys @ [j]) (t\<lparr>ptable := (ptable t)[j := ptable t ! j]\<rparr>)"
      by (rule step(2) [unfolded l]) (use 1 in simp)
    then have "exiting c ps s (ys @ [j]) t" by simp
    then show ?thesis using 1 aj by (simp add: disown_def woken_fields)
  next
    case 2
    then have l: "left_by ?C c (initproc s) ps j = (ptable t ! j)\<lparr>p_parent := initproc s\<rparr>"
      using aj by (simp add: left_by_def)
    show ?thesis
      using step [unfolded l] 2 aj pgc
      by (cases "p_state (ps ! j) = ZOMBIE") (simp_all add: disown_def ini wp_wakeup1 woken_fields)
  next
    case 3
    then have l: "left_by ?C c (initproc s) ps j = (ptable t ! j)\<lparr>p_state := ZOMBIE\<rparr>"
      using aj by (simp add: left_by_def woken_fields)
    then show ?thesis using step(2) [unfolded l] 3 aj pgc by (simp add: disown_def woken_fields)
  qed
qed

lemma wlp_exit_locked:
  assumes s: "held s = {Lptable}" "cur s = Some c" "length (ptable s) = NPROC" "c < NPROC" "p_parent (ptable s ! c) \<noteq> Some c"
    and post: "\<And>t. \<lbrakk>exiting c (ptable s) s [0..<NPROC] t\<rbrakk> \<Longrightarrow>
      B SwExit (t\<lparr>ptable := (ptable t)[c := (ptable t ! c)\<lparr>p_state := ZOMBIE, p_ctx := AtSched\<rparr>]\<rparr>)"
  shows "wlp (exit_locked c) Q B s"
proof -
  let ?ch = "proc_chan (p_parent (ptable s ! c))" and ?u = "s\<lparr>ptable := map (wake (proc_chan (p_parent (ptable s ! c)))) (ptable s)\<rparr>"
  have start: "exiting c (ptable s) s [] ?u" using s(3) wake_woken(1) [of _ "{}"] by (simp add: exiting_def woken_chans_def wake_woken(2))
  have "wp (foreach [0..<NPROC] (disown c)) (\<lambda>_ t. wlp (thn (set_proc c (\<lambda>p. p\<lparr>p_state := ZOMBIE\<rparr>)) (sched SwExit)) Q B t) ?u"
  proof (rule wp_foreach [where I = "exiting c (ptable s) s"])
    show "exiting c (ptable s) s [] ?u" by (rule start)
    fix ys x zs t
    assume split: "[0..<NPROC] = ys @ x # zs" and e: "exiting c (ptable s) s ys t"
    have "distinct (ys @ x # zs)" "set (ys @ x # zs) = {..<NPROC}" unfolding split [symmetric] by auto
    then show "wp (disown c x) (\<lambda>_. exiting c (ptable s) s (ys @ [x])) t"
      using s(4,5) by (intro wp_disown [OF e]) auto
  next
    fix t assume e: "exiting c (ptable s) s [0..<NPROC] t"
    then have t: "t = s\<lparr>ptable := ptable t\<rparr>" "length (ptable t) = NPROC" by (simp_all add: exiting_def)
    have "held t = {Lptable}" "cur t = Some c" using arg_cong [OF t(1), of held] arg_cong [OF t(1), of cur] s(1,2) by simp_all
    then show "wlp (thn (set_proc c (\<lambda>p. p\<lparr>p_state := ZOMBIE\<rparr>)) (sched SwExit)) Q B t"
      using post [OF e] t(2) s(4) by simp
  qed
  then have "wlp (foreach [0..<NPROC] (disown c)) (\<lambda>_. wlp (thn (set_proc c (\<lambda>p. p\<lparr>p_state := ZOMBIE\<rparr>)) (sched SwExit)) Q B) B ?u"
    by (rule wlp_wp)
  then show ?thesis by (simp add: exit_locked_def wakeup1_def)
qed

text \<open>C16: The part of \<open>exit\<close> under \<open>ptable.lock\<close> hands the children over, and the process table is exactly this
  when the process stops for good: it is a zombie itself; its child processes have \<open>initproc\<close> for parent; its threads
  are zombies; the sleepers on its parent's channel are runnable, and those on the channel of \<open>initproc\<close> too when
  one of the handed-over processes is a zombie; every other slot, and every other field, is as before.\<close>

theorem exit_hands_over_children:
  fixes s :: "'z sched_state_scheme"
  assumes "held s = {Lptable}" "cur s = Some c" "length (ptable s) = NPROC" "c < NPROC" "p_parent (ptable s ! c) \<noteq> Some c"
  shows "wlp (exit_locked c) (\<lambda>_ _. False) (\<lambda>sw t. sw = SwExit \<and> t = s\<lparr>ptable := ptable t\<rparr> \<and> length (ptable t) = NPROC \<and>
      ptable t ! c = (ptable s ! c)\<lparr>p_state := ZOMBIE, p_ctx := AtSched\<rparr> \<and>
      (\<forall>j < NPROC. j \<noteq> c \<longrightarrow> (let p = ptable s ! j;
           wakes = p_state p = SLEEPING \<and>
             (p_chan p = Some (proc_chan (p_parent (ptable s ! c))) \<or>
              p_chan p = Some (proc_chan (initproc s)) \<and>
              (\<exists>k < NPROC. p_parent (ptable s ! k) = Some c \<and> p_pgdir (ptable s ! k) \<noteq> p_pgdir (ptable s ! c)
                 \<and> p_state (ptable s ! k) = ZOMBIE));
           st = if wakes then RUNNABLE else p_state p
         in ptable t ! j =
           (if p_parent p \<noteq> Some c then p\<lparr>p_state := st\<rparr>
            else if p_pgdir p \<noteq> p_pgdir (ptable s ! c) then p\<lparr>p_state := st, p_parent := initproc s\<rparr>
            else p\<lparr>p_state := ZOMBIE\<rparr>)))) s"
proof (rule wlp_exit_locked [OF assms])
  fix t :: "'z sched_state_scheme"
  assume e: "exiting c (ptable s) s [0..<NPROC] t"
  let ?C = "woken_chans c (initproc s) (ptable s) {0..<NPROC}"
  let ?q = "(ptable t ! c)\<lparr>p_state := ZOMBIE, p_ctx := AtSched\<rparr>"
  have t: "t = s\<lparr>ptable := ptable t\<rparr>" "length (ptable t) = NPROC"
    and l: "\<And>j. j < NPROC \<Longrightarrow> ptable t ! j = left_by ?C c (initproc s) (ptable s) j" using e by (simp_all add: exiting_def Let_def)
  have c: "?q = (ptable s ! c)\<lparr>p_state := ZOMBIE, p_ctx := AtSched\<rparr>"
    using l [OF assms(4)] assms(5) by (simp add: left_by_def woken_fields)
  have C: "x \<in> ?C \<longleftrightarrow> x = proc_chan (p_parent (ptable s ! c)) \<or> x = proc_chan (initproc s) \<and>
      (\<exists>k < NPROC. p_parent (ptable s ! k) = Some c \<and> p_pgdir (ptable s ! k) \<noteq> p_pgdir (ptable s ! c) \<and> p_state (ptable s ! k) = ZOMBIE)" for x
    by (auto simp: woken_chans_def)
  have w: "woken ?C p = p\<lparr>p_state := if p_state p = SLEEPING \<and> (p_chan p = Some (proc_chan (p_parent (ptable s ! c))) \<or>
      p_chan p = Some (proc_chan (initproc s)) \<and> (\<exists>k < NPROC. p_parent (ptable s ! k) = Some c \<and>
        p_pgdir (ptable s ! k) \<noteq> p_pgdir (ptable s ! c) \<and> p_state (ptable s ! k) = ZOMBIE)) then RUNNABLE else p_state p\<rparr>" for p
    using C by (cases "p_chan p") (auto simp: woken_def image_iff)
  show "SwExit = SwExit \<and> (t\<lparr>ptable := (ptable t)[c := ?q]\<rparr>) = s\<lparr>ptable := ptable (t\<lparr>ptable := (ptable t)[c := ?q]\<rparr>)\<rparr> \<and>
      length (ptable (t\<lparr>ptable := (ptable t)[c := ?q]\<rparr>)) = NPROC \<and>
      ptable (t\<lparr>ptable := (ptable t)[c := ?q]\<rparr>) ! c = (ptable s ! c)\<lparr>p_state := ZOMBIE, p_ctx := AtSched\<rparr> \<and>
      (\<forall>j < NPROC. j \<noteq> c \<longrightarrow> (let p = ptable s ! j;
           wakes = p_state p = SLEEPING \<and>
             (p_chan p = Some (proc_chan (p_parent (ptable s ! c))) \<or>
              p_chan p = Some (proc_chan (initproc s)) \<and>
              (\<exists>k < NPROC. p_parent (ptable s ! k) = Some c \<and> p_pgdir (ptable s ! k) \<noteq> p_pgdir (ptable s ! c)
                 \<and> p_state (ptable s ! k) = ZOMBIE));
           st = if wakes then RUNNABLE else p_state p
         in ptable (t\<lparr>ptable := (ptable t)[c := ?q]\<rparr>) ! j =
           (if p_parent p \<noteq> Some c then p\<lparr>p_state := st\<rparr>
            else if p_pgdir p \<noteq> p_pgdir (ptable s ! c) then p\<lparr>p_state := st, p_parent := initproc s\<rparr>
            else p\<lparr>p_state := ZOMBIE\<rparr>)))"
  proof (intro conjI allI impI)
    fix j assume j: "j < NPROC" "j \<noteq> c"
    have "ptable (t\<lparr>ptable := (ptable t)[c := ?q]\<rparr>) ! j = left_by ?C c (initproc s) (ptable s) j" using j l by simp
    then show "let p = ptable s ! j;
           wakes = p_state p = SLEEPING \<and>
             (p_chan p = Some (proc_chan (p_parent (ptable s ! c))) \<or>
              p_chan p = Some (proc_chan (initproc s)) \<and>
              (\<exists>k < NPROC. p_parent (ptable s ! k) = Some c \<and> p_pgdir (ptable s ! k) \<noteq> p_pgdir (ptable s ! c)
                 \<and> p_state (ptable s ! k) = ZOMBIE));
           st = if wakes then RUNNABLE else p_state p
         in ptable (t\<lparr>ptable := (ptable t)[c := ?q]\<rparr>) ! j =
           (if p_parent p \<noteq> Some c then p\<lparr>p_state := st\<rparr>
            else if p_pgdir p \<noteq> p_pgdir (ptable s ! c) then p\<lparr>p_state := st, p_parent := initproc s\<rparr>
            else p\<lparr>p_state := ZOMBIE\<rparr>)"
      unfolding left_by_def w Let_def by simp
  qed (use c t(2) assms(4) only_ptable [OF t(1)] in simp_all)
qed

text \<open>The threads that \<open>exit\<close> ends keep the slot of the dead process as their parent and keep their open
  files: once another process with its own page directory owns this slot, \<open>wait\<close> takes such a thread
  for a child of it, and would free the page directory that went with the dead process once more.\<close>

theorem exit_leaves_threads_behind:
  assumes "held s = {Lptable}" "cur s = Some c" "length (ptable s) = NPROC" "c < NPROC" "p_parent (ptable s ! c) \<noteq> Some c"
    and "j < NPROC" "is_thread c (ptable s) j"
  shows "wlp (exit_locked c) (\<lambda>_ _. False) (\<lambda>_ t. p_ofile (ptable t ! j) = p_ofile (ptable s ! j) \<and>
      (\<forall>q. p_pgdir q \<noteq> p_pgdir (ptable s ! c) \<longrightarrow>
         is_child c ((ptable t)[c := q]) j \<and> p_state ((ptable t)[c := q] ! j) = ZOMBIE \<and>
         p_pgdir ((ptable t)[c := q] ! j) = p_pgdir (ptable s ! c))) s"
proof (rule wlp_exit_locked [OF assms(1-5)])
  fix t assume e: "exiting c (ptable s) s [0..<NPROC] t"
  have th: "p_parent (ptable s ! j) = Some c" "p_pgdir (ptable s ! j) = p_pgdir (ptable s ! c)"
    using assms(7) by (simp_all add: is_thread_def)
  then have "j \<noteq> c" using assms(5) by auto
  moreover have "ptable t ! j = (ptable s ! j)\<lparr>p_state := ZOMBIE\<rparr>" "length (ptable t) = NPROC"
    using e assms(6) th by (auto simp: exiting_def Let_def left_by_def)
  ultimately show "p_ofile (ptable (t\<lparr>ptable := (ptable t)[c := (ptable t ! c)\<lparr>p_state := ZOMBIE, p_ctx := AtSched\<rparr>]\<rparr>) ! j) = p_ofile (ptable s ! j) \<and>
      (\<forall>q. p_pgdir q \<noteq> p_pgdir (ptable s ! c) \<longrightarrow>
         is_child c ((ptable (t\<lparr>ptable := (ptable t)[c := (ptable t ! c)\<lparr>p_state := ZOMBIE, p_ctx := AtSched\<rparr>]\<rparr>))[c := q]) j \<and>
         p_state ((ptable (t\<lparr>ptable := (ptable t)[c := (ptable t ! c)\<lparr>p_state := ZOMBIE, p_ctx := AtSched\<rparr>]\<rparr>))[c := q] ! j) = ZOMBIE \<and>
         p_pgdir ((ptable (t\<lparr>ptable := (ptable t)[c := (ptable t ! c)\<lparr>p_state := ZOMBIE, p_ctx := AtSched\<rparr>]\<rparr>))[c := q] ! j) = p_pgdir (ptable s ! c))"
    using th assms(4) by (auto simp: is_child_def)
qed

text \<open>A process and its thread in the address space \<open>one_space\<close>, the process inside \<open>exit\<close>.\<close>

definition exit_example :: sched_state where
  "exit_example = two_threads\<lparr>held := {Lptable}\<rparr>"

lemma exit_example_facts:
  "held exit_example = {Lptable}" "cur exit_example = Some 0" "length (ptable exit_example) = NPROC" "0 < NPROC"
  "p_parent (ptable exit_example ! 0) \<noteq> Some 0" "is_thread 0 (ptable exit_example) 1"
  by (simp_all add: exit_example_def NPROC_def is_thread_def)

theorem exit_hands_over_children_witness:
  "wlp (exit_locked 0) (\<lambda>_ _. False) (\<lambda>sw t. sw = SwExit \<and> p_state (ptable t ! 1) = ZOMBIE \<and> p_state (ptable t ! 2) = UNUSED) exit_example"
  by (rule wlp_mono [OF exit_hands_over_children [OF exit_example_facts(1-5)]])
    (auto simp: exit_example_def NPROC_def Let_def unused_proc_def dest: spec [of _ 1] spec [of _ 2])

theorem exit_leaves_threads_behind_witness:
  "wlp (exit_locked 0) (\<lambda>_ _. False) (\<lambda>_ t. is_child 0 ((ptable t)[0 := unused_proc]) 1) exit_example"
proof (rule wlp_mono [OF exit_leaves_threads_behind [OF exit_example_facts(1-5) _ exit_example_facts(6)]])
  show "1 < NPROC" by (simp add: NPROC_def)
  have "p_pgdir unused_proc \<noteq> p_pgdir (ptable exit_example ! 0)" by (simp add: unused_proc_def exit_example_def)
  then show "is_child 0 ((ptable t)[0 := unused_proc]) 1"
    if "p_ofile (ptable t ! 1) = p_ofile (ptable exit_example ! 1) \<and>
      (\<forall>q. p_pgdir q \<noteq> p_pgdir (ptable exit_example ! 0) \<longrightarrow>
         is_child 0 ((ptable t)[0 := q]) 1 \<and> p_state ((ptable t)[0 := q] ! 1) = ZOMBIE \<and>
         p_pgdir ((ptable t)[0 := q] ! 1) = p_pgdir (ptable exit_example ! 0))" for t
    using that by blast
qed simp

section \<open>wait\<close>

lemma zombie_Some:
  "zombie kin c ps = Some j \<Longrightarrow> j < NPROC \<and> kin c ps j \<and> p_state (ps ! j) = ZOMBIE"
  unfolding zombie_def by (drule find_first) simp

lemma as_inv_freed:
  assumes inv: "as_inv d s F" and k: "page_ok (kend s) k" "k \<notin> F" "k \<notin> owned (phys s) d"
    and t: "free_pages t (insert k F)" "Lkmem \<notin> held t" "kend t = kend s" "outside [k] (phys s) (phys t)"
  shows "as_inv d t (insert k F)" "tables (phys t) d = tables (phys s) d" "owned (phys t) d = owned (phys s) d"
proof -
  have al: "page_aligned k" by (rule page_ok_aligned [OF k(1)])
  have ps: "p \<in> set [k] \<Longrightarrow> page_aligned p \<and> p \<noteq> d \<and> p \<notin> tables (phys s) d" for p
    using k(3) al by (auto simp: owned_def)
  have U: "PTE_ADDR p \<notin> insert k F" if "user_page va" "lookup (phys s) d va = Some p" for va p
    using that inv k(3) by (auto simp: as_inv_def user_wf_def owned_def entry_pages_def)
  note m = as_inv_mem [OF inv t(1,2,3,4) ps _ U]
  show "as_inv d t (insert k F)" by (rule m(1)) auto
  show tb: "tables (phys t) d = tables (phys s) d" by (rule m(3)) auto
  have "lookup (phys t) d va = lookup (phys s) d va" for va by (rule m(2)) auto
  then show "owned (phys t) d = owned (phys s) d" by (simp add: owned_def tb entry_pages_def)
qed

lemma wp_wait_head:
  assumes s: "held s = {Lptable}" "cur s = Some c" "zombie is_child c (ptable s) = Some j"
    and inv: "as_inv (p_pgdir (ptable s ! j)) s F" "tables_ok (phys s) (p_pgdir (ptable s ! j)) (kend s)"
    and k: "page_ok (kend s) (p_kstack (ptable s ! j))" "p_kstack (ptable s ! j) \<notin> F \<union> owned (phys s) (p_pgdir (ptable s ! j))"
    and post: "\<And>t. \<lbrakk>held t = {}; ptable t = (ptable s)[j := reaped (ptable s ! j)];
        free_pages t (insert (p_kstack (ptable s ! j)) F \<union> owned (phys s) (p_pgdir (ptable s ! j)));
        \<And>b. (\<forall>p \<in> insert (p_kstack (ptable s ! j)) F \<union> owned (phys s) (p_pgdir (ptable s ! j)). \<not> in_page p b) \<Longrightarrow> phys t b = phys s b\<rbrakk>
      \<Longrightarrow> Q (sint (p_pid (ptable s ! j))) t"
  shows "wp wait_head Q s"
proof -
  let ?p = "ptable s ! j"
  let ?k = "p_kstack ?p" and ?d = "p_pgdir ?p"
  obtain xs where xs: "kmem_inv s xs" "set xs = F"
    using inv(1) by (auto simp: as_inv_def vm_inv_def free_pages_def)
  have "wp (kfree ?k) (\<lambda>_. wp (freevm ?d) (\<lambda>_. wp (thn (set_proc j reaped) (thn (unlock Lptable) (ret (sint (p_pid ?p))))) Q)) s"
  proof (rule wp_kfree [OF xs(1) k(1)])
    fix m
    let ?t = "s\<lparr>phys := m, freelist := ?k\<rparr>"
    assume o: "outside [?k] (phys s) m" and xt: "kmem_inv ?t (?k # xs)"
    have ft: "free_pages ?t (insert ?k F)" using xt xs(2) by (auto simp: free_pages_def)
    note inv' = as_inv_freed [OF inv(1) k(1) _ _ ft]
    have i: "as_inv ?d ?t (insert ?k F)" "tables (phys ?t) ?d = tables (phys s) ?d" "owned (phys ?t) ?d = owned (phys s) ?d"
      by (rule inv'; use k(2) s(1) o in simp)+
    have om: "owned m ?d = owned (phys s) ?d" using i(3) by simp
    show "wp (freevm ?d) (\<lambda>_. wp (thn (set_proc j reaped) (thn (unlock Lptable) (ret (sint (p_pid ?p))))) Q) ?t"
    proof (rule wp_freevm [OF i(1)])
      show "tables_ok (phys ?t) ?d (kend ?t)" using inv(2) i(2) by (simp add: tables_ok_def)
      fix u :: "'a sched_state_scheme"
      assume u: "free_pages u (insert ?k F \<union> owned (phys ?t) ?d)" "u = ?t\<lparr>phys := phys u, freelist := freelist u\<rparr>"
        "\<And>b. (\<forall>p \<in> insert ?k F \<union> owned (phys ?t) ?d. \<not> in_page p b) \<Longrightarrow> phys u b = phys ?t b"
      have f: "ptable u = ptable s" "held u = {Lptable}"
        using arg_cong [OF u(2), of ptable] arg_cong [OF u(2), of held] s(1) by simp_all
      have "phys u b = phys s b" if "\<forall>p \<in> insert ?k F \<union> owned (phys s) ?d. \<not> in_page p b" for b
        using u(3) [of b] that o by (simp add: om outside_def)
      then have "Q (sint (p_pid ?p)) (u\<lparr>ptable := (ptable u)[j := reaped (ptable u ! j)], held := {}\<rparr>)"
        using u(1) by (intro post) (simp_all add: f om)
      then show "wp (thn (set_proc j reaped) (thn (unlock Lptable) (ret (sint (p_pid ?p))))) Q u"
        by (simp add: f)
    qed
  qed (use k(2) s(1) xs(2) in simp_all)
  then show ?thesis using s(2,3) by (simp add: wait_head_def) (simp only: wp_nest)
qed

lemma zombie_first:
  assumes "j < NPROC" "kin c ps j" "p_state (ps ! j) = ZOMBIE" "\<And>k. k < j \<Longrightarrow> \<not> (kin c ps k \<and> p_state (ps ! k) = ZOMBIE)"
  shows "zombie kin c ps = Some j"
  using assms by (auto simp: zombie_def find_Some_iff)

text \<open>C15: \<open>wait\<close> reaps the first zombie child process (a process whose parent is the caller and whose page directory
  is another one): it returns its process id, gives back exactly its kernel stack and everything its address space
  owns, each page once, and clears its slot: no kernel stack, no process id, no parent, no name, not killed,
  free for the next process.  The other fields of the slot, the other slots and all other memory are untouched.\<close>

theorem wait_reaps_zombie_child:
  assumes "held s = {}" "cur s = Some c" "j < NPROC"
    and "p_parent (ptable s ! j) = Some c" "p_pgdir (ptable s ! j) \<noteq> p_pgdir (ptable s ! c)" "p_state (ptable s ! j) = ZOMBIE"
    and "\<forall>k < j. p_parent (ptable s ! k) \<noteq> Some c \<or> p_pgdir (ptable s ! k) = p_pgdir (ptable s ! c) \<or> p_state (ptable s ! k) \<noteq> ZOMBIE"
    and "as_inv (p_pgdir (ptable s ! j)) s F" "tables_ok (phys s) (p_pgdir (ptable s ! j)) (kend s)"
    and "page_ok (kend s) (p_kstack (ptable s ! j))" "p_kstack (ptable s ! j) \<notin> F \<union> owned (phys s) (p_pgdir (ptable s ! j))"
  shows "wp wait (\<lambda>r t. r = sint (p_pid (ptable s ! j)) \<and> held t = {} \<and>
      ptable t = (ptable s)[j := (ptable s ! j)\<lparr>p_kstack := 0, p_state := UNUSED, p_pid := 0, p_parent := None,
        p_name := [], p_killed := False\<rparr>] \<and>
      free_pages t (insert (p_kstack (ptable s ! j)) F \<union> owned (phys s) (p_pgdir (ptable s ! j))) \<and>
      (\<forall>b. (\<forall>p \<in> insert (p_kstack (ptable s ! j)) F \<union> owned (phys s) (p_pgdir (ptable s ! j)). \<not> in_page p b) \<longrightarrow>
         phys t b = phys s b)) s"
proof -
  let ?s = "s\<lparr>held := {Lptable}\<rparr>"
  have z: "zombie is_child c (ptable s) = Some j"
    using assms(3-7) by (intro zombie_first) (auto simp: is_child_def)
  have "as_inv (p_pgdir (ptable s ! j)) ?s F" using assms(8) by (auto simp: as_inv_eq)
  then have "wp wait_head (\<lambda>r t. r = sint (p_pid (ptable s ! j)) \<and> held t = {} \<and>
      ptable t = (ptable s)[j := reaped (ptable s ! j)] \<and>
      free_pages t (insert (p_kstack (ptable s ! j)) F \<union> owned (phys s) (p_pgdir (ptable s ! j))) \<and>
      (\<forall>b. (\<forall>p \<in> insert (p_kstack (ptable s ! j)) F \<union> owned (phys s) (p_pgdir (ptable s ! j)). \<not> in_page p b) \<longrightarrow>
         phys t b = phys s b)) ?s"
    using assms z by (intro wp_wait_head [where c = c and j = j and F = F]) simp_all
  then show ?thesis using assms(1) by (simp add: wait_def reaped_def)
qed

definition wait_example :: sched_state where
  "wait_example = two_threads\<lparr>ptable := (user_proc 1 None RUNNING)\<lparr>p_pgdir := 0x800000\<rparr> #
     user_proc 2 (Some 0) ZOMBIE # replicate 62 unused_proc\<rparr>"

lemma wait_example_simps [simp]:
  "held wait_example = {}" "cur wait_example = Some 0" "phys wait_example = phys one_space" "kend wait_example = kend one_space"
  "freelist wait_example = freelist one_space"
  "ptable wait_example = (user_proc 1 None RUNNING)\<lparr>p_pgdir := 0x800000\<rparr> # user_proc 2 (Some 0) ZOMBIE # replicate 62 unused_proc"
  by (simp_all add: wait_example_def)

theorem wait_reaps_zombie_child_witness:
  "wp wait (\<lambda>r t. r = 2 \<and> p_state (ptable t ! 1) = UNUSED \<and> p_parent (ptable t ! 1) = None) wait_example"
proof -
  have k: "p_kstack (user_proc 2 (Some 0) ZOMBIE) = 0x702000"
    by (simp add: user_proc_def PGSIZE_def)
  have e: "kend one_space = 0x10A000" by (simp add: one_space_def two_free_dir_def two_free_def)
  have o: "owned (phys one_space) 0x500000 = {0x500000, 0x401000}"
    by (auto simp: owned_def one_space_inv(2,3) entry_pages_def)
  have i: "as_inv 0x500000 wait_example {0x400000}" "tables_ok (phys wait_example) 0x500000 (kend wait_example)"
    using one_space_inv(1,2) by (simp_all add: as_inv_eq tables_ok_def page_ok_def e PGSIZE_def PHYSTOP_def)
  have "page_ok (kend wait_example) 0x702000" by (simp add: e page_ok_def PGSIZE_def PHYSTOP_def)
  then show ?thesis
    using i k o by (intro wp_mono [OF wait_reaps_zombie_child [of wait_example 0 1 "{0x400000}"]]) (auto simp: NPROC_def)
qed

section \<open>fork\<close>

text \<open>The open files of the child and how often a list of descriptors refers to a file.\<close>

definition inherit :: "proc \<Rightarrow> proc \<Rightarrow> nat \<Rightarrow> nat option" where
  "inherit p q fd = (case p_ofile p ! fd of Some f \<Rightarrow> Some f | None \<Rightarrow> p_ofile q ! fd)"

definition fd_refs :: "proc \<Rightarrow> nat list \<Rightarrow> nat \<Rightarrow> int" where
  "fd_refs p fds f = int (length (filter (\<lambda>fd. p_ofile p ! fd = Some f) fds))"

definition files_ok :: "ofile list \<Rightarrow> proc \<Rightarrow> bool" where
  "files_ok fs p \<longleftrightarrow> (\<forall>fd f. fd < NOFILE \<longrightarrow> p_ofile p ! fd = Some f \<longrightarrow> f < length fs \<and> 1 \<le> f_ref (fs ! f))"

lemma wp_filedup:
  assumes "Lftable \<notin> held s" "1 \<le> f_ref (ftable s ! f)"
    and "Q f (s\<lparr>ftable := (ftable s)[f := (ftable s ! f)\<lparr>f_ref := f_ref (ftable s ! f) + 1\<rparr>]\<rparr>)"
  shows "wp (filedup f) Q s"
proof -
  let ?fs = "(ftable s)[f := (ftable s ! f)\<lparr>f_ref := f_ref (ftable s ! f) + 1\<rparr>]"
  have "s\<lparr>held := insert Lftable (held s)\<rparr>\<lparr>ftable := ?fs\<rparr>\<lparr>held := held s\<rparr> = s\<lparr>ftable := ?fs\<rparr>" by simp
  then show ?thesis using assms by (simp add: filedup_def get_file_def set_file_def)
qed

definition dupped :: "nat \<Rightarrow> nat \<Rightarrow> 'z file_state_scheme \<Rightarrow> nat list \<Rightarrow> 'z file_state_scheme \<Rightarrow> bool" where
  "dupped c j s fds t \<longleftrightarrow> (\<exists>fl fs. t = s\<lparr>ptable := (ptable s)[j := (ptable s ! j)\<lparr>p_ofile := fl\<rparr>], ftable := fs\<rparr> \<and>
     length fl = length (p_ofile (ptable s ! j)) \<and> length fs = length (ftable s) \<and>
     (\<forall>fd < NOFILE. fl ! fd = (if fd \<in> set fds then inherit (ptable s ! c) (ptable s ! j) fd else p_ofile (ptable s ! j) ! fd)) \<and>
     (\<forall>f < length fs. fs ! f = (ftable s ! f)\<lparr>f_ref := f_ref (ftable s ! f) + fd_refs (ptable s ! c) fds f\<rparr>))"

lemma dupped_nil: "dupped c j s [] s"
  unfolding dupped_def
proof (intro exI conjI)
  show "s = s\<lparr>ptable := (ptable s)[j := (ptable s ! j)\<lparr>p_ofile := p_ofile (ptable s ! j)\<rparr>], ftable := ftable s\<rparr>" by simp
qed (simp_all add: fd_refs_def)

lemma wp_dup_fd:
  assumes d: "dupped c j s fds t" and j: "j \<noteq> c" "j < length (ptable s)" "length (p_ofile (ptable s ! j)) = NOFILE"
    and fd: "fd < NOFILE" "fd \<notin> set fds" and h: "Lftable \<notin> held s" and ok: "files_ok (ftable s) (ptable s ! c)"
  shows "wp (dup_fd c j fd) (\<lambda>_. dupped c j s (fds @ [fd])) t"
proof -
  obtain fl fs where t: "t = s\<lparr>ptable := (ptable s)[j := (ptable s ! j)\<lparr>p_ofile := fl\<rparr>], ftable := fs\<rparr>"
    and len: "length fl = NOFILE" "length fs = length (ftable s)"
    and fl: "\<And>k. k < NOFILE \<Longrightarrow> fl ! k = (if k \<in> set fds then inherit (ptable s ! c) (ptable s ! j) k else p_ofile (ptable s ! j) ! k)"
    and fs: "\<And>f. f < length fs \<Longrightarrow> fs ! f = (ftable s ! f)\<lparr>f_ref := f_ref (ftable s ! f) + fd_refs (ptable s ! c) fds f\<rparr>"
    using d j(3) unfolding dupped_def by auto
  have pc: "ptable t ! c = ptable s ! c" and ft: "ftable t = fs" and pt: "ptable t = (ptable s)[j := (ptable s ! j)\<lparr>p_ofile := fl\<rparr>]"
    and ht: "Lftable \<notin> held t" using j(1) h by (simp_all add: t)
  show ?thesis
  proof (cases "p_ofile (ptable s ! c) ! fd")
    case None
    have "dupped c j s (fds @ [fd]) t"
      unfolding dupped_def
    proof (intro exI conjI)
      show "t = s\<lparr>ptable := (ptable s)[j := (ptable s ! j)\<lparr>p_ofile := fl\<rparr>], ftable := fs\<rparr>" by (rule t)
      show "\<forall>k < NOFILE. fl ! k = (if k \<in> set (fds @ [fd]) then inherit (ptable s ! c) (ptable s ! j) k else p_ofile (ptable s ! j) ! k)"
        using fl None fd by (auto simp: inherit_def)
      show "\<forall>f < length fs. fs ! f = (ftable s ! f)\<lparr>f_ref := f_ref (ftable s ! f) + fd_refs (ptable s ! c) (fds @ [fd]) f\<rparr>"
        using fs None by (simp add: fd_refs_def)
    qed (use len j(3) in simp_all)
    then show ?thesis using None pc by (simp add: dup_fd_def)
  next
    case (Some f)
    have f: "f < length fs" "1 \<le> f_ref (ftable s ! f)" using ok fd(1) Some len(2) by (auto simp: files_ok_def)
    then have ref: "1 \<le> f_ref (ftable t ! f)" using fs [OF f(1)] by (simp add: ft fd_refs_def)
    let ?fs = "fs[f := (fs ! f)\<lparr>f_ref := f_ref (fs ! f) + 1\<rparr>]" and ?fl = "fl[fd := Some f]"
    have "dupped c j s (fds @ [fd]) (s\<lparr>ptable := (ptable s)[j := (ptable s ! j)\<lparr>p_ofile := ?fl\<rparr>], ftable := ?fs\<rparr>)"
      unfolding dupped_def
    proof (intro exI conjI)
      show "\<forall>k < NOFILE. ?fl ! k = (if k \<in> set (fds @ [fd]) then inherit (ptable s ! c) (ptable s ! j) k else p_ofile (ptable s ! j) ! k)"
        using fl Some fd len(1) by (auto simp: inherit_def nth_list_update)
      show "\<forall>g < length ?fs. ?fs ! g = (ftable s ! g)\<lparr>f_ref := f_ref (ftable s ! g) + fd_refs (ptable s ! c) (fds @ [fd]) g\<rparr>"
        using fs Some by (auto simp: fd_refs_def nth_list_update)
    qed (use len j(3) in simp_all)
    moreover have "t\<lparr>ftable := ?fs\<rparr>\<lparr>ptable := (ptable t)[j := (ptable t ! j)\<lparr>p_ofile := (p_ofile (ptable t ! j))[fd := Some f]\<rparr>]\<rparr>
        = s\<lparr>ptable := (ptable s)[j := (ptable s ! j)\<lparr>p_ofile := ?fl\<rparr>], ftable := ?fs\<rparr>"
      using j(2) by (simp add: t)
    ultimately have q: "dupped c j s (fds @ [fd]) (t\<lparr>ftable := ?fs\<rparr>\<lparr>ptable := (ptable t)[j := (ptable t ! j)\<lparr>p_ofile := (p_ofile (ptable t ! j))[fd := Some f]\<rparr>]\<rparr>)"
      by (simp only:)
    have "wp (filedup f) (\<lambda>g. wp (set_proc j (\<lambda>q. q\<lparr>p_ofile := (p_ofile q)[fd := Some g]\<rparr>)) (\<lambda>_. dupped c j s (fds @ [fd]))) t"
      by (rule wp_filedup [OF ht ref]) (use q in \<open>simp add: ft\<close>)
    then show ?thesis using Some pc by (simp add: dup_fd_def)
  qed
qed

lemma wp_start_child:
  assumes j: "j \<noteq> c" "j < length (ptable s)" "c < length (ptable s)" "length (p_ofile (ptable s ! j)) = NOFILE"
    and h: "Lftable \<notin> held s" "Licache \<notin> held s" and ok: "files_ok (ftable s) (ptable s ! c)"
    and cwd: "p_cwd (ptable s ! c) = Some i" "icache_ok (inodes s)" "i < NINODE" "0 < i_ref (inodes s ! i)"
    and post: "\<And>fl fs. \<lbrakk>\<forall>fd < NOFILE. fl ! fd = inherit (ptable s ! c) (ptable s ! j) fd; length fl = NOFILE; length fs = length (ftable s);
        \<forall>f < length fs. fs ! f = (ftable s ! f)\<lparr>f_ref := f_ref (ftable s ! f) + fd_refs (ptable s ! c) [0..<NOFILE] f\<rparr>\<rbrakk> \<Longrightarrow>
      Q (sint (p_pid (ptable s ! j))) (s\<lparr>ptable := (ptable s)[j := (ptable s ! j)\<lparr>p_ofile := fl, p_cwd := Some i, p_state := RUNNABLE,
          p_name := safe_name 16 (p_name (ptable s ! c))\<rparr>], ftable := fs,
          inodes := (inodes s)[i := (inodes s ! i)\<lparr>i_ref := i_ref (inodes s ! i) + 1\<rparr>]\<rparr>)"
  shows "wp (start_child c j) Q s"
proof -
  let ?rest = "thn (dup_cwd c j) (
     bnd (get_proc j) (\<lambda>q.
     thn (set_proc j (\<lambda>q. q\<lparr>p_state := RUNNABLE\<rparr>)) (
     bnd (get_proc c) (\<lambda>p.
     thn (set_proc j (\<lambda>q. q\<lparr>p_name := safe_name 16 (p_name p)\<rparr>)) (
     ret (sint (p_pid q)))))))"
  have "wp (foreach [0..<NOFILE] (dup_fd c j)) (\<lambda>_. wp ?rest Q) s"
  proof (rule wp_foreach [where I = "dupped c j s"])
    show "dupped c j s [] s" by (rule dupped_nil)
    fix ys x zs t
    assume split: "[0..<NOFILE] = ys @ x # zs" and d: "dupped c j s ys t"
    have "distinct (ys @ x # zs)" "set (ys @ x # zs) = {..<NOFILE}" unfolding split [symmetric] by auto
    then show "wp (dup_fd c j x) (\<lambda>_. dupped c j s (ys @ [x])) t"
      by (intro wp_dup_fd [OF d j(1,2,4)]) (use h(1) ok in auto)
  next
    fix t assume "dupped c j s [0..<NOFILE] t"
    then obtain fl fs where t: "t = s\<lparr>ptable := (ptable s)[j := (ptable s ! j)\<lparr>p_ofile := fl\<rparr>], ftable := fs\<rparr>"
      and f: "\<forall>fd < NOFILE. fl ! fd = inherit (ptable s ! c) (ptable s ! j) fd" "length fl = NOFILE" "length fs = length (ftable s)"
        "\<forall>f < length fs. fs ! f = (ftable s ! f)\<lparr>f_ref := f_ref (ftable s ! f) + fd_refs (ptable s ! c) [0..<NOFILE] f\<rparr>"
      using j(4) unfolding dupped_def by auto
    have pc: "ptable t ! c = ptable s ! c" "inodes t = inodes s" "held t = held s" using j(1) by (simp_all add: t)
    let ?ip = "(inodes s ! i)\<lparr>i_ref := i_ref (inodes s ! i) + 1\<rparr>"
    let ?name = "safe_name 16 (p_name (ptable s ! c))"
    let ?fin = "s\<lparr>ptable := (ptable s)[j := (ptable s ! j)\<lparr>p_ofile := fl, p_cwd := Some i, p_state := RUNNABLE,
          p_name := safe_name 16 (p_name (ptable s ! c))\<rparr>], ftable := fs, inodes := (inodes s)[i := ?ip]\<rparr>"
    have q: "Q (sint (p_pid (ptable s ! j))) ?fin" by (rule post [OF f])
    have e: "t\<lparr>inodes := (inodes s)[i := ?ip]\<rparr>\<lparr>ptable := (ptable s)[j := (ptable s ! j)\<lparr>p_ofile := fl, p_cwd := Some i, p_state := RUNNABLE,
          p_name := ?name\<rparr>]\<rparr> = ?fin" by (simp add: t)
    let ?k = "\<lambda>_. wp (bnd (get_proc j) (\<lambda>q. thn (set_proc j (\<lambda>q. q\<lparr>p_state := RUNNABLE\<rparr>)) (
       bnd (get_proc c) (\<lambda>p. thn (set_proc j (\<lambda>q. q\<lparr>p_name := safe_name 16 (p_name p)\<rparr>)) (ret (sint (p_pid q))))))) Q"
    have "wp (idup i) (\<lambda>k. wp (set_proc j (\<lambda>q. q\<lparr>p_cwd := Some k\<rparr>)) ?k) t"
    proof (rule wp_idup; (unfold pc)?)
      fix ip assume ip: "ip = ?ip"
      have "Q (sint (p_pid (ptable s ! j))) (t\<lparr>inodes := (inodes s)[i := ip]\<rparr>\<lparr>ptable := (ptable s)[j := (ptable s ! j)\<lparr>p_ofile := fl,
          p_cwd := Some i, p_state := RUNNABLE, p_name := ?name\<rparr>]\<rparr>)"
        unfolding ip e by (rule q)
      then show "wp (set_proc j (\<lambda>q. q\<lparr>p_cwd := Some i\<rparr>)) ?k (t\<lparr>inodes := (inodes s)[i := ip]\<rparr>)"
        using j(1,2) pc(1) by (simp add: t)
    qed (use h(2) cwd in simp_all)
    then show "wp ?rest Q t" using cwd(1) pc(1) by (simp add: dup_cwd_def)
  qed
  then show ?thesis by (simp add: start_child_def)
qed

text \<open>The child of process \<open>p\<close> in slot \<open>c\<close>, made in a slot that was \<open>old\<close>.\<close>

definition child_of :: "nat \<Rightarrow> proc \<Rightarrow> proc \<Rightarrow> u32 \<Rightarrow> proc \<Rightarrow> bool" where
  "child_of c p old pid q \<longleftrightarrow> p_state q = RUNNABLE \<and> p_pid q = pid \<and> p_parent q = Some c \<and> p_sz q = p_sz p \<and>
     p_tf q = (p_tf p)\<lparr>tf_eax := 0\<rparr> \<and> p_ctx q = AtForkret \<and> p_cwd q = p_cwd p \<and> p_name q = safe_name 16 (p_name p) \<and>
     (\<forall>fd < NOFILE. p_ofile q ! fd = inherit p old fd)"

lemma same_image_mono: "same_image m p r sz F \<Longrightarrow> F \<subseteq> F' \<Longrightarrow> same_image m p r sz F'"
  unfolding same_image_def same_pages_def
proof (intro allI impI)
  fix va
  assume i: "\<forall>va. user_page va \<longrightarrow> (if in_span 0 sz va
     then \<exists>e v. lookup m p va = Some e \<and> v \<in> F \<and> lookup m r va = Some (v OR (PTE_W OR PTE_U) OR PTE_P)
        \<and> page_copy m (PTE_ADDR e) m v else lookup m r va = None)" and F: "F \<subseteq> F'" and u: "user_page va"
  show "if in_span 0 sz va then \<exists>e v. lookup m p va = Some e \<and> v \<in> F' \<and> lookup m r va = Some (v OR (PTE_W OR PTE_U) OR PTE_P)
        \<and> page_copy m (PTE_ADDR e) m v else lookup m r va = None"
    using i [rule_format, OF u] F by (cases "in_span 0 sz va") auto
qed

lemma wp_fork:
  fixes s :: "'z file_state_scheme"
  assumes s: "held s = {}" "cur s = Some c" "ptable_ok s" "c < NPROC" "p_state (ptable s ! c) \<noteq> UNUSED" "data_ok (kdata s)"
    and mem: "as_inv (p_pgdir (ptable s ! c)) s F" "p_sz (ptable s ! c) \<le> USERTOP"
      "\<And>va. in_span 0 (p_sz (ptable s ! c)) va \<Longrightarrow> lookup (phys s) (p_pgdir (ptable s ! c)) va \<noteq> None"
    and fs: "files_ok (ftable s) (ptable s ! c)" "\<And>j. j < NPROC \<Longrightarrow> length (p_ofile (ptable s ! j)) = NOFILE"
    and cwd: "p_cwd (ptable s ! c) = Some i" "icache_ok (inodes s)" "i < NINODE" "0 < i_ref (inodes s ! i)"
    and fail: "\<And>t G. \<lbrakk>\<forall>j < NPROC. ptable t ! j = ptable s ! j \<or> p_state (ptable s ! j) = UNUSED \<and> p_state (ptable t ! j) = UNUSED;
        held t = {}; ftable t = ftable s; inodes t = inodes s; free_pages t G; G \<subseteq> F\<rbrakk> \<Longrightarrow> Q (- 1) t"
    and new: "\<And>t j q G. \<lbrakk>j < NPROC; p_state (ptable s ! j) = UNUSED; ptable t = (ptable s)[j := q]; child_of c (ptable s ! c) (ptable s ! j) (nextpid s) q;
        held t = {}; same_image (phys t) (p_pgdir (ptable s ! c)) (p_pgdir q) (p_sz q) F; p_kstack q \<in> F - G; G \<subseteq> F;
        as_inv (p_pgdir (ptable s ! c)) t G; as_inv (p_pgdir q) t G; \<And>b. (\<forall>p \<in> F. \<not> in_page p b) \<Longrightarrow> phys t b = phys s b;
        \<forall>f < length (ftable s). ftable t ! f = (ftable s ! f)\<lparr>f_ref := f_ref (ftable s ! f) + fd_refs (ptable s ! c) [0..<NOFILE] f\<rparr>;
        inodes t = (inodes s)[i := (inodes s ! i)\<lparr>i_ref := i_ref (inodes s ! i) + 1\<rparr>]\<rbrakk> \<Longrightarrow> Q (sint (nextpid s)) t"
  shows "wp fork Q s"
proof -
  let ?p = "ptable s ! c"
  have free: "free_pages s F" using mem(1) by (simp add: as_inv_def vm_inv_def)
  let ?body = "\<lambda>r. case r of
       None \<Rightarrow> ret (- 1)
     | Some j \<Rightarrow>
         bnd curproc (\<lambda>c.
         bnd (get_proc c) (\<lambda>p.
         bnd (copyuvm (p_pgdir p) (p_sz p)) (\<lambda>d.
         thn (set_proc j (\<lambda>q. q\<lparr>p_pgdir := d\<rparr>)) (
         if d = 0 then
           bnd (get_proc j) (\<lambda>q.
           thn (kfree (p_kstack q)) (
           thn (set_proc j (\<lambda>q. q\<lparr>p_kstack := 0, p_state := UNUSED\<rparr>)) (ret (- 1))))
         else
           thn (set_proc j (\<lambda>q. q\<lparr>p_sz := p_sz p, p_parent := Some c, p_tf := (p_tf p)\<lparr>tf_eax := 0\<rparr>\<rparr>))
               (start_child c j)))))"
  have "wp allocproc (\<lambda>r. wp (?body r) Q) s"
  proof (rule wp_allocproc [OF free s(1,3)])
    fix ps n
    assume "\<forall>j < NPROC. ps ! j = ptable s ! j \<or> p_state (ptable s ! j) = UNUSED \<and> p_state (ps ! j) = UNUSED"
    then have "Q (- 1) (s\<lparr>ptable := ps, nextpid := n\<rparr>)" using s(1) free by (intro fail [of _ F]) simp_all
    then show "wp (?body None) Q (s\<lparr>ptable := ps, nextpid := n\<rparr>)" by simp
  next
    fix j k f tf
    assume j: "j < NPROC" "p_state (ptable s ! j) = UNUSED" "k \<in> F" "k \<noteq> 0" "free_pages (s\<lparr>freelist := f\<rparr>) (F - {k})"
    let ?e = "embryo (ptable s ! j) (nextpid s) k tf"
    let ?u = "s\<lparr>freelist := f, ptable := (ptable s)[j := ?e], nextpid := nextpid s + 1\<rparr>"
    have jc: "j \<noteq> c" using j(2) s(5) by auto
    have len: "length (ptable s) = NPROC" using s(3) by (simp add: ptable_ok_def)
    have pc: "ptable ?u ! c = ?p" using jc by simp
    have "as_inv (p_pgdir ?p) (s\<lparr>freelist := f\<rparr>) (F - {k})"
      by (rule as_inv_untouched(1) [OF mem(1) _ j(5)]) (auto simp: untouched_def)
    then have inv: "as_inv (p_pgdir ?p) ?u (F - {k})" by (simp add: as_inv_eq)
    have pk: "page_ok (kend s) k" using free j(3) by (auto simp: free_pages_def kmem_inv_def)
    let ?post = "\<lambda>d. wp (thn (set_proc j (\<lambda>q. q\<lparr>p_pgdir := d\<rparr>)) (
         if d = 0 then
           bnd (get_proc j) (\<lambda>q.
           thn (kfree (p_kstack q)) (
           thn (set_proc j (\<lambda>q. q\<lparr>p_kstack := 0, p_state := UNUSED\<rparr>)) (ret (- 1))))
         else
           thn (set_proc j (\<lambda>q. q\<lparr>p_sz := p_sz ?p, p_parent := Some c, p_tf := (p_tf ?p)\<lparr>tf_eax := 0\<rparr>\<rparr>))
               (start_child c j))) Q"
    have "wp (copyuvm (p_pgdir ?p) (p_sz ?p)) ?post ?u"
    proof (rule wp_mono [OF wp_copyuvm_image [OF inv]])
      show "data_ok (kdata ?u)" using s(6) by simp
      show "p_sz ?p \<le> USERTOP" by (rule mem(2))
      show "\<forall>va. in_span 0 (p_sz ?p) va \<longrightarrow> lookup (phys ?u) (p_pgdir ?p) va \<noteq> None" using mem(3) by simp
      fix d and t :: "'z file_state_scheme"
      assume c: "untouched (F - {k}) ?u t \<and> ((d \<in> F - {k} \<and> (\<exists>G \<subseteq> F - {k}. as_inv (p_pgdir ?p) t G \<and> as_inv d t G)
          \<and> same_image (phys t) (p_pgdir ?p) d (p_sz ?p) (F - {k})) \<or> (d = 0 \<and> (\<exists>G \<subseteq> F - {k}. as_inv (p_pgdir ?p) t G)))"
      have t: "t = ?u\<lparr>phys := phys t, freelist := freelist t\<rparr>" using c by (simp add: untouched_def)
      have tf: "held t = {}" "ptable t = (ptable s)[j := ?e]" "ftable t = ftable s" "inodes t = inodes s" "kend t = kend s"
        using arg_cong [OF t, of held] arg_cong [OF t, of ptable] arg_cong [OF t, of ftable] arg_cong [OF t, of inodes]
          arg_cong [OF t, of kend] s(1) by simp_all
      have ph: "phys t b = phys s b" if "\<forall>p \<in> F. \<not> in_page p b" for b
        using c that by (simp add: untouched_def)
      show "?post d t"
      proof (cases "d = 0")
        case True
        have d0: "0 \<notin> F" using free by (auto simp: free_pages_def kmem_inv_def page_ok_def)
        then obtain G where G: "G \<subseteq> F - {k}" "as_inv (p_pgdir ?p) t G" using c True by auto
        then have "free_pages t G" by (simp add: as_inv_def vm_inv_def)
        then obtain xs where xs: "kmem_inv t xs" "set xs = G" by (auto simp: free_pages_def)
        let ?v = "t\<lparr>ptable := (ptable t)[j := ?e\<lparr>p_pgdir := 0\<rparr>]\<rparr>"
        have "wp (kfree k) (\<lambda>_. wp (thn (set_proc j (\<lambda>q. q\<lparr>p_kstack := 0, p_state := UNUSED\<rparr>)) (ret (- 1))) Q) ?v"
        proof (rule wp_kfree)
          show "kmem_inv ?v xs" using xs(1) by (simp add: kmem_inv_def)
          fix m
          assume km: "kmem_inv (?v\<lparr>phys := m, freelist := k\<rparr>) (k # xs)"
          let ?w = "?v\<lparr>phys := m, freelist := k\<rparr>"
          let ?x = "?w\<lparr>ptable := (ptable ?w)[j := ?e\<lparr>p_pgdir := 0, p_kstack := 0, p_state := UNUSED\<rparr>]\<rparr>"
          have "free_pages ?w (insert k G)" using km xs(2) by (auto simp: free_pages_def)
          then have "free_pages ?x (insert k G)" by (simp add: free_pages_eq)
          then have "Q (- 1) ?x"
          proof (rule fail [rotated 4])
            show "\<forall>j' < NPROC. ptable ?x ! j' = ptable s ! j' \<or> p_state (ptable s ! j') = UNUSED \<and> p_state (ptable ?x ! j') = UNUSED"
              using j(1,2) len by (auto simp: tf nth_list_update)
          qed (use tf G(1) j(3) in auto)
          then show "wp (thn (set_proc j (\<lambda>q. q\<lparr>p_kstack := 0, p_state := UNUSED\<rparr>)) (ret (- 1))) Q ?w"
            using j(1) len by (simp add: tf)
        qed (use pk G(1) xs(2) tf in auto)
        then show ?thesis using True j(1) len by (simp add: tf embryo_def)
      next
        case False
        then obtain G where G: "d \<in> F - {k}" "G \<subseteq> F - {k}" "as_inv (p_pgdir ?p) t G" "as_inv d t G"
          and im: "same_image (phys t) (p_pgdir ?p) d (p_sz ?p) (F - {k})" using c by auto
        let ?q = "?e\<lparr>p_pgdir := d, p_sz := p_sz ?p, p_parent := Some c, p_tf := (p_tf ?p)\<lparr>tf_eax := 0\<rparr>\<rparr>"
        let ?v = "t\<lparr>ptable := (ptable t)[j := ?q]\<rparr>"
        have vj: "ptable ?v ! j = ?q" "ptable ?v ! c = ?p" using j(1) len jc by (simp_all add: tf)
        have "wp (start_child c j) Q ?v"
        proof (rule wp_start_child [OF jc], unfold vj)
          fix fl fs'
          assume w: "\<forall>fd < NOFILE. fl ! fd = inherit ?p ?q fd" "length fl = NOFILE" "length fs' = length (ftable ?v)"
            "\<forall>f < length fs'. fs' ! f = (ftable ?v ! f)\<lparr>f_ref := f_ref (ftable ?v ! f) + fd_refs ?p [0..<NOFILE] f\<rparr>"
          let ?q' = "?q\<lparr>p_ofile := fl, p_cwd := Some i, p_state := RUNNABLE, p_name := safe_name 16 (p_name ?p)\<rparr>"
          let ?w = "?v\<lparr>ptable := (ptable ?v)[j := ?q'], ftable := fs',
            inodes := (inodes ?v)[i := (inodes ?v ! i)\<lparr>i_ref := i_ref (inodes ?v ! i) + 1\<rparr>]\<rparr>"
          have "Q (sint (nextpid s)) ?w"
          proof (rule new [of j _ ?q' G, OF j(1,2)])
            show "ptable ?w = (ptable s)[j := ?q']" by (simp add: tf)
            show "child_of c ?p (ptable s ! j) (nextpid s) ?q'"
              using w(1) cwd(1) by (simp add: child_of_def embryo_def inherit_def cong: option.case_cong)
            show "same_image (phys ?w) (p_pgdir ?p) (p_pgdir ?q') (p_sz ?q') F"
              using same_image_mono [OF im, of F] by (auto simp: embryo_def)
            show "p_kstack ?q' \<in> F - G" using j(3) G(2) by (auto simp: embryo_def)
            show "as_inv (p_pgdir ?p) ?w G" "as_inv (p_pgdir ?q') ?w G" using G(3,4) by (simp_all add: as_inv_eq)
            show "phys ?w b = phys s b" if "\<forall>p \<in> F. \<not> in_page p b" for b using ph [OF that] by simp
          qed (use w(3,4) G(2) tf in auto)
          then show "Q (sint (p_pid ?q)) ?w" by (simp add: embryo_def)
        qed (use j(1) len s(4) fs tf cwd in \<open>simp_all add: embryo_def\<close>)
        then show ?thesis using False j(1) len by (simp add: tf)
      qed
    qed
    moreover have cu: "cur ?u = Some c" using s(2) by simp
    ultimately show "wp (?body (Some j)) Q ?u" unfolding option.case wp_bnd wp_curproc cu wp_get_proc pc by simp
  qed
  then show ?thesis by (simp add: fork_def)
qed

text \<open>C14: \<open>fork\<close> either returns -1 and no process has appeared, with every file and inode reference as before;
  or it returns the process id of a new runnable child in a slot that was unused: a copy of the parent
  with the same memory image in pages of its own, the same registers except that it sees the result 0,
  and the same open files and directory, each with one reference more for every use.\<close>

theorem fork_makes_child:
  fixes s :: "'z file_state_scheme"
  assumes "held s = {}" "cur s = Some c" "ptable_ok s" "c < NPROC" "p_state (ptable s ! c) \<noteq> UNUSED" "data_ok (kdata s)"
    and "as_inv (p_pgdir (ptable s ! c)) s F" "p_sz (ptable s ! c) \<le> USERTOP"
    and "\<forall>va. in_span 0 (p_sz (ptable s ! c)) va \<longrightarrow> lookup (phys s) (p_pgdir (ptable s ! c)) va \<noteq> None"
    and "files_ok (ftable s) (ptable s ! c)" "\<forall>j < NPROC. length (p_ofile (ptable s ! j)) = NOFILE"
    and "p_cwd (ptable s ! c) = Some i" "icache_ok (inodes s)" "i < NINODE" "0 < i_ref (inodes s ! i)"
  shows "wp fork (\<lambda>r t. held t = {} \<and>
     ((r = - 1 \<and> (\<forall>j < NPROC. ptable t ! j = ptable s ! j \<or> p_state (ptable s ! j) = UNUSED \<and> p_state (ptable t ! j) = UNUSED)
        \<and> ftable t = ftable s \<and> inodes t = inodes s \<and> (\<exists>G \<subseteq> F. free_pages t G))
      \<or> (\<exists>j q G. r = sint (nextpid s) \<and> j < NPROC \<and> p_state (ptable s ! j) = UNUSED \<and> ptable t = (ptable s)[j := q] \<and>
          child_of c (ptable s ! c) (ptable s ! j) (nextpid s) q \<and>
          same_image (phys t) (p_pgdir (ptable s ! c)) (p_pgdir q) (p_sz q) F \<and> p_kstack q \<in> F - G \<and> G \<subseteq> F \<and>
          as_inv (p_pgdir (ptable s ! c)) t G \<and> as_inv (p_pgdir q) t G \<and>
          (\<forall>b. (\<forall>p \<in> F. \<not> in_page p b) \<longrightarrow> phys t b = phys s b) \<and>
          (\<forall>f < length (ftable s). ftable t ! f =
             (ftable s ! f)\<lparr>f_ref := f_ref (ftable s ! f) + fd_refs (ptable s ! c) [0..<NOFILE] f\<rparr>) \<and>
          inodes t = (inodes s)[i := (inodes s ! i)\<lparr>i_ref := i_ref (inodes s ! i) + 1\<rparr>]))) s"
  using assms by (intro wp_fork [where c = c and F = F and i = i]) blast+

definition no_file :: ofile where
  "no_file = \<lparr>f_type = FD_NONE, f_ref = 0, f_readable = False, f_writable = False, f_pipe = 0, f_ip = 0, f_off = 0\<rparr>"

definition user_example :: file_state where
  "user_example = cons_state.extend root_cons \<lparr>ftable = replicate NFILE no_file\<rparr>"

lemma user_example_simps [simp]:
  "held user_example = {}" "cur user_example = Some 0" "ptable user_example = ptable two_threads"
  "phys user_example = phys one_space" "freelist user_example = freelist one_space" "kend user_example = kend one_space"
  "kdata user_example = kdata one_space" "inodes user_example = inodes root_open"
  by (simp_all add: user_example_def cons_state.defs root_cons_def Let_def fs_state.defs root_open_def bio_state.defs
      small_fs_def cold_cache_def two_disks_def pipe_state.defs pipe_example_def sched_state.defs two_threads_def kmem_state.defs)

theorem fork_makes_child_witness:
  "wp fork (\<lambda>r t. held t = {} \<and> (r = - 1 \<or> r = 3)) user_example"
proof -
  have i: "as_inv 0x500000 user_example {0x400000}" using one_space_inv(1) by (simp add: as_inv_eq)
  have p: "ptable user_example ! 0 = user_proc 1 None RUNNING" by simp
  have fl: "p_ofile (user_proc n par st) = replicate NOFILE None" for n par st
    by (simp add: user_proc_def unused_proc_def)
  have "\<forall>p \<in> set (ptable user_example). length (p_ofile p) = NOFILE" by (simp add: fl) (simp add: unused_proc_def)
  moreover have "length (ptable user_example) = NPROC" by (simp add: NPROC_def)
  ultimately have l: "length (p_ofile (ptable user_example ! j)) = NOFILE" if "j < NPROC" for j
    using that nth_mem [of j "ptable user_example"] by (metis (no_types))
  have z: "p_sz (ptable user_example ! 0) = 0" "p_pgdir (ptable user_example ! 0) = 0x500000" unfolding p by simp_all
  have a: "held user_example = {}" "cur user_example = Some 0" "ptable_ok user_example" "0 < NPROC"
    by (simp_all add: ptable_ok_def NPROC_def)
  have b: "p_state (ptable user_example ! 0) \<noteq> UNUSED" unfolding p by simp
  have d: "data_ok (kdata user_example)"
    by (simp add: one_space_def two_free_dir_def two_free_def data_ok_def page_aligned_def PGSIZE_def PHYSTOP_def)
  have e: "as_inv (p_pgdir (ptable user_example ! 0)) user_example {0x400000}" unfolding z by (rule i)
  have sp: "\<forall>va. in_span 0 (p_sz (ptable user_example ! 0)) va \<longrightarrow>
      lookup (phys user_example) (p_pgdir (ptable user_example ! 0)) va \<noteq> None" unfolding z by (simp add: in_span_def)
  have f: "files_ok (ftable user_example) (ptable user_example ! 0)" unfolding p by (simp add: files_ok_def fl)
  have g: "p_cwd (ptable user_example ! 0) = Some 0" unfolding p by (simp add: user_proc_def)
  have ic: "icache_ok (inodes user_example)" "0 < i_ref (inodes user_example ! 0)"
    using root_open_icache root_ref [of 0] by (simp_all add: NINODE_def)
  have n: "nextpid user_example = 3"
    by (simp add: user_example_def cons_state.defs root_cons_def Let_def fs_state.defs root_open_def bio_state.defs
      small_fs_def cold_cache_def two_disks_def pipe_state.defs pipe_example_def sched_state.defs two_threads_def kmem_state.defs)
  have us: "p_sz (ptable user_example ! 0) \<le> USERTOP" unfolding z by simp
  have l': "\<forall>j < NPROC. length (p_ofile (ptable user_example ! j)) = NOFILE" using l by blast
  have nn: "0 < NINODE" by (simp add: NINODE_def)
  have sn: "sint (nextpid user_example) = 3" unfolding n by (simp add: sint_u32)
  from fork_makes_child [OF a b d e us sp f l' g ic(1) nn ic(2)]
  show ?thesis by (rule wp_mono) (elim conjE disjE exE, simp, simp only: sn simp_thms)
qed

end
