(* ===== verification/Sysfile.thy ===== *)
theory Sysfile
  imports Proc
begin

text \<open>
  The file system calls, \<open>kernel/sysfile.c\<close>.  A handler returns the \<open>int\<close> that ends up in
  \<open>%eax\<close>; paths are fetched as byte strings.
\<close>

section \<open>Descriptors\<close>

definition argfd :: "nat \<Rightarrow> ('z file_state_scheme, switch, (nat \<times> nat) option) prog" where
  "argfd n =
     bnd (argint n) (\<lambda>r. case r of
       None \<Rightarrow> ret None
     | Some w \<Rightarrow>
         bnd curproc (\<lambda>c. bnd (get_proc c) (\<lambda>p.
         if sint w < 0 \<or> int NOFILE \<le> sint w then ret None
         else case p_ofile p ! unat w of None \<Rightarrow> ret None | Some f \<Rightarrow> ret (Some (unat w, f)))))"

definition free_fd :: "proc \<Rightarrow> nat option" where
  "free_fd p = find (\<lambda>fd. p_ofile p ! fd = None) [0..<NOFILE]"

definition set_fd :: "nat \<Rightarrow> nat option \<Rightarrow> ('z sched_state_scheme, switch, unit) prog" where
  "set_fd fd x = bnd curproc (\<lambda>c. set_proc c (\<lambda>p. p\<lparr>p_ofile := (p_ofile p)[fd := x]\<rparr>))"

definition fdalloc :: "nat \<Rightarrow> ('z file_state_scheme, switch, nat option) prog" where
  "fdalloc f =
     bnd curproc (\<lambda>c. bnd (get_proc c) (\<lambda>p.
     case free_fd p of
       None \<Rightarrow> ret None
     | Some fd \<Rightarrow> thn (set_fd fd (Some f)) (ret (Some fd))))"

definition sys_dup :: "('z file_state_scheme, switch, int) prog" where
  "sys_dup =
     bnd (argfd 0) (\<lambda>r. case r of
       None \<Rightarrow> ret (- 1)
     | Some (fd0, f) \<Rightarrow>
         bnd (fdalloc f) (\<lambda>r. case r of
           None \<Rightarrow> ret (- 1)
         | Some fd \<Rightarrow> thn (filedup f) (ret (int fd))))"

text \<open>The arguments of \<open>read\<close> and \<open>write\<close>: file, buffer and count.\<close>

definition rw_args :: "('z file_state_scheme, switch, (nat \<times> u32 \<times> u32) option) prog" where
  "rw_args =
     bnd (argfd 0) (\<lambda>r. case r of None \<Rightarrow> ret None | Some (fd, f) \<Rightarrow>
     bnd (argint 2) (\<lambda>r. case r of None \<Rightarrow> ret None | Some n \<Rightarrow>
     bnd (argptr 1 n) (\<lambda>r. case r of None \<Rightarrow> ret None | Some p \<Rightarrow> ret (Some (f, p, n)))))"

definition sys_read :: "('z file_state_scheme, switch, int) prog" where
  "sys_read =
     bnd rw_args (\<lambda>r. case r of
       None \<Rightarrow> ret (- 1)
     | Some (f, p, n) \<Rightarrow>
         bnd (fileread f n) (\<lambda>r. case r of
           None \<Rightarrow> ret (- 1)
         | Some bs \<Rightarrow> thn (ustores p bs) (ret (int (length bs)))))"

text \<open>The bytes at the user's buffer, as they are when the call starts.\<close>

definition user_bytes :: "u32 \<Rightarrow> ('z sched_state_scheme, switch, nat \<Rightarrow> u8) prog" where
  "user_bytes p = asks (\<lambda>s k. case upa s (p + of_nat k) of None \<Rightarrow> 0 | Some pa \<Rightarrow> phys s pa)"

definition sys_write :: "('z file_state_scheme, switch, int) prog" where
  "sys_write =
     bnd rw_args (\<lambda>r. case r of
       None \<Rightarrow> ret (- 1)
     | Some (f, p, n) \<Rightarrow> bnd (user_bytes p) (\<lambda>src. filewrite f src n))"

definition sys_close :: "('z file_state_scheme, switch, int) prog" where
  "sys_close =
     bnd (argfd 0) (\<lambda>r. case r of
       None \<Rightarrow> ret (- 1)
     | Some (fd, f) \<Rightarrow> thn (set_fd fd None) (thn (fileclose f) (ret 0)))"

text \<open>\<open>struct stat\<close> in memory: the short fields are padded to words, and the padding keeps what
  memory holds.\<close>

definition store_stat :: "u32 \<Rightarrow> stat \<Rightarrow> ('z sched_state_scheme, switch, unit) prog" where
  "store_stat p st =
     thn (ustores p (bytes16 (st_type st))) (
     thn (ustores (p + 4) (bytes32 (st_dev st))) (
     thn (ustores (p + 8) (bytes32 (st_ino st))) (
     thn (ustores (p + 12) (bytes16 (st_nlink st)))
         (ustores (p + 16) (bytes32 (st_size st))))))"

definition sys_fstat :: "('z file_state_scheme, switch, int) prog" where
  "sys_fstat =
     bnd (argfd 0) (\<lambda>r. case r of
       None \<Rightarrow> ret (- 1)
     | Some (fd, f) \<Rightarrow>
         bnd (argptr 1 20) (\<lambda>r. case r of
           None \<Rightarrow> ret (- 1)
         | Some p \<Rightarrow>
             bnd (filestat f) (\<lambda>r. case r of
               None \<Rightarrow> ret (- 1)
             | Some st \<Rightarrow> thn (store_stat p st) (ret 0))))"

section \<open>Links\<close>

definition change_nlink :: "nat \<Rightarrow> u16 \<Rightarrow> ('z fs_state_scheme, switch, unit) prog" where
  "change_nlink i d = thn (set_inode i (\<lambda>ip. ip\<lparr>i_nlink := i_nlink ip + d\<rparr>)) (iupdate i)"

definition link_bad :: "nat \<Rightarrow> ('z fs_state_scheme, switch, int) prog" where
  "link_bad i = thn (ilock i) (thn (change_nlink i (- 1)) (thn (iunlockput i) (ret (- 1))))"

definition sys_link :: "('z file_state_scheme, switch, int) prog" where
  "sys_link =
     bnd (argstr 0) (\<lambda>r. case r of None \<Rightarrow> ret (- 1) | Some old \<Rightarrow>
     bnd (argstr 1) (\<lambda>r. case r of None \<Rightarrow> ret (- 1) | Some new \<Rightarrow>
     bnd (namei old) (\<lambda>r. case r of None \<Rightarrow> ret (- 1) | Some i \<Rightarrow>
     thn (ilock i) (
     bnd (get_inode i) (\<lambda>ip.
     if i_type ip = T_DIR then thn (iunlockput i) (ret (- 1))
     else
       thn (change_nlink i 1) (
       thn (iunlock i) (
       bnd (nameiparent new) (\<lambda>r. case r of
         None \<Rightarrow> link_bad i
       | Some (dp, name) \<Rightarrow>
           thn (ilock dp) (
           bnd (get_inode dp) (\<lambda>d.
           bnd (get_inode i) (\<lambda>ip.
           bnd (if i_dev d \<noteq> i_dev ip then ret (- 1) else dirlink dp name (i_inum ip)) (\<lambda>r.
           if r < 0 then thn (iunlockput dp) (link_bad i)
           else thn (iunlockput dp) (thn (iput i) (ret 0))))))))))))))"

text \<open>\<open>isdirempty\<close>: the entries from the third on.\<close>

primrec isdirempty_loop :: "nat \<Rightarrow> nat \<Rightarrow> u32 \<Rightarrow> ('z cons_state_scheme, switch, bool) prog" where
  "isdirempty_loop 0 dp off = ret True"
| "isdirempty_loop (Suc n) dp off =
     bnd (get_inode dp) (\<lambda>d.
     if \<not> off < i_size d then ret True
     else
       bnd (readi dp off 16) (\<lambda>r. case r of
         Some bs \<Rightarrow>
           if length bs \<noteq> 16 then panic ''isdirempty: readi''
           else if de_inum (get_dirent bs 0) \<noteq> 0 then ret False
           else isdirempty_loop n dp (off + 16)
       | None \<Rightarrow> panic ''isdirempty: readi''))"

definition isdirempty :: "nat \<Rightarrow> ('z cons_state_scheme, switch, bool) prog" where
  "isdirempty dp = bnd (get_inode dp) (\<lambda>d. isdirempty_loop (Suc (unat (i_size d) div 16)) dp 32)"

text \<open>\<open>sys_unlink\<close> from the point where both inodes are locked.\<close>

definition unlink_entry :: "nat \<Rightarrow> nat \<Rightarrow> u32 \<Rightarrow> ('z cons_state_scheme, switch, int) prog" where
  "unlink_entry dp i off =
     bnd (get_inode i) (\<lambda>ip.
     if sint (i_nlink ip) < 1 then panic ''unlink: nlink < 1''
     else
       bnd (if i_type ip = T_DIR then isdirempty i else ret True) (\<lambda>empty.
       if \<not> empty then thn (iunlockput i) (thn (iunlockput dp) (ret (- 1)))
       else
         bnd (writei dp (\<lambda>_. 0) off 16) (\<lambda>r.
         if r \<noteq> 16 then panic ''unlink: writei''
         else
           bnd (get_inode i) (\<lambda>ip.
           thn (whenP (i_type ip = T_DIR) (change_nlink dp (- 1))) (
           thn (iunlockput dp) (
           thn (change_nlink i (- 1)) (
           thn (iunlockput i) (ret 0))))))))"

definition sys_unlink :: "('z file_state_scheme, switch, int) prog" where
  "sys_unlink =
     bnd (argstr 0) (\<lambda>r. case r of None \<Rightarrow> ret (- 1) | Some path \<Rightarrow>
     bnd (nameiparent path) (\<lambda>r. case r of None \<Rightarrow> ret (- 1) | Some (dp, name) \<Rightarrow>
     thn (ilock dp) (
     if namecmp name (to_bytes ''.'') = 0 \<or> namecmp name (to_bytes ''..'') = 0
     then thn (iunlockput dp) (ret (- 1))
     else
       bnd (dirlookup dp name) (\<lambda>r. case r of
         None \<Rightarrow> thn (iunlockput dp) (ret (- 1))
       | Some (i, off) \<Rightarrow> thn (ilock i) (unlink_entry dp i off)))))"

section \<open>Creating and opening\<close>

definition create_dots :: "nat \<Rightarrow> nat \<Rightarrow> ('z cons_state_scheme, switch, unit) prog" where
  "create_dots dp i =
     thn (change_nlink dp 1) (
     bnd (get_inode i) (\<lambda>ip.
     bnd (dirlink i (to_bytes ''.'') (i_inum ip)) (\<lambda>r.
     if r < 0 then panic ''create dots''
     else
       bnd (get_inode dp) (\<lambda>d.
       bnd (dirlink i (to_bytes ''..'') (i_inum d)) (\<lambda>r.
       if r < 0 then panic ''create dots'' else skip)))))"

definition create :: "u8 list \<Rightarrow> u16 \<Rightarrow> u16 \<Rightarrow> u16 \<Rightarrow> ('z cons_state_scheme, switch, nat option) prog" where
  "create path type major minor =
     bnd (nameiparent path) (\<lambda>r. case r of None \<Rightarrow> ret None | Some (dp, name) \<Rightarrow>
     thn (ilock dp) (
     bnd (dirlookup dp name) (\<lambda>r. case r of
       Some (i, off) \<Rightarrow>
         thn (iunlockput dp) (
         thn (ilock i) (
         bnd (get_inode i) (\<lambda>ip.
         if type = T_FILE \<and> i_type ip = T_FILE then ret (Some i)
         else thn (iunlockput i) (ret None))))
     | None \<Rightarrow>
         bnd (get_inode dp) (\<lambda>d.
         bnd (ialloc (i_dev d) type) (\<lambda>i.
         thn (ilock i) (
         thn (set_inode i (\<lambda>ip. ip\<lparr>i_major := major, i_minor := minor, i_nlink := 1\<rparr>)) (
         thn (iupdate i) (
         thn (whenP (type = T_DIR) (create_dots dp i)) (
         bnd (get_inode i) (\<lambda>ip.
         bnd (dirlink dp name (i_inum ip)) (\<lambda>r.
         if r < 0 then panic ''create: dirlink''
         else thn (iunlockput dp) (ret (Some i)))))))))))))"

definition O_WRONLY :: u32 where "O_WRONLY = 1"
definition O_RDWR :: u32 where "O_RDWR = 2"
definition O_CREATE :: u32 where "O_CREATE = 0x200"

text \<open>The inode \<open>sys_open\<close> opens, locked.\<close>

definition open_inode :: "u8 list \<Rightarrow> u32 \<Rightarrow> ('z cons_state_scheme, switch, nat option) prog" where
  "open_inode path omode =
     (if omode AND O_CREATE \<noteq> 0 then create path T_FILE 0 0
      else
        bnd (namei path) (\<lambda>r. case r of None \<Rightarrow> ret None | Some i \<Rightarrow>
        thn (ilock i) (
        bnd (get_inode i) (\<lambda>ip.
        if i_type ip = T_DIR \<and> omode \<noteq> 0 then thn (iunlockput i) (ret None) else ret (Some i)))))"

definition sys_open :: "('z file_state_scheme, switch, int) prog" where
  "sys_open =
     bnd (argstr 0) (\<lambda>r. case r of None \<Rightarrow> ret (- 1) | Some path \<Rightarrow>
     bnd (argint 1) (\<lambda>r. case r of None \<Rightarrow> ret (- 1) | Some omode \<Rightarrow>
     bnd (open_inode path omode) (\<lambda>r. case r of None \<Rightarrow> ret (- 1) | Some i \<Rightarrow>
     bnd filealloc (\<lambda>r. case r of
       None \<Rightarrow> thn (iunlockput i) (ret (- 1))
     | Some f \<Rightarrow>
         bnd (fdalloc f) (\<lambda>r. case r of
           None \<Rightarrow> thn (fileclose f) (thn (iunlockput i) (ret (- 1)))
         | Some fd \<Rightarrow>
             thn (iunlock i) (
             thn (set_file f (\<lambda>x. x\<lparr>f_type := FD_INODE, f_ip := i, f_off := 0,
                    f_readable := omode AND O_WRONLY = 0,
                    f_writable := omode AND O_WRONLY \<noteq> 0 \<or> omode AND O_RDWR \<noteq> 0\<rparr>))
                 (ret (int fd))))))))"

definition sys_mkdir :: "('z file_state_scheme, switch, int) prog" where
  "sys_mkdir =
     bnd (argstr 0) (\<lambda>r. case r of None \<Rightarrow> ret (- 1) | Some path \<Rightarrow>
     bnd (create path T_DIR 0 0) (\<lambda>r. case r of
       None \<Rightarrow> ret (- 1)
     | Some i \<Rightarrow> thn (iunlockput i) (ret 0)))"

definition sys_mknod :: "('z file_state_scheme, switch, int) prog" where
  "sys_mknod =
     bnd (argstr 0) (\<lambda>r. case r of None \<Rightarrow> ret (- 1) | Some path \<Rightarrow>
     bnd (argint 1) (\<lambda>r. case r of None \<Rightarrow> ret (- 1) | Some major \<Rightarrow>
     bnd (argint 2) (\<lambda>r. case r of None \<Rightarrow> ret (- 1) | Some minor \<Rightarrow>
     bnd (create path T_DEV (ucast major) (ucast minor)) (\<lambda>r. case r of
       None \<Rightarrow> ret (- 1)
     | Some i \<Rightarrow> thn (iunlockput i) (ret 0)))))"

definition sys_chdir :: "('z file_state_scheme, switch, int) prog" where
  "sys_chdir =
     bnd (argstr 0) (\<lambda>r. case r of None \<Rightarrow> ret (- 1) | Some path \<Rightarrow>
     bnd (namei path) (\<lambda>r. case r of None \<Rightarrow> ret (- 1) | Some i \<Rightarrow>
     thn (ilock i) (
     bnd (get_inode i) (\<lambda>ip.
     if i_type ip \<noteq> T_DIR then thn (iunlockput i) (ret (- 1))
     else
       thn (iunlock i) (
       bnd curproc (\<lambda>c.
       bnd (get_proc c) (\<lambda>p.
       thn (case p_cwd p of None \<Rightarrow> panic ''null cwd'' | Some k \<Rightarrow> iput k) (
       thn (set_proc c (\<lambda>p. p\<lparr>p_cwd := Some i\<rparr>)) (ret 0)))))))))"

definition sys_pipe :: "('z file_state_scheme, switch, int) prog" where
  "sys_pipe =
     bnd (argptr 0 8) (\<lambda>r. case r of None \<Rightarrow> ret (- 1) | Some fd \<Rightarrow>
     bnd pipealloc (\<lambda>r. case r of None \<Rightarrow> ret (- 1) | Some (rfile, wfile) \<Rightarrow>
     bnd (fdalloc rfile) (\<lambda>r. case r of
       None \<Rightarrow> thn (fileclose rfile) (thn (fileclose wfile) (ret (- 1)))
     | Some fd0 \<Rightarrow>
         bnd (fdalloc wfile) (\<lambda>r. case r of
           None \<Rightarrow> thn (set_fd fd0 None) (thn (fileclose rfile) (thn (fileclose wfile) (ret (- 1))))
         | Some fd1 \<Rightarrow>
             thn (ustores fd (bytes32 (of_nat fd0))) (
             thn (ustores (fd + 4) (bytes32 (of_nat fd1))) (ret 0))))))"

end
