(* ===== verification/Exec.thy ===== *)
theory Exec
  imports Sysfile
begin

text \<open>
  Program loading: \<open>loaduvm\<close> of \<open>kernel/vm.c\<close>, \<open>kernel/exec.c\<close> and the argument vector of
  \<open>sys_exec\<close>.  The ELF structures are decoded from the bytes that \<open>readi\<close> returns.
\<close>

section \<open>Loading a segment\<close>

primrec loaduvm_loop :: "nat \<Rightarrow> u32 \<Rightarrow> u32 \<Rightarrow> nat \<Rightarrow> u32 \<Rightarrow> u32 \<Rightarrow> u32 \<Rightarrow> ('z cons_state_scheme, switch, int) prog" where
  "loaduvm_loop 0 pgdir addr ip offset sz i = ret 0"
| "loaduvm_loop (Suc k) pgdir addr ip offset sz i =
     (if \<not> i < sz then ret 0
      else
        bnd (walkpgdir pgdir (addr + i) False) (\<lambda>pte.
        if pte = 0 then panic ''loaduvm: address should exist''
        else
          bnd (get_pte pte) (\<lambda>e.
          let n = (if sz - i < PGSIZE then sz - i else PGSIZE) in
          bnd (readi ip (offset + i) n) (\<lambda>r. case r of
            Some bs \<Rightarrow>
              if length bs \<noteq> unat n then ret (- 1)
              else thn (upd (\<lambda>s. s\<lparr>phys := write_bytes (phys s) (PTE_ADDR e) bs\<rparr>))
                       (loaduvm_loop k pgdir addr ip offset sz (i + PGSIZE))
          | None \<Rightarrow> ret (- 1)))))"

definition loaduvm :: "u32 \<Rightarrow> u32 \<Rightarrow> nat \<Rightarrow> u32 \<Rightarrow> u32 \<Rightarrow> ('z cons_state_scheme, switch, int) prog" where
  "loaduvm pgdir addr ip offset sz =
     (if addr mod PGSIZE \<noteq> 0 then panic ''loaduvm: addr must be page aligned''
      else loaduvm_loop (Suc (unat sz div 4096)) pgdir addr ip offset sz 0)"

section \<open>ELF\<close>

record elfhdr =
  e_magic :: u32
  e_entry :: u32
  e_phoff :: u32
  e_phnum :: u16

record proghdr =
  ph_type :: u32
  ph_offset :: u32
  ph_va :: u32
  ph_filesz :: u32
  ph_memsz :: u32

definition ELF_MAGIC :: u32 where "ELF_MAGIC = 0x464C457F"
definition ELF_PROG_LOAD :: u32 where "ELF_PROG_LOAD = 1"
definition MAXARG :: nat where "MAXARG = 32"

definition get_elfhdr :: "u8 list \<Rightarrow> elfhdr" where
  "get_elfhdr d = \<lparr>e_magic = get32 d 0, e_entry = get32 d 24, e_phoff = get32 d 28, e_phnum = get16 d 44\<rparr>"

definition get_proghdr :: "u8 list \<Rightarrow> proghdr" where
  "get_proghdr d = \<lparr>ph_type = get32 d 0, ph_offset = get32 d 4, ph_va = get32 d 8, ph_filesz = get32 d 16,
     ph_memsz = get32 d 20\<rparr>"

section \<open>exec\<close>

text \<open>The label \<open>bad\<close>: give back the new page directory and the inode, as far as they exist.\<close>

definition exec_bad :: "u32 \<Rightarrow> nat option \<Rightarrow> ('z cons_state_scheme, switch, 'a option) prog" where
  "exec_bad pgdir ip =
     thn (whenP (pgdir \<noteq> 0) (freevm pgdir)) (
     thn (case ip of None \<Rightarrow> skip | Some i \<Rightarrow> iunlockput i) (ret None))"

text \<open>The loop over the program headers; the result is the size reached.\<close>

primrec load_segments :: "nat \<Rightarrow> u32 \<Rightarrow> nat \<Rightarrow> u32 \<Rightarrow> u32 \<Rightarrow> ('z cons_state_scheme, switch, u32 option) prog" where
  "load_segments 0 pgdir i off sz = ret (Some sz)"
| "load_segments (Suc n) pgdir i off sz =
     bnd (readi i off 32) (\<lambda>r. case r of
       None \<Rightarrow> ret None
     | Some d \<Rightarrow>
         if length d \<noteq> 32 then ret None
         else let ph = get_proghdr d in
           if ph_type ph \<noteq> ELF_PROG_LOAD then load_segments n pgdir i (off + 32) sz
           else if ph_memsz ph < ph_filesz ph then ret None
           else
             bnd (allocuvm pgdir sz (ph_va ph + ph_memsz ph)) (\<lambda>sz'.
             if sz' = 0 then ret None
             else
               bnd (loaduvm pgdir (ph_va ph) i (ph_offset ph) (ph_filesz ph)) (\<lambda>r.
               if r < 0 then ret None else load_segments n pgdir i (off + 32) sz')))"

text \<open>Pushing the argument strings: the stack pointer and the addresses of the strings.\<close>

fun push_args :: "nat \<Rightarrow> u32 \<Rightarrow> u8 list list \<Rightarrow> u32 \<Rightarrow> u32 list \<Rightarrow> ('z kmem_state_scheme, switch, (u32 \<times> u32 list) option) prog" where
  "push_args argc pgdir [] sp us = ret (Some (sp, us))"
| "push_args argc pgdir (a # as) sp us =
     (if MAXARG \<le> argc then ret None
      else let sp' = (sp - (of_nat (length a) + 1)) AND NOT 3 in
        bnd (copyout pgdir sp' (a @ [0])) (\<lambda>r.
        if r < 0 then ret None else push_args (Suc argc) pgdir as sp' (us @ [sp'])))"

text \<open>\<open>ustack\<close>: return address, \<open>argc\<close>, \<open>argv\<close>, the string addresses and the null pointer.\<close>

definition ustack_words :: "u32 \<Rightarrow> u32 list \<Rightarrow> u32 list" where
  "ustack_words sp us = [0xFFFFFFFF, of_nat (length us), sp - (of_nat (length us) + 1) * 4] @ us @ [0]"

text \<open>The last element of the path.\<close>

definition last_elem :: "u8 list \<Rightarrow> u8 list" where
  "last_elem path = rev (takeWhile (\<lambda>c. c \<noteq> slash) (rev path))"

text \<open>The end of \<open>exec\<close>, once the new image is complete.\<close>

definition exec_commit :: "u8 list \<Rightarrow> u32 \<Rightarrow> u32 \<Rightarrow> u32 \<Rightarrow> u32 \<Rightarrow> ('z sched_state_scheme, switch, unit) prog" where
  "exec_commit path pgdir sz entry sp =
     bnd curproc (\<lambda>c.
     bnd (get_proc c) (\<lambda>p.
     thn (set_proc c (\<lambda>p. p\<lparr>p_name := safe_name 16 (last_elem path), p_pgdir := pgdir, p_sz := sz,
            p_tf := (p_tf p)\<lparr>tf_eip := entry, tf_esp := sp\<rparr>\<rparr>)) (
     thn (switchuvm c) (freevm (p_pgdir p)))))"

text \<open>From the stack page on, with the inode already put back.\<close>

definition exec_stack :: "u8 list \<Rightarrow> u8 list list \<Rightarrow> u32 \<Rightarrow> u32 \<Rightarrow> u32 \<Rightarrow> ('z cons_state_scheme, switch, int option) prog" where
  "exec_stack path argv pgdir entry sz =
     bnd (allocuvm pgdir (PGROUNDUP sz) (PGROUNDUP sz + PGSIZE)) (\<lambda>sz.
     if sz = 0 then exec_bad pgdir None
     else
       bnd (push_args 0 pgdir argv sz []) (\<lambda>r. case r of
         None \<Rightarrow> exec_bad pgdir None
       | Some (sp, us) \<Rightarrow>
           let sp' = sp - (of_nat (length us) + 4) * 4 in
           bnd (copyout pgdir sp' (concat (map bytes32 (ustack_words sp us)))) (\<lambda>r.
           if r < 0 then exec_bad pgdir None
           else thn (exec_commit path pgdir sz entry sp') (ret (Some 0)))))"

text \<open>
  \<open>readi(...) < sizeof(elf)\<close> compares an \<open>int\<close> with an unsigned size: the return value -1 is not
  less, and then the header is what the kernel stack held, \<open>junk\<close>.
\<close>

definition elf_bytes :: "u8 list \<Rightarrow> u8 list option \<Rightarrow> u8 list option" where
  "elf_bytes junk r = (case r of None \<Rightarrow> Some junk | Some d \<Rightarrow> if length d < 52 then None else Some d)"

definition exec :: "u8 list \<Rightarrow> u8 list \<Rightarrow> u8 list list \<Rightarrow> ('z cons_state_scheme, switch, int) prog" where
  "exec junk path argv =
     bnd (namei path) (\<lambda>r. case r of
       None \<Rightarrow> ret (- 1)
     | Some i \<Rightarrow>
         thn (ilock i) (
         bnd (readi i 0 52) (\<lambda>r.
         bnd (case elf_bytes junk r of
           None \<Rightarrow> exec_bad 0 (Some i)
         | Some d \<Rightarrow>
             let elf = get_elfhdr d in
             if e_magic elf \<noteq> ELF_MAGIC then exec_bad 0 (Some i)
             else
               bnd setupkvm (\<lambda>pgdir.
               if pgdir = 0 then exec_bad 0 (Some i)
               else
                 bnd (load_segments (unat (e_phnum elf)) pgdir i (e_phoff elf) 0) (\<lambda>r. case r of
                   None \<Rightarrow> exec_bad pgdir (Some i)
                 | Some sz \<Rightarrow> thn (iunlockput i) (exec_stack path argv pgdir (e_entry elf) sz)))) (\<lambda>r.
         ret (case r of None \<Rightarrow> - 1 | Some v \<Rightarrow> v)))))"

text \<open>The argument vector of \<open>sys_exec\<close>: at most 31 strings and the null pointer.\<close>

primrec fetch_argv :: "nat \<Rightarrow> u32 \<Rightarrow> u32 \<Rightarrow> ('z sched_state_scheme, switch, u8 list list option) prog" where
  "fetch_argv 0 uargv i = ret None"
| "fetch_argv (Suc n) uargv i =
     bnd curproc (\<lambda>c. bnd (get_proc c) (\<lambda>p.
     bnd (fetchint p (uargv + 4 * i)) (\<lambda>r. case r of
       None \<Rightarrow> ret None
     | Some uarg \<Rightarrow>
         if uarg = 0 then ret (Some [])
         else
           bnd (fetchstr p uarg) (\<lambda>r. case r of
             None \<Rightarrow> ret None
           | Some a \<Rightarrow> bnd (fetch_argv n uargv (i + 1)) (\<lambda>r. ret (map_option (\<lambda>as. a # as) r))))))"

definition sys_exec :: "u8 list \<Rightarrow> ('z cons_state_scheme, switch, int) prog" where
  "sys_exec junk =
     bnd (argstr 0) (\<lambda>r. case r of None \<Rightarrow> ret (- 1) | Some path \<Rightarrow>
     bnd (argint 1) (\<lambda>r. case r of None \<Rightarrow> ret (- 1) | Some uargv \<Rightarrow>
     bnd (fetch_argv MAXARG uargv 0) (\<lambda>r. case r of
       None \<Rightarrow> ret (- 1)
     | Some argv \<Rightarrow> exec junk path argv)))"

end
