(* ===== verification/Kbd.thy ===== *)
theory Kbd
  imports Console
begin

text \<open>
  The keyboard driver, \<open>kernel/kbd.c\<close> and the tables of \<open>kernel/kbd.h\<close>: scan codes to characters.
  The shift keys are a word of flags that the driver keeps between interrupts.  The controller hands
  out the scan codes that are waiting; when there are none, \<open>kbdgetc\<close> returns -1 and the loop of
  \<open>consoleintr\<close> ends.
\<close>

definition SHIFT :: u32 where "SHIFT = 1"
definition CTL :: u32 where "CTL = 2"
definition ALT :: u32 where "ALT = 4"
definition CAPSLOCK :: u32 where "CAPSLOCK = 8"
definition NUMLOCK :: u32 where "NUMLOCK = 16"
definition SCROLLLOCK :: u32 where "SCROLLLOCK = 32"
definition E0ESC :: u32 where "E0ESC = 64"

text \<open>A table of 256 bytes: its first entries, and designated ones.\<close>

definition table :: "nat list \<Rightarrow> (nat \<times> nat) list \<Rightarrow> nat \<Rightarrow> nat" where
  "table xs ds i = (case map_of ds i of Some c \<Rightarrow> c | None \<Rightarrow> if i < length xs then xs ! i else 0)"

definition shiftcode :: "nat \<Rightarrow> u32" where
  "shiftcode i =
     (if i = 0x1D then CTL else if i = 0x2A then SHIFT else if i = 0x36 then SHIFT else if i = 0x38 then ALT
      else if i = 0x9D then CTL else if i = 0xB8 then ALT else 0)"

definition togglecode :: "nat \<Rightarrow> u32" where
  "togglecode i = (if i = 0x3A then CAPSLOCK else if i = 0x45 then NUMLOCK else if i = 0x46 then SCROLLLOCK else 0)"

text \<open>The keys with an escape code: arrows, page and home keys.\<close>

definition special_keys :: "(nat \<times> nat) list" where
  "special_keys =
     [(0xC8, 0xE2), (0xD0, 0xE3), (0xC9, 0xE6), (0xD1, 0xE7), (0xCB, 0xE4), (0xCD, 0xE5),
      (0x97, 0xE0), (0xCF, 0xE1), (0xD2, 0xE8), (0xD3, 0xE9)]"

definition normalmap :: "nat \<Rightarrow> nat" where
  "normalmap = table
     ([0, 0x1B] @ codes ''1234567890-='' @ [8, 9] @ codes ''qwertyuiop[]'' @ [10, 0] @ codes ''asdfghjkl;'' @
      [39, 96, 0, 92] @ codes ''zxcvbnm,./'' @ [0, 42, 0, 32] @ replicate 13 0 @ codes ''789-456+1230.'' @ [0, 0, 0, 0])
     ([(0x9C, 10), (0xB5, 47)] @ special_keys)"

definition shiftmap :: "nat \<Rightarrow> nat" where
  "shiftmap = table
     ([0, 27] @ codes ''!@#$%^&*()_+'' @ [8, 9] @ codes ''QWERTYUIOP{}'' @ [10, 0] @ codes ''ASDFGHJKL:'' @
      [34, 126, 0, 124] @ codes ''ZXCVBNM<>?'' @ [0, 42, 0, 32] @ replicate 13 0 @ codes ''789-456+1230.'' @ [0, 0, 0, 0])
     ([(0x9C, 10), (0xB5, 47)] @ special_keys)"

text \<open>\<open>C(x)\<close> is \<open>x - '@'\<close>, converted to a byte.\<close>

definition ctl_code :: "char \<Rightarrow> nat" where
  "ctl_code c = (of_char c + 192) mod 256"

definition ctlmap :: "nat \<Rightarrow> nat" where
  "ctlmap = table
     (replicate 16 0 @ map ctl_code ''QWERTYUIOP'' @ [0, 0, 13, 0] @ map ctl_code ''ASDFGHJKL'' @ replicate 4 0 @
      [28] @ map ctl_code ''ZXCVBNM'' @ [0, 0, ctl_code CHR ''/'', 0, 0])
     ([(0x9C, 13), (0xB5, ctl_code CHR ''/'')] @ special_keys)"

definition charcode :: "nat \<Rightarrow> nat \<Rightarrow> nat" where
  "charcode k = (if k = 0 then normalmap else if k = 1 then shiftmap else ctlmap)"

definition swap_case :: "nat \<Rightarrow> nat" where
  "swap_case c = (if 97 \<le> c \<and> c \<le> 122 then c - 32 else if 65 \<le> c \<and> c \<le> 90 then c + 32 else c)"

text \<open>\<open>kbdgetc\<close> on a scan code: the new flags and the character, 0 when there is none.\<close>

definition kbdgetc :: "u32 \<Rightarrow> u8 \<Rightarrow> u32 \<times> nat" where
  "kbdgetc shift b =
     (let data = unat b in
      if data = 0xE0 then (shift OR E0ESC, 0)
      else if data AND 0x80 \<noteq> 0 then
        (let data = if shift AND E0ESC \<noteq> 0 then data else data AND 0x7F
         in (shift AND NOT (shiftcode data OR E0ESC), 0))
      else
        let (data, shift) = if shift AND E0ESC \<noteq> 0 then (data OR 0x80, shift AND NOT E0ESC) else (data, shift);
            shift = shift OR shiftcode data;
            shift = shift XOR togglecode data;
            c = charcode (unat (shift AND (CTL OR SHIFT))) data
        in (shift, if shift AND CAPSLOCK \<noteq> 0 then swap_case c else c))"

primrec kbd_chars :: "u32 \<Rightarrow> u8 list \<Rightarrow> u32 \<times> nat list" where
  "kbd_chars shift [] = (shift, [])"
| "kbd_chars shift (b # bs) =
     (let (shift, c) = kbdgetc shift b; (shift, cs) = kbd_chars shift bs in (shift, c # cs))"

text \<open>\<open>uartgetc\<close>: nothing without a serial port.\<close>

definition uart_chars :: "bool \<Rightarrow> u8 list \<Rightarrow> nat list" where
  "uart_chars on bs = (if on then map unat bs else [])"

section \<open>Characters are bytes\<close>

lemma table_bound:
  assumes "\<forall>c \<in> set xs. c < 256" "\<forall>c \<in> set ds. snd c < 256"
  shows "table xs ds i < 256"
  using assms by (auto simp: table_def split: option.splits dest!: map_of_SomeD)

lemma codes_bound: "\<forall>c \<in> set (codes s). c < 256"
  by (auto simp: codes_def)

lemma charcode_bound: "charcode k i < 256"
proof -
  have s: "\<forall>c \<in> set special_keys. snd c < 256" by (simp add: special_keys_def)
  have "normalmap i < 256"
    unfolding normalmap_def by (rule table_bound) (use codes_bound s in \<open>auto simp: codes_def\<close>)
  moreover have "shiftmap i < 256"
    unfolding shiftmap_def by (rule table_bound) (use codes_bound s in \<open>auto simp: codes_def\<close>)
  moreover have "ctlmap i < 256"
    unfolding ctlmap_def by (rule table_bound) (use s in \<open>auto simp: ctl_code_def\<close>)
  ultimately show ?thesis by (simp add: charcode_def)
qed

lemma swap_case_bound: "c < 256 \<Longrightarrow> swap_case c < 256"
  by (auto simp: swap_case_def)

lemma kbdgetc_bound: "snd (kbdgetc shift b) < 256"
  by (simp add: kbdgetc_def Let_def charcode_bound swap_case_bound split: prod.splits)

lemma kbd_chars_bound: "\<forall>c \<in> set (snd (kbd_chars shift bs)). c < 256"
proof (induction bs arbitrary: shift)
  case (Cons b bs)
  show ?case using Cons [of "fst (kbdgetc shift b)"] kbdgetc_bound [of shift b] by (auto simp: Let_def split: prod.splits)
qed simp

lemma uart_chars_bound: "\<forall>c \<in> set (uart_chars on bs). c < 256"
proof -
  have "unat b < 256" for b :: u8 using unsigned_less [of b] by simp
  then show ?thesis by (auto simp: uart_chars_def)
qed

end
