(* ===== verification/Syscall.thy ===== *)
theory Syscall
  imports Exec Kbd
begin

text \<open>
  System calls and traps: \<open>kernel/sysproc.c\<close>, the dispatcher of \<open>kernel/syscall.c\<close> and
  \<open>kernel/trap.c\<close>.  The interrupt controller is reduced to a count of end-of-interrupt
  messages; what the devices deliver with an interrupt is an argument of \<open>trap\<close>.
\<close>

record kernel_state = file_state +
  ticks :: u32
  kbd_shift :: u32
  eois :: nat

section \<open>Process calls\<close>

text \<open>
  \<open>sys_clone\<close> and \<open>sys_join\<close> pass \<open>sizeof(x) < 0\<close>, which is 0, as the size to \<open>argptr\<close> and test
  the result of \<open>argptr\<close> itself.
\<close>

definition sys_clone :: "('z file_state_scheme, switch, int) prog" where
  "sys_clone =
     bnd (argptr 0 0) (\<lambda>r. case r of None \<Rightarrow> ret (- 1) | Some fcn \<Rightarrow>
     bnd (argptr 1 0) (\<lambda>r. case r of None \<Rightarrow> ret (- 1) | Some arg \<Rightarrow>
     bnd (argptr 2 0) (\<lambda>r. case r of None \<Rightarrow> ret (- 1) | Some stack \<Rightarrow>
     clone fcn arg stack)))"

definition sys_join :: "('z sched_state_scheme, switch, int) prog" where
  "sys_join = bnd (argptr 0 0) (\<lambda>r. case r of None \<Rightarrow> ret (- 1) | Some stack \<Rightarrow> join stack)"

definition sys_fork :: "('z file_state_scheme, switch, int) prog" where
  "sys_fork = fork"

definition sys_exit :: "('z file_state_scheme, switch, int) prog" where
  "sys_exit = exit"

definition sys_wait :: "('z sched_state_scheme, switch, int) prog" where
  "sys_wait = wait"

definition sys_kill :: "('z sched_state_scheme, switch, int) prog" where
  "sys_kill = bnd (argint 0) (\<lambda>r. case r of None \<Rightarrow> ret (- 1) | Some pid \<Rightarrow> kill pid)"

definition sys_getpid :: "('z sched_state_scheme, switch, int) prog" where
  "sys_getpid = bnd curproc (\<lambda>c. bnd (get_proc c) (\<lambda>p. ret (sint (p_pid p))))"

definition sys_sbrk :: "('z sched_state_scheme, switch, int) prog" where
  "sys_sbrk =
     bnd (argint 0) (\<lambda>r. case r of None \<Rightarrow> ret (- 1) | Some n \<Rightarrow>
     bnd curproc (\<lambda>c. bnd (get_proc c) (\<lambda>p.
     bnd (growproc n) (\<lambda>r. ret (if r < 0 then - 1 else sint (p_sz p))))))"

text \<open>The loop head of \<open>sys_sleep\<close>, with the tick count at the start.\<close>

definition sleep_head :: "u32 \<Rightarrow> u32 \<Rightarrow> ('z kernel_state_scheme, switch, int) prog" where
  "sleep_head n ticks0 =
     bnd (asks ticks) (\<lambda>t.
     if t - ticks0 < n then
       bnd killed (\<lambda>k.
       if k then thn (unlock Lticks) (ret (- 1)) else sleep ChTicks Lticks)
     else thn (unlock Lticks) (ret 0))"

definition sys_sleep :: "('z kernel_state_scheme, switch, int) prog" where
  "sys_sleep =
     bnd (argint 0) (\<lambda>r. case r of None \<Rightarrow> ret (- 1) | Some n \<Rightarrow>
     thn (lock Lticks) (bnd (asks ticks) (\<lambda>t. sleep_head n t)))"

definition sys_uptime :: "('z kernel_state_scheme, switch, int) prog" where
  "sys_uptime = thn (lock Lticks) (bnd (asks ticks) (\<lambda>t. thn (unlock Lticks) (ret (sint t))))"

section \<open>The dispatcher\<close>

text \<open>The entries of \<open>syscalls[]\<close>; \<open>junk\<close> is the uninitialised header of \<open>exec\<close>.\<close>

definition syscalls :: "u8 list \<Rightarrow> int \<Rightarrow> ('z kernel_state_scheme, switch, int) prog option" where
  "syscalls junk num =
     (if num = 1 then Some sys_fork else if num = 2 then Some sys_exit else if num = 3 then Some sys_wait
      else if num = 4 then Some sys_pipe else if num = 5 then Some sys_write else if num = 6 then Some sys_read
      else if num = 7 then Some sys_close else if num = 8 then Some sys_kill else if num = 9 then Some (sys_exec junk)
      else if num = 10 then Some sys_open else if num = 11 then Some sys_mknod else if num = 12 then Some sys_unlink
      else if num = 13 then Some sys_fstat else if num = 14 then Some sys_link else if num = 15 then Some sys_mkdir
      else if num = 16 then Some sys_chdir else if num = 17 then Some sys_dup else if num = 18 then Some sys_getpid
      else if num = 19 then Some sys_sbrk else if num = 20 then Some sys_sleep else if num = 21 then Some sys_uptime
      else if num = 22 then Some sys_clone else if num = 23 then Some sys_join else None)"

definition set_eax :: "int \<Rightarrow> ('z sched_state_scheme, switch, unit) prog" where
  "set_eax v = bnd curproc (\<lambda>c. set_proc c (\<lambda>p. p\<lparr>p_tf := (p_tf p)\<lparr>tf_eax := of_int v\<rparr>\<rparr>))"

definition syscall :: "u8 list \<Rightarrow> ('z kernel_state_scheme, switch, unit) prog" where
  "syscall junk =
     bnd curproc (\<lambda>c. bnd (get_proc c) (\<lambda>p.
     let num = sint (tf_eax (p_tf p)) in
     case syscalls junk num of
       Some h \<Rightarrow> bnd h set_eax
     | None \<Rightarrow>
         thn (cprintf (''%d %s: unknown sys call %d'' @ [CHR 0x0A]) [Num (p_pid p), Str (Some (map unat (p_name p))), Num (of_int num)])
             (set_eax (- 1))))"

section \<open>Traps\<close>

definition lapiceoi :: "('z kernel_state_scheme, switch, unit) prog" where
  "lapiceoi = upd (\<lambda>s. s\<lparr>eois := Suc (eois s)\<rparr>)"

text \<open>What an interrupt finds: the CPU number, the fault address, and the waiting scan codes and bytes.\<close>

record trap_env =
  te_cpu :: nat
  te_cr2 :: u32
  te_keys :: "u8 list"
  te_uart :: "u8 list"
  te_pcs :: "nat \<Rightarrow> u32 list"

text \<open>\<open>kbdintr\<close> and \<open>uartintr\<close>: the console gets the characters of the scan codes that are waiting, or the
  bytes of the serial port.  Nothing else touches the flags of the keyboard.\<close>

definition kbdintr :: "(nat \<Rightarrow> u32 list) \<Rightarrow> u8 list \<Rightarrow> ('z kernel_state_scheme, switch, unit) prog" where
  "kbdintr pcs bs =
     bnd (asks kbd_shift) (\<lambda>shift.
     case kbd_chars shift bs of (shift, cs) \<Rightarrow>
       thn (upd (\<lambda>s. s\<lparr>kbd_shift := shift\<rparr>)) (consoleintr pcs cs))"

definition uartintr :: "(nat \<Rightarrow> u32 list) \<Rightarrow> u8 list \<Rightarrow> ('z kernel_state_scheme, switch, unit) prog" where
  "uartintr pcs bs = bnd (asks uart_on) (\<lambda>on. consoleintr pcs (uart_chars on bs))"

definition timer_tick :: "('z kernel_state_scheme, switch, unit) prog" where
  "timer_tick =
     thn (lock Lticks) (
     thn (upd (\<lambda>s. s\<lparr>ticks := ticks s + 1\<rparr>)) (
     thn (wakeup ChTicks) (unlock Lticks)))"

definition user_mode :: "trapframe \<Rightarrow> bool" where
  "user_mode tf \<longleftrightarrow> tf_cs tf AND 3 = 3"

definition from_kernel :: "trapframe \<Rightarrow> bool" where
  "from_kernel tf \<longleftrightarrow> tf_cs tf AND 3 = 0"

text \<open>The \<open>switch\<close> of \<open>trap\<close>.\<close>

definition trap_switch :: "trap_env \<Rightarrow> trapframe \<Rightarrow> ('z kernel_state_scheme, switch, unit) prog" where
  "trap_switch e tf =
     (let no = tf_trapno tf in
      if no = 32 then thn (whenP (te_cpu e = 0) timer_tick) lapiceoi
      else if no = 46 then thn ideintr lapiceoi
      else if no = 47 then skip
      else if no = 33 then thn (kbdintr (te_pcs e) (te_keys e)) lapiceoi
      else if no = 36 then thn (uartintr (te_pcs e) (te_uart e)) lapiceoi
      else if no = 39 \<or> no = 63 then
        thn (cprintf (''cpu%d: spurious interrupt at %x:%x'' @ [CHR 0x0A]) [Num (of_nat (te_cpu e)), Num (ucast (tf_cs tf)), Num (tf_eip tf)])
            lapiceoi
      else
        bnd (asks cur) (\<lambda>me. case me of
          None \<Rightarrow> panic ''trap''
        | Some c \<Rightarrow>
            if from_kernel tf then panic ''trap''
            else
              bnd (get_proc c) (\<lambda>p.
              thn (cprintf (''pid %d %s: trap %d err %d on cpu %d eip 0x%x addr 0x%x--kill proc'' @ [CHR 0x0A])
                    [Num (p_pid p), Str (Some (map unat (p_name p))), Num no, Num (tf_err tf),
                     Num (of_nat (te_cpu e)), Num (tf_eip tf), Num (te_cr2 e)])
                  (set_proc c (\<lambda>p. p\<lparr>p_killed := True\<rparr>)))))"

text \<open>\<open>if(proc && proc->killed && (tf->cs&3) == DPL_USER) exit();\<close>\<close>

definition exit_if_killed :: "trapframe \<Rightarrow> ('z file_state_scheme, switch, unit) prog" where
  "exit_if_killed tf =
     bnd (asks cur) (\<lambda>me. case me of
       None \<Rightarrow> skip
     | Some c \<Rightarrow> bnd (get_proc c) (\<lambda>p. if p_killed p \<and> user_mode tf then exit else skip))"

text \<open>\<open>trap\<close>; a clock interrupt of a running process ends in \<open>yield\<close>, and \<open>exit_if_killed\<close> is
  called once more when it comes back.\<close>

definition trap :: "u8 list \<Rightarrow> trap_env \<Rightarrow> trapframe \<Rightarrow> ('z kernel_state_scheme, switch, unit) prog" where
  "trap junk e tf =
     (if tf_trapno tf = 64 then
        bnd killed (\<lambda>k.
        if k then exit
        else
          thn (bnd curproc (\<lambda>c. set_proc c (\<lambda>p. p\<lparr>p_tf := tf\<rparr>))) (
          thn (syscall junk) (
          bnd killed (\<lambda>k. if k then exit else skip))))
      else
        thn (trap_switch e tf) (
        thn (exit_if_killed tf) (
        bnd (asks cur) (\<lambda>me. case me of
          None \<Rightarrow> skip
        | Some c \<Rightarrow>
            bnd (get_proc c) (\<lambda>p.
            if p_state p = RUNNING \<and> tf_trapno tf = 32 then yield else exit_if_killed tf)))))"

end
