(* ===== verification/Ulib.thy ===== *)
theory Ulib
  imports Kstring
begin

text \<open>
  The library of the user programs, \<open>user/ulib.c\<close> and \<open>user/printf.c\<close>, and the word counter
  \<open>user/wc.c\<close>.  A C string is the list of its characters before the terminating 0, and a pointer that
  moves along it the rest of the list.  \<open>printf\<close> yields the bytes it writes, one by one, to its descriptor.
\<close>

definition chr :: "char \<Rightarrow> u8" where
  "chr c = of_nat (of_char c)"

section \<open>Strings\<close>

fun strcmp :: "u8 list \<Rightarrow> u8 list \<Rightarrow> int" where
  "strcmp [] q = - uint (case q of [] \<Rightarrow> 0 | y # _ \<Rightarrow> y)"
| "strcmp (x # p) [] = uint x"
| "strcmp (x # p) (y # q) = (if x = y then strcmp p q else uint x - uint y)"

fun strchr :: "u8 list \<Rightarrow> u8 \<Rightarrow> u8 list option" where
  "strchr [] c = None"
| "strchr (x # xs) c = (if x = c then Some (x # xs) else strchr xs c)"

text \<open>\<open>atoi\<close> with the wrap-around of the 32-bit sum.\<close>

fun atoi_from :: "u32 \<Rightarrow> u8 list \<Rightarrow> u32" where
  "atoi_from n [] = n"
| "atoi_from n (c # s) = (if chr CHR ''0'' \<le> c \<and> c \<le> chr CHR ''9'' then atoi_from (n * 10 + ucast c - 48) s else n)"

definition atoi :: "u8 list \<Rightarrow> u32" where
  "atoi s = atoi_from 0 s"

text \<open>\<open>gets\<close>: the results of the one-byte reads still to come (none when a read fails or the file ends),
  the room left, and what has been read.\<close>

fun gets_loop :: "u8 list \<Rightarrow> nat \<Rightarrow> u8 list \<Rightarrow> u8 list \<times> u8 list" where
  "gets_loop inp 0 acc = (acc, inp)"
| "gets_loop [] (Suc room) acc = (acc, [])"
| "gets_loop (c # inp) (Suc room) acc =
     (if c = 10 \<or> c = 13 then (acc @ [c], inp) else gets_loop inp room (acc @ [c]))"

definition gets :: "u8 list \<Rightarrow> nat \<Rightarrow> u8 list \<times> u8 list" where
  "gets inp lim = gets_loop inp (lim - 1) []"

text \<open>The user's \<open>memmove\<close> only copies forwards.\<close>

definition umemmove :: "mem \<Rightarrow> u32 \<Rightarrow> u32 \<Rightarrow> int \<Rightarrow> mem" where
  "umemmove m dst src n = copy_fwd m dst src (nat n)"

lemma uint_inj: "uint (x :: u8) = uint y \<longleftrightarrow> x = y"
  by (metis word_uint_eq_iff)

lemma strcmp_zero:
  assumes "0 \<notin> set p" "0 \<notin> set q"
  shows "strcmp p q = 0 \<longleftrightarrow> p = q"
  using assms
proof (induction p q rule: strcmp.induct)
  case (1 q)
  then show ?case by (cases q) (auto simp: uint_0_iff)
qed (auto simp: uint_0_iff uint_inj)

lemma strchr_Some: "c \<in> set s \<longleftrightarrow> strchr s c \<noteq> None"
  by (induction s) auto

lemma gets_loop_stops:
  "\<exists>xs. gets_loop inp room acc = (acc @ xs, drop (length xs) inp) \<and> xs = take (length xs) inp \<and> length xs \<le> room \<and>
     (10 \<notin> set (butlast xs) \<and> 13 \<notin> set (butlast xs)) \<and>
     (length xs < room \<longrightarrow> inp = xs \<or> (xs \<noteq> [] \<and> last xs \<in> {10, 13}))"
proof (induction inp room acc rule: gets_loop.induct)
  case (3 c inp room acc)
  show ?case
  proof (cases "c = 10 \<or> c = 13")
    case True
    then show ?thesis by (intro exI [of _ "[c]"]) auto
  next
    case False
    from 3 [OF this] obtain xs where xs: "gets_loop inp room (acc @ [c]) = ((acc @ [c]) @ xs, drop (length xs) inp)" "xs = take (length xs) inp"
      "length xs \<le> room" "10 \<notin> set (butlast xs)" "13 \<notin> set (butlast xs)" "length xs < room \<longrightarrow> inp = xs \<or> (xs \<noteq> [] \<and> last xs \<in> {10, 13})"
      by blast
    then show ?thesis using False by (intro exI [of _ "c # xs"]) (auto split: if_splits)
  qed
qed auto

section \<open>Formatted output\<close>

definition udigit :: "nat \<Rightarrow> u8" where
  "udigit d = of_nat (if d < 10 then 48 + d else 55 + d)"

function udigits :: "nat \<Rightarrow> nat \<Rightarrow> nat list" where
  "udigits base x = x mod base # (if x div base = 0 \<or> base < 2 then [] else udigits base (x div base))"
  by auto

termination
proof (relation "measure snd", goal_cases)
  case (2 base x)
  then have "0 < x" "1 < base" by (auto intro: Nat.gr0I)
  then show ?case by (simp add: div_less_dividend)
qed simp

declare udigits.simps [simp del]

definition uprintint :: "u32 \<Rightarrow> nat \<Rightarrow> bool \<Rightarrow> u8 list" where
  "uprintint xx base sg =
     (if sg \<and> sint xx < 0 then chr CHR ''-'' # rev (map udigit (udigits base (unat (- xx))))
      else rev (map udigit (udigits base (unat xx))))"

datatype uarg = UNum u32 | UStr "u8 list option"

text \<open>\<open>None\<close>: an argument that is missing or not of the kind that the format names.\<close>

fun uprintf :: "u8 list \<Rightarrow> uarg list \<Rightarrow> u8 list option" where
  "uprintf [] as = Some []"
| "uprintf (c # cs) as =
     (if c \<noteq> chr CHR ''%'' then map_option ((#) c) (uprintf cs as)
      else case cs of
        [] \<Rightarrow> Some []
      | d # ds \<Rightarrow>
          if d = chr CHR ''d'' then
            (case as of UNum n # bs \<Rightarrow> map_option ((@) (uprintint n 10 True)) (uprintf ds bs) | _ \<Rightarrow> None)
          else if d = chr CHR ''x'' \<or> d = chr CHR ''p'' then
            (case as of UNum n # bs \<Rightarrow> map_option ((@) (uprintint n 16 False)) (uprintf ds bs) | _ \<Rightarrow> None)
          else if d = chr CHR ''s'' then
            (case as of
               UStr None # bs \<Rightarrow> map_option ((@) (map chr ''(null)'')) (uprintf ds bs)
             | UStr (Some t) # bs \<Rightarrow> map_option ((@) t) (uprintf ds bs)
             | _ \<Rightarrow> None)
          else if d = chr CHR ''c'' then
            (case as of UNum n # bs \<Rightarrow> map_option ((#) (ucast n)) (uprintf ds bs) | _ \<Rightarrow> None)
          else if d = chr CHR ''%'' then map_option ((#) d) (uprintf ds as)
          else map_option (\<lambda>out. chr CHR ''%'' # d # out) (uprintf ds as))"

text \<open>The digits fit into the buffer of 16 bytes, sign included, and stand for the number.\<close>

lemma udigits_value: "2 \<le> base \<Longrightarrow> foldr (\<lambda>d n. d + base * n) (udigits base x) 0 = x"
proof (induction base x rule: udigits.induct)
  case (1 base x)
  then show ?case by (subst udigits.simps) (auto simp: div_eq_0_iff)
qed

lemma udigits_length: "2 \<le> base \<Longrightarrow> x < base ^ n \<Longrightarrow> 0 < n \<Longrightarrow> length (udigits base x) \<le> n"
proof (induction n arbitrary: x)
  case (Suc n)
  show ?case
  proof (cases "x div base = 0")
    case False
    then have "x div base < base ^ n" using Suc.prems by (simp add: div_less_iff_less_mult mult.commute)
    moreover have "0 < n" using calculation False by (cases n) auto
    ultimately have "length (udigits base (x div base)) \<le> n" using Suc by simp
    then show ?thesis using False by (subst udigits.simps) simp
  qed (subst udigits.simps, simp)
qed simp

lemma uprintint_fits:
  assumes "base = 10 \<or> base = 16"
  shows "length (uprintint xx base sg) \<le> 11"
proof -
  have "length (udigits base (unat y)) \<le> 10" for y :: u32
  proof (rule udigits_length)
    have "unat y < 4294967296" using unsigned_less [of y] by simp
    also have "\<dots> \<le> base ^ 10" using assms by auto
    finally show "unat y < base ^ 10" .
  qed (use assms in auto)
  from this [of xx] this [of "- xx"] show ?thesis by (simp add: uprintint_def)
qed

section \<open>Counting words\<close>

record wc_state =
  wc_l :: nat
  wc_w :: nat
  wc_c :: nat
  inword :: bool

definition wc_space :: "u8 list" where
  "wc_space = [32, 13, 9, 10, 11]"

text \<open>\<open>strchr\<close> does not find 0 in a string: a 0 byte is part of a word.\<close>

definition wc_byte :: "u8 \<Rightarrow> wc_state \<Rightarrow> wc_state" where
  "wc_byte b s =
     (let s = s\<lparr>wc_c := wc_c s + 1, wc_l := if b = 10 then wc_l s + 1 else wc_l s\<rparr>
      in if strchr wc_space b \<noteq> None then s\<lparr>inword := False\<rparr>
         else if \<not> inword s then s\<lparr>wc_w := wc_w s + 1, inword := True\<rparr> else s)"

definition wc :: "u8 list list \<Rightarrow> wc_state" where
  "wc reads = fold (fold wc_byte) reads \<lparr>wc_l = 0, wc_w = 0, wc_c = 0, inword = False\<rparr>"

text \<open>The words of a text: its maximal pieces without white space.\<close>

fun split_words :: "u8 list \<Rightarrow> u8 list list" where
  "split_words [] = [[]]"
| "split_words (b # bs) =
     (if b \<in> set wc_space then [] # split_words bs
      else case split_words bs of w # ws \<Rightarrow> (b # w) # ws | [] \<Rightarrow> [])"

definition words :: "u8 list \<Rightarrow> u8 list list" where
  "words bs = filter (\<lambda>w. w \<noteq> []) (split_words bs)"

lemma split_words_Cons: "\<exists>w ws. split_words bs = w # ws"
  by (induction bs) (auto split: list.splits)

lemma wc_byte_fields:
  "wc_c (wc_byte b s) = wc_c s + 1" "wc_l (wc_byte b s) = wc_l s + (if b = 10 then 1 else 0)"
  "wc_w (wc_byte b s) = wc_w s + (if b \<notin> set wc_space \<and> \<not> inword s then 1 else 0)"
  "inword (wc_byte b s) \<longleftrightarrow> b \<notin> set wc_space"
  unfolding strchr_Some by (simp_all add: wc_byte_def Let_def)

lemma wc_fold_counts: "wc_c (fold wc_byte bs s) = wc_c s + length bs" "wc_l (fold wc_byte bs s) = wc_l s + count_list bs 10"
  by (induction bs arbitrary: s) (simp_all add: wc_byte_fields)

lemma wc_fold_words:
  "wc_w (fold wc_byte bs s) + (if inword s \<and> hd (split_words bs) \<noteq> [] then 1 else 0) = wc_w s + length (words bs)"
proof (induction bs arbitrary: s)
  case (Cons b bs)
  obtain w ws where "split_words bs = w # ws" using split_words_Cons by blast
  then show ?case using Cons [of "wc_byte b s"] by (auto simp: wc_byte_fields words_def split: if_splits)
qed (simp add: words_def)

lemma wc_concat: "wc reads = fold wc_byte (concat reads) \<lparr>wc_l = 0, wc_w = 0, wc_c = 0, inword = False\<rparr>"
proof -
  have "fold (fold wc_byte) reads s = fold wc_byte (concat reads) s" for s
    by (induction reads arbitrary: s) simp_all
  then show ?thesis by (simp add: wc_def)
qed

text \<open>\<open>wc\<close> counts the newlines, the words and the bytes of the whole input, however the reads cut it.\<close>

lemma wc_counts:
  "wc_l (wc reads) = count_list (concat reads) 10 \<and> wc_w (wc reads) = length (words (concat reads)) \<and>
   wc_c (wc reads) = length (concat reads)"
  using wc_fold_words [of "concat reads" "\<lparr>wc_l = 0, wc_w = 0, wc_c = 0, inword = False\<rparr>"]
  by (simp add: wc_concat wc_fold_counts)

end
