(* ===== verification/Grep.thy ===== *)
theory Grep
  imports Layout Ulib
begin

text \<open>
  The pattern matcher and the line filter of \<open>user/grep.c\<close>.  A C string is the list of its characters
  before the terminating 0; moving a pointer along it is taking the tail.  The patterns know \<open>^\<close>,
  \<open>.\<close>, \<open>*\<close> and \<open>$\<close>.  The buffer of the filter is the list of its bytes, and a read delivers what
  the file system gives it.
\<close>

section \<open>Matching\<close>

definition covers :: "u8 \<Rightarrow> u8 \<Rightarrow> bool" where
  "covers c x \<longleftrightarrow> c = chr CHR ''.'' \<or> c = x"

fun matchhere :: "u8 list \<Rightarrow> u8 list \<Rightarrow> bool"
  and matchstar :: "u8 \<Rightarrow> u8 list \<Rightarrow> u8 list \<Rightarrow> bool" where
  "matchhere re tx =
     (case re of
        [] \<Rightarrow> True
      | c # re' \<Rightarrow>
          if (case re' of [] \<Rightarrow> False | d # _ \<Rightarrow> d = chr CHR ''*'') then matchstar c (tl re') tx
          else if c = chr CHR ''$'' \<and> re' = [] then tx = []
          else (case tx of [] \<Rightarrow> False | x # xs \<Rightarrow> covers c x \<and> matchhere re' xs))"
| "matchstar c re tx =
     (matchhere re tx \<or> (case tx of [] \<Rightarrow> False | x # xs \<Rightarrow> covers c x \<and> matchstar c re xs))"

declare matchhere.simps [simp del] matchstar.simps [simp del]

fun match_from :: "u8 list \<Rightarrow> u8 list \<Rightarrow> bool" where
  "match_from re tx = (matchhere re tx \<or> (case tx of [] \<Rightarrow> False | x # xs \<Rightarrow> match_from re xs))"

declare match_from.simps [simp del]

definition match :: "u8 list \<Rightarrow> u8 list \<Rightarrow> bool" where
  "match re tx =
     (case re of
        [] \<Rightarrow> match_from re tx
      | c # re' \<Rightarrow> if c = chr CHR ''^'' then matchhere re' tx else match_from re tx)"

section \<open>What a pattern means\<close>

datatype item = One u8 | Many u8 | Eol

fun items :: "u8 list \<Rightarrow> item list" where
  "items [] = []"
| "items [c] = (if c = chr CHR ''$'' then [Eol] else [One c])"
| "items (c # d # re) = (if d = chr CHR ''*'' then Many c # items re else One c # items (d # re))"

text \<open>The texts that the items describe, one after the other.\<close>

primrec lang :: "item list \<Rightarrow> u8 list set" where
  "lang [] = {[]}"
| "lang (i # is) =
     (case i of
        One c \<Rightarrow> {x # w |x w. covers c x \<and> w \<in> lang is}
      | Many c \<Rightarrow> {u @ w |u w. (\<forall>x \<in> set u. covers c x) \<and> w \<in> lang is}
      | Eol \<Rightarrow> lang is)"

text \<open>A text begins with one of them, and ends with it if the pattern ends with \<open>$\<close>.\<close>

definition begins :: "u8 list \<Rightarrow> u8 list \<Rightarrow> bool" where
  "begins re tx \<longleftrightarrow> (\<exists>p q. tx = p @ q \<and> p \<in> lang (items re) \<and> (Eol \<in> set (items re) \<longrightarrow> q = []))"

lemma begins_Nil [simp]: "begins [] tx"
  by (simp add: begins_def)

lemma begins_Many:
  "begins (c # chr CHR ''*'' # re) tx \<longleftrightarrow> (\<exists>u v. tx = u @ v \<and> (\<forall>x \<in> set u. covers c x) \<and> begins re v)"
  (is "?l \<longleftrightarrow> ?r")
proof
  assume ?l
  then obtain u w q where "tx = (u @ w) @ q" "\<forall>x \<in> set u. covers c x" "w \<in> lang (items re)" "Eol \<in> set (items re) \<longrightarrow> q = []"
    unfolding begins_def by (simp add: ex_simps) (metis append_assoc)
  then have "tx = u @ (w @ q)" "\<forall>x \<in> set u. covers c x" "begins re (w @ q)" by (auto simp: begins_def)
  then show ?r by blast
next
  assume ?r
  then obtain u w q where "tx = (u @ w) @ q" "\<forall>x \<in> set u. covers c x" "w \<in> lang (items re)" "Eol \<in> set (items re) \<longrightarrow> q = []"
    unfolding begins_def by (metis append_assoc)
  moreover have "u @ w \<in> lang (items (c # chr CHR ''*'' # re))" using calculation(2,3) by auto
  ultimately show ?l unfolding begins_def by (intro exI conjI) simp_all
qed

lemma begins_Eol: "begins [chr CHR ''$''] tx \<longleftrightarrow> tx = []"
  by (simp add: begins_def)

lemma begins_One:
  assumes "\<not> (c = chr CHR ''$'' \<and> re = [])" "\<not> (case re of [] \<Rightarrow> False | d # _ \<Rightarrow> d = chr CHR ''*'')"
  shows "begins (c # re) tx \<longleftrightarrow> (case tx of [] \<Rightarrow> False | x # xs \<Rightarrow> covers c x \<and> begins re xs)"
proof -
  have i: "items (c # re) = One c # items re" using assms by (cases re) auto
  show ?thesis unfolding begins_def i by (cases tx) (auto simp: Cons_eq_append_conv)
qed

lemma many_unfold:
  "(\<exists>u v. tx = u @ v \<and> (\<forall>x \<in> set u. covers c x) \<and> P v) \<longleftrightarrow>
   P tx \<or> (case tx of [] \<Rightarrow> False | x # xs \<Rightarrow> covers c x \<and> (\<exists>u v. xs = u @ v \<and> (\<forall>x \<in> set u. covers c x) \<and> P v))"
  (is "?l \<longleftrightarrow> _ \<or> ?r")
proof
  assume ?l
  then obtain u v where "tx = u @ v" "\<forall>x \<in> set u. covers c x" "P v" by blast
  then show "P tx \<or> ?r" by (cases u) auto
next
  assume "P tx \<or> ?r"
  then show ?l
  proof
    assume "P tx"
    then have "tx = [] @ tx \<and> (\<forall>x \<in> set []. covers c x) \<and> P tx" by simp
    then show ?l by blast
  next
    assume ?r
    then obtain x u v where "tx = (x # u) @ v" "\<forall>y \<in> set (x # u). covers c y" "P v" by (auto split: list.splits)
    then show ?l by blast
  qed
qed

lemma matchhere_begins:
  "matchhere re tx \<longleftrightarrow> begins re tx"
  "matchstar c re tx \<longleftrightarrow> (\<exists>u v. tx = u @ v \<and> (\<forall>x \<in> set u. covers c x) \<and> begins re v)"
proof (induction re tx and c re tx rule: matchhere_matchstar.induct)
  case (1 re tx)
  show ?case
  proof (cases re)
    case (Cons c re')
    consider (star) rest where "re' = chr CHR ''*'' # rest"
      | (other) "\<not> (case re' of [] \<Rightarrow> False | d # _ \<Rightarrow> d = chr CHR ''*'')" by (cases re') auto
    then show ?thesis
    proof cases
      case star
      then show ?thesis using 1(1) [OF Cons] Cons by (subst matchhere.simps) (simp add: begins_Many)
    next
      case other
      then show ?thesis using 1(2) [OF Cons] Cons
        by (subst matchhere.simps) (auto simp: begins_One begins_Eol split: list.splits)
    qed
  qed (simp add: matchhere.simps)
next
  case (2 c re tx)
  then show ?case
    by (subst matchstar.simps, subst many_unfold) (auto split: list.splits)
qed

lemma match_from_suffix: "match_from re tx \<longleftrightarrow> (\<exists>u v. tx = u @ v \<and> begins re v)"
proof (induction re tx rule: match_from.induct)
  case (1 re tx)
  then show ?case
    by (subst match_from.simps) (auto simp: matchhere_begins Cons_eq_append_conv split: list.splits)
qed

text \<open>C24: \<open>match\<close> finds what the pattern means: with \<open>^\<close> the text has to begin with a text the pattern
  describes, without it one may begin anywhere, and with \<open>$\<close> at the end it has to reach the end.\<close>

theorem match_is_search:
  "match re tx \<longleftrightarrow>
     (case re of
        [] \<Rightarrow> True
      | c # re' \<Rightarrow>
          if c = chr CHR ''^'' then \<exists>p q. tx = p @ q \<and> p \<in> lang (items re') \<and> (Eol \<in> set (items re') \<longrightarrow> q = [])
          else \<exists>u p q. tx = u @ p @ q \<and> p \<in> lang (items re) \<and> (Eol \<in> set (items re) \<longrightarrow> q = []))"
proof (cases re)
  case Nil
  have "match_from [] tx" by (subst match_from.simps) (simp add: matchhere.simps)
  then show ?thesis using Nil by (simp add: match_def)
next
  case (Cons c re')
  have "match_from re tx \<longleftrightarrow> (\<exists>u p q. tx = u @ p @ q \<and> p \<in> lang (items re) \<and> (Eol \<in> set (items re) \<longrightarrow> q = []))"
    unfolding match_from_suffix begins_def by blast
  moreover have "matchhere re' tx \<longleftrightarrow> (\<exists>p q. tx = p @ q \<and> p \<in> lang (items re') \<and> (Eol \<in> set (items re') \<longrightarrow> q = []))"
    unfolding matchhere_begins begins_def ..
  ultimately show ?thesis using Cons by (simp add: match_def)
qed

text \<open>\<open>^a*$\<close> matches \<open>aa\<close> as a whole.\<close>

theorem match_is_search_witness:
  "match (map chr ''^a*$'') (map chr ''aa'')"
proof -
  let ?re = "map chr ''a*$''" and ?w = "map chr ''aa''"
  have i: "items ?re = [Many (chr CHR ''a''), Eol]" by (simp add: chr_def)
  have "?w \<in> lang (items ?re)" unfolding i by (auto simp: covers_def intro: exI [of _ ?w])
  then have "\<exists>p q. ?w = p @ q \<and> p \<in> lang (items ?re) \<and> (Eol \<in> set (items ?re) \<longrightarrow> q = [])"
    by (intro exI [of _ ?w] exI [of _ "[]"]) simp
  then show ?thesis by (subst match_is_search) simp
qed

section \<open>The filter\<close>

definition GREPBUF :: nat where "GREPBUF = 1024"

text \<open>\<open>strchr(p, '\n')\<close> on what is left of the buffer: the newline, none before the next 0, or a scan that runs
  past the end of the buffer.\<close>

fun find_nl :: "u8 list \<Rightarrow> nat option option" where
  "find_nl [] = None"
| "find_nl (x # xs) = (if x = 0 then Some None else if x = 10 then Some (Some 0) else map_option (map_option Suc) (find_nl xs))"

lemma find_nl_bound: "find_nl xs = Some (Some k) \<Longrightarrow> k < length xs"
  by (induction xs arbitrary: k) (auto split: if_splits)

text \<open>The loop over the lines of the buffer, from position \<open>p\<close> on: the buffer, the position where it
  stopped, and what was written.\<close>

function grep_lines :: "u8 list \<Rightarrow> u8 list \<Rightarrow> nat \<Rightarrow> (u8 list \<times> nat \<times> u8 list) option" where
  "grep_lines re buf p =
     (case find_nl (drop p buf) of
        None \<Rightarrow> None
      | Some None \<Rightarrow> Some (buf, p, [])
      | Some (Some k) \<Rightarrow>
          let l = take k (drop p buf); q = p + k; hit = match re l in
          map_option (\<lambda>(buf, p, out). (buf, p, (if hit then l @ [10] else []) @ out))
            (grep_lines re (buf[q := if hit then 10 else 0]) (q + 1)))"
  by auto

termination
proof (relation "measure (\<lambda>(re, buf, p). length buf - p)", goal_cases)
  case (2 re buf p r k l q hit)
  then show ?case using find_nl_bound [of "drop p buf" k] by simp
qed simp

declare grep_lines.simps [simp del]

text \<open>\<open>grep\<close>: the reads still to come, the buffer and \<open>m\<close>.  \<open>None\<close> is an access outside the buffer.\<close>

fun grep_loop :: "u8 list \<Rightarrow> u8 list list \<Rightarrow> u8 list \<Rightarrow> int \<Rightarrow> u8 list option" where
  "grep_loop re [] buf m = Some []"
| "grep_loop re (r # rs) buf m =
     (if m < 0 \<or> int GREPBUF < m then None
      else
        let r = take (GREPBUF - nat m) r in
        if r = [] then Some []
        else
          let buf = put_at (nat m) r buf; m = m + int (length r) in
          case grep_lines re buf 0 of
            None \<Rightarrow> None
          | Some (buf, p, out) \<Rightarrow>
              let m = (if p = 0 then 0 else m);
                  (m, buf) = (if 0 < m then (m - int p, put_at 0 (chunk p (nat (m - int p)) buf) buf) else (m, buf))
              in map_option ((@) out) (grep_loop re rs buf m))"

definition grep :: "u8 list \<Rightarrow> u8 list list \<Rightarrow> u8 list option" where
  "grep re reads = grep_loop re reads (replicate GREPBUF 0) 0"

text \<open>The complete lines of a text, and those that match.\<close>

primrec lines_from :: "u8 list \<Rightarrow> u8 list \<Rightarrow> u8 list list" where
  "lines_from acc [] = []"
| "lines_from acc (x # xs) = (if x = 10 then acc # lines_from [] xs else lines_from (acc @ [x]) xs)"

definition matching_lines :: "u8 list \<Rightarrow> u8 list \<Rightarrow> u8 list" where
  "matching_lines re xs = concat (map (\<lambda>l. l @ [10]) (filter (match re) (lines_from [] xs)))"

lemma lines_from_none: "10 \<notin> set xs \<Longrightarrow> lines_from acc xs = []"
  by (induction xs arbitrary: acc) auto

lemma lines_from_line: "10 \<notin> set l \<Longrightarrow> lines_from acc (l @ 10 # xs) = (acc @ l) # lines_from [] xs"
  by (induction l arbitrary: acc) auto

lemma find_nl_none: "10 \<notin> set xs \<Longrightarrow> 0 \<notin> set xs \<Longrightarrow> find_nl (xs @ 0 # zs) = Some None"
  by (induction xs) auto

lemma find_nl_line: "10 \<notin> set l \<Longrightarrow> 0 \<notin> set l \<Longrightarrow> find_nl (l @ 10 # zs) = Some (Some (length l))"
  by (induction l) auto

lemma grep_lines_line:
  assumes "10 \<notin> set l" "0 \<notin> set l"
  shows "grep_lines re (pre @ l @ 10 # zs) (length pre) =
     map_option (\<lambda>(buf, p, out). (buf, p, (if match re l then l @ [10] else []) @ out))
       (grep_lines re (pre @ l @ (if match re l then 10 else 0) # zs) (length pre + length l + 1))"
  by (subst grep_lines.simps) (simp add: find_nl_line [OF assms] Let_def list_update_append)

lemma grep_lines_end:
  assumes "10 \<notin> set xs" "0 \<notin> set xs"
  shows "grep_lines re (pre @ xs @ 0 # zs) (length pre) = Some (pre @ xs @ 0 # zs, length pre, [])"
  by (subst grep_lines.simps) (simp add: find_nl_none [OF assms])

lemma grep_lines_matching:
  assumes "0 \<notin> set xs"
  shows "\<exists>buf p. grep_lines re (pre @ xs @ 0 # zs) (length pre) = Some (buf, p, matching_lines re xs)"
  using assms
proof (induction "length xs" arbitrary: xs pre rule: less_induct)
  case less
  show ?case
  proof (cases "10 \<in> set xs")
    case True
    then obtain l ys where xs: "xs = l @ 10 # ys" "10 \<notin> set l" by (meson split_list_first)
    let ?pre = "pre @ l @ [if match re l then 10 else 0]"
    obtain buf p where "grep_lines re (?pre @ ys @ 0 # zs) (length ?pre) = Some (buf, p, matching_lines re ys)"
      using less(1) [of ys ?pre] less(2) xs by auto
    then show ?thesis using grep_lines_line [of l re pre "ys @ 0 # zs"] less(2) xs
      by (simp add: matching_lines_def lines_from_line split del: if_split) simp
  next
    case False
    then show ?thesis using grep_lines_end [of xs re pre zs] less(2) by (simp add: matching_lines_def lines_from_none)
  qed
qed

lemma grep_loop_last: "grep_loop re [r] buf m = (if m < 0 \<or> int GREPBUF < m then None else
    let r = take (GREPBUF - nat m) r in
    if r = [] then Some [] else map_option (\<lambda>(buf, p, out). out) (grep_lines re (put_at (nat m) r buf) 0))"
  by (auto simp: Let_def split: option.splits prod.splits)

lemma grep_loop_step:
  assumes "r \<noteq> []" "length r \<le> GREPBUF" "grep_lines re (put_at 0 r buf) 0 = Some (buf', length r, out)"
  shows "grep_loop re (r # rs) buf 0 = map_option ((@) out) (grep_loop re rs buf' 0)"
  using assms by (simp add: Let_def put_at_def chunk_def)

lemma grep_buffer: "length xs < GREPBUF \<Longrightarrow> put_at 0 xs (replicate GREPBUF 0) = xs @ 0 # replicate (GREPBUF - length xs - 1) (0 :: u8)"
  by (simp add: put_at_def Cons_replicate_eq replicate_append_same flip: replicate_Suc)

text \<open>A text that one read delivers and that leaves a byte of the buffer free is filtered: the complete lines that
  match are written, in order, each with its newline, and nothing else.\<close>

theorem grep_prints_matching_lines:
  assumes "length xs < GREPBUF" "0 \<notin> set xs"
  shows "grep re [xs] = Some (matching_lines re xs)"
proof (cases "xs = []")
  case True
  then show ?thesis by (simp add: grep_def grep_loop_last matching_lines_def)
next
  case False
  obtain buf p where "grep_lines re (xs @ 0 # replicate (GREPBUF - length xs - 1) 0) 0 = Some (buf, p, matching_lines re xs)"
    using grep_lines_matching [OF assms(2), of re "[]" "replicate (GREPBUF - length xs - 1) 0"] by auto
  then show ?thesis using assms(1) False by (simp add: grep_def grep_loop_last grep_buffer Let_def)
qed

text \<open>The pattern \<open>o$\<close> on three lines, the last one incomplete.\<close>

theorem grep_prints_matching_lines_witness:
  "grep [111, 36] [[104, 111, 10, 111, 104, 10, 111]] = Some [104, 111, 10]"
proof -
  have "grep [111, 36] [[104, 111, 10, 111, 104, 10, 111]] = Some (matching_lines [111, 36] [104, 111, 10, 111, 104, 10, 111])"
    by (rule grep_prints_matching_lines) (simp_all add: GREPBUF_def)
  then show ?thesis
    by (simp add: matching_lines_def match_def match_from.simps matchhere.simps covers_def chr_def)
qed

text \<open>The buffer is not cut off after what has been read: when a second read delivers a line that is shorter than
  the line before it, the rest of the old line is taken for a line of the input and written if it matches.\<close>

theorem grep_prints_stale_line:
  assumes "set (u @ w @ l) \<inter> {0, 10} = {}" "length u = Suc (length l)" "length (u @ w) + 1 < GREPBUF"
    and "match re (u @ w)" "match re w"
  shows "grep re [u @ w @ [10], l @ [10]] = Some (matching_lines re (u @ w @ [10]) @ matching_lines re (l @ [10]) @ w @ [10])"
proof -
  let ?z = "replicate (GREPBUF - length (u @ w @ [10]) - 1) (0 :: u8)" and ?r1 = "u @ w @ [10]" and ?r2 = "l @ [10]"
  have c: "10 \<notin> set u" "0 \<notin> set u" "10 \<notin> set w" "0 \<notin> set w" "10 \<notin> set l" "0 \<notin> set l" using assms(1) by auto
  have b1: "put_at 0 ?r1 (replicate GREPBUF 0) = ?r1 @ 0 # ?z" by (rule grep_buffer) (use assms(3) in simp)
  have e: "grep_lines re (pre @ 0 # zs) (length pre) = Some (pre @ 0 # zs, length pre, [])" for pre zs
    using grep_lines_end [of "[]" re pre zs] by simp
  have g1: "grep_lines re (?r1 @ 0 # ?z) 0 = Some (?r1 @ 0 # ?z, length ?r1, ?r1)"
    using grep_lines_line [of "u @ w" re "[]" "0 # ?z"] e [of ?r1 ?z] c assms(4) by simp
  have b2: "put_at 0 ?r2 (?r1 @ 0 # ?z) = ?r2 @ w @ 10 # 0 # ?z" using assms(2) by (simp add: put_at_def)
  let ?b = "if match re l then 10 else 0 :: u8"
  have g3: "grep_lines re ((l @ [?b]) @ w @ 10 # 0 # ?z) (length (l @ [?b])) = Some ((l @ [?b]) @ w @ 10 # 0 # ?z, length (l @ [?b]) + length w + 1, w @ [10])"
    using grep_lines_line [of w re "l @ [?b]" "0 # ?z"] e [of "(l @ [?b]) @ w @ [10]" ?z] c assms(5)
    by (simp del: replicate.simps split del: if_split)
  have g2: "grep_lines re (?r2 @ w @ 10 # 0 # ?z) 0
      = Some (l @ ?b # w @ 10 # 0 # ?z, length (l @ [?b]) + length w + 1, matching_lines re ?r2 @ w @ [10])"
    using grep_lines_line [of l re "[]" "w @ 10 # 0 # ?z"] g3 c lines_from_line [of l "[]" "[]"]
    by (simp add: matching_lines_def split del: if_split) simp
  have m1: "matching_lines re ?r1 = ?r1" using c assms(4) lines_from_line [of "u @ w" "[]" "[]"] by (simp add: matching_lines_def)
  have t: "take GREPBUF ?r1 = ?r1" "take GREPBUF ?r2 = ?r2" using assms(2,3) by simp_all
  have s2: "grep_loop re [?r2] (?r1 @ 0 # ?z) 0 = Some (matching_lines re ?r2 @ w @ [10])"
    unfolding grep_loop_last using t(2) b2 g2 by (simp add: Let_def)
  have "grep re [?r1, ?r2] = map_option ((@) ?r1) (grep_loop re [?r2] (?r1 @ 0 # ?z) 0)"
    unfolding grep_def by (rule grep_loop_step) (use assms(3) b1 g1 in simp_all)
  then show ?thesis using s2 m1 by simp
qed

text \<open>The lines \<open>hello\<close> and \<open>a\<close>, typed one after the other; the pattern is \<open>l\<close>.\<close>

theorem grep_prints_stale_line_witness:
  "grep [108] [[104, 101, 108, 108, 111, 10], [97, 10]] = Some [104, 101, 108, 108, 111, 10, 108, 108, 111, 10]"
proof -
  have "grep [108] [[104, 101] @ [108, 108, 111] @ [10], [97] @ [10]] = Some (matching_lines [108] ([104, 101] @ [108, 108, 111] @ [10]) @
      matching_lines [108] ([97] @ [10]) @ [108, 108, 111] @ [10])"
    by (rule grep_prints_stale_line) (simp_all add: GREPBUF_def match_def match_from.simps matchhere.simps covers_def chr_def)
  then show ?thesis
    by (simp add: matching_lines_def match_def match_from.simps matchhere.simps covers_def chr_def)
qed

text \<open>A line that arrives in two pieces loses the first one: when the buffer holds no newline yet, it is emptied.\<close>

lemma lines_from_rest: "10 \<notin> set ys \<Longrightarrow> lines_from acc (xs @ ys) = lines_from acc xs"
  by (induction xs arbitrary: acc) (auto simp: lines_from_none)

lemma grep_loses_split_line:
  assumes "set (a @ l) \<inter> {0, 10} = {}" "a \<noteq> []" "length a + length l + 1 < GREPBUF"
  shows "grep re [a, l @ [10]] = Some (matching_lines re (l @ [10]))"
proof -
  let ?z = "replicate (GREPBUF - length a - 1) (0 :: u8)" and ?r = "drop (length l + 1) a"
  have c: "0 \<notin> set a" "10 \<notin> set a" "0 \<notin> set l" using assms(1) by auto
  have g: "grep_lines re (a @ 0 # ?z) 0 = Some (a @ 0 # ?z, 0, [])"
    using grep_lines_end [OF c(2,1), of re "[]" ?z] by simp
  have "\<exists>zs. put_at 0 (l @ [10]) (a @ 0 # ?z) = (l @ 10 # ?r) @ 0 # zs"
  proof (cases "length l + 1 \<le> length a")
    case False
    then have "drop (length l + 1) (a @ 0 # ?z) = replicate (GREPBUF - length l - 1) 0"
      using assms(3) by (cases "length l + 1 - length a") simp_all
    also have "\<dots> = 0 # replicate (GREPBUF - length l - 2) 0" using assms(3) by (cases "GREPBUF - length l - 1") simp_all
    finally show ?thesis using False by (simp add: put_at_def)
  qed (simp add: put_at_def)
  then obtain zs where b: "put_at 0 (l @ [10]) (a @ 0 # ?z) = (l @ 10 # ?r) @ 0 # zs" ..
  have n: "0 \<notin> set (l @ 10 # ?r)" "10 \<notin> set ?r" using c by (auto dest: in_set_dropD)
  have "matching_lines re (l @ 10 # ?r) = matching_lines re (l @ [10])"
    using lines_from_rest [OF n(2), of "[]" "l @ [10]"] by (simp add: matching_lines_def)
  then obtain buf p where "grep_lines re (put_at 0 (l @ [10]) (a @ 0 # ?z)) 0 = Some (buf, p, matching_lines re (l @ [10]))"
    using grep_lines_matching [OF n(1), of re "[]" zs] b by auto
  then have "grep_loop re [l @ [10]] (a @ 0 # ?z) 0 = Some (matching_lines re (l @ [10]))"
    unfolding grep_loop_last using assms(3) by (simp add: Let_def)
  moreover have nil: "map_option ((@) []) x = x" for x :: "u8 list option" by (cases x) simp_all
  have "grep re [a, l @ [10]] = grep_loop re [l @ [10]] (a @ 0 # ?z) 0"
    using assms(2,3) g grep_buffer [of a] nil unfolding grep_def by (simp add: Let_def)
  ultimately show ?thesis by simp
qed

end
