(* ===== verification/Sh.thy ===== *)
theory Sh
  imports Ulib "HOL-Library.Sublist"
begin

text \<open>
  The shell, \<open>user/sh.c\<close>: tokens, the recursive-descent parser and the termination of its strings.  A
  pointer into the command line is the rest of the line from there, so that \<open>*ps\<close> is a list of bytes,
  \<open>s < es\<close> says that it is not empty, and \<open>*s\<close> at the end is the terminating 0.  \<open>panic\<close> prints a
  message and ends the process: the value \<open>Inl\<close> of the message.  The recursion of the parser is
  bounded by fuel, and it is shown that four units for each byte are enough.
\<close>

section \<open>Commands\<close>

datatype mode = O_RDONLY | O_WRCREATE

text \<open>The words of a command are of type \<open>'t\<close>: pairs of pointers as the parser leaves them, or texts.\<close>

datatype 't cmd =
    EXEC "'t list"
  | REDIR "'t cmd" 't mode nat
  | PIPE "'t cmd" "'t cmd"
  | LIST "'t cmd" "'t cmd"
  | BACK "'t cmd"

type_synonym tok = "u8 list \<times> u8 list"

definition MAXARGS :: nat where "MAXARGS = 10"

text \<open>The text between two pointers.\<close>

definition span_text :: "tok \<Rightarrow> u8 list" where
  "span_text t = take (length (fst t) - length (snd t)) (fst t)"

text \<open>\<open>cmd->argv[argc] = q\<close>, through the pointer to the \<open>execcmd\<close> below the redirections.\<close>

primrec add_arg :: "'t \<Rightarrow> 't cmd \<Rightarrow> 't cmd" where
  "add_arg t (EXEC as) = EXEC (as @ [t])"
| "add_arg t (REDIR c f m fd) = REDIR (add_arg t c) f m fd"
| "add_arg t (PIPE l r) = PIPE l r"
| "add_arg t (LIST l r) = LIST l r"
| "add_arg t (BACK c) = BACK c"

primrec argc :: "'t cmd \<Rightarrow> nat" where
  "argc (EXEC as) = length as"
| "argc (REDIR c f m fd) = argc c"
| "argc (PIPE l r) = 0"
| "argc (LIST l r) = 0"
| "argc (BACK c) = 0"

section \<open>Tokens\<close>

definition whitespace :: "u8 list" where
  "whitespace = [32, 9, 13, 10, 11]"

definition symbols :: "u8 list" where
  "symbols = map chr ''<|>&;()''"

definition skip_space :: "u8 list \<Rightarrow> u8 list" where
  "skip_space s = dropWhile (\<lambda>c. strchr whitespace c \<noteq> None) s"

definition word_end :: "u8 list \<Rightarrow> u8 list" where
  "word_end s = dropWhile (\<lambda>c. strchr whitespace c = None \<and> strchr symbols c = None) s"

datatype token = TEnd | TSym u8 | TAppend | TWord

text \<open>\<open>gettoken\<close>: the token, where it begins and ends, and the rest of the line.\<close>

definition gettoken :: "u8 list \<Rightarrow> token \<times> tok \<times> u8 list" where
  "gettoken s =
     (let q = skip_space s;
          (ret, eq) =
            (case q of
               [] \<Rightarrow> (TEnd, q)
             | c # t \<Rightarrow>
                 if c \<in> set (map chr ''|();&<'') then (TSym c, t)
                 else if c = chr CHR ''>'' then
                   (case t of
                      d # u \<Rightarrow> if d = chr CHR ''>'' then (TAppend, u) else (TSym c, t)
                    | [] \<Rightarrow> (TSym c, t))
                 else (TWord, word_end q))
      in (ret, (q, eq), skip_space eq))"

text \<open>\<open>peek\<close>: the moved pointer, and whether the next character is one of \<open>toks\<close>.\<close>

definition next_in :: "string \<Rightarrow> u8 list \<Rightarrow> bool" where
  "next_in toks s = (case skip_space s of [] \<Rightarrow> False | c # _ \<Rightarrow> c \<in> set (map chr toks))"

section \<open>The parser\<close>

datatype perror = Syntax | NoFile | NoParen | TooManyArgs | Block | NoFuel

type_synonym 'a parsed = "perror + 'a \<times> u8 list"

lemma skip_space_length: "length (skip_space s) \<le> length s"
  by (simp add: skip_space_def length_dropWhile_le)

lemma word_end_length: "length (word_end s) \<le> length s"
  by (simp add: word_end_def length_dropWhile_le)

lemma symbol_member: "c \<in> set (map chr ''|();&<'') \<or> c = chr CHR ''>'' \<longleftrightarrow> strchr symbols c \<noteq> None"
  by (auto simp: strchr_Some [symmetric] symbols_def)

lemma skip_space_head: "skip_space s = c # t \<Longrightarrow> strchr whitespace c = None"
  by (simp add: skip_space_def dropWhile_eq_Cons_conv)

lemma gettoken_length:
  assumes "gettoken s = (tk, (q, eq), r)" "tk \<noteq> TEnd"
  shows "length r < length s"
proof -
  let ?q = "skip_space s"
  obtain c t where q: "?q = c # t" using assms by (cases ?q) (auto simp: gettoken_def Let_def)
  have w: "strchr whitespace c = None" by (rule skip_space_head [OF q])
  have "length eq < length ?q"
  proof (cases "strchr symbols c = None")
    case True
    then have "word_end ?q = word_end t" using w by (simp add: q word_end_def)
    moreover have "c \<notin> set (map chr ''|();&<'')" "c \<noteq> chr CHR ''>''" using symbol_member [of c] True by auto
    ultimately show ?thesis using assms(1) word_end_length [of t] unfolding gettoken_def q by (auto simp: Let_def)
  next
    case False
    then have "c \<in> set (map chr ''|();&<'') \<or> c = chr CHR ''>''" using symbol_member [of c] by auto
    then show ?thesis using assms(1) unfolding gettoken_def q by (auto simp: Let_def split: list.splits if_splits)
  qed
  moreover have "r = skip_space eq" using assms(1) by (auto simp: gettoken_def Let_def split: prod.splits)
  ultimately show ?thesis using skip_space_length [of eq] skip_space_length [of s] by simp
qed

lemma next_in_gettoken:
  assumes "next_in toks s" "set toks \<subseteq> set ''<|>&;()''"
  shows "\<exists>tk q eq r. gettoken s = (tk, (q, eq), r) \<and> tk \<noteq> TEnd \<and> tk \<noteq> TWord"
proof -
  obtain c t where q: "skip_space s = c # t" "c \<in> set (map chr toks)" using assms(1) by (auto simp: next_in_def split: list.splits)
  then have "c \<in> set (map chr ''|();&<'') \<or> c = chr CHR ''>''" using assms(2) by auto
  then show ?thesis unfolding gettoken_def q by (auto simp: Let_def split: list.splits)
qed

lemma next_in_shorter:
  assumes "next_in toks s" "set toks \<subseteq> set ''<|>&;()''"
  shows "length (snd (snd (gettoken s))) < length s"
  using next_in_gettoken [OF assms] gettoken_length by (metis snd_conv)

text \<open>\<open>parseredirs\<close>.  The second token is read where the first one ended.\<close>

function parseredirs :: "tok cmd \<Rightarrow> u8 list \<Rightarrow> tok cmd parsed" where
  "parseredirs c s =
     (if \<not> next_in ''<>'' s then Inr (c, skip_space s)
      else
        case gettoken s of (tk, _, s1) \<Rightarrow>
        case gettoken s1 of (tk2, f, s2) \<Rightarrow>
        if tk2 \<noteq> TWord then Inl NoFile
        else parseredirs (if tk = TSym (chr CHR ''<'') then REDIR c f O_RDONLY 0 else REDIR c f O_WRCREATE 1) s2)"
  by auto

termination
proof (relation "measure (\<lambda>(c, s). length s)", goal_cases)
  case (2 c s tk y t1 s1 tk2 yb f s2)
  have "length s1 < length s" using next_in_shorter [of "''<>''" s] 2(1) by (simp flip: 2(2,3))
  moreover have "length s2 < length s1"
    using gettoken_length [of s1 tk2 "fst f" "snd f" s2] 2 by (cases f) auto
  ultimately show ?case by simp
qed simp

declare parseredirs.simps [simp del]

lemma parseredirs_length: "parseredirs c s = Inr (d, r) \<Longrightarrow> length r \<le> length s"
proof (induction c s arbitrary: d r rule: parseredirs.induct)
  case (1 c s)
  show ?case
  proof (cases "next_in ''<>'' s")
    case False
    then show ?thesis using 1(2) skip_space_length [of s] by (subst (asm) parseredirs.simps) auto
  next
    case True
    obtain tk t1 s1 where g: "gettoken s = (tk, t1, s1)" by (cases "gettoken s") auto
    obtain tk2 q eq s2 where h: "gettoken s1 = (tk2, (q, eq), s2)" by (cases "gettoken s1") auto
    have l: "length s1 < length s" using next_in_shorter [OF True] g by simp
    have w: "tk2 = TWord" using 1(2) True g h by (subst (asm) parseredirs.simps) (auto split: if_splits)
    then have l2: "length s2 < length s1" using gettoken_length [OF h] by simp
    have "length r \<le> length s2"
    proof (rule 1(1))
      show "parseredirs (if tk = TSym (chr CHR ''<'') then REDIR c (q, eq) O_RDONLY 0 else REDIR c (q, eq) O_WRCREATE 1) s2 = Inr (d, r)"
        using 1(2) True g h w by (subst (asm) parseredirs.simps) (auto split: if_splits)
    qed (use True g h w in auto)
    then show ?thesis using l l2 by simp
  qed
qed

text \<open>The loop of \<open>parseexec\<close> over the arguments.\<close>

function parseargs :: "tok cmd \<Rightarrow> u8 list \<Rightarrow> tok cmd parsed" where
  "parseargs c s =
     (if next_in ''|)&;'' s then Inr (c, skip_space s)
      else
        case gettoken (skip_space s) of (tk, t, s1) \<Rightarrow>
        if tk = TEnd then Inr (c, s1)
        else if tk \<noteq> TWord then Inl Syntax
        else
          let c = add_arg t c in
          if MAXARGS \<le> argc c then Inl TooManyArgs
          else case parseredirs c s1 of Inl e \<Rightarrow> Inl e | Inr (c, s2) \<Rightarrow> parseargs c s2)"
  by auto

termination
proof (relation "measure (\<lambda>(c, s). length s)", goal_cases)
  case (2 c s tk y t s1 c' res c2 s2)
  have "length s2 \<le> length s1" using parseredirs_length 2(8,9) by metis
  moreover have "length s1 < length (skip_space s)"
    using gettoken_length [of "skip_space s" tk "fst t" "snd t" s1] 2 by (cases t) auto
  ultimately show ?case using skip_space_length [of s] by simp
qed simp

declare parseargs.simps [simp del]

lemma parseargs_length: "parseargs c s = Inr (d, r) \<Longrightarrow> length r \<le> length s"
proof (induction c s arbitrary: d r rule: parseargs.induct)
  case (1 c s)
  obtain tk q eq s1 where g: "gettoken (skip_space s) = (tk, (q, eq), s1)" by (cases "gettoken (skip_space s)") auto
  have le: "length s1 \<le> length (skip_space s)"
  proof -
    have "length s1 \<le> length eq" using g skip_space_length by (auto simp: gettoken_def Let_def split: prod.splits)
    then show ?thesis using g gettoken_length [OF g] skip_space_length [of "[]"]
      by (cases "tk = TEnd") (auto simp: gettoken_def Let_def skip_space_def split: prod.splits list.splits if_splits)
  qed
  note sp = skip_space_length [of s]
  let ?c = "add_arg (q, eq) c"
  have e: "parseargs c s = (if next_in ''|)&;'' s then Inr (c, skip_space s) else if tk = TEnd then Inr (c, s1)
      else if tk \<noteq> TWord then Inl Syntax else if MAXARGS \<le> argc ?c then Inl TooManyArgs
      else case parseredirs ?c s1 of Inl e \<Rightarrow> Inl e | Inr (c, s2) \<Rightarrow> parseargs c s2)"
    by (subst parseargs.simps) (simp add: g Let_def)
  show ?case
  proof (cases "\<not> next_in ''|)&;'' s \<and> tk \<noteq> TEnd")
    case True
    then obtain c2 s2 where p: "parseredirs ?c s1 = Inr (c2, s2)" "parseargs c2 s2 = Inr (d, r)"
      and m: "tk = TWord" "\<not> MAXARGS \<le> argc ?c"
      using 1(2) unfolding e by (simp split: if_splits sum.splits prod.splits)
    have "length r \<le> length s2"
      by (rule 1(1) [OF _ g [symmetric] refl _ _ refl _ p(1) refl p(2)]) (use True m in auto)
    then show ?thesis using parseredirs_length [OF p(1)] le sp by simp
  next
    case False
    then show ?thesis using 1(2) sp le unfolding e by (auto split: if_splits)
  qed
qed

text \<open>The loop over \<open>&\<close> in \<open>parseline\<close>.\<close>

function parseback :: "tok cmd \<Rightarrow> u8 list \<Rightarrow> tok cmd \<times> u8 list" where
  "parseback c s =
     (if next_in ''&'' s then case gettoken s of (_, _, s) \<Rightarrow> parseback (BACK c) s else (c, skip_space s))"
  by auto

termination
proof (relation "measure (\<lambda>(c, s). length s)", goal_cases)
  case (2 c s x y xa ya)
  have "length ya < length s" using next_in_shorter [of "''&''" s] 2(1) by (simp flip: 2(2,3))
  then show ?case by simp
qed simp

declare parseback.simps [simp del]

lemma parseback_length: "parseback c s = (d, r) \<Longrightarrow> length r \<le> length s"
proof (induction c s arbitrary: d r rule: parseback.induct)
  case (1 c s)
  show ?case
  proof (cases "next_in ''&'' s")
    case True
    then have p: "parseback (BACK c) (snd (snd (gettoken s))) = (d, r)"
      using 1(2) by (subst (asm) parseback.simps) (auto split: prod.splits)
    have "length r \<le> length (snd (snd (gettoken s)))"
      using 1(1) [OF True _ _ p] by (metis prod.collapse)
    then show ?thesis using next_in_shorter [OF True] by simp
  next
    case False
    then show ?thesis using 1(2) skip_space_length [of s] by (subst (asm) parseback.simps) auto
  qed
qed

text \<open>The parser proper.  \<open>skip1\<close> is a \<open>gettoken\<close> whose result is not used.\<close>

definition skip1 :: "u8 list \<Rightarrow> u8 list" where
  "skip1 s = snd (snd (gettoken s))"

fun parseline :: "nat \<Rightarrow> u8 list \<Rightarrow> tok cmd parsed"
  and parsepipe :: "nat \<Rightarrow> u8 list \<Rightarrow> tok cmd parsed"
  and parseexec :: "nat \<Rightarrow> u8 list \<Rightarrow> tok cmd parsed"
  and parseblock :: "nat \<Rightarrow> u8 list \<Rightarrow> tok cmd parsed" where
  "parseline 0 s = Inl NoFuel"
| "parseline (Suc n) s =
     (case parsepipe n s of
        Inl e \<Rightarrow> Inl e
      | Inr (c, s) \<Rightarrow>
          case parseback c s of (c, s) \<Rightarrow>
          if next_in '';'' s then
            (case parseline n (skip1 s) of Inl e \<Rightarrow> Inl e | Inr (d, s) \<Rightarrow> Inr (LIST c d, s))
          else Inr (c, skip_space s))"
| "parsepipe 0 s = Inl NoFuel"
| "parsepipe (Suc n) s =
     (case parseexec n s of
        Inl e \<Rightarrow> Inl e
      | Inr (c, s) \<Rightarrow>
          if next_in ''|'' s then
            (case parsepipe n (skip1 s) of Inl e \<Rightarrow> Inl e | Inr (d, s) \<Rightarrow> Inr (PIPE c d, s))
          else Inr (c, skip_space s))"
| "parseexec 0 s = Inl NoFuel"
| "parseexec (Suc n) s =
     (if next_in ''('' s then parseblock n (skip_space s)
      else case parseredirs (EXEC []) (skip_space s) of Inl e \<Rightarrow> Inl e | Inr (c, s) \<Rightarrow> parseargs c s)"
| "parseblock 0 s = Inl NoFuel"
| "parseblock (Suc n) s =
     (if \<not> next_in ''('' s then Inl Block
      else
        case parseline n (skip1 s) of
          Inl e \<Rightarrow> Inl e
        | Inr (c, s) \<Rightarrow>
            if \<not> next_in '')'' s then Inl NoParen else parseredirs c (skip1 s))"

definition fuel_for :: "u8 list \<Rightarrow> nat" where
  "fuel_for s = 4 * length s + 4"

definition parsecmd :: "u8 list \<Rightarrow> perror + tok cmd" where
  "parsecmd s =
     (case parseline (fuel_for s) s of
        Inl e \<Rightarrow> Inl e
      | Inr (c, s) \<Rightarrow> if skip_space s \<noteq> [] then Inl Syntax else Inr c)"

section \<open>The parser always returns\<close>

lemma skip1_shorter: "next_in toks s \<Longrightarrow> set toks \<subseteq> set ''<|>&;()'' \<Longrightarrow> length (skip1 s) < length s"
  unfolding skip1_def by (rule next_in_shorter)

lemma parse_length:
  "parseline n s = Inr (c, r) \<Longrightarrow> length r \<le> length s"
  "parsepipe n s = Inr (c, r) \<Longrightarrow> length r \<le> length s"
  "parseexec n s = Inr (c, r) \<Longrightarrow> length r \<le> length s"
  "parseblock n s = Inr (c, r) \<Longrightarrow> length r \<le> length s"
proof (induction n s and n s and n s and n s arbitrary: c r and c r and c r and c r
    rule: parseline_parsepipe_parseexec_parseblock.induct)
  case (2 n s)
  then obtain d s1 e s2 where p: "parsepipe n s = Inr (d, s1)" "parseback d s1 = (e, s2)"
    by (auto split: sum.splits prod.splits)
  have l: "length s1 \<le> length s" "length s2 \<le> length s1" using 2(1) p(1) parseback_length [OF p(2)] by auto
  show ?case
  proof (cases "next_in '';'' s2")
    case True
    then obtain f where "parseline n (skip1 s2) = Inr (f, r)" using 2(3) p by (auto split: sum.splits)
    then have "length r \<le> length (skip1 s2)" using 2(2) p True by auto
    then show ?thesis using skip1_shorter [OF True] l by simp
  next
    case False
    then show ?thesis using 2(3) p l skip_space_length [of s2] by auto
  qed
next
  case (4 n s)
  then obtain d s1 where p: "parseexec n s = Inr (d, s1)" by (auto split: sum.splits)
  have l: "length s1 \<le> length s" using 4(1) p by auto
  show ?case
  proof (cases "next_in ''|'' s1")
    case True
    then obtain f where "parsepipe n (skip1 s1) = Inr (f, r)" using 4(3) p by (auto split: sum.splits)
    then have "length r \<le> length (skip1 s1)" using 4(2) p True by auto
    then show ?thesis using skip1_shorter [OF True] l by simp
  next
    case False
    then show ?thesis using 4(3) p l skip_space_length [of s1] by auto
  qed
next
  case (6 n s)
  show ?case
  proof (cases "next_in ''('' s")
    case True
    then show ?thesis using 6 skip_space_length [of s] by fastforce
  next
    case False
    then obtain d s1 where "parseredirs (EXEC []) (skip_space s) = Inr (d, s1)" "parseargs d s1 = Inr (c, r)"
      using 6(2) by (auto split: sum.splits)
    then show ?thesis using parseredirs_length parseargs_length skip_space_length [of s] by (meson order_trans)
  qed
next
  case (8 n s)
  then have t: "next_in ''('' s" by (auto split: if_splits)
  then obtain d s1 where p: "parseline n (skip1 s) = Inr (d, s1)" "next_in '')'' s1" "parseredirs d (skip1 s1) = Inr (c, r)"
    using 8(2) by (auto split: sum.splits if_splits)
  have "length s1 \<le> length (skip1 s)" using 8(1) t p by auto
  then show ?case using skip1_shorter [OF t] skip1_shorter [OF p(2)] parseredirs_length [OF p(3)] by simp
qed auto

lemma parseredirs_fuel: "parseredirs c s \<noteq> Inl NoFuel"
proof (induction c s rule: parseredirs.induct)
  case (1 c s)
  obtain tk t1 s1 where g: "gettoken s = (tk, t1, s1)" by (cases "gettoken s") auto
  obtain tk2 t2 s2 where h: "gettoken s1 = (tk2, t2, s2)" by (cases "gettoken s1") auto
  show ?case using 1 [OF _ g [symmetric] refl h [symmetric] refl]
    by (subst parseredirs.simps) (simp add: g h)
qed

lemma parseargs_fuel: "parseargs c s \<noteq> Inl NoFuel"
proof (induction c s rule: parseargs.induct)
  case (1 c s)
  then show ?case using parseredirs_fuel by (subst parseargs.simps) (auto simp: Let_def split: prod.splits sum.splits)
qed

lemma parse_fuel:
  "4 * length s + 4 \<le> n \<Longrightarrow> parseline n s \<noteq> Inl NoFuel"
  "4 * length s + 3 \<le> n \<Longrightarrow> parsepipe n s \<noteq> Inl NoFuel"
  "4 * length s + 2 \<le> n \<Longrightarrow> parseexec n s \<noteq> Inl NoFuel"
  "4 * length s + 1 \<le> n \<Longrightarrow> parseblock n s \<noteq> Inl NoFuel"
proof (induction n s and n s and n s and n s rule: parseline_parsepipe_parseexec_parseblock.induct)
  case (2 n s)
  have a: "parsepipe n s \<noteq> Inl NoFuel" using 2(1,3) by simp
  have "parseline n (skip1 s2) \<noteq> Inl NoFuel"
    if p: "parsepipe n s = Inr (d, s1)" "parseback d s1 = (e, s2)" "next_in '';'' s2" for d s1 e s2
  proof -
    have "length (skip1 s2) < length s2" using skip1_shorter [OF p(3)] by simp
    then show ?thesis using 2(2) [OF p(1) refl _ p(3)] p(2) 2(3) parse_length(2) [OF p(1)] parseback_length [OF p(2)] by simp
  qed
  note rec = this
  show ?case
  proof (cases "parsepipe n s")
    case (Inr x)
    obtain d s1 e s2 where p: "x = (d, s1)" "parseback d s1 = (e, s2)" by (metis surj_pair)
    then show ?thesis using rec [of d s1 e s2] Inr by (auto split: sum.splits)
  qed (use a in simp)
next
  case (4 n s)
  have a: "parseexec n s \<noteq> Inl NoFuel" using 4(1,3) by simp
  have "parsepipe n (skip1 s1) \<noteq> Inl NoFuel" if p: "parseexec n s = Inr (d, s1)" "next_in ''|'' s1" for d s1
  proof -
    have "length (skip1 s1) < length s1" using skip1_shorter [OF p(2)] by simp
    then show ?thesis using 4(2) [OF p(1) refl p(2)] 4(3) parse_length(3) [OF p(1)] by simp
  qed
  note rec = this
  show ?case
  proof (cases "parseexec n s")
    case (Inr x)
    obtain d s1 where p: "x = (d, s1)" by (metis surj_pair)
    then show ?thesis using rec [of d s1] Inr by (auto split: sum.splits)
  qed (use a in simp)
next
  case (6 n s)
  then show ?case using parseredirs_fuel parseargs_fuel skip_space_length [of s] by (auto split: sum.splits)
next
  case (8 n s)
  show ?case
  proof (cases "next_in ''('' s")
    case True
    have "length (skip1 s) < length s" using skip1_shorter [OF True] by simp
    then have "parseline n (skip1 s) \<noteq> Inl NoFuel" using 8 True by simp
    then show ?thesis using True parseredirs_fuel by (auto split: sum.splits)
  qed simp
qed simp_all

text \<open>C22: \<open>parsecmd\<close> always comes to an end, with a command or one of its messages: the recursion goes no deeper than
  four calls for each byte of the line.\<close>

theorem parsecmd_terminates:
  "parsecmd s \<noteq> Inl NoFuel \<and> parseline (4 * length s + 4 + k) s \<noteq> Inl NoFuel"
  using parse_fuel(1) [of s] by (auto simp: parsecmd_def fuel_for_def split: sum.splits)

section \<open>Printing and parsing\<close>

text \<open>The command line of a command: parentheses where the grammar needs them.\<close>

primrec level :: "'t cmd \<Rightarrow> nat" where
  "level (EXEC as) = 3"
| "level (REDIR c f m fd) = 3"
| "level (PIPE l r) = 2"
| "level (LIST l r) = 0"
| "level (BACK c) = 1"

definition par :: "nat \<Rightarrow> 't cmd \<Rightarrow> u8 list \<Rightarrow> u8 list" where
  "par p c t = (if level c < p then map chr ''('' @ t @ map chr '')'' else t)"

primrec show_args :: "u8 list list \<Rightarrow> u8 list" where
  "show_args [] = []"
| "show_args (a # as) = map chr '' '' @ a @ show_args as"

primrec show_cmd :: "u8 list cmd \<Rightarrow> u8 list" where
  "show_cmd (EXEC as) = show_args as"
| "show_cmd (REDIR c f m fd) = par 3 c (show_cmd c) @ map chr (if m = O_RDONLY then ''<'' else ''>'') @ map chr '' '' @ f"
| "show_cmd (PIPE l r) = par 3 l (show_cmd l) @ map chr ''|'' @ par 2 r (show_cmd r)"
| "show_cmd (LIST l r) = par 1 l (show_cmd l) @ map chr '';'' @ show_cmd r"
| "show_cmd (BACK c) = par 1 c (show_cmd c) @ map chr ''&''"

definition plain :: "u8 \<Rightarrow> bool" where
  "plain c \<longleftrightarrow> c \<noteq> 0 \<and> strchr whitespace c = None \<and> strchr symbols c = None"

definition word_ok :: "u8 list \<Rightarrow> bool" where
  "word_ok w \<longleftrightarrow> w \<noteq> [] \<and> list_all plain w"

text \<open>The commands that a line can say: proper words, fewer than \<open>MAXARGS\<close> of them, and the redirections of \<open><\<close> and \<open>>\<close>.\<close>

primrec cmd_ok :: "u8 list cmd \<Rightarrow> bool" where
  "cmd_ok (EXEC as) \<longleftrightarrow> list_all word_ok as \<and> length as < MAXARGS"
| "cmd_ok (REDIR c f m fd) \<longleftrightarrow> cmd_ok c \<and> word_ok f \<and> fd = (if m = O_RDONLY then 0 else 1)"
| "cmd_ok (PIPE l r) \<longleftrightarrow> cmd_ok l \<and> cmd_ok r"
| "cmd_ok (LIST l r) \<longleftrightarrow> cmd_ok l \<and> cmd_ok r"
| "cmd_ok (BACK c) \<longleftrightarrow> cmd_ok c"

text \<open>What may follow a text.\<close>

definition stops :: "u8 list \<Rightarrow> bool" where
  "stops r \<longleftrightarrow> (case r of [] \<Rightarrow> True | c # _ \<Rightarrow> \<not> plain c \<and> c \<noteq> 0)"

definition follows :: "string \<Rightarrow> u8 list \<Rightarrow> bool" where
  "follows F r \<longleftrightarrow> (case r of [] \<Rightarrow> True | c # _ \<Rightarrow> c \<in> set (map chr F))"

lemma chr_numerals:
  "chr CHR '' '' = 32" "chr CHR ''<'' = 60" "chr CHR ''|'' = 124" "chr CHR ''>'' = 62" "chr CHR ''&'' = 38" "chr CHR '';'' = 59"
  "chr CHR ''('' = 40" "chr CHR '')'' = 41"
  by (simp_all add: chr_def)

lemmas sh_chars = chr_numerals whitespace_def symbols_def

lemma symbols_numerals: "symbols = [60, 124, 62, 38, 59, 40, 41]"
  by (simp add: symbols_def chr_numerals)

lemma skip_space_sym: "c \<in> set (map chr ''<|>&;()'') \<Longrightarrow> skip_space (c # r) = c # r"
  by (auto simp: skip_space_def sh_chars)

lemma skip_space_blank [simp]: "skip_space (32 # r) = skip_space r"
  by (simp add: skip_space_def sh_chars)

lemma skip_space_idem [simp]: "skip_space (skip_space r) = skip_space r"
  unfolding skip_space_def by simp

lemma skip_space_plain: "plain c \<Longrightarrow> skip_space (c # r) = c # r"
  by (simp add: skip_space_def plain_def)

lemma chr_inj [simp]: "chr c = chr d \<longleftrightarrow> c = d"
proof -
  have "unat (chr c) = of_char c" for c
    unfolding chr_def by (simp add: unat_of_nat take_bit_nat_eq_self)
  then show ?thesis by (metis of_char_eq_iff)
qed

lemma plain_chr: "plain (chr c) \<longleftrightarrow> c \<notin> set [CHR 0x00, CHR 0x20, CHR 0x09, CHR 0x0D, CHR 0x0A, CHR 0x0B] \<and> c \<notin> set ''<|>&;()''"
proof -
  have w: "whitespace = map chr [CHR 0x20, CHR 0x09, CHR 0x0D, CHR 0x0A, CHR 0x0B]" "0 = chr CHR 0x00"
    by (simp_all add: whitespace_def chr_def)
  have "strchr (map chr cs) (chr c) = None \<longleftrightarrow> c \<notin> set cs" for cs by (induction cs) auto
  then show ?thesis unfolding plain_def w symbols_def by auto
qed

lemma follows_skip: "follows F r \<Longrightarrow> set F \<subseteq> set ''<|>&;()'' \<Longrightarrow> skip_space r = r"
  by (cases r) (auto simp: follows_def skip_space_def sh_chars)

lemma next_in_skip [simp]: "next_in F (skip_space s) = next_in F s"
  by (simp add: next_in_def)

lemma gettoken_skip [simp]: "gettoken (skip_space s) = gettoken s"
  by (simp add: gettoken_def)

lemma follows_next:
  assumes "follows F r" "set F \<subseteq> set ''<|>&;()''" "set G \<inter> set F = {}"
  shows "\<not> next_in G r"
proof (cases r)
  case (Cons c t)
  then obtain x where "c = chr x" "x \<in> set F" using assms(1) by (auto simp: follows_def)
  then show ?thesis using Cons assms follows_skip [OF assms(1,2)] by (auto simp: next_in_def)
qed (simp add: next_in_def skip_space_def)

lemma follows_stops: "follows F r \<Longrightarrow> set F \<subseteq> set ''<|>&;()'' \<Longrightarrow> stops r"
  by (cases r) (auto simp: follows_def stops_def plain_def sh_chars)

lemma next_in_sym: "c \<in> set ''<|>&;()'' \<Longrightarrow> next_in F (chr c # r) \<longleftrightarrow> chr c \<in> set (map chr F)"
  using skip_space_sym [of "chr c" r] by (auto simp: next_in_def)

lemma skip1_sym:
  assumes "c \<in> set ''|();&<''"
  shows "skip1 (chr c # r) = skip_space r"
proof -
  have "skip_space (chr c # r) = chr c # r" using assms by (intro skip_space_sym) auto
  then show ?thesis using assms by (auto simp: skip1_def gettoken_def)
qed

lemma gettoken_word:
  assumes "word_ok w" "stops r"
  shows "gettoken (w @ r) = (TWord, (w @ r, r), skip_space r)"
proof -
  obtain c v where w: "w = c # v" "plain c" using assms(1) by (cases w) (auto simp: word_ok_def)
  have s: "skip_space (w @ r) = w @ r" using skip_space_plain [OF w(2)] w(1) by simp
  have "word_end (w @ r) = r"
  proof -
    have "strchr whitespace x = None \<and> strchr symbols x = None" if "x \<in> set w" for x
      using assms(1) that by (auto simp: word_ok_def plain_def list_all_iff)
    then have "word_end (w @ r) = word_end r" unfolding word_end_def by (rule dropWhile_append2)
    also have "\<dots> = r" using assms(2) by (cases r) (auto simp: stops_def plain_def word_end_def)
    finally show ?thesis .
  qed
  moreover have "c \<notin> set (map chr ''|();&<'')" "c \<noteq> chr CHR ''>''"
    using w(2) symbol_member [of c] by (auto simp: plain_def)
  ultimately show ?thesis unfolding gettoken_def s using w(1) by (simp add: Let_def)
qed

lemma next_in_plain: "word_ok w \<Longrightarrow> set F \<subseteq> set ''<|>&;()'' \<Longrightarrow> \<not> next_in F (w @ r)"
proof -
  assume a: "word_ok w" "set F \<subseteq> set ''<|>&;()''"
  obtain c v where w: "w = c # v" "plain c" using a(1) by (cases w) (auto simp: word_ok_def)
  have "c \<notin> set (map chr ''<|>&;()'')" using w(2) by (auto simp: plain_def sh_chars)
  then show ?thesis using a(2) by (auto simp: next_in_def w(1) skip_space_plain [OF w(2)])
qed

lemma span_text_word [simp]: "span_text (w @ r, r) = w"
  by (simp add: span_text_def)

text \<open>Redirections and arguments, one at a time.\<close>

abbreviation redir_text :: "mode \<Rightarrow> u8 list \<Rightarrow> u8 list" where
  "redir_text m f \<equiv> map chr (if m = O_RDONLY then ''<'' else ''>'') @ map chr '' '' @ f"

lemma parseredirs_skip [simp]: "parseredirs c (skip_space s) = parseredirs c s"
  by (subst (1 2) parseredirs.simps) simp

lemma parseredirs_step:
  assumes "word_ok f" "stops r"
  shows "parseredirs c (redir_text m f @ r) = parseredirs (REDIR c (f @ r, r) m (if m = O_RDONLY then 0 else 1)) r"
proof -
  let ?d = "if m = O_RDONLY then CHR ''<'' else CHR ''>''"
  have d: "chr ?d \<in> set (map chr ''<|>&;()'')" by simp
  have s: "redir_text m f @ r = chr ?d # 32 # f @ r" by (simp add: chr_numerals)
  have n: "next_in ''<>'' (redir_text m f @ r)" unfolding s by (subst next_in_sym) simp_all
  obtain x v where f: "f = x # v" "plain x" using assms(1) by (cases f) (auto simp: word_ok_def)
  have g: "gettoken (redir_text m f @ r) = (TSym (chr ?d), (chr ?d # 32 # f @ r, 32 # f @ r), f @ r)"
    unfolding s gettoken_def skip_space_sym [OF d] using f
    by (cases "m = O_RDONLY") (simp_all add: chr_numerals skip_space_plain)
  have "parseredirs c (redir_text m f @ r)
      = parseredirs (if TSym (chr ?d) = TSym (chr CHR ''<'') then REDIR c (f @ r, r) O_RDONLY 0 else REDIR c (f @ r, r) O_WRCREATE 1) (skip_space r)"
    by (subst parseredirs.simps) (simp only: n g gettoken_word [OF assms] prod.case not_True_eq_False if_False simp_thms)
  then show ?thesis by (cases m) simp_all
qed

definition redirs_args :: "tok cmd \<Rightarrow> u8 list \<Rightarrow> tok cmd parsed" where
  "redirs_args c s = (case parseredirs c s of Inl e \<Rightarrow> Inl e | Inr (c, s) \<Rightarrow> parseargs c s)"

lemma parseargs_skip [simp]: "parseargs c (skip_space s) = parseargs c s"
  by (subst (1 2) parseargs.simps) simp

lemma parseredirs_none: "\<not> next_in ''<>'' s \<Longrightarrow> parseredirs c s = Inr (c, skip_space s)"
  by (subst parseredirs.simps) simp

lemma redirs_args_step:
  assumes "word_ok a" "stops r" "Suc (argc c) < MAXARGS" "argc (add_arg (a @ r, r) c) = Suc (argc c)"
  shows "redirs_args c (map chr '' '' @ a @ r) = redirs_args (add_arg (a @ r, r) c) r"
proof -
  have b: "skip_space (map chr '' '' @ a @ r) = a @ r"
    using next_in_plain [OF assms(1), of "''<>''"] assms(1)
    by (cases a) (auto simp: chr_numerals word_ok_def skip_space_plain)
  have n: "\<not> next_in ''<>'' (map chr '' '' @ a @ r)" "\<not> next_in ''|)&;'' (a @ r)"
    using next_in_plain [OF assms(1), of "''<>''" r] next_in_plain [OF assms(1), of "''|)&;''" r]
      next_in_skip [of "''<>''" "map chr '' '' @ a @ r"] unfolding b by simp_all
  have "redirs_args c (map chr '' '' @ a @ r) = parseargs c (a @ r)"
    unfolding redirs_args_def parseredirs_none [OF n(1)] b by simp
  also have "\<dots> = redirs_args (add_arg (a @ r, r) c) r"
    using n(2) assms(3,4) unfolding redirs_args_def
    by (subst parseargs.simps) (simp add: gettoken_word [OF assms(1,2)] Let_def)
  finally show ?thesis .
qed

lemma redirs_args_redir:
  "word_ok f \<Longrightarrow> stops r \<Longrightarrow> redirs_args c (redir_text m f @ r) = redirs_args (REDIR c (f @ r, r) m (if m = O_RDONLY then 0 else 1)) r"
  by (simp only: redirs_args_def parseredirs_step)

lemma redirs_args_end: "follows ''|)&;'' r \<Longrightarrow> redirs_args c r = Inr (c, r)"
  using follows_next [of "''|)&;''" r "''<>''"] follows_skip [of "''|)&;''" r]
  unfolding redirs_args_def by (subst parseredirs_none) (auto simp: parseargs.simps next_in_def follows_def gettoken_def Let_def split: list.splits)

lemma parseredirs_end: "follows ''|)&;'' r \<Longrightarrow> parseredirs c r = Inr (c, r)"
  using follows_next [of "''|)&;''" r "''<>''"] follows_skip [of "''|)&;''" r] by (subst parseredirs_none) auto

text \<open>What the parts of the parser make of the text of a command, followed by something.\<close>

abbreviation texts :: "tok cmd \<Rightarrow> u8 list cmd" where
  "texts d \<equiv> map_cmd span_text d"

definition line_ok :: "u8 list \<Rightarrow> u8 list cmd \<Rightarrow> bool" where
  "line_ok t c \<longleftrightarrow> (\<forall>n r. follows '')'' r \<longrightarrow> 4 * length (t @ r) + 4 \<le> n \<longrightarrow> (\<exists>d. texts d = c \<and> parseline n (t @ r) = Inr (d, r)))"

definition back_ok :: "u8 list \<Rightarrow> u8 list cmd \<Rightarrow> bool" where
  "back_ok t c \<longleftrightarrow> (\<forall>n r. follows '')&;'' r \<longrightarrow> 4 * length (t @ r) + 3 \<le> n \<longrightarrow>
     (\<exists>d e s. texts d = c \<and> parsepipe n (t @ r) = Inr (e, s) \<and> parseback e s = parseback d r))"

definition pipe_ok :: "u8 list \<Rightarrow> u8 list cmd \<Rightarrow> bool" where
  "pipe_ok t c \<longleftrightarrow> (\<forall>n r. follows '')&;'' r \<longrightarrow> 4 * length (t @ r) + 3 \<le> n \<longrightarrow> (\<exists>d. texts d = c \<and> parsepipe n (t @ r) = Inr (d, r)))"

definition may_end :: "u8 list \<Rightarrow> bool" where
  "may_end r \<longleftrightarrow> stops r \<and> \<not> next_in ''('' r"

definition exec_ok :: "u8 list \<Rightarrow> u8 list cmd \<Rightarrow> bool" where
  "exec_ok t c \<longleftrightarrow> (\<forall>n r. may_end r \<longrightarrow> 4 * length (t @ r) + 2 \<le> n \<longrightarrow>
     (\<exists>d. texts d = c \<and> (parseexec n (t @ r) = parseredirs d r \<or> parseexec n (t @ r) = redirs_args d r)))"

lemma follows_may_end: "follows ''|)&;'' r \<Longrightarrow> may_end r"
  using follows_next [of "''|)&;''" r "''(''"] follows_stops [of "''|)&;''" r] by (simp add: may_end_def)

lemma follows_mono: "follows F r \<Longrightarrow> set F \<subseteq> set G \<Longrightarrow> follows G r"
  by (auto simp: follows_def split: list.splits)

lemma follows_sym: "c \<in> set F \<Longrightarrow> follows F (chr c # r)"
  by (simp add: follows_def)

lemma exec_okD:
  assumes "exec_ok t c" "follows ''|)&;'' r" "4 * length (t @ r) + 2 \<le> n"
  shows "\<exists>d. texts d = c \<and> parseexec n (t @ r) = Inr (d, r)"
  using assms(1) follows_may_end [OF assms(2)] assms(3) redirs_args_end [OF assms(2)] parseredirs_end [OF assms(2)]
  unfolding exec_ok_def by metis

lemma pipe_okD: "pipe_ok t c \<Longrightarrow> follows '')&;'' r \<Longrightarrow> 4 * length (t @ r) + 3 \<le> n \<Longrightarrow> \<exists>d. texts d = c \<and> parsepipe n (t @ r) = Inr (d, r)"
  unfolding pipe_ok_def by blast

lemma back_okD: "back_ok t c \<Longrightarrow> follows '')&;'' r \<Longrightarrow> 4 * length (t @ r) + 3 \<le> n \<Longrightarrow>
    \<exists>d e s. texts d = c \<and> parsepipe n (t @ r) = Inr (e, s) \<and> parseback e s = parseback d r"
  unfolding back_ok_def by blast

lemma line_okD: "line_ok t c \<Longrightarrow> follows '')'' r \<Longrightarrow> 4 * length (t @ r) + 4 \<le> n \<Longrightarrow> \<exists>d. texts d = c \<and> parseline n (t @ r) = Inr (d, r)"
  unfolding line_ok_def by blast

lemma skip1_skip [simp]: "skip1 (skip_space s) = skip1 s"
  by (simp add: skip1_def)

lemma parse_skip [simp]:
  "parseexec n (skip_space s) = parseexec n s" "parsepipe n (skip_space s) = parsepipe n s" "parseline n (skip_space s) = parseline n s"
proof -
  show e: "parseexec n (skip_space s) = parseexec n s" for n by (cases n) simp_all
  show p: "parsepipe n (skip_space s) = parsepipe n s" for n by (cases n) (simp_all add: e)
  show "parseline n (skip_space s) = parseline n s" by (cases n) (simp_all add: p)
qed

lemma exec_pipe:
  assumes "exec_ok t c"
  shows "pipe_ok t c"
  unfolding pipe_ok_def
proof (intro allI impI)
  fix n r assume r: "follows '')&;'' r" and n: "4 * length (t @ r) + 3 \<le> n"
  obtain k where k: "n = Suc k" using n by (cases n) auto
  have f: "follows ''|)&;'' r" by (rule follows_mono [OF r]) auto
  obtain d where d: "texts d = c" "parseexec k (t @ r) = Inr (d, r)" using exec_okD [OF assms f, of k] n k by auto
  have "\<not> next_in ''|'' r" "skip_space r = r" using follows_next [OF r] follows_skip [OF r] by auto
  then show "\<exists>d. texts d = c \<and> parsepipe n (t @ r) = Inr (d, r)" using d k by auto
qed

lemma pipe_pipe:
  assumes "exec_ok t l" "pipe_ok u c"
  shows "pipe_ok (t @ map chr ''|'' @ u) (PIPE l c)"
  unfolding pipe_ok_def
proof (intro allI impI)
  fix n r assume r: "follows '')&;'' r" and n: "4 * length ((t @ map chr ''|'' @ u) @ r) + 3 \<le> n"
  obtain k where k: "n = Suc k" using n by (cases n) auto
  let ?r = "chr CHR ''|'' # u @ r"
  have "follows ''|)&;'' ?r" by (rule follows_sym) simp
  then obtain d where d: "texts d = l" "parseexec k (t @ ?r) = Inr (d, ?r)"
    using exec_okD [OF assms(1), of ?r k] n k by auto
  obtain e where e: "texts e = c" "parsepipe k (u @ r) = Inr (e, r)" using pipe_okD [OF assms(2) r, of k] n k by auto
  have "next_in ''|'' ?r" "skip1 ?r = skip_space (u @ r)" by (simp_all add: next_in_sym skip1_sym)
  then have "parsepipe n ((t @ map chr ''|'' @ u) @ r) = Inr (PIPE d e, r)" using d e k by simp
  then show "\<exists>d. texts d = PIPE l c \<and> parsepipe n ((t @ map chr ''|'' @ u) @ r) = Inr (d, r)" using d e by force
qed

lemma pipe_back: "pipe_ok t c \<Longrightarrow> back_ok t c"
  unfolding back_ok_def using pipe_okD by blast

lemma back_back:
  assumes "back_ok t c"
  shows "back_ok (t @ map chr ''&'') (BACK c)"
  unfolding back_ok_def
proof (intro allI impI)
  fix n r assume r: "follows '')&;'' r" and n: "4 * length ((t @ map chr ''&'') @ r) + 3 \<le> n"
  let ?r = "chr CHR ''&'' # r"
  have "follows '')&;'' ?r" by (rule follows_sym) simp
  then obtain d e s where d: "texts d = c" "parsepipe n (t @ ?r) = Inr (e, s)" "parseback e s = parseback d ?r"
    using back_okD [OF assms, of ?r n] n by auto
  have "next_in ''&'' ?r" "snd (snd (gettoken ?r)) = r"
    using skip1_sym [of "CHR ''&''" r] follows_skip [OF r] by (simp_all add: next_in_sym skip1_def)
  then have "parseback d ?r = parseback (BACK d) r" by (subst parseback.simps) (auto split: prod.splits)
  then show "\<exists>d e s. texts d = BACK c \<and> parsepipe n ((t @ map chr ''&'') @ r) = Inr (e, s) \<and> parseback e s = parseback d r"
    using d by (intro exI [of _ "BACK d"] exI [of _ e] exI [of _ s]) simp
qed

lemma parseback_end: "\<not> next_in ''&'' r \<Longrightarrow> skip_space r = r \<Longrightarrow> parseback c r = (c, r)"
  by (subst parseback.simps) simp

lemma back_line:
  assumes "back_ok t c"
  shows "line_ok t c"
  unfolding line_ok_def
proof (intro allI impI)
  fix n r assume r: "follows '')'' r" and n: "4 * length (t @ r) + 4 \<le> n"
  obtain k where k: "n = Suc k" using n by (cases n) auto
  have f: "follows '')&;'' r" by (rule follows_mono [OF r]) auto
  obtain d e s where d: "texts d = c" "parsepipe k (t @ r) = Inr (e, s)" "parseback e s = parseback d r"
    using back_okD [OF assms f, of k] n k by auto
  have "\<not> next_in '';'' r" "\<not> next_in ''&'' r" "skip_space r = r"
    using follows_next [OF r] follows_skip [OF r] by auto
  then show "\<exists>d. texts d = c \<and> parseline n (t @ r) = Inr (d, r)" using d k by (auto simp: parseback_end)
qed

lemma list_line:
  assumes "back_ok t l" "line_ok u c"
  shows "line_ok (t @ map chr '';'' @ u) (LIST l c)"
  unfolding line_ok_def
proof (intro allI impI)
  fix n r assume r: "follows '')'' r" and n: "4 * length ((t @ map chr '';'' @ u) @ r) + 4 \<le> n"
  obtain k where k: "n = Suc k" using n by (cases n) auto
  let ?r = "chr CHR '';'' # u @ r"
  have f: "follows '')&;'' ?r" "follows '';'' ?r" by (rule follows_sym, simp)+
  obtain d e s where d: "texts d = l" "parsepipe k (t @ ?r) = Inr (e, s)" "parseback e s = parseback d ?r"
    using back_okD [OF assms(1) f(1), of k] n k by auto
  obtain g where g: "texts g = c" "parseline k (u @ r) = Inr (g, r)" using line_okD [OF assms(2) r, of k] n k by auto
  have "next_in '';'' ?r" "skip1 ?r = skip_space (u @ r)" by (simp_all add: next_in_sym skip1_sym)
  moreover have "parseback d ?r = (d, ?r)"
    by (rule parseback_end) (use follows_next [OF f(2)] follows_skip [OF f(2)] in auto)
  ultimately have "parseline n ((t @ map chr '';'' @ u) @ r) = Inr (LIST d g, r)" using d g k by simp
  then show "\<exists>d. texts d = LIST l c \<and> parseline n ((t @ map chr '';'' @ u) @ r) = Inr (d, r)" using d g by force
qed

lemma line_exec:
  assumes "line_ok t c"
  shows "exec_ok (map chr ''('' @ t @ map chr '')'') c"
  unfolding exec_ok_def
proof (intro allI impI)
  fix n r assume n: "4 * length ((map chr ''('' @ t @ map chr '')'') @ r) + 2 \<le> n"
  obtain k where k: "n = Suc (Suc k)" using n by (cases n; cases "n - 1") auto
  let ?r = "chr CHR '')'' # r" and ?s = "chr CHR ''('' # t @ chr CHR '')'' # r"
  have "follows '')'' ?r" by (rule follows_sym) simp
  then obtain d where d: "texts d = c" "parseline k (t @ ?r) = Inr (d, ?r)" using line_okD [OF assms, of ?r k] n k by auto
  have "next_in ''('' ?s" "skip1 ?s = skip_space (t @ ?r)" "next_in '')'' ?r" "skip1 ?r = skip_space r"
    by (simp_all add: next_in_sym skip1_sym)
  then have "parseexec n ((map chr ''('' @ t @ map chr '')'') @ r) = parseredirs d r" using d k by simp
  then show "\<exists>d. texts d = c \<and> (parseexec n ((map chr ''('' @ t @ map chr '')'') @ r) = parseredirs d r \<or>
      parseexec n ((map chr ''('' @ t @ map chr '')'') @ r) = redirs_args d r)" using d by blast
qed

lemma redir_exec:
  assumes "exec_ok t c" "word_ok f" "fd = (if m = O_RDONLY then 0 else 1)"
  shows "exec_ok (t @ redir_text m f) (REDIR c f m fd)"
  unfolding exec_ok_def
proof (intro allI impI)
  fix n r assume r: "may_end r" and n: "4 * length ((t @ redir_text m f) @ r) + 2 \<le> n"
  let ?d = "if m = O_RDONLY then CHR ''<'' else CHR ''>''"
  let ?r = "redir_text m f @ r"
  have s: "?r = chr ?d # chr CHR '' '' # f @ r" by simp
  have "\<not> next_in ''('' ?r" unfolding s by (subst next_in_sym) auto
  moreover have "stops ?r" unfolding s by (simp add: stops_def plain_def sh_chars)
  ultimately have "may_end ?r" unfolding may_end_def by blast
  then obtain d where d: "texts d = c" "parseexec n (t @ ?r) = parseredirs d ?r \<or> parseexec n (t @ ?r) = redirs_args d ?r"
    using assms(1) n unfolding exec_ok_def by fastforce
  have st: "stops r" using r by (simp add: may_end_def)
  show "\<exists>d. texts d = REDIR c f m fd \<and> (parseexec n ((t @ redir_text m f) @ r) = parseredirs d r \<or>
      parseexec n ((t @ redir_text m f) @ r) = redirs_args d r)"
    using d(2) unfolding parseredirs_step [OF assms(2) st] redirs_args_redir [OF assms(2) st]
    by (intro exI [of _ "REDIR d (f @ r, r) m fd"]) (simp add: d(1) assms(3))
qed

lemma args_exec:
  assumes "list_all word_ok as" "length as < MAXARGS"
  shows "exec_ok (show_args as) (EXEC as)"
proof -
  have step: "\<exists>bs. map span_text bs = as \<and> redirs_args (EXEC ts) (show_args as @ r) = redirs_args (EXEC (ts @ bs)) r"
    if "may_end r" "list_all word_ok as" "length ts + length as < MAXARGS" for r ts as
    using that(2,3)
  proof (induction as arbitrary: ts)
    case (Cons a as)
    have st: "stops (show_args as @ r)"
      using that(1) by (cases as) (simp_all add: may_end_def stops_def plain_def sh_chars)
    have "redirs_args (EXEC ts) (show_args (a # as) @ r) = redirs_args (EXEC (ts @ [(a @ show_args as @ r, show_args as @ r)])) (show_args as @ r)"
      using redirs_args_step [OF _ st, of a "EXEC ts"] Cons.prems by simp
    moreover obtain bs where "map span_text bs = as"
      "redirs_args (EXEC (ts @ [(a @ show_args as @ r, show_args as @ r)])) (show_args as @ r)
        = redirs_args (EXEC ((ts @ [(a @ show_args as @ r, show_args as @ r)]) @ bs)) r"
      using Cons.IH [of "ts @ [(a @ show_args as @ r, show_args as @ r)]"] Cons.prems by auto
    ultimately show ?case by (intro exI [of _ "(a @ show_args as @ r, show_args as @ r) # bs"]) simp
  qed simp
  show ?thesis unfolding exec_ok_def
  proof (intro allI impI)
    fix n r assume r: "may_end r" and n: "4 * length (show_args as @ r) + 2 \<le> n"
    obtain k where k: "n = Suc k" using n by (cases n) auto
    have "\<not> next_in ''('' (show_args as @ r)"
    proof (cases as)
      case (Cons a bs)
      then have "skip_space (show_args as @ r) = skip_space (a @ show_args bs @ r)" by (simp add: chr_numerals)
      moreover have "\<not> next_in ''('' (a @ show_args bs @ r)" using assms(1) Cons by (intro next_in_plain) auto
      ultimately show ?thesis by (simp add: next_in_def)
    qed (use r in \<open>simp add: may_end_def\<close>)
    then have e: "parseexec n (show_args as @ r) = redirs_args (EXEC []) (show_args as @ r)" using k by (simp add: redirs_args_def)
    obtain bs where "map span_text bs = as" "redirs_args (EXEC []) (show_args as @ r) = redirs_args (EXEC bs) r"
      using step [OF r assms(1), of "[]"] assms(2) by auto
    then show "\<exists>d. texts d = EXEC as \<and> (parseexec n (show_args as @ r) = parseredirs d r \<or> parseexec n (show_args as @ r) = redirs_args d r)"
      using e by (intro exI [of _ "EXEC bs"]) simp
  qed
qed

lemma shown_parses:
  "cmd_ok c \<Longrightarrow> line_ok (show_cmd c) c \<and> back_ok (par 1 c (show_cmd c)) c \<and> pipe_ok (par 2 c (show_cmd c)) c \<and> exec_ok (par 3 c (show_cmd c)) c"
proof -
  have up: "line_ok (show_cmd c) c \<Longrightarrow> (1 \<le> level c \<Longrightarrow> back_ok (show_cmd c) c) \<Longrightarrow> (2 \<le> level c \<Longrightarrow> pipe_ok (show_cmd c) c) \<Longrightarrow>
      (3 \<le> level c \<Longrightarrow> exec_ok (show_cmd c) c) \<Longrightarrow>
      line_ok (show_cmd c) c \<and> back_ok (par 1 c (show_cmd c)) c \<and> pipe_ok (par 2 c (show_cmd c)) c \<and> exec_ok (par 3 c (show_cmd c)) c" for c
    using line_exec [of "show_cmd c" c] exec_pipe pipe_back unfolding par_def by (auto simp: not_less)
  assume "cmd_ok c"
  then show ?thesis
  proof (induction c)
    case (EXEC as)
    then have "exec_ok (show_cmd (EXEC as)) (EXEC as)" using args_exec by simp
    then show ?case using exec_pipe pipe_back back_line by (intro up) blast+
  next
    case (REDIR c f m fd)
    then have "exec_ok (show_cmd (REDIR c f m fd)) (REDIR c f m fd)" using redir_exec [of "par 3 c (show_cmd c)" c f fd m] by simp
    then show ?case using exec_pipe pipe_back back_line by (intro up) blast+
  next
    case (PIPE l r)
    then have p: "pipe_ok (show_cmd (PIPE l r)) (PIPE l r)" using pipe_pipe by simp
    note b = pipe_back [OF p]
    show ?case by (rule up [OF back_line [OF b] b p]) simp
  next
    case (LIST l r)
    then have "line_ok (show_cmd (LIST l r)) (LIST l r)" using list_line by simp
    then show ?case by (rule up) simp_all
  next
    case (BACK c)
    then have b: "back_ok (show_cmd (BACK c)) (BACK c)" using back_back by simp
    show ?case by (rule up [OF back_line [OF b] b]) simp_all
  qed
qed

lemma parsecmd_of_show:
  assumes "cmd_ok c"
  shows "\<exists>d. parsecmd (show_cmd c) = Inr d \<and> map_cmd span_text d = c"
proof -
  have "line_ok (show_cmd c) c" using shown_parses [OF assms] by simp
  then obtain d where "texts d = c" "parseline (fuel_for (show_cmd c)) (show_cmd c) = Inr (d, [])"
    using line_okD [of "show_cmd c" c "[]" "fuel_for (show_cmd c)"] by (auto simp: follows_def fuel_for_def)
  then show ?thesis by (simp add: parsecmd_def skip_space_def)
qed

text \<open>C20: the parser understands every command: on the line that says a command - any nesting of pipes, lists, background
  commands, blocks and redirections - it returns this command, with its words as the texts between its pointers.\<close>

theorem parsecmd_show:
  assumes "cmd_ok c"
  shows "\<exists>d. parsecmd (show_cmd c) = Inr d \<and> map_cmd span_text d = c"
  using assms by (rule parsecmd_of_show)

text \<open>\<open>cat < in | (wc; ls a) > out &\<close>\<close>

theorem parsecmd_show_witness:
  "let c = BACK (PIPE (REDIR (EXEC [map chr ''cat'']) (map chr ''in'') O_RDONLY 0)
                      (REDIR (LIST (EXEC [map chr ''wc'']) (EXEC [map chr ''ls'', map chr ''a''])) (map chr ''out'') O_WRCREATE 1))
   in show_cmd c = map chr '' cat< in|( wc; ls a)> out&'' \<and> (\<exists>d. parsecmd (show_cmd c) = Inr d \<and> map_cmd span_text d = c)"
proof -
  let ?c = "BACK (PIPE (REDIR (EXEC [map chr ''cat'']) (map chr ''in'') O_RDONLY 0)
                      (REDIR (LIST (EXEC [map chr ''wc'']) (EXEC [map chr ''ls'', map chr ''a''])) (map chr ''out'') O_WRCREATE 1))"
  have "cmd_ok ?c" by (simp add: word_ok_def plain_chr MAXARGS_def)
  from parsecmd_show [OF this] show ?thesis by (simp add: par_def)
qed

section \<open>The strings of a command\<close>

text \<open>\<open>nulterminate\<close> on the memory of the line, \<open>n\<close> bytes and the terminating 0.\<close>

definition put_nul :: "nat \<Rightarrow> tok \<Rightarrow> u8 list \<Rightarrow> u8 list" where
  "put_nul n t buf = buf[n - length (snd t) := 0]"

primrec nulterminate :: "nat \<Rightarrow> tok cmd \<Rightarrow> u8 list \<Rightarrow> u8 list" where
  "nulterminate n (EXEC as) buf = fold (put_nul n) as buf"
| "nulterminate n (REDIR c f m fd) buf = put_nul n f (nulterminate n c buf)"
| "nulterminate n (PIPE l r) buf = nulterminate n r (nulterminate n l buf)"
| "nulterminate n (LIST l r) buf = nulterminate n r (nulterminate n l buf)"
| "nulterminate n (BACK c) buf = nulterminate n c buf"

text \<open>A pair of pointers around a word of the line that cannot be extended.\<close>

definition tok_ok :: "u8 list \<Rightarrow> tok \<Rightarrow> bool" where
  "tok_ok l t \<longleftrightarrow> (\<exists>pre w post. l = pre @ w @ post \<and> t = (w @ post, post) \<and> w \<noteq> [] \<and> list_all plain w \<and>
     (post \<noteq> [] \<longrightarrow> \<not> plain (hd post)))"

lemma skip_space_suffix: "suffix (skip_space s) s"
  by (simp add: skip_space_def suffix_dropWhile)

lemma gettoken_suffix: "suffix (snd (snd (gettoken s))) s"
proof -
  have "suffix (skip_space eq) s" if "suffix eq (skip_space s)" for eq
    using that skip_space_suffix [of s] skip_space_suffix [of eq] by (meson suffix_order.trans)
  then show ?thesis
    by (auto simp: gettoken_def Let_def suffix_Cons word_end_def suffix_dropWhile split: list.splits)
qed

lemma gettoken_tok:
  assumes "gettoken s = (TWord, t, r)" "suffix s l" "0 \<notin> set l"
  shows "tok_ok l t"
proof -
  let ?q = "skip_space s"
  let ?P = "\<lambda>c. strchr whitespace c = None \<and> strchr symbols c = None"
  obtain c v where q: "?q = c # v" "c \<notin> set (map chr ''|();&<'')" "c \<noteq> chr CHR ''>''" and t: "t = (?q, word_end ?q)"
    using assms(1) by (auto simp: gettoken_def Let_def split: list.splits if_splits)
  let ?w = "takeWhile ?P ?q"
  obtain pre where l: "l = pre @ ?q" using skip_space_suffix [of s] assms(2) by (meson suffix_def suffix_order.trans)
  have d: "?q = ?w @ word_end ?q" by (simp add: word_end_def)
  have "?P c" using skip_space_head [OF q(1)] symbol_member [of c] q(2,3) by auto
  then have "?w \<noteq> []" by (simp add: q(1))
  moreover have "list_all plain ?w"
    unfolding list_all_iff
  proof
    fix x assume x: "x \<in> set ?w"
    then have "?P x" "x \<in> set ?q" by (rule set_takeWhileD [THEN conjunct2], rule set_takeWhileD [THEN conjunct1])
    moreover have "x \<noteq> 0" using \<open>x \<in> set ?q\<close> assms(3) by (auto simp: l)
    ultimately show "plain x" by (simp add: plain_def)
  qed
  moreover have "word_end ?q \<noteq> [] \<longrightarrow> \<not> plain (hd (word_end ?q))"
    unfolding word_end_def plain_def using hd_dropWhile [of ?P ?q] by blast
  ultimately show ?thesis unfolding tok_ok_def t
    by (intro exI [of _ pre] exI [of _ ?w] exI [of _ "word_end ?q"]) (simp only: l d [symmetric], simp)
qed

lemma set_add_arg: "set_cmd (add_arg t c) \<subseteq> insert t (set_cmd c)"
  by (induction c) auto

abbreviation toks_ok :: "u8 list \<Rightarrow> tok cmd \<Rightarrow> bool" where
  "toks_ok l c \<equiv> \<forall>t \<in> set_cmd c. tok_ok l t"

lemma parseredirs_toks:
  "parseredirs c s = Inr (d, r) \<Longrightarrow> suffix s l \<Longrightarrow> 0 \<notin> set l \<Longrightarrow> toks_ok l c \<Longrightarrow> suffix r l \<and> toks_ok l d"
proof (induction c s arbitrary: d r rule: parseredirs.induct)
  case (1 c s)
  obtain tk t1 s1 where g: "gettoken s = (tk, t1, s1)" by (cases "gettoken s") auto
  obtain tk2 t s2 where h: "gettoken s1 = (tk2, t, s2)" by (cases "gettoken s1") auto
  have s1: "suffix s1 l" using gettoken_suffix [of s] g 1(3) by (auto intro: suffix_order.trans)
  have s2: "suffix s2 l" using gettoken_suffix [of s1] h s1 by (auto intro: suffix_order.trans)
  show ?case
  proof (cases "next_in ''<>'' s")
    case True
    let ?c = "if tk = TSym (chr CHR ''<'') then REDIR c t O_RDONLY 0 else REDIR c t O_WRCREATE 1"
    have p: "tk2 = TWord" "parseredirs ?c s2 = Inr (d, r)"
      using 1(2) True g h by (subst (asm) parseredirs.simps, simp split: if_splits)+
    have "tok_ok l t" using gettoken_tok [OF _ s1 1(4)] h p(1) by simp
    then have "toks_ok l ?c" using 1(5) by simp
    from 1(1) [OF _ g [symmetric] refl h [symmetric] refl _ p(2) s2 1(4) this] True p(1) show ?thesis by simp
  next
    case False
    then show ?thesis using 1(2-5) skip_space_suffix [of s] by (subst (asm) parseredirs.simps) (auto intro: suffix_order.trans)
  qed
qed

lemma parseargs_toks:
  "parseargs c s = Inr (d, r) \<Longrightarrow> suffix s l \<Longrightarrow> 0 \<notin> set l \<Longrightarrow> toks_ok l c \<Longrightarrow> suffix r l \<and> toks_ok l d"
proof (induction c s arbitrary: d r rule: parseargs.induct)
  case (1 c s)
  obtain tk t s1 where g: "gettoken (skip_space s) = (tk, t, s1)" by (cases "gettoken (skip_space s)") auto
  have s0: "suffix (skip_space s) l" using skip_space_suffix [of s] 1(3) by (rule suffix_order.trans)
  have s1: "suffix s1 l" using gettoken_suffix [of "skip_space s"] g s0 by (auto intro: suffix_order.trans)
  let ?c = "add_arg t c"
  have e: "parseargs c s = (if next_in ''|)&;'' s then Inr (c, skip_space s) else if tk = TEnd then Inr (c, s1)
      else if tk \<noteq> TWord then Inl Syntax else if MAXARGS \<le> argc ?c then Inl TooManyArgs
      else case parseredirs ?c s1 of Inl e \<Rightarrow> Inl e | Inr (c, s2) \<Rightarrow> parseargs c s2)"
    by (subst parseargs.simps) (simp only: g prod.case Let_def)
  show ?case
  proof (cases "\<not> next_in ''|)&;'' s \<and> tk \<noteq> TEnd")
    case True
    then obtain c2 s2 where p: "parseredirs ?c s1 = Inr (c2, s2)" "parseargs c2 s2 = Inr (d, r)"
      and m: "tk = TWord" "\<not> MAXARGS \<le> argc ?c"
      using 1(2) unfolding e by (simp split: if_splits sum.splits prod.splits)
    have "tok_ok l t" using gettoken_tok [OF _ s0 1(4)] g m by simp
    then have "toks_ok l ?c" using 1(5) set_add_arg [of t c] by auto
    then have "suffix s2 l \<and> toks_ok l c2" by (rule parseredirs_toks [OF p(1) s1 1(4)])
    then show ?thesis using 1(1) [OF _ g [symmetric] refl _ _ refl _ p(1) refl p(2)] True m 1(4) by auto
  next
    case False
    then show ?thesis using 1(2,5) s0 s1 unfolding e by (auto split: if_splits)
  qed
qed

lemma parseback_toks:
  "parseback c s = (d, r) \<Longrightarrow> suffix s l \<Longrightarrow> suffix r l \<and> set_cmd d = set_cmd c"
proof (induction c s arbitrary: d r rule: parseback.induct)
  case (1 c s)
  obtain tk t s1 where g: "gettoken s = (tk, t, s1)" by (cases "gettoken s") auto
  have s1: "suffix s1 l" using gettoken_suffix [of s] g 1(3) by (auto intro: suffix_order.trans)
  show ?case
  proof (cases "next_in ''&'' s")
    case True
    then have "parseback (BACK c) s1 = (d, r)" using 1(2) g by (subst (asm) parseback.simps) simp
    from 1(1) [OF True g [symmetric] refl this s1] show ?thesis by simp
  next
    case False
    then show ?thesis using 1(2,3) skip_space_suffix [of s] by (subst (asm) parseback.simps) (auto intro: suffix_order.trans)
  qed
qed

lemma skip1_suffix: "suffix s l \<Longrightarrow> suffix (skip1 s) l"
  using gettoken_suffix [of s] unfolding skip1_def by (rule suffix_order.trans)

lemma skip_suffix: "suffix s l \<Longrightarrow> suffix (skip_space s) l"
  using skip_space_suffix [of s] by (rule suffix_order.trans)

lemma parse_toks:
  assumes "0 \<notin> set l"
  shows "parseline n s = Inr (c, r) \<Longrightarrow> suffix s l \<Longrightarrow> suffix r l \<and> toks_ok l c"
    and "parsepipe n s = Inr (c, r) \<Longrightarrow> suffix s l \<Longrightarrow> suffix r l \<and> toks_ok l c"
    and "parseexec n s = Inr (c, r) \<Longrightarrow> suffix s l \<Longrightarrow> suffix r l \<and> toks_ok l c"
    and "parseblock n s = Inr (c, r) \<Longrightarrow> suffix s l \<Longrightarrow> suffix r l \<and> toks_ok l c"
proof (induction n s and n s and n s and n s arbitrary: c r and c r and c r and c r
    rule: parseline_parsepipe_parseexec_parseblock.induct)
  case (2 n s)
  then obtain d s1 e s2 where p: "parsepipe n s = Inr (d, s1)" "parseback d s1 = (e, s2)"
    by (auto split: sum.splits prod.splits)
  have o: "suffix s1 l" "toks_ok l d" using 2(1) p(1) 2(4) by auto
  then have o2: "suffix s2 l" "toks_ok l e" using parseback_toks [OF p(2)] by auto
  show ?case
  proof (cases "next_in '';'' s2")
    case True
    then obtain f where f: "parseline n (skip1 s2) = Inr (f, r)" "c = LIST e f" using 2(3) p by (auto split: sum.splits)
    then have "suffix r l \<and> toks_ok l f" using 2(2) p True skip1_suffix [OF o2(1)] by auto
    then show ?thesis using f(2) o2 by auto
  next
    case False
    then show ?thesis using 2(3) p o2 skip_suffix [OF o2(1)] by auto
  qed
next
  case (4 n s)
  then obtain d s1 where p: "parseexec n s = Inr (d, s1)" by (auto split: sum.splits)
  have o: "suffix s1 l" "toks_ok l d" using 4(1) p 4(4) by auto
  show ?case
  proof (cases "next_in ''|'' s1")
    case True
    then obtain f where f: "parsepipe n (skip1 s1) = Inr (f, r)" "c = PIPE d f" using 4(3) p by (auto split: sum.splits)
    then have "suffix r l \<and> toks_ok l f" using 4(2) p True skip1_suffix [OF o(1)] by auto
    then show ?thesis using f(2) o by auto
  next
    case False
    then show ?thesis using 4(3) p o skip_suffix [OF o(1)] by auto
  qed
next
  case (6 n s)
  show ?case
  proof (cases "next_in ''('' s")
    case True
    then show ?thesis using 6 skip_suffix [OF 6(3)] by auto
  next
    case False
    then obtain d s1 where p: "parseredirs (EXEC []) (skip_space s) = Inr (d, s1)" "parseargs d s1 = Inr (c, r)"
      using 6(2) by (auto split: sum.splits)
    have "suffix s1 l \<and> toks_ok l d" by (rule parseredirs_toks [OF p(1) skip_suffix [OF 6(3)] assms]) simp
    then show ?thesis using parseargs_toks [OF p(2) _ assms] by blast
  qed
next
  case (8 n s)
  then have t: "next_in ''('' s" by (auto split: if_splits)
  then obtain d s1 where p: "parseline n (skip1 s) = Inr (d, s1)" "next_in '')'' s1" "parseredirs d (skip1 s1) = Inr (c, r)"
    using 8(2) by (auto split: sum.splits if_splits)
  have "suffix s1 l \<and> toks_ok l d" using 8(1) t p skip1_suffix [OF 8(3)] by auto
  then show ?case using parseredirs_toks [OF p(3) skip1_suffix assms] by blast
qed auto

lemma put_nul_nth: "length (put_nul n t buf) = length buf"
  "i < length buf \<Longrightarrow> put_nul n t buf ! i = (if i = n - length (snd t) then 0 else buf ! i)"
  by (simp_all add: put_nul_def)

lemma fold_put_nul: "length (fold (put_nul n) ts buf) = length buf"
  "i < length buf \<Longrightarrow> fold (put_nul n) ts buf ! i = (if \<exists>t \<in> set ts. i = n - length (snd t) then 0 else buf ! i)"
proof -
  have "length (fold (put_nul n) ts buf) = length buf \<and>
      (i < length buf \<longrightarrow> fold (put_nul n) ts buf ! i = (if \<exists>t \<in> set ts. i = n - length (snd t) then 0 else buf ! i))"
    by (induction ts arbitrary: buf) (auto simp: put_nul_nth)
  then show "length (fold (put_nul n) ts buf) = length buf"
    "i < length buf \<Longrightarrow> fold (put_nul n) ts buf ! i = (if \<exists>t \<in> set ts. i = n - length (snd t) then 0 else buf ! i)" by blast+
qed

lemma nulterminate_length [simp]: "length (nulterminate n c buf) = length buf"
  by (induction c arbitrary: buf) (simp_all add: fold_put_nul put_nul_nth)

lemma nulterminate_nth:
  "i < length buf \<Longrightarrow> nulterminate n c buf ! i = (if \<exists>t \<in> set_cmd c. i = n - length (snd t) then 0 else buf ! i)"
  by (induction c arbitrary: buf) (auto simp: fold_put_nul put_nul_nth)

text \<open>C21: after \<open>parsecmd\<close> every word of the command is a C string of its own in the line: at the pointer where the word
  begins stands exactly its text, followed by a 0; no string was cut or run into its neighbour.\<close>

theorem parsecmd_strings:
  assumes "parsecmd l = Inr c" "0 \<notin> set l" "t \<in> set_cmd c"
  shows "takeWhile (\<lambda>x. x \<noteq> 0) (drop (length l - length (fst t)) (nulterminate (length l) c (l @ [0]))) = span_text t \<and>
    span_text t \<noteq> [] \<and> length (fst t) \<le> length l"
proof -
  obtain r where "parseline (fuel_for l) l = Inr (c, r)" using assms(1) by (auto simp: parsecmd_def split: sum.splits if_splits)
  then have ok: "toks_ok l c" using parse_toks(1) [OF assms(2)] by blast
  then obtain pre w post where t: "l = pre @ w @ post" "t = (w @ post, post)" "w \<noteq> []" "list_all plain w"
    using assms(3) unfolding tok_ok_def by blast
  let ?b = "nulterminate (length l) c (l @ [0])"
  have w: "?b ! (length pre + i) = w ! i" if i: "i < length w" for i
  proof -
    have "length pre + i \<noteq> length l - length (snd u)" if u: "u \<in> set_cmd c" for u
    proof
      assume e: "length pre + i = length l - length (snd u)"
      obtain pre' w' post' where v: "l = pre' @ w' @ post'" "u = (w' @ post', post')" "post' \<noteq> [] \<longrightarrow> \<not> plain (hd post')"
        using ok u unfolding tok_ok_def by blast
      have k: "length pre + i = length pre' + length w'" using e v by simp
      have "l ! (length pre + i) = w ! i" using t(1) i by (simp add: nth_append)
      moreover have "plain (w ! i)" using t(4) i by (simp add: list_all_length)
      moreover have ne: "post' \<noteq> []"
      proof
        assume "post' = []"
        then have "length l = length pre + i" using k v(1) by simp
        moreover have "length pre + length w \<le> length l" by (simp add: t(1))
        ultimately show False using i by simp
      qed
      moreover have "l ! (length pre' + length w') = hd post'" using ne by (simp add: v(1) nth_append hd_conv_nth)
      ultimately show False using v(3) k by simp
    qed
    then have "?b ! (length pre + i) = (l @ [0]) ! (length pre + i)" using i t(1) by (subst nulterminate_nth) auto
    then show ?thesis using i t(1) by (simp add: nth_append)
  qed
  have z: "?b ! (length pre + length w) = 0" using assms(3) t by (subst nulterminate_nth) (auto intro!: bexI [of _ t])
  have "drop (length pre) ?b = w @ 0 # drop (length pre + length w + 1) ?b"
  proof (rule nth_equalityI)
    show "length (drop (length pre) ?b) = length (w @ 0 # drop (length pre + length w + 1) ?b)" using t(1) by simp
    fix i assume "i < length (drop (length pre) ?b)"
    then show "drop (length pre) ?b ! i = (w @ 0 # drop (length pre + length w + 1) ?b) ! i"
      using w z t(1) by (auto simp: nth_append nth_Cons' less_Suc_eq_le)
  qed
  moreover have "takeWhile (\<lambda>x. x \<noteq> 0) (w @ 0 # xs) = w" for xs
    using t(4) by (subst takeWhile_append2) (auto simp: list_all_iff plain_def)
  moreover have "length l - length (fst t) = length pre" using t by simp
  ultimately show ?thesis using t by simp
qed

text \<open>In \<open>ls> f\<close> the first word touches the symbol after it.\<close>

theorem parsecmd_strings_witness:
  "\<exists>d t. parsecmd (map chr '' ls> f'') = Inr d \<and> t \<in> set_cmd d \<and>
     takeWhile (\<lambda>x. x \<noteq> 0) (drop (6 - length (fst t)) (nulterminate 6 d (map chr '' ls> f'' @ [0]))) = map chr ''f''"
proof -
  let ?l = "map chr '' ls> f''"
  let ?c = "REDIR (EXEC [map chr ''ls'']) (map chr ''f'') O_WRCREATE 1"
  have "cmd_ok ?c" by (simp add: word_ok_def plain_chr MAXARGS_def)
  moreover have "show_cmd ?c = ?l" by (simp add: par_def)
  ultimately obtain d where p: "parsecmd ?l = Inr d" "map_cmd span_text d = ?c" using parsecmd_of_show [of ?c] by auto
  obtain t where t: "t \<in> set_cmd d" "span_text t = map chr ''f''" using p(2) by (cases d) auto
  have "0 \<notin> set ?l" by (simp add: chr_def)
  moreover have n: "length ?l = 6" by simp
  ultimately show ?thesis using parsecmd_strings [OF p(1) _ t(1), unfolded n] p(1) t by (intro exI [of _ d] exI [of _ t]) simp
qed

end
