(* ===== verification/Shrun.thy ===== *)
theory Shrun
  imports Sh
begin

text \<open>
  What the shell does with a command: \<open>runcmd\<close>, \<open>getcmd\<close> and the body of the loop of \<open>main\<close> in
  \<open>user/sh.c\<close>.  The shell is a user program: its system calls are the nodes of a tree whose branches are
  the results, and \<open>fork\<close> has a branch for the child and one for the parent.  \<open>drive\<close> plays such a
  program on a table of file descriptors with the rules of the kernel (a call takes the lowest free
  descriptor) and lists what happens: the programs that are started, the waits for a child and the ends of
  processes of the shell, each with the table of the process at that moment; \<open>plan\<close> says what the command
  asks for.
\<close>

section \<open>Programs of system calls\<close>

datatype call = SExec "u8 list list" | SClose nat | SOpen "u8 list" mode | SDup nat | SWait | SChdir "u8 list" | SPrint "u8 list"

text \<open>\<open>SysPipe\<close> goes on with the result and the two descriptors that \<open>pipe\<close> stores.\<close>

datatype shprog =
    Halt
  | Call call "int \<Rightarrow> shprog"
  | SysPipe "int \<Rightarrow> nat \<Rightarrow> nat \<Rightarrow> shprog"
  | Fork shprog "int \<Rightarrow> shprog"

text \<open>\<open>panic\<close> and \<open>fork1\<close>.\<close>

definition sh_panic :: "string \<Rightarrow> shprog" where
  "sh_panic m = Call (SPrint (map chr m @ [10])) (\<lambda>_. Halt)"

definition fork1 :: "shprog \<Rightarrow> shprog \<Rightarrow> shprog" where
  "fork1 child parent = Fork child (\<lambda>pid. if pid = - 1 then sh_panic ''fork'' else parent)"

section \<open>Running a command\<close>

text \<open>\<open>runcmd\<close> on the words of the command.  It never returns.\<close>

primrec runcmd :: "u8 list cmd \<Rightarrow> shprog" where
  "runcmd (EXEC as) =
     (if as = [] then Halt
      else Call (SExec as) (\<lambda>_. Call (SPrint (map chr ''exec '' @ hd as @ map chr '' failed'' @ [10])) (\<lambda>_. Halt)))"
| "runcmd (REDIR c f m fd) =
     Call (SClose fd) (\<lambda>_. Call (SOpen f m) (\<lambda>r.
       if r < 0 then Call (SPrint (map chr ''open '' @ f @ map chr '' failed'' @ [10])) (\<lambda>_. Halt)
       else runcmd c))"
| "runcmd (LIST l r) = fork1 (runcmd l) (Call SWait (\<lambda>_. runcmd r))"
| "runcmd (PIPE l r) =
     SysPipe (\<lambda>r0 p0 p1.
       if r0 < 0 then sh_panic ''pipe''
       else
         fork1 (Call (SClose 1) (\<lambda>_. Call (SDup p1) (\<lambda>_. Call (SClose p0) (\<lambda>_. Call (SClose p1) (\<lambda>_. runcmd l)))))
        (fork1 (Call (SClose 0) (\<lambda>_. Call (SDup p0) (\<lambda>_. Call (SClose p0) (\<lambda>_. Call (SClose p1) (\<lambda>_. runcmd r)))))
        (Call (SClose p0) (\<lambda>_. Call (SClose p1) (\<lambda>_. Call SWait (\<lambda>_. Call SWait (\<lambda>_. Halt)))))))"
| "runcmd (BACK c) = fork1 (runcmd c) Halt"

text \<open>\<open>getcmd\<close> reads a line of at most 99 bytes; it ends the shell when there is none.\<close>

definition getcmd :: "u8 list \<Rightarrow> (u8 list \<times> u8 list) option" where
  "getcmd inp =
     (case gets inp 100 of (buf, inp) \<Rightarrow>
      if takeWhile (\<lambda>c. c \<noteq> 0) buf = [] then None else Some (takeWhile (\<lambda>c. c \<noteq> 0) buf, inp))"

text \<open>One line in the loop of \<open>main\<close>, which goes on with \<open>k\<close>.\<close>

definition sh_line :: "u8 list \<Rightarrow> shprog \<Rightarrow> shprog" where
  "sh_line buf k =
     (if take 3 buf = map chr ''cd '' then
        let path = drop 3 (butlast buf) in
        Call (SChdir path) (\<lambda>r.
          if r < 0 then Call (SPrint (map chr ''cannot cd '' @ path @ [10])) (\<lambda>_. k) else k)
      else
        fork1 (case parsecmd buf of
                 Inl e \<Rightarrow> sh_panic ''syntax''
               | Inr c \<Rightarrow> runcmd (map_cmd span_text c))
              (Call SWait (\<lambda>_. k)))"

section \<open>Descriptors\<close>

datatype fobj = Term | File "u8 list" mode | PipeR nat | PipeW nat

type_synonym fds = "nat \<Rightarrow> fobj option"

definition free_at :: "fds \<Rightarrow> nat option" where
  "free_at t = find (\<lambda>i. t i = None) [0..<16]"

text \<open>What can be seen of the processes of a command: a program is started, a process of the shell waits for
  a child, a process of the shell ends; each with the descriptors of the process.\<close>

datatype event = Started "u8 list list" (table: fds) | Waits (table: fds) | Ends (table: fds)

text \<open>Every call succeeds; \<open>n\<close> pipes have been made.\<close>

primrec drive :: "shprog \<Rightarrow> fds \<Rightarrow> nat \<Rightarrow> event list \<times> nat" where
  "drive Halt = (\<lambda>t n. ([Ends t], n))"
| "drive (Call c k) = (\<lambda>t n.
     case c of
       SExec as \<Rightarrow> ([Started as t], n)
     | SWait \<Rightarrow> (case drive (k 1) t n of (es, n) \<Rightarrow> (Waits t # es, n))
     | SClose fd \<Rightarrow> drive (k 0) (t(fd := None)) n
     | SOpen f m \<Rightarrow> (case free_at t of None \<Rightarrow> drive (k (- 1)) t n | Some i \<Rightarrow> drive (k (int i)) (t(i \<mapsto> File f m)) n)
     | SDup fd \<Rightarrow> (case free_at t of None \<Rightarrow> drive (k (- 1)) t n | Some i \<Rightarrow> drive (k (int i)) (t(i := t fd)) n)
     | _ \<Rightarrow> drive (k 0) t n)"
| "drive (SysPipe k) = (\<lambda>t n.
     case free_at t of
       None \<Rightarrow> drive (k (- 1) 0 0) t n
     | Some i \<Rightarrow> (case free_at (t(i \<mapsto> PipeR n)) of
         None \<Rightarrow> drive (k (- 1) 0 0) t n
       | Some j \<Rightarrow> drive (k 0 i j) (t(i \<mapsto> PipeR n, j \<mapsto> PipeW n)) (Suc n)))"
| "drive (Fork child k) = (\<lambda>t n.
     case drive child t n of (xs, n) \<Rightarrow> case drive (k 1) t n of (ys, n) \<Rightarrow> (xs @ ys, n))"

text \<open>What a command asks for.\<close>

primrec plan :: "u8 list cmd \<Rightarrow> fds \<Rightarrow> nat \<Rightarrow> event list \<times> nat" where
  "plan (EXEC as) = (\<lambda>t n. ([if as = [] then Ends t else Started as t], n))"
| "plan (REDIR c f m fd) = (\<lambda>t n. plan c (t(fd \<mapsto> File f m)) n)"
| "plan (LIST l r) = (\<lambda>t n.
     case plan l t n of (xs, n) \<Rightarrow> case plan r t n of (ys, n) \<Rightarrow> (xs @ Waits t # ys, n))"
| "plan (PIPE l r) = (\<lambda>t n.
     case plan l (t(1 \<mapsto> PipeW n)) (Suc n) of (xs, m) \<Rightarrow>
     case plan r (t(0 \<mapsto> PipeR n)) m of (ys, m) \<Rightarrow> (xs @ ys @ [Waits t, Waits t, Ends t], m))"
| "plan (BACK c) = (\<lambda>t n. case plan c t n of (xs, n) \<Rightarrow> (xs @ [Ends t], n))"

text \<open>The three standard descriptors are open and no other.\<close>

definition std :: "fds \<Rightarrow> bool" where
  "std t \<longleftrightarrow> (\<forall>i. t i = None \<longleftrightarrow> 3 \<le> i)"

lemma std_simps:
  assumes "std t"
  shows "t 0 \<noteq> None" "t (Suc 0) \<noteq> None" "t 2 \<noteq> None" "t 3 = None" "t 4 = None"
  using assms by (simp_all add: std_def)

lemma std_upd: "std t \<Longrightarrow> i < 3 \<Longrightarrow> std (t(i \<mapsto> x))"
  by (simp add: std_def)

lemma slots: "[0..<16] = [0, 1, 2, 3, 4, 5, 6, 7, 8, 9, 10, 11, 12, 13, 14, 15 :: nat]"
  by (simp add: upt_rec)

lemma std_free:
  assumes "std t"
  shows "free_at t = Some 3" "free_at (t(3 \<mapsto> x)) = Some 4" "free_at (t(0 := None)) = Some 0"
    "free_at (t(Suc 0 := None)) = Some (Suc 0)"
    "free_at (t(3 \<mapsto> x, 4 \<mapsto> y, 0 := None)) = Some 0" "free_at (t(3 \<mapsto> x, 4 \<mapsto> y, Suc 0 := None)) = Some (Suc 0)"
  using std_simps [OF assms] unfolding free_at_def slots by simp_all

primrec redirs_std :: "'t cmd \<Rightarrow> bool" where
  "redirs_std (EXEC as) \<longleftrightarrow> True"
| "redirs_std (REDIR c f m fd) \<longleftrightarrow> redirs_std c \<and> fd < 2"
| "redirs_std (PIPE l r) \<longleftrightarrow> redirs_std l \<and> redirs_std r"
| "redirs_std (LIST l r) \<longleftrightarrow> redirs_std l \<and> redirs_std r"
| "redirs_std (BACK c) \<longleftrightarrow> redirs_std c"

lemma std_closed:
  assumes "std t"
  shows "t(3 \<mapsto> x, 4 \<mapsto> y, Suc 0 := None, Suc 0 := Some z, 3 := None, 4 := None) = t(Suc 0 \<mapsto> z)"
    "t(3 \<mapsto> x, 4 \<mapsto> y, 0 := None, 0 := Some z, 3 := None, 4 := None) = t(0 \<mapsto> z)"
    "t(3 \<mapsto> x, 4 \<mapsto> y, 3 := None, 4 := None) = t"
  using std_simps [OF assms] by (auto simp: fun_eq_iff)

lemma drive_plan: "redirs_std c \<Longrightarrow> std t \<Longrightarrow> drive (runcmd c) t n = plan c t n"
proof (induction c arbitrary: t n)
  case (REDIR c f m fd)
  consider "fd = 0" | "fd = Suc 0" using REDIR(2) by force
  then show ?case
    using REDIR std_free [OF REDIR(3)] std_upd [OF REDIR(3)] by cases simp_all
next
  case (PIPE l r)
  note s = std_simps [OF PIPE(4)] std_free [OF PIPE(4)] std_closed [OF PIPE(4)] std_upd [OF PIPE(4)]
  show ?case using PIPE s by (simp add: fork1_def split: prod.splits)
qed (auto simp: fork1_def split: prod.splits)

lemma plan_std: "redirs_std c \<Longrightarrow> std t \<Longrightarrow> x \<in> set (fst (plan c t n)) \<Longrightarrow> std (table x)"
proof (induction c arbitrary: t n)
  case (REDIR c f m fd)
  then show ?case using std_upd [OF REDIR(3), of fd] by (auto simp del: fun_upd_apply)
next
  case (PIPE l r)
  let ?l = "plan l (t(1 \<mapsto> PipeW n)) (Suc n)"
  have "x \<in> set (fst ?l) \<or> x \<in> set (fst (plan r (t(0 \<mapsto> PipeR n)) (snd ?l))) \<or> table x = t"
    using PIPE(5) by (auto split: prod.splits)
  then show ?case using PIPE(1,2) [OF _ std_upd [OF PIPE(4)]] PIPE(3,4) by fastforce
next
  case (LIST l r)
  have "x \<in> set (fst (plan l t n)) \<or> x \<in> set (fst (plan r t (snd (plan l t n)))) \<or> table x = t"
    using LIST(5) by (auto split: prod.splits)
  then show ?case using LIST(1,2) [OF _ LIST(4)] LIST(3,4) by fastforce
next
  case (BACK c)
  have "x \<in> set (fst (plan c t n)) \<or> table x = t" using BACK(4) by (auto split: prod.splits)
  then show ?case using BACK by auto
qed (auto split: if_splits)

text \<open>C23: started with its three standard descriptors, and when every call succeeds, the shell starts exactly
  the programs of the command, each with the descriptors the command asks for: the output of the left side of
  a pipe and the input of the right side are the two ends of one new pipe, and a redirection replaces
  descriptor 0 or 1 by its file.  It waits once after the left side of a list and, when both sides of a pipe
  have been started, once for each side.  Every program that is started, and every process of the shell when
  it waits or ends, has only its three descriptors open; a shell that waits for a pipe has the very
  descriptors it started with, so that no end of a pipe is left open in the process that waits for its
  readers and writers.\<close>

theorem runcmd_plumbing:
  assumes "redirs_std c" "std t"
  shows "drive (runcmd c) t n = plan c t n \<and> (\<forall>x \<in> set (fst (drive (runcmd c) t n)). std (table x))"
  using drive_plan [OF assms] plan_std [OF assms] by simp

text \<open>\<open>cat < in | wc > out\<close>\<close>

theorem runcmd_plumbing_witness:
  "let t = (\<lambda>i. if i < 3 then Some Term else None); a = map chr ''cat''; b = map chr ''wc''; f = map chr ''in''; g = map chr ''out''
   in fst (drive (runcmd (PIPE (REDIR (EXEC [a]) f O_RDONLY 0) (REDIR (EXEC [b]) g O_WRCREATE 1))) t 7) =
     [Started [a] (t(1 \<mapsto> PipeW 7, 0 \<mapsto> File f O_RDONLY)), Started [b] (t(0 \<mapsto> PipeR 7, 1 \<mapsto> File g O_WRCREATE)),
      Waits t, Waits t, Ends t]"
proof -
  let ?t = "\<lambda>i. if i < 3 then Some Term else None :: fobj option"
  let ?c = "PIPE (REDIR (EXEC [map chr ''cat'']) (map chr ''in'') O_RDONLY 0) (REDIR (EXEC [map chr ''wc'']) (map chr ''out'') O_WRCREATE 1)"
  have "drive (runcmd ?c) ?t 7 = plan ?c ?t 7 \<and> (\<forall>x \<in> set (fst (drive (runcmd ?c) ?t 7)). std (table x))"
    by (rule runcmd_plumbing) (simp_all add: std_def)
  then have "fst (drive (runcmd ?c) ?t 7) = fst (plan ?c ?t 7)" by simp
  also have "\<dots> = [Started [map chr ''cat''] (?t(1 \<mapsto> PipeW 7, 0 \<mapsto> File (map chr ''in'') O_RDONLY)),
      Started [map chr ''wc''] (?t(0 \<mapsto> PipeR 7, 1 \<mapsto> File (map chr ''out'') O_WRCREATE)), Waits ?t, Waits ?t, Ends ?t]" by simp
  finally show ?thesis by (simp only: Let_def)
qed

end
