(* ===== verification/Mem.thy ===== *)
theory Mem
  imports Prelude
begin

text \<open>
  The memory allocator of laboratory 3, \<open>Malloc and Free/mem.c\<close>, on a 64-bit machine.  Addresses are
  natural numbers, 0 is \<open>NULL\<close>; sizes and addresses of blocks are multiples of 8, so memory is a function
  from the addresses of 8-byte cells to their contents.  A free block begins with a \<open>Node\<close>, whose two cells
  hold the next pointer and, in the lower half, the size without the node; an allocated block begins with a
  \<open>Header\<close>, one cell with the size in its lower and the magic number in its upper half.  The two overlap.
\<close>

type_synonym u64 = "64 word"
type_synonym cells = "nat \<Rightarrow> u64"

section \<open>Nodes and headers\<close>

definition MAGIC :: u32 where "MAGIC = 0x19260817"

definition lower :: "u64 \<Rightarrow> u32" where
  "lower w = ucast w"

definition upper :: "u64 \<Rightarrow> u32" where
  "upper w = ucast (drop_bit 32 w)"

definition both :: "u32 \<Rightarrow> u32 \<Rightarrow> u64" where
  "both l u = ucast l OR push_bit 32 (ucast u)"

definition node_next :: "cells \<Rightarrow> nat \<Rightarrow> nat" where
  "node_next m n = unat (m n)"

definition node_size :: "cells \<Rightarrow> nat \<Rightarrow> u32" where
  "node_size m n = lower (m (n + 8))"

definition setNode :: "nat \<Rightarrow> u32 \<Rightarrow> cells \<Rightarrow> cells" where
  "setNode n sz m = m(n + 8 := both sz (upper (m (n + 8))))"

definition connect :: "nat \<Rightarrow> nat \<Rightarrow> cells \<Rightarrow> cells" where
  "connect p n m = (if p \<noteq> 0 then m(p := of_nat n) else m)"

definition setHeader :: "nat \<Rightarrow> u32 \<Rightarrow> cells \<Rightarrow> cells" where
  "setHeader h sz m = m(h := both sz MAGIC)"

section \<open>State\<close>

definition E_NO_SPACE :: int where "E_NO_SPACE = 1"
definition E_BAD_ARGS :: int where "E_BAD_ARGS = 4"
definition E_BAD_POINTER :: int where "E_BAD_POINTER = 5"

record mem_state =
  cells :: cells
  base :: nat
  m_error :: int
  called :: nat
  hptr :: nat
  totsize :: nat

text \<open>\<open>mem_init\<close>: the page size and what \<open>mmap\<close> returns come from the system; the pages of \<open>/dev/zero\<close> hold zeros.\<close>

definition mem_init :: "int \<Rightarrow> nat option \<Rightarrow> int \<Rightarrow> mem_state \<Rightarrow> int \<times> mem_state" where
  "mem_init page region n s =
     (if n \<le> 0 \<or> called s \<noteq> 0 then (- 1, s\<lparr>m_error := E_BAD_ARGS\<rparr>)
      else
        let n = (n + page - 1) div page * page; s = s\<lparr>totsize := nat n\<rparr> in
        case region of
          None \<Rightarrow> (- 1, s\<lparr>m_error := E_BAD_ARGS\<rparr>)
        | Some h \<Rightarrow>
            (0, s\<lparr>called := Suc (called s), hptr := h, base := h,
                  cells := setNode h (of_int n - 16) (\<lambda>a. if h \<le> a \<and> a < h + nat n then 0 else cells s a)\<rparr>))"

section \<open>Allocation\<close>

definition fits :: "cells \<Rightarrow> u32 \<Rightarrow> nat \<Rightarrow> bool" where
  "fits m need n \<longleftrightarrow> unat need \<le> unat (node_size m n) + 16"

text \<open>The loops over the free list give the chosen node and the one before it; a cycle would not end.\<close>

partial_function (option) first_fit :: "cells \<Rightarrow> u32 \<Rightarrow> nat \<Rightarrow> nat \<Rightarrow> (nat \<times> nat) option" where
  "first_fit m need prevp n =
     (if n = 0 then Some (prevp, 0)
      else if fits m need n then Some (prevp, n)
      else first_fit m need n (node_next m n))"

partial_function (option) scan_fit ::
    "(u32 \<Rightarrow> u32 \<Rightarrow> bool) \<Rightarrow> cells \<Rightarrow> u32 \<Rightarrow> u32 \<Rightarrow> nat \<times> nat \<Rightarrow> nat \<Rightarrow> nat \<Rightarrow> (nat \<times> nat) option" where
  "scan_fit better m need best r cp cn =
     (if cn = 0 then Some r
      else if better (node_size m cn) best \<and> fits m need cn
      then scan_fit better m need (node_size m cn) (cp, cn) cn (node_next m cn)
      else scan_fit better m need best r cn (node_next m cn))"

datatype style = BESTFIT | WORSTFIT | FIRSTFIT | OTHER

definition pick_node :: "style \<Rightarrow> cells \<Rightarrow> u32 \<Rightarrow> nat \<Rightarrow> (nat \<times> nat) option" where
  "pick_node st m need b =
     (case st of
        FIRSTFIT \<Rightarrow> first_fit m need 0 b
      | BESTFIT \<Rightarrow> scan_fit (\<lambda>x y. x < y) m need 0xffffffff (0, 0) 0 b
      | WORSTFIT \<Rightarrow> scan_fit (\<lambda>x y. y \<le> x) m need 0 (0, 0) 0 b
      | OTHER \<Rightarrow> Some (0, 0))"

text \<open>\<open>size\<close> is an \<open>int\<close>, rounded up in 64 bits and cut to 32.\<close>

definition round_size :: "int \<Rightarrow> u32" where
  "round_size n = ucast ((of_int n + 7 :: u64) div 8 * 8)"

text \<open>Taking the node \<open>n\<close> out of the list, or its first \<open>need\<close> bytes.\<close>

definition carve :: "u32 \<Rightarrow> nat \<Rightarrow> nat \<Rightarrow> mem_state \<Rightarrow> nat \<times> mem_state" where
  "carve sz prevp n s =
     (let m = cells s; need = sz + 8;
          remain = of_nat (unat (node_size m n) + 16) - need;
          (newnode, sz, m) =
            (if 16 \<le> unat remain
             then let newnode = n + unat need; m = setNode newnode (node_size m n - need) m
                  in (newnode, sz, connect newnode (node_next m n) m)
             else (node_next m n, sz + remain, m));
          (b, m) = (if prevp = 0 then (newnode, m) else (base s, connect prevp newnode m))
      in (n + 8, s\<lparr>cells := setHeader n sz m, base := b\<rparr>))"

definition mem_alloc :: "int \<Rightarrow> style \<Rightarrow> mem_state \<Rightarrow> (nat \<times> mem_state) option" where
  "mem_alloc n st s =
     (if called s = 0 then Some (0, s\<lparr>m_error := E_BAD_ARGS\<rparr>)
      else
        let sz = round_size n in
        case pick_node st (cells s) (sz + 8) (base s) of
          None \<Rightarrow> None
        | Some (prevp, n) \<Rightarrow>
            if n = 0 then Some (0, s\<lparr>m_error := E_NO_SPACE\<rparr>) else Some (carve sz prevp n s))"

section \<open>Freeing\<close>

text \<open>The last node that ends at or before \<open>t\<close>, and the next one.\<close>

partial_function (option) neighbours :: "cells \<Rightarrow> nat \<Rightarrow> nat \<Rightarrow> nat \<Rightarrow> (nat \<times> nat) option" where
  "neighbours m t lp n =
     (if n = 0 then Some (lp, 0)
      else if n + unat (node_size m n) + 16 \<le> t then neighbours m t n (node_next m n)
      else Some (lp, n))"

text \<open>Linking the block in, and merging it with the next one.\<close>

definition merge_left :: "nat \<Rightarrow> nat \<Rightarrow> nat \<Rightarrow> mem_state \<Rightarrow> nat \<times> mem_state" where
  "merge_left t lp rp s =
     (let m = cells s in
      if lp = 0 then (t, s\<lparr>cells := connect t (base s) m, base := t\<rparr>)
      else if lp + unat (node_size m lp) + 16 = t
      then (lp, s\<lparr>cells := setNode lp (node_size m lp + (16 + node_size m t)) m\<rparr>)
      else (t, s\<lparr>cells := connect lp t (connect t rp m)\<rparr>))"

definition merge_right :: "nat \<Rightarrow> nat \<Rightarrow> mem_state \<Rightarrow> mem_state" where
  "merge_right t rp s =
     (let m = cells s in
      if rp \<noteq> 0 \<and> t + 16 + unat (node_size m t) = rp
      then s\<lparr>cells := connect t (node_next m rp) (setNode t (node_size m t + (16 + node_size m rp)) m)\<rparr>
      else s)"

definition mem_free :: "nat \<Rightarrow> mem_state \<Rightarrow> (int \<times> mem_state) option" where
  "mem_free ptr s =
     (if called s = 0 then Some (- 1, s\<lparr>m_error := E_BAD_ARGS\<rparr>)
      else
        let t = ptr - 8; m = cells s in
        if upper (m t) \<noteq> MAGIC then Some (- 1, s\<lparr>m_error := E_BAD_POINTER\<rparr>)
        else
          let m = setNode t (lower (m t) + 8 - 16) m; s = s\<lparr>cells := m\<rparr> in
          case neighbours m t 0 (base s) of
            None \<Rightarrow> None
          | Some (lp, rp) \<Rightarrow> case merge_left t lp rp s of (t, s) \<Rightarrow> Some (0, merge_right t rp s))"

section \<open>Memory lemmas\<close>

lemma halves [simp]: "lower (both l u) = l" "upper (both l u) = u"
  by (rule bit_word_eqI, auto simp: lower_def upper_def both_def bit_simps dest: bit_imp_le_length)+

lemma node_size_setNode [simp]: "node_size (setNode n sz m) a = (if a = n then sz else node_size m a)"
  by (simp add: node_size_def setNode_def)

lemma setNode_other: "a \<noteq> n + 8 \<Longrightarrow> setNode n sz m a = m a"
  by (simp add: setNode_def)

section \<open>The free list\<close>

text \<open>What the node of a block (address, length) says.\<close>

definition wsize :: "nat \<times> nat \<Rightarrow> u32" where
  "wsize b = of_nat (snd b - 16)"

definition good :: "nat \<times> nat \<Rightarrow> bool" where
  "good b \<longleftrightarrow> 0 < fst b \<and> fst b < 2 ^ 64 \<and> 16 \<le> snd b \<and> snd b < 2 ^ 31"

lemma unat_small: "n < 2 ^ 31 \<Longrightarrow> unat (of_nat n :: u32) = n"
  by (simp add: unat_of_nat take_bit_nat_eq_self del: of_nat_diff)

lemma unat_wsize: "good b \<Longrightarrow> unat (wsize b) = snd b - 16"
  by (auto simp: good_def wsize_def unat_of_nat take_bit_nat_eq_self simp del: of_nat_diff)

text \<open>A list of blocks, linked from \<open>p\<close>.\<close>

primrec flinks :: "cells \<Rightarrow> nat \<Rightarrow> (nat \<times> nat) list \<Rightarrow> bool" where
  "flinks m p [] \<longleftrightarrow> p = 0"
| "flinks m p (b # bs) \<longleftrightarrow>
     p = fst b \<and> good b \<and> node_size m (fst b) = wsize b \<and>
     flinks m (node_next m (fst b)) bs"

definition first_of :: "(nat \<times> nat) list \<Rightarrow> nat" where
  "first_of bs = (case bs of [] \<Rightarrow> 0 | b # _ \<Rightarrow> fst b)"

definition last_of :: "(nat \<times> nat) list \<Rightarrow> nat" where
  "last_of bs = (if bs = [] then 0 else fst (last bs))"

lemma flinks_first: "flinks m p bs \<Longrightarrow> p = first_of bs"
  by (cases bs) (simp_all add: first_of_def)

lemma flinks_pos: "flinks m p bs \<Longrightarrow> b \<in> set bs \<Longrightarrow> good b \<and> node_size m (fst b) = wsize b"
  by (induction bs arbitrary: p) auto

lemma flinks_size: "flinks m p bs \<Longrightarrow> b \<in> set bs \<Longrightarrow> unat (node_size m (fst b)) + 16 = snd b"
  using flinks_pos [of m p bs b] unat_wsize [of b] by (auto simp: good_def)

lemma flinks_suffix: "flinks m p (xs @ b # ys) \<Longrightarrow> flinks m (node_next m (fst b)) ys"
  by (induction xs arbitrary: p) auto

lemma flinks_cong:
  "flinks m p bs \<Longrightarrow> (\<And>b. b \<in> set bs \<Longrightarrow> m' (fst b) = m (fst b) \<and> m' (fst b + 8) = m (fst b + 8)) \<Longrightarrow> flinks m' p bs"
  by (induction bs arbitrary: p) (simp_all add: node_size_def node_next_def)

text \<open>Replacing the end of the list.\<close>

definition set_link :: "(nat \<times> nat) list \<Rightarrow> nat \<Rightarrow> cells \<Rightarrow> cells" where
  "set_link xs q m = (if xs = [] then m else m(last_of xs := of_nat q))"

lemma flinks_relink:
  assumes "flinks m p (xs @ ys)" "flinks m' q zs" "q < 2 ^ 64"
    and "\<And>b. b \<in> set xs \<Longrightarrow> m' (fst b) = m (fst b) \<and> m' (fst b + 8) = m (fst b + 8)"
    and "distinct (map fst xs)" "\<And>b. b \<in> set (xs @ zs) \<Longrightarrow> last_of xs \<noteq> fst b + 8"
    and "\<And>b. b \<in> set zs \<Longrightarrow> last_of xs \<noteq> fst b"
  shows "flinks (set_link xs q m') (if xs = [] then q else p) (xs @ zs)"
  using assms
proof (induction xs arbitrary: p)
  case Nil
  then show ?case by (simp add: set_link_def)
next
  case (Cons x xs)
  show ?case
  proof (cases "xs = []")
    case True
    let ?m = "m'(fst x := of_nat q)"
    have z: "flinks ?m q zs"
      by (rule flinks_cong [OF Cons.prems(2)]) (use Cons.prems(6,7) True in \<open>force simp: last_of_def\<close>)
    have "node_next ?m (fst x) = q" using Cons.prems(3) by (simp add: node_next_def unat_of_nat take_bit_nat_eq_self)
    moreover have "node_size ?m (fst x) = node_size m (fst x)" using Cons.prems(4) by (simp add: node_size_def)
    ultimately show ?thesis using Cons.prems(1) z True by (simp add: set_link_def last_of_def del: fun_upd_apply)
  next
    case False
    then have l: "last_of (x # xs) = last_of xs" "set_link (x # xs) q m' = set_link xs q m'"
      by (simp_all add: last_of_def set_link_def)
    have "last xs \<in> set xs" using False by simp
    then have "fst (last xs) \<noteq> fst x" using Cons.prems(5) by (metis distinct.simps(2) image_eqI list.set_map list.simps(9))
    then have n: "last_of xs \<noteq> fst x" "last_of xs \<noteq> fst x + 8" using False Cons.prems(6) [of x] l by (auto simp: last_of_def)
    have "flinks (set_link xs q m') (if xs = [] then q else node_next m (fst x)) (xs @ zs)"
      by (rule Cons.IH) (use Cons.prems l in auto)
    then show ?thesis using False Cons.prems(1) Cons.prems(4) [of x] n l(2)
      by (simp add: set_link_def node_size_def node_next_def fun_upd_other del: fun_upd_apply)
  qed
qed

text \<open>The loops over the list.\<close>

definition before :: "nat \<Rightarrow> (nat \<times> nat) list \<Rightarrow> nat" where
  "before q xs = (if xs = [] then q else last_of xs)"

lemma before_Cons: "before q (b # xs) = before (fst b) xs"
  by (simp add: before_def last_of_def)

lemma flinks_fits: "flinks m p (b # bs) \<Longrightarrow> fits m need p \<longleftrightarrow> unat need \<le> snd b"
  using flinks_size [of m p "b # bs" b] by (simp add: fits_def)

lemma first_fit_list:
  assumes "flinks m p bs"
  shows "(\<exists>xs b ys. bs = xs @ b # ys \<and> (\<forall>x \<in> set xs. snd x < unat need) \<and> unat need \<le> snd b \<and>
        first_fit m need q p = Some (before q xs, fst b)) \<or>
     (\<forall>x \<in> set bs. snd x < unat need) \<and> (\<exists>r. first_fit m need q p = Some (r, 0))"
  using assms
proof (induction bs arbitrary: p q)
  case Nil
  then show ?case by (subst (2) first_fit.simps) simp
next
  case (Cons b bs)
  note f = flinks_fits [OF Cons.prems]
  have p: "p = fst b" "0 < fst b" "flinks m (node_next m p) bs" using Cons.prems by (auto simp: good_def)
  show ?case
  proof (cases "unat need \<le> snd b")
    case True
    then have "first_fit m need q p = Some (before q [], fst b)" using p f by (subst first_fit.simps) (simp add: before_def)
    then show ?thesis using True by (intro disjI1 exI [of _ "[]"]) auto
  next
    case False
    then have e: "first_fit m need q p = first_fit m need p (node_next m p)" using p f by (subst first_fit.simps) simp
    from Cons.IH [OF p(3), of p] show ?thesis
    proof
      assume "\<exists>xs c ys. bs = xs @ c # ys \<and> (\<forall>x \<in> set xs. snd x < unat need) \<and> unat need \<le> snd c \<and>
        first_fit m need p (node_next m p) = Some (before p xs, fst c)"
      then obtain xs c ys where "bs = xs @ c # ys" "\<forall>x \<in> set xs. snd x < unat need" "unat need \<le> snd c"
        "first_fit m need p (node_next m p) = Some (before p xs, fst c)" by blast
      then show ?thesis unfolding e using False p(1) by (intro disjI1 exI [of _ "b # xs"] exI [of _ c] exI [of _ ys]) (simp add: before_Cons)
    qed (use False e in auto)
  qed
qed

lemma scan_fit_list:
  assumes "flinks m p bs" and R: "\<And>b c x. R b c \<Longrightarrow> \<not> R x c \<Longrightarrow> R b x" "\<And>b c x. R b c \<Longrightarrow> R c x \<Longrightarrow> R b x"
  shows "(\<exists>xs b ys. bs = xs @ b # ys \<and> unat need \<le> snd b \<and> R (wsize b) best \<and>
        (\<forall>x \<in> set xs. unat need \<le> snd x \<longrightarrow> R (wsize b) (wsize x)) \<and> (\<forall>x \<in> set ys. unat need \<le> snd x \<longrightarrow> \<not> R (wsize x) (wsize b)) \<and>
        scan_fit R m need best r cp p = Some (before cp xs, fst b)) \<or>
     (\<forall>x \<in> set bs. unat need \<le> snd x \<longrightarrow> \<not> R (wsize x) best) \<and> scan_fit R m need best r cp p = Some r"
  (is "?found bs best cp p r \<or> ?none bs best cp p r")
  using assms(1)
proof (induction bs arbitrary: p best r cp)
  case Nil
  then show ?case by (subst (2) scan_fit.simps) simp
next
  case (Cons b bs)
  note f = flinks_fits [OF Cons.prems]
  have p: "p = fst b" "0 < fst b" "flinks m (node_next m p) bs" and w: "node_size m p = wsize b"
    using Cons.prems by (auto simp: good_def)
  show ?case
  proof (cases "R (wsize b) best \<and> unat need \<le> snd b")
    case True
    then have e: "scan_fit R m need best r cp p = scan_fit R m need (wsize b) (cp, p) p (node_next m p)"
      using p w f by (subst scan_fit.simps) simp
    from Cons.IH [OF p(3), of "wsize b" "(cp, p)" p] show ?thesis
    proof
      assume "?found bs (wsize b) p (node_next m p) (cp, p)"
      then obtain xs c ys where c: "bs = xs @ c # ys" "unat need \<le> snd c" "R (wsize c) (wsize b)"
        "\<forall>x \<in> set xs. unat need \<le> snd x \<longrightarrow> R (wsize c) (wsize x)" "\<forall>x \<in> set ys. unat need \<le> snd x \<longrightarrow> \<not> R (wsize x) (wsize c)"
        "scan_fit R m need (wsize b) (cp, p) p (node_next m p) = Some (before p xs, fst c)" by blast
      have "R (wsize c) best" using R(2) [OF c(3)] True by blast
      then show ?thesis unfolding e using c True p(1)
        by (intro disjI1 exI [of _ "b # xs"] exI [of _ c] exI [of _ ys]) (simp add: before_Cons)
    next
      assume "?none bs (wsize b) p (node_next m p) (cp, p)"
      then show ?thesis unfolding e using True p(1)
        by (intro disjI1 exI [of _ "[]"] exI [of _ b] exI [of _ bs]) (simp add: before_def)
    qed
  next
    case False
    then have e: "scan_fit R m need best r cp p = scan_fit R m need best r p (node_next m p)"
      using p w f by (subst scan_fit.simps) auto
    from Cons.IH [OF p(3), of best r p] show ?thesis
    proof
      assume "?found bs best p (node_next m p) r"
      then obtain xs c ys where c: "bs = xs @ c # ys" "unat need \<le> snd c" "R (wsize c) best"
        "\<forall>x \<in> set xs. unat need \<le> snd x \<longrightarrow> R (wsize c) (wsize x)" "\<forall>x \<in> set ys. unat need \<le> snd x \<longrightarrow> \<not> R (wsize x) (wsize c)"
        "scan_fit R m need best r p (node_next m p) = Some (before p xs, fst c)" by blast
      have "unat need \<le> snd b \<Longrightarrow> R (wsize c) (wsize b)" using R(1) [OF c(3)] False by blast
      then show ?thesis unfolding e using c p(1)
        by (intro disjI1 exI [of _ "b # xs"] exI [of _ c] exI [of _ ys]) (simp add: before_Cons)
    qed (use False e in auto)
  qed
qed

text \<open>Which block a request gets.\<close>

definition right_choice :: "style \<Rightarrow> nat \<Rightarrow> (nat \<times> nat) list \<Rightarrow> nat \<times> nat \<Rightarrow> (nat \<times> nat) list \<Rightarrow> bool" where
  "right_choice st need xs b ys \<longleftrightarrow> need \<le> snd b \<and>
     (case st of
        FIRSTFIT \<Rightarrow> \<forall>x \<in> set xs. snd x < need
      | BESTFIT \<Rightarrow> (\<forall>x \<in> set xs. need \<le> snd x \<longrightarrow> snd b < snd x) \<and> (\<forall>x \<in> set ys. need \<le> snd x \<longrightarrow> snd b \<le> snd x)
      | WORSTFIT \<Rightarrow> (\<forall>x \<in> set xs. need \<le> snd x \<longrightarrow> snd x \<le> snd b) \<and> (\<forall>x \<in> set ys. need \<le> snd x \<longrightarrow> snd x < snd b)
      | OTHER \<Rightarrow> False)"

lemma wsize_less:
  assumes "good b" "good c"
  shows "wsize b < wsize c \<longleftrightarrow> snd b < snd c" "wsize b \<le> wsize c \<longleftrightarrow> snd b \<le> snd c"
  using assms by (auto simp: word_less_nat_alt word_le_nat_alt unat_wsize good_def)

lemma pick_node_list:
  assumes "flinks m p bs"
  shows "(\<exists>xs b ys. bs = xs @ b # ys \<and> right_choice st (unat need) xs b ys \<and> pick_node st m need p = Some (before 0 xs, fst b)) \<or>
     (st = OTHER \<or> (\<forall>x \<in> set bs. snd x < unat need)) \<and> (\<exists>r. pick_node st m need p = Some (r, 0))"
proof -
  have pos: "good b" if "b \<in> set bs" for b using flinks_pos [OF assms that] by simp
  show ?thesis
  proof (cases st)
    case FIRSTFIT
    then show ?thesis using first_fit_list [OF assms, of need 0] by (simp add: pick_node_def right_choice_def) blast
  next
    case BESTFIT
    have lt: "wsize b < 0xffffffff" if "b \<in> set bs" for b
      using pos [OF that] by (simp add: word_less_nat_alt unat_wsize) (auto simp: good_def)
    from scan_fit_list [OF assms, of "\<lambda>x y. x < y" need "0xffffffff" "(0, 0)" 0] show ?thesis
    proof
      assume "\<exists>xs b ys. bs = xs @ b # ys \<and> unat need \<le> snd b \<and> wsize b < 0xffffffff \<and>
        (\<forall>x \<in> set xs. unat need \<le> snd x \<longrightarrow> wsize b < wsize x) \<and> (\<forall>x \<in> set ys. unat need \<le> snd x \<longrightarrow> \<not> wsize x < wsize b) \<and>
        scan_fit (\<lambda>x y. x < y) m need 0xffffffff (0, 0) 0 p = Some (before 0 xs, fst b)"
      then obtain xs b ys where c: "bs = xs @ b # ys" "unat need \<le> snd b"
        "\<forall>x \<in> set xs. unat need \<le> snd x \<longrightarrow> wsize b < wsize x" "\<forall>x \<in> set ys. unat need \<le> snd x \<longrightarrow> \<not> wsize x < wsize b"
        "scan_fit (\<lambda>x y. x < y) m need 0xffffffff (0, 0) 0 p = Some (before 0 xs, fst b)" by blast
      have "right_choice BESTFIT (unat need) xs b ys"
        using c(2-4) pos wsize_less unfolding right_choice_def c(1) by (auto simp: not_less)
      then show ?thesis using c(1,5) BESTFIT by (intro disjI1 exI [of _ xs] exI [of _ b] exI [of _ ys]) (simp add: pick_node_def)
    qed (use lt BESTFIT in \<open>auto simp: pick_node_def not_le\<close>)
  next
    case WORSTFIT
    from scan_fit_list [OF assms, of "\<lambda>x y. y \<le> x" need 0 "(0, 0)" 0] show ?thesis
    proof
      assume "\<exists>xs b ys. bs = xs @ b # ys \<and> unat need \<le> snd b \<and> 0 \<le> wsize b \<and>
        (\<forall>x \<in> set xs. unat need \<le> snd x \<longrightarrow> wsize x \<le> wsize b) \<and> (\<forall>x \<in> set ys. unat need \<le> snd x \<longrightarrow> \<not> wsize b \<le> wsize x) \<and>
        scan_fit (\<lambda>x y. y \<le> x) m need 0 (0, 0) 0 p = Some (before 0 xs, fst b)"
      then obtain xs b ys where c: "bs = xs @ b # ys" "unat need \<le> snd b"
        "\<forall>x \<in> set xs. unat need \<le> snd x \<longrightarrow> wsize x \<le> wsize b" "\<forall>x \<in> set ys. unat need \<le> snd x \<longrightarrow> \<not> wsize b \<le> wsize x"
        "scan_fit (\<lambda>x y. y \<le> x) m need 0 (0, 0) 0 p = Some (before 0 xs, fst b)" by blast
      have "right_choice WORSTFIT (unat need) xs b ys"
        using c(2-4) pos wsize_less unfolding right_choice_def c(1) by (auto simp: not_le)
      then show ?thesis using c(1,5) WORSTFIT by (intro disjI1 exI [of _ xs] exI [of _ b] exI [of _ ys]) (simp add: pick_node_def)
    qed (use WORSTFIT in \<open>auto simp: pick_node_def not_le\<close>)
  qed (simp add: pick_node_def)
qed

section \<open>The heap\<close>

definition span :: "nat \<times> nat \<Rightarrow> nat set" where
  "span b = {fst b ..< fst b + snd b}"

text \<open>A set of blocks that shares out a region.\<close>

definition roomy :: "(nat \<times> nat) set \<Rightarrow> bool" where
  "roomy B \<longleftrightarrow> (\<forall>b \<in> B. 16 \<le> snd b)"

definition aligned :: "(nat \<times> nat) set \<Rightarrow> bool" where
  "aligned B \<longleftrightarrow> (\<forall>b \<in> B. 8 dvd fst b \<and> 8 dvd snd b)"

definition fam :: "(nat \<times> nat) set \<Rightarrow> bool" where
  "fam B \<longleftrightarrow> (\<forall>b \<in> B. \<forall>c \<in> B. b \<noteq> c \<longrightarrow> span b \<inter> span c = {})"

definition tiles :: "nat set \<Rightarrow> (nat \<times> nat) set \<Rightarrow> bool" where
  "tiles R B \<longleftrightarrow> roomy B \<and> aligned B \<and> fam B \<and> \<Union> (span ` B) = R"

lemma roomy_Un [simp]: "roomy (A \<union> B) \<longleftrightarrow> roomy A \<and> roomy B" "roomy (insert b B) \<longleftrightarrow> 16 \<le> snd b \<and> roomy B" "roomy {}"
  by (auto simp: roomy_def)

lemma aligned_Un [simp]: "aligned (A \<union> B) \<longleftrightarrow> aligned A \<and> aligned B" "aligned (insert b B) \<longleftrightarrow> 8 dvd fst b \<and> 8 dvd snd b \<and> aligned B" "aligned {}"
  by (auto simp: aligned_def)

lemma roomyD: "roomy B \<Longrightarrow> b \<in> B \<Longrightarrow> 16 \<le> snd b"
  by (simp add: roomy_def)

lemma roomy_mono: "roomy B \<Longrightarrow> C \<subseteq> B \<Longrightarrow> roomy C"
  by (auto simp: roomy_def)

lemma roomy_cells: "roomy B \<Longrightarrow> b \<in> B \<Longrightarrow> fst b \<in> span b \<and> fst b + 8 \<in> span b"
  using roomyD [of B b] by (simp add: span_def)

lemma famD: "fam B \<Longrightarrow> b \<in> B \<Longrightarrow> c \<in> B \<Longrightarrow> b \<noteq> c \<Longrightarrow> x \<in> span b \<Longrightarrow> x \<notin> span c"
  unfolding fam_def by blast

lemma fam_mono: "fam B \<Longrightarrow> C \<subseteq> B \<Longrightarrow> fam C"
  unfolding fam_def by blast

lemma fam_Un:
  assumes "fam Q" "fam B" "\<And>x. x \<in> \<Union> (span ` Q) \<Longrightarrow> x \<notin> \<Union> (span ` B)"
  shows "fam (Q \<union> B)"
  unfolding fam_def
proof (intro ballI impI)
  fix b c assume "b \<in> Q \<union> B" "c \<in> Q \<union> B" "b \<noteq> c"
  then consider "b \<in> Q" "c \<in> Q" | "b \<in> B" "c \<in> B" | "b \<in> Q" "c \<in> B" | "b \<in> B" "c \<in> Q" by blast
  then show "span b \<inter> span c = {}"
    using assms \<open>b \<noteq> c\<close> by cases (simp_all add: fam_def, blast+)
qed

text \<open>Some blocks may be exchanged for others that cover the same addresses: cutting and merging.\<close>

lemma tiles_exchange:
  assumes "tiles R (P \<union> B)" "P \<inter> B = {}" "\<Union> (span ` Q) = \<Union> (span ` P)" "fam Q" "roomy Q" "aligned Q"
  shows "tiles R (Q \<union> B)" "Q \<inter> B = {}"
proof -
  have t: "fam (P \<union> B)" "roomy B" "aligned B" "\<Union> (span ` (P \<union> B)) = R" using assms(1) by (simp_all add: tiles_def)
  have sep: "x \<notin> \<Union> (span ` B)" if x: "x \<in> \<Union> (span ` Q)" for x
  proof
    assume "x \<in> \<Union> (span ` B)"
    then obtain c where c: "c \<in> B" "x \<in> span c" by blast
    obtain b where b: "b \<in> P" "x \<in> span b" using x assms(3) by blast
    show False using famD [OF t(1), of b c x] b c assms(2) by blast
  qed
  have "fam (Q \<union> B)" by (rule fam_Un [OF assms(4) fam_mono [OF t(1)] sep]) blast+
  moreover have "\<Union> (span ` (Q \<union> B)) = R" using t(4) assms(3) by (simp add: image_Un)
  ultimately show "tiles R (Q \<union> B)" using t assms by (simp add: tiles_def)
  show "Q \<inter> B = {}"
  proof (rule ccontr)
    assume "Q \<inter> B \<noteq> {}"
    then obtain b where "b \<in> Q" "b \<in> B" by blast
    then show False using sep [of "fst b"] roomy_cells [OF assms(5)] by blast
  qed
qed

lemma span_join: "fst b + snd b = fst c \<Longrightarrow> span (fst b, snd b + snd c) = span b \<union> span c"
  by (auto simp: span_def)

lemma span_cut: "k \<le> snd b \<Longrightarrow> span b = span (fst b, k) \<union> span (fst b + k, snd b - k)"
  by (auto simp: span_def)

lemma fam_single [simp]: "fam {b}"
  by (simp add: fam_def)

lemma fam_pair: "fst b + snd b \<le> fst c \<Longrightarrow> fam {b, c}"
  by (auto simp: fam_def span_def)

text \<open>Blocks in address order; with a gap after each, two of them never touch.\<close>

definition lined_up :: "(nat \<times> nat) list \<Rightarrow> bool" where
  "lined_up bs \<longleftrightarrow> sorted_wrt (\<lambda>b c. fst b + snd b \<le> fst c) bs"

definition apart :: "(nat \<times> nat) list \<Rightarrow> bool" where
  "apart bs \<longleftrightarrow> sorted_wrt (\<lambda>b c. fst b + snd b < fst c) bs"

lemma apart_lined_up: "apart bs \<Longrightarrow> lined_up bs"
  unfolding apart_def lined_up_def by (rule sorted_wrt_mono_rel) auto

lemma lined_up_distinct: "lined_up bs \<Longrightarrow> roomy (set bs) \<Longrightarrow> distinct (map fst bs)"
  unfolding lined_up_def by (induction bs) (fastforce simp: roomy_def)+

lemma lined_up_fam: "lined_up bs \<Longrightarrow> fam (set bs)"
proof (induction bs)
  case (Cons b bs)
  have "fam ({b} \<union> set bs)"
    by (rule fam_Un) (use Cons in \<open>fastforce simp: lined_up_def span_def\<close>)+
  then show ?case by simp
qed (simp add: fam_def)

text \<open>What the writes to other blocks leave alone.\<close>

definition same_on :: "(nat \<times> nat) set \<Rightarrow> cells \<Rightarrow> cells \<Rightarrow> bool" where
  "same_on B m m' \<longleftrightarrow> (\<forall>b \<in> B. \<forall>a \<in> span b. m' a = m a)"

lemma same_onD: "same_on B m m' \<Longrightarrow> roomy B \<Longrightarrow> b \<in> B \<Longrightarrow> m' (fst b) = m (fst b) \<and> m' (fst b + 8) = m (fst b + 8)"
  using roomy_cells by (auto simp: same_on_def)

lemma same_on_upd:
  assumes "same_on B m m'" "\<And>b. b \<in> B \<Longrightarrow> a \<notin> span b"
  shows "same_on B m (m'(a := w))"
  using assms by (auto simp: same_on_def)

lemma same_on_refl [simp]: "same_on B m m"
  by (simp add: same_on_def)

lemma same_on_mono: "same_on B m m' \<Longrightarrow> C \<subseteq> B \<Longrightarrow> same_on C m m'"
  by (auto simp: same_on_def)

lemma same_on_trans: "same_on B m m' \<Longrightarrow> same_on B m' m'' \<Longrightarrow> same_on B m m''"
  by (simp add: same_on_def)

lemma flinks_same: "flinks m p bs \<Longrightarrow> same_on (set bs) m m' \<Longrightarrow> roomy (set bs) \<Longrightarrow> flinks m' p bs"
  using flinks_cong [of m p bs m'] same_onD [of "set bs" m m'] by blast

lemma flinks_roomy: "flinks m p bs \<Longrightarrow> roomy (set bs)"
  using flinks_pos [of m p bs] by (simp add: roomy_def good_def)

lemma flinks_link:
  assumes "flinks m p (xs @ ys)" "flinks m' q zs" "q < 2 ^ 64" "same_on (set xs) m m'" "lined_up (xs @ zs)"
  shows "flinks (set_link xs q m') (if xs = [] then q else p) (xs @ zs)"
proof (cases "xs = []")
  case False
  have l: "last xs \<in> set (xs @ zs)" "last xs \<in> set xs" using False by simp_all
  have r: "roomy (set (xs @ zs))" "roomy (set xs)" using flinks_roomy [OF assms(1)] flinks_roomy [OF assms(2)] by simp_all
  have dist: "distinct (map fst (xs @ zs))" using lined_up_distinct [OF assms(5) r(1)] .
  have o: "last_of xs \<noteq> fst b + 8" if "b \<in> set (xs @ zs)" for b
  proof (cases "b = last xs")
    case False
    have "last_of xs \<in> span (last xs)" "fst b + 8 \<in> span b"
      using roomy_cells [OF r(1)] l(1) that \<open>xs \<noteq> []\<close> by (simp_all add: last_of_def)
    then show ?thesis using famD [OF lined_up_fam [OF assms(5)] l(1) that, of "last_of xs"] False by metis
  qed (use False in \<open>simp add: last_of_def\<close>)
  show ?thesis
  proof (rule flinks_relink [OF assms(1,2,3)])
    show "distinct (map fst xs)" using dist by (simp del: set_map)
    have i: "fst (last xs) \<in> fst ` set xs" using l(2) by (rule imageI)
    show "last_of xs \<noteq> fst b" if "b \<in> set zs" for b
    proof
      assume "last_of xs = fst b"
      then have "fst (last xs) \<in> fst ` set zs" using imageI [OF that, of fst] False by (simp add: last_of_def)
      then show False using dist i by (simp only: map_append distinct_append set_map) blast
    qed
    show "m' (fst b) = m (fst b) \<and> m' (fst b + 8) = m (fst b + 8)" if "b \<in> set xs" for b
      using same_onD [OF assms(4) r(2) that] .
  qed (rule o)
qed (use assms(2) in \<open>simp add: set_link_def\<close>)

lemma flinks_replace:
  assumes "flinks m p (xs @ ys)" "same_on (set xs) m m'" "first_of ys = first_of zs" "flinks m' (first_of zs) zs"
  shows "flinks m' p (xs @ zs)"
  using assms
proof (induction xs arbitrary: p)
  case Nil
  then have "p = first_of zs" using flinks_first [of m p ys] by simp
  then show ?case using Nil by simp
next
  case (Cons x xs)
  have "roomy (set (x # xs))" using flinks_roomy [OF Cons.prems(1)] by simp
  then have "m' (fst x) = m (fst x)" "m' (fst x + 8) = m (fst x + 8)" using same_onD [OF Cons.prems(2), of x] by simp_all
  moreover have "flinks m' (node_next m (fst x)) (xs @ zs)"
    by (rule Cons.IH) (use Cons.prems in \<open>simp_all add: same_on_def\<close>)
  ultimately show ?case using Cons.prems(1) by (simp add: node_size_def node_next_def)
qed


text \<open>The free list \<open>fs\<close> and the blocks \<open>us\<close> that have been handed out share out the region.\<close>

definition region :: "mem_state \<Rightarrow> nat set" where
  "region s = {hptr s ..< hptr s + totsize s}"

definition header_ok :: "cells \<Rightarrow> nat \<times> nat \<Rightarrow> bool" where
  "header_ok m b \<longleftrightarrow> m (fst b) = both (of_nat (snd b - 8)) MAGIC"

definition heap_wf :: "mem_state \<Rightarrow> (nat \<times> nat) list \<Rightarrow> (nat \<times> nat) set \<Rightarrow> bool" where
  "heap_wf s fs us \<longleftrightarrow>
     called s \<noteq> 0 \<and> 0 < hptr s \<and> hptr s + totsize s < 2 ^ 64 \<and> totsize s < 2 ^ 31 \<and>
     flinks (cells s) (base s) fs \<and> lined_up fs \<and>
     tiles (region s) (set fs \<union> us) \<and> set fs \<inter> us = {} \<and> (\<forall>b \<in> us. header_ok (cells s) b)"

lemma heap_wfD:
  assumes "heap_wf s fs us"
  shows "called s \<noteq> 0" "0 < hptr s" "hptr s + totsize s < 2 ^ 64" "totsize s < 2 ^ 31" "flinks (cells s) (base s) fs" "lined_up fs"
    "tiles (region s) (set fs \<union> us)" "set fs \<inter> us = {}" "b \<in> us \<Longrightarrow> header_ok (cells s) b"
  using assms unfolding heap_wf_def by blast+

lemma tiles_good:
  assumes "tiles (region s) B" "b \<in> B" "0 < hptr s" "hptr s + totsize s < 2 ^ 64" "totsize s < 2 ^ 31"
  shows "good b" "8 dvd fst b" "8 dvd snd b" "hptr s \<le> fst b" "fst b + snd b \<le> hptr s + totsize s"
proof -
  have b: "16 \<le> snd b" "8 dvd fst b \<and> 8 dvd snd b" "{fst b ..< fst b + snd b} \<subseteq> {hptr s ..< hptr s + totsize s}"
    using assms(1,2) unfolding tiles_def roomy_def aligned_def span_def region_def by blast+
  have "fst b < fst b + snd b" using b(1) by simp
  then show l: "hptr s \<le> fst b" "fst b + snd b \<le> hptr s + totsize s"
    using b(3) atLeastLessThan_subset_iff [of "fst b" "fst b + snd b"] by auto
  show "good b" unfolding good_def using assms b(1) l by linarith
  show "8 dvd fst b" "8 dvd snd b" using b(2) by simp_all
qed

lemma heap_wf_good:
  assumes "heap_wf s fs us" "b \<in> set fs \<union> us"
  shows "good b" "8 dvd fst b" "8 dvd snd b"
  using tiles_good [OF heap_wfD(7) [OF assms(1)] assms(2) heap_wfD(2-4) [OF assms(1)]] by auto

lemma heap_wf_apart:
  assumes "heap_wf s (xs @ b # ys) us" "c \<in> set xs \<union> set ys \<union> us" "a \<in> span c"
  shows "a \<notin> span b"
proof -
  have d: "distinct (map fst (xs @ b # ys))" "fam (set (xs @ b # ys) \<union> us)" "b \<notin> us"
    using lined_up_distinct [OF heap_wfD(6) [OF assms(1)] flinks_roomy [OF heap_wfD(5) [OF assms(1)]]] heap_wfD(7,8) [OF assms(1)]
    by (simp_all only: tiles_def) auto
  then have "c \<noteq> b" using assms(2) by (auto simp: image_iff)
  then show ?thesis using famD [OF d(2), of c b a] assms(2,3) by auto
qed

lemma heap_wf_inside:
  assumes "heap_wf s (xs @ b # ys) us" "\<And>a. a \<notin> span b \<Longrightarrow> m a = cells s a"
  shows "same_on (set xs \<union> set ys \<union> us) (cells s) m"
  unfolding same_on_def using assms(2) heap_wf_apart [OF assms(1)] by blast

section \<open>Allocation is correct\<close>

text \<open>The part of a block that is handed out, and what stays free.\<close>

definition cut :: "nat \<times> nat \<Rightarrow> nat \<Rightarrow> (nat \<times> nat) \<times> (nat \<times> nat) list" where
  "cut b k = (if k + 16 \<le> snd b then ((fst b, k), [(fst b + k, snd b - k)]) else (b, []))"

lemma cut_exchange:
  assumes "cut b k = (h, rest)" "16 \<le> k" "k \<le> snd b" "8 dvd k" "8 dvd fst b" "8 dvd snd b"
  shows "\<Union> (span ` (set (h # rest))) = \<Union> (span ` {b})" "fam (set (h # rest))" "roomy (set (h # rest))"
    "aligned (set (h # rest))" "fst h = fst b" "k \<le> snd h" "snd h \<le> snd b"
proof -
  consider "h = b" "rest = []" | "h = (fst b, k)" "rest = [(fst b + k, snd b - k)]" "k + 16 \<le> snd b"
    using assms(1) unfolding cut_def by (cases "k + 16 \<le> snd b") auto
  note cases = this
  show "\<Union> (span ` (set (h # rest))) = \<Union> (span ` {b})"
    using cases span_cut [OF assms(3)] by cases simp_all
  show "fam (set (h # rest))" using cases fam_pair [of "(fst b, k)" "(fst b + k, snd b - k)"] by cases simp_all
  show "roomy (set (h # rest))" using cases assms(2,3) by cases auto
  show "aligned (set (h # rest))" using cases assms(4-6) by cases (auto intro: dvd_diff_nat)
  show "fst h = fst b" "k \<le> snd h" "snd h \<le> snd b" using cases assms(3) by (cases; simp)+
qed

lemma lined_up_cut:
  assumes "cut b k = (h, rest)" "16 \<le> k" "k \<le> snd b"
  shows "lined_up (xs @ b # ys) \<Longrightarrow> lined_up (xs @ rest @ ys)" "apart (xs @ b # ys) \<Longrightarrow> apart (xs @ rest @ ys)"
proof -
  consider "rest = []" | c where "rest = [c]" "fst b \<le> fst c" "fst c + snd c = fst b + snd b"
    using assms by (auto simp: cut_def split: if_splits)
  note cases = this
  show "lined_up (xs @ rest @ ys)" if "lined_up (xs @ b # ys)"
    using cases that by cases (fastforce simp: lined_up_def sorted_wrt_append)+
  show "apart (xs @ rest @ ys)" if "apart (xs @ b # ys)"
    using cases that by cases (fastforce simp: apart_def sorted_wrt_append)+
qed

lemma carve_cells:
  assumes "heap_wf s (xs @ b # ys) us" "cut b (unat sz + 8) = (h, rest)" "8 \<le> unat sz" "unat sz + 8 \<le> snd b"
  shows "\<exists>m. (\<forall>a. a \<notin> span b \<longrightarrow> m a = cells s a) \<and> flinks m (first_of (rest @ ys)) (rest @ ys) \<and>
     carve sz (last_of xs) (fst b) s =
       (fst b + 8, s\<lparr>cells := (set_link xs (first_of (rest @ ys)) m)(fst b := both (of_nat (snd h - 8)) MAGIC),
                     base := if xs = [] then first_of (rest @ ys) else base s\<rparr>)"
proof -
  let ?m = "cells s" and ?need = "unat sz + 8" and ?r = "(fst b + (unat sz + 8), snd b - (unat sz + 8))"
  have fl: "flinks ?m (base s) (xs @ b # ys)" using heap_wfD(5) [OF assms(1)] .
  have good: "good c" if "c \<in> set (xs @ b # ys)" for c using heap_wf_good(1) [OF assms(1), of c] that by blast
  have w: "node_size ?m (fst b) = wsize b" and sz: "unat (wsize b) + 16 = snd b"
    using flinks_pos [OF fl, of b] flinks_size [OF fl, of b] by simp_all
  have gb: "0 < fst b" "fst b < 2 ^ 64" "snd b < 2 ^ 31" using good [of b] by (simp_all add: good_def)
  have nx: "flinks ?m (first_of ys) ys" "node_next ?m (fst b) = first_of ys"
    using flinks_suffix [OF fl] flinks_first [OF flinks_suffix [OF fl]] by simp_all
  have ends: "fst b + snd b < 2 ^ 64"
    using tiles_good(5) [OF heap_wfD(7) [OF assms(1)] _ heap_wfD(2-4) [OF assms(1)], of b] heap_wfD(3) [OF assms(1)] by simp
  have p0: "last_of xs = 0 \<longleftrightarrow> xs = []"
    using good [of "last xs"] by (auto simp: last_of_def good_def)
  have need: "sz + 8 = of_nat ?need" by simp
  have needu: "unat (sz + 8) = ?need" unfolding need by (rule unat_small) (use assms(4) gb(3) in linarith)
  have rem: "of_nat (snd b) - (sz + 8) = (of_nat (snd b - ?need) :: u32)" 
    unfolding need by (rule of_nat_diff [symmetric]) (rule assms(4))
  have remu: "unat (of_nat (snd b - ?need) :: u32) = snd b - ?need" by (rule unat_small) (use gb(3) in linarith)
  show ?thesis
  proof (cases "?need + 16 \<le> snd b")
    case True
    let ?c = "(fst b + ?need, snd b - ?need)"
    let ?m1 = "connect (fst ?c) (node_next ?m (fst b)) (setNode (fst ?c) (wsize ?c) ?m)"
    have c: "h = (fst b, ?need)" "rest = [?c]" using assms(2) True by (simp_all add: cut_def)
    have ws: "wsize b - (sz + 8) = wsize ?c"
    proof -
      have "wsize b - (sz + 8) = of_nat (snd b - 16 - ?need)" unfolding need wsize_def
        by (rule of_nat_diff [symmetric]) (use True in linarith)
      also have "snd b - 16 - ?need = snd ?c - 16" by simp
      finally show ?thesis unfolding wsize_def .
    qed
    have gc: "good ?c" using gb True assms(3) good [of b] ends unfolding good_def fst_conv snd_conv by auto
    have "fst ?c \<noteq> 0" using gb(1) by simp
    then have m1: "?m1 = (?m(fst ?c + 8 := both (wsize ?c) (upper (?m (fst ?c + 8)))))(fst ?c := of_nat (first_of ys))"
      unfolding connect_def setNode_def using nx(2) by (simp del: fun_upd_apply)
    have out: "a \<notin> span b \<Longrightarrow> ?m1 a = ?m a" for a
    proof -
      assume "a \<notin> span b"
      then have "a \<noteq> fst ?c \<and> a \<noteq> fst ?c + 8" using True assms(3) by (auto simp: span_def)
      then show ?thesis unfolding m1 by simp
    qed
    have len: "first_of ys < 2 ^ 64" using nx good by (cases ys) (auto simp: first_of_def good_def)
    have "node_size ?m1 (fst ?c) = wsize ?c" "node_next ?m1 (fst ?c) = first_of ys"
      unfolding m1 using len by (simp_all add: node_size_def node_next_def unat_of_nat take_bit_nat_eq_self)
    moreover have "flinks ?m1 (first_of ys) ys"
    proof (rule flinks_same [OF nx(1) _ flinks_roomy [OF nx(1)]])
      show "same_on (set ys) ?m ?m1" unfolding same_on_def
        using heap_wf_apart [OF assms(1)] out by blast
    qed
    ultimately have fl1: "flinks ?m1 (fst ?c) (?c # ys)" using gc by simp
    have "carve sz (last_of xs) (fst b) s =
       (fst b + 8, s\<lparr>cells := (set_link xs (first_of (rest @ ys)) ?m1)(fst b := both (of_nat (snd h - 8)) MAGIC),
                     base := if xs = [] then first_of (rest @ ys) else base s\<rparr>)"
    proof -
      have "node_next (setNode (fst ?c) v ?m) (fst b) = first_of ys" for v
        using nx(2) by (simp add: node_next_def setNode_def)
      moreover have "16 \<le> snd b - ?need" "rest @ ys \<noteq> []" "first_of (rest @ ys) = fst b + ?need" "snd h - 8 = unat sz"
        using True c by (simp_all add: first_of_def)
      ultimately show ?thesis
        unfolding carve_def Let_def w sz rem remu needu ws
        by (simp only: if_True fst_conv nx(2) p0 prod.case set_link_def connect_def setHeader_def split: if_split) simp
    qed
    then show ?thesis using fl1 out c by (intro exI [of _ ?m1]) (simp add: first_of_def del: fun_upd_apply)
  next
    case False
    have szr: "sz + of_nat (snd b - ?need) = of_nat (snd b - 8)"
      using assms(4) by simp
    have c: "h = b" "rest = []" using False assms(2) by (simp_all add: cut_def)
    have "carve sz (last_of xs) (fst b) s =
       (fst b + 8, s\<lparr>cells := (set_link xs (first_of (rest @ ys)) ?m)(fst b := both (of_nat (snd h - 8)) MAGIC),
                     base := if xs = [] then first_of (rest @ ys) else base s\<rparr>)"
      using False unfolding carve_def Let_def w sz rem remu needu c
      by (simp add: nx(2) p0 szr set_link_def connect_def setHeader_def del: fun_upd_apply of_nat_diff)
    then show ?thesis using nx c by (intro exI [of _ ?m]) (simp del: fun_upd_apply)
  qed
qed


text \<open>The free list after a block has been taken: \<open>rest\<close> stands in its place.\<close>

lemma unat_round_size: "1 \<le> n \<Longrightarrow> n < 2 ^ 31 \<Longrightarrow> unat (round_size n) = nat ((n + 7) div 8 * 8)"
proof -
  assume n: "1 \<le> n" "n < 2 ^ 31"
  then obtain k where k: "n = int k" "k < 2 ^ 31" using nonneg_int_cases [of n] by auto
  have "(of_int n + 7 :: u64) = of_nat (k + 7)" using k(1) by simp
  moreover have "unat (of_nat (k + 7) :: u64) = k + 7" using k(2) by (simp add: unat_of_nat take_bit_nat_eq_self del: of_nat_add)
  ultimately have "unat ((of_int n + 7 :: u64) div 8) = (k + 7) div 8" by (simp add: unat_div)
  moreover have "w = of_nat (unat w)" for w :: u64 by simp
  ultimately have "(of_int n + 7 :: u64) div 8 = of_nat ((k + 7) div 8)" by metis
  then have "(of_int n + 7 :: u64) div 8 * 8 = of_nat ((k + 7) div 8 * 8)" by (simp only: of_nat_mult of_nat_numeral)
  moreover have b: "(k + 7) div 8 * 8 < 2 ^ 32" using k(2) by simp
  moreover have "ucast (of_nat j :: u64) = (of_nat j :: u32)" if "j < 2 ^ 32" for j
    using that by (simp add: unsigned_of_nat take_bit_nat_eq_self)
  ultimately have "round_size n = of_nat ((k + 7) div 8 * 8)" unfolding round_size_def by (simp del: of_nat_mult)
  then have "unat (round_size n) = (k + 7) div 8 * 8" using b by (simp add: unat_of_nat take_bit_nat_eq_self del: of_nat_mult)
  then show ?thesis using k(1) by (simp add: nat_mult_distrib nat_div_distrib)
qed

lemma heap_wf_distinct:
  assumes "heap_wf s (xs @ b # ys) us"
  shows "{b} \<inter> (set (xs @ ys) \<union> us) = {}"
proof -
  have "distinct (map fst (xs @ b # ys))"
    using lined_up_distinct [OF heap_wfD(6) [OF assms] flinks_roomy [OF heap_wfD(5) [OF assms]]] .
  then show ?thesis using heap_wfD(8) [OF assms] by (auto simp: image_iff)
qed

lemma same_on_link:
  assumes "same_on B m m'" "fam (set xs \<union> B)" "set xs \<inter> B = {}" "roomy (set xs)"
  shows "same_on B m (set_link xs q m')"
proof (cases "xs = []")
  case False
  then have l: "last xs \<in> set xs" by simp
  have "last_of xs \<notin> span c" if "c \<in> B" for c
  proof (rule famD [OF assms(2)])
    show "last xs \<in> set xs \<union> B" "c \<in> set xs \<union> B" "last xs \<noteq> c" using l that assms(3) by auto
    show "last_of xs \<in> span (last xs)" using roomy_cells [OF assms(4) l] False by (simp add: last_of_def)
  qed
  then show ?thesis using same_on_upd [OF assms(1)] False by (simp add: set_link_def del: fun_upd_apply)
qed (use assms(1) in \<open>simp add: set_link_def\<close>)

lemma flinks_bound: "flinks m p bs \<Longrightarrow> p < 2 ^ 64"
  by (cases bs) (auto simp: good_def)

lemma heap_wf_take:
  assumes h: "heap_wf s (xs @ b # ys) us" and c: "cut b k = (g, rest)" and k: "16 \<le> k" "k \<le> snd b" "8 dvd k"
    and m: "\<forall>a. a \<notin> span b \<longrightarrow> m a = cells s a" "flinks m (first_of (rest @ ys)) (rest @ ys)"
    and t: "t = s\<lparr>cells := (set_link xs (first_of (rest @ ys)) m)(fst b := both (of_nat (snd g - 8)) MAGIC),
                     base := if xs = [] then first_of (rest @ ys) else base s\<rparr>"
  shows "heap_wf t (xs @ rest @ ys) (insert g us)" "same_on us (cells s) (cells t)"
proof -
  note w = heap_wfD [OF h]
  let ?q = "first_of (rest @ ys)" and ?m = "set_link xs (first_of (rest @ ys)) m"
  have good: "good b" "8 dvd fst b" "8 dvd snd b" using heap_wf_good [OF h, of b] by simp_all
  note e = cut_exchange [OF c k(1,2,3) good(2,3)]
  have "tiles (region s) ({b} \<union> (set (xs @ ys) \<union> us))" using w(7) by (simp add: Un_assoc)
  note x = tiles_exchange [OF this heap_wf_distinct [OF h] e(1-4)]
  have lx: "lined_up (xs @ rest @ ys)" using lined_up_cut(1) [OF c k(1,2) w(6)] .
  have mo: "same_on (set xs \<union> set ys \<union> us) (cells s) m" using heap_wf_inside [OF h] m(1) by blast
  have fl: "flinks ?m (base t) (xs @ rest @ ys)"
    using flinks_link [OF w(5) m(2) flinks_bound [OF m(2)] same_on_mono [OF mo] lx] t by (simp add: Un_assoc)
  have "fst b \<notin> span c" if "c \<in> set (xs @ rest @ ys) \<union> us" for c
  proof (cases "c \<in> set rest")
    case True
    then show ?thesis using c k(1) by (auto simp: cut_def span_def split: if_splits)
  next
    case False
    then have "c \<in> set (xs @ ys) \<union> us" using that by auto
    then have "c \<noteq> g" "c \<in> set (g # rest) \<union> (set (xs @ ys) \<union> us)" using x(2) by auto
    moreover have "fst b \<in> span g" using e(5,6) k(1) by (simp add: span_def)
    ultimately show ?thesis using x(1) famD [of _ g c "fst b"] unfolding tiles_def by auto
  qed
  then have keep: "same_on (set (xs @ rest @ ys) \<union> us) ?m (cells t)"
    unfolding t by (simp add: same_on_def)
  have "fam (set xs \<union> us)" "set xs \<inter> us = {}" "roomy (set xs)"
    using w(7,8) fam_mono [of "set (xs @ b # ys) \<union> us" "set xs \<union> us"] unfolding tiles_def by auto
  then have usm: "same_on us (cells s) ?m" using same_on_link same_on_mono [OF mo] by blast
  show us: "same_on us (cells s) (cells t)" by (rule same_on_trans [OF usm same_on_mono [OF keep]]) simp
  have fl2: "flinks (cells t) (base t) (xs @ rest @ ys)"
    by (rule flinks_same [OF fl same_on_mono [OF keep] flinks_roomy [OF fl]]) simp
  have hd: "header_ok (cells t) c" if "c \<in> insert g us" for c
    using that e(5) w(7) same_onD [OF us, of c] w(9) [of c] by (auto simp: header_ok_def t tiles_def)
  have "tiles (region t) (set (xs @ rest @ ys) \<union> insert g us)" "set (xs @ rest @ ys) \<inter> insert g us = {}"
  proof -
    have "g \<notin> set rest" using c k(1) by (auto simp: cut_def split: if_splits)
    then show "set (xs @ rest @ ys) \<inter> insert g us = {}" using x(2) w(8) by auto
    have "set (g # rest) \<union> (set (xs @ ys) \<union> us) = set (xs @ rest @ ys) \<union> insert g us" by auto
    then show "tiles (region t) (set (xs @ rest @ ys) \<union> insert g us)" using x(1) by (simp add: region_def t)
  qed
  then show "heap_wf t (xs @ rest @ ys) (insert g us)" unfolding heap_wf_def 
    using w(1-4) fl2 lx hd by (simp add: t)
qed


definition heap_ok :: "mem_state \<Rightarrow> (nat \<times> nat) list \<Rightarrow> (nat \<times> nat) set \<Rightarrow> bool" where
  "heap_ok s fs us \<longleftrightarrow> heap_wf s fs us \<and> apart fs"

text \<open>The bytes a request takes with its header.\<close>

definition need_of :: "int \<Rightarrow> nat" where
  "need_of n = nat ((n + 7) div 8 * 8) + 8"

lemma need_of_props:
  assumes "1 \<le> n"
  shows "16 \<le> need_of n" "8 dvd need_of n" "nat n + 8 \<le> need_of n" "need_of n < nat n + 16"
proof -
  have "1 \<le> (n + 7) div 8" using assms by simp
  then have "8 \<le> (n + 7) div 8 * 8" by linarith
  then show "16 \<le> need_of n" by (simp add: need_of_def)
  have "nat ((n + 7) div 8 * 8) = nat ((n + 7) div 8) * 8" using \<open>1 \<le> (n + 7) div 8\<close> by (simp add: nat_mult_distrib)
  then show "8 dvd need_of n" by (simp add: need_of_def)
  have "n \<le> (n + 7) div 8 * 8" "(n + 7) div 8 * 8 \<le> n + 7" by (presburger, simp)
  then show "nat n + 8 \<le> need_of n" "need_of n < nat n + 16" using assms by (simp_all add: need_of_def)
qed

lemma mem_alloc_step:
  assumes h: "heap_ok s fs us" and n: "1 \<le> n" "n < 2 ^ 31"
  shows "(\<exists>xs b ys g rest t.
      fs = xs @ b # ys \<and> right_choice st (need_of n) xs b ys \<and> cut b (need_of n) = (g, rest) \<and>
      mem_alloc n st s = Some (fst b + 8, t) \<and> heap_ok t (xs @ rest @ ys) (insert g us) \<and> same_on us (cells s) (cells t) \<and>
      hptr t = hptr s \<and> totsize t = totsize s) \<or>
    (st = OTHER \<or> (\<forall>b \<in> set fs. snd b < need_of n)) \<and> mem_alloc n st s = Some (0, s\<lparr>m_error := E_NO_SPACE\<rparr>)"
proof -
  have w: "heap_wf s fs us" "apart fs" "called s \<noteq> 0" using h by (auto simp: heap_ok_def heap_wf_def)
  have sz: "unat (round_size n) + 8 = need_of n" using unat_round_size [OF n] by (simp add: need_of_def)
  have need: "unat (round_size n + 8) = need_of n"
  proof -
    have "need_of n < 2 ^ 32" using need_of_props(4) [OF n(1)] n by simp
    then show ?thesis using sz by (simp add: unat_word_ariths)
  qed
  from pick_node_list [OF heap_wfD(5) [OF w(1)], of st "round_size n + 8"] show ?thesis
  proof
    assume "(st = OTHER \<or> (\<forall>x \<in> set fs. snd x < unat (round_size n + 8))) \<and> (\<exists>r. pick_node st (cells s) (round_size n + 8) (base s) = Some (r, 0))"
    then show ?thesis using w(3) need by (intro disjI2) (auto simp: mem_alloc_def)
  next
    assume "\<exists>xs b ys. fs = xs @ b # ys \<and> right_choice st (unat (round_size n + 8)) xs b ys \<and>
      pick_node st (cells s) (round_size n + 8) (base s) = Some (before 0 xs, fst b)"
    then obtain xs b ys where f: "fs = xs @ b # ys" "right_choice st (need_of n) xs b ys"
      "pick_node st (cells s) (round_size n + 8) (base s) = Some (last_of xs, fst b)"
      unfolding need by (auto simp: before_def last_of_def)
    obtain g rest where c: "cut b (need_of n) = (g, rest)" by fastforce
    have fit: "need_of n \<le> snd b" using f(2) by (simp add: right_choice_def)
    note k = need_of_props(1,2) [OF n(1)]
    have w': "heap_wf s (xs @ b # ys) us" "apart (xs @ b # ys)" using w f(1) by simp_all
    have "fst b \<noteq> 0" using heap_wf_good(1) [OF w'(1), of b] by (simp add: good_def)
    then have e: "mem_alloc n st s = Some (carve (round_size n) (last_of xs) (fst b) s)"
      using f(3) w(3) by (simp add: mem_alloc_def)
    obtain m where m: "\<forall>a. a \<notin> span b \<longrightarrow> m a = cells s a" "flinks m (first_of (rest @ ys)) (rest @ ys)"
      "carve (round_size n) (last_of xs) (fst b) s =
       (fst b + 8, s\<lparr>cells := (set_link xs (first_of (rest @ ys)) m)(fst b := both (of_nat (snd g - 8)) MAGIC),
                     base := if xs = [] then first_of (rest @ ys) else base s\<rparr>)"
      using carve_cells [OF w'(1), of "round_size n" g rest] c fit sz k(1) by auto
    define t where "t = snd (carve (round_size n) (last_of xs) (fst b) s)"
    have t: "t = s\<lparr>cells := (set_link xs (first_of (rest @ ys)) m)(fst b := both (of_nat (snd g - 8)) MAGIC),
                   base := if xs = [] then first_of (rest @ ys) else base s\<rparr>" unfolding t_def m(3) by simp
    note heap_wf_take [OF w'(1) c k(1) fit k(2) m(1,2) t]
    moreover have "apart (xs @ rest @ ys)" using lined_up_cut(2) [OF c k(1) fit w'(2)] .
    moreover have "mem_alloc n st s = Some (fst b + 8, t)" "hptr t = hptr s" "totsize t = totsize s" unfolding e m(3) by (simp_all add: t)
    ultimately show ?thesis unfolding heap_ok_def using f(1,2) c
      by (intro disjI1 exI [of _ xs] exI [of _ b] exI [of _ ys] exI [of _ g] exI [of _ rest] exI [of _ t] conjI) assumption+
  qed
qed


section \<open>Freeing is correct\<close>

text \<open>Where a block goes back: between the blocks below it and those above it, merged with what it touches.\<close>

definition join_next :: "nat \<times> nat \<Rightarrow> (nat \<times> nat) list \<Rightarrow> (nat \<times> nat) list" where
  "join_next b bs = (case bs of [] \<Rightarrow> [b] | c # cs \<Rightarrow> if fst b + snd b = fst c then (fst b, snd b + snd c) # cs else b # bs)"

definition put_back :: "(nat \<times> nat) list \<Rightarrow> nat \<times> nat \<Rightarrow> (nat \<times> nat) list" where
  "put_back fs b =
     (let xs = takeWhile (\<lambda>c. fst c + snd c \<le> fst b) fs; ys = dropWhile (\<lambda>c. fst c + snd c \<le> fst b) fs in
      if xs \<noteq> [] \<and> fst (last xs) + snd (last xs) = fst b
      then butlast xs @ join_next (fst (last xs), snd (last xs) + snd b) ys
      else xs @ join_next b ys)"

lemma neighbours_list:
  assumes "flinks m p fs"
  shows "neighbours m t q p =
     Some (before q (takeWhile (\<lambda>c. fst c + snd c \<le> t) fs), first_of (dropWhile (\<lambda>c. fst c + snd c \<le> t) fs))"
  using assms
proof (induction fs arbitrary: p q)
  case Nil
  then show ?case by (subst neighbours.simps) (simp add: before_def first_of_def)
next
  case (Cons b bs)
  have p: "p = fst b" "0 < fst b" "flinks m (node_next m p) bs" using Cons.prems by (auto simp: good_def)
  have e: "p + unat (node_size m p) + 16 = fst b + snd b" using flinks_size [OF Cons.prems, of b] p(1) by simp
  show ?case using Cons.IH [OF p(3), of p] p(1,2) e
    by (subst neighbours.simps) (simp add: before_Cons, simp add: before_def first_of_def)
qed

lemma heap_wf_sorted:
  assumes "heap_wf s fs us" "b \<in> us"
  defines "xs \<equiv> takeWhile (\<lambda>c. fst c + snd c \<le> fst b) fs" and "ys \<equiv> dropWhile (\<lambda>c. fst c + snd c \<le> fst b) fs"
  shows "fs = xs @ ys" "lined_up (xs @ b # ys)"
proof -
  show f: "fs = xs @ ys" by (simp add: xs_def ys_def)
  note w = heap_wfD [OF assms(1)]
  have "fst b + snd b \<le> fst c" if "c \<in> set ys" for c
  proof -
    obtain d ds where y: "ys = d # ds" using \<open>c \<in> set ys\<close> by (cases ys) auto
    then have d: "\<not> fst d + snd d \<le> fst b" using hd_dropWhile [of "\<lambda>c. fst c + snd c \<le> fst b" fs] by (simp add: ys_def)
    have "d \<in> set fs" using f y by simp
    then have "d \<noteq> b" using w(8) assms(2) by blast
    have "16 \<le> snd b" "16 \<le> snd d" using w(7) assms(2) \<open>d \<in> set fs\<close> by (auto simp: tiles_def roomy_def)
    have "fst b + snd b \<le> fst d"
    proof (rule ccontr)
      assume "\<not> ?thesis"
      then have "max (fst b) (fst d) \<in> span b" "max (fst b) (fst d) \<in> span d" using d \<open>16 \<le> snd b\<close> \<open>16 \<le> snd d\<close> by (auto simp: span_def)
      then show False using famD [of "set fs \<union> us" b d] w(7) \<open>d \<in> set fs\<close> assms(2) \<open>d \<noteq> b\<close> by (auto simp: tiles_def)
    qed
    moreover have "c = d \<or> fst d + snd d \<le> fst c" using w(6) f y that by (auto simp: lined_up_def sorted_wrt_append)
    ultimately show ?thesis by auto
  qed
  moreover have "fst c + snd c \<le> fst b" if "c \<in> set xs" for c using that set_takeWhileD unfolding xs_def by fast
  ultimately show "lined_up (xs @ b # ys)" using w(6) unfolding f lined_up_def by (auto simp: sorted_wrt_append)
qed


text \<open>A block that grows where it stands in the list, by one after it.\<close>

lemma heap_wf_grow:
  assumes h: "heap_wf s (xs @ p # zs) us" and us: "us' \<subseteq> us" and rs: "set rs \<inter> us' = {}" and c: "c = (fst p, snd p + snd q)" "fst p + snd p = fst q"
    and B: "set (xs @ p # zs) \<union> us = {p, q} \<union> (set (xs @ rs) \<union> us')" "{p, q} \<inter> (set (xs @ rs) \<union> us') = {}"
    and l: "lined_up (xs @ c # rs)" and m: "same_on (set xs \<union> us') (cells s) m" "flinks m (fst p) (c # rs)"
  shows "heap_wf (s\<lparr>cells := m\<rparr>) (xs @ c # rs) us'"
proof -
  note w = heap_wfD [OF h]
  have pq: "good p" "8 dvd fst p" "8 dvd snd p" "8 dvd snd q"
    using heap_wf_good [OF h, of p] heap_wf_good [OF h, of q] B(1) by auto
  have "\<Union> (span ` {c}) = \<Union> (span ` {p, q})" using span_join [OF c(2)] by (simp add: c(1))
  note u = this
  have ra: "roomy {c}" "aligned {c}" using pq by (simp_all add: c(1) good_def)
  have "tiles (region s) ({p, q} \<union> (set (xs @ rs) \<union> us'))" using w(7) unfolding B(1) .
  note x = tiles_exchange [OF this B(2) u fam_single ra]
  have "flinks m (base s) (xs @ c # rs)"
    by (rule flinks_replace [OF w(5) same_on_mono [OF m(1)]]) (use m(2) c(1) in \<open>simp_all add: first_of_def\<close>)
  moreover have "header_ok m b" if "b \<in> us'" for b
    using w(9) [of b] same_onD [OF same_on_mono [OF m(1)], of us' b] w(7) that us roomy_mono [of us us']
    by (auto simp: header_ok_def tiles_def)
  moreover have "(set xs \<union> set rs) \<inter> us' = {}" using w(8) us rs by auto
  ultimately show ?thesis unfolding heap_wf_def using w(1-4) l x by (simp add: region_def)
qed

lemma lined_up_merge: "lined_up (xs @ p # q # ys) \<Longrightarrow> fst p + snd p = fst q \<Longrightarrow> lined_up (xs @ (fst p, snd p + snd q) # ys)"
  by (auto simp: lined_up_def sorted_wrt_append)

lemma wsize_merge: "16 \<le> snd p \<Longrightarrow> 16 \<le> snd q \<Longrightarrow> wsize p + (16 + wsize q) = wsize (fst p, snd p + snd q)"
proof -
  assume "16 \<le> snd p" "16 \<le> snd q"
  then have "snd p + snd q - 16 = (snd p - 16) + (16 + (snd q - 16))" by simp
  then show ?thesis unfolding wsize_def by (simp only: snd_conv of_nat_add of_nat_numeral)
qed

lemma wsize_header: "16 \<le> snd b \<Longrightarrow> of_nat (snd b - 8) + 8 - 16 = wsize b"
proof -
  assume "16 \<le> snd b"
  then have "snd b - 8 + 8 = (snd b - 16) + 16" by simp
  then have "of_nat (snd b - 8) + 8 = wsize b + (16 :: u32)" unfolding wsize_def by (metis of_nat_add of_nat_numeral)
  then show ?thesis by simp
qed


lemma merge_right_step:
  assumes h: "heap_wf s (xs @ c # ys) us"
  shows "\<exists>m. merge_right (fst c) (first_of ys) s = s\<lparr>cells := m\<rparr> \<and> heap_wf (s\<lparr>cells := m\<rparr>) (xs @ join_next c ys) us \<and> same_on us (cells s) m"
proof -
  note w = heap_wfD [OF h]
  have good: "good d" if "d \<in> set (xs @ c # ys)" for d using heap_wf_good(1) [OF h, of d] that by blast
  have sz: "node_size (cells s) (fst d) = wsize d" "unat (wsize d) + 16 = snd d" if "d \<in> set (xs @ c # ys)" for d
    using flinks_pos [OF w(5) that] flinks_size [OF w(5) that] by simp_all
  show ?thesis
  proof (cases "ys \<noteq> [] \<and> fst c + snd c = fst (hd ys)")
    case True
    then obtain r rs where y: "ys = r # rs" "fst c + snd c = fst r" by (cases ys) auto
    let ?c = "(fst c, snd c + snd r)"
    let ?m = "connect (fst c) (node_next (cells s) (fst r)) (setNode (fst c) (wsize ?c) (cells s))"
    have g: "good c" "good r" "fst r \<noteq> 0" using good [of c] good [of r] y(1) by (simp_all add: good_def)
    have ends: "snd c + snd r \<le> totsize s" "totsize s < 2 ^ 31"
      using tiles_good(4) [OF w(7) _ w(2-4), of c] tiles_good(5) [OF w(7) _ w(2-4), of r] y w(4) by auto
    have e: "fst c + 16 + unat (node_size (cells s) (fst c)) = fst r" using sz [of c] y(2) by simp
    have "merge_right (fst c) (first_of ys) s = s\<lparr>cells := ?m\<rparr>"
      using e g(3) sz(1) [of c] sz(1) [of r] wsize_merge [of c r] g(1,2)
      unfolding merge_right_def Let_def y(1) first_of_def good_def by simp
    moreover have keep: "same_on (set xs \<union> us) (cells s) ?m" "same_on (set rs) (cells s) ?m"
    proof -
      have "?m a = cells s a" if "a \<notin> span c" for a
        using that g(1) by (auto simp: connect_def setNode_def span_def good_def)
      then have "same_on (set xs \<union> set ys \<union> us) (cells s) ?m" using heap_wf_inside [OF h] by blast
      then show "same_on (set xs \<union> us) (cells s) ?m" "same_on (set rs) (cells s) ?m" by (rule same_on_mono, auto simp: y)+
    qed
    moreover have "heap_wf (s\<lparr>cells := ?m\<rparr>) (xs @ ?c # rs) us"
    proof (rule heap_wf_grow [where q = r, OF h order_refl _ refl y(2)])
      have "flinks (cells s) (node_next (cells s) (fst r)) rs"
        using flinks_suffix [of "cells s" "base s" "xs @ [c]" r rs] w(5) y(1) by simp
      then have f: "flinks ?m (node_next (cells s) (fst r)) rs" using keep(2) flinks_same flinks_roomy by blast
      have "good ?c" using g(1,2) ends y(2) unfolding good_def fst_conv snd_conv by auto
      moreover have "node_next ?m (fst c) = node_next (cells s) (fst r)" "node_size ?m (fst c) = wsize ?c"
        using g(1) by (auto simp: connect_def node_next_def node_size_def setNode_def good_def)
      ultimately show "flinks ?m (fst c) (?c # rs)" using f by simp
      show "{c, r} \<inter> (set (xs @ rs) \<union> us) = {}"
        using heap_wf_distinct [OF h] heap_wf_distinct [of s "xs @ [c]" r rs us] h y(1) by auto
      show "lined_up (xs @ ?c # rs)" using lined_up_merge [of xs c r rs] w(6) y by simp
    qed (use keep(1) w(8) in \<open>auto simp: y\<close>)
    moreover have "join_next c ys = ?c # rs" using y by (simp add: join_next_def)
    moreover have "same_on us (cells s) ?m" by (rule same_on_mono [OF keep(1)]) simp
    ultimately show ?thesis by (intro exI [of _ ?m]) simp
  next
    case False
    then have "merge_right (fst c) (first_of ys) s = s" "join_next c ys = c # ys"
      using sz [of c] by (auto simp: merge_right_def first_of_def join_next_def split: list.splits)
    then show ?thesis using h by (intro exI [of _ "cells s"]) simp
  qed
qed


lemma heap_wf_out:
  assumes h: "heap_wf s fs us" and b: "b \<in> us" and c: "c \<in> set fs \<union> (us - {b})"
  shows "fst c \<noteq> fst b" "fst b \<notin> span c" "fst b + 8 \<notin> span c"
proof -
  have "c \<noteq> b" "c \<in> set fs \<union> us" using c heap_wfD(8) [OF h] b by auto
  then have "span b \<inter> span c = {}" using heap_wfD(7) [OF h] b unfolding tiles_def fam_def by blast
  moreover have "fst c \<in> span c" using heap_wf_good(1) [OF h \<open>c \<in> set fs \<union> us\<close>] by (simp add: span_def good_def)
  moreover have "fst b \<in> span b" "fst b + 8 \<in> span b"
    using heap_wf_good(1) [OF h, of b] b by (auto simp: span_def good_def)
  ultimately show "fst c \<noteq> fst b" "fst b \<notin> span c" "fst b + 8 \<notin> span c" by (metis disjoint_iff)+
qed

lemma heap_wf_size:
  assumes "heap_wf s fs us" "d \<in> set fs"
  shows "node_size (cells s) (fst d) = wsize d" "unat (wsize d) + 16 = snd d"
  using flinks_pos [OF heap_wfD(5) [OF assms(1)] assms(2)] flinks_size [OF heap_wfD(5) [OF assms(1)] assms(2)] by simp_all

definition marked :: "nat \<times> nat \<Rightarrow> mem_state \<Rightarrow> mem_state" where
  "marked b s = s\<lparr>cells := setNode (fst b) (wsize b) (cells s)\<rparr>"

lemma merge_left_touch:
  assumes h: "heap_wf s (xs @ p # ys) us" and b: "b \<in> us" and l: "lined_up (xs @ p # b # ys)" and touch: "fst p + snd p = fst b"
  shows "\<exists>t. merge_left (fst b) (fst p) (first_of ys) (marked b s) = (fst p, t) \<and>
     heap_wf t (xs @ (fst p, snd p + snd b) # ys) (us - {b}) \<and>
     same_on (us - {b}) (cells s) (cells t) \<and> hptr t = hptr s \<and> totsize t = totsize s"
proof -
  note w = heap_wfD [OF h]
  have p: "p \<in> set (xs @ p # ys) \<union> (us - {b})" "p \<in> set (xs @ p # ys)" by simp_all
  have gp: "good p" and gb: "good b" using heap_wf_good(1) [OF h, of p] heap_wf_good(1) [OF h, of b] b by auto
  then have g: "16 \<le> snd p" "0 < fst p" "16 \<le> snd b" by (auto simp: good_def)
  let ?c = "(fst p, snd p + snd b)"
  let ?m = "setNode (fst p) (wsize ?c) (cells (marked b s))"
  have same: "same_on (set xs \<union> set ys \<union> (us - {b})) (cells s) ?m"
    unfolding same_on_def
  proof (intro ballI)
    fix d a assume d: "d \<in> set xs \<union> set ys \<union> (us - {b})" "a \<in> span d"
    then have "a \<notin> span p" using heap_wf_apart [OF h, of d a] by auto
    moreover have "a \<noteq> fst b + 8" using heap_wf_out(3) [OF h b, of d] d by auto
    ultimately show "?m a = cells s a" using g by (auto simp: marked_def setNode_def span_def)
  qed
  have "node_size (cells (marked b s)) (fst p) = wsize p" "node_size (cells (marked b s)) (fst b) = wsize b"
    using heap_wf_out(1) [OF h b p(1)] heap_wf_size(1) [OF h p(2)] by (simp_all add: marked_def)
  then have e: "merge_left (fst b) (fst p) (first_of ys) (marked b s) = (fst p, s\<lparr>cells := ?m\<rparr>)"
    using touch heap_wf_size(2) [OF h p(2)] g wsize_merge [of p b] by (simp add: merge_left_def Let_def marked_def)
  have wf: "heap_wf (s\<lparr>cells := ?m\<rparr>) (xs @ ?c # ys) (us - {b})"
  proof (rule heap_wf_grow [where q = b, OF h _ _ refl touch])
    have ends: "snd p + snd b \<le> totsize s"
      using tiles_good(4) [OF w(7) _ w(2-4), of p] tiles_good(5) [OF w(7) _ w(2-4), of b] touch b by auto
    have f: "flinks (cells s) (node_next (cells s) (fst p)) ys" using flinks_suffix [OF w(5)] .
    have "flinks ?m (node_next (cells s) (fst p)) ys"
      by (rule flinks_same [OF f same_on_mono [OF same] flinks_roomy [OF f]]) auto
    moreover have "good ?c" using gp g ends w(4) unfolding good_def fst_conv snd_conv by auto
    moreover have "fst p \<noteq> fst b + 8" using heap_wf_out(3) [OF h b p(1)] g by (auto simp: span_def)
    then have "node_next ?m (fst p) = node_next (cells s) (fst p)" "node_size ?m (fst p) = wsize ?c"
      by (simp_all add: node_next_def setNode_def marked_def node_size_def)
    ultimately show "flinks ?m (fst p) (?c # ys)" by simp
    show "lined_up (xs @ ?c # ys)" using lined_up_merge [OF l touch] .
    show "{p, b} \<inter> (set (xs @ ys) \<union> (us - {b})) = {}" using heap_wf_distinct [OF h] w(8) b by auto
    show "same_on (set xs \<union> (us - {b})) (cells s) ?m" by (rule same_on_mono [OF same]) auto
  qed (use w(8) b in auto)
  have "same_on (us - {b}) (cells s) ?m" by (rule same_on_mono [OF same]) auto
  then show ?thesis using e wf by (intro exI [of _ "s\<lparr>cells := ?m\<rparr>"]) simp
qed

lemma flinks_tail:
  assumes "flinks m p (xs @ ys)"
  shows "flinks m (first_of ys) ys"
  using assms
proof (induction xs arbitrary: p)
  case Nil
  then show ?case using flinks_first [of m p ys] by simp
qed auto

lemma merge_left_new:
  assumes h: "heap_wf s (xs @ ys) us" and b: "b \<in> us" and l: "lined_up (xs @ b # ys)"
    and touch: "xs \<noteq> [] \<Longrightarrow> fst (last xs) + snd (last xs) \<noteq> fst b"
  shows "\<exists>t. merge_left (fst b) (last_of xs) (first_of ys) (marked b s) = (fst b, t) \<and> heap_wf t (xs @ b # ys) (us - {b}) \<and>
     same_on (us - {b}) (cells s) (cells t) \<and> hptr t = hptr s \<and> totsize t = totsize s"
proof -
  note w = heap_wfD [OF h]
  have good: "good d" if "d \<in> set (xs @ ys) \<union> us" for d using heap_wf_good(1) [OF h that] .
  have gb: "0 < fst b" "16 \<le> snd b" using good [of b] b by (simp_all add: good_def)
  let ?m1 = "(cells (marked b s))(fst b := of_nat (first_of ys))"
  let ?m = "set_link xs (fst b) ?m1"
  let ?t = "s\<lparr>cells := ?m, base := if xs = [] then fst b else base s\<rparr>"
  have e: "merge_left (fst b) (last_of xs) (first_of ys) (marked b s) = (fst b, ?t)"
  proof (cases "xs = []")
    case True
    then have "base s = first_of ys" using flinks_first [OF w(5)] by simp
    then show ?thesis using True gb by (simp add: merge_left_def Let_def last_of_def connect_def set_link_def marked_def del: fun_upd_apply)
  next
    case n: False
    then have p: "last xs \<in> set (xs @ ys) \<union> (us - {b})" "last xs \<in> set (xs @ ys)" by simp_all
    have "node_size (cells (marked b s)) (last_of xs) = wsize (last xs)"
      using heap_wf_out(1) [OF h b p(1)] heap_wf_size(1) [OF h p(2)] n by (simp add: marked_def last_of_def)
    then have "last_of xs + unat (node_size (cells (marked b s)) (last_of xs)) + 16 \<noteq> fst b"
      using heap_wf_size(2) [OF h p(2)] touch n by (simp add: last_of_def)
    moreover have "last_of xs \<noteq> 0" using good [of "last xs"] n by (auto simp: last_of_def good_def)
    ultimately show ?thesis using n gb
      unfolding merge_left_def Let_def by (simp add: connect_def set_link_def marked_def del: fun_upd_apply)
  qed
  have same: "same_on (set (xs @ ys) \<union> (us - {b})) (cells s) ?m1"
    unfolding same_on_def using heap_wf_out(2,3) [OF h b] by (auto simp: marked_def setNode_def)
  note fy = flinks_tail [OF w(5)]
  have "flinks ?m1 (first_of ys) ys" by (rule flinks_same [OF fy same_on_mono [OF same] flinks_roomy [OF fy]]) auto
  moreover have "node_size ?m1 (fst b) = wsize b" "node_next ?m1 (fst b) = first_of ys"
    using flinks_bound [OF fy] by (simp_all add: marked_def setNode_def node_size_def node_next_def unat_of_nat take_bit_nat_eq_self)
  ultimately have fb: "flinks ?m1 (fst b) (b # ys)" using good [of b] b by simp
  have sx: "same_on (set xs) (cells s) ?m1" by (rule same_on_mono [OF same]) auto
  have "flinks (cells ?t) (base ?t) (xs @ b # ys)"
    using flinks_link [OF w(5) fb flinks_bound [OF fb] sx l] by auto
  moreover have keep: "same_on (us - {b}) (cells s) (cells ?t)"
  proof -
    have "fam (set xs \<union> (us - {b}))" "set xs \<inter> (us - {b}) = {}" "roomy (set xs)"
      using w(7,8) fam_mono [of "set (xs @ ys) \<union> us" "set xs \<union> (us - {b})"] by (auto simp: tiles_def)
    then show ?thesis using same_on_link [OF same_on_mono [OF same]] by simp
  qed
  moreover have "header_ok (cells ?t) c" if "c \<in> us - {b}" for c
    using that w(7) w(9) [of c] same_onD [OF keep, of c] roomy_mono [of us "us - {b}"] by (auto simp: header_ok_def tiles_def)
  moreover have "set (xs @ b # ys) \<union> (us - {b}) = set (xs @ ys) \<union> us" using b by auto
  then have "tiles (region ?t) (set (xs @ b # ys) \<union> (us - {b}))" using w(7) by (simp add: region_def)
  moreover have "set (xs @ b # ys) \<inter> (us - {b}) = {}" using w(8) by auto
  ultimately have "heap_wf ?t (xs @ b # ys) (us - {b})" using w(1-4) l unfolding heap_wf_def by simp
  then show ?thesis using e keep by (intro exI [of _ ?t]) simp
qed

lemma merge_left_step:
  assumes h: "heap_wf s (xs @ ys) us" and b: "b \<in> us" and l: "lined_up (xs @ b # ys)"
  defines "touch \<equiv> xs \<noteq> [] \<and> fst (last xs) + snd (last xs) = fst b"
  shows "\<exists>t. merge_left (fst b) (last_of xs) (first_of ys) (marked b s) = (if touch then last_of xs else fst b, t) \<and>
     heap_wf t ((if touch then butlast xs @ [(fst (last xs), snd (last xs) + snd b)] else xs @ [b]) @ ys) (us - {b}) \<and>
     same_on (us - {b}) (cells s) (cells t) \<and> hptr t = hptr s \<and> totsize t = totsize s"
proof (cases touch)
  case True
  then obtain zs p where x: "xs = zs @ [p]" "fst p + snd p = fst b" by (metis append_butlast_last_id touch_def)
  show ?thesis using merge_left_touch [of s zs p ys us b] h b l x True by (simp add: last_of_def)
next
  case False
  then have n: "xs \<noteq> [] \<Longrightarrow> fst (last xs) + snd (last xs) \<noteq> fst b" by (simp add: touch_def)
  show ?thesis unfolding if_not_P [OF False] using merge_left_new [OF h b l n] by simp
qed

lemma apart_join_next:
  assumes "lined_up (b # ys)" "apart ys"
  shows "apart (join_next b ys)" "c \<in> set (join_next b ys) \<Longrightarrow> fst b \<le> fst c"
proof -
  have "apart (join_next b ys) \<and> (\<forall>c \<in> set (join_next b ys). fst b \<le> fst c)"
  proof (cases ys)
    case (Cons r rs)
    then have r: "fst b + snd b \<le> fst r" "\<forall>c \<in> set rs. fst r + snd r < fst c" "apart rs"
      using assms by (simp_all add: lined_up_def apart_def)
    have "fst b \<le> fst c" "fst b + snd b < fst c" if "c \<in> set rs" for c using r(1,2) that by fastforce+
    then show ?thesis using r Cons by (auto simp: join_next_def apart_def)
  qed (simp add: join_next_def apart_def)
  then show "apart (join_next b ys)" "c \<in> set (join_next b ys) \<Longrightarrow> fst b \<le> fst c" by blast+
qed

lemma apart_append:
  assumes "apart xs" "apart zs" "\<And>d. d \<in> set xs \<Longrightarrow> fst d + snd d < k" "\<And>c. c \<in> set zs \<Longrightarrow> k \<le> fst c"
  shows "apart (xs @ zs)"
  using assms less_le_trans unfolding apart_def sorted_wrt_append by blast

lemma apart_put_back:
  assumes "apart (xs @ ys)" "lined_up (xs @ b # ys)"
  shows "apart (if xs \<noteq> [] \<and> fst (last xs) + snd (last xs) = fst b then butlast xs @ join_next (fst (last xs), snd (last xs) + snd b) ys
                 else xs @ join_next b ys)"
proof (cases "xs \<noteq> [] \<and> fst (last xs) + snd (last xs) = fst b")
  case True
  then obtain zs p where x: "xs = zs @ [p]" "fst p + snd p = fst b" by (metis append_butlast_last_id)
  have l: "lined_up ((fst p, snd p + snd b) # ys)" "apart ys" "apart zs"
    using assms x by (auto simp: lined_up_def apart_def sorted_wrt_append)
  have e: "fst c + snd c < fst p" if "c \<in> set zs" for c using assms(1) that x(1) by (simp add: apart_def sorted_wrt_append)
  have "apart (zs @ join_next (fst p, snd p + snd b) ys)"
    by (rule apart_append [OF l(3) apart_join_next(1) [OF l(1,2)] e]) (assumption, rule apart_join_next(2) [OF l(1,2), unfolded fst_conv])
  then show ?thesis using True x by simp
next
  case False
  have l: "lined_up (b # ys)" "apart ys" "apart xs" using assms by (auto simp: lined_up_def apart_def sorted_wrt_append)
  have e: "fst c + snd c < fst b" if "c \<in> set xs" for c
  proof -
    note c = that
    obtain zs p where x: "xs = zs @ [p]" using c by (cases xs rule: rev_cases) auto
    have "fst p + snd p < fst b" using assms(2) False x by (auto simp: lined_up_def sorted_wrt_append)
    moreover have "c = p \<or> fst c + snd c < fst p" using that assms(1) x by (auto simp: apart_def sorted_wrt_append)
    ultimately show ?thesis by auto
  qed
  have "apart (xs @ join_next b ys)"
    by (rule apart_append [OF l(3) apart_join_next(1) [OF l(1,2)] e]) (assumption, rule apart_join_next(2) [OF l(1,2)])
  then show ?thesis unfolding if_not_P [OF False] .
qed

lemma if_append: "(if P then xs @ [p] else zs @ [b]) @ ys = (if P then xs else zs) @ (if P then p else b) # ys"
  by simp

lemma mem_free_step:
  assumes h: "heap_ok s fs us" and b: "b \<in> us"
  shows "\<exists>t. mem_free (fst b + 8) s = Some (0, t) \<and> heap_ok t (put_back fs b) (us - {b}) \<and>
     same_on (us - {b}) (cells s) (cells t) \<and> hptr t = hptr s \<and> totsize t = totsize s"
proof -
  have w: "heap_wf s fs us" "apart fs" using h by (simp_all add: heap_ok_def)
  let ?xs = "takeWhile (\<lambda>c. fst c + snd c \<le> fst b) fs" and ?ys = "dropWhile (\<lambda>c. fst c + snd c \<le> fst b) fs"
  let ?s1 = "marked b s"
  let ?touch = "?xs \<noteq> [] \<and> fst (last ?xs) + snd (last ?xs) = fst b"
  let ?p = "(fst (last ?xs), snd (last ?xs) + snd b)"
  have f: "fs = ?xs @ ?ys" and l: "lined_up (?xs @ b # ?ys)" using heap_wf_sorted [OF w(1) b] by auto
  have gb: "16 \<le> snd b" using heap_wf_good(1) [OF w(1)] b by (auto simp: good_def)
  have hd: "upper (cells s (fst b)) = MAGIC" "lower (cells s (fst b)) + 8 - 16 = wsize b"
    using heap_wfD(9) [OF w(1) b] wsize_header [OF gb] by (simp_all add: header_ok_def)
  have fs: "flinks (cells ?s1) (base s) fs"
  proof (rule flinks_same [OF heap_wfD(5) [OF w(1)] _ flinks_roomy [OF heap_wfD(5) [OF w(1)]]])
    have "fst b + 8 \<notin> span c" if "c \<in> set fs" for c
      using famD [of "set fs \<union> us" b c "fst b + 8"] heap_wfD(7,8) [OF w(1)] that b gb by (auto simp: tiles_def span_def)
    then show "same_on (set fs) (cells s) (cells ?s1)" by (simp add: same_on_def setNode_def marked_def)
  qed
  note n = neighbours_list [OF fs, of "fst b" 0]
  have "heap_wf s (?xs @ ?ys) us" using w(1) f by simp
  from merge_left_step [OF this b l] obtain t1 where t1:
    "merge_left (fst b) (last_of ?xs) (first_of ?ys) ?s1 = (if ?touch then last_of ?xs else fst b, t1)"
    "heap_wf t1 ((if ?touch then butlast ?xs @ [?p] else ?xs @ [b]) @ ?ys) (us - {b})"
    "same_on (us - {b}) (cells s) (cells t1)" "hptr t1 = hptr s" "totsize t1 = totsize s" by blast
  let ?x = "if ?touch then butlast ?xs else ?xs" and ?c = "if ?touch then ?p else b"
  have pb: "put_back fs b = ?x @ join_next ?c ?ys" by (simp add: put_back_def Let_def)
  have "heap_wf t1 (?x @ ?c # ?ys) (us - {b})" using t1(2) unfolding if_append .
  from merge_right_step [OF this] obtain m where m: "merge_right (fst ?c) (first_of ?ys) t1 = t1\<lparr>cells := m\<rparr>"
    "heap_wf (t1\<lparr>cells := m\<rparr>) (?x @ join_next ?c ?ys) (us - {b})" "same_on (us - {b}) (cells t1) m" by blast
  have "mem_free (fst b + 8) s = Some (0, t1\<lparr>cells := m\<rparr>)"
  proof -
    have nb: "neighbours (cells ?s1) (fst b) 0 (base ?s1) = Some (last_of ?xs, first_of ?ys)"
      using n unfolding before_def last_of_def marked_def by (simp split: if_split_asm)
    have "mem_free (fst b + 8) s = (case merge_left (fst b) (last_of ?xs) (first_of ?ys) ?s1 of (t, s) \<Rightarrow> Some (0, merge_right t (first_of ?ys) s))"
      unfolding mem_free_def Let_def add_diff_cancel_right' hd
      using heap_wfD(1) [OF w(1)] nb by (simp add: marked_def)
    moreover have "(if ?touch then last_of ?xs else fst b) = fst ?c" by (simp add: last_of_def)
    ultimately show ?thesis using m(1) t1(1) by simp
  qed
  moreover have "apart (put_back fs b)" using apart_put_back [OF _ l] w(2) f unfolding put_back_def Let_def by simp
  ultimately show ?thesis using m(2) t1(4,5) same_on_trans [OF t1(3) m(3)] pb
    by (intro exI [of _ "t1\<lparr>cells := m\<rparr>"]) (simp add: heap_ok_def)
qed


section \<open>Every run\<close>

text \<open>What \<open>mmap\<close> and the page size must be, and that \<open>int\<close> does not overflow.\<close>

definition region_size :: "int \<Rightarrow> int \<Rightarrow> nat" where
  "region_size page n = nat ((n + page - 1) div page * page)"

definition good_region :: "int \<Rightarrow> int \<Rightarrow> nat \<Rightarrow> bool" where
  "good_region page n h \<longleftrightarrow>
     16 \<le> page \<and> 8 dvd page \<and> 0 < n \<and> region_size page n < 2 ^ 31 \<and> 0 < h \<and> 8 dvd h \<and> h + region_size page n < 2 ^ 64"

lemma region_size_props:
  assumes "16 \<le> page" "8 dvd page" "0 < n"
  shows "16 \<le> region_size page n" "8 dvd region_size page n"
proof -
  let ?k = "(n + page - 1) div page"
  have "1 \<le> ?k" using assms by (simp add: pos_imp_zdiv_pos_iff int_one_le_iff_zero_less)
  then have "1 * page \<le> ?k * page" using assms by (intro mult_right_mono) simp_all
  then have "16 \<le> ?k * page" using assms(1) by linarith
  then show "16 \<le> region_size page n" unfolding region_size_def le_nat_iff by simp
  have "int 8 dvd ?k * page" using assms(2) by simp
  moreover have "0 \<le> ?k * page" using \<open>1 * page \<le> ?k * page\<close> assms by linarith
  ultimately have "int 8 dvd int (region_size page n)" by (simp add: region_size_def)
  then show "8 dvd region_size page n" by (simp only: int_dvd_int_iff)
qed

lemma mem_init_heap:
  assumes "called s = 0" "good_region page n h"
  shows "\<exists>t. mem_init page (Some h) n s = (0, t) \<and> heap_ok t [(h, region_size page n)] {} \<and> hptr t = h \<and> totsize t = region_size page n"
proof -
  have g: "16 \<le> page" "8 dvd page" "0 < n" "region_size page n < 2 ^ 31" "0 < h" "8 dvd h" "h + region_size page n < 2 ^ 64"
    using assms(2) by (simp_all add: good_region_def)
  note r = region_size_props [OF g(1-3)]
  define k where "k = region_size page n"
  have n: "nat ((n + page - 1) div page * page) = k" by (simp add: k_def region_size_def)
  have i: "(n + page - 1) div page * page = int k" using r(1) n by (simp add: k_def)
  have w: "of_int (int k) - 16 = wsize (h, k)"
    using r(1) unfolding wsize_def k_def [symmetric] by simp
  let ?m = "setNode h (wsize (h, k)) (\<lambda>a. if h \<le> a \<and> a < h + k then 0 else cells s a)"
  let ?t = "s\<lparr>totsize := k, called := Suc (called s), hptr := h, base := h, cells := ?m\<rparr>"
  have e: "mem_init page (Some h) n s = (0, ?t)"
    using assms(1) g(3) unfolding mem_init_def Let_def n i w nat_int by (simp cong: if_cong)
  have "node_next ?m h = 0" using r(1) by (simp add: node_next_def setNode_def k_def)
  then have "flinks ?m h [(h, k)]" using g r(1) by (simp add: good_def k_def)
  moreover have "tiles {h ..< h + k} {(h, k)}" using g r by (simp add: tiles_def span_def k_def)
  ultimately have "heap_ok ?t [(h, k)] {}"
    using g unfolding heap_ok_def heap_wf_def region_def by (simp add: lined_up_def apart_def k_def)
  then show ?thesis using e by (simp add: k_def)
qed

text \<open>A client that allocates and frees: \<open>L\<close> holds the pointers it owns with the sizes it asked for.\<close>

inductive heap_run :: "int \<Rightarrow> int \<Rightarrow> nat \<Rightarrow> mem_state \<Rightarrow> (nat \<times> int) set \<Rightarrow> bool" for page n h where
  init: "called s = 0 \<Longrightarrow> mem_init page (Some h) n s = (0, t) \<Longrightarrow> heap_run page n h t {}"
| alloc: "heap_run page n h s L \<Longrightarrow> 1 \<le> k \<Longrightarrow> k < 2 ^ 31 \<Longrightarrow> mem_alloc k st s = Some (p, t) \<Longrightarrow> p \<noteq> 0 \<Longrightarrow>
    heap_run page n h t (insert (p, k) L)"
| refused: "heap_run page n h s L \<Longrightarrow> 1 \<le> k \<Longrightarrow> k < 2 ^ 31 \<Longrightarrow> mem_alloc k st s = Some (0, t) \<Longrightarrow> heap_run page n h t L"
| free: "heap_run page n h s L \<Longrightarrow> (p, k) \<in> L \<Longrightarrow> mem_free p s = Some (r, t) \<Longrightarrow> heap_run page n h t (L - {(p, k)})"

definition client_view :: "(nat \<times> int) set \<Rightarrow> (nat \<times> nat) set \<Rightarrow> bool" where
  "client_view L us \<longleftrightarrow> (\<forall>x \<in> L. \<exists>b \<in> us. fst x = fst b + 8 \<and> nat (snd x) + 8 \<le> snd b) \<and>
     (\<forall>b \<in> us. \<exists>k. (fst b + 8, k) \<in> L) \<and> inj_on fst L"


lemma client_view_alloc:
  assumes "client_view L us" "fam (insert g us)" "roomy (insert g us)" "g \<notin> us" "nat k + 8 \<le> snd g"
  shows "client_view (insert (fst g + 8, k) L) (insert g us)"
proof -
  have "fst g + 8 \<noteq> fst x" if "x \<in> L" for x
  proof -
    obtain b where b: "b \<in> us" "fst x = fst b + 8" using assms(1) \<open>x \<in> L\<close> unfolding client_view_def by blast
    then have "fst b \<in> span b" "fst g \<in> span g" "b \<noteq> g"
      using assms(4) roomy_cells [OF assms(3), of b] roomy_cells [OF assms(3), of g] by auto
    then show ?thesis using famD [OF assms(2), of g b "fst g"] b by auto
  qed
  then have "fst g + 8 \<notin> fst ` L" by (auto simp: image_iff)
  then have "inj_on fst (insert (fst g + 8, k) L)" using assms(1) by (auto simp: client_view_def)
  then show ?thesis using assms(1,5) unfolding client_view_def by auto
qed

lemma client_view_free:
  assumes "client_view L us" "(p, k) \<in> L" "fam us" "roomy us"
  shows "\<exists>b \<in> us. p = fst b + 8 \<and> client_view (L - {(p, k)}) (us - {b})"
proof -
  obtain b where b: "b \<in> us" "p = fst b + 8" using assms by (auto simp: client_view_def)
  have inj: "c = b" if "c \<in> us" "fst c = fst b" for c
    using famD [OF assms(3) b(1) that(1), of "fst b"] roomy_cells [OF assms(4)] b(1) that by (metis)
  have 1: "\<exists>c \<in> us - {b}. fst x = fst c + 8 \<and> nat (snd x) + 8 \<le> snd c" if "x \<in> L - {(p, k)}" for x
  proof -
    obtain c where c: "c \<in> us" "fst x = fst c + 8" "nat (snd x) + 8 \<le> snd c" using assms(1) \<open>x \<in> L - {(p, k)}\<close> by (auto simp: client_view_def)
    have "fst x \<noteq> p" using assms(1,2) \<open>x \<in> L - {(p, k)}\<close> unfolding client_view_def inj_on_def by force
    then show ?thesis using c b(2) by auto
  qed
  have 2: "\<exists>j. (fst c + 8, j) \<in> L - {(p, k)}" if "c \<in> us - {b}" for c
  proof -
    obtain j where "(fst c + 8, j) \<in> L" using assms(1) \<open>c \<in> us - {b}\<close> by (auto simp: client_view_def)
    moreover have "fst c + 8 \<noteq> p" using inj [of c] \<open>c \<in> us - {b}\<close> b(2) by auto
    ultimately show ?thesis by auto
  qed
  have "inj_on fst (L - {(p, k)})" using assms(1) by (auto simp: client_view_def inj_on_def)
  then show ?thesis using b 1 2 unfolding client_view_def by blast
qed

text \<open>Every state of a run has a free list and a set of blocks that share out the region.\<close>

lemma heap_ok_us:
  assumes "heap_ok s fs us"
  shows "fam us" "roomy us"
  using heap_wfD(7) [of s fs us] assms fam_mono [of "set fs \<union> us" us] by (auto simp: heap_ok_def tiles_def)

lemma heap_run_invariant:
  assumes "heap_run page n h s L" "good_region page n h"
  shows "\<exists>fs us. heap_ok s fs us \<and> client_view L us \<and> hptr s = h \<and> totsize s = region_size page n"
  using assms
proof (induction rule: heap_run.induct)
  case (init s t)
  then show ?case using mem_init_heap [of s page n h] by (auto simp: client_view_def)
next
  case (alloc s L k st p t)
  then obtain fs us where h: "heap_ok s fs us" "client_view L us" "hptr s = h" "totsize s = region_size page n" by blast
  from mem_alloc_step [OF h(1) alloc.hyps(2,3), of st] alloc.hyps(4,5) obtain xs b ys g rest where
    g: "fs = xs @ b # ys" "right_choice st (need_of k) xs b ys" "cut b (need_of k) = (g, rest)" "p = fst b + 8"
    "heap_ok t (xs @ rest @ ys) (insert g us)" "hptr t = hptr s" "totsize t = totsize s" by auto
  have e: "fst g = fst b" "need_of k \<le> snd g" using g(2,3) by (auto simp: right_choice_def cut_def split: if_splits)
  have w: "heap_wf s fs us" using h(1) by (simp add: heap_ok_def)
  have gu: "g \<notin> us"
  proof
    assume u: "g \<in> us"
    then have "fst b \<in> span g" "g \<noteq> b" using roomy_cells [OF heap_ok_us(2) [OF h(1)] u] e(1) heap_wfD(8) [OF w] g(1) by auto
    moreover have "fst b \<in> span b" using heap_wf_good(1) [OF w, of b] g(1) by (auto simp: span_def good_def)
    ultimately show False using famD [of "set fs \<union> us" g b "fst b"] heap_wfD(7) [OF w] u g(1) by (auto simp: tiles_def)
  qed
  have "client_view (insert (fst g + 8, k) L) (insert g us)"
    by (rule client_view_alloc [OF h(2) heap_ok_us [OF g(5)] gu]) (use need_of_props(3) [OF alloc.hyps(2)] e(2) in linarith)
  then show ?case using g(4,5,6,7) h(3,4) e(1) by auto
next
  case (refused s L k st t)
  then obtain fs us where h: "heap_ok s fs us" "client_view L us" "hptr s = h" "totsize s = region_size page n" by blast
  from mem_alloc_step [OF h(1) refused.hyps(2,3), of st] refused.hyps(4) have "t = s\<lparr>m_error := E_NO_SPACE\<rparr>" by auto
  then show ?case using h by (auto simp: heap_ok_def heap_wf_def region_def)
next
  case (free s L p k r t)
  then obtain fs us where h: "heap_ok s fs us" "client_view L us" "hptr s = h" "totsize s = region_size page n" by blast
  obtain b where b: "b \<in> us" "p = fst b + 8" "client_view (L - {(p, k)}) (us - {b})"
    using client_view_free [OF h(2) free.hyps(2) heap_ok_us [OF h(1)]] by blast
  show ?case using mem_free_step [OF h(1) b(1)] free.hyps(3) h(3,4) b(2,3) by auto
qed


lemma client_view_sep:
  assumes "client_view L us" "fam us" "x \<in> L" "y \<in> L" "x \<noteq> y"
  shows "{fst x ..< fst x + nat (snd x)} \<inter> {fst y ..< fst y + nat (snd y)} = {}"
proof -
  obtain b c where b: "b \<in> us" "fst x = fst b + 8" "nat (snd x) + 8 \<le> snd b" and c: "c \<in> us" "fst y = fst c + 8" "nat (snd y) + 8 \<le> snd c"
    using assms unfolding client_view_def by blast
  have "fst x \<noteq> fst y" using assms(1,3-5) by (auto simp: client_view_def inj_on_def)
  then have "b \<noteq> c" using b(2) c(2) by auto
  then have "span b \<inter> span c = {}" using assms(2) b(1) c(1) unfolding fam_def by blast
  moreover have "{fst x ..< fst x + nat (snd x)} \<subseteq> span b" "{fst y ..< fst y + nat (snd y)} \<subseteq> span c"
    using b(2,3) c(2,3) by (auto simp: span_def)
  ultimately show ?thesis by blast
qed

lemma one_block:
  assumes "apart fs" "tiles {h ..< h + k} (set fs)" "k \<noteq> 0"
  shows "fs = [(h, k)]"
proof (cases fs)
  case Nil
  then show ?thesis using assms(2,3) by (simp add: tiles_def)
next
  case (Cons b bs)
  have cover: "\<Union> (span ` set fs) = {h ..< h + k}" and r: "roomy (set fs)" using assms(2) by (simp_all add: tiles_def)
  have after: "fst b + snd b < fst c" if "c \<in> set bs" for c using assms(1) that Cons by (simp add: apart_def)
  have "bs = []"
  proof (rule ccontr)
    assume "bs \<noteq> []"
    then obtain c where c: "c \<in> set bs" by (cases bs) auto
    have "fst b \<in> {h ..< h + k}" "fst c \<in> {h ..< h + k}" unfolding cover [symmetric]
      using roomy_cells [OF r, of b] roomy_cells [OF r, of c] c Cons by auto
    then have "fst b + snd b \<in> {h ..< h + k}" using after [OF c] by simp
    then obtain d where "d \<in> set fs" "fst b + snd b \<in> span d" unfolding cover [symmetric] by blast
    then show False using after [of d] Cons by (auto simp: span_def)
  qed
  then have "{fst b ..< fst b + snd b} = {h ..< h + k}" using cover Cons by (simp add: span_def)
  moreover have "0 < snd b" using r Cons by (simp add: roomy_def)
  ultimately have "b = (h, k)" using assms(3) by (simp add: atLeastLessThan_eq_iff prod_eq_iff)
  then show ?thesis using Cons \<open>bs = []\<close> by simp
qed

section \<open>Properties\<close>

text \<open>C25: In every state that one mem_init and then calls of mem_alloc for 1 to 2^31 - 1 bytes and of mem_free on
  owned blocks can reach, the blocks a client owns are aligned, lie in the region and do not overlap.  (A request
  for no bytes is left out: \<open>mem_alloc_zero_breaks_heap\<close> below shows what it does.)\<close>

theorem mem_blocks_disjoint:
  assumes "heap_run page n h s L" "good_region page n h"
  shows "(\<forall>x \<in> L. 8 dvd fst x \<and> h + 8 \<le> fst x \<and> fst x + nat (snd x) \<le> h + region_size page n) \<and>
     (\<forall>x \<in> L. \<forall>y \<in> L. x \<noteq> y \<longrightarrow> {fst x ..< fst x + nat (snd x)} \<inter> {fst y ..< fst y + nat (snd y)} = {})"
proof -
  obtain fs us where h: "heap_ok s fs us" "client_view L us" "hptr s = h" "totsize s = region_size page n"
    using heap_run_invariant [OF assms] by blast
  have w: "heap_wf s fs us" using h(1) by (simp add: heap_ok_def)
  have "8 dvd fst x \<and> h + 8 \<le> fst x \<and> fst x + nat (snd x) \<le> h + region_size page n" if "x \<in> L" for x
  proof -
    obtain b where b: "b \<in> us" "fst x = fst b + 8" "nat (snd x) + 8 \<le> snd b" using h(2) \<open>x \<in> L\<close> unfolding client_view_def by blast
    then have "b \<in> set fs \<union> us" by simp
    note tiles_good [OF heap_wfD(7) [OF w] this heap_wfD(2-4) [OF w]]
    then show ?thesis using b(2,3) h(3,4) by auto
  qed
  then show ?thesis using client_view_sep [OF h(2) heap_ok_us(1) [OF h(1)]] by blast
qed

text \<open>C28: When a client that asked for 1 to 2^31 - 1 bytes each time has freed every block, the whole region is one
  free block again: freeing merges neighbours.\<close>

theorem mem_all_freed:
  assumes "heap_run page n h s {}" "good_region page n h"
  shows "base s = h \<and> node_next (cells s) h = 0 \<and> unat (node_size (cells s) h) + 16 = region_size page n"
proof -
  obtain fs us where h: "heap_ok s fs us" "client_view {} us" "hptr s = h" "totsize s = region_size page n"
    using heap_run_invariant [OF assms] by blast
  have "us = {}" using h(2) by (auto simp: client_view_def)
  have w: "heap_wf s fs us" "apart fs" using h(1) by (simp_all add: heap_ok_def)
  have "tiles {h ..< h + region_size page n} (set fs)" "region_size page n \<noteq> 0"
    using heap_wfD(7) [OF w(1)] \<open>us = {}\<close> h(3,4) assms(2) region_size_props(1) [of page n]
    by (simp_all add: region_def good_region_def)
  then have "fs = [(h, region_size page n)]" using one_block w(2) by blast
  then show ?thesis using h(1) flinks_size [of "cells s" "base s" fs] by (auto simp: heap_ok_def heap_wf_def)
qed


text \<open>C26: A request that some free block can hold returns the block of the style asked for, cut to size; the rest
  stays free, other owned blocks are untouched.  When no free block is large enough the answer is NULL.\<close>

theorem mem_alloc_correct:
  assumes "heap_ok s fs us" "1 \<le> n" "n < 2 ^ 31"
  shows "(\<exists>xs b ys g rest t.
      fs = xs @ b # ys \<and> right_choice st (need_of n) xs b ys \<and> cut b (need_of n) = (g, rest) \<and>
      mem_alloc n st s = Some (fst b + 8, t) \<and> heap_ok t (xs @ rest @ ys) (insert g us) \<and> same_on us (cells s) (cells t) \<and>
      hptr t = hptr s \<and> totsize t = totsize s) \<or>
    (st = OTHER \<or> (\<forall>b \<in> set fs. snd b < need_of n)) \<and> mem_alloc n st s = Some (0, s\<lparr>m_error := E_NO_SPACE\<rparr>)"
  by (rule mem_alloc_step [OF assms])

text \<open>C27: mem_free puts an owned block back into the free list, merged with the free blocks it touches, and leaves
  the other owned blocks untouched.\<close>

theorem mem_free_correct:
  assumes "heap_ok s fs us" "b \<in> us"
  shows "\<exists>t. mem_free (fst b + 8) s = Some (0, t) \<and> heap_ok t (put_back fs b) (us - {b}) \<and>
     same_on (us - {b}) (cells s) (cells t) \<and> hptr t = hptr s \<and> totsize t = totsize s"
  by (rule mem_free_step [OF assms])

text \<open>A run on one page at address 4096, for the witnesses.\<close>

lemma need_of_100: "need_of 100 = 112" and need_of_200: "need_of 200 = 208"
  by (simp_all add: need_of_def)

lemma sample_run:
  "\<exists>s t u v w. mem_init 4096 (Some 4096) 1 \<lparr>cells = \<lambda>_. 0, base = 0, m_error = 0, called = 0, hptr = 0, totsize = 0\<rparr> = (0, s) \<and>
     heap_ok s [(4096, 4096)] {} \<and>
     mem_alloc 100 FIRSTFIT s = Some (4104, t) \<and> heap_ok t [(4208, 3984)] {(4096, 112)} \<and>
     mem_alloc 200 BESTFIT t = Some (4216, u) \<and> heap_ok u [(4416, 3776)] {(4208, 208), (4096, 112)} \<and>
     mem_free 4104 u = Some (0, v) \<and> heap_ok v [(4096, 112), (4416, 3776)] {(4208, 208)} \<and>
     mem_free 4216 v = Some (0, w) \<and> heap_ok w [(4096, 4096)] {}"
proof -
  have "region_size 4096 1 = 4096" by (simp add: region_size_def)
  then obtain s where s: "mem_init 4096 (Some 4096) 1 \<lparr>cells = \<lambda>_. 0, base = 0, m_error = 0, called = 0, hptr = 0, totsize = 0\<rparr> = (0, s)"
    "heap_ok s [(4096, 4096)] {}"
    using mem_init_heap [of "\<lparr>cells = \<lambda>_. 0, base = 0, m_error = 0, called = 0, hptr = 0, totsize = 0\<rparr>" 4096 1 4096]
    by (auto simp: good_region_def)
  obtain t where t: "mem_alloc 100 FIRSTFIT s = Some (4104, t)" "heap_ok t [(4208, 3984)] {(4096, 112)}"
    using mem_alloc_step [OF s(2), of 100 FIRSTFIT] by (auto simp: need_of_100 cut_def Cons_eq_append_conv)
  obtain u where u: "mem_alloc 200 BESTFIT t = Some (4216, u)" "heap_ok u [(4416, 3776)] {(4208, 208), (4096, 112)}"
    using mem_alloc_step [OF t(2), of 200 BESTFIT] by (auto simp: need_of_200 cut_def Cons_eq_append_conv)
  obtain v where v: "mem_free 4104 u = Some (0, v)" "heap_ok v [(4096, 112), (4416, 3776)] {(4208, 208)}"
    using mem_free_step [OF u(2), of "(4096, 112)"] by (auto simp: put_back_def join_next_def insert_Diff_if)
  obtain w where w: "mem_free 4216 v = Some (0, w)" "heap_ok w [(4096, 4096)] {}"
    using mem_free_step [OF v(2), of "(4208, 208)"] by (auto simp: put_back_def join_next_def)
  show ?thesis using s t u v w by blast
qed


theorem mem_blocks_disjoint_witness:
  "\<exists>s. heap_run 4096 1 4096 s {(4216, 200), (4104, 100)} \<and>
     (\<forall>x \<in> {(4216, 200), (4104, 100)}. 8 dvd fst x \<and> 4096 + 8 \<le> fst x \<and> fst x + nat (snd x) \<le> 4096 + region_size 4096 1)"
proof -
  let ?s0 = "\<lparr>cells = \<lambda>_. 0, base = 0, m_error = 0, called = 0, hptr = 0, totsize = 0\<rparr>"
  obtain s t u where r: "mem_init 4096 (Some 4096) 1 ?s0 = (0, s)" "mem_alloc 100 FIRSTFIT s = Some (4104, t)"
    "mem_alloc 200 BESTFIT t = Some (4216, u)" using sample_run by blast
  have "heap_run 4096 1 4096 s {}" by (rule heap_run.init [OF _ r(1)]) simp
  from heap_run.alloc [OF this _ _ r(2)] have "heap_run 4096 1 4096 t {(4104, 100)}" by simp
  from heap_run.alloc [OF this _ _ r(3)] have h: "heap_run 4096 1 4096 u {(4216, 200), (4104, 100)}" by simp
  have "good_region 4096 1 4096" by (simp add: good_region_def region_size_def)
  with h mem_blocks_disjoint [OF h this] show ?thesis by blast
qed

theorem mem_all_freed_witness:
  "\<exists>s t w. heap_run 4096 1 4096 s {(4104, 100)} \<and> mem_free 4104 s = Some (0, t) \<and> heap_run 4096 1 4096 t {} \<and> base t = 4096"
proof -
  let ?s0 = "\<lparr>cells = \<lambda>_. 0, base = 0, m_error = 0, called = 0, hptr = 0, totsize = 0\<rparr>"
  obtain s t where r: "mem_init 4096 (Some 4096) 1 ?s0 = (0, s)" "mem_alloc 100 FIRSTFIT s = Some (4104, t)"
    "heap_ok t [(4208, 3984)] {(4096, 112)}" using sample_run by blast
  have "heap_run 4096 1 4096 s {}" by (rule heap_run.init [OF _ r(1)]) simp
  from heap_run.alloc [OF this _ _ r(2)] have h: "heap_run 4096 1 4096 t {(4104, 100)}" by simp
  obtain w where w: "mem_free 4104 t = Some (0, w)" using mem_free_step [OF r(3), of "(4096, 112)"] by auto
  from heap_run.free [OF h _ w] have e: "heap_run 4096 1 4096 w {}" by simp
  have "good_region 4096 1 4096" by (simp add: good_region_def region_size_def)
  with h w e mem_all_freed [OF e this] show ?thesis by blast
qed

theorem mem_alloc_correct_witness:
  "\<exists>s t. heap_ok s [(4096, 4096)] {} \<and> mem_alloc 100 WORSTFIT s = Some (4104, t) \<and> heap_ok t [(4208, 3984)] {(4096, 112)}"
proof -
  obtain s where s: "heap_ok s [(4096, 4096)] {}" using sample_run by blast
  from mem_alloc_correct [OF s, of 100 WORSTFIT] show ?thesis
    using s by (auto simp: need_of_100 cut_def Cons_eq_append_conv)
qed

theorem mem_free_correct_witness:
  "\<exists>s t. heap_ok s [(4416, 3776)] {(4208, 208), (4096, 112)} \<and> mem_free 4216 s = Some (0, t) \<and>
     heap_ok t [(4208, 3984)] {(4096, 112)}"
proof -
  obtain s where s: "heap_ok s [(4416, 3776)] {(4208, 208), (4096, 112)}" using sample_run by blast
  from mem_free_correct [OF s, of "(4208, 208)"] show ?thesis
    using s by (auto simp: put_back_def join_next_def insert_Diff_if)
qed

text \<open>A request of 0 bytes takes a block of 8, smaller than a node: freeing it writes the size over the link of its
  neighbour, and the size itself wraps around.  On a region of 4096 bytes a request of 5000 then succeeds.\<close>

theorem mem_alloc_zero_breaks_heap:
  assumes "heap_ok s [(4096, 4096)] {}"
  shows "\<exists>t u v. mem_alloc 0 FIRSTFIT s = Some (4104, t) \<and> mem_free 4104 t = Some (0, u) \<and> mem_alloc 5000 FIRSTFIT u = Some (4104, v)"
proof -
  have w: "called s \<noteq> 0" "base s = 4096" "node_size (cells s) 4096 = 4080" "node_next (cells s) 4096 = 0"
    using assms by (auto simp: heap_ok_def heap_wf_def wsize_def)
  have r: "round_size 0 = 0" "round_size 5000 = 5000" by (simp_all add: round_size_def)
  let ?t = "snd (carve 0 0 4096 s)"
  have "first_fit (cells s) 8 0 4096 = Some (0, 4096)"
    by (subst first_fit.simps) (simp add: fits_def w)
  then have a: "mem_alloc 0 FIRSTFIT s = Some (4104, ?t)"
    using w by (simp add: mem_alloc_def pick_node_def r carve_def Let_def split: prod.splits)
  have t: "called ?t \<noteq> 0" "base ?t = 4104" "cells ?t 4096 = both 0 MAGIC" "node_size (cells ?t) 4104 = 4072"
    using w by (simp_all add: carve_def Let_def setHeader_def connect_def setNode_def node_size_def)
  let ?m = "setNode 4096 (- 8) (cells ?t)"
  let ?u = "?t\<lparr>cells := connect 4096 4104 ?m, base := 4096\<rparr>"
  have z: "node_size ?m 4104 = 4072" "node_size ?m 4096 = - 8" "unat (- 8 :: u32) = 4294967288" using t(4) by simp_all
  have "neighbours ?m 4096 0 4104 = Some (0, 4104)"
    by (subst neighbours.simps) (simp add: z)
  moreover have "merge_right 4096 4104 ?u = ?u"
    using z(2,3) by (simp add: merge_right_def connect_def node_size_def Let_def)
  ultimately have b: "mem_free 4104 ?t = Some (0, ?u)"
    using t by (simp add: mem_free_def merge_left_def Let_def)
  have u: "called ?u \<noteq> 0" "base ?u = 4096" "node_size (cells ?u) 4096 = - 8"
    using t(1) z(2) by (simp_all add: connect_def node_size_def)
  have "first_fit (cells ?u) 5008 0 4096 = Some (0, 4096)"
    by (subst first_fit.simps) (simp only: fits_def u(3) z(3), simp)
  then have "mem_alloc 5000 FIRSTFIT ?u = Some (carve 5000 0 4096 ?u)"
    using u(1,2) by (simp add: mem_alloc_def pick_node_def r(2) del: mem_state.update_convs)
  moreover have "fst (carve 5000 0 4096 ?u) = 4104" by (simp add: carve_def Let_def split: prod.splits)
  ultimately show ?thesis using a b by (metis prod.collapse)
qed

theorem mem_alloc_zero_breaks_heap_witness:
  "\<exists>s t u v. mem_init 4096 (Some 4096) 1 \<lparr>cells = \<lambda>_. 0, base = 0, m_error = 0, called = 0, hptr = 0, totsize = 0\<rparr> = (0, s) \<and>
     mem_alloc 0 FIRSTFIT s = Some (4104, t) \<and> mem_free 4104 t = Some (0, u) \<and> mem_alloc 5000 FIRSTFIT u = Some (4104, v)"
  using sample_run mem_alloc_zero_breaks_heap by blast

end
