(* ===== verification/Stack.thy ===== *)
theory Stack
  imports Syscall Line
begin

text \<open>
  The kernel of laboratory 4, \<open>src/lab4/xv6 Vm Layout/kernel\<close>, where it differs from the kernel of
  laboratory 5: code and heap start at \<open>0x2000\<close>, the stack hangs down from \<open>USERTOP\<close> and grows when a page
  fault hits below it, five pages always stay free between heap and stack.  The routines that are the
  same in both kernels are those of the other theories.  The new field \<open>stack_sz\<close> of a process is a list beside
  the process table.
\<close>

record stack_state = kernel_state +
  stack_szs :: "u32 list"

definition USTART :: u32 where "USTART = 0x2000"

definition GAP :: u32 where "GAP = 5 * PGSIZE"

definition get_stack :: "nat \<Rightarrow> ('z stack_state_scheme, switch, u32) prog" where
  "get_stack i = asks (\<lambda>s. stack_szs s ! i)"

definition set_stack :: "nat \<Rightarrow> u32 \<Rightarrow> ('z stack_state_scheme, switch, unit) prog" where
  "set_stack i n = upd (\<lambda>s. s\<lparr>stack_szs := (stack_szs s)[i := n]\<rparr>)"

section \<open>Growing heap and stack\<close>

definition growproc4 :: "u32 \<Rightarrow> ('z stack_state_scheme, switch, int) prog" where
  "growproc4 n =
     bnd curproc (\<lambda>c. bnd (get_proc c) (\<lambda>p. bnd (get_stack c) (\<lambda>stack.
     if USERTOP - stack < p_sz p + n + GAP then ret (- 1)
     else
       bnd (if 0 < sint n then allocuvm (p_pgdir p) (p_sz p) (p_sz p + n)
            else if sint n < 0 then deallocuvm (p_pgdir p) (p_sz p) (p_sz p + n)
            else ret (p_sz p)) (\<lambda>sz.
       if n \<noteq> 0 \<and> sz = 0 then ret (- 1)
       else thn (set_proc c (\<lambda>p. p\<lparr>p_sz := sz\<rparr>)) (thn (switchuvm c) (ret 0))))))"

text \<open>The test \<open>stack_sz+n < 0\<close> compares an unsigned value: it never holds.\<close>

definition growstack :: "u32 \<Rightarrow> nat \<Rightarrow> ('z stack_state_scheme, switch, int) prog" where
  "growstack n i =
     bnd (get_proc i) (\<lambda>p. bnd (get_stack i) (\<lambda>stack.
     if USERTOP - stack - n - GAP < p_sz p then ret (- 1)
     else
       let new = PGROUNDUP (stack + n) in
       bnd (if 0 < sint n then allocuvm (p_pgdir p) (USERTOP - new) (USERTOP - stack)
            else if sint n < 0 then deallocuvm (p_pgdir p) (USERTOP - stack) (USERTOP - new)
            else ret 1) (\<lambda>r.
       if r = 0 then ret (- 1)
       else thn (set_stack i new) (thn (switchuvm i) (ret 0)))))"

text \<open>The case \<open>T_PGFLT\<close> of \<open>trap\<close>.\<close>

definition kill_message :: "trap_env \<Rightarrow> trapframe \<Rightarrow> proc \<Rightarrow> u32 \<Rightarrow> ('z cons_state_scheme, switch, unit) prog" where
  "kill_message e tf p a =
     cprintf (''pid %d %s: trap %d err %d on cpu %d eip 0x%x addr 0x%x--kill proc'' @ [CHR 0x0A])
       [Num (p_pid p), Str (Some (map unat (p_name p))), Num (tf_trapno tf), Num (tf_err tf),
        Num (of_nat (te_cpu e)), Num (tf_eip tf), Num a]"

definition page_fault :: "trap_env \<Rightarrow> trapframe \<Rightarrow> ('z stack_state_scheme, switch, unit) prog" where
  "page_fault e tf =
     (let loc = te_cr2 e; new = USERTOP - loc div PGSIZE * PGSIZE in
      bnd curproc (\<lambda>c. bnd (get_proc c) (\<lambda>p. bnd (get_stack c) (\<lambda>stack.
      bnd (if loc < USTART \<or> loc < p_sz p + GAP \<or> USERTOP \<le> loc then ret (- 1) else growstack (new - stack) c) (\<lambda>r.
      whenP (r = - 1) (thn (kill_message e tf p loc) (set_proc c (\<lambda>p. p\<lparr>p_killed := True\<rparr>))))))))"

definition trap_switch4 :: "trap_env \<Rightarrow> trapframe \<Rightarrow> ('z stack_state_scheme, switch, unit) prog" where
  "trap_switch4 e tf = (if tf_trapno tf = 14 then page_fault e tf else trap_switch e tf)"

section \<open>Copying an address space\<close>

text \<open>One loop of \<open>copyuvm\<close>, with the name its messages end in; the result says whether it ran to its end.\<close>

fun copy_pages :: "string \<Rightarrow> u32 \<Rightarrow> u32 \<Rightarrow> u32 list \<Rightarrow> ('z kmem_state_scheme, switch, bool) prog" where
  "copy_pages msg pgdir d [] = ret True"
| "copy_pages msg pgdir d (i # is) =
     bnd (walkpgdir pgdir i False) (\<lambda>pte.
     if pte = 0 then panic (''copyuvm: pte should exist'' @ msg) else
     bnd (get_pte pte) (\<lambda>e.
     if e AND PTE_P = 0 then panic (''copyuvm: page not present'' @ msg) else
     bnd kalloc (\<lambda>mem.
     if mem = 0 then thn (freevm d) (ret False)
     else thn (upd (\<lambda>s. s\<lparr>phys := memmove (phys s) mem (PTE_ADDR e) PGSIZE\<rparr>)) (
          bnd (mappages d i PGSIZE mem (PTE_W OR PTE_U)) (\<lambda>r.
          if r < 0 then thn (freevm d) (ret False) else copy_pages msg pgdir d is)))))"

definition copyuvm4 :: "u32 \<Rightarrow> u32 \<Rightarrow> u32 \<Rightarrow> ('z kmem_state_scheme, switch, u32) prog" where
  "copyuvm4 pgdir sz stack =
     bnd setupkvm (\<lambda>d.
     if d = 0 then ret 0
     else
       bnd (copy_pages '''' pgdir d (pages_upto USTART sz)) (\<lambda>ok.
       if \<not> ok then ret 0
       else
         bnd (copy_pages '', when copying ustack'' pgdir d (pages_upto (USERTOP - stack) USERTOP)) (\<lambda>ok.
         ret (if ok then d else 0))))"

definition fork4 :: "('z stack_state_scheme, switch, int) prog" where
  "fork4 =
     bnd allocproc (\<lambda>r. case r of
       None \<Rightarrow> ret (- 1)
     | Some j \<Rightarrow>
         bnd curproc (\<lambda>c. bnd (get_proc c) (\<lambda>p. bnd (get_stack c) (\<lambda>stack.
         bnd (copyuvm4 (p_pgdir p) (p_sz p) stack) (\<lambda>d.
         thn (set_proc j (\<lambda>q. q\<lparr>p_pgdir := d\<rparr>)) (
         if d = 0 then
           bnd (get_proc j) (\<lambda>q.
           thn (kfree (p_kstack q)) (
           thn (set_proc j (\<lambda>q. q\<lparr>p_kstack := 0, p_state := UNUSED\<rparr>)) (ret (- 1))))
         else
           thn (set_stack j stack) (
           thn (set_proc j (\<lambda>q. q\<lparr>p_sz := p_sz p, p_parent := Some c, p_tf := (p_tf p)\<lparr>tf_eax := 0\<rparr>\<rparr>))
               (start_child c j))))))))"

section \<open>Program loading\<close>

definition exec_stack4 :: "u8 list \<Rightarrow> u8 list list \<Rightarrow> u32 \<Rightarrow> u32 \<Rightarrow> u32 \<Rightarrow> ('z stack_state_scheme, switch, int option) prog" where
  "exec_stack4 path argv pgdir entry sz =
     bnd (allocuvm pgdir (USERTOP - PGSIZE) USERTOP) (\<lambda>r.
     if r = 0 then exec_bad pgdir None
     else
       bnd (push_args 0 pgdir argv USERTOP []) (\<lambda>r. case r of
         None \<Rightarrow> exec_bad pgdir None
       | Some (sp, us) \<Rightarrow>
           let sp' = sp - (of_nat (length us) + 4) * 4 in
           bnd (copyout pgdir sp' (concat (map bytes32 (ustack_words sp us)))) (\<lambda>r.
           if r < 0 then exec_bad pgdir None
           else
             bnd curproc (\<lambda>c.
             bnd (get_proc c) (\<lambda>p.
             thn (set_proc c (\<lambda>p. p\<lparr>p_name := safe_name 16 (last_elem path), p_pgdir := pgdir, p_sz := sz,
                    p_tf := (p_tf p)\<lparr>tf_eip := entry, tf_esp := sp'\<rparr>\<rparr>)) (
             thn (set_stack c PGSIZE) (
             thn (switchuvm c) (
             thn (freevm (p_pgdir p)) (ret (Some 0)))))))))) "

definition exec4 :: "u8 list \<Rightarrow> u8 list \<Rightarrow> u8 list list \<Rightarrow> ('z stack_state_scheme, switch, int) prog" where
  "exec4 junk path argv =
     bnd (namei path) (\<lambda>r. case r of
       None \<Rightarrow> ret (- 1)
     | Some i \<Rightarrow>
         thn (ilock i) (
         bnd (readi i 0 52) (\<lambda>r.
         bnd (case elf_bytes junk r of
           None \<Rightarrow> exec_bad 0 (Some i)
         | Some d \<Rightarrow>
             let elf = get_elfhdr d in
             if e_magic elf \<noteq> ELF_MAGIC then exec_bad 0 (Some i)
             else
               bnd setupkvm (\<lambda>pgdir.
               if pgdir = 0 then exec_bad 0 (Some i)
               else
                 bnd (load_segments (unat (e_phnum elf)) pgdir i (e_phoff elf) USTART) (\<lambda>r. case r of
                   None \<Rightarrow> exec_bad pgdir (Some i)
                 | Some sz \<Rightarrow> thn (iunlockput i) (exec_stack4 path argv pgdir (e_entry elf) sz)))) (\<lambda>r.
         ret (case r of None \<Rightarrow> - 1 | Some v \<Rightarrow> v)))))"

section \<open>Arguments of system calls\<close>

definition fetchint4 :: "nat \<Rightarrow> u32 \<Rightarrow> ('z stack_state_scheme, switch, u32 option) prog" where
  "fetchint4 i addr =
     bnd (get_proc i) (\<lambda>p. bnd (get_stack i) (\<lambda>stack.
     if addr < p_sz p \<and> addr + 4 \<le> p_sz p then
       (if addr < USTART then ret None else bnd (uload32 addr) (\<lambda>v. ret (Some v)))
     else if USERTOP - stack \<le> addr then
       (if USERTOP \<le> addr \<or> USERTOP < addr + 4 then ret None else bnd (uload32 addr) (\<lambda>v. ret (Some v)))
     else ret None))"

definition fetchstr4 :: "nat \<Rightarrow> u32 \<Rightarrow> ('z stack_state_scheme, switch, u8 list option) prog" where
  "fetchstr4 i addr =
     bnd (get_proc i) (\<lambda>p. bnd (get_stack i) (\<lambda>stack.
     if addr < USTART \<or> p_sz p \<le> addr \<and> addr < USERTOP - stack \<or> USERTOP \<le> addr then ret None
     else let ep = (if addr < p_sz p then p_sz p else USERTOP) in fetchstr_loop (unat (ep - addr)) ep addr))"

definition argint4 :: "nat \<Rightarrow> ('z stack_state_scheme, switch, u32 option) prog" where
  "argint4 n = bnd curproc (\<lambda>c. bnd (get_proc c) (\<lambda>p. fetchint4 c (tf_esp (p_tf p) + 4 + 4 * of_nat n)))"

text \<open>The comparisons with \<open>0x2000\<close> are signed, those with unsigned values are not.\<close>

definition argptr4 :: "nat \<Rightarrow> u32 \<Rightarrow> ('z stack_state_scheme, switch, u32 option) prog" where
  "argptr4 n len =
     bnd (argint4 n) (\<lambda>r. case r of
       None \<Rightarrow> ret None
     | Some i \<Rightarrow>
         bnd curproc (\<lambda>c. bnd (get_proc c) (\<lambda>p. bnd (get_stack c) (\<lambda>stack.
         if i < p_sz p then ret (if sint i < 0x2000 \<or> p_sz p < i + len then None else Some i)
         else ret (if i < USERTOP - stack \<or> sint USERTOP \<le> sint i \<or> sint USERTOP < sint (i + len) then None else Some i)))))"

definition argstr4 :: "nat \<Rightarrow> ('z stack_state_scheme, switch, u8 list option) prog" where
  "argstr4 n =
     bnd (argint4 n) (\<lambda>r. case r of
       None \<Rightarrow> ret None
     | Some i \<Rightarrow>
         bnd curproc (\<lambda>c. bnd (get_proc c) (\<lambda>p. bnd (get_stack c) (\<lambda>stack.
         if i < p_sz p \<and> (sint i < 0x2000 \<or> p_sz p < i + 1) \<or>
            p_sz p \<le> i \<and> (i < USERTOP - stack \<or> sint USERTOP \<le> sint i) then ret None
         else fetchstr4 c i))))"


section \<open>The layout of an address space\<close>

text \<open>
  The pages from \<open>0x2000\<close> to \<open>sz\<close> and the \<open>stack\<close> bytes below \<open>USERTOP\<close> are mapped and nothing else is; five pages
  lie between them.
\<close>

definition layout :: "u32 \<Rightarrow> u32 \<Rightarrow> u32 \<Rightarrow> 'z kmem_state_scheme \<Rightarrow> bool" where
  "layout d sz stack s \<longleftrightarrow>
     unat sz + unat GAP + unat stack \<le> unat USERTOP \<and> page_aligned stack \<and>
     (\<forall>va. user_page va \<longrightarrow> (lookup (phys s) d va \<noteq> None \<longleftrightarrow> in_span USTART sz va \<or> in_span (USERTOP - stack) USERTOP va))"

text \<open>What a larger stack is: zeroed pages of its own below the old ones.\<close>

definition stack_grown :: "u32 \<Rightarrow> u32 set \<Rightarrow> u32 \<Rightarrow> u32 \<Rightarrow> 'z kmem_state_scheme \<Rightarrow> 'z kmem_state_scheme \<Rightarrow> bool" where
  "stack_grown d F stack new s t \<longleftrightarrow> (\<exists>G \<subseteq> F. as_inv d t G) \<and>
     (\<forall>va. if in_span (USERTOP - new) (USERTOP - stack) va
        then \<exists>v \<in> F. lookup (phys t) d va = Some (v OR (PTE_W OR PTE_U) OR PTE_P) \<and> (\<forall>b. in_page v b \<longrightarrow> phys t b = 0)
        else lookup (phys t) d va = lookup (phys s) d va)"

lemma sizes: "unat USERTOP = 655360" "unat GAP = 20480" "unat USTART = 8192"
  by (simp_all add: USERTOP_def GAP_def USTART_def PGSIZE_def)

lemma top_minus: "unat stack \<le> unat USERTOP \<Longrightarrow> unat (USERTOP - stack) = unat USERTOP - unat stack"
  by (simp add: unat_sub_word)

lemma aligned_minus:
  assumes "page_aligned stack" "unat stack \<le> unat USERTOP"
  shows "page_aligned (USERTOP - stack)"
proof -
  have "4096 dvd unat stack" using assms(1) by (simp add: page_unat mod_eq_0_iff_dvd)
  then have "4096 dvd unat USERTOP - unat stack" by (intro dvd_diff_nat) (simp_all add: sizes)
  then show ?thesis by (simp add: page_unat top_minus [OF assms(2)] mod_eq_0_iff_dvd)
qed

lemma PGROUNDUP_aligned:
  assumes "page_aligned a" "unat a \<le> unat USERTOP"
  shows "PGROUNDUP a = a"
proof -
  have "unat a + 4095 < 2 ^ 32" using assms(2) by (simp add: sizes)
  then have "unat (PGROUNDUP a) = (page_no a * 4096 + 4095) div 4096 * 4096"
    using page_no_base [OF assms(1)] by (simp add: unat_PGROUNDUP)
  then show ?thesis using page_no_base [OF assms(1)] by (simp add: word_unat_eq_iff)
qed

lemma in_span_pages: "page_aligned a \<Longrightarrow> in_span a e va \<longleftrightarrow> unat a \<le> page_no va * 4096 \<and> page_no va * 4096 < unat e"
  by (simp add: in_span_def page_no_base)

lemma wp_growstack:
  assumes cur: "cur s = Some c" and d: "p_pgdir (ptable s ! c) = d" "d \<noteq> 0" and inv: "as_inv d s F"
    and lay: "layout d (p_sz (ptable s ! c)) stack s" and st: "stack_szs s ! c = stack"
    and new: "page_aligned new" "unat stack < unat new" "unat (p_sz (ptable s ! c)) + unat GAP + unat new \<le> unat USERTOP"
    and post: "\<And>t. t = s\<lparr>phys := phys t, freelist := freelist t, esp0 := esp0 t, cr3 := d, stack_szs := (stack_szs s)[c := new]\<rparr> \<Longrightarrow>
        stack_grown d F stack new s t \<Longrightarrow> Q 0 t"
      "\<And>t. t = s\<lparr>phys := phys t, freelist := freelist t\<rparr> \<Longrightarrow> rolled_back d F s t \<Longrightarrow> Q (- 1) t"
  shows "wp (growstack (new - stack) c) Q s"
proof -
  have al: "page_aligned stack" and le: "unat stack \<le> unat USERTOP" "unat new \<le> unat USERTOP"
    using lay new(3) by (simp_all add: layout_def)
  have alm: "page_aligned (USERTOP - stack)" "page_aligned (USERTOP - new)"
    using aligned_minus al new(1) le by blast+
  have un: "unat (USERTOP - stack) = 655360 - unat stack" "unat (USERTOP - new) = 655360 - unat new"
    using le by (simp_all add: top_minus sizes)
  have sub: "unat (new - stack) = unat new - unat stack" using new(2) by (simp add: unat_sub_word)
  then have n: "0 < sint (new - stack)" using new(2) le by (simp add: sint_u32_sign sizes word_unat_eq_iff)
  note r = PGROUNDUP_aligned [OF new(1) le(2)]
  have "unat (USERTOP - new) \<le> unat USERTOP" using un(2) by (simp add: sizes)
  note rn = PGROUNDUP_aligned [OF alm(2) this]
  have free: "lookup (phys s) d va = None" if "in_span (PGROUNDUP (USERTOP - new)) (USERTOP - stack) va" for va
  proof -
    have v: "655360 - unat new \<le> page_no va * 4096" "page_no va * 4096 < 655360 - unat stack"
      using that unfolding rn in_span_pages [OF alm(2)] un by blast+
    have "\<not> in_span USTART (p_sz (ptable s ! c)) va" "\<not> in_span (USERTOP - stack) USERTOP va"
      using v new(3) unfolding in_span_pages [OF alm(1)] un by (auto simp: in_span_def sizes)
    moreover have "user_page va" using v by (simp add: user_page_USERTOP sizes)
    ultimately show ?thesis using lay unfolding layout_def by blast
  qed
  have ok: "USERTOP - new \<le> USERTOP - stack" "USERTOP - stack \<le> USERTOP" "USERTOP - stack \<noteq> 0"
    using un new(2,3) by (simp_all add: word_le_nat_alt sizes word_unat_eq_iff)
  have test: "\<not> USERTOP - stack - (new - stack) - GAP < p_sz (ptable s ! c)"
  proof -
    have "USERTOP - stack - (new - stack) - GAP = USERTOP - new - GAP" by simp
    moreover have "unat (USERTOP - new - GAP) = 655360 - unat new - 20480"
      using un(2) new(3) by (simp add: unat_sub_word sizes)
    ultimately show ?thesis using new(3) by (simp add: word_less_nat_alt sizes)
  qed
  note a = wp_allocuvm [OF inv ok(1,2) free]
  have "wp (allocuvm d (USERTOP - new) (USERTOP - stack)) (\<lambda>r. wp (if r = 0 then ret (- 1)
       else thn (set_stack c new) (thn (switchuvm c) (ret 0))) Q) s"
  proof (rule wp_mono [OF a])
    fix r t
    assume "alloc_post d F s (pages_upto (PGROUNDUP (USERTOP - new)) (USERTOP - stack)) (USERTOP - stack) r t"
    then consider "r = USERTOP - stack" "fresh_pages d F s t (span_of (pages_upto (USERTOP - new) (USERTOP - stack)))"
      | "r = 0" "rolled_back d F s t" unfolding rn by (auto simp: alloc_post_def)
    then show "wp (if r = 0 then ret (- 1) else thn (set_stack c new) (thn (switchuvm c) (ret 0))) Q t"
    proof cases
      case 1
      have span: "span_of (pages_upto (USERTOP - new) (USERTOP - stack)) va \<longleftrightarrow> in_span (USERTOP - new) (USERTOP - stack) va" for va
        using pages_upto_span [OF alm(2)] by (simp add: span_of_def)
      have e: "t = s\<lparr>phys := phys t, freelist := freelist t\<rparr>" using 1(2) by (simp add: fresh_pages_def as_frame_def)
      have f: "cur t = Some c" "ptable t = ptable s" "stack_szs t = stack_szs s"
        using cur by (simp_all add: arg_cong [OF e, of cur] arg_cong [OF e, of ptable] arg_cong [OF e, of stack_szs])
      let ?t = "t\<lparr>stack_szs := (stack_szs s)[c := new], esp0 := p_kstack (ptable s ! c) + KSTACKSIZE, cr3 := d\<rparr>"
      have "stack_grown d F stack new s ?t"
        using 1(2) unfolding fresh_pages_def stack_grown_def span by (auto simp: as_inv_eq)
      moreover have "?t = s\<lparr>phys := phys ?t, freelist := freelist ?t, esp0 := esp0 ?t, cr3 := d, stack_szs := (stack_szs s)[c := new]\<rparr>"
        by (subst e) simp
      ultimately have "Q 0 ?t" using post(1) [of ?t] by blast
      then show ?thesis using 1(1) ok(3) f d by (simp add: set_stack_def switchuvm_def curproc_def)
    next
      case 2
      then have "t = s\<lparr>phys := phys t, freelist := freelist t\<rparr>" by (simp add: rolled_back_def as_frame_def)
      then show ?thesis using post(2) 2 by simp
    qed
  qed
  then show ?thesis
    unfolding growstack_def using test n d(1) st by (simp add: get_stack_def r Let_def)
qed


lemma layout_grown:
  assumes "layout d sz stack s" "stack_grown d F stack new s t" "page_aligned new" "unat stack < unat new"
    "unat sz + unat GAP + unat new \<le> unat USERTOP"
  shows "layout d sz new t"
proof -
  have al: "page_aligned stack" and le: "unat stack \<le> unat USERTOP" "unat new \<le> unat USERTOP"
    using assms by (simp_all add: layout_def)
  note am = aligned_minus [OF al le(1)] aligned_minus [OF assms(3) le(2)]
  have un: "unat (USERTOP - stack) = 655360 - unat stack" "unat (USERTOP - new) = 655360 - unat new"
    using le by (simp_all add: top_minus sizes)
  have "in_span (USERTOP - new) USERTOP va \<longleftrightarrow> in_span (USERTOP - new) (USERTOP - stack) va \<or> in_span (USERTOP - stack) USERTOP va" for va
    using assms(4) unfolding in_span_pages [OF am(1)] in_span_pages [OF am(2)] un by (auto simp: sizes)
  then have "lookup (phys t) d va \<noteq> None \<longleftrightarrow> in_span USTART sz va \<or> in_span (USERTOP - new) USERTOP va" if "user_page va" for va
    using assms(1,2) that unfolding layout_def stack_grown_def by (cases "in_span (USERTOP - new) (USERTOP - stack) va") (metis option.distinct(1))+
  then show ?thesis using assms(3,5) by (simp add: layout_def)
qed

section \<open>Page faults\<close>

text \<open>The stack that reaches down to the page of \<open>loc\<close>, and whether it may.\<close>

definition stack_to :: "u32 \<Rightarrow> u32" where
  "stack_to loc = USERTOP - PGROUNDDOWN loc"

definition may_grow :: "u32 \<Rightarrow> u32 \<Rightarrow> bool" where
  "may_grow sz loc \<longleftrightarrow> loc < USERTOP \<and> unat sz + unat GAP \<le> unat (PGROUNDDOWN loc)"

lemma round_div: "a div PGSIZE * PGSIZE = PGROUNDDOWN a"
proof -
  have "unat a div 4096 * 4096 \<le> unat a" by simp
  then have "unat a div 4096 * 4096 < 4294967296" using u32_bound [of a] by linarith
  then show ?thesis by (simp add: word_unat_eq_iff unat_word_ariths unat_div PGSIZE_def unat_PGROUNDDOWN)
qed

lemma prints_kill_message: "prints {Lcons} (kill_message e tf p a :: ('z cons_state_scheme, switch, unit) prog)"
  unfolding kill_message_def
  by (intro prints_cprintf) (simp add: codes_def, intro prints_thn prints_foreach prints_consputc prints_printint prints_skip)

text \<open>Growing the stack down to the page of \<open>loc\<close>.\<close>

lemma wp_growstack_to:
  fixes loc :: u32
  assumes cur: "cur s = Some c" and d: "p_pgdir (ptable s ! c) = d" "d \<noteq> 0" and inv: "as_inv d s F"
    and lay: "layout d (p_sz (ptable s ! c)) stack s" and st: "stack_szs s ! c = stack"
    and loc: "unat loc < 655360" "unat (p_sz (ptable s ! c)) + 20480 \<le> unat loc" "lookup (phys s) d loc = None"
    and post: "\<And>t. t = s\<lparr>phys := phys t, freelist := freelist t, esp0 := esp0 t, cr3 := d, stack_szs := (stack_szs s)[c := stack_to loc]\<rparr> \<Longrightarrow>
        may_grow (p_sz (ptable s ! c)) loc \<Longrightarrow> stack_grown d F stack (stack_to loc) s t \<Longrightarrow> layout d (p_sz (ptable s ! c)) (stack_to loc) t \<Longrightarrow> Q 0 t"
      "\<And>t. t = s\<lparr>phys := phys t, freelist := freelist t\<rparr> \<Longrightarrow> (\<And>va. lookup (phys t) d va = lookup (phys s) d va) \<Longrightarrow> Q (- 1) t"
  shows "wp (growstack (stack_to loc - stack) c) Q s"
proof -
  let ?a = "PGROUNDDOWN loc" and ?sz = "p_sz (ptable s ! c)"
  have a: "unat ?a = unat loc div 4096 * 4096" by (rule unat_PGROUNDDOWN)
  have le: "unat ?a \<le> unat loc" by (simp add: a)
  then have new: "unat (stack_to loc) = 655360 - unat ?a" using loc(1) by (simp add: stack_to_def top_minus sizes)
  have al: "page_aligned (stack_to loc)" unfolding stack_to_def
    by (rule aligned_minus) (use le loc(1) in \<open>simp_all add: sizes page_unat\<close>)
  show ?thesis
  proof (cases "may_grow ?sz loc")
    case True
    have "user_page loc" using loc(1) by (simp add: user_page_def page_no_def)
    then have "\<not> in_span (USERTOP - stack) USERTOP loc" using lay loc(3) unfolding layout_def by blast
    moreover have s: "page_aligned stack" "unat stack \<le> unat USERTOP" using lay by (simp_all add: layout_def)
    moreover have "unat (USERTOP - stack) = 655360 - unat stack" using s(2) by (simp add: top_minus sizes)
    moreover have "page_no loc * 4096 = unat ?a" by (simp add: a page_no_def)
    ultimately have n2: "unat stack < unat (stack_to loc)"
      using new loc(1) le unfolding in_span_pages [OF aligned_minus [OF s]] by (auto simp: sizes)
    have n3: "unat ?sz + unat GAP + unat (stack_to loc) \<le> unat USERTOP"
      using True new loc(1) le unfolding may_grow_def sizes by linarith
    show ?thesis
      by (rule wp_growstack [OF cur d inv lay st al n2 n3])
        (use post(1) [OF _ True _ layout_grown [OF lay _ al n2 n3]] post(2) in \<open>auto simp: rolled_back_def\<close>)
  next
    case False
    have "20480 \<le> unat ?a" using div_le_mono [of 20480 "unat loc" 4096] loc(2) by (simp add: a)
    moreover have "unat ?a < unat ?sz + 20480" using False loc(1) by (auto simp: may_grow_def sizes word_less_nat_alt)
    moreover have "USERTOP - stack - (stack_to loc - stack) - GAP = ?a - GAP" by (simp add: stack_to_def)
    ultimately have "USERTOP - stack - (stack_to loc - stack) - GAP < ?sz"
      by (simp add: word_less_nat_alt unat_sub_word sizes)
    then show ?thesis using post(2) [of s] st unfolding growstack_def by (simp add: get_stack_def)
  qed
qed

text \<open>Killing the process.\<close>

lemma wp_kill:
  assumes "t = s\<lparr>phys := phys t, freelist := freelist t\<rparr>" "\<not> panicked s" "Lcons \<notin> held s"
    and post: "\<And>u. phys u = phys t \<Longrightarrow> stack_szs u = stack_szs s \<Longrightarrow> ptable u = (ptable s)[c := (ptable s ! c)\<lparr>p_killed := True\<rparr>] \<Longrightarrow> Q () u"
  shows "wp (thn (kill_message e tf p a) (set_proc c (\<lambda>p. p\<lparr>p_killed := True\<rparr>))) Q t"
proof -
  have f: "\<not> panicked t" "held t \<inter> {Lcons} = {}" "ptable t = ptable s" "stack_szs t = stack_szs s"
    using assms(2,3) arg_cong [OF assms(1), of panicked] arg_cong [OF assms(1), of held] arg_cong [OF assms(1), of ptable]
      arg_cong [OF assms(1), of stack_szs] by simp_all
  show ?thesis
  proof (simp only: wp_thn, rule wp_prints [OF prints_kill_message f(1,2)])
    fix u assume "shown t u"
    then have u: "u = t\<lparr>serial := serial u, crt := crt u, cursor := cursor u\<rparr>" by (simp add: shown_def)
    have "ptable u = ptable s" "stack_szs u = stack_szs s" "phys u = phys t"
      using f(3,4) arg_cong [OF u, of ptable] arg_cong [OF u, of stack_szs] arg_cong [OF u, of phys] by simp_all
    then show "wp (set_proc c (\<lambda>p. p\<lparr>p_killed := True\<rparr>)) Q u" using post by simp
  qed
qed

text \<open>C29: A page fault below the stack of a process makes the stack reach down to the page of the fault, with zeroed
  pages of its own and everything else as it was, or kills the process, when the fault is too near to the heap,
  above the user part, or memory is short.  The layout of the address space is kept.\<close>

theorem page_fault_grows_stack:
  assumes "cur s = Some c" "c < length (ptable s)" "c < length (stack_szs s)" "p_pgdir (ptable s ! c) \<noteq> 0"
    and "as_inv (p_pgdir (ptable s ! c)) s F" "layout (p_pgdir (ptable s ! c)) (p_sz (ptable s ! c)) (stack_szs s ! c) s"
    and "te_cr2 e < USERTOP \<longrightarrow> lookup (phys s) (p_pgdir (ptable s ! c)) (te_cr2 e) = None" "\<not> panicked s" "Lcons \<notin> held s"
  shows "wp (page_fault e tf) (\<lambda>_ t.
     layout (p_pgdir (ptable s ! c)) (p_sz (ptable s ! c)) (stack_szs t ! c) t \<and>
     (may_grow (p_sz (ptable s ! c)) (te_cr2 e) \<and> ptable t = ptable s \<and> stack_szs t ! c = stack_to (te_cr2 e) \<and>
        stack_grown (p_pgdir (ptable s ! c)) F (stack_szs s ! c) (stack_to (te_cr2 e)) s t
      \<or> ptable t = (ptable s)[c := (ptable s ! c)\<lparr>p_killed := True\<rparr>] \<and> stack_szs t = stack_szs s \<and>
        (\<forall>va. lookup (phys t) (p_pgdir (ptable s ! c)) va = lookup (phys s) (p_pgdir (ptable s ! c)) va))) s"
  (is "wp _ ?Q s")
proof -
  let ?p = "ptable s ! c" and ?loc = "te_cr2 e" and ?stack = "stack_szs s ! c"
  let ?d = "p_pgdir ?p" and ?kill = "thn (kill_message e tf (ptable s ! c) (te_cr2 e)) (set_proc c (\<lambda>p. p\<lparr>p_killed := True\<rparr>))"
  have new: "USERTOP - ?loc div PGSIZE * PGSIZE = stack_to ?loc" by (simp add: stack_to_def round_div)
  have kill: "wp ?kill ?Q t" if "t = s\<lparr>phys := phys t, freelist := freelist t\<rparr>" "\<And>va. lookup (phys t) ?d va = lookup (phys s) ?d va" for t
    by (rule wp_kill [OF that(1) assms(8,9)]) (use that(2) assms(6) in \<open>simp add: layout_def\<close>)
  show ?thesis
  proof (cases "?loc < USTART \<or> ?loc < p_sz ?p + GAP \<or> USERTOP \<le> ?loc")
    case True
    then show ?thesis using kill [of s] assms(1) unfolding page_fault_def Let_def by (simp add: curproc_def get_stack_def)
  next
    case False
    then have l: "unat ?loc < 655360" "unat (p_sz ?p) + 20480 \<le> unat ?loc" "lookup (phys s) ?d ?loc = None"
      using assms(6,7) by (simp_all add: layout_def sizes word_le_nat_alt word_less_nat_alt unat_add_small not_less not_le)
    have "wp (growstack (stack_to ?loc - ?stack) c) (\<lambda>r. wp (whenP (r = - 1) ?kill) ?Q) s"
    proof (rule wp_growstack_to [OF assms(1) refl assms(4-6) refl l])
      fix t
      assume t: "t = s\<lparr>phys := phys t, freelist := freelist t, esp0 := esp0 t, cr3 := ?d, stack_szs := (stack_szs s)[c := stack_to ?loc]\<rparr>"
        and g: "may_grow (p_sz ?p) ?loc" "stack_grown ?d F ?stack (stack_to ?loc) s t" "layout ?d (p_sz ?p) (stack_to ?loc) t"
      have "ptable t = ptable s" "stack_szs t ! c = stack_to ?loc"
        using arg_cong [OF t, of ptable] arg_cong [OF t, of stack_szs] assms(3) by simp_all
      then show "wp (whenP ((0::int) = - 1) ?kill) ?Q t" using g by simp
    qed (use kill in \<open>simp del: wp_thn\<close>)
    then show ?thesis using False assms(1) unfolding page_fault_def Let_def new by (simp add: curproc_def get_stack_def)
  qed
qed

section \<open>The copy of an address space\<close>

text \<open>Two programs that run alike up to their results.\<close>

lemma wp_bnd_fun: "wp (bnd m f) Q = wp m (\<lambda>a. wp (f a) Q)" "wp (thn n f') R = wp n (\<lambda>_. wp f' R)"
  by (simp_all add: fun_eq_iff)

lemma same_wp:
  "(\<And>a. wp (f a) Q = wp (g a) R) \<Longrightarrow> wp (bnd m f) Q = wp (bnd m g) R"
  "wp f' Q = wp g' R \<Longrightarrow> wp (thn n f') Q = wp (thn n g') R"
  "wp f' Q = wp g' R \<Longrightarrow> wp f'' Q = wp g'' R \<Longrightarrow> wp (if P then f' else f'') Q = wp (if P then g' else g'') R"
  "Q x = R y \<Longrightarrow> wp (ret x) Q = wp (ret y) R"
  "wp (panic msg) Q = wp (panic msg') R"
proof -
  assume "\<And>a. wp (f a) Q = wp (g a) R"
  then show "wp (bnd m f) Q = wp (bnd m g) R" unfolding wp_bnd_fun by simp
next
  assume "wp f' Q = wp g' R"
  then show "wp (thn n f') Q = wp (thn n g') R" unfolding wp_bnd_fun by simp
qed (simp_all add: fun_eq_iff)

lemma wp_copy_append:
  "wp (copy_loop p d (xs @ ys)) Q = wp (copy_pages msg p d xs) (\<lambda>ok. if ok then wp (copy_loop p d ys) Q else Q 0)"
proof (induction xs)
  case (Cons x xs)
  show ?case
    unfolding append_Cons copy_loop.simps copy_pages.simps
    by (intro same_wp Cons.IH) simp_all
qed (simp add: fun_eq_iff)

lemma wp_copyuvm4:
  "wp (copyuvm4 p sz stack) Q =
   wp (bnd setupkvm (\<lambda>d. if d = 0 then ret 0 else copy_loop p d (pages_upto USTART sz @ pages_upto (USERTOP - stack) USERTOP))) Q"
proof -
  have 2: "wp (bnd (copy_pages m p d ys) (\<lambda>ok. ret (if ok then d else 0))) Q = wp (copy_loop p d ys) Q" for m d ys
  proof -
    have "(\<lambda>ok. wp (ret (if ok then d else 0)) Q) = (\<lambda>ok. if ok then wp (copy_loop p d []) Q else Q 0)" by (simp add: fun_eq_iff)
    then show ?thesis using wp_copy_append [of p d ys "[]" Q m] by (simp add: fun_eq_iff)
  qed
  show ?thesis
    unfolding copyuvm4_def
  proof (intro same_wp)
    fix d
    let ?rest = "\<lambda>ok. if \<not> ok then ret 0 else bnd (copy_pages '', when copying ustack'' p d (pages_upto (USERTOP - stack) USERTOP)) (\<lambda>ok. ret (if ok then d else 0))"
    have "(\<lambda>ok. wp (?rest ok) Q) = (\<lambda>ok. if ok then wp (copy_loop p d (pages_upto (USERTOP - stack) USERTOP)) Q else Q 0)"
      by (simp add: fun_eq_iff 2)
    then show "wp (bnd (copy_pages '''' p d (pages_upto USTART sz)) ?rest) Q =
      wp (copy_loop p d (pages_upto USTART sz @ pages_upto (USERTOP - stack) USERTOP)) Q"
      unfolding wp_copy_append [where msg = "''''"] wp_bnd_fun by simp
  qed simp
qed

lemma layout_pages:
  fixes stack sz :: u32
  defines "lo \<equiv> pages_upto USTART sz" and "hi \<equiv> pages_upto (USERTOP - stack) USERTOP"
  assumes "layout d sz stack s"
  shows "user_pages (lo @ hi)" "span_of (lo @ hi) = (\<lambda>va. in_span USTART sz va \<or> in_span (USERTOP - stack) USERTOP va)"
    "a \<in> set (lo @ hi) \<Longrightarrow> lookup (phys s) d a \<noteq> None"
proof -
  have l: "page_aligned stack" "unat stack \<le> unat USERTOP" "unat sz + 20480 + unat stack \<le> 655360"
    using assms(3) by (simp_all add: layout_def sizes)
  note al = aligned_minus [OF l(1,2)]
  have un: "unat (USERTOP - stack) = 655360 - unat stack" using l(2) by (simp add: top_minus sizes)
  have us: "page_aligned USTART" by (simp add: page_unat sizes)
  have lo: "user_pages lo" and hi: "user_pages hi"
    using user_pages_upto [OF us, of sz] user_pages_upto [OF al, of USERTOP] l(3) unfolding lo_def hi_def
    by (simp_all add: word_le_nat_alt sizes)
  have inlo: "in_span USTART sz x" if "x \<in> set lo" for x using pages_upto_in(2) [OF us] that by (simp add: lo_def)
  have inhi: "in_span (USERTOP - stack) USERTOP x" if "x \<in> set hi" for x using pages_upto_in(2) [OF al] that by (simp add: hi_def)
  have "x \<notin> set hi" if "x \<in> set lo" for x
    using inlo [OF that] inhi [of x] l(3) unfolding in_span_pages [OF al] un by (auto simp: in_span_def)
  then show up: "user_pages (lo @ hi)" using lo hi by (auto simp: user_pages_def)
  show sp: "span_of (lo @ hi) = (\<lambda>va. in_span USTART sz va \<or> in_span (USERTOP - stack) USERTOP va)"
    using pages_upto_span [OF us] pages_upto_span [OF al] by (simp add: fun_eq_iff span_of_def lo_def hi_def bex_Un)
  show "lookup (phys s) d a \<noteq> None" if "a \<in> set (lo @ hi)"
    using assms(3) that up inlo inhi unfolding layout_def user_pages_def by auto
qed

lemma layout_same:
  assumes "layout p sz stack s" "\<And>va. user_page va \<Longrightarrow> lookup (phys t) q va \<noteq> None \<longleftrightarrow> lookup (phys s) p va \<noteq> None"
  shows "layout q sz stack t"
  using assms by (simp add: layout_def)

text \<open>C30: \<open>copyuvm\<close> of laboratory 4 gives the child both parts of the parent's address space, each page in a frame of
  its own with the same bytes, and the same layout; or it returns 0.  In both cases no memory outside the free
  pages changes, and the parent keeps its layout.\<close>

theorem copyuvm4_copies:
  assumes "as_inv p s F" "data_ok (kdata s)" "layout p sz stack s"
  shows "wp (copyuvm4 p sz stack) (\<lambda>r t. untouched F s t \<and> layout p sz stack t \<and>
     (r \<in> F \<and> (\<exists>G \<subseteq> F. as_inv p t G \<and> as_inv r t G) \<and> layout r sz stack t \<and>
        same_pages (phys t) p r (\<lambda>va. in_span USTART sz va \<or> in_span (USERTOP - stack) USERTOP va) F
      \<or> r = 0 \<and> (\<exists>G \<subseteq> F. as_inv p t G))) s"
proof -
  note lp = layout_pages [OF assms(3)]
  have m: "lookup (phys s) p a \<noteq> None" if "a \<in> set (pages_upto USTART sz @ pages_upto (USERTOP - stack) USERTOP)" for a
    using lp(3) that .
  show ?thesis
    unfolding wp_copyuvm4
  proof (rule wp_mono [OF wp_copy_pages_image [OF assms(1,2) lp(1) m]])
    fix r t
    let ?S = "\<lambda>va. in_span USTART sz va \<or> in_span (USERTOP - stack) USERTOP va"
    assume "untouched F s t \<and> ((r \<in> F \<and> (\<exists>G \<subseteq> F. as_inv p t G \<and> as_inv r t G)
        \<and> same_pages (phys t) p r (span_of (pages_upto USTART sz @ pages_upto (USERTOP - stack) USERTOP)) F)
      \<or> (r = 0 \<and> (\<exists>G \<subseteq> F. as_inv p t G)))"
    then have h: "untouched F s t" "\<exists>G \<subseteq> F. as_inv p t G"
      "r \<in> F \<and> (\<exists>G \<subseteq> F. as_inv p t G \<and> as_inv r t G) \<and> same_pages (phys t) p r ?S F \<or> r = 0 \<and> (\<exists>G \<subseteq> F. as_inv p t G)"
      unfolding lp(2) by blast+
    then obtain G where "G \<subseteq> F" "free_pages t G" by (auto simp: as_inv_def vm_inv_def)
    then have lk: "lookup (phys t) p va = lookup (phys s) p va" for va using as_inv_untouched(2) [OF assms(1) h(1)] by blast
    have lay: "layout p sz stack t" by (rule layout_same [OF assms(3)]) (simp add: lk)
    have "layout r sz stack t" if "same_pages (phys t) p r ?S F"
    proof (rule layout_same [OF lay])
      show "lookup (phys t) r va \<noteq> None \<longleftrightarrow> lookup (phys t) p va \<noteq> None" if "user_page va" for va
        using \<open>same_pages (phys t) p r ?S F\<close> lay that unfolding same_pages_def layout_def by (metis option.distinct(1))
    qed
    then show "untouched F s t \<and> layout p sz stack t \<and>
     (r \<in> F \<and> (\<exists>G \<subseteq> F. as_inv p t G \<and> as_inv r t G) \<and> layout r sz stack t \<and> same_pages (phys t) p r ?S F
      \<or> r = 0 \<and> (\<exists>G \<subseteq> F. as_inv p t G))" using h lay by blast
  qed
qed


section \<open>The heap\<close>

lemma span_split:
  assumes "unat a \<le> unat e" "unat e \<le> unat e'" "unat e' \<le> unat USERTOP" "page_aligned a"
  shows "in_span a e' va \<longleftrightarrow> in_span a e va \<or> in_span (PGROUNDUP e) e' va" "in_span (PGROUNDUP e) e' va \<Longrightarrow> \<not> in_span a e va"
proof -
  have e: "unat (PGROUNDUP e) = (unat e + 4095) div 4096 * 4096" using assms(2,3) by (simp add: unat_PGROUNDUP sizes)
  have up: "page_aligned (PGROUNDUP e)" by (rule page_aligned_up)
  have "(unat e + 4095) div 4096 \<le> k \<longleftrightarrow> unat e \<le> k * 4096" for k by auto
  then have k: "unat (PGROUNDUP e) \<le> k * 4096 \<longleftrightarrow> unat e \<le> k * 4096" for k by (simp add: e)
  show "in_span a e' va \<longleftrightarrow> in_span a e va \<or> in_span (PGROUNDUP e) e' va" "in_span (PGROUNDUP e) e' va \<Longrightarrow> \<not> in_span a e va"
    unfolding in_span_pages [OF assms(4)] in_span_pages [OF up] k using assms(1,2) by auto
qed

lemma wp_grow_heap:
  assumes inv: "as_inv d s F" and lay: "layout d sz stack s" and us: "USTART \<le> sz" and fit: "unat sz + unat n + 20480 + unat stack \<le> 655360"
    and post: "\<And>t. t = s\<lparr>phys := phys t, freelist := freelist t\<rparr> \<Longrightarrow> \<exists>G \<subseteq> F. as_inv d t G \<Longrightarrow> layout d (sz + n) stack t \<Longrightarrow> Q (sz + n) t"
      "\<And>t. t = s\<lparr>phys := phys t, freelist := freelist t\<rparr> \<Longrightarrow> as_inv d t F \<Longrightarrow> (\<And>va. lookup (phys t) d va = lookup (phys s) d va) \<Longrightarrow> Q 0 t"
  shows "wp (allocuvm d sz (sz + n)) Q s"
proof -
  have l: "page_aligned stack" "unat stack \<le> unat USERTOP" using lay by (simp_all add: layout_def)
  note un = top_minus [OF l(2), unfolded sizes] and al = aligned_minus [OF l]
  have ua: "page_aligned USTART" by (simp add: page_unat sizes)
  have new: "unat (sz + n) = unat sz + unat n" using fit by (simp add: unat_add_small)
  have le: "unat USTART \<le> unat sz" "unat sz \<le> unat (sz + n)" "unat (sz + n) \<le> unat USERTOP"
    using us fit new by (simp_all add: word_le_nat_alt sizes)
  note sp = span_split [OF le ua]
  have free: "lookup (phys s) d va = None" if "in_span (PGROUNDUP sz) (sz + n) va" for va
  proof -
    have "page_no va * 4096 < unat (sz + n)" using that by (simp add: in_span_def)
    then have "user_page va" "\<not> in_span (USERTOP - stack) USERTOP va"
      using fit new unfolding in_span_pages [OF al] un by (simp_all add: user_page_USERTOP sizes)
    then show ?thesis using lay sp(2) [OF that] unfolding layout_def by blast
  qed
  have le': "sz \<le> sz + n" "sz + n \<le> USERTOP" using le by (simp_all add: word_le_nat_alt)
  have span: "span_of (pages_upto (PGROUNDUP sz) (sz + n)) va \<longleftrightarrow> in_span (PGROUNDUP sz) (sz + n) va" for va
    using pages_upto_span [OF page_aligned_up] by (simp add: span_of_def)
  show ?thesis
  proof (rule wp_mono [OF wp_allocuvm [OF inv le' free]])
    fix r t assume "alloc_post d F s (pages_upto (PGROUNDUP sz) (sz + n)) (sz + n) r t"
    then consider "r = sz + n" "fresh_pages d F s t (span_of (pages_upto (PGROUNDUP sz) (sz + n)))"
      | "r = 0" "rolled_back d F s t" by (auto simp: alloc_post_def)
    then show "Q r t"
    proof cases
      case 1
      have "lookup (phys t) d va \<noteq> None \<longleftrightarrow> lookup (phys s) d va \<noteq> None \<or> in_span (PGROUNDUP sz) (sz + n) va" for va
        using 1(2) free unfolding fresh_pages_def span by (metis option.distinct(1))
      then have "layout d (sz + n) stack t" using lay new fit sp(1) unfolding layout_def sizes by auto
      then show ?thesis using 1 post(1) unfolding fresh_pages_def as_frame_def by blast
    qed (use post(2) in \<open>auto simp: rolled_back_def as_frame_def\<close>)
  qed
qed

text \<open>\<open>sbrk\<close> with a positive size maps zeroed pages behind the heap and keeps the layout with its gap below the
  stack, or fails and leaves the address space as it was.\<close>

theorem growproc4_keeps_layout:
  assumes "cur s = Some c" "c < length (ptable s)" "p_pgdir (ptable s ! c) \<noteq> 0" "USTART \<le> p_sz (ptable s ! c)" "0 < sint n"
    and "as_inv (p_pgdir (ptable s ! c)) s F" "layout (p_pgdir (ptable s ! c)) (p_sz (ptable s ! c)) (stack_szs s ! c) s"
  shows "wp (growproc4 n) (\<lambda>r t. layout (p_pgdir (ptable s ! c)) (p_sz (ptable t ! c)) (stack_szs s ! c) t \<and>
     (r = 0 \<and> ptable t = (ptable s)[c := (ptable s ! c)\<lparr>p_sz := p_sz (ptable s ! c) + n\<rparr>]
        \<and> (\<exists>G \<subseteq> F. as_inv (p_pgdir (ptable s ! c)) t G)
      \<or> r = - 1 \<and> ptable t = ptable s \<and> as_inv (p_pgdir (ptable s ! c)) t F
        \<and> (\<forall>va. lookup (phys t) (p_pgdir (ptable s ! c)) va = lookup (phys s) (p_pgdir (ptable s ! c)) va))) s"
  (is "wp _ ?Q s")
proof -
  let ?p = "ptable s ! c" and ?stack = "stack_szs s ! c"
  let ?d = "p_pgdir ?p" and ?sz = "p_sz ?p"
  have l: "unat ?sz + 20480 + unat ?stack \<le> 655360" using assms(7) by (simp add: layout_def sizes)
  then have un: "unat (USERTOP - ?stack) = 655360 - unat ?stack" by (simp add: top_minus sizes)
  show ?thesis
  proof (cases "USERTOP - ?stack < ?sz + n + GAP")
    case True
    then show ?thesis using assms(1,6,7) unfolding growproc4_def by (simp add: curproc_def get_stack_def)
  next
    case False
    have "unat n < 2147483648" using assms(5) by (simp add: sint_u32_sign)
    then have "unat (?sz + n + GAP) = unat ?sz + unat n + 20480" using l by (simp add: unat_add_small sizes)
    then have fit: "unat ?sz + unat n + 20480 + unat ?stack \<le> 655360" using False l by (simp add: word_less_nat_alt un)
    then have "unat (?sz + n) \<noteq> 0" using assms(4) by (simp add: unat_add_small word_le_nat_alt sizes)
    then have nz: "?sz + n \<noteq> 0" by auto
    let ?rest = "\<lambda>sz. if n \<noteq> 0 \<and> sz = 0 then ret (- 1) else thn (set_proc c (\<lambda>p. p\<lparr>p_sz := sz\<rparr>)) (thn (switchuvm c) (ret 0))"
    have "wp (allocuvm ?d ?sz (?sz + n)) (\<lambda>sz. wp (?rest sz) ?Q) s"
    proof (rule wp_grow_heap [OF assms(6,7,4) fit])
      fix t assume t: "t = s\<lparr>phys := phys t, freelist := freelist t\<rparr>" "\<exists>G \<subseteq> F. as_inv ?d t G" "layout ?d (?sz + n) ?stack t"
      have "cur t = Some c" "ptable t = ptable s" using assms(1) arg_cong [OF t(1), of cur] arg_cong [OF t(1), of ptable] by simp_all
      then show "wp (?rest (?sz + n)) ?Q t"
        using t(2,3) nz assms(2,3) by (simp add: switchuvm_def curproc_def layout_def as_inv_eq)
    next
      fix t assume t: "t = s\<lparr>phys := phys t, freelist := freelist t\<rparr>" "as_inv ?d t F" "\<And>va. lookup (phys t) ?d va = lookup (phys s) ?d va"
      have "ptable t = ptable s" using arg_cong [OF t(1), of ptable] by simp
      then show "wp (?rest 0) ?Q t" using t(2,3) assms(5,7) by (auto simp: layout_def)
    qed
    then show ?thesis using False assms(1,5) unfolding growproc4_def by (simp add: curproc_def get_stack_def)
  qed
qed

section \<open>Argument checks\<close>

lemma wp_uload: "lookup (phys s) (cr3 s) va = Some e \<Longrightarrow> wp (uload va) Q s = Q (phys s (PTE_ADDR e + (va AND 0xFFF))) s"
  by (simp add: uload_def upa_def)

lemma wp_uload32:
  assumes "\<And>k. k < 4 \<Longrightarrow> lookup (phys s) (cr3 s) (va + of_nat k) \<noteq> None" "\<And>v. Q v s"
  shows "wp (uload32 va) Q s"
proof -
  obtain e0 e1 e2 e3 where "lookup (phys s) (cr3 s) va = Some e0" "lookup (phys s) (cr3 s) (va + 1) = Some e1"
    "lookup (phys s) (cr3 s) (va + 2) = Some e2" "lookup (phys s) (cr3 s) (va + 3) = Some e3"
    using assms(1) [of 0] assms(1) [of 1] assms(1) [of 2] assms(1) [of 3] by auto
  then show ?thesis unfolding uload32_def by (simp add: wp_uload assms(2))
qed

lemma checks:
  "(if a then (if u then n else r) else if b then (if c then n else r) else n) =
   (if (if a then \<not> u else if b then \<not> c else False) then r else n)"
  by simp

definition arg_ok :: "u32 \<Rightarrow> u32 \<Rightarrow> u32 \<Rightarrow> bool" where
  "arg_ok sz stack addr \<longleftrightarrow>
     unat USTART \<le> unat addr \<and> unat addr + 4 \<le> unat sz \<or>
     unat USERTOP - unat stack \<le> unat addr \<and> unat addr + 4 \<le> unat USERTOP"

text \<open>\<open>fetchint\<close> of laboratory 4 accepts an address exactly when its four bytes lie in the code and heap or in
  the stack, and it never faults.\<close>

theorem fetchint4_safe:
  assumes "layout (cr3 s) (p_sz (ptable s ! c)) (stack_szs s ! c) s"
  shows "wp (fetchint4 c addr) (\<lambda>r t. t = s \<and> (r \<noteq> None \<longleftrightarrow> arg_ok (p_sz (ptable s ! c)) (stack_szs s ! c) addr)) s"
proof -
  let ?sz = "p_sz (ptable s ! c)" and ?stack = "stack_szs s ! c"
  let ?Q = "\<lambda>r t. t = s \<and> (r \<noteq> None \<longleftrightarrow> arg_ok ?sz ?stack addr)"
  have l: "page_aligned ?stack" "unat ?stack \<le> 655360" "unat ?sz + 20480 + unat ?stack \<le> 655360"
    using assms by (simp_all add: layout_def sizes)
  have un: "unat (USERTOP - ?stack) = 655360 - unat ?stack" using l(2) by (simp add: top_minus sizes)
  have al: "page_aligned (USERTOP - ?stack)" using l(2) by (intro aligned_minus [OF l(1)]) (simp add: sizes)
  have read: "wp (bnd (uload32 addr) (\<lambda>v. ret (Some v))) ?Q s" if ok: "arg_ok ?sz ?stack addr"
  proof (simp only: wp_bnd, rule wp_uload32)
    fix k :: nat assume k: "k < 4"
    have a: "unat addr + 4 \<le> 655360" using ok l(3) by (auto simp: arg_ok_def sizes)
    then have u: "unat (addr + of_nat k) = unat addr + k" using k by (simp add: unat_add_small unat_of_nat_small)
    have f: "page_no (addr + of_nat k) * 4096 \<le> unat addr + k" by (simp add: page_no_def u)
    have m: "m \<le> page_no (addr + of_nat k) * 4096" if "m \<le> unat addr" "m mod 4096 = 0" for m
      using that div_le_mono [of m "unat addr + k" 4096] by (auto simp: page_no_def u)
    have "user_page (addr + of_nat k)" using f a k by (simp add: user_page_USERTOP sizes)
    moreover have "in_span USTART ?sz (addr + of_nat k) \<or> in_span (USERTOP - ?stack) USERTOP (addr + of_nat k)"
    proof (cases "unat USTART \<le> unat addr \<and> unat addr + 4 \<le> unat ?sz")
      case True
      then show ?thesis using f k m [of 8192] page_no_base [of USTART] by (auto simp: in_span_def page_unat sizes)
    next
      case False
      then have "655360 - unat ?stack \<le> unat addr" using ok by (auto simp: arg_ok_def sizes)
      moreover have "(655360 - unat ?stack) mod 4096 = 0" using al by (simp add: page_unat un)
      ultimately show ?thesis using f a k m [of "655360 - unat ?stack"] unfolding in_span_pages [OF al] un by (auto simp: sizes)
    qed
    ultimately show "lookup (phys s) (cr3 s) (addr + of_nat k) \<noteq> None" using assms unfolding layout_def by blast
  qed (simp add: ok)
  have 4: "unat (addr + 4) = unat addr + 4" if "unat addr < 655360" using that by (simp add: unat_add_small)
  have cases: "arg_ok ?sz ?stack addr \<longleftrightarrow>
     (if addr < ?sz \<and> addr + 4 \<le> ?sz then \<not> addr < USTART
      else if USERTOP - ?stack \<le> addr then \<not> (USERTOP \<le> addr \<or> USERTOP < addr + 4) else False)"
  proof (cases "unat addr < 655360")
    case True
    then show ?thesis using l(3)
      by (simp add: arg_ok_def word_less_nat_alt word_le_nat_alt un sizes 4) auto
  next
    case False
    then show ?thesis using l(3) by (auto simp: arg_ok_def word_less_nat_alt word_le_nat_alt sizes)
  qed
  let ?read = "bnd (uload32 addr) (\<lambda>v. ret (Some v))"
  have "wp (if addr < ?sz \<and> addr + 4 \<le> ?sz then (if addr < USTART then ret None else ?read)
     else if USERTOP - ?stack \<le> addr then (if USERTOP \<le> addr \<or> USERTOP < addr + 4 then ret None else ?read)
     else ret None) ?Q s"
    unfolding checks [where r = ?read] cases [symmetric] using read by (cases "arg_ok ?sz ?stack addr") simp_all
  then show ?thesis unfolding fetchint4_def by (simp only: get_stack_def wp_bnd wp_get_proc wp_asks)
qed

text \<open>\<open>argptr\<close> of laboratory 4 compares a pointer as a signed number with \<open>USERTOP\<close>: whatever lies above
  \<open>0x80000000\<close>, where the kernel maps its devices, counts as an address of the process.\<close>

theorem argptr4_accepts_high:
  assumes "wp (argint4 n) (\<lambda>r t. t = s \<and> r = Some p) s" "cur s = Some c" "unat (p_sz (ptable s ! c)) + unat (stack_szs s ! c) \<le> unat USERTOP"
    and "0x80000000 \<le> p" "unat p + unat len < 2 ^ 32"
  shows "wp (argptr4 n len) (\<lambda>r t. r = Some p) s"
proof -
  let ?sz = "p_sz (ptable s ! c)" and ?stack = "stack_szs s ! c"
  have p: "2147483648 \<le> unat p" "unat (p + len) = unat p + unat len"
    using assms(4,5) by (simp_all add: word_le_nat_alt unat_add_small)
  have "sint p < 0" "sint (p + len) < 0" using p by (simp_all add: sint_u32_sign)
  moreover have "0 < sint USERTOP" by (simp add: sint_u32_sign sizes)
  moreover have "unat (USERTOP - ?stack) = 655360 - unat ?stack" using assms(3) by (simp add: top_minus sizes)
  then have "\<not> p < ?sz" "\<not> p < USERTOP - ?stack" using p(1) assms(3) by (simp_all add: word_less_nat_alt sizes)
  ultimately have "\<not> (p < USERTOP - ?stack \<or> sint USERTOP \<le> sint p \<or> sint USERTOP < sint (p + len))" "\<not> p < ?sz" by auto
  then show ?thesis unfolding argptr4_def
    by (simp only: wp_bnd) (rule wp_mono [OF assms(1)], simp add: assms(2) curproc_def get_stack_def)
qed


section \<open>Witnesses\<close>

text \<open>A process with a stack of one page, and one free page.\<close>

definition stack_mem :: mem where
  "stack_mem = store32 (phys one_space) (pte_of (phys one_space) 0x500000 0x9F000) 0x600007"

definition stack_example :: stack_state where
  "stack_example =
     kernel_state.extend
       (file_state.extend (cons_state.extend
          (console_open\<lparr>phys := stack_mem, freelist := freelist one_space, kend := kend one_space, kdata := kdata one_space,
             cr3 := 0x500000\<rparr>)
          \<lparr>ftable = []\<rparr>) \<lparr>ticks = 0, kbd_shift = 0, eois = 0\<rparr>)
       \<lparr>stack_szs = 0x1000 # replicate 63 0\<rparr>"

lemma stack_example_simps [simp]:
  "held stack_example = {}" "cur stack_example = Some 0" "ptable stack_example = ptable two_threads" "phys stack_example = stack_mem"
  "freelist stack_example = freelist one_space" "kend stack_example = kend one_space" "kdata stack_example = kdata one_space"
  "\<not> panicked stack_example" "stack_szs stack_example = 0x1000 # replicate 63 0" "cr3 stack_example = 0x500000"
  by (simp_all add: stack_example_def kernel_state.defs file_state.defs cons_state.defs)

lemma stack_example_ok:
  "as_inv 0x500000 stack_example {0x400000}"
  "lookup stack_mem 0x500000 va = (if page_no va = 159 then Some 0x600007 else None)"
  "layout 0x500000 0 0x1000 stack_example"
proof -
  have u: "user_page 0x9F000" by (simp add: user_page_def page_no_def)
  have a: "PTE_ADDR 0x600007 = 0x600000" "present (0x600007 :: u32)"
    by (simp_all add: PTE_ADDR_def present_def PTE_P_def)
  have k: "kend one_space = 0x10A000" by (simp add: one_space_def two_free_dir_def two_free_def)
  have "as_inv 0x500000 (one_space\<lparr>phys := stack_mem\<rparr>) {0x400000}"
    unfolding stack_mem_def
    by (rule as_inv_map(1) [OF one_space_inv(1) u])
      (simp_all add: a one_space_inv(2,3) page_ok_def k PGSIZE_def PHYSTOP_def)
  then show "as_inv 0x500000 stack_example {0x400000}" by (simp add: as_inv_eq)
  have ptw: "pt_wf (phys one_space) 0x500000 {0x400000}"
    using one_space_inv(1) by (simp add: as_inv_def vm_inv_def)
  have l: "lookup stack_mem 0x500000 va = (if page_no va = 159 then Some 0x600007 else None)" for va
    using pte_store_lookup [OF ptw user_lookup_cases(1) [OF one_space_inv(1) u], of "0x600007" va] a(2)
    by (simp add: stack_mem_def one_space_inv(3) same_page_no) (simp add: page_no_def)
  then show "lookup stack_mem 0x500000 va = (if page_no va = 159 then Some 0x600007 else None)" .
  have "in_span (USERTOP - 0x1000) USERTOP va \<longleftrightarrow> page_no va = 159" for va
    by (auto simp: in_span_def USERTOP_def page_no_def)
  moreover have "\<not> in_span USTART 0 va" for va by (simp add: in_span_def)
  ultimately show "layout 0x500000 0 0x1000 stack_example"
    by (simp add: layout_def l sizes page_unat)
qed

theorem page_fault_grows_stack_witness:
  "wp (page_fault (trap_env.make 0 0x9E010 [] [] (\<lambda>_. [])) user_frame) (\<lambda>_ t.
     stack_szs t ! 0 = 0x2000 \<and> lookup (phys t) 0x500000 0x9E010 \<noteq> None \<or> p_killed (ptable t ! 0)) stack_example"
proof -
  have p: "p_pgdir (ptable stack_example ! 0) = 0x500000" "p_sz (ptable stack_example ! 0) = 0" by simp_all
  have e: "te_cr2 (trap_env.make 0 0x9E010 [] [] (\<lambda>_. [])) = 0x9E010" by (simp add: trap_env.defs)
  have "stack_to 0x9E010 = 0x2000" by (simp add: stack_to_def USERTOP_def PGROUNDDOWN_def PGSIZE_def)
  moreover have "in_span (USERTOP - 0x2000) (USERTOP - 0x1000) 0x9E010" by (simp add: in_span_def page_no_def USERTOP_def)
  moreover have "page_no 0x9E010 \<noteq> 159" by (simp add: page_no_def)
  ultimately show ?thesis
    using page_fault_grows_stack [of stack_example 0 "{0x400000}" "trap_env.make 0 0x9E010 [] [] (\<lambda>_. [])" user_frame]
      stack_example_ok
    unfolding e p by (auto elim!: wp_mono simp: stack_grown_def dest!: spec [of _ "0x9E010"])
qed

theorem copyuvm4_copies_witness:
  "wp (copyuvm4 0x500000 0 0x1000) (\<lambda>r t. layout 0x500000 0 0x1000 t \<and>
     (r = 0x400000 \<and> layout r 0 0x1000 t \<or> r = 0)) stack_example"
proof -
  have "data_ok (kdata stack_example)" using one_mapped_kdata by (simp add: one_mapped_def)
  from copyuvm4_copies [OF stack_example_ok(1) this stack_example_ok(3)] show ?thesis by (auto elim!: wp_mono)
qed

theorem fetchint4_safe_witness:
  "wp (fetchint4 0 0x9FFF8) (\<lambda>r t. t = stack_example \<and> r \<noteq> None) stack_example"
proof -
  have "layout (cr3 stack_example) (p_sz (ptable stack_example ! 0)) (stack_szs stack_example ! 0) stack_example"
    using stack_example_ok(3) by simp
  moreover have "arg_ok (p_sz (ptable stack_example ! 0)) (stack_szs stack_example ! 0) 0x9FFF8"
    by (simp add: arg_ok_def sizes)
  ultimately show ?thesis using fetchint4_safe [of stack_example 0 "0x9FFF8"] by simp
qed


text \<open>A process that passes the address of the interrupt controller.\<close>

definition high_example :: stack_state where
  "high_example = stack_example
     \<lparr>phys := store32 stack_mem 0x600FF8 0xFE000000,
      ptable := [(user_proc 1 None RUNNING)\<lparr>p_tf := user_frame\<lparr>tf_esp := 0x9FFF4\<rparr>\<rparr>]\<rparr>"

theorem argptr4_accepts_high_witness:
  "wp (argptr4 0 4) (\<lambda>r t. r = Some 0xFE000000) high_example"
proof -
  have al: "page_aligned (0x600000 :: u32)" "page_aligned (0x500000 :: u32)" "page_aligned (0x401000 :: u32)"
    by (simp_all add: page_aligned_def PGSIZE_def)
  have o: "store32 stack_mem 0x600FF8 0xFE000000 b = stack_mem b" if "in_page q b" "page_aligned q" "q \<noteq> 0x600000" for q b
  proof -
    have "\<not> in_page 0x600000 b" using in_page_unique [OF that(2) al(1) that(1)] that(3) by blast
    then show ?thesis using store32_slot_outside [OF al(1), of "0x3FE" b] by (simp add: slot_def)
  qed
  have "tables stack_mem 0x500000 = {0x401000}"
  proof -
    have u: "user_page 0x9F000" by (simp add: user_page_def page_no_def)
    have "pt_wf (phys one_space) 0x500000 {0x400000}" using one_space_inv(1) by (simp add: as_inv_def vm_inv_def)
    from pte_store_tables [OF this user_lookup_cases(1) [OF one_space_inv(1) u]] show ?thesis
      unfolding stack_mem_def by (simp add: one_space_inv(2))
  qed
  then have "lookup (store32 stack_mem 0x600FF8 0xFE000000) 0x500000 va = lookup stack_mem 0x500000 va" for va
    using o [OF _ al(2)] o [OF _ al(3)] by (intro lookup_cong [OF al(2)]) auto
  then have l: "lookup (store32 stack_mem 0x600FF8 0xFE000000) 0x500000 va = (if page_no va = 159 then Some 0x600007 else None)" for va
    using stack_example_ok(2) by simp
  have f: "phys high_example = store32 stack_mem 0x600FF8 0xFE000000" "cr3 high_example = 0x500000" "cur high_example = Some 0"
    "stack_szs high_example ! 0 = 0x1000" "p_sz (ptable high_example ! 0) = 0" "tf_esp (p_tf (ptable high_example ! 0)) = 0x9FFF4"
    by (simp_all add: high_example_def)
  have "load32 (store32 stack_mem 0x600FF8 0xFE000000) 0x600FF8 = 0xFE000000" by simp
  then have "wp (uload32 0x9FFF8) (\<lambda>v t. t = high_example \<and> v = 0xFE000000) high_example"
    unfolding uload32_def load32_def by (simp add: wp_uload [where e = "0x600007"] f l page_no_def PTE_ADDR_def)
  then have "wp (fetchint4 0 0x9FFF8) (\<lambda>r t. t = high_example \<and> r = Some 0xFE000000) high_example"
    unfolding fetchint4_def by (simp add: get_stack_def f USERTOP_def)
  then have "wp (argint4 0) (\<lambda>r t. t = high_example \<and> r = Some 0xFE000000) high_example"
    by (simp add: argint4_def curproc_def f)
  from argptr4_accepts_high [OF this f(3)] show ?thesis by (simp add: f sizes)
qed


definition heap_example :: stack_state where
  "heap_example = stack_example\<lparr>ptable := [(user_proc 1 None RUNNING)\<lparr>p_sz := 0x2000\<rparr>]\<rparr>"

theorem growproc4_keeps_layout_witness:
  "wp (growproc4 0x1000) (\<lambda>r t. r = 0 \<and> p_sz (ptable t ! 0) = 0x3000 \<and> layout 0x500000 0x3000 0x1000 t \<or>
     r = - 1 \<and> layout 0x500000 0x2000 0x1000 t) heap_example"
proof -
  have f: "cur heap_example = Some 0" "ptable heap_example = [(user_proc 1 None RUNNING)\<lparr>p_sz := 0x2000\<rparr>]" "stack_szs heap_example ! 0 = 0x1000"
    "phys heap_example = stack_mem"
    by (simp_all add: heap_example_def)
  have "\<not> in_span USTART 0x2000 va" for va by (auto simp: in_span_def USTART_def page_no_def)
  moreover have "\<not> in_span USTART 0 va" for va by (simp add: in_span_def)
  ultimately have "layout 0x500000 0x2000 0x1000 heap_example" using stack_example_ok(3) by (simp add: layout_def f sizes)
  moreover have "as_inv 0x500000 heap_example {0x400000}" using stack_example_ok(1) by (simp add: as_inv_eq heap_example_def)
  moreover have "0 < sint (0x1000 :: u32)" by (simp add: sint_u32_sign)
  ultimately show ?thesis
    using growproc4_keeps_layout [of heap_example 0 "0x1000" "{0x400000}"]
    by (auto elim!: wp_mono simp: f USTART_def)
qed

end
