(* ===== verification/Setop.thy ===== *)
theory Setop
  imports Prelude "HOL-Library.Monad_Syntax"
begin

text \<open>
  The set difference of laboratory 1, \<open>src/lab1/0a/set_operation.c\<close>: (A - B) union (B - A) over singly linked
  lists that are changed in place.  The heap maps the addresses of nodes to their contents; reading or writing
  through a null pointer, or a traversal that does not end, is \<open>None\<close>.  The addresses \<open>malloc\<close> returns are a parameter,
  and so are the numbers \<open>scanf\<close> delivers.
\<close>

type_synonym i32 = "32 word"

record node =
  number :: i32
  next_node :: nat

type_synonym nodes = "nat \<Rightarrow> node option"

definition put_number :: "nat \<Rightarrow> i32 \<Rightarrow> nodes \<Rightarrow> nodes option" where
  "put_number p x h = map_option (\<lambda>n. h(p \<mapsto> n\<lparr>number := x\<rparr>)) (h p)"

definition put_next :: "nat \<Rightarrow> nat \<Rightarrow> nodes \<Rightarrow> nodes option" where
  "put_next p q h = map_option (\<lambda>n. h(p \<mapsto> n\<lparr>next_node := q\<rparr>)) (h p)"

text \<open>\<open>check\<close>: whether a number is in a list.\<close>

partial_function (option) check_loop :: "i32 \<Rightarrow> nodes \<Rightarrow> nat \<Rightarrow> bool \<Rightarrow> bool option" where
  "check_loop num h p found =
     (if p = 0 then Some found
      else do { n \<leftarrow> h p; check_loop num h (next_node n) (if number n = num then True else found) })"

definition check :: "i32 \<Rightarrow> nodes \<Rightarrow> nat \<Rightarrow> bool option" where
  "check num h head = check_loop num h head False"

section \<open>Building a list\<close>

text \<open>
  The body shared by the loops that build a list: the new node \<open>p2\<close> gets its number and is linked behind \<open>p1\<close>, or becomes
  the head.  \<open>malloc\<close> gives a node of unknown contents.
\<close>

definition add_node :: "nat \<Rightarrow> i32 \<Rightarrow> nodes \<times> nat \<times> nat \<times> bool \<Rightarrow> (nodes \<times> nat \<times> nat \<times> bool) option" where
  "add_node p2 x = (\<lambda>(h, head, p1, sign). do {
     h \<leftarrow> put_number p2 x h;
     (h, head, sign) \<leftarrow> (if \<not> sign then Some (h, p2, True) else do { h \<leftarrow> put_next p1 p2 h; Some (h, head, sign) });
     h \<leftarrow> put_next p2 0 h;
     Some (h, head, p2, sign) })"

fun input_loop :: "node \<Rightarrow> nat list \<Rightarrow> i32 list \<Rightarrow> nodes \<times> nat \<times> nat \<times> bool \<Rightarrow> (nodes \<times> nat \<times> nat \<times> bool) option" where
  "input_loop junk ms [] st = Some st"
| "input_loop junk [] (x # xs) st = None"
| "input_loop junk (p2 # ms) (x # xs) (h, st) = do {
     st \<leftarrow> add_node p2 x (h(p2 \<mapsto> junk), st);
     input_loop junk ms xs st }"

text \<open>The loop that copies \<open>A\<close> to \<open>A2\<close>.\<close>

fun copy_nodes :: "node \<Rightarrow> nat list \<Rightarrow> nat \<Rightarrow> nat \<Rightarrow> nodes \<times> nat \<times> nat \<times> bool \<Rightarrow> (nodes \<times> nat \<times> nat \<times> bool) option" where
  "copy_nodes junk ms p3 0 st = Some st"
| "copy_nodes junk [] p3 (Suc n) st = None"
| "copy_nodes junk (p2 # ms) p3 (Suc n) (h, st) = do {
     let h = h(p2 \<mapsto> junk);
     a \<leftarrow> h p3;
     (h, st) \<leftarrow> add_node p2 (number a) (h, st);
     a \<leftarrow> h p3;
     copy_nodes junk ms (next_node a) n (h, st) }"

section \<open>Difference and union\<close>

text \<open>The loop that takes the elements of the list \<open>other\<close> out of the list \<open>head\<close>.\<close>

fun minus_loop :: "nat \<Rightarrow> nat \<Rightarrow> nodes \<times> nat \<times> nat \<times> nat \<times> bool \<Rightarrow> (nodes \<times> nat) option" where
  "minus_loop other 0 (h, head, p1, p2, sign) = Some (h, head)"
| "minus_loop other (Suc n) (h, head, p1, p2, sign) = do {
     a \<leftarrow> h p1;
     found \<leftarrow> check (number a) h other;
     st \<leftarrow> (if found then
        (if \<not> sign then do { b \<leftarrow> h head; Some (h, next_node b, next_node b, next_node b, sign) }
         else do {
           h \<leftarrow> put_next p2 (next_node a) h;
           a \<leftarrow> h p1;
           Some (h, head, next_node a, p2, sign) })
      else
        (if \<not> sign then Some (h, head, next_node a, p2, True)
         else do { b \<leftarrow> h p2; Some (h, head, next_node a, next_node b, sign) }));
     minus_loop other n st }"

definition list_minus :: "nat \<Rightarrow> nat \<Rightarrow> nat \<Rightarrow> nodes \<Rightarrow> (nodes \<times> nat) option" where
  "list_minus other n head h = minus_loop other n (h, head, head, head, False)"

partial_function (option) last_node :: "nodes \<Rightarrow> nat \<Rightarrow> nat option" where
  "last_node h p1 = do { a \<leftarrow> h p1; if next_node a \<noteq> 0 then last_node h (next_node a) else Some p1 }"

definition list_union :: "nat \<Rightarrow> nat \<Rightarrow> nodes \<Rightarrow> (nodes \<times> nat) option" where
  "list_union a b h =
     (if a = 0 then Some (h, b)
      else if b \<noteq> 0 then do { p1 \<leftarrow> last_node h a; h \<leftarrow> put_next p1 b h; Some (h, a) }
      else Some (h, a))"

text \<open>\<open>output\<close>: the numbers it prints, with their positions.\<close>

partial_function (option) output_loop :: "nodes \<Rightarrow> nat \<Rightarrow> nat \<Rightarrow> (nat \<times> i32) list option" where
  "output_loop h count p =
     (if p = 0 then Some []
      else do { n \<leftarrow> h p; out \<leftarrow> output_loop h (Suc count) (next_node n); Some ((count, number n) # out) })"

definition print_list :: "nodes \<Rightarrow> nat \<Rightarrow> (nat \<times> i32) list option" where
  "print_list h head = output_loop h 1 head"

text \<open>\<open>main\<close>: \<open>ms\<close> are the addresses of its three lists in the order they are allocated.\<close>

definition set_operation :: "node \<Rightarrow> nat list \<Rightarrow> nat list \<Rightarrow> nat list \<Rightarrow> i32 list \<Rightarrow> i32 list \<Rightarrow> (nat \<times> i32) list option" where
  "set_operation junk ma mb mc as bs = do {
     (h, A_head, _) \<leftarrow> input_loop junk ma as (Map.empty, 0, 0, False);
     (h, B_head, _) \<leftarrow> input_loop junk mb bs (h, 0, 0, False);
     (h, A2_head, _) \<leftarrow> copy_nodes junk mc A_head (length as) (h, 0, 0, False);
     (h, A_head) \<leftarrow> list_minus B_head (length as) A_head h;
     (h, B_head) \<leftarrow> list_minus A2_head (length bs) B_head h;
     (h, A_head) \<leftarrow> list_union A_head B_head h;
     print_list h A_head }"

section \<open>Lists in the heap\<close>

text \<open>\<open>seg h p ps xs q\<close>: from \<open>p\<close> the nodes at the addresses \<open>ps\<close> hold \<open>xs\<close> and lead to \<open>q\<close>.\<close>

fun seg :: "nodes \<Rightarrow> nat \<Rightarrow> nat list \<Rightarrow> i32 list \<Rightarrow> nat \<Rightarrow> bool" where
  "seg h p [] xs q \<longleftrightarrow> p = q \<and> xs = []"
| "seg h p (a # ps) xs q \<longleftrightarrow> p = a \<and> a \<noteq> 0 \<and>
     (\<exists>y ys n. xs = y # ys \<and> h a = Some \<lparr>number = y, next_node = n\<rparr> \<and> seg h n ps ys q)"

lemma seg_cong: "(\<And>a. a \<in> set ps \<Longrightarrow> h' a = h a) \<Longrightarrow> seg h' p ps xs q = seg h p ps xs q"
  by (induction ps arbitrary: p xs) auto

lemma seg_update [simp]: "a \<notin> set ps \<Longrightarrow> seg (h(a := n)) p ps xs q = seg h p ps xs q"
  by (rule seg_cong) auto

lemma seg_length: "seg h p ps xs q \<Longrightarrow> length xs = length ps"
  by (induction ps arbitrary: p xs) auto

lemma seg_append: "seg h p (ps @ qs) zs q \<longleftrightarrow> (\<exists>xs ys r. zs = xs @ ys \<and> seg h p ps xs r \<and> seg h r qs ys q)"
  by (induction ps arbitrary: p zs) (auto, metis append_Cons, blast)

lemma seg_zero: "seg h p ps xs 0 \<Longrightarrow> p = 0 \<longleftrightarrow> ps = []"
  by (cases ps) auto

lemma check_loop_simps [simp]:
  "check_loop num h 0 found = Some found"
  "p \<noteq> 0 \<Longrightarrow> h p = Some n \<Longrightarrow>
     check_loop num h p found = check_loop num h (next_node n) (if number n = num then True else found)"
  by (simp_all add: check_loop.simps)

lemma last_node_simps [simp]:
  "h p = Some n \<Longrightarrow> last_node h p = (if next_node n = 0 then Some p else last_node h (next_node n))"
  by (simp add: last_node.simps)

lemma output_loop_simps [simp]:
  "output_loop h c 0 = Some []"
  "p \<noteq> 0 \<Longrightarrow> h p = Some n \<Longrightarrow>
     output_loop h c p = map_option ((#) (c, number n)) (output_loop h (Suc c) (next_node n))"
  by (simp_all add: output_loop.simps map_conv_bind_option)

lemma check_loop_seg:
  "seg h p ps xs 0 \<Longrightarrow> check_loop num h p found = Some (found \<or> num \<in> set xs)"
  by (induction ps arbitrary: p xs found) auto

lemma check_seg: "seg h p ps xs 0 \<Longrightarrow> check num h p = Some (num \<in> set xs)"
  by (simp add: check_def check_loop_seg)

lemma last_node_seg: "seg h p ps xs 0 \<Longrightarrow> ps \<noteq> [] \<Longrightarrow> last_node h p = Some (last ps)"
  by (induction ps arbitrary: p xs) (auto simp: seg_zero)

lemma output_loop_seg: "seg h p ps xs 0 \<Longrightarrow> output_loop h c p = Some (enumerate c xs)"
  by (induction ps arbitrary: p xs c) auto

lemma new_node [simp]: "junk\<lparr>number := x, next_node := q\<rparr> = \<lparr>number = x, next_node = q\<rparr>"
  by (cases junk) simp

text \<open>Linking the last node of a segment to something else.\<close>

lemma put_next_seg:
  assumes "seg h p (ps @ [a]) xs q" "distinct (ps @ [a])"
  obtains h' where "put_next a r h = Some h'" "seg h' p (ps @ [a]) xs r" "\<And>b. b \<noteq> a \<Longrightarrow> h' b = h b"
    "\<And>b. h b = None \<longleftrightarrow> h' b = None"
proof -
  from assms obtain n where n: "h a = Some n" by (auto simp: seg_append)
  show ?thesis
    by (rule that [of "h(a \<mapsto> n\<lparr>next_node := r\<rparr>)"])
      (use assms n in \<open>auto simp: put_next_def seg_append\<close>)
qed

lemma add_node_first:
  "h p2 = Some junk \<Longrightarrow>
   add_node p2 x (h, head, p1, False) = Some (h(p2 \<mapsto> junk\<lparr>number := x, next_node := 0\<rparr>), p2, p2, True)"
  by (simp add: add_node_def put_number_def put_next_def)

lemma add_node_next:
  assumes "seg h head (ps @ [p1]) xs 0" "distinct (ps @ [p1, p2])" "h p2 = Some junk"
    and "p2 \<noteq> 0"
  obtains h' where "add_node p2 x (h, head, p1, True) = Some (h', head, p2, True)"
    "seg h' head (ps @ [p1, p2]) (xs @ [x]) 0" "\<And>b. b \<notin> {p1, p2} \<Longrightarrow> h' b = h b"
proof -
  let ?h = "h(p2 \<mapsto> junk\<lparr>number := x\<rparr>)"
  have "seg ?h head (ps @ [p1]) xs 0" using assms by simp
  then obtain h' where h': "put_next p1 p2 ?h = Some h'" "seg h' head (ps @ [p1]) xs p2" "\<And>b. b \<noteq> p1 \<Longrightarrow> h' b = ?h b"
    by (rule put_next_seg) (use assms(2) in auto)
  have p2: "h' p2 = Some (junk\<lparr>number := x\<rparr>)" using h'(3) [of p2] assms(2) by simp
  show ?thesis
  proof (rule that [of "h'(p2 \<mapsto> junk\<lparr>number := x, next_node := 0\<rparr>)"])
    show "add_node p2 x (h, head, p1, True) = Some (h'(p2 \<mapsto> junk\<lparr>number := x, next_node := 0\<rparr>), head, p2, True)"
    proof -
      have "put_number p2 x h = Some ?h" using assms(3) by (simp add: put_number_def)
      moreover have "put_next p2 0 h' = Some (h'(p2 \<mapsto> junk\<lparr>number := x, next_node := 0\<rparr>))" using p2 by (simp add: put_next_def)
      ultimately show ?thesis using h'(1) by (simp add: add_node_def)
    qed
    have "seg (h'(p2 \<mapsto> junk\<lparr>number := x, next_node := 0\<rparr>)) head (ps @ [p1]) xs p2" using h'(2) assms(2) by simp
    then show "seg (h'(p2 \<mapsto> junk\<lparr>number := x, next_node := 0\<rparr>)) head (ps @ [p1, p2]) (xs @ [x]) 0"
      using assms(4) seg_append [of _ head "ps @ [p1]" "[p2]"] by auto
  qed (use h'(3) in auto)
qed

lemma add_node_frame:
  assumes "add_node p2 x (h, head, p1, sign) = Some (h', st)"
  shows "b \<notin> {p1, p2} \<Longrightarrow> h' b = h b" "fst (snd st) = p2"
  using assms by (auto simp: add_node_def put_number_def put_next_def split: if_splits Option.bind_splits)

lemma input_loop_seg:
  assumes "seg h head (ps @ [p1]) zs 0" "distinct (ps @ [p1] @ ms)" "0 \<notin> set ms" "length xs \<le> length ms"
  shows "\<exists>h' p1'. input_loop junk ms xs (h, head, p1, True) = Some (h', head, p1', True) \<and>
     seg h' head (ps @ [p1] @ take (length xs) ms) (zs @ xs) 0 \<and> (\<forall>b. b \<notin> insert p1 (set ms) \<longrightarrow> h' b = h b)"
  using assms
proof (induction xs arbitrary: h ps p1 ms zs)
  case (Cons x xs)
  from Cons.prems(4) obtain p2 ms' where ms: "ms = p2 # ms'" by (cases ms) auto
  have "seg (h(p2 \<mapsto> junk)) head (ps @ [p1]) zs 0" using Cons.prems(1,2) ms by simp
  then obtain h1 where h1: "add_node p2 x (h(p2 \<mapsto> junk), head, p1, True) = Some (h1, head, p2, True)"
      "seg h1 head (ps @ [p1, p2]) (zs @ [x]) 0" "\<And>b. b \<notin> {p1, p2} \<Longrightarrow> h1 b = (h(p2 \<mapsto> junk)) b"
    by (rule add_node_next [where ?p2.0 = p2 and x = x]) (use Cons.prems ms in auto)
  obtain h' p1' where h': "input_loop junk ms' xs (h1, head, p2, True) = Some (h', head, p1', True)"
      "seg h' head ((ps @ [p1]) @ [p2] @ take (length xs) ms') ((zs @ [x]) @ xs) 0" "\<forall>b. b \<notin> insert p2 (set ms') \<longrightarrow> h' b = h1 b"
    using Cons.IH [of h1 "ps @ [p1]" p2 "zs @ [x]" ms'] h1(2) Cons.prems ms by auto
  show ?case
    by (rule exI [of _ h'], rule exI [of _ p1']) (use h1 h' ms in auto)
qed (auto intro!: exI [of _ p1])

lemma input_seg:
  assumes "distinct ms" "0 \<notin> set ms" "length xs \<le> length ms"
  shows "\<exists>h' head p1 sign. input_loop junk ms xs (h, 0, 0, False) = Some (h', head, p1, sign) \<and>
     seg h' head (take (length xs) ms) xs 0 \<and> (\<forall>b. b \<notin> set ms \<longrightarrow> h' b = h b)"
proof (cases xs)
  case Nil
  then show ?thesis by (auto intro: exI [of _ False])
next
  case (Cons x xs')
  then obtain p2 ms' where ms: "ms = p2 # ms'" using assms(3) by (cases ms) auto
  let ?h = "h(p2 \<mapsto> junk\<lparr>number := x, next_node := 0\<rparr>)"
  have "seg ?h p2 ([] @ [p2]) [x] 0" using assms(2) ms by simp
  from input_loop_seg [OF this, of ms' xs' junk] obtain h' p1' where
    "input_loop junk ms' xs' (?h, p2, p2, True) = Some (h', p2, p1', True)"
    "seg h' p2 (p2 # take (length xs') ms') (x # xs') 0" "\<forall>b. b \<notin> insert p2 (set ms') \<longrightarrow> h' b = ?h b"
    using assms ms Cons by auto
  then show ?thesis
    using ms Cons by (auto simp: add_node_first)
qed

lemma copy_is_input:
  assumes "seg h p3 qs ys 0" "set qs \<inter> set ms = {}" "p1 \<notin> set qs" "length ys \<le> length ms"
  shows "copy_nodes junk ms p3 (length ys) (h, head, p1, sign) = input_loop junk ms ys (h, head, p1, sign)"
  using assms
proof (induction ys arbitrary: h p3 qs ms head p1 sign)
  case (Cons y ys)
  from Cons.prems(1) obtain qs' n where qs: "qs = p3 # qs'" "h p3 = Some \<lparr>number = y, next_node = n\<rparr>" "seg h n qs' ys 0"
    by (cases qs) auto
  from Cons.prems(4) obtain p2 ms' where ms: "ms = p2 # ms'" by (cases ms) auto
  have p3: "p3 \<noteq> p2" using Cons.prems(2) qs(1) ms by auto
  show ?case
  proof (cases "add_node p2 y (h(p2 \<mapsto> junk), head, p1, sign)")
    case None
    then show ?thesis using qs(2) p3 ms by simp
  next
    case (Some st)
    then obtain h' head' sign' where st: "st = (h', head', p2, sign')"
      using add_node_frame(2) [of p2 y "h(p2 \<mapsto> junk)" head p1 sign] by (cases st) auto
    have e: "h' b = h b" if "b \<in> set qs" for b
      using add_node_frame(1) [of p2 y "h(p2 \<mapsto> junk)" head p1 sign h' _ b] Some st that Cons.prems(2,3) ms by auto
    have "seg h' n qs' ys 0" using qs(1,3) e by (subst seg_cong) auto
    from Cons.IH [OF this, of ms' p2 head' sign']
    show ?thesis using Some st qs p3 ms Cons.prems e [of p3] by auto
  qed
qed simp

section \<open>Taking elements out\<close>

lemma minus_loop_behind:
  assumes "seg h head (fs @ [p2]) zs p1" "seg h p1 ps xs 0" "distinct (fs @ [p2] @ ps)"
    and "seg h other os ys 0" "set os \<inter> set (fs @ [p2] @ ps) = {}"
  shows "\<exists>h' ps'. minus_loop other (length xs) (h, head, p1, p2, True) = Some (h', head) \<and>
     seg h' head ps' (zs @ filter (\<lambda>x. x \<notin> set ys) xs) 0 \<and> distinct ps' \<and> set ps' \<subseteq> set (fs @ [p2] @ ps) \<and>
     (\<forall>b. b \<notin> set (fs @ [p2] @ ps) \<longrightarrow> h' b = h b)"
  using assms
proof (induction xs arbitrary: h p1 p2 ps fs zs)
  case Nil
  then have "ps = []" "p1 = 0" using seg_length [OF Nil.prems(2)] by auto
  then show ?case using Nil.prems by (intro exI [of _ h] exI [of _ "fs @ [p2]"]) auto
next
  case (Cons x xs)
  from Cons.prems(2) obtain ps' n where ps: "ps = p1 # ps'" "h p1 = Some \<lparr>number = x, next_node = n\<rparr>" "seg h n ps' xs 0" "p1 \<noteq> 0"
    by (cases ps) auto
  note ck = check_seg [OF Cons.prems(4)]
  show ?case
  proof (cases "x \<in> set ys")
    case True
    have d: "distinct (fs @ [p2])" using Cons.prems(3) by simp
    from put_next_seg [OF Cons.prems(1) d, of n] obtain h' where h': "put_next p2 n h = Some h'"
      "seg h' head (fs @ [p2]) zs n" "\<And>b. b \<noteq> p2 \<Longrightarrow> h' b = h b" by blast
    have "seg h' n ps' xs 0" "seg h' other os ys 0"
      using ps(1,3) Cons.prems(3-5) h'(3) by (subst seg_cong; fastforce)+
    from Cons.IH [OF h'(2) this(1) _ this(2)] obtain h'' qs where
      "minus_loop other (length xs) (h', head, n, p2, True) = Some (h'', head)"
      "seg h'' head qs (zs @ filter (\<lambda>x. x \<notin> set ys) xs) 0" "distinct qs" "set qs \<subseteq> set (fs @ [p2] @ ps')"
      "\<forall>b. b \<notin> set (fs @ [p2] @ ps') \<longrightarrow> h'' b = h' b"
      using Cons.prems(3,5) ps(1) by auto
    moreover have "p1 \<noteq> p2" using Cons.prems(3) ps(1) by auto
    ultimately show ?thesis
      using True ps ck h'(1,3) by (intro exI [of _ h''] exI [of _ qs]) auto
  next
    case False
    have "seg h head ((fs @ [p2]) @ [p1]) (zs @ [x]) n" using Cons.prems(1) ps(2,4) by (auto simp only: seg_append) auto
    from Cons.IH [OF this ps(3) _ Cons.prems(4)] obtain h'' qs where
      "minus_loop other (length xs) (h, head, n, p1, True) = Some (h'', head)"
      "seg h'' head qs ((zs @ [x]) @ filter (\<lambda>x. x \<notin> set ys) xs) 0" "distinct qs" "set qs \<subseteq> set ((fs @ [p2]) @ [p1] @ ps')"
      "\<forall>b. b \<notin> set ((fs @ [p2]) @ [p1] @ ps') \<longrightarrow> h'' b = h b"
      using Cons.prems(3,5) ps(1) by auto
    moreover obtain m where "h p2 = Some m" "next_node m = p1" using Cons.prems(1) by (auto simp: seg_append)
    ultimately show ?thesis
      using False ps ck by (intro exI [of _ h''] exI [of _ qs]) auto
  qed
qed

lemma list_minus_seg:
  assumes "seg h head ps xs 0" "distinct ps" "seg h other os ys 0" "set os \<inter> set ps = {}"
  shows "\<exists>h' head' ps'. list_minus other (length xs) head h = Some (h', head') \<and>
     seg h' head' ps' (filter (\<lambda>x. x \<notin> set ys) xs) 0 \<and> distinct ps' \<and> set ps' \<subseteq> set ps \<and> (\<forall>b. b \<notin> set ps \<longrightarrow> h' b = h b)"
  using assms unfolding list_minus_def
proof (induction xs arbitrary: head ps)
  case Nil
  then show ?case using seg_length [OF Nil.prems(1)] by (intro exI [of _ h] exI [of _ 0] exI [of _ "[]"]) auto
next
  case (Cons x xs)
  from Cons.prems(1) obtain ps' n where ps: "ps = head # ps'" "h head = Some \<lparr>number = x, next_node = n\<rparr>" "seg h n ps' xs 0" "head \<noteq> 0"
    by (cases ps) auto
  note ck = check_seg [OF Cons.prems(3)]
  show ?case
  proof (cases "x \<in> set ys")
    case True
    then show ?thesis using Cons.IH [OF ps(3)] Cons.prems ps ck by fastforce
  next
    case False
    have "seg h head ([] @ [head]) [x] n" using ps by simp
    from minus_loop_behind [OF this ps(3) _ Cons.prems(3)] show ?thesis
      using False Cons.prems ps ck by fastforce
  qed
qed

lemma list_union_seg:
  assumes "seg h a ps xs 0" "distinct ps" "seg h b qs ys 0" "set ps \<inter> set qs = {}"
  shows "\<exists>h' c. list_union a b h = Some (h', c) \<and> seg h' c (ps @ qs) (xs @ ys) 0"
proof (cases "ps = [] \<or> qs = []")
  case True
  then show ?thesis using assms seg_zero [OF assms(1)] seg_zero [OF assms(3)] by (auto simp: list_union_def)
next
  case False
  then have l: "ps = butlast ps @ [last ps]" by simp
  from put_next_seg [of h a "butlast ps" "last ps" xs 0 b] assms(1,2) l obtain h' where
    h': "put_next (last ps) b h = Some h'" "seg h' a ps xs b" "\<And>c. c \<noteq> last ps \<Longrightarrow> h' c = h c" by metis
  have "last ps \<notin> set qs" using False assms(4) last_in_set by blast
  then have "seg h' b qs ys 0" using assms(3) h'(3) seg_cong [of qs h' h] by metis
  then show ?thesis
    using False h'(1,2) last_node_seg [OF assms(1)] seg_zero [OF assms(1)] seg_zero [OF assms(3)]
    by (auto simp: list_union_def seg_append)
qed

section \<open>The program\<close>

text \<open>C31: The program prints the numbers of (A - B) union (B - A), those of \<open>A\<close> first, each list in its order and with its
  repetitions; it ends and never follows a null pointer, whatever the lists are.\<close>

theorem set_operation_correct:
  assumes "distinct (ma @ mb @ mc)" "0 \<notin> set (ma @ mb @ mc)"
    and "length as \<le> length ma" "length bs \<le> length mb" "length as \<le> length mc"
  shows "set_operation junk ma mb mc as bs =
     Some (enumerate 1 (filter (\<lambda>x. x \<notin> set bs) as @ filter (\<lambda>x. x \<notin> set as) bs))"
proof -
  let ?pa = "take (length as) ma" and ?pb = "take (length bs) mb" and ?pc = "take (length as) mc"
  have sub: "set ?pa \<subseteq> set ma" "set ?pb \<subseteq> set mb" "set ?pc \<subseteq> set mc" by (simp_all add: set_take_subset)
  have dis: "distinct ?pa" "distinct ?pb" "distinct ?pc" "set ma \<inter> set mb = {}" "set mc \<inter> set ma = {}" "set mc \<inter> set mb = {}"
    using assms(1) by auto
  have z: "0 \<notin> set ma" "0 \<notin> set mb" "0 \<notin> set mc" and d: "distinct ma" "distinct mb" "distinct mc" using assms(1,2) by auto
  obtain h1 A p1 s1 where 1: "input_loop junk ma as (Map.empty, 0, 0, False) = Some (h1, A, p1, s1)" "seg h1 A ?pa as 0"
    using input_seg [OF d(1) z(1) assms(3), of junk Map.empty] by blast
  obtain h2 B p2 s2 where 2: "input_loop junk mb bs (h1, 0, 0, False) = Some (h2, B, p2, s2)" "seg h2 B ?pb bs 0"
      "\<And>b. b \<notin> set mb \<Longrightarrow> h2 b = h1 b"
    using input_seg [OF d(2) z(2) assms(4), of junk h1] by blast
  have a2: "seg h2 A ?pa as 0" using 1(2) sub(1) dis(4) 2(3) by (subst seg_cong) auto
  obtain h3 C p3 s3 where 3: "input_loop junk mc as (h2, 0, 0, False) = Some (h3, C, p3, s3)" "seg h3 C ?pc as 0"
      "\<And>b. b \<notin> set mc \<Longrightarrow> h3 b = h2 b"
    using input_seg [OF d(3) z(3) assms(5), of junk h2] by blast
  have c: "copy_nodes junk mc A (length as) (h2, 0, 0, False) = Some (h3, C, p3, s3)"
    using copy_is_input [OF a2, of mc 0 junk 0 False] 3(1) sub(1) dis(5) z(1) assms(5) by auto
  have a3: "seg h3 A ?pa as 0" "seg h3 B ?pb bs 0"
    using a2 2(2) sub dis(4-6) 3(3) seg_cong [of ?pa h3 h2] seg_cong [of ?pb h3 h2] by (metis disjoint_iff subset_iff)+
  obtain h4 A' qa where 4: "list_minus B (length as) A h3 = Some (h4, A')" "seg h4 A' qa (filter (\<lambda>x. x \<notin> set bs) as) 0"
      "distinct qa" "set qa \<subseteq> set ?pa" "\<And>b. b \<notin> set ?pa \<Longrightarrow> h4 b = h3 b"
    using list_minus_seg [OF a3(1) dis(1) a3(2)] sub dis(4) by blast
  have "set ?pb \<inter> set ?pa = {}" "set ?pc \<inter> set ?pa = {}" using sub dis(4-6) by blast+
  then have a4: "seg h4 B ?pb bs 0" "seg h4 C ?pc as 0"
    using a3(2) 3(2) seg_cong [of ?pb h4 h3] seg_cong [of ?pc h4 h3] 4(5) by (metis disjoint_iff)+
  obtain h5 B' qb where 5: "list_minus C (length bs) B h4 = Some (h5, B')" "seg h5 B' qb (filter (\<lambda>x. x \<notin> set as) bs) 0"
      "set qb \<subseteq> set ?pb" "\<And>b. b \<notin> set ?pb \<Longrightarrow> h5 b = h4 b"
    using list_minus_seg [OF a4(1) dis(2) a4(2)] sub dis(6) by blast
  have "set qa \<inter> set ?pb = {}" using 4(4) sub dis(4) by blast
  then have "seg h5 A' qa (filter (\<lambda>x. x \<notin> set bs) as) 0" "set qa \<inter> set qb = {}"
    using 4(2) 5(3,4) seg_cong [of qa h5 h4] by (metis disjoint_iff, blast)
  from list_union_seg [OF this(1) 4(3) 5(2) this(2)] obtain h6 D where
    "list_union A' B' h5 = Some (h6, D)" "output_loop h6 1 D = Some (enumerate 1 (filter (\<lambda>x. x \<notin> set bs) as @ filter (\<lambda>x. x \<notin> set as) bs))"
    using output_loop_seg by blast
  then show ?thesis using 1(1) 2(1) c 4(1) 5(1) by (simp add: set_operation_def print_list_def)
qed

theorem set_operation_correct_witness:
  "set_operation \<lparr>number = 9, next_node = 7\<rparr> [8, 24] [16, 40] [32, 48] [1, 2] [2, 5] = Some [(1, 1), (2, 5)]"
  using set_operation_correct [of "[8, 24]" "[16, 40]" "[32, 48]" "[1, 2]" "[2, 5]"] by simp

end
