(* ===== verification/Fastsort.thy ===== *)
theory Fastsort
  imports Prelude "HOL-Library.Multiset"
begin

text \<open>
  The sort program of laboratory 1, \<open>src/lab1/0b/fastsort.c\<close>: it reads records of 100 bytes, sorts them with the \<open>qsort\<close> of
  the C library and writes them.  \<open>qsort\<close> is a parameter; \<open>sorts\<close> is what the C standard promises of it.  The other
  parameters are the memory \<open>malloc\<close> can give in one piece, the contents of fresh memory and the space on the disk.
\<close>

record rec_t =
  key :: "32 word"
  rdata :: "32 word list"

definition BLOCK :: nat where "BLOCK = 10000"

definition rec_size :: nat where "rec_size = 100"

text \<open>The run ends with the exit status, what it printed on standard error and the contents of the output file.\<close>

datatype run_end = Exit (status: int) (message: string) (written: "rec_t list")

definition cmp :: "rec_t \<Rightarrow> rec_t \<Rightarrow> int" where
  "cmp a b = sint (key a - key b)"

text \<open>\<open>makeUpNewRoom\<close>: the array, of \<open>len\<close> records, moves to a temporary and from there to one with \<open>BLOCK\<close> more.\<close>

definition makeUpNewRoom :: "nat \<Rightarrow> (nat \<Rightarrow> rec_t) \<Rightarrow> rec_t list \<Rightarrow> string + rec_t list" where
  "makeUpNewRoom avail fresh arr =
     (let len = length arr in
      if len \<noteq> 0 \<and> avail < rec_size * len \<or> avail < rec_size * (len + BLOCK) then Inl ''Error: failed to allocate memory.''
      else Inr (map (\<lambda>i. if i < len then arr ! i else fresh i) [0..<len + BLOCK]))"

text \<open>A file is a list of whole records and the number of bytes behind the last of them.\<close>

record input_file =
  records :: "rec_t list"
  extra :: nat

fun read_loop :: "nat \<Rightarrow> (nat \<Rightarrow> rec_t) \<Rightarrow> rec_t list \<Rightarrow> nat \<Rightarrow> rec_t list \<Rightarrow> nat \<Rightarrow> string + rec_t list \<times> nat" where
  "read_loop avail fresh [] ex arr n =
     (if ex = 0 then Inr (arr, n) else Inl ''Error: failed to read valid data'')"
| "read_loop avail fresh (r # rs) ex arr n =
     (case (if n = length arr then makeUpNewRoom avail fresh arr else Inr arr) of
        Inl m \<Rightarrow> Inl m
      | Inr arr \<Rightarrow> read_loop avail fresh rs ex (arr[n := r]) (Suc n))"

text \<open>The disk has space for \<open>room\<close> bytes: a write that does not fit is short.\<close>

fun write_loop :: "nat \<Rightarrow> rec_t list \<Rightarrow> rec_t list \<Rightarrow> string option \<times> rec_t list" where
  "write_loop room [] out = (None, out)"
| "write_loop room (r # rs) out =
     (if room < rec_size then (Some ''Error: failed to write data'', out)
      else write_loop (room - rec_size) rs (out @ [r]))"

text \<open>
  \<open>main\<close>: \<open>files\<close> are the files that can be opened for reading, \<open>creat\<close> the names that can be opened for writing.  The message
  for the output file is printed with the newline of its format and that of \<open>err\<close>.
\<close>

definition fastsort ::
  "((rec_t \<Rightarrow> rec_t \<Rightarrow> int) \<Rightarrow> rec_t list \<Rightarrow> rec_t list) \<Rightarrow> nat \<Rightarrow> (nat \<Rightarrow> rec_t) \<Rightarrow> nat \<Rightarrow>
     (string \<Rightarrow> input_file option) \<Rightarrow> (string \<Rightarrow> bool) \<Rightarrow> string list \<Rightarrow> run_end" where
  "fastsort qsort avail fresh room files creat argv =
     (if length argv \<noteq> 3 then Exit 1 ''Usage: fastsort inputfile outputfile'' []
      else case files (argv ! 1) of
        None \<Rightarrow> Exit 1 ''failed to open inputfile'' []
      | Some f \<Rightarrow>
          if \<not> creat (argv ! 2) then Exit 1 (''Error: Cannot open file '' @ argv ! 2 @ [CHR 0x0A]) []
          else case makeUpNewRoom avail fresh [] of
            Inl m \<Rightarrow> Exit 1 m []
          | Inr arr \<Rightarrow>
              (case read_loop avail fresh (records f) (extra f) arr 0 of
                 Inl m \<Rightarrow> Exit 1 m []
               | Inr (arr, n) \<Rightarrow>
                   (case write_loop room (qsort cmp (take n arr)) [] of
                      (Some m, out) \<Rightarrow> Exit 1 m out
                    | (None, out) \<Rightarrow> Exit 0 ''sort completed'' out)))"

section \<open>What the program needs of qsort\<close>

text \<open>C17 7.22.5: the comparison gives a total order of the elements, up to equal ones.\<close>

definition consistent :: "('a \<Rightarrow> 'a \<Rightarrow> int) \<Rightarrow> 'a set \<Rightarrow> bool" where
  "consistent c A \<longleftrightarrow>
     (\<forall>a \<in> A. \<forall>b \<in> A. sgn (c a b) = - sgn (c b a)) \<and>
     (\<forall>a \<in> A. \<forall>b \<in> A. \<forall>d \<in> A. c a b \<le> 0 \<longrightarrow> c b d \<le> 0 \<longrightarrow> c a d \<le> 0)"

definition sorts :: "(('a \<Rightarrow> 'a \<Rightarrow> int) \<Rightarrow> 'a list \<Rightarrow> 'a list) \<Rightarrow> bool" where
  "sorts q \<longleftrightarrow> (\<forall>c xs. consistent c (set xs) \<longrightarrow> mset (q c xs) = mset xs \<and> sorted_wrt (\<lambda>a b. c a b \<le> 0) (q c xs))"

text \<open>An insertion sort is one.\<close>

fun insert_by :: "('a \<Rightarrow> 'a \<Rightarrow> int) \<Rightarrow> 'a \<Rightarrow> 'a list \<Rightarrow> 'a list" where
  "insert_by c x [] = [x]"
| "insert_by c x (y # ys) = (if c x y \<le> 0 then x # y # ys else y # insert_by c x ys)"

fun sort_by :: "('a \<Rightarrow> 'a \<Rightarrow> int) \<Rightarrow> 'a list \<Rightarrow> 'a list" where
  "sort_by c [] = []"
| "sort_by c (x # xs) = insert_by c x (sort_by c xs)"

lemma mset_insert_by [simp]: "mset (insert_by c x ys) = add_mset x (mset ys)"
  by (induction ys) auto

lemma set_insert_by [simp]: "set (insert_by c x ys) = insert x (set ys)"
  by (induction ys) auto

lemma mset_sort_by [simp]: "mset (sort_by c xs) = mset xs"
  by (induction xs) auto

lemma set_sort_by [simp]: "set (sort_by c xs) = set xs"
  by (induction xs) auto

lemma consistent_subset: "consistent c A \<Longrightarrow> B \<subseteq> A \<Longrightarrow> consistent c B"
  unfolding consistent_def by (meson subsetD)

lemma consistent_trans: "consistent c A \<Longrightarrow> a \<in> A \<Longrightarrow> b \<in> A \<Longrightarrow> d \<in> A \<Longrightarrow> c a b \<le> 0 \<Longrightarrow> c b d \<le> 0 \<Longrightarrow> c a d \<le> 0"
  unfolding consistent_def by metis

lemma consistent_total: "consistent c A \<Longrightarrow> a \<in> A \<Longrightarrow> b \<in> A \<Longrightarrow> \<not> c a b \<le> 0 \<Longrightarrow> c b a \<le> 0"
proof -
  assume a: "consistent c A" "a \<in> A" "b \<in> A" "\<not> c a b \<le> 0"
  from a(1-3) have "sgn (c a b) = - sgn (c b a)" unfolding consistent_def by blast
  moreover have "0 < c a b" using a(4) by simp
  ultimately show "c b a \<le> 0" by (simp add: sgn_if split: if_splits)
qed

lemma sorted_insert_by:
  assumes "consistent c (insert x (set ys))" "sorted_wrt (\<lambda>a b. c a b \<le> 0) ys"
  shows "sorted_wrt (\<lambda>a b. c a b \<le> 0) (insert_by c x ys)"
  using assms
proof (induction ys)
  case (Cons y ys)
  have "consistent c (insert x (set ys))" using Cons.prems(1) by (rule consistent_subset) auto
  moreover have "c y x \<le> 0" if "\<not> c x y \<le> 0"
    using consistent_total [OF Cons.prems(1)] that by simp
  moreover have "\<forall>z \<in> set ys. c x z \<le> 0" if "c x y \<le> 0"
    using consistent_trans [OF Cons.prems(1), of x y] Cons.prems(2) that by simp
  ultimately show ?case using Cons.IH Cons.prems(2) by auto
qed simp

lemma sort_by_sorts: "sorts sort_by"
proof -
  have "sorted_wrt (\<lambda>a b. c a b \<le> 0) (sort_by c xs)" if "consistent c (set xs)" for c and xs :: "'a list"
    using that
  proof (induction xs)
    case (Cons x xs)
    then have "consistent c (set xs)" using consistent_subset [of c "set (x # xs)" "set xs"] by auto
    then show ?case using Cons by (simp add: sorted_insert_by)
  qed simp
  then show ?thesis by (simp add: sorts_def)
qed

section \<open>The array and the files\<close>

lemma read_loop_all:
  assumes "n \<le> length arr" "length arr \<le> n + BLOCK" "rec_size * (n + length rs + BLOCK) \<le> avail"
  shows "\<exists>arr'. read_loop avail fresh rs 0 arr n = Inr (arr', n + length rs) \<and>
     take (n + length rs) arr' = take n arr @ rs"
  using assms
proof (induction rs arbitrary: arr n)
  case (Cons r rs)
  obtain arr1 where arr1: "(if n = length arr then makeUpNewRoom avail fresh arr else Inr arr) = Inr arr1"
    "take n arr1 = take n arr" "n < length arr1" "length arr1 \<le> Suc n + BLOCK"
  proof (cases "n = length arr")
    case True
    let ?new = "map (\<lambda>i. if i < n then arr ! i else fresh i) [0..<n + BLOCK]"
    have "makeUpNewRoom avail fresh arr = Inr ?new"
      using True Cons.prems(3) by (simp add: makeUpNewRoom_def Let_def rec_size_def not_less)
    moreover have "take n ?new = arr" using True by (intro nth_equalityI) simp_all
    ultimately show ?thesis using that [of ?new] True by (simp add: BLOCK_def)
  next
    case False
    then show ?thesis using that [of arr] Cons.prems by simp
  qed
  have "take (Suc n) (arr1[n := r]) = take n arr @ [r]"
    using arr1(2,3) by (simp add: take_Suc_conv_app_nth)
  moreover obtain arr' where "read_loop avail fresh rs 0 (arr1[n := r]) (Suc n) = Inr (arr', Suc n + length rs)"
    "take (Suc n + length rs) arr' = take (Suc n) (arr1[n := r]) @ rs"
    using Cons.IH [of "Suc n" "arr1[n := r]"] Cons.prems(3) arr1(3,4) by auto
  ultimately show ?case using arr1(1) by simp
qed auto

lemma write_loop_fits: "rec_size * length rs \<le> room \<Longrightarrow> write_loop room rs out = (None, out @ rs)"
  by (induction rs arbitrary: room out) (auto simp: rec_size_def)

lemma sint_of_int: "\<bar>i\<bar> < 2147483648 \<Longrightarrow> sint (of_int i :: 32 word) = i"
  by (simp add: signed_of_int signed_take_bit_int_eq_self)


lemma fastsort_runs:
  assumes "files (argv ! 1) = Some f" "creat (argv ! 2)" "length argv = 3" "extra f = 0"
    and "rec_size * (length (records f) + BLOCK) \<le> avail" "length (qsort cmp (records f)) = length (records f)"
    and "rec_size * length (records f) \<le> room"
  shows "fastsort qsort avail fresh room files creat argv = Exit 0 ''sort completed'' (qsort cmp (records f))"
proof -
  have "makeUpNewRoom avail fresh [] = Inr (map fresh [0..<BLOCK])"
    using assms(5) by (simp add: makeUpNewRoom_def rec_size_def not_less)
  moreover obtain arr' where "read_loop avail fresh (records f) 0 (map fresh [0..<BLOCK]) 0 = Inr (arr', length (records f))"
      "take (length (records f)) arr' = records f"
    using read_loop_all [of 0 "map fresh [0..<BLOCK]" "records f" avail fresh] assms(5) by auto
  ultimately show ?thesis using assms write_loop_fits [of "qsort cmp (records f)" room "[]"] by (simp add: fastsort_def)
qed


text \<open>A file whose two records have keys more than 2^31 apart comes out in the wrong order: the difference of the keys
  wraps around.\<close>

theorem fastsort_wrong_order:
  assumes "sorts qsort" "files (argv ! 1) = Some \<lparr>records = [a, b], extra = 0\<rparr>" "creat (argv ! 2)" "length argv = 3"
    and "rec_size * (2 + BLOCK) \<le> avail" "rec_size * 2 \<le> room" "2 ^ 31 < uint (key b) - uint (key a)"
  shows "fastsort qsort avail fresh room files creat argv = Exit 0 ''sort completed'' [b, a]"
proof -
  have r: "uint (key b) < 4294967296" "0 \<le> uint (key a)" "2147483648 < uint (key b) - uint (key a)"
    using uint_lt2p [of "key b"] assms(7) by auto
  then have s: "\<bar>uint (key a) - uint (key b) + 4294967296\<bar> < 2147483648" "\<bar>uint (key b) - uint (key a) - 4294967296\<bar> < 2147483648"
    by linarith+
  moreover have z: "(4294967296 :: 32 word) = 0" by (simp add: word_unat_eq_iff)
  ultimately have c: "cmp a b = uint (key a) - uint (key b) + 4294967296" "cmp b a = uint (key b) - uint (key a) - 4294967296"
      "cmp a a = 0" "cmp b b = 0"
    using sint_of_int [OF s(1)] sint_of_int [OF s(2)] unfolding cmp_def by (simp_all add: z)
  have "consistent cmp {a, b}" using c r by (auto simp: consistent_def sgn_if)
  then have q: "mset (qsort cmp [a, b]) = {#a, b#}" "sorted_wrt (\<lambda>a b. cmp a b \<le> 0) (qsort cmp [a, b])"
    using assms(1) by (auto simp: sorts_def)
  have "length (qsort cmp [a, b]) = 2" using mset_eq_length [of "qsort cmp [a, b]" "[a, b]"] q(1) by simp
  then obtain x y where xy: "qsort cmp [a, b] = [x, y]" by (auto simp: length_Suc_conv numeral_2_eq_2)
  moreover have "0 < cmp a b" using c(1) r by linarith
  ultimately have "x = b \<and> y = a" using q by (auto simp: add_eq_conv_ex)
  then show ?thesis using fastsort_runs [of files argv "\<lparr>records = [a, b], extra = 0\<rparr>" creat avail qsort room fresh] assms(2-6) xy by simp
qed



theorem fastsort_wrong_order_witness:
  "fastsort sort_by 2000000 (\<lambda>_. \<lparr>key = 0, rdata = []\<rparr>) 200
     (\<lambda>_. Some \<lparr>records = [\<lparr>key = 0, rdata = []\<rparr>, \<lparr>key = 0xFFFFFFFF, rdata = []\<rparr>], extra = 0\<rparr>) (\<lambda>_. True) [''fastsort'', ''a'', ''b''] =
   Exit 0 ''sort completed'' [\<lparr>key = 0xFFFFFFFF, rdata = []\<rparr>, \<lparr>key = 0, rdata = []\<rparr>]"
  by (rule fastsort_wrong_order [OF sort_by_sorts]) (simp_all add: BLOCK_def rec_size_def)

end
