(* ===== verification/Mysh.thy ===== *)
theory Mysh
  imports Prelude "HOL-Library.Sublist"
begin

text \<open>
  The shell of laboratory 2, \<open>src/lab2/shell\<close>: \<open>util.c\<close>, \<open>cmd.c\<close>, \<open>pipe.c\<close> and \<open>mysh.c\<close>.  A C string is the list of its
  characters.  Parsing is a function of the line; what the shell does with the commands is a tree of system calls whose
  branches are the results, with a branch for the child and one for the parent at a \<open>fork\<close>.  Debugging output is off in
  the build and is left out.
\<close>

section \<open>Strings\<close>

definition SIZE :: nat where "SIZE = 520"

abbreviation newline :: char where "newline \<equiv> CHR 0x0A"
abbreviation bell :: char where "bell \<equiv> CHR 0x07"

definition trim :: "string \<Rightarrow> string" where
  "trim s = rev (dropWhile (\<lambda>c. c = CHR '' '' \<or> c = newline) (rev s))"

definition replacechr :: "string \<Rightarrow> nat \<Rightarrow> nat \<Rightarrow> char \<Rightarrow> char \<Rightarrow> string" where
  "replacechr s l r a b = map (\<lambda>i. if l \<le> i \<and> i \<le> r \<and> s ! i = a then b else s ! i) [0..<length s]"

lemma dropWhile_shorter: "xs \<noteq> [] \<Longrightarrow> P (hd xs) \<Longrightarrow> length (dropWhile P xs) < length xs"
  by (cases xs) (auto simp: length_dropWhile_le le_imp_less_Suc)

text \<open>The tokens that repeated calls of \<open>strtok_r\<close> return.\<close>

function tokens :: "char set \<Rightarrow> string \<Rightarrow> string list" where
  "tokens ds s =
     (let t = dropWhile (\<lambda>c. c \<in> ds) s in
      if t = [] then []
      else takeWhile (\<lambda>c. c \<notin> ds) t # tokens ds (dropWhile (\<lambda>c. c \<notin> ds) t))"
  by pat_completeness auto

termination
proof (relation "measure (length \<circ> snd)")
  fix ds s and t :: string
  assume t: "t = dropWhile (\<lambda>c. c \<in> ds) s" "t \<noteq> []"
  then have "hd t \<notin> ds" using hd_dropWhile [of "\<lambda>c. c \<in> ds" s] by simp
  then have "length (dropWhile (\<lambda>c. c \<notin> ds) t) < length t" using t(2) by (intro dropWhile_shorter)
  also have "length t \<le> length s" using t(1) by (simp add: length_dropWhile_le)
  finally show "((ds, dropWhile (\<lambda>c. c \<notin> ds) t), ds, s) \<in> measure (length \<circ> snd)" by simp
qed simp

declare tokens.simps [simp del]

text \<open>
  \<open>parse\<close>: the tokens are first copied into a static array of \<open>SIZE / 2\<close> strings of \<open>SIZE\<close> bytes; writing past it is
  \<open>None\<close>.  The empty token that \<open>allowEmpty\<close> is about never occurs.
\<close>

definition parse :: "string \<Rightarrow> char set \<Rightarrow> string list option" where
  "parse s ds =
     (let ts = tokens ds s in
      if length ts \<le> SIZE div 2 \<and> (\<forall>t \<in> set ts. length t < SIZE) then Some ts else None)"

section \<open>Parsing a line\<close>

text \<open>\<open>newCommand\<close>: the words of a command.\<close>

definition unmask :: "string \<Rightarrow> string" where
  "unmask w = replacechr (replacechr w 0 (length w - 1) CHR ''*'' CHR '' '') 0 (length w - 1) bell CHR ''|''"

definition newCommand :: "string \<Rightarrow> string list option" where
  "newCommand s = map_option (map unmask) (parse s {CHR '' '', newline})"

text \<open>The loop of \<open>parseLine\<close> over quoted parts: blanks and bars in them are masked, the quotes become blanks.\<close>

definition find_char :: "char \<Rightarrow> nat \<Rightarrow> string \<Rightarrow> nat option" where
  "find_char c i s = find (\<lambda>j. s ! j = c) [i..<length s]"

definition mask_part :: "string \<Rightarrow> nat \<Rightarrow> nat \<Rightarrow> string" where
  "mask_part s i j = replacechr (replacechr (replacechr s i j CHR '' '' CHR ''*'') i j CHR ''|'' bell) i j CHR 0x22 CHR '' ''"

lemma length_replacechr [simp]: "length (replacechr s l r a b) = length s"
  by (simp add: replacechr_def)

lemma length_mask [simp]: "length (mask_part s i j) = length s"
  by (simp add: mask_part_def)

lemma find_char_Some: "find_char c i s = Some j \<Longrightarrow> i \<le> j \<and> j < length s \<and> s ! j = c"
  by (auto simp: find_char_def find_Some_iff)

function quote_loop :: "nat \<Rightarrow> string \<Rightarrow> string option" where
  "quote_loop i s =
     (if i < length s then
        if s ! i = CHR 0x22 then
          (case find_char CHR 0x22 (Suc i) s of None \<Rightarrow> None | Some j \<Rightarrow> quote_loop (Suc j) (mask_part s i j))
        else quote_loop (Suc i) s
      else Some s)"
  by pat_completeness auto
termination
  by (relation "measure (\<lambda>(i, s). length s - i)") (auto dest!: find_char_Some)

declare quote_loop.simps [simp del]

text \<open>
  \<open>parseLine\<close>: whether the line asks for the background, and its commands.  \<open>Some None\<close> is the null pointer: an ampersand
  that is not at the end, an open quote, or no command at all.
\<close>

definition parse_commands :: "string \<Rightarrow> string list list option option" where
  "parse_commands s =
     (case parse s {CHR ''|'', newline} of
        None \<Rightarrow> None
      | Some ts \<Rightarrow>
          if \<exists>t \<in> set ts. newCommand t = None then None
          else Some (if ts = [] then None else Some (map (the \<circ> newCommand) ts)))"

definition parseLine :: "string \<Rightarrow> bool \<times> string list list option option" where
  "parseLine line =
     (let s = trim line;
          rest = (\<lambda>s. case quote_loop 0 s of None \<Rightarrow> Some None | Some s \<Rightarrow> parse_commands s)
      in case find_char CHR ''&'' 0 s of
           None \<Rightarrow> (False, rest s)
         | Some i \<Rightarrow> if 1 < length s - i then (False, Some None) else (True, rest (take i s)))"

section \<open>System calls\<close>

datatype mcall =
    MClose nat | MDup2 nat nat | MOpen string | MExec "string list" | MWrite nat string | MChdir string | MWait int

datatype mprog =
    MRet int
  | MExit int
  | Crash
  | MCall mcall "int \<Rightarrow> mprog"
  | MPipe "nat \<Rightarrow> nat \<Rightarrow> mprog"
  | MGetcwd "string \<Rightarrow> mprog"
  | MFork mprog "int \<Rightarrow> mprog"

definition error_message :: string where
  "error_message = ''An error has occurred'' @ [newline]"

definition report_err :: "mprog \<Rightarrow> mprog" where
  "report_err k = MCall (MWrite 2 error_message) (\<lambda>_. k)"

text \<open>\<open>closeRead\<close> and \<open>closeWrite\<close> of the pipe on one side of a command, if there is one.\<close>

definition on_pipe :: "(nat \<times> nat \<Rightarrow> nat) \<Rightarrow> (nat \<times> nat) option \<Rightarrow> mprog \<Rightarrow> mprog" where
  "on_pipe e p k = (case p of None \<Rightarrow> k | Some p \<Rightarrow> MCall (MClose (e p)) (\<lambda>_. k))"

section \<open>Redirection\<close>

text \<open>\<open>tryRedirectold\<close>, for the commands of the shell itself: the words that remain go to \<open>ok\<close>.\<close>

definition tryRedirectold :: "string list \<Rightarrow> mprog \<Rightarrow> (string list \<Rightarrow> mprog) \<Rightarrow> mprog" where
  "tryRedirectold argv fail ok =
     (case filter (\<lambda>i. argv ! i = ''>'') [0..<length argv] of
        [] \<Rightarrow> ok argv
      | [pos] \<Rightarrow>
          if int pos \<noteq> int (length argv) - 2 then fail
          else MCall (MOpen (last argv)) (\<lambda>fd. if fd < 0 then fail else MCall (MDup2 (nat fd) 1) (\<lambda>_. ok (take pos argv)))
      | _ \<Rightarrow> fail)"

text \<open>\<open>tryRedirect\<close>, for the others: \<open>done\<close> are the words before the one it looks at.\<close>

fun tryRedirect :: "string list \<Rightarrow> string list \<Rightarrow> mprog \<Rightarrow> (string list \<Rightarrow> mprog) \<Rightarrow> mprog" where
  "tryRedirect before [] fail ok = ok before"
| "tryRedirect before (w # ws) fail ok =
     (let open_to = (\<lambda>f rest. MCall (MOpen f) (\<lambda>fd. if fd < 0 then fail else MCall (MDup2 (nat fd) 1) (\<lambda>_. ok rest))) in
      case find_char CHR ''>'' 0 w of
        None \<Rightarrow> tryRedirect (before @ [w]) ws fail ok
      | Some p \<Rightarrow>
          if length w = 1 then (case ws of [f] \<Rightarrow> open_to f before | _ \<Rightarrow> fail)
          else if Suc p = length w then (case ws of [f] \<Rightarrow> open_to f (before @ [take p w]) | _ \<Rightarrow> fail)
          else if ws \<noteq> [] then fail
          else open_to (drop (Suc p) w) (if p = 0 then before else before @ [take p w]))"

section \<open>Running the commands of a line\<close>

definition isBuiltIn :: "string \<Rightarrow> bool" where
  "isBuiltIn w \<longleftrightarrow> w = ''exit'' \<or> w = ''cd'' \<or> w = ''wait'' \<or> w = ''pwd''"

text \<open>
  \<open>tryBuiltIn\<close> on a command with a name: \<open>out\<close> is what the buffer holds afterwards, \<open>junk\<close> what it held before.  The list
  \<open>bghead\<close> of background commands is always empty, so that \<open>wait\<close> waits for nothing.
\<close>

definition tryBuiltIn :: "string \<Rightarrow> string \<Rightarrow> string list \<Rightarrow> mprog \<Rightarrow> (string \<Rightarrow> mprog) \<Rightarrow> mprog" where
  "tryBuiltIn home junk argv fail ok =
     (if hd argv = ''exit'' then (if tl argv \<noteq> [] then fail else MExit 0)
      else if hd argv = ''pwd'' then
        (if tl argv \<noteq> [] then fail else MGetcwd (\<lambda>d. ok (d @ [newline])))
      else if hd argv = ''cd'' then
        MCall (MChdir (if tl argv = [] then home else argv ! 1)) (\<lambda>r. if r = - 1 then fail else ok junk)
      else if tl argv \<noteq> [] then fail else ok junk)"

text \<open>The child of an external command.\<close>

definition child :: "string list \<Rightarrow> (nat \<times> nat) option \<Rightarrow> (nat \<times> nat) option \<Rightarrow> bool \<Rightarrow> mprog" where
  "child argv pleft pright has_buf =
     (let left = (\<lambda>k. case pleft of
                     None \<Rightarrow> k
                   | Some p \<Rightarrow> on_pipe snd (if has_buf then pleft else None) (MCall (MDup2 (fst p) 0) (\<lambda>_. k)));
          right = (\<lambda>k. case pright of
                     None \<Rightarrow> k
                   | Some p \<Rightarrow> MCall (MClose (fst p)) (\<lambda>_. MCall (MDup2 (snd p) 1) (\<lambda>_. k)))
      in left (right (tryRedirect [] argv (report_err (MExit (- 1))) (\<lambda>argv.
           MCall (MExec argv) (\<lambda>_. report_err (on_pipe snd pright (on_pipe fst pleft (MExit (- 1)))))))))"

text \<open>The body of the loop of \<open>runCmdWithPipe\<close>; \<open>k\<close> gets the new buffer and the new list of children.\<close>

definition run_one ::
  "string \<Rightarrow> string \<Rightarrow> string list \<Rightarrow> (nat \<times> nat) option \<Rightarrow> (nat \<times> nat) option \<Rightarrow> string option \<Rightarrow> int list \<Rightarrow>
     (string option \<Rightarrow> int list \<Rightarrow> mprog) \<Rightarrow> mprog" where
  "run_one home junk argv pleft pright buf pids k =
     (let next = (\<lambda>buf pids. MCall (MDup2 0 0) (\<lambda>_. MCall (MDup2 0 1) (\<lambda>_. k buf pids))) in
      if argv = [] then Crash
      else if isBuiltIn (hd argv) then
        on_pipe fst pleft (tryRedirectold argv (MRet (- 1)) (\<lambda>argv.
          tryBuiltIn home junk argv (MRet (- 1)) (\<lambda>out. next (Some out) pids)))
      else
        MFork (child argv pleft pright (buf \<noteq> None)) (\<lambda>pid.
          if pid = - 1 then MRet (- 1)
          else
            let close_right = on_pipe snd pright (next None (pids @ [pid])) in
            case (buf, pleft) of
              (None, _) \<Rightarrow> close_right
            | (Some b, None) \<Rightarrow> Crash
            | (Some b, Some p) \<Rightarrow>
                MCall (MClose (fst p)) (\<lambda>_. MCall (MWrite (snd p) b) (\<lambda>_. MCall (MClose (snd p)) (\<lambda>_. close_right)))))"

primrec wait_all :: "int list \<Rightarrow> mprog \<Rightarrow> mprog" where
  "wait_all [] k = k"
| "wait_all (p # ps) k = MCall (MWait p) (\<lambda>_. wait_all ps k)"

text \<open>The constants \<open>ORIGIN_STDIN_FILENO\<close> and \<open>ORIGIN_STDOUT_FILENO\<close> are never set: both are 0.\<close>

fun run_loop ::
  "bool \<Rightarrow> string \<Rightarrow> string \<Rightarrow> (nat \<times> nat) option \<Rightarrow> string option \<Rightarrow> int list \<Rightarrow> string list list \<Rightarrow> mprog" where
  "run_loop bg home junk pleft buf pids [] =
     wait_all (if bg then [] else pids) (case buf of None \<Rightarrow> MRet 0 | Some b \<Rightarrow> MCall (MWrite 1 b) (\<lambda>_. MRet 0))"
| "run_loop bg home junk pleft buf pids [c] =
     run_one home junk c pleft None buf pids (\<lambda>buf pids. run_loop bg home junk None buf pids [])"
| "run_loop bg home junk pleft buf pids (c # d # cs) =
     MPipe (\<lambda>r w. run_one home junk c pleft (Some (r, w)) buf pids
       (\<lambda>buf pids. run_loop bg home junk (Some (r, w)) buf pids (d # cs)))"

definition runCmdWithPipe :: "bool \<Rightarrow> string \<Rightarrow> string \<Rightarrow> string list list \<Rightarrow> mprog" where
  "runCmdWithPipe bg home junk cs = run_loop bg home junk None None [] cs"

section \<open>The main loop\<close>

text \<open>What follows when a program returns.\<close>

primrec mbind :: "mprog \<Rightarrow> (int \<Rightarrow> mprog) \<Rightarrow> mprog" where
  "mbind (MRet r) f = f r"
| "mbind (MExit r) f = MExit r"
| "mbind Crash f = Crash"
| "mbind (MCall c k) f = MCall c (\<lambda>r. mbind (k r) f)"
| "mbind (MPipe k) f = MPipe (\<lambda>r w. mbind (k r w) f)"
| "mbind (MGetcwd k) f = MGetcwd (\<lambda>d. mbind (k d) f)"
| "mbind (MFork p k) f = MFork p (\<lambda>r. mbind (k r) f)"

text \<open>\<open>fgets\<close> of the C library: the line with its newline, cut to \<open>n - 1\<close> characters.\<close>

definition fgets :: "nat \<Rightarrow> string \<Rightarrow> string \<times> string" where
  "fgets n s =
     (let l = (if newline \<in> set s then length (takeWhile (\<lambda>c. c \<noteq> newline) s) + 1 else length s);
          m = min l (n - 1)
      in (take m s, drop m s))"

definition run_line :: "string \<Rightarrow> string \<Rightarrow> string \<Rightarrow> mprog \<Rightarrow> mprog" where
  "run_line home junk line k =
     (case parseLine line of
        (bg, None) \<Rightarrow> Crash
      | (bg, Some None) \<Rightarrow> report_err k
      | (bg, Some (Some cs)) \<Rightarrow> mbind (runCmdWithPipe bg home junk cs) (\<lambda>r. if r = - 1 then report_err k else k))"

function mysh_loop :: "bool \<Rightarrow> string \<Rightarrow> string \<Rightarrow> string \<Rightarrow> mprog" where
  "mysh_loop batch home junk inp =
     (let prompt = (\<lambda>k. if batch then k else MCall (MWrite 1 ''mysh> '') (\<lambda>_. k));
          echo = (\<lambda>line k. if batch then MCall (MWrite 1 line) (\<lambda>_. k) else k)
      in prompt (
         if inp = [] then echo [] (MRet 0)
         else case fgets SIZE inp of (line, inp') \<Rightarrow>
           if 512 < length line then report_err (mysh_loop batch home junk inp')
           else echo line (
             if length line = 1 then mysh_loop batch home junk inp'
             else run_line home junk line (mysh_loop batch home junk inp'))))"
  by pat_completeness auto
termination
  by (relation "measure (\<lambda>(_, _, _, inp). length inp)") (auto simp: fgets_def Let_def SIZE_def)

declare mysh_loop.simps [simp del]

text \<open>\<open>main\<close>: \<open>batch\<close> is the contents of the batch file, or nothing when it cannot be opened; without one the shell reads
  its standard input.\<close>

definition mysh :: "string \<Rightarrow> string \<Rightarrow> string option option \<Rightarrow> string \<Rightarrow> mprog" where
  "mysh home junk batch inp =
     (let start = (\<lambda>b s. MCall (MDup2 0 0) (\<lambda>_. MCall (MDup2 1 0) (\<lambda>_. mysh_loop b home junk s)))
      in case batch of
           None \<Rightarrow> start False inp
         | Some None \<Rightarrow> report_err (MExit (- 1))
         | Some (Some s) \<Rightarrow> start True s)"

section \<open>Quotes\<close>

definition mask_char :: "char \<Rightarrow> char" where
  "mask_char c = (if c = CHR '' '' then CHR ''*'' else if c = CHR ''|'' then bell else c)"

text \<open>What the loop over quotes means.\<close>

fun unquote :: "bool \<Rightarrow> string \<Rightarrow> string option" where
  "unquote q [] = (if q then None else Some [])"
| "unquote q (c # s) =
     (if c = CHR 0x22 then map_option ((#) CHR '' '') (unquote (\<not> q) s)
      else map_option ((#) (if q then mask_char c else c)) (unquote q s))"

lemma nth_replacechr: "k < length s \<Longrightarrow> replacechr s l r a b ! k = (if l \<le> k \<and> k \<le> r \<and> s ! k = a then b else s ! k)"
  by (simp add: replacechr_def)

lemma nth_mask:
  "k < length s \<Longrightarrow> mask_part s i j ! k =
     (if i \<le> k \<and> k \<le> j then (if s ! k = CHR 0x22 then CHR '' '' else mask_char (s ! k)) else s ! k)"
  by (auto simp: mask_part_def nth_replacechr mask_char_def)

lemma unquote_inside: "CHR 0x22 \<notin> set q \<Longrightarrow>
  unquote b (q @ s) = map_option ((@) (if b then map mask_char q else q)) (unquote b s)"
proof (induction q)
  case Nil
  then show ?case by (cases "unquote b s") auto
next
  case (Cons c q)
  then show ?case by (cases "unquote b s") auto
qed

lemma find_char_None: "i \<le> length s \<Longrightarrow> find_char c i s = None \<Longrightarrow> c \<notin> set (drop i s)"
  by (auto simp: find_char_def find_None_iff in_set_conv_nth)

lemma find_char_first: "find_char c i s = Some j \<Longrightarrow> c \<notin> set (take (j - i) (drop i s))"
  by (auto simp: find_char_def find_Some_iff in_set_conv_nth nth_append)

lemma take_mask:
  assumes "find_char CHR 0x22 (Suc i) s = Some j" "i < length s" "s ! i = CHR 0x22"
  shows "take (Suc j) (mask_part s i j) = take i s @ [CHR '' ''] @ map mask_char (take (j - Suc i) (drop (Suc i) s)) @ [CHR '' '']"
    and "drop (Suc j) (mask_part s i j) = drop (Suc j) s"
    and "drop (Suc i) s = take (j - Suc i) (drop (Suc i) s) @ CHR 0x22 # drop (Suc j) s"
proof -
  have j: "Suc i \<le> j" "j < length s" "s ! j = CHR 0x22" using find_char_Some [OF assms(1)] by auto
  have q: "s ! k \<noteq> CHR 0x22" if "i < k" "k < j" for k
    using find_char_first [OF assms(1)] that j(2) by (auto simp: in_set_conv_nth dest: spec [of _ "k - Suc i"])
  show "take (Suc j) (mask_part s i j) = take i s @ [CHR '' ''] @ map mask_char (take (j - Suc i) (drop (Suc i) s)) @ [CHR '' '']"
  proof (rule nth_equalityI)
    fix k assume "k < length (take (Suc j) (mask_part s i j))"
    then have k: "k \<le> j" using j by simp
    then consider "k < i" | "k = i" | "Suc i \<le> k" "k < j" | "k = j" by linarith
    then show "take (Suc j) (mask_part s i j) ! k =
        (take i s @ [CHR '' ''] @ map mask_char (take (j - Suc i) (drop (Suc i) s)) @ [CHR '' '']) ! k"
    proof cases
      case 3
      then obtain e where e: "k = Suc i + e" using le_Suc_ex by blast
      then have "s ! k \<noteq> CHR 0x22" "e < j - Suc i" using q [of k] 3 by auto
      then show ?thesis using k j by (simp add: e nth_mask nth_append)
    next
      case 4
      then obtain e where "j = Suc i + e" using le_Suc_ex j(1) by blast
      then show ?thesis using 4 j by (simp add: nth_mask nth_append)
    qed (use assms(3) j k in \<open>simp_all add: nth_mask nth_append\<close>)
  qed (use j in simp)
  show "drop (Suc j) (mask_part s i j) = drop (Suc j) s"
    by (rule nth_equalityI) (use j in \<open>auto simp: nth_mask\<close>)
  have "drop (Suc i) s = take (j - Suc i) (drop (Suc i) s) @ drop (j - Suc i) (drop (Suc i) s)"
    by (rule append_take_drop_id [symmetric])
  also have "drop (j - Suc i) (drop (Suc i) s) = s ! j # drop (Suc j) s" using j Cons_nth_drop_Suc [of j s] by simp
  finally show "drop (Suc i) s = take (j - Suc i) (drop (Suc i) s) @ CHR 0x22 # drop (Suc j) s" using j(3) by simp
qed

lemma quote_loop_unquote: "i \<le> length s \<Longrightarrow> quote_loop i s = map_option ((@) (take i s)) (unquote False (drop i s))"
proof (induction i s rule: quote_loop.induct)
  case (1 i s)
  show ?case
  proof (cases "i < length s")
    case False
    then show ?thesis using 1(3) by (subst quote_loop.simps) simp
  next
    case i: True
    have d: "drop i s = s ! i # drop (Suc i) s" using i Cons_nth_drop_Suc [of i s] by simp
    show ?thesis
    proof (cases "s ! i = CHR 0x22")
      case False
      then show ?thesis using 1(2) [OF i False] i
        by (simp add: quote_loop.simps [of i s] d take_Suc_conv_app_nth option.map_comp comp_def)
    next
      case quote: True
      show ?thesis
      proof (cases "find_char CHR 0x22 (Suc i) s")
        case None
        have "CHR 0x22 \<notin> set (drop (Suc i) s)" using find_char_None [OF _ None] i by simp
        then have "unquote True (drop (Suc i) s) = None" using unquote_inside [of "drop (Suc i) s" True "[]"] by simp
        then show ?thesis using None quote i by (simp add: quote_loop.simps [of i s] d)
      next
        case (Some j)
        note t = take_mask [OF Some i quote]
        have j: "Suc i \<le> j" "j < length s" using find_char_Some [OF Some] by auto
        have "unquote True (drop (Suc i) s) =
            map_option (\<lambda>r. map mask_char (take (j - Suc i) (drop (Suc i) s)) @ CHR '' '' # r) (unquote False (drop (Suc j) s))"
          by (subst t(3)) (simp add: unquote_inside [OF find_char_first [OF Some]] option.map_comp comp_def)
        then show ?thesis using 1(1) [OF i quote Some] Some quote i j t(1,2)
          by (simp add: quote_loop.simps [of i s] d option.map_comp comp_def)
      qed
    qed
  qed
qed

text \<open>The loop of \<open>parseLine\<close> over the indices of the line, which masks each quoted part three times, has the effect of one
  pass over the characters that remembers whether it is inside quotes.\<close>

theorem quote_loop_is_one_pass: "quote_loop 0 s = unquote False s"
  using quote_loop_unquote [of 0 s] by (cases "unquote False s") simp_all

section \<open>Tokens\<close>

lemma tokens_Nil [simp]: "tokens ds [] = []"
  by (simp add: tokens.simps)

lemma tokens_skip [simp]: "d \<in> ds \<Longrightarrow> tokens ds (d # s) = tokens ds s"
  by (simp add: tokens.simps [of ds "d # s"] tokens.simps [of ds s])

lemma tokens_blanks [simp]: "CHR '' '' \<in> ds \<Longrightarrow> tokens ds (replicate k CHR '' '' @ s) = tokens ds s"
  by (induction k) auto

lemma tokens_word:
  assumes "w \<noteq> []" "set w \<inter> ds = {}" "s = [] \<or> hd s \<in> ds"
  shows "tokens ds (w @ s) = w # tokens ds s"
proof -
  have h: "dropWhile (\<lambda>c. c \<in> ds) (w @ s) = w @ s" using assms(1,2) by (cases w) auto
  have "takeWhile (\<lambda>c. c \<notin> ds) (w @ s) = w" "dropWhile (\<lambda>c. c \<notin> ds) (w @ s) = s"
    using assms(2,3) by (induction w) (auto simp: takeWhile_eq_Nil_iff dropWhile_eq_self_iff)
  then show ?thesis using h assms(1) by (subst tokens.simps) (simp add: Let_def)
qed

lemma tokens_bounds: "2 * length (tokens ds s) \<le> Suc (length s) \<and> (\<forall>t \<in> set (tokens ds s). length t \<le> length s)"
proof (induction s rule: length_induct)
  case (1 s)
  show ?case
  proof (cases s)
    case (Cons c r)
    show ?thesis
    proof (cases "c \<in> ds")
      case True
      then show ?thesis using 1 Cons by fastforce
    next
      case False
      let ?w = "takeWhile (\<lambda>c. c \<notin> ds) s" and ?r = "dropWhile (\<lambda>c. c \<notin> ds) s"
      have w: "?w \<noteq> []" "set ?w \<inter> ds = {}" using Cons False by (auto dest: set_takeWhileD)
      have r: "?r = [] \<or> hd ?r \<in> ds" using hd_dropWhile [of "\<lambda>c. c \<notin> ds" s] by auto
      have t: "tokens ds s = ?w # tokens ds ?r" using tokens_word [OF w r] by simp
      have l: "length s = length ?w + length ?r" by (metis length_append takeWhile_dropWhile_id)
      have "2 * length (tokens ds ?r) \<le> length ?r \<and> (\<forall>t \<in> set (tokens ds ?r). length t \<le> length ?r)"
      proof (cases ?r)
        case (Cons d r')
        then have "tokens ds ?r = tokens ds r'" using r by simp
        moreover have "length r' < length s" using Cons l by simp
        ultimately show ?thesis using 1 Cons by fastforce
      next
        case Nil
        show ?thesis unfolding Nil by simp
      qed
      moreover obtain n where "length ?w = Suc n" using w(1) by (cases "length ?w") auto
      ultimately show ?thesis unfolding t using l by auto
    qed
  qed simp
qed

lemma parse_fits: "length s < SIZE \<Longrightarrow> parse s ds = Some (tokens ds s)"
  using tokens_bounds [of ds s] by (auto simp: parse_def Let_def SIZE_def)

lemma length_trim: "length (trim s) \<le> length s"
  by (simp add: trim_def) (metis length_dropWhile_le length_rev)

lemma length_unquote: "unquote q s = Some t \<Longrightarrow> length t = length s"
  by (induction q s arbitrary: t rule: unquote.induct) (auto split: if_splits)

text \<open>C33: No line that the shell accepts, of at most 512 characters, overruns the arrays of \<open>parse\<close>: the line has at most 256
  tokens, and so has each of its commands.\<close>

theorem parse_never_overruns:
  assumes "length line \<le> 512"
  shows "snd (parseLine line) \<noteq> None"
proof -
  have p: "parse_commands s \<noteq> None" if "length s \<le> 512" for s
  proof -
    have "\<forall>t \<in> set (tokens {CHR ''|'', newline} s). newCommand t \<noteq> None"
      using tokens_bounds [of "{CHR ''|'', newline}" s] that by (auto simp: newCommand_def parse_fits SIZE_def)
    then show ?thesis using that by (auto simp: parse_commands_def parse_fits SIZE_def)
  qed
  have q: "quote_loop 0 s = unquote False s" for s using quote_loop_unquote [of 0 s] by (cases "unquote False s") simp_all
  have "(case unquote False s of None \<Rightarrow> Some None | Some s \<Rightarrow> parse_commands s) \<noteq> None" if "length s \<le> 512" for s
    using p length_unquote [of False s] that by (auto split: option.splits)
  moreover have "length (trim line) \<le> 512" using length_trim [of line] assms by simp
  ultimately show ?thesis by (simp add: parseLine_def Let_def q del: not_None_eq split: option.splits)
qed

section \<open>Printing a line and parsing it\<close>

text \<open>A word of a command, with or without quotes.  \<open>k\<close> and \<open>b\<close> are numbers of blanks.\<close>

datatype arg = Plain (arg_text: string) | Quoted (arg_text: string)

fun mword_ok :: "arg \<Rightarrow> bool" where
  "mword_ok (Plain s) \<longleftrightarrow> s \<noteq> [] \<and> set s \<inter> {CHR '' '', newline, CHR 0x22, CHR ''|'', CHR ''&'', CHR ''*'', bell} = {}"
| "mword_ok (Quoted s) \<longleftrightarrow> s \<noteq> [] \<and> set s \<inter> {newline, CHR 0x22, CHR ''&'', CHR ''*'', bell} = {}"

fun show_arg :: "arg \<Rightarrow> string" where
  "show_arg (Plain s) = s"
| "show_arg (Quoted s) = CHR 0x22 # s @ [CHR 0x22]"

abbreviation blanks :: "nat \<Rightarrow> string" where "blanks k \<equiv> replicate k CHR '' ''"

fun show_command :: "nat \<Rightarrow> arg list \<Rightarrow> string" where
  "show_command k [] = []"
| "show_command k [w] = show_arg w"
| "show_command k (w # ws) = show_arg w @ blanks (Suc k) @ show_command k ws"

fun show_commands :: "nat \<Rightarrow> nat \<Rightarrow> arg list list \<Rightarrow> string" where
  "show_commands k b [] = []"
| "show_commands k b [c] = show_command k c"
| "show_commands k b (c # cs) = show_command k c @ blanks b @ CHR ''|'' # blanks b @ show_commands k b cs"

definition show_line :: "nat \<Rightarrow> nat \<Rightarrow> bool \<Rightarrow> arg list list \<Rightarrow> string" where
  "show_line k b bg cs = show_commands k b cs @ (if bg then blanks b @ [CHR ''&''] else []) @ [newline]"

definition command_ok :: "arg list \<Rightarrow> bool" where
  "command_ok ws \<longleftrightarrow> ws \<noteq> [] \<and> (\<forall>w \<in> set ws. mword_ok w)"

text \<open>The same with masked quotes.\<close>

fun masked_arg :: "arg \<Rightarrow> string" where
  "masked_arg (Plain s) = s"
| "masked_arg (Quoted s) = CHR '' '' # map mask_char s @ [CHR '' '']"

fun masked_command :: "nat \<Rightarrow> arg list \<Rightarrow> string" where
  "masked_command k [] = []"
| "masked_command k [w] = masked_arg w"
| "masked_command k (w # ws) = masked_arg w @ blanks (Suc k) @ masked_command k ws"

fun masked_commands :: "nat \<Rightarrow> nat \<Rightarrow> arg list list \<Rightarrow> string" where
  "masked_commands k b [] = []"
| "masked_commands k b [c] = masked_command k c"
| "masked_commands k b (c # cs) = masked_command k c @ blanks b @ CHR ''|'' # blanks b @ masked_commands k b cs"

lemma unquote_plain: "CHR 0x22 \<notin> set p \<Longrightarrow> unquote False (p @ s) = map_option ((@) p) (unquote False s)"
  using unquote_inside [of p False s] by simp

lemma unquote_arg: "mword_ok w \<Longrightarrow> unquote False (show_arg w @ s) = map_option ((@) (masked_arg w)) (unquote False s)"
  by (cases w; cases "unquote False s") (auto simp: unquote_plain unquote_inside)

lemma unquote_command:
  "\<forall>w \<in> set ws. mword_ok w \<Longrightarrow> unquote False (show_command k ws @ s) = map_option ((@) (masked_command k ws)) (unquote False s)"
  by (induction k ws rule: show_command.induct; cases "unquote False s")
    (auto simp: unquote_arg unquote_plain simp del: replicate_Suc)

lemma unquote_commands:
  "\<forall>c \<in> set cs. command_ok c \<Longrightarrow>
   unquote False (show_commands k b cs @ s) = map_option ((@) (masked_commands k b cs)) (unquote False s)"
  by (induction k b cs rule: show_commands.induct; cases "unquote False s")
    (auto simp: command_ok_def unquote_command unquote_plain)

definition masked_text :: "arg \<Rightarrow> string" where
  "masked_text w = (case w of Plain s \<Rightarrow> s | Quoted s \<Rightarrow> map mask_char s)"

lemma unmask_map: "unmask w = map (\<lambda>c. if c = CHR ''*'' then CHR '' '' else if c = bell then CHR ''|'' else c) w"
  by (rule nth_equalityI) (auto simp: unmask_def nth_replacechr)

lemma unmask_text: "mword_ok w \<Longrightarrow> unmask (masked_text w) = arg_text w"
  by (cases w) (auto simp: unmask_map masked_text_def mask_char_def intro!: map_idI)

lemma tokens_arg:
  assumes "mword_ok w" "s = [] \<or> hd s = CHR '' ''"
  shows "tokens {CHR '' '', newline} (masked_arg w @ s) = masked_text w # tokens {CHR '' '', newline} s"
proof (cases w)
  case (Plain t)
  then show ?thesis using assms tokens_word [of t "{CHR '' '', newline}" s] by (auto simp: masked_text_def)
next
  case (Quoted t)
  moreover have "set (map mask_char t) \<inter> {CHR '' '', newline} = {}" using assms(1) Quoted by (auto simp: mask_char_def)
  ultimately show ?thesis using assms tokens_word [of "map mask_char t" "{CHR '' '', newline}" "CHR '' '' # s"]
    by (auto simp: masked_text_def)
qed

lemma tokens_command:
  "\<forall>w \<in> set ws. mword_ok w \<Longrightarrow> s = [] \<or> hd s = CHR '' '' \<Longrightarrow>
   tokens {CHR '' '', newline} (masked_command k ws @ s) = map masked_text ws @ tokens {CHR '' '', newline} s"
  by (induction k ws rule: masked_command.induct) (auto simp: tokens_arg)

lemma newCommand_shown:
  assumes "command_ok ws" "length (blanks i @ masked_command k ws @ blanks j) < SIZE"
  shows "newCommand (blanks i @ masked_command k ws @ blanks j) = Some (map arg_text ws)"
proof -
  have "tokens {CHR '' '', newline} (blanks i @ masked_command k ws @ blanks j) = map masked_text ws"
    using tokens_command [of ws "blanks j" k] tokens_blanks [of "{CHR '' '', newline}" j "[]"] assms(1)
    by (cases j) (auto simp: command_ok_def)
  then show ?thesis using assms by (simp add: newCommand_def parse_fits comp_def unmask_text command_ok_def)
qed

lemma set_masked_arg: "mword_ok w \<Longrightarrow> set (masked_arg w) \<inter> {CHR ''|'', newline} = {}"
  by (cases w) (auto simp: mask_char_def)

lemma set_masked_command: "\<forall>w \<in> set ws. mword_ok w \<Longrightarrow> set (masked_command k ws) \<inter> {CHR ''|'', newline} = {}"
  by (induction k ws rule: masked_command.induct) (use set_masked_arg in auto)

lemma masked_command_Nil: "command_ok ws \<Longrightarrow> masked_command k ws \<noteq> []"
  by (cases "(k, ws)" rule: masked_command.cases; cases "hd ws") (auto simp: command_ok_def)

text \<open>The pieces between the bars, with blanks around them.\<close>

lemma commands_shown:
  assumes "cs \<noteq> []" "\<forall>c \<in> set cs. command_ok c" "length (blanks i @ masked_commands k b cs @ blanks j) < SIZE"
  shows "list_all2 (\<lambda>t c. newCommand t = Some (map arg_text c))
     (tokens {CHR ''|'', newline} (blanks i @ masked_commands k b cs @ blanks j)) cs"
  using assms
proof (induction k b cs arbitrary: i rule: masked_commands.induct)
  case (2 k b c)
  have "set (blanks i @ masked_command k c @ blanks j) \<inter> {CHR ''|'', newline} = {}"
    using set_masked_command [of c k] 2(2) by (auto simp: command_ok_def)
  then have "tokens {CHR ''|'', newline} (blanks i @ masked_command k c @ blanks j) = [blanks i @ masked_command k c @ blanks j]"
    using tokens_word [of "blanks i @ masked_command k c @ blanks j" "{CHR ''|'', newline}" "[]"] masked_command_Nil [of c k] 2(2) by simp
  then show ?case using newCommand_shown [of c i k j] 2(2,3) by simp
next
  case (3 k b c d cs)
  let ?rest = "blanks b @ masked_commands k b (d # cs) @ blanks j"
  have "set (blanks i @ masked_command k c @ blanks b) \<inter> {CHR ''|'', newline} = {}"
    using set_masked_command [of c k] 3(3) by (auto simp: command_ok_def)
  then have "tokens {CHR ''|'', newline} ((blanks i @ masked_command k c @ blanks b) @ CHR ''|'' # ?rest) =
      (blanks i @ masked_command k c @ blanks b) # tokens {CHR ''|'', newline} ?rest"
    using tokens_word [of "blanks i @ masked_command k c @ blanks b" "{CHR ''|'', newline}" "CHR ''|'' # ?rest"]
      masked_command_Nil [of c k] 3(3) by simp
  then show ?case using newCommand_shown [of c i k b] 3(1) [of b] 3(3,4) by simp
qed simp

lemma show_arg_ends:
  assumes "mword_ok w"
  shows "show_arg w \<noteq> []" "last (show_arg w) \<noteq> CHR '' ''" "last (show_arg w) \<noteq> newline" "CHR ''&'' \<notin> set (show_arg w)"
  using assms by (cases w; auto dest: last_in_set)+

lemma show_command_ends:
  "command_ok ws \<Longrightarrow> show_command k ws \<noteq> [] \<and> last (show_command k ws) \<notin> {CHR '' '', newline} \<and> CHR ''&'' \<notin> set (show_command k ws)"
  by (induction k ws rule: show_command.induct) (use show_arg_ends in \<open>auto simp: command_ok_def\<close>)

lemma show_commands_ends:
  "cs \<noteq> [] \<Longrightarrow> \<forall>c \<in> set cs. command_ok c \<Longrightarrow>
   show_commands k b cs \<noteq> [] \<and> last (show_commands k b cs) \<notin> {CHR '' '', newline} \<and> CHR ''&'' \<notin> set (show_commands k b cs)"
  by (induction k b cs rule: show_commands.induct) (use show_command_ends in auto)

lemma trim_newline: "s \<noteq> [] \<Longrightarrow> last s \<notin> {CHR '' '', newline} \<Longrightarrow> trim (s @ [newline]) = s"
  by (cases s rule: rev_cases) (auto simp: trim_def)

lemma find_char_absent: "c \<notin> set s \<Longrightarrow> find_char c 0 s = None"
  by (auto simp: find_char_def find_None_iff)

lemma find_char_at: "c \<notin> set s \<Longrightarrow> find_char c 0 (s @ [c]) = Some (length s)"
  unfolding find_char_def find_Some_iff
  by (rule exI [of _ "length s"]) (auto simp: nth_append)

text \<open>C34: The shell reads back every line of at most 512 characters that is printed from commands: any number of commands
  between bars, words with and without quotes, with any number of blanks between them, in the foreground or the
  background.  The words are not empty and contain no star, bell, newline, quote or ampersand; a word without quotes
  contains no blank and no bar either.  (A star becomes a blank, see \<open>parseLine_star\<close>, and
  an ampersand means the background, also inside quotes.)\<close>

theorem parseLine_show:
  assumes "cs \<noteq> []" "\<forall>c \<in> set cs. command_ok c" "length (show_line k b bg cs) \<le> 512"
  shows "parseLine (show_line k b bg cs) = (bg, Some (Some (map (map arg_text) cs)))"
proof -
  let ?s = "show_commands k b cs" and ?m = "masked_commands k b cs"
  note ends = show_commands_ends [OF assms(1,2), of k b]
  have parse: "(case quote_loop 0 (?s @ blanks j) of None \<Rightarrow> Some None | Some s \<Rightarrow> parse_commands s) = Some (Some (map (map arg_text) cs))"
    if "length (?s @ blanks j) < SIZE" for j
  proof -
    have "unquote False (blanks j) = Some (blanks j)" using unquote_plain [of "blanks j" "[]"] by simp
    then have u: "unquote False (?s @ blanks j) = Some (?m @ blanks j)" using unquote_commands [OF assms(2)] by simp
    then have q: "quote_loop 0 (?s @ blanks j) = Some (?m @ blanks j)" using quote_loop_unquote [of 0 "?s @ blanks j"] by simp
    have len: "length (?m @ blanks j) < SIZE" using length_unquote [OF u] that by simp
    have all: "list_all2 (\<lambda>t c. newCommand t = Some (map arg_text c)) (tokens {CHR ''|'', newline} (?m @ blanks j)) cs"
      using commands_shown [OF assms(1,2), of 0 k b j] len by simp
    then have "map (the \<circ> newCommand) (tokens {CHR ''|'', newline} (?m @ blanks j)) = map (map arg_text) cs"
      by (induction rule: list_all2_induct) auto
    moreover have "\<forall>t \<in> set (tokens {CHR ''|'', newline} (?m @ blanks j)). newCommand t \<noteq> None"
      using all by (induction rule: list_all2_induct) auto
    moreover have "tokens {CHR ''|'', newline} (?m @ blanks j) \<noteq> []" using all assms(1) by auto
    ultimately show ?thesis using q len by (simp add: parse_commands_def parse_fits)
  qed
  show ?thesis
  proof (cases bg)
    case True
    let ?t = "?s @ blanks b"
    have "trim ((?t @ [CHR ''&'']) @ [newline]) = ?t @ [CHR ''&'']" by (rule trim_newline) simp_all
    moreover have "find_char CHR ''&'' 0 (?t @ [CHR ''&'']) = Some (length ?t)" using ends by (intro find_char_at) auto
    ultimately show ?thesis using True parse [of b] assms(3) by (simp add: show_line_def parseLine_def SIZE_def)
  next
    case False
    then show ?thesis using ends parse [of 0] assms(3) find_char_absent [of "CHR ''&''" ?s]
      by (simp add: show_line_def parseLine_def SIZE_def trim_newline)
  qed
qed

theorem parseLine_show_witness:
  "parseLine (''ls -l | wc '' @ [CHR 0x22] @ ''a | b'' @ [CHR 0x22] @ '' &'' @ [newline]) =
     (True, Some (Some [[''ls'', ''-l''], [''wc'', ''a | b'']]))"
proof -
  let ?cs = "[[Plain ''ls'', Plain ''-l''], [Plain ''wc'', Quoted ''a | b'']]"
  have "show_line 0 1 True ?cs = ''ls -l | wc '' @ [CHR 0x22] @ ''a | b'' @ [CHR 0x22] @ '' &'' @ [newline]"
    by (simp add: show_line_def)
  then show ?thesis using parseLine_show [of ?cs 0 1 True] by (simp add: command_ok_def)
qed

theorem parse_never_overruns_witness: "snd (parseLine (replicate 512 CHR ''a'')) \<noteq> None"
  by (rule parse_never_overruns) simp

text \<open>Faults of the parser: a star becomes a blank, and an empty command is not rejected.\<close>

lemma parseLine_star: "parseLine (''echo *'' @ [newline]) = (False, Some (Some [[''echo'', '' '']]))"
  by code_simp

lemma parseLine_empty_command:
  "parseLine (''ls | | wc'' @ [newline]) = (False, Some (Some [[''ls''], [], [''wc'']]))"
  by code_simp

section \<open>Descriptors of a pipeline\<close>

datatype mfile = MTerm | MFile string | MRead nat | MWriteEnd nat

type_synonym mfds = "nat \<Rightarrow> mfile option"

definition lowest :: "mfds \<Rightarrow> nat option" where
  "lowest t = find (\<lambda>i. t i = None) [0..<1024]"

text \<open>
  The shell on a table of descriptors, when every call succeeds; \<open>n\<close> pipes have been made.  The result lists the
  programs that are started, each with its table; it is \<open>None\<close> when the shell crashes or runs out of descriptors.
\<close>

primrec mdrive :: "mprog \<Rightarrow> mfds \<Rightarrow> nat \<Rightarrow> ((string list \<times> mfds) list \<times> mfds \<times> nat) option" where
  "mdrive (MRet r) = (\<lambda>t n. Some ([], t, n))"
| "mdrive (MExit r) = (\<lambda>t n. Some ([], t, n))"
| "mdrive Crash = (\<lambda>t n. None)"
| "mdrive (MCall c k) = (\<lambda>t n.
     case c of
       MClose d \<Rightarrow> mdrive (k 0) (t(d := None)) n
     | MDup2 d e \<Rightarrow> mdrive (k (int e)) (t(e := t d)) n
     | MOpen f \<Rightarrow> (case lowest t of None \<Rightarrow> None | Some i \<Rightarrow> mdrive (k (int i)) (t(i \<mapsto> MFile f)) n)
     | MExec argv \<Rightarrow> Some ([(argv, t)], t, n)
     | _ \<Rightarrow> mdrive (k 0) t n)"
| "mdrive (MPipe k) = (\<lambda>t n.
     case lowest t of
       None \<Rightarrow> None
     | Some r \<Rightarrow>
         (case lowest (t(r \<mapsto> MRead n)) of
            None \<Rightarrow> None
          | Some w \<Rightarrow> mdrive (k r w) (t(r \<mapsto> MRead n, w \<mapsto> MWriteEnd n)) (Suc n)))"
| "mdrive (MGetcwd k) = mdrive (k ''/'')"
| "mdrive (MFork p k) = (\<lambda>t n.
     case mdrive p t n of
       None \<Rightarrow> None
     | Some (xs, _, _) \<Rightarrow> map_option (\<lambda>(ys, t, n). (xs @ ys, t, n)) (mdrive (k 1) t n))"

text \<open>A command that is not one of the shell and redirects nothing.\<close>

definition external :: "string list \<Rightarrow> bool" where
  "external argv \<longleftrightarrow> argv \<noteq> [] \<and> \<not> isBuiltIn (hd argv) \<and> (\<forall>w \<in> set argv. CHR ''>'' \<notin> set w)"

lemma tryRedirect_none: "\<forall>w \<in> set ws. CHR ''>'' \<notin> set w \<Longrightarrow> tryRedirect before ws fail ok = ok (before @ ws)"
  by (induction ws arbitrary: before) (auto simp: Let_def find_char_absent)

lemma lowest_Some: "lowest t = Some i \<Longrightarrow> t i = None"
  by (auto simp: lowest_def find_Some_iff)

lemma lowest_exists:
  assumes "finite (dom t)" "card (dom t) < 1024"
  shows "\<exists>i. lowest t = Some i"
proof (rule ccontr)
  assume "\<nexists>i. lowest t = Some i"
  then have "{0..<1024} \<subseteq> dom t" by (auto simp: lowest_def find_None_iff dom_def)
  then have "card {0..<1024 :: nat} \<le> card (dom t)" by (intro card_mono assms(1))
  then show False using assms(2) by simp
qed

text \<open>Standard input, output and error are open and no write end of a pipe is.\<close>

definition shell_fds :: "mfile \<Rightarrow> mfds \<Rightarrow> bool" where
  "shell_fds a t \<longleftrightarrow> finite (dom t) \<and> t 0 = Some a \<and> t 1 = Some a \<and> t 2 \<noteq> None \<and> (\<forall>d m. t d \<noteq> Some (MWriteEnd m))"

lemma mdrive_wait_all: "mdrive (wait_all ps (MRet 0)) t n = Some ([], t, n)"
  by (induction ps) auto

text \<open>What the i-th of \<open>len\<close> programs finds: the pipes are numbered from \<open>n\<close>.\<close>

definition plumbed :: "mfile \<Rightarrow> nat \<Rightarrow> mfile option \<Rightarrow> bool \<Rightarrow> mfds \<Rightarrow> bool" where
  "plumbed a n inp onward u \<longleftrightarrow>
     u 0 = (case inp of None \<Rightarrow> Some a | Some p \<Rightarrow> Some p) \<and> u 1 = Some (if onward then MWriteEnd n else a) \<and>
     (\<forall>d m. u d = Some (MWriteEnd m) \<longrightarrow> onward \<and> m = n)"

fun all_plumbed :: "mfile \<Rightarrow> nat \<Rightarrow> mfile option \<Rightarrow> string list list \<Rightarrow> (string list \<times> mfds) list \<Rightarrow> bool" where
  "all_plumbed a n inp [] ps \<longleftrightarrow> ps = []"
| "all_plumbed a n inp (c # cs) ps \<longleftrightarrow>
     (\<exists>u qs. ps = (c, u) # qs \<and> plumbed a n inp (cs \<noteq> []) u \<and> all_plumbed a (Suc n) (Some (MRead n)) cs qs)"

text \<open>One external command: what its program gets, and what the shell goes on with.\<close>

definition child_fds :: "mfds \<Rightarrow> (nat \<times> nat) option \<Rightarrow> (nat \<times> nat) option \<Rightarrow> mfds" where
  "child_fds t pleft pright =
     (let u = (case pleft of None \<Rightarrow> t | Some (r, w) \<Rightarrow> t(0 := t r))
      in case pright of None \<Rightarrow> u | Some (r, w) \<Rightarrow> u(r := None, 1 := (u(r := None)) w))"

lemma mdrive_child:
  assumes "\<forall>w \<in> set c. CHR ''>'' \<notin> set w"
  shows "mdrive (child c pleft pright False) t n = Some ([(c, child_fds t pleft pright)], child_fds t pleft pright, n)"
  using assms by (cases pleft; cases pright) (auto simp: child_def child_fds_def on_pipe_def tryRedirect_none Let_def)

lemma mdrive_run_one:
  assumes "external c"
  shows "mdrive (run_one home junk c pleft pright None pids k) t n =
     map_option (\<lambda>(ps, t', n'). ((c, child_fds t pleft pright) # ps, t', n'))
       (mdrive (k None (pids @ [1])) ((case pright of None \<Rightarrow> t | Some (r, w) \<Rightarrow> t(w := None))
          (1 := (case pright of None \<Rightarrow> t | Some (r, w) \<Rightarrow> t(w := None)) 0)) n)"
  using assms by (cases pright)
    (auto simp: external_def run_one_def Let_def on_pipe_def mdrive_child split: option.splits)

lemma run_loop_external:
  assumes "\<forall>c \<in> set cs. external c" "cs \<noteq> []" "shell_fds a t" "card (dom t) + length cs < 1024"
    and "case pleft of None \<Rightarrow> inp = None | Some (r, w) \<Rightarrow> 2 < r \<and> inp \<noteq> None \<and> t r = inp"
  shows "\<exists>ps t'. mdrive (run_loop bg home junk pleft None pids cs) t n = Some (ps, t', n + length cs - 1) \<and>
     all_plumbed a n inp cs ps \<and> shell_fds a t' \<and> (\<forall>d. t d \<noteq> None \<longrightarrow> t' d = t d) \<and>
     (\<forall>i. n \<le> i \<and> i < n + length cs - 1 \<longrightarrow> (\<exists>d. t' d = Some (MRead i)))"
  using assms
proof (induction cs arbitrary: t pleft inp pids n rule: induct_list012)
  case (2 c)
  have t01: "t(0 := t 0) = t" "t(1 := t 0) = t" "t(Suc 0 := t 0) = t" using 2(3) by (auto simp: shell_fds_def fun_eq_iff)
  let ?u = "child_fds t pleft None"
  have "mdrive (run_loop bg home junk pleft None pids [c]) t n = Some ([(c, ?u)], t, n)"
    using 2(1) t01 by (simp add: mdrive_run_one mdrive_wait_all)
  moreover have "plumbed a n inp False ?u"
    using 2(3,5) by (auto simp: plumbed_def shell_fds_def child_fds_def split: option.splits prod.splits)
  ultimately show ?case using 2(3) by auto
next
  case (3 c d cs)
  have fds: "finite (dom t)" "t 0 = Some a" "t 1 = Some a" "t 2 \<noteq> None" "\<And>e m. t e \<noteq> Some (MWriteEnd m)"
    using 3(5) by (auto simp: shell_fds_def)
  obtain r where r: "lowest t = Some r" using lowest_exists [OF fds(1)] 3(6) by auto
  have "t r = None" by (rule lowest_Some [OF r])
  then have r2: "2 < r" using fds(2-4) by (cases "r = 0"; cases "r = 1"; cases "r = 2") auto
  let ?t = "t(r \<mapsto> MRead n)"
  have card: "card (dom ?t) = Suc (card (dom t))" "finite (dom ?t)" using fds(1) \<open>t r = None\<close> by (simp_all add: card_insert_if domIff)
  obtain w where w: "lowest ?t = Some w" using lowest_exists [OF card(2)] card(1) 3(6) by auto
  have "?t w = None" by (rule lowest_Some [OF w])
  then have w2: "w \<noteq> r" "t w = None" "2 < w" using fds(2-4) by (cases "w = r"; cases "w = 0"; cases "w = 1"; cases "w = 2"; simp)+
  let ?t1 = "?t(w \<mapsto> MWriteEnd n)"
  let ?u = "child_fds ?t1 pleft (Some (r, w))"
  have parent: "?t1(w := None, 1 \<mapsto> a) = ?t" using w2 fds(3) r2 by (auto simp: fun_eq_iff)
  have "shell_fds a ?t" "card (dom ?t) + length (d # cs) < 1024" "\<forall>c \<in> set (d # cs). external c"
    using fds r2 card 3(3,6) by (auto simp: shell_fds_def)
  moreover have "case Some (r, w) of None \<Rightarrow> Some (MRead n) = None | Some (r, w) \<Rightarrow> 2 < r \<and> Some (MRead n) \<noteq> None \<and> ?t r = Some (MRead n)"
    using r2 by simp
  ultimately obtain ps t' where rec: "mdrive (run_loop bg home junk (Some (r, w)) None (pids @ [1]) (d # cs)) ?t (Suc n) =
        Some (ps, t', Suc n + length (d # cs) - 1)"
      "all_plumbed a (Suc n) (Some (MRead n)) (d # cs) ps" "shell_fds a t'" "\<forall>e. ?t e \<noteq> None \<longrightarrow> t' e = ?t e"
      "\<forall>i. Suc n \<le> i \<and> i < Suc n + length (d # cs) - 1 \<longrightarrow> (\<exists>e. t' e = Some (MRead i))"
    using 3(2) [of ?t "Some (MRead n)" "Some (r, w)" "pids @ [1]" "Suc n"] by blast
  have "mdrive (run_loop bg home junk pleft None pids (c # d # cs)) t n = Some ((c, ?u) # ps, t', n + length (c # d # cs) - 1)"
    using 3(3) rec(1) parent w2 r2 fds(2) by (simp add: r w mdrive_run_one)
  moreover have "plumbed a n inp True ?u"
    using fds(2,3,5) r2 w2 3(7) \<open>t r = None\<close> by (auto simp: plumbed_def child_fds_def split: option.splits prod.splits if_splits)
  moreover have "\<exists>e. t' e = Some (MRead n)" using rec(4) by (auto intro: exI [of _ r])
  then have "\<exists>e. t' e = Some (MRead i)" if "n \<le> i \<and> i < n + length (c # d # cs) - 1" for i
    using rec(5) that by (cases "i = n") simp_all
  moreover have "\<forall>e. t e \<noteq> None \<longrightarrow> t' e = t e"
    using rec(4) \<open>t r = None\<close> by (metis fun_upd_other)
  ultimately show ?case using rec(2,3)
    by (intro exI [of _ "(c, ?u) # ps"] exI [of _ t'] conjI) (simp_all del: run_loop.simps)
qed simp

text \<open>C35: In a pipeline of programs each one reads from the pipe behind its left neighbour and writes to the pipe before its
  right one, and no program holds the write end of any other pipe, so that every reader comes to the end of its
  input.  The shell itself keeps the read end of every pipe open, also when the pipeline has ended.\<close>

theorem pipeline_plumbing:
  assumes "\<forall>c \<in> set cs. external c" "cs \<noteq> []" "shell_fds a t" "card (dom t) + length cs < 1024"
  shows "\<exists>ps t'. mdrive (runCmdWithPipe bg home junk cs) t n = Some (ps, t', n + length cs - 1) \<and>
     all_plumbed a n None cs ps \<and> shell_fds a t' \<and> (\<forall>d. t d \<noteq> None \<longrightarrow> t' d = t d) \<and>
     (\<forall>i. n \<le> i \<and> i < n + length cs - 1 \<longrightarrow> (\<exists>d. t' d = Some (MRead i)))"
  using run_loop_external [OF assms, of None None bg home junk "[]" n] by (simp add: runCmdWithPipe_def)

theorem pipeline_plumbing_witness:
  "let t = (\<lambda>i :: nat. if i < 3 then Some MTerm else None)
   in \<exists>u v t' i. mdrive (runCmdWithPipe False [] [] [[''yes''], [''head'']]) t 0 = Some ([([''yes''], u), ([''head''], v)], t', 1) \<and>
     u 1 = Some (MWriteEnd 0) \<and> v 0 = Some (MRead 0) \<and> t' i = Some (MRead 0)"
proof -
  let ?t = "\<lambda>i :: nat. if i < 3 then Some MTerm else None" and ?cs = "[[''yes''], [''head'']]"
  have d: "dom ?t = {0, 1, 2}" by (auto simp: dom_def)
  have "\<forall>c \<in> set ?cs. external c" by (simp add: external_def isBuiltIn_def)
  moreover have "shell_fds MTerm ?t" by (simp add: shell_fds_def d)
  ultimately show ?thesis
    using pipeline_plumbing [of ?cs MTerm ?t False "[]" "[]" 0] by (auto simp: d plumbed_def)
qed

text \<open>A command without a word crashes the shell, here in \<open>ls | | wc\<close>.\<close>

lemma empty_command_crashes:
  assumes "external c"
  shows "mdrive (runCmdWithPipe bg home junk [c, [], d]) t n = None"
proof -
  have "run_one home junk [] p q None pids k = Crash" for p q pids k by (simp add: run_one_def)
  then show ?thesis
    using assms by (simp add: runCmdWithPipe_def mdrive_run_one split: option.splits)
qed

end
