(* ===== verification/Umalloc.thy ===== *)
theory Umalloc
  imports Prelude "HOL-Library.Monad_Syntax"
begin

text \<open>
  The allocator of the user programs, \<open>user/umalloc.c\<close>: a circular list of free blocks in the order of their
  addresses, each with a header of 8 bytes in front of it that holds the next block and the size in units of 8 bytes.
  Addresses are natural numbers; all that the heap hands out is a multiple of 8, so that headers are a function of their
  addresses.  A traversal that does not end, or the acquisition of a lock that is held, is \<open>None\<close>.  \<open>u_limit\<close> is the largest
  break that the kernel can give the process.
\<close>

record header =
  h_ptr :: nat
  h_size :: u32

record ustate =
  u_hdr :: "nat \<Rightarrow> header"
  u_base :: nat
  u_freep :: nat
  u_lock :: bool
  u_in :: bool
  u_brk :: nat
  u_limit :: nat

definition nx :: "ustate \<Rightarrow> nat \<Rightarrow> nat" where "nx s p = h_ptr (u_hdr s p)"

definition sz :: "ustate \<Rightarrow> nat \<Rightarrow> u32" where "sz s p = h_size (u_hdr s p)"

definition set_ptr :: "nat \<Rightarrow> nat \<Rightarrow> ustate \<Rightarrow> ustate" where
  "set_ptr p q s = s\<lparr>u_hdr := (u_hdr s)(p := (u_hdr s p)\<lparr>h_ptr := q\<rparr>)\<rparr>"

definition set_size :: "nat \<Rightarrow> u32 \<Rightarrow> ustate \<Rightarrow> ustate" where
  "set_size p n s = s\<lparr>u_hdr := (u_hdr s)(p := (u_hdr s p)\<lparr>h_size := n\<rparr>)\<rparr>"

text \<open>The lock of \<open>ulib.c\<close>, taken by the only thread.\<close>

definition spinlock_acquire :: "ustate \<Rightarrow> ustate option" where
  "spinlock_acquire s = (if u_lock s then None else Some (s\<lparr>u_lock := True\<rparr>))"

definition spinlock_release :: "ustate \<Rightarrow> ustate" where
  "spinlock_release s = s\<lparr>u_lock := False\<rparr>"

text \<open>\<open>sbrk\<close>, as \<open>growproc\<close> of the kernel carries it out.\<close>

definition sbrk :: "u32 \<Rightarrow> ustate \<Rightarrow> nat option \<times> ustate" where
  "sbrk n s =
     (let new = unat (of_nat (u_brk s) + n) in
      if 0 < sint n then (if u_brk s + unat n \<le> u_limit s then (Some (u_brk s), s\<lparr>u_brk := u_brk s + unat n\<rparr>) else (None, s))
      else if u_brk s \<le> new then (Some (u_brk s), s)
      else if new = 0 then (None, s)
      else (Some (u_brk s), s\<lparr>u_brk := new\<rparr>))"

section \<open>Freeing\<close>

text \<open>The condition under which the loop of \<open>free\<close> stops.\<close>

definition stops_at :: "ustate \<Rightarrow> nat \<Rightarrow> nat \<Rightarrow> bool" where
  "stops_at s bp p \<longleftrightarrow> p < bp \<and> bp < nx s p \<or> nx s p \<le> p \<and> (p < bp \<or> bp < nx s p)"

partial_function (option) find_place :: "ustate \<Rightarrow> nat \<Rightarrow> nat \<Rightarrow> nat option" where
  "find_place s bp p = (if stops_at s bp p then Some p else find_place s bp (nx s p))"

definition join_right :: "nat \<Rightarrow> nat \<Rightarrow> ustate \<Rightarrow> ustate" where
  "join_right bp p s =
     (if bp + 8 * unat (sz s bp) = nx s p
      then set_ptr bp (nx s (nx s p)) (set_size bp (sz s bp + sz s (nx s p)) s)
      else set_ptr bp (nx s p) s)"

definition join_left :: "nat \<Rightarrow> nat \<Rightarrow> ustate \<Rightarrow> ustate" where
  "join_left bp p s =
     (if p + 8 * unat (sz s p) = bp
      then set_ptr p (nx s bp) (set_size p (sz s p + sz s bp) s)
      else set_ptr p bp s)"

definition ufree :: "nat \<Rightarrow> ustate \<Rightarrow> ustate option" where
  "ufree ap s =
     (let bp = ap - 8 in do {
        p \<leftarrow> find_place s bp (u_freep s);
        Some ((join_left bp p (join_right bp p s))\<lparr>u_freep := p\<rparr>) })"

section \<open>Allocating\<close>

definition morecore :: "u32 \<Rightarrow> ustate \<Rightarrow> (nat \<times> ustate) option" where
  "morecore nu s = do {
     s \<leftarrow> (if u_in s then Some s else spinlock_acquire s);
     let nu = (if nu < 4096 then 4096 else nu);
     case sbrk (nu * 8) s of
       (None, s) \<Rightarrow> Some (0, s)
     | (Some hp, s) \<Rightarrow> do {
         s \<leftarrow> ufree (hp + 8) (set_size hp nu s);
         let s = (if u_in s then s else spinlock_release s);
         Some (u_freep s, s) } }"

definition take_block :: "u32 \<Rightarrow> nat \<Rightarrow> nat \<Rightarrow> ustate \<Rightarrow> nat \<times> ustate" where
  "take_block n prevp p s =
     (let (p, s) =
        (if sz s p = n then (p, set_ptr prevp (nx s p) s)
         else
           let s = set_size p (sz s p - n) s; q = p + 8 * unat (sz s p) in (q, set_size q n s))
      in (p + 8, (spinlock_release (s\<lparr>u_freep := prevp\<rparr>))\<lparr>u_in := False\<rparr>))"

partial_function (option) malloc_loop :: "u32 \<Rightarrow> nat \<Rightarrow> nat \<Rightarrow> ustate \<Rightarrow> (nat \<times> ustate) option" where
  "malloc_loop n prevp p s =
     (if n \<le> sz s p then Some (take_block n prevp p s)
      else if p = u_freep s then do {
        (p, s) \<leftarrow> morecore n s;
        if p = 0 then Some (0, (spinlock_release s)\<lparr>u_in := False\<rparr>) else malloc_loop n p (nx s p) s }
      else malloc_loop n p (nx s p) s)"

definition units :: "u32 \<Rightarrow> u32" where
  "units nbytes = (nbytes + 8 - 1) div 8 + 1"

definition umalloc :: "u32 \<Rightarrow> ustate \<Rightarrow> (nat \<times> ustate) option" where
  "umalloc nbytes s = do {
     s \<leftarrow> spinlock_acquire (s\<lparr>u_in := True\<rparr>);
     let s = (if u_freep s = 0 then (set_size (u_base s) 0 (set_ptr (u_base s) (u_base s) s))\<lparr>u_freep := u_base s\<rparr> else s);
     malloc_loop (units nbytes) (u_freep s) (nx s (u_freep s)) s }"

section \<open>The ring of free blocks\<close>

text \<open>\<open>linked s xs z\<close>: each block of \<open>xs\<close> points to the next one, the last one to \<open>z\<close>.\<close>

fun linked :: "ustate \<Rightarrow> nat list \<Rightarrow> nat \<Rightarrow> bool" where
  "linked s [] z \<longleftrightarrow> True"
| "linked s (a # xs) z \<longleftrightarrow> nx s a = (case xs of [] \<Rightarrow> z | b # _ \<Rightarrow> b) \<and> linked s xs z"

definition unhead :: "nat list \<Rightarrow> nat \<Rightarrow> nat" where
  "unhead xs z = (case xs of [] \<Rightarrow> z | b # _ \<Rightarrow> b)"

lemma unhead_simps [simp]: "unhead [] z = z" "unhead (b # xs) z = b"
  by (simp_all add: unhead_def)

lemma linked_Cons [simp]: "linked s (a # xs) z \<longleftrightarrow> nx s a = unhead xs z \<and> linked s xs z"
  by (simp add: unhead_def)

declare linked.simps(2) [simp del]

lemma linked_append [simp]: "linked s (xs @ ys) z \<longleftrightarrow> linked s xs (unhead ys z) \<and> linked s ys z"
  by (induction xs) (auto simp: unhead_def split: list.splits)

lemma unhead_append: "unhead (xs @ ys) z = unhead xs (unhead ys z)"
  by (cases xs) auto

lemma linked_cong: "(\<And>a. a \<in> set xs \<Longrightarrow> nx t a = nx s a) \<Longrightarrow> linked t xs z = linked s xs z"
  by (induction xs) auto

lemma put_simps [simp]:
  "nx (set_ptr p q s) a = (if a = p then q else nx s a)" "sz (set_ptr p q s) a = sz s a"
  "nx (set_size p n s) a = nx s a" "sz (set_size p n s) a = (if a = p then n else sz s a)"
  by (simp_all add: nx_def sz_def set_ptr_def set_size_def)

lemma set_fields [simp]:
  "u_base (set_ptr p q s) = u_base s" "u_freep (set_ptr p q s) = u_freep s" "u_lock (set_ptr p q s) = u_lock s"
  "u_in (set_ptr p q s) = u_in s" "u_brk (set_ptr p q s) = u_brk s" "u_limit (set_ptr p q s) = u_limit s"
  "u_base (set_size p n s) = u_base s" "u_freep (set_size p n s) = u_freep s" "u_lock (set_size p n s) = u_lock s"
  "u_in (set_size p n s) = u_in s" "u_brk (set_size p n s) = u_brk s" "u_limit (set_size p n s) = u_limit s"
  by (simp_all add: set_ptr_def set_size_def)

lemma field_simps [simp]:
  "nx (s\<lparr>u_freep := x\<rparr>) = nx s" "sz (s\<lparr>u_freep := x\<rparr>) = sz s" "nx (s\<lparr>u_lock := b\<rparr>) = nx s" "sz (s\<lparr>u_lock := b\<rparr>) = sz s"
  "nx (s\<lparr>u_in := b\<rparr>) = nx s" "sz (s\<lparr>u_in := b\<rparr>) = sz s" "nx (s\<lparr>u_brk := y\<rparr>) = nx s" "sz (s\<lparr>u_brk := y\<rparr>) = sz s"
  by (simp_all add: nx_def sz_def fun_eq_iff)

text \<open>
  \<open>heap s xs A\<close>: \<open>xs\<close> are the free blocks, \<open>A\<close> the blocks handed out.  No two blocks overlap, all lie between the first
  header and the break, and no free block ends where another begins.
\<close>

definition extent :: "ustate \<Rightarrow> nat \<Rightarrow> nat" where
  "extent s a = 8 * (if a = u_base s then 1 else unat (sz s a))"

definition blocks_ok :: "ustate \<Rightarrow> nat set \<Rightarrow> bool" where
  "blocks_ok s B \<longleftrightarrow>
     (\<forall>a \<in> B. a mod 8 = 0 \<and> u_base s \<le> a \<and> (a \<noteq> u_base s \<longrightarrow> 0 < unat (sz s a) \<and> a + extent s a \<le> u_brk s)) \<and>
     (\<forall>a \<in> B. \<forall>b \<in> B. a < b \<longrightarrow> a + extent s a \<le> b)"

definition heap :: "ustate \<Rightarrow> nat list \<Rightarrow> nat set \<Rightarrow> bool" where
  "heap s xs A \<longleftrightarrow>
     0 < u_base s \<and> sz s (u_base s) = 0 \<and> u_base s + 8 \<le> u_brk s \<and> u_brk s mod 8 = 0 \<and> u_brk s < 2 ^ 31 \<and> u_limit s < 2 ^ 31 \<and>
     xs \<noteq> [] \<and> hd xs = u_base s \<and> sorted_wrt (<) xs \<and> linked s xs (hd xs) \<and> u_freep s \<in> set xs \<and>
     set xs \<inter> A = {} \<and> blocks_ok s (set xs \<union> A) \<and>
     (\<forall>a \<in> set xs - {u_base s}. \<forall>b \<in> set xs. a + extent s a \<noteq> b)"

section \<open>Finding the place of a block\<close>

lemma find_place_simps [simp]:
  "stops_at s bp p \<Longrightarrow> find_place s bp p = Some p"
  "\<not> stops_at s bp p \<Longrightarrow> find_place s bp p = find_place s bp (nx s p)"
  by (subst find_place.simps, simp)+

lemma find_place_passes: "linked s xs z \<Longrightarrow> \<forall>a \<in> set xs. \<not> stops_at s bp a \<Longrightarrow> xs \<noteq> [] \<Longrightarrow> find_place s bp (hd xs) = find_place s bp z"
  by (induction xs) (auto simp: unhead_def split: list.splits)

lemma stops_iff:
  assumes "linked s (l @ p # r) (hd (l @ p # r))" "sorted_wrt (<) (l @ p # r)"
    and "p < bp" "\<forall>a \<in> set r. bp < a" "a \<in> set (l @ p # r)"
  shows "stops_at s bp a \<longleftrightarrow> a = p"
proof -
  have first: "hd (l @ p # r) \<le> p" using assms(2) by (cases l) auto
  consider "a \<in> set l" | "a = p" | "a \<in> set r" using assms(5) by auto
  then show ?thesis
  proof cases
    case 1
    then obtain l1 l2 where l: "l = l1 @ a # l2" by (auto simp: in_set_conv_decomp)
    have "a < nx s a \<and> nx s a \<le> p" using assms(1,2) by (cases l2) (auto simp: l sorted_wrt_append)
    moreover have "a \<noteq> p" using assms(2) 1 by (auto simp: sorted_wrt_append)
    ultimately show ?thesis using assms(3) by (auto simp: stops_at_def)
  next
    case 2
    then show ?thesis using assms(1,3,4) first by (cases r) (auto simp: stops_at_def)
  next
    case 3
    then obtain r1 r2 where r: "r = r1 @ a # r2" by (auto simp: in_set_conv_decomp)
    have "bp < a" using assms(4) 3 by blast
    moreover have "r2 = [] \<and> nx s a = hd (l @ p # r) \<or> a < nx s a" using assms(1,2) by (cases r2) (auto simp: r sorted_wrt_append)
    ultimately show ?thesis using assms(3) first by (auto simp: stops_at_def)
  qed
qed

lemma find_place_ring:
  assumes "linked s (l @ p # r) (hd (l @ p # r))" "sorted_wrt (<) (l @ p # r)"
    and "p < bp" "\<forall>a \<in> set r. bp < a" "f \<in> set (l @ p # r)"
  shows "find_place s bp f = Some p"
proof -
  note iff = stops_iff [OF assms(1-4)]
  have walk: "find_place s bp (hd (l' @ [p])) = Some p" if "set l' \<subseteq> set l" "linked s l' p" for l'
  proof -
    have "\<not> stops_at s bp a" if "a \<in> set l'" for a
    proof -
      have "a \<noteq> p" using assms(2) \<open>set l' \<subseteq> set l\<close> that by (auto simp: sorted_wrt_append)
      then show ?thesis using iff [of a] \<open>set l' \<subseteq> set l\<close> that by auto
    qed
    then show ?thesis using find_place_passes [of s l' p bp] that(2) iff [of p] by (cases l') auto
  qed
  have ring: "find_place s bp (hd (l @ p # r)) = Some p"
    using walk [of l] assms(1) by (cases l) (auto simp: unhead_append)
  consider l1 l2 where "l = l1 @ f # l2" | "f = p" | r1 r2 where "r = r1 @ f # r2"
    using assms(5) by (auto simp: in_set_conv_decomp)
  then show ?thesis
  proof cases
    case 1
    then show ?thesis using walk [of "f # l2"] assms(1) by (auto simp: unhead_append)
  next
    case 2
    then show ?thesis using walk [of "[]"] by simp
  next
    case 3
    have "\<not> stops_at s bp a" if "a \<in> set (f # r2)" for a
    proof -
      have "a \<noteq> p" using assms(2) that by (auto simp: 3 sorted_wrt_append)
      then show ?thesis using iff [of a] that by (auto simp: 3)
    qed
    then have "find_place s bp f = find_place s bp (hd (l @ p # r))"
      using find_place_passes [of s "f # r2" "hd (l @ p # r)" bp] assms(1) by (auto simp: 3)
    then show ?thesis using ring by simp
  qed
qed

text \<open>Where a block goes in a ring that does not hold it.\<close>

lemma sorted_split:
  assumes "sorted_wrt (<) xs" "xs \<noteq> []" "hd xs < bp" "bp \<notin> set xs"
  obtains l p r where "xs = l @ p # r" "p < bp" "\<forall>a \<in> set r. bp < (a :: nat)"
proof -
  let ?a = "takeWhile (\<lambda>a. a < bp) xs" and ?r = "dropWhile (\<lambda>a. a < bp) xs"
  have "?a \<noteq> []" using assms(2,3) by (cases xs) auto
  then obtain l p where a: "?a = l @ [p]" by (cases ?a rule: rev_cases) auto
  have xs: "xs = l @ p # ?r" using takeWhile_dropWhile_id [of "\<lambda>a. a < bp" xs] a by simp
  have "p < bp" using a by (metis in_set_conv_decomp set_takeWhileD)
  moreover have "bp < b" if "b \<in> set ?r" for b
  proof (cases ?r)
    case (Cons c cs)
    have "\<not> c < bp" using hd_dropWhile [of "\<lambda>a. a < bp" xs] Cons by simp
    moreover have "c \<in> set xs" using xs Cons by auto
    ultimately have "bp < c" using assms(4) by (metis linorder_neqE_nat)
    moreover have "c \<le> b" using assms(1) that Cons xs by (auto simp: sorted_wrt_append)
    ultimately show ?thesis by simp
  next
    case Nil
    then show ?thesis using that by (simp only: list.set empty_iff)
  qed
  ultimately show ?thesis using that xs by blast
qed

section \<open>Freeing keeps the heap\<close>

lemma heapD:
  assumes "heap s xs A"
  shows "0 < u_base s" "sz s (u_base s) = 0" "xs \<noteq> []" "hd xs = u_base s" "sorted_wrt (<) xs" "linked s xs (hd xs)" "u_freep s \<in> set xs"
    "set xs \<inter> A = {}" "blocks_ok s (set xs \<union> A)" "\<And>a b. a \<in> set xs \<Longrightarrow> a \<noteq> u_base s \<Longrightarrow> b \<in> set xs \<Longrightarrow> a + extent s a \<noteq> b"
    "u_brk s < 2 ^ 31" "u_limit s < 2 ^ 31" "u_brk s mod 8 = 0" "u_base s + 8 \<le> u_brk s"
  using assms by (auto simp: heap_def)

lemma blocks_okD:
  assumes "blocks_ok s B" "a \<in> B"
  shows "a mod 8 = 0" "u_base s \<le> a" "a \<noteq> u_base s \<Longrightarrow> 0 < unat (sz s a)" "a \<noteq> u_base s \<Longrightarrow> a + extent s a \<le> u_brk s"
    "b \<in> B \<Longrightarrow> a < b \<Longrightarrow> a + extent s a \<le> b"
  using assms by (auto simp: blocks_ok_def)

lemma base_in: "heap s xs A \<Longrightarrow> u_base s \<in> set xs"
  using heapD(3,4) [of s xs A] by (cases xs) auto

lemma base_min: "heap s xs A \<Longrightarrow> a \<in> set xs \<union> A \<Longrightarrow> a \<noteq> u_base s \<Longrightarrow> u_base s + 8 \<le> a"
  using blocks_okD(2,5) [OF heapD(9)] base_in [of s xs A] by (fastforce simp: extent_def)

text \<open>What \<open>free\<close> makes of the blocks: \<open>bp\<close> joins with the block behind it and with the one in front of it.\<close>

lemma ufree_cases:
  assumes h: "heap s xs (insert bp A)" "bp \<notin> A"
  obtains l p r where "xs = l @ p # r" "p < bp" "\<forall>a \<in> set r. bp < a"
    "ufree (bp + 8) s = Some ((join_left bp p (join_right bp p s))\<lparr>u_freep := p\<rparr>)"
proof -
  note h' = heapD [OF h(1)]
  have bp: "bp \<notin> set xs" using h'(8) by auto
  have "bp \<noteq> u_base s" using bp base_in [OF h(1)] by blast
  then have "hd xs < bp" using base_min [OF h(1), of bp] h'(4) by auto
  then obtain l p r where x: "xs = l @ p # r" "p < bp" "\<forall>a \<in> set r. bp < a"
    using sorted_split [OF h'(5,3) _ bp] by blast
  moreover have "find_place s bp (u_freep s) = Some p"
    using find_place_ring [of s l p r bp "u_freep s"] h'(5,6,7) x by auto
  ultimately show ?thesis using that by (simp add: ufree_def Let_def)
qed

lemma blocks_ok_cong:
  "blocks_ok s B \<Longrightarrow> u_base t = u_base s \<Longrightarrow> u_brk t = u_brk s \<Longrightarrow> (\<And>a. a \<in> B \<Longrightarrow> sz t a = sz s a) \<Longrightarrow> C \<subseteq> B \<Longrightarrow> blocks_ok t C"
proof -
  assume s: "blocks_ok s B" and t: "u_base t = u_base s" "u_brk t = u_brk s" "\<And>a. a \<in> B \<Longrightarrow> sz t a = sz s a" "C \<subseteq> B"
  have e: "extent t a = extent s a" "sz t a = sz s a" "a \<in> B" if "a \<in> C" for a using t that by (auto simp: extent_def)
  show "blocks_ok t C" unfolding blocks_ok_def t(1,2) using blocks_okD [OF s] e by simp
qed

lemma heap_fields [simp]:
  "extent (s\<lparr>u_freep := f\<rparr>) = extent s" "blocks_ok (s\<lparr>u_freep := f\<rparr>) = blocks_ok s"
  "extent (s\<lparr>u_lock := b\<rparr>) = extent s" "blocks_ok (s\<lparr>u_lock := b\<rparr>) = blocks_ok s"
  "extent (s\<lparr>u_in := b\<rparr>) = extent s" "blocks_ok (s\<lparr>u_in := b\<rparr>) = blocks_ok s"
  by (auto simp: extent_def blocks_ok_def fun_eq_iff)

lemma linked_fields [simp]:
  "linked (s\<lparr>u_freep := f\<rparr>) xs z = linked s xs z" "linked (s\<lparr>u_lock := b\<rparr>) xs z = linked s xs z" "linked (s\<lparr>u_in := b\<rparr>) xs z = linked s xs z"
  by (rule linked_cong; simp)+

text \<open>A block takes in the one behind it.\<close>

lemma blocks_ok_join:
  assumes s: "blocks_ok s B" "a \<in> B" "b \<in> B" "a \<noteq> u_base s" "b \<noteq> u_base s" "a + 8 * unat (sz s a) = b" "u_brk s < 2 ^ 31"
    and t: "u_base t = u_base s" "u_brk t = u_brk s" "sz t a = sz s a + sz s b" "\<And>c. c \<in> B \<Longrightarrow> c \<noteq> a \<Longrightarrow> c \<noteq> b \<Longrightarrow> sz t c = sz s c"
  shows "blocks_ok t (B - {b})" "unat (sz t a) = unat (sz s a) + unat (sz s b)"
proof -
  have e: "b + 8 * unat (sz s b) \<le> u_brk s" using blocks_okD(4) [OF s(1,3,5)] s(5) by (simp add: extent_def)
  show u: "unat (sz t a) = unat (sz s a) + unat (sz s b)"
    unfolding t(3) by (rule unat_add_small) (use e s(6,7) in simp)
  have ext: "a + extent t a = b + extent s b" using s(4-6) u t(1) by (simp add: extent_def)
  have pos: "0 < unat (sz s b)" using blocks_okD(3) [OF s(1,3,5)] .
  show "blocks_ok t (B - {b})"
    unfolding blocks_ok_def
  proof (intro conjI ballI impI)
    fix c d assume c: "c \<in> B - {b}" and d: "d \<in> B - {b}" and "c < d"
    show "c + extent t c \<le> d"
    proof (cases "c = a")
      case True
      have "b \<le> d" using blocks_okD(5) [OF s(1,2), of d] d \<open>c < d\<close> True s(4,6) by (auto simp: extent_def)
      then show ?thesis using blocks_okD(5) [OF s(1,3), of d] d ext True by auto
    next
      case False
      then have "extent t c = extent s c" using c t(1,4) by (simp add: extent_def)
      then show ?thesis using blocks_okD(5) [OF s(1), of c d] c d \<open>c < d\<close> by auto
    qed
  next
    fix c assume c: "c \<in> B - {b}" and n: "c \<noteq> u_base t"
    show "0 < unat (sz t c)" using blocks_okD(3) [OF s(1), of c] c n u pos t(1,4) by (cases "c = a") auto
    show "c + extent t c \<le> u_brk t"
      using blocks_okD(4) [OF s(1), of c] blocks_okD(4) [OF s(1,3,5)] c n ext t(1,2,4) by (cases "c = a") (auto simp: extent_def)
  qed (use blocks_okD(1,2) [OF s(1)] t(1) in auto)
qed

text \<open>The two halves of \<open>free\<close>, on a block in its place.\<close>

lemma join_right_facts:
  assumes h: "heap s (l @ p # r) (insert bp A)" "bp \<notin> A" and p: "p < bp" "\<forall>a \<in> set r. bp < a"
  defines "R \<equiv> r \<noteq> [] \<and> bp + 8 * unat (sz s bp) = hd r" and "t \<equiv> join_right bp p s"
  shows "nx t bp = unhead (if R then tl r else r) (u_base s)" "\<And>a. a \<noteq> bp \<Longrightarrow> nx t a = nx s a" "\<And>a. a \<noteq> bp \<Longrightarrow> sz t a = sz s a"
    "t = s\<lparr>u_hdr := u_hdr t\<rparr>" "blocks_ok t (set (l @ p # (if R then tl r else r)) \<union> insert bp A)" "unat (sz s bp) \<le> unat (sz t bp)"
    "\<And>a. a \<in> set (l @ p # (if R then tl r else r)) \<Longrightarrow> a \<noteq> bp + 8 * unat (sz t bp)"
proof -
  note h' = heapD [OF h(1)]
  have base: "u_base s \<in> set (l @ p # r)" by (rule base_in [OF h(1)])
  have nb: "bp \<notin> set (l @ p # r)" "bp \<noteq> u_base s" using h'(8) base by auto
  have pb: "u_base s \<le> p" using blocks_okD(2) [OF h'(9), of p] by simp
  have q: "nx s p = unhead r (u_base s)" using h'(4,6) by (simp add: unhead_append)
  have R: "bp + 8 * unat (sz s bp) = nx s p \<longleftrightarrow> R" using q p pb by (cases r) (auto simp: R_def)
  have bpB: "bp \<in> set (l @ p # r) \<union> insert bp A" by simp
  have end_le: "bp + 8 * unat (sz s bp) \<le> a" if "a \<in> set r" for a
    using blocks_okD(5) [OF h'(9) bpB, of a] p(2) that nb(2) by (auto simp: extent_def)
  have lr: "linked s r (u_base s)" using h'(4,6) by simp
  have "(\<forall>a. a \<noteq> bp \<longrightarrow> nx t a = nx s a) \<and> (\<forall>a. a \<noteq> bp \<longrightarrow> sz t a = sz s a) \<and> t = s\<lparr>u_hdr := u_hdr t\<rparr>
      \<and> nx t bp = unhead (if R then tl r else r) (u_base s) \<and> blocks_ok t (set (l @ p # (if R then tl r else r)) \<union> insert bp A)
      \<and> unat (sz s bp) \<le> unat (sz t bp) \<and> (\<forall>a \<in> set (l @ p # (if R then tl r else r)). a \<noteq> bp + 8 * unat (sz t bp))"
  proof (cases R)
    case False
    then have t: "t = set_ptr bp (nx s p) s" using R by (simp add: t_def join_right_def)
    have "a \<noteq> bp + 8 * unat (sz s bp)" if "a \<in> set (l @ p # r)" for a
    proof
      assume a: "a = bp + 8 * unat (sz s bp)"
      have "bp < a" using blocks_okD(3) [OF h'(9) bpB nb(2)] a by simp
      then have ar: "a \<in> set r" using that p(1) h'(5) by (auto simp: sorted_wrt_append)
      then obtain c r' where r: "r = c # r'" by (cases r) auto
      have "a = c" using ar h'(5) end_le [of c] a by (auto simp: r sorted_wrt_append)
      then show False using False a by (simp add: R_def r)
    qed
    moreover have "t = s\<lparr>u_hdr := u_hdr t\<rparr>" by (simp add: t set_ptr_def)
    moreover have "blocks_ok t (set (l @ p # r) \<union> insert bp A)" using blocks_ok_cong [OF h'(9), of t] by (simp add: t)
    ultimately show ?thesis using False q by (simp add: t)
  next
    case True
    then obtain r' where r: "r = nx s p # r'" using R q by (cases r) (auto simp: R_def)
    let ?q = "nx s p" and ?B = "set (l @ p # r) \<union> insert bp A"
    have t: "t = set_ptr bp (nx s ?q) (set_size bp (sz s bp + sz s ?q) s)" using True R by (simp add: t_def join_right_def)
    have qB: "?q \<in> set (l @ p # r)" by (simp add: r)
    have qn: "?q \<noteq> u_base s" "bp < ?q" using p(2) blocks_okD(2) [OF h'(9) bpB] r by auto
    have B: "?B - {?q} = set (l @ p # r') \<union> insert bp A" using h'(5,8) qn(2) p by (auto simp: r sorted_wrt_append)
    have e: "bp + 8 * unat (sz s bp) = ?q" using R True by simp
    have j: "blocks_ok t (?B - {?q})" "unat (sz t bp) = unat (sz s bp) + unat (sz s ?q)"
      using blocks_ok_join [OF h'(9) bpB _ nb(2) qn(1) e h'(11), of t] qB by (auto simp: t)
    have "bp + 8 * unat (sz t bp) = ?q + extent s ?q" using j(2) e qn(1) by (simp add: extent_def)
    then have "a \<noteq> bp + 8 * unat (sz t bp)" if "a \<in> set (l @ p # r')" for a
      using h'(10) [OF qB qn(1), of a] that by (auto simp: r)
    moreover have "nx t bp = unhead r' (u_base s)" using lr by (simp add: t r)
    moreover have "t = s\<lparr>u_hdr := u_hdr t\<rparr>" by (simp add: t set_ptr_def set_size_def)
    moreover have "blocks_ok t (set (l @ p # r') \<union> insert bp A)" using j(1) unfolding B .
    ultimately show ?thesis using True j(2) by (simp add: r) (simp add: t)
  qed
  then show "nx t bp = unhead (if R then tl r else r) (u_base s)" "\<And>a. a \<noteq> bp \<Longrightarrow> nx t a = nx s a" "\<And>a. a \<noteq> bp \<Longrightarrow> sz t a = sz s a"
    "t = s\<lparr>u_hdr := u_hdr t\<rparr>" "blocks_ok t (set (l @ p # (if R then tl r else r)) \<union> insert bp A)" "unat (sz s bp) \<le> unat (sz t bp)"
    "\<And>a. a \<in> set (l @ p # (if R then tl r else r)) \<Longrightarrow> a \<noteq> bp + 8 * unat (sz t bp)"
    by blast+
qed

lemma ufree_heap:
  assumes h: "heap s xs (insert bp A)" "bp \<notin> A"
  shows "\<exists>xs' t. ufree (bp + 8) s = Some t \<and> heap t xs' A \<and> t = s\<lparr>u_hdr := u_hdr t, u_freep := u_freep t\<rparr> \<and>
     (\<forall>a \<in> A. sz t a = sz s a) \<and> (\<exists>a \<in> set xs'. unat (sz s bp) \<le> unat (sz t a))"
proof -
  obtain l p r where x: "xs = l @ p # r" and p: "p < bp" "\<forall>a \<in> set r. bp < a"
    and u: "ufree (bp + 8) s = Some ((join_left bp p (join_right bp p s))\<lparr>u_freep := p\<rparr>)"
    by (rule ufree_cases [OF h])
  note h' = heapD [OF h(1)[unfolded x]] and j = join_right_facts [OF h(1)[unfolded x] h(2) p]
  define r' where "r' = (if r \<noteq> [] \<and> bp + 8 * unat (sz s bp) = hd r then tl r else r)"
  define s1 where "s1 = join_right bp p s"
  note j = j [folded r'_def s1_def]
  define L where "L \<longleftrightarrow> p + 8 * unat (sz s p) = bp"
  define t where "t = join_left bp p s1"
  let ?ys = "l @ p # (if L then r' else bp # r')" and ?t = "t\<lparr>u_freep := p\<rparr>"
  have base: "u_base s \<in> set (l @ p # r)" using base_in [OF h(1)] x by simp
  have nb: "bp \<notin> set (l @ p # r)" "bp \<noteq> u_base s" using h'(8) base by auto
  have r'_sub: "set r' \<subseteq> set r" by (cases r) (auto simp: r'_def)
  have sf: "u_base s1 = u_base s" "u_brk s1 = u_brk s" "u_limit s1 = u_limit s" by (subst j(4), simp)+
  have szp: "sz s1 p = sz s p" "nx s1 p = nx s p" using p(1) j(2,3) by auto
  have Lp: "p \<noteq> u_base s" if L using that h'(2) p(1) by (auto simp: L_def)
  have t: "t = (if L then set_ptr p (nx s1 bp) (set_size p (sz s p + sz s1 bp) s1) else set_ptr p bp s1)"
    by (simp add: t_def join_left_def szp L_def)
  have tf: "u_base t = u_base s" "u_brk t = u_brk s" "u_limit t = u_limit s" using sf by (auto simp: t)
  have pB: "p \<in> set (l @ p # r') \<union> insert bp A" "bp \<in> set (l @ p # r') \<union> insert bp A" by simp_all
  have szt: "sz t a = sz s a" if "a \<noteq> p" "a \<noteq> bp" for a using that j(3) by (simp add: t)
  have dp: "p \<notin> A" "bp \<notin> set (l @ p # r')" using h'(8) nb r'_sub by auto
  have blocks: "blocks_ok t (set ?ys \<union> A)" and sum: "L \<longrightarrow> unat (sz t p) = unat (sz s p) + unat (sz s1 bp)"
    and same: "\<not> L \<longrightarrow> sz t bp = sz s1 bp \<and> sz t p = sz s p"
  proof -
    have "blocks_ok t (set ?ys \<union> A) \<and> (L \<longrightarrow> unat (sz t p) = unat (sz s p) + unat (sz s1 bp))"
    proof (cases L)
      case True
      have "p + 8 * unat (sz s1 p) = bp" using True by (simp add: L_def szp)
      note join = blocks_ok_join [OF j(5) pB _ _ this _ , of t]
      have "(set (l @ p # r') \<union> insert bp A) - {bp} = set (l @ p # r') \<union> A" using dp(2) h(2) by auto
      then show ?thesis using join True Lp nb(2) h'(11) sf by (simp add: t szp)
    next
      case False
      have "blocks_ok t (set (l @ p # r') \<union> insert bp A)" by (rule blocks_ok_cong [OF j(5)]) (simp_all add: t False)
      then show ?thesis using False by (simp add: insert_commute)
    qed
    then show "blocks_ok t (set ?ys \<union> A)" "L \<longrightarrow> unat (sz t p) = unat (sz s p) + unat (sz s1 bp)" by blast+
    show "\<not> L \<longrightarrow> sz t bp = sz s1 bp \<and> sz t p = sz s p" by (simp add: t szp)
  qed
  have link: "linked t ?ys (hd ?ys)"
  proof -
    have hd: "hd ?ys = u_base s" using h'(4) by (cases l) auto
    have "linked s l p" "linked s r (u_base s)" using h'(4,6) by simp_all
    then have "linked s l p" "linked s r' (u_base s)" by (cases r; auto simp: r'_def)+
    moreover have "p \<notin> set l" "p \<notin> set r'" "bp \<notin> set l" "bp \<notin> set r'"
      using h'(5) dp(2) r'_sub by (auto simp: sorted_wrt_append)
    moreover have "nx t a = nx s a" if "a \<noteq> p" "a \<noteq> bp" for a using that j(2) by (simp add: t)
    ultimately have "linked t l p" "linked t r' (u_base s)"
      using linked_cong [of l t s p] linked_cong [of r' t s "u_base s"] by metis+
    then show ?thesis using p(1) j(1) by (simp add: hd) (simp add: t)
  qed
  have sorted: "sorted_wrt (<) ?ys"
  proof -
    have "sorted_wrt (<) (l @ p # r')" using h'(5) by (cases r) (auto simp: r'_def sorted_wrt_append)
    moreover have "\<forall>a \<in> set r'. bp < a" using p(2) r'_sub by blast
    ultimately show ?thesis using p(1) by (auto simp: sorted_wrt_append)
  qed
  have apart: "a + extent t a \<noteq> b" if a: "a \<in> set ?ys" "a \<noteq> u_base s" and b: "b \<in> set ?ys" for a b
  proof -
    have old: "a + extent s a \<noteq> b" if "a \<in> set (l @ p # r)" "b \<noteq> bp"
      using h'(10) [OF that(1) a(2), of b] b that(2) r'_sub by (auto split: if_splits)
    consider "a \<noteq> p" "a \<noteq> bp" | "a = p" L | "a = p" "\<not> L" | "a = bp" "\<not> L" using a(1) dp(2) by (auto split: if_splits)
    then show ?thesis
    proof cases
      case 1
      have "a \<in> set l \<or> a \<in> set r" using a(1) 1 r'_sub by (auto split: if_splits)
      then have "a + extent s a \<noteq> bp"
        using blocks_okD(5) [OF h'(9), of a p] h'(5) p by (auto simp: sorted_wrt_append)
      then show ?thesis using old szt [OF 1] a(1) 1 r'_sub tf(1) by (cases "b = bp") (auto simp: extent_def split: if_splits)
    next
      case 2
      have "p + extent t p = bp + 8 * unat (sz s1 bp)" using 2 sum a(2) tf(1) by (simp add: extent_def L_def)
      then show ?thesis using j(7) [of b] b 2 by auto
    next
      case 3
      have "p + extent s p \<noteq> bp" using 3 a(2) by (auto simp: extent_def L_def)
      then show ?thesis using old same 3 tf(1) by (cases "b = bp") (auto simp: extent_def)
    next
      case 4
      have "0 < unat (sz t bp)" using blocks_okD(3) [OF blocks, of bp] 4 nb(2) tf(1) by simp
      then show ?thesis using j(7) [of b] b 4 same nb(2) tf(1) by (auto simp: extent_def)
    qed
  qed
  have "heap ?t ?ys A"
    unfolding heap_def
  proof (intro conjI)
    show "sz ?t (u_base ?t) = 0" using nb(2) h'(2) szt [of "u_base s"] Lp same tf(1) by (cases "u_base s = p") auto
    show "set ?ys \<inter> A = {}" using dp h(2) h'(8) r'_sub by auto
    show "hd ?ys = u_base ?t" using h'(4) tf(1) by (cases l) auto
  qed (use h'(1,11-14) tf link sorted blocks apart in simp_all)
  moreover have "?t = s\<lparr>u_hdr := u_hdr ?t, u_freep := u_freep ?t\<rparr>"
  proof -
    have "t = s1\<lparr>u_hdr := u_hdr t\<rparr>" by (simp add: t set_ptr_def set_size_def)
    then show ?thesis using j(4) by (metis (no_types) ustate.update_convs(1,3) ustate.select_convs(1,3) ustate.surjective)
  qed
  moreover have "sz ?t a = sz s a" if "a \<in> A" for a using szt [of a] dp(1) h(2) that by auto
  moreover have "\<exists>a \<in> set ?ys. unat (sz s bp) \<le> unat (sz ?t a)"
    using sum same j(6) by (cases L) (auto intro: bexI [of _ p] bexI [of _ bp])
  ultimately show ?thesis using u by (intro exI [of _ ?ys] exI [of _ ?t]) (simp add: t_def s1_def)
qed

section \<open>Taking a block\<close>

lemma pred_unique:
  assumes h: "heap s xs A" and b: "b \<in> set xs" "nx s b = a" and a: "a \<in> set xs" "a \<noteq> u_base s"
  obtains l r where "xs = l @ b # a # r"
proof -
  note h' = heapD [OF h]
  obtain l r where x: "xs = l @ a # r" using a(1) by (auto simp: in_set_conv_decomp)
  moreover have "l \<noteq> []" using a(2) h'(4) x by (cases l) auto
  then obtain l' c where l: "l = l' @ [c]" by (cases l rule: rev_cases) auto
  have c: "c < a" using h'(5) by (simp add: x l sorted_wrt_append)
  have cB: "c \<in> set xs \<union> A" "a \<in> set xs \<union> A" by (simp_all add: x l)
  have "c + 8 \<le> a" using blocks_okD(3,5) [OF h'(9) cB(1)] cB(2) c by (cases "c = u_base s") (fastforce simp: extent_def)+
  then have "stops_at s (c + 1) b \<longleftrightarrow> b = c"
    using h'(5,6) b(1) by (intro stops_iff [of s l' c "a # r"]) (auto simp: x l sorted_wrt_append)
  moreover have "stops_at s (c + 1) b"
  proof (cases "b < c + 1")
    case True
    then show ?thesis using b(2) \<open>c + 8 \<le> a\<close> by (simp add: stops_at_def)
  next
    case False
    then have "a \<le> b" using b(1) h'(5) by (auto simp: x l sorted_wrt_append)
    then show ?thesis using b(2) \<open>c + 8 \<le> a\<close> by (simp add: stops_at_def)
  qed
  ultimately show ?thesis using that x l by auto
qed

lemma blocks_ok_split:
  assumes s: "blocks_ok s B" "a \<in> B" "a \<noteq> u_base s" and n: "0 < unat n" "n < sz s a"
    and t: "u_base t = u_base s" "u_brk t = u_brk s" "sz t a = sz s a - n" "sz t q = n" "\<And>c. c \<noteq> a \<Longrightarrow> c \<noteq> q \<Longrightarrow> sz t c = sz s c"
    and q: "q = a + 8 * unat (sz s a - n)"
  shows "q \<notin> B" "blocks_ok t (insert q B)"
proof -
  have d: "unat (sz s a - n) = unat (sz s a) - unat n" "unat n < unat (sz s a)"
    using n(2) by (simp_all add: unat_sub_word word_less_nat_alt)
  have "a < q" "q + 8 * unat n = a + extent s a" using d s(3) by (simp_all add: q extent_def)
  then show "q \<notin> B" using blocks_okD(5) [OF s(1,2), of q] n(1) by auto
  have qb: "q \<noteq> u_base s" "u_base s \<le> a" using blocks_okD(2) [OF s(1,2)] \<open>a < q\<close> by auto
  have ea: "a + extent t a = q" using s(3) t(1,3) by (simp add: extent_def q)
  have eq: "q + extent t q = a + extent s a" using qb(1) t(1,4) \<open>q + 8 * unat n = _\<close> by (simp add: extent_def)
  have ec: "extent t c = extent s c" if "c \<noteq> a" "c \<noteq> q" for c using t(1,5) that by (simp add: extent_def)
  have q8: "q mod 8 = 0" using blocks_okD(1) [OF s(1,2)] by (simp add: q mod_add_eq [symmetric])
  show "blocks_ok t (insert q B)"
    unfolding blocks_ok_def
  proof (intro conjI ballI impI)
    fix c d assume c: "c \<in> insert q B" and d: "d \<in> insert q B" and "c < d"
    consider "c = a" | "c = q" "c \<noteq> a" | "c \<in> B" "c \<noteq> a" "c \<noteq> q" using c by auto
    then show "c + extent t c \<le> d"
    proof cases
      case 1
      show ?thesis
      proof (cases "d = q")
        case False
        then show ?thesis using blocks_okD(5) [OF s(1,2), of d] d \<open>c < d\<close> ea \<open>q + 8 * unat n = _\<close> 1 by auto
      qed (use ea 1 in simp)
    next
      case 2
      then show ?thesis using blocks_okD(5) [OF s(1,2), of d] d \<open>c < d\<close> \<open>a < q\<close> eq by auto
    next
      case 3
      show ?thesis
      proof (cases "d = q")
        case True
        have "c < a"
        proof (rule ccontr)
          assume "\<not> c < a"
          then have "a + extent s a \<le> c" using blocks_okD(5) [OF s(1,2) 3(1)] 3(2) by simp
          then show False using \<open>c < d\<close> True \<open>q + 8 * unat n = _\<close> by simp
        qed
        then show ?thesis using blocks_okD(5) [OF s(1) 3(1), of a] s(2) True \<open>a < q\<close> ec [OF 3(2,3)] by auto
      next
        case False
        then show ?thesis using blocks_okD(5) [OF s(1) 3(1), of d] d \<open>c < d\<close> ec [OF 3(2,3)] by auto
      qed
    qed
  next
    fix c assume c: "c \<in> insert q B" and b: "c \<noteq> u_base t"
    show "0 < unat (sz t c)" using blocks_okD(3) [OF s(1), of c] c b t d n(1) by (cases "c = a"; cases "c = q") auto
    show "c + extent t c \<le> u_brk t"
      using blocks_okD(4) [OF s(1), of c] blocks_okD(4) [OF s] c b t(1,2) ea eq \<open>q + 8 * unat n = _\<close> ec by (cases "c = a"; cases "c = q") auto
  qed (use blocks_okD(1,2) [OF s(1)] t(1) q8 qb \<open>a < q\<close> in auto)
qed

lemma take_block_heap:
  assumes h: "heap s xs A" and b: "b \<in> set xs" "nx s b = a" and a: "a \<in> set xs" and n: "0 < unat n" "n \<le> sz s a"
  obtains q xs' t where "take_block n b a s = (q + 8, t)" "heap t xs' (insert q A)" "q \<notin> A" "sz t q = n" "\<And>c. c \<in> A \<Longrightarrow> sz t c = sz s c"
    "\<not> u_lock t" "\<not> u_in t" "u_base t = u_base s" "u_brk t = u_brk s" "u_limit t = u_limit s"
proof -
  note h' = heapD [OF h]
  have an: "a \<noteq> u_base s" using n h'(2) by (auto simp: word_le_nat_alt)
  obtain l r where x: "xs = l @ b # a # r" by (rule pred_unique [OF h b a an])
  have aA: "a \<notin> A" using h'(8) a by auto
  show ?thesis
  proof (cases "sz s a = n")
    case True
    let ?t = "((set_ptr b (nx s a) s)\<lparr>u_freep := b, u_lock := False\<rparr>)\<lparr>u_in := False\<rparr>"
    have B: "set (l @ b # r) \<union> insert a A = set xs \<union> A" by (auto simp: x)
    have ok: "blocks_ok (set_ptr b (nx s a) s) (set xs \<union> A)" by (rule blocks_ok_cong [OF h'(9)]) simp_all
    have lk: "linked (set_ptr b (nx s a) s) l b" "linked (set_ptr b (nx s a) s) r (hd xs)"
      using h'(5,6) linked_cong [of l "set_ptr b (nx s a) s" s b] linked_cong [of r "set_ptr b (nx s a) s" s "hd xs"]
      by (fastforce simp: x sorted_wrt_append)+
    have "heap ?t (l @ b # r) (insert a A)"
      unfolding heap_def
    proof (intro conjI)
      show "hd (l @ b # r) = u_base ?t" using h'(4) by (cases l) (auto simp: x)
      then show "linked ?t (l @ b # r) (hd (l @ b # r))" using lk h'(4,6) by (simp add: x)
      show "set (l @ b # r) \<inter> insert a A = {}" using h'(5,8) by (auto simp: x sorted_wrt_append)
      show "blocks_ok ?t (set (l @ b # r) \<union> insert a A)" using ok B by simp
      show "\<forall>c \<in> set (l @ b # r) - {u_base ?t}. \<forall>d \<in> set (l @ b # r). c + extent ?t c \<noteq> d"
        using h'(10) by (auto simp: x extent_def)
    qed (use h'(1,2,5,11-14) in \<open>simp_all add: x sorted_wrt_append\<close>)
    then show ?thesis
      using True aA by (intro that [of a ?t]) (simp_all add: take_block_def spinlock_release_def)
  next
    case False
    let ?m = "sz s a - n"
    let ?q = "a + 8 * unat ?m"
    let ?s1 = "set_size ?q n (set_size a ?m s)"
    let ?t = "(?s1\<lparr>u_freep := b, u_lock := False\<rparr>)\<lparr>u_in := False\<rparr>"
    have lt: "n < sz s a" using n(2) False by simp
    have m: "unat ?m = unat (sz s a) - unat n" "unat n < unat (sz s a)" using lt by (simp_all add: unat_sub_word word_less_nat_alt)
    have aB: "a \<in> set xs \<union> A" using a by simp
    have split: "?q \<notin> set xs \<union> A" "blocks_ok ?s1 (insert ?q (set xs \<union> A))"
      using m by (intro blocks_ok_split [OF h'(9) aB an n(1) lt, of ?s1 ?q]; simp)+
    have qn: "?q \<noteq> u_base s" using split(1) base_in [OF h] by auto
    have ext: "extent ?s1 c = (if c = a then 8 * unat ?m else extent s c)" if "c \<in> set xs" for c
      using that split(1) an by (auto simp: extent_def)
    have "c + extent ?s1 c \<noteq> d" if c: "c \<in> set xs" "c \<noteq> u_base s" "d \<in> set xs" for c d
      using ext [OF c(1)] h'(10) [OF c] c(3) split(1) by auto
    moreover have "linked ?t xs (hd xs)" using h'(6) linked_cong [of xs ?s1 s "hd xs"] by simp
    ultimately have "heap ?t xs (insert ?q A)"
      unfolding heap_def using h' split b(1) qn an by (simp add: insert_commute)
    then show ?thesis
      using False split(1) aA by (intro that [of ?q ?t]) (auto simp: take_block_def spinlock_release_def Let_def)
  qed
qed

section \<open>Searching the ring\<close>

lemma malloc_loop_simps:
  "n \<le> sz s p \<Longrightarrow> malloc_loop n prevp p s = Some (take_block n prevp p s)"
  "\<not> n \<le> sz s p \<Longrightarrow> p \<noteq> u_freep s \<Longrightarrow> malloc_loop n prevp p s = malloc_loop n p (nx s p) s"
  "\<not> n \<le> sz s p \<Longrightarrow> p = u_freep s \<Longrightarrow> malloc_loop n prevp p s = do {
     (p, s) \<leftarrow> morecore n s;
     if p = 0 then Some (0, (spinlock_release s)\<lparr>u_in := False\<rparr>) else malloc_loop n p (nx s p) s }"
  by (subst malloc_loop.simps, simp)+

lemma malloc_loop_fit:
  "linked s (prev # pre @ a # post) z \<Longrightarrow> \<forall>x \<in> set pre. \<not> n \<le> sz s x \<and> x \<noteq> u_freep s \<Longrightarrow> n \<le> sz s a \<Longrightarrow>
   malloc_loop n prev (nx s prev) s = Some (take_block n (last (prev # pre)) a s)"
  by (induction pre arbitrary: prev) (auto simp: malloc_loop_simps)

lemma malloc_loop_none:
  "linked s (prev # pre @ [u_freep s]) z \<Longrightarrow> \<forall>x \<in> set (pre @ [u_freep s]). \<not> n \<le> sz s x \<Longrightarrow> \<forall>x \<in> set pre. x \<noteq> u_freep s \<Longrightarrow>
   malloc_loop n prev (nx s prev) s = do {
     (p, s) \<leftarrow> morecore n s;
     if p = 0 then Some (0, (spinlock_release s)\<lparr>u_in := False\<rparr>) else malloc_loop n p (nx s p) s }"
  by (induction pre arbitrary: prev) (auto simp: malloc_loop_simps)

text \<open>The ring, read from the block behind the one where the search begins.\<close>

lemma heap_rotated:
  assumes "heap s xs A"
  obtains pre where "linked s (u_freep s # pre @ [u_freep s]) (nx s (u_freep s))" "set (pre @ [u_freep s]) = set xs" "u_freep s \<notin> set pre"
proof -
  note h' = heapD [OF assms]
  obtain l r where x: "xs = l @ u_freep s # r" using h'(7) by (auto simp: in_set_conv_decomp)
  have "linked s (u_freep s # (r @ l) @ [u_freep s]) (nx s (u_freep s))"
    using h'(6) by (cases l) (auto simp: x unhead_append)
  moreover have "u_freep s \<notin> set (r @ l)" using h'(5) by (auto simp: x sorted_wrt_append)
  ultimately show ?thesis using that [of "r @ l"] by (auto simp: x)
qed

lemma malloc_search:
  assumes h: "heap s xs A" and n: "0 < unat n"
  shows "(\<exists>q xs' t. malloc_loop n (u_freep s) (nx s (u_freep s)) s = Some (q + 8, t) \<and> heap t xs' (insert q A) \<and> q \<notin> A \<and> sz t q = n \<and>
       (\<forall>c \<in> A. sz t c = sz s c) \<and> \<not> u_lock t \<and> \<not> u_in t \<and> u_base t = u_base s \<and> u_brk t = u_brk s \<and> u_limit t = u_limit s) \<or>
     (\<forall>a \<in> set xs. \<not> n \<le> sz s a) \<and> malloc_loop n (u_freep s) (nx s (u_freep s)) s = do {
       (p, s) \<leftarrow> morecore n s;
       if p = 0 then Some (0, (spinlock_release s)\<lparr>u_in := False\<rparr>) else malloc_loop n p (nx s p) s }"
proof -
  obtain pre where pre: "linked s (u_freep s # pre @ [u_freep s]) (nx s (u_freep s))" "set (pre @ [u_freep s]) = set xs" "u_freep s \<notin> set pre"
    by (rule heap_rotated [OF h])
  show ?thesis
  proof (cases "\<exists>a \<in> set (pre @ [u_freep s]). n \<le> sz s a")
    case True
    then obtain l a r where a: "pre @ [u_freep s] = l @ a # r" "n \<le> sz s a" "\<forall>x \<in> set l. \<not> n \<le> sz s x"
      using split_list_first_prop [of "pre @ [u_freep s]" "\<lambda>x. n \<le> sz s x"] by blast
    have l: "set l \<subseteq> set pre" using a(1) by (cases r rule: rev_cases) auto
    have "linked s (u_freep s # l @ a # r) (nx s (u_freep s))" using pre(1) unfolding a(1) .
    note lk = this
    have "\<forall>x \<in> set l. \<not> n \<le> sz s x \<and> x \<noteq> u_freep s" using a(3) l pre(3) by blast
    note m = malloc_loop_fit [OF lk this a(2)]
    have nxa: "nx s (last (u_freep s # l)) = a" using lk by (cases l rule: rev_cases) auto
    have "a \<in> set xs" using pre(2) a(1) by (metis in_set_conv_decomp)
    moreover have "last (u_freep s # l) \<in> set xs" using l pre(2) by (cases l rule: rev_cases) auto
    ultimately obtain q xs' t where "take_block n (last (u_freep s # l)) a s = (q + 8, t)" "heap t xs' (insert q A)" "q \<notin> A" "sz t q = n"
      "\<And>c. c \<in> A \<Longrightarrow> sz t c = sz s c" "\<not> u_lock t" "\<not> u_in t" "u_base t = u_base s" "u_brk t = u_brk s" "u_limit t = u_limit s"
      using take_block_heap [OF h _ nxa _ n a(2)] by metis
    then show ?thesis using m by simp blast
  next
    case False
    then have "\<forall>x \<in> set (pre @ [u_freep s]). \<not> n \<le> sz s x" by blast
    from malloc_loop_none [OF pre(1) this] pre(2,3) this show ?thesis by blast
  qed
qed

lemma morecore_heap:
  assumes h: "heap s xs A" and i: "u_in s" and n: "0 < unat n" "unat n < 2 ^ 28"
  shows "morecore n s = Some (0, s) \<or>
    (\<exists>xs' t. morecore n s = Some (u_freep t, t) \<and> heap t xs' A \<and> u_freep t \<noteq> 0 \<and> (\<exists>a \<in> set xs'. n \<le> sz t a) \<and>
       (\<forall>c \<in> A. sz t c = sz s c) \<and> u_lock t = u_lock s \<and> u_in t \<and> u_base t = u_base s)"
proof -
  note h' = heapD [OF h]
  define nu where "nu = (if n < 4096 then 4096 else n)"
  let ?hp = "u_brk s"
  have nu: "unat nu < 2 ^ 28" "n \<le> nu" "0 < unat nu" using n by (auto simp: nu_def word_less_nat_alt word_le_nat_alt)
  have m: "unat (nu * 8) = 8 * unat nu" using nu(1) by (simp add: unat_word_ariths mult.commute)
  have pos: "0 < sint (nu * 8)" unfolding sint_u32_sign m using nu(1,3) by simp
  show ?thesis
  proof (cases "?hp + unat (nu * 8) \<le> u_limit s")
    case False
    then have "sbrk (nu * 8) s = (None, s)" using pos by (simp add: sbrk_def)
    then show ?thesis using i by (simp add: morecore_def Let_def flip: nu_def)
  next
    case True
    let ?s1 = "s\<lparr>u_brk := ?hp + unat (nu * 8)\<rparr>"
    let ?s2 = "set_size ?hp nu ?s1"
    have sb: "sbrk (nu * 8) s = (Some ?hp, ?s1)" using True pos by (simp add: sbrk_def)
    have below: "a + extent s a \<le> ?hp" if "a \<in> set xs \<union> A" for a
      using blocks_okD(4) [OF h'(9) that] h'(14) by (cases "a = u_base s") (auto simp: extent_def)
    have ne: "?hp \<noteq> a" "0 < extent s a" if "a \<in> set xs \<union> A" for a
    proof -
      show "0 < extent s a" using blocks_okD(3) [OF h'(9) that] by (simp add: extent_def)
      then show "?hp \<noteq> a" using below [OF that] by auto
    qed
    have hb: "?hp \<noteq> u_base s" using h'(14) by auto
    have ext: "extent ?s2 a = (if a = ?hp then 8 * unat nu else extent s a)" for a
      using hb by (auto simp: extent_def sz_def set_size_def)
    have sz2: "sz ?s2 a = (if a = ?hp then nu else sz s a)" "nx ?s2 a = nx s a" for a by simp_all
    have B: "blocks_ok ?s2 (insert ?hp (set xs \<union> A))"
      unfolding blocks_ok_def
    proof (intro conjI ballI impI)
      fix c d assume "c \<in> insert ?hp (set xs \<union> A)" "d \<in> insert ?hp (set xs \<union> A)" "c < d"
      then show "c + extent ?s2 c \<le> d"
        using below [of c] below [of d] ne(2) [of d] blocks_okD(5) [OF h'(9), of c d] by (auto simp: ext)
    next
      fix c assume c: "c \<in> insert ?hp (set xs \<union> A)" and b: "c \<noteq> u_base ?s2"
      show "0 < unat (sz ?s2 c)" using blocks_okD(3) [OF h'(9), of c] c b nu(3) unfolding sz2 by auto
      show "c + extent ?s2 c \<le> u_brk ?s2" unfolding ext using below [of c] c m by auto
    next
      fix c assume "c \<in> insert ?hp (set xs \<union> A)"
      then show "c mod 8 = 0" "u_base ?s2 \<le> c" using blocks_okD(1,2) [OF h'(9), of c] h'(13,14) by auto
    qed
    have "heap ?s2 xs (insert ?hp A)"
      unfolding heap_def
    proof (intro conjI)
      show "linked ?s2 xs (hd xs)" using h'(6) linked_cong [of xs ?s2 s "hd xs"] sz2(2) by simp
      show "\<forall>a \<in> set xs - {u_base ?s2}. \<forall>b \<in> set xs. a + extent ?s2 a \<noteq> b" using h'(10) ne(1) by (auto simp: ext)
      show "u_brk ?s2 mod 8 = 0" using h'(13) m by simp
      show "sz ?s2 (u_base ?s2) = 0" using h'(2) hb by simp
    qed (use h'(1,3-5,7,8,11,12,14) B True ne(1) in \<open>auto simp: m\<close>)
    from ufree_heap [OF this] ne(1) obtain xs' t where t: "ufree (?hp + 8) ?s2 = Some t" "heap t xs' A"
      "t = ?s2\<lparr>u_hdr := u_hdr t, u_freep := u_freep t\<rparr>" "\<forall>a \<in> A. sz t a = sz ?s2 a" "\<exists>a \<in> set xs'. unat (sz ?s2 ?hp) \<le> unat (sz t a)"
      by blast
    have f: "u_in t = u_in s" "u_lock t = u_lock s" "u_base t = u_base s" by (subst t(3), simp)+
    have "u_freep t \<noteq> 0" using heapD(1,7,9) [OF t(2)] blocks_okD(2) [OF heapD(9) [OF t(2)], of "u_freep t"] by auto
    moreover obtain a where "a \<in> set xs'" "unat nu \<le> unat (sz t a)" using t(5) unfolding sz2 by auto
    then have "\<exists>a \<in> set xs'. n \<le> sz t a" using nu(2) by (intro bexI [of _ a]) (auto simp: word_le_nat_alt)
    moreover have "\<forall>c \<in> A. sz t c = sz s c" using t(4) ne(1) by auto
    ultimately show ?thesis using t(1,2) sb i f by (auto simp: morecore_def Let_def simp flip: nu_def)
  qed
qed

section \<open>Every call returns and keeps the blocks apart\<close>

text \<open>Between calls: the lock is free, and the list is a heap or has not been made yet.\<close>

definition ready :: "ustate \<Rightarrow> nat set \<Rightarrow> bool" where
  "ready s A \<longleftrightarrow> \<not> u_lock s \<and>
     ((\<exists>xs. heap s xs A) \<or>
      u_freep s = 0 \<and> A = {} \<and> 0 < u_base s \<and> u_base s mod 8 = 0 \<and> u_base s + 8 \<le> u_brk s \<and> u_brk s mod 8 = 0 \<and>
      u_brk s < 2 ^ 31 \<and> u_limit s < 2 ^ 31)"

lemma unat_units: "unat nb < 2 ^ 31 - 16 \<Longrightarrow> unat (units nb) = (unat nb + 7) div 8 + 1"
proof -
  assume nb: "unat nb < 2 ^ 31 - 16"
  have "unat (nb + 7) = unat nb + unat (7 :: u32)" by (rule unat_add_small) (use nb in simp)
  moreover have "unat (7 :: u32) = 7" "nb + 8 - 1 = nb + 7" by simp_all
  ultimately have "unat (nb + 8 - 1) = unat nb + 7" by (simp only:)
  then have "unat ((nb + 8 - 1) div 8) = (unat nb + 7) div 8" by (simp add: unat_div_distrib)
  then show ?thesis using nb unat_add_small [of "(nb + 8 - 1) div 8" 1] by (simp add: units_def)
qed

lemma heap_flags [simp]:
  "heap (s\<lparr>u_lock := b\<rparr>) xs A = heap s xs A" "heap (s\<lparr>u_in := b\<rparr>) xs A = heap s xs A"
  unfolding heap_def by simp_all

lemma heap_malloc:
  assumes h: "heap s xs A" and l: "u_lock s" "u_in s" and n: "0 < unat n" "unat n < 2 ^ 28"
  shows "\<exists>p t. malloc_loop n (u_freep s) (nx s (u_freep s)) s = Some (p, t) \<and>
     (p = 0 \<and> ready t A \<or> (\<exists>q. p = q + 8 \<and> q \<notin> A \<and> ready t (insert q A) \<and> sz t q = n)) \<and>
     (\<forall>c \<in> A. sz t c = sz s c) \<and> u_base t = u_base s"
  using malloc_search [OF h n(1)]
proof (elim disjE conjE)
  assume none: "malloc_loop n (u_freep s) (nx s (u_freep s)) s = do {
       (p, s) \<leftarrow> morecore n s;
       if p = 0 then Some (0, (spinlock_release s)\<lparr>u_in := False\<rparr>) else malloc_loop n p (nx s p) s }"
  from morecore_heap [OF h l(2) n] show ?thesis
  proof (elim disjE exE conjE)
    assume m: "morecore n s = Some (0, s)"
    have "heap ((spinlock_release s)\<lparr>u_in := False\<rparr>) xs A"
      using h by (simp add: spinlock_release_def)
    then show ?thesis by (auto simp: none m ready_def spinlock_release_def)
  next
    fix xs' t
    assume m: "morecore n s = Some (u_freep t, t)" and t: "heap t xs' A" "u_freep t \<noteq> 0" "\<exists>a \<in> set xs'. n \<le> sz t a"
      "\<forall>c \<in> A. sz t c = sz s c" "u_lock t = u_lock s" "u_in t" "u_base t = u_base s"
    from malloc_search [OF t(1) n(1)] t(3) obtain q xs'' u where
      "malloc_loop n (u_freep t) (nx t (u_freep t)) t = Some (q + 8, u)" "heap u xs'' (insert q A)" "q \<notin> A" "sz u q = n"
      "\<forall>c \<in> A. sz u c = sz t c" "\<not> u_lock u" "u_base u = u_base t"
      by blast
    then show ?thesis using none m t by (auto simp: ready_def)
  qed
qed (auto simp: ready_def)

lemma umalloc_ready:
  assumes "ready s A" "unat nb < 2 ^ 31 - 16"
  shows "\<exists>p t. umalloc nb s = Some (p, t) \<and>
     (p = 0 \<and> ready t A \<or> (\<exists>q. p = q + 8 \<and> q \<notin> A \<and> ready t (insert q A) \<and> sz t q = units nb)) \<and>
     (\<forall>c \<in> A. sz t c = sz s c) \<and> u_base t = u_base s"
proof -
  let ?s = "s\<lparr>u_in := True, u_lock := True\<rparr>"
  have n: "0 < unat (units nb)" "unat (units nb) < 2 ^ 28" using unat_units [OF assms(2)] assms(2) by simp_all
  have l: "\<not> u_lock s" using assms(1) by (simp add: ready_def)
  show ?thesis
  proof (cases "\<exists>xs. heap s xs A")
    case True
    then obtain xs where h: "heap s xs A" by blast
    have "u_freep s \<noteq> 0" using heapD(1,7) [OF h] blocks_okD(2) [OF heapD(9) [OF h], of "u_freep s"] by auto
    moreover have "heap ?s xs A" using heap_flags(1) [where s = "s\<lparr>u_in := True\<rparr>" and b = True] h by simp
    ultimately show ?thesis
      using heap_malloc [of ?s xs A "units nb"] n l by (simp add: umalloc_def spinlock_acquire_def)
  next
    case False
    let ?t = "(set_size (u_base s) 0 (set_ptr (u_base s) (u_base s) ?s))\<lparr>u_freep := u_base s\<rparr>"
    have f: "u_freep s = 0" "A = {}" "0 < u_base s" "u_base s mod 8 = 0" "u_base s + 8 \<le> u_brk s" "u_brk s mod 8 = 0"
      "u_brk s < 2 ^ 31" "u_limit s < 2 ^ 31" using assms(1) False by (auto simp: ready_def)
    have "heap ?t [u_base s] {}" using f by (simp add: heap_def blocks_ok_def extent_def)
    from heap_malloc [OF this _ _ n] show ?thesis using f l by (simp add: umalloc_def spinlock_acquire_def)
  qed
qed

lemma ufree_ready:
  assumes "ready s A" "q \<in> A"
  shows "\<exists>t. ufree (q + 8) s = Some t \<and> ready t (A - {q}) \<and> (\<forall>c \<in> A - {q}. sz t c = sz s c) \<and> u_base t = u_base s"
proof -
  obtain xs where h: "heap s xs (insert q (A - {q}))" using assms by (auto simp: ready_def insert_absorb)
  from ufree_heap [OF this] obtain xs' t where t: "ufree (q + 8) s = Some t" "heap t xs' (A - {q})"
    "t = s\<lparr>u_hdr := u_hdr t, u_freep := u_freep t\<rparr>" "\<forall>a \<in> A - {q}. sz t a = sz s a" by auto
  have "u_lock t = u_lock s" "u_base t = u_base s" by (subst t(3), simp)+
  then show ?thesis using t assms(1) by (auto simp: ready_def)
qed

text \<open>Runs of a program that calls \<open>malloc\<close> and frees what it got; \<open>A\<close> are the blocks it owns.\<close>

inductive urun :: "ustate \<Rightarrow> nat set \<Rightarrow> bool" where
  start: "ready s {} \<Longrightarrow> u_freep s = 0 \<Longrightarrow> urun s {}"
| fail: "urun s A \<Longrightarrow> unat nb < 2 ^ 31 - 16 \<Longrightarrow> umalloc nb s = Some (0, t) \<Longrightarrow> urun t A"
| alloc: "urun s A \<Longrightarrow> unat nb < 2 ^ 31 - 16 \<Longrightarrow> umalloc nb s = Some (q + 8, t) \<Longrightarrow> urun t (insert q A)"
| free: "urun s A \<Longrightarrow> q \<in> A \<Longrightarrow> ufree (q + 8) s = Some t \<Longrightarrow> urun t (A - {q})"

lemma urun_ready: "urun s A \<Longrightarrow> ready s A"
proof (induction rule: urun.induct)
  case (fail s A nb t)
  then show ?case using umalloc_ready [of s A nb] by auto
next
  case (alloc s A nb q t)
  then show ?case using umalloc_ready [of s A nb] by auto
next
  case (free s A q t)
  then show ?case using ufree_ready [of s A q] by auto
qed

text \<open>C36: In every run of one thread whose requests are for less than 2^31 - 16 bytes and that frees only blocks it owns,
  each further such request returns, with a null pointer or with a block that has the room asked for, lies below the
  break and overlaps no other block that the program owns; freeing a block returns too, and neither touches the
  header of another block.\<close>

theorem umalloc_blocks_apart:
  assumes "urun s A" "unat nb < 2 ^ 31 - 16"
  shows "(\<forall>q \<in> A. \<exists>t. ufree (q + 8) s = Some t \<and> (\<forall>c \<in> A - {q}. sz t c = sz s c)) \<and>
    (\<exists>p t. umalloc nb s = Some (p, t) \<and> (\<forall>c \<in> A. sz t c = sz s c) \<and>
       (p = 0 \<or> p mod 8 = 0 \<and> unat nb \<le> 8 * (unat (sz t (p - 8)) - 1) \<and> p - 8 + 8 * unat (sz t (p - 8)) \<le> u_brk t \<and>
          (\<forall>c \<in> A. c + 8 * unat (sz t c) \<le> p - 8 \<or> p - 8 + 8 * unat (sz t (p - 8)) \<le> c)))"
proof -
  have r: "ready s A" by (rule urun_ready [OF assms(1)])
  then have free: "\<forall>q \<in> A. \<exists>t. ufree (q + 8) s = Some t \<and> (\<forall>c \<in> A - {q}. sz t c = sz s c)" using ufree_ready by blast
  obtain p t where t: "umalloc nb s = Some (p, t)"
    "p = 0 \<and> ready t A \<or> (\<exists>q. p = q + 8 \<and> q \<notin> A \<and> ready t (insert q A) \<and> sz t q = units nb)" "\<forall>c \<in> A. sz t c = sz s c"
    using umalloc_ready [OF r assms(2)] by blast
  have "p = 0 \<or> p mod 8 = 0 \<and> unat nb \<le> 8 * (unat (sz t (p - 8)) - 1) \<and> p - 8 + 8 * unat (sz t (p - 8)) \<le> u_brk t \<and>
          (\<forall>c \<in> A. c + 8 * unat (sz t c) \<le> p - 8 \<or> p - 8 + 8 * unat (sz t (p - 8)) \<le> c)"
    using t(2)
  proof (elim disjE exE conjE)
    fix q assume q: "p = q + 8" "q \<notin> A" "ready t (insert q A)" "sz t q = units nb"
    then obtain xs where h: "heap t xs (insert q A)" by (auto simp: ready_def)
    have B: "blocks_ok t (insert q A)" by (rule blocks_ok_cong [OF heapD(9) [OF h]]) auto
    have nb: "c \<noteq> u_base t" if "c \<in> insert q A" for c using base_in [OF h] heapD(8) [OF h] that by auto
    have "c + 8 * unat (sz t c) \<le> q \<or> q + 8 * unat (sz t q) \<le> c" if "c \<in> A" for c
      using blocks_okD(5) [OF B, of c q] blocks_okD(5) [OF B, of q c] nb [of c] nb [of q] that q(2)
      by (cases c q rule: linorder_cases) (auto simp: extent_def)
    moreover have "unat nb \<le> 8 * ((unat nb + 7) div 8)" by simp
    ultimately show ?thesis
      using q(1,4) blocks_okD(1,4) [OF B, of q] nb [of q] unat_units [OF assms(2)] by (simp add: extent_def)
  qed simp
  then show ?thesis by (intro conjI free exI [of _ p] exI [of _ t] t(1,3))
qed

definition sample_heap :: ustate where
  "sample_heap = \<lparr>u_hdr = (\<lambda>_. \<lparr>h_ptr = 0, h_size = 0\<rparr>), u_base = 1024, u_freep = 0, u_lock = False, u_in = False,
     u_brk = 8192, u_limit = 655360\<rparr>"

theorem umalloc_blocks_apart_witness:
  "\<exists>p t. umalloc 100 sample_heap = Some (p, t) \<and> (p = 0 \<or> p mod 8 = 0 \<and> 100 \<le> 8 * (unat (sz t (p - 8)) - 1))"
proof -
  have "urun sample_heap {}" by (rule urun.start) (simp_all add: ready_def sample_heap_def)
  from umalloc_blocks_apart [OF this, of 100] show ?thesis by auto
qed

text \<open>The sum in the size wraps around: a request for nearly 2^32 bytes is answered like one for none.\<close>

lemma umalloc_wraps:
  assumes "0xFFFFFFF9 \<le> nb"
  shows "umalloc nb s = umalloc 0 s"
proof -
  have "unat nb < 4294967296" "4294967289 \<le> unat nb"
    using unsigned_less [of nb] assms by (simp_all add: word_le_nat_alt)
  then have "unat nb + 7 = 4294967296 + (unat nb - 4294967289)" "unat nb - 4294967289 < 7" by linarith+
  then have "(unat nb + 7) mod 4294967296 < 8" by (simp only: mod_add_self1)
  then have "unat (nb + 7) < 8" by (simp add: unat_word_ariths)
  then have "unat ((nb + 7) div 8) = 0" by (simp add: unat_div_distrib)
  then have "(nb + 7) div 8 = 0" by (simp add: word_unat_eq_iff)
  moreover have "nb + 8 - 1 = nb + 7" by simp
  ultimately have "units nb = units 0" by (simp only: units_def) simp
  then show ?thesis by (simp only: umalloc_def)
qed

section \<open>Stacks of threads\<close>

text \<open>
  \<open>thread_create\<close> and \<open>thread_join\<close> of \<open>ulib.c\<close>; what the system calls \<open>clone\<close> and \<open>join\<close> return is a parameter.  The
  block that \<open>thread_join\<close> allocates is lost: \<open>join\<close> overwrites its only pointer.
\<close>

definition thread_create :: "(nat \<Rightarrow> int) \<Rightarrow> ustate \<Rightarrow> (int \<times> ustate) option" where
  "thread_create clone s = do {
     (stack, s) \<leftarrow> umalloc (4096 * 2) s;
     if stack = 0 then Some (- 1, s) else Some (clone ((stack + 4095) div 4096 * 4096), s) }"

definition thread_join :: "(nat \<Rightarrow> int \<times> nat) \<Rightarrow> ustate \<Rightarrow> (int \<times> ustate) option" where
  "thread_join join s = do {
     (stack, s) \<leftarrow> umalloc 4 s;
     case join stack of (pid, stack) \<Rightarrow>
       if pid < 0 then Some (- 1, s)
       else do { s \<leftarrow> ufree stack s; Some (pid, s) } }"

text \<open>The page of the stack lies in the block that was allocated for it.\<close>

lemma thread_stack_fits:
  assumes "urun s A" "thread_create clone s = Some (r, t)"
  shows "r = - 1 \<or> (\<exists>p. r = clone ((p + 4095) div 4096 * 4096) \<and> p \<le> (p + 4095) div 4096 * 4096 \<and>
     (p + 4095) div 4096 * 4096 + 4096 \<le> p - 8 + 8 * unat (sz t (p - 8)))"
proof -
  obtain p u where u: "umalloc 8192 s = Some (p, u)"
    "p = 0 \<and> ready u A \<or> (\<exists>q. p = q + 8 \<and> q \<notin> A \<and> ready u (insert q A) \<and> sz u q = units 8192)"
    using umalloc_ready [OF urun_ready [OF assms(1)], of 8192] by auto
  show ?thesis
  proof (cases "p = 0")
    case True
    then show ?thesis using assms(2) u(1) by (auto simp: thread_create_def)
  next
    case False
    then have "unat (sz u (p - 8)) = 1025" "8 \<le> p" using u(2) unat_units [of 8192] by auto
    moreover have "p \<le> (p + 4095) div 4096 * 4096" "(p + 4095) div 4096 * 4096 \<le> p + 4095"
      using div_mult_mod_eq [of "p + 4095" 4096] mod_less_divisor [of 4096 "p + 4095"] by linarith+
    ultimately show ?thesis using False assms(2) u(1) by (auto simp: thread_create_def)
  qed
qed

section \<open>Threads in malloc\<close>

text \<open>
  The two variables that the threads of a process share in \<open>malloc\<close>, step by step.  Where a thread is: between calls, at
  the acquisition of the lock, in the search, in \<open>morecore\<close> before and after it asks for memory, and on its way out.
\<close>

datatype mpc = Outside | Acquiring | Searching | Testing | Acquiring2 | Growing | Testing2 | Releasing | Clearing

record mstate =
  m_lock :: bool
  m_in :: bool
  m_pc :: "nat \<Rightarrow> mpc"

definition goto :: "nat \<Rightarrow> mpc \<Rightarrow> mstate \<Rightarrow> mstate" where
  "goto p c s = s\<lparr>m_pc := (m_pc s)(p := c)\<rparr>"

inductive mstep :: "mstate \<Rightarrow> mstate \<Rightarrow> bool" where
  call: "m_pc s p = Outside \<Longrightarrow> mstep s (goto p Acquiring s\<lparr>m_in := True\<rparr>)"
| acquire: "m_pc s p = Acquiring \<Longrightarrow> \<not> m_lock s \<Longrightarrow> mstep s (goto p Searching s\<lparr>m_lock := True\<rparr>)"
| found: "m_pc s p = Searching \<Longrightarrow> mstep s (goto p Releasing s)"
| short: "m_pc s p = Searching \<Longrightarrow> mstep s (goto p Testing s)"
| test_in: "m_pc s p = Testing \<Longrightarrow> m_in s \<Longrightarrow> mstep s (goto p Growing s)"
| test_out: "m_pc s p = Testing \<Longrightarrow> \<not> m_in s \<Longrightarrow> mstep s (goto p Acquiring2 s)"
| acquire2: "m_pc s p = Acquiring2 \<Longrightarrow> \<not> m_lock s \<Longrightarrow> mstep s (goto p Growing s\<lparr>m_lock := True\<rparr>)"
| no_memory: "m_pc s p = Growing \<Longrightarrow> mstep s (goto p Releasing s)"
| memory: "m_pc s p = Growing \<Longrightarrow> mstep s (goto p Testing2 s)"
| test2_in: "m_pc s p = Testing2 \<Longrightarrow> m_in s \<Longrightarrow> mstep s (goto p Searching s)"
| test2_out: "m_pc s p = Testing2 \<Longrightarrow> \<not> m_in s \<Longrightarrow> mstep s (goto p Searching s\<lparr>m_lock := False\<rparr>)"
| release: "m_pc s p = Releasing \<Longrightarrow> mstep s (goto p Clearing s\<lparr>m_lock := False\<rparr>)"
| clear: "m_pc s p = Clearing \<Longrightarrow> mstep s (goto p Outside s\<lparr>m_in := False\<rparr>)"

inductive msteps :: "mstate \<Rightarrow> mstate \<Rightarrow> bool" where
  none: "msteps s s"
| more: "msteps s t \<Longrightarrow> mstep t u \<Longrightarrow> msteps s u"

definition idle :: mstate where
  "idle = \<lparr>m_lock = False, m_in = False, m_pc = (\<lambda>_. Outside)\<rparr>"

text \<open>Nobody moves on: the lock is held, and every thread in \<open>malloc\<close> waits for it.\<close>

definition stuck :: "mstate \<Rightarrow> bool" where
  "stuck s \<longleftrightarrow> m_lock s \<and> (\<forall>p. m_pc s p \<in> {Outside, Acquiring, Acquiring2})"

lemma goto_simps [simp]:
  "m_lock (goto p c s) = m_lock s" "m_in (goto p c s) = m_in s" "m_pc (goto p c s) = (m_pc s)(p := c)"
  by (simp_all add: goto_def)

lemma stuck_step: "mstep s t \<Longrightarrow> stuck s \<Longrightarrow> stuck t"
  by (induction rule: mstep.induct) (auto simp: stuck_def dest: spec [of _ "_ :: nat"], (metis mpc.simps)+)

lemma stuck_steps: "msteps s t \<Longrightarrow> stuck s \<Longrightarrow> stuck t"
  by (induction rule: msteps.induct) (auto intro: stuck_step)

text \<open>
  How it comes about: thread 1 gives the lock back, thread 0 takes it and finds no block; then thread 1 clears
  \<open>in_malloc\<close>, and thread 0 takes itself for a caller of \<open>morecore\<close> from outside.
\<close>

text \<open>C37: Two threads that call \<open>malloc\<close> at the same time can come to a state in which one of them waits for the lock that it
  holds itself; from there on, whatever happens, no call of \<open>malloc\<close> ever returns.\<close>

theorem malloc_deadlocks:
  "\<exists>s. msteps idle s \<and> m_pc s 0 = Acquiring2 \<and>
     (\<forall>t p. msteps s t \<longrightarrow> m_lock t \<and> m_pc t p \<in> {Outside, Acquiring, Acquiring2})"
proof -
  let ?a = "goto 1 Acquiring idle\<lparr>m_in := True\<rparr>"
  let ?b = "goto 1 Searching ?a\<lparr>m_lock := True\<rparr>"
  let ?c = "goto 0 Acquiring (goto 1 Releasing ?b)\<lparr>m_in := True\<rparr>"
  let ?d = "goto 1 Clearing ?c\<lparr>m_lock := False\<rparr>"
  let ?e = "goto 0 Testing (goto 0 Searching ?d\<lparr>m_lock := True\<rparr>)"
  let ?f = "goto 1 Outside ?e\<lparr>m_in := False\<rparr>"
  let ?g = "goto 0 Acquiring2 ?f"
  have "msteps idle ?a" by (rule more [OF none], rule call) (simp add: idle_def)
  then have "msteps idle ?b" by (rule more) (rule acquire, simp_all add: idle_def)
  then have "msteps idle (goto 1 Releasing ?b)" by (rule more) (rule found, simp)
  then have "msteps idle ?c" by (rule more) (rule call, simp add: idle_def)
  then have "msteps idle ?d" by (rule more) (rule release, simp)
  then have "msteps idle (goto 0 Searching ?d\<lparr>m_lock := True\<rparr>)" by (rule more) (rule acquire, simp_all)
  then have "msteps idle ?e" by (rule more) (rule short, simp)
  then have "msteps idle ?f" by (rule more) (rule clear, simp)
  then have "msteps idle ?g" by (rule more) (rule test_out, simp_all)
  moreover have "stuck ?g" by (simp add: stuck_def idle_def)
  ultimately show ?thesis using stuck_steps [of ?g] by (intro exI [of _ ?g]) (auto simp: stuck_def)
qed

theorem malloc_deadlocks_witness:
  "\<exists>s. msteps idle s \<and> m_lock s \<and> m_pc s 0 = Acquiring2 \<and> m_pc s 1 \<in> {Outside, Acquiring, Acquiring2}"
  using malloc_deadlocks msteps.none by blast

end
