(* ===== verification/Mkfs.thy ===== *)
theory Mkfs
  imports Layout
begin

text \<open>
  The image builder \<open>tools/mkfs.c\<close>, a program of the host: it writes an empty file system to a file and copies a tree of
  directories into it.  The image is the list of the sectors of the file; \<open>room\<close> is how many sectors the host has space
  for.  A run that ends with an error (an assertion, \<open>exit(1)\<close> after \<open>perror\<close>) is the outcome \<open>Panic\<close>.  The theorems say what
  an image contains in terms of the format of \<open>Layout\<close>, which is the one the kernel reads.
\<close>

section \<open>State\<close>

definition ninodes :: u32 where "ninodes = 200"
definition nblocks :: u32 where "nblocks = 995"
definition fs_size :: u32 where "fs_size = 1024"

definition zeroes :: "u8 list" where "zeroes = replicate BSIZE 0"

record mkfs_state =
  fsfd :: "u8 list list"
  room :: nat
  freeblock :: u32
  usedblocks :: u32
  bitblocks :: u32
  freeinode :: u32

type_synonym 'a mkprog = "(mkfs_state, unit, 'a) prog"

text \<open>The numbers of the image are little endian; so is the host.\<close>

definition xshort :: "u16 \<Rightarrow> u16" where "xshort x = get16 (bytes16 x) 0"
definition xint :: "u32 \<Rightarrow> u32" where "xint x = get32 (bytes32 x) 0"

lemma xshort_id [simp]: "xshort x = x"
  using get16_bytes [of "[]" x "[]"] by (simp add: xshort_def)

lemma xint_id [simp]: "xint x = x"
  using get32_bytes [of "[]" x "[]"] by (simp add: xint_def)

section \<open>Sectors and inodes\<close>

text \<open>A write behind the end of the file leaves a gap, which reads as zeros.\<close>

definition wsect :: "u32 \<Rightarrow> u8 list \<Rightarrow> unit mkprog" where
  "wsect sec buf = bnd (asks room) (\<lambda>m.
     if m \<le> unat sec then panic ''write''
     else upd (\<lambda>s. s\<lparr>fsfd := (fsfd s @ replicate (Suc (unat sec) - length (fsfd s)) zeroes)[unat sec := buf]\<rparr>))"

definition rsect :: "u32 \<Rightarrow> u8 list mkprog" where
  "rsect sec = bnd (asks fsfd) (\<lambda>img. if unat sec < length img then ret (img ! unat sec) else panic ''read'')"

definition i2b :: "u32 \<Rightarrow> u32" where
  "i2b inum = inum div of_nat IPB + 2"

definition winode :: "u32 \<Rightarrow> dinode \<Rightarrow> unit mkprog" where
  "winode inum ip = bnd (rsect (i2b inum)) (\<lambda>buf. wsect (i2b inum) (put_at (islot inum) (bytes_dinode ip) buf))"

definition rinode :: "u32 \<Rightarrow> dinode mkprog" where
  "rinode inum = bnd (rsect (i2b inum)) (\<lambda>buf. ret (get_dinode buf (islot inum)))"

definition mk_ialloc :: "u16 \<Rightarrow> u32 mkprog" where
  "mk_ialloc type = bnd (asks freeinode) (\<lambda>inum.
     thn (upd (\<lambda>s. s\<lparr>freeinode := inum + 1\<rparr>)) (
     thn (winode inum \<lparr>d_type = xshort type, d_major = 0, d_minor = 0, d_nlink = xshort 1, d_size = xint 0,
            d_addrs = replicate (Suc NDIRECT) 0\<rparr>)
         (ret inum)))"

text \<open>\<open>freeblock++\<close> and \<open>usedblocks++\<close>.\<close>

definition new_block :: "u32 mkprog" where
  "new_block = bnd (asks freeblock) (\<lambda>b.
     thn (upd (\<lambda>s. s\<lparr>freeblock := b + 1, usedblocks := usedblocks s + 1\<rparr>)) (ret b))"

text \<open>The bitmap: \<open>balloc\<close> marks the first \<open>used\<close> blocks.\<close>

definition mk_balloc :: "u32 \<Rightarrow> unit mkprog" where
  "mk_balloc used =
     (if \<not> sint used < 512 * 8 then panic ''used < 512*8''
      else wsect (ninodes div of_nat IPB + 3) (fold (\<lambda>i buf. bmap_set buf i) [0..<nat (sint used)] zeroes))"

section \<open>Appending to a file\<close>

definition direct_block :: "u32 \<Rightarrow> dinode \<Rightarrow> dinode mkprog" where
  "direct_block k din =
     (if xint (d_addrs din ! unat k) = 0
      then bnd new_block (\<lambda>b. ret (din\<lparr>d_addrs := (d_addrs din)[unat k := xint b]\<rparr>))
      else ret din)"

definition indirect_block :: "u32 \<Rightarrow> nat \<Rightarrow> u32 mkprog" where
  "indirect_block a j =
     bnd (rsect a) (\<lambda>ind.
     if get32 ind (4 * j) = 0 then
       bnd new_block (\<lambda>b.
       thn (wsect a (put_at (4 * j) (bytes32 (xint b)) ind)) (ret b))
     else ret (xint (get32 ind (4 * j))))"

definition place :: "u32 \<Rightarrow> dinode \<Rightarrow> (dinode \<times> u32) mkprog" where
  "place fbn din =
     (if unat fbn < NDIRECT then bnd (direct_block fbn din) (\<lambda>din. ret (din, xint (d_addrs din ! unat fbn)))
      else
        bnd (direct_block (of_nat NDIRECT) din) (\<lambda>din.
        bnd (indirect_block (xint (d_addrs din ! NDIRECT)) (unat fbn - NDIRECT)) (\<lambda>x. ret (din, x))))"

text \<open>\<open>min(n, (fbn + 1) * 512 - off)\<close>\<close>

definition portion :: "u32 \<Rightarrow> nat \<Rightarrow> nat" where
  "portion off n = min n (unat ((off div 512 + 1) * 512 - off))"

lemma portion_eq: "portion off n = min n (512 - unat off mod 512)"
proof -
  have "(off div 512 + 1) * 512 - off = 512 - (off - off div 512 * 512)"
    by (simp add: algebra_simps)
  also have "off - off div 512 * 512 = off mod 512"
    using div_mult_mod_eq [of off 512] by (metis add_diff_cancel_left')
  finally have "(off div 512 + 1) * 512 - off = 512 - off mod 512" .
  moreover have "unat (512 - off mod 512) = 512 - unat off mod 512"
    by (subst unat_sub) (simp_all add: unat_mod word_le_nat_alt less_imp_le)
  ultimately show ?thesis unfolding portion_def by (simp only:)
qed

function iappend_loop :: "u8 list \<Rightarrow> u32 \<Rightarrow> dinode \<Rightarrow> (dinode \<times> u32) mkprog" where
  "iappend_loop p off din =
     (if p = [] then ret (din, off)
      else if \<not> unat (off div 512) < MAXFILE then panic ''fbn < MAXFILE''
      else
        bnd (place (off div 512) din) (\<lambda>(din, x).
        bnd (rsect x) (\<lambda>buf.
        thn (wsect x (put_at (unat (off - off div 512 * 512)) (take (portion off (length p)) p) buf))
            (iappend_loop (drop (portion off (length p)) p) (off + of_nat (portion off (length p))) din))))"
  by auto

termination
proof (relation "measure (\<lambda>(p, off, din). length p)", simp, goal_cases)
  case (1 p off din)
  then have "0 < portion off (length p)" by (simp add: portion_eq)
  then show ?case using 1 by simp
qed

declare iappend_loop.simps [simp del]

definition iappend :: "u32 \<Rightarrow> u8 list \<Rightarrow> unit mkprog" where
  "iappend inum p =
     bnd (rinode inum) (\<lambda>din.
     bnd (iappend_loop p (xint (d_size din)) din) (\<lambda>(din, off).
     winode inum (din\<lparr>d_size := xint off\<rparr>)))"

section \<open>The tree of the host\<close>

text \<open>
  An entry of a directory of the host: a file with the bytes that \<open>read\<close> delivers, a directory with its listing, a directory
  for which \<open>fdopendir\<close> fails, a name that cannot be opened.  A name is a string without a 0.
\<close>

datatype host = HFile "u8 list" | HDir "(u8 list \<times> host) list" | HClosed | HDenied

definition pad14 :: "u8 list \<Rightarrow> u8 list" where
  "pad14 name = take DIRSIZ (name @ replicate DIRSIZ 0)"

definition dot :: "u8 list" where "dot = [0x2E]"
definition dotdot :: "u8 list" where "dotdot = [0x2E, 0x2E]"

definition add_entry :: "u32 \<Rightarrow> u32 \<Rightarrow> u8 list \<Rightarrow> unit mkprog" where
  "add_entry dir inum name = iappend dir (bytes_dirent \<lparr>de_inum = xshort (ucast inum), de_name = pad14 name\<rparr>)"

function copy_file :: "u32 \<Rightarrow> u8 list \<Rightarrow> unit mkprog" where
  "copy_file inum p = (if p = [] then skip else thn (iappend inum (take 512 p)) (copy_file inum (drop 512 p)))"
  by auto

termination
  by (relation "measure (\<lambda>(inum, p). length p)") auto

declare copy_file.simps [simp del]

text \<open>The end of \<open>add_dir\<close>: the size of a directory becomes a multiple of the block size.\<close>

definition fix_size :: "u32 \<Rightarrow> unit mkprog" where
  "fix_size cur_inode = bnd (rinode cur_inode) (\<lambda>din.
     winode cur_inode (din\<lparr>d_size := xint ((xint (d_size din) div 512 + 1) * 512)\<rparr>))"

text \<open>\<open>add_dir\<close>, its loop over the listing and the two cases of an entry; the result is the return value of \<open>add_dir\<close>.\<close>

function add_dir :: "(u8 list \<times> host) list option \<Rightarrow> u32 \<Rightarrow> u32 \<Rightarrow> int mkprog"
  and add_list :: "(u8 list \<times> host) list \<Rightarrow> u32 \<Rightarrow> int mkprog"
  and add_host :: "host \<Rightarrow> u32 \<Rightarrow> (int \<times> u32) mkprog" where
  "add_dir cur_dir cur_inode parent_inode =
     thn (add_entry cur_inode cur_inode dot) (
     thn (add_entry cur_inode parent_inode dotdot) (
     case cur_dir of
       None \<Rightarrow> ret 0
     | Some es \<Rightarrow> bnd (add_list es cur_inode) (\<lambda>r. if r \<noteq> 0 then ret r else thn (fix_size cur_inode) (ret 0))))"
| "add_list [] cur_inode = ret 0"
| "add_list ((name, h) # es) cur_inode =
     (if name = dot \<or> name = dotdot then add_list es cur_inode
      else bnd (add_host h cur_inode) (\<lambda>(r, child).
        if r \<noteq> 0 then ret r else thn (add_entry cur_inode child name) (add_list es cur_inode)))"
| "add_host (HFile p) cur_inode = bnd (mk_ialloc 2) (\<lambda>child. thn (copy_file child p) (ret (0, child)))"
| "add_host (HDir es) cur_inode = bnd (mk_ialloc 1) (\<lambda>child. bnd (add_dir (Some es) child cur_inode) (\<lambda>r. ret (r, child)))"
| "add_host HClosed cur_inode = bnd (mk_ialloc 1) (\<lambda>child. bnd (add_dir None child cur_inode) (\<lambda>r. ret (r, child)))"
| "add_host HDenied cur_inode = ret (- 1, 0)"
  by pat_completeness auto

termination
  by (relation "measure (case_sum (\<lambda>(d, c, p). case d of None \<Rightarrow> 0 | Some es \<Rightarrow> Suc (3 * size_list (size_prod (\<lambda>_. 0) size) es))
      (case_sum (\<lambda>(es, c). 3 * size_list (size_prod (\<lambda>_. 0) size) es) (\<lambda>(h, c). 3 * size h + 2)))") auto

declare add_dir.simps [simp del] add_list.simps [simp del] add_host.simps [simp del]

definition mkfs :: "unit mkprog" where
  "mkfs =
     thn (upd (\<lambda>s. s\<lparr>bitblocks := fs_size div (512 * 8) + 1\<rparr>)) (
     thn (upd (\<lambda>s. s\<lparr>usedblocks := ninodes div of_nat IPB + 3 + bitblocks s\<rparr>)) (
     thn (upd (\<lambda>s. s\<lparr>freeblock := usedblocks s\<rparr>)) (
     bnd (asks usedblocks) (\<lambda>used.
     if nblocks + used \<noteq> fs_size then panic ''nblocks + usedblocks == size''
     else
       thn (foreach [0..<unat (nblocks + used)] (\<lambda>i. wsect (of_nat i) zeroes))
           (wsect 1 (put_at 0 (bytes_sb \<lparr>sb_size = xint fs_size, sb_nblocks = xint nblocks, sb_ninodes = xint ninodes\<rparr>)
              (replicate BSIZE 0)))))))"

text \<open>\<open>main\<close>, with the listing of the directory \<open>argv[2]\<close>.  The file is created empty and the counters have their initial values.\<close>

definition mkfs_init :: "nat \<Rightarrow> mkfs_state" where
  "mkfs_init m = \<lparr>fsfd = [], room = m, freeblock = 0, usedblocks = 0, bitblocks = 0, freeinode = 1\<rparr>"

definition mkfs_main :: "(u8 list \<times> host) list option \<Rightarrow> unit mkprog" where
  "mkfs_main root_dir =
     thn mkfs (
     bnd (mk_ialloc 1) (\<lambda>root.
     if root \<noteq> ROOTINO then panic ''root_inode == ROOTINO''
     else bnd (add_dir root_dir root root) (\<lambda>r.
       if r \<noteq> 0 then panic ''add_dir''
       else bnd (asks usedblocks) mk_balloc)))"

section \<open>What an image contains\<close>

text \<open>Inode \<open>i\<close>, its block numbers (0 to 11 for the first blocks, 12 for the indirect block, then what that lists), its bytes.\<close>

definition blank :: dinode where
  "blank = \<lparr>d_type = 0, d_major = 0, d_minor = 0, d_nlink = 0, d_size = 0, d_addrs = replicate (Suc NDIRECT) 0\<rparr>"

definition ino :: "u8 list list \<Rightarrow> u32 \<Rightarrow> dinode" where
  "ino img i = (if unat i < 200 then get_dinode (img ! unat (i2b i)) (islot i) else blank)"

definition ptr :: "u8 list list \<Rightarrow> dinode \<Rightarrow> nat \<Rightarrow> u32" where
  "ptr img d k =
     (if k \<le> NDIRECT then d_addrs d ! k
      else if d_addrs d ! NDIRECT = 0 then 0
      else get32 (img ! unat (d_addrs d ! NDIRECT)) (4 * (k - 13)))"

definition bslot :: "nat \<Rightarrow> nat" where
  "bslot fbn = (if fbn < NDIRECT then fbn else Suc fbn)"

definition dbyte :: "u8 list list \<Rightarrow> dinode \<Rightarrow> nat \<Rightarrow> u8" where
  "dbyte img d p =
     (if ptr img d (bslot (p div 512)) = 0 then 0 else img ! unat (ptr img d (bslot (p div 512))) ! (p mod 512))"

definition file_of :: "u8 list list \<Rightarrow> u32 \<Rightarrow> u8 list" where
  "file_of img i = map (dbyte img (ino img i)) [0..<unat (d_size (ino img i))]"

text \<open>
  A sound image with the inodes \<open>I\<close>: the free blocks are zero, every block in use is below \<open>fb\<close> and is used once.
\<close>

definition img_ok :: "u8 list list \<Rightarrow> u32 \<Rightarrow> (u32 \<Rightarrow> dinode) \<Rightarrow> bool" where
  "img_ok img fb I \<longleftrightarrow>
     length img = 1024 \<and> (\<forall>x < 1024. length (img ! x) = BSIZE) \<and> 29 \<le> unat fb \<and> unat fb \<le> 1024 \<and>
     (\<forall>i. length (d_addrs (I i)) = 13) \<and>
     (\<forall>x. unat fb \<le> x \<longrightarrow> x < 1024 \<longrightarrow> img ! x = zeroes) \<and>
     (\<forall>i k. k < 141 \<longrightarrow> ptr img (I i) k \<noteq> 0 \<longrightarrow> 29 \<le> unat (ptr img (I i) k) \<and> unat (ptr img (I i) k) < unat fb) \<and>
     (\<forall>i j k l. k < 141 \<longrightarrow> l < 141 \<longrightarrow> ptr img (I i) k \<noteq> 0 \<longrightarrow> ptr img (I i) k = ptr img (I j) l \<longrightarrow> i = j \<and> k = l)"

text \<open>A file of \<open>n\<close> bytes has exactly the blocks it needs, \<open>need n\<close> in number.\<close>

definition compact :: "u8 list list \<Rightarrow> dinode \<Rightarrow> nat \<Rightarrow> bool" where
  "compact img d n \<longleftrightarrow>
     (\<forall>k < MAXFILE. ptr img d (bslot k) \<noteq> 0 \<longleftrightarrow> 512 * k < n) \<and> (d_addrs d ! NDIRECT \<noteq> 0 \<longleftrightarrow> 6144 < n)"

definition need :: "nat \<Rightarrow> nat" where
  "need n = (n + 511) div 512 + (if 6144 < n then 1 else 0)"

lemma img_okD:
  assumes "img_ok img fb I"
  shows "length img = 1024" "x < 1024 \<Longrightarrow> length (img ! x) = BSIZE" "29 \<le> unat fb" "unat fb \<le> 1024"
    "length (d_addrs (I i)) = 13" "unat fb \<le> x \<Longrightarrow> x < 1024 \<Longrightarrow> img ! x = zeroes"
  using assms unfolding img_ok_def by blast+

lemma img_ok_range:
  assumes "img_ok img fb I" "k < 141" "ptr img (I i) k \<noteq> 0"
  shows "29 \<le> unat (ptr img (I i) k)" "unat (ptr img (I i) k) < unat fb" "unat (ptr img (I i) k) < 1024"
proof -
  show "29 \<le> unat (ptr img (I i) k)" and l: "unat (ptr img (I i) k) < unat fb"
    using assms unfolding img_ok_def by blast+
  show "unat (ptr img (I i) k) < 1024" using l img_okD(4) [OF assms(1)] by simp
qed

lemma img_ok_once:
  assumes "img_ok img fb I" "k < 141" "l < 141" "ptr img (I i) k \<noteq> 0" "ptr img (I i) k = ptr img (I j) l"
  shows "i = j \<and> k = l"
  using assms unfolding img_ok_def by blast

lemma ptr_size [simp]: "ptr img (d\<lparr>d_size := n\<rparr>) k = ptr img d k" "dbyte img (d\<lparr>d_size := n\<rparr>) p = dbyte img d p"
    "compact img (d\<lparr>d_size := n\<rparr>) m = compact img d m"
  by (simp_all add: ptr_def dbyte_def compact_def)

lemma bslot_less: "k < MAXFILE \<Longrightarrow> bslot k < 141" "bslot k \<noteq> NDIRECT" "bslot k = bslot l \<longleftrightarrow> k = l"
  by (auto simp: bslot_def MAXFILE_def NDIRECT_def)

lemma get32_zeroes: "k + 4 \<le> 512 \<Longrightarrow> get32 zeroes k = 0"
  by (simp add: get32_def zeroes_def BSIZE_def join4_def)

text \<open>What an image says of files does not change with sectors that no pointer of the file names.\<close>

lemma ptr_cong:
  assumes "d_addrs d' = d_addrs d" "d_addrs d ! NDIRECT \<noteq> 0 \<Longrightarrow> img' ! unat (d_addrs d ! NDIRECT) = img ! unat (d_addrs d ! NDIRECT)"
  shows "ptr img' d' k = ptr img d k"
  using assms by (auto simp: ptr_def)

text \<open>One more pointer, from nothing to the next free block.\<close>

lemma img_ok_grow:
  assumes ok: "img_ok img fb I" and lt: "unat fb < 1024" and k: "k < 141" "ptr img (I i) k = 0"
    and len: "length img' = 1024" "\<And>x. x < 1024 \<Longrightarrow> length (img' ! x) = BSIZE" "\<And>j. length (d_addrs (I' j)) = 13"
    and zero: "\<And>x. unat fb < x \<Longrightarrow> x < 1024 \<Longrightarrow> img' ! x = img ! x"
    and ptr: "\<And>j l. l < 141 \<Longrightarrow> ptr img' (I' j) l = (if j = i \<and> l = k then fb else ptr img (I j) l)"
  shows "img_ok img' (fb + 1) I'"
proof -
  have fb: "unat (fb + 1) = Suc (unat fb)" using lt by (simp add: unat_word_ariths)
  have nz: "fb \<noteq> 0" using img_okD(3) [OF ok] by auto
  have r: "29 \<le> unat (ptr img' (I' j) l) \<and> unat (ptr img' (I' j) l) < Suc (unat fb)"
    if "l < 141" "ptr img' (I' j) l \<noteq> 0" for j l
    using that img_okD(3) [OF ok] img_ok_range(1,2) [OF ok, of l j] by (cases "j = i \<and> l = k") (auto simp: ptr)
  have u: "j = j' \<and> l = l'" if "l < 141" "l' < 141" "ptr img' (I' j) l \<noteq> 0" "ptr img' (I' j) l = ptr img' (I' j') l'" for j j' l l'
  proof (cases "j = i \<and> l = k")
    case True
    then have "ptr img' (I' j') l' = fb" using that by (simp add: ptr)
    then show ?thesis using True that(2) nz img_ok_range(2) [OF ok that(2), of j'] by (auto simp: ptr split: if_splits)
  next
    case F: False
    then have e: "ptr img' (I' j) l = ptr img (I j) l" using that by (auto simp: ptr)
    then have "\<not> (j' = i \<and> l' = k)"
      using that img_ok_range(2) [OF ok that(1), of j] nz by (auto simp: ptr)
    then show ?thesis using that e img_ok_once [OF ok that(1,2), of j j'] by (auto simp: ptr)
  qed
  have z: "img' ! x = zeroes" if "Suc (unat fb) \<le> x" "x < 1024" for x
    using zero [of x] img_okD(6) [OF ok, of x] that by simp
  show ?thesis unfolding img_ok_def fb
    using len lt img_okD(3) [OF ok] r u z by (intro conjI) (blast | simp)+
qed

section \<open>The steps of an append\<close>

lemma wp_rsect: "unat x < length (fsfd s) \<Longrightarrow> wp (rsect x) Q s = Q (fsfd s ! unat x) s"
  by (simp add: rsect_def)

lemma wp_wsect:
  "unat x < length (fsfd s) \<Longrightarrow> length (fsfd s) \<le> room s \<Longrightarrow>
   wp (wsect x b) Q s = Q () (s\<lparr>fsfd := (fsfd s)[unat x := b]\<rparr>)"
  by (simp add: wsect_def)

lemma wp_new_block:
  "wp new_block Q s = Q (freeblock s) (s\<lparr>freeblock := freeblock s + 1, usedblocks := usedblocks s + 1\<rparr>)"
  by (simp add: new_block_def)

definition good_img :: "mkfs_state \<Rightarrow> (u32 \<Rightarrow> dinode) \<Rightarrow> bool" where
  "good_img s I \<longleftrightarrow> img_ok (fsfd s) (freeblock s) I \<and> 1024 \<le> room s \<and> usedblocks s = freeblock s"

definition kept :: "mkfs_state \<Rightarrow> mkfs_state \<Rightarrow> bool" where
  "kept s t \<longleftrightarrow> (\<forall>y < 29. fsfd t ! y = fsfd s ! y) \<and> freeinode t = freeinode s"

text \<open>From \<open>s\<close> to \<open>t\<close> only the pointer \<open>k\<close> of inode \<open>i\<close> was added, unless it was there.\<close>

definition grown :: "mkfs_state \<Rightarrow> mkfs_state \<Rightarrow> (u32 \<Rightarrow> dinode) \<Rightarrow> (u32 \<Rightarrow> dinode) \<Rightarrow> u32 \<Rightarrow> nat \<Rightarrow> bool" where
  "grown s t I I' i k \<longleftrightarrow> good_img t I' \<and> kept s t \<and>
     (\<forall>j l. l < 141 \<longrightarrow> ptr (fsfd t) (I' j) l =
        (if j = i \<and> l = k \<and> ptr (fsfd s) (I i) k = 0 then freeblock s else ptr (fsfd s) (I j) l)) \<and>
     unat (freeblock t) = unat (freeblock s) + (if ptr (fsfd s) (I i) k = 0 then 1 else 0) \<and>
     (\<forall>j l. l < 141 \<longrightarrow> l \<noteq> NDIRECT \<longrightarrow> ptr (fsfd s) (I j) l \<noteq> 0 \<longrightarrow>
        fsfd t ! unat (ptr (fsfd s) (I j) l) = fsfd s ! unat (ptr (fsfd s) (I j) l)) \<and>
     (\<forall>y. unat (freeblock s) \<le> y \<longrightarrow> y < 1024 \<longrightarrow> fsfd t ! y = fsfd s ! y)"

lemma grownD:
  assumes "grown s t I I' i k"
  shows "good_img t I'" "kept s t"
    "l < 141 \<Longrightarrow> ptr (fsfd t) (I' j) l =
       (if j = i \<and> l = k \<and> ptr (fsfd s) (I i) k = 0 then freeblock s else ptr (fsfd s) (I j) l)"
    "unat (freeblock t) = unat (freeblock s) + (if ptr (fsfd s) (I i) k = 0 then 1 else 0)"
    "l < 141 \<Longrightarrow> l \<noteq> NDIRECT \<Longrightarrow> ptr (fsfd s) (I j) l \<noteq> 0 \<Longrightarrow>
        fsfd t ! unat (ptr (fsfd s) (I j) l) = fsfd s ! unat (ptr (fsfd s) (I j) l)"
    "unat (freeblock s) \<le> y \<Longrightarrow> y < 1024 \<Longrightarrow> fsfd t ! y = fsfd s ! y"
  using assms unfolding grown_def by blast+

lemma good_imgD: "good_img s I \<Longrightarrow> img_ok (fsfd s) (freeblock s) I" "good_img s I \<Longrightarrow> length (fsfd s) = 1024" "good_img s I \<Longrightarrow> 1024 \<le> room s"
    "good_img s I \<Longrightarrow> usedblocks s = freeblock s"
  by (auto simp: good_img_def dest: img_okD(1))

lemma kept_refl: "kept s s"
  by (simp add: kept_def)

lemma kept_trans: "kept s t \<Longrightarrow> kept t u \<Longrightarrow> kept s u"
  by (simp add: kept_def)

lemma unat_Suc_block: "unat (b :: u32) < 1024 \<Longrightarrow> unat (b + 1) = Suc (unat b)"
  by (simp add: unat_word_ariths)

lemma grown_refl: "good_img s I \<Longrightarrow> ptr (fsfd s) (I i) k \<noteq> 0 \<Longrightarrow> grown s s I I i k"
  by (simp add: grown_def kept_refl)

lemma wp_direct_block:
  assumes g: "good_img s I" and k: "unat k < 13" and d: "I i = d"
    and room: "d_addrs d ! unat k = 0 \<Longrightarrow> unat (freeblock s) < 1024"
  shows "wp (direct_block k d) (\<lambda>d' t. (\<exists>a. d' = d\<lparr>d_addrs := a\<rparr>) \<and> d_addrs d' ! unat k \<noteq> 0 \<and>
    grown s t I (I(i := d')) i (unat k)) s"
proof (cases "d_addrs d ! unat k = 0")
  case False
  then have "ptr (fsfd s) (I i) (unat k) \<noteq> 0" using k d by (simp add: ptr_def NDIRECT_def)
  then have "grown s s I (I(i := d)) i (unat k)" using grown_refl [OF g] d by (simp add: fun_upd_idem)
  moreover have "\<exists>a. d = d\<lparr>d_addrs := a\<rparr>" by (rule exI [of _ "d_addrs d"]) simp
  ultimately show ?thesis using False by (simp add: direct_block_def)
next
  case True
  note ok = good_imgD(1) [OF g]
  let ?b = "freeblock s" and ?k = "unat k"
  let ?d = "d\<lparr>d_addrs := (d_addrs d)[?k := ?b]\<rparr>"
  let ?t = "s\<lparr>freeblock := ?b + 1, usedblocks := usedblocks s + 1\<rparr>"
  have b: "unat ?b < 1024" using room True by simp
  have nz: "?b \<noteq> 0" using img_okD(3) [OF ok] by auto
  have len: "length (d_addrs d) = 13" using img_okD(5) [OF ok, of i] d by simp
  have p0: "ptr (fsfd s) (I i) ?k = 0" using True k d by (simp add: ptr_def NDIRECT_def)
  have z: "get32 (fsfd s ! unat ?b) (4 * (l - 13)) = 0" if "l < 141" for l
    using img_okD(6) [OF ok _ b] that get32_zeroes [of "4 * (l - 13)"] by simp
  have ptr: "ptr (fsfd s) ((I(i := ?d)) j) l = (if j = i \<and> l = ?k then ?b else ptr (fsfd s) (I j) l)" if "l < 141" for j l
    using that z [OF that] True d k len nz by (auto simp: ptr_def nth_list_update NDIRECT_def)
  have "img_ok (fsfd s) (?b + 1) (I(i := ?d))"
  proof (rule img_ok_grow [OF ok b _ p0])
    show "?k < 141" using k by simp
    show "length (d_addrs ((I(i := ?d)) j)) = 13" for j using img_okD(5) [OF ok, of j] len by simp
  qed (use ok ptr in \<open>simp_all add: img_okD(1,2)\<close>)
  then have "grown s ?t I (I(i := ?d)) i ?k"
    using g ptr p0 b by (simp add: grown_def good_img_def kept_def unat_Suc_block)
  moreover have "d_addrs ?d ! ?k \<noteq> 0" using nz len k by simp
  moreover have "\<exists>a. ?d = d\<lparr>d_addrs := a\<rparr>" by blast
  ultimately show ?thesis using True by (simp add: direct_block_def wp_new_block)
qed

lemma wp_indirect_block:
  assumes g: "good_img s I" and j: "j < 128" and a: "d_addrs (I i) ! NDIRECT = a" "a \<noteq> 0"
    and room: "ptr (fsfd s) (I i) (13 + j) = 0 \<Longrightarrow> unat (freeblock s) < 1024"
  shows "wp (indirect_block a j) (\<lambda>x t. x \<noteq> 0 \<and> x = ptr (fsfd t) (I i) (13 + j) \<and> grown s t I I i (13 + j)) s"
proof -
  note ok = good_imgD(1) [OF g]
  have pa: "ptr (fsfd s) (I i) NDIRECT = a" using a by (simp add: ptr_def)
  have lt: "unat a < 1024" "29 \<le> unat a" "unat a < unat (freeblock s)"
    using img_ok_range [OF ok, of NDIRECT i] pa a by (simp_all add: NDIRECT_def)
  have pj: "ptr (fsfd s) (I i) (13 + j) = get32 (fsfd s ! unat a) (4 * j)"
    using a by (simp add: ptr_def NDIRECT_def)
  note rw = wp_rsect wp_wsect wp_new_block good_imgD(2,3) [OF g] lt(1)
  show ?thesis
  proof (cases "get32 (fsfd s ! unat a) (4 * j) = 0")
    case False
    then show ?thesis using grown_refl [OF g, of i "13 + j"] pj by (simp add: indirect_block_def rw)
  next
    case True
    let ?b = "freeblock s"
    let ?ind = "put_at (4 * j) (bytes32 ?b) (fsfd s ! unat a)"
    let ?img = "(fsfd s)[unat a := ?ind]"
    let ?t = "s\<lparr>freeblock := ?b + 1, usedblocks := usedblocks s + 1, fsfd := ?img\<rparr>"
    have b: "unat ?b < 1024" using room True pj by simp
    have nz: "?b \<noteq> 0" using img_okD(3) [OF ok] by auto
    have la: "length (fsfd s ! unat a) = 512" using img_okD(2) [OF ok lt(1)] by (simp add: BSIZE_def)
    have i1: "get32 ?ind (4 * j) = ?b"
      using get32_bytes [of "take (4 * j) (fsfd s ! unat a)" ?b] la j by (simp add: put_at_def min_def)
    have i2: "get32 ?ind (4 * l) = get32 (fsfd s ! unat a) (4 * l)" if "l < 128" "l \<noteq> j" for l
      by (rule get32_put_other) (use that la j in auto)
    have p12: "ptr (fsfd s) (I j') NDIRECT = d_addrs (I j') ! NDIRECT" for j' by (simp add: ptr_def)
    have n12: "NDIRECT < 141" by (simp add: NDIRECT_def)
    have own: "j' = i" if "d_addrs (I j') ! NDIRECT = a" for j'
      using img_ok_once [OF ok n12 n12, of i j'] pa p12 [of j'] a(2) that by simp
    have ptr: "ptr ?img (I j') l = (if j' = i \<and> l = 13 + j then ?b else ptr (fsfd s) (I j') l)" if l: "l < 141" for j' l
    proof (cases "j' = i \<and> NDIRECT < l")
      case True
      moreover from True have "l = 13 + (l - 13)" by (simp add: NDIRECT_def)
      ultimately show ?thesis using i1 i2 [of "l - 13"] a l lt(1) good_imgD(2) [OF g]
        by (cases "l - 13 = j") (auto simp: ptr_def NDIRECT_def)
    next
      case F: False
      then have e: "\<not> (j' = i \<and> l = 13 + j)" by (auto simp: NDIRECT_def)
      have "?img ! unat (d_addrs (I j') ! NDIRECT) = fsfd s ! unat (d_addrs (I j') ! NDIRECT)"
        if "NDIRECT < l"
      proof -
        have "d_addrs (I j') ! NDIRECT \<noteq> a" using own [of j'] F that by auto
        then show ?thesis by (simp add: word_unat_eq_iff)
      qed
      then have "ptr ?img (I j') l = ptr (fsfd s) (I j') l" by (simp add: ptr_def)
      then show ?thesis by (simp only: e if_False)
    qed
    have "img_ok ?img (?b + 1) I"
    proof (rule img_ok_grow [OF ok b])
      show "13 + j < 141" using j by simp
      show "ptr (fsfd s) (I i) (13 + j) = 0" using True pj by simp
      show "length ?img = 1024" using good_imgD(2) [OF g] by simp
      show "length (?img ! x) = BSIZE" if "x < 1024" for x
        using that img_okD(1,2) [OF ok] la j by (cases "x = unat a") (simp_all add: BSIZE_def)
      show "length (d_addrs (I j')) = 13" for j' by (rule img_okD(5) [OF ok])
      show "?img ! x = fsfd s ! x" if "unat ?b < x" "x < 1024" for x using that lt by simp
    qed (rule ptr)
    then have gt: "good_img ?t I" using g by (simp add: good_img_def)
    have other: "?img ! unat (ptr (fsfd s) (I j') l) = fsfd s ! unat (ptr (fsfd s) (I j') l)"
      if "l < 141" "l \<noteq> NDIRECT" "ptr (fsfd s) (I j') l \<noteq> 0" for j' l
    proof -
      have "ptr (fsfd s) (I j') l \<noteq> a"
        using img_ok_once [OF ok that(1) _ that(3), of NDIRECT i] pa that(2) by (auto simp: NDIRECT_def)
      then show ?thesis by (simp add: word_unat_eq_iff)
    qed
    have "grown s ?t I I i (13 + j)"
      unfolding grown_def using gt ptr True pj b lt other
      by (intro conjI) (auto simp: kept_def unat_Suc_block)
    moreover have "?b = ptr ?img (I i) (13 + j)" using ptr [of "13 + j" i] j by simp
    ultimately show ?thesis using True nz by (simp add: indirect_block_def rw)
  qed
qed

text \<open>What a new pointer leaves: the contents of every file, and a compact file grows by the block.\<close>

lemma bslot_range: "k < MAXFILE \<Longrightarrow> bslot k < 141"
  by (rule bslot_less)

lemma grown_bytes:
  assumes g: "good_img s I" and G: "grown s t I I' i k" and p: "p < 512 * MAXFILE"
  shows "dbyte (fsfd t) (I' j) p = dbyte (fsfd s) (I j) p"
proof -
  let ?l = "bslot (p div 512)"
  have l: "?l < 141" "?l \<noteq> NDIRECT" using p bslot_less(1) [of "p div 512"] bslot_less(2) by (auto simp: MAXFILE_def)
  note ok = good_imgD(1) [OF g]
  show ?thesis
  proof (cases "j = i \<and> ?l = k \<and> ptr (fsfd s) (I i) k = 0")
    case True
    then have b: "ptr (fsfd t) (I' j) ?l = freeblock s" "ptr (fsfd s) (I j) ?l = 0"
      using grownD(3) [OF G l(1), of j] by auto
    have "unat (freeblock t) = Suc (unat (freeblock s))" using grownD(4) [OF G] True by simp
    then have lt: "unat (freeblock s) < 1024" using img_okD(4) [OF good_imgD(1) [OF grownD(1) [OF G]]] by simp
    have "fsfd t ! unat (freeblock s) = zeroes"
      using grownD(6) [OF G order_refl lt] img_okD(6) [OF ok order_refl lt] by simp
    then show ?thesis using b by (simp add: dbyte_def zeroes_def BSIZE_def)
  next
    case False
    then have "ptr (fsfd t) (I' j) ?l = ptr (fsfd s) (I j) ?l" using grownD(3) [OF G l(1), of j] by auto
    then show ?thesis using grownD(5) [OF G l, of j] by (auto simp: dbyte_def)
  qed
qed

lemma grown_trans_bytes:
  assumes "good_img s I" "grown s t I I' i k" "grown t u I' I'' i' k'" "p < 512 * MAXFILE"
  shows "dbyte (fsfd u) (I'' j) p = dbyte (fsfd s) (I j) p"
  using grown_bytes [OF assms(1,2,4), of j] grown_bytes [OF grownD(1) [OF assms(2)] assms(3,4), of j] by simp

text \<open>\<open>placed\<close>: block \<open>fbn\<close> of file \<open>i\<close> is there, with number \<open>x\<close>, and no file has other contents.\<close>

definition placed :: "mkfs_state \<Rightarrow> mkfs_state \<Rightarrow> (u32 \<Rightarrow> dinode) \<Rightarrow> u32 \<Rightarrow> nat \<Rightarrow> dinode \<Rightarrow> u32 \<Rightarrow> bool" where
  "placed s t I i fbn d' x \<longleftrightarrow> good_img t (I(i := d')) \<and> kept s t \<and> (\<exists>a. d' = (I i)\<lparr>d_addrs := a\<rparr>) \<and>
     x \<noteq> 0 \<and> ptr (fsfd t) d' (bslot fbn) = x \<and>
     (\<forall>j l. j \<noteq> i \<longrightarrow> l < 141 \<longrightarrow> ptr (fsfd t) (I j) l = ptr (fsfd s) (I j) l) \<and>
     (\<forall>j p. p < 512 * MAXFILE \<longrightarrow> dbyte (fsfd t) ((I(i := d')) j) p = dbyte (fsfd s) (I j) p) \<and>
     (\<forall>k < MAXFILE. k \<noteq> fbn \<longrightarrow> (ptr (fsfd t) d' (bslot k) = 0) = (ptr (fsfd s) (I i) (bslot k) = 0)) \<and>
     (d_addrs d' ! NDIRECT = 0) = (d_addrs (I i) ! NDIRECT = 0 \<and> fbn < NDIRECT) \<and>
     unat (freeblock t) = unat (freeblock s) + (if ptr (fsfd s) (I i) (bslot fbn) = 0 then 1 else 0) +
       (if d_addrs (I i) ! NDIRECT = 0 \<and> NDIRECT \<le> fbn then 1 else 0)"

lemma ptr_direct: "k \<le> NDIRECT \<Longrightarrow> ptr img d k = d_addrs d ! k"
  by (simp add: ptr_def)

lemma wp_place:
  assumes g: "good_img s I" and f: "unat fbn < MAXFILE" and d: "I i = d"
    and room: "unat (freeblock s) + (if ptr (fsfd s) d (bslot (unat fbn)) = 0 then 1 else 0) +
       (if d_addrs d ! NDIRECT = 0 \<and> NDIRECT \<le> unat fbn then 1 else 0) \<le> 1024"
  shows "wp (place fbn d) (\<lambda>(d', x) t. placed s t I i (unat fbn) d' x) s"
proof (cases "unat fbn < NDIRECT")
  case True
  let ?k = "unat fbn"
  have sl: "bslot ?k = ?k" using True by (simp add: bslot_def)
  have k13: "?k < 13" using True by (simp add: NDIRECT_def)
  have p: "ptr (fsfd s) d ?k = d_addrs d ! ?k" using True by (simp add: ptr_direct)
  have rm: "unat (freeblock s) < 1024" if "d_addrs d ! ?k = 0" using room that sl p by simp
  have main: "placed s t I i ?k d' (d_addrs d' ! ?k)"
    if "\<exists>a. d' = d\<lparr>d_addrs := a\<rparr>" "d_addrs d' ! ?k \<noteq> 0" and G: "grown s t I (I(i := d')) i ?k" for d' t
  proof -
    have P: "ptr (fsfd t) d' l = (if l = ?k \<and> ptr (fsfd s) d ?k = 0 then freeblock s else ptr (fsfd s) d l)" if "l < 141" for l
      using grownD(3) [OF G that, of i] d by simp
    have "d_addrs d' ! NDIRECT = d_addrs d ! NDIRECT"
      using P [of NDIRECT] True by (simp add: ptr_direct) (simp add: NDIRECT_def)
    moreover have "ptr (fsfd t) d' (bslot k) = ptr (fsfd s) d (bslot k)" if "k < MAXFILE" "k \<noteq> ?k" for k
      using P [OF bslot_range [OF that(1)]] that(2) bslot_less(3) [of k ?k] sl by simp
    moreover have "ptr (fsfd t) (I j) l = ptr (fsfd s) (I j) l" if "j \<noteq> i" "l < 141" for j l
      using grownD(3) [OF G that(2), of j] that(1) by simp
    ultimately show ?thesis
      using that grownD(1,2,4) [OF G] grown_bytes [OF g G] True d sl by (simp add: placed_def ptr_direct)
  qed
  have "wp (direct_block fbn d) (\<lambda>d' t. placed s t I i ?k d' (d_addrs d' ! ?k)) s"
    by (rule wp_mono [OF wp_direct_block [OF g k13 d rm]]) (use main in blast)+
  then show ?thesis using True by (simp add: place_def)
next
  case False
  let ?k = "unat fbn" and ?n = "of_nat NDIRECT :: u32"
  have n: "unat ?n = NDIRECT" by (simp add: NDIRECT_def)
  have sl: "bslot ?k = 13 + (?k - NDIRECT)" using False by (simp add: bslot_def NDIRECT_def)
  have j: "?k - NDIRECT < 128" using f False by (simp add: MAXFILE_def NDIRECT_def)
  have n13: "unat ?n < 13" by (simp add: NDIRECT_def)
  have rm1: "unat (freeblock s) < 1024" if "d_addrs d ! unat ?n = 0" using room that False n by (simp split: if_splits)
  have main: "placed s u I i ?k d' x"
    if e: "\<exists>a. d' = d\<lparr>d_addrs := a\<rparr>" and nz: "d_addrs d' ! NDIRECT \<noteq> 0" and G: "grown s t I (I(i := d')) i NDIRECT"
      and x: "x \<noteq> 0" "x = ptr (fsfd u) d' (bslot ?k)" and H: "grown t u (I(i := d')) (I(i := d')) i (bslot ?k)" for d' t u x
  proof -
    have P: "ptr (fsfd t) d' l = (if l = NDIRECT \<and> ptr (fsfd s) d NDIRECT = 0 then freeblock s else ptr (fsfd s) d l)" if "l < 141" for l
      using grownD(3) [OF G that, of i] d by simp
    have P2: "ptr (fsfd u) d' l = (if l = bslot ?k \<and> ptr (fsfd t) d' (bslot ?k) = 0 then freeblock t else ptr (fsfd t) d' l)" if "l < 141" for l
      using grownD(3) [OF H that, of i] by simp
    have P1: "ptr (fsfd t) d' (bslot k) = ptr (fsfd s) d (bslot k)" if "k < MAXFILE" for k
      using P [OF bslot_range [OF that]] bslot_less(2) by simp
    have "(ptr (fsfd u) d' (bslot k) = 0) = (ptr (fsfd s) d (bslot k) = 0)" if "k < MAXFILE" "k \<noteq> ?k" for k
      using P2 [OF bslot_range [OF that(1)]] P1 [OF that(1)] that(2) bslot_less(3) [of k ?k] by simp
    moreover have "unat (freeblock u) = unat (freeblock s) + (if ptr (fsfd s) d (bslot ?k) = 0 then 1 else 0) +
        (if d_addrs d ! NDIRECT = 0 \<and> NDIRECT \<le> ?k then 1 else 0)"
      using grownD(4) [OF G] grownD(4) [OF H] P1 [OF f] False d by (simp add: ptr_direct)
    moreover have "ptr (fsfd u) (I j) l = ptr (fsfd s) (I j) l" if "j \<noteq> i" "l < 141" for j l
      using grownD(3) [OF G that(2), of j] grownD(3) [OF H that(2), of j] that(1) by simp
    ultimately show ?thesis
      using that grownD(1) [OF H] kept_trans [OF grownD(2) [OF G] grownD(2) [OF H]] grown_trans_bytes [OF g G H] False d nz
      by (simp add: placed_def)
  qed
  have step: "wp (indirect_block (d_addrs d' ! NDIRECT) (?k - NDIRECT)) (\<lambda>x u. placed s u I i ?k d' x) t"
    if "\<exists>a. d' = d\<lparr>d_addrs := a\<rparr>" "d_addrs d' ! NDIRECT \<noteq> 0" and G: "grown s t I (I(i := d')) i NDIRECT" for d' t
  proof (rule wp_mono [OF wp_indirect_block [OF grownD(1) [OF G] j, of i "d_addrs d' ! NDIRECT"]])
    show "d_addrs ((I(i := d')) i) ! NDIRECT = d_addrs d' ! NDIRECT" by simp
    show "d_addrs d' ! NDIRECT \<noteq> 0" by (rule that(2))
    have "ptr (fsfd t) d' (bslot ?k) = ptr (fsfd s) d (bslot ?k)"
      using grownD(3) [OF G bslot_range [OF f], of i] d bslot_less(2) by simp
    then show "unat (freeblock t) < 1024" if "ptr (fsfd t) ((I(i := d')) i) (13 + (?k - NDIRECT)) = 0"
      using that room grownD(4) [OF G] False d unfolding sl by (simp add: ptr_direct split: if_splits)
    show "placed s u I i ?k d' x" if "x \<noteq> 0 \<and> x = ptr (fsfd u) ((I(i := d')) i) (13 + (?k - NDIRECT)) \<and>
        grown t u (I(i := d')) (I(i := d')) i (13 + (?k - NDIRECT))" for x u
      by (rule main [OF \<open>\<exists>a. d' = d\<lparr>d_addrs := a\<rparr>\<close> \<open>d_addrs d' ! NDIRECT \<noteq> 0\<close> G]) (use that sl in auto)
  qed
  have "wp (direct_block ?n d) (\<lambda>d'. wp (indirect_block (d_addrs d' ! NDIRECT) (?k - NDIRECT)) (\<lambda>x u. placed s u I i ?k d' x)) s"
    by (rule wp_mono [OF wp_direct_block [OF g n13 d rm1]]) (use step n in auto)
  then show ?thesis using False by (simp add: place_def wp_nest)
qed

section \<open>The whole append\<close>

lemma block_end: "512 * f + r = off \<Longrightarrow> r + n \<le> 512 \<Longrightarrow> off + n \<le> 512 * Suc f" for f :: nat
  by simp

lemma same_block_count:
  fixes f k :: nat
  assumes "512 * f \<le> off" "off + m \<le> 512 * Suc f" "k \<noteq> f"
  shows "512 * k < off \<longleftrightarrow> 512 * k < off + m"
  using assms by (cases "k < f") auto

lemma indirect_from:
  fixes f :: nat
  assumes "0 < m" "512 * f \<le> off" "off < 512 * Suc f" "off + m \<le> 512 * Suc f"
  shows "6144 < off + m \<longleftrightarrow> 6144 < off \<or> 12 \<le> f"
  using assms by (cases "12 \<le> f") auto

lemma need_step:
  assumes "0 < m" "f = off div 512" "off + m \<le> 512 * Suc f"
  shows "need (off + m) = need off + (if 512 * f < off then 0 else 1) + (if off \<le> 6144 \<and> 12 \<le> f then 1 else 0)"
proof -
  have b: "512 * f \<le> off" "off < 512 * Suc f" using assms by auto
  have 1: "(off + m + 511) div 512 = Suc f"
    by (rule div_nat_eqI) (use assms b in auto)
  have 2: "(off + 511) div 512 = (if 512 * f < off then Suc f else f)"
  proof (cases "512 * f < off")
    case True
    have "(off + 511) div 512 = Suc f" by (rule div_nat_eqI) (use b True in auto)
    then show ?thesis using True by simp
  next
    case False
    then have "off = 512 * f" using b by simp
    then show ?thesis by simp
  qed
  have 3: "6144 < off + m \<longleftrightarrow> 6144 < off \<or> 12 \<le> f"
    by (rule indirect_from) (use assms(1,3) b in auto)
  show ?thesis unfolding need_def 1 2 3 using b by auto
qed

lemma need_mono: "m \<le> n \<Longrightarrow> need m \<le> need n"
  unfolding need_def by (auto intro!: add_mono div_le_mono)

lemma need_ptr:
  assumes c: "compact img d off" and m: "0 < m" "off + m \<le> 512 * Suc (off div 512)" and f: "off div 512 < MAXFILE"
  shows "need (off + m) = need off + (if ptr img d (bslot (off div 512)) = 0 then 1 else 0) +
    (if d_addrs d ! NDIRECT = 0 \<and> NDIRECT \<le> off div 512 then 1 else 0)"
proof -
  have "(ptr img d (bslot (off div 512)) = 0) = (\<not> 512 * (off div 512) < off)" "(d_addrs d ! NDIRECT = 0) = (off \<le> 6144)"
    using c f unfolding compact_def by auto
  moreover have "NDIRECT = 12" by (simp add: NDIRECT_def)
  ultimately show ?thesis using need_step [OF m(1) refl m(2)] by simp
qed

lemma compact_step:
  assumes c: "compact (fsfd s) (I i) off" and m: "0 < m" "off + m \<le> 512 * Suc (off div 512)"
    and f: "off div 512 < MAXFILE" and P: "placed s t I i (off div 512) d' x"
  shows "compact (fsfd t) d' (off + m)"
    "unat (freeblock t) + need off = unat (freeblock s) + need (off + m)"
proof -
  let ?f = "off div 512"
  have b: "512 * ?f \<le> off" "off < 512 * Suc ?f" by auto
  have "ptr (fsfd t) d' (bslot k) \<noteq> 0 \<longleftrightarrow> 512 * k < off + m" if k: "k < MAXFILE" for k
  proof (cases "k = ?f")
    case True
    then show ?thesis using P b m by (simp add: placed_def)
  next
    case False
    then have "ptr (fsfd t) d' (bslot k) \<noteq> 0 \<longleftrightarrow> 512 * k < off"
      using P c k by (simp add: placed_def compact_def)
    moreover have "512 * k < off \<longleftrightarrow> 512 * k < off + m" using same_block_count [OF b(1) m(2) False] .
    ultimately show ?thesis by simp
  qed
  moreover have "d_addrs d' ! NDIRECT \<noteq> 0 \<longleftrightarrow> 6144 < off + m"
  proof -
    have "d_addrs d' ! NDIRECT \<noteq> 0 \<longleftrightarrow> 6144 < off \<or> 12 \<le> ?f"
      using P c by (auto simp: placed_def compact_def NDIRECT_def)
    also have "\<dots> \<longleftrightarrow> 6144 < off + m" using indirect_from [OF m(1) b m(2)] by simp
    finally show ?thesis .
  qed
  ultimately show "compact (fsfd t) d' (off + m)" by (simp add: compact_def)
  have "unat (freeblock t) = unat (freeblock s) + (if ptr (fsfd s) (I i) (bslot ?f) = 0 then 1 else 0) +
       (if d_addrs (I i) ! NDIRECT = 0 \<and> NDIRECT \<le> ?f then 1 else 0)"
    using P unfolding placed_def by blast
  then show "unat (freeblock t) + need off = unat (freeblock s) + need (off + m)"
    using need_ptr [OF c m f] by simp
qed

lemma good_write:
  assumes g: "good_img s I" and f: "f < MAXFILE" and x: "ptr (fsfd s) (I i) (bslot f) = x" "x \<noteq> 0" and b: "length b = BSIZE"
  defines "t \<equiv> s\<lparr>fsfd := (fsfd s)[unat x := b]\<rparr>"
  shows "good_img t I" "kept s t" "l < 141 \<Longrightarrow> ptr (fsfd t) (I j) l = ptr (fsfd s) (I j) l"
    "p < 512 * MAXFILE \<Longrightarrow>
       dbyte (fsfd t) (I j) p = (if j = i \<and> p div 512 = f then b ! (p mod 512) else dbyte (fsfd s) (I j) p)"
proof -
  note ok = good_imgD(1) [OF g]
  note len = good_imgD(2) [OF g]
  have r: "29 \<le> unat x" "unat x < unat (freeblock s)" "unat x < 1024"
    using img_ok_range [OF ok bslot_range [OF f], of i] x by simp_all
  have own: "j = i \<and> l = bslot f" if "l < 141" "ptr (fsfd s) (I j) l = x" for j l
    using img_ok_once [OF ok bslot_range [OF f] that(1), of i j] x that(2) by simp
  have ptr: "ptr (fsfd t) (I j) l = ptr (fsfd s) (I j) l" for j l
  proof (rule ptr_cong [OF refl])
    assume "d_addrs (I j) ! NDIRECT \<noteq> 0"
    have "d_addrs (I j) ! NDIRECT \<noteq> x"
      using own [of NDIRECT j] bslot_less(2) [of f] by (auto simp: ptr_direct) (simp add: NDIRECT_def)
    then show "fsfd t ! unat (d_addrs (I j) ! NDIRECT) = fsfd s ! unat (d_addrs (I j) ! NDIRECT)"
      by (simp add: t_def word_unat_eq_iff)
  qed
  show "ptr (fsfd t) (I j) l = ptr (fsfd s) (I j) l" by (rule ptr)
  have "length (fsfd t) = 1024" using len by (simp add: t_def)
  moreover have "length (fsfd t ! y) = BSIZE" if "y < 1024" for y
    using len b that img_okD(2) [OF ok that] by (cases "y = unat x") (simp_all add: t_def)
  moreover have "fsfd t ! y = zeroes" if "unat (freeblock s) \<le> y" "y < 1024" for y
    using img_okD(6) [OF ok that] that r by (simp add: t_def)
  ultimately have "img_ok (fsfd t) (freeblock s) I"
    using ok unfolding img_ok_def ptr by blast
  then show "good_img t I" using g by (simp add: good_img_def t_def)
  show "kept s t" using r by (simp add: kept_def t_def)
  show "dbyte (fsfd t) (I j) p = (if j = i \<and> p div 512 = f then b ! (p mod 512) else dbyte (fsfd s) (I j) p)"
    if p: "p < 512 * MAXFILE"
  proof -
    have l: "bslot (p div 512) < 141" using p by (intro bslot_range) (simp add: MAXFILE_def)
    show ?thesis
    proof (cases "ptr (fsfd s) (I j) (bslot (p div 512)) = x")
      case True
      then have "j = i" "p div 512 = f" using own [OF l True] bslot_less(3) by auto
      then show ?thesis using True x r len unfolding dbyte_def ptr by (simp add: t_def)
    next
      case False
      then have "\<not> (j = i \<and> p div 512 = f)" using x by auto
      moreover have "unat x \<noteq> unat (ptr (fsfd s) (I j) (bslot (p div 512)))" using False by (simp add: word_unat_eq_iff)
      then have "fsfd t ! unat (ptr (fsfd s) (I j) (bslot (p div 512))) = fsfd s ! unat (ptr (fsfd s) (I j) (bslot (p div 512)))"
        by (simp add: t_def)
      ultimately show ?thesis unfolding dbyte_def ptr by (simp only: if_False)
    qed
  qed
qed

definition appended :: "mkfs_state \<Rightarrow> mkfs_state \<Rightarrow> (u32 \<Rightarrow> dinode) \<Rightarrow> u32 \<Rightarrow> nat \<Rightarrow> u8 list \<Rightarrow> dinode \<Rightarrow> bool" where
  "appended s t I i off p d' \<longleftrightarrow> good_img t (I(i := d')) \<and> kept s t \<and> (\<exists>a. d' = (I i)\<lparr>d_addrs := a\<rparr>) \<and>
     (\<forall>j l. j \<noteq> i \<longrightarrow> l < 141 \<longrightarrow> ptr (fsfd t) (I j) l = ptr (fsfd s) (I j) l) \<and>
     compact (fsfd t) d' (off + length p) \<and>
     unat (freeblock t) + need off = unat (freeblock s) + need (off + length p) \<and>
     (\<forall>j q. q < 512 * MAXFILE \<longrightarrow> dbyte (fsfd t) ((I(i := d')) j) q =
        (if j = i \<and> off \<le> q \<and> q < off + length p then p ! (q - off) else dbyte (fsfd s) (I j) q))"

lemma appended_nil: "good_img s I \<Longrightarrow> compact (fsfd s) (I i) off \<Longrightarrow> appended s s I i off [] (I i)"
  by (auto simp: appended_def kept_refl intro: exI [of _ "d_addrs (I i)"])

lemma appended_append:
  assumes A: "appended s t I i off p d" and B: "appended t u (I(i := d)) i (off + length p) q d'"
  shows "appended s u I i off (p @ q) d'"
proof -
  have "kept s u" using A B kept_trans unfolding appended_def by blast
  moreover have "\<exists>a. d' = (I i)\<lparr>d_addrs := a\<rparr>" using A B unfolding appended_def by force
  moreover have "dbyte (fsfd u) ((I(i := d')) j) k =
      (if j = i \<and> off \<le> k \<and> k < off + length (p @ q) then (p @ q) ! (k - off) else dbyte (fsfd s) (I j) k)"
    if "k < 512 * MAXFILE" for j k
  proof -
    have "dbyte (fsfd t) ((I(i := d)) j) k = (if j = i \<and> off \<le> k \<and> k < off + length p then p ! (k - off) else dbyte (fsfd s) (I j) k)"
      using A that unfolding appended_def by blast
    moreover have "dbyte (fsfd u) ((I(i := d, i := d')) j) k =
        (if j = i \<and> off + length p \<le> k \<and> k < off + length p + length q then q ! (k - (off + length p)) else dbyte (fsfd t) ((I(i := d)) j) k)"
      using B that unfolding appended_def by blast
    ultimately show ?thesis by (auto simp: nth_append)
  qed
  moreover have "ptr (fsfd u) (I j) l = ptr (fsfd s) (I j) l" if "j \<noteq> i" "l < 141" for j l
    using A B that unfolding appended_def by simp
  ultimately show ?thesis using A B unfolding appended_def by (simp add: add.assoc)
qed

lemma compact_cong:
  assumes "\<And>l. l < 141 \<Longrightarrow> ptr img' d l = ptr img d l"
  shows "compact img' d n = compact img d n"
  using assms bslot_range unfolding compact_def by simp

lemma appended_one:
  assumes g: "good_img s I" and P: "placed s t I i (off div 512) d x" and c: "compact (fsfd s) (I i) off"
    and f: "off div 512 < MAXFILE" and m: "p \<noteq> []" "off mod 512 + length p \<le> 512"
  shows "appended s (t\<lparr>fsfd := (fsfd t)[unat x := put_at (off mod 512) p (fsfd t ! unat x)]\<rparr>) I i off p d"
proof -
  let ?f = "off div 512" and ?b = "put_at (off mod 512) p (fsfd t ! unat x)"
  let ?u = "t\<lparr>fsfd := (fsfd t)[unat x := ?b]\<rparr>"
  have gt: "good_img t (I(i := d))" and kt: "kept s t" and x: "x \<noteq> 0" "ptr (fsfd t) ((I(i := d)) i) (bslot ?f) = x"
    and same: "\<And>j q. q < 512 * MAXFILE \<Longrightarrow> dbyte (fsfd t) ((I(i := d)) j) q = dbyte (fsfd s) (I j) q"
    and e: "\<exists>a. d = (I i)\<lparr>d_addrs := a\<rparr>"
    using P unfolding placed_def by simp_all
  have r: "unat x < 1024" using img_ok_range(3) [OF good_imgD(1) [OF gt] bslot_range [OF f], of i] x by simp
  have lb: "length (fsfd t ! unat x) = 512" using img_okD(2) [OF good_imgD(1) [OF gt] r] by (simp add: BSIZE_def)
  then have b: "length ?b = BSIZE" using m by (simp add: BSIZE_def)
  have o: "512 * ?f + off mod 512 = off" by simp
  have l: "off + length p \<le> 512 * Suc ?f" by (rule block_end [OF o m(2)])
  have m0: "0 < length p" using m(1) by simp
  note W = good_write [OF gt f x(2,1) b]
  have others: "ptr (fsfd ?u) (I j) l = ptr (fsfd s) (I j) l" if "j \<noteq> i" "l < 141" for j l
    using W(3) [OF that(2), of j] P that unfolding placed_def by simp
  have "compact (fsfd ?u) d (off + length p)"
    using compact_step(1) [OF c m0 l f P] compact_cong [of "fsfd ?u" d "fsfd t"] W(3) [of _ i] by simp
  moreover have "dbyte (fsfd ?u) ((I(i := d)) j) k =
      (if j = i \<and> off \<le> k \<and> k < off + length p then p ! (k - off) else dbyte (fsfd s) (I j) k)" if k: "k < 512 * MAXFILE" for j k
  proof -
    have w: "dbyte (fsfd ?u) ((I(i := d)) j) k =
        (if j = i \<and> k div 512 = ?f then ?b ! (k mod 512) else dbyte (fsfd s) (I j) k)"
      using W(4) [OF k, of j] same [OF k, of j] by simp
    show ?thesis
    proof (cases "j = i \<and> k div 512 = ?f")
      case True
      have dm: "512 * ?f + k mod 512 = k" using True mult_div_mod_eq [of 512 k] by simp
      have old: "fsfd t ! unat x ! (k mod 512) = dbyte (fsfd s) (I j) k"
        using same [OF k, of i] x True by (simp add: dbyte_def)
      have "off \<le> k \<longleftrightarrow> off mod 512 \<le> k mod 512" "k < off + length p \<longleftrightarrow> k mod 512 < off mod 512 + length p"
        "k - off = k mod 512 - off mod 512"
        using dm o by linarith+
      then show ?thesis using w True old m(2) lb by (simp add: nth_put_at)
    next
      case False
      have "\<not> (off \<le> k \<and> k < off + length p)" if "k div 512 \<noteq> ?f"
      proof
        assume a: "off \<le> k \<and> k < off + length p"
        then have "512 * ?f \<le> k" "k < 512 * Suc ?f" using o l by linarith+
        then have "k div 512 = ?f" by (intro div_nat_eqI) auto
        then show False using that by simp
      qed
      then show ?thesis using w False by auto
    qed
  qed
  ultimately show ?thesis
    using W(1,2) kt e others compact_step(2) [OF c m0 l f P] kept_trans [OF kt W(2)] unfolding appended_def by (simp del: fun_upd_apply)
qed

lemma wp_iappend_loop:
  assumes "good_img s I" "I i = d" "compact (fsfd s) d (unat off)" "unat off + length p \<le> 512 * MAXFILE"
    "unat (freeblock s) + need (unat off + length p) \<le> 1024 + need (unat off)"
  shows "wp (iappend_loop p off d) (\<lambda>(d', off') t. unat off' = unat off + length p \<and> appended s t I i (unat off) p d') s"
  using assms
proof (induction p off d arbitrary: s I rule: iappend_loop.induct)
  case (1 p off d)
  show ?case
  proof (cases "p = []")
    case True
    then show ?thesis using 1 appended_nil [of s I i] by (simp add: iappend_loop.simps)
  next
    case False
    let ?o = "unat off"
    let ?f = "?o div 512" and ?m = "portion off (length p)"
    have uf: "unat (off div 512) = ?f" by (simp add: unat_div)
    have om: "unat (off - off div 512 * 512) = ?o mod 512"
    proof -
      have "off - off div 512 * 512 = off mod 512"
        using div_mult_mod_eq [of off 512] by (metis add_diff_cancel_left')
      then show ?thesis by (simp add: unat_mod)
    qed
    have m: "0 < ?m" "?m \<le> length p" "?o mod 512 + ?m \<le> 512" using False by (auto simp: portion_eq)
    have f: "?f < MAXFILE"
    proof (rule less_mult_imp_div_less)
      have "0 < length p" using False by simp
      then show "?o < MAXFILE * 512" using 1(5) by linarith
    qed
    have l: "?o + ?m \<le> 512 * Suc ?f" by (rule block_end [OF mult_div_mod_eq m(3)])
    have uo: "unat (off + of_nat ?m) = ?o + ?m"
      using 1(5) m(2) by (simp add: unat_word_ariths unat_of_nat MAXFILE_def)
    have "need (?o + ?m) \<le> need (?o + length p)" by (rule need_mono) (use m(2) in simp)
    then have room: "unat (freeblock s) + (if ptr (fsfd s) d (bslot ?f) = 0 then 1 else 0) +
        (if d_addrs d ! NDIRECT = 0 \<and> NDIRECT \<le> ?f then 1 else 0) \<le> 1024"
      using need_ptr [OF 1(4) m(1) l f] 1(6) by linarith
    let ?step = "\<lambda>t x. t\<lparr>fsfd := (fsfd t)[unat x := put_at (?o mod 512) (take ?m p) (fsfd t ! unat x)]\<rparr>"
    let ?Q = "\<lambda>(d', off') t. unat off' = ?o + length p \<and> appended s t I i ?o p d'"
    have rest: "wp (iappend_loop (drop ?m p) (off + of_nat ?m) d') ?Q (?step t x)" if P: "placed s t I i ?f d' x" for d' x t
    proof -
      let ?u = "?step t x"
      have A: "appended s ?u I i ?o (take ?m p) d'"
        by (rule appended_one [OF 1(2) P _ f]) (use 1(3,4) m False in auto)
      have lt: "length (take ?m p) = ?m" using m(2) by simp
      from A have g: "good_img ?u (I(i := d'))" and c: "compact (fsfd ?u) d' (unat (off + of_nat ?m))"
        and fb: "unat (freeblock ?u) + need ?o = unat (freeblock s) + need (?o + ?m)"
        unfolding appended_def lt uo by (simp_all del: fun_upd_apply)
      have "wp (iappend_loop (drop ?m p) (off + of_nat ?m) d')
          (\<lambda>(d'', off') v. unat off' = unat (off + of_nat ?m) + length (drop ?m p) \<and>
             appended ?u v (I(i := d')) i (unat (off + of_nat ?m)) (drop ?m p) d'') ?u"
      proof (rule 1(1) [OF False _ g _ c])
        show "\<not> \<not> unat (off div 512) < MAXFILE" using f uf by simp
        show "(I(i := d')) i = d'" by simp
        show "unat (off + of_nat ?m) + length (drop ?m p) \<le> 512 * MAXFILE" using 1(5) uo m(2) by simp
        show "unat (freeblock ?u) + need (unat (off + of_nat ?m) + length (drop ?m p)) \<le> 1024 + need (unat (off + of_nat ?m))"
          using 1(6) fb uo m(2) by simp
      qed
      then show ?thesis
      proof (rule wp_mono, goal_cases)
        case (1 r v)
        then show ?case using appended_append [OF A, of v "drop ?m p" "fst r"] uo m(2) unfolding lt
          by (cases r) simp
      qed
    qed
    have read: "unat x < length (fsfd t) \<and> length (fsfd t) \<le> room t" if "placed s t I i ?f d' x" for d' x t
    proof -
      have g: "good_img t (I(i := d'))" and "x \<noteq> 0" "ptr (fsfd t) ((I(i := d')) i) (bslot ?f) = x"
        using that unfolding placed_def by simp_all
      then show ?thesis using img_ok_range(3) [OF good_imgD(1) [OF g] bslot_range [OF f], of i] good_imgD(2,3) [OF g] by simp
    qed
    have "wp (place (off div 512) d) (\<lambda>(d', x) t. placed s t I i (unat (off div 512)) d' x) s"
      by (rule wp_place) (use 1 f room uf in simp_all)
    then have "wp (place (off div 512) d) (\<lambda>(d', x). wp (rsect x) (\<lambda>buf. wp (wsect x (put_at (unat (off - off div 512 * 512)) (take ?m p) buf))
        (\<lambda>_. wp (iappend_loop (drop ?m p) (off + of_nat ?m) d') ?Q))) s"
    proof (rule wp_mono, goal_cases)
      case (1 r t)
      obtain d' x where r: "r = (d', x)" by (cases r)
      then have P: "placed s t I i ?f d' x" using 1 uf by simp
      show ?case unfolding r using read [OF P] rest [OF P] om by (simp add: wp_rsect wp_wsect)
    qed
    then show ?thesis using False f uf by (subst iappend_loop.simps) (simp add: wp_nest case_prod_unfold)
  qed
qed

section \<open>Inodes\<close>

definition sound :: "mkfs_state \<Rightarrow> bool" where
  "sound s \<longleftrightarrow> good_img s (ino (fsfd s)) \<and> (\<forall>j. unat (d_size (ino (fsfd s) j)) \<le> 512 * MAXFILE)"

text \<open>A file is \<open>tight\<close> when it has the blocks it needs and zeros behind its end.\<close>

definition tight :: "mkfs_state \<Rightarrow> u32 \<Rightarrow> bool" where
  "tight s i \<longleftrightarrow> compact (fsfd s) (ino (fsfd s) i) (unat (d_size (ino (fsfd s) i))) \<and>
     (\<forall>q. unat (d_size (ino (fsfd s) i)) \<le> q \<longrightarrow> q < 512 * MAXFILE \<longrightarrow> dbyte (fsfd s) (ino (fsfd s) i) q = 0)"

lemma soundD: "sound s \<Longrightarrow> good_img s (ino (fsfd s))" "sound s \<Longrightarrow> unat (d_size (ino (fsfd s) j)) \<le> 512 * MAXFILE"
  by (simp_all add: sound_def)

lemma i2b_range: "unat i < 200 \<Longrightarrow> unat (i2b i) = unat i div 8 + 2" "unat i < 200 \<Longrightarrow> 2 \<le> unat (i2b i) \<and> unat (i2b i) < 28"
proof -
  assume i: "unat i < 200"
  have "unat (i div 8) = unat i div 8" by (simp add: unat_div)
  then show a: "unat (i2b i) = unat i div 8 + 2"
    using i by (simp add: i2b_def IPB_def unat_word_ariths)
  show "2 \<le> unat (i2b i) \<and> unat (i2b i) < 28" unfolding a using i by auto
qed

lemma wp_rinode: "good_img s I \<Longrightarrow> unat i < 200 \<Longrightarrow> wp (rinode i) Q s = Q (ino (fsfd s) i) s"
  using i2b_range(2) [of i] by (simp add: rinode_def wp_rsect good_imgD ino_def)

text \<open>An inode is written in its place, next to the seven others of its block.\<close>

lemma ino_winode:
  assumes "length img = 1024" "length (img ! unat (i2b i)) = BSIZE" "unat i < 200" "length (d_addrs d) = 13"
  shows "ino (img[unat (i2b i) := put_at (islot i) (bytes_dinode d) (img ! unat (i2b i))]) = (ino img)(i := d)"
proof (rule ext)
  fix j
  let ?b = "img ! unat (i2b i)"
  have l: "length (d_addrs d) = Suc NDIRECT" using assms(4) by (simp add: NDIRECT_def)
  have s: "islot i + 64 \<le> length ?b" for i using assms(2) by (simp add: islot_def IPB_def BSIZE_def)
  show "ino (img[unat (i2b i) := put_at (islot i) (bytes_dinode d) ?b]) j = ((ino img)(i := d)) j"
  proof (cases "unat j < 200 \<and> i2b j = i2b i")
    case True
    show ?thesis
    proof (cases "j = i")
      case True
      then show ?thesis using assms i2b_range(2) [of i] get_dinode_put [OF l s [of i]] by (simp add: ino_def)
    next
      case False
      then have n: "unat j \<noteq> unat i" by (simp add: word_unat_eq_iff)
      have "unat j div 8 = unat i div 8"
        using True i2b_range(1) [of i] i2b_range(1) [of j] assms(3) by simp
      then have "unat j mod 8 \<noteq> unat i mod 8" using n by (metis div_mult_mod_eq)
      then have d: "islot j + 64 \<le> islot i \<or> islot i + 64 \<le> islot j" by (auto simp: islot_def IPB_def)
      show ?thesis using True False assms i2b_range(2) [of i] get_dinode_put_other [OF l s s d] by (simp add: ino_def)
    qed
  next
    case False
    then have "j \<noteq> i" "unat j < 200 \<Longrightarrow> i2b i \<noteq> i2b j" using assms(3) by auto
    then have "j \<noteq> i" "unat j < 200 \<Longrightarrow> unat (i2b i) \<noteq> unat (i2b j)" by (simp_all add: word_unat_eq_iff)
    then show ?thesis by (simp add: ino_def)
  qed
qed

lemma ptr_above:
  assumes "d_addrs d ! NDIRECT \<noteq> 0 \<Longrightarrow> y \<noteq> unat (d_addrs d ! NDIRECT)"
  shows "ptr (img[y := b]) d l = ptr img d l"
  using assms by (auto simp: ptr_def)

text \<open>\<open>rest s t\<close>: the parts of the state that an append or a write of an inode leaves alone.\<close>

definition rest :: "mkfs_state \<Rightarrow> mkfs_state \<Rightarrow> bool" where
  "rest s t \<longleftrightarrow> fsfd t ! 1 = fsfd s ! 1 \<and> freeinode t = freeinode s"

lemma wp_winode:
  assumes g: "good_img s I" and i: "unat i < 200" and I: "\<And>j. j \<noteq> i \<Longrightarrow> I j = ino (fsfd s) j" and d: "d_addrs d = d_addrs (I i)"
    and n: "\<And>j. unat (d_size (ino (fsfd s) j)) \<le> 512 * MAXFILE" "unat (d_size d) \<le> 512 * MAXFILE"
  shows "wp (winode i d) (\<lambda>_ t. sound t \<and> ino (fsfd t) = (ino (fsfd s))(i := d) \<and> freeblock t = freeblock s \<and> rest s t \<and>
    (\<forall>j l. l < 141 \<longrightarrow> ptr (fsfd t) (ino (fsfd t) j) l = ptr (fsfd s) (I j) l) \<and>
    (\<forall>j q. q < 512 * MAXFILE \<longrightarrow> dbyte (fsfd t) (ino (fsfd t) j) q = dbyte (fsfd s) (I j) q)) s"
proof -
  note ok = good_imgD(1) [OF g]
  note r = i2b_range(2) [OF i]
  let ?y = "unat (i2b i)"
  let ?t = "s\<lparr>fsfd := (fsfd s)[?y := put_at (islot i) (bytes_dinode d) (fsfd s ! ?y)]\<rparr>"
  have len: "length (d_addrs d) = 13" using d img_okD(5) [OF ok, of i] by simp
  have lb: "length (fsfd s ! ?y) = BSIZE" using img_okD(2) [OF ok, of ?y] r by simp
  have lp: "length (put_at (islot i) (bytes_dinode d) (fsfd s ! ?y)) = BSIZE"
    using lb len by (simp add: islot_def IPB_def BSIZE_def NDIRECT_def)
  have ino: "ino (fsfd ?t) = (ino (fsfd s))(i := d)"
    using ino_winode [OF good_imgD(2) [OF g] lb i len] by simp
  have add: "d_addrs (((ino (fsfd s))(i := d)) j) = d_addrs (I j)" for j using d I by simp
  have above: "29 \<le> unat (ptr (fsfd s) (I j) l)" if "l < 141" "ptr (fsfd s) (I j) l \<noteq> 0" for j l
    using img_ok_range(1) [OF ok that] .
  have ptr: "ptr (fsfd ?t) (((ino (fsfd s))(i := d)) j) l = ptr (fsfd s) (I j) l" for j l
  proof -
    have "ptr (fsfd ?t) (((ino (fsfd s))(i := d)) j) l = ptr (fsfd ?t) (I j) l" by (rule ptr_cong [OF add refl])
    also have "\<dots> = ptr (fsfd s) (I j) l"
    proof -
      have "29 \<le> unat (d_addrs (I j) ! NDIRECT)" if "d_addrs (I j) ! NDIRECT \<noteq> 0"
        using above [of NDIRECT j] that by (simp add: ptr_direct) (simp add: NDIRECT_def)
      then show ?thesis using r ptr_above [of "I j" ?y] by fastforce
    qed
    finally show ?thesis .
  qed
  have "dbyte (fsfd ?t) (((ino (fsfd s))(i := d)) j) q = dbyte (fsfd s) (I j) q" if "q < 512 * MAXFILE" for j q
  proof -
    have "bslot (q div 512) < 141" using that by (intro bslot_range) (simp add: MAXFILE_def)
    then have "29 \<le> unat (ptr (fsfd s) (I j) (bslot (q div 512)))" if "ptr (fsfd s) (I j) (bslot (q div 512)) \<noteq> 0"
      using above that by blast
    then show ?thesis using r unfolding dbyte_def ptr by auto
  qed
  moreover have "img_ok (fsfd ?t) (freeblock s) ((ino (fsfd s))(i := d))"
  proof -
    have "length (fsfd ?t ! y) = BSIZE" if "y < 1024" for y
      using that img_okD(1,2) [OF ok] lp r by (cases "y = ?y") simp_all
    moreover have "fsfd ?t ! y = zeroes" if "unat (freeblock s) \<le> y" "y < 1024" for y
      using img_okD(3,6) [OF ok] that r by simp
    moreover have "length (fsfd ?t) = 1024" using good_imgD(2) [OF g] by simp
    moreover have "length (d_addrs (((ino (fsfd s))(i := d)) j)) = 13" for j unfolding add by (rule img_okD(5) [OF ok])
    ultimately show ?thesis using ok unfolding img_ok_def ptr by blast
  qed
  then have "sound ?t" using g n ino by (simp add: sound_def good_img_def)
  moreover have "rest s ?t" using r by (simp add: rest_def)
  ultimately show ?thesis
    using r ptr ino by (simp add: winode_def wp_rsect wp_wsect good_imgD(2,3) [OF g] del: fun_upd_apply)
qed

section \<open>Files\<close>

text \<open>What \<open>iappend\<close> and \<open>ialloc\<close> do to the files of an image.  \<open>cost\<close> is the number of blocks that an append takes.\<close>

definition fsize :: "mkfs_state \<Rightarrow> u32 \<Rightarrow> nat" where
  "fsize s i = unat (d_size (ino (fsfd s) i))"

definition file_type :: "mkfs_state \<Rightarrow> u32 \<Rightarrow> u16" where
  "file_type s i = d_type (ino (fsfd s) i)"

text \<open>Only file \<open>i\<close> differs between \<open>s\<close> and \<open>t\<close>.\<close>

definition others_same :: "mkfs_state \<Rightarrow> mkfs_state \<Rightarrow> u32 \<Rightarrow> bool" where
  "others_same s t i \<longleftrightarrow> (\<forall>j. j \<noteq> i \<longrightarrow> file_of (fsfd t) j = file_of (fsfd s) j \<and> file_type t j = file_type s j \<and>
     (\<forall>l < 141. ptr (fsfd t) (ino (fsfd t) j) l = ptr (fsfd s) (ino (fsfd s) j) l) \<and> (tight s j \<longrightarrow> tight t j))"

lemma file_of_cong:
  assumes "d_size (ino img' j) = d_size (ino img j)" "unat (d_size (ino img j)) \<le> 512 * MAXFILE"
    "\<And>q. q < 512 * MAXFILE \<Longrightarrow> dbyte img' (ino img' j) q = dbyte img (ino img j) q"
  shows "file_of img' j = file_of img j"
  using assms by (simp add: file_of_def)

lemma length_file_of: "length (file_of (fsfd s) i) = fsize s i"
  by (simp add: file_of_def fsize_def)

text \<open>\<open>added s t i p\<close>: from \<open>s\<close> to \<open>t\<close> the bytes \<open>p\<close> were appended to file \<open>i\<close>.\<close>

definition added :: "mkfs_state \<Rightarrow> mkfs_state \<Rightarrow> u32 \<Rightarrow> u8 list \<Rightarrow> bool" where
  "added s t i p \<longleftrightarrow> sound t \<and> tight t i \<and> file_of (fsfd t) i = file_of (fsfd s) i @ p \<and> file_type t i = file_type s i \<and>
    unat (freeblock t) + need (fsize s i) = unat (freeblock s) + need (fsize s i + length p) \<and>
    rest s t \<and> others_same s t i"

lemma wp_iappend:
  assumes s: "sound s" and i: "unat i < 200" and c: "tight s i" and n: "fsize s i + length p \<le> 512 * MAXFILE"
    and room: "unat (freeblock s) + need (fsize s i + length p) \<le> 1024 + need (fsize s i)"
  shows "wp (iappend i p) (\<lambda>_ t. added s t i p) s"
proof -
  let ?I = "ino (fsfd s)"
  let ?d = "?I i" and ?o = "fsize s i"
  note g = soundD(1) [OF s]
  have fin: "wp (winode i (d'\<lparr>d_size := off'\<rparr>)) (\<lambda>_ u. sound u \<and> tight u i \<and> file_of (fsfd u) i = file_of (fsfd s) i @ p \<and>
      file_type u i = file_type s i \<and> unat (freeblock u) + need ?o = unat (freeblock s) + need (?o + length p) \<and>
      rest s u \<and> others_same s u i) t"
    if A: "appended s t ?I i ?o p d'" and o: "unat off' = ?o + length p" for d' off' t
  proof -
    let ?e = "d'\<lparr>d_size := off'\<rparr>"
    have gt: "good_img t (?I(i := d'))" and kt: "kept s t" and e: "\<exists>a. d' = ?d\<lparr>d_addrs := a\<rparr>"
      and oth: "\<And>j l. j \<noteq> i \<Longrightarrow> l < 141 \<Longrightarrow> ptr (fsfd t) (?I j) l = ptr (fsfd s) (?I j) l"
      and ct: "compact (fsfd t) d' (?o + length p)"
      and fb: "unat (freeblock t) + need ?o = unat (freeblock s) + need (?o + length p)"
      and same: "\<And>j q. q < 512 * MAXFILE \<Longrightarrow> dbyte (fsfd t) ((?I(i := d')) j) q =
        (if j = i \<and> ?o \<le> q \<and> q < ?o + length p then p ! (q - ?o) else dbyte (fsfd s) (?I j) q)"
      using A unfolding appended_def by blast+
    have it: "ino (fsfd t) = ?I"
    proof (rule ext)
      show "ino (fsfd t) j = ?I j" for j
        using kt i2b_range(2) [of j] unfolding kept_def ino_def by (cases "unat j < 200") simp_all
    qed
    have "wp (winode i ?e) (\<lambda>_ u. sound u \<and> ino (fsfd u) = (ino (fsfd t))(i := ?e) \<and> freeblock u = freeblock t \<and> rest t u \<and>
      (\<forall>j l. l < 141 \<longrightarrow> ptr (fsfd u) (ino (fsfd u) j) l = ptr (fsfd t) ((?I(i := d')) j) l) \<and>
      (\<forall>j q. q < 512 * MAXFILE \<longrightarrow> dbyte (fsfd u) (ino (fsfd u) j) q = dbyte (fsfd t) ((?I(i := d')) j) q)) t"
      by (rule wp_winode [OF gt i]) (use it soundD(2) [OF s] n o in simp_all)
    then show ?thesis
    proof (rule wp_mono, goal_cases)
      case (1 _ u)
      have iu: "ino (fsfd u) = ?I(i := ?e)" using 1 it by simp
      have pu: "ptr (fsfd u) (ino (fsfd u) j) l = ptr (fsfd t) ((?I(i := d')) j) l" if "l < 141" for j l using 1 that by blast
      have bu: "dbyte (fsfd u) (ino (fsfd u) j) q = (if j = i \<and> ?o \<le> q \<and> q < ?o + length p then p ! (q - ?o) else dbyte (fsfd s) (?I j) q)"
        if "q < 512 * MAXFILE" for j q 
      proof -
        have "dbyte (fsfd u) (ino (fsfd u) j) q = dbyte (fsfd t) ((?I(i := d')) j) q" using 1 that by blast
        then show ?thesis using same [OF that, of j] by (rule trans)
      qed
      have si: "unat (d_size (ino (fsfd u) i)) = ?o + length p" using iu o by simp
      have "file_of (fsfd u) i = file_of (fsfd s) i @ p"
      proof (rule nth_equalityI)
        show "length (file_of (fsfd u) i) = length (file_of (fsfd s) i @ p)" using si by (simp add: file_of_def fsize_def)
        fix q assume "q < length (file_of (fsfd u) i)"
        then have q: "q < ?o + length p" "q < 512 * MAXFILE" using si n by (simp_all add: file_of_def)
        then show "file_of (fsfd u) i ! q = (file_of (fsfd s) i @ p) ! q"
          using bu [OF q(2), of i] si by (auto simp: file_of_def nth_append fsize_def)
      qed
      moreover have "tight u i"
      proof -
        have "compact (fsfd u) (ino (fsfd u) i) (?o + length p) = compact (fsfd t) d' (?o + length p)"
          using pu [of _ i] bslot_range pu [of NDIRECT i] unfolding compact_def
          by (simp add: ptr_direct) (simp add: NDIRECT_def)
        moreover have "dbyte (fsfd u) (ino (fsfd u) i) q = 0" if "?o + length p \<le> q" "q < 512 * MAXFILE" for q
          using bu [OF that(2), of i] c that unfolding tight_def fsize_def by simp
        ultimately show ?thesis using ct si by (simp add: tight_def)
      qed
      moreover have "others_same s u i"
        unfolding others_same_def
      proof (intro allI impI conjI)
        fix j assume j: "j \<noteq> i"
        have ij: "ino (fsfd u) j = ?I j" using iu j by simp
        show "file_of (fsfd u) j = file_of (fsfd s) j"
          using ij bu [of _ j] j soundD(2) [OF s, of j] by (intro file_of_cong) simp_all
        show "file_type u j = file_type s j" using ij by (simp add: file_type_def)
        show "ptr (fsfd u) (ino (fsfd u) j) l = ptr (fsfd s) (?I j) l" if "l < 141" for l
          using pu [OF that, of j] oth [OF j that] j by simp
        show "tight u j" if "tight s j"
          using that ij pu [of _ j] oth [OF j] j bu [of _ j] compact_cong [of "fsfd u" "?I j" "fsfd s"] by (simp add: tight_def)
      qed
      moreover have "file_type u i = file_type s i" using iu e by (auto simp: file_type_def)
      moreover have "rest s u" using 1 kt unfolding rest_def kept_def by simp
      ultimately show ?case using 1 fb by simp
    qed
  qed
  have "wp (iappend_loop p (d_size ?d) ?d) (\<lambda>(d', off') t. unat off' = ?o + length p \<and> appended s t ?I i ?o p d') s"
    using wp_iappend_loop [OF g refl, of i "d_size ?d" p] c n room by (simp add: tight_def fsize_def)
  then have "wp (iappend_loop p (d_size ?d) ?d) (\<lambda>(d', off'). wp (winode i (d'\<lparr>d_size := off'\<rparr>)) (\<lambda>_ u. sound u \<and> tight u i \<and>
      file_of (fsfd u) i = file_of (fsfd s) i @ p \<and> file_type u i = file_type s i \<and>
      unat (freeblock u) + need ?o = unat (freeblock s) + need (?o + length p) \<and> rest s u \<and> others_same s u i)) s"
    by (rule wp_mono) (use fin in auto)
  then show ?thesis by (simp add: iappend_def wp_nest wp_rinode [OF g i] case_prod_unfold added_def)
qed

lemma added_size: "added s t i p \<Longrightarrow> fsize t i = fsize s i + length p"
  by (simp add: added_def flip: length_file_of)

lemma added_trans:
  assumes "added s t i p" "added t u i q"
  shows "added s u i (p @ q)"
  using assms added_size [OF assms(1)] unfolding added_def rest_def others_same_def by (simp add: add.assoc)

lemma added_nil: "sound s \<Longrightarrow> tight s i \<Longrightarrow> added s s i []"
  by (simp add: added_def rest_def others_same_def)

lemma wp_copy_file:
  assumes "sound s" "unat i < 200" "tight s i" "fsize s i + length p \<le> 512 * MAXFILE"
    "unat (freeblock s) + need (fsize s i + length p) \<le> 1024 + need (fsize s i)"
  shows "wp (copy_file i p) (\<lambda>_ t. added s t i p) s"
  using assms
proof (induction i p arbitrary: s rule: copy_file.induct)
  case (1 i p)
  show ?case
  proof (cases "p = []")
    case True
    then show ?thesis using 1 added_nil by (simp add: copy_file.simps)
  next
    case False
    let ?a = "take 512 p" and ?b = "drop 512 p"
    have l: "length ?a + length ?b = length p" by simp
    have nm: "need (fsize s i + length ?a) \<le> need (fsize s i + length p)" by (rule need_mono) simp
    have "wp (iappend i ?a) (\<lambda>_ t. added s t i ?a) s"
      by (rule wp_iappend) (use 1 nm in simp_all)
    then have "wp (iappend i ?a) (\<lambda>_. wp (copy_file i ?b) (\<lambda>_ u. added s u i p)) s"
    proof (rule wp_mono, goal_cases)
      case A: (1 _ t)
      have sz: "fsize t i + length ?b = fsize s i + length p" using added_size [OF A] l by linarith
      have fb: "unat (freeblock t) + need (fsize s i) = unat (freeblock s) + need (fsize t i)"
        using A added_size [OF A] unfolding added_def by simp
      have "wp (copy_file i ?b) (\<lambda>_ u. added t u i ?b) t"
      proof (rule 1(1) [OF False])
        show "sound t" "tight t i" using A unfolding added_def by blast+
        show "unat i < 200" by (rule 1)
        show "fsize t i + length ?b \<le> 512 * MAXFILE" using sz 1(5) by linarith
        show "unat (freeblock t) + need (fsize t i + length ?b) \<le> 1024 + need (fsize t i)"
          using sz fb 1(6) by simp
      qed
      then show ?case by (rule wp_mono) (use added_trans [OF A] in fastforce)
    qed
    then show ?thesis using False by (subst copy_file.simps) (simp add: wp_nest)
  qed
qed

text \<open>A new inode is an empty file.\<close>

lemma img_ok_clear:
  assumes ok: "img_ok img fb I" and d: "d_addrs d = replicate (Suc NDIRECT) 0"
  shows "img_ok img fb (I(i := d))"
proof -
  have z: "ptr img d k = 0" if "k < 141" for k using d by (auto simp: ptr_def simp del: replicate_Suc)
  have r: "29 \<le> unat (ptr img ((I(i := d)) j) k) \<and> unat (ptr img ((I(i := d)) j) k) < unat fb"
    if "k < 141" "ptr img ((I(i := d)) j) k \<noteq> 0" for j k
    using that z img_ok_range(1,2) [OF ok that(1), of j] by (cases "j = i") auto
  have u: "j = j' \<and> k = l" if "k < 141" "l < 141" "ptr img ((I(i := d)) j) k \<noteq> 0" "ptr img ((I(i := d)) j) k = ptr img ((I(i := d)) j') l"
    for j j' k l
    using that z img_ok_once [OF ok that(1,2), of j j'] by (cases "j = i"; cases "j' = i") auto
  have "length (d_addrs ((I(i := d)) j)) = 13" for j
    using d img_okD(5) [OF ok, of j] by (simp add: NDIRECT_def del: replicate_Suc)
  then show ?thesis using ok r u unfolding img_ok_def by blast
qed

lemma compact_empty: "d_addrs d = replicate (Suc NDIRECT) 0 \<Longrightarrow> compact img d 0" "d_addrs d = replicate (Suc NDIRECT) 0 \<Longrightarrow> q < 512 * MAXFILE \<Longrightarrow> dbyte img d q = 0"
proof -
  assume d: "d_addrs d = replicate (Suc NDIRECT) 0"
  have z: "ptr img d k = 0" if "k < 141" for k using d that by (auto simp: ptr_def simp del: replicate_Suc)
  show "compact img d 0" using z bslot_range d by (simp add: compact_def del: replicate_Suc)
  show "dbyte img d q = 0" if "q < 512 * MAXFILE"
    using z [of "bslot (q div 512)"] bslot_range [of "q div 512"] that by (simp add: dbyte_def MAXFILE_def)
qed

lemma wp_mk_ialloc:
  assumes s: "sound s" and i: "unat (freeinode s) < 200"
  shows "wp (mk_ialloc ty) (\<lambda>i t. i = freeinode s \<and> sound t \<and> tight t i \<and> file_of (fsfd t) i = [] \<and> file_type t i = ty \<and>
    freeblock t = freeblock s \<and> fsfd t ! 1 = fsfd s ! 1 \<and> unat (freeinode t) = Suc (unat (freeinode s)) \<and> others_same s t i) s"
proof -
  let ?i = "freeinode s" and ?I = "ino (fsfd s)"
  let ?d = "\<lparr>d_type = ty, d_major = 0, d_minor = 0, d_nlink = 1, d_size = 0, d_addrs = replicate (Suc NDIRECT) 0\<rparr>"
  let ?s = "s\<lparr>freeinode := ?i + 1\<rparr>"
  note g = soundD(1) [OF s]
  have g': "good_img ?s (?I(?i := ?d))" using g img_ok_clear [of _ _ ?I ?d ?i] by (simp add: good_img_def)
  have "wp (winode ?i ?d) (\<lambda>_ t. sound t \<and> ino (fsfd t) = (ino (fsfd ?s))(?i := ?d) \<and> freeblock t = freeblock ?s \<and> rest ?s t \<and>
    (\<forall>j l. l < 141 \<longrightarrow> ptr (fsfd t) (ino (fsfd t) j) l = ptr (fsfd ?s) ((?I(?i := ?d)) j) l) \<and>
    (\<forall>j q. q < 512 * MAXFILE \<longrightarrow> dbyte (fsfd t) (ino (fsfd t) j) q = dbyte (fsfd ?s) ((?I(?i := ?d)) j) q)) ?s"
    by (rule wp_winode [OF g' i]) (use soundD(2) [OF s] in simp_all)
  then have "wp (winode ?i ?d) (\<lambda>_ t. sound t \<and> tight t ?i \<and> file_of (fsfd t) ?i = [] \<and> file_type t ?i = ty \<and>
    freeblock t = freeblock s \<and> fsfd t ! 1 = fsfd s ! 1 \<and> unat (freeinode t) = Suc (unat (freeinode s)) \<and> others_same s t ?i) ?s"
  proof (rule wp_mono, goal_cases)
    case (1 _ t)
    then have it: "ino (fsfd t) = ?I(?i := ?d)" and fb: "freeblock t = freeblock s" "rest ?s t" "sound t"
      by simp_all
    from 1 have pt: "\<And>j l. l < 141 \<Longrightarrow> ptr (fsfd t) (ino (fsfd t) j) l = ptr (fsfd ?s) ((?I(?i := ?d)) j) l"
      and bt: "\<And>j q. q < 512 * MAXFILE \<Longrightarrow> dbyte (fsfd t) (ino (fsfd t) j) q = dbyte (fsfd ?s) ((?I(?i := ?d)) j) q"
      by blast+
    have ii: "ino (fsfd t) ?i = ?d" using it by simp
    have "tight t ?i" using compact_empty(1) [of ?d "fsfd t"] compact_empty(2) [of ?d _ "fsfd t"] unfolding tight_def ii by simp
    moreover have "file_of (fsfd t) ?i = []" unfolding file_of_def ii by simp
    moreover have "file_type t ?i = ty" unfolding file_type_def ii by simp
    moreover have "unat (freeinode t) = Suc (unat ?i)" using fb(2) i by (simp add: rest_def unat_word_ariths)
    moreover have "others_same s t ?i"
      unfolding others_same_def
    proof (intro allI impI conjI)
      fix j assume j: "j \<noteq> ?i"
      have ij: "ino (fsfd t) j = ?I j" using it j by simp
      show "file_of (fsfd t) j = file_of (fsfd s) j"
        using ij bt [of _ j] j soundD(2) [OF s, of j] by (intro file_of_cong) simp_all
      show "file_type t j = file_type s j" using ij by (simp add: file_type_def)
      show "ptr (fsfd t) (ino (fsfd t) j) l = ptr (fsfd s) (?I j) l" if "l < 141" for l
        using pt [OF that, of j] j by simp
      show "tight t j" if "tight s j"
        using that ij pt [of _ j] j bt [of _ j] compact_cong [of "fsfd t" "?I j" "fsfd s"] by (simp add: tight_def)
    qed
    ultimately show ?case using fb by (simp add: rest_def)
  qed
  then show ?thesis by (simp add: mk_ialloc_def wp_nest del: replicate_Suc)
qed

end
