(* ===== verification/Mktree.thy ===== *)
theory Mktree
  imports Mkfs
begin

text \<open>
  The whole run of \<open>tools/mkfs.c\<close>: the image that it builds contains the tree of the host, inode by inode, and its bitmap
  marks the blocks that are in use.  Inodes are numbered in the order in which \<open>add_dir\<close> meets the entries.
\<close>

section \<open>Trees and images\<close>

text \<open>The entries that are copied, the inodes and the blocks that a tree takes, and the trees that fit.\<close>

definition listed :: "(u8 list \<times> host) list \<Rightarrow> nat" where
  "listed es = length (filter (\<lambda>(name, h). name \<noteq> dot \<and> name \<noteq> dotdot) es)"

fun tree_nodes :: "host \<Rightarrow> nat" and list_nodes :: "(u8 list \<times> host) list \<Rightarrow> nat" where
  "tree_nodes (HFile p) = 1"
| "tree_nodes (HDir es) = Suc (list_nodes es)"
| "tree_nodes HClosed = 1"
| "tree_nodes HDenied = 1"
| "list_nodes [] = 0"
| "list_nodes ((name, h) # es) = (if name = dot \<or> name = dotdot then 0 else tree_nodes h) + list_nodes es"

fun tree_blocks :: "host \<Rightarrow> nat" and list_blocks :: "(u8 list \<times> host) list \<Rightarrow> nat" where
  "tree_blocks (HFile p) = need (length p)"
| "tree_blocks (HDir es) = need (16 * (2 + listed es)) + list_blocks es"
| "tree_blocks HClosed = 1"
| "tree_blocks HDenied = 0"
| "list_blocks [] = 0"
| "list_blocks ((name, h) # es) = (if name = dot \<or> name = dotdot then 0 else tree_blocks h) + list_blocks es"

fun tree_fits :: "host \<Rightarrow> bool" and list_fits :: "(u8 list \<times> host) list \<Rightarrow> bool" where
  "tree_fits (HFile p) \<longleftrightarrow> length p \<le> 512 * MAXFILE"
| "tree_fits (HDir es) \<longleftrightarrow> list_fits es"
| "tree_fits HClosed \<longleftrightarrow> True"
| "tree_fits HDenied \<longleftrightarrow> False"
| "list_fits [] \<longleftrightarrow> True"
| "list_fits ((name, h) # es) \<longleftrightarrow> (name = dot \<or> name = dotdot \<or> tree_fits h) \<and> list_fits es"

text \<open>\<open>copied h img c par\<close>: inode \<open>c\<close> of the image is the copy of \<open>h\<close>, in the directory \<open>par\<close>.\<close>

definition entry :: "u8 list list \<Rightarrow> nat \<Rightarrow> nat \<Rightarrow> dirent" where
  "entry img dir k = get_dirent (chunk (16 * k) 16 (file_of img (of_nat dir))) 0"

definition dent :: "nat \<Rightarrow> u8 list \<Rightarrow> dirent" where
  "dent c name = \<lparr>de_inum = of_nat c, de_name = pad14 name\<rparr>"

definition itype :: "u8 list list \<Rightarrow> nat \<Rightarrow> u16" where
  "itype img c = d_type (ino img (of_nat c))"

text \<open>The file has its blocks, and they are on the disk.\<close>

definition backed :: "u8 list list \<Rightarrow> nat \<Rightarrow> bool" where
  "backed img c \<longleftrightarrow> (\<forall>k < 141. ptr img (ino img (of_nat c)) k \<noteq> 0 \<longrightarrow> unat (ptr img (ino img (of_nat c)) k) < 1024) \<and>
     (\<forall>k < MAXFILE. 512 * k < length (file_of img (of_nat c)) \<longrightarrow> ptr img (ino img (of_nat c)) (bslot k) \<noteq> 0)"

fun copied :: "host \<Rightarrow> u8 list list \<Rightarrow> nat \<Rightarrow> nat \<Rightarrow> bool" and
    copied_list :: "(u8 list \<times> host) list \<Rightarrow> u8 list list \<Rightarrow> nat \<Rightarrow> nat \<Rightarrow> nat \<Rightarrow> bool" where
  "copied (HFile p) img c par \<longleftrightarrow> itype img c = 2 \<and> file_of img (of_nat c) = p \<and> backed img c"
| "copied (HDir es) img c par \<longleftrightarrow> itype img c = 1 \<and>
     entry img c 0 = dent c dot \<and> entry img c 1 = dent par dotdot \<and> copied_list es img c 2 (Suc c) \<and>
     length (file_of img (of_nat c)) = (16 * (2 + listed es) div 512 + 1) * 512 \<and>
     (\<forall>b \<in> set (drop (16 * (2 + listed es)) (file_of img (of_nat c))). b = 0)"
| "copied HClosed img c par \<longleftrightarrow> itype img c = 1 \<and>
     entry img c 0 = dent c dot \<and> entry img c 1 = dent par dotdot \<and> length (file_of img (of_nat c)) = 32"
| "copied HDenied img c par \<longleftrightarrow> False"
| "copied_list [] img dir k c \<longleftrightarrow> True"
| "copied_list ((name, h) # es) img dir k c \<longleftrightarrow>
     (if name = dot \<or> name = dotdot then copied_list es img dir k c
      else entry img dir k = dent c name \<and> copied h img c dir \<and> copied_list es img dir (Suc k) (c + tree_nodes h))"

lemma listed_Cons: "listed ((name, h) # es) = (if name = dot \<or> name = dotdot then listed es else Suc (listed es))"
  by (simp add: listed_def)

lemma listed_Nil [simp]: "listed [] = 0"
  by (simp add: listed_def)

lemma tree_nodes_pos: "0 < tree_nodes h"
  by (cases h) simp_all

lemma listed_le: "listed es \<le> list_nodes es"
proof (induction es)
  case (Cons e es)
  obtain name h where e: "e = (name, h)" by (cases e)
  show ?case using Cons tree_nodes_pos [of h] by (auto simp: e listed_Cons)
qed simp

text \<open>A copy is still there when its files are the same.\<close>

definition same_file :: "u8 list list \<Rightarrow> u8 list list \<Rightarrow> nat \<Rightarrow> bool" where
  "same_file img img' c \<longleftrightarrow> file_of img' (of_nat c) = file_of img (of_nat c) \<and> itype img' c = itype img c \<and>
     (\<forall>l < 141. ptr img' (ino img' (of_nat c)) l = ptr img (ino img (of_nat c)) l)"

lemma take_chunk: "take n d' = take n d \<Longrightarrow> k + m \<le> n \<Longrightarrow> chunk k m d' = chunk k m d"
proof -
  assume a: "take n d' = take n d" "k + m \<le> n"
  have "chunk k m e = take m (drop k (take n e))" for e :: "'a list"
    using a(2) by (simp add: chunk_def drop_take min_def)
  then show ?thesis using a(1) by metis
qed

lemma entry_cong:
  "take n (file_of img' (of_nat dir)) = take n (file_of img (of_nat dir)) \<Longrightarrow> 16 * Suc k \<le> n \<Longrightarrow> entry img' dir k = entry img dir k"
  unfolding entry_def by (subst take_chunk [of n]) auto

lemma copied_cong:
  "(\<And>j. c \<le> j \<Longrightarrow> j < c + tree_nodes h \<Longrightarrow> same_file img img' j) \<Longrightarrow> copied h img c par \<Longrightarrow> copied h img' c par"
  "(\<And>j. c \<le> j \<Longrightarrow> j < c + list_nodes es \<Longrightarrow> same_file img img' j) \<Longrightarrow>
   take (16 * (k + listed es)) (file_of img' (of_nat dir)) = take (16 * (k + listed es)) (file_of img (of_nat dir)) \<Longrightarrow>
   copied_list es img dir k c \<Longrightarrow> copied_list es img' dir k c"
proof (induction h and es arbitrary: c par and dir k c rule: tree_nodes_list_nodes.induct)
  case (2 es)
  have s: "same_file img img' c" using 2(2) by simp
  then have "entry img' c k = entry img c k" for k by (simp add: entry_def same_file_def)
  moreover have "copied_list es img' c 2 (Suc c)"
    by (rule 2(1)) (use 2 s in \<open>auto simp: same_file_def\<close>)
  ultimately show ?case using 2(3) s by (simp add: same_file_def)
next
  case (6 name h es)
  show ?case
  proof (cases "name = dot \<or> name = dotdot")
    case True
    then show ?thesis using 6 by (simp add: listed_Cons)
  next
    case False
    have "entry img' dir k = entry img dir k"
      by (rule entry_cong [OF 6(4)]) (use False in \<open>simp add: listed_Cons\<close>)
    moreover have "copied h img' c dir" by (rule 6(1)) (use 6(3,5) False in auto)
    moreover have "copied_list es img' dir (Suc k) (c + tree_nodes h)"
      by (rule 6(2)) (use 6(3,4,5) False in \<open>auto simp: listed_Cons\<close>)
    ultimately show ?thesis using 6(5) False by auto
  qed
qed (auto simp: same_file_def entry_def backed_def bslot_range)

lemma backed_tight:
  assumes "sound s" "tight s (of_nat c)"
  shows "backed (fsfd s) c"
proof -
  have "unat (ptr (fsfd s) (ino (fsfd s) (of_nat c)) k) < 1024"
    if "k < 141" "ptr (fsfd s) (ino (fsfd s) (of_nat c)) k \<noteq> 0" for k
    using img_ok_range(3) [OF good_imgD(1) [OF soundD(1) [OF assms(1)]] that] .
  then show ?thesis using assms(2) unfolding backed_def length_file_of tight_def compact_def fsize_def by blast
qed

section \<open>The steps of the copy\<close>

definition kept_file :: "mkfs_state \<Rightarrow> mkfs_state \<Rightarrow> nat \<Rightarrow> bool" where
  "kept_file s t j \<longleftrightarrow> same_file (fsfd s) (fsfd t) j \<and> (tight s (of_nat j) \<longrightarrow> tight t (of_nat j))"

lemma kept_file_trans: "kept_file s t j \<Longrightarrow> kept_file t u j \<Longrightarrow> kept_file s u j"
  by (simp add: kept_file_def same_file_def)

lemma of_nat_small: "j < 200 \<Longrightarrow> d < 200 \<Longrightarrow> (of_nat j :: u32) = of_nat d \<longleftrightarrow> j = d" "j < 200 \<Longrightarrow> unat (of_nat j :: u32) = j"
  by (simp_all add: word_unat_eq_iff unat_of_nat)

lemma others_kept: "others_same s t (of_nat d) \<Longrightarrow> d < 200 \<Longrightarrow> j < 200 \<Longrightarrow> j \<noteq> d \<Longrightarrow> kept_file s t j"
  using of_nat_small(1) [of j d] by (simp add: others_same_def kept_file_def same_file_def file_type_def itype_def)

lemma length_dent: "length (bytes_dirent (dent c name)) = 16" "length (de_name (dent c name)) = DIRSIZ"
  by (simp_all add: bytes_dirent_def dent_def pad14_def DIRSIZ_def)

lemma entry_at: "file_of img (of_nat d) = xs @ bytes_dirent (dent c name) @ ys \<Longrightarrow> length xs = 16 * k \<Longrightarrow> entry img d k = dent c name"
  using dirent_at [of "dent c name" 0 "[]" "[]"] length_dent [of c name] by (simp add: entry_def chunk_def)

lemma ucast_of_nat: "(ucast (of_nat c :: u32) :: u16) = of_nat c"
  by (simp add: bit_eq_iff bit_simps)

lemma wp_add_entry:
  assumes "sound s" "d < 200" "tight s (of_nat d)" "fsize s (of_nat d) + 16 \<le> 512 * MAXFILE"
    "unat (freeblock s) + need (fsize s (of_nat d) + 16) \<le> 1024 + need (fsize s (of_nat d))"
  shows "wp (add_entry (of_nat d) (of_nat c) name) (\<lambda>_ t. added s t (of_nat d) (bytes_dirent (dent c name))) s"
  using wp_iappend [OF assms(1) _ assms(3), where p = "bytes_dirent (dent c name)"] assms length_dent(1) [of c name] of_nat_small(2) [OF assms(2)]
  by (simp add: add_entry_def ucast_of_nat flip: dent_def)

lemma need_dots: "need 0 = 0" "need 16 = 1" "need 32 = 1"
  by (simp_all add: need_def)

lemma wp_dots:
  assumes s: "sound s" and c: "c < 200" "tight s (of_nat c)" "file_of (fsfd s) (of_nat c) = []" and room: "unat (freeblock s) < 1024"
  shows "wp (add_entry (of_nat c) (of_nat c) dot) (\<lambda>_. wp (add_entry (of_nat c) (of_nat d) dotdot)
    (\<lambda>_ t. added s t (of_nat c) (bytes_dirent (dent c dot) @ bytes_dirent (dent d dotdot)))) s"
proof -
  have z: "fsize s (of_nat c) = 0" using c(3) length_file_of [of s "of_nat c"] by simp
  have "wp (add_entry (of_nat c) (of_nat c) dot) (\<lambda>_ t. added s t (of_nat c) (bytes_dirent (dent c dot))) s"
    by (rule wp_add_entry [OF s c(1,2)]) (use z room need_dots in \<open>simp_all add: MAXFILE_def\<close>)
  then show ?thesis
  proof (rule wp_mono, goal_cases)
    case (1 _ t)
    have y: "fsize t (of_nat c) = 16" using added_size [OF 1] z length_dent by simp
    have f: "unat (freeblock t) = unat (freeblock s) + 1" using 1 z need_dots length_dent by (simp add: added_def)
    have "wp (add_entry (of_nat c) (of_nat d) dotdot) (\<lambda>_ u. added t u (of_nat c) (bytes_dirent (dent d dotdot))) t"
      by (rule wp_add_entry) (use 1 c y f room need_dots in \<open>simp_all add: added_def MAXFILE_def\<close>)
    then show ?case by (rule wp_mono) (rule added_trans [OF 1])
  qed
qed

lemma wp_fix_size:
  assumes s: "sound s" and c: "c < 200" "tight s (of_nat c)" and n: "fsize s (of_nat c) \<le> 4096"
  shows "wp (fix_size (of_nat c)) (\<lambda>_ t. sound t \<and> rest s t \<and> freeblock t = freeblock s \<and> itype (fsfd t) c = itype (fsfd s) c \<and>
    (\<exists>k. file_of (fsfd t) (of_nat c) = file_of (fsfd s) (of_nat c) @ replicate k 0) \<and>
    length (file_of (fsfd t) (of_nat c)) = (fsize s (of_nat c) div 512 + 1) * 512 \<and>
    (\<forall>j < 200. j \<noteq> c \<longrightarrow> kept_file s t j)) s"
proof -
  let ?i = "of_nat c :: u32" and ?I = "ino (fsfd s)"
  let ?z = "(d_size (?I ?i) div 512 + 1) * 512"
  let ?d = "(?I ?i)\<lparr>d_size := ?z\<rparr>"
  note g = soundD(1) [OF s]
  have i: "unat ?i < 200" using of_nat_small(2) [OF c(1)] c(1) by simp
  have uz: "unat ?z = (fsize s ?i div 512 + 1) * 512"
  proof -
    have "unat (d_size (?I ?i) div 512) = fsize s ?i div 512" by (simp add: unat_div fsize_def)
    moreover have "fsize s ?i div 512 \<le> 8" using n by simp
    ultimately show ?thesis by (simp add: unat_word_ariths)
  qed
  have "(fsize s ?i div 512 + 1) * 512 \<le> 9 * 512" using n by (intro mult_le_mono1) simp
  then have le: "unat ?z \<le> 512 * MAXFILE" unfolding uz MAXFILE_def by simp
  have lt: "fsize s ?i < unat ?z" unfolding uz by (simp add: dividend_less_div_times)
  have "wp (winode ?i ?d) (\<lambda>_ t. sound t \<and> ino (fsfd t) = ?I(?i := ?d) \<and> freeblock t = freeblock s \<and> rest s t \<and>
    (\<forall>j l. l < 141 \<longrightarrow> ptr (fsfd t) (ino (fsfd t) j) l = ptr (fsfd s) (?I j) l) \<and>
    (\<forall>j q. q < 512 * MAXFILE \<longrightarrow> dbyte (fsfd t) (ino (fsfd t) j) q = dbyte (fsfd s) (?I j) q)) s"
    by (rule wp_winode [OF g i]) (use soundD(2) [OF s] le in simp_all)
  then have "wp (winode ?i ?d) (\<lambda>_ t. sound t \<and> rest s t \<and> freeblock t = freeblock s \<and> itype (fsfd t) c = itype (fsfd s) c \<and>
    (\<exists>k. file_of (fsfd t) ?i = file_of (fsfd s) ?i @ replicate k 0) \<and>
    length (file_of (fsfd t) ?i) = (fsize s ?i div 512 + 1) * 512 \<and> (\<forall>j < 200. j \<noteq> c \<longrightarrow> kept_file s t j)) s"
  proof (rule wp_mono, goal_cases)
    case (1 _ t)
    then have it: "ino (fsfd t) = ?I(?i := ?d)" and st: "sound t" "freeblock t = freeblock s" "rest s t"
      and pt: "\<And>j l. l < 141 \<Longrightarrow> ptr (fsfd t) (ino (fsfd t) j) l = ptr (fsfd s) (?I j) l"
      and bt: "\<And>j q. q < 512 * MAXFILE \<Longrightarrow> dbyte (fsfd t) (ino (fsfd t) j) q = dbyte (fsfd s) (?I j) q"
      by blast+
    have ii: "ino (fsfd t) ?i = ?d" using it by simp
    have len: "length (file_of (fsfd t) ?i) = unat ?z" unfolding file_of_def ii by simp
    have "file_of (fsfd t) ?i = file_of (fsfd s) ?i @ replicate (unat ?z - fsize s ?i) 0"
    proof (rule nth_equalityI)
      show "length (file_of (fsfd t) ?i) = length (file_of (fsfd s) ?i @ replicate (unat ?z - fsize s ?i) 0)"
        using lt unfolding len by (simp add: length_file_of)
      fix q assume "q < length (file_of (fsfd t) ?i)"
      then have q: "q < unat ?z" "q < 512 * MAXFILE" using le len by simp_all
      have t: "file_of (fsfd t) ?i ! q = dbyte (fsfd s) (?I ?i) q"
        using bt [OF q(2), of ?i] q unfolding file_of_def ii by simp
      have "dbyte (fsfd s) (?I ?i) q = 0" if "fsize s ?i \<le> q"
        using c(2) q(2) that by (simp add: tight_def fsize_def)
      then show "file_of (fsfd t) ?i ! q = (file_of (fsfd s) ?i @ replicate (unat ?z - fsize s ?i) 0) ! q"
        unfolding t using q lt by (simp add: nth_append length_file_of) (simp add: file_of_def fsize_def)
    qed
    then have "\<exists>k. file_of (fsfd t) ?i = file_of (fsfd s) ?i @ replicate k 0" by blast
    moreover have "kept_file s t j" if j: "j < 200" "j \<noteq> c" for j
    proof -
      have ij: "ino (fsfd t) (of_nat j) = ?I (of_nat j)" using it of_nat_small(1) [OF j(1) c(1)] j by simp
      have "file_of (fsfd t) (of_nat j) = file_of (fsfd s) (of_nat j)"
        using ij bt [of _ "of_nat j"] soundD(2) [OF s, of "of_nat j"] by (intro file_of_cong) simp_all
      moreover have "tight t (of_nat j)" if "tight s (of_nat j)"
        using that ij pt [of _ "of_nat j"] bt [of _ "of_nat j"] compact_cong [of "fsfd t" "?I (of_nat j)" "fsfd s"]
        by (simp add: tight_def)
      ultimately show ?thesis using ij pt [of _ "of_nat j"] by (simp add: kept_file_def same_file_def itype_def)
    qed
    moreover have "itype (fsfd t) c = itype (fsfd s) c" by (simp add: itype_def ii)
    ultimately show ?case using st len uz by simp
  qed
  then show ?thesis by (simp add: fix_size_def wp_nest wp_rinode [OF g i])
qed

section \<open>The copy of a tree\<close>

text \<open>What the three routines have done from \<open>s\<close> to \<open>t\<close>: \<open>add_host\<close>, the loop \<open>add_list\<close>, and \<open>add_dir\<close>.\<close>

definition counters :: "mkfs_state \<Rightarrow> mkfs_state \<Rightarrow> nat \<Rightarrow> bool" where
  "counters s t n \<longleftrightarrow> sound t \<and> unat (freeinode t) = unat (freeinode s) + n \<and> fsfd t ! 1 = fsfd s ! 1"

definition host_added :: "mkfs_state \<Rightarrow> mkfs_state \<Rightarrow> host \<Rightarrow> nat \<Rightarrow> bool" where
  "host_added s t h d \<longleftrightarrow> counters s t (tree_nodes h) \<and> unat (freeblock t) = unat (freeblock s) + tree_blocks h \<and>
     copied h (fsfd t) (unat (freeinode s)) d \<and> (\<forall>j < unat (freeinode s). kept_file s t j)"

definition list_added :: "mkfs_state \<Rightarrow> mkfs_state \<Rightarrow> (u8 list \<times> host) list \<Rightarrow> nat \<Rightarrow> nat \<Rightarrow> bool" where
  "list_added s t es d k \<longleftrightarrow> counters s t (list_nodes es) \<and>
     unat (freeblock t) + need (16 * k) = unat (freeblock s) + need (16 * (k + listed es)) + list_blocks es \<and>
     tight t (of_nat d) \<and> fsize t (of_nat d) = 16 * (k + listed es) \<and> itype (fsfd t) d = itype (fsfd s) d \<and>
     (\<exists>xs. file_of (fsfd t) (of_nat d) = file_of (fsfd s) (of_nat d) @ xs) \<and>
     copied_list es (fsfd t) d k (unat (freeinode s)) \<and> (\<forall>j < unat (freeinode s). j \<noteq> d \<longrightarrow> kept_file s t j)"

definition list_ready :: "mkfs_state \<Rightarrow> (u8 list \<times> host) list \<Rightarrow> nat \<Rightarrow> nat \<Rightarrow> bool" where
  "list_ready s es d k \<longleftrightarrow> sound s \<and> d < unat (freeinode s) \<and> unat (freeinode s) + list_nodes es \<le> 200 \<and> k + list_nodes es \<le> 250 \<and>
     list_fits es \<and> tight s (of_nat d) \<and> fsize s (of_nat d) = 16 * k \<and>
     unat (freeblock s) + need (16 * (k + listed es)) + list_blocks es \<le> 1024 + need (16 * k)"

definition dir_added :: "mkfs_state \<Rightarrow> mkfs_state \<Rightarrow> (u8 list \<times> host) list \<Rightarrow> nat \<Rightarrow> nat \<Rightarrow> bool" where
  "dir_added s t es c par \<longleftrightarrow> counters s t (list_nodes es) \<and>
     unat (freeblock t) = unat (freeblock s) + tree_blocks (HDir es) \<and> copied (HDir es) (fsfd t) c par \<and>
     (\<forall>j < c. kept_file s t j)"

lemma wp_add_dir:
  assumes IH: "\<And>s. list_ready s es c 2 \<Longrightarrow> wp (add_list es (of_nat c)) (\<lambda>r t. r = 0 \<and> list_added s t es c 2) s"
    and s: "sound s" "unat (freeinode s) = Suc c" "Suc c + list_nodes es \<le> 200" "list_fits es"
      "unat (freeblock s) + tree_blocks (HDir es) \<le> 1024"
    and c: "tight s (of_nat c)" "file_of (fsfd s) (of_nat c) = []" "itype (fsfd s) c = 1"
  shows "wp (add_dir (Some es) (of_nat c) (of_nat par)) (\<lambda>r t. r = 0 \<and> dir_added s t es c par) s"
proof -
  let ?i = "of_nat c :: u32" and ?n = "listed es"
  let ?dots = "bytes_dirent (dent c dot) @ bytes_dirent (dent par dotdot)"
  have c200: "c < 200" using s(3) by simp
  have ld: "length ?dots = 32" using length_dent by simp
  have nd: "need 32 \<le> need (16 * (2 + ?n))" by (rule need_mono) simp
  have room: "unat (freeblock s) < 1024" using s(5) nd need_dots by simp
  have z: "fsize s ?i = 0" using c(2) length_file_of [of s ?i] by simp
  have list: "wp (add_list es ?i) (\<lambda>r u. r = 0 \<and> list_added t u es c 2) t"
    and t: "unat (freeblock t) = unat (freeblock s) + 1" "file_of (fsfd t) ?i = ?dots" "unat (freeinode t) = Suc c"
      "fsfd t ! 1 = fsfd s ! 1" "itype (fsfd t) c = 1" "\<And>j. j < c \<Longrightarrow> kept_file s t j" if A: "added s t ?i ?dots" for t
  proof -
    have sz: "fsize t ?i = 32" using added_size [OF A] ld z by simp
    have fb: "unat (freeblock t) = unat (freeblock s) + 1" using A ld z need_dots by (simp add: added_def)
    show "unat (freeblock t) = unat (freeblock s) + 1" by (rule fb)
    show "file_of (fsfd t) ?i = ?dots" "unat (freeinode t) = Suc c" "fsfd t ! 1 = fsfd s ! 1" "itype (fsfd t) c = 1"
      using A c s(2) by (simp_all add: added_def rest_def file_type_def itype_def)
    show "kept_file s t j" if "j < c" for j
      using A others_kept [of s t c j] c200 that by (simp add: added_def)
    have "list_ready t es c 2"
      using A s sz fb need_dots by (simp add: list_ready_def added_def rest_def)
    then show "wp (add_list es ?i) (\<lambda>r u. r = 0 \<and> list_added t u es c 2) t" by (rule IH)
  qed
  have fin: "dir_added s v es c par"
    if A: "added s t ?i ?dots" and L: "list_added t u es c 2" and sv: "sound v" "rest u v" "freeblock v = freeblock u"
      "itype (fsfd v) c = itype (fsfd u) c" and zs: "\<exists>k. file_of (fsfd v) ?i = file_of (fsfd u) ?i @ replicate k 0"
      and lv: "length (file_of (fsfd v) ?i) = (fsize u ?i div 512 + 1) * 512"
      and kv: "\<forall>j < 200. j \<noteq> c \<longrightarrow> kept_file u v j" for t u v
  proof -
    obtain xs where fu: "file_of (fsfd u) ?i = ?dots @ xs" using L t(2) [OF A] unfolding list_added_def by auto
    obtain k where fv: "file_of (fsfd v) ?i = file_of (fsfd u) ?i @ replicate k 0" using zs by blast
    have su: "fsize u ?i = 16 * (2 + ?n)" using L unfolding list_added_def by simp
    have lu: "length (file_of (fsfd u) ?i) = 16 * (2 + ?n)" using su by (simp add: length_file_of)
    have hl: "copied_list es (fsfd v) c 2 (Suc c)"
    proof (rule copied_cong(2) [of "Suc c" es "fsfd u" "fsfd v"])
      show "same_file (fsfd u) (fsfd v) j" if "Suc c \<le> j" "j < Suc c + list_nodes es" for j
        using kv that s(3) by (simp add: kept_file_def)
      show "take (16 * (2 + ?n)) (file_of (fsfd v) ?i) = take (16 * (2 + ?n)) (file_of (fsfd u) ?i)"
        using fv lu by simp
      show "copied_list es (fsfd u) c 2 (Suc c)" using L t(3) [OF A] unfolding list_added_def by simp
    qed
    have e0: "entry (fsfd v) c 0 = dent c dot" by (rule entry_at [where xs = "[]"]) (use fv fu in simp_all)
    have e1: "entry (fsfd v) c 1 = dent par dotdot"
      by (rule entry_at [where xs = "bytes_dirent (dent c dot)"]) (use fv fu length_dent in simp_all)
    have dz: "\<forall>b \<in> set (drop (16 * (2 + ?n)) (file_of (fsfd v) ?i)). b = 0" using fv lu by simp
    have ty: "itype (fsfd v) c = 1" using sv(4) L t(5) [OF A] unfolding list_added_def by simp
    have H: "copied (HDir es) (fsfd v) c par" using hl e0 e1 dz ty lv su by simp
    have k: "kept_file s v j" if "j < c" for j
    proof -
      have "kept_file t u j" using L that t(3) [OF A] unfolding list_added_def by simp
      then show ?thesis using kept_file_trans [OF t(6) [OF A that]] kept_file_trans [of s u j v] kv that c200 by simp
    qed
    have fb: "unat (freeblock v) = unat (freeblock s) + tree_blocks (HDir es)"
      using sv(3) L t(1) [OF A] need_dots unfolding list_added_def by simp
    have "counters s v (list_nodes es)"
      using sv L t(3,4) [OF A] s(2) unfolding counters_def list_added_def rest_def by simp
    then show ?thesis using H k fb unfolding dir_added_def by simp
  qed
  have last: "wp (fix_size ?i) (\<lambda>_ v. dir_added s v es c par) u"
    if A: "added s t ?i ?dots" and L: "list_added t u es c 2" for t u
  proof (rule wp_mono [OF wp_fix_size])
    show "sound u" "tight u ?i" "c < 200" using L c200 unfolding list_added_def counters_def by simp_all
    show "fsize u ?i \<le> 4096" using L s(3) listed_le [of es] unfolding list_added_def by simp
  qed (use fin [OF A L] in blast)
  have mid: "wp (add_list es ?i) (\<lambda>r. if r \<noteq> 0 then (\<lambda>u. r = 0 \<and> dir_added s u es c par)
      else wp (fix_size ?i) (\<lambda>_ v. dir_added s v es c par)) t" if A: "added s t ?i ?dots" for t
    by (rule wp_mono [OF list [OF A]]) (use last [OF A] in simp)
  have "wp (add_entry ?i ?i dot) (\<lambda>_. wp (add_entry ?i (of_nat par) dotdot) (\<lambda>_. wp (add_list es ?i)
      (\<lambda>r. if r \<noteq> 0 then (\<lambda>u. r = 0 \<and> dir_added s u es c par) else wp (fix_size ?i) (\<lambda>_ v. dir_added s v es c par)))) s"
  proof (rule wp_mono [OF wp_dots [OF s(1) c200 c(1,2) room, of par]], rule wp_mono, assumption)
  qed (rule mid)
  then show ?thesis
    by (subst add_dir.simps) (simp add: wp_nest if_distrib [where f = "\<lambda>m. wp m _"] cong: if_cong)
qed

definition host_ready :: "mkfs_state \<Rightarrow> host \<Rightarrow> nat \<Rightarrow> bool" where
  "host_ready s h d \<longleftrightarrow> sound s \<and> d < unat (freeinode s) \<and> unat (freeinode s) + tree_nodes h \<le> 200 \<and> tree_fits h \<and>
     unat (freeblock s) + tree_blocks h \<le> 1024"

lemma add_host_file:
  assumes r: "host_ready s (HFile p) d"
  shows "wp (add_host (HFile p) (of_nat d)) (\<lambda>r t. r = (0, freeinode s) \<and> host_added s t (HFile p) d) s"
proof -
  let ?i = "freeinode s"
  have s: "sound s" "unat ?i < 200" "length p \<le> 512 * MAXFILE" "unat (freeblock s) + need (length p) \<le> 1024"
    using r by (simp_all add: host_ready_def)
  have i: "of_nat (unat ?i) = ?i" by simp
  have step: "wp (copy_file ?i p) (\<lambda>_ u. host_added s u (HFile p) d) t"
    if st: "sound t" "tight t ?i" "file_of (fsfd t) ?i = []" "file_type t ?i = 2" "freeblock t = freeblock s"
      "fsfd t ! 1 = fsfd s ! 1" "unat (freeinode t) = Suc (unat ?i)" "others_same s t ?i" for t
  proof -
    have z: "fsize t ?i = 0" using st(3) length_file_of [of t ?i] by simp
    have "wp (copy_file ?i p) (\<lambda>_ u. added t u ?i p) t"
      by (rule wp_copy_file) (use st s z need_dots in simp_all)
    then show ?thesis
    proof (rule wp_mono, goal_cases)
      case (1 _ u)
      have k: "kept_file s u j" if "j < unat ?i" for j
        using others_kept [of s t "unat ?i" j] others_kept [of t u "unat ?i" j] kept_file_trans [of s t j u] st(8) 1 s(2) that
        by (simp add: added_def)
      have "backed (fsfd u) (unat ?i)" by (rule backed_tight) (use 1 in \<open>simp_all add: added_def\<close>)
      then show ?case using 1 st z k need_dots
        by (simp add: host_added_def counters_def added_def rest_def file_type_def itype_def)
    qed
  qed
  show ?thesis unfolding add_host.simps wp_bnd
    by (rule wp_mono [OF wp_mk_ialloc [OF s(1,2)]]) (use step in \<open>auto simp: wp_nest\<close>)
qed

lemma add_host_dir:
  assumes IH: "\<And>s. list_ready s es (unat i) 2 \<Longrightarrow>
      wp (add_list es (of_nat (unat i))) (\<lambda>r t. r = 0 \<and> list_added s t es (unat i) 2) s"
    and i: "i = freeinode s" and r: "host_ready s (HDir es) d"
  shows "wp (add_host (HDir es) (of_nat d)) (\<lambda>r t. r = (0, i) \<and> host_added s t (HDir es) d) s"
proof -
  have s: "sound s" "unat i + list_nodes es < 200" "list_fits es" "unat (freeblock s) + tree_blocks (HDir es) \<le> 1024"
    using r i by (simp_all add: host_ready_def)
  have step: "wp (add_dir (Some es) i (of_nat d)) (\<lambda>r u. r = 0 \<and> host_added s u (HDir es) d) t"
    if st: "sound t" "tight t i" "file_of (fsfd t) i = []" "file_type t i = 1" "freeblock t = freeblock s"
      "fsfd t ! 1 = fsfd s ! 1" "unat (freeinode t) = Suc (unat i)" "others_same s t i" for t
  proof -
    have "wp (add_dir (Some es) (of_nat (unat i)) (of_nat d)) (\<lambda>r u. r = 0 \<and> dir_added t u es (unat i) d) t"
      by (rule wp_add_dir [OF IH]) (use st s in \<open>simp_all add: file_type_def itype_def\<close>)
    then have "wp (add_dir (Some es) i (of_nat d)) (\<lambda>r u. r = 0 \<and> dir_added t u es (unat i) d) t" by simp
    then show ?thesis
    proof (rule wp_mono, goal_cases)
      case (1 r u)
      have k: "kept_file s u j" if "j < unat i" for j
        using others_kept [of s t "unat i" j] kept_file_trans [of s t j u] st(8) 1 s(2) that
        unfolding dir_added_def by simp
      show ?case using 1 st k i unfolding dir_added_def host_added_def counters_def by simp
    qed
  qed
  have il: "unat (freeinode s) < 200" using s(2) i by simp
  have "wp (mk_ialloc 1) (\<lambda>c. wp (add_dir (Some es) c (of_nat d)) (\<lambda>r u. (r, c) = (0, i) \<and> host_added s u (HDir es) d)) s"
    by (rule wp_mono [OF wp_mk_ialloc [OF s(1) il]]) (use step i in \<open>auto elim: wp_mono\<close>)
  then show ?thesis unfolding add_host.simps by (simp add: wp_nest)
qed

lemma add_host_closed:
  assumes r: "host_ready s HClosed d" and i: "i = freeinode s"
  shows "wp (add_host HClosed (of_nat d)) (\<lambda>r t. r = (0, i) \<and> host_added s t HClosed d) s"
proof -
  let ?c = "unat i" and ?dots = "bytes_dirent (dent (unat i) dot) @ bytes_dirent (dent d dotdot)"
  have s: "sound s" "unat i < 200" "unat (freeblock s) < 1024"
    using r i by (simp_all add: host_ready_def)
  have ld: "length ?dots = 32" using length_dent by simp
  have step: "wp (add_dir None i (of_nat d)) (\<lambda>r u. r = 0 \<and> host_added s u HClosed d) t"
    if st: "sound t" "tight t i" "file_of (fsfd t) i = []" "file_type t i = 1" "freeblock t = freeblock s"
      "fsfd t ! 1 = fsfd s ! 1" "unat (freeinode t) = Suc ?c" "others_same s t i" for t
  proof -
    have z: "fsize t i = 0" using st(3) length_file_of [of t i] by simp
    have "wp (add_entry (of_nat ?c) (of_nat ?c) dot) (\<lambda>_. wp (add_entry (of_nat ?c) (of_nat d) dotdot)
        (\<lambda>_ u. added t u (of_nat ?c) ?dots)) t"
      by (rule wp_dots) (use st s in simp_all)
    then have "wp (add_dir None i (of_nat d)) (\<lambda>r u. r = 0 \<and> added t u i ?dots) t"
      by (subst add_dir.simps) (simp add: wp_nest)
    then show ?thesis
    proof (rule wp_mono, goal_cases)
      case (1 r u)
      have f: "file_of (fsfd u) (of_nat ?c) = ?dots" using 1 st by (simp add: added_def)
      have e: "entry (fsfd u) ?c 0 = dent ?c dot" "entry (fsfd u) ?c 1 = dent d dotdot"
        by (rule entry_at [where xs = "[]"], use f length_dent in simp_all)
          (rule entry_at [where xs = "bytes_dirent (dent ?c dot)" and ys = "[]"], use f length_dent in simp_all)
      have k: "kept_file s u j" if "j < ?c" for j
        using others_kept [of s t ?c j] others_kept [of t u ?c j] kept_file_trans [of s t j u] st(8) 1 s(2) that
        by (simp add: added_def)
      show ?case using 1 st z k e f ld need_dots i
        by (simp add: host_added_def counters_def added_def rest_def file_type_def itype_def)
    qed
  qed
  have il: "unat (freeinode s) < 200" using s(2) i by simp
  have "wp (mk_ialloc 1) (\<lambda>c. wp (add_dir None c (of_nat d)) (\<lambda>r u. (r, c) = (0, i) \<and> host_added s u HClosed d)) s"
    by (rule wp_mono [OF wp_mk_ialloc [OF s(1) il]]) (use step i in \<open>auto elim: wp_mono\<close>)
  then show ?thesis unfolding add_host.simps by (simp add: wp_nest)
qed

text \<open>One entry of a listing, and then the others.\<close>

lemma list_step:
  assumes R: "list_ready s ((name, h) # es) d k" and n: "name \<noteq> dot" "name \<noteq> dotdot"
  shows "host_ready s h d"
    "host_added s t h d \<Longrightarrow> sound t \<and> tight t (of_nat d) \<and> fsize t (of_nat d) = 16 * k \<and>
       unat (freeblock t) + need (16 * Suc k) \<le> 1024 + need (16 * k)"
    "host_added s t h d \<Longrightarrow> added t u (of_nat d) (bytes_dirent (dent (unat (freeinode s)) name)) \<Longrightarrow> list_ready u es d (Suc k)"
proof -
  have d: "d < 200" "d < unat (freeinode s)" "fsize s (of_nat d) = 16 * k" "tight s (of_nat d)"
    using R by (simp_all add: list_ready_def)
  have R': "unat (freeblock s) + need (16 * (k + Suc (listed es))) + (tree_blocks h + list_blocks es) \<le> 1024 + need (16 * k)"
    using R n by (simp add: list_ready_def listed_Cons)
  have m: "need (16 * k) \<le> need (16 * (k + Suc (listed es)))" "need (16 * Suc k) \<le> need (16 * (k + Suc (listed es)))"
    by (rule need_mono, simp)+
  show "host_ready s h d" using R R' m n by (simp add: list_ready_def host_ready_def)
  assume A: "host_added s t h d"
  have fi: "file_of (fsfd t) (of_nat d) = file_of (fsfd s) (of_nat d)" "tight t (of_nat d)"
    using A d by (simp_all add: host_added_def kept_file_def same_file_def)
  have sz: "fsize t (of_nat d) = 16 * k" using fi(1) d(3) by (metis length_file_of)
  have fb: "unat (freeblock t) = unat (freeblock s) + tree_blocks h" using A by (simp add: host_added_def)
  show "sound t \<and> tight t (of_nat d) \<and> fsize t (of_nat d) = 16 * k \<and> unat (freeblock t) + need (16 * Suc k) \<le> 1024 + need (16 * k)"
    using A fi sz fb R' m(2) by (simp add: host_added_def counters_def)
  assume B: "added t u (of_nat d) (bytes_dirent (dent (unat (freeinode s)) name))"
  have su: "fsize u (of_nat d) = 16 * Suc k" using added_size [OF B] sz length_dent by simp
  have "unat (freeblock u) + need (16 * k) = unat (freeblock t) + need (16 * Suc k)"
    using B sz length_dent(1) by (simp add: added_def add.commute)
  then show "list_ready u es d (Suc k)"
    using A B R R' n su fb d tree_nodes_pos [of h] by (simp add: list_ready_def added_def host_added_def counters_def rest_def)
qed

lemma list_done:
  assumes R: "list_ready s ((name, h) # es) d k" and n: "name \<noteq> dot" "name \<noteq> dotdot"
    and A: "host_added s t h d" and B: "added t u (of_nat d) (bytes_dirent (dent (unat (freeinode s)) name))"
    and L: "list_added u v es d (Suc k)"
  shows "list_added s v ((name, h) # es) d k"
proof -
  let ?c = "unat (freeinode s)" and ?e = "bytes_dirent (dent (unat (freeinode s)) name)"
  have d: "d < 200" "d < ?c" "fsize s (of_nat d) = 16 * k" "?c + tree_nodes h + list_nodes es \<le> 200"
    using R n by (simp_all add: list_ready_def)
  have ft: "file_of (fsfd t) (of_nat d) = file_of (fsfd s) (of_nat d)" "itype (fsfd t) d = itype (fsfd s) d"
    using A d by (simp_all add: host_added_def kept_file_def same_file_def)
  have cu: "unat (freeinode u) = ?c + tree_nodes h" "unat (freeinode t) = ?c + tree_nodes h"
    using A B by (simp_all add: host_added_def counters_def added_def rest_def)
  obtain xs where fv: "file_of (fsfd v) (of_nat d) = file_of (fsfd s) (of_nat d) @ ?e @ xs"
    using L B ft unfolding list_added_def added_def by auto
  have en: "entry (fsfd v) d k = dent ?c name"
    by (rule entry_at [OF fv]) (use d(3) in \<open>simp add: length_file_of\<close>)
  have tv: "kept_file t v j" if "j < ?c + tree_nodes h" "j \<noteq> d" for j
  proof -
    have "kept_file t u j" using others_kept [of t u d j] B that d by (simp add: added_def)
    moreover have "kept_file u v j" using L that cu by (simp add: list_added_def)
    ultimately show ?thesis by (rule kept_file_trans)
  qed
  have hv: "copied h (fsfd v) ?c d"
    by (rule copied_cong(1) [of ?c h "fsfd t"]) (use A tv d in \<open>auto simp: host_added_def kept_file_def\<close>)
  have kv: "kept_file s v j" if "j < ?c" "j \<noteq> d" for j
    using A tv [of j] that kept_file_trans [of s t j v] by (simp add: host_added_def)
  have "fsize t (of_nat d) = 16 * k" using ft(1) d(3) by (metis length_file_of)
  then have "unat (freeblock u) + need (16 * k) = unat (freeblock s) + tree_blocks h + need (16 * Suc k)"
    using A B length_dent(1) by (simp add: added_def host_added_def add.commute)
  then have "unat (freeblock v) + need (16 * k) = unat (freeblock s) + need (16 * (k + Suc (listed es))) + (tree_blocks h + list_blocks es)"
    using L by (simp add: list_added_def)
  moreover have "itype (fsfd v) d = itype (fsfd s) d"
    using L B ft(2) by (simp add: list_added_def added_def file_type_def itype_def)
  moreover have "counters s v (tree_nodes h + list_nodes es)"
    using A B L cu by (simp add: host_added_def counters_def list_added_def added_def rest_def)
  moreover have "\<exists>ys. file_of (fsfd v) (of_nat d) = file_of (fsfd s) (of_nat d) @ ys" using fv by blast
  moreover have "tight v (of_nat d)" "fsize v (of_nat d) = 16 * (k + Suc (listed es))" "copied_list es (fsfd v) d (Suc k) (?c + tree_nodes h)"
    using L cu by (simp_all add: list_added_def)
  ultimately show ?thesis using en hv kv n unfolding list_added_def by (simp add: listed_Cons)
qed

lemma wp_add:
  "host_ready s h d \<Longrightarrow> wp (add_host h (of_nat d)) (\<lambda>r t. r = (0, freeinode s) \<and> host_added s t h d) s"
  "list_ready s es d k \<Longrightarrow> wp (add_list es (of_nat d)) (\<lambda>r t. r = 0 \<and> list_added s t es d k) s"
proof (induction h and es arbitrary: s d and s d k rule: tree_nodes_list_nodes.induct)
  case (1 p)
  then show ?case by (rule add_host_file)
next
  case (2 es)
  show ?case by (rule add_host_dir, rule 2(1), assumption, rule refl, rule 2(2))
next
  case 3
  then show ?case by (intro add_host_closed) simp_all
next
  case 4
  then show ?case by (simp add: host_ready_def)
next
  case 5
  then show ?case
    by (auto simp: add_list.simps list_ready_def list_added_def counters_def kept_file_def same_file_def)
next
  case (6 name h es)
  show ?case
  proof (cases "name = dot \<or> name = dotdot")
    case True
    then have "list_ready s es d k" using 6(3) by (auto simp: list_ready_def listed_Cons)
    then have "wp (add_list es (of_nat d)) (\<lambda>r t. r = 0 \<and> list_added s t es d k) s" by (rule 6(2))
    moreover have "list_added s t es d k \<longleftrightarrow> list_added s t ((name, h) # es) d k" for t
      using True by (auto simp: list_added_def listed_Cons)
    ultimately show ?thesis using True by (simp add: add_list.simps)
  next
    case False
    then have n: "name \<noteq> dot" "name \<noteq> dotdot" by simp_all
    note S = list_step [OF 6(3) n]
    have c: "of_nat (unat (freeinode s)) = freeinode s" by simp
    have b: "wp (add_list es (of_nat d)) (\<lambda>r v. r = 0 \<and> list_added s v ((name, h) # es) d k) u"
      if "host_added s t h d" "added t u (of_nat d) (bytes_dirent (dent (unat (freeinode s)) name))" for t u
      by (rule wp_mono [OF 6(2) [OF S(3) [OF that]]]) (use list_done [OF 6(3) n that] in simp)
    have a: "wp (add_entry (of_nat d) (freeinode s) name) (\<lambda>_. wp (add_list es (of_nat d)) (\<lambda>r v. r = 0 \<and> list_added s v ((name, h) # es) d k)) t"
      if A: "host_added s t h d" for t
    proof -
      have "d < 200" "k \<le> 250" using 6(3) by (simp_all add: list_ready_def)
      then have "wp (add_entry (of_nat d) (of_nat (unat (freeinode s))) name)
          (\<lambda>_ u. added t u (of_nat d) (bytes_dirent (dent (unat (freeinode s)) name))) t"
        using S(2) [OF A] by (intro wp_add_entry) (simp_all add: MAXFILE_def add.commute)
      then show ?thesis unfolding c by (rule wp_mono) (rule b [OF A])
    qed
    have "wp (add_host h (of_nat d)) (\<lambda>(r, child). if r \<noteq> 0 then wp (ret r) (\<lambda>r v. r = 0 \<and> list_added s v ((name, h) # es) d k)
        else wp (add_entry (of_nat d) child name) (\<lambda>_. wp (add_list es (of_nat d)) (\<lambda>r v. r = 0 \<and> list_added s v ((name, h) # es) d k))) s"
      by (rule wp_mono [OF 6(1) [OF _ S(1)]]) (use a n in auto)
    then show ?thesis using n
      by (simp add: add_list.simps wp_nest case_prod_unfold if_distrib [where f = "\<lambda>m. wp m _"] cong: if_cong)
  qed
qed

section \<open>The whole image\<close>

text \<open>The empty file system.\<close>

definition empty_sb :: superblock where
  "empty_sb = \<lparr>sb_size = fs_size, sb_nblocks = nblocks, sb_ninodes = ninodes\<rparr>"

definition empty_image :: "u8 list list" where
  "empty_image = (replicate 1024 zeroes)[1 := put_at 0 (bytes_sb empty_sb) zeroes]"

lemma wsect_append:
  "unat x = length (fsfd s) \<Longrightarrow> unat x < room s \<Longrightarrow> wp (wsect x b) Q s = Q () (s\<lparr>fsfd := fsfd s @ [b]\<rparr>)"
  by (simp add: wsect_def)

lemma wp_zero_image:
  assumes "n \<le> 1024" "1024 \<le> room s" "fsfd s = []"
  shows "wp (foreach [0..<n] (\<lambda>i. wsect (of_nat i) zeroes)) (\<lambda>_ t. t = s\<lparr>fsfd := replicate n zeroes\<rparr>) s"
proof (rule wp_foreach [where I = "\<lambda>ys t. t = s\<lparr>fsfd := replicate (length ys) zeroes\<rparr>"])
  show "s = s\<lparr>fsfd := replicate (length ([] :: nat list)) zeroes\<rparr>" using assms(3) by simp
  fix ys x zs t
  assume xs: "[0..<n] = ys @ x # zs" and t: "t = s\<lparr>fsfd := replicate (length ys) zeroes\<rparr>"
  have "[0..<n] ! length ys = x" unfolding xs by simp
  moreover have l: "length ys < n" using arg_cong [OF xs, of length] by simp
  ultimately have x: "x = length ys" "length ys < n" by simp_all
  have u: "unat (of_nat x :: u32) = x" using x assms(1) by (simp add: unat_of_nat)
  show "wp (wsect (of_nat x) zeroes) (\<lambda>_ u. u = s\<lparr>fsfd := replicate (length (ys @ [x])) zeroes\<rparr>) t"
    unfolding t using u x assms by (subst wsect_append) (simp_all add: replicate_append_same)
qed simp

lemma wp_mkfs:
  "1024 \<le> m \<Longrightarrow> wp mkfs (\<lambda>_ t. t = \<lparr>fsfd = empty_image, room = m, freeblock = 29, usedblocks = 29, bitblocks = 1, freeinode = 1\<rparr>)
     (mkfs_init m)"
proof -
  assume m: "1024 \<le> m"
  let ?s = "\<lparr>fsfd = [], room = m, freeblock = 29, usedblocks = 29, bitblocks = 1, freeinode = 1\<rparr> :: mkfs_state"
  have "wp (foreach [0..<1024] (\<lambda>i. wsect (of_nat i) zeroes)) (\<lambda>_ t. t = ?s\<lparr>fsfd := replicate 1024 zeroes\<rparr>) ?s"
    by (rule wp_zero_image) (use m in simp_all)
  then have z: "wp (foreach [0..<1024] (\<lambda>i. wsect (of_nat i) zeroes)) (\<lambda>_. wp (wsect 1 (put_at 0 (bytes_sb empty_sb) zeroes))
      (\<lambda>_ t. t = ?s\<lparr>fsfd := empty_image\<rparr>)) ?s"
    by (rule wp_mono) (use m in \<open>simp add: wp_wsect empty_image_def\<close>)
  show ?thesis
    using z unfolding mkfs_def mkfs_init_def empty_sb_def zeroes_def [symmetric]
    by (simp add: wp_nest nblocks_def fs_size_def ninodes_def IPB_def)
qed

lemma nth_empty_image: "x < 1024 \<Longrightarrow> x \<noteq> 1 \<Longrightarrow> empty_image ! x = zeroes" "length empty_image = 1024"
    "x < 1024 \<Longrightarrow> length (empty_image ! x) = BSIZE" "get_sb (empty_image ! 1) = empty_sb"
proof -
  show "x < 1024 \<Longrightarrow> x \<noteq> 1 \<Longrightarrow> empty_image ! x = zeroes" "length empty_image = 1024"
    by (simp_all add: empty_image_def)
  have l: "length (bytes_sb empty_sb) = 12" by (simp add: bytes_sb_def)
  show "length (empty_image ! x) = BSIZE" if "x < 1024"
    using that l by (cases "x = 1") (simp_all add: empty_image_def zeroes_def BSIZE_def)
  show "get_sb (empty_image ! 1) = empty_sb"
    using sb_roundtrip [of empty_sb] by (simp add: empty_image_def put_at_def)
qed

lemma get_zeroes: "k + 64 \<le> 512 \<Longrightarrow> get_dinode zeroes k = blank"
proof -
  assume k: "k + 64 \<le> 512"
  have z: "zeroes ! j = 0" if "j < 512" for j using that by (simp add: zeroes_def BSIZE_def)
  have "get16 zeroes j = 0" if "j + 2 \<le> 512" for j using that z by (simp add: get16_def)
  moreover have "get32 zeroes (k + 12 + 4 * i) = 0" if "i < Suc NDIRECT" for i
    using that k get32_zeroes [of "k + 12 + 4 * i"] by (simp add: NDIRECT_def)
  then have "map (\<lambda>i. get32 zeroes (k + 12 + 4 * i)) [0..<Suc NDIRECT] = replicate (Suc NDIRECT) 0"
    by (intro nth_equalityI) (simp_all del: upt_Suc replicate_Suc)
  ultimately show ?thesis using k get32_zeroes [of "k + 8"]
    by (simp add: get_dinode_def blank_def del: upt_Suc replicate_Suc)
qed

lemma ino_empty: "ino empty_image i = blank"
proof (cases "unat i < 200")
  case True
  have "islot i + 64 \<le> 512" by (simp add: islot_def IPB_def)
  then show ?thesis using True i2b_range(2) [OF True] nth_empty_image(1) [of "unat (i2b i)"] get_zeroes by (simp add: ino_def)
qed (simp add: ino_def)

lemma sound_empty:
  "1024 \<le> m \<Longrightarrow> sound \<lparr>fsfd = empty_image, room = m, freeblock = 29, usedblocks = 29, bitblocks = 1, freeinode = 1\<rparr>"
proof -
  have z: "ptr empty_image blank k = 0" if "k < 141" for k using that by (auto simp: ptr_def blank_def simp del: replicate_Suc)
  have "length (d_addrs blank) = 13" by (simp add: blank_def NDIRECT_def)
  then have "img_ok empty_image 29 (\<lambda>i. blank)"
    using nth_empty_image z by (simp add: img_ok_def)
  moreover have "ino empty_image = (\<lambda>i. blank)" using ino_empty by blast
  ultimately show "1024 \<le> m \<Longrightarrow> ?thesis" by (simp add: sound_def good_img_def blank_def)
qed

text \<open>The bitmap.\<close>

lemma fold_bmap_set:
  "n \<le> 4096 \<Longrightarrow> length d = 512 \<Longrightarrow> length (fold (\<lambda>i buf. bmap_set buf i) [0..<n] d) = 512 \<and>
     (bmap_bit (fold (\<lambda>i buf. bmap_set buf i) [0..<n] d) b \<longleftrightarrow> bmap_bit d b \<or> b < n)"
proof (induction n)
  case (Suc n)
  then show ?case by (auto simp: bmap_bit_set less_Suc_eq)
qed simp

lemma bmap_bit_zeroes: "b < 4096 \<Longrightarrow> \<not> bmap_bit zeroes b"
proof -
  assume "b < 4096"
  then have "b div 8 < 512" by simp
  then show ?thesis by (simp add: bmap_bit_def zeroes_def BSIZE_def)
qed

lemma wp_mk_balloc:
  assumes "sound s"
  shows "wp (mk_balloc (usedblocks s)) (\<lambda>_ t. fsfd t = (fsfd s)[28 := fsfd t ! 28] \<and> length (fsfd t ! 28) = 512 \<and> (\<forall>b < 4096. bmap_bit (fsfd t ! 28) b \<longleftrightarrow> b < unat (freeblock s))) s"
proof -
  note g = soundD(1) [OF assms]
  have u: "usedblocks s = freeblock s" "unat (freeblock s) \<le> 1024" using good_imgD(4) [OF g] img_okD(4) [OF good_imgD(1) [OF g]] by simp_all
  have si: "sint (freeblock s) = int (unat (freeblock s))"
  proof -
    have e: "uint (freeblock s) = int (unat (freeblock s))" by simp
    have "signed_take_bit 31 (int n) = int n" if "n \<le> 1024" for n
      by (rule signed_take_bit_int_eq_self) (use that in simp_all)
    from this [OF u(2)] show ?thesis unfolding sint_uint e by simp
  qed
  have w: "unat (ninodes div of_nat IPB + 3) = 28" by (simp add: ninodes_def IPB_def)
  have lt: "sint (freeblock s) < 512 * 8" unfolding si using u(2) by linarith
  have n: "nat (sint (freeblock s)) = unat (freeblock s)" unfolding si by simp
  have b: "wp (wsect (ninodes div of_nat IPB + 3) d) Q s = Q () (s\<lparr>fsfd := (fsfd s)[28 := d]\<rparr>)" for d Q
    using w good_imgD(2,3) [OF g] by (subst wp_wsect) simp_all
  show ?thesis using u lt n good_imgD(2) [OF g] bmap_bit_zeroes
      fold_bmap_set [of "unat (freeblock s)" zeroes]
    by (simp add: mk_balloc_def b zeroes_def BSIZE_def del: of_nat_numeral)
qed

text \<open>Sector 28 belongs to no file, so that the files are the same when it is written.\<close>

lemma bitmap_apart:
  assumes "sound s" "j < 200"
  shows "same_file (fsfd s) ((fsfd s)[28 := b]) j"
proof -
  note g = soundD(1) [OF assms(1)]
  note ok = good_imgD(1) [OF g]
  let ?i = "of_nat j :: u32"
  have i: "unat ?i < 200" using assms(2) of_nat_small(2) [of j] by simp
  have ij: "ino ((fsfd s)[28 := b]) ?i = ino (fsfd s) ?i" using i2b_range(2) [OF i] by (simp add: ino_def)
  have a: "ptr (fsfd s) (ino (fsfd s) ?i) l \<noteq> 0 \<Longrightarrow> 29 \<le> unat (ptr (fsfd s) (ino (fsfd s) ?i) l)" if "l < 141" for l
    using img_ok_range(1) [OF ok that] .
  have p: "ptr ((fsfd s)[28 := b]) (ino (fsfd s) ?i) l = ptr (fsfd s) (ino (fsfd s) ?i) l" for l
    using a [of NDIRECT] by (intro ptr_above) (auto simp: ptr_direct NDIRECT_def)
  have "dbyte ((fsfd s)[28 := b]) (ino (fsfd s) ?i) q = dbyte (fsfd s) (ino (fsfd s) ?i) q" if "q < 512 * MAXFILE" for q
    using a [of "bslot (q div 512)"] bslot_range [of "q div 512"] that unfolding dbyte_def p by (auto simp: MAXFILE_def)
  then show ?thesis using ij p soundD(2) [OF assms(1), of ?i] file_of_cong [of "(fsfd s)[28 := b]" ?i "fsfd s"]
    by (simp add: same_file_def itype_def)
qed

text \<open>The run of \<open>main\<close>.\<close>

lemma mkfs_image:
  assumes "list_fits es" "1 + list_nodes es < 200" "29 + tree_blocks (HDir es) \<le> 1024" "1024 \<le> m"
  shows "\<exists>t. mkfs_main (Some es) (mkfs_init m) = Done () t \<and> length (fsfd t) = 1024 \<and> (\<forall>x < 1024. length (fsfd t ! x) = BSIZE) \<and>
    get_sb (fsfd t ! 1) = empty_sb \<and> copied (HDir es) (fsfd t) 1 1 \<and>
    (\<forall>b < 1024. bmap_bit (fsfd t ! 28) b \<longleftrightarrow> b < 29 + tree_blocks (HDir es))"
proof -
  let ?s = "\<lparr>fsfd = empty_image, room = m, freeblock = 29, usedblocks = 29, bitblocks = 1, freeinode = 1\<rparr> :: mkfs_state"
  let ?R = "\<lambda>_ t. length (fsfd t) = 1024 \<and> (\<forall>x < 1024. length (fsfd t ! x) = BSIZE) \<and> get_sb (fsfd t ! 1) = empty_sb \<and> copied (HDir es) (fsfd t) 1 1 \<and>
    (\<forall>b < 1024. bmap_bit (fsfd t ! 28) b \<longleftrightarrow> b < 29 + tree_blocks (HDir es))"
  have fin: "wp (mk_balloc (usedblocks u)) ?R u"
    if u: "dir_added t u es 1 1" "unat (freeinode t) = 2" "unat (freeblock t) = 29" "fsfd t ! 1 = empty_image ! 1" for t u
  proof (rule wp_mono [OF wp_mk_balloc])
    show su: "sound u" using u unfolding dir_added_def counters_def by simp
    fix r v assume v: "fsfd v = (fsfd u)[28 := fsfd v ! 28] \<and> length (fsfd v ! 28) = 512 \<and> (\<forall>b < 4096. bmap_bit (fsfd v ! 28) b \<longleftrightarrow> b < unat (freeblock u))"
    have "copied (HDir es) (fsfd v) 1 1"
    proof (rule copied_cong(1) [of 1 "HDir es" "fsfd u"])
      show "same_file (fsfd u) (fsfd v) j" if "1 \<le> j" "j < 1 + tree_nodes (HDir es)" for j
        using bitmap_apart [OF su, of j "fsfd v ! 28"] v that assms(2) by simp
    qed (use u in \<open>simp add: dir_added_def\<close>)
    moreover have "length (fsfd v) = 1024" using v good_imgD(2) [OF soundD(1) [OF su]] by (metis length_list_update)
    moreover have "length (fsfd v ! x) = BSIZE" if "x < 1024" for x
    proof (cases "x = 28")
      case False
      have "(fsfd u)[28 := fsfd v ! 28] ! x = fsfd u ! x" using False by simp
      then have "fsfd v ! x = fsfd u ! x" using v by argo
      then show ?thesis using img_okD(2) [OF good_imgD(1) [OF soundD(1) [OF su]] that] by simp
    qed (use v in \<open>simp add: BSIZE_def\<close>)
    moreover have "fsfd v ! 1 = empty_image ! 1"
    proof -
      have "(fsfd u)[28 := fsfd v ! 28] ! 1 = fsfd u ! 1" by simp
      then show ?thesis using v u unfolding dir_added_def counters_def by argo
    qed
    moreover have "unat (freeblock u) = 29 + tree_blocks (HDir es)" using u unfolding dir_added_def by simp
    ultimately show "?R r v" using v nth_empty_image(4) by simp
  qed
  have copy: "wp (add_dir (Some es) (of_nat 1) (of_nat 1)) (\<lambda>r u. r = 0 \<and> dir_added t u es 1 1) t"
    if t: "sound t" "tight t 1" "file_of (fsfd t) 1 = []" "file_type t 1 = 1" "unat (freeblock t) = 29" "unat (freeinode t) = 2" for t
    by (rule wp_add_dir [OF wp_add(2)]) (use t assms in \<open>simp_all add: file_type_def itype_def\<close>)
  have root: "wp (mk_ialloc 1) (\<lambda>i. if i \<noteq> ROOTINO then wp (panic ''root_inode == ROOTINO'') ?R
      else wp (add_dir (Some es) i i) (\<lambda>r. if r \<noteq> 0 then wp (panic ''add_dir'') ?R else wp (asks usedblocks) (\<lambda>n. wp (mk_balloc n) ?R))) ?s"
  proof (rule wp_mono [OF wp_mk_ialloc [OF sound_empty [OF assms(4)]]], simp, goal_cases)
    case (1 i t)
    then have i: "i = 1" by simp
    have T: "sound t" "tight t 1" "file_of (fsfd t) 1 = []" "file_type t 1 = 1" "unat (freeblock t) = 29" "unat (freeinode t) = 2"
      "fsfd t ! 1 = empty_image ! 1"
      using 1 unfolding i by simp_all
    have "wp (add_dir (Some es) (of_nat 1) (of_nat 1)) (\<lambda>r. if r \<noteq> 0 then wp (panic ''add_dir'') ?R
        else wp (asks usedblocks) (\<lambda>n. wp (mk_balloc n) ?R)) t"
      by (rule wp_mono [OF copy [OF T(1-6)]]) (use T fin [of t] in simp_all)
    then show ?case using i by (simp add: ROOTINO_def)
  qed
  have "wp (mkfs_main (Some es)) ?R (mkfs_init m)"
    unfolding mkfs_main_def wp_nest wp_thn
  proof (rule wp_mono [OF wp_mkfs [OF assms(4)]], goal_cases)
    case 1
    then show ?case using root by (simp add: wp_nest if_distrib [where f = "\<lambda>m. wp m _"] cong: if_cong)
  qed
  then show ?thesis using wp_DoneD by fastforce
qed

text \<open>C38: when the tree fits, the image builder succeeds.  The image has the superblock of the constants, its inode 1 is a copy of
  the tree with every directory entry, type and byte in its place, and the bitmap marks exactly the blocks in use.
\<close>

theorem mkfs_builds:
  assumes "list_fits es" "1 + list_nodes es < 200" "29 + tree_blocks (HDir es) \<le> 1024" "1024 \<le> m"
  shows "\<exists>t. mkfs_main (Some es) (mkfs_init m) = Done () t \<and> get_sb (fsfd t ! 1) = empty_sb \<and> copied (HDir es) (fsfd t) 1 1 \<and>
    (\<forall>b < 1024. bmap_bit (fsfd t ! 28) b \<longleftrightarrow> b < 29 + tree_blocks (HDir es))"
  using mkfs_image [OF assms] by blast

text \<open>A directory \<open>d\<close> with a file \<open>a\<close> of three bytes, and a second file.\<close>

definition sample_tree :: "(u8 list \<times> host) list" where
  "sample_tree = [([0x64], HDir [([0x61], HFile [1, 2, 3])]), ([0x2E], HDir []), ([0x62], HFile (replicate 600 7))]"

lemma sample_tree_fits: "list_fits sample_tree" "list_nodes sample_tree = 3" "tree_blocks (HDir sample_tree) = 5"
  by (simp_all add: sample_tree_def dot_def dotdot_def listed_def need_def MAXFILE_def)

theorem mkfs_builds_witness:
  "\<exists>t. mkfs_main (Some sample_tree) (mkfs_init 1024) = Done () t \<and> file_of (fsfd t) 3 = [1, 2, 3] \<and>
     file_of (fsfd t) 4 = replicate 600 7 \<and> bmap_bit (fsfd t ! 28) 33 \<and> \<not> bmap_bit (fsfd t ! 28) 34"
proof -
  obtain t where t: "mkfs_main (Some sample_tree) (mkfs_init 1024) = Done () t" "copied (HDir sample_tree) (fsfd t) 1 1"
    "\<forall>b < 1024. bmap_bit (fsfd t ! 28) b \<longleftrightarrow> b < 29 + tree_blocks (HDir sample_tree)"
    using mkfs_builds [of sample_tree 1024] sample_tree_fits by auto
  have "file_of (fsfd t) 3 = [1, 2, 3]" "file_of (fsfd t) 4 = replicate 600 7"
    using t(2) by (simp_all add: sample_tree_def dot_def dotdot_def)
  then show ?thesis using t(1,3) sample_tree_fits(3) by (intro exI [of _ t]) simp
qed

text \<open>
  The numbers of inodes are not compared with \<open>ninodes\<close>: inode 208 is written over the bitmap, and the bitmap, which is written
  last, over the inode.
\<close>

lemma inode_over_bitmap:
  assumes "length (fsfd s) = 1024" "1024 \<le> room s" "freeinode s = 208"
  shows "wp (mk_ialloc ty) (\<lambda>i t. i = 208 \<and> fsfd t ! 28 = put_at 0 (bytes_dinode
      \<lparr>d_type = ty, d_major = 0, d_minor = 0, d_nlink = 1, d_size = 0, d_addrs = replicate 13 0\<rparr>) (fsfd s ! 28)) s"
    "unat (i2b 208) = 28"
proof -
  show i: "unat (i2b 208) = 28" by (simp add: i2b_def IPB_def)
  have z: "islot 208 = 0" by (simp add: islot_def IPB_def)
  show "wp (mk_ialloc ty) (\<lambda>i t. i = 208 \<and> fsfd t ! 28 = put_at 0 (bytes_dinode
      \<lparr>d_type = ty, d_major = 0, d_minor = 0, d_nlink = 1, d_size = 0, d_addrs = replicate 13 0\<rparr>) (fsfd s ! 28)) s"
    using assms i z by (simp add: mk_ialloc_def winode_def wp_rsect wp_wsect NDIRECT_def)
qed

end
