(* ===== verification/Mkread.thy ===== *)
theory Mkread
  imports Mktree Files
begin

text \<open>
  The image builder and the file system of the kernel together: on a disk that holds an image made by \<open>tools/mkfs.c\<close>, the
  kernel's \<open>iget\<close>, \<open>ilock\<close> and \<open>readi\<close> return the bytes that the file had on the host.
\<close>

text \<open>The files of a tree with the numbers of their inodes.\<close>

fun tree_files :: "host \<Rightarrow> nat \<Rightarrow> (nat \<times> u8 list) list" and list_files :: "(u8 list \<times> host) list \<Rightarrow> nat \<Rightarrow> (nat \<times> u8 list) list" where
  "tree_files (HFile p) c = [(c, p)]"
| "tree_files (HDir es) c = list_files es (Suc c)"
| "tree_files HClosed c = []"
| "tree_files HDenied c = []"
| "list_files [] c = []"
| "list_files ((name, h) # es) c =
     (if name = dot \<or> name = dotdot then list_files es c else tree_files h c @ list_files es (c + tree_nodes h))"

lemma copied_files:
  "copied h img c par \<Longrightarrow> (j, p) \<in> set (tree_files h c) \<Longrightarrow> copied (HFile p) img j 0 \<and> c \<le> j \<and> j < c + tree_nodes h"
  "copied_list es img dir k c \<Longrightarrow> (j, p) \<in> set (list_files es c) \<Longrightarrow> copied (HFile p) img j 0 \<and> c \<le> j \<and> j < c + list_nodes es"
proof (induction h and es arbitrary: c par and dir k c rule: tree_nodes_list_nodes.induct)
  case (6 name h es)
  show ?case
  proof (cases "name = dot \<or> name = dotdot")
    case False
    then have H: "copied h img c dir" "copied_list es img dir (Suc k) (c + tree_nodes h)" using 6(3) by auto
    have "(j, p) \<in> set (tree_files h c) \<or> (j, p) \<in> set (list_files es (c + tree_nodes h))" using 6(4) False by simp
    then show ?thesis using 6(1) [OF _ H(1)] 6(2) [OF H(2)] False by fastforce
  qed (use 6 in auto)
qed (fastforce)+

lemma files_fit:
  "tree_fits h \<Longrightarrow> (j, p) \<in> set (tree_files h c) \<Longrightarrow> length p \<le> 512 * MAXFILE"
  "list_fits es \<Longrightarrow> (j, p) \<in> set (list_files es c) \<Longrightarrow> length p \<le> 512 * MAXFILE"
  by (induction h and es arbitrary: c and c rule: tree_nodes_list_nodes.induct) (auto split: if_splits)

text \<open>The block map of the kernel is that of the image.\<close>

definition disk_holds :: "'z bio_state_scheme \<Rightarrow> u8 list list \<Rightarrow> bool" where
  "disk_holds s img \<longleftrightarrow> (\<forall>n < 1024. blk_at s (1, of_nat n) = img ! n)"

lemma disk_holdsD: "disk_holds s img \<Longrightarrow> unat x < 1024 \<Longrightarrow> blk_at s (1, x) = img ! unat x"
  unfolding disk_holds_def by (drule spec [of _ "unat x"]) simp

lemma addr_of_ptr:
  assumes "disk_holds s img" "i_dev ip = 1" "i_addrs ip = d_addrs d" "NDIRECT \<le> k \<Longrightarrow> d_addrs d ! NDIRECT \<noteq> 0 \<and> unat (d_addrs d ! NDIRECT) < 1024"
  shows "addr_of s ip k = ptr img d (bslot k)"
  using assms disk_holdsD [OF assms(1), of "d_addrs d ! NDIRECT"] by (auto simp: addr_of_def ptr_def bslot_def NDIRECT_def)

lemma on_disk_small: "unat x < 1024 \<Longrightarrow> on_disk 1 x"
  by (simp add: on_disk_def word_less_nat_alt)

lemma image_block:
  assumes s: "disk_holds s img" and ip: "i_dev ip = 1" "i_addrs ip = d_addrs d" "d = ino img (of_nat c)"
    and b: "backed img c" and k: "k < MAXFILE" "512 * k < length (file_of img (of_nat c))"
  shows "mapped s ip k" "addr_of s ip k = ptr img d (bslot k)" "ptr img d (bslot k) \<noteq> 0" "unat (ptr img d (bslot k)) < 1024"
proof -
  have nz: "ptr img d (bslot k) \<noteq> 0" using b k unfolding backed_def ip(3) by blast
  have lt: "ptr img d l \<noteq> 0 \<Longrightarrow> unat (ptr img d l) < 1024" if "l < 141" for l using b that unfolding backed_def ip(3) by blast
  have ind: "d_addrs d ! NDIRECT \<noteq> 0 \<and> unat (d_addrs d ! NDIRECT) < 1024" if "NDIRECT \<le> k"
  proof -
    have "d_addrs d ! NDIRECT \<noteq> 0" using nz that by (auto simp: ptr_def bslot_def)
    then show ?thesis using lt [of NDIRECT] by (simp add: ptr_direct) (simp add: NDIRECT_def)
  qed
  show a: "addr_of s ip k = ptr img d (bslot k)" by (rule addr_of_ptr [OF s ip(1,2) ind])
  show "ptr img d (bslot k) \<noteq> 0" by (rule nz)
  show u: "unat (ptr img d (bslot k)) < 1024" using lt [OF bslot_range [OF k(1)] nz] .
  show "mapped s ip k" using k(1) nz ind on_disk_small u unfolding mapped_def a ip(1,2) by blast
qed

lemma image_byte:
  assumes s: "disk_holds s img" and ip: "i_dev ip = 1" "i_addrs ip = d_addrs d" "d = ino img (of_nat c)"
    and b: "backed img c" and q: "q < length (file_of img (of_nat c))" "q < 512 * MAXFILE"
  shows "fbyte s ip q = file_of img (of_nat c) ! q"
proof -
  have k: "q div 512 < MAXFILE" using q(2) by (simp add: less_mult_imp_div_less mult.commute)
  have l: "512 * (q div 512) < length (file_of img (of_nat c))" using q(1) by (rule le_less_trans [rotated]) simp
  note B = image_block [OF s ip b k l]
  have "fbyte s ip q = img ! unat (ptr img d (bslot (q div 512))) ! (q mod 512)"
    using disk_holdsD [OF s B(4)] B(2) ip(1) by (simp add: fbyte_def fblock_def BSIZE_def)
  also have "\<dots> = dbyte img d q" using B(3) by (simp add: dbyte_def)
  also have "\<dots> = file_of img (of_nat c) ! q" using q(1) by (simp add: file_of_def ip(3))
  finally show ?thesis .
qed

lemma wp_read_image:
  fixes s :: "'z cons_state_scheme"
  assumes h: "copied (HFile p) img c par" "c < 200" "length p \<le> 512 * MAXFILE" and d: "disk_holds s img"
    and s: "cache_ok {} s" "Licache \<notin> held s" "icache_ok (inodes s)" "refs (inodes s) 1 (of_nat c) = 0" "icache_empty (inodes s) \<noteq> None"
    and n: "unat off + unat n < 2 ^ 32"
  shows "wp (bnd (iget 1 (of_nat c)) (\<lambda>i. thn (ilock i) (readi i off n)))
    (\<lambda>r t. r = (if length p < unat off then None else Some (take (unat n) (drop (unat off) p))) \<and> cache_ok {} t \<and> blk_at t = blk_at s) s"
proof -
  let ?i = "of_nat c :: u32"
  let ?d = "ino img ?i"
  have ui: "unat ?i < 200" using of_nat_small(2) [OF h(2)] h(2) by simp
  have ib: "IBLOCK ?i = i2b ?i" by (simp add: IBLOCK_def i2b_def)
  have at: "inode_at s 1 ?i = ?d"
    using disk_holdsD [OF d, of "i2b ?i"] i2b_range(2) [OF ui] ui unfolding inode_at_def ib ino_def by simp
  have ty: "d_type ?d = 2" and f: "file_of img ?i = p" and b: "backed img c"
    using h(1) by (simp_all add: itype_def)
  have sz: "unat (d_size ?d) = length p" using f by (auto simp: file_of_def)
  have "wp (iget 1 ?i) (\<lambda>i. wp (ilock i) (\<lambda>_. wp (readi i off n) (\<lambda>r t. r = (if length p < unat off then None
      else Some (take (unat n) (drop (unat off) p))) \<and> cache_ok {} t \<and> blk_at t = blk_at s))) s"
  proof (rule wp_iget_ilock_reload [OF s])
    show "d_type (inode_at s 1 ?i) \<noteq> 0" unfolding at ty by simp
    show "?i < 0x40000000" using ui by (simp add: word_less_nat_alt)
    fix j and t :: "'z cons_state_scheme"
    let ?ip = "inodes t ! j"
    assume t: "cache_ok {} t" "blk_at t = blk_at s" "dinode_of ?ip = inode_at s 1 ?i" "i_dev ?ip = 1"
    have di: "i_type ?ip = 2" "i_size ?ip = d_size ?d" "i_addrs ?ip = d_addrs ?d"
    proof -
      have e: "?d = dinode_of ?ip" using t(3) at by simp
      show "i_type ?ip = 2" "i_size ?ip = d_size ?d" "i_addrs ?ip = d_addrs ?d"
        using ty unfolding e by (simp_all add: dinode_of_def)
    qed
    have dt: "disk_holds t img" using d t(2) by (simp add: disk_holds_def)
    show "wp (readi j off n) (\<lambda>r t. r = (if length p < unat off then None
      else Some (take (unat n) (drop (unat off) p))) \<and> cache_ok {} t \<and> blk_at t = blk_at s) t"
    proof (rule wp_readi [OF t(1) _ n])
      show "i_type ?ip \<noteq> T_DEV" using di by (simp add: T_DEV_def)
      show "mapped t ?ip k" if k: "k * BSIZE < unat (i_size ?ip)" for k
      proof -
        have l: "512 * k < length p" using k di(2) sz by (simp add: BSIZE_def mult.commute)
        then have "k < MAXFILE" using h(3) by simp
        then show ?thesis using image_block(1) [OF dt t(4) di(3) refl b] l f by simp
      qed
      fix u :: "'z cons_state_scheme"
      assume u: "cache_ok {} u" "blk_at u = blk_at t"
      have "map (fbyte t ?ip) [unat off..<min (unat off + unat n) (length p)] = take (unat n) (drop (unat off) p)"
        if "unat off \<le> length p"
      proof (rule nth_equalityI)
        fix q assume "q < length (map (fbyte t ?ip) [unat off..<min (unat off + unat n) (length p)])"
        then have q: "q < unat n" "unat off + q < length p" by auto
        then show "map (fbyte t ?ip) [unat off..<min (unat off + unat n) (length p)] ! q = take (unat n) (drop (unat off) p) ! q"
          using image_byte [OF dt t(4) di(3) refl b, of "unat off + q"] h(3) f by simp
      qed (use that in auto)
      then show "window (unat (i_size ?ip)) (fbyte t ?ip) (unat off) (unat n) = (if length p < unat off then None
          else Some (take (unat n) (drop (unat off) p))) \<and> cache_ok {} u \<and> blk_at u = blk_at s"
        using u t(2) di(2) sz by (simp add: window_def)
    qed
  qed simp
  then show ?thesis by (simp only: wp_nest)
qed

section \<open>Properties\<close>

text \<open>C39: a file that the image builder copied is read back by the kernel.  When the disk holds the image of a tree, then \<open>iget\<close>
  and \<open>ilock\<close> of the inode of a file and \<open>readi\<close> of any range return those bytes that the file of the host has there.
\<close>

theorem image_read_back:
  fixes s :: "'z cons_state_scheme"
  assumes "list_fits es" "1 + list_nodes es < 200" "29 + tree_blocks (HDir es) \<le> 1024" "1024 \<le> m"
    and "(c, p) \<in> set (list_files es 2)" "mkfs_main (Some es) (mkfs_init m) = Done () img" "disk_holds s (fsfd img)"
    and "cache_ok {} s" "Licache \<notin> held s" "icache_ok (inodes s)" "refs (inodes s) 1 (of_nat c) = 0" "icache_empty (inodes s) \<noteq> None"
    and "unat off + unat n < 2 ^ 32"
  shows "wp (bnd (iget 1 (of_nat c)) (\<lambda>i. thn (ilock i) (readi i off n)))
    (\<lambda>r t. r = (if length p < unat off then None else Some (take (unat n) (drop (unat off) p))) \<and> cache_ok {} t \<and> blk_at t = blk_at s) s"
proof -
  have H: "copied (HDir es) (fsfd img) 1 1" using mkfs_image [OF assms(1-4)] assms(6) by auto
  then have L: "copied_list es (fsfd img) 1 2 2" by (simp add: numeral_2_eq_2)
  have "copied (HFile p) (fsfd img) c 0 \<and> c < 2 + list_nodes es"
    using copied_files(2) [OF L assms(5)] by blast
  moreover have "length p \<le> 512 * MAXFILE" using files_fit(2) [OF assms(1,5)] .
  ultimately show ?thesis using wp_read_image [of p "fsfd img" c 0 s off n] assms by simp
qed

text \<open>A kernel that has just started, on a disk with the image of the sample tree.\<close>

definition image_disk :: "u8 list list \<Rightarrow> cons_state" where
  "image_disk img = root_cons\<lparr>disk := \<lambda>c x. if unat x < 1024 then img ! unat x else replicate BSIZE 0\<rparr>"

lemma image_disk_simps:
  "inodes (image_disk img) = inodes root_open" "held (image_disk img) = {}" "disk_holds (image_disk img) img"
proof -
  show "inodes (image_disk img) = inodes root_open" "held (image_disk img) = {}"
    unfolding image_disk_def by simp_all
  have "blk_at (image_disk img) (1, of_nat n) = img ! n" if "n < 1024" for n
  proof -
    have u: "unat (of_nat n :: u32) = n" using that by (simp add: unat_of_nat)
    then have "(of_nat n :: u32) < 0x10000000" using that by (simp add: word_less_nat_alt)
    then show ?thesis using u that by (simp add: blk_at_def blk_def image_disk_def lba28_small)
  qed
  then show "disk_holds (image_disk img) img" by (simp add: disk_holds_def)
qed

lemma image_disk_ok: "\<forall>x < 1024. length (img ! x) = BSIZE \<Longrightarrow> cache_ok {} (image_disk img)"
proof -
  assume l: "\<forall>x < 1024. length (img ! x) = BSIZE"
  have o: "cache_ok {} root_cons" by (rule root_cons_ok)
  have fl: "b_flags (bufs root_cons ! b) = 0" if "b < NBUF" for b
    using that by (simp add: root_cons_def Let_def fs_state.defs root_open_def bio_state.defs small_fs_def cold_cache_def cold_bufs_def nth_append raw_buf_def)
  show ?thesis
    using o l fl by (simp add: cache_ok_def cache_core_def cache_bufs_def machine_ok_def image_disk_def buf_good_def)
qed

theorem image_read_back_witness:
  "\<exists>img. mkfs_main (Some sample_tree) (mkfs_init 1024) = Done () img \<and>
     wp (bnd (iget 1 3) (\<lambda>i. thn (ilock i) (readi i 1 5))) (\<lambda>r t. r = Some [2, 3]) (image_disk (fsfd img))"
proof -
  obtain img where m: "mkfs_main (Some sample_tree) (mkfs_init 1024) = Done () img" "\<forall>x < 1024. length (fsfd img ! x) = BSIZE"
    using mkfs_image [of sample_tree 1024] sample_tree_fits by auto
  have f: "icache_find 1 3 (inodes root_open) = None" "icache_empty (inodes root_open) \<noteq> None"
    by (simp_all add: icache_find_def icache_empty_def NINODE_def upt_rec root_inode_def free_inode_def)
  have "wp (bnd (iget 1 (of_nat 3)) (\<lambda>i. thn (ilock i) (readi i 1 5))) (\<lambda>r t. r =
      (if length [1, 2, 3 :: u8] < unat (1 :: u32) then None else Some (take (unat (5 :: u32)) (drop (unat (1 :: u32)) [1, 2, 3]))) \<and>
      cache_ok {} t \<and> blk_at t = blk_at (image_disk (fsfd img))) (image_disk (fsfd img))"
    by (rule image_read_back [OF _ _ _ _ _ m(1)])
      (use sample_tree_fits m(2) f in \<open>simp_all add: image_disk_simps(3) image_disk_ok refs_def root_open_icache [simplified]
         image_disk_simps(1,2) [simplified]\<close>, simp_all add: sample_tree_def dot_def dotdot_def)
  then have "wp (bnd (iget 1 3) (\<lambda>i. thn (ilock i) (readi i 1 5))) (\<lambda>r t. r = Some [2, 3]) (image_disk (fsfd img))"
    unfolding of_nat_numeral by (rule wp_mono) simp
  then show ?thesis using m(1) by blast
qed

end
