(* ===== verification/Mp.thy ===== *)
theory Mp
  imports Kstring
begin

text \<open>
  The multiprocessor tables, \<open>kernel/mp.c\<close>: the search for the floating pointer structure in the memory of the BIOS, the check
  of the configuration table, and the walk over its entries, which counts the processors.  The walk is a partial function:
  \<open>None\<close> means that it does not end.  \<open>Overrun\<close> is a store behind the array of the processors.
\<close>

section \<open>State\<close>

definition NCPU :: nat where "NCPU = 8"

record mp_state =
  cpu_ids :: "u8 list"
  bcpu :: nat
  ismp :: bool
  ncpu :: nat
  ioapicid :: u8
  lapic :: u32
  imcr :: "(u16 \<times> u8) list"

datatype mp_out = Booted mp_state | Overrun

definition get16m :: "mem \<Rightarrow> u32 \<Rightarrow> nat" where
  "get16m m a = unat (m a) + 256 * unat (m (a + 1))"

definition bytes_at :: "mem \<Rightarrow> u32 \<Rightarrow> nat \<Rightarrow> u8" where
  "bytes_at m a = (\<lambda>i. m (a + of_nat i))"

definition mp_sig :: "u8 list" where "mp_sig = [0x5F, 0x4D, 0x50, 0x5F]"
definition pcmp_sig :: "u8 list" where "pcmp_sig = [0x50, 0x43, 0x4D, 0x50]"

section \<open>The search\<close>

definition mp_sum :: "mem \<Rightarrow> u32 \<Rightarrow> nat \<Rightarrow> u8" where
  "mp_sum m a len = fold (\<lambda>i s. s + m (a + of_nat i)) [0..<len] 0"

text \<open>The loop of \<open>mpsearch1\<close> takes at most one step for every 16 bytes.\<close>

fun mpsearch1_loop :: "mem \<Rightarrow> nat \<Rightarrow> u32 \<Rightarrow> u32 \<Rightarrow> u32 option" where
  "mpsearch1_loop m 0 e p = None"
| "mpsearch1_loop m (Suc n) e p =
     (if \<not> p < e then None
      else if memcmp (bytes_at m p) (\<lambda>i. mp_sig ! i) 4 = 0 \<and> mp_sum m p 16 = 0 then Some p
      else mpsearch1_loop m n e (p + 16))"

definition mpsearch1 :: "mem \<Rightarrow> u32 \<Rightarrow> nat \<Rightarrow> u32 option" where
  "mpsearch1 m addr len = mpsearch1_loop m (len div 16) (addr + of_nat len) addr"

definition mpsearch :: "mem \<Rightarrow> u32 option" where
  "mpsearch m =
     (let bda = 0x400; p = of_nat (get16m m (bda + 0x0E)) * 16 in
      case (if p \<noteq> 0 then mpsearch1 m p 1024 else mpsearch1 m (of_nat (get16m m (bda + 0x13)) * 1024 - 1024) 1024) of
        Some mp \<Rightarrow> Some mp
      | None \<Rightarrow> mpsearch1 m 0xF0000 0x10000)"

definition mpconfig :: "mem \<Rightarrow> (u32 \<times> u32) option" where
  "mpconfig m =
     (case mpsearch m of
        None \<Rightarrow> None
      | Some mp \<Rightarrow>
          let conf = load32 m (mp + 4) in
          if conf = 0 then None
          else if memcmp (bytes_at m conf) (\<lambda>i. pcmp_sig ! i) 4 \<noteq> 0 then None
          else if m (conf + 6) \<noteq> 1 \<and> m (conf + 6) \<noteq> 4 then None
          else if mp_sum m conf (get16m m (conf + 4)) \<noteq> 0 then None
          else Some (mp, conf))"

section \<open>The walk over the table\<close>

partial_function (option) mp_loop :: "mem \<Rightarrow> u32 \<Rightarrow> u32 \<Rightarrow> mp_state \<Rightarrow> mp_out option" where
  "mp_loop m p e s =
     (if \<not> p < e then Some (Booted s)
      else if m p = 0 then
        (let s = (if of_nat (ncpu s) \<noteq> (ucast (m (p + 1)) :: u32) then s\<lparr>ismp := False\<rparr> else s);
             s = (if m (p + 3) AND 2 \<noteq> 0 then s\<lparr>bcpu := ncpu s\<rparr> else s) in
         if length (cpu_ids s) \<le> ncpu s then Some Overrun
         else mp_loop m (p + 20) e (s\<lparr>cpu_ids := (cpu_ids s)[ncpu s := of_nat (ncpu s)], ncpu := Suc (ncpu s)\<rparr>))
      else if m p = 2 then mp_loop m (p + 8) e (s\<lparr>ioapicid := m (p + 1)\<rparr>)
      else if m p = 1 \<or> m p = 3 \<or> m p = 4 then mp_loop m (p + 8) e s
      else mp_loop m p e (s\<lparr>ismp := False\<rparr>))"

text \<open>\<open>port23\<close> is what the port of the interrupt mode register reads.\<close>

definition mpinit :: "u8 \<Rightarrow> mem \<Rightarrow> mp_state \<Rightarrow> mp_out option" where
  "mpinit port23 m s =
     (let s = s\<lparr>bcpu := 0\<rparr> in
      case mpconfig m of
        None \<Rightarrow> Some (Booted s)
      | Some (mp, conf) \<Rightarrow>
          (case mp_loop m (conf + 44) (conf + of_nat (get16m m (conf + 4))) (s\<lparr>ismp := True, lapic := load32 m (conf + 36)\<rparr>) of
             Some (Booted s) \<Rightarrow>
               Some (Booted (if \<not> ismp s then s\<lparr>ncpu := 1, lapic := 0, ioapicid := 0\<rparr>
                 else if m (mp + 12) \<noteq> 0 then s\<lparr>imcr := imcr s @ [(0x22, 0x70), (0x23, port23 OR 1)]\<rparr>
                 else s))
           | r \<Rightarrow> r))"

definition mpbcpu :: "mp_state \<Rightarrow> nat" where
  "mpbcpu s = bcpu s"

section \<open>Tables\<close>

text \<open>The entries of a table, and where they lie.\<close>

datatype mp_entry = Cpu u8 bool | Ioapic u8 | Other u8 | Unknown u8

fun entry_ok :: "mp_entry \<Rightarrow> bool" where
  "entry_ok (Other t) \<longleftrightarrow> t = 1 \<or> t = 3 \<or> t = 4"
| "entry_ok (Unknown t) \<longleftrightarrow> 4 < t"
| "entry_ok _ \<longleftrightarrow> True"

fun entry_size :: "mp_entry \<Rightarrow> nat" where
  "entry_size (Cpu i b) = 20"
| "entry_size _ = 8"

fun entry_at :: "mem \<Rightarrow> u32 \<Rightarrow> mp_entry \<Rightarrow> bool" where
  "entry_at m p (Cpu i b) \<longleftrightarrow> m p = 0 \<and> m (p + 1) = i \<and> (m (p + 3) AND 2 \<noteq> 0) = b"
| "entry_at m p (Ioapic i) \<longleftrightarrow> m p = 2 \<and> m (p + 1) = i"
| "entry_at m p (Other t) \<longleftrightarrow> m p = t"
| "entry_at m p (Unknown t) \<longleftrightarrow> m p = t"

fun table_at :: "mem \<Rightarrow> u32 \<Rightarrow> u32 \<Rightarrow> mp_entry list \<Rightarrow> bool" where
  "table_at m p e [] \<longleftrightarrow> p = e"
| "table_at m p e (x # xs) \<longleftrightarrow> entry_ok x \<and> entry_at m p x \<and> unat p + entry_size x \<le> unat e \<and> table_at m (p + of_nat (entry_size x)) e xs"

text \<open>What a table says: the processors, the one that boots, the last I/O controller.\<close>

fun table_cpus :: "mp_entry list \<Rightarrow> (u8 \<times> bool) list" where
  "table_cpus [] = []"
| "table_cpus (Cpu i b # xs) = (i, b) # table_cpus xs"
| "table_cpus (x # xs) = table_cpus xs"

fun table_ioapic :: "mp_entry list \<Rightarrow> u8 \<Rightarrow> u8" where
  "table_ioapic [] d = d"
| "table_ioapic (Ioapic i # xs) d = table_ioapic xs i"
| "table_ioapic (x # xs) d = table_ioapic xs d"

fun last_boot :: "(u8 \<times> bool) list \<Rightarrow> nat \<Rightarrow> nat \<Rightarrow> nat" where
  "last_boot [] n d = d"
| "last_boot ((i, b) # xs) n d = last_boot xs (Suc n) (if b then n else d)"

definition known :: "mp_entry list \<Rightarrow> bool" where
  "known xs \<longleftrightarrow> (\<forall>x \<in> set xs. case x of Unknown t \<Rightarrow> False | _ \<Rightarrow> True)"

lemma table_step:
  assumes "table_at m p e (x # xs)"
  shows "p < e" "entry_at m p x" "entry_ok x" "table_at m (p + of_nat (entry_size x)) e xs"
proof -
  have "0 < entry_size x" by (cases x) simp_all
  then show "p < e" using assms by (auto simp: word_less_nat_alt)
qed (use assms in simp_all)

text \<open>An entry of an unknown type is never left.\<close>

lemma mp_loop_unknown:
  assumes "p < e" "4 < m p"
  shows "mp_loop m p e s = None"
proof -
  have t: "m p \<noteq> 0" "m p \<noteq> 1" "m p \<noteq> 2" "m p \<noteq> 3" "m p \<noteq> 4" using assms(2) by auto
  have "\<not> (m' = m \<and> p' = p \<and> e' = e)" if "mp_loop m' p' e' s' = Some r" for m' p' e' s' r
  proof (rule mp_loop.raw_induct [where P = "\<lambda>m' p' e' s' r. \<not> (m' = m \<and> p' = p \<and> e' = e)", OF _ that], goal_cases)
    case (1 f m' p' e' s' r')
    show ?case
    proof
      assume eq: "m' = m \<and> p' = p \<and> e' = e"
      then have "f m p e (s'\<lparr>ismp := False\<rparr>) = Some r'" using 1(2) assms(1) t by (simp split: if_splits)
      then show False using 1(1) by blast
    qed
  qed
  then show ?thesis by (metis not_None_eq)
qed

text \<open>The walk over the processors that are numbered in order.\<close>

definition numbered :: "(u8 \<times> bool) list \<Rightarrow> nat \<Rightarrow> bool" where
  "numbered cs n \<longleftrightarrow> (\<forall>k < length cs. fst (cs ! k) = of_nat (n + k))"

definition after_table :: "mp_entry list \<Rightarrow> mp_state \<Rightarrow> mp_state" where
  "after_table xs s = s\<lparr>cpu_ids := map (\<lambda>i. if ncpu s \<le> i \<and> i < ncpu s + length (table_cpus xs) then of_nat i else cpu_ids s ! i) [0..<length (cpu_ids s)],
     bcpu := last_boot (table_cpus xs) (ncpu s) (bcpu s), ncpu := ncpu s + length (table_cpus xs), ioapicid := table_ioapic xs (ioapicid s)\<rparr>"

lemma mp_loop_table:
  assumes "table_at m p e xs" "numbered (table_cpus xs) (ncpu s)" "ncpu s + length (table_cpus xs) \<le> length (cpu_ids s)" "length (cpu_ids s) \<le> 256"
  shows "mp_loop m p e s = (if known xs then Some (Booted (after_table xs s)) else None)"
  using assms
proof (induction xs arbitrary: p s)
  case Nil
  then have "\<not> p < e" by simp
  moreover have "after_table [] s = s"
  proof -
    have "(\<lambda>i. if ncpu s \<le> i \<and> i < ncpu s then of_nat i else cpu_ids s ! i) = (!) (cpu_ids s)"
      by (rule ext) auto
    then show ?thesis by (simp add: after_table_def map_nth)
  qed
  ultimately show ?case by (simp add: mp_loop.simps known_def)
next
  case (Cons x xs)
  note st = table_step [OF Cons.prems(1)]
  show ?case
  proof (cases x)
    case (Cpu i b)
    let ?s = "s\<lparr>bcpu := (if b then ncpu s else bcpu s), cpu_ids := (cpu_ids s)[ncpu s := of_nat (ncpu s)], ncpu := Suc (ncpu s)\<rparr>"
    have n: "ncpu s < length (cpu_ids s)" using Cons.prems(3) Cpu by simp
    have i: "(ucast i :: u32) = of_nat (ncpu s)"
    proof -
      have "i = of_nat (ncpu s)" using Cons.prems(2) Cpu by (auto simp: numbered_def)
      moreover have "ncpu s < 256" using n Cons.prems(4) by simp
      ultimately show ?thesis by (simp add: unsigned_of_nat take_bit_nat_eq_self)
    qed
    have "mp_loop m p e s = mp_loop m (p + 20) e ?s"
      using st Cpu i n by (subst mp_loop.simps) (auto simp: Let_def)
    also have "\<dots> = (if known xs then Some (Booted (after_table xs ?s)) else None)"
    proof (rule Cons.IH)
      show "table_at m (p + 20) e xs" using st(4) Cpu by simp
      show "numbered (table_cpus xs) (ncpu ?s)" using Cons.prems(2) Cpu by (force simp: numbered_def)
    qed (use Cons.prems Cpu in simp_all)
    also have "after_table xs ?s = after_table (x # xs) s"
      using n Cpu by (auto simp: after_table_def nth_list_update intro!: mp_state.equality nth_equalityI)
    finally show ?thesis using Cpu by (simp add: known_def)
  next
    case (Ioapic i)
    have "mp_loop m p e s = mp_loop m (p + 8) e (s\<lparr>ioapicid := i\<rparr>)"
      using st Ioapic by (subst mp_loop.simps) auto
    also have "\<dots> = (if known xs then Some (Booted (after_table xs (s\<lparr>ioapicid := i\<rparr>))) else None)"
      by (rule Cons.IH) (use st(4) Cons.prems Ioapic in simp_all)
    finally show ?thesis using Ioapic by (simp add: known_def after_table_def)
  next
    case (Other t)
    have "mp_loop m p e s = mp_loop m (p + 8) e s"
      using st Other by (subst mp_loop.simps) auto
    also have "\<dots> = (if known xs then Some (Booted (after_table xs s)) else None)"
      by (rule Cons.IH) (use st(4) Cons.prems Other in simp_all)
    finally show ?thesis using Other by (simp add: known_def after_table_def)
  next
    case (Unknown t)
    then show ?thesis using mp_loop_unknown [of p e m s] st by (simp add: known_def)
  qed
qed

section \<open>Properties\<close>

text \<open>C40: the tables of a machine with processors 0 to \<open>n - 1\<close>, at most \<open>NCPU\<close>, are read as they are meant: \<open>ncpu\<close> is \<open>n\<close>, every
  processor has its number, \<open>bcpu\<close> is the one marked as boot processor, \<open>ioapicid\<close> the last I/O controller, and the address of
  the local controllers is that of the header; but when the table has an entry of a type the code does not know, \<open>mpinit\<close>
  reads this entry for ever.
\<close>

theorem mpinit_reads_table:
  assumes "mpconfig m = Some (mp, conf)" "table_at m (conf + 44) (conf + of_nat (get16m m (conf + 4))) xs"
    and "map fst (table_cpus xs) = map of_nat [0..<n]" "n \<le> NCPU" "length (cpu_ids s) = NCPU" "ncpu s = 0" "ioapicid s = 0"
    and "m (mp + 12) = 0"
  shows "mpinit port23 m s =
    (if known xs then Some (Booted (s\<lparr>cpu_ids := map (\<lambda>i. if i < n then of_nat i else cpu_ids s ! i) [0..<NCPU],
       bcpu := last_boot (table_cpus xs) 0 0, ismp := True, ncpu := n, ioapicid := table_ioapic xs 0, lapic := load32 m (conf + 36)\<rparr>))
     else None)"
proof -
  let ?s = "s\<lparr>bcpu := 0, ismp := True, lapic := load32 m (conf + 36)\<rparr>"
  have l: "length (table_cpus xs) = n" using arg_cong [OF assms(3), of length] by simp
  have num: "numbered (table_cpus xs) 0"
    unfolding numbered_def
  proof (intro allI impI)
    fix k assume "k < length (table_cpus xs)"
    then show "fst (table_cpus xs ! k) = of_nat (0 + k)" using arg_cong [OF assms(3), of "\<lambda>l. l ! k"] l by simp
  qed
  have "mp_loop m (conf + 44) (conf + of_nat (get16m m (conf + 4))) ?s = (if known xs then Some (Booted (after_table xs ?s)) else None)"
    by (rule mp_loop_table [OF assms(2)]) (use num l assms in \<open>simp_all add: NCPU_def\<close>)
  then show ?thesis using assms l
    by (auto simp: mpinit_def Let_def after_table_def intro!: mp_state.equality)
qed

text \<open>A machine with two processors, the second of which boots.\<close>

definition sample_conf :: "u8 list" where
  "sample_conf = [0x50, 0x43, 0x4D, 0x50, 92, 0, 4, 0x66] @ replicate 28 0 @ [0, 0, 0, 0xFE] @ replicate 4 0 @
     (replicate 20 0) @ ([0, 1, 0, 2] @ replicate 16 0) @ ([2, 7] @ replicate 6 0)"

definition sample_mp :: "u8 list" where
  "sample_mp = [0x5F, 0x4D, 0x50, 0x5F, 0, 0x20, 0, 0, 0, 0, 0x85, 0, 0, 0, 0, 0]"

definition sample_mem :: mem where
  "sample_mem a =
     (if a - 0x2000 < 92 then sample_conf ! unat (a - 0x2000)
      else if a - 0x10000 < 16 then sample_mp ! unat (a - 0x10000)
      else if a = 0x40F then 0x10
      else 0)"

definition sample_boot :: mp_state where
  "sample_boot = \<lparr>cpu_ids = replicate 8 0, bcpu = 0, ismp = False, ncpu = 0, ioapicid = 0, lapic = 0, imcr = []\<rparr>"

lemma mp_sum_list: "length xs = n \<Longrightarrow> (\<And>i. i < n \<Longrightarrow> m (a + of_nat i) = xs ! i) \<Longrightarrow> mp_sum m a n = sum_list xs"
proof -
  assume l: "length xs = n" "\<And>i. i < n \<Longrightarrow> m (a + of_nat i) = xs ! i"
  have "fold (\<lambda>i s. s + m (a + of_nat i)) [0..<k] 0 = sum_list (take k xs)" if "k \<le> n" for k
    using that
  proof (induction k)
    case (Suc k)
    then show ?case using l by (simp add: take_Suc_conv_app_nth)
  qed simp
  from this [of n] show ?thesis using l(1) by (simp add: mp_sum_def)
qed

lemma memcmp4: "p 0 = q 0 \<Longrightarrow> p 1 = q 1 \<Longrightarrow> p 2 = q 2 \<Longrightarrow> p 3 = q 3 \<Longrightarrow> memcmp p q 4 = 0"
  by (simp add: numeral_eq_Suc)

lemma sample_config: "mpconfig sample_mem = Some (0x10000, 0x2000)"
proof -
  have p: "get16m sample_mem 0x40E = 4096" "get16m sample_mem 0x2004 = 92" "load32 sample_mem 0x10004 = 0x2000"
    by (simp_all add: get16m_def load32_def sample_mem_def sample_conf_def sample_mp_def join4_def)
  have "mp_sum sample_mem 0x10000 16 = 0"
    by (simp add: mp_sum_def sample_mem_def sample_mp_def upt_rec)
  moreover have "mp_sum sample_mem 0x2000 92 = 0"
  proof -
    have "mp_sum sample_mem 0x2000 92 = sum_list sample_conf"
      by (rule mp_sum_list) (simp_all add: sample_mem_def sample_conf_def unat_of_nat word_less_nat_alt)
    then show ?thesis by (simp add: sample_conf_def sum_list_replicate)
  qed
  moreover have "memcmp (bytes_at sample_mem 0x10000) (\<lambda>i. mp_sig ! i) 4 = 0" "memcmp (bytes_at sample_mem 0x2000) (\<lambda>i. pcmp_sig ! i) 4 = 0"
    by (rule memcmp4; simp add: bytes_at_def sample_mem_def sample_conf_def sample_mp_def mp_sig_def pcmp_sig_def)+
  moreover have "mpsearch1_loop m n e p = Some p"
    if "0 < n" "p < e" "memcmp (bytes_at m p) (\<lambda>i. mp_sig ! i) 4 = 0" "mp_sum m p 16 = 0" for m n e p
    using that by (cases n) simp_all
  ultimately have "mpsearch sample_mem = Some 0x10000" by (simp add: mpsearch_def Let_def p mpsearch1_def)
  then show ?thesis using \<open>memcmp (bytes_at sample_mem 0x2000) (\<lambda>i. pcmp_sig ! i) 4 = 0\<close> \<open>mp_sum sample_mem 0x2000 92 = 0\<close>
    by (simp add: mpconfig_def p Let_def) (simp add: sample_mem_def sample_conf_def sample_mp_def)
qed

lemma sample_table: "table_at sample_mem (0x2000 + 44) (0x2000 + of_nat (get16m sample_mem (0x2000 + 4))) [Cpu 0 False, Cpu 1 True, Ioapic 7]"
  by (simp add: get16m_def sample_mem_def sample_conf_def sample_mp_def nth_append)

theorem mpinit_reads_table_witness:
  "mpinit 0 sample_mem sample_boot = Some (Booted (sample_boot\<lparr>cpu_ids := [0, 1, 0, 0, 0, 0, 0, 0], bcpu := 1, ismp := True,
     ncpu := 2, ioapicid := 7, lapic := 0xFE000000\<rparr>))"
proof -
  have l: "load32 sample_mem (0x2000 + 36) = 0xFE000000" "sample_mem 0x1000C = 0"
    by (simp_all add: load32_def join4_def sample_mem_def sample_conf_def sample_mp_def nth_append)
  have "map fst (table_cpus [Cpu 0 False, Cpu 1 True, Ioapic 7]) = map of_nat [0..<2]" by (simp add: upt_rec)
  then have "mpinit 0 sample_mem sample_boot = (if known [Cpu 0 False, Cpu 1 True, Ioapic 7] then Some (Booted (sample_boot\<lparr>cpu_ids :=
       map (\<lambda>i. if i < 2 then of_nat i else cpu_ids sample_boot ! i) [0..<NCPU], bcpu := last_boot (table_cpus [Cpu 0 False, Cpu 1 True, Ioapic 7]) 0 0,
       ismp := True, ncpu := 2, ioapicid := table_ioapic [Cpu 0 False, Cpu 1 True, Ioapic 7] 0, lapic := load32 sample_mem (0x2000 + 36)\<rparr>)) else None)"
    by (rule mpinit_reads_table [OF sample_config sample_table]) (simp_all add: l NCPU_def sample_boot_def)
  then show ?thesis unfolding l by (simp add: known_def NCPU_def upt_rec sample_boot_def)
qed

end
