(* ===== verification/Intr.thy ===== *)
theory Intr
  imports Prelude
begin

text \<open>
  The set-up of the devices: the interrupt controllers of \<open>kernel/picirq.c\<close>, \<open>kernel/ioapic.c\<close> and \<open>kernel/lapic.c\<close>, the timer
  of \<open>kernel/timer.c\<close>, \<open>uartinit\<close> of \<open>kernel/uart.c\<close> and \<open>ideinit\<close> of \<open>kernel/ide.c\<close>.  The code is modelled by the accesses that it
  makes: the bytes written to ports, the registers of the I/O controller behind its window, the stores to the local controller.
  What a device answers is a parameter.  \<open>pic_write\<close> is the 8259A of the data sheet, as far as the lemmas need it.
\<close>

section \<open>State\<close>

record intr_state =
  irqmask :: u16
  outs :: "(u16 \<times> u8) list"
  io_regs :: "u32 \<Rightarrow> u32"
  lapic_stores :: "(nat \<times> u32) list"
  have_uart :: bool
  have_disk1 :: bool

definition port_out :: "u16 \<Rightarrow> u8 \<Rightarrow> intr_state \<Rightarrow> intr_state" where
  "port_out p v s = s\<lparr>outs := outs s @ [(p, v)]\<rparr>"

definition T_IRQ0 :: nat where "T_IRQ0 = 32"
definition IRQ_SLAVE :: nat where "IRQ_SLAVE = 2"
definition IRQ_TIMER :: nat where "IRQ_TIMER = 0"
definition IRQ_COM1 :: nat where "IRQ_COM1 = 4"
definition IRQ_IDE :: nat where "IRQ_IDE = 14"
definition IRQ_ERROR :: nat where "IRQ_ERROR = 19"
definition IRQ_SPURIOUS :: nat where "IRQ_SPURIOUS = 31"

section \<open>picirq.c\<close>

definition initial_mask :: u16 where
  "initial_mask = 0xFFFF AND NOT (push_bit IRQ_SLAVE 1)"

definition picsetmask :: "u16 \<Rightarrow> intr_state \<Rightarrow> intr_state" where
  "picsetmask msk s = port_out 0xA1 (ucast (drop_bit 8 msk)) (port_out 0x21 (ucast msk) (s\<lparr>irqmask := msk\<rparr>))"

definition picenable :: "nat \<Rightarrow> intr_state \<Rightarrow> intr_state" where
  "picenable irq s = picsetmask (irqmask s AND NOT (push_bit irq 1)) s"

definition picinit_outs :: "(u16 \<times> u8) list" where
  "picinit_outs =
     [(0x21, 0xFF), (0xA1, 0xFF),
      (0x20, 0x11), (0x21, of_nat T_IRQ0), (0x21, push_bit IRQ_SLAVE 1), (0x21, 0x3),
      (0xA0, 0x11), (0xA1, of_nat T_IRQ0 + 8), (0xA1, of_nat IRQ_SLAVE), (0xA1, 0x3),
      (0x20, 0x68), (0x20, 0x0A), (0xA0, 0x68), (0xA0, 0x0A)]"

definition picinit :: "intr_state \<Rightarrow> intr_state" where
  "picinit s =
     (let s = fold (\<lambda>(p, v). port_out p v) picinit_outs s in
      if irqmask s \<noteq> 0xFFFF then picsetmask (irqmask s) s else s)"

section \<open>ioapic.c\<close>

definition INT_DISABLED :: u32 where "INT_DISABLED = 0x10000"
definition REG_ID :: u32 where "REG_ID = 0"
definition REG_VER :: u32 where "REG_VER = 1"
definition REG_TABLE :: u32 where "REG_TABLE = 0x10"

definition ioapicread :: "u32 \<Rightarrow> intr_state \<Rightarrow> u32" where
  "ioapicread reg s = io_regs s reg"

definition ioapicwrite :: "u32 \<Rightarrow> u32 \<Rightarrow> intr_state \<Rightarrow> intr_state" where
  "ioapicwrite reg v s = s\<lparr>io_regs := (io_regs s)(reg := v)\<rparr>"

definition ioapic_disable :: "nat \<Rightarrow> intr_state \<Rightarrow> intr_state" where
  "ioapic_disable i s =
     ioapicwrite (REG_TABLE + 2 * of_nat i + 1) 0 (ioapicwrite (REG_TABLE + 2 * of_nat i) (INT_DISABLED OR of_nat (T_IRQ0 + i)) s)"

text \<open>The comparison of the number of the controller with \<open>ioapicid\<close> only prints a message.\<close>

definition ioapicinit :: "bool \<Rightarrow> intr_state \<Rightarrow> intr_state" where
  "ioapicinit ismp s =
     (if \<not> ismp then s
      else fold ioapic_disable [0..<Suc (unat (drop_bit 16 (ioapicread REG_VER s) AND 0xFF))] s)"

definition ioapicenable :: "bool \<Rightarrow> nat \<Rightarrow> nat \<Rightarrow> intr_state \<Rightarrow> intr_state" where
  "ioapicenable ismp irq cpunum s =
     (if \<not> ismp then s
      else ioapicwrite (REG_TABLE + 2 * of_nat irq + 1) (push_bit 24 (of_nat cpunum))
        (ioapicwrite (REG_TABLE + 2 * of_nat irq) (of_nat (T_IRQ0 + irq)) s))"

section \<open>timer.c\<close>

definition TIMER_FREQ :: nat where "TIMER_FREQ = 1193182"

definition TIMER_DIV :: "nat \<Rightarrow> nat" where
  "TIMER_DIV x = (TIMER_FREQ + x div 2) div x"

definition timerinit :: "intr_state \<Rightarrow> intr_state" where
  "timerinit s = picenable IRQ_TIMER
     (port_out 0x40 (of_nat (TIMER_DIV 100 div 256)) (port_out 0x40 (of_nat (TIMER_DIV 100 mod 256)) (port_out 0x43 (0x00 OR 0x04 OR 0x30) s)))"

section \<open>lapic.c\<close>

definition lapicw :: "nat \<Rightarrow> u32 \<Rightarrow> intr_state \<Rightarrow> intr_state" where
  "lapicw index v s = s\<lparr>lapic_stores := lapic_stores s @ [(index, v)]\<rparr>"

text \<open>\<open>while(lapic[ICRLO] & DELIVS)\<close>: \<open>icr k\<close> is what the read number \<open>k\<close> of the register gives.\<close>

partial_function (option) deliv_wait :: "(nat \<Rightarrow> u32) \<Rightarrow> nat \<Rightarrow> nat option" where
  "deliv_wait icr k = (if icr k AND 0x1000 \<noteq> 0 then deliv_wait icr (Suc k) else Some k)"

definition lapicinit :: "u32 \<Rightarrow> u32 \<Rightarrow> (nat \<Rightarrow> u32) \<Rightarrow> intr_state \<Rightarrow> intr_state option" where
  "lapicinit lapic ver icr s =
     (if lapic = 0 then Some s
      else
        (let s = lapicw 0x3C (0x100 OR of_nat (T_IRQ0 + IRQ_SPURIOUS)) s;
             s = lapicw 0xF8 0x0B s;
             s = lapicw 0xC8 (0x20000 OR of_nat (T_IRQ0 + IRQ_TIMER)) s;
             s = lapicw 0xE0 10000000 s;
             s = lapicw 0xD4 0x10000 s;
             s = lapicw 0xD8 0x10000 s;
             s = (if 4 \<le> drop_bit 16 ver AND 0xFF then lapicw 0xD0 0x10000 s else s);
             s = lapicw 0xDC (of_nat (T_IRQ0 + IRQ_ERROR)) s;
             s = lapicw 0xA0 0 s;
             s = lapicw 0xA0 0 s;
             s = lapicw 0x2C 0 s;
             s = lapicw 0xC4 0 s;
             s = lapicw 0xC0 (0x80000 OR 0x500 OR 0x8000) s
         in case deliv_wait icr 0 of None \<Rightarrow> None | Some _ \<Rightarrow> Some (lapicw 0x20 0 s)))"

definition cpunum :: "u32 \<Rightarrow> u32 \<Rightarrow> u32" where
  "cpunum lapic idreg = (if lapic \<noteq> 0 then drop_bit 24 idreg else 0)"

definition lapic_eoi :: "u32 \<Rightarrow> intr_state \<Rightarrow> intr_state" where
  "lapic_eoi lapic s = (if lapic \<noteq> 0 then lapicw 0x2C 0 s else s)"

text \<open>\<open>lapicstartap\<close>; the warm reset vector is the result besides the state.\<close>

definition lapicstartap :: "u8 \<Rightarrow> u32 \<Rightarrow> intr_state \<Rightarrow> (u16 \<times> u16) \<times> intr_state" where
  "lapicstartap apicid addr s =
     (let s = port_out 0x71 0x0A (port_out 0x70 0xF s);
          dest = push_bit 24 (ucast apicid);
          s = lapicw 0xC0 (0x500 OR 0x8000 OR 0x4000) (lapicw 0xC4 dest s);
          s = lapicw 0xC0 (0x500 OR 0x8000) s;
          s = fold (\<lambda>i s. lapicw 0xC0 (0x600 OR drop_bit 12 addr) (lapicw 0xC4 dest s)) [0..<2 :: nat] s
      in ((0, ucast (drop_bit 4 addr)), s))"

section \<open>uartinit and ideinit\<close>

definition banner :: "u8 list" where
  "banner = [0x78, 0x76, 0x36, 0x2E, 0x2E, 0x2E, 0x0A]"

text \<open>\<open>status\<close> is what the line status register reads; 0xFF means that there is no port.  The characters are sent like any others.\<close>

definition uartinit :: "bool \<Rightarrow> u8 \<Rightarrow> intr_state \<Rightarrow> intr_state" where
  "uartinit ismp status s =
     (let s = fold (\<lambda>(p, v). port_out p v) [(0x3FA, 0), (0x3FB, 0x80), (0x3F8, of_nat (115200 div 9600)), (0x3F9, 0), (0x3FB, 0x03),
                  (0x3FC, 0), (0x3F9, 0x01)] s in
      if status = 0xFF then s
      else
        let s = ioapicenable ismp IRQ_COM1 0 (picenable IRQ_COM1 (s\<lparr>have_uart := True\<rparr>)) in
        fold (port_out 0x3F8) banner s)"

text \<open>\<open>status k\<close> is what read number \<open>k\<close> of the status register gives after drive 1 was selected.\<close>

definition ideinit :: "bool \<Rightarrow> nat \<Rightarrow> (nat \<Rightarrow> u8) \<Rightarrow> intr_state \<Rightarrow> intr_state" where
  "ideinit ismp ncpu status s =
     (let s = ioapicenable ismp IRQ_IDE (ncpu - 1) (picenable IRQ_IDE s);
          s = port_out 0x1F6 (0xE0 OR push_bit 4 1) s;
          s = (if \<exists>k \<in> set [0..<1000]. status k \<noteq> 0 then s\<lparr>have_disk1 := True\<rparr> else s)
      in port_out 0x1F6 (0xE0 OR push_bit 4 0) s)"

section \<open>The 8259A\<close>

text \<open>
  After a command with bit 4 set, the next three bytes at the data port are the vector, the cascade and the mode; later ones are
  the mask.  A controller that has not been initialised takes them as the mask, too.
\<close>

record pic =
  pic_left :: nat
  pic_vector :: u8
  pic_mask :: u8

definition pic_write :: "u16 \<Rightarrow> u16 \<times> u8 \<Rightarrow> pic \<Rightarrow> pic" where
  "pic_write port = (\<lambda>(p, v) c.
     if p = port then (if v AND 0x10 \<noteq> 0 then c\<lparr>pic_left := 3, pic_mask := 0\<rparr> else c)
     else if p = port + 1 then
       (if pic_left c = 3 then c\<lparr>pic_left := 2, pic_vector := v\<rparr>
        else if 0 < pic_left c then c\<lparr>pic_left := pic_left c - 1\<rparr>
        else c\<lparr>pic_mask := v\<rparr>)
     else c)"

definition pic_after :: "u16 \<Rightarrow> (u16 \<times> u8) list \<Rightarrow> pic \<Rightarrow> pic" where
  "pic_after port ws c = fold (pic_write port) ws c"

lemma pic_after_append [simp]: "pic_after port (xs @ ys) c = pic_after port ys (pic_after port xs c)"
  by (simp add: pic_after_def)

text \<open>Line \<open>irq\<close> gets through when its bit is clear in the mask of its controller, and the slave's line in that of the master.\<close>

definition open_line :: "pic \<Rightarrow> pic \<Rightarrow> nat \<Rightarrow> bool" where
  "open_line m sl irq \<longleftrightarrow> (if irq < 8 then \<not> bit (pic_mask m) irq else \<not> bit (pic_mask sl) (irq - 8) \<and> \<not> bit (pic_mask m) 2)"

lemma initial_mask: "initial_mask = 0xFFFB"
  by (simp add: initial_mask_def IRQ_SLAVE_def)

lemma outs_fold: "outs (fold (\<lambda>(p, v). port_out p v) ws s) = outs s @ ws" "irqmask (fold (\<lambda>(p, v). port_out p v) ws s) = irqmask s"
  by (induction ws arbitrary: s) (auto simp: port_out_def)

lemma outs_picsetmask [simp]:
  "outs (picsetmask w s) = outs s @ [(0x21, ucast w), (0xA1, ucast (drop_bit 8 w))]" "irqmask (picsetmask w s) = w"
  by (simp_all add: picsetmask_def port_out_def)

lemma outs_picinit:
  "irqmask s = initial_mask \<Longrightarrow> outs (picinit s) = outs s @ picinit_outs @ [(0x21, 0xFB), (0xA1, 0xFF)] \<and> irqmask (picinit s) = initial_mask"
  by (simp add: picinit_def outs_fold initial_mask outs_picsetmask)

lemma picinit_pics:
  assumes "irqmask s = initial_mask"
  shows "pic_after 0x20 (outs (picinit s)) c = \<lparr>pic_left = 0, pic_vector = 32, pic_mask = 0xFB\<rparr>"
    "pic_after 0xA0 (outs (picinit s)) c = \<lparr>pic_left = 0, pic_vector = 40, pic_mask = 0xFF\<rparr>"
proof -
  have "pic_after 0x20 (picinit_outs @ [(0x21, 0xFB), (0xA1, 0xFF)]) c = \<lparr>pic_left = 0, pic_vector = 32, pic_mask = 0xFB\<rparr>" for c
    by (simp add: pic_after_def picinit_outs_def pic_write_def T_IRQ0_def IRQ_SLAVE_def)
  moreover have "pic_after 0xA0 (picinit_outs @ [(0x21, 0xFB), (0xA1, 0xFF)]) c = \<lparr>pic_left = 0, pic_vector = 40, pic_mask = 0xFF\<rparr>" for c
    by (simp add: pic_after_def picinit_outs_def pic_write_def T_IRQ0_def IRQ_SLAVE_def)
  ultimately show "pic_after 0x20 (outs (picinit s)) c = \<lparr>pic_left = 0, pic_vector = 32, pic_mask = 0xFB\<rparr>"
    "pic_after 0xA0 (outs (picinit s)) c = \<lparr>pic_left = 0, pic_vector = 40, pic_mask = 0xFF\<rparr>"
    using outs_picinit [OF assms] by (simp_all only: pic_after_append)
qed

text \<open>
  The masks follow \<open>irqmask\<close>: after \<open>picinit\<close> and any number of calls of \<open>picenable\<close>, exactly the lines that were enabled, and
  the slave's, get through.
\<close>

lemma picenable_pics:
  assumes "pic_left (pic_after 0x20 (outs s) c) = 0" "pic_left (pic_after 0xA0 (outs s) d) = 0"
  shows "pic_after 0x20 (outs (picenable irq s)) c = (pic_after 0x20 (outs s) c)\<lparr>pic_mask := ucast (irqmask (picenable irq s))\<rparr>"
    "pic_after 0xA0 (outs (picenable irq s)) d = (pic_after 0xA0 (outs s) d)\<lparr>pic_mask := ucast (drop_bit 8 (irqmask (picenable irq s)))\<rparr>"
    "irqmask (picenable irq s) = irqmask s AND NOT (push_bit irq 1)"
  using assms by (simp_all add: picenable_def) (simp_all add: pic_after_def pic_write_def)

lemma pic_enabled:
  assumes "irqmask s = initial_mask" "irq < 16" "set irqs \<subseteq> {..<16}"
  shows "open_line (pic_after 0x20 (outs (fold picenable irqs (picinit s))) c) (pic_after 0xA0 (outs (fold picenable irqs (picinit s))) d) irq
    \<longleftrightarrow> irq \<in> set irqs \<or> irq = 2"
proof -
  let ?s = "\<lambda>irqs. fold picenable irqs (picinit s)"
  have I: "pic_after 0x20 (outs (?s irqs)) c = \<lparr>pic_left = 0, pic_vector = 32, pic_mask = ucast (irqmask (?s irqs))\<rparr> \<and>
    pic_after 0xA0 (outs (?s irqs)) d = \<lparr>pic_left = 0, pic_vector = 40, pic_mask = ucast (drop_bit 8 (irqmask (?s irqs)))\<rparr> \<and>
    (\<forall>k < 16. bit (irqmask (?s irqs)) k \<longleftrightarrow> k \<notin> set irqs \<and> k \<noteq> 2)" for irqs
  proof (induction irqs rule: rev_induct)
    case Nil
    have "bit (0xFFFB :: u16) k \<longleftrightarrow> k \<noteq> 2" if "k < 16" for k
    proof -
      have "k \<in> set [0..<16]" using that by simp
      then show ?thesis by (simp add: upt_rec) (elim disjE; simp)
    qed
    then show ?case using picinit_pics [OF assms(1)] outs_picinit [OF assms(1)] by (simp add: initial_mask)
  next
    case (snoc x xs)
    then show ?case using picenable_pics [of "?s xs" c d x] by (auto simp: bit_simps)
  qed
  show ?thesis using I [of irqs] assms(2) unfolding open_line_def by (auto simp: bit_simps)
qed

text \<open>After \<open>ioapicinit\<close> no line is routed; \<open>ioapicenable\<close> routes one line, to one processor.\<close>

definition routed :: "intr_state \<Rightarrow> nat \<Rightarrow> nat \<Rightarrow> nat \<Rightarrow> bool" where
  "routed s irq vector cpu \<longleftrightarrow> io_regs s (REG_TABLE + 2 * of_nat irq) = of_nat vector \<and>
     io_regs s (REG_TABLE + 2 * of_nat irq + 1) = push_bit 24 (of_nat cpu)"

definition disabled :: "intr_state \<Rightarrow> nat \<Rightarrow> bool" where
  "disabled s irq \<longleftrightarrow> io_regs s (REG_TABLE + 2 * of_nat irq) AND INT_DISABLED \<noteq> 0"

lemma table_regs:
  assumes "i < 256" "j < 256"
  shows "(REG_TABLE + 2 * of_nat i :: u32) = REG_TABLE + 2 * of_nat j \<longleftrightarrow> i = j"
    "(REG_TABLE + 2 * of_nat i + 1 :: u32) = REG_TABLE + 2 * of_nat j + 1 \<longleftrightarrow> i = j"
    "(REG_TABLE + 2 * of_nat i + 1 :: u32) \<noteq> REG_TABLE + 2 * of_nat j"
    "(REG_TABLE + 2 * of_nat i :: u32) \<noteq> REG_TABLE + 2 * of_nat j + 1"
proof -
  have u: "unat (REG_TABLE + 2 * of_nat k :: u32) = 16 + 2 * k" "unat (REG_TABLE + 2 * of_nat k + 1 :: u32) = 17 + 2 * k" if "k < 256" for k
    using that by (simp_all add: REG_TABLE_def unat_word_ariths unat_of_nat)
  show "(REG_TABLE + 2 * of_nat i :: u32) = REG_TABLE + 2 * of_nat j \<longleftrightarrow> i = j"
    "(REG_TABLE + 2 * of_nat i + 1 :: u32) = REG_TABLE + 2 * of_nat j + 1 \<longleftrightarrow> i = j"
    "(REG_TABLE + 2 * of_nat i + 1 :: u32) \<noteq> REG_TABLE + 2 * of_nat j"
    "(REG_TABLE + 2 * of_nat i :: u32) \<noteq> REG_TABLE + 2 * of_nat j + 1"
    using u [OF assms(1)] u [OF assms(2)] unfolding word_unat_eq_iff by presburger+
qed

lemma disabled_value: "i < 256 \<Longrightarrow> (INT_DISABLED OR of_nat (T_IRQ0 + i)) AND INT_DISABLED \<noteq> 0"
proof -
  have "bit ((INT_DISABLED OR of_nat (T_IRQ0 + i)) AND INT_DISABLED) 16"
    by (simp add: INT_DISABLED_def bit_simps)
  then show ?thesis by (metis bit_0_eq bot_apply bot_bool_def)
qed

lemma ioapicinit_disables:
  assumes "irq \<le> unat (drop_bit 16 (io_regs s REG_VER) AND 0xFF)"
  shows "disabled (ioapicinit True s) irq"
proof -
  let ?n = "Suc (unat (drop_bit 16 (io_regs s REG_VER) AND 0xFF))"
  have "unat (drop_bit 16 (io_regs s REG_VER) AND 0xFF) \<le> unat (0xFF :: u32)"
  proof -
    have "drop_bit 16 (io_regs s REG_VER) AND 0xFF \<le> (0xFF :: u32)" by (rule word_and_le1)
    then show ?thesis by (simp only: word_le_nat_alt)
  qed
  then have n: "?n \<le> 256" by simp
  have "k \<le> 256 \<Longrightarrow> irq < k \<Longrightarrow> disabled (fold ioapic_disable [0..<k] s) irq" for k
  proof (induction k)
    case (Suc k)
    show ?case
    proof (cases "irq = k")
      case True
      then show ?thesis using Suc.prems disabled_value [of k] table_regs(3,4) [of k k]
        by (simp add: disabled_def ioapic_disable_def ioapicwrite_def)
    next
      case False
      then show ?thesis using Suc table_regs [of irq k]
        by (simp add: disabled_def ioapic_disable_def ioapicwrite_def)
    qed
  qed simp
  then show ?thesis using n assms by (simp add: ioapicinit_def ioapicread_def del: upt_Suc)
qed

lemma ioapicenable_routes:
  assumes "irq < 256" "j < 256" "j \<noteq> irq"
  shows "routed (ioapicenable True irq cpu s) irq (32 + irq) cpu" "disabled (ioapicenable True irq cpu s) j = disabled s j"
    "routed (ioapicenable True irq cpu s) j v c = routed s j v c"
  using table_regs [OF assms(1,1)] table_regs [OF assms(2,1)] assms
  by (simp_all add: routed_def disabled_def ioapicenable_def ioapicwrite_def T_IRQ0_def)

text \<open>The timer interrupts 100 times a second: the divisor is the nearest one.\<close>

lemma timer_divisor: "TIMER_DIV 100 = 11932" "2 * TIMER_FREQ < 100 * (2 * TIMER_DIV 100 + 1)" "100 * (2 * TIMER_DIV 100 - 1) \<le> 2 * TIMER_FREQ"
  by (simp_all add: TIMER_DIV_def TIMER_FREQ_def)

text \<open>\<open>lapicinit\<close> returns exactly when the register reports the delivery at last.\<close>

lemma deliv_wait_clear: "icr n AND 0x1000 = 0 \<Longrightarrow> k \<le> n \<Longrightarrow> deliv_wait icr k \<noteq> None"
proof (induction "n - k" arbitrary: k)
  case 0
  then show ?case by (subst deliv_wait.simps) simp
next
  case (Suc d)
  then have "deliv_wait icr (Suc k) \<noteq> None" by (intro Suc.hyps(1)) simp_all
  then show ?case by (subst deliv_wait.simps) simp
qed

lemma deliv_wait_found: "deliv_wait icr k = Some n \<Longrightarrow> k \<le> n \<and> icr n AND 0x1000 = 0"
proof (rule deliv_wait.raw_induct [where P = "\<lambda>icr k n. k \<le> n \<and> icr n AND 0x1000 = 0"], goal_cases)
  case (1 f icr k n)
  show ?case
  proof (cases "icr k AND 0x1000 = 0")
    case False
    then have "f icr (Suc k) = Some n" using 1(3) by simp
    then show ?thesis using 1(2) by fastforce
  qed (use 1(3) in simp)
qed simp

lemma lapicinit_returns: "lapic \<noteq> 0 \<Longrightarrow> lapicinit lapic ver icr s \<noteq> None \<longleftrightarrow> (\<exists>n. icr n AND 0x1000 = 0)"
proof -
  assume l: "lapic \<noteq> 0"
  have "lapicinit lapic ver icr s \<noteq> None \<longleftrightarrow> deliv_wait icr 0 \<noteq> None"
    using l by (simp add: lapicinit_def Let_def split: option.splits)
  also have "\<dots> \<longleftrightarrow> (\<exists>n. icr n AND 0x1000 = 0)"
    using deliv_wait_clear [of icr _ 0] deliv_wait_found [of icr 0] by blast
  finally show ?thesis .
qed

text \<open>\<open>ideinit\<close> finds drive 1 exactly when one of the first thousand reads of its status is not 0.\<close>

lemma ideinit_probes: "have_disk1 (ideinit ismp n status s) \<longleftrightarrow> have_disk1 s \<or> (\<exists>k < 1000. status k \<noteq> 0)"
  by (auto simp: ideinit_def Let_def port_out_def ioapicenable_def ioapicwrite_def picenable_def picsetmask_def)

end
