(* ===== verification/Keeps.thy ===== *)
theory Keeps
  imports Syscall
begin

text \<open>
  What a routine leaves alone.  \<open>files\<close> is the part of the state that says which descriptors refer to which open
  files; \<open>files_kept m\<close> says that \<open>m\<close> changes none of it, whether it returns or gives up the CPU, that it does not end
  the process, and that it does not call one of the panics of \<open>kernel/file.c\<close>.  The rules follow the structure of a
  routine, so that each routine below the file table is settled by its definition.
\<close>

section \<open>Outcomes with panics\<close>

text \<open>\<open>file_panics\<close>: a file used after it was freed, or of no type.\<close>

definition file_panics :: "string set" where
  "file_panics = {''filedup'', ''fileclose'', ''fileread'', ''filewrite''}"

text \<open>\<open>okp\<close> is \<open>wlp\<close>, except that it admits every panic but these.\<close>

definition okp :: "('s, 'c, 'a) prog \<Rightarrow> ('a \<Rightarrow> 's \<Rightarrow> bool) \<Rightarrow> ('c \<Rightarrow> 's \<Rightarrow> bool) \<Rightarrow> 's \<Rightarrow> bool" where
  "okp m Q B s = (case m s of Done a t \<Rightarrow> Q a t | Panic e \<Rightarrow> e \<notin> file_panics | Block c t \<Rightarrow> B c t)"

lemma okp_simps [simp]:
  "okp (ret a) Q B s = Q a s" "okp (asks f) R B s = R (f s) s" "okp (upd g) P B s = P () (g s)"
  "okp skip P B s = P () s" "okp (panic e) Q B s = (e \<notin> file_panics)" "okp (block_on c) Q B s = B c s"
  by (simp_all add: okp_def prog_defs)

lemma okp_ret_fun [simp]: "okp (ret a) Q B = Q a"
  by (simp add: fun_eq_iff)

lemma okp_bnd [simp]: "okp (bnd m f) Q B s = okp m (\<lambda>a. okp (f a) Q B) B s"
  by (simp add: okp_def bnd_def split: outcome.splits)

lemma okp_thn [simp]: "okp (thn m n) Q B s = okp m (\<lambda>_. okp n Q B) B s"
  by (simp add: thn_def)

lemma okp_nest: "okp (bnd m f) Q B = okp m (\<lambda>a. okp (f a) Q B) B" "okp (thn m n) Q B = okp m (\<lambda>_. okp n Q B) B"
  by (simp_all add: fun_eq_iff)

lemma okp_whenP [simp]: "okp (whenP b m) Q B s = (if b then okp m Q B s else Q () s)"
  by (simp add: whenP_def)

lemma okp_on_block [simp]: "okp (on_block m h) Q B s = okp m Q (\<lambda>c. okp (h c) Q B) s"
  by (simp add: okp_def on_block_def split: outcome.splits)

lemma okp_if [simp]: "okp (if b then m else n) Q B s = (if b then okp m Q B s else okp n Q B s)"
  by simp

lemma okp_mono:
  assumes "okp m Q B s" "\<And>a t. Q a t \<Longrightarrow> Q' a t" "\<And>c t. B c t \<Longrightarrow> B' c t"
  shows "okp m Q' B' s"
  using assms by (simp add: okp_def split: outcome.splits)

lemma okp_foreach:
  assumes "I s" "\<And>x t. x \<in> set xs \<Longrightarrow> I t \<Longrightarrow> okp (f x) (\<lambda>_. I) B t"
  shows "okp (foreach xs f) (\<lambda>_. I) B s"
  using assms
proof (induction xs arbitrary: s)
  case (Cons x xs)
  have "okp (f x) (\<lambda>_. okp (foreach xs f) (\<lambda>_. I) B) B s"
    by (rule okp_mono [OF Cons.prems(2)]) (use Cons in auto)
  then show ?case by simp
qed simp

section \<open>Keeping the files\<close>

text \<open>For each file its number of references and whether it has a type; for each process its descriptors.\<close>

definition files :: "'z file_state_scheme \<Rightarrow> (int \<times> bool) list \<times> nat option list list \<times> nat option" where
  "files s = (map (\<lambda>x. (f_ref x, f_type x = FD_NONE)) (ftable s), map p_ofile (ptable s), cur s)"

definition files_kept :: "('z file_state_scheme, switch, 'a) prog \<Rightarrow> bool" where
  "files_kept m \<longleftrightarrow> (\<forall>s. okp m (\<lambda>_ t. files t = files s) (\<lambda>w t. files t = files s \<and> w \<noteq> SwExit) s)"

named_theorems files_kept "rules for routines that change no descriptor"

lemma okp_keeps:
  assumes "files_kept m" "\<And>a t. files t = files s \<Longrightarrow> Q a t" "\<And>w t. files t = files s \<Longrightarrow> w \<noteq> SwExit \<Longrightarrow> B w t"
  shows "okp m Q B s"
  using assms(1) by (auto simp: files_kept_def intro: okp_mono assms(2,3))

lemma keeps_bnd [files_kept]:
  fixes m :: "('z file_state_scheme, switch, 'a) prog"
  assumes "files_kept m" "\<And>a. files_kept (f a)"
  shows "files_kept (bnd m f)"
  unfolding files_kept_def
proof
  fix s :: "'z file_state_scheme"
  have "okp (f a) (\<lambda>_ t. files t = files s) (\<lambda>w t. files t = files s \<and> w \<noteq> SwExit) t" if "files t = files s" for a t
    by (rule okp_keeps [OF assms(2)]) (simp_all add: that)
  then have "okp m (\<lambda>a. okp (f a) (\<lambda>_ t. files t = files s) (\<lambda>w t. files t = files s \<and> w \<noteq> SwExit))
      (\<lambda>w t. files t = files s \<and> w \<noteq> SwExit) s"
    by (intro okp_keeps [OF assms(1)]) simp_all
  then show "okp (bnd m f) (\<lambda>_ t. files t = files s) (\<lambda>w t. files t = files s \<and> w \<noteq> SwExit) s" by simp
qed

lemma keeps_thn [files_kept]: "files_kept m \<Longrightarrow> files_kept n \<Longrightarrow> files_kept (thn m n)"
  unfolding thn_def by (rule keeps_bnd)

lemma keeps_ret [files_kept]: "files_kept (ret a)"
  and keeps_asks [files_kept]: "files_kept (asks f)"
  and keeps_skip [files_kept]: "files_kept skip"
  and keeps_block_on [files_kept]: "w \<noteq> SwExit \<Longrightarrow> files_kept (block_on w)"
  by (simp_all add: files_kept_def)

lemma keeps_panic [files_kept]: "e \<notin> file_panics \<Longrightarrow> files_kept (panic e)"
  by (simp add: files_kept_def)

lemma keeps_upd [files_kept]: "(\<And>s. files (g s) = files s) \<Longrightarrow> files_kept (upd g)"
  by (simp add: files_kept_def)

lemma keeps_if [files_kept]: "files_kept m \<Longrightarrow> files_kept n \<Longrightarrow> files_kept (if b then m else n)"
  by simp

lemma keeps_whenP [files_kept]: "files_kept m \<Longrightarrow> files_kept (whenP b m)"
  by (simp add: whenP_def keeps_skip)

lemma keeps_Let [files_kept]: "files_kept (f x) \<Longrightarrow> files_kept (Let x f)"
  by simp

lemma keeps_option [files_kept]: "files_kept m \<Longrightarrow> (\<And>x. files_kept (f x)) \<Longrightarrow> files_kept (case r of None \<Rightarrow> m | Some x \<Rightarrow> f x)"
  by (simp split: option.splits)

lemma keeps_sum [files_kept]: "(\<And>x. files_kept (f x)) \<Longrightarrow> (\<And>x. files_kept (g x)) \<Longrightarrow> files_kept (case r of Inl x \<Rightarrow> f x | Inr x \<Rightarrow> g x)"
  by (simp split: sum.splits)

lemma keeps_prod [files_kept]: "(\<And>x y. files_kept (f x y)) \<Longrightarrow> files_kept (case r of (x, y) \<Rightarrow> f x y)"
  by (simp split: prod.splits)

lemma keeps_list [files_kept]: "files_kept m \<Longrightarrow> (\<And>x xs. files_kept (f x xs)) \<Longrightarrow> files_kept (case r of [] \<Rightarrow> m | x # xs \<Rightarrow> f x xs)"
  by (simp split: list.splits)

lemma keeps_farg [files_kept]: "(\<And>x. files_kept (f x)) \<Longrightarrow> (\<And>x. files_kept (g x)) \<Longrightarrow> files_kept (case r of Num x \<Rightarrow> f x | Str x \<Rightarrow> g x)"
  by (simp split: farg.splits)

lemma keeps_switch [files_kept]:
  "(\<And>x y. files_kept (f x y)) \<Longrightarrow> files_kept m \<Longrightarrow> files_kept n \<Longrightarrow> files_kept (case r of SwSleep x y \<Rightarrow> f x y | SwYield \<Rightarrow> m | SwExit \<Rightarrow> n)"
  by (simp split: switch.splits)

lemma keeps_on_block [files_kept]:
  fixes m :: "('z file_state_scheme, switch, 'a) prog"
  assumes "files_kept m" "\<And>c. c \<noteq> SwExit \<Longrightarrow> files_kept (h c)"
  shows "files_kept (on_block m h)"
  unfolding files_kept_def
proof
  fix s :: "'z file_state_scheme"
  have "okp (h c) (\<lambda>_ t. files t = files s) (\<lambda>w t. files t = files s \<and> w \<noteq> SwExit) t" if "files t = files s" "c \<noteq> SwExit" for c t
    by (rule okp_keeps [OF assms(2)]) (simp_all add: that)
  then have "okp m (\<lambda>_ t. files t = files s) (\<lambda>c. okp (h c) (\<lambda>_ t. files t = files s) (\<lambda>w t. files t = files s \<and> w \<noteq> SwExit)) s"
    by (intro okp_keeps [OF assms(1)]) simp_all
  then show "okp (on_block m h) (\<lambda>_ t. files t = files s) (\<lambda>w t. files t = files s \<and> w \<noteq> SwExit) s" by simp
qed

text \<open>With the conditions under which a recursive call is reached, for proofs by computation induction.\<close>

lemma keeps_if_cond: "(b \<Longrightarrow> files_kept m) \<Longrightarrow> (\<not> b \<Longrightarrow> files_kept n) \<Longrightarrow> files_kept (if b then m else n)"
  and keeps_Let_cond: "(\<And>y. y = x \<Longrightarrow> files_kept (f y)) \<Longrightarrow> files_kept (Let x f)"
  and keeps_option_cond: "(r = None \<Longrightarrow> files_kept k) \<Longrightarrow> (\<And>x. r = Some x \<Longrightarrow> files_kept (g x)) \<Longrightarrow> files_kept (case r of None \<Rightarrow> k | Some x \<Rightarrow> g x)"
  and keeps_prod_cond: "(\<And>x y. (x, y) = q \<Longrightarrow> files_kept (h x y)) \<Longrightarrow> files_kept (case q of (x, y) \<Rightarrow> h x y)"
  and keeps_list_cond: "(l = [] \<Longrightarrow> files_kept k) \<Longrightarrow> (\<And>x xs. l = x # xs \<Longrightarrow> files_kept (u x xs)) \<Longrightarrow> files_kept (case l of [] \<Rightarrow> k | x # xs \<Rightarrow> u x xs)"
  by (simp_all split: option.splits prod.splits list.splits)

lemmas keeps_cond = keeps_bnd keeps_thn keeps_ret keeps_skip keeps_panic keeps_whenP keeps_if_cond keeps_Let_cond keeps_option_cond keeps_prod_cond
  keeps_list_cond keeps_farg

lemma keeps_foreach [files_kept]: "(\<And>x. files_kept (f x)) \<Longrightarrow> files_kept (foreach xs f)"
  by (induction xs) (simp_all add: files_kept)

lemma files_fields [simp]:
  "files (s\<lparr>held := h\<rparr>) = files s" "files (s\<lparr>phys := p\<rparr>) = files s" "files (s\<lparr>freelist := fl\<rparr>) = files s"
  "files (s\<lparr>nextpid := n\<rparr>) = files s" "files (s\<lparr>initproc := i\<rparr>) = files s" "files (s\<lparr>cr3 := d\<rparr>) = files s"
  "files (s\<lparr>esp0 := e\<rparr>) = files s" "files (s\<lparr>pipes := ps\<rparr>) = files s" "files (s\<lparr>bufs := bs\<rparr>) = files s"
  "files (s\<lparr>idequeue := q\<rparr>) = files s" "files (s\<lparr>ioport := io\<rparr>) = files s" "files (s\<lparr>disk := dk\<rparr>) = files s"
  "files (s\<lparr>inodes := is\<rparr>) = files s" "files (s\<lparr>input := ip\<rparr>) = files s" "files (s\<lparr>serial := se\<rparr>) = files s"
  "files (s\<lparr>crt := c\<rparr>) = files s" "files (s\<lparr>cursor := cu\<rparr>) = files s"
  "files (k\<lparr>ticks := t\<rparr>) = files k" "files (k\<lparr>kbd_shift := w\<rparr>) = files k" "files (k\<lparr>eois := m\<rparr>) = files k"
  by (simp_all add: files_def)

lemma files_proc [simp]: "p_ofile p = p_ofile (ptable s ! j) \<Longrightarrow> files (s\<lparr>ptable := (ptable s)[j := p]\<rparr>) = files s"
proof -
  assume "p_ofile p = p_ofile (ptable s ! j)"
  then have "map p_ofile ((ptable s)[j := p]) = map p_ofile (ptable s)"
    by (cases "j < length (ptable s)") (simp_all add: map_update list_update_same_conv list_update_beyond)
  then show ?thesis by (simp add: files_def)
qed

lemma files_procs [simp]: "(\<And>p. p_ofile (g p) = p_ofile p) \<Longrightarrow> files (s\<lparr>ptable := map g (ptable s)\<rparr>) = files s"
  by (simp add: files_def o_def)

lemma ofile_wake [simp]: "p_ofile (wake c p) = p_ofile p"
  and ofile_share [simp]: "p_ofile (share_sz d n p) = p_ofile p"
  and ofile_reaped [simp]: "p_ofile (reaped p) = p_ofile p"
  by (simp_all add: wake_def share_sz_def reaped_def)

lemma keeps_set_proc [files_kept]: "(\<And>p. p_ofile (g p) = p_ofile p) \<Longrightarrow> files_kept (set_proc j g)"
  unfolding set_proc_def by (rule keeps_upd) simp

lemma keeps_set_file [files_kept]:
  assumes "\<And>x. f_ref (g x) = f_ref x" "\<And>x. f_type (g x) = f_type x"
  shows "files_kept (set_file f g)"
  unfolding set_file_def
proof (rule keeps_upd)
  fix s :: "'z file_state_scheme"
  have "map (\<lambda>x. (f_ref x, f_type x = FD_NONE)) ((ftable s)[f := g (ftable s ! f)]) = map (\<lambda>x. (f_ref x, f_type x = FD_NONE)) (ftable s)"
    using assms by (cases "f < length (ftable s)") (simp_all add: map_update list_update_same_conv list_update_beyond)
  then show "files (s\<lparr>ftable := (ftable s)[f := g (ftable s ! f)]\<rparr>) = files s" by (simp add: files_def)
qed

lemma keeps_get_proc [files_kept]: "files_kept (get_proc a)"
  and keeps_curproc [files_kept]: "files_kept curproc"
  unfolding get_proc_def curproc_def by (intro files_kept; simp add: file_panics_def)+

lemma keeps_sched [files_kept]: "a \<noteq> SwExit \<Longrightarrow> files_kept (sched a)"
  unfolding sched_def by (intro files_kept; simp add: file_panics_def)

lemma keeps_lock [files_kept]: "files_kept (lock l)" "files_kept (unlock l)"
  unfolding lock_def unlock_def by (intro files_kept; simp add: file_panics_def)+

section \<open>Memory and processes\<close>

lemma keeps_kfree [files_kept]: "files_kept (kfree a)"
  unfolding kfree_def by (intro files_kept; simp add: file_panics_def)

lemma keeps_kalloc [files_kept]: "files_kept (kalloc)"
  unfolding kalloc_def by (intro files_kept; simp add: file_panics_def)

lemma keeps_walkpgdir [files_kept]: "files_kept (walkpgdir a b c)"
  unfolding walkpgdir_def by (intro files_kept; simp add: file_panics_def)

lemma keeps_put_pte [files_kept]: "files_kept (put_pte a b)"
  unfolding put_pte_def by (intro files_kept; simp add: file_panics_def)

lemma keeps_get_pte [files_kept]: "files_kept (get_pte a)"
  unfolding get_pte_def by (intro files_kept; simp add: file_panics_def)

lemma keeps_map_page [files_kept]: "files_kept (map_page a b c d)"
  unfolding map_page_def by (intro files_kept; simp add: file_panics_def)

lemma keeps_map_loop [files_kept]: "files_kept (map_loop a b c d e)"
  by (induction a arbitrary: b c d e) (simp only: map_loop.simps, intro files_kept; simp add: file_panics_def)+

lemma keeps_mappages [files_kept]: "files_kept (mappages a b c d e)"
  unfolding mappages_def by (intro files_kept; simp add: file_panics_def)

lemma keeps_kmap_loop [files_kept]: "files_kept (kmap_loop a b)"
  by (induction a b rule: kmap_loop.induct) (simp only: kmap_loop.simps, intro keeps_cond keeps_asks; (assumption | simp add: file_panics_def files_kept | blast))+

lemma keeps_setupkvm [files_kept]: "files_kept (setupkvm)"
  unfolding setupkvm_def by (intro files_kept; simp add: file_panics_def)

lemma keeps_inituvm [files_kept]: "files_kept (inituvm a b)"
  unfolding inituvm_def by (intro files_kept; simp add: file_panics_def)

lemma keeps_dealloc_page [files_kept]: "files_kept (dealloc_page a b)"
  unfolding dealloc_page_def by (intro files_kept; simp add: file_panics_def)

lemma keeps_deallocuvm [files_kept]: "files_kept (deallocuvm a b c)"
  unfolding deallocuvm_def by (intro files_kept; simp add: file_panics_def)

lemma keeps_alloc_loop [files_kept]: "files_kept (alloc_loop a b c d)"
  by (induction d arbitrary: a b c) (simp only: alloc_loop.simps, intro files_kept; simp add: file_panics_def)+

lemma keeps_allocuvm [files_kept]: "files_kept (allocuvm a b c)"
  unfolding allocuvm_def by (intro files_kept; simp add: file_panics_def)

lemma keeps_free_table [files_kept]: "files_kept (free_table a b)"
  unfolding free_table_def by (intro files_kept; simp add: file_panics_def)

lemma keeps_freevm [files_kept]: "files_kept (freevm a)"
  unfolding freevm_def by (intro files_kept; simp add: file_panics_def)

lemma keeps_copy_loop [files_kept]: "files_kept (copy_loop a b c)"
  by (induction c arbitrary: a b) (simp only: copy_loop.simps, intro files_kept; simp add: file_panics_def)+

lemma keeps_copyuvm [files_kept]: "files_kept (copyuvm a b)"
  unfolding copyuvm_def by (intro files_kept; simp add: file_panics_def)

lemma keeps_uva2ka [files_kept]: "files_kept (uva2ka a b)"
  unfolding uva2ka_def by (intro files_kept; simp add: file_panics_def)

lemma keeps_copyout [files_kept]: "files_kept (copyout a b c)"
  by (induction a b c rule: copyout.induct) (subst copyout.simps, intro keeps_cond keeps_asks; (assumption | simp add: file_panics_def files_kept | blast))+

lemma keeps_allocproc [files_kept]: "files_kept (allocproc)"
  unfolding allocproc_def by (intro files_kept; simp add: file_panics_def)

lemma keeps_switchuvm [files_kept]: "files_kept (switchuvm a)"
  unfolding switchuvm_def by (intro files_kept; simp add: file_panics_def)

lemma keeps_yield [files_kept]: "files_kept (yield)"
  unfolding yield_def by (intro files_kept; simp add: file_panics_def)

lemma keeps_sleep [files_kept]: "files_kept (sleep a b)"
  unfolding sleep_def by (intro files_kept; simp add: file_panics_def)

lemma keeps_wakeup1 [files_kept]: "files_kept (wakeup1 a)"
  unfolding wakeup1_def by (intro files_kept; simp add: file_panics_def)

lemma keeps_wakeup [files_kept]: "files_kept (wakeup a)"
  unfolding wakeup_def by (intro files_kept; simp add: file_panics_def)

lemma keeps_kill [files_kept]: "files_kept (kill a)"
  unfolding kill_def by (intro files_kept; simp add: file_panics_def)

lemma keeps_growproc [files_kept]: "files_kept (growproc a)"
  unfolding growproc_def by (intro files_kept; simp add: file_panics_def)

section \<open>Pipes, disk and inodes\<close>

lemma keeps_set_pipe [files_kept]: "files_kept (set_pipe a b)"
  unfolding set_pipe_def by (intro files_kept; simp add: file_panics_def)

lemma keeps_killed [files_kept]: "files_kept (killed)"
  unfolding killed_def by (intro files_kept; simp add: file_panics_def)

lemma keeps_pipeclose [files_kept]: "files_kept (pipeclose a b)"
  unfolding pipeclose_def by (intro files_kept; simp add: file_panics_def)

lemma keeps_pipewrite_loop [files_kept]: "files_kept (pipewrite_loop a b c)"
  by (induction c arbitrary: a b) (simp only: pipewrite_loop.simps, intro files_kept; simp add: file_panics_def)+

lemma keeps_pipewrite [files_kept]: "files_kept (pipewrite a b)"
  unfolding pipewrite_def by (intro files_kept; simp add: file_panics_def)

lemma keeps_piperead_loop [files_kept]: "files_kept (piperead_loop a b)"
  by (induction b arbitrary: a) (simp only: piperead_loop.simps, intro files_kept; simp add: file_panics_def)+

lemma keeps_piperead_head [files_kept]: "files_kept (piperead_head a b)"
  unfolding piperead_head_def by (intro files_kept; simp add: file_panics_def)

lemma keeps_piperead [files_kept]: "files_kept (piperead a b)"
  unfolding piperead_def by (intro files_kept; simp add: file_panics_def)

lemma keeps_set_buf [files_kept]: "files_kept (set_buf a b)"
  unfolding set_buf_def by (intro files_kept; simp add: file_panics_def)

lemma keeps_get_buf [files_kept]: "files_kept (get_buf a)"
  unfolding get_buf_def by (intro files_kept; simp add: file_panics_def)

lemma keeps_outb [files_kept]: "files_kept (outb a b)"
  unfolding outb_def by (intro files_kept; simp add: file_panics_def)

lemma keeps_outsl [files_kept]: "files_kept (outsl a)"
  unfolding outsl_def by (intro files_kept; simp add: file_panics_def Let_def)

lemma keeps_insl [files_kept]: "files_kept (insl)"
  unfolding insl_def by (intro files_kept; simp add: file_panics_def)

lemma keeps_idewait_ok [files_kept]: "files_kept (idewait_ok)"
  unfolding idewait_ok_def by (intro files_kept; simp add: file_panics_def)

lemma keeps_idestart [files_kept]: "files_kept (idestart a)"
  unfolding idestart_def by (intro files_kept; simp add: file_panics_def)

lemma keeps_ideintr [files_kept]: "files_kept (ideintr)"
  unfolding ideintr_def by (intro files_kept; simp add: file_panics_def)

lemma keeps_queue_last [files_kept]: "files_kept (queue_last a b)"
  by (induction a arbitrary: b) (simp only: queue_last.simps, intro files_kept; simp add: file_panics_def)+

lemma keeps_ide_append [files_kept]: "files_kept (ide_append a)"
  unfolding ide_append_def by (intro files_kept; simp add: file_panics_def)

lemma keeps_iderw_wait [files_kept]: "files_kept (iderw_wait a)"
  unfolding iderw_wait_def by (intro files_kept; simp add: file_panics_def)

lemma keeps_iderw [files_kept]: "files_kept (iderw a)"
  unfolding iderw_def by (intro files_kept; simp add: file_panics_def)

lemma keeps_resume [files_kept]: "files_kept (resume a)"
  unfolding resume_def by (intro files_kept; simp add: file_panics_def)

lemma keeps_disk_irqs [files_kept]: "files_kept (disk_irqs a b)"
  by (induction a arbitrary: b) (simp only: disk_irqs.simps, intro files_kept; simp add: file_panics_def)+

lemma keeps_back_running [files_kept]: "files_kept (back_running)"
  unfolding back_running_def by (intro files_kept; simp add: file_panics_def)

lemma keeps_iderw_done [files_kept]: "files_kept (iderw_done a)"
  unfolding iderw_done_def by (intro files_kept; simp add: file_panics_def)

lemma keeps_bscan [files_kept]: "files_kept (bscan a b c d)"
  by (induction a arbitrary: b c d) (simp only: bscan.simps, intro files_kept; simp add: file_panics_def)+

lemma keeps_bget [files_kept]: "files_kept (bget a b)"
  unfolding bget_def by (intro files_kept; simp add: file_panics_def)

lemma keeps_bread [files_kept]: "files_kept (bread a b)"
  unfolding bread_def by (intro files_kept; simp add: file_panics_def)

lemma keeps_bwrite [files_kept]: "files_kept (bwrite a)"
  unfolding bwrite_def by (intro files_kept; simp add: file_panics_def)

lemma keeps_brelse [files_kept]: "files_kept (brelse a)"
  unfolding brelse_def by (intro files_kept; simp add: file_panics_def)

lemma keeps_set_data [files_kept]: "files_kept (set_data a b)"
  unfolding set_data_def by (intro files_kept; simp add: file_panics_def)

lemma keeps_bdata [files_kept]: "files_kept (bdata a)"
  unfolding bdata_def by (intro files_kept; simp add: file_panics_def)

lemma keeps_set_inode [files_kept]: "files_kept (set_inode a b)"
  unfolding set_inode_def by (intro files_kept; simp add: file_panics_def)

lemma keeps_get_inode [files_kept]: "files_kept (get_inode a)"
  unfolding get_inode_def by (intro files_kept; simp add: file_panics_def)

lemma keeps_readsb [files_kept]: "files_kept (readsb a)"
  unfolding readsb_def by (intro files_kept; simp add: file_panics_def)

lemma keeps_bzero [files_kept]: "files_kept (bzero a b)"
  unfolding bzero_def by (intro files_kept; simp add: file_panics_def)

lemma keeps_balloc_loop [files_kept]: "files_kept (balloc_loop a b c d)"
  by (induction a arbitrary: b c d) (simp only: balloc_loop.simps, intro files_kept; simp add: file_panics_def)+

lemma keeps_balloc [files_kept]: "files_kept (balloc a)"
  unfolding balloc_def by (intro files_kept; simp add: file_panics_def)

lemma keeps_bfree [files_kept]: "files_kept (bfree a b)"
  unfolding bfree_def by (intro files_kept; simp add: file_panics_def)

lemma keeps_iget [files_kept]: "files_kept (iget a b)"
  unfolding iget_def by (intro files_kept; simp add: file_panics_def)

lemma keeps_idup [files_kept]: "files_kept (idup a)"
  unfolding idup_def by (intro files_kept; simp add: file_panics_def)

lemma keeps_ialloc_loop [files_kept]: "files_kept (ialloc_loop a b c d e)"
  by (induction a arbitrary: b c d e) (simp only: ialloc_loop.simps, intro files_kept; simp add: file_panics_def)+

lemma keeps_ialloc [files_kept]: "files_kept (ialloc a b)"
  unfolding ialloc_def by (intro files_kept; simp add: file_panics_def)

lemma keeps_iupdate [files_kept]: "files_kept (iupdate a)"
  unfolding iupdate_def by (intro files_kept; simp add: file_panics_def)

lemma keeps_ilock [files_kept]: "files_kept (ilock a)"
  unfolding ilock_def by (intro files_kept; simp add: file_panics_def)

lemma keeps_iunlock [files_kept]: "files_kept (iunlock a)"
  unfolding iunlock_def by (intro files_kept; simp add: file_panics_def)

lemma keeps_set_addr [files_kept]: "files_kept (set_addr a b c)"
  unfolding set_addr_def by (intro files_kept; simp add: file_panics_def)

lemma keeps_addr_or_alloc [files_kept]: "files_kept (addr_or_alloc a b)"
  unfolding addr_or_alloc_def by (intro files_kept; simp add: file_panics_def)

lemma keeps_bmap [files_kept]: "files_kept (bmap a b)"
  unfolding bmap_def by (intro files_kept; simp add: file_panics_def)

lemma keeps_trunc_direct [files_kept]: "files_kept (trunc_direct a b)"
  unfolding trunc_direct_def by (intro files_kept; simp add: file_panics_def)

lemma keeps_trunc_indirect [files_kept]: "files_kept (trunc_indirect a b c)"
  unfolding trunc_indirect_def by (intro files_kept; simp add: file_panics_def)

lemma keeps_itrunc [files_kept]: "files_kept (itrunc a)"
  unfolding itrunc_def by (intro files_kept; simp add: file_panics_def)

lemma keeps_iput [files_kept]: "files_kept (iput a)"
  unfolding iput_def by (intro files_kept; simp add: file_panics_def)

lemma keeps_iunlockput [files_kept]: "files_kept (iunlockput a)"
  unfolding iunlockput_def by (intro files_kept; simp add: file_panics_def)

section \<open>Console and files\<close>

lemma keeps_set_input [files_kept]: "files_kept (set_input a)"
  unfolding set_input_def by (intro files_kept; simp add: file_panics_def)

lemma keeps_cgaputc [files_kept]: "files_kept (cgaputc a)"
  unfolding cgaputc_def by (intro files_kept; simp add: file_panics_def split: prod.splits)

lemma keeps_uartputc [files_kept]: "files_kept (uartputc a)"
  unfolding uartputc_def by (intro files_kept; simp add: file_panics_def)

lemma keeps_consputc [files_kept]: "files_kept (consputc a)"
  unfolding consputc_def by (intro files_kept; simp add: file_panics_def)

lemma keeps_printint [files_kept]: "files_kept (printint a b c)"
  unfolding printint_def by (intro files_kept; simp add: file_panics_def)

lemma keeps_cprintf_loop [files_kept]: "files_kept (cprintf_loop a b :: ('z file_state_scheme, switch, unit) prog)"
proof (induction a arbitrary: b rule: length_induct)
  case (1 a)
  then have IH: "files_kept (cprintf_loop d b :: ('z file_state_scheme, switch, unit) prog)" if "length d < length a" for d b using that by blast
  show ?case
    by (cases a) (simp only: cprintf_loop.simps, intro keeps_cond; simp add: files_kept file_panics_def IH)+
qed

lemma keeps_cprintf [files_kept]: "files_kept (cprintf a b)"
  unfolding cprintf_def by (intro files_kept; simp add: file_panics_def)

lemma keeps_procdump_one [files_kept]: "files_kept (procdump_one a b)"
  unfolding procdump_one_def by (intro files_kept; simp add: file_panics_def)

lemma keeps_procdump [files_kept]: "files_kept (procdump a)"
  unfolding procdump_def by (intro files_kept; simp add: file_panics_def)

lemma keeps_kill_line [files_kept]: "files_kept (kill_line a)"
  by (induction a) (simp only: kill_line.simps, intro files_kept; simp add: file_panics_def)+

lemma keeps_console_char [files_kept]: "files_kept (console_char a b)"
  unfolding console_char_def by (intro files_kept; simp add: file_panics_def)

lemma keeps_consoleintr [files_kept]: "files_kept (consoleintr a b)"
  unfolding consoleintr_def by (intro files_kept; simp add: file_panics_def)

lemma keeps_cread_done [files_kept]: "files_kept (cread_done a b)"
  unfolding cread_done_def by (intro files_kept; simp add: file_panics_def)

lemma keeps_consoleread_loop [files_kept]: "files_kept (consoleread_loop a b c)"
  by (induction b arbitrary: a c) (simp only: consoleread_loop.simps, intro files_kept; simp add: file_panics_def)+

lemma keeps_consoleread [files_kept]: "files_kept (consoleread a b)"
  unfolding consoleread_def by (intro files_kept; simp add: file_panics_def)

lemma keeps_consolewrite [files_kept]: "files_kept (consolewrite a b)"
  unfolding consolewrite_def by (intro files_kept; simp add: file_panics_def)

lemma keeps_readi_loop [files_kept]: "files_kept (readi_loop a b c)"
  by (induction a b c rule: readi_loop.induct) (subst readi_loop.simps, intro keeps_cond keeps_asks; (assumption | simp add: file_panics_def files_kept | blast))+

lemma keeps_readi [files_kept]: "files_kept (readi a b c)"
  unfolding readi_def by (intro files_kept; simp add: file_panics_def)

lemma keeps_writei_loop [files_kept]: "files_kept (writei_loop a b c d)"
  by (induction a b c d rule: writei_loop.induct) (subst writei_loop.simps, intro keeps_cond keeps_asks; (assumption | simp add: file_panics_def files_kept | blast))+

lemma keeps_writei [files_kept]: "files_kept (writei a b c d)"
  unfolding writei_def by (intro files_kept; simp add: file_panics_def)

lemma keeps_dirlookup_loop [files_kept]: "files_kept (dirlookup_loop a b c d)"
  by (induction a arbitrary: b c d) (simp only: dirlookup_loop.simps, intro files_kept; simp add: file_panics_def)+

lemma keeps_dirlookup [files_kept]: "files_kept (dirlookup a b)"
  unfolding dirlookup_def by (intro files_kept; simp add: file_panics_def)

lemma keeps_dirlink_find [files_kept]: "files_kept (dirlink_find a b c)"
  by (induction a arbitrary: b c) (simp only: dirlink_find.simps, intro files_kept; simp add: file_panics_def)+

lemma keeps_dirlink [files_kept]: "files_kept (dirlink a b c)"
  unfolding dirlink_def by (intro files_kept; simp add: file_panics_def)

lemma keeps_namex_loop [files_kept]: "files_kept (namex_loop a b c)"
  by (induction a b c rule: namex_loop.induct) (subst namex_loop.simps, intro keeps_cond keeps_asks; (assumption | simp add: file_panics_def files_kept | blast))+

lemma keeps_namex [files_kept]: "files_kept (namex a b)"
  unfolding namex_def by (intro files_kept; simp add: file_panics_def)

lemma keeps_namei [files_kept]: "files_kept (namei a)"
  unfolding namei_def by (intro files_kept; simp add: file_panics_def)

lemma keeps_nameiparent [files_kept]: "files_kept (nameiparent a)"
  unfolding nameiparent_def by (intro files_kept; simp add: file_panics_def)

section \<open>System calls\<close>

lemma keeps_uload [files_kept]: "files_kept (uload a)"
  unfolding uload_def by (intro files_kept; simp add: file_panics_def)

lemma keeps_ustore [files_kept]: "files_kept (ustore a b)"
  unfolding ustore_def by (intro files_kept; simp add: file_panics_def)

lemma keeps_uload32 [files_kept]: "files_kept (uload32 a)"
  unfolding uload32_def by (intro files_kept; simp add: file_panics_def)

lemma keeps_ustores [files_kept]: "files_kept (ustores a b)"
  by (induction b arbitrary: a) (simp only: ustores.simps, intro files_kept; simp add: file_panics_def)+

lemma keeps_uloads [files_kept]: "files_kept (uloads a b)"
  by (induction b arbitrary: a) (simp only: uloads.simps, intro files_kept; simp add: file_panics_def)+

lemma keeps_fetchint [files_kept]: "files_kept (fetchint a b)"
  unfolding fetchint_def by (intro files_kept; simp add: file_panics_def)

lemma keeps_fetchstr_loop [files_kept]: "files_kept (fetchstr_loop a b c)"
  by (induction a arbitrary: b c) (simp only: fetchstr_loop.simps, intro files_kept; simp add: file_panics_def)+

lemma keeps_fetchstr [files_kept]: "files_kept (fetchstr a b)"
  unfolding fetchstr_def by (intro files_kept; simp add: file_panics_def)

lemma keeps_argint [files_kept]: "files_kept (argint a)"
  unfolding argint_def by (intro files_kept; simp add: file_panics_def)

lemma keeps_argptr [files_kept]: "files_kept (argptr a b)"
  unfolding argptr_def by (intro files_kept; simp add: file_panics_def)

lemma keeps_argstr [files_kept]: "files_kept (argstr a)"
  unfolding argstr_def by (intro files_kept; simp add: file_panics_def)

lemma keeps_wait_head [files_kept]: "files_kept (wait_head)"
  unfolding wait_head_def by (intro files_kept; simp add: file_panics_def)

lemma keeps_wait [files_kept]: "files_kept (wait)"
  unfolding wait_def by (intro files_kept; simp add: file_panics_def)

lemma keeps_join_head [files_kept]: "files_kept (join_head a)"
  unfolding join_head_def by (intro files_kept; simp add: file_panics_def)

lemma keeps_join [files_kept]: "files_kept (join a)"
  unfolding join_def by (intro files_kept; simp add: file_panics_def)

lemma keeps_disown [files_kept]: "files_kept (disown a b)"
  unfolding disown_def by (intro files_kept; simp add: file_panics_def)

lemma keeps_argfd [files_kept]: "files_kept (argfd a)"
  unfolding argfd_def by (intro files_kept; simp add: file_panics_def)

lemma keeps_rw_args [files_kept]: "files_kept (rw_args)"
  unfolding rw_args_def by (intro files_kept; simp add: file_panics_def)

lemma keeps_user_bytes [files_kept]: "files_kept (user_bytes a)"
  unfolding user_bytes_def by (intro files_kept; simp add: file_panics_def)

lemma keeps_store_stat [files_kept]: "files_kept (store_stat a b)"
  unfolding store_stat_def by (intro files_kept; simp add: file_panics_def)

lemma keeps_change_nlink [files_kept]: "files_kept (change_nlink a b)"
  unfolding change_nlink_def by (intro files_kept; simp add: file_panics_def)

lemma keeps_link_bad [files_kept]: "files_kept (link_bad a)"
  unfolding link_bad_def by (intro files_kept; simp add: file_panics_def)

lemma keeps_sys_link [files_kept]: "files_kept (sys_link)"
  unfolding sys_link_def by (intro files_kept; simp add: file_panics_def)

lemma keeps_isdirempty_loop [files_kept]: "files_kept (isdirempty_loop a b c)"
  by (induction a arbitrary: b c) (simp only: isdirempty_loop.simps, intro files_kept; simp add: file_panics_def)+

lemma keeps_isdirempty [files_kept]: "files_kept (isdirempty a)"
  unfolding isdirempty_def by (intro files_kept; simp add: file_panics_def)

lemma keeps_unlink_entry [files_kept]: "files_kept (unlink_entry a b c)"
  unfolding unlink_entry_def by (intro files_kept; simp add: file_panics_def)

lemma keeps_sys_unlink [files_kept]: "files_kept (sys_unlink)"
  unfolding sys_unlink_def by (intro files_kept; simp add: file_panics_def)

lemma keeps_create_dots [files_kept]: "files_kept (create_dots a b)"
  unfolding create_dots_def by (intro files_kept; simp add: file_panics_def)

lemma keeps_create [files_kept]: "files_kept (create a b c d)"
  unfolding create_def by (intro files_kept; simp add: file_panics_def)

lemma keeps_open_inode [files_kept]: "files_kept (open_inode a b)"
  unfolding open_inode_def by (intro files_kept; simp add: file_panics_def)

lemma keeps_sys_mkdir [files_kept]: "files_kept (sys_mkdir)"
  unfolding sys_mkdir_def by (intro files_kept; simp add: file_panics_def)

lemma keeps_sys_mknod [files_kept]: "files_kept (sys_mknod)"
  unfolding sys_mknod_def by (intro files_kept; simp add: file_panics_def)

lemma keeps_sys_chdir [files_kept]: "files_kept (sys_chdir)"
  unfolding sys_chdir_def by (intro files_kept; simp add: file_panics_def)

lemma keeps_get_file [files_kept]: "files_kept (get_file a)"
  unfolding get_file_def by (intro files_kept; simp add: file_panics_def)

lemma keeps_filestat [files_kept]: "files_kept (filestat a)"
  unfolding filestat_def by (intro files_kept; simp add: file_panics_def)

lemma keeps_loaduvm_loop [files_kept]: "files_kept (loaduvm_loop a b c d e f g)"
  by (induction a arbitrary: b c d e f g) (simp only: loaduvm_loop.simps, intro files_kept; simp add: file_panics_def)+

lemma keeps_loaduvm [files_kept]: "files_kept (loaduvm a b c d e)"
  unfolding loaduvm_def by (intro files_kept; simp add: file_panics_def)

lemma keeps_exec_bad [files_kept]: "files_kept (exec_bad a b)"
  unfolding exec_bad_def by (intro files_kept; simp add: file_panics_def)

lemma keeps_load_segments [files_kept]: "files_kept (load_segments a b c d e)"
  by (induction a arbitrary: b c d e) (simp only: load_segments.simps, intro files_kept; simp add: file_panics_def)+

lemma keeps_push_args [files_kept]: "files_kept (push_args a b c d e)"
  by (induction c arbitrary: a b d e) (simp only: push_args.simps, intro files_kept; simp add: file_panics_def)+

lemma keeps_exec_commit [files_kept]: "files_kept (exec_commit a b c d e)"
  unfolding exec_commit_def by (intro files_kept; simp add: file_panics_def)

lemma keeps_exec_stack [files_kept]: "files_kept (exec_stack a b c d e)"
  unfolding exec_stack_def by (intro files_kept; simp add: file_panics_def)

lemma keeps_exec [files_kept]: "files_kept (exec a b c)"
  unfolding exec_def by (intro files_kept; simp add: file_panics_def)

lemma keeps_fetch_argv [files_kept]: "files_kept (fetch_argv a b c)"
  by (induction a arbitrary: b c) (simp only: fetch_argv.simps, intro files_kept; simp add: file_panics_def)+

lemma keeps_sys_exec [files_kept]: "files_kept (sys_exec a)"
  unfolding sys_exec_def by (intro files_kept; simp add: file_panics_def)

lemma keeps_sys_join [files_kept]: "files_kept (sys_join)"
  unfolding sys_join_def by (intro files_kept; simp add: file_panics_def)

lemma keeps_sys_wait [files_kept]: "files_kept (sys_wait)"
  unfolding sys_wait_def by (intro files_kept; simp add: file_panics_def)

lemma keeps_sys_kill [files_kept]: "files_kept (sys_kill)"
  unfolding sys_kill_def by (intro files_kept; simp add: file_panics_def)

lemma keeps_sys_getpid [files_kept]: "files_kept (sys_getpid)"
  unfolding sys_getpid_def by (intro files_kept; simp add: file_panics_def)

lemma keeps_sys_sbrk [files_kept]: "files_kept (sys_sbrk)"
  unfolding sys_sbrk_def by (intro files_kept; simp add: file_panics_def)

lemma keeps_sleep_head [files_kept]: "files_kept (sleep_head a b)"
  unfolding sleep_head_def by (intro files_kept; simp add: file_panics_def)

lemma keeps_sys_sleep [files_kept]: "files_kept (sys_sleep)"
  unfolding sys_sleep_def by (intro files_kept; simp add: file_panics_def)

lemma keeps_sys_uptime [files_kept]: "files_kept (sys_uptime)"
  unfolding sys_uptime_def by (intro files_kept; simp add: file_panics_def)

lemma keeps_set_eax [files_kept]: "files_kept (set_eax a)"
  unfolding set_eax_def by (intro files_kept; simp add: file_panics_def)

lemma keeps_lapiceoi [files_kept]: "files_kept (lapiceoi)"
  unfolding lapiceoi_def by (intro files_kept; simp add: file_panics_def)

lemma keeps_kbdintr [files_kept]: "files_kept (kbdintr a b)"
  unfolding kbdintr_def by (intro files_kept; simp add: file_panics_def)

lemma keeps_uartintr [files_kept]: "files_kept (uartintr a b)"
  unfolding uartintr_def by (intro files_kept; simp add: file_panics_def)

lemma keeps_timer_tick [files_kept]: "files_kept (timer_tick)"
  unfolding timer_tick_def by (intro files_kept; simp add: file_panics_def)

end
