(* ===== verification/Refs.thy ===== *)
theory Refs
  imports Keeps Life
begin

text \<open>
  The references of the open files, over all of \<open>kernel/sysfile.c\<close>, \<open>kernel/file.c\<close> and the process calls.  A descriptor
  is a pointer into the file table that a process keeps; the table only has a number of references.  \<open>fds_ok\<close> says that
  these agree well enough: no file has more descriptors than references, so that a file in use is never taken for a free
  one.  Within a call the numbers differ by the references that the call has in its hands; \<open>fds_inv d\<close> is the invariant
  with \<open>d f\<close> of them for the file \<open>f\<close>, or with \<open>- d f\<close> missing.
\<close>

section \<open>The invariant\<close>

text \<open>The descriptors of all processes that refer to the file \<open>f\<close>.\<close>

definition fd_count :: "proc list \<Rightarrow> nat \<Rightarrow> nat" where
  "fd_count ps f = sum_list (map (\<lambda>p. count_list (p_ofile p) (Some f)) ps)"

definition fds_ok :: "'z file_state_scheme \<Rightarrow> bool" where
  "fds_ok s \<longleftrightarrow> length (ftable s) = NFILE \<and> length (ptable s) = NPROC \<and>
     (\<forall>p \<in> set (ptable s). length (p_ofile p) = NOFILE) \<and> (\<forall>c. cur s = Some c \<longrightarrow> c < NPROC) \<and>
     (\<forall>f. 0 < fd_count (ptable s) f \<longrightarrow>
        f < NFILE \<and> int (fd_count (ptable s) f) \<le> f_ref (ftable s ! f) \<and> f_type (ftable s ! f) \<noteq> FD_NONE)"

text \<open>The same on \<open>files\<close>, with references in hand; the files in \<open>U\<close> have not got their type yet.\<close>

definition uses :: "nat option list list \<Rightarrow> nat \<Rightarrow> int" where
  "uses ds f = int (sum_list (map (\<lambda>l. count_list l (Some f)) ds))"

definition fds_inv :: "(nat \<Rightarrow> int) \<Rightarrow> nat set \<Rightarrow> (int \<times> bool) list \<times> nat option list list \<times> nat option \<Rightarrow> bool" where
  "fds_inv d U v \<longleftrightarrow> (case v of (fs, ds, c) \<Rightarrow>
     length fs = NFILE \<and> length ds = NPROC \<and> (\<forall>l \<in> set ds. length l = NOFILE) \<and> (\<forall>x. c = Some x \<longrightarrow> x < NPROC) \<and>
     (\<forall>f. 0 < uses ds f + d f \<longrightarrow> f < NFILE \<and> uses ds f + d f \<le> fst (fs ! f)) \<and>
     (\<forall>f. 0 < uses ds f \<longrightarrow> 0 < uses ds f + d f \<longrightarrow> f \<notin> U \<longrightarrow> \<not> snd (fs ! f)))"

lemma fds_ok_inv: "fds_ok s \<longleftrightarrow> fds_inv (\<lambda>_. 0) {} (files s)"
proof -
  have u: "uses (map p_ofile (ptable s)) f = int (fd_count (ptable s) f)" for f
    by (simp add: uses_def fd_count_def o_def)
  let ?fs = "map (\<lambda>x. (f_ref x, f_type x = FD_NONE)) (ftable s)"
  have m: "fst (?fs ! f) = f_ref (ftable s ! f)" "snd (?fs ! f) \<longleftrightarrow> f_type (ftable s ! f) = FD_NONE"
    if "length (ftable s) = NFILE" "f < NFILE" for f using that by simp_all
  show ?thesis
  proof
    assume ok: "fds_ok s"
    show "fds_inv (\<lambda>_. 0) {} (files s)"
      unfolding fds_inv_def files_def prod.case u using ok m by (auto simp: fds_ok_def)
  next
    assume i: "fds_inv (\<lambda>_. 0) {} (files s)"
    then have l: "length (ftable s) = NFILE" by (simp add: fds_inv_def files_def)
    have "f < NFILE \<and> int (fd_count (ptable s) f) \<le> f_ref (ftable s ! f) \<and> f_type (ftable s ! f) \<noteq> FD_NONE"
      if "0 < fd_count (ptable s) f" for f
    proof -
      have c: "f < NFILE" "int (fd_count (ptable s) f) \<le> fst (?fs ! f)" "\<not> snd (?fs ! f)"
        using i that unfolding fds_inv_def files_def prod.case u by (auto simp del: nth_map)
      then show ?thesis using m [OF l c(1)] by simp
    qed
    then show "fds_ok s" using i by (simp add: fds_ok_def fds_inv_def files_def)
  qed
qed

lemma uses_nonneg [simp]: "0 \<le> uses ds f"
  by (simp add: uses_def)

lemma count_list_update:
  "k < length l \<Longrightarrow> int (count_list (l[k := x]) a) = int (count_list l a) - (if l ! k = a then 1 else 0) + (if x = a then 1 else 0)"
proof (induction l arbitrary: k)
  case (Cons b l)
  show ?case
  proof (cases k)
    case (Suc i)
    then show ?thesis using Cons.IH [of i] Cons.prems by auto
  qed auto
qed simp

text \<open>Changing one descriptor.\<close>

definition put_fd :: "nat \<Rightarrow> nat \<Rightarrow> nat option \<Rightarrow> nat option list list \<Rightarrow> nat option list list" where
  "put_fd j fd x ds = ds[j := (ds ! j)[fd := x]]"

lemma uses_update:
  "j < length ds \<Longrightarrow> uses (ds[j := l]) f = uses ds f - int (count_list (ds ! j) (Some f)) + int (count_list l (Some f))"
  by (induction ds arbitrary: j) (auto simp: uses_def split: nat.splits)

lemma uses_put:
  assumes "j < length ds" "fd < length (ds ! j)"
  shows "uses (put_fd j fd x ds) f = uses ds f - (if ds ! j ! fd = Some f then 1 else 0) + (if x = Some f then 1 else 0)"
  using assms by (simp add: put_fd_def uses_update count_list_update)

lemma uses_pos: "j < length ds \<Longrightarrow> fd < length (ds ! j) \<Longrightarrow> ds ! j ! fd = Some f \<Longrightarrow> 0 < uses ds f"
proof -
  assume j: "j < length ds" and d: "fd < length (ds ! j)" "ds ! j ! fd = Some f"
  have "Some f \<in> set (ds ! j)" using d by (metis nth_mem)
  then have "0 < count_list (ds ! j) (Some f)" by (metis count_list_0_iff gr0I)
  moreover have "count_list (ds ! j) (Some f) \<le> sum_list (map (\<lambda>l. count_list l (Some f)) ds)"
    using j by (intro member_le_sum_list) auto
  ultimately show ?thesis by (simp add: uses_def)
qed

text \<open>The entries of a well-formed view.\<close>

lemma fds_inv_shape:
  assumes "fds_inv d U (fs, ds, c)"
  shows "length fs = NFILE" "length ds = NPROC" "\<And>j. j < NPROC \<Longrightarrow> length (ds ! j) = NOFILE" "\<And>x. c = Some x \<Longrightarrow> x < NPROC"
  using assms by (auto simp: fds_inv_def)

lemma fds_inv_live:
  assumes "fds_inv d U (fs, ds, c)" "0 < uses ds f + d f"
  shows "f < NFILE" "uses ds f + d f \<le> fst (fs ! f)" "1 \<le> fst (fs ! f)" "0 < uses ds f \<Longrightarrow> f \<notin> U \<Longrightarrow> \<not> snd (fs ! f)"
proof -
  show l: "f < NFILE" "uses ds f + d f \<le> fst (fs ! f)" using assms by (simp_all add: fds_inv_def)
  show "1 \<le> fst (fs ! f)" using l(2) assms(2) by linarith
  show "0 < uses ds f \<Longrightarrow> f \<notin> U \<Longrightarrow> \<not> snd (fs ! f)" using assms by (simp add: fds_inv_def)
qed

text \<open>A descriptor is set: a reference goes from the hand into the table, and the old entry is forgotten.\<close>

lemma fds_inv_put:
  assumes i: "fds_inv d U (fs, ds, c)" and j: "j < NPROC" "fd < NOFILE"
  shows "fds_inv (d(f := d f - 1)) (insert f U) (fs, put_fd j fd (Some f) ds, c)"
proof -
  note sh = fds_inv_shape [OF i]
  have u: "uses (put_fd j fd (Some f) ds) g = uses ds g - (if ds ! j ! fd = Some g then 1 else 0) + (if f = g then 1 else 0)" for g
    using uses_put [of j ds fd "Some f" g] sh(2,3) j by simp
  have le: "uses (put_fd j fd (Some f) ds) g + (d(f := d f - 1)) g \<le> uses ds g + d g"
    "g \<noteq> f \<Longrightarrow> uses (put_fd j fd (Some f) ds) g \<le> uses ds g" for g unfolding u by auto
  have l: "\<forall>l \<in> set (put_fd j fd (Some f) ds). length l = NOFILE"
    using i sh(2,3) j by (auto simp: put_fd_def fds_inv_def in_set_conv_nth nth_list_update)
  show ?thesis
    unfolding fds_inv_def prod.case
  proof (intro conjI allI impI)
    fix g assume g: "0 < uses (put_fd j fd (Some f) ds) g + (d(f := d f - 1)) g"
    then have p: "0 < uses ds g + d g" using le(1) [of g] by linarith
    note lv = fds_inv_live [OF i p]
    show "g < NFILE" by (rule lv(1))
    show "uses (put_fd j fd (Some f) ds) g + (d(f := d f - 1)) g \<le> fst (fs ! g)" using le(1) [of g] lv(2) by linarith
    assume "0 < uses (put_fd j fd (Some f) ds) g" "g \<notin> insert f U"
    then show "\<not> snd (fs ! g)" using lv(4) le(2) [of g] by force
  qed (use l sh in \<open>auto simp: put_fd_def\<close>)
qed

lemma fds_inv_clear:
  assumes i: "fds_inv d U (fs, ds, c)" and j: "j < NPROC" "fd < NOFILE" and f: "ds ! j ! fd = Some f"
  shows "fds_inv (d(f := d f + 1)) U (fs, put_fd j fd None ds, c)"
proof -
  note sh = fds_inv_shape [OF i]
  have u: "uses (put_fd j fd None ds) g = uses ds g - (if f = g then 1 else 0)" for g
    using uses_put [of j ds fd None g] sh(2,3) j f by simp
  have e: "uses (put_fd j fd None ds) g + (d(f := d f + 1)) g = uses ds g + d g"
    "uses (put_fd j fd None ds) g \<le> uses ds g" for g unfolding u by auto
  have l: "\<forall>l \<in> set (put_fd j fd None ds). length l = NOFILE"
    using i sh(2,3) j by (auto simp: put_fd_def fds_inv_def in_set_conv_nth nth_list_update)
  show ?thesis
    unfolding fds_inv_def prod.case e(1)
  proof (intro conjI allI impI)
    fix g assume p: "0 < uses ds g + d g"
    note lv = fds_inv_live [OF i p]
    show "g < NFILE" "uses ds g + d g \<le> fst (fs ! g)" by (rule lv)+
    assume "0 < uses (put_fd j fd None ds) g" "g \<notin> U"
    then show "\<not> snd (fs ! g)" using lv(4) e(2) [of g] by force
  qed (use l sh in \<open>auto simp: put_fd_def\<close>)
qed

lemma fds_inv_typed: "fds_inv d (insert f U) (fs, ds, c) \<Longrightarrow> \<not> snd (fs ! f) \<Longrightarrow> fds_inv d U (fs, ds, c)"
  unfolding fds_inv_def prod.case by (metis insert_iff)

text \<open>The entry of a file changes: its references in hand with it, or its type.\<close>

lemma fds_inv_file:
  assumes i: "fds_inv d U (fs, ds, c)"
    and r: "0 < uses ds f + k \<Longrightarrow> f < NFILE \<and> uses ds f + k \<le> fst x"
    and t: "0 < uses ds f \<Longrightarrow> 0 < uses ds f + k \<Longrightarrow> f \<notin> U' \<Longrightarrow> \<not> snd x" and U: "U - {f} \<subseteq> U'"
  shows "fds_inv (d(f := k)) U' (fs[f := x], ds, c)"
  unfolding fds_inv_def prod.case
proof (intro conjI allI impI)
  fix g assume g: "0 < uses ds g + (d(f := k)) g"
  show n: "g < NFILE" using g r fds_inv_live(1) [OF i, of g] by (cases "g = f") auto
  show "uses ds g + (d(f := k)) g \<le> fst (fs[f := x] ! g)"
    using g r n fds_inv_live(2) [OF i, of g] fds_inv_shape(1) [OF i] by (cases "g = f") auto
  assume "0 < uses ds g" "g \<notin> U'"
  then show "\<not> snd (fs[f := x] ! g)"
    using g t n U fds_inv_live(4) [OF i, of g] fds_inv_shape(1) [OF i] by (cases "g = f") auto
qed (use i in \<open>auto simp: fds_inv_def\<close>)

section \<open>The operations of the file table\<close>

text \<open>The invariant with its references in hand, while the process \<open>c\<close> runs.\<close>

definition in_hand :: "(nat \<Rightarrow> int) \<Rightarrow> nat set \<Rightarrow> nat option \<Rightarrow> 'z file_state_scheme \<Rightarrow> bool" where
  "in_hand d U c s \<longleftrightarrow> fds_inv d U (files s) \<and> cur s = c"

definition fds_of :: "'z file_state_scheme \<Rightarrow> nat option list list" where
  "fds_of s = map p_ofile (ptable s)"

lemma files_eqD: "files t = files s \<Longrightarrow> fds_of t = fds_of s \<and> cur t = cur s"
  by (simp add: files_def fds_of_def)

lemma in_hand_eq: "files t = files s \<Longrightarrow> in_hand d U c t = in_hand d U c s"
  by (metis files_eqD in_hand_def)

lemma fds_of_fields [simp]:
  "fds_of (s\<lparr>held := h\<rparr>) = fds_of s" "fds_of (s\<lparr>ftable := ft\<rparr>) = fds_of s"
  by (simp_all add: fds_of_def)

lemma in_hand_held [simp]: "in_hand d U c (s\<lparr>held := h\<rparr>) = in_hand d U c s"
  by (rule in_hand_eq) simp

lemma in_hand_held2 [simp]: "in_hand d U c (s\<lparr>held := h, ftable := ft\<rparr>) = in_hand d U c (s\<lparr>ftable := ft\<rparr>)"
  by (simp add: in_hand_def files_def)

lemma in_hand_shape:
  assumes "in_hand d U c s"
  shows "length (ftable s) = NFILE" "length (ptable s) = NPROC" "\<And>j. j < NPROC \<Longrightarrow> length (p_ofile (ptable s ! j)) = NOFILE"
    "\<And>x. c = Some x \<Longrightarrow> x < NPROC" "cur s = c"
  using assms by (auto simp: in_hand_def fds_inv_def files_def)

text \<open>A change of one entry of the table.\<close>

lemma in_hand_file:
  assumes h: "in_hand d U c s"
    and r: "0 < uses (fds_of s) f + k \<Longrightarrow> f < NFILE \<and> uses (fds_of s) f + k \<le> f_ref x"
    and t: "0 < uses (fds_of s) f \<Longrightarrow> 0 < uses (fds_of s) f + k \<Longrightarrow> f \<notin> U' \<Longrightarrow> f_type x \<noteq> FD_NONE" and U: "U - {f} \<subseteq> U'"
  shows "in_hand (d(f := k)) U' c (s\<lparr>ftable := (ftable s)[f := x]\<rparr>)"
proof -
  have "fds_inv (d(f := k)) U' ((map (\<lambda>x. (f_ref x, f_type x = FD_NONE)) (ftable s))[f := (f_ref x, f_type x = FD_NONE)], fds_of s, cur s)"
    using h by (intro fds_inv_file [where U = U]) (use r t U in \<open>auto simp: in_hand_def files_def fds_of_def\<close>)
  then show ?thesis using h by (simp add: in_hand_def files_def fds_of_def map_update)
qed

lemma in_hand_live:
  assumes "in_hand d U c s" "0 < uses (fds_of s) f + d f"
  shows "f < NFILE" "uses (fds_of s) f + d f \<le> f_ref (ftable s ! f)" "1 \<le> f_ref (ftable s ! f)"
    "0 < uses (fds_of s) f \<Longrightarrow> f \<notin> U \<Longrightarrow> f_type (ftable s ! f) \<noteq> FD_NONE"
proof -
  have i: "fds_inv d U (map (\<lambda>x. (f_ref x, f_type x = FD_NONE)) (ftable s), fds_of s, cur s)"
    using assms(1) by (auto simp: in_hand_def files_def fds_of_def)
  note l = fds_inv_live [OF i assms(2)]
  show n: "f < NFILE" by (rule l(1))
  have len: "length (ftable s) = NFILE" by (rule in_hand_shape(1) [OF assms(1)])
  show "uses (fds_of s) f + d f \<le> f_ref (ftable s ! f)" "1 \<le> f_ref (ftable s ! f)"
    "0 < uses (fds_of s) f \<Longrightarrow> f \<notin> U \<Longrightarrow> f_type (ftable s ! f) \<noteq> FD_NONE"
    using l(2-4) n len by simp_all
qed

lemma okp_lock [simp]:
  "okp (lock l) Q B s \<longleftrightarrow> (l \<notin> held s \<longrightarrow> Q () (s\<lparr>held := insert l (held s)\<rparr>))"
  "okp (unlock l) Q B s \<longleftrightarrow> (l \<in> held s \<longrightarrow> Q () (s\<lparr>held := held s - {l}\<rparr>))"
  by (auto simp: lock_def unlock_def file_panics_def)

lemma okp_table [simp]:
  "okp (get_file f) R B s = R (ftable s ! f) s"
  "okp (set_file f g) Q B s = Q () (s\<lparr>ftable := (ftable s)[f := g (ftable s ! f)]\<rparr>)"
  "okp (get_proc j) P B s = P (ptable s ! j) s"
  "okp (set_proc j k) Q B s = Q () (s\<lparr>ptable := (ptable s)[j := k (ptable s ! j)]\<rparr>)"
  "okp curproc N B s \<longleftrightarrow> (case cur s of None \<Rightarrow> True | Some c \<Rightarrow> N c s)"
  by (simp_all add: get_file_def set_file_def get_proc_def set_proc_def curproc_def file_panics_def split: option.splits)

lemma free_file_Some: "free_file fs = Some f \<Longrightarrow> f < NFILE \<and> f_ref (fs ! f) = 0"
  unfolding free_file_def using find_first [of "\<lambda>f. f_ref (fs ! f) = 0" 0 NFILE f] by simp

lemma okp_filealloc:
  assumes h: "in_hand d U c s" and d: "\<forall>f. 0 \<le> d f"
  shows "okp filealloc (\<lambda>r t. fds_of t = fds_of s \<and> (case r of None \<Rightarrow> in_hand d U c t | Some f \<Rightarrow> in_hand (d(f := d f + 1)) U c t))
    (\<lambda>_ _. False) s"
proof (cases "free_file (ftable s)")
  case None
  then show ?thesis using h by (simp add: filealloc_def)
next
  case (Some f)
  have f: "f < NFILE" "f_ref (ftable s ! f) = 0" using free_file_Some [OF Some] by simp_all
  have z: "uses (fds_of s) f + d f \<le> 0" using in_hand_live(3) [OF h, of f] f(2) by force
  then have z2: "uses (fds_of s) f = 0" "d f = 0" using d uses_nonneg [of "fds_of s" f] by (smt (verit))+
  have "in_hand (d(f := d f + 1)) U c (s\<lparr>ftable := (ftable s)[f := (ftable s ! f)\<lparr>f_ref := 1\<rparr>]\<rparr>)"
    by (rule in_hand_file [where U = U]) (use h f z2 in auto)
  then show ?thesis using Some by (simp add: filealloc_def)
qed

lemma okp_filedup:
  assumes h: "in_hand d U c s" and l: "0 < uses (fds_of s) f + d f"
  shows "okp (filedup f) (\<lambda>g t. g = f \<and> fds_of t = fds_of s \<and> in_hand (d(f := d f + 1)) U c t) (\<lambda>_ _. False) s"
proof -
  let ?x = "ftable s ! f"
  note lv = in_hand_live [OF h l]
  have "in_hand (d(f := d f + 1)) U c (s\<lparr>ftable := (ftable s)[f := ?x\<lparr>f_ref := f_ref ?x + 1\<rparr>]\<rparr>)"
    by (rule in_hand_file [where U = U]) (use h lv in auto)
  then show ?thesis using lv(3) by (simp add: filedup_def file_panics_def)
qed

lemma okp_fileclose:
  assumes h: "in_hand d U c s" and l: "0 < uses (fds_of s) f + d f"
  shows "okp (fileclose f) (\<lambda>_ t. fds_of t = fds_of s \<and> in_hand (d(f := d f - 1)) U c t)
    (\<lambda>w t. fds_of t = fds_of s \<and> in_hand (d(f := d f - 1)) U c t \<and> w \<noteq> SwExit) s"
proof -
  let ?x = "ftable s ! f" and ?d = "d(f := d f - 1)"
  note lv = in_hand_live [OF h l]
  have len: "f < length (ftable s)" using lv(1) in_hand_shape(1) [OF h] by simp
  have more: "in_hand ?d U c (s\<lparr>ftable := (ftable s)[f := ?x\<lparr>f_ref := f_ref ?x - 1\<rparr>]\<rparr>)"
    by (rule in_hand_file [where U = U]) (use h lv l in auto)
  have last: "in_hand ?d U c (s\<lparr>ftable := (ftable s)[f := ?x\<lparr>f_ref := 0, f_type := FD_NONE\<rparr>]\<rparr>)" if "f_ref ?x = 1"
    by (rule in_hand_file [where U = U]) (use h lv l that in auto)
  have rest: "okp (case f_type y of FD_PIPE \<Rightarrow> pipeclose (f_pipe y) (f_writable y) | FD_INODE \<Rightarrow> iput (f_ip y) | FD_NONE \<Rightarrow> skip)
      (\<lambda>_ t. fds_of t = fds_of s \<and> in_hand ?d U c t) (\<lambda>w t. fds_of t = fds_of s \<and> in_hand ?d U c t \<and> w \<noteq> SwExit) t"
    if "fds_of t = fds_of s" "in_hand ?d U c t" for y t
    by (cases "f_type y"; simp only: ftype.case; rule okp_keeps; (simp add: files_kept)?)
      (use that in_hand_eq files_eqD in metis)+
  show ?thesis
  proof (cases "f_ref ?x = 1")
    case True
    then show ?thesis using last len lv(3) rest [of "s\<lparr>ftable := (ftable s)[f := ?x\<lparr>f_ref := 0, f_type := FD_NONE\<rparr>]\<rparr>" "?x\<lparr>f_ref := 0\<rparr>"]
      by (simp add: fileclose_def file_panics_def cong: ftype.case_cong)
  next
    case False
    then show ?thesis using more len lv(3) by (simp add: fileclose_def file_panics_def)
  qed
qed

section \<open>Descriptors\<close>

lemma in_hand_put:
  assumes "in_hand d U c s" "j < NPROC" "fd < NOFILE"
  shows "in_hand (d(f := d f - 1)) (insert f U) c
    (s\<lparr>ptable := (ptable s)[j := (ptable s ! j)\<lparr>p_ofile := (p_ofile (ptable s ! j))[fd := Some f]\<rparr>]\<rparr>)"
proof -
  have j: "j < length (ptable s)" using assms(2) in_hand_shape(2) [OF assms(1)] by simp
  have "fds_inv (d(f := d f - 1)) (insert f U) (map (\<lambda>x. (f_ref x, f_type x = FD_NONE)) (ftable s), put_fd j fd (Some f) (fds_of s), cur s)"
    by (rule fds_inv_put) (use assms in \<open>auto simp: in_hand_def files_def fds_of_def\<close>)
  then show ?thesis using assms(1) j by (simp add: in_hand_def files_def fds_of_def put_fd_def map_update)
qed

lemma in_hand_clear:
  assumes "in_hand d U c s" "j < NPROC" "fd < NOFILE" "p_ofile (ptable s ! j) ! fd = Some f"
  shows "in_hand (d(f := d f + 1)) U c
    (s\<lparr>ptable := (ptable s)[j := (ptable s ! j)\<lparr>p_ofile := (p_ofile (ptable s ! j))[fd := None]\<rparr>]\<rparr>)"
proof -
  have j: "j < length (ptable s)" using assms(2) in_hand_shape(2) [OF assms(1)] by simp
  have "fds_inv (d(f := d f + 1)) U (map (\<lambda>x. (f_ref x, f_type x = FD_NONE)) (ftable s), put_fd j fd None (fds_of s), cur s)"
    by (rule fds_inv_clear) (use assms j in \<open>auto simp: in_hand_def files_def fds_of_def\<close>)
  then show ?thesis using assms(1) j by (simp add: in_hand_def files_def fds_of_def put_fd_def map_update)
qed

lemma in_hand_typed:
  assumes "in_hand d (insert f U) c s" "f < NFILE" "f_type (ftable s ! f) \<noteq> FD_NONE"
  shows "in_hand d U c s"
proof -
  have "\<not> snd (map (\<lambda>x. (f_ref x, f_type x = FD_NONE)) (ftable s) ! f)" using assms in_hand_shape(1) [OF assms(1)] by simp
  then have "fds_inv d U (files s)"
    using assms(1) by (auto simp: in_hand_def files_def intro: fds_inv_typed)
  then show ?thesis using assms(1) by (simp add: in_hand_def)
qed

lemma in_hand_uses:
  assumes "in_hand d U c s" "j < NPROC" "fd < NOFILE" "p_ofile (ptable s ! j) ! fd = Some f"
  shows "0 < uses (fds_of s) f"
  using assms in_hand_shape [OF assms(1)] by (intro uses_pos [of j _ fd]) (simp_all add: fds_of_def)

text \<open>Between the calls nothing is in hand.\<close>

definition settled :: "nat option \<Rightarrow> 'z file_state_scheme \<Rightarrow> bool" where
  "settled c s \<longleftrightarrow> in_hand (\<lambda>_. 0) {} c s"

lemma settled_step: "settled c s \<Longrightarrow> files t = files s \<Longrightarrow> settled c t"
  unfolding settled_def using in_hand_eq by blast

lemma fds_ok_settled: "fds_ok s \<longleftrightarrow> settled (cur s) s"
  by (simp add: fds_ok_inv settled_def in_hand_def)

definition settles :: "('z file_state_scheme, switch, 'a) prog \<Rightarrow> bool" where
  "settles m \<longleftrightarrow> (\<forall>s c. settled c s \<longrightarrow> okp m (\<lambda>_. settled c) (\<lambda>w t. settled c t \<and> w \<noteq> SwExit) s)"

lemma settlesI:
  "(\<And>s c. settled c s \<Longrightarrow> okp m (\<lambda>_. settled c) (\<lambda>w t. settled c t \<and> w \<noteq> SwExit) s) \<Longrightarrow> settles m"
  by (simp add: settles_def)

lemma keeps_settles: "files_kept m \<Longrightarrow> settles m"
  by (rule settlesI) (rule okp_keeps, auto elim: settled_step)

text \<open>A step that changes no descriptor, then the rest of a call.\<close>

lemma okp_keeps_bnd:
  fixes s :: "'z file_state_scheme"
  assumes "files_kept m" "settled c s" "\<And>a t. settled c t \<Longrightarrow> okp (f a) (\<lambda>_. settled c) (\<lambda>w t. settled c t \<and> w \<noteq> SwExit) t"
  shows "okp (bnd m f) (\<lambda>_. settled c) (\<lambda>w t. settled c t \<and> w \<noteq> SwExit) s"
  unfolding okp_bnd
proof (rule okp_keeps [OF assms(1)])
  fix a and t :: "'z file_state_scheme" assume "files t = files s"
  then have "settled c t" by (rule settled_step [OF assms(2)])
  then show "okp (f a) (\<lambda>_. settled c) (\<lambda>w t. settled c t \<and> w \<noteq> SwExit) t" by (rule assms(3))
qed (use assms(2) in \<open>auto elim: settled_step\<close>)

text \<open>What \<open>argfd\<close> returns is a descriptor of the running process.\<close>

definition is_fd :: "nat option \<Rightarrow> nat \<Rightarrow> nat \<Rightarrow> 'z file_state_scheme \<Rightarrow> bool" where
  "is_fd c fd f s \<longleftrightarrow> (\<exists>j. c = Some j \<and> fd < NOFILE \<and> p_ofile (ptable s ! j) ! fd = Some f)"

lemma sint_index: "\<not> sint (w :: u32) < 0 \<Longrightarrow> \<not> int n \<le> sint w \<Longrightarrow> unat w < n"
proof -
  assume w: "\<not> sint w < 0" "\<not> int n \<le> sint w"
  have "unat w < 4294967296" using unsigned_less [of w] by simp
  then show ?thesis using w by (simp add: sint_u32 split: if_splits del: of_nat_unat)
qed

lemma okp_argfd:
  assumes "settled c s"
    and "\<And>t. settled c t \<Longrightarrow> Q None t" "\<And>fd f t. settled c t \<Longrightarrow> is_fd c fd f t \<Longrightarrow> Q (Some (fd, f)) t"
    and "\<And>w t. settled c t \<Longrightarrow> w \<noteq> SwExit \<Longrightarrow> B w t"
  shows "okp (argfd n) Q B s"
proof -
  let ?rest = "\<lambda>r :: u32 option. case r of None \<Rightarrow> ret None | Some w \<Rightarrow>
         bnd curproc (\<lambda>c. bnd (get_proc c) (\<lambda>p.
         if sint w < 0 \<or> int NOFILE \<le> sint w then ret None
         else case p_ofile p ! unat w of None \<Rightarrow> ret None | Some f \<Rightarrow> ret (Some (unat w, f))))"
  have "okp (?rest r) Q B t" if "settled c t" for r t
  proof -
    have c: "cur t = c" using that by (simp add: settled_def in_hand_def)
    show ?thesis
    proof (cases r)
      case (Some w)
      have "Q (Some (unat w, f)) t" if "cur t = Some j" "\<not> sint w < 0" "\<not> int NOFILE \<le> sint w" "p_ofile (ptable t ! j) ! unat w = Some f" for j f
        by (rule assms(3) [OF \<open>settled c t\<close>]) (use that(1,4) c sint_index [OF that(2,3)] in \<open>simp add: is_fd_def\<close>)
      then show ?thesis using Some assms(2) [OF that] by (simp split: option.splits)
    qed (use assms(2) [OF that] in simp)
  qed
  then have "okp (argint n) (\<lambda>r. okp (?rest r) Q B) B s"
    by (rule okp_keeps [OF keeps_argint]) (auto intro: assms(4) settled_step [OF assms(1)])
  then show ?thesis by (simp add: argfd_def)
qed

lemma is_fd_file:
  assumes "settled c s" "is_fd c fd f s"
  shows "0 < uses (fds_of s) f" "f < NFILE" "f_type (ftable s ! f) \<noteq> FD_NONE"
proof -
  have h: "in_hand (\<lambda>_. 0) {} c s" using assms(1) by (simp add: settled_def)
  obtain j where j: "c = Some j" "fd < NOFILE" "p_ofile (ptable s ! j) ! fd = Some f" using assms(2) by (auto simp: is_fd_def)
  show u: "0 < uses (fds_of s) f" using in_hand_uses [OF h in_hand_shape(4) [OF h j(1)] j(2,3)] .
  show "f < NFILE" "f_type (ftable s ! f) \<noteq> FD_NONE" using in_hand_live(1,4) [OF h, of f] u by simp_all
qed

text \<open>A free descriptor of the running process takes a reference from the hand.\<close>

lemma free_fd_Some: "free_fd p = Some fd \<Longrightarrow> fd < NOFILE \<and> p_ofile p ! fd = None"
  unfolding free_fd_def using find_first [of "\<lambda>fd. p_ofile p ! fd = None" 0 NOFILE fd] by simp

lemma okp_fdalloc:
  assumes h: "in_hand d U c s"
  shows "okp (fdalloc f) (\<lambda>r t. ftable t = ftable s \<and> (case r of
       None \<Rightarrow> in_hand d U c t \<and> ptable t = ptable s
     | Some fd \<Rightarrow> in_hand (d(f := d f - 1)) (insert f U) c t \<and> is_fd c fd f t \<and> uses (fds_of t) f = uses (fds_of s) f + 1)) (\<lambda>_ _. False) s"
proof (cases c)
  case None
  then show ?thesis using in_hand_shape(5) [OF h] by (simp add: fdalloc_def)
next
  case (Some j)
  note sh = in_hand_shape [OF h]
  have c: "cur s = Some j" "j < NPROC" using sh(4,5) Some by simp_all
  show ?thesis
  proof (cases "free_fd (ptable s ! j)")
    case None
    then show ?thesis using c h by (simp add: fdalloc_def)
  next
    case (Some fd)
    note fd = free_fd_Some [OF Some]
    let ?t = "s\<lparr>ptable := (ptable s)[j := (ptable s ! j)\<lparr>p_ofile := (p_ofile (ptable s ! j))[fd := Some f]\<rparr>]\<rparr>"
    have "uses (put_fd j fd (Some f) (fds_of s)) f = uses (fds_of s) f + 1"
      using c(2) sh(2,3) fd by (subst uses_put) (simp_all add: fds_of_def)
    moreover have "fds_of ?t = put_fd j fd (Some f) (fds_of s)" using c(2) sh(2) by (simp add: fds_of_def put_fd_def map_update)
    moreover have "in_hand (d(f := d f - 1)) (insert f U) c ?t" using in_hand_put [OF h c(2)] fd by simp
    moreover have "is_fd c fd f ?t" using \<open>c = Some j\<close> c(2) sh(2,3) fd by (simp add: is_fd_def)
    ultimately show ?thesis using c Some by (simp add: fdalloc_def set_fd_def)
  qed
qed

section \<open>The file system calls\<close>

lemma hand_back [simp]: "(d(f := k))(f := d f) = d" "(\<lambda>_. 0)(f := 0) = (\<lambda>_. 0)"
  by auto

text \<open>One reference to the file \<open>f\<close> in hand.\<close>

definition one_ref :: "nat \<Rightarrow> nat \<Rightarrow> int" where
  "one_ref f = (\<lambda>_. 0)(f := 1)"

lemma one_ref [simp]: "one_ref f f = 1" "(one_ref f)(f := 0) = (\<lambda>_. 0)" "0 \<le> one_ref f g"
  by (auto simp: one_ref_def)

lemma keeps_sys_fstat: "files_kept sys_fstat"
  unfolding sys_fstat_def by (intro files_kept)

text \<open>Reading and writing panic only on a file of no type.\<close>

lemma okp_fileread:
  assumes "settled c s" "f_type (ftable s ! f) \<noteq> FD_NONE"
  shows "okp (fileread f n) (\<lambda>_. settled c) (\<lambda>w t. settled c t \<and> w \<noteq> SwExit) s"
proof -
  let ?x = "ftable s ! f"
  let ?m = "if \<not> f_readable ?x then ret None
     else case f_type ?x of
       FD_PIPE \<Rightarrow> piperead (f_pipe ?x) (nat (sint n))
     | FD_INODE \<Rightarrow>
         thn (ilock (f_ip ?x)) (
         bnd (readi (f_ip ?x) (f_off ?x) n) (\<lambda>r.
         thn (case r of
                Some bs \<Rightarrow> whenP (bs \<noteq> []) (set_file f (\<lambda>x. x\<lparr>f_off := f_off x + of_nat (length bs)\<rparr>))
              | None \<Rightarrow> skip) (
         thn (iunlock (f_ip ?x)) (ret r))))
     | FD_NONE \<Rightarrow> panic ''fileread''"
  have "files_kept ?m" using assms(2) by (cases "f_type ?x"; simp only: ftype.case; intro files_kept; simp)
  then have "okp ?m (\<lambda>_. settled c) (\<lambda>w t. settled c t \<and> w \<noteq> SwExit) s"
    by (rule okp_keeps) (auto elim: settled_step [OF assms(1)])
  then show ?thesis by (simp only: fileread_def okp_bnd okp_table)
qed

lemma okp_filewrite:
  assumes "settled c s" "f_type (ftable s ! f) \<noteq> FD_NONE"
  shows "okp (filewrite f src n) (\<lambda>_. settled c) (\<lambda>w t. settled c t \<and> w \<noteq> SwExit) s"
proof -
  let ?x = "ftable s ! f"
  let ?m = "if \<not> f_writable ?x then ret (- 1)
     else case f_type ?x of
       FD_PIPE \<Rightarrow>
         bnd (pipewrite (f_pipe ?x) (map src [0..<nat (sint n)])) (\<lambda>r. case r of
           Inl k \<Rightarrow> ret (if k = - 1 then - 1 else sint n)
         | Inr rest \<Rightarrow> block_on (SwSleep (ChPipeWrite (f_pipe ?x)) (Lpipe (f_pipe ?x))))
     | FD_INODE \<Rightarrow>
         thn (ilock (f_ip ?x)) (
         bnd (writei (f_ip ?x) src (f_off ?x) n) (\<lambda>r.
         thn (whenP (0 < r) (set_file f (\<lambda>x. x\<lparr>f_off := f_off x + of_int r\<rparr>))) (
         thn (iunlock (f_ip ?x)) (ret r))))
     | FD_NONE \<Rightarrow> panic ''filewrite''"
  have "files_kept ?m" using assms(2) by (cases "f_type ?x"; simp only: ftype.case; intro files_kept; simp)
  then have "okp ?m (\<lambda>_. settled c) (\<lambda>w t. settled c t \<and> w \<noteq> SwExit) s"
    by (rule okp_keeps) (auto elim: settled_step [OF assms(1)])
  then show ?thesis by (simp only: filewrite_def okp_bnd okp_table)
qed

text \<open>The file that \<open>rw_args\<close> finds is in use.\<close>

lemma settled_used:
  assumes "settled c s" "0 < uses (fds_of s) f"
  shows "f < NFILE" "f_type (ftable s ! f) \<noteq> FD_NONE"
  using in_hand_live(1,4) [of "\<lambda>_. 0" "{}" c s f] assms by (simp_all add: settled_def)

lemma okp_rw_args:
  fixes s :: "'z file_state_scheme"
  assumes "settled c s"
    and none: "\<And>t. settled c t \<Longrightarrow> Q None t"
    and some: "\<And>f p n t. settled c t \<Longrightarrow> f_type (ftable t ! f) \<noteq> FD_NONE \<Longrightarrow> Q (Some (f, p, n)) t"
    and wait: "\<And>w t. settled c t \<Longrightarrow> w \<noteq> SwExit \<Longrightarrow> B w t"
  shows "okp rw_args Q B s"
proof -
  let ?args = "\<lambda>f. bnd (argint 2) (\<lambda>r. case r of None \<Rightarrow> ret None | Some n \<Rightarrow>
     bnd (argptr 1 n) (\<lambda>r. case r of None \<Rightarrow> ret None | Some p \<Rightarrow> ret (Some (f, p, n))))"
  have args: "okp (?args f) Q B t" if t: "settled c t" "0 < uses (fds_of t) f" for f t
  proof -
    have used: "0 < uses (fds_of u) f \<and> settled c u" if "files u = files t" for u
      using files_eqD [OF that] t settled_step [OF t(1) that] by simp
    have q: "Q None u" and b: "w \<noteq> SwExit \<Longrightarrow> B w u" if "files u = files t" for u w
      using used [OF that] none wait by blast+
    have fin: "Q (Some (f, p, n)) u" if "files u = files t" for p n u
      by (rule some) (use used [OF that] settled_used(2) in blast)+
    have "okp (argptr 1 n) (\<lambda>r. okp (case r of None \<Rightarrow> ret None | Some p \<Rightarrow> ret (Some (f, p, n))) Q B) B u" if u: "files u = files t" for n u
      by (rule okp_keeps [OF keeps_argptr]) (auto simp: u intro: q b fin split: option.splits)
    then have "okp (argint 2) (\<lambda>r. okp (case r of None \<Rightarrow> ret None | Some n \<Rightarrow>
       bnd (argptr 1 n) (\<lambda>r. case r of None \<Rightarrow> ret None | Some p \<Rightarrow> ret (Some (f, p, n)))) Q B) B t"
      by (intro okp_keeps [OF keeps_argint]) (auto intro: q b split: option.splits)
    then show ?thesis by simp
  qed
  show ?thesis
    unfolding rw_args_def okp_bnd
  proof (rule okp_argfd [OF assms(1)], unfold option.case prod.case)
    fix fd f and t :: "'z file_state_scheme" assume t: "settled c t" "is_fd c fd f t"
    show "okp (?args f) Q B t" by (rule args [OF t(1) is_fd_file(1) [OF t]])
  qed (use none wait in simp_all)
qed

lemma settles_sys_read: "settles sys_read"
proof (rule settlesI)
  fix s :: "'z file_state_scheme" and c assume s: "settled c s"
  have "okp (bnd (fileread f n) (\<lambda>r. case r of None \<Rightarrow> ret (- 1) | Some bs \<Rightarrow> thn (ustores p bs) (ret (int (length bs)))))
      (\<lambda>_. settled c) (\<lambda>w t. settled c t \<and> w \<noteq> SwExit) t"
    if t: "settled c t" "f_type (ftable t ! f) \<noteq> FD_NONE" for f p n t
  proof -
    have "okp (case r of None \<Rightarrow> ret (- 1) | Some bs \<Rightarrow> thn (ustores p bs) (ret (int (length bs))))
      (\<lambda>_. settled c) (\<lambda>w t. settled c t \<and> w \<noteq> SwExit) u" if "settled c u" for r u
      by (rule okp_keeps) (intro files_kept, auto elim: settled_step [OF that])
    then show ?thesis unfolding okp_bnd by (intro okp_mono [OF okp_fileread [OF t]]) auto
  qed
  then show "okp sys_read (\<lambda>_. settled c) (\<lambda>w t. settled c t \<and> w \<noteq> SwExit) s"
    unfolding sys_read_def okp_bnd by (intro okp_rw_args [OF s]) auto
qed

lemma settles_sys_write: "settles sys_write"
proof (rule settlesI)
  fix s :: "'z file_state_scheme" and c assume s: "settled c s"
  show "okp sys_write (\<lambda>_. settled c) (\<lambda>w t. settled c t \<and> w \<noteq> SwExit) s"
    unfolding sys_write_def okp_bnd by (rule okp_rw_args [OF s]) (auto simp: user_bytes_def okp_filewrite)
qed

lemma settles_sys_close: "settles sys_close"
proof (rule settlesI)
  fix s :: "'z file_state_scheme" and c assume s: "settled c s"
  have "okp (thn (set_fd fd None) (thn (fileclose f) (ret 0))) (\<lambda>_. settled c) (\<lambda>w t. settled c t \<and> w \<noteq> SwExit) t"
    if t: "settled c t" "is_fd c fd f t" for fd f t
  proof -
    obtain j where j: "c = Some j" "fd < NOFILE" "p_ofile (ptable t ! j) ! fd = Some f" using t(2) by (auto simp: is_fd_def)
    have h: "in_hand (\<lambda>_. 0) {} c t" using t(1) by (simp add: settled_def)
    note sh = in_hand_shape [OF h]
    let ?u = "t\<lparr>ptable := (ptable t)[j := (ptable t ! j)\<lparr>p_ofile := (p_ofile (ptable t ! j))[fd := None]\<rparr>]\<rparr>"
    have u: "in_hand (one_ref f) {} c ?u" using in_hand_clear [OF h sh(4) [OF j(1)] j(2,3)] by (simp add: one_ref_def)
    have "0 < uses (fds_of ?u) f + one_ref f f" using uses_nonneg [of "fds_of ?u" f] by simp
    then have "okp (fileclose f) (\<lambda>_. settled c) (\<lambda>w t. settled c t \<and> w \<noteq> SwExit) ?u"
      by (intro okp_mono [OF okp_fileclose [OF u]]) (simp_all add: settled_def)
    then show ?thesis using sh(5) j(1) by (simp add: set_fd_def)
  qed
  then show "okp sys_close (\<lambda>_. settled c) (\<lambda>w t. settled c t \<and> w \<noteq> SwExit) s"
    unfolding sys_close_def okp_bnd by (intro okp_argfd [OF s]) auto
qed

lemma settles_sys_dup: "settles sys_dup"
proof (rule settlesI)
  fix s :: "'z file_state_scheme" and c assume s: "settled c s"
  let ?rest = "\<lambda>f r. case r of None \<Rightarrow> ret (- 1) | Some fd \<Rightarrow> thn (filedup f) (ret (int fd))"
  have "okp (bnd (fdalloc f) (?rest f)) (\<lambda>_. settled c) (\<lambda>w t. settled c t \<and> w \<noteq> SwExit) t"
    if t: "settled c t" "is_fd c fd f t" for fd f t
  proof -
    have h: "in_hand (\<lambda>_. 0) {} c t" using t(1) by (simp add: settled_def)
    note f = is_fd_file [OF t]
    have "okp (thn (filedup f) (ret k)) (\<lambda>_. settled c) (\<lambda>w t. settled c t \<and> w \<noteq> SwExit) u"
      if u: "in_hand ((\<lambda>_. 0)(f := - 1)) {f} c u" "ftable u = ftable t" "uses (fds_of u) f = uses (fds_of t) f + 1" for u and k :: int
    proof -
      have "in_hand ((\<lambda>_. 0)(f := - 1)) {} c u" by (rule in_hand_typed [OF u(1) f(2)]) (use u(2) f(3) in simp)
      then show ?thesis unfolding okp_thn
        by (intro okp_mono [OF okp_filedup]) (use u(3) f(1) in \<open>auto simp: settled_def\<close>)
    qed
    then show ?thesis
      unfolding okp_bnd by (intro okp_mono [OF okp_fdalloc [OF h]]) (auto simp: settled_def split: option.splits)
  qed
  then show "okp sys_dup (\<lambda>_. settled c) (\<lambda>w t. settled c t \<and> w \<noteq> SwExit) s"
    unfolding sys_dup_def okp_bnd by (intro okp_argfd [OF s]) auto
qed

section \<open>Opening\<close>

text \<open>\<open>iunlock\<close> never gives up the CPU.\<close>

lemma okp_iunlock: "okp (iunlock i) (\<lambda>_ t. files t = files s) (\<lambda>_ _. False) s"
  by (simp add: iunlock_def get_inode_def set_inode_def wakeup_def wakeup1_def file_panics_def files_def o_def)

text \<open>A step that changes no descriptor, with files in hand.\<close>

lemma okp_keeps_hand:
  assumes "files_kept m" "in_hand d U c s" "\<And>a t. files t = files s \<Longrightarrow> in_hand d U c t \<Longrightarrow> Q a t"
    "\<And>w t. in_hand d U c t \<Longrightarrow> w \<noteq> SwExit \<Longrightarrow> B w t"
  shows "okp m Q B s"
  by (rule okp_keeps [OF assms(1)]) (use assms(2-) in_hand_eq in blast)+

lemma settles_sys_open: "settles sys_open"
proof (rule settlesI)
  fix s :: "'z file_state_scheme" and c assume s: "settled c s"
  let ?Q = "\<lambda>_ (t :: 'z file_state_scheme). settled c t" and ?B = "\<lambda>w (t :: 'z file_state_scheme). settled c t \<and> w \<noteq> SwExit"
  let ?set = "\<lambda>i omode f. set_file f (\<lambda>x. x\<lparr>f_type := FD_INODE, f_ip := i, f_off := 0,
                    f_readable := omode AND O_WRONLY = 0,
                    f_writable := omode AND O_WRONLY \<noteq> 0 \<or> omode AND O_RDWR \<noteq> 0\<rparr>)"
  let ?tail = "\<lambda>i (omode :: u32) f r. case r of
           None \<Rightarrow> thn (fileclose f) (thn (iunlockput i) (ret (- 1)))
         | Some fd \<Rightarrow> thn (iunlock i) (thn (?set i omode f) (ret (int fd)))"
  let ?alloc = "\<lambda>i omode r. case r of None \<Rightarrow> thn (iunlockput i) (ret (- 1)) | Some f \<Rightarrow> bnd (fdalloc f) (?tail i omode f)"
  have give_up: "okp (thn (iunlockput i) (ret (- 1))) ?Q ?B t" if "settled c t" for i t
    unfolding okp_thn by (rule okp_keeps [OF keeps_iunlockput]) (auto elim: settled_step [OF that])
  have bad: "okp (?tail i omode f None) ?Q ?B t" if t: "in_hand (one_ref f) {} c t" for i omode f t
  proof -
    have l: "0 < uses (fds_of t) f + one_ref f f" using uses_nonneg [of "fds_of t" f] by simp
    show ?thesis unfolding option.case okp_thn
      by (rule okp_mono [OF okp_fileclose [OF t l]]) (use give_up in \<open>auto simp: settled_def\<close>)
  qed
  have good: "okp (?tail i omode f (Some fd)) ?Q ?B t" if t: "in_hand (\<lambda>_. 0) {f} c t" for i omode f fd t
  proof -
    have "settled c (u\<lparr>ftable := (ftable u)[f := (ftable u ! f)\<lparr>f_type := FD_INODE, f_ip := i, f_off := 0, f_readable := a, f_writable := b\<rparr>]\<rparr>)"
      if "files u = files t" for u a b
    proof -
      have u: "in_hand (\<lambda>_. 0) {f} c u" using t in_hand_eq [OF that] by simp
      have "in_hand ((\<lambda>_. 0)(f := 0)) {} c (u\<lparr>ftable := (ftable u)[f := (ftable u ! f)\<lparr>f_type := FD_INODE, f_ip := i, f_off := 0, f_readable := a, f_writable := b\<rparr>]\<rparr>)"
        by (rule in_hand_file [OF u]) (use in_hand_live [OF u, of f] in auto)
      then show ?thesis by (simp add: settled_def)
    qed
    then show ?thesis unfolding option.case okp_thn by (intro okp_mono [OF okp_iunlock]) auto
  qed
  have alloc: "okp (?alloc i omode r) ?Q ?B t"
    if "case r of None \<Rightarrow> settled c t | Some f \<Rightarrow> in_hand (one_ref f) {} c t" for i omode r t
  proof (cases r)
    case (Some f)
    have t: "in_hand (one_ref f) {} c t" using that Some by simp
    have fin: "okp (?tail i omode f q) ?Q ?B u"
      if "case q of None \<Rightarrow> in_hand (one_ref f) {} c u | Some fd \<Rightarrow> in_hand ((one_ref f)(f := one_ref f f - 1)) (insert f {}) c u" for q u
      using that bad good by (cases q) simp_all
    show ?thesis unfolding Some option.case okp_bnd
      by (rule okp_mono [OF okp_fdalloc [OF t]], rule fin) (auto split: option.splits)
  qed (use that give_up in simp)
  have "okp (bnd filealloc (?alloc i omode)) ?Q ?B t" if "settled c t" for i omode t
    unfolding okp_bnd using that
    by (intro okp_mono [OF okp_filealloc [of "\<lambda>_. 0" "{}" c t]] alloc) (simp_all add: settled_def one_ref_def split: option.splits)
  then show "okp sys_open ?Q ?B s"
    unfolding sys_open_def
    by (intro okp_keeps_bnd [OF keeps_argstr s] okp_keeps_bnd [OF keeps_argint] okp_keeps_bnd [OF keeps_open_inode])
       (auto split: option.splits intro!: okp_keeps_bnd [OF keeps_argint] okp_keeps_bnd [OF keeps_open_inode] simp del: okp_bnd)
qed

section \<open>Pipes\<close>

text \<open>Both ends of a new pipe are in hand.\<close>

definition two_refs :: "nat \<Rightarrow> nat \<Rightarrow> nat \<Rightarrow> int" where
  "two_refs f g = (one_ref f)(g := one_ref f g + 1)"

lemma two_refs [simp]:
  "0 \<le> two_refs f g h" "1 \<le> two_refs f g f" "1 \<le> two_refs f g g"
  "(two_refs f g)(f := two_refs f g f - 1) = one_ref g" "(two_refs f g)(g := two_refs f g g - 1) = one_ref f"
  "(one_ref f)(g := one_ref f g + 1) = two_refs f g"
  by (auto simp: two_refs_def one_ref_def)

lemma live: "1 \<le> d f \<Longrightarrow> 0 < uses ds f + d f"
  using uses_nonneg [of ds f] by linarith

text \<open>A call may give up the CPU with references in hand.\<close>

lemma in_hand_settled: "in_hand d {} c s \<Longrightarrow> \<forall>f. 0 \<le> d f \<Longrightarrow> settled c s"
  unfolding settled_def in_hand_def fds_inv_def by (auto split: prod.splits) (smt (verit))+

lemma okp_close_both:
  assumes h: "in_hand (two_refs f g) {} c s"
  shows "okp (thn (fileclose f) (fileclose g)) (\<lambda>_. settled c) (\<lambda>w t. settled c t \<and> w \<noteq> SwExit) s"
proof -
  have "okp (fileclose g) (\<lambda>_. settled c) (\<lambda>w t. settled c t \<and> w \<noteq> SwExit) t" if t: "in_hand (one_ref g) {} c t" for t
    by (rule okp_mono [OF okp_fileclose [OF t]]) (auto simp: settled_def intro: live)
  then show ?thesis unfolding okp_thn
    by (intro okp_mono [OF okp_fileclose [OF h]]) (auto intro!: live elim: in_hand_settled)
qed

text \<open>A file of no type gets its type while it is in hand.\<close>

lemma in_hand_set_type:
  assumes h: "in_hand d {} c s" and x: "f_ref x = f_ref (ftable s ! f)" "f_type x \<noteq> FD_NONE"
  shows "in_hand d {} c (s\<lparr>ftable := (ftable s)[f := x]\<rparr>)"
proof -
  have "in_hand (d(f := d f)) {} c (s\<lparr>ftable := (ftable s)[f := x]\<rparr>)"
    by (rule in_hand_file [OF h]) (use x in_hand_live [OF h, of f] in auto)
  then show ?thesis by simp
qed

lemma one_ref_live: "in_hand (one_ref f) U c s \<Longrightarrow> f < NFILE"
  by (rule in_hand_live(1)) (auto intro: live)

lemma two_refs_live: "in_hand (two_refs f g) U c s \<Longrightarrow> f < NFILE \<and> g < NFILE"
  by (auto intro!: in_hand_live(1) [of "two_refs f g" U c s] live)

lemma okp_pipealloc:
  fixes s :: "'z file_state_scheme"
  assumes s: "settled c s"
  shows "okp pipealloc (\<lambda>r t. case r of None \<Rightarrow> settled c t | Some (f, g) \<Rightarrow>
      in_hand (two_refs f g) {} c t \<and> f_type (ftable t ! f) \<noteq> FD_NONE \<and> f_type (ftable t ! g) \<noteq> FD_NONE)
    (\<lambda>w t. settled c t \<and> w \<noteq> SwExit) s"
proof -
  let ?Q = "\<lambda>r (t :: 'z file_state_scheme). case r of None \<Rightarrow> settled c t | Some (f, g) \<Rightarrow>
      in_hand (two_refs f g) {} c t \<and> f_type (ftable t ! f) \<noteq> FD_NONE \<and> f_type (ftable t ! g) \<noteq> FD_NONE"
  let ?B = "\<lambda>w (t :: 'z file_state_scheme). settled c t \<and> w \<noteq> SwExit"
  let ?page = "\<lambda>f0 f1 p. if p = 0 then thn (fileclose f0) (thn (fileclose f1) (ret None))
             else
               thn (upd (\<lambda>s. s\<lparr>pipes := (pipes s)(p := pipe_start (map (\<lambda>k. phys s (p + 52 + of_nat k)) [0..<PIPESIZE]))\<rparr>)) (
               thn (set_file f0 (pipe_file p False)) (
               thn (set_file f1 (pipe_file p True)) (ret (Some (f0, f1)))))"
  let ?second = "\<lambda>f0 r1. case r1 of
           None \<Rightarrow> thn (fileclose f0) (ret None)
         | Some f1 \<Rightarrow> bnd kalloc (?page f0 f1)"
  have page: "okp (?page f g p) ?Q ?B t" if t: "in_hand (two_refs f g) {} c t" for f g p t
  proof (cases "p = 0")
    case True
    have "okp (thn (fileclose f) (fileclose g)) (\<lambda>_. ?Q None) ?B t" using okp_close_both [OF t] by simp
    then show ?thesis using True by (simp add: okp_nest)
  next
    case False
    let ?u = "t\<lparr>pipes := (pipes t)(p := pipe_start (map (\<lambda>k. phys t (p + 52 + of_nat k)) [0..<PIPESIZE]))\<rparr>"
    let ?v = "?u\<lparr>ftable := (ftable ?u)[f := pipe_file p False (ftable ?u ! f)]\<rparr>"
    let ?w = "?v\<lparr>ftable := (ftable ?v)[g := pipe_file p True (ftable ?v ! g)]\<rparr>"
    have u: "in_hand (two_refs f g) {} c ?u" using t by (simp add: in_hand_eq [of ?u t])
    have v: "in_hand (two_refs f g) {} c ?v" by (rule in_hand_set_type [OF u]) (simp_all add: pipe_file_def)
    have w: "in_hand (two_refs f g) {} c ?w" by (rule in_hand_set_type [OF v]) (simp_all add: pipe_file_def)
    have "f < length (ftable t)" "g < length (ftable t)" using two_refs_live [OF t] in_hand_shape(1) [OF t] by simp_all
    then have "f_type (ftable ?w ! f) \<noteq> FD_NONE" "f_type (ftable ?w ! g) \<noteq> FD_NONE"
      by (cases "g = f"; simp add: pipe_file_def)+
    then have "?Q (Some (f, g)) ?w" using w by simp
    then show ?thesis using False by (simp del: two_refs)
  qed
  have second: "okp (?second f r) ?Q ?B t"
    if "case r of None \<Rightarrow> in_hand (one_ref f) {} c t | Some g \<Rightarrow> in_hand (two_refs f g) {} c t" for f r t
  proof (cases r)
    case None
    have t: "in_hand (one_ref f) {} c t" using that None by simp
    show ?thesis unfolding None option.case okp_thn
      by (rule okp_mono [OF okp_fileclose [OF t]]) (auto simp: settled_def intro: live)
  next
    case (Some g)
    have t: "in_hand (two_refs f g) {} c t" using that Some by simp
    show ?thesis unfolding Some option.case okp_bnd
      by (rule okp_keeps_hand [OF keeps_kalloc t]) (rule page, auto elim: in_hand_settled)
  qed
  have first: "okp (bnd filealloc (?second f)) ?Q ?B t" if t: "in_hand (one_ref f) {} c t" for f t
    unfolding okp_bnd by (rule okp_mono [OF okp_filealloc [OF t]], simp, rule second) (auto split: option.splits)
  have h: "in_hand (\<lambda>_. 0) {} c s" using s by (simp add: settled_def)
  have start: "okp (case r of None \<Rightarrow> ret None | Some f \<Rightarrow> bnd filealloc (?second f)) ?Q ?B t"
    if "case r of None \<Rightarrow> settled c t | Some f \<Rightarrow> in_hand (one_ref f) {} c t" for r t
  proof (cases r)
    case (Some f)
    then have "in_hand (one_ref f) {} c t" using that by simp
    then show ?thesis unfolding Some option.case by (rule first)
  qed (use that in simp)
  show ?thesis unfolding pipealloc_def okp_bnd
    by (rule okp_mono [OF okp_filealloc [OF h]], simp, rule start) (auto simp: settled_def one_ref_def split: option.splits)
qed

lemma in_hand_free:
  assumes t: "in_hand d U c t" and fd: "is_fd c fd f t"
    and Q: "\<And>u. in_hand (d(f := d f + 1)) U c u \<Longrightarrow> ftable u = ftable t \<Longrightarrow> Q () u"
  shows "okp (set_fd fd None) Q B t"
proof -
  obtain j where j: "c = Some j" "fd < NOFILE" "p_ofile (ptable t ! j) ! fd = Some f" using fd by (auto simp: is_fd_def)
  note sh = in_hand_shape [OF t]
  show ?thesis using Q in_hand_clear [OF t sh(4) [OF j(1)] j(2,3)] sh(5) j(1) by (simp add: set_fd_def)
qed

lemma settles_sys_pipe: "settles sys_pipe"
proof (rule settlesI)
  fix s :: "'z file_state_scheme" and c assume s: "settled c s"
  let ?Q = "\<lambda>_ (t :: 'z file_state_scheme). settled c t" and ?B = "\<lambda>w (t :: 'z file_state_scheme). settled c t \<and> w \<noteq> SwExit"
  let ?last = "\<lambda>a r w fd0 q. case q of
           None \<Rightarrow> thn (set_fd fd0 None) (thn (fileclose r) (thn (fileclose w) (ret (- 1))))
         | Some fd1 \<Rightarrow> thn (ustores a (bytes32 (of_nat fd0))) (thn (ustores (a + 4) (bytes32 (of_nat fd1))) (ret 0))"
  let ?fds = "\<lambda>a r w q. case q of
       None \<Rightarrow> thn (fileclose r) (thn (fileclose w) (ret (- 1)))
     | Some fd0 \<Rightarrow> bnd (fdalloc w) (?last a r w fd0)"
  have both: "okp (thn (fileclose r) (thn (fileclose w) (ret (- 1)))) ?Q ?B t" if t: "in_hand (two_refs r w) {} c t" for r w t
    using okp_close_both [OF t] by (simp add: okp_nest)
  have last: "okp (?last a r w fd0 q) ?Q ?B t"
    if "case q of None \<Rightarrow> in_hand (one_ref w) {} c t \<and> is_fd c fd0 r t | Some fd1 \<Rightarrow> settled c t" for a r w fd0 q t
  proof (cases q)
    case None
    have "in_hand (two_refs r w) {} c u" if "in_hand ((one_ref w)(r := one_ref w r + 1)) {} c u" for u
    proof -
      have "(one_ref w)(r := one_ref w r + 1) = two_refs r w" by (auto simp: two_refs_def one_ref_def)
      then show ?thesis using that by simp
    qed
    then show ?thesis using that both None
      by (simp del: two_refs okp_thn add: okp_nest(2)) (blast intro: in_hand_free)
  next
    case (Some fd1)
    have "files_kept (?last a r w fd0 (Some fd1))" unfolding option.case by (intro files_kept)
    then show ?thesis unfolding Some by (rule okp_keeps) (use that Some in \<open>auto elim: settled_step\<close>)
  qed
  have second: "okp (?fds a r w (Some fd0)) ?Q ?B t"
    if t: "in_hand (one_ref w) {} c t" "is_fd c fd0 r t" "f_type (ftable t ! w) \<noteq> FD_NONE" for a r w fd0 t
  proof -
    have "okp (?last a r w fd0 q) ?Q ?B u"
      if u: "ftable u = ftable t" "case q of None \<Rightarrow> in_hand (one_ref w) {} c u \<and> ptable u = ptable t
        | Some fd1 \<Rightarrow> in_hand ((one_ref w)(w := one_ref w w - 1)) (insert w {}) c u \<and> is_fd c fd1 w u \<and> uses (fds_of u) w = uses (fds_of t) w + 1" for q u
    proof (rule last, cases q)
      case None
      then show "case q of None \<Rightarrow> in_hand (one_ref w) {} c u \<and> is_fd c fd0 r u | Some fd1 \<Rightarrow> settled c u"
        using u t(2) by (simp add: is_fd_def)
    next
      case (Some fd1)
      then have "in_hand (\<lambda>_. 0) (insert w {}) c u" using u by simp
      then have "settled c u"
        using in_hand_typed one_ref_live [OF t(1)] u(1) t(3) by (metis settled_def)
      then show "case q of None \<Rightarrow> in_hand (one_ref w) {} c u \<and> is_fd c fd0 r u | Some fd1 \<Rightarrow> settled c u" using Some by simp
    qed
    then show ?thesis unfolding option.case okp_bnd by (intro okp_mono [OF okp_fdalloc [OF t(1)]]) auto
  qed
  have first: "okp (bnd (fdalloc r) (?fds a r w)) ?Q ?B t"
    if t: "in_hand (two_refs r w) {} c t" "f_type (ftable t ! r) \<noteq> FD_NONE" "f_type (ftable t ! w) \<noteq> FD_NONE" for a r w t
  proof -
    have "okp (?fds a r w q) ?Q ?B u"
      if u: "ftable u = ftable t" "case q of None \<Rightarrow> in_hand (two_refs r w) {} c u \<and> ptable u = ptable t
        | Some fd0 \<Rightarrow> in_hand ((two_refs r w)(r := two_refs r w r - 1)) (insert r {}) c u \<and> is_fd c fd0 r u \<and> uses (fds_of u) r = uses (fds_of t) r + 1" for q u
    proof (cases q)
      case None
      then have "in_hand (two_refs r w) {} c u" using u by simp
      then show ?thesis unfolding None option.case by (rule both)
    next
      case (Some fd0)
      then have h: "in_hand (one_ref w) (insert r {}) c u" "is_fd c fd0 r u" using u by simp_all
      have "in_hand (one_ref w) {} c u" by (rule in_hand_typed [OF h(1)]) (use two_refs_live [OF t(1)] u(1) t(2) in simp_all)
      then show ?thesis unfolding Some by (rule second) (use h u t(3) in simp_all)
    qed
    then show ?thesis unfolding okp_bnd by (intro okp_mono [OF okp_fdalloc [OF t(1)]]) auto
  qed
  let ?files = "\<lambda>a r. case r of None \<Rightarrow> ret (- 1) | Some (rfile, wfile) \<Rightarrow> bnd (fdalloc rfile) (?fds a rfile wfile)"
  have "okp (bnd pipealloc (?files a)) ?Q ?B t" if t: "settled c t" for a t
    unfolding okp_bnd
    by (rule okp_mono [OF okp_pipealloc [OF t]]) (use first in \<open>auto split: option.splits simp del: okp_bnd\<close>)
  then show "okp sys_pipe ?Q ?B s"
    unfolding sys_pipe_def by (intro okp_keeps_bnd [OF keeps_argptr s]) (auto split: option.splits simp del: okp_bnd)
qed

section \<open>Processes\<close>

lemma okp_conj: "okp m Q B s \<Longrightarrow> okp m Q' B' s \<Longrightarrow> okp m (\<lambda>a t. Q a t \<and> Q' a t) (\<lambda>w t. B w t \<and> B' w t) s"
  by (simp add: okp_def split: outcome.splits)

lemma okp_allocproc_slot: "okp allocproc (\<lambda>r _. \<forall>j. r = Some j \<longrightarrow> j < NPROC) (\<lambda>_ _. True) (s :: 'z file_state_scheme)"
proof -
  have f: "i < NPROC" if "find_unused u = Some i" for u :: "'z file_state_scheme" and i
    using find_first [of "\<lambda>i. p_state (ptable u ! i) = UNUSED" 0 NPROC i] that by (simp add: find_unused_def)
  have k: "okp kalloc Q (\<lambda>_ _. True) u" if "\<And>a t. Q a t" for Q and u :: "'z file_state_scheme"
    by (rule okp_keeps [OF keeps_kalloc]) (use that in auto)
  show ?thesis unfolding allocproc_def by (auto split: option.splits dest!: f intro!: k)
qed

lemma okp_allocproc:
  fixes s :: "'z file_state_scheme"
  assumes "settled c s" "\<And>t. settled c t \<Longrightarrow> Q None t" "\<And>j t. settled c t \<Longrightarrow> j < NPROC \<Longrightarrow> Q (Some j) t"
    "\<And>w t. settled c t \<Longrightarrow> w \<noteq> SwExit \<Longrightarrow> B w t"
  shows "okp allocproc Q B s"
proof -
  have "okp allocproc (\<lambda>_. settled c) (\<lambda>w t. settled c t \<and> w \<noteq> SwExit) s"
    by (rule okp_keeps [OF keeps_allocproc]) (auto elim: settled_step [OF assms(1)])
  then show ?thesis
  proof (rule okp_mono [OF okp_conj [OF _ okp_allocproc_slot]])
    fix r and t :: "'z file_state_scheme" assume r: "settled c t \<and> (\<forall>j. r = Some j \<longrightarrow> j < NPROC)"
    show "Q r t" using assms(2,3) r by (cases r) auto
  qed (use assms(4) in auto)
qed

text \<open>The child gets a reference of its own to each file of the parent.\<close>

lemma okp_dup_fd:
  assumes t: "settled (Some c) t" and j: "j < NPROC" "fd < NOFILE"
  shows "okp (dup_fd c j fd) (\<lambda>_. settled (Some c)) (\<lambda>w t. settled (Some c) t \<and> w \<noteq> SwExit) t"
proof (cases "p_ofile (ptable t ! c) ! fd")
  case None
  then show ?thesis using t by (simp add: dup_fd_def)
next
  case (Some f)
  have h: "in_hand (\<lambda>_. 0) {} (Some c) t" using t by (simp add: settled_def)
  have u: "0 < uses (fds_of t) f" by (rule in_hand_uses [OF h _ j(2) Some]) (use in_hand_shape(4) [OF h] in simp)
  have "settled (Some c) (u\<lparr>ptable := (ptable u)[j := (ptable u ! j)\<lparr>p_ofile := (p_ofile (ptable u ! j))[fd := Some f]\<rparr>]\<rparr>)"
    if v: "fds_of u = fds_of t" "in_hand (one_ref f) {} (Some c) u" for u
  proof -
    let ?w = "u\<lparr>ptable := (ptable u)[j := (ptable u ! j)\<lparr>p_ofile := (p_ofile (ptable u ! j))[fd := Some f]\<rparr>]\<rparr>"
    have ty: "f_type (ftable u ! f) \<noteq> FD_NONE" by (rule in_hand_live(4) [OF v(2)]) (use u v(1) in simp_all)
    have "in_hand (\<lambda>_. 0) (insert f {}) (Some c) ?w" using in_hand_put [OF v(2) j, of f] by simp
    then show ?thesis using in_hand_typed [of "\<lambda>_. 0" f "{}" "Some c" ?w] one_ref_live [OF v(2)] ty by (simp add: settled_def)
  qed
  then have "okp (filedup f) (\<lambda>g. okp (set_proc j (\<lambda>q. q\<lparr>p_ofile := (p_ofile q)[fd := Some g]\<rparr>)) (\<lambda>_. settled (Some c)) (\<lambda>w t. settled (Some c) t \<and> w \<noteq> SwExit))
      (\<lambda>w t. settled (Some c) t \<and> w \<noteq> SwExit) t"
    by (intro okp_mono [OF okp_filedup [OF h]]) (use u in \<open>auto simp: one_ref_def\<close>)
  then show ?thesis using Some by (simp add: dup_fd_def)
qed

lemma okp_start_child:
  assumes t: "settled (Some c) t" and j: "j < NPROC"
  shows "okp (start_child c j) (\<lambda>_. settled (Some c)) (\<lambda>w t. settled (Some c) t \<and> w \<noteq> SwExit) t"
proof -
  let ?rest = "thn (dup_cwd c j) (
     bnd (get_proc j) (\<lambda>q.
     thn (set_proc j (\<lambda>q. q\<lparr>p_state := RUNNABLE\<rparr>)) (
     bnd (get_proc c) (\<lambda>p.
     thn (set_proc j (\<lambda>q. q\<lparr>p_name := safe_name 16 (p_name p)\<rparr>)) (
     ret (sint (p_pid q)))))))"
  have "files_kept ?rest" unfolding dup_cwd_def by (intro files_kept; simp add: file_panics_def)
  then have r: "okp ?rest (\<lambda>_. settled (Some c)) (\<lambda>w t. settled (Some c) t \<and> w \<noteq> SwExit) u" if "settled (Some c) u" for u
    by (rule okp_keeps) (auto elim: settled_step [OF that])
  have "okp (foreach [0..<NOFILE] (dup_fd c j)) (\<lambda>_. settled (Some c)) (\<lambda>w t. settled (Some c) t \<and> w \<noteq> SwExit) t"
    by (rule okp_foreach [where I = "settled (Some c)"]) (use t j in \<open>auto intro: okp_dup_fd\<close>)
  then have "okp (foreach [0..<NOFILE] (dup_fd c j)) (\<lambda>_. okp ?rest (\<lambda>_. settled (Some c)) (\<lambda>w t. settled (Some c) t \<and> w \<noteq> SwExit))
      (\<lambda>w t. settled (Some c) t \<and> w \<noteq> SwExit) t"
    by (rule okp_mono) (use r in auto)
  then show ?thesis unfolding start_child_def okp_thn .
qed

text \<open>What the two calls that start a process have in common.\<close>

lemma okp_cur:
  assumes "settled c t" "\<And>j. c = Some j \<Longrightarrow> okp (f j) Q B t"
  shows "okp (bnd curproc f) Q B t"
  using assms by (auto simp: settled_def in_hand_def split: option.splits)

lemma settles_fork: "settles fork"
proof (rule settlesI)
  fix s :: "'z file_state_scheme" and c assume s: "settled c s"
  let ?Q = "\<lambda>_ (t :: 'z file_state_scheme). settled c t" and ?B = "\<lambda>w (t :: 'z file_state_scheme). settled c t \<and> w \<noteq> SwExit"
  let ?fail = "\<lambda>j. bnd (get_proc j) (\<lambda>q.
           thn (kfree (p_kstack q)) (
           thn (set_proc j (\<lambda>q. q\<lparr>p_kstack := 0, p_state := UNUSED\<rparr>)) (ret (- 1))))"
  let ?go = "\<lambda>j i p. thn (set_proc j (\<lambda>q. q\<lparr>p_sz := p_sz p, p_parent := Some i, p_tf := (p_tf p)\<lparr>tf_eax := 0\<rparr>\<rparr>)) (start_child i j)"
  let ?body = "\<lambda>j. bnd curproc (\<lambda>i. bnd (get_proc i) (\<lambda>p. bnd (copyuvm (p_pgdir p) (p_sz p)) (\<lambda>d.
         thn (set_proc j (\<lambda>q. q\<lparr>p_pgdir := d\<rparr>)) (if d = 0 then ?fail j else ?go j i p))))"
  have fail: "okp (?fail j) ?Q ?B t" if "settled c t" for j t
  proof (rule okp_keeps)
    show "files_kept (?fail j)" by (intro files_kept; simp)
  qed (auto elim: settled_step [OF that])
  have go: "okp (?go j i p) ?Q ?B t" if "settled c t" "c = Some i" "j < NPROC" for j i p t
    unfolding thn_def
    by (rule okp_keeps_bnd [OF keeps_set_proc that(1)]) (use that okp_start_child in auto)
  have body: "okp (?body j) ?Q ?B t" if t: "settled c t" "j < NPROC" for j t
  proof (rule okp_cur [OF t(1)])
    fix i assume i: "c = Some i"
    have ifs: "okp (if d = 0 then ?fail j else ?go j i p) ?Q ?B u" if u: "settled c u" for d p u
      by (rule okp_if [THEN iffD2]) (use fail [OF u] go [OF u i t(2)] in \<open>simp only: split: if_split\<close>, blast)
    have "okp (thn (set_proc j (\<lambda>q. q\<lparr>p_pgdir := d\<rparr>)) (if d = 0 then ?fail j else ?go j i p)) ?Q ?B u" if u: "settled c u" for d p u
      unfolding thn_def [of "set_proc j (\<lambda>q. q\<lparr>p_pgdir := d\<rparr>)"] by (rule okp_keeps_bnd [OF keeps_set_proc u], simp, rule ifs)
    then show "okp (bnd (get_proc i) (\<lambda>p. bnd (copyuvm (p_pgdir p) (p_sz p)) (\<lambda>d.
         thn (set_proc j (\<lambda>q. q\<lparr>p_pgdir := d\<rparr>)) (if d = 0 then ?fail j else ?go j i p)))) ?Q ?B t"
      by (intro okp_keeps_bnd [OF keeps_get_proc t(1)] okp_keeps_bnd [OF keeps_copyuvm])
  qed
  show "okp fork ?Q ?B s"
    unfolding fork_def okp_bnd [of allocproc]
  proof (rule okp_allocproc [OF s], unfold option.case)
    show "okp (?body j) ?Q ?B t" if "settled c t" "j < NPROC" for j t using that by (rule body)
  qed simp_all
qed

lemma settles_clone: "settles (clone fcn arg stack)"
proof (rule settlesI)
  fix s :: "'z file_state_scheme" and c assume s: "settled c s"
  let ?Q = "\<lambda>_ (t :: 'z file_state_scheme). settled c t" and ?B = "\<lambda>w (t :: 'z file_state_scheme). settled c t \<and> w \<noteq> SwExit"
  let ?sp = "stack + PGSIZE - 8"
  let ?go = "\<lambda>j i. thn (set_proc j (\<lambda>q. q\<lparr>p_tstack := stack,
                   p_tf := (p_tf q)\<lparr>tf_eip := fcn, tf_ebp := ?sp, tf_eax := 0\<rparr>\<rparr>))
                (start_child i j)"
  let ?stack = "\<lambda>j i p. thn (set_proc j (\<lambda>q. q\<lparr>p_pgdir := p_pgdir p, p_sz := p_sz p, p_parent := Some i,
                   p_tf := (p_tf p)\<lparr>tf_esp := ?sp\<rparr>\<rparr>)) (
            bnd (copyout (p_pgdir p) ?sp (bytes32 0xFFFFFFFF @ bytes32 arg)) (\<lambda>_. ?go j i))"
  have go: "okp (?go j i) ?Q ?B t" if "settled c t" "c = Some i" "j < NPROC" for j i t
    unfolding thn_def by (rule okp_keeps_bnd [OF keeps_set_proc that(1)]) (use that okp_start_child in auto)
  have stk: "okp (?stack j i p) ?Q ?B t" if "settled c t" "c = Some i" "j < NPROC" for j i p t
    unfolding thn_def [of "set_proc j (\<lambda>q. q\<lparr>p_pgdir := p_pgdir p, p_sz := p_sz p, p_parent := Some i, p_tf := (p_tf p)\<lparr>tf_esp := ?sp\<rparr>\<rparr>)"]
    by (intro okp_keeps_bnd [OF keeps_set_proc that(1)] okp_keeps_bnd [OF keeps_copyout] go that) simp_all
  have "okp (bnd curproc (\<lambda>i. bnd (get_proc i) (?stack j i))) ?Q ?B t" if t: "settled c t" "j < NPROC" for j t
    by (intro okp_cur [OF t(1)] okp_keeps_bnd [OF keeps_get_proc t(1)] stk t)
  then show "okp (clone fcn arg stack) ?Q ?B s"
    unfolding clone_def Let_def using s by (auto intro!: okp_allocproc [OF s] simp del: okp_bnd simp: okp_nest(1))
qed

section \<open>Exit\<close>

text \<open>\<open>exit\<close> gives up a reference before it clears the descriptor; in between the process may wait for the disk.
  The state is settled but for this one descriptor.\<close>

definition cleared :: "nat \<Rightarrow> nat \<Rightarrow> 'z sched_state_scheme \<Rightarrow> 'z sched_state_scheme" where
  "cleared c fd t = t\<lparr>ptable := (ptable t)[c := (ptable t ! c)\<lparr>p_ofile := (p_ofile (ptable t ! c))[fd := None]\<rparr>]\<rparr>"

lemma okp_close_fd:
  assumes t: "settled (Some c) t" and fd: "fd < NOFILE"
  shows "okp (close_fd c fd) (\<lambda>_. settled (Some c)) (\<lambda>w u. w \<noteq> SwExit \<and> settled (Some c) (cleared c fd u)) t"
proof (cases "p_ofile (ptable t ! c) ! fd")
  case None
  then show ?thesis using t by (simp add: close_fd_def)
next
  case (Some f)
  have h: "in_hand (\<lambda>_. 0) {} (Some c) t" using t by (simp add: settled_def)
  note sh = in_hand_shape [OF h]
  have c: "c < NPROC" using sh(4) by simp
  have u: "0 < uses (fds_of t) f" by (rule in_hand_uses [OF h c fd Some])
  have "settled (Some c) (cleared c fd u)"
    if v: "fds_of u = fds_of t" "in_hand ((\<lambda>_. 0)(f := - 1)) {} (Some c) u" for u
  proof -
    have "fds_of u ! c = p_ofile (ptable u ! c)" "fds_of t ! c = p_ofile (ptable t ! c)"
      using c sh(2) in_hand_shape(2) [OF v(2)] by (simp_all add: fds_of_def)
    then have "p_ofile (ptable u ! c) ! fd = Some f" using v(1) Some by simp
    from in_hand_clear [OF v(2) c fd this] show ?thesis by (simp add: settled_def cleared_def)
  qed
  then have "okp (fileclose f) (\<lambda>_. okp (set_proc c (\<lambda>q. q\<lparr>p_ofile := (p_ofile q)[fd := None]\<rparr>)) (\<lambda>_. settled (Some c))
      (\<lambda>w u. w \<noteq> SwExit \<and> settled (Some c) (cleared c fd u))) (\<lambda>w u. w \<noteq> SwExit \<and> settled (Some c) (cleared c fd u)) t"
    by (intro okp_mono [OF okp_fileclose [OF h]]) (use u in \<open>auto simp: cleared_def\<close>)
  then show ?thesis using Some by (simp add: close_fd_def okp_nest)
qed

definition exit_blocked :: "nat option \<Rightarrow> switch \<Rightarrow> 'z file_state_scheme \<Rightarrow> bool" where
  "exit_blocked c w t \<longleftrightarrow> settled c t \<or> w \<noteq> SwExit \<and> (\<exists>i fd. c = Some i \<and> fd < NOFILE \<and> settled c (cleared i fd t))"

lemma okp_exit:
  assumes s: "settled c s"
  shows "okp exit (\<lambda>_. settled c) (exit_blocked c) s"
proof -
  let ?tail = "\<lambda>i. bnd (get_proc i) (\<lambda>p.
       thn (case p_cwd p of None \<Rightarrow> panic ''null cwd'' | Some i \<Rightarrow> iput i) (
       thn (set_proc i (\<lambda>p. p\<lparr>p_cwd := None\<rparr>)) (
       thn (lock Lptable) (exit_locked i))))"
  have fin: "okp (?tail i) (\<lambda>_. settled c) (exit_blocked c) t" if t: "settled c t" "c = Some i" for i t
  proof -
    let ?m = "\<lambda>p. thn (case p_cwd p of None \<Rightarrow> panic ''null cwd'' | Some i \<Rightarrow> iput i) (
       thn (set_proc i (\<lambda>p. p\<lparr>p_cwd := None\<rparr>)) (
       thn (lock Lptable) (
       bnd (get_proc i) (\<lambda>p.
       thn (wakeup1 (proc_chan (p_parent p))) (
       thn (foreach [0..<NPROC] (disown i)) (set_proc i (\<lambda>p. p\<lparr>p_state := ZOMBIE\<rparr>)))))))"
    have "files_kept (?m p)" for p by (intro files_kept; simp add: file_panics_def)
    then have "okp (?m p) (\<lambda>_. okp (sched SwExit) (\<lambda>_. settled c) (exit_blocked c)) (exit_blocked c) t" for p
    proof (rule okp_keeps)
      fix u assume "files u = files t"
      then have u: "settled c u" by (rule settled_step [OF t(1)])
      then have cu: "cur u = c" by (simp add: settled_def in_hand_def)
      have "settled c (u\<lparr>ptable := (ptable u)[i := (ptable u ! i)\<lparr>p_ctx := AtSched\<rparr>]\<rparr>)"
        by (rule settled_step [OF u]) simp
      then show "okp (sched SwExit) (\<lambda>_. settled c) (exit_blocked c) u"
        using cu t(2) by (simp add: sched_def file_panics_def exit_blocked_def)
    qed (auto simp: exit_blocked_def elim: settled_step [OF t(1)])
    then show ?thesis by (simp add: exit_locked_def okp_nest)
  qed
  have "okp (foreach [0..<NOFILE] (close_fd i)) (\<lambda>_. settled c) (exit_blocked c) s" if "c = Some i" for i
    by (rule okp_foreach [where I = "settled c", OF s])
      (use that in \<open>auto simp: exit_blocked_def intro!: okp_mono [OF okp_close_fd]\<close>)
  then have "okp (foreach [0..<NOFILE] (close_fd i)) (\<lambda>_. okp (?tail i) (\<lambda>_. settled c) (exit_blocked c)) (exit_blocked c) s" if "c = Some i" for i
    by (rule okp_mono) (use fin that in auto)
  then show ?thesis unfolding exit_def using s
    by (intro okp_cur) (auto simp: okp_nest file_panics_def)
qed

section \<open>All system calls\<close>

lemma okp_clone: "settled c t \<Longrightarrow> okp (clone fcn arg stack) (\<lambda>_. settled c) (\<lambda>w t. settled c t \<and> w \<noteq> SwExit) t"
  using settles_clone unfolding settles_def by blast

lemma settles_clone_call: "settles sys_clone"
  unfolding sys_clone_def
  by (rule settlesI) (auto intro!: okp_keeps_bnd [OF keeps_argptr] okp_clone simp del: okp_bnd split: option.splits)

lemma settles_call:
  assumes "syscalls junk num = Some h" "num \<noteq> 2"
  shows "settles h"
  using assms unfolding syscalls_def sys_fork_def
  by (auto split: if_splits intro: settles_fork settles_sys_pipe settles_sys_read settles_sys_write settles_sys_close
      settles_sys_open settles_sys_dup settles_clone_call keeps_settles files_kept keeps_sys_fstat)

lemma okp_cases: "okp m Q B s \<longleftrightarrow> (case m s of Done a t \<Rightarrow> Q a t | Panic e \<Rightarrow> e \<notin> file_panics | Block w t \<Rightarrow> B w t)"
  by (simp add: okp_def)

text \<open>C17: no system call leaves a dangling descriptor: when every descriptor of every process names a file with a type and
  with as many references as there are descriptors for it, this is so again whenever one of the 23 calls returns or gives up
  the CPU.  Only \<open>exit\<close>, which closes a file before it clears the descriptor, may wait for the disk in between; then it
  is so for the process table without this one descriptor of the exiting process, and when \<open>exit\<close> gives up the CPU for
  good it is so without exception.  No call panics because a file was used after it was freed.\<close>

theorem descriptors_stay_valid:
  assumes "fds_ok s" "syscalls junk num = Some h"
  shows "case h s of
      Done v t \<Rightarrow> fds_ok t
    | Panic e \<Rightarrow> e \<notin> {''filedup'', ''fileclose'', ''fileread'', ''filewrite''}
    | Block w t \<Rightarrow> fds_ok t \<or> num = 2 \<and> w \<noteq> SwExit \<and> (\<exists>c fd. cur s = Some c \<and> fd < NOFILE \<and>
        fds_ok (t\<lparr>ptable := (ptable t)[c := (ptable t ! c)\<lparr>p_ofile := (p_ofile (ptable t ! c))[fd := None]\<rparr>]\<rparr>))"
proof -
  have s: "settled (cur s) s" using assms(1) by (simp add: fds_ok_settled)
  have ok: "fds_ok t" if "settled (cur s) t" for t :: "'a kernel_state_scheme"
    using that by (simp add: fds_ok_inv settled_def in_hand_def)
  have "okp h (\<lambda>_. fds_ok) (\<lambda>w t. fds_ok t \<or> num = 2 \<and> w \<noteq> SwExit \<and> (\<exists>c fd. cur s = Some c \<and> fd < NOFILE \<and>
        fds_ok (t\<lparr>ptable := (ptable t)[c := (ptable t ! c)\<lparr>p_ofile := (p_ofile (ptable t ! c))[fd := None]\<rparr>]\<rparr>))) s"
  proof (cases "num = 2")
    case True
    then have h: "h = exit" using assms(2) by (simp add: syscalls_def sys_exit_def)
    show ?thesis
      unfolding h by (rule okp_mono [OF okp_exit [OF s]]) (use ok True in \<open>auto simp: exit_blocked_def cleared_def\<close>)
  next
    case False
    then have "okp h (\<lambda>_. settled (cur s)) (\<lambda>w t. settled (cur s) t \<and> w \<noteq> SwExit) s"
      using settles_call [OF assms(2)] s by (simp add: settles_def)
    then show ?thesis by (rule okp_mono) (use ok in auto)
  qed
  then show ?thesis unfolding okp_cases file_panics_def .
qed

text \<open>Two processes share the file 0 as their standard input.\<close>

definition shared_proc :: "proc \<Rightarrow> proc" where
  "shared_proc p = p\<lparr>p_ofile := (replicate NOFILE None)[0 := Some 0]\<rparr>"

definition shared_input :: kernel_state where
  "shared_input = (file_state.extend user_example \<lparr>ticks = 0, kbd_shift = 0, eois = 0\<rparr>)
     \<lparr>ptable := [shared_proc unused_proc, shared_proc unused_proc] @ replicate 62 unused_proc,
      ftable := (replicate NFILE no_file)[0 := no_file\<lparr>f_type := FD_INODE, f_ref := 2, f_readable := True\<rparr>]\<rparr>"

lemma shared_input_ok: "fds_ok shared_input"
proof -
  have u: "p_ofile unused_proc = replicate NOFILE None" by (simp add: unused_proc_def)
  have c: "cur shared_input = Some 0" by (simp add: shared_input_def file_state.defs)
  have p: "ptable shared_input = [shared_proc unused_proc, shared_proc unused_proc] @ replicate 62 unused_proc"
    "ftable shared_input = (replicate NFILE no_file)[0 := no_file\<lparr>f_type := FD_INODE, f_ref := 2, f_readable := True\<rparr>]"
    by (simp_all add: shared_input_def)
  have n: "count_list (replicate NOFILE None) (Some f) = 0" "count_list ((replicate NOFILE None)[0 := Some 0]) (Some f) = (if f = 0 then 1 else 0)" for f :: nat
    by (simp_all add: NOFILE_def numeral_nat)
  have "fd_count (ptable shared_input) f = (if f = 0 then 2 else 0)" for f
    unfolding p by (simp add: fd_count_def shared_proc_def u n sum_list_replicate)
  then show ?thesis
    unfolding fds_ok_def c by (auto simp: p NFILE_def NPROC_def shared_proc_def u)
qed

theorem descriptors_stay_valid_witness:
  "case sys_fork shared_input of
      Done v t \<Rightarrow> fds_ok t
    | Panic e \<Rightarrow> e \<notin> {''filedup'', ''fileclose'', ''fileread'', ''filewrite''}
    | Block w t \<Rightarrow> fds_ok t"
  using descriptors_stay_valid [OF shared_input_ok, of "[]" 1 sys_fork] by (simp add: syscalls_def split: outcome.splits)

end
