(* ===== verification/Keytext.thy ===== *)
theory Keytext
  imports Syscall Line
begin

text \<open>
  The keyboard and the console together: \<open>kernel/kbd.c\<close> hands its characters to \<open>kernel/console.c\<close>, from which
  \<open>consoleread\<close> takes the line.  \<open>stroke\<close> is what the controller sends for one key: it is pressed and let go, with the left
  shift key held down if the first component says so.
\<close>

section \<open>Key strokes\<close>

definition stroke :: "bool \<times> nat \<Rightarrow> u8 list" where
  "stroke x = (case x of (sh, k) \<Rightarrow>
     (if sh then [0x2A] else []) @ [of_nat k, of_nat (k + 128)] @ (if sh then [0xAA] else []))"

text \<open>The character on the key, before \<open>CapsLock\<close>; keys that are no modifiers and have a code of their own.\<close>

definition key_char :: "bool \<times> nat \<Rightarrow> nat" where
  "key_char x = (case x of (sh, k) \<Rightarrow> if sh then shiftmap k else normalmap k)"

definition plain_key :: "bool \<times> nat \<Rightarrow> bool" where
  "plain_key x \<longleftrightarrow> snd x < 0x60 \<and> shiftcode (snd x) = 0 \<and> togglecode (snd x) = 0"

definition caps :: "u32 \<Rightarrow> nat \<Rightarrow> nat" where
  "caps w c = (if w AND CAPSLOCK \<noteq> 0 then swap_case c else c)"

text \<open>No modifier key is held, and no escape code is pending.\<close>

definition at_rest :: "u32 \<Rightarrow> bool" where
  "at_rest w \<longleftrightarrow> \<not> bit w 0 \<and> \<not> bit w 1 \<and> \<not> bit w 6"

lemma flag_bit [simp]:
  "w AND CTL \<noteq> 0 \<longleftrightarrow> bit w 1" "w AND SHIFT \<noteq> 0 \<longleftrightarrow> bit w 0" "w AND E0ESC = 0 \<longleftrightarrow> \<not> bit w 6" "w AND CAPSLOCK = 0 \<longleftrightarrow> \<not> bit w 3"
  using and_exp_eq_0_iff_not_bit [of w 1] and_exp_eq_0_iff_not_bit [of w 0] and_exp_eq_0_iff_not_bit [of w 6]
    and_exp_eq_0_iff_not_bit [of w 3]
  by (simp_all add: CTL_def SHIFT_def E0ESC_def CAPSLOCK_def)

lemma bit_flag [simp]:
  "bit SHIFT n \<longleftrightarrow> n = 0" "bit CTL n \<longleftrightarrow> n = 1" "bit E0ESC n \<longleftrightarrow> n = 6"
proof -
  have e: "bit ((2 :: u32) ^ k) n \<longleftrightarrow> n = k" if "k < 32" for k
    using that by (auto simp: bit_exp_iff)
  show "bit SHIFT n \<longleftrightarrow> n = 0" "bit CTL n \<longleftrightarrow> n = 1" "bit E0ESC n \<longleftrightarrow> n = 6"
    using e [of 0] e [of 1] e [of 6] by (simp_all add: SHIFT_def CTL_def E0ESC_def)
qed

lemma map_index:
  "\<not> bit w 0 \<Longrightarrow> \<not> bit w 1 \<Longrightarrow> unat (w AND (CTL OR SHIFT)) = 0"
  "\<not> bit w 1 \<Longrightarrow> unat ((w OR SHIFT) AND (CTL OR SHIFT)) = 1"
proof -
  assume "\<not> bit w 0" "\<not> bit w 1"
  then have "w AND (CTL OR SHIFT) = 0" by (intro bit_word_eqI) (auto simp: bit_simps intro: Nat.gr0I)
  then show "unat (w AND (CTL OR SHIFT)) = 0" by simp
next
  assume "\<not> bit w 1"
  then have "(w OR SHIFT) AND (CTL OR SHIFT) = SHIFT" by (intro bit_word_eqI) (auto simp: bit_simps)
  then show "unat ((w OR SHIFT) AND (CTL OR SHIFT)) = 1" by (simp add: SHIFT_def)
qed

lemma scan_bits:
  "k < 128 \<Longrightarrow> (k :: nat) AND 0x80 = 0" "k < 128 \<Longrightarrow> (k + 128) AND 0x80 \<noteq> (0 :: nat)" "k < 128 \<Longrightarrow> (k + 128) AND 0x7F = (k :: nat)"
proof -
  assume k: "k < 128"
  have "(k + 128) div 128 = 1" using k by (simp add: div_nat_eqI)
  then have "\<not> bit k 7" "bit (k + 128) 7" using k by (simp_all add: bit_iff_odd)
  then show "k AND 0x80 = 0" "(k + 128) AND 0x80 \<noteq> 0"
    using and_exp_eq_0_iff_not_bit [of k 7] and_exp_eq_0_iff_not_bit [of "k + 128" 7] by simp_all
  have "(k + 128) AND mask 7 = k" using k by (simp add: take_bit_eq_mod flip: take_bit_eq_mask)
  then show "(k + 128) AND 0x7F = k" by (simp add: mask_eq_exp_minus_1)
qed

section \<open>What the driver makes of them\<close>

lemma scan_data: "k < 256 \<Longrightarrow> unat (of_nat k :: u8) = k"
  by (simp add: unat_of_nat take_bit_nat_eq_self)

lemma press:
  assumes "k < 0x60" "shiftcode k = 0" "togglecode k = 0" "\<not> bit w 6"
  shows "kbdgetc w (of_nat k) = (w, caps w (charcode (unat (w AND (CTL OR SHIFT))) k))"
  using assms scan_bits(1) [of k] by (simp add: kbdgetc_def scan_data Let_def caps_def)

lemma clear_escape: "\<not> bit w 6 \<Longrightarrow> w AND NOT (0 OR E0ESC) = w"
  by (rule bit_word_eqI) (auto simp: bit_simps)

lemma release:
  assumes "k < 0x60" "shiftcode k = 0" "\<not> bit w 6"
  shows "kbdgetc w (of_nat (k + 128)) = (w, 0)"
  using assms scan_bits(2,3) [of k] clear_escape [OF assms(3)] by (simp add: kbdgetc_def scan_data Let_def del: of_nat_add)

lemma shift_key: "shiftmap 0x2A = 0" "shiftcode 0x2A = SHIFT" "togglecode 0x2A = 0"
  by (simp_all add: shiftmap_def table_def special_keys_def codes_def shiftcode_def togglecode_def)

lemma press_shift: "at_rest w \<Longrightarrow> kbdgetc w 0x2A = (w OR SHIFT, 0)"
proof -
  assume w: "at_rest w"
  then have "unat ((w OR SHIFT) AND (CTL OR SHIFT)) = 1" by (simp add: at_rest_def map_index(2))
  then show ?thesis
    using w scan_bits(1) [of 42] shift_key by (simp add: kbdgetc_def Let_def at_rest_def charcode_def swap_case_def)
qed

lemma release_shift: "at_rest w \<Longrightarrow> kbdgetc (w OR SHIFT) 0xAA = (w, 0)"
proof -
  assume w: "at_rest w"
  have "(w OR SHIFT) AND NOT (SHIFT OR E0ESC) = w"
    using w by (intro bit_word_eqI) (auto simp: bit_simps at_rest_def intro: Nat.gr0I)
  moreover have "\<not> bit (w OR SHIFT) 6" using w by (simp add: at_rest_def bit_simps)
  ultimately show ?thesis using scan_bits(2,3) [of 42] shift_key(2) by (simp add: kbdgetc_def Let_def)
qed

text \<open>One key stroke gives its character, with nothing else but the 0 that stands for no character.\<close>

lemma kbd_chars_append:
  "kbd_chars w (as @ bs) = (case kbd_chars w as of (u, xs) \<Rightarrow> case kbd_chars u bs of (v, ys) \<Rightarrow> (v, xs @ ys))"
  by (induction as arbitrary: w) (simp_all add: Let_def split: prod.splits)

lemma kbd_chars_stroke:
  assumes w: "at_rest w" and k: "plain_key x"
  shows "\<exists>xs. kbd_chars w (stroke x) = (w, xs) \<and> filter (\<lambda>c. c \<noteq> 0) xs = filter (\<lambda>c. c \<noteq> 0) [caps w (key_char x)]"
proof -
  obtain sh k where x: "x = (sh, k)" by (cases x)
  have k: "k < 0x60" "shiftcode k = 0" "togglecode k = 0" using k by (simp_all add: plain_key_def x)
  have w6: "\<not> bit w 6" "\<not> bit (w OR SHIFT) 6" using w by (simp_all add: at_rest_def bit_simps)
  have c: "caps (w OR SHIFT) n = caps w n" for n by (simp add: caps_def bit_simps)
  show ?thesis
  proof (cases sh)
    case False
    have "charcode (unat (w AND (CTL OR SHIFT))) k = key_char x"
      using w False by (simp add: at_rest_def map_index charcode_def key_char_def x)
    then show ?thesis
      using press [OF k w6(1)] release [OF k(1,2) w6(1)] False by (simp add: stroke_def x del: of_nat_add)
  next
    case True
    have "charcode (unat ((w OR SHIFT) AND (CTL OR SHIFT))) k = key_char x"
      using w True by (simp add: at_rest_def map_index charcode_def key_char_def x)
    then show ?thesis
      using press_shift [OF w] press [OF k w6(2)] release [OF k(1,2) w6(2)] release_shift [OF w] True
      by (simp add: stroke_def x c del: of_nat_add)
  qed
qed

lemma kbd_chars_strokes:
  assumes "at_rest w" "\<forall>x \<in> set ks. plain_key x"
  shows "\<exists>xs. kbd_chars w (concat (map stroke ks)) = (w, xs) \<and>
    filter (\<lambda>c. c \<noteq> 0) xs = filter (\<lambda>c. c \<noteq> 0) (map (\<lambda>x. caps w (key_char x)) ks)"
  using assms(2)
proof (induction ks)
  case (Cons x ks)
  then obtain xs ys where "kbd_chars w (stroke x) = (w, xs)" "filter (\<lambda>c. c \<noteq> 0) xs = filter (\<lambda>c. c \<noteq> 0) [caps w (key_char x)]"
    "kbd_chars w (concat (map stroke ks)) = (w, ys)" "filter (\<lambda>c. c \<noteq> 0) ys = filter (\<lambda>c. c \<noteq> 0) (map (\<lambda>x. caps w (key_char x)) ks)"
    using kbd_chars_stroke [OF assms(1), of x] by auto
  then show ?case by (auto simp: kbd_chars_append)
qed simp

section \<open>What the console makes of them\<close>

lemma key_zero: "key 0 x = x"
  by (simp add: key_def ctrl_def)

lemma fold_key_filter: "fold key xs x = fold key (filter (\<lambda>c. c \<noteq> 0) xs) x"
  by (induction xs arbitrary: x) (auto simp: key_zero)

text \<open>Characters that only go into the line: not \<open>Ctrl-D\<close>, \<open>Ctrl-H\<close>, \<open>Ctrl-P\<close>, \<open>Ctrl-U\<close>, \<open>DEL\<close>, the newline and the return.\<close>

definition text_char :: "nat \<Rightarrow> bool" where
  "text_char c \<longleftrightarrow> c \<notin> {0, 4, 8, 10, 13, 16, 21, 127} \<and> c < 256"

lemma fold_key_text:
  assumes "\<forall>c \<in> set cs. text_char c" "length (entered x) + length (line x) + length cs < INPUT_BUF"
  shows "fold key cs x = x\<lparr>line := line x @ map of_nat cs\<rparr>"
  using assms
proof (induction cs arbitrary: x)
  case (Cons c cs)
  have "key c x = x\<lparr>line := line x @ [of_nat c]\<rparr>"
    using Cons.prems by (simp add: key_def text_char_def ctrl_def Let_def)
  then show ?case using Cons by simp
qed simp

lemma fold_key_line:
  assumes "\<forall>c \<in> set cs. text_char c" "length cs < INPUT_BUF"
  shows "fold key (cs @ [10]) \<lparr>entered = [], line = []\<rparr> = \<lparr>entered = map of_nat cs @ [10], line = []\<rparr>"
  using fold_key_text [of cs "\<lparr>entered = [], line = []\<rparr>"] assms by (simp add: key_def ctrl_def Let_def)

lemma take_line_text:
  assumes "\<forall>c \<in> set cs. text_char c"
  shows "take_line n acc (map of_nat cs @ [10]) = Some (acc @ take n (map of_nat cs @ [10]), drop n (map of_nat cs @ [10]))"
  using assms
proof (induction cs arbitrary: n acc)
  case Nil
  show ?case by (cases n) (simp_all add: ctrl_def)
next
  case (Cons c cs)
  have "unat (of_nat c :: u8) = c" using Cons.prems by (simp add: text_char_def scan_data)
  moreover have "of_nat c \<noteq> (10 :: u8)"
  proof
    assume "of_nat c = (10 :: u8)"
    then have "unat (of_nat c :: u8) = 10" by simp
    then show False using Cons.prems by (simp add: text_char_def scan_data)
  qed
  ultimately show ?case using Cons by (cases n) (simp_all add: text_char_def ctrl_def)
qed

section \<open>From the keys to the reader\<close>

text \<open>The text of a line typed by the keys \<open>ks\<close> and the enter key.\<close>

definition typed_text :: "u32 \<Rightarrow> (bool \<times> nat) list \<Rightarrow> u8 list" where
  "typed_text w ks = map (\<lambda>x. of_nat (caps w (key_char x))) ks @ [10]"

definition enter_key :: "bool \<times> nat" where
  "enter_key = (False, 0x1C)"

lemma enter_key: "plain_key enter_key" "caps w (key_char enter_key) = 10"
proof -
  show "plain_key enter_key" by (simp add: plain_key_def enter_key_def shiftcode_def togglecode_def)
  have "key_char enter_key = 10"
    by (simp add: enter_key_def key_char_def normalmap_def table_def special_keys_def codes_def)
  then show "caps w (key_char enter_key) = 10" by (simp add: caps_def swap_case_def)
qed

text \<open>C19: what is typed is what is read: when nothing has been entered yet and a line of keys is typed, each with or
  without shift, and then the enter key, the scan codes of the keys go through the driver and the line discipline to a
  process that reads: it gets the characters on the keys, with upper and lower case exchanged under \<open>CapsLock\<close>, and a
  newline, or as many bytes of this as it asks for, and what it does not take is left for the next read.\<close>

theorem typed_line_is_read:
  fixes s :: "'z kernel_state_scheme"
  assumes keys: "\<forall>x \<in> set ks. plain_key x \<and> text_char (caps (kbd_shift s) (key_char x))" "length ks < INPUT_BUF" "at_rest (kbd_shift s)"
    and cons: "held s = {}" "\<not> panicked s" "input_ok (input s)" "typed_of (input s) = \<lparr>entered = [], line = []\<rparr>"
    and reader: "i < length (inodes s)" "1 \<le> i_ref (inodes s ! i)" "i_busy (inodes s ! i)" "i_valid (inodes s ! i)"
      "cur s = Some c" "c < length (ptable s)" "\<not> p_killed (ptable s ! c)"
  shows "wp (thn (kbdintr pcs (concat (map stroke (ks @ [enter_key])))) (consoleread i n))
    (\<lambda>r t. r = Inl (Some (take n (typed_text (kbd_shift s) ks))) \<and>
       typed_of (input t) = \<lparr>entered = drop n (typed_text (kbd_shift s) ks), line = []\<rparr> \<and> held t = {} \<and> inodes t = inodes s) s"
proof -
  let ?w = "kbd_shift s" and ?L = "typed_text (kbd_shift s) ks"
  let ?cs = "map (\<lambda>x. caps ?w (key_char x)) ks"
  have tc: "\<forall>c \<in> set ?cs. text_char c" using keys(1) by auto
  have L: "?L = map of_nat ?cs @ [10]" by (simp add: typed_text_def o_def)
  have all: "\<forall>x \<in> set (ks @ [enter_key]). plain_key x" using keys(1) enter_key(1) by auto
  obtain xs where xs: "kbd_chars ?w (concat (map stroke (ks @ [enter_key]))) = (?w, xs)"
    "filter (\<lambda>c. c \<noteq> 0) xs = filter (\<lambda>c. c \<noteq> 0) (map (\<lambda>x. caps ?w (key_char x)) (ks @ [enter_key]))"
    using kbd_chars_strokes [OF keys(3) all] by blast
  have "filter (\<lambda>c. c \<noteq> 0) ?cs = ?cs" using tc by (intro filter_True) (auto simp: text_char_def)
  then have f: "filter (\<lambda>c. c \<noteq> 0) xs = ?cs @ [10]" using xs(2) enter_key(2) by simp
  have key: "fold key xs (typed_of (input s)) = \<lparr>entered = ?L, line = []\<rparr>"
    unfolding cons(4) fold_key_filter [of xs] f L by (rule fold_key_line [OF tc]) (use keys(2) in simp)
  have small: "\<forall>c \<in> set xs. c < 256"
    using kbd_chars_bound [of ?w "concat (map stroke (ks @ [enter_key]))"] xs(1) by simp
  have take: "take_line n [] ?L = Some (take n ?L, drop n ?L)" unfolding L using take_line_text [OF tc, of n "[]"] by simp
  have read: "wp (consoleread i n) (\<lambda>r t. r = Inl (Some (take n ?L)) \<and> typed_of (input t) = \<lparr>entered = drop n ?L, line = []\<rparr> \<and>
       held t = {} \<and> inodes t = inodes s) t"
    if t: "typing s \<lparr>entered = ?L, line = []\<rparr> t" for t
  proof -
    have k: "inodes t = inodes s" "cur t = cur s" "map p_killed (ptable t) = map p_killed (ptable s)"
      "held t = {}" "input_ok (input t)" "typed_of (input t) = \<lparr>entered = ?L, line = []\<rparr>"
      using t cons(1) by (simp_all add: typing_def procs_kept_def)
    have len: "length (ptable t) = length (ptable s)" using arg_cong [OF k(3), of length] by simp
    have "p_killed (ptable t ! c) = p_killed (ptable s ! c)"
      using arg_cong [OF k(3), of "\<lambda>l. l ! c"] reader(6) len by simp
    then have "wp (consoleread i n) (\<lambda>r t'. input_ok (input t') \<and> line (typed_of (input t')) = line (typed_of (input t)) \<and>
       (case take_line n [] (entered (typed_of (input t))) of
          Some (bs, rest) \<Rightarrow> r = Inl (Some bs) \<and> entered (typed_of (input t')) = rest \<and> held t' = {} \<and> inodes t' = inodes t
        | None \<Rightarrow> r = Inr (entered (typed_of (input t))) \<and> entered (typed_of (input t')) = [] \<and>
            (case cur t' of None \<Rightarrow> False | Some c \<Rightarrow> p_state (ptable t' ! c) = SLEEPING \<and> p_chan (ptable t' ! c) = Some ChInput))) t"
      by (intro consoleread_takes_line [where c = c]) (use reader k len in simp_all)
    then show ?thesis by (rule wp_mono) (simp add: k take)
  qed
  have "wp (consoleintr pcs xs) (\<lambda>_. wp (consoleread i n) (\<lambda>r t. r = Inl (Some (take n ?L)) \<and>
      typed_of (input t) = \<lparr>entered = drop n ?L, line = []\<rparr> \<and> held t = {} \<and> inodes t = inodes s)) s"
    by (rule wp_mono [OF wp_consoleintr]) (use cons small read key in auto)
  then show ?thesis using xs(1) by (simp add: kbdintr_def)
qed

text \<open>Somebody types \<open>Hi\<close> and the enter key, with the numeric lock on.\<close>

definition console_quiet :: kernel_state where
  "console_quiet = file_state.extend (cons_state.extend console_open \<lparr>ftable = []\<rparr>) \<lparr>ticks = 0, kbd_shift = NUMLOCK, eois = 0\<rparr>"

theorem typed_line_is_read_witness:
  "wp (thn (kbdintr (\<lambda>_. []) [0x2A, 0x23, 0xA3, 0xAA, 0x17, 0x97, 0x1C, 0x9C]) (consoleread 0 2))
    (\<lambda>r t. r = Inl (Some [72, 105]) \<and> typed_of (input t) = \<lparr>entered = [10], line = []\<rparr>) console_quiet"
proof -
  let ?ks = "[(True, 0x23), (False, 0x17)]"
  have c: "caps NUMLOCK (key_char (True, 0x23)) = 72" "caps NUMLOCK (key_char (False, 0x17)) = 105"
    by (simp_all add: caps_def key_char_def shiftmap_def normalmap_def table_def special_keys_def codes_def NUMLOCK_def)
  have f: "held console_quiet = {}" "cur console_quiet = Some 0" "ptable console_quiet = ptable two_threads"
    "inodes console_quiet = inodes root_open" "\<not> panicked console_quiet" "kbd_shift console_quiet = NUMLOCK"
    "input console_quiet = \<lparr>in_buf = replicate 128 0, in_r = 0, in_w = 0, in_e = 0\<rparr>"
    by (simp_all add: console_quiet_def file_state.defs cons_state.defs console_open_def fs_state.defs root_open_def
      bio_state.defs small_fs_def cold_cache_def)
  have ty: "typed_of (input console_quiet) = \<lparr>entered = [], line = []\<rparr>" "input_ok (input console_quiet)"
    unfolding f by (simp_all add: typed_of_def queued_def ring_content_def input_ok_def ring_ok_def INPUT_BUF_def)
  have b: "concat (map stroke (?ks @ [enter_key])) = [0x2A, 0x23, 0xA3, 0xAA, 0x17, 0x97, 0x1C, 0x9C]"
    by (simp add: stroke_def enter_key_def)
  have p: "\<forall>x \<in> set ?ks. plain_key x" by (simp add: plain_key_def shiftcode_def togglecode_def)
  have "wp (thn (kbdintr (\<lambda>_. []) (concat (map stroke (?ks @ [enter_key])))) (consoleread 0 2))
    (\<lambda>r t. r = Inl (Some (take 2 (typed_text (kbd_shift console_quiet) ?ks))) \<and>
       typed_of (input t) = \<lparr>entered = drop 2 (typed_text (kbd_shift console_quiet) ?ks), line = []\<rparr> \<and>
       held t = {} \<and> inodes t = inodes console_quiet) console_quiet"
  proof (rule typed_line_is_read [where c = 0])
    show "\<forall>x \<in> set ?ks. plain_key x \<and> text_char (caps (kbd_shift console_quiet) (key_char x))"
      using p by (simp add: f c text_char_def)
    show "at_rest (kbd_shift console_quiet)" by (simp add: f at_rest_def NUMLOCK_def bit_iff_odd)
  qed (use ty in \<open>simp_all add: f INPUT_BUF_def root_inode_def\<close>)
  then show ?thesis unfolding b by (rule wp_mono) (simp add: f typed_text_def c)
qed

end
