(* ===== verification/Spec2Isabelle.thy ===== *)
theory Spec2Isabelle
  imports Prelude Physmem Kalloc Kstring Vm VmUser Sched Ring Pipe Chain Spinlock Wakeup Bio Bcache
    Layout Inode Balloc Icache Console Line Ifile Files Grow Ftable Umem Proc Life Sysfile Exec Kbd Syscall
    Ulib Grep Sh Shrun Mem Stack Setop Fastsort Mysh Umalloc Mkread Mp Intr Refs Keytext
begin

text \<open>
  The operating system of \<open>src/lab5/xv6-thread\<close>, a 32-bit xv6 with kernel threads, its shell,
  \<open>grep\<close> and user library, and the programs of the other laboratories: the set difference and the sort of \<open>src/lab1\<close>, the
  shell of \<open>src/lab2/shell\<close>, the memory allocator of \<open>src/lab3/Malloc and Free\<close> and the kernel with a growing stack of
  \<open>src/lab4/xv6 Vm Layout\<close>.  Where nothing else is said, file names are relative to \<open>src/lab5/xv6-thread\<close>.

  \<^bold>\<open>How the code is modelled.\<close>  A routine of the kernel is a value of type \<open>('s, 'w, 'a) prog\<close>: a function from the
  state to an outcome.  It returns (\<open>Done a s\<close>), calls \<open>panic\<close> (\<open>Panic m\<close>), or gives up the CPU (\<open>Block w s\<close>), where
  \<open>w\<close> says on which channel it sleeps and with which lock.  \<open>bnd\<close>, \<open>thn\<close> and \<open>whenP\<close> sequence routines as the code does;
  \<open>wp m Q s\<close> is the weakest precondition, whose rules carry the proofs.  What a sleeping routine does when it runs
  again is its loop head (\<open>piperead_head\<close>, \<open>wait_head\<close>, \<open>join_head\<close>, \<open>sleep_head\<close>), a definition of its own.  A C
  integer is a word of its width, an address of the machine is a \<open>u32\<close>, an array with bounds the code checks is a
  list, a pointer into a table of the kernel is an index.  The state is a chain of records, each theory extending
  the one below with the variables of its C file, so that a lemma on the lower layers holds in the state of every upper
  layer.

  \<^bold>\<open>Theories, from the bottom.\<close>
  \<^item> \<open>Prelude\<close>: outcomes, programs, \<open>wp\<close>.  \<open>Chain\<close>: doubly linked lists.  \<open>Ring\<close>: ring buffers with free-running
    counters, and the locale \<open>fifo\<close> of a bounded queue.
  \<^item> \<open>Physmem\<close>: bytes of physical memory, little-endian words, \<open>kernel/mmu.h\<close>.  \<open>Kstring\<close>: \<open>kernel/string.c\<close>.
  \<^item> \<open>Kalloc\<close>: \<open>kernel/kalloc.c\<close>.  The free list lives in the free pages; \<open>flist\<close> reads it.  The locale
    \<open>page_allocator\<close> is what the layers above use of it.
  \<^item> \<open>Vm\<close>, \<open>VmUser\<close>: \<open>kernel/vm.c\<close>.  A page directory and its tables are pages of memory; \<open>vm_inv\<close> says that they form
    a tree of distinct used pages, \<open>lookup\<close> is the translation the hardware performs.
  \<^item> \<open>Spinlock\<close>: \<open>kernel/spinlock.c\<close>, as a step relation of all CPUs over the lock words, and as the two operations
    \<open>lock\<close> and \<open>unlock\<close> that one routine sees; the first refines the second.
  \<^item> \<open>Sched\<close>, \<open>Proc\<close>, \<open>Life\<close>, \<open>Wakeup\<close>: \<open>kernel/proc.c\<close>.  \<open>Sched\<close> has the table, slots, sleep and wakeup, \<open>kill\<close>
    and \<open>growproc\<close>; \<open>Proc\<close> has \<open>fork\<close>, \<open>clone\<close>, \<open>exit\<close>, \<open>wait\<close> and \<open>join\<close>; \<open>Life\<close> their theorems; \<open>Wakeup\<close> the
    interleavings of sleepers and wakers.
  \<^item> \<open>Pipe\<close>: \<open>kernel/pipe.c\<close>, an instance of \<open>fifo\<close>.
  \<^item> \<open>Bio\<close>, \<open>Bcache\<close>: \<open>kernel/bio.c\<close> and \<open>kernel/ide.c\<close>.  \<open>Bio\<close> has the buffers, the request queue and the port
    writes of a request; \<open>Bcache\<close> the invariant \<open>cache_ok\<close> (one LRU list, each block cached once, what is clean agrees with
    the disk) and the locale \<open>block_store\<close>: a client sees an array of blocks.
  \<^item> \<open>Layout\<close>: the structures of \<open>include/fs.h\<close> as bytes of a block.  \<open>Inode\<close>, \<open>Balloc\<close>, \<open>Icache\<close>: the block
    allocator, the inode cache and the block map of \<open>kernel/fs.c\<close>; \<open>Ifile\<close>, \<open>Files\<close>: its file contents, directories
    and paths; \<open>Grow\<close>: writing to a file that takes new blocks from the disk as it grows.
  \<^item> \<open>Console\<close>, \<open>Line\<close>, \<open>Kbd\<close>: \<open>kernel/console.c\<close>, \<open>kernel/uart.c\<close>, \<open>kernel/kbd.c\<close>.  \<open>Line\<close> gives the abstract line
    discipline: the text entered so far and the line being edited; its ring buffer is an instance of \<open>fifo\<close>.
  \<^item> \<open>Ftable\<close>: \<open>kernel/file.c\<close>.  \<open>Umem\<close>: arguments of system calls, read through the page table.  \<open>Sysfile\<close>:
    \<open>kernel/sysfile.c\<close>.  \<open>Exec\<close>: \<open>kernel/exec.c\<close>.  \<open>Syscall\<close>: \<open>kernel/sysproc.c\<close>, \<open>kernel/syscall.c\<close>, \<open>kernel/trap.c\<close>.
  \<^item> \<open>Keeps\<close>, \<open>Refs\<close>: the descriptors of the processes against the references of the open files, over all system calls.
    \<open>Keeps\<close> has the rules for a routine that touches neither, one lemma for each routine below; \<open>Refs\<close> the invariant.
    \<open>Keytext\<close>: keyboard, line discipline and reader together.
  \<^item> \<open>Mp\<close>: \<open>kernel/mp.c\<close>, the search of the BIOS memory for the table of CPUs.  \<open>Intr\<close>: \<open>kernel/picirq.c\<close>,
    \<open>kernel/ioapic.c\<close>, \<open>kernel/timer.c\<close>, \<open>kernel/lapic.c\<close>, and \<open>uartinit\<close> and \<open>ideinit\<close>: the accesses to the
    devices in their order, the values read being a function of the accesses before.
  \<^item> \<open>Mkfs\<close>, \<open>Mktree\<close>, \<open>Mkread\<close>: \<open>tools/mkfs.c\<close>, which builds the disk image.  The image is a list of sectors, the
    directory of the host a tree.  \<open>Mkfs\<close> has the program, \<open>Mktree\<close> what its image holds, \<open>Mkread\<close> that the file system
    of the kernel, started on that image, reads back what the host had.
  \<^item> \<open>Ulib\<close>: \<open>user/ulib.c\<close>, \<open>user/printf.c\<close>, \<open>user/wc.c\<close>.  \<open>Grep\<close>: \<open>user/grep.c\<close>.  \<open>Sh\<close>, \<open>Shrun\<close>: \<open>user/sh.c\<close>,
    the parser over the bytes of a line, and the system calls of a command as a tree whose branches are their results.
    \<open>Umalloc\<close>: \<open>user/umalloc.c\<close> and the thread wrappers of \<open>user/ulib.c\<close>.
  \<^item> \<open>Setop\<close>: \<open>src/lab1/0a/set_operation.c\<close>, linked lists in a heap of nodes.  \<open>Fastsort\<close>: \<open>src/lab1/0b/fastsort.c\<close>;
    \<open>qsort\<close> of the C library is a parameter, and \<open>sorts\<close> is what the C standard promises of it.  \<open>Mysh\<close>:
    \<open>src/lab2/shell\<close>, the parser over the bytes of a line and the system calls of a pipeline as a tree.
  \<^item> \<open>Mem\<close>: the allocator of laboratory 3, over 8-byte cells of memory.
  \<^item> \<open>Stack\<close>: what the kernel of laboratory 4, \<open>src/lab4/xv6 Vm Layout/kernel\<close>, does otherwise: a stack at the top of the
    user part that grows on page faults, and with it \<open>growproc\<close>, \<open>copyuvm\<close>, \<open>fork\<close>, \<open>exec\<close> and the checked arguments.

  \<^bold>\<open>What is shown.\<close>
  \<^item> Memory: \<open>kfree\<close> and \<open>kalloc\<close> keep a list of distinct pages; \<open>mappages\<close>, \<open>allocuvm\<close>, \<open>copyuvm\<close> and \<open>freevm\<close> do to
    the translation and to the set of free pages what their callers need, on success and on failure.  The one failure
    that does not give back what it took is that of \<open>setupkvm\<close> (\<open>setupkvm_leaks\<close>).
  \<^item> Concurrency: mutual exclusion of spin locks, over the program counters of the CPUs; the refinement of a lock by its
    implementation, action by action; no lost wakeups; a pipe as a stream under any interleaving of readers, writers and
    closers, writes that fail half way included.
  \<^item> Processes: \<open>fork\<close> makes a copy; \<open>wait\<close> reaps the first zombie child and clears its slot; the part of \<open>exit\<close> under
    \<open>ptable.lock\<close> leaves exactly the process table it should, down to who is woken; \<open>growproc\<close> resizes all threads of an
    address space.
  \<^item> System calls: no call leaves a descriptor whose file has been freed or has no type, and none panics for such a reason;
    while \<open>exit\<close> waits for the disk this holds but for the one descriptor it is closing.
  \<^item> Disk and files: a block read is the block last written; \<open>balloc\<close> takes the least free block; the inode cache counts
    references; metadata survives eviction; a read after a write gives the bytes written, also when the write allocates the
    blocks it needs; directories and paths are searched
    as specified.
  \<^item> Start: the disk image built from a tree of files is read back by the kernel as that tree; the CPUs found are those
    of the table; the interrupt controllers are left with the lines enabled that were asked for.
  \<^item> Console: any sequence of keys has the effect of the abstract line discipline; the screen is never left; a line typed on
    the keyboard is the line that is read.
  \<^item> User programs: the shell's parser is total and inverts the printing of commands, its strings are terminated, and
    \<open>runcmd\<close> connects processes as the command says and leaves no end of a pipe open, in the waiting shell neither; the
    matcher of \<open>grep\<close> decides the language of its pattern.
  \<^item> \<open>malloc\<close> and \<open>free\<close>: in a single thread, for requests that do not wrap around, the blocks handed out, the
    free ones and the header of the ring never overlap, and every call returns.
  \<^item> Laboratory 1: the set program prints the difference of its inputs and uses no null pointer; the sort program writes a
    sorted permutation of its input when the keys are less than \<open>2^31\<close> apart.
  \<^item> Laboratory 2: the shell reads back the commands that were printed from words without the characters it replaces, no
    line makes it write behind its arrays, and a pipeline connects each process to the next.
  \<^item> Laboratory 3: in every run with requests of at least one byte the blocks handed out are disjoint, the styles choose
    the block they name, and freeing merges neighbours until the whole region is one block again.
  \<^item> Laboratory 4: heap, gap and stack keep their layout when either grows; a fault below the stack maps what it needs or
    kills the process; an accepted argument is mapped.
  \<^item> Faults of the code are theorems too: \<open>setupkvm_leaks\<close>, \<open>growproc_to_zero_reports_failure\<close>, \<open>kill_zero_poisons_next_process\<close>,
    \<open>balloc_past_the_end\<close>, \<open>exit_leaves_threads_behind\<close>, \<open>grep_prints_stale_line\<close>, \<open>grep_loses_split_line\<close>,
    \<open>mem_alloc_zero_breaks_heap\<close>, \<open>argptr4_accepts_high\<close>, \<open>fastsort_wrong_order\<close>, \<open>pipeline_plumbing\<close> (the read ends
    stay open), \<open>parseLine_star\<close>, \<open>empty_command_crashes\<close>, \<open>umalloc_wraps\<close>, \<open>malloc_deadlocks\<close>,
    \<open>inode_over_bitmap\<close>, \<open>mpinit_reads_table\<close> (an unknown entry of the table is read for ever).

  \<^bold>\<open>Bounds and fuel.\<close>  A loop over a table recurs over its length.  \<open>kill_line\<close> gets one more step than the ring holds.
  The parser of the shell gets fuel \<open>4 * length + 4\<close>; \<open>parsecmd_terminates\<close> shows that it is never used up.  The walks over
  linked lists in \<open>Mem\<close>, \<open>Setop\<close> and \<open>Umalloc\<close> are partial functions whose value is \<open>None\<close> when they do not end; on the
  lists of a run they are shown to return.  \<open>match_from\<close>, \<open>matchhere\<close>, \<open>kinit_loop\<close>, the loops of the two shells and the
  loops of \<open>Mkfs\<close> (\<open>iappend_loop\<close>, \<open>copy_file\<close>, \<open>add_dir\<close>) have termination proofs.  \<open>mpsearch1_loop\<close> takes one step for
  each 16 bytes searched; the walk over the table is a partial function, shown to return when every entry is known.

  \<^bold>\<open>Not modelled.\<close>  \<open>main.c\<close>, \<open>bootmain.c\<close> and \<open>tvinit\<close> (calls and descriptor tables in a fixed order),
  \<open>getcallerpcs\<close>, the assembly files (a context switch is a \<open>Block\<close> outcome), the small user programs, and \<open>generate.c\<close> and
  \<open>dump.c\<close> of laboratory 1, which write and print files of records.  \<open>src/lab2/xv6\<close> is a variant of the kernel modelled here, and
  so is the rest of \<open>src/lab4\<close>.  \<open>set_operation_original.c\<close> is the faulty program that the README of laboratory 1
  debugs.  The disk is a parameter of the state: it returns what was last written to a sector, or sets the error bits.
\<close>

end
